(* ===== verification/Prelude.thy ===== *)
theory Prelude imports Main "HOL-Library.Word" begin

text \<open>
  Shared vocabulary of the development.

  \<^item> \<open>program_error\<close>: the error enum of hopper-runtime, variant for variant, and its
    64-bit runtime encoding.
  \<^item> \<open>'a outcome\<close>: what a Rust call does. \<open>Ok\<close> and \<open>Err\<close> are the two arms of
    \<^verbatim>\<open>Result\<close>; \<open>Trap\<close> is everything else: a slice index or an unsafe access outside the
    buffer, an arithmetic panic, a division by zero. A theorem that a call never
    traps is therefore a memory- and panic-safety statement.
  \<^item> byte buffers as lists of 8-bit words, with \<open>bslice\<close> / \<open>bsplice\<close> as the read and
    write of a byte range and little-endian numbers.
  A method that takes \<^verbatim>\<open>&mut self\<close> and can fail is a function to \<open>('s \<times> 'a) outcome\<close>:
  in the code modelled here every error return comes before the first write, so an
  \<open>Err\<close> leaves the caller with the state it passed in.
\<close>

named_theorems outcome_simps "unfolding of the outcome operations"

section \<open>Errors\<close>

datatype program_error =
    Custom "32 word"
  | InvalidArgument
  | InvalidInstructionData
  | InvalidAccountData
  | AccountDataTooSmall
  | InsufficientFunds
  | IncorrectProgramId
  | MissingRequiredSignature
  | AccountAlreadyInitialized
  | UninitializedAccount
  | NotEnoughAccountKeys
  | AccountBorrowFailed
  | MaxSeedLengthExceeded
  | InvalidSeeds
  | BorshIoError
  | AccountNotRentExempt
  | UnsupportedSysvar
  | IllegalOwner
  | MaxAccountsDataAllocationsExceeded
  | InvalidRealloc
  | MaxInstructionTraceLengthExceeded
  | BuiltinProgramsMustConsumeComputeUnits
  | InvalidAccountOwner
  | ArithmeticOverflow
  | Immutable
  | IncorrectAuthority

section \<open>Outcomes of a call\<close>

datatype 'a outcome = Ok 'a | Err program_error | Trap

fun obind :: "'a outcome \<Rightarrow> ('a \<Rightarrow> 'b outcome) \<Rightarrow> 'b outcome" where
  "obind (Ok x) f = f x"
| "obind (Err e) f = Err e"
| "obind Trap f = Trap"

text \<open>A guard: the early return \<^verbatim>\<open>if c { return Err(e) }\<close> in front of the rest of a body.\<close>

definition fail_if :: "bool \<Rightarrow> program_error \<Rightarrow> 'a outcome \<Rightarrow> 'a outcome" where
  "fail_if c e rest = (if c then Err e else rest)"

lemmas fail_if_simps [outcome_simps, simp] = fail_if_def

text \<open>\<^verbatim>\<open>Option::ok_or\<close>.\<close>

fun ok_or :: "'a option \<Rightarrow> program_error \<Rightarrow> 'a outcome" where
  "ok_or (Some x) e = Ok x"
| "ok_or None e = Err e"

lemma obind_Ok_iff: "obind m f = Ok y \<longleftrightarrow> (\<exists>x. m = Ok x \<and> f x = Ok y)"
  by (cases m) auto

lemma obind_assoc [simp]: "obind (obind m f) g = obind m (\<lambda>x. obind (f x) g)"
  by (cases m) auto

lemma obind_cong [fundef_cong]:
  "m = m' \<Longrightarrow> (\<And>x. m' = Ok x \<Longrightarrow> f x = g x) \<Longrightarrow> obind m f = obind m' g"
  by (cases m') auto

lemma ok_or_Ok_iff [simp]: "ok_or x e = Ok y \<longleftrightarrow> x = Some y"
  by (cases x) auto

lemma ok_or_not_Trap [simp]: "ok_or x e \<noteq> Trap"
  by (cases x) auto

section \<open>Bytes\<close>

type_synonym u8 = "8 word"
type_synonym u16 = "16 word"
type_synonym u32 = "32 word"
type_synonym u64 = "64 word"
type_synonym u128 = "128 word"
type_synonym bytes = "8 word list"

definition bslice :: "nat \<Rightarrow> nat \<Rightarrow> 'a list \<Rightarrow> 'a list" where
  "bslice off n d = take n (drop off d)"

definition bsplice :: "nat \<Rightarrow> 'a list \<Rightarrow> 'a list \<Rightarrow> 'a list" where
  "bsplice off x d = take off d @ x @ drop (off + length x) d"

text \<open>Reading and writing a byte range of a buffer: outside the buffer is a \<open>Trap\<close>.\<close>

definition rd :: "bytes \<Rightarrow> nat \<Rightarrow> nat \<Rightarrow> bytes outcome" where
  "rd d off n = (if off + n \<le> length d then Ok (bslice off n d) else Trap)"

definition wr :: "bytes \<Rightarrow> nat \<Rightarrow> bytes \<Rightarrow> bytes outcome" where
  "wr d off x = (if off + length x \<le> length d then Ok (bsplice off x d) else Trap)"

lemma length_bslice [simp]: "off + n \<le> length d \<Longrightarrow> length (bslice off n d) = n"
  by (simp add: bslice_def)

lemma length_bsplice [simp]: "off + length x \<le> length d \<Longrightarrow> length (bsplice off x d) = length d"
  by (simp add: bsplice_def)

lemma bslice_nth: "off + n \<le> length d \<Longrightarrow> i < n \<Longrightarrow> bslice off n d ! i = d ! (off + i)"
  by (simp add: bslice_def)

lemma bsplice_nth:
  assumes "off + length x \<le> length d" and "i < length d"
  shows "bsplice off x d ! i = (if off \<le> i \<and> i < off + length x then x ! (i - off) else d ! i)"
  using assms by (auto simp: bsplice_def nth_append)

lemma bslice_bsplice_same [simp]:
  "off + length x \<le> length d \<Longrightarrow> bslice off (length x) (bsplice off x d) = x"
  by (simp add: bslice_def bsplice_def)

lemma bslice_bsplice_eq: "off + n \<le> length d \<Longrightarrow> length x = n \<Longrightarrow> bslice off n (bsplice off x d) = x"
  by auto

lemma bslice_bsplice_disjoint:
  assumes "off + length x \<le> length d" and "a + n \<le> off \<or> off + length x \<le> a"
  shows "bslice a n (bsplice off x d) = bslice a n d"
  using assms(2)
proof
  assume le: "a + n \<le> off"
  with assms(1) have "take n (drop a (bsplice off x d)) = take n (drop a (take off d))"
    by (simp add: bsplice_def)
  also have "\<dots> = take n (drop a d)"
    using le by (simp add: drop_take min_def)
  finally show ?thesis by (simp add: bslice_def)
next
  assume le: "off + length x \<le> a"
  then have "drop a (bsplice off x d) = drop (a - (off + length x)) (drop (off + length x) d)"
    using assms(1) by (simp add: bsplice_def)
  then show ?thesis using le by (simp add: bslice_def)
qed

lemma bslice_bslice: "a + m \<le> n \<Longrightarrow> bslice a m (bslice off n d) = bslice (off + a) m d"
  by (simp add: bslice_def drop_take add.commute min_def)

lemma bslice_bsplice_inside:
  assumes "off + length x \<le> length d" and "off \<le> a" and "a + n \<le> off + length x"
  shows "bslice a n (bsplice off x d) = bslice (a - off) n x"
proof (rule nth_equalityI)
  show len: "length (bslice a n (bsplice off x d)) = length (bslice (a - off) n x)"
    using assms by simp
  fix i assume "i < length (bslice a n (bsplice off x d))"
  then show "bslice a n (bsplice off x d) ! i = bslice (a - off) n x ! i"
    using assms by (simp add: bslice_nth bsplice_nth)
qed

lemma bsplice_append:
  assumes "off + length x + length y \<le> length d"
  shows "bsplice (off + length x) y (bsplice off x d) = bsplice off (x @ y) d"
proof (rule nth_equalityI)
  show "length (bsplice (off + length x) y (bsplice off x d)) = length (bsplice off (x @ y) d)"
    using assms by simp
  fix i assume "i < length (bsplice (off + length x) y (bsplice off x d))"
  then have "i < length d" using assms by simp
  then show "bsplice (off + length x) y (bsplice off x d) ! i = bsplice off (x @ y) d ! i"
    using assms by (auto simp: bsplice_nth nth_append)
qed

lemma bsplice_within:
  assumes "off + n \<le> length d" and "a + length x \<le> n"
  shows "bsplice (off + a) x d = bsplice off (bsplice a x (bslice off n d)) d"
proof (rule nth_equalityI)
  show "length (bsplice (off + a) x d) = length (bsplice off (bsplice a x (bslice off n d)) d)"
    using assms by simp
  fix i assume "i < length (bsplice (off + a) x d)"
  then have "i < length d" using assms by simp
  then show "bsplice (off + a) x d ! i = bsplice off (bsplice a x (bslice off n d)) d ! i"
    using assms by (auto simp: bsplice_nth bslice_nth)
qed

lemma bslice_take_drop: "bslice 0 n x = take n x" "a + n = length x \<Longrightarrow> bslice a n x = drop a x"
  by (simp_all add: bslice_def)

lemma bsplice_tail: "a + length y = length x \<Longrightarrow> bsplice a y x = take a x @ y"
  by (simp add: bsplice_def)

lemma rd_eq [simp]: "off + n \<le> length d \<Longrightarrow> rd d off n = Ok (bslice off n d)"
  by (simp add: rd_def)

lemma wr_eq [simp]: "off + length x \<le> length d \<Longrightarrow> wr d off x = Ok (bsplice off x d)"
  by (simp add: wr_def)

section \<open>Little-endian numbers\<close>

fun le_val :: "bytes \<Rightarrow> nat" where
  "le_val [] = 0"
| "le_val (b # bs) = unat b + 256 * le_val bs"

fun le_enc :: "nat \<Rightarrow> nat \<Rightarrow> bytes" where
  "le_enc 0 v = []"
| "le_enc (Suc n) v = word_of_nat v # le_enc n (v div 256)"

lemma length_le_enc [simp]: "length (le_enc n v) = n"
  by (induction n arbitrary: v) auto

text \<open>For evaluating closed instances.\<close>

lemma le_enc_4:
  "le_enc 4 v = [word_of_nat v, word_of_nat (v div 256), word_of_nat (v div 256 div 256),
     word_of_nat (v div 256 div 256 div 256)]"
proof -
  have "(4::nat) = Suc (Suc (Suc (Suc 0)))" by simp
  then show ?thesis by (simp only: le_enc.simps)
qed

lemmas eval_bytes = bslice_def bsplice_def le_enc_4

lemma unat_of_nat_u8: "unat (word_of_nat v :: u8) = v mod 256"
  by (simp add: unat_of_nat)

lemma mod_mult_split: "(v::nat) mod (256 * m) = v mod 256 + 256 * (v div 256 mod m)"
  by (simp add: mod_mult2_eq)

lemma le_val_enc: "le_val (le_enc n v) = v mod 256 ^ n"
  by (induction n arbitrary: v) (auto simp: unat_of_nat_u8 mod_mult_split)

lemma le_val_bound: "le_val bs < 256 ^ length bs"
proof (induction bs)
  case Nil
  then show ?case by simp
next
  case (Cons b bs)
  have "unat b < 256" using unsigned_less [of b, where 'a = nat] by simp
  with Cons show ?case by simp
qed

lemma le_enc_val: "le_enc (length bs) (le_val bs) = bs"
proof (induction bs)
  case Nil
  then show ?case by simp
next
  case (Cons b bs)
  have b: "unat b < 256" using unsigned_less [of b, where 'a = nat] by simp
  have "(word_of_nat (unat b + 256 * le_val bs) :: u8) = b"
    by (rule word_unat_eq_iff [THEN iffD2]) (simp only: unat_of_nat_u8, simp add: b)
  with b Cons show ?case by (simp add: div_add1_eq)
qed

lemma le_enc_val': "length bs = n \<Longrightarrow> le_enc n (le_val bs) = bs"
  using le_enc_val [of bs] by simp

lemma le_val_inject: "length xs = length ys \<Longrightarrow> le_val xs = le_val ys \<Longrightarrow> xs = ys"
  by (metis le_enc_val)

definition rd_u32 :: "bytes \<Rightarrow> nat \<Rightarrow> nat outcome" where
  "rd_u32 d off = obind (rd d off 4) (\<lambda>b. Ok (le_val b))"

definition wr_u32 :: "bytes \<Rightarrow> nat \<Rightarrow> nat \<Rightarrow> bytes outcome" where
  "wr_u32 d off v = wr d off (le_enc 4 v)"

definition u32_at :: "bytes \<Rightarrow> nat \<Rightarrow> nat" where
  "u32_at d off = le_val (bslice off 4 d)"

lemma rd_u32_eq [simp]: "off + 4 \<le> length d \<Longrightarrow> rd_u32 d off = Ok (u32_at d off)"
  by (simp add: rd_u32_def u32_at_def)

lemma wr_u32_eq [simp]: "off + 4 \<le> length d \<Longrightarrow> wr_u32 d off v = Ok (bsplice off (le_enc 4 v) d)"
  by (simp add: wr_u32_def)

lemma u32_at_bound: "off + 4 \<le> length d \<Longrightarrow> u32_at d off < 2 ^ 32"
  using le_val_bound [of "bslice off 4 d"] by (simp add: u32_at_def)

lemma u32_at_bsplice_same [simp]:
  "off + 4 \<le> length d \<Longrightarrow> u32_at (bsplice off (le_enc 4 v) d) off = v mod 2 ^ 32"
  by (simp add: u32_at_def bslice_bsplice_eq le_val_enc)

lemma u32_at_bsplice_disjoint:
  "off + length x \<le> length d \<Longrightarrow> a + 4 \<le> off \<or> off + length x \<le> a \<Longrightarrow>
   u32_at (bsplice off x d) a = u32_at d a"
  by (simp add: u32_at_def bslice_bsplice_disjoint)

section \<open>Single bytes\<close>

text \<open>Indexing \<^verbatim>\<open>data[i]\<close>: out of range panics.\<close>

definition rd_byte :: "bytes \<Rightarrow> nat \<Rightarrow> u8 outcome" where
  "rd_byte d i = (if i < length d then Ok (d ! i) else Trap)"

definition wr_byte :: "bytes \<Rightarrow> nat \<Rightarrow> u8 \<Rightarrow> bytes outcome" where
  "wr_byte d i b = (if i < length d then Ok (d[i := b]) else Trap)"

lemma rd_byte_eq [simp]: "i < length d \<Longrightarrow> rd_byte d i = Ok (d ! i)"
  by (simp add: rd_byte_def)

lemma wr_byte_wr: "wr_byte d i b = wr d i [b]"
  by (auto simp: wr_byte_def wr_def bsplice_def upd_conv_take_nth_drop)

section \<open>Byte loops\<close>

text \<open>
  \<^verbatim>\<open>for byte in &mut data[off..off + n] { *byte = 0 }\<close> and the copy loop
  \<^verbatim>\<open>for i in 0..n { data[dst + i] = data[src + i] }\<close>. \<open>move_bytes\<close> is
  \<^verbatim>\<open>core::ptr::copy\<close>, which reads the whole source before it writes.
\<close>

definition zero_bytes :: "bytes \<Rightarrow> nat \<Rightarrow> nat \<Rightarrow> bytes outcome" where
  "zero_bytes d off n = wr d off (replicate n 0)"

fun copy_bytes :: "bytes \<Rightarrow> nat \<Rightarrow> nat \<Rightarrow> nat \<Rightarrow> bytes outcome" where
  "copy_bytes d dst src 0 = Ok d"
| "copy_bytes d dst src (Suc n) =
     obind (rd d src 1) (\<lambda>b. obind (wr d dst b) (\<lambda>d'. copy_bytes d' (Suc dst) (Suc src) n))"

definition move_bytes :: "bytes \<Rightarrow> nat \<Rightarrow> nat \<Rightarrow> nat \<Rightarrow> bytes outcome" where
  "move_bytes d dst src n = obind (rd d src n) (wr d dst)"

lemma zero_bytes_eq [simp]:
  "off + n \<le> length d \<Longrightarrow> zero_bytes d off n = Ok (bsplice off (replicate n 0) d)"
  by (simp add: zero_bytes_def)

lemma move_bytes_eq [simp]:
  "src + n \<le> length d \<Longrightarrow> dst + n \<le> length d \<Longrightarrow>
   move_bytes d dst src n = Ok (bsplice dst (bslice src n d) d)"
  by (simp add: move_bytes_def)

lemma copy_bytes_eq:
  assumes "src + n \<le> length d" and "dst + n \<le> length d"
    and "dst + n \<le> src \<or> src + n \<le> dst"
  shows "copy_bytes d dst src n = Ok (bsplice dst (bslice src n d) d)"
  using assms
proof (induction n arbitrary: d dst src)
  case 0
  then show ?case by (simp add: bsplice_def bslice_def)
next
  case (Suc n)
  let ?b = "bslice src 1 d"
  let ?d' = "bsplice dst ?b d"
  have b: "length ?b = 1" and d': "length ?d' = length d" using Suc.prems by simp_all
  have rest: "bslice (Suc src) n ?d' = bslice (Suc src) n d"
    using Suc.prems by (intro bslice_bsplice_disjoint) auto
  have "copy_bytes ?d' (Suc dst) (Suc src) n = Ok (bsplice (Suc dst) (bslice (Suc src) n d) ?d')"
    using Suc.IH [of "Suc src" ?d' "Suc dst"] Suc.prems rest by (auto simp: d')
  moreover have "bsplice (Suc dst) (bslice (Suc src) n d) ?d' = bsplice dst (bslice src (Suc n) d) d"
  proof (rule nth_equalityI)
    show "length (bsplice (Suc dst) (bslice (Suc src) n d) ?d') =
          length (bsplice dst (bslice src (Suc n) d) d)"
      using Suc.prems by (simp add: d')
    fix i assume "i < length (bsplice (Suc dst) (bslice (Suc src) n d) ?d')"
    then have i: "i < length d" using Suc.prems by (simp add: d')
    show "bsplice (Suc dst) (bslice (Suc src) n d) ?d' ! i = bsplice dst (bslice src (Suc n) d) d ! i"
      using Suc.prems i by (auto simp: bsplice_nth d' bslice_nth not_le less_Suc_eq_le Suc_diff_Suc)
  qed
  ultimately show ?case using Suc.prems b by simp
qed

section \<open>Sizes\<close>

text \<open>
  Lengths and offsets are \<^verbatim>\<open>usize\<close> (64 bits on every target) and are modelled as naturals.
  Account data is at most 10 MiB on Solana, so every buffer here is shorter than
  \<open>2 ^ 32\<close> and a slot count always fits the 32-bit header fields.
\<close>

definition account_sized :: "bytes \<Rightarrow> bool" where
  "account_sized d \<longleftrightarrow> length d < 2 ^ 32"

end
