(* ===== verification/Slots.thy ===== *)
theory Slots imports Prelude begin

text \<open>
  Every collection of hopper-core is an array of fixed-size slots behind a small header.
  The locale \<open>slot_store\<close> is the interface the collections rely on: reading a slot gives
  what was last written to it, and writing a slot leaves the others alone. Its lemmas turn
  slot writes into list updates. The byte layout \<open>base + i * sz\<close> provides it.
\<close>

definition contents :: "('m \<Rightarrow> nat \<Rightarrow> 'e) \<Rightarrow> 'm \<Rightarrow> nat \<Rightarrow> 'e list" where
  "contents get m n = map (get m) [0..<n]"

lemma length_contents [simp]: "length (contents get m n) = n"
  by (simp add: contents_def)

lemma contents_0 [simp]: "contents get m 0 = []"
  by (simp add: contents_def)

lemma contents_Suc: "contents get m (Suc n) = contents get m n @ [get m n]"
  by (simp add: contents_def)

lemma contents_nth: "i < n \<Longrightarrow> contents get m n ! i = get m i"
  by (simp add: contents_def)

lemma contents_butlast: "0 < n \<Longrightarrow> contents get m (n - 1) = butlast (contents get m n)"
  by (cases n) (auto simp: contents_Suc)

lemma contents_last: "0 < n \<Longrightarrow> last (contents get m n) = get m (n - 1)"
  by (cases n) (auto simp: contents_Suc)

lemma contents_cong: "(\<And>i. i < n \<Longrightarrow> f i = g i) \<Longrightarrow> contents (\<lambda>_. f) m n = contents (\<lambda>_. g) m n"
  by (simp add: contents_def)

locale slot_store =
  fixes get :: "'m \<Rightarrow> nat \<Rightarrow> 'e"
    and put :: "'m \<Rightarrow> nat \<Rightarrow> 'e \<Rightarrow> 'm"
    and room :: "'m \<Rightarrow> nat"
    and good :: "'e \<Rightarrow> bool"
  assumes get_put_same: "i < room m \<Longrightarrow> good x \<Longrightarrow> get (put m i x) i = x"
    and get_put_other: "i < room m \<Longrightarrow> good x \<Longrightarrow> j < room m \<Longrightarrow> j \<noteq> i \<Longrightarrow>
      get (put m i x) j = get m j"
    and room_put: "i < room m \<Longrightarrow> good x \<Longrightarrow> room (put m i x) = room m"
begin

lemma contents_put:
  assumes "i < n" and "n \<le> room m" and "good x"
  shows "contents get (put m i x) n = (contents get m n)[i := x]"
  using assms
  by (intro nth_equalityI) (auto simp: contents_def nth_list_update get_put_same get_put_other)

lemma contents_put_beyond:
  assumes "n \<le> i" and "i < room m" and "good x"
  shows "contents get (put m i x) n = contents get m n"
  using assms by (auto simp: contents_def get_put_other)

lemma contents_snoc:
  assumes "n < room m" and "good x"
  shows "contents get (put m n x) (Suc n) = contents get m n @ [x]"
  using assms contents_put_beyond [of n n m x] by (simp add: contents_Suc get_put_same)

lemma contents_move_last:
  assumes "i < n - 1" and "n \<le> room m" and "good (get m (n - 1))" and "good z"
  shows "contents get (put (put m i (get m (n - 1))) (n - 1) z) (n - 1) =
    butlast ((contents get m n)[i := last (contents get m n)])"
proof -
  obtain k where k: "n = Suc k" using assms(1) by (cases n) auto
  have "contents get (put (put m i (get m k)) k z) k = contents get (put m i (get m k)) k"
    using assms k by (intro contents_put_beyond) (auto simp: room_put)
  also have "\<dots> = (contents get m k)[i := get m k]"
    using assms k by (intro contents_put) auto
  finally show ?thesis using assms(1) k by (simp add: contents_Suc list_update_append)
qed

end

section \<open>The byte layout\<close>

definition slot_get :: "nat \<Rightarrow> nat \<Rightarrow> bytes \<Rightarrow> nat \<Rightarrow> bytes" where
  "slot_get base sz d i = bslice (base + i * sz) sz d"

definition slot_put :: "nat \<Rightarrow> nat \<Rightarrow> bytes \<Rightarrow> nat \<Rightarrow> bytes \<Rightarrow> bytes" where
  "slot_put base sz d i x = bsplice (base + i * sz) x d"

definition slot_room :: "nat \<Rightarrow> nat \<Rightarrow> bytes \<Rightarrow> nat" where
  "slot_room base sz d = (length d - base) div sz"

lemma slot_in_bounds:
  assumes "i < slot_room base sz d"
  shows "base + i * sz + sz \<le> length d"
proof -
  have "Suc i * sz \<le> (length d - base) div sz * sz"
    using assms by (intro mult_le_mono1) (simp add: slot_room_def)
  also have "\<dots> \<le> length d - base" by (rule div_times_less_eq_dividend)
  finally have *: "i * sz + sz \<le> length d - base" by simp
  have "0 < sz" using assms by (cases sz) (auto simp: slot_room_def)
  with * have "base \<le> length d" by arith
  with * show ?thesis by arith
qed

lemma slots_apart:
  assumes "i \<noteq> (j::nat)"
  shows "i * sz + sz \<le> j * sz \<or> j * sz + sz \<le> i * sz"
proof -
  have *: "a * sz + sz \<le> b * sz" if "a < b" for a b :: nat
    using that mult_le_mono1 [of "Suc a" b sz] by simp
  from assms consider "i < j" | "j < i" by linarith
  then show ?thesis using * by cases auto
qed

lemma length_slot_put [simp]:
  "i < slot_room base sz d \<Longrightarrow> length x = sz \<Longrightarrow> length (slot_put base sz d i x) = length d"
  using slot_in_bounds [of i base sz d] by (simp add: slot_put_def)

lemma length_slot_get [simp]: "i < slot_room base sz d \<Longrightarrow> length (slot_get base sz d i) = sz"
  using slot_in_bounds [of i base sz d] by (simp add: slot_get_def)

lemma slot_put_header:
  assumes "i < slot_room base sz d" and "length x = sz" and "a + n \<le> base"
  shows "bslice a n (slot_put base sz d i x) = bslice a n d"
  using assms slot_in_bounds [of i base sz d] unfolding slot_put_def
  by (intro bslice_bsplice_disjoint) auto

lemma slot_get_header:
  assumes "a + length x \<le> base" and "i < slot_room base sz d" and "a + length x \<le> length d"
  shows "slot_get base sz (bsplice a x d) i = slot_get base sz d i"
  using assms unfolding slot_get_def by (intro bslice_bsplice_disjoint) auto

lemma slot_room_bsplice [simp]:
  "a + length x \<le> length d \<Longrightarrow> slot_room base sz (bsplice a x d) = slot_room base sz d"
  by (simp add: slot_room_def)

interpretation arr: slot_store "slot_get base sz" "slot_put base sz" "slot_room base sz"
    "\<lambda>x. length x = sz" for base sz
proof
  fix i m and x :: bytes
  assume i: "i < slot_room base sz m" and x: "length x = sz"
  note b = slot_in_bounds [OF i]
  show "slot_get base sz (slot_put base sz m i x) i = x"
    using b x by (simp add: slot_get_def slot_put_def bslice_bsplice_eq)
  show "slot_room base sz (slot_put base sz m i x) = slot_room base sz m"
    using b x by (simp add: slot_put_def)
  fix j assume j: "j < slot_room base sz m" and ne: "j \<noteq> i"
  show "slot_get base sz (slot_put base sz m i x) j = slot_get base sz m j"
    using b x slots_apart [OF ne, of sz] unfolding slot_get_def slot_put_def
    by (intro bslice_bsplice_disjoint) auto
qed

lemma u32_at_slot_put:
  "i < slot_room base sz d \<Longrightarrow> length x = sz \<Longrightarrow> a + 4 \<le> base \<Longrightarrow>
   u32_at (slot_put base sz d i x) a = u32_at d a"
  by (simp add: u32_at_def slot_put_header)

lemma slots_header:
  assumes "a + length x \<le> base" and "n \<le> slot_room base sz d" and "a + length x \<le> length d"
  shows "contents (slot_get base sz) (bsplice a x d) n = contents (slot_get base sz) d n"
  using assms by (auto simp: contents_def slot_get_header)

lemma rd_slot [simp]:
  "i < slot_room base sz d \<Longrightarrow> rd d (base + i * sz) sz = Ok (slot_get base sz d i)"
  using slot_in_bounds [of i base sz d] by (simp add: slot_get_def)

lemma wr_slot [simp]:
  "i < slot_room base sz d \<Longrightarrow> length x = sz \<Longrightarrow>
   wr d (base + i * sz) x = Ok (slot_put base sz d i x)"
  using slot_in_bounds [of i base sz d] by (simp add: slot_put_def)

lemma zero_slot [simp]:
  "i < slot_room base sz d \<Longrightarrow>
   zero_bytes d (base + i * sz) sz = Ok (slot_put base sz d i (replicate sz 0))"
  by (simp add: zero_bytes_def)

lemma copy_slot:
  assumes i: "i < slot_room base sz d" and j: "j < slot_room base sz d" and ne: "i \<noteq> j"
  shows "copy_bytes d (base + i * sz) (base + j * sz) sz = Ok (slot_put base sz d i (slot_get base sz d j))"
proof -
  have "copy_bytes d (base + i * sz) (base + j * sz) sz =
      Ok (bsplice (base + i * sz) (bslice (base + j * sz) sz d) d)"
    using slot_in_bounds [OF i] slot_in_bounds [OF j] slots_apart [OF ne, of sz]
    by (intro copy_bytes_eq) auto
  then show ?thesis by (simp add: slot_put_def slot_get_def)
qed

lemma slot_room_small: "account_sized d \<Longrightarrow> slot_room b sz d < 2 ^ 32"
  by (simp add: account_sized_def slot_room_def)
     (meson div_le_dividend diff_le_self le_less_trans order_trans)

text \<open>Moving \<open>n\<close> slots from slot \<open>b\<close> to slot \<open>a\<close> with one \<^verbatim>\<open>core::ptr::copy\<close>.\<close>

lemma move_slots:
  assumes "a + n \<le> slot_room base sz d" and "b + n \<le> slot_room base sz d" and "0 < n"
  shows "\<exists>d'. move_bytes d (base + a * sz) (base + b * sz) (n * sz) = Ok d' \<and> length d' = length d \<and>
    (\<forall>k. k \<le> base \<longrightarrow> take k d' = take k d) \<and>
    (\<forall>j < slot_room base sz d. slot_get base sz d' j =
      slot_get base sz d (if a \<le> j \<and> j < a + n then b + (j - a) else j))"
proof -
  have bound: "base + k * sz + n * sz \<le> length d" if "k + n \<le> slot_room base sz d" for k
    using slot_in_bounds [of "k + n - 1" base sz d] that assms(3) by (cases n) (auto simp: algebra_simps)
  note bounds = bound [OF assms(1)] bound [OF assms(2)]
  let ?d = "bsplice (base + a * sz) (bslice (base + b * sz) (n * sz) d) d"
  have "slot_get base sz ?d j = slot_get base sz d (if a \<le> j \<and> j < a + n then b + (j - a) else j)"
    if j: "j < slot_room base sz d" for j
  proof (cases "a \<le> j \<and> j < a + n")
    case True
    then obtain i where i: "j = a + i" "i < n" by (metis le_add_diff_inverse nat_add_left_cancel_less)
    have "i * sz + sz \<le> n * sz" using i(2) mult_le_mono1 [of "Suc i" n sz] by simp
    then have "slot_get base sz ?d j = bslice (i * sz) sz (bslice (base + b * sz) (n * sz) d)"
      using bounds i(1) unfolding slot_get_def
      by (subst bslice_bsplice_inside) (auto simp: algebra_simps)
    also have "\<dots> = slot_get base sz d (b + i)"
      using \<open>i * sz + sz \<le> n * sz\<close> by (simp add: slot_get_def bslice_bslice algebra_simps)
    finally show ?thesis using True i by simp
  next
    case False
    then have "j * sz + sz \<le> a * sz \<or> a * sz + n * sz \<le> j * sz"
      using mult_le_mono1 [of "Suc j" a sz] mult_le_mono1 [of "a + n" j sz]
      by (auto simp: add_mult_distrib not_le not_less Suc_le_eq)
    then show ?thesis using bounds False unfolding slot_get_def
      by (subst bslice_bsplice_disjoint) auto
  qed
  moreover have "take k ?d = take k d" if "k \<le> base" for k
    using that bounds by (simp add: bsplice_def min_def)
  moreover have "length ?d = length d" using bounds by simp
  ultimately show ?thesis using bounds by auto
qed

lemma u32_at_take:
  assumes "take k d' = take k d" and "a + 4 \<le> k"
  shows "u32_at d' a = u32_at d a"
proof -
  have "take (4 + a) d' = take (4 + a) (take k d')" using assms(2) by (simp add: min_def)
  also have "\<dots> = take (4 + a) d" unfolding assms(1) using assms(2) by (simp add: min_def)
  finally show ?thesis by (simp add: u32_at_def bslice_def take_drop)
qed

text \<open>Reading and writing part of a slot.\<close>

lemma slot_part:
  assumes "i < slot_room base sz d" and "a + n \<le> sz"
  shows "rd d (base + i * sz + a) n = Ok (bslice a n (slot_get base sz d i))"
  using slot_in_bounds [OF assms(1)] assms(2) by (simp add: slot_get_def bslice_bslice)

lemma slot_part_write:
  assumes "i < slot_room base sz d" and "a + length x \<le> sz"
  shows "wr d (base + i * sz + a) x = Ok (slot_put base sz d i (bsplice a x (slot_get base sz d i)))"
  using slot_in_bounds [OF assms(1)] assms(2)
  by (simp add: slot_put_def slot_get_def bsplice_within [of _ sz])

lemma slot_byte:
  "i < slot_room base sz d \<Longrightarrow> a < sz \<Longrightarrow> rd_byte d (base + i * sz + a) = Ok (slot_get base sz d i ! a)"
  using slot_in_bounds [of i base sz d] by (simp add: slot_get_def bslice_nth)

lemma slot_put_put:
  assumes "i < slot_room base sz d" and "length x = sz" and "length y = sz"
  shows "slot_put base sz (slot_put base sz d i x) i y = slot_put base sz d i y"
  using slot_in_bounds [OF assms(1)] assms(2,3)
  by (intro nth_equalityI) (auto simp: slot_put_def bsplice_nth)

section \<open>Circular indexing\<close>

text \<open>The physical slot of logical index \<open>i\<close> in a ring of \<open>c\<close> slots.\<close>

definition phys :: "nat \<Rightarrow> nat \<Rightarrow> nat \<Rightarrow> nat \<Rightarrow> nat" where
  "phys c head count i = (head + (c - count) + i) mod c"

lemma phys_less: "0 < c \<Longrightarrow> phys c h n i < c"
  by (simp add: phys_def)

lemma phys_next:
  assumes "n < c"
  shows "phys c ((h + 1) mod c) (n + 1) i = phys c h n i"
proof -
  have "(h + 1) mod c + (c - (n + 1)) + i = (h + 1) mod c + ((c - (n + 1)) + i)" by simp
  then have "phys c ((h + 1) mod c) (n + 1) i = ((h + 1) + ((c - (n + 1)) + i)) mod c"
    unfolding phys_def by (metis mod_add_left_eq)
  also have "(h + 1) + ((c - (n + 1)) + i) = h + (c - n) + i" using assms by simp
  finally show ?thesis by (simp add: phys_def)
qed

lemma phys_next_full: "phys c ((h + 1) mod c) c i = phys c h c (i + 1)"
  by (simp add: phys_def mod_simps)

lemma phys_newest: "h < c \<Longrightarrow> n \<le> c \<Longrightarrow> phys c h n n = h"
  by (simp add: phys_def)

lemma phys_not_head:
  assumes "h < c" and "i < n" and "n \<le> c" and "n < c \<or> 0 < i"
  shows "phys c h n i \<noteq> h"
proof -
  let ?k = "c - n + i"
  have k: "0 < ?k" "?k < c" using assms by auto
  have "phys c h n i = (h + ?k) mod c" by (simp add: phys_def add.assoc)
  also have "\<dots> = (if h + ?k < c then h + ?k else h + ?k - c)"
    using assms(1) k by (simp add: mod_if)
  also have "\<dots> \<noteq> h" using k by auto
  finally show ?thesis .
qed

section \<open>Views\<close>

text \<open>The view struct the collections share: the borrowed bytes and the cached capacity.\<close>

record view =
  vdata :: bytes
  vcap :: nat

end
