(* ===== verification/Contracts.thy ===== *)
theory Contracts imports Prelude begin

text \<open>
  The interfaces of the development that are not about bytes.

  \<^item> \<open>safe_calls\<close>: no call of a component, however many came before it, leaves its buffer.
  \<^item> \<open>simulation\<close>: a concrete component refines an abstract one, call by call; its
    lemmas lift that to every sequence of calls, failed calls included;
    \<open>bounded_simulation\<close> is the variant for a bounded number of calls.
  \<^item> \<open>bounded_log\<close>: appending to a log that refuses when it is full.
  \<^item> \<open>overwriting_log\<close>: appending to a log that forgets its oldest entry when full;
    \<open>ready n\<close> says the log is well formed and good for \<open>n\<close> more appends (a counter of the
    log may be bounded).
  \<^item> \<open>total_cmp\<close>: Rust's \<^verbatim>\<open>Ord\<close> contract for a key comparison.
\<close>

section \<open>Runs of calls\<close>

text \<open>
  A caller issues calls one after another and sees each result. A call that returns an
  error leaves the state as it was, and the caller may go on.
\<close>

fun after_call :: "'s \<Rightarrow> ('s \<times> 'r) outcome \<Rightarrow> 's" where
  "after_call s (Ok (s', r)) = s'"
| "after_call s (Err e) = s"
| "after_call s Trap = s"

fun result_of :: "('s \<times> 'r) outcome \<Rightarrow> 'r outcome" where
  "result_of (Ok (s', r)) = Ok r"
| "result_of (Err e) = Err e"
| "result_of Trap = Trap"

fun run_calls :: "('s \<Rightarrow> 'c \<Rightarrow> ('s \<times> 'r) outcome) \<Rightarrow> 's \<Rightarrow> 'c list \<Rightarrow> 's \<times> 'r outcome list" where
  "run_calls exec s [] = (s, [])"
| "run_calls exec s (c # cs) =
     (let out = exec s c; (t, rs) = run_calls exec (after_call s out) cs
      in (t, result_of out # rs))"

fun map_state :: "('s \<Rightarrow> 't) \<Rightarrow> ('s \<times> 'r) outcome \<Rightarrow> ('t \<times> 'r) outcome" where
  "map_state f (Ok (s, r)) = Ok (f s, r)"
| "map_state f (Err e) = Err e"
| "map_state f Trap = Trap"

lemma result_of_map_state [simp]: "result_of (map_state f out) = result_of out"
  by (cases out rule: result_of.cases) auto

lemma after_call_map_state [simp]: "after_call (f s) (map_state f out) = f (after_call s out)"
  by (cases out rule: result_of.cases) auto

lemma result_of_Trap_iff [simp]: "result_of out = Trap \<longleftrightarrow> out = Trap"
  by (cases out rule: result_of.cases) auto

text \<open>What a call hands back to its caller.\<close>

datatype answer = RUnit | RBytes bytes | RNum nat | RBool bool | ROpt "nat option" | RPair nat nat

definition unit_call :: "'s outcome \<Rightarrow> ('s \<times> answer) outcome" where
  "unit_call m = obind m (\<lambda>s. Ok (s, RUnit))"

definition read_call :: "'s \<Rightarrow> 'x outcome \<Rightarrow> ('x \<Rightarrow> answer) \<Rightarrow> ('s \<times> answer) outcome" where
  "read_call s m f = obind m (\<lambda>x. Ok (s, f x))"

definition value_call :: "('s \<times> 'x) outcome \<Rightarrow> ('x \<Rightarrow> answer) \<Rightarrow> ('s \<times> answer) outcome" where
  "value_call m f = obind m (\<lambda>(s, x). Ok (s, f x))"

lemmas call_defs [outcome_simps] = unit_call_def read_call_def value_call_def

locale safe_calls =
  fixes exec :: "'s \<Rightarrow> 'o \<Rightarrow> ('s \<times> 'r) outcome"
    and inv :: "'s \<Rightarrow> bool"
    and wt :: "'o \<Rightarrow> bool"
  assumes call_safe: "inv s \<Longrightarrow> wt c \<Longrightarrow> exec s c \<noteq> Trap"
    and call_inv: "inv s \<Longrightarrow> wt c \<Longrightarrow> exec s c = Ok (s', r) \<Longrightarrow> inv s'"
begin

lemma run_safe:
  assumes "inv s" and "list_all wt cs"
  shows "inv (fst (run_calls exec s cs)) \<and> Trap \<notin> set (snd (run_calls exec s cs))"
  using assms
proof (induction cs arbitrary: s)
  case Nil
  then show ?case by simp
next
  case (Cons c cs)
  then have ne: "exec s c \<noteq> Trap" by (simp add: call_safe)
  have "inv (after_call s (exec s c))"
    using Cons.prems by (cases "exec s c" rule: result_of.cases) (auto dest: call_inv)
  from Cons.IH [OF this] Cons.prems ne show ?case
    by (auto simp: Let_def split_beta dest: sym)
qed

end

locale simulation =
  fixes cexec :: "'c \<Rightarrow> 'o \<Rightarrow> ('c \<times> 'r) outcome"
    and aexec :: "'a \<Rightarrow> 'o \<Rightarrow> ('a \<times> 'r) outcome"
    and abs :: "'c \<Rightarrow> 'a"
    and inv :: "'c \<Rightarrow> bool"
    and wt :: "'o \<Rightarrow> bool"
  assumes simulates: "inv s \<Longrightarrow> wt c \<Longrightarrow> map_state abs (cexec s c) = aexec (abs s) c"
    and preserves: "inv s \<Longrightarrow> wt c \<Longrightarrow> cexec s c = Ok (s', r) \<Longrightarrow> inv s'"
    and abstract_total: "aexec a c \<noteq> Trap"
begin

lemma after_inv: "inv s \<Longrightarrow> wt c \<Longrightarrow> inv (after_call s (cexec s c))"
  by (cases "cexec s c" rule: result_of.cases) (auto dest: preserves)

lemma run_refines:
  assumes "inv s" and "list_all wt cs"
  shows "inv (fst (run_calls cexec s cs)) \<and>
    abs (fst (run_calls cexec s cs)) = fst (run_calls aexec (abs s) cs) \<and>
    snd (run_calls cexec s cs) = snd (run_calls aexec (abs s) cs)"
  using assms
proof (induction cs arbitrary: s)
  case Nil
  then show ?case by simp
next
  case (Cons c cs)
  have s: "map_state abs (cexec s c) = aexec (abs s) c"
    using Cons.prems by (auto intro: simulates)
  then have st: "after_call (abs s) (aexec (abs s) c) = abs (after_call s (cexec s c))"
    and res: "result_of (aexec (abs s) c) = result_of (cexec s c)"
    by (metis after_call_map_state, metis result_of_map_state)
  show ?case
    using Cons.IH [of "after_call s (cexec s c)"] Cons.prems after_inv [of s c]
    by (auto simp: Let_def split_beta st res)
qed

end

sublocale simulation \<subseteq> safe: safe_calls cexec inv wt
proof
  fix s c s' r
  assume A: "inv s" "wt c"
  show "cexec s c \<noteq> Trap"
    using simulates [OF A] abstract_total [of "abs s" c] by auto
  show "cexec s c = Ok (s', r) \<Longrightarrow> inv s'"
    using preserves [OF A] .
qed

text \<open>
  The same for a component good for a bounded number of calls (a counter of it may run out):
  \<open>inv n\<close> says it is good for \<open>n\<close> more.
\<close>

locale bounded_simulation =
  fixes cexec :: "'c \<Rightarrow> 'o \<Rightarrow> ('c \<times> 'r) outcome"
    and aexec :: "'a \<Rightarrow> 'o \<Rightarrow> ('a \<times> 'r) outcome"
    and abs :: "'c \<Rightarrow> 'a"
    and inv :: "nat \<Rightarrow> 'c \<Rightarrow> bool"
    and wt :: "'o \<Rightarrow> bool"
  assumes simulates: "inv (Suc n) s \<Longrightarrow> wt c \<Longrightarrow> map_state abs (cexec s c) = aexec (abs s) c"
    and preserves: "inv (Suc n) s \<Longrightarrow> wt c \<Longrightarrow> inv n (after_call s (cexec s c))"
    and abstract_total: "aexec a c \<noteq> Trap"
begin

lemma run_refines:
  assumes "inv (length cs + n) s" and "list_all wt cs"
  shows "inv n (fst (run_calls cexec s cs)) \<and>
    abs (fst (run_calls cexec s cs)) = fst (run_calls aexec (abs s) cs) \<and>
    snd (run_calls cexec s cs) = snd (run_calls aexec (abs s) cs) \<and> Trap \<notin> set (snd (run_calls cexec s cs))"
  using assms
proof (induction cs arbitrary: s)
  case Nil
  then show ?case by simp
next
  case (Cons c cs)
  then have s: "map_state abs (cexec s c) = aexec (abs s) c" by (auto intro: simulates)
  then have st: "after_call (abs s) (aexec (abs s) c) = abs (after_call s (cexec s c))"
    and res: "result_of (aexec (abs s) c) = result_of (cexec s c)"
    by (metis after_call_map_state, metis result_of_map_state)
  have "cexec s c \<noteq> Trap" using s abstract_total [of "abs s" c] by auto
  moreover have "inv (length cs + n) (after_call s (cexec s c))" using Cons.prems by (intro preserves) auto
  ultimately show ?case
    using Cons.IH [of "after_call s (cexec s c)"] Cons.prems
    by (auto simp: Let_def split_beta st res dest: sym)
qed

end

section \<open>Logs\<close>

fun append_all :: "('s \<Rightarrow> 'e \<Rightarrow> 's outcome) \<Rightarrow> 's \<Rightarrow> 'e list \<Rightarrow> 's outcome" where
  "append_all app s [] = Ok s"
| "append_all app s (x # xs) = obind (app s x) (\<lambda>s'. append_all app s' xs)"

locale bounded_log =
  fixes app :: "'s \<Rightarrow> 'e \<Rightarrow> 's outcome"
    and entries :: "'s \<Rightarrow> 'e list"
    and cap :: "'s \<Rightarrow> nat"
    and inv :: "'s \<Rightarrow> bool"
    and good :: "'e \<Rightarrow> bool"
  assumes app_room: "inv s \<Longrightarrow> good x \<Longrightarrow> length (entries s) < cap s \<Longrightarrow>
      \<exists>s'. app s x = Ok s' \<and> inv s' \<and> cap s' = cap s \<and> entries s' = entries s @ [x]"
    and app_full: "inv s \<Longrightarrow> good x \<Longrightarrow> cap s \<le> length (entries s) \<Longrightarrow>
      app s x = Err AccountDataTooSmall"
begin

lemma append_all_fits:
  assumes "inv s" and "list_all good xs" and "length (entries s) + length xs \<le> cap s"
  shows "\<exists>s'. append_all app s xs = Ok s' \<and> inv s' \<and> cap s' = cap s \<and> entries s' = entries s @ xs"
  using assms
proof (induction xs arbitrary: s)
  case Nil
  then show ?case by simp
next
  case (Cons x xs)
  then obtain s' where s': "app s x = Ok s'" "inv s'" "cap s' = cap s" "entries s' = entries s @ [x]"
    using app_room [of s x] by auto
  with Cons.IH [of s'] Cons.prems show ?case by auto
qed

lemma append_all_overflows:
  assumes "inv s" and "list_all good xs" and "length (entries s) \<le> cap s"
    and "cap s < length (entries s) + length xs"
  shows "append_all app s xs = Err AccountDataTooSmall"
  using assms
proof (induction xs arbitrary: s)
  case Nil
  then show ?case by simp
next
  case (Cons x xs)
  show ?case
  proof (cases "length (entries s) < cap s")
    case True
    with Cons.prems obtain s' where s': "app s x = Ok s'" "inv s'" "cap s' = cap s"
      "entries s' = entries s @ [x]"
      using app_room [of s x] by auto
    with Cons.IH [of s'] Cons.prems True show ?thesis by auto
  next
    case False
    with Cons.prems show ?thesis by (simp add: app_full)
  qed
qed

end

definition last_n :: "nat \<Rightarrow> 'a list \<Rightarrow> 'a list" where
  "last_n k xs = drop (length xs - k) xs"

lemma length_last_n [simp]: "length (last_n k xs) = min k (length xs)"
  by (simp add: last_n_def)

lemma last_n_all [simp]: "length xs \<le> k \<Longrightarrow> last_n k xs = xs"
  by (simp add: last_n_def)

lemma last_n_append: "last_n k (last_n k xs @ ys) = last_n k (xs @ ys)"
  by (cases "length xs \<le> k") (auto simp: last_n_def min_def add.commute)

locale overwriting_log =
  fixes app :: "'s \<Rightarrow> 'e \<Rightarrow> 's outcome"
    and entries :: "'s \<Rightarrow> 'e list"
    and cap :: "'s \<Rightarrow> nat"
    and ready :: "nat \<Rightarrow> 's \<Rightarrow> bool"
    and good :: "'e \<Rightarrow> bool"
  assumes app_ok: "ready (Suc n) s \<Longrightarrow> good x \<Longrightarrow> 0 < cap s \<Longrightarrow>
      \<exists>s'. app s x = Ok s' \<and> ready n s' \<and> cap s' = cap s \<and>
        entries s' = last_n (cap s) (entries s @ [x])"
    and entries_bound: "ready n s \<Longrightarrow> length (entries s) \<le> cap s"
begin

lemma append_all_keeps_newest:
  assumes "ready (length xs + n) s" and "list_all good xs" and "0 < cap s"
  shows "\<exists>s'. append_all app s xs = Ok s' \<and> ready n s' \<and> cap s' = cap s \<and>
    entries s' = last_n (cap s) (entries s @ xs)"
  using assms
proof (induction xs arbitrary: s)
  case Nil
  then show ?case by (simp add: entries_bound)
next
  case (Cons x xs)
  then obtain s' where s': "app s x = Ok s'" "ready (length xs + n) s'" "cap s' = cap s"
    "entries s' = last_n (cap s) (entries s @ [x])"
    using app_ok [of "length xs + n" s x] by auto
  with Cons.IH [of s'] Cons.prems show ?case by (auto simp: last_n_append)
qed

end

section \<open>Comparisons\<close>

datatype ordering = Less | Equal | Greater

text \<open>The contract \<^verbatim>\<open>core::cmp::Ord\<close> documents: a total order consistent with equality classes.\<close>

locale total_cmp =
  fixes cmp :: "'k \<Rightarrow> 'k \<Rightarrow> ordering"
  assumes cmp_refl: "cmp x x = Equal"
    and cmp_flip: "cmp x y = Less \<longleftrightarrow> cmp y x = Greater"
    and cmp_trans: "cmp x y \<noteq> Greater \<Longrightarrow> cmp y z \<noteq> Greater \<Longrightarrow> cmp x z \<noteq> Greater"
begin

lemma cmp_total: "cmp x y \<noteq> Greater \<or> cmp y x \<noteq> Greater"
  by (metis cmp_flip ordering.distinct(3))

lemma less_le_trans: "cmp x y = Less \<Longrightarrow> cmp y z \<noteq> Greater \<Longrightarrow> cmp x z = Less"
  by (metis cmp_flip cmp_trans ordering.exhaust)

lemma le_less_trans: "cmp x y \<noteq> Greater \<Longrightarrow> cmp y z = Less \<Longrightarrow> cmp x z = Less"
  by (metis cmp_flip cmp_trans ordering.exhaust)

end

end
