(* ===== verification/RingBuffer.thy ===== *)
theory RingBuffer imports Slots Contracts begin

text \<open>
  hopper-core/src/collections/ring_buffer.rs: the circular buffer
  \<open>[head: u32][count: u32][element 0]...\<close>. \<open>head\<close> is the next slot to write, so the
  oldest live element is \<open>count\<close> slots behind it. Shown: on every buffer the constructor
  accepts, the ring is a log that keeps the newest \<open>capacity\<close> elements in order, and no
  call reads or writes outside the slice.
\<close>

definition ring_header :: nat where "ring_header = 8"

definition rb_from_bytes :: "nat \<Rightarrow> bytes \<Rightarrow> view outcome" where
  "rb_from_bytes sz d =
     fail_if (length d < ring_header) AccountDataTooSmall
       (let capacity = (length d - ring_header) div sz in
        obind (rd_u32 d 0) (\<lambda>head.
        obind (rd_u32 d 4) (\<lambda>count.
        fail_if (head > capacity \<or> count > capacity \<or> capacity = 0 \<and> (head \<noteq> 0 \<or> count \<noteq> 0))
          InvalidAccountData
          (let head' = (if capacity > 0 then head mod capacity else 0) in
           obind (wr_u32 d 0 head') (\<lambda>d'. Ok \<lparr>vdata = d', vcap = capacity\<rparr>)))))"

definition rb_capacity :: "view \<Rightarrow> nat" where
  "rb_capacity v = vcap v"

definition rb_count :: "view \<Rightarrow> nat outcome" where
  "rb_count v = rd_u32 (vdata v) 4"

definition rb_head :: "view \<Rightarrow> nat outcome" where
  "rb_head v = rd_u32 (vdata v) 0"

definition rb_set_head :: "view \<Rightarrow> nat \<Rightarrow> view outcome" where
  "rb_set_head v head = obind (wr_u32 (vdata v) 0 head) (\<lambda>d. Ok (v\<lparr>vdata := d\<rparr>))"

definition rb_set_count :: "view \<Rightarrow> nat \<Rightarrow> view outcome" where
  "rb_set_count v count = obind (wr_u32 (vdata v) 4 count) (\<lambda>d. Ok (v\<lparr>vdata := d\<rparr>))"

definition rb_slot_offset :: "nat \<Rightarrow> nat \<Rightarrow> nat" where
  "rb_slot_offset sz index = ring_header + index * sz"

definition rb_push :: "nat \<Rightarrow> view \<Rightarrow> bytes \<Rightarrow> view outcome" where
  "rb_push sz v x =
     (let cap = rb_capacity v in
      fail_if (cap = 0) AccountDataTooSmall
        (obind (rb_head v) (\<lambda>head.
         fail_if (head \<ge> cap) InvalidAccountData
           (let offset = rb_slot_offset sz head in
            fail_if (\<not> offset + sz \<le> length (vdata v)) InvalidAccountData
              (obind (wr (vdata v) offset x) (\<lambda>d.
               obind (rb_set_head (v\<lparr>vdata := d\<rparr>) ((head + 1) mod cap)) (\<lambda>v1.
               obind (rb_count v1) (\<lambda>count.
               rb_set_count v1 (min (count + 1) cap)))))))))"

text \<open>The subtraction \<open>cap - (count - head)\<close> and the remainder by \<open>cap\<close> panic in Rust when they
  underflow or divide by zero.\<close>

definition rb_get :: "nat \<Rightarrow> view \<Rightarrow> nat \<Rightarrow> bytes outcome" where
  "rb_get sz v logical_index =
     obind (rb_count v) (\<lambda>count.
     fail_if (logical_index \<ge> count) InvalidArgument
       (let cap = rb_capacity v in
        obind (rb_head v) (\<lambda>head.
        obind (if head \<ge> count then Ok (head - count)
               else if count - head \<le> cap then Ok (cap - (count - head)) else Trap) (\<lambda>start.
        if cap = 0 then Trap
        else let physical = (start + logical_index) mod cap; offset = rb_slot_offset sz physical in
          fail_if (\<not> offset + sz \<le> length (vdata v)) InvalidAccountData
            (rd (vdata v) offset sz)))))"

definition rb_latest :: "nat \<Rightarrow> view \<Rightarrow> bytes outcome" where
  "rb_latest sz v =
     obind (rb_count v) (\<lambda>count.
     fail_if (count = 0) InvalidArgument (rb_get sz v (count - 1)))"

definition rb_oldest :: "nat \<Rightarrow> view \<Rightarrow> bytes outcome" where
  "rb_oldest sz v =
     obind (rb_count v) (\<lambda>count.
     fail_if (count = 0) InvalidArgument (rb_get sz v 0))"

definition rb_required_bytes :: "nat \<Rightarrow> nat \<Rightarrow> nat" where
  "rb_required_bytes sz capacity = ring_header + capacity * sz"

section \<open>Invariant and contents\<close>

definition rb_inv :: "nat \<Rightarrow> view \<Rightarrow> bool" where
  "rb_inv sz v \<longleftrightarrow> 0 < sz \<and> 8 \<le> length (vdata v) \<and> account_sized (vdata v) \<and>
     vcap v = slot_room 8 sz (vdata v) \<and> u32_at (vdata v) 4 \<le> vcap v \<and>
     (if vcap v = 0 then u32_at (vdata v) 0 = 0 else u32_at (vdata v) 0 < vcap v)"

definition rb_entries :: "nat \<Rightarrow> view \<Rightarrow> bytes list" where
  "rb_entries sz v =
     (let d = vdata v; head = u32_at d 0; count = u32_at d 4 in
      map (\<lambda>i. slot_get 8 sz d (phys (vcap v) head count i)) [0..<count])"

lemma length_rb_entries [simp]: "length (rb_entries sz v) = u32_at (vdata v) 4"
  by (simp add: rb_entries_def Let_def)

lemma rb_entries_nth:
  "i < u32_at (vdata v) 4 \<Longrightarrow>
   rb_entries sz v ! i =
     slot_get 8 sz (vdata v) (phys (vcap v) (u32_at (vdata v) 0) (u32_at (vdata v) 4) i)"
  by (simp add: rb_entries_def Let_def)

lemma rb_from_bytes_inv:
  assumes "rb_from_bytes sz d = Ok v" and "0 < sz" and "account_sized d"
  shows "rb_inv sz v \<and> length (vdata v) = length d"
proof -
  have len: "8 \<le> length d" using assms(1) by (auto simp: rb_from_bytes_def ring_header_def split: if_splits)
  define cap where "cap = slot_room 8 sz d"
  define head' where "head' = (if cap > 0 then u32_at d 0 mod cap else 0)"
  have v: "v = \<lparr>vdata = bsplice 0 (le_enc 4 head') d, vcap = cap\<rparr>" and count: "u32_at d 4 \<le> cap"
    using assms(1) len
    by (auto simp: rb_from_bytes_def ring_header_def Let_def cap_def slot_room_def head'_def
        split: if_splits)
  have "cap < 2 ^ 32"
    using assms(3) unfolding cap_def slot_room_def account_sized_def
    by (meson div_le_dividend diff_le_self le_less_trans)
  moreover have "head' \<le> cap" by (simp add: head'_def less_imp_le)
  ultimately have head: "u32_at (vdata v) 0 = head'" using len by (simp add: v)
  have count': "u32_at (vdata v) 4 = u32_at d 4" using len by (simp add: v u32_at_bsplice_disjoint)
  have "length (vdata v) = length d" using len by (simp add: v)
  then show ?thesis
    using assms(2,3) len count unfolding rb_inv_def head count'
    by (simp add: v head'_def account_sized_def cap_def slot_room_def)
qed

lemma rb_inv_facts:
  assumes "rb_inv sz v"
  shows "rb_count v = Ok (length (rb_entries sz v))" and "rb_head v = Ok (u32_at (vdata v) 0)"
    and "length (rb_entries sz v) \<le> vcap v" and "vcap v < 2 ^ 32"
proof -
  show "rb_count v = Ok (length (rb_entries sz v))" "rb_head v = Ok (u32_at (vdata v) 0)"
    "length (rb_entries sz v) \<le> vcap v"
    using assms by (auto simp: rb_inv_def rb_count_def rb_head_def)
  show "vcap v < 2 ^ 32"
    using assms unfolding rb_inv_def slot_room_def account_sized_def
    by (metis div_le_dividend diff_le_self le_less_trans)
qed

lemmas rb_defs = rb_slot_offset_def ring_header_def rb_capacity_def Let_def

text \<open>A push writes the slot under the head, then the two header words.\<close>

definition rb_pushed :: "nat \<Rightarrow> view \<Rightarrow> bytes \<Rightarrow> view" where
  "rb_pushed sz v x =
     (let d = vdata v; h = u32_at d 0; n = u32_at d 4; c = vcap v in
      v\<lparr>vdata := bsplice 4 (le_enc 4 (min (n + 1) c))
          (bsplice 0 (le_enc 4 ((h + 1) mod c)) (slot_put 8 sz d h x))\<rparr>)"

lemma rb_pushed_facts:
  assumes inv: "rb_inv sz v" and x: "length x = sz" and c: "0 < vcap v"
  shows "rb_push sz v x = Ok (rb_pushed sz v x)" and "rb_inv sz (rb_pushed sz v x)"
    and "vcap (rb_pushed sz v x) = vcap v"
    and "length (vdata (rb_pushed sz v x)) = length (vdata v)"
    and "u32_at (vdata (rb_pushed sz v x)) 0 = (u32_at (vdata v) 0 + 1) mod vcap v"
    and "u32_at (vdata (rb_pushed sz v x)) 4 = min (u32_at (vdata v) 4 + 1) (vcap v)"
    and "j < vcap v \<Longrightarrow> slot_get 8 sz (vdata (rb_pushed sz v x)) j =
      (if j = u32_at (vdata v) 0 then x else slot_get 8 sz (vdata v) j)"
proof -
  let ?d = "vdata v" and ?h = "u32_at (vdata v) 0" and ?n = "u32_at (vdata v) 4" and ?c = "vcap v"
  let ?d1 = "slot_put 8 sz ?d ?h x"
  have h: "?h < ?c" and n: "?n \<le> ?c" and room: "?c = slot_room 8 sz ?d" and len: "8 \<le> length ?d"
    using inv c by (auto simp: rb_inv_def)
  have d1: "length ?d1 = length ?d" using h room x by simp
  have small: "(?h + 1) mod ?c < 2 ^ 32" "min (?n + 1) ?c < 2 ^ 32"
    using rb_inv_facts(4) [OF inv] c by (auto intro: le_less_trans [OF less_imp_le [OF mod_less_divisor]])
  have cnt: "u32_at (bsplice 0 (le_enc 4 k) ?d1) 4 = ?n" for k
    using h room x len d1 by (simp add: u32_at_bsplice_disjoint u32_at_slot_put)
  show "rb_push sz v x = Ok (rb_pushed sz v x)"
    using c h x len d1 cnt slot_in_bounds [of ?h 8 sz ?d] room rb_inv_facts(2) [OF inv]
    by (simp add: rb_push_def rb_defs rb_set_head_def rb_set_count_def rb_count_def rb_pushed_def
        flip: slot_put_def)
  show cap': "vcap (rb_pushed sz v x) = ?c" by (simp add: rb_pushed_def Let_def)
  show len': "length (vdata (rb_pushed sz v x)) = length ?d"
    using len d1 by (simp add: rb_pushed_def Let_def)
  show head': "u32_at (vdata (rb_pushed sz v x)) 0 = (?h + 1) mod ?c"
    using len d1 small(1) by (simp add: rb_pushed_def Let_def u32_at_bsplice_disjoint)
  show count': "u32_at (vdata (rb_pushed sz v x)) 4 = min (?n + 1) ?c"
    using len d1 small(2) by (simp add: rb_pushed_def Let_def)
  show "rb_inv sz (rb_pushed sz v x)"
    using inv c unfolding rb_inv_def head' count' len' cap' account_sized_def slot_room_def by simp
  assume j: "j < ?c"
  then have "slot_get 8 sz (vdata (rb_pushed sz v x)) j = slot_get 8 sz ?d1 j"
    using len d1 h x room by (simp add: rb_pushed_def Let_def slot_get_header arr.room_put)
  then show "slot_get 8 sz (vdata (rb_pushed sz v x)) j = (if j = ?h then x else slot_get 8 sz ?d j)"
    using j h x room by (simp add: arr.get_put_same arr.get_put_other)
qed

lemma rb_push_entries:
  assumes inv: "rb_inv sz v" and x: "length x = sz" and c: "0 < vcap v"
  shows "rb_entries sz (rb_pushed sz v x) = last_n (vcap v) (rb_entries sz v @ [x])"
proof (rule nth_equalityI)
  note P = rb_pushed_facts [OF assms]
  let ?h = "u32_at (vdata v) 0" and ?n = "u32_at (vdata v) 4" and ?c = "vcap v"
  have h: "?h < ?c" and n: "?n \<le> ?c" using inv c by (auto simp: rb_inv_def)
  show "length (rb_entries sz (rb_pushed sz v x)) = length (last_n ?c (rb_entries sz v @ [x]))"
    by (simp add: P min.commute)
  fix i assume "i < length (rb_entries sz (rb_pushed sz v x))"
  then have i: "i < min (?n + 1) ?c" by (simp add: P)
  have lhs: "rb_entries sz (rb_pushed sz v x) ! i =
      (let j = phys ?c ((?h + 1) mod ?c) (min (?n + 1) ?c) i
       in if j = ?h then x else slot_get 8 sz (vdata v) j)"
    using i c by (simp add: rb_entries_nth P phys_less Let_def)
  show "rb_entries sz (rb_pushed sz v x) ! i = last_n ?c (rb_entries sz v @ [x]) ! i"
  proof (cases "?n < ?c")
    case True
    then show ?thesis
      using i h phys_newest [of ?h ?c ?n] phys_not_head [of ?h ?c i ?n]
      unfolding lhs
      by (cases "i = ?n") (auto simp: phys_next [OF True, simplified] nth_append rb_entries_nth min_def)
  next
    case False
    with n have eq: "?n = ?c" by simp
    have "last_n ?c (rb_entries sz v @ [x]) ! i = (rb_entries sz v @ [x]) ! (i + 1)"
      using i eq by (simp add: last_n_def del: drop_append)
    moreover have "phys ?c ((?h + 1) mod ?c) (min (?n + 1) ?c) i = phys ?c ?h ?c (i + 1)"
      using eq by (simp add: phys_next_full [simplified])
    ultimately show ?thesis
      using i h eq phys_newest [of ?h ?c ?c] phys_not_head [of ?h ?c "i + 1" ?c]
      unfolding lhs by (cases "i + 1 = ?c") (auto simp: nth_append rb_entries_nth)
  qed
qed

lemma rb_push_spec:
  assumes "rb_inv sz v" and "length x = sz" and "0 < vcap v"
  shows "\<exists>v'. rb_push sz v x = Ok v' \<and> rb_inv sz v' \<and> vcap v' = vcap v \<and>
    rb_entries sz v' = last_n (vcap v) (rb_entries sz v @ [x])"
  using rb_pushed_facts [OF assms] rb_push_entries [OF assms] by blast

interpretation rb_log: overwriting_log "rb_push sz" "rb_entries sz" vcap "\<lambda>n. rb_inv sz" "\<lambda>x. length x = sz"
  for sz
proof
  fix n v and x :: bytes
  show "rb_inv sz v \<Longrightarrow> length (rb_entries sz v) \<le> vcap v" by (rule rb_inv_facts)
  show "rb_inv sz v \<Longrightarrow> length x = sz \<Longrightarrow> 0 < vcap v \<Longrightarrow>
      \<exists>v'. rb_push sz v x = Ok v' \<and> rb_inv sz v' \<and> vcap v' = vcap v \<and>
        rb_entries sz v' = last_n (vcap v) (rb_entries sz v @ [x])"
    by (rule rb_push_spec)
qed

lemma rb_get_spec:
  assumes inv: "rb_inv sz v"
  shows "rb_get sz v i = (if i < length (rb_entries sz v) then Ok (rb_entries sz v ! i) else Err InvalidArgument)"
proof (cases "i < length (rb_entries sz v)")
  case True
  let ?h = "u32_at (vdata v) 0" and ?n = "u32_at (vdata v) 4" and ?c = "vcap v"
  have c: "0 < ?c" and h: "?h < ?c" and n: "?n \<le> ?c" and room: "?c = slot_room 8 sz (vdata v)"
    using inv True by (auto simp: rb_inv_def split: if_splits)
  let ?p = "phys ?c ?h ?n i"
  have p: "?p < slot_room 8 sz (vdata v)" using phys_less [OF c] room by simp
  have run: "rb_get sz v i = Ok (rb_entries sz v ! i)"
    if start: "start mod ?c = (?h + (?c - ?n)) mod ?c"
      and st: "(if ?n \<le> ?h then Ok (?h - ?n)
           else if ?n - ?h \<le> ?c then Ok (?c - (?n - ?h)) else Trap) = Ok start" for start
  proof -
    have "(start + i) mod ?c = ?p" unfolding phys_def by (metis mod_add_left_eq start)
    then show ?thesis
      using True c p rb_inv_facts(1,2) [OF inv] slot_in_bounds [OF p] unfolding rb_get_def
      by (simp add: rb_defs rb_entries_nth st flip: slot_get_def)
  qed
  show ?thesis
  proof (cases "?n \<le> ?h")
    case True
    then have "?h + (?c - ?n) = (?h - ?n) + ?c" using n by simp
    then have "(?h - ?n) mod ?c = (?h + (?c - ?n)) mod ?c" by (metis mod_add_self2)
    then show ?thesis using run [of "?h - ?n"] True \<open>i < length (rb_entries sz v)\<close> by simp
  next
    case False
    then have "?c - (?n - ?h) = ?h + (?c - ?n)" and "?n - ?h \<le> ?c" using n by linarith+
    then show ?thesis
      using run [of "?c - (?n - ?h)"] False \<open>i < length (rb_entries sz v)\<close> by simp
  qed
qed (simp add: rb_get_def rb_inv_facts [OF inv] del: length_rb_entries)

section \<open>Refinement\<close>

datatype ring_call = RPush bytes | RGet nat | RLatest | ROldest | RCount

fun ring_call_ok :: "nat \<Rightarrow> ring_call \<Rightarrow> bool" where
  "ring_call_ok sz (RPush x) = (length x = sz)"
| "ring_call_ok sz c = True"

fun rb_exec :: "nat \<Rightarrow> view \<Rightarrow> ring_call \<Rightarrow> (view \<times> answer) outcome" where
  "rb_exec sz v (RPush x) = unit_call (rb_push sz v x)"
| "rb_exec sz v (RGet i) = read_call v (rb_get sz v i) RBytes"
| "rb_exec sz v RLatest = read_call v (rb_latest sz v) RBytes"
| "rb_exec sz v ROldest = read_call v (rb_oldest sz v) RBytes"
| "rb_exec sz v RCount = read_call v (rb_count v) RNum"

fun newest_log_exec :: "nat \<times> bytes list \<Rightarrow> ring_call \<Rightarrow> ((nat \<times> bytes list) \<times> answer) outcome" where
  "newest_log_exec (cap, xs) (RPush x) =
     (if cap = 0 then Err AccountDataTooSmall else Ok ((cap, last_n cap (xs @ [x])), RUnit))"
| "newest_log_exec (cap, xs) (RGet i) =
     (if i < length xs then Ok ((cap, xs), RBytes (xs ! i)) else Err InvalidArgument)"
| "newest_log_exec (cap, xs) RLatest =
     (if xs = [] then Err InvalidArgument else Ok ((cap, xs), RBytes (last xs)))"
| "newest_log_exec (cap, xs) ROldest =
     (if xs = [] then Err InvalidArgument else Ok ((cap, xs), RBytes (hd xs)))"
| "newest_log_exec (cap, xs) RCount = Ok ((cap, xs), RNum (length xs))"

definition rb_abs :: "nat \<Rightarrow> view \<Rightarrow> nat \<times> bytes list" where
  "rb_abs sz v = (vcap v, rb_entries sz v)"

lemma rb_exec_step:
  assumes inv: "rb_inv sz v" and wt: "ring_call_ok sz c"
  shows "map_state (rb_abs sz) (rb_exec sz v c) = newest_log_exec (rb_abs sz v) c \<and>
    (\<forall>v' r. rb_exec sz v c = Ok (v', r) \<longrightarrow> rb_inv sz v')"
proof (cases c)
  case (RPush x)
  then show ?thesis
    using rb_push_spec [OF inv, of x] wt
    by (cases "vcap v = 0") (auto simp: call_defs rb_abs_def, simp_all add: rb_push_def rb_defs)
qed (use inv in \<open>auto simp: call_defs rb_abs_def rb_latest_def rb_oldest_def rb_get_spec
    rb_inv_facts [OF inv] last_conv_nth hd_conv_nth simp del: length_rb_entries\<close>)

interpretation rb_sim: simulation "rb_exec sz" newest_log_exec "rb_abs sz" "rb_inv sz" "ring_call_ok sz"
  for sz
proof
  fix v c v' r
  assume A: "rb_inv sz v" "ring_call_ok sz c"
  show "map_state (rb_abs sz) (rb_exec sz v c) = newest_log_exec (rb_abs sz v) c"
    and "rb_exec sz v c = Ok (v', r) \<Longrightarrow> rb_inv sz v'"
    using rb_exec_step [OF A] by blast+
next
  fix a c
  show "newest_log_exec a c \<noteq> Trap"
    by (cases a; cases c) auto
qed

section \<open>Properties\<close>

text \<open>
  \<open>RingBuffer\<close> on hostile bytes. For every buffer the constructor accepts (a corrupt
  \<open>head\<close> or \<open>count\<close> is refused), every sequence of pushes and reads answers exactly as a
  log that keeps the newest \<open>capacity\<close> elements, oldest first, and no call indexes
  outside the buffer, underflows or divides by zero.
\<close>

theorem ring_buffer_keeps_newest:
  assumes "rb_from_bytes sz d = Ok v" and "0 < sz" and "account_sized d"
    and "list_all (ring_call_ok sz) cs"
  shows "rb_inv sz (fst (run_calls (rb_exec sz) v cs)) \<and>
    rb_abs sz (fst (run_calls (rb_exec sz) v cs)) = fst (run_calls newest_log_exec (rb_abs sz v) cs) \<and>
    snd (run_calls (rb_exec sz) v cs) = snd (run_calls newest_log_exec (rb_abs sz v) cs) \<and>
    Trap \<notin> set (snd (run_calls (rb_exec sz) v cs))"
proof -
  have inv: "rb_inv sz v" using rb_from_bytes_inv assms by blast
  then show ?thesis
    using rb_sim.run_refines [OF inv assms(4)] rb_sim.safe.run_safe [OF inv assms(4)] by blast
qed

theorem ring_buffer_keeps_newest_witness:
  "snd (run_calls (rb_exec 1) \<lparr>vdata = [0, 0, 0, 0, 0, 0, 0, 0, 0, 0], vcap = 2\<rparr>
     [RPush [1], RPush [2], RPush [3], ROldest, RLatest, RGet 2]) =
   [Ok RUnit, Ok RUnit, Ok RUnit, Ok (RBytes [2]), Ok (RBytes [3]), Err InvalidArgument]"
proof -
  have "rb_from_bytes 1 [2, 0, 0, 0, 0, 0, 0, 0, 0, 0] = Ok \<lparr>vdata = [0, 0, 0, 0, 0, 0, 0, 0, 0, 0], vcap = 2\<rparr>"
    by (simp add: rb_from_bytes_def ring_header_def u32_at_def eval_bytes Let_def flip: numeral_2_eq_2)
  note run = ring_buffer_keeps_newest [OF this]
  let ?v = "\<lparr>vdata = [0, 0, 0, 0, 0, 0, 0, 0, 0, 0], vcap = 2\<rparr>"
  let ?cs = "[RPush [1], RPush [2], RPush [3], ROldest, RLatest, RGet 2]"
  have "snd (run_calls (rb_exec 1) ?v ?cs) = snd (run_calls newest_log_exec (rb_abs 1 ?v) ?cs)"
    using run [of ?cs] by (auto simp: account_sized_def simp del: rb_exec.simps run_calls.simps)
  also have "rb_abs 1 ?v = (2, [])"
    by (simp add: rb_abs_def rb_entries_def u32_at_def bslice_def)
  finally show ?thesis by (simp add: last_n_def del: rb_exec.simps)
qed

text \<open>
  Pushing any list of elements leaves the ring holding exactly the newest
  \<open>capacity\<close> of all elements ever seen, in order.
\<close>

theorem ring_buffer_push_all:
  assumes "rb_inv sz v" and "list_all (\<lambda>x. length x = sz) xs" and "0 < vcap v"
  shows "\<exists>v'. append_all (rb_push sz) v xs = Ok v' \<and> rb_inv sz v' \<and> vcap v' = vcap v \<and>
    rb_entries sz v' = last_n (vcap v) (rb_entries sz v @ xs)"
  using rb_log.append_all_keeps_newest assms .

theorem ring_buffer_push_all_witness:
  "\<exists>v'. append_all (rb_push 1) \<lparr>vdata = [0, 0, 0, 0, 0, 0, 0, 0, 0, 0], vcap = 2\<rparr> [[1], [2], [3]] = Ok v' \<and>
    rb_entries 1 v' = [[2], [3]]"
proof -
  let ?v = "\<lparr>vdata = [0, 0, 0, 0, 0, 0, 0, 0, 0, 0], vcap = 2\<rparr>"
  have inv: "rb_inv 1 ?v"
    by (simp add: rb_inv_def account_sized_def slot_room_def u32_at_def bslice_def)
  show ?thesis
    using ring_buffer_push_all [OF inv, of "[[1], [2], [3]]"]
    by (auto simp: rb_entries_def u32_at_def bslice_def last_n_def)
qed

end
