(* ===== verification/Journal.thy ===== *)
theory Journal imports Slots Contracts begin

text \<open>
  hopper-core/src/collections/journal.rs: the append-only audit log
  \<open>[write_head: u32][total_written: u32][flags: u32][reserved: u32][entry 0]...\<close>, in its
  strict mode (refuses when full) and its circular mode (overwrites the oldest). The
  constructor does not look at the header, so every call is shown safe for an arbitrary
  one; the functional claims are about journals \<open>init\<close> set up.
\<close>

unbundle bit_operations_syntax

definition journal_header_size :: nat where "journal_header_size = 16"

definition journal_flag_circular :: u32 where "journal_flag_circular = push_bit 0 1"

definition jn_from_bytes :: "nat \<Rightarrow> bytes \<Rightarrow> view outcome" where
  "jn_from_bytes sz d =
     fail_if (length d < journal_header_size) AccountDataTooSmall
       (let usable = length d - journal_header_size in
        fail_if (sz = 0) InvalidArgument (Ok \<lparr>vdata = d, vcap = usable div sz\<rparr>))"

definition jn_capacity :: "view \<Rightarrow> nat" where
  "jn_capacity v = vcap v"

definition jn_write_head :: "view \<Rightarrow> nat outcome" where
  "jn_write_head v = rd_u32 (vdata v) 0"

definition jn_total_written :: "view \<Rightarrow> nat outcome" where
  "jn_total_written v = rd_u32 (vdata v) 4"

definition jn_flags :: "view \<Rightarrow> u32 outcome" where
  "jn_flags v = obind (rd_u32 (vdata v) 8) (\<lambda>f. Ok (word_of_nat f))"

definition jn_is_circular :: "view \<Rightarrow> bool outcome" where
  "jn_is_circular v = obind (jn_flags v) (\<lambda>f. Ok (f AND journal_flag_circular \<noteq> 0))"

definition jn_has_wrapped :: "view \<Rightarrow> bool outcome" where
  "jn_has_wrapped v = obind (jn_total_written v) (\<lambda>total. Ok (total > vcap v))"

definition jn_entry_count :: "view \<Rightarrow> nat outcome" where
  "jn_entry_count v =
     obind (jn_total_written v) (\<lambda>total. Ok (if total < vcap v then total else vcap v))"

definition jn_set_write_head :: "view \<Rightarrow> nat \<Rightarrow> view outcome" where
  "jn_set_write_head v head = obind (wr_u32 (vdata v) 0 head) (\<lambda>d. Ok (v\<lparr>vdata := d\<rparr>))"

definition jn_set_total_written :: "view \<Rightarrow> nat \<Rightarrow> view outcome" where
  "jn_set_total_written v n = obind (wr_u32 (vdata v) 4 n) (\<lambda>d. Ok (v\<lparr>vdata := d\<rparr>))"

definition jn_append :: "nat \<Rightarrow> view \<Rightarrow> bytes \<Rightarrow> view outcome" where
  "jn_append sz v entry =
     fail_if (vcap v = 0) AccountDataTooSmall
       (obind (jn_write_head v) (\<lambda>head0.
        obind (jn_is_circular v) (\<lambda>circular.
        fail_if (head0 \<ge> vcap v \<and> \<not> circular) AccountDataTooSmall
          (let head = (if head0 \<ge> vcap v then head0 mod vcap v else head0) in
           fail_if (\<not> circular \<and> head \<ge> vcap v) AccountDataTooSmall
             (let offset = journal_header_size + head * sz in
              fail_if (offset + sz > length (vdata v)) AccountDataTooSmall
                (obind (wr (vdata v) offset entry) (\<lambda>d.
                 let v1 = v\<lparr>vdata := d\<rparr> in
                 obind (jn_is_circular v1) (\<lambda>circ1.
                 obind (jn_set_write_head v1
                     (if circ1 then (head + 1) mod vcap v else head + 1)) (\<lambda>v2.
                 obind (jn_total_written v2) (\<lambda>total.
                 jn_set_total_written v2 ((total + 1) mod 2 ^ 32)))))))))))"

definition jn_read :: "nat \<Rightarrow> view \<Rightarrow> nat \<Rightarrow> bytes outcome" where
  "jn_read sz v index =
     obind (jn_entry_count v) (\<lambda>count.
     fail_if (index \<ge> count) InvalidArgument
       (obind (jn_total_written v) (\<lambda>total.
        obind (if total > vcap v
               then obind (jn_write_head v) (\<lambda>head.
                    if vcap v = 0 then Trap else Ok ((head + index) mod vcap v))
               else Ok index) (\<lambda>physical.
        let offset = journal_header_size + physical * sz in
        fail_if (offset + sz > length (vdata v)) AccountDataTooSmall
          (rd (vdata v) offset sz)))))"

definition jn_latest :: "nat \<Rightarrow> view \<Rightarrow> bytes outcome" where
  "jn_latest sz v =
     obind (jn_entry_count v) (\<lambda>count.
     fail_if (count = 0) InvalidArgument (jn_read sz v (count - 1)))"

definition jn_required_bytes :: "nat \<Rightarrow> nat \<Rightarrow> nat" where
  "jn_required_bytes sz capacity = journal_header_size + capacity * sz"

definition jn_init :: "view \<Rightarrow> bool \<Rightarrow> view outcome" where
  "jn_init v circular =
     obind (jn_set_write_head v 0) (\<lambda>v1.
     obind (jn_set_total_written v1 0) (\<lambda>v2.
     let flags = (if circular then journal_flag_circular else 0) in
     obind (wr_u32 (vdata v2) 8 (unat flags)) (\<lambda>d.
     obind (wr_u32 d 12 0) (\<lambda>d'. Ok (v2\<lparr>vdata := d'\<rparr>)))))"

text \<open>\<^verbatim>\<open>JournalReader\<close>, the read-only view: its own copy of the accessors.\<close>

definition jr_from_bytes :: "nat \<Rightarrow> bytes \<Rightarrow> view outcome" where
  "jr_from_bytes sz d =
     fail_if (length d < journal_header_size) AccountDataTooSmall
       (let usable = length d - journal_header_size in
        fail_if (sz = 0) InvalidArgument (Ok \<lparr>vdata = d, vcap = usable div sz\<rparr>))"

definition jr_entry_count :: "view \<Rightarrow> nat outcome" where
  "jr_entry_count v =
     obind (rd_u32 (vdata v) 4) (\<lambda>total. Ok (if total < vcap v then total else vcap v))"

definition jr_is_circular :: "view \<Rightarrow> bool outcome" where
  "jr_is_circular v =
     obind (rd_u32 (vdata v) 8) (\<lambda>f. Ok ((word_of_nat f :: u32) AND journal_flag_circular \<noteq> 0))"

definition jr_read :: "nat \<Rightarrow> view \<Rightarrow> nat \<Rightarrow> bytes outcome" where
  "jr_read sz v index =
     obind (jr_entry_count v) (\<lambda>count.
     fail_if (index \<ge> count) InvalidArgument
       (obind (rd_u32 (vdata v) 4) (\<lambda>total.
        obind (if total > vcap v
               then obind (rd_u32 (vdata v) 0) (\<lambda>head.
                    if vcap v = 0 then Trap else Ok ((head + index) mod vcap v))
               else Ok index) (\<lambda>physical.
        let offset = journal_header_size + physical * sz in
        fail_if (offset + sz > length (vdata v)) AccountDataTooSmall
          (rd (vdata v) offset sz)))))"

definition jr_latest :: "nat \<Rightarrow> view \<Rightarrow> bytes outcome" where
  "jr_latest sz v =
     obind (jr_entry_count v) (\<lambda>count.
     fail_if (count = 0) InvalidArgument (jr_read sz v (count - 1)))"

lemma jr_agrees: "jr_read sz v i = jn_read sz v i" "jr_latest sz v = jn_latest sz v"
  unfolding jr_read_def jn_read_def jr_latest_def jn_latest_def jr_entry_count_def
    jn_entry_count_def jn_total_written_def jn_write_head_def obind_assoc obind.simps by (rule refl)+

section \<open>Well-formed views and the effect of an append\<close>

definition jn_inv :: "nat \<Rightarrow> view \<Rightarrow> bool" where
  "jn_inv sz v \<longleftrightarrow> 0 < sz \<and> 16 \<le> length (vdata v) \<and> account_sized (vdata v) \<and>
     vcap v = slot_room 16 sz (vdata v)"

definition jn_head :: "view \<Rightarrow> nat" where "jn_head v = u32_at (vdata v) 0"
definition jn_total :: "view \<Rightarrow> nat" where "jn_total v = u32_at (vdata v) 4"
definition jn_circ :: "view \<Rightarrow> bool" where
  "jn_circ v \<longleftrightarrow> (word_of_nat (u32_at (vdata v) 8) :: u32) AND journal_flag_circular \<noteq> 0"

definition jn_entries :: "nat \<Rightarrow> view \<Rightarrow> bytes list" where
  "jn_entries sz v =
     map (\<lambda>i. slot_get 16 sz (vdata v) (if jn_total v > vcap v then (jn_head v + i) mod vcap v else i))
       [0..<min (jn_total v) (vcap v)]"

lemma length_jn_entries [simp]: "length (jn_entries sz v) = min (jn_total v) (vcap v)"
  by (simp add: jn_entries_def)

lemma jn_from_bytes_inv:
  "jn_from_bytes sz d = Ok v \<Longrightarrow> account_sized d \<Longrightarrow> jn_inv sz v \<and> vdata v = d"
  by (auto simp: jn_from_bytes_def jn_inv_def slot_room_def journal_header_size_def Let_def
      split: if_splits)

lemma jn_header [simp]:
  assumes "jn_inv sz v"
  shows "jn_write_head v = Ok (jn_head v)" "jn_total_written v = Ok (jn_total v)"
    "jn_is_circular v = Ok (jn_circ v)" "jn_has_wrapped v = Ok (vcap v < jn_total v)"
    "jn_entry_count v = Ok (min (jn_total v) (vcap v))"
  using assms
  by (simp_all add: jn_inv_def jn_write_head_def jn_total_written_def jn_is_circular_def jn_flags_def
      jn_has_wrapped_def jn_entry_count_def jn_head_def jn_total_def jn_circ_def min_def)

definition jn_appended :: "nat \<Rightarrow> view \<Rightarrow> nat \<Rightarrow> bytes \<Rightarrow> view" where
  "jn_appended sz v head x =
     v\<lparr>vdata := bsplice 4 (le_enc 4 ((jn_total v + 1) mod 2 ^ 32))
        (bsplice 0 (le_enc 4 (if jn_circ v then (head + 1) mod vcap v else head + 1))
           (slot_put 16 sz (vdata v) head x))\<rparr>"

definition jn_slot :: "view \<Rightarrow> nat" where
  "jn_slot v = (if jn_head v \<ge> vcap v then jn_head v mod vcap v else jn_head v)"

lemma jn_append_eq:
  assumes inv: "jn_inv sz v" and x: "length x = sz"
  shows "jn_append sz v x =
    (if vcap v = 0 \<or> jn_head v \<ge> vcap v \<and> \<not> jn_circ v then Err AccountDataTooSmall
     else Ok (jn_appended sz v (jn_slot v) x))"
proof (cases "vcap v = 0 \<or> jn_head v \<ge> vcap v \<and> \<not> jn_circ v")
  case True
  then show ?thesis using inv by (auto simp: jn_append_def)
next
  case False
  let ?h = "jn_slot v" and ?d = "vdata v"
  have h: "?h < slot_room 16 sz ?d" using False inv by (auto simp: jn_slot_def jn_inv_def)
  have lt: "?h < vcap v" and len: "16 \<le> length ?d" using h inv by (auto simp: jn_inv_def)
  let ?d1 = "slot_put 16 sz ?d ?h x"
  have len1: "length ?d1 = length ?d" using h x by simp
  have same: "u32_at ?d1 a = u32_at ?d a" if "a + 4 \<le> 16" for a
    using h x that by (simp add: u32_at_slot_put)
  have c: "jn_is_circular (v\<lparr>vdata := ?d1\<rparr>) = Ok (jn_circ v)"
    using len len1 by (simp add: jn_is_circular_def jn_flags_def jn_circ_def same)
  have t: "jn_total_written (v\<lparr>vdata := bsplice 0 (le_enc 4 k) ?d1\<rparr>) = Ok (jn_total v)" for k
    using len len1 by (simp add: jn_total_written_def jn_total_def u32_at_bsplice_disjoint same)
  show ?thesis
    using False slot_in_bounds [OF h] lt inv x h len len1 c t
    by (simp add: jn_append_def journal_header_size_def Let_def jn_set_write_head_def
        jn_set_total_written_def jn_appended_def flip: jn_slot_def slot_put_def)
qed

lemma jn_appended_facts:
  assumes inv: "jn_inv sz v" and x: "length x = sz" and h: "h < vcap v"
  defines "v' \<equiv> jn_appended sz v h x"
  shows "jn_inv sz v'" "vcap v' = vcap v" "jn_circ v' = jn_circ v"
    "jn_head v' = (if jn_circ v then (h + 1) mod vcap v else h + 1)"
    "jn_total v' = (jn_total v + 1) mod 2 ^ 32"
    "j < vcap v \<Longrightarrow> slot_get 16 sz (vdata v') j = (if j = h then x else slot_get 16 sz (vdata v) j)"
proof -
  let ?d = "vdata v"
  let ?d1 = "slot_put 16 sz ?d h x"
  have hr: "h < slot_room 16 sz ?d" and len: "16 \<le> length ?d" using inv h by (auto simp: jn_inv_def)
  have len1: "length ?d1 = length ?d" and room1: "slot_room 16 sz ?d1 = slot_room 16 sz ?d"
    using hr x by (simp_all add: arr.room_put)
  have small: "vcap v < 2 ^ 32" using inv slot_room_small by (simp add: jn_inv_def)
  show cap: "vcap v' = vcap v" by (simp add: v'_def jn_appended_def)
  have len': "length (vdata v') = length ?d" using len len1 by (simp add: v'_def jn_appended_def)
  show "jn_inv sz v'"
    using inv unfolding jn_inv_def cap len' account_sized_def slot_room_def by simp
  have "u32_at (vdata v') 8 = u32_at ?d 8"
    using len len1 hr x by (simp add: v'_def jn_appended_def u32_at_bsplice_disjoint u32_at_slot_put)
  then show "jn_circ v' = jn_circ v" by (simp add: jn_circ_def)
  have "h + 1 < 2 ^ 32" and "(h + 1) mod vcap v < 2 ^ 32"
    using h small by (auto intro: le_less_trans [OF mod_less_eq_dividend])
  then show "jn_head v' = (if jn_circ v then (h + 1) mod vcap v else h + 1)"
    using len len1 by (simp add: v'_def jn_appended_def jn_head_def u32_at_bsplice_disjoint)
  show "jn_total v' = (jn_total v + 1) mod 2 ^ 32"
    using len len1 by (simp add: v'_def jn_appended_def jn_total_def)
  assume j: "j < vcap v"
  then have jr: "j < slot_room 16 sz ?d" using inv by (simp add: jn_inv_def)
  have "slot_get 16 sz (vdata v') j = slot_get 16 sz ?d1 j"
    using len len1 jr room1 by (simp add: v'_def jn_appended_def slot_get_header)
  then show "slot_get 16 sz (vdata v') j = (if j = h then x else slot_get 16 sz ?d j)"
    using jr hr x by (simp add: arr.get_put_same arr.get_put_other)
qed

lemma jn_read_eq:
  assumes inv: "jn_inv sz v"
  shows "jn_read sz v i =
    (if i < length (jn_entries sz v) then Ok (jn_entries sz v ! i) else Err InvalidArgument)"
proof (cases "i < min (jn_total v) (vcap v)")
  case True
  let ?p = "if jn_total v > vcap v then (jn_head v + i) mod vcap v else i"
  have p: "?p < slot_room 16 sz (vdata v)" using True inv by (auto simp: jn_inv_def)
  then have "16 + ?p * sz + sz \<le> length (vdata v)" by (rule slot_in_bounds)
  then show ?thesis
    using True p inv
    by (auto simp: jn_read_def journal_header_size_def jn_entries_def Let_def
        simp flip: slot_get_def split: if_splits)
qed (use inv in \<open>auto simp: jn_read_def\<close>)

section \<open>Strict mode is a bounded log\<close>

definition jn_strict :: "nat \<Rightarrow> view \<Rightarrow> bool" where
  "jn_strict sz v \<longleftrightarrow> jn_inv sz v \<and> \<not> jn_circ v \<and> jn_head v = jn_total v \<and> jn_total v \<le> vcap v"

lemma jn_append_strict:
  assumes st: "jn_strict sz v" and x: "length x = sz" and room: "jn_total v < vcap v"
  shows "\<exists>v'. jn_append sz v x = Ok v' \<and> jn_strict sz v' \<and> vcap v' = vcap v \<and>
    jn_entries sz v' = jn_entries sz v @ [x]"
proof -
  let ?n = "jn_total v"
  have inv: "jn_inv sz v" and h: "jn_slot v = ?n" using st room by (auto simp: jn_strict_def jn_slot_def)
  note F = jn_appended_facts [OF inv x, of ?n]
  let ?v = "jn_appended sz v ?n x"
  have small: "vcap v < 2 ^ 32" using inv slot_room_small by (simp add: jn_inv_def)
  have run: "jn_append sz v x = Ok ?v"
    using st room x inv by (auto simp: jn_append_eq [OF inv x] jn_strict_def jn_slot_def)
  have tot: "jn_total ?v = Suc ?n" using F(5) room small by simp
  have "jn_entries sz ?v = jn_entries sz v @ [x]"
    using F(2,6) room tot by (intro nth_equalityI) (auto simp: jn_entries_def nth_append less_Suc_eq)
  then show ?thesis using run F(1-4) st room tot by (auto simp: jn_strict_def)
qed

interpretation jn_log: bounded_log "jn_append sz" "jn_entries sz" vcap "jn_strict sz" "\<lambda>x. length x = sz"
  for sz
proof
  fix v and x :: bytes
  assume st: "jn_strict sz v" and x: "length x = sz"
  show "length (jn_entries sz v) < vcap v \<Longrightarrow>
      \<exists>v'. jn_append sz v x = Ok v' \<and> jn_strict sz v' \<and> vcap v' = vcap v \<and>
        jn_entries sz v' = jn_entries sz v @ [x]"
    using st x by (intro jn_append_strict) auto
  assume "vcap v \<le> length (jn_entries sz v)"
  then show "jn_append sz v x = Err AccountDataTooSmall"
    using st x by (auto simp: jn_append_eq jn_strict_def)
qed

section \<open>Circular mode keeps the newest entries\<close>

text \<open>\<open>n\<close> appends can still be counted by the 32-bit \<open>total_written\<close>.\<close>

definition jn_ring :: "nat \<Rightarrow> nat \<Rightarrow> view \<Rightarrow> bool" where
  "jn_ring sz n v \<longleftrightarrow> jn_inv sz v \<and> jn_circ v \<and> jn_total v + n < 2 ^ 32 \<and>
     (0 < vcap v \<longrightarrow> jn_head v = jn_total v mod vcap v)"

lemma jn_append_ring:
  assumes ring: "jn_ring sz (Suc n) v" and x: "length x = sz" and c: "0 < vcap v"
  shows "\<exists>v'. jn_append sz v x = Ok v' \<and> jn_ring sz n v' \<and> vcap v' = vcap v \<and>
    jn_entries sz v' = last_n (vcap v) (jn_entries sz v @ [x])"
proof -
  let ?n = "jn_total v" and ?c = "vcap v"
  let ?h = "?n mod ?c"
  have inv: "jn_inv sz v" and h: "jn_slot v = ?h" and hc: "?h < ?c" and bound: "?n + Suc n < 2 ^ 32"
    using ring c by (auto simp: jn_ring_def jn_slot_def)
  note F = jn_appended_facts [OF inv x hc]
  let ?v = "jn_appended sz v ?h x"
  have run: "jn_append sz v x = Ok ?v"
    using ring c h by (simp add: jn_append_eq [OF inv x] jn_ring_def)
  have tot: "jn_total ?v = Suc ?n" using F(5) bound by simp
  have head: "jn_head ?v = Suc ?n mod ?c" using F(4) ring by (simp add: jn_ring_def mod_Suc_eq)
  have "jn_entries sz ?v = last_n ?c (jn_entries sz v @ [x])"
  proof (cases "?n < ?c")
    case True
    then have "jn_entries sz ?v = jn_entries sz v @ [x]"
      using F(2,6) tot by (intro nth_equalityI) (auto simp: jn_entries_def nth_append less_Suc_eq)
    then show ?thesis using True by simp
  next
    case False
    show ?thesis
    proof (rule nth_equalityI)
      show len: "length (jn_entries sz ?v) = length (last_n ?c (jn_entries sz v @ [x]))"
        using False tot F(2) by simp
      fix i assume "i < length (jn_entries sz ?v)"
      then have i: "i < ?c" using tot F(2) by simp
      have old: "jn_entries sz v ! k = slot_get 16 sz (vdata v) ((?h + k) mod ?c)" if "k < ?c" for k
        using that False ring c by (auto simp: jn_entries_def jn_ring_def)
      have rhs: "last_n ?c (jn_entries sz v @ [x]) ! i = (if i + 1 = ?c then x else jn_entries sz v ! (i + 1))"
        using i False by (auto simp: last_n_def nth_append simp del: drop_append)
      have "(Suc ?n mod ?c + i) mod ?c = (Suc ?n + i) mod ?c" by (rule mod_add_left_eq)
      moreover have "phys ?c ?h ?c (i + 1) = (?n + (i + 1)) mod ?c"
        unfolding phys_def by (simp only: diff_self_eq_0 add_0_right mod_add_left_eq)
      ultimately have "(Suc ?n mod ?c + i) mod ?c = phys ?c ?h ?c (i + 1)" by simp
      then have "jn_entries sz ?v ! i = slot_get 16 sz (vdata ?v) (phys ?c ?h ?c (i + 1))"
        using i tot F(2) False head by (simp add: jn_entries_def)
      then have lhs: "jn_entries sz ?v ! i = (if phys ?c ?h ?c (i + 1) = ?h then x
          else slot_get 16 sz (vdata v) (phys ?c ?h ?c (i + 1)))"
        using F(6) [OF phys_less [OF c, of ?h ?c "i + 1"]] by simp
      show "jn_entries sz ?v ! i = last_n ?c (jn_entries sz v @ [x]) ! i"
      proof (cases "i + 1 = ?c")
        case True
        then show ?thesis using lhs rhs phys_newest [OF hc, of ?c] by simp
      next
        case ne: False
        then have "phys ?c ?h ?c (i + 1) \<noteq> ?h" using i hc by (intro phys_not_head) auto
        then show ?thesis using lhs rhs ne i old [of "i + 1"] by (simp add: phys_def)
      qed
    qed
  qed
  then show ?thesis using run F(1-3) ring tot head bound by (auto simp: jn_ring_def)
qed

interpretation jn_circ_log: overwriting_log "jn_append sz" "jn_entries sz" vcap "jn_ring sz"
    "\<lambda>x. length x = sz" for sz
proof
  fix n v and x :: bytes
  show "jn_ring sz n v \<Longrightarrow> length (jn_entries sz v) \<le> vcap v" by simp
  show "jn_ring sz (Suc n) v \<Longrightarrow> length x = sz \<Longrightarrow> 0 < vcap v \<Longrightarrow>
      \<exists>v'. jn_append sz v x = Ok v' \<and> jn_ring sz n v' \<and> vcap v' = vcap v \<and>
        jn_entries sz v' = last_n (vcap v) (jn_entries sz v @ [x])"
    by (rule jn_append_ring)
qed

section \<open>Initialisation\<close>

lemma jn_init_spec:
  assumes inv: "jn_inv sz v"
  shows "\<exists>v'. jn_init v c = Ok v' \<and> vcap v' = vcap v \<and> jn_entries sz v' = [] \<and>
    (if c then jn_ring sz (2 ^ 32 - 1) v' else jn_strict sz v')"
proof -
  have len: "16 \<le> length (vdata v)" using inv by (simp add: jn_inv_def)
  let ?f = "if c then journal_flag_circular else 0"
  let ?d = "bsplice 12 (le_enc 4 0) (bsplice 8 (le_enc 4 (unat ?f))
      (bsplice 4 (le_enc 4 0) (bsplice 0 (le_enc 4 0) (vdata v))))"
  let ?v = "v\<lparr>vdata := ?d\<rparr>"
  have run: "jn_init v c = Ok ?v"
    using len by (simp add: jn_init_def jn_set_write_head_def jn_set_total_written_def Let_def)
  have d: "length ?d = length (vdata v)" "u32_at ?d 0 = 0" "u32_at ?d 4 = 0"
    "u32_at ?d 8 = unat ?f mod 2 ^ 32"
    using len by (simp_all add: u32_at_bsplice_disjoint del: take_bit_of_0)
  have circ: "jn_circ ?v = c" using d by (simp add: jn_circ_def journal_flag_circular_def)
  have h: "jn_head ?v = 0" "jn_total ?v = 0" using d by (simp_all add: jn_head_def jn_total_def)
  have i: "jn_inv sz ?v"
    using inv d(1) by (simp add: jn_inv_def account_sized_def slot_room_def)
  have e: "jn_entries sz ?v = []" using h by (simp add: jn_entries_def)
  show ?thesis using run circ h i e by (auto simp: jn_ring_def jn_strict_def)
qed

section \<open>Calls\<close>

datatype journal_call = JInit bool | JAppend bytes | JRead nat | JLatest | JCount | JWrapped

fun journal_call_ok :: "nat \<Rightarrow> journal_call \<Rightarrow> bool" where
  "journal_call_ok sz (JAppend x) = (length x = sz)"
| "journal_call_ok sz c = True"

fun jn_exec :: "nat \<Rightarrow> view \<Rightarrow> journal_call \<Rightarrow> (view \<times> answer) outcome" where
  "jn_exec sz v (JInit c) = unit_call (jn_init v c)"
| "jn_exec sz v (JAppend x) = unit_call (jn_append sz v x)"
| "jn_exec sz v (JRead i) = read_call v (jn_read sz v i) RBytes"
| "jn_exec sz v JLatest = read_call v (jn_latest sz v) RBytes"
| "jn_exec sz v JCount = read_call v (jn_entry_count v) RNum"
| "jn_exec sz v JWrapped = read_call v (jn_has_wrapped v) RBool"

lemma jn_append_keeps_inv: "jn_inv sz v \<Longrightarrow> length x = sz \<Longrightarrow> jn_append sz v x = Ok v' \<Longrightarrow> jn_inv sz v'"
  by (auto simp: jn_append_eq jn_slot_def jn_appended_facts(1) split: if_splits)

interpretation jn_safe: safe_calls "jn_exec sz" "jn_inv sz" "journal_call_ok sz" for sz
proof
  fix v c v' r
  assume A: "jn_inv sz v" "journal_call_ok sz c"
  note init = jn_init_spec [OF A(1)]
  show "jn_exec sz v c \<noteq> Trap"
    using A
  proof (cases c)
    case (JInit b)
    then show ?thesis using init [of b] by (auto simp: call_defs)
  qed (auto simp: call_defs jn_append_eq jn_read_eq jn_latest_def)
  show "jn_exec sz v c = Ok (v', r) \<Longrightarrow> jn_inv sz v'"
    using A
  proof (cases c)
    case (JInit b)
    assume "jn_exec sz v c = Ok (v', r)"
    with JInit init [of b] show ?thesis
      by (auto simp: call_defs jn_ring_def jn_strict_def split: if_splits)
  qed (auto simp: call_defs obind_Ok_iff dest: jn_append_keeps_inv)
qed

section \<open>Properties\<close>

text \<open>
  \<open>Journal\<close> safety. The constructor accepts any header, yet for every buffer it
  accepts and every sequence of calls no call reads or writes outside the slice or
  divides by zero, whatever \<open>write_head\<close>, \<open>total_written\<close> and the flags say.
\<close>

theorem journal_safe_on_any_header:
  assumes "jn_from_bytes sz d = Ok v" and "account_sized d" and "list_all (journal_call_ok sz) cs"
  shows "Trap \<notin> set (snd (run_calls (jn_exec sz) v cs))"
  using jn_safe.run_safe [of sz v cs] jn_from_bytes_inv [OF assms(1,2)] assms(3) by blast

theorem journal_safe_on_any_header_witness:
  "Trap \<notin> set (snd (run_calls (jn_exec 1)
     \<lparr>vdata = [9, 0, 0, 0, 200, 0, 0, 0, 1, 0, 0, 0, 0, 0, 0, 0, 7, 8], vcap = 2\<rparr>
     [JRead 1, JAppend [5], JLatest]))"
  by (rule journal_safe_on_any_header
      [where d = "[9, 0, 0, 0, 200, 0, 0, 0, 1, 0, 0, 0, 0, 0, 0, 0, 7, 8]"])
     (simp_all add: jn_from_bytes_def journal_header_size_def account_sized_def)

text \<open>
  Strict \<open>Journal\<close>. After \<open>init(false)\<close>, appending a list of entries succeeds exactly
  when they fit; the journal then holds them in order, and a journal that is full refuses
  with \<open>AccountDataTooSmall\<close> rather than overwrite an entry.
\<close>

theorem strict_journal_is_bounded_log:
  assumes "jn_from_bytes sz d = Ok v" and "account_sized d" and "list_all (\<lambda>x. length x = sz) xs"
  shows "\<exists>v0. jn_init v False = Ok v0 \<and>
    (if length xs \<le> vcap v
     then \<exists>v'. append_all (jn_append sz) v0 xs = Ok v' \<and>
       (\<forall>i. jn_read sz v' i = (if i < length xs then Ok (xs ! i) else Err InvalidArgument))
     else append_all (jn_append sz) v0 xs = Err AccountDataTooSmall)"
proof -
  from jn_init_spec [of sz v False] jn_from_bytes_inv [OF assms(1,2)]
  obtain v0 where v0: "jn_init v False = Ok v0" "vcap v0 = vcap v" "jn_entries sz v0 = []" "jn_strict sz v0"
    by auto
  have read: "jn_read sz v' i = (if i < length xs then Ok (xs ! i) else Err InvalidArgument)"
    if "jn_strict sz v'" "jn_entries sz v' = xs" for v' i
    using jn_read_eq [of sz v' i] that by (simp add: jn_strict_def del: length_jn_entries)
  show ?thesis
    using v0 read jn_log.append_all_fits [OF v0(4) assms(3)]
      jn_log.append_all_overflows [OF v0(4) assms(3)] by fastforce
qed

theorem strict_journal_is_bounded_log_witness:
  "\<exists>v0. jn_init \<lparr>vdata = replicate 18 7, vcap = 2\<rparr> False = Ok v0 \<and>
     append_all (jn_append 1) v0 [[1], [2], [3]] = Err AccountDataTooSmall"
  using strict_journal_is_bounded_log
    [of 1 "replicate 18 7" "\<lparr>vdata = replicate 18 7, vcap = 2\<rparr>" "[[1], [2], [3]]"]
  by (simp add: jn_from_bytes_def journal_header_size_def account_sized_def)

text \<open>
  Circular \<open>Journal\<close>. After \<open>init(true)\<close> on a journal with room for at least one entry,
  any fewer than \<open>2 ^ 32\<close> appends all succeed and the journal reads back exactly the
  newest \<open>capacity\<close> entries, oldest first.
\<close>

theorem circular_journal_keeps_newest:
  assumes "jn_from_bytes sz d = Ok v" and "account_sized d" and "0 < vcap v"
    and "list_all (\<lambda>x. length x = sz) xs" and "length xs < 2 ^ 32"
  shows "\<exists>v0 v'. jn_init v True = Ok v0 \<and> append_all (jn_append sz) v0 xs = Ok v' \<and>
    (\<forall>i. jn_read sz v' i =
      (if i < min (vcap v) (length xs) then Ok (last_n (vcap v) xs ! i) else Err InvalidArgument))"
proof -
  from jn_init_spec [of sz v True] jn_from_bytes_inv [OF assms(1,2)]
  obtain v0 where v0: "jn_init v True = Ok v0" "vcap v0 = vcap v" "jn_entries sz v0 = []"
    and ring: "jn_ring sz (2 ^ 32 - 1) v0" by auto
  have "jn_ring sz (length xs + 0) v0" using ring assms(5) by (simp add: jn_ring_def)
  from jn_circ_log.append_all_keeps_newest [OF this assms(4)] assms(3) v0
  obtain v' where v': "append_all (jn_append sz) v0 xs = Ok v'" "jn_ring sz 0 v'"
    "jn_entries sz v' = last_n (vcap v) xs" by auto
  then show ?thesis
    using v0 jn_read_eq [of sz v'] length_last_n [of "vcap v" xs]
    by (auto simp: jn_ring_def simp del: length_jn_entries)
qed

theorem circular_journal_keeps_newest_witness:
  "\<exists>v0 v'. jn_init \<lparr>vdata = replicate 18 7, vcap = 2\<rparr> True = Ok v0 \<and>
     append_all (jn_append 1) v0 [[1], [2], [3]] = Ok v' \<and> jn_read 1 v' 0 = Ok [2]"
proof -
  have "jn_from_bytes 1 (replicate 18 7) = Ok \<lparr>vdata = replicate 18 7, vcap = 2\<rparr>"
    by (simp add: jn_from_bytes_def journal_header_size_def)
  from circular_journal_keeps_newest [OF this, of "[[1], [2], [3]]"] show ?thesis
    by (fastforce simp: account_sized_def last_n_def)
qed

text \<open>
  C39: the boundary of the previous property. \<open>total_written\<close> is advanced with
  \<^verbatim>\<open>wrapping_add\<close>, and \<open>entry_count\<close> is derived from it: the append that wraps it
  leaves a full circular journal reporting no entries at all.
\<close>

theorem journal_total_wraps_to_empty:
  assumes "jn_inv sz v" and "jn_circ v" and "0 < vcap v" and "length x = sz"
    and "jn_total v = 2 ^ 32 - 1"
  shows "jn_entry_count v = Ok (vcap v) \<and>
    (\<exists>v'. jn_append sz v x = Ok v' \<and> jn_entry_count v' = Ok 0 \<and> jn_latest sz v' = Err InvalidArgument)"
proof -
  have small: "vcap v < 2 ^ 32" using assms(1) slot_room_small by (simp add: jn_inv_def)
  have h: "jn_slot v < vcap v" using assms(3) by (simp add: jn_slot_def)
  note F = jn_appended_facts [OF assms(1,4) h]
  have run: "jn_append sz v x = Ok (jn_appended sz v (jn_slot v) x)"
    using assms by (simp add: jn_append_eq)
  have t0: "jn_total (jn_appended sz v (jn_slot v) x) = 0" using F(5) assms(5) by simp
  have "jn_entry_count v = Ok (vcap v)" using assms(1,5) small by simp
  moreover have "jn_entry_count (jn_appended sz v (jn_slot v) x) = Ok 0" using F(1) t0 by simp
  ultimately show ?thesis using run by (simp add: jn_latest_def)
qed

theorem journal_total_wraps_to_empty_witness:
  "\<exists>v'. jn_append 1 \<lparr>vdata = [0, 0, 0, 0, 255, 255, 255, 255, 1, 0, 0, 0, 0, 0, 0, 0, 7], vcap = 1\<rparr> [5]
      = Ok v' \<and> jn_entry_count v' = Ok 0"
  using journal_total_wraps_to_empty
    [of 1 "\<lparr>vdata = [0, 0, 0, 0, 255, 255, 255, 255, 1, 0, 0, 0, 0, 0, 0, 0, 7], vcap = 1\<rparr>" "[5]"]
  by (auto simp: jn_inv_def jn_circ_def jn_total_def account_sized_def slot_room_def u32_at_def
      bslice_def journal_flag_circular_def)

end
