(* ===== verification/MachineInts.thy ===== *)
theory MachineInts imports Prelude begin

text \<open>
  Rust's integer operations on \<open>w word\<close>s: the checked and saturating library methods,
  with their exact meaning on the mathematical values, and hopper-native/src/arith.rs,
  the multiplication that avoids the 128-bit helper. The locale \<open>native_int\<close> is what the
  wire integers rely on: an integer type whose checked operations are exact.
\<close>

unbundle bit_operations_syntax

section \<open>The checked methods of the unsigned types\<close>

definition word_checked_add :: "'a::len word \<Rightarrow> 'a word \<Rightarrow> 'a word option" where
  "word_checked_add a b = (if unat a + unat b < 2 ^ LENGTH('a) then Some (a + b) else None)"

definition word_checked_sub :: "'a::len word \<Rightarrow> 'a word \<Rightarrow> 'a word option" where
  "word_checked_sub a b = (if b \<le> a then Some (a - b) else None)"

definition word_checked_mul :: "'a::len word \<Rightarrow> 'a word \<Rightarrow> 'a word option" where
  "word_checked_mul a b = (if unat a * unat b < 2 ^ LENGTH('a) then Some (a * b) else None)"

definition word_checked_div :: "'a::len word \<Rightarrow> 'a word \<Rightarrow> 'a word option" where
  "word_checked_div a b = (if b = 0 then None else Some (a div b))"

fun word_checked_pow :: "'a::len word \<Rightarrow> nat \<Rightarrow> 'a word option" where
  "word_checked_pow a n = (if unat a ^ n < 2 ^ LENGTH('a) then Some (a ^ n) else None)"

declare word_checked_pow.simps [simp del]

definition word_saturating_add :: "'a::len word \<Rightarrow> 'a word \<Rightarrow> 'a word" where
  "word_saturating_add a b = (if unat a + unat b < 2 ^ LENGTH('a) then a + b else - 1)"

definition word_saturating_sub :: "'a::len word \<Rightarrow> 'a word \<Rightarrow> 'a word" where
  "word_saturating_sub a b = (if b \<le> a then a - b else 0)"

lemma word_eq_unatI: "unat a = unat b \<Longrightarrow> a = b"
  by (simp add: word_unat_eq_iff)

lemma unat_less_power [simp]: "unat (a :: 'a::len word) < 2 ^ LENGTH('a)"
  by (rule unsigned_less)

lemma unat_add_exact: "unat a + unat b < 2 ^ LENGTH('a) \<Longrightarrow> unat (a + b :: 'a::len word) = unat a + unat b"
  by (simp add: unat_word_ariths)

lemma unat_mult_exact: "unat a * unat b < 2 ^ LENGTH('a) \<Longrightarrow> unat (a * b :: 'a::len word) = unat a * unat b"
  by (simp add: unat_word_ariths)

lemma unat_sub_exact: "b \<le> a \<Longrightarrow> unat (a - b :: 'a::len word) = unat a - unat b"
  by (rule unat_sub)

lemma unat_div_exact: "unat (a div b :: 'a::len word) = unat a div unat b"
  by (rule unat_div)

lemma unat_mod_exact: "unat (a mod b :: 'a::len word) = unat a mod unat b"
  by (rule unat_mod)

lemma odd_unat: "odd (unat w) \<longleftrightarrow> odd w" for w :: "'a::len word"
  by (simp only: bit_0 [symmetric] bit_unsigned_iff) simp

lemma word_checked_add_Some [simp]:
  "word_checked_add a b = Some c \<longleftrightarrow> unat c = unat a + unat b" for a b c :: "'a::len word"
  unfolding word_checked_add_def
  by (metis unat_add_exact unat_less_power option.inject option.distinct(1) word_eq_unatI)

lemma word_checked_sub_Some [simp]:
  "word_checked_sub a b = Some c \<longleftrightarrow> unat a = unat c + unat b" for a b c :: "'a::len word"
  unfolding word_checked_sub_def word_le_nat_alt
  by (auto simp: unat_sub_exact word_le_nat_alt intro!: word_eq_unatI)

lemma word_checked_mul_Some [simp]:
  "word_checked_mul a b = Some c \<longleftrightarrow> unat c = unat a * unat b" for a b c :: "'a::len word"
  unfolding word_checked_mul_def
  by (metis unat_mult_exact unat_less_power option.inject option.distinct(1) word_eq_unatI)

lemma word_checked_div_Some [simp]:
  "word_checked_div a b = Some c \<longleftrightarrow> b \<noteq> 0 \<and> unat c = unat a div unat b" for a b c :: "'a::len word"
  by (auto simp: word_checked_div_def unat_div_exact intro: word_eq_unatI)

lemma unat_power_exact: "unat a ^ n < 2 ^ LENGTH('a) \<Longrightarrow> unat (a ^ n :: 'a::len word) = unat a ^ n"
proof (induction n)
  case 0
  then show ?case by simp
next
  case (Suc n)
  show ?case
  proof (cases "unat a = 0")
    case True
    then have "a = 0" by (simp add: unat_eq_zero)
    then show ?thesis by simp
  next
    case False
    then have "unat a ^ n \<le> unat a ^ Suc n" by simp
    then have "unat (a ^ n) = unat a ^ n" using Suc by (simp add: le_less_trans del: power_Suc)
    then show ?thesis using Suc.prems by (simp add: unat_mult_exact)
  qed
qed

lemma word_checked_pow_Some [simp]:
  "word_checked_pow a n = Some c \<longleftrightarrow> unat c = unat a ^ n" for a c :: "'a::len word"
  unfolding word_checked_pow.simps
  by (metis unat_power_exact unat_less_power option.inject option.distinct(1) word_eq_unatI)

lemma word_checked_None:
  fixes a b :: "'a::len word"
  shows "word_checked_add a b = None \<longleftrightarrow> 2 ^ LENGTH('a) \<le> unat a + unat b"
    and "word_checked_sub a b = None \<longleftrightarrow> unat a < unat b"
    and "word_checked_mul a b = None \<longleftrightarrow> 2 ^ LENGTH('a) \<le> unat a * unat b"
    and "word_checked_div a b = None \<longleftrightarrow> b = 0"
    and "word_checked_pow a n = None \<longleftrightarrow> 2 ^ LENGTH('a) \<le> unat a ^ n"
  by (auto simp: word_checked_add_def word_checked_sub_def word_checked_mul_def word_checked_div_def
      word_checked_pow.simps word_le_nat_alt)

text \<open>\<open>to_word n\<close> is the exact conversion the checked operations amount to.\<close>

definition to_word :: "nat \<Rightarrow> 'a::len word option" where
  "to_word n = (if n < 2 ^ LENGTH('a) then Some (word_of_nat n) else None)"

lemma to_word_Some [simp]: "to_word n = Some (c :: 'a::len word) \<longleftrightarrow> unat c = n"
  by (auto simp: to_word_def unat_of_nat)

lemma option_word_eqI:
  assumes "\<And>c. x = Some c \<longleftrightarrow> y = Some c"
  shows "x = y"
  by (metis assms option.exhaust)

lemma checked_to_word:
  fixes a b :: "'a::len word"
  shows "word_checked_add a b = to_word (unat a + unat b)"
    and "word_checked_mul a b = to_word (unat a * unat b)"
    and "word_checked_pow a n = to_word (unat a ^ n)"
  by (rule option_word_eqI, simp)+

section \<open>The checked methods of the signed types\<close>

definition sword_in_range :: "'a::len itself \<Rightarrow> int \<Rightarrow> bool" where
  "sword_in_range T i \<longleftrightarrow> - (2 ^ (LENGTH('a) - 1)) \<le> i \<and> i < 2 ^ (LENGTH('a) - 1)"

definition to_sword :: "int \<Rightarrow> 'a::len word option" where
  "to_sword i = (if sword_in_range TYPE('a) i then Some (word_of_int i) else None)"

definition sword_checked_add :: "'a::len word \<Rightarrow> 'a word \<Rightarrow> 'a word option" where
  "sword_checked_add a b = to_sword (sint a + sint b)"

definition sword_checked_sub :: "'a::len word \<Rightarrow> 'a word \<Rightarrow> 'a word option" where
  "sword_checked_sub a b = to_sword (sint a - sint b)"

definition sword_checked_mul :: "'a::len word \<Rightarrow> 'a word \<Rightarrow> 'a word option" where
  "sword_checked_mul a b = to_sword (sint a * sint b)"

lemma to_sword_Some [simp]: "to_sword i = Some (c :: 'a::len word) \<longleftrightarrow> sint c = i"
proof -
  have "sint c = i" if "sword_in_range TYPE('a) i" "word_of_int i = c"
    using that by (auto simp: sword_in_range_def sint_sbintrunc' intro!: signed_take_bit_int_eq_self)
  moreover have "sword_in_range TYPE('a) i \<and> word_of_int i = c" if "sint c = i"
    using that sint_greater_eq [of c] sint_less [of c] by (auto simp: sword_in_range_def)
  ultimately show ?thesis by (auto simp: to_sword_def)
qed

section \<open>The plain operators\<close>

text \<open>
  Rust's \<^verbatim>\<open>+\<close>, \<^verbatim>\<open>-\<close>, \<^verbatim>\<open>*\<close>, \<^verbatim>\<open>/\<close> on unsigned types. An operation that leaves the type panics in a
  build with overflow checks and wraps in one without; division by zero always panics.
  Both are \<open>Trap\<close> here, so a result that is not \<open>Trap\<close> is the same in every build.
\<close>

definition no_panic :: "'b option \<Rightarrow> 'b outcome" where
  "no_panic x = (case x of Some y \<Rightarrow> Ok y | None \<Rightarrow> Trap)"

lemma no_panic_Ok [simp]: "no_panic x = Ok y \<longleftrightarrow> x = Some y"
  by (simp add: no_panic_def split: option.splits)

definition native_add :: "'a::len word \<Rightarrow> 'a word \<Rightarrow> 'a word outcome" where
  "native_add a b = no_panic (word_checked_add a b)"

definition native_sub :: "'a::len word \<Rightarrow> 'a word \<Rightarrow> 'a word outcome" where
  "native_sub a b = no_panic (word_checked_sub a b)"

definition native_mul :: "'a::len word \<Rightarrow> 'a word \<Rightarrow> 'a word outcome" where
  "native_mul a b = no_panic (word_checked_mul a b)"

definition native_div :: "'a::len word \<Rightarrow> 'a word \<Rightarrow> 'a word outcome" where
  "native_div a b = no_panic (word_checked_div a b)"

lemma native_add_eq: "unat a + unat b < 2 ^ LENGTH('a) \<Longrightarrow> native_add a b = Ok (a + b)" for a b :: "'a::len word"
  by (simp add: native_add_def unat_add_exact)

lemma native_sub_eq: "unat b \<le> unat a \<Longrightarrow> native_sub a b = Ok (a - b)" for a b :: "'a::len word"
  by (simp add: native_sub_def unat_sub_exact word_le_nat_alt)

lemma native_mul_eq: "unat a * unat b < 2 ^ LENGTH('a) \<Longrightarrow> native_mul a b = Ok (a * b)" for a b :: "'a::len word"
  by (simp add: native_mul_def unat_mult_exact)

lemma native_div_eq: "b \<noteq> 0 \<Longrightarrow> native_div a b = Ok (a div b)" for a b :: "'a::len word"
  by (simp add: native_div_def unat_div_exact)

lemma checked_fits:
  fixes a b :: "'a::len word"
  shows "unat a * unat b < 2 ^ LENGTH('a) \<Longrightarrow> word_checked_mul a b = Some (a * b)"
    and "unat a + unat b < 2 ^ LENGTH('a) \<Longrightarrow> word_checked_add a b = Some (a + b)"
    and "unat b \<le> unat a \<Longrightarrow> word_checked_sub a b = Some (a - b)"
  by (simp_all add: unat_mult_exact unat_add_exact unat_sub_exact word_le_nat_alt)

text \<open>Reading a chain of checked operations as arithmetic on naturals.\<close>

lemma obind_to_word:
  "obind (ok_or (to_word n) e) f = (if n < 2 ^ LENGTH('a) then f (word_of_nat n :: 'a::len word) else Err e)"
  by (simp add: to_word_def)

lemma unat_word_of_nat: "n < 2 ^ LENGTH('a) \<Longrightarrow> unat (word_of_nat n :: 'a::len word) = n"
  by (simp add: unat_of_nat)

section \<open>Multiplication without the 128-bit helper\<close>

definition checked_mul_u64 :: "u64 \<Rightarrow> u64 \<Rightarrow> u64 option" where
  "checked_mul_u64 a b =
     (let ah = drop_bit 32 a; al = a AND 0xFFFFFFFF;
          bh = drop_bit 32 b; bl = b AND 0xFFFFFFFF in
      if ah \<noteq> 0 \<and> bh \<noteq> 0 then None
      else
        let cross = ah * bl + al * bh in
        if drop_bit 32 cross \<noteq> 0 then None
        else word_checked_add (push_bit 32 cross) (al * bl))"

definition saturating_mul_u64 :: "u64 \<Rightarrow> u64 \<Rightarrow> u64" where
  "saturating_mul_u64 a b = (case checked_mul_u64 a b of Some product \<Rightarrow> product | None \<Rightarrow> - 1)"

lemma unat_high_u64: "unat (drop_bit 32 (a :: u64)) = unat a div 2 ^ 32"
  by (simp only: unat_drop_bit_eq) (simp add: drop_bit_eq_div)

lemma unat_low_u64: "unat ((a :: u64) AND 0xFFFFFFFF) = unat a mod 2 ^ 32"
proof -
  have "(0xFFFFFFFF :: u64) = mask 32" by (simp add: mask_eq_exp_minus_1)
  then have "a AND 0xFFFFFFFF = take_bit 32 a" by (simp add: take_bit_eq_mask)
  then show ?thesis by (simp only: unsigned_take_bit_eq) (simp add: take_bit_eq_mod)
qed

lemma unat_shifted_u64:
  assumes "unat (x :: u64) < 2 ^ 32"
  shows "unat (push_bit 32 x) = unat x * 2 ^ 32"
proof -
  have "unat (push_bit 32 x) = unat x * 2 ^ 32 mod 2 ^ 64"
    by (simp add: push_bit_eq_mult unat_word_ariths)
  then show ?thesis using assms by simp
qed

lemma half_products:
  fixes x y :: nat
  assumes "x < 2 ^ 32" and "y < 2 ^ 32"
  shows "x * y \<le> (2 ^ 32 - 1) * (2 ^ 32 - 1)" and "x * y < 2 ^ 64"
proof -
  show le: "x * y \<le> (2 ^ 32 - 1) * (2 ^ 32 - 1)" using assms by (intro mult_le_mono) auto
  show "x * y < 2 ^ 64" by (rule le_less_trans [OF le]) simp
qed

lemma checked_mul_u64_eq: "checked_mul_u64 a b = word_checked_mul a b"
proof -
  define ah al bh bl where "ah = unat a div 2 ^ 32" and "al = unat a mod 2 ^ 32"
    and "bh = unat b div 2 ^ 32" and "bl = unat b mod 2 ^ 32"
  have a: "unat a = ah * 2 ^ 32 + al" and b: "unat b = bh * 2 ^ 32 + bl"
    by (simp_all add: ah_def al_def bh_def bl_def)
  have "unat a < 2 ^ 64" "unat b < 2 ^ 64" using unsigned_less [of a] unsigned_less [of b] by simp_all
  then have small: "ah < 2 ^ 32" "al < 2 ^ 32" "bh < 2 ^ 32" "bl < 2 ^ 32"
    by (auto simp: ah_def al_def bh_def bl_def less_mult_imp_div_less)
  let ?ah = "drop_bit 32 a" and ?al = "a AND 0xFFFFFFFF"
  let ?bh = "drop_bit 32 b" and ?bl = "b AND 0xFFFFFFFF"
  have u: "unat ?ah = ah" "unat ?al = al" "unat ?bh = bh" "unat ?bl = bl"
    by (simp_all add: unat_high_u64 unat_low_u64 ah_def al_def bh_def bl_def)
  have zero: "?ah = 0 \<longleftrightarrow> ah = 0" "?bh = 0 \<longleftrightarrow> bh = 0"
    using u(1,3) by (metis unat_eq_zero)+
  have prod: "unat a * unat b = ah * bh * 2 ^ 64 + (ah * bl + al * bh) * 2 ^ 32 + al * bl"
    unfolding a b by (simp add: algebra_simps)
  show ?thesis
  proof (cases "ah \<noteq> 0 \<and> bh \<noteq> 0")
    case True
    then have "1 * 2 ^ 64 \<le> ah * bh * 2 ^ 64" by (intro mult_le_mono1) (simp add: Suc_leI)
    also have "\<dots> \<le> unat a * unat b" unfolding prod by simp
    finally have "2 ^ 64 \<le> unat a * unat b" by simp
    then show ?thesis using True zero
      by (simp add: checked_mul_u64_def word_checked_mul_def)
  next
    case False
    define cross where "cross = ah * bl + al * bh"
    have one: "ah * bl = 0 \<or> al * bh = 0" using False by auto
    have cross_small: "cross < 2 ^ 64" using one half_products small unfolding cross_def by auto
    have uc: "unat (?ah * ?bl + ?al * ?bh) = cross"
      using cross_small u unfolding cross_def by (simp add: unat_word_ariths)
    have ul: "unat (?al * ?bl) = al * bl"
      using half_products [of al bl] small u by (simp add: unat_word_ariths)
    have split: "unat a * unat b = cross * 2 ^ 32 + al * bl"
      using False unfolding prod cross_def by auto
    have hi: "drop_bit 32 (?ah * ?bl + ?al * ?bh) = 0 \<longleftrightarrow> cross < 2 ^ 32"
    proof -
      have "drop_bit 32 (?ah * ?bl + ?al * ?bh) = 0 \<longleftrightarrow> cross div 2 ^ 32 = 0"
        using unat_high_u64 [of "?ah * ?bl + ?al * ?bh"] uc by (metis unat_eq_zero)
      then show ?thesis by (simp add: div_eq_0_iff)
    qed
    show ?thesis
    proof (cases "cross < 2 ^ 32")
      case True
      have "unat (?ah * ?bl + ?al * ?bh) < 2 ^ 32" unfolding uc by (rule True)
      from unat_shifted_u64 [OF this]
      have "unat (push_bit 32 (?ah * ?bl + ?al * ?bh)) = cross * 2 ^ 32" unfolding uc .
      moreover have "checked_mul_u64 a b =
          word_checked_add (push_bit 32 (?ah * ?bl + ?al * ?bh)) (?al * ?bl)"
        using False True zero hi by (auto simp: checked_mul_u64_def Let_def)
      ultimately show ?thesis
        by (intro option_word_eqI) (simp only: word_checked_add_Some word_checked_mul_Some ul split)
    next
      case False': False
      then have "2 ^ 32 * 2 ^ 32 \<le> cross * 2 ^ 32" by (intro mult_le_mono1) simp
      also have "\<dots> \<le> unat a * unat b" unfolding split by simp
      finally have "2 ^ 64 \<le> unat a * unat b" by simp
      then show ?thesis using False False' zero hi
        by (auto simp: checked_mul_u64_def word_checked_mul_def Let_def)
    qed
  qed
qed

section \<open>The interface the wire integers use\<close>

text \<open>The macro's \<^verbatim>\<open>$native\<close>: a signed or an unsigned type of some width.\<close>

datatype signedness = Unsigned | Signed

fun native_val :: "signedness \<Rightarrow> 'a::len word \<Rightarrow> int" where
  "native_val Unsigned w = uint w"
| "native_val Signed w = sint w"

fun native_checked_add :: "signedness \<Rightarrow> 'a::len word \<Rightarrow> 'a word \<Rightarrow> 'a word option" where
  "native_checked_add Unsigned a b = word_checked_add a b"
| "native_checked_add Signed a b = sword_checked_add a b"

fun native_checked_sub :: "signedness \<Rightarrow> 'a::len word \<Rightarrow> 'a word \<Rightarrow> 'a word option" where
  "native_checked_sub Unsigned a b = word_checked_sub a b"
| "native_checked_sub Signed a b = sword_checked_sub a b"

fun native_checked_mul :: "signedness \<Rightarrow> 'a::len word \<Rightarrow> 'a word \<Rightarrow> 'a word option" where
  "native_checked_mul Unsigned a b = word_checked_mul a b"
| "native_checked_mul Signed a b = sword_checked_mul a b"

text \<open>\<^verbatim>\<open>LeanMul\<close>: the 64-bit unsigned product is the split one, every other width the library's.\<close>

definition checked_mul_lean :: "signedness \<Rightarrow> 'a::len word \<Rightarrow> 'a word \<Rightarrow> 'a word option" where
  "checked_mul_lean s a b =
     (if s = Unsigned \<and> LENGTH('a) = 64
      then map_option ucast (checked_mul_u64 (ucast a) (ucast b))
      else native_checked_mul s a b)"

lemma unat_ucast_same:
  "LENGTH('b) = LENGTH('c) \<Longrightarrow> unat (ucast (c :: 'c::len word) :: 'b::len word) = unat c"
  by (simp add: unsigned_ucast_eq take_bit_nat_eq_self_iff)

lemma checked_mul_lean_eq: "checked_mul_lean s a b = native_checked_mul s a b"
proof (cases "s = Unsigned \<and> LENGTH('a) = 64")
  case True
  then have len: "LENGTH('a) = LENGTH(64)" "LENGTH(64) = LENGTH('a)" by simp_all
  have swap: "ucast z = c \<longleftrightarrow> z = (ucast c :: u64)" for z :: u64 and c :: "'a word"
    unfolding word_unat_eq_iff unat_ucast_same [OF len(1)] unat_ucast_same [OF len(2)] ..
  have "map_option ucast (checked_mul_u64 (ucast a) (ucast b)) = Some c \<longleftrightarrow>
      native_checked_mul s a b = Some c" for c :: "'a word"
  proof -
    have "map_option ucast (checked_mul_u64 (ucast a) (ucast b)) = Some c \<longleftrightarrow>
        checked_mul_u64 (ucast a) (ucast b) = Some (ucast c)"
      by (auto simp: swap)
    then show ?thesis using True by (simp add: checked_mul_u64_eq unat_ucast_same)
  qed
  then have "map_option ucast (checked_mul_u64 (ucast a) (ucast b)) = native_checked_mul s a b"
    by (rule option_word_eqI)
  then show ?thesis using True by (simp add: checked_mul_lean_def)
qed (auto simp: checked_mul_lean_def)

locale native_int =
  fixes val :: "'a::len word \<Rightarrow> int"
    and add sub mul :: "'a word \<Rightarrow> 'a word \<Rightarrow> 'a word option"
  assumes val_inj: "val a = val b \<Longrightarrow> a = b"
    and add_exact: "add a b = Some c \<longleftrightarrow> val c = val a + val b"
    and sub_exact: "sub a b = Some c \<longleftrightarrow> val c = val a - val b"
    and mul_exact: "mul a b = Some c \<longleftrightarrow> val c = val a * val b"
begin

lemma add_sub_cancel: "add a b = Some c \<Longrightarrow> sub c b = Some a"
  by (simp add: add_exact sub_exact)

lemma add_comm: "add a b = add b a"
  by (rule option_word_eqI) (simp add: add_exact add.commute)

lemma mul_comm: "mul a b = mul b a"
  by (rule option_word_eqI) (simp add: mul_exact mult.commute)

end

lemma unsigned_exact:
  fixes a b c :: "'a::len word"
  shows "unat c = unat a + unat b \<longleftrightarrow> uint c = uint a + uint b"
    and "unat a = unat c + unat b \<longleftrightarrow> uint c = uint a - uint b"
    and "unat c = unat a * unat b \<longleftrightarrow> uint c = uint a * uint b"
proof -
  have u: "uint x = int (unat x)" for x :: "'a word" by simp
  show "unat c = unat a + unat b \<longleftrightarrow> uint c = uint a + uint b"
    unfolding u by (simp only: of_nat_add [symmetric] of_nat_eq_iff)
  show "unat a = unat c + unat b \<longleftrightarrow> uint c = uint a - uint b"
    unfolding u by (simp only: eq_diff_eq of_nat_add [symmetric] of_nat_eq_iff) (rule eq_commute)
  show "unat c = unat a * unat b \<longleftrightarrow> uint c = uint a * uint b"
    unfolding u by (simp only: of_nat_mult [symmetric] of_nat_eq_iff)
qed

interpretation native: native_int "native_val s" "native_checked_add s" "native_checked_sub s"
    "checked_mul_lean s" for s
proof
  fix a b c :: "'a::len word"
  show "native_val s a = native_val s b \<Longrightarrow> a = b"
    by (cases s) (auto intro: signed_word_eqI unsigned_word_eqI)
  show "native_checked_add s a b = Some c \<longleftrightarrow> native_val s c = native_val s a + native_val s b"
    by (cases s) (simp_all only: native_checked_add.simps native_val.simps word_checked_add_Some
        sword_checked_add_def to_sword_Some unsigned_exact)
  show "native_checked_sub s a b = Some c \<longleftrightarrow> native_val s c = native_val s a - native_val s b"
    by (cases s) (simp_all only: native_checked_sub.simps native_val.simps word_checked_sub_Some
        sword_checked_sub_def to_sword_Some unsigned_exact(2))
  show "checked_mul_lean s a b = Some c \<longleftrightarrow> native_val s c = native_val s a * native_val s b"
    by (cases s) (simp_all only: checked_mul_lean_eq native_checked_mul.simps native_val.simps
        word_checked_mul_Some sword_checked_mul_def to_sword_Some unsigned_exact)
qed

section \<open>Properties\<close>

text \<open>
  \<open>checked_mul_u64\<close>, which decides overflow from 32-bit halves with 64-bit
  arithmetic only, is the library's \<^verbatim>\<open>u64::checked_mul\<close>: the exact product when it fits
  in 64 bits and \<^verbatim>\<open>None\<close> otherwise; \<open>saturating_mul_u64\<close> is the product clamped to
  \<^verbatim>\<open>u64::MAX\<close>.
\<close>

theorem lean_mul_is_checked_mul:
  "checked_mul_u64 a b = to_word (unat a * unat b) \<and>
   unat (saturating_mul_u64 a b) = min (unat a * unat b) (2 ^ 64 - 1)"
proof -
  have eq: "checked_mul_u64 a b = to_word (unat a * unat b)"
    by (simp add: checked_mul_u64_eq checked_to_word)
  have "unat (- 1 :: u64) = 2 ^ 64 - 1" by (simp add: unsigned_minus_1_eq_mask mask_eq_exp_minus_1)
  moreover have "unat (case to_word n of Some p \<Rightarrow> p | None \<Rightarrow> (- 1 :: u64)) = min n (unat (- 1 :: u64))"
    if "unat (- 1 :: u64) = 2 ^ 64 - 1" for n
    unfolding that by (auto simp: to_word_def unat_of_nat that)
  ultimately have "unat (saturating_mul_u64 a b) = min (unat a * unat b) (2 ^ 64 - 1)"
    unfolding saturating_mul_u64_def eq by metis
  with eq show ?thesis by blast
qed

end
