(* ===== verification/Math.thy ===== *)
theory Math imports MachineInts "HOL-Library.Signed_Division" begin

text \<open>
  hopper-core/src/math/mod.rs: the checked arithmetic every Hopper program computes
  amounts with, on the machine types of the code (u64, i64, u128, i128). Shown: each
  operation is the exact mathematical function (floor, ceiling, power, decimal scaling)
  whenever that fits the result type, and \<open>ArithmeticOverflow\<close> otherwise.
\<close>

definition checked_add :: "u64 \<Rightarrow> u64 \<Rightarrow> u64 outcome" where
  "checked_add a b = ok_or (word_checked_add a b) ArithmeticOverflow"

definition checked_sub :: "u64 \<Rightarrow> u64 \<Rightarrow> u64 outcome" where
  "checked_sub a b = ok_or (word_checked_sub a b) ArithmeticOverflow"

definition checked_mul :: "u64 \<Rightarrow> u64 \<Rightarrow> u64 outcome" where
  "checked_mul a b = ok_or (word_checked_mul a b) ArithmeticOverflow"

definition checked_div :: "u64 \<Rightarrow> u64 \<Rightarrow> u64 outcome" where
  "checked_div a b = ok_or (word_checked_div a b) ArithmeticOverflow"

definition checked_add_i64 :: "u64 \<Rightarrow> u64 \<Rightarrow> u64 outcome" where
  "checked_add_i64 a b = ok_or (sword_checked_add a b) ArithmeticOverflow"

definition checked_sub_i64 :: "u64 \<Rightarrow> u64 \<Rightarrow> u64 outcome" where
  "checked_sub_i64 a b = ok_or (sword_checked_sub a b) ArithmeticOverflow"

text \<open>\<^verbatim>\<open>u64::div_ceil\<close> of the standard library: the quotient, one more when a remainder is left.\<close>

definition div_ceil :: "u64 \<Rightarrow> u64 \<Rightarrow> u64 outcome" where
  "div_ceil a b =
     fail_if (b = 0) ArithmeticOverflow
       (Ok (if a mod b > 0 then a div b + 1 else a div b))"

definition checked_div_ceil :: "u64 \<Rightarrow> u64 \<Rightarrow> u64 outcome" where
  "checked_div_ceil a b =
     fail_if (b = 0) ArithmeticOverflow
       (obind (ok_or (word_checked_add a (b - 1)) ArithmeticOverflow) (\<lambda>s. Ok (s div b)))"

definition to_u64 :: "u128 \<Rightarrow> u64 outcome" where
  "to_u64 val = fail_if (val > ucast (- 1 :: u64)) ArithmeticOverflow (Ok (ucast val))"

definition checked_mul_div :: "u64 \<Rightarrow> u64 \<Rightarrow> u64 \<Rightarrow> u64 outcome" where
  "checked_mul_div a b c =
     fail_if (c = 0) ArithmeticOverflow
       (obind (ok_or (word_checked_mul (ucast a :: u128) (ucast b)) ArithmeticOverflow) (\<lambda>product.
        to_u64 (product div ucast c)))"

definition checked_mul_div_ceil :: "u64 \<Rightarrow> u64 \<Rightarrow> u64 \<Rightarrow> u64 outcome" where
  "checked_mul_div_ceil a b c =
     fail_if (c = 0) ArithmeticOverflow
       (obind (ok_or (word_checked_mul (ucast a :: u128) (ucast b)) ArithmeticOverflow) (\<lambda>numerator.
        let c128 = (ucast c :: u128) in
        obind (ok_or (word_checked_add numerator (c128 - 1)) ArithmeticOverflow) (\<lambda>s.
        to_u64 (s div c128))))"

definition scale_bps :: "u64 \<Rightarrow> u64 \<Rightarrow> u64 outcome" where
  "scale_bps v bps = checked_mul_div v bps 10000"

definition bps_of :: "u64 \<Rightarrow> u16 \<Rightarrow> u64 outcome" where
  "bps_of amount basis_points = checked_mul_div amount (ucast basis_points) 10000"

definition bps_of_ceil :: "u64 \<Rightarrow> u16 \<Rightarrow> u64 outcome" where
  "bps_of_ceil amount basis_points = checked_mul_div_ceil amount (ucast basis_points) 10000"

definition scale_fraction :: "u64 \<Rightarrow> u64 \<Rightarrow> u64 \<Rightarrow> u64 outcome" where
  "scale_fraction v numerator denominator = checked_mul_div v numerator denominator"

definition scale_amount :: "u64 \<Rightarrow> u8 \<Rightarrow> u8 \<Rightarrow> u64 outcome" where
  "scale_amount amount from_decimals to_decimals =
     (if from_decimals = to_decimals then Ok amount
      else if to_decimals > from_decimals then
        obind (ok_or (word_checked_pow (10 :: u128) (unat (to_decimals - from_decimals))) ArithmeticOverflow)
          (\<lambda>factor. obind (ok_or (word_checked_mul (ucast amount) factor) ArithmeticOverflow) to_u64)
      else
        obind (ok_or (word_checked_pow (10 :: u64) (unat (from_decimals - to_decimals))) ArithmeticOverflow)
          (\<lambda>factor. checked_div amount factor))"

definition scale_amount_ceil :: "u64 \<Rightarrow> u8 \<Rightarrow> u8 \<Rightarrow> u64 outcome" where
  "scale_amount_ceil amount from_decimals to_decimals =
     (if from_decimals = to_decimals then Ok amount
      else if to_decimals > from_decimals then
        obind (ok_or (word_checked_pow (10 :: u128) (unat (to_decimals - from_decimals))) ArithmeticOverflow)
          (\<lambda>factor. obind (ok_or (word_checked_mul (ucast amount) factor) ArithmeticOverflow) to_u64)
      else
        obind (ok_or (word_checked_pow (10 :: u64) (unat (from_decimals - to_decimals))) ArithmeticOverflow)
          (\<lambda>factor. checked_div_ceil amount factor))"

text \<open>The repeated-squaring loop; each round shifts one bit out of \<open>e\<close>.\<close>

lemma shift_decreases: "e > 0 \<Longrightarrow> unat (drop_bit 1 e :: u32) < unat e"
proof -
  assume "e > 0"
  then have "0 < unat e" by (simp add: word_less_nat_alt)
  then have "unat e div 2 < unat e" by simp
  then show ?thesis by (simp only: unat_drop_bit_eq) (simp add: drop_bit_Suc)
qed

function pow_loop :: "u64 \<Rightarrow> u64 \<Rightarrow> u32 \<Rightarrow> u64 outcome" where
  "pow_loop result b e =
     (if e > 0 then
        obind (if e AND 1 = 1 then ok_or (word_checked_mul result b) ArithmeticOverflow else Ok result)
          (\<lambda>result'.
            let e' = drop_bit 1 e in
            obind (if e' > 0 then ok_or (word_checked_mul b b) ArithmeticOverflow else Ok b)
              (\<lambda>b'. pow_loop result' b' e'))
      else Ok result)"
  by pat_completeness auto
termination by (relation "measure (\<lambda>(r, b, e). unat e)") (auto intro: shift_decreases [unfolded One_nat_def])

declare pow_loop.simps [simp del]

definition checked_pow :: "u64 \<Rightarrow> u32 \<Rightarrow> u64 outcome" where
  "checked_pow base exp = (if exp = 0 then Ok 1 else pow_loop 1 base exp)"

section \<open>Exactness\<close>

text \<open>\<open>u64_of n\<close> is the specification of all of them: \<open>n\<close> if it fits, the overflow error if not.\<close>

definition u64_of :: "nat \<Rightarrow> u64 outcome" where
  "u64_of n = ok_or (to_word n) ArithmeticOverflow"

lemma u64_of_Ok [simp]: "u64_of n = Ok c \<longleftrightarrow> unat c = n"
  by (simp add: u64_of_def)

lemma u64_of_Ok' [simp]: "Ok c = u64_of n \<longleftrightarrow> unat c = n"
  by (metis u64_of_Ok)

lemma ex_u64: "n < 2 ^ 64 \<Longrightarrow> \<exists>c :: u64. unat c = n"
  by (rule exI [of _ "word_of_nat n"]) (simp add: unat_of_nat)

lemma u64_of_Err: "u64_of n = Err e \<longleftrightarrow> e = ArithmeticOverflow \<and> 2 ^ 64 \<le> n"
  by (auto simp: u64_of_def to_word_def)

lemma u64_of_not_Trap [simp]: "u64_of n \<noteq> Trap"
  by (simp add: u64_of_def)

lemma u64_of_unat [simp]: "u64_of (unat c) = Ok c"
  by simp

lemma unat_ucast_u64_u128 [simp]: "unat (ucast (a :: u64) :: u128) = unat a"
  using unsigned_less [of a, where 'a = nat] by (simp add: unsigned_ucast_eq take_bit_nat_eq_self_iff)

lemma unat_ucast_u16_u64 [simp]: "unat (ucast (a :: u16) :: u64) = unat a"
  using unsigned_less [of a, where 'a = nat] by (simp add: unsigned_ucast_eq take_bit_nat_eq_self_iff)

lemma u64_product_fits: "unat (a :: u64) * unat (b :: u64) + k < 2 ^ 128" if "k < 2 ^ 65 - 1"
proof -
  have "unat a \<le> 2 ^ 64 - 1" "unat b \<le> 2 ^ 64 - 1"
    using unsigned_less [of a, where 'a = nat] unsigned_less [of b, where 'a = nat] by simp_all
  then have "unat a * unat b \<le> (2 ^ 64 - 1) * (2 ^ 64 - 1)" by (rule mult_le_mono)
  with that show ?thesis by simp
qed

lemma wide_product:
  "word_checked_mul (ucast (a :: u64) :: u128) (ucast (b :: u64)) = Some (ucast a * ucast b)"
  "unat (ucast (a :: u64) * ucast (b :: u64) :: u128) = unat a * unat b"
proof -
  have fits: "unat a * unat b < 2 ^ 128" using u64_product_fits [of 0 a b] by simp
  then show eq: "unat (ucast a * ucast b :: u128) = unat a * unat b"
    by (simp add: unat_mult_exact)
  then show "word_checked_mul (ucast a :: u128) (ucast b) = Some (ucast a * ucast b)" by simp
qed

lemma to_u64_eq: "to_u64 v = u64_of (unat v)"
proof -
  have max: "unat (ucast (- 1 :: u64) :: u128) = 2 ^ 64 - 1"
    unfolding unat_ucast_u64_u128 by (simp add: unsigned_minus_1_eq_mask mask_eq_exp_minus_1)
  have cast: "ucast v = (word_of_nat (unat v) :: u64)"
    by (rule word_eq_unatI) (simp add: unsigned_ucast_eq unat_of_nat take_bit_eq_mod)
  show ?thesis
    unfolding to_u64_def fail_if_def word_less_nat_alt max cast u64_of_def to_word_def
    by auto
qed

lemma checked_mul_div_eq:
  "checked_mul_div a b c =
    (if c = 0 then Err ArithmeticOverflow else u64_of (unat a * unat b div unat c))"
  by (simp add: checked_mul_div_def wide_product to_u64_eq unat_div_exact)

definition ceil_div :: "nat \<Rightarrow> nat \<Rightarrow> nat" where
  "ceil_div n m = (n + (m - 1)) div m"

text \<open>\<open>ceil_div\<close> is the least quotient that covers the numerator.\<close>

lemma ceil_div_least: "0 < m \<Longrightarrow> ceil_div n m \<le> q \<longleftrightarrow> n \<le> q * m"
  unfolding ceil_div_def by (subst less_Suc_eq_le [symmetric], subst div_less_iff_less_mult) auto

lemma checked_mul_div_ceil_eq:
  "checked_mul_div_ceil a b c =
    (if c = 0 then Err ArithmeticOverflow else u64_of (ceil_div (unat a * unat b) (unat c)))"
proof (cases "c = 0")
  case False
  then have c: "0 < unat c" by (simp add: unat_gt_0)
  have one: "unat (ucast c - 1 :: u128) = unat c - 1"
    using c by (subst unat_sub_exact) (auto simp: word_le_nat_alt)
  have "unat c < 2 ^ 64" using unsigned_less [of c, where 'a = nat] by simp
  then have "unat a * unat b + (unat c - 1) < 2 ^ 128" using u64_product_fits [of "unat c - 1" a b] by simp
  then have sum: "unat (ucast a * ucast b + (ucast c - 1) :: u128) = unat a * unat b + (unat c - 1)"
    by (subst unat_add_exact) (auto simp: wide_product one)
  then have add: "word_checked_add (ucast a * ucast b :: u128) (ucast c - 1) = Some (ucast a * ucast b + (ucast c - 1))"
    by (simp add: wide_product one)
  show ?thesis
    using False unfolding checked_mul_div_ceil_def Let_def
    by (simp add: wide_product(1) add to_u64_eq unat_div_exact ceil_div_def sum)
qed (simp add: checked_mul_div_ceil_def)

lemma checked_div_ceil_eq:
  "checked_div_ceil a b =
    (if b = 0 \<or> 2 ^ 64 \<le> unat a + (unat b - 1) then Err ArithmeticOverflow
     else u64_of (ceil_div (unat a) (unat b)))"
proof (cases "b = 0")
  case False
  then have b: "0 < unat b" by (simp add: unat_gt_0)
  have one: "unat (b - 1) = unat b - 1" using b by (subst unat_sub_exact) (auto simp: word_le_nat_alt)
  show ?thesis
  proof (cases "2 ^ 64 \<le> unat a + (unat b - 1)")
    case True
    then show ?thesis using False
      by (simp add: checked_div_ceil_def checked_to_word one to_word_def)
  next
    case lt: False
    then have "unat (a + (b - 1)) = unat a + (unat b - 1)" by (subst unat_add_exact) (auto simp: one)
    then have add: "word_checked_add a (b - 1) = Some (a + (b - 1))"
      and q: "ceil_div (unat a) (unat b) = unat ((a + (b - 1)) div b)"
      by (simp_all add: one unat_div_exact ceil_div_def)
    show ?thesis using False lt unfolding q u64_of_unat checked_div_ceil_def by (simp add: add)
  qed
qed (simp add: checked_div_ceil_def)

lemma ceil_sum:
  fixes n m q r :: nat
  shows "0 < r \<Longrightarrow> 0 < m \<Longrightarrow> n = m * q + r \<Longrightarrow> n + (m - 1) = (r - 1) + (q + 1) * m"
  by (simp add: algebra_simps)

lemma div_ceil_eq:
  "div_ceil a b = (if b = 0 then Err ArithmeticOverflow else u64_of (ceil_div (unat a) (unat b)))"
proof (cases "b = 0")
  case False
  then have b: "0 < unat b" by (simp add: unat_gt_0)
  have m: "a mod b > 0 \<longleftrightarrow> 0 < unat a mod unat b" by (simp add: word_less_nat_alt unat_mod_exact)
  have q: "unat (if a mod b > 0 then a div b + 1 else a div b) = ceil_div (unat a) (unat b)"
  proof (cases "0 < unat a mod unat b")
    case True
    then have "unat b \<noteq> 1" by auto
    then have "unat a div unat b < unat a \<or> unat a = 0" using b by auto
    then have "unat a div unat b + 1 < 2 ^ 64"
      using unsigned_less [of a, where 'a = nat] True by auto
    then have "unat (a div b + 1) = unat a div unat b + 1"
      by (subst unat_add_exact) (auto simp: unat_div_exact)
    moreover have "ceil_div (unat a) (unat b) = unat a div unat b + 1"
    proof -
      let ?q = "unat a div unat b" and ?r = "unat a mod unat b"
      have "unat a + (unat b - 1) = (?r - 1) + (?q + 1) * unat b"
        by (rule ceil_sum [OF True b]) simp
      then have "ceil_div (unat a) (unat b) = (?r - 1) div unat b + (?q + 1)"
        using b unfolding ceil_div_def by (metis div_mult_self1 less_numeral_extra(3) add.commute)
      moreover have "?r - 1 < unat b" using b by (meson less_imp_diff_less mod_less_divisor)
      ultimately show ?thesis by simp
    qed
    ultimately show ?thesis using True m by simp
  next
    case False
    then have a: "unat a = unat a div unat b * unat b" using b by auto
    have "(unat a div unat b * unat b + (unat b - 1)) div unat b = unat a div unat b"
      using b by (subst div_add1_eq) simp
    then have "ceil_div (unat a) (unat b) = unat a div unat b" unfolding ceil_div_def using a by metis
    then show ?thesis using False m by (simp add: unat_div_exact)
  qed
  show ?thesis using False unfolding div_ceil_def q [symmetric] u64_of_unat by simp
qed (simp add: div_ceil_def)

lemma checked_div_eq: "checked_div a b = (if b = 0 then Err ArithmeticOverflow else u64_of (unat a div unat b))"
  unfolding unat_div_exact [symmetric] u64_of_unat by (simp add: checked_div_def word_checked_div_def)

lemma checked_ops_eq:
  "checked_add a b = u64_of (unat a + unat b)"
  "checked_mul a b = u64_of (unat a * unat b)"
  "checked_sub a b = (if unat a < unat b then Err ArithmeticOverflow else u64_of (unat a - unat b))"
proof -
  show "checked_add a b = u64_of (unat a + unat b)" "checked_mul a b = u64_of (unat a * unat b)"
    by (simp_all add: checked_add_def checked_mul_def u64_of_def checked_to_word)
  show "checked_sub a b = (if unat a < unat b then Err ArithmeticOverflow else u64_of (unat a - unat b))"
  proof (cases "unat a < unat b")
    case False
    then have q: "unat a - unat b = unat (a - b)" by (simp add: unat_sub_exact word_le_nat_alt)
    show ?thesis using False unfolding q u64_of_unat
      by (simp add: checked_sub_def word_checked_sub_def word_le_nat_alt)
  qed (simp add: checked_sub_def word_checked_sub_def word_le_nat_alt)
qed

lemma low_bit_odd: "e AND 1 = 1 \<longleftrightarrow> odd (unat e)" for e :: u32
  unfolding odd_unat by (simp add: and_one_eq odd_iff_mod_2_eq_one)

lemma pow_halve:
  fixes b :: nat
  shows "odd n \<Longrightarrow> b * (b * b) ^ (n div 2) = b ^ n" and "even n \<Longrightarrow> (b * b) ^ (n div 2) = b ^ n"
  by (auto elim!: oddE evenE simp: power_mult power2_eq_square)

lemma pow_loop_eq:
  "0 < e \<Longrightarrow> 0 < unat r \<or> unat b = 0 \<Longrightarrow> pow_loop r b e = u64_of (unat r * unat b ^ unat e)"
proof (induction "unat e" arbitrary: r b e rule: less_induct)
  case less
  let ?n = "unat e" and ?e = "drop_bit 1 e"
  have n: "0 < ?n" using less.prems(1) by (simp add: word_less_nat_alt)
  have e': "unat ?e = ?n div 2" by (simp only: unat_drop_bit_eq) (simp add: drop_bit_Suc)
  have e'0: "?e > 0 \<longleftrightarrow> 1 < ?n" by (simp only: word_less_nat_alt e' unat_0) auto
  have grow: "unat b \<le> unat b ^ k" if "0 < k" for k
    using that by (cases "unat b = 0") (auto simp: self_le_power)
  have step: "pow_loop r b e =
      obind (if odd ?n then u64_of (unat r * unat b) else Ok r) (\<lambda>r'.
      obind (if 1 < ?n then u64_of (unat b * unat b) else Ok b) (\<lambda>b'. pow_loop r' b' ?e))"
    using less.prems(1) by (subst pow_loop.simps)
      (simp add: Let_def e'0 [simplified] low_bit_odd checked_to_word flip: u64_of_def cong: if_cong)
  show ?case
  proof (cases "odd ?n \<and> 2 ^ 64 \<le> unat r * unat b")
    case True
    then have "2 ^ 64 \<le> unat r * unat b ^ ?n"
      using mult_le_mono2 [OF grow [OF n], of "unat r"] by linarith
    then have "u64_of (unat r * unat b ^ ?n) = Err ArithmeticOverflow" by (simp add: u64_of_Err)
    moreover have "u64_of (unat r * unat b) = Err ArithmeticOverflow" using True by (simp add: u64_of_Err)
    ultimately show ?thesis using True unfolding step by simp
  next
    case ok: False
    define r' where "r' = (if odd ?n then r * b else r)"
    have r'n: "unat r' = (if odd ?n then unat r * unat b else unat r)"
      using ok by (auto simp: r'_def unat_mult_exact)
    have r': "(if odd ?n then u64_of (unat r * unat b) else Ok r) = Ok r'"
      using r'n by (cases "odd ?n") (simp_all add: r'_def)
    show ?thesis
    proof (cases "1 < ?n")
      case False
      with n have "?n = 1" by simp
      then have "?e = 0" using e'0 by (simp add: word_gt_0)
      moreover have "u64_of (unat r * unat b ^ 1) = Ok r'" using \<open>?n = 1\<close> r'n by simp
      ultimately show ?thesis using \<open>?n = 1\<close> unfolding step r' by (simp add: pow_loop.simps [of _ _ 0])
    next
      case two: True
      have rb: "0 < unat r' \<or> unat b = 0" using less.prems(2) r'n by auto
      show ?thesis
      proof (cases "2 ^ 64 \<le> unat b * unat b")
        case True
        then have "0 < unat r" using less.prems(2) by auto
        have "0 < unat b" using True by (cases "unat b = 0") auto
        then
        have "unat b * unat b \<le> unat b ^ ?n"
          using True two power_increasing [of 2 ?n "unat b"] by (auto simp: power2_eq_square Suc_le_eq)
        then have "2 ^ 64 \<le> 1 * unat b ^ ?n" using True by linarith
        also have "\<dots> \<le> unat r * unat b ^ ?n" using \<open>0 < unat r\<close> by (intro mult_le_mono1) simp
        finally have "u64_of (unat r * unat b ^ ?n) = Err ArithmeticOverflow" by (simp add: u64_of_Err)
        moreover have "u64_of (unat b * unat b) = Err ArithmeticOverflow" using True by (simp add: u64_of_Err)
        ultimately show ?thesis using two unfolding step r' by simp
      next
        case False
        then have bb: "unat (b * b) = unat b * unat b" by (simp add: unat_mult_exact)
        then have b': "u64_of (unat b * unat b) = Ok (b * b)" by simp
        have "pow_loop r' (b * b) ?e = u64_of (unat r' * unat (b * b) ^ unat ?e)"
          using two rb n e'0 by (intro less.hyps) (auto simp: e' bb simp del: One_nat_def)
        then show ?thesis using two pow_halve [of ?n "unat b"] unfolding step r' b' r'n bb e'
          by (auto simp: mult.assoc)
      qed
    qed
  qed
qed


lemma checked_pow_eq: "checked_pow b e = u64_of (unat b ^ unat e)"
proof (cases "e = 0")
  case True
  have "u64_of 1 = Ok 1" by simp
  then show ?thesis using True by (simp add: checked_pow_def)
qed (simp add: checked_pow_def pow_loop_eq word_gt_0)

lemma pow10_u128: "word_checked_pow (10 :: u128) k = (if k < 39 then Some (10 ^ k) else None)"
proof -
  have "(10 :: nat) ^ k \<le> 10 ^ 38" if "k < 39" using that by (intro power_increasing) auto
  moreover have "(10 :: nat) ^ 39 \<le> 10 ^ k" if "\<not> k < 39" using that by (intro power_increasing) auto
  ultimately show ?thesis by (fastforce simp: word_checked_pow.simps)
qed

lemma pow10_u64: "word_checked_pow (10 :: u64) k = (if k < 20 then Some (10 ^ k) else None)"
proof -
  have "(10 :: nat) ^ k \<le> 10 ^ 19" if "k < 20" using that by (intro power_increasing) auto
  moreover have "(10 :: nat) ^ 20 \<le> 10 ^ k" if "\<not> k < 20" using that by (intro power_increasing) auto
  ultimately show ?thesis by (fastforce simp: word_checked_pow.simps)
qed

lemma unat_pow10:
  "k < 39 \<Longrightarrow> unat ((10 :: u128) ^ k) = 10 ^ k" "k < 20 \<Longrightarrow> unat ((10 :: u64) ^ k) = 10 ^ k"
  using pow10_u128 [of k] pow10_u64 [of k]
  by (auto dest: word_checked_pow_Some [THEN iffD1])

lemma scale_up_eq:
  "obind (ok_or (word_checked_pow (10 :: u128) k) ArithmeticOverflow)
     (\<lambda>factor. obind (ok_or (word_checked_mul (ucast (amount :: u64)) factor) ArithmeticOverflow) to_u64) =
   (if k < 39 then u64_of (unat amount * 10 ^ k) else Err ArithmeticOverflow)"
proof (cases "k < 39")
  case True
  show ?thesis
  proof (cases "unat amount * 10 ^ k < 2 ^ 128")
    case True': True
    then have "word_checked_mul (ucast amount :: u128) (10 ^ k) = Some (ucast amount * 10 ^ k)"
      and "unat (ucast amount * 10 ^ k :: u128) = unat amount * 10 ^ k"
      using unat_pow10(1) [OF True] by (auto simp: word_checked_mul_def unat_mult_exact)
    then show ?thesis using True by (simp add: pow10_u128 to_u64_eq del: word_checked_mul_Some)
  next
    case False
    then have "word_checked_mul (ucast amount :: u128) (10 ^ k) = None"
      using unat_pow10(1) [OF True] by (simp add: word_checked_None)
    moreover have "u64_of (unat amount * 10 ^ k) = Err ArithmeticOverflow"
      using False by (simp add: u64_of_Err)
    ultimately show ?thesis using True by (simp add: pow10_u128)
  qed
qed (simp add: pow10_u128)

text \<open>The number of decimals to shift by.\<close>

definition gap :: "u8 \<Rightarrow> u8 \<Rightarrow> nat" where
  "gap lo hi = unat hi - unat lo"

lemma gap_unat: "lo < hi \<Longrightarrow> unat (hi - lo) = gap lo hi"
  by (simp add: gap_def unat_sub_exact word_le_nat_alt word_less_nat_alt)

lemma scale_amount_eq:
  "scale_amount amount f t =
    (if f \<le> t then
       if gap f t < 39 then u64_of (unat amount * 10 ^ gap f t) else Err ArithmeticOverflow
     else if gap t f < 20 then u64_of (unat amount div 10 ^ gap t f) else Err ArithmeticOverflow)"
proof (cases f t rule: linorder_cases)
  case less
  then have "f \<le> t" "f \<noteq> t" by auto
  with less show ?thesis by (simp add: scale_amount_def scale_up_eq gap_unat)
next
  case equal
  have "gap t t = 0" by (simp add: gap_def)
  then show ?thesis using equal by (simp add: scale_amount_def)
next
  case greater
  have "(10 :: u64) ^ k \<noteq> 0" if "k < 20" for k using unat_pow10(2) [OF that] by (metis unat_0 power_not_zero zero_neq_numeral)
  moreover have "\<not> f \<le> t" "f \<noteq> t" "\<not> f < t" using greater by auto
  ultimately show ?thesis
    using greater by (simp add: scale_amount_def pow10_u64 gap_unat checked_div_eq unat_pow10)
qed

section \<open>Fixed point and basis points\<close>

text \<open>\<^verbatim>\<open>I80F48(i128)\<close>: the raw bits.\<close>

datatype i80f48 = I80F48 (bits: u128)

definition frac_bits :: nat where "frac_bits = 48"
definition one_bits :: u128 where "one_bits = push_bit frac_bits 1"

definition sword_checked_div :: "'a::len word \<Rightarrow> 'a word \<Rightarrow> 'a word option" where
  "sword_checked_div a b = (if b = 0 then None else to_sword (sint a sdiv sint b))"

definition i80_from_integer :: "u64 \<Rightarrow> i80f48 outcome" where
  "i80_from_integer v = ok_or (map_option I80F48 (sword_checked_mul (scast v) one_bits)) ArithmeticOverflow"

definition i80_from_ratio :: "u128 \<Rightarrow> u128 \<Rightarrow> i80f48 outcome" where
  "i80_from_ratio numerator denominator =
     fail_if (denominator = 0) ArithmeticOverflow
       (obind (ok_or (sword_checked_mul numerator one_bits) ArithmeticOverflow) (\<lambda>n.
        ok_or (map_option I80F48 (sword_checked_div n denominator)) ArithmeticOverflow))"

definition i80_checked_add :: "i80f48 \<Rightarrow> i80f48 \<Rightarrow> i80f48 outcome" where
  "i80_checked_add x y = ok_or (map_option I80F48 (sword_checked_add (bits x) (bits y))) ArithmeticOverflow"

definition i80_checked_sub :: "i80f48 \<Rightarrow> i80f48 \<Rightarrow> i80f48 outcome" where
  "i80_checked_sub x y = ok_or (map_option I80F48 (sword_checked_sub (bits x) (bits y))) ArithmeticOverflow"

definition i80_checked_mul :: "i80f48 \<Rightarrow> i80f48 \<Rightarrow> i80f48 outcome" where
  "i80_checked_mul x y =
     obind (ok_or (sword_checked_mul (bits x) (bits y)) ArithmeticOverflow) (\<lambda>p.
     ok_or (map_option I80F48 (sword_checked_div p one_bits)) ArithmeticOverflow)"

definition i80_checked_div :: "i80f48 \<Rightarrow> i80f48 \<Rightarrow> i80f48 outcome" where
  "i80_checked_div x y =
     fail_if (bits y = 0) ArithmeticOverflow
       (obind (ok_or (sword_checked_mul (bits x) one_bits) ArithmeticOverflow) (\<lambda>n.
        ok_or (map_option I80F48 (sword_checked_div n (bits y))) ArithmeticOverflow))"

definition i80_to_integer_trunc :: "i80f48 \<Rightarrow> u128" where
  "i80_to_integer_trunc x = word_of_int (sint (bits x) sdiv sint one_bits)"

definition basis_points_of_floor :: "u32 \<Rightarrow> u64 \<Rightarrow> u64 outcome" where
  "basis_points_of_floor bp amount = checked_mul_div amount (ucast bp) 10000"

definition basis_points_of_ceil :: "u32 \<Rightarrow> u64 \<Rightarrow> u64 outcome" where
  "basis_points_of_ceil bp amount = checked_mul_div_ceil amount (ucast bp) 10000"

lemma sint_one_bits: "sint one_bits = 2 ^ 48"
  by (simp add: one_bits_def frac_bits_def)

lemma i80_from_integer_Ok:
  "i80_from_integer v = Ok x \<longleftrightarrow> sint (bits x) = sint v * 2 ^ 48"
  for v :: u64
proof -
  have "sint (scast v :: u128) = sint v"
    using sint_greater_eq [of v] sint_less [of v]
    by (auto simp: signed_scast_eq intro!: signed_take_bit_int_eq_self)
  then show ?thesis
    by (cases x) (auto simp: i80_from_integer_def sword_checked_mul_def sint_one_bits)
qed

lemma i80_mul_Ok:
  "i80_checked_mul x y = Ok z \<longleftrightarrow>
     sword_in_range TYPE(128) (sint (bits x) * sint (bits y)) \<and>
     sint (bits z) = (sint (bits x) * sint (bits y)) sdiv 2 ^ 48"
proof -
  have ob: "one_bits \<noteq> 0" by (simp add: one_bits_def frac_bits_def)
  have ex: "(\<exists>p. sint (p :: u128) = i \<and> P (sint p)) \<longleftrightarrow> sword_in_range TYPE(128) i \<and> P i" for i P
    by (metis to_sword_Some to_sword_def option.distinct(1))
  show ?thesis
    using ex [of "sint (bits x) * sint (bits y)" "\<lambda>n. sint (bits z) = n sdiv 2 ^ 48"]
    by (cases z) (auto simp: i80_checked_mul_def obind_Ok_iff sword_checked_mul_def
        sword_checked_div_def sint_one_bits ob)
qed

lemma i80_from_ratio_Ok:
  "i80_from_ratio n d = Ok x \<longleftrightarrow> d \<noteq> 0 \<and> sword_in_range TYPE(128) (sint n * 2 ^ 48) \<and>
     sint (bits x) = (sint n * 2 ^ 48) sdiv sint d"
proof -
  have ex: "(\<exists>p. sint (p :: u128) = i \<and> P (sint p)) \<longleftrightarrow> sword_in_range TYPE(128) i \<and> P i" for i P
    by (metis to_sword_Some to_sword_def option.distinct(1))
  show ?thesis
    using ex [of "sint n * 2 ^ 48" "\<lambda>m. sint (bits x) = m sdiv sint d"]
    by (cases x) (auto simp: i80_from_ratio_def obind_Ok_iff sword_checked_mul_def
        sword_checked_div_def sint_one_bits)
qed

section \<open>Properties\<close>

text \<open>
  \<open>checked_mul_div\<close> and \<open>checked_mul_div_ceil\<close>, the primitives behind every swap, fee
  and share computation, return exactly the floor and the ceiling of \<open>a * b / c\<close> for all
  64-bit operands: the 128-bit intermediate never overflows, and the only errors are a
  zero divisor and a quotient that does not fit 64 bits.
\<close>

theorem mul_div_rounds_exactly:
  "checked_mul_div a b c =
     (if c = 0 then Err ArithmeticOverflow else u64_of (unat a * unat b div unat c)) \<and>
   checked_mul_div_ceil a b c =
     (if c = 0 then Err ArithmeticOverflow else u64_of (ceil_div (unat a * unat b) (unat c)))"
  by (intro conjI checked_mul_div_eq checked_mul_div_ceil_eq)

text \<open>
  The repeated-squaring loop of \<open>checked_pow\<close> terminates and is exponentiation: it
  returns \<open>base ^ exp\<close> whenever that fits 64 bits and reports overflow only when it does
  not, although the loop also squares the base ahead of its use.
\<close>

theorem checked_pow_is_power:
  "checked_pow base exp = u64_of (unat base ^ unat exp)"
  by (rule checked_pow_eq)

text \<open>
  Decimal scaling is lossless upwards: a positive amount that \<open>scale_amount\<close> converts
  to at least as many decimals converts back to itself.
\<close>

theorem scale_amount_round_trip:
  assumes "f \<le> t" and "0 < amount" and "scale_amount amount f t = Ok scaled"
  shows "scale_amount scaled t f = Ok amount"
proof (cases "f = t")
  case True
  then show ?thesis using assms(3) by (simp add: scale_amount_def)
next
  case False
  let ?k = "gap f t"
  have s: "unat scaled = unat amount * 10 ^ ?k" using assms by (auto simp: scale_amount_eq split: if_splits)
  have k: "?k < 20"
  proof (rule ccontr)
    assume "\<not> ?k < 20"
    then have "(10 :: nat) ^ 20 \<le> 10 ^ ?k" by (intro power_increasing) auto
    also have "\<dots> \<le> unat scaled" using assms(2) unfolding s by (simp add: word_less_nat_alt)
    finally show False using unsigned_less [of scaled, where 'a = nat] by simp
  qed
  have "\<not> t \<le> f" using assms(1) False by auto
  then show ?thesis using k s u64_of_unat [of amount] by (simp add: scale_amount_eq)
qed

theorem scale_amount_round_trip_witness:
  "scale_amount 1500000000 9 6 = Ok 1500000"
proof (rule scale_amount_round_trip)
  show "scale_amount 1500000 6 9 = Ok 1500000000"
    by (simp add: scale_amount_eq gap_def)
qed (simp_all add: word_less_nat_alt)

text \<open>
  Basis-point fees. For a rate of at most 100%, the floor and the ceiling fee both
  exist, bracket the exact fee, differ by at most one unit and never exceed the amount;
  the ceiling fee is positive whenever amount and rate are.
\<close>

theorem bps_fees_bracket:
  assumes "unat bps \<le> 10000"
  shows "\<exists>lo hi. bps_of amount bps = Ok lo \<and> bps_of_ceil amount bps = Ok hi \<and>
    unat lo * 10000 \<le> unat amount * unat bps \<and> unat amount * unat bps \<le> unat hi * 10000 \<and>
    unat lo \<le> unat hi \<and> unat hi \<le> unat lo + 1 \<and> unat hi \<le> unat amount \<and>
    (0 < amount \<and> 0 < bps \<longrightarrow> 0 < hi)"
proof -
  let ?p = "unat amount * unat bps"
  have le: "?p \<le> unat amount * 10000" using assms by simp
  have hi: "ceil_div ?p 10000 \<le> unat amount" using le by (simp add: ceil_div_least)
  have lo: "?p div 10000 \<le> ceil_div ?p 10000" by (auto simp: ceil_div_def intro: div_le_mono)
  have near: "ceil_div ?p 10000 \<le> ?p div 10000 + 1" by (simp add: ceil_div_least)
  have small: "unat amount < 2 ^ 64" using unsigned_less [of amount, where 'a = nat] by simp
  from ex_u64 [OF le_less_trans [OF hi small]] obtain h :: u64 where h: "unat h = ceil_div ?p 10000" ..
  from ex_u64 [OF le_less_trans [OF order_trans [OF lo hi] small]]
  obtain l :: u64 where l: "unat l = ?p div 10000" ..
  have cover: "?p \<le> unat h * 10000" using ceil_div_least [of 10000 ?p "unat h"] h by simp
  have ten: "(10000 :: u64) \<noteq> 0" "unat (10000 :: u64) = 10000" by simp_all
  have "bps_of amount bps = Ok l" "bps_of_ceil amount bps = Ok h"
    using l h by (simp_all add: bps_of_def bps_of_ceil_def checked_mul_div_eq checked_mul_div_ceil_eq ten)
  moreover have "0 < amount \<and> 0 < bps \<longrightarrow> 0 < h"
    using cover by (cases "unat h = 0") (auto simp: word_less_nat_alt)
  ultimately show ?thesis using l h lo hi near cover by auto
qed

theorem bps_fees_bracket_witness:
  "\<exists>lo hi. bps_of 999 30 = Ok lo \<and> bps_of_ceil 999 30 = Ok hi \<and> unat hi \<le> unat lo + 1"
  using bps_fees_bracket [of 30 999] by auto

end
