(* ===== verification/Finance.thy ===== *)
theory Finance imports Math begin

text \<open>
  hopper-finance: the AMM primitives of amm.rs and the economic guards of slippage.rs, on
  u64 amounts with u128 intermediates. Shown: \<open>isqrt\<close> returns the integer square root for
  every u128 and never panics; a constant-product swap never lowers \<open>k\<close> and never empties a
  reserve; the exact-output quote is the least input that buys the output; what the
  tolerance check really accepts.
\<close>

section \<open>amm.rs\<close>

function isqrt_loop :: "u128 \<Rightarrow> u128 \<Rightarrow> u128 \<Rightarrow> u128 outcome" where
  "isqrt_loop val x y =
     (if y < x then
        obind (native_div val y) (\<lambda>q.
        obind (native_add y q) (\<lambda>s. isqrt_loop val y (drop_bit 1 s)))
      else Ok x)"
  by pat_completeness auto
termination by (relation "measure (\<lambda>(v, x, y). unat x)") (auto simp: word_less_nat_alt)

declare isqrt_loop.simps [simp del]

definition isqrt :: "u128 \<Rightarrow> u64 outcome" where
  "isqrt val =
     (if val = 0 then Ok 0
      else
        obind (native_add (drop_bit 1 val) (val AND 1)) (\<lambda>y.
        obind (isqrt_loop val val y) (\<lambda>x.
        fail_if (x > ucast (- 1 :: u64)) ArithmeticOverflow (Ok (ucast x)))))"

definition constant_product_out :: "u64 \<Rightarrow> u64 \<Rightarrow> u64 \<Rightarrow> u16 \<Rightarrow> u64 outcome" where
  "constant_product_out reserve_in reserve_out amount_in fee_bps =
     fail_if (reserve_in = 0 \<or> reserve_out = 0 \<or> amount_in = 0) ArithmeticOverflow
       (fail_if (fee_bps \<ge> 10000) InvalidArgument
         (obind (native_sub 10000 (ucast fee_bps :: u128)) (\<lambda>fee_factor.
          obind (ok_or (word_checked_mul (ucast amount_in) fee_factor) ArithmeticOverflow) (\<lambda>amount_in_after_fee.
          obind (ok_or (word_checked_mul (ucast reserve_out) amount_in_after_fee) ArithmeticOverflow) (\<lambda>numerator.
          obind (ok_or (word_checked_mul (ucast reserve_in) 10000) ArithmeticOverflow) (\<lambda>scaled_in.
          obind (ok_or (word_checked_add scaled_in amount_in_after_fee) ArithmeticOverflow) (\<lambda>denominator.
          fail_if (denominator = 0) ArithmeticOverflow
            (let out = numerator div denominator in
             fail_if (out > ucast (- 1 :: u64) \<or> out = 0) ArithmeticOverflow (Ok (ucast out))))))))))"

definition constant_product_in :: "u64 \<Rightarrow> u64 \<Rightarrow> u64 \<Rightarrow> u16 \<Rightarrow> u64 outcome" where
  "constant_product_in reserve_in reserve_out amount_out fee_bps =
     fail_if (reserve_in = 0 \<or> reserve_out = 0 \<or> amount_out = 0 \<or> amount_out \<ge> reserve_out) ArithmeticOverflow
       (fail_if (fee_bps \<ge> 10000) InvalidArgument
         (obind (native_sub 10000 (ucast fee_bps :: u128)) (\<lambda>fee_factor.
          obind (ok_or (word_checked_mul (ucast reserve_in) (ucast amount_out)) ArithmeticOverflow) (\<lambda>product.
          obind (ok_or (word_checked_mul product 10000) ArithmeticOverflow) (\<lambda>numerator.
          obind (native_sub (ucast reserve_out) (ucast amount_out)) (\<lambda>rest.
          obind (ok_or (word_checked_mul rest fee_factor) ArithmeticOverflow) (\<lambda>denominator.
          fail_if (denominator = 0) ArithmeticOverflow
            (obind (ok_or (word_checked_add numerator (denominator - 1)) ArithmeticOverflow) (\<lambda>s.
             let result = s div denominator in
             fail_if (result > ucast (- 1 :: u64)) ArithmeticOverflow (Ok (ucast result)))))))))))"

definition check_k_invariant :: "u64 \<Rightarrow> u64 \<Rightarrow> u64 \<Rightarrow> u64 \<Rightarrow> unit outcome" where
  "check_k_invariant reserve_a_before reserve_b_before reserve_a_after reserve_b_after =
     obind (native_mul (ucast reserve_a_before :: u128) (ucast reserve_b_before)) (\<lambda>k_before.
     obind (native_mul (ucast reserve_a_after :: u128) (ucast reserve_b_after)) (\<lambda>k_after.
     fail_if (k_after < k_before) InvalidAccountData (Ok ())))"

definition price_impact_bps :: "u64 \<Rightarrow> u64 \<Rightarrow> u16 outcome" where
  "price_impact_bps amount_in reserve_in =
     (if reserve_in = 0 then Ok 10000
      else
        obind (native_add (ucast reserve_in :: u128) (ucast amount_in)) (\<lambda>sum.
        obind (native_mul (ucast amount_in :: u128) 10000) (\<lambda>scaled.
        obind (native_div scaled sum) (\<lambda>impact.
        Ok (if impact > 10000 then 10000 else ucast impact)))))"

definition initial_lp_amount :: "u64 \<Rightarrow> u64 \<Rightarrow> u64 outcome" where
  "initial_lp_amount amount_a amount_b =
     obind (ok_or (word_checked_mul (ucast amount_a) (ucast amount_b)) ArithmeticOverflow) isqrt"

definition proportional_lp_amount :: "u64 \<Rightarrow> u64 \<Rightarrow> u64 \<Rightarrow> u64 \<Rightarrow> u64 \<Rightarrow> u64 outcome" where
  "proportional_lp_amount amount_a amount_b reserve_a reserve_b lp_supply =
     fail_if (reserve_a = 0 \<or> reserve_b = 0 \<or> lp_supply = 0) ArithmeticOverflow
       (obind (ok_or (word_checked_mul (ucast amount_a :: u128) (ucast lp_supply)) ArithmeticOverflow) (\<lambda>pa.
        obind (native_div pa (ucast reserve_a)) (\<lambda>lp_a.
        obind (ok_or (word_checked_mul (ucast amount_b :: u128) (ucast lp_supply)) ArithmeticOverflow) (\<lambda>pb.
        obind (native_div pb (ucast reserve_b)) (\<lambda>lp_b.
        let min_lp = (if lp_a < lp_b then lp_a else lp_b) in
        fail_if (min_lp > ucast (- 1 :: u64) \<or> min_lp = 0) ArithmeticOverflow (Ok (ucast min_lp)))))))"

section \<open>slippage.rs\<close>

definition check_slippage :: "u64 \<Rightarrow> u64 \<Rightarrow> unit outcome" where
  "check_slippage actual_output minimum_output =
     fail_if (actual_output < minimum_output) InvalidArgument (Ok ())"

definition check_max_input :: "u64 \<Rightarrow> u64 \<Rightarrow> unit outcome" where
  "check_max_input actual_input maximum_input =
     fail_if (actual_input > maximum_input) InvalidArgument (Ok ())"

definition check_min_amount :: "u64 \<Rightarrow> u64 \<Rightarrow> unit outcome" where
  "check_min_amount amount minimum = fail_if (amount < minimum) InvalidArgument (Ok ())"

definition check_max_amount :: "u64 \<Rightarrow> u64 \<Rightarrow> unit outcome" where
  "check_max_amount amount maximum = fail_if (amount > maximum) InvalidArgument (Ok ())"

definition check_nonzero :: "u64 \<Rightarrow> unit outcome" where
  "check_nonzero amount = fail_if (amount = 0) InvalidArgument (Ok ())"

definition check_within_bps :: "u64 \<Rightarrow> u64 \<Rightarrow> u16 \<Rightarrow> unit outcome" where
  "check_within_bps actual expected tolerance_bps =
     (if expected = 0 then (if actual = 0 then Ok () else Err InvalidArgument)
      else
        let (larger, smaller) =
          (if actual \<ge> expected then (ucast actual :: u128, ucast expected) else (ucast expected, ucast actual)) in
        obind (native_sub larger smaller) (\<lambda>diff.
        obind (native_mul diff 10000) (\<lambda>scaled.
        obind (native_div scaled (ucast expected)) (\<lambda>deviation_bps.
        fail_if (deviation_bps > ucast tolerance_bps) InvalidArgument (Ok ())))))"

definition check_price_bounds :: "u64 \<Rightarrow> u64 \<Rightarrow> u64 \<Rightarrow> unit outcome" where
  "check_price_bounds price min_price max_price =
     fail_if (price < min_price \<or> price > max_price) InvalidArgument (Ok ())"

section \<open>The integer square root\<close>

lemma newton_above:
  fixes s y v :: nat
  assumes "0 < y" and "s * s \<le> v"
  shows "s \<le> (y + v div y) div 2"
proof (cases "2 * s \<le> y")
  case False
  then have pos: "y \<le> 2 * s" by simp
  have "(int y - int s) * (int y - int s) \<ge> 0" by simp
  then have "int (2 * s - y) * int y \<le> int (s * s)"
    using pos by (simp add: of_nat_diff algebra_simps)
  then have "(2 * s - y) * y \<le> s * s" by (simp only: of_nat_mult [symmetric] of_nat_le_iff)
  then have "(2 * s - y) * y \<le> v" using assms(2) by simp
  then have "2 * s - y \<le> v div y" using assms(1) by (simp add: less_eq_div_iff_mult_less_eq)
  then show ?thesis by simp
qed simp

lemma sqrt_ceil_half: "s * s \<le> v \<Longrightarrow> s \<le> v div 2 + v mod 2" for s v :: nat
proof -
  assume a: "s * s \<le> v"
  show ?thesis
  proof (cases "s < 2")
    case True
    then have "s = 0 \<or> s = 1" by auto
    moreover have "1 \<le> v \<Longrightarrow> 1 \<le> v div 2 + v mod 2" by presburger
    ultimately show ?thesis using a by auto
  next
    case False
    then have "2 * s \<le> s * s" by simp
    then show ?thesis using a by linarith
  qed
qed

definition is_sqrt :: "nat \<Rightarrow> nat \<Rightarrow> bool" where
  "is_sqrt v r \<longleftrightarrow> r * r \<le> v \<and> v < (r + 1) * (r + 1)"

text \<open>\<open>roots_below v n\<close>: no square root estimate above \<open>n\<close>.\<close>

definition roots_below :: "nat \<Rightarrow> nat \<Rightarrow> bool" where
  "roots_below v n \<longleftrightarrow> (\<forall>s. s * s \<le> v \<longrightarrow> s \<le> n)"

lemma roots_below_sqrt: "roots_below v n \<Longrightarrow> n * n \<le> v \<Longrightarrow> is_sqrt v n"
  unfolding roots_below_def is_sqrt_def by (metis Suc_eq_plus1 not_less not_less_eq_eq order_refl)

lemma is_sqrt_u64: "is_sqrt v r \<Longrightarrow> v < 2 ^ 128 \<Longrightarrow> r < 2 ^ 64"
proof (rule ccontr)
  assume A: "is_sqrt v r" "v < 2 ^ 128" "\<not> r < 2 ^ 64"
  then have "2 ^ 64 * 2 ^ 64 \<le> r * r" by (intro mult_le_mono) auto
  then show False using A by (simp add: is_sqrt_def)
qed

lemma quotient_small:
  assumes "roots_below v y" and "0 < y" and "v < 2 ^ 128"
  shows "v div y \<le> y + 2"
proof -
  have "v < (y + 1) * (y + 1)"
    using assms(1) unfolding roots_below_def by (metis not_less_eq_eq Suc_eq_plus1 not_le order_refl)
  also have "\<dots> = (y + 2) * y + 1" by (simp add: algebra_simps)
  finally have "v \<le> (y + 2) * y" by simp
  then show ?thesis using assms(2) by (metis div_le_mono nonzero_mult_div_cancel_right less_not_refl)
qed

lemma isqrt_loop_correct:
  assumes "0 < unat val" and "roots_below (unat val) (unat x)" and "roots_below (unat val) (unat y)"
    and "unat y \<le> 2 ^ 127" and "unat x \<le> unat y \<longrightarrow> unat x * unat x \<le> unat val"
  shows "\<exists>r. isqrt_loop val x y = Ok r \<and> is_sqrt (unat val) (unat r)"
  using assms(2-)
proof (induction "unat x" arbitrary: x y rule: less_induct)
  case less
  let ?v = "unat val" and ?y = "unat y"
  have v128: "?v < 2 ^ 128" using unsigned_less [of val, where 'a = nat] by simp
  have one: "0 < n" if "roots_below ?v n" for n
    using that assms(1) unfolding roots_below_def by (metis One_nat_def Suc_leI mult_1 Suc_le_lessD)
  show ?case
  proof (cases "y < x")
    case False
    then have "is_sqrt ?v (unat x)"
      using less.prems by (intro roots_below_sqrt) (auto simp: word_less_nat_alt)
    then show ?thesis using False by (subst isqrt_loop.simps) simp
  next
    case True
    have y0: "0 < ?y" by (rule one [OF less.prems(2)])
    have sum: "?y + ?v div ?y < 2 ^ 128"
    proof (cases "?y < 2 ^ 65")
      case True
      have "?v div ?y \<le> ?y + 2" by (rule quotient_small [OF less.prems(2) y0 v128])
      moreover have "(2 ^ 65 + 2 ^ 65 + 2 :: nat) \<le> 2 ^ 128" by simp
      ultimately show ?thesis using True by linarith
    next
      case False
      then have "?v div ?y \<le> ?v div 2 ^ 65" by (intro div_le_mono2) auto
      also have "\<dots> < 2 ^ 63" using v128 by (simp add: div_less_iff_less_mult)
      finally have "?v div ?y < 2 ^ 63" .
      then show ?thesis using less.prems(3) by simp
    qed
    have y_ne: "y \<noteq> 0" using y0 by auto
    have q: "unat (val div y) = ?v div ?y" by (rule unat_div_exact)
    let ?s = "y + val div y"
    have us: "unat ?s = ?y + ?v div ?y" using sum by (simp add: unat_add_exact q)
    have uh: "unat (drop_bit 1 ?s) = (?y + ?v div ?y) div 2"
      using us by (simp only: unat_drop_bit_eq) (simp add: drop_bit_Suc)
    have step: "isqrt_loop val x y = isqrt_loop val y (drop_bit 1 ?s)"
      using True y_ne sum
      by (subst isqrt_loop.simps) (simp add: native_div_eq native_add_eq q)
    have "roots_below ?v ((?y + ?v div ?y) div 2)"
      unfolding roots_below_def using newton_above [OF y0] by blast
    moreover have "?y \<le> (?y + ?v div ?y) div 2 \<longrightarrow> ?y * ?y \<le> ?v"
    proof
      assume "?y \<le> (?y + ?v div ?y) div 2"
      then have "?y \<le> ?v div ?y" by simp
      then show "?y * ?y \<le> ?v" using y0 by (simp add: less_eq_div_iff_mult_less_eq)
    qed
    ultimately show ?thesis
      unfolding step using less.prems(2) True sum
      by (intro less.hyps) (simp_all only: uh word_less_nat_alt, simp)
  qed
qed

lemma isqrt_correct: "\<exists>r. isqrt val = Ok r \<and> is_sqrt (unat val) (unat r)"
proof (cases "val = 0")
  case True
  then show ?thesis by (simp add: isqrt_def is_sqrt_def)
next
  case False
  then have v0: "0 < unat val" by (simp add: unat_gt_0)
  let ?v = "unat val"
  have v128: "?v < 2 ^ 128" using unsigned_less [of val, where 'a = nat] by simp
  let ?y = "drop_bit 1 val + (val AND 1)"
  have half: "unat (drop_bit 1 val) = ?v div 2"
    by (simp only: unat_drop_bit_eq) (simp add: drop_bit_Suc)
  have low: "unat (val AND 1) = ?v mod 2" by (simp add: and_one_eq mod_2_eq_odd odd_unat)
  have fits: "?v div 2 + ?v mod 2 \<le> 2 ^ 127" using v128 by simp
  have sum: "unat (drop_bit 1 val) + unat (val AND 1) < 2 ^ LENGTH(128)"
    using fits unfolding half low by simp
  have y: "unat ?y = ?v div 2 + ?v mod 2" 
    using unat_add_exact [OF sum] unfolding half low .
  have "?v = 1" if "?v \<le> ?v div 2 + ?v mod 2" using v0 that by presburger
  then have "?v \<le> ?v div 2 + ?v mod 2 \<longrightarrow> ?v * ?v \<le> ?v" by auto
  moreover have "roots_below ?v ?v" unfolding roots_below_def
    by (metis le_square order_trans)
  moreover have "roots_below ?v (?v div 2 + ?v mod 2)"
    unfolding roots_below_def using sqrt_ceil_half by blast
  ultimately obtain r where r: "isqrt_loop val val ?y = Ok r" "is_sqrt ?v (unat r)"
    using isqrt_loop_correct [of val val ?y] v0 fits unfolding y by blast
  have "unat r < 2 ^ 64" by (rule is_sqrt_u64 [OF r(2) v128])
  then have "to_u64 r = u64_of (unat r)" "\<exists>c. unat (c :: u64) = unat r"
    using to_u64_eq ex_u64 by auto
  then obtain c where c: "to_u64 r = Ok c" "unat c = unat r" by auto
  have "native_add (drop_bit 1 val) (val AND 1) = Ok ?y"
    by (rule native_add_eq [OF sum])
  then have "isqrt val = to_u64 r" using False r(1) by (simp add: isqrt_def to_u64_def)
  then show ?thesis using c r(2) by auto
qed

section \<open>Closed forms\<close>

lemma fee_rate:
  "unat (ucast (fee :: u16) :: u128) = unat fee"
  "fee \<ge> 10000 \<longleftrightarrow> \<not> unat fee < 10000"
  "unat fee < 10000 \<Longrightarrow> native_sub (10000 :: u128) (ucast fee) = Ok (10000 - ucast fee)"
  "unat fee < 10000 \<Longrightarrow> unat (10000 - ucast fee :: u128) = 10000 - unat fee"
proof -
  show u: "unat (ucast fee :: u128) = unat fee"
    using unsigned_less [of fee, where 'a = nat] by (simp add: unsigned_ucast_eq take_bit_nat_eq_self_iff)
  show "fee \<ge> 10000 \<longleftrightarrow> \<not> unat fee < 10000" by (simp add: word_le_nat_alt not_less)
  assume "unat fee < 10000"
  then show "native_sub (10000 :: u128) (ucast fee) = Ok (10000 - ucast fee)"
    and "unat (10000 - ucast fee :: u128) = 10000 - unat fee"
    by (simp_all add: native_sub_eq unat_sub_exact word_le_nat_alt u)
qed

lemma narrow_positive:
  "(if v > ucast (- 1 :: u64) \<or> v = 0 then Err ArithmeticOverflow else Ok (ucast v)) =
   (if unat v = 0 then Err ArithmeticOverflow else u64_of (unat v))" for v :: u128
  using to_u64_eq [of v] by (auto simp: to_u64_def unat_eq_zero split: if_splits)

lemma narrow: "(if v > ucast (- 1 :: u64) then Err ArithmeticOverflow else Ok (ucast v)) = u64_of (unat v)"
  for v :: u128
  using to_u64_eq [of v] by (simp add: to_u64_def)

lemma u64_times_rate: "unat (a :: u64) * n < 2 ^ 64 * 10001" if "n \<le> 10000"
proof -
  have "unat a * n \<le> unat a * 10000" using that by simp
  also have "\<dots> < 2 ^ 64 * 10001" using unsigned_less [of a, where 'a = nat] by simp
  finally show ?thesis .
qed

text \<open>The input after the fee, times 10000.\<close>

definition net_in :: "u64 \<Rightarrow> u16 \<Rightarrow> nat" where
  "net_in amount fee = unat amount * (10000 - unat fee)"

lemma net_in_small: "net_in a fee < 2 ^ 64 * 10001"
  by (simp add: net_in_def u64_times_rate del: power_numeral)

lemma amm_out_eq:
  assumes "rin \<noteq> 0" "rout \<noteq> 0" "ain \<noteq> 0" and fee: "unat fee < 10000"
  shows "constant_product_out rin rout ain fee =
    (let x = net_in ain fee; n = unat rout * x; out = n div (unat rin * 10000 + x) in
     if 2 ^ 128 \<le> n \<or> out = 0 then Err ArithmeticOverflow else u64_of out)"
proof -
  let ?x = "net_in ain fee" and ?n = "unat rout * net_in ain fee"
  let ?f = "10000 - ucast fee :: u128"
  let ?a = "ucast ain * ?f" and ?b = "ucast rin * 10000 :: u128"
  have x: "unat (ucast ain :: u128) * unat ?f < 2 ^ LENGTH(128)"
    using net_in_small [of ain fee] by (simp add: fee_rate(4) [OF fee] net_in_def)
  have r: "unat (ucast rin :: u128) * unat (10000 :: u128) < 2 ^ LENGTH(128)"
    using u64_times_rate [of 10000 rin] by simp
  have a: "unat ?a = ?x" using unat_mult_exact [OF x] by (simp add: fee_rate(4) [OF fee] net_in_def)
  have b: "unat ?b = unat rin * 10000" using unat_mult_exact [OF r] by simp
  have d: "unat ?b + unat ?a < 2 ^ LENGTH(128)"
    using u64_times_rate [of 10000 rin] net_in_small [of ain fee] unfolding a b by simp
  have sum: "unat (?b + ?a) = unat rin * 10000 + ?x" using unat_add_exact [OF d] unfolding a b .
  have nz: "?b + ?a \<noteq> 0"
    using assms(1) sum by (metis unat_0 add_is_0 mult_is_0 unat_eq_zero zero_neq_numeral)
  note run = checked_fits(1) [OF x] checked_fits(1) [OF r] checked_fits(2) [OF d]
  show ?thesis
  proof (cases "2 ^ 128 \<le> ?n")
    case True
    then have "word_checked_mul (ucast rout :: u128) ?a = None"
      by (simp add: word_checked_None a)
    then show ?thesis
      using assms True by (simp add: constant_product_out_def fee_rate(2,3) run Let_def)
  next
    case False
    then have n: "unat (ucast rout :: u128) * unat ?a < 2 ^ LENGTH(128)" by (simp add: a)
    have un: "unat (ucast rout * ?a) = ?n" using unat_mult_exact [OF n] by (simp add: a)
    show ?thesis
      using assms False nz
      by (simp add: constant_product_out_def fee_rate(2,3) run checked_fits(1) [OF n] narrow_positive
          Let_def unat_div_exact un sum)
  qed
qed

lemma unat_positive: "a \<noteq> 0 \<Longrightarrow> 0 < unat a" for a :: "'a::len word"
  by (simp add: unat_gt_0)

lemma amm_in_eq:
  assumes "rin \<noteq> 0" "rout \<noteq> 0" "aout \<noteq> 0" and lt: "aout < rout" and fee: "unat fee < 10000"
  shows "constant_product_in rin rout aout fee =
    (let n = unat rin * unat aout * 10000; d = (unat rout - unat aout) * (10000 - unat fee) in
     if 2 ^ 128 \<le> n \<or> 2 ^ 128 \<le> n + (d - 1) then Err ArithmeticOverflow else u64_of (ceil_div n d))"
proof -
  let ?n = "unat rin * unat aout * 10000" and ?d = "(unat rout - unat aout) * (10000 - unat fee)"
  let ?f = "10000 - ucast fee :: u128" and ?p = "ucast rin * ucast aout :: u128"
  let ?r = "ucast rout - ucast aout :: u128"
  have le: "unat (ucast aout :: u128) \<le> unat (ucast rout :: u128)" and lt': "unat aout < unat rout"
    using lt by (simp_all add: word_less_nat_alt)
  have nle: "\<not> rout \<le> aout" using lt by simp
  have r: "unat ?r = unat rout - unat aout" using le by (simp add: unat_sub_exact word_le_nat_alt)
  have d_fits: "unat ?r * unat ?f < 2 ^ LENGTH(128)"
  proof -
    have "unat ?r * unat ?f \<le> unat rout * 10000"
      unfolding r fee_rate(4) [OF fee] by (intro mult_le_mono) auto
    then show ?thesis using u64_times_rate [of 10000 rout] by simp
  qed
  let ?den = "?r * ?f"
  have den: "unat ?den = ?d" using unat_mult_exact [OF d_fits] by (simp add: r fee_rate(4) [OF fee])
  have den_ne: "?den \<noteq> 0" using den lt' fee
    by (metis diff_is_0_eq mult_is_0 not_le unat_0)
  have one: "unat (?den - 1) = ?d - 1"
    using unat_positive [OF den_ne] den by (subst unat_sub_exact) (auto simp: word_le_nat_alt)
  have sub: "native_sub (ucast rout :: u128) (ucast aout) = Ok ?r" by (rule native_sub_eq [OF le])
  note run = wide_product(1) sub checked_fits(1) [OF d_fits]
  show ?thesis
  proof (cases "2 ^ 128 \<le> ?n")
    case True
    then have "word_checked_mul ?p 10000 = None" by (simp add: word_checked_None wide_product)
    then show ?thesis
      using assms True by (simp add: constant_product_in_def fee_rate(2,3) run Let_def)
  next
    case False
    then have n: "unat ?p * unat (10000 :: u128) < 2 ^ LENGTH(128)" by (simp add: wide_product)
    have un: "unat (?p * 10000) = ?n" using unat_mult_exact [OF n] by (simp add: wide_product)
    show ?thesis
    proof (cases "2 ^ 128 \<le> ?n + (?d - 1)")
      case True
      then have "word_checked_add (?p * 10000) (?den - 1) = None"
        unfolding word_checked_None un one by simp
      then show ?thesis using assms True False den_ne
        by (simp add: constant_product_in_def fee_rate(2,3) run checked_fits(1) [OF n] Let_def)
    next
      case small: False
      then have s: "unat (?p * 10000) + unat (?den - 1) < 2 ^ LENGTH(128)" unfolding un one by simp
      have "unat (?p * 10000 + (?den - 1)) = ?n + (?d - 1)"
        using unat_add_exact [OF s] unfolding un one .
      then have "unat ((?p * 10000 + (?den - 1)) div ?den) = ceil_div ?n ?d"
        unfolding ceil_div_def unat_div_exact den by simp
      then show ?thesis using assms False small den_ne lt' nle
        by (simp add: constant_product_in_def fee_rate(2,3) run checked_fits(1) [OF n]
            checked_fits(2) [OF s] narrow Let_def)
    qed
  qed
qed

lemma amm_out_Ok:
  assumes "constant_product_out rin rout ain fee = Ok out"
  shows "0 < unat rin" "0 < unat rout" "0 < unat ain" "unat fee < 10000"
    "unat out = unat rout * net_in ain fee div (unat rin * 10000 + net_in ain fee)"
    "0 < unat out"
proof -
  have A: "rin \<noteq> 0 \<and> rout \<noteq> 0 \<and> ain \<noteq> 0 \<and> unat fee < 10000"
    using assms by (auto simp: constant_product_out_def fee_rate(2) split: if_splits)
  then show "0 < unat rin" "0 < unat rout" "0 < unat ain" "unat fee < 10000"
    by (auto simp: unat_gt_0)
  show "unat out = unat rout * net_in ain fee div (unat rin * 10000 + net_in ain fee)"
    and "0 < unat out"
    using assms A by (auto simp: amm_out_eq Let_def split: if_splits)
qed

lemma amm_in_Ok:
  assumes "constant_product_in rin rout aout fee = Ok ain"
  shows "0 < unat rin" "0 < unat aout" "unat aout < unat rout" "unat fee < 10000"
    "unat ain = ceil_div (unat rin * unat aout * 10000) ((unat rout - unat aout) * (10000 - unat fee))"
proof -
  have A: "rin \<noteq> 0 \<and> rout \<noteq> 0 \<and> aout \<noteq> 0 \<and> aout < rout \<and> unat fee < 10000"
    using assms by (auto simp: constant_product_in_def fee_rate(2) not_le split: if_splits)
  then show "0 < unat rin" "0 < unat aout" "unat aout < unat rout" "unat fee < 10000"
    by (auto simp: unat_gt_0 word_less_nat_alt)
  show "unat ain = ceil_div (unat rin * unat aout * 10000) ((unat rout - unat aout) * (10000 - unat fee))"
    using assms A by (auto simp: amm_in_eq Let_def split: if_splits)
qed

text \<open>Selling \<open>x\<close> into the curve: the algebra behind both directions.\<close>

lemma curve_output_le:
  fixes a b x o' :: nat
  assumes "o' * (a + x) \<le> b * x" and "0 < a"
  shows "o' \<le> b" and "0 < b \<Longrightarrow> o' < b" and "a * b \<le> (a + x) * (b - o')"
proof -
  show le: "o' \<le> b"
  proof (rule ccontr)
    assume "\<not> o' \<le> b"
    then have "b * (a + x) < o' * (a + x)" using assms(2) by simp
    then show False using assms(1) by (simp add: algebra_simps)
  qed
  show "o' < b" if "0 < b"
  proof (rule ccontr)
    assume "\<not> o' < b"
    with le have "b * (a + x) \<le> b * x" using assms(1) by simp
    then show False using that assms(2) by simp
  qed
  have "a * b + o' * (a + x) \<le> (a + x) * b" using assms(1) by (simp add: algebra_simps)
  then have "a * b \<le> (a + x) * b - (a + x) * o'" by (simp add: mult.commute)
  then show "a * b \<le> (a + x) * (b - o')" by (simp add: diff_mult_distrib2)
qed

lemma k_invariant_eq:
  "check_k_invariant a b a' b' =
    (if unat a' * unat b' < unat a * unat b then Err InvalidAccountData else Ok ())"
proof -
  have m: "native_mul (ucast x :: u128) (ucast y) = Ok (ucast x * ucast y)" for x y :: u64
    using u64_product_fits [of 0 x y] by (intro native_mul_eq) simp
  show ?thesis by (simp add: check_k_invariant_def m word_less_nat_alt wide_product)
qed

section \<open>Tolerance, impact and LP shares\<close>

lemma scaled_u64: "unat (a :: u128) < 2 ^ 64 \<Longrightarrow> native_mul a 10000 = Ok (a * 10000) \<and> unat (a * 10000) = unat a * 10000"
  by (simp add: native_mul_eq unat_mult_exact)

definition gap_between :: "nat \<Rightarrow> nat \<Rightarrow> nat" where
  "gap_between a b = (if a \<ge> b then a - b else b - a)"

lemma within_bps_eq:
  "check_within_bps actual expected tol =
    (if expected = 0 then (if actual = 0 then Ok () else Err InvalidArgument)
     else if gap_between (unat actual) (unat expected) * 10000 div unat expected > unat tol
     then Err InvalidArgument else Ok ())"
proof (cases "expected = 0")
  case False
  define l s :: u128 where
    "l = (if actual \<ge> expected then ucast actual else ucast expected)" and
    "s = (if actual \<ge> expected then ucast expected else ucast actual)"
  have le: "unat s \<le> unat l" and g: "unat l - unat s = gap_between (unat actual) (unat expected)"
    by (auto simp: l_def s_def gap_between_def word_le_nat_alt)
  have lim: "unat l < 2 ^ 64"
    using unsigned_less [of actual, where 'a = nat] unsigned_less [of expected, where 'a = nat]
    by (auto simp: l_def)
  have d: "unat (l - s) = unat l - unat s" using le by (simp add: unat_sub_exact word_le_nat_alt)
  have m: "native_mul (l - s) 10000 = Ok ((l - s) * 10000)" "unat ((l - s) * 10000) = (unat l - unat s) * 10000"
    using scaled_u64 [of "l - s"] lim d by auto
  have e: "(ucast expected :: u128) \<noteq> 0" using False by (metis unat_0 unat_eq_zero unat_ucast_u64_u128)
  have "check_within_bps actual expected tol =
      obind (native_sub l s) (\<lambda>diff. obind (native_mul diff 10000) (\<lambda>scaled.
      obind (native_div scaled (ucast expected)) (\<lambda>dev. fail_if (dev > ucast tol) InvalidArgument (Ok ()))))"
    using False by (simp add: check_within_bps_def l_def s_def)
  also have "\<dots> = (if (unat l - unat s) * 10000 div unat expected > unat tol then Err InvalidArgument else Ok ())"
    using e le by (simp add: native_sub_eq m native_div_eq word_less_nat_alt unat_div_exact fee_rate(1)
        del: left_diff_distrib_numeral)
  finally show ?thesis using False g by simp
qed (simp add: check_within_bps_def)

lemma price_impact_eq:
  "price_impact_bps ain rin =
    Ok (if rin = 0 then 10000 else word_of_nat (unat ain * 10000 div (unat rin + unat ain)))"
proof (cases "rin = 0")
  case False
  let ?s = "ucast rin + ucast ain :: u128" and ?m = "ucast ain * 10000 :: u128"
  have fits: "unat (ucast rin :: u128) + unat (ucast ain :: u128) < 2 ^ LENGTH(128)"
    using unsigned_less [of rin, where 'a = nat] unsigned_less [of ain, where 'a = nat] by simp
  have s: "unat ?s = unat rin + unat ain" using unat_add_exact [OF fits] by simp
  have m: "native_mul (ucast ain :: u128) 10000 = Ok ?m" "unat ?m = unat ain * 10000"
    using scaled_u64 [of "ucast ain"] unsigned_less [of ain, where 'a = nat] by auto
  have "0 < unat rin" using False by (simp add: unat_gt_0)
  then have nz: "?s \<noteq> 0" using s by (metis add_is_0 less_numeral_extra(3) unat_0)
  let ?q = "unat ain * 10000 div (unat rin + unat ain)"
  have q: "unat (?m div ?s) = ?q" by (simp add: unat_div_exact m s)
  have "unat ain * 10000 < 10001 * (unat rin + unat ain)"
    using \<open>0 < unat rin\<close> by (simp add: add_mult_distrib2)
  then have le: "?q \<le> 10000"
    using \<open>0 < unat rin\<close> by (simp only: less_Suc_eq_le [symmetric]) (simp add: div_less_iff_less_mult)
  then have "\<not> ?m div ?s > 10000" by (simp add: word_less_nat_alt q)
  moreover have "(ucast (?m div ?s) :: u16) = word_of_nat ?q"
    unfolding q [symmetric]
    by (rule word_eq_unatI) (simp add: unsigned_ucast_eq unat_of_nat take_bit_eq_mod)
  ultimately show ?thesis using False nz by (simp add: price_impact_bps_def native_add_eq [OF fits] m native_div_eq)
qed (simp add: price_impact_bps_def)

lemma lp_Ok:
  assumes "proportional_lp_amount a b ra rb supply = Ok lp"
  shows "0 < unat ra" "0 < unat rb"
    "unat lp = min (unat a * unat supply div unat ra) (unat b * unat supply div unat rb)"
proof -
  have A: "ra \<noteq> 0 \<and> rb \<noteq> 0 \<and> supply \<noteq> 0"
    using assms by (auto simp: proportional_lp_amount_def split: if_splits)
  then show "0 < unat ra" "0 < unat rb" by (auto simp: unat_gt_0)
  have nz: "(ucast r :: u128) \<noteq> 0" if "r \<noteq> 0" for r :: u64
    using that by (metis unat_0 unat_eq_zero unat_ucast_u64_u128)
  let ?x = "ucast a * ucast supply div ucast ra :: u128"
  let ?y = "ucast b * ucast supply div ucast rb :: u128"
  let ?m = "if ?x < ?y then ?x else ?y"
  have "unat ?m = min (unat ?x) (unat ?y)" by (auto simp: word_less_nat_alt)
  moreover have "(if ?m > ucast (- 1 :: u64) \<or> ?m = 0 then Err ArithmeticOverflow else Ok (ucast ?m)) = Ok lp"
    using assms A by (simp add: proportional_lp_amount_def wide_product(1) native_div_eq nz Let_def)
  then have "unat lp = unat ?m" unfolding narrow_positive by (simp split: if_splits)
  ultimately show "unat lp = min (unat a * unat supply div unat ra) (unat b * unat supply div unat rb)"
    by (simp add: unat_div_exact wide_product)
qed

section \<open>Properties\<close>

text \<open>
  C38: \<open>isqrt\<close>. The Newton loop terminates for every u128, neither its additions nor its
  divisions can panic, and the result is the integer square root; so the final narrowing
  to u64 never fails.
\<close>

theorem isqrt_is_floor_sqrt:
  "\<exists>r. isqrt val = Ok r \<and> unat r * unat r \<le> unat val \<and> unat val < (unat r + 1) * (unat r + 1)"
  using isqrt_correct [of val] by (simp add: is_sqrt_def)

text \<open>
  A constant-product swap never drains the pool: the quoted output is less than the
  reserve it is paid from, the product of the reserves does not fall, and so
  \<open>check_k_invariant\<close> accepts the reserves after the swap.
\<close>

theorem swap_never_lowers_k:
  assumes "constant_product_out rin rout ain fee = Ok out" and "unat rin + unat ain < 2 ^ 64"
  shows "unat out < unat rout \<and>
    unat rin * unat rout \<le> (unat rin + unat ain) * (unat rout - unat out) \<and>
    check_k_invariant rin rout (rin + ain) (rout - out) = Ok ()"
proof -
  note A = amm_out_Ok [OF assms(1)]
  let ?x = "net_in ain fee"
  have "unat out * (unat rin * 10000 + ?x) \<le> unat rout * ?x" unfolding A(5) by simp
  from curve_output_le [OF this] A(1,2)
  have lt: "unat out < unat rout"
    and k: "unat rin * 10000 * unat rout \<le> (unat rin * 10000 + ?x) * (unat rout - unat out)"
    by auto
  have "?x \<le> unat ain * 10000" by (simp add: net_in_def)
  then have "unat rin * 10000 + ?x \<le> (unat rin + unat ain) * 10000" by simp
  from order_trans [OF k mult_le_mono1 [OF this]]
  have "10000 * (unat rin * unat rout) \<le> 10000 * ((unat rin + unat ain) * (unat rout - unat out))"
    by (simp only: ac_simps)
  then have k': "unat rin * unat rout \<le> (unat rin + unat ain) * (unat rout - unat out)"
    by (simp only: mult_le_cancel1)
  moreover have "unat (rin + ain) = unat rin + unat ain" using assms(2) by (simp add: unat_add_exact)
  moreover have "unat (rout - out) = unat rout - unat out"
    using lt by (simp add: unat_sub_exact word_le_nat_alt)
  ultimately show ?thesis using lt by (simp add: k_invariant_eq)
qed

theorem swap_never_lowers_k_witness:
  "check_k_invariant 1000000 2000000 1100000 1818678 = Ok ()"
proof -
  have "constant_product_out 1000000 2000000 100000 30 = Ok 181322"
    by (simp add: amm_out_eq net_in_def Let_def)
  from swap_never_lowers_k [OF this] show ?thesis by simp
qed

text \<open>
  The exact-output quote is the inverse of the exact-input quote: an input buys at least
  the wanted output if and only if it is at least the input \<open>constant_product_in\<close> asks for,
  rounding and fees included.
\<close>

theorem exact_output_is_least_input:
  assumes "constant_product_in rin rout want fee = Ok need"
    and "constant_product_out rin rout a fee = Ok got"
  shows "unat want \<le> unat got \<longleftrightarrow> unat need \<le> unat a"
proof -
  note I = amm_in_Ok [OF assms(1)] and O = amm_out_Ok [OF assms(2)]
  let ?x = "net_in a fee" and ?R = "unat rin * 10000"
  let ?d = "(unat rout - unat want) * (10000 - unat fee)"
  have pos: "0 < ?R + ?x" "0 < ?d" using I(1,3,4) by auto
  have "unat want \<le> unat got \<longleftrightarrow> unat want * (?R + ?x) \<le> unat rout * ?x"
    unfolding O(5) using pos(1) by (rule less_eq_div_iff_mult_less_eq)
  also have "\<dots> \<longleftrightarrow> unat want * ?R \<le> (unat rout - unat want) * ?x"
    using I(3) by (simp only: add_mult_distrib2 diff_mult_distrib) (simp add: le_diff_conv2 mult_le_mono1)
  also have "\<dots> \<longleftrightarrow> unat rin * unat want * 10000 \<le> unat a * ?d"
    by (simp only: net_in_def ac_simps)
  also have "\<dots> \<longleftrightarrow> unat need \<le> unat a"
    unfolding I(5) using pos(2) by (rule ceil_div_least [symmetric])
  finally show ?thesis .
qed

theorem exact_output_is_least_input_witness:
  "unat (181322 :: u64) \<le> unat (181322 :: u64) \<longleftrightarrow> unat (100000 :: u64) \<le> unat (100000 :: u64)"
proof -
  have "constant_product_in 1000000 2000000 181322 30 = Ok 100000"
    by (simp add: amm_in_eq Let_def ceil_div_def word_less_nat_alt)
  moreover have "constant_product_out 1000000 2000000 100000 30 = Ok 181322"
    by (simp add: amm_out_eq net_in_def Let_def)
  ultimately show ?thesis by (rule exact_output_is_least_input)
qed

text \<open>
  What \<open>check_within_bps\<close> enforces. The deviation is rounded down before it is compared,
  so the check accepts exactly the deviations below \<open>tolerance + 1\<close> basis points, not those
  up to \<open>tolerance\<close>; with tolerance 0 it accepts prices that differ.
\<close>

theorem tolerance_check_band:
  assumes "expected \<noteq> 0"
  shows "check_within_bps actual expected tol = Ok () \<longleftrightarrow>
    gap_between (unat actual) (unat expected) * 10000 < (unat tol + 1) * unat expected"
proof -
  have "0 < unat expected" using assms by (simp add: unat_gt_0)
  then have "gap_between (unat actual) (unat expected) * 10000 div unat expected < unat tol + 1 \<longleftrightarrow>
      gap_between (unat actual) (unat expected) * 10000 < (unat tol + 1) * unat expected"
    by (rule div_less_iff_less_mult)
  then show ?thesis using assms by (auto simp: within_bps_eq)
qed

theorem tolerance_check_band_witness:
  "check_within_bps 1000099 1000000 0 = Ok ()"
  using tolerance_check_band [of 1000000 1000099 0] by (simp add: gap_between_def)

text \<open>
  A proportional deposit never dilutes the other holders: the LP amount minted is the
  greatest that both deposits cover at the current reserves.
\<close>

theorem lp_mint_is_covered:
  assumes "proportional_lp_amount a b ra rb supply = Ok lp"
  shows "m \<le> unat lp \<longleftrightarrow> m * unat ra \<le> unat a * unat supply \<and> m * unat rb \<le> unat b * unat supply"
  using lp_Ok [OF assms] by (simp add: less_eq_div_iff_mult_less_eq)

theorem lp_mint_is_covered_witness:
  "(30 :: nat) * unat (1000 :: u64) \<le> unat (100 :: u64) * unat (300 :: u64)"
proof -
  have "proportional_lp_amount 100 70 1000 600 300 = Ok 30"
    by (simp add: proportional_lp_amount_def word_checked_mul_def native_div_eq Let_def
        word_less_nat_alt unsigned_minus_1_eq_mask mask_eq_exp_minus_1)
  from lp_mint_is_covered [OF this, of 30] show ?thesis by simp
qed

end
