(* ===== verification/Abi.thy ===== *)
theory Abi imports MachineInts Contracts begin

text \<open>
  hopper-core/src/abi: the alignment-1 wire types. \<open>integers.rs\<close> generates WireU16 ...
  WireI128 from one macro; the macro's \<^verbatim>\<open>$native\<close> and \<^verbatim>\<open>$size\<close> are the word length \<open>'a\<close>
  and the signedness argument here, so one definition stands for all eight types.
  \<open>boolean.rs\<close> is WireBool, \<open>mod.rs\<close> the layout fingerprint. The locales \<open>codec\<close> and
  \<open>bijective_codec\<close> are what typed field access relies on.
\<close>

section \<open>The codec contract\<close>

locale codec =
  fixes enc :: "'v \<Rightarrow> 'w" and dec :: "'w \<Rightarrow> 'v" and valid :: "'w \<Rightarrow> bool"
  assumes dec_enc: "dec (enc v) = v"
    and enc_valid: "valid (enc v)"
begin

lemma enc_inject: "enc v = enc u \<longleftrightarrow> v = u"
  by (metis dec_enc)

end

locale bijective_codec = codec +
  assumes enc_dec: "valid w \<Longrightarrow> enc (dec w) = w"
begin

lemma dec_inject: "valid w \<Longrightarrow> valid x \<Longrightarrow> dec w = dec x \<longleftrightarrow> w = x"
  by (metis enc_dec)

lemma written_iff: "valid w \<Longrightarrow> w = enc v \<longleftrightarrow> dec w = v"
  by (metis dec_enc enc_dec)

end

section \<open>Wire integers\<close>

datatype 'a wire = Wire (wire_bytes: bytes)

definition wire_size :: "'a::len wire \<Rightarrow> nat" where
  "wire_size w = LENGTH('a) div 8"

definition wire_new :: "'a::len word \<Rightarrow> 'a wire" where
  "wire_new v = Wire (le_enc (LENGTH('a) div 8) (unat v))"

definition wire_get :: "'a::len wire \<Rightarrow> 'a word" where
  "wire_get w = word_of_nat (le_val (wire_bytes w))"

definition wire_set :: "'a::len wire \<Rightarrow> 'a word \<Rightarrow> 'a wire" where
  "wire_set w v = Wire (le_enc (LENGTH('a) div 8) (unat v))"

definition wire_zero :: "'a::len wire" where
  "wire_zero = Wire (replicate (LENGTH('a) div 8) 0)"

definition wire_max :: "signedness \<Rightarrow> 'a::len wire" where
  "wire_max s = wire_new (case s of Unsigned \<Rightarrow> - 1 | Signed \<Rightarrow> word_of_int (2 ^ (LENGTH('a) - 1) - 1))"

definition wire_min :: "signedness \<Rightarrow> 'a::len wire" where
  "wire_min s = wire_new (case s of Unsigned \<Rightarrow> 0 | Signed \<Rightarrow> word_of_int (- (2 ^ (LENGTH('a) - 1))))"

text \<open>The recoverable helpers.\<close>

definition wire_checked_add_assign :: "signedness \<Rightarrow> 'a::len wire \<Rightarrow> 'a word \<Rightarrow> 'a wire outcome" where
  "wire_checked_add_assign s w rhs =
     obind (ok_or (native_checked_add s (wire_get w) rhs) ArithmeticOverflow) (\<lambda>next. Ok (wire_set w next))"

definition wire_add_assign_checked :: "signedness \<Rightarrow> 'a::len wire \<Rightarrow> 'a word \<Rightarrow> 'a wire outcome" where
  "wire_add_assign_checked s w rhs = wire_checked_add_assign s w rhs"

definition wire_checked_sub_assign :: "signedness \<Rightarrow> 'a::len wire \<Rightarrow> 'a word \<Rightarrow> 'a wire outcome" where
  "wire_checked_sub_assign s w rhs =
     obind (ok_or (native_checked_sub s (wire_get w) rhs) ArithmeticOverflow) (\<lambda>next. Ok (wire_set w next))"

definition wire_sub_assign_checked :: "signedness \<Rightarrow> 'a::len wire \<Rightarrow> 'a word \<Rightarrow> 'a wire outcome" where
  "wire_sub_assign_checked s w rhs = wire_checked_sub_assign s w rhs"

definition wire_checked_mul_assign :: "signedness \<Rightarrow> 'a::len wire \<Rightarrow> 'a word \<Rightarrow> 'a wire outcome" where
  "wire_checked_mul_assign s w rhs =
     obind (ok_or (checked_mul_lean s (wire_get w) rhs) ArithmeticOverflow) (\<lambda>next. Ok (wire_set w next))"

definition wire_mul_assign_checked :: "signedness \<Rightarrow> 'a::len wire \<Rightarrow> 'a word \<Rightarrow> 'a wire outcome" where
  "wire_mul_assign_checked s w rhs = wire_checked_mul_assign s w rhs"

text \<open>The operators: \<^verbatim>\<open>expect\<close> aborts on overflow, which is \<open>Trap\<close>.\<close>

definition wire_add :: "signedness \<Rightarrow> 'a::len wire \<Rightarrow> 'a word \<Rightarrow> 'a wire outcome" where
  "wire_add s w rhs = obind (no_panic (native_checked_add s (wire_get w) rhs)) (\<lambda>v. Ok (wire_new v))"

definition wire_add_wire :: "signedness \<Rightarrow> 'a::len wire \<Rightarrow> 'a wire \<Rightarrow> 'a wire outcome" where
  "wire_add_wire s w rhs =
     obind (no_panic (native_checked_add s (wire_get w) (wire_get rhs))) (\<lambda>v. Ok (wire_new v))"

definition wire_add_assign :: "signedness \<Rightarrow> 'a::len wire \<Rightarrow> 'a word \<Rightarrow> 'a wire outcome" where
  "wire_add_assign s w rhs = obind (no_panic (native_checked_add s (wire_get w) rhs)) (\<lambda>v. Ok (wire_set w v))"

definition wire_add_assign_wire :: "signedness \<Rightarrow> 'a::len wire \<Rightarrow> 'a wire \<Rightarrow> 'a wire outcome" where
  "wire_add_assign_wire s w rhs =
     obind (no_panic (native_checked_add s (wire_get w) (wire_get rhs))) (\<lambda>v. Ok (wire_set w v))"

definition wire_sub :: "signedness \<Rightarrow> 'a::len wire \<Rightarrow> 'a word \<Rightarrow> 'a wire outcome" where
  "wire_sub s w rhs = obind (no_panic (native_checked_sub s (wire_get w) rhs)) (\<lambda>v. Ok (wire_new v))"

definition wire_sub_wire :: "signedness \<Rightarrow> 'a::len wire \<Rightarrow> 'a wire \<Rightarrow> 'a wire outcome" where
  "wire_sub_wire s w rhs =
     obind (no_panic (native_checked_sub s (wire_get w) (wire_get rhs))) (\<lambda>v. Ok (wire_new v))"

definition wire_sub_assign :: "signedness \<Rightarrow> 'a::len wire \<Rightarrow> 'a word \<Rightarrow> 'a wire outcome" where
  "wire_sub_assign s w rhs = obind (no_panic (native_checked_sub s (wire_get w) rhs)) (\<lambda>v. Ok (wire_set w v))"

definition wire_sub_assign_wire :: "signedness \<Rightarrow> 'a::len wire \<Rightarrow> 'a wire \<Rightarrow> 'a wire outcome" where
  "wire_sub_assign_wire s w rhs =
     obind (no_panic (native_checked_sub s (wire_get w) (wire_get rhs))) (\<lambda>v. Ok (wire_set w v))"

definition wire_mul :: "signedness \<Rightarrow> 'a::len wire \<Rightarrow> 'a word \<Rightarrow> 'a wire outcome" where
  "wire_mul s w rhs = obind (no_panic (native_checked_mul s (wire_get w) rhs)) (\<lambda>v. Ok (wire_new v))"

definition wire_mul_wire :: "signedness \<Rightarrow> 'a::len wire \<Rightarrow> 'a wire \<Rightarrow> 'a wire outcome" where
  "wire_mul_wire s w rhs =
     obind (no_panic (native_checked_mul s (wire_get w) (wire_get rhs))) (\<lambda>v. Ok (wire_new v))"

definition wire_mul_assign :: "signedness \<Rightarrow> 'a::len wire \<Rightarrow> 'a word \<Rightarrow> 'a wire outcome" where
  "wire_mul_assign s w rhs = obind (no_panic (native_checked_mul s (wire_get w) rhs)) (\<lambda>v. Ok (wire_set w v))"

definition wire_mul_assign_wire :: "signedness \<Rightarrow> 'a::len wire \<Rightarrow> 'a wire \<Rightarrow> 'a wire outcome" where
  "wire_mul_assign_wire s w rhs =
     obind (no_panic (native_checked_mul s (wire_get w) (wire_get rhs))) (\<lambda>v. Ok (wire_set w v))"

definition wire_cmp :: "signedness \<Rightarrow> 'a::len wire \<Rightarrow> 'a wire \<Rightarrow> ordering" where
  "wire_cmp s x y =
     (let a = native_val s (wire_get x); b = native_val s (wire_get y) in
      if a < b then Less else if a = b then Equal else Greater)"

section \<open>WireBool\<close>

datatype wire_bool = WireBool (bool_byte: u8)

definition wire_bool_new :: "bool \<Rightarrow> wire_bool" where
  "wire_bool_new v = WireBool (if v then 1 else 0)"

definition wire_bool_get :: "wire_bool \<Rightarrow> bool" where
  "wire_bool_get w \<longleftrightarrow> bool_byte w \<noteq> 0"

definition wire_bool_set :: "wire_bool \<Rightarrow> bool \<Rightarrow> wire_bool" where
  "wire_bool_set w v = WireBool (if v then 1 else 0)"

definition wire_bool_eq :: "wire_bool \<Rightarrow> wire_bool \<Rightarrow> bool" where
  "wire_bool_eq x y \<longleftrightarrow> wire_bool_get x = wire_bool_get y"

section \<open>Layout fingerprints\<close>

text \<open>\<^verbatim>\<open>LayoutFingerprint { bytes: [u8; 8] }\<close>.\<close>

definition fingerprint_matches :: "bytes \<Rightarrow> bytes \<Rightarrow> bool" where
  "fingerprint_matches a b \<longleftrightarrow>
     a ! 0 = b ! 0 \<and> a ! 1 = b ! 1 \<and> a ! 2 = b ! 2 \<and> a ! 3 = b ! 3 \<and>
     a ! 4 = b ! 4 \<and> a ! 5 = b ! 5 \<and> a ! 6 = b ! 6 \<and> a ! 7 = b ! 7"

definition fingerprint_differs_from :: "bytes \<Rightarrow> bytes \<Rightarrow> bool" where
  "fingerprint_differs_from a b \<longleftrightarrow> \<not> fingerprint_matches a b"

definition fingerprint_verify_header :: "bytes \<Rightarrow> bytes \<Rightarrow> unit outcome" where
  "fingerprint_verify_header fp d =
     fail_if (length d < 12) AccountDataTooSmall
       (obind (rd d 4 8) (\<lambda>id. fail_if (id \<noteq> fp) InvalidAccountData (Ok ())))"

section \<open>Round trips\<close>

definition wire_valid :: "'a::len wire \<Rightarrow> bool" where
  "wire_valid w \<longleftrightarrow> 8 dvd LENGTH('a) \<and> length (wire_bytes w) = LENGTH('a) div 8"

lemma wire_get_new:
  assumes "8 dvd LENGTH('a)"
  shows "wire_get (wire_new v :: 'a::len wire) = v"
proof -
  have "(256 :: nat) ^ (LENGTH('a) div 8) = 2 ^ (8 * (LENGTH('a) div 8))" by (simp add: power_mult)
  also have "\<dots> = 2 ^ LENGTH('a)" using assms by simp
  finally have "unat v mod 256 ^ (LENGTH('a) div 8) = unat v" by simp
  then show ?thesis by (simp add: wire_get_def wire_new_def le_val_enc)
qed

lemma wire_new_get:
  assumes "wire_valid w"
  shows "wire_new (wire_get w) = (w :: 'a::len wire)"
proof -
  have n: "length (wire_bytes w) = LENGTH('a) div 8" and d: "8 dvd LENGTH('a)"
    using assms by (auto simp: wire_valid_def)
  have "(256 :: nat) ^ (LENGTH('a) div 8) = 2 ^ (8 * (LENGTH('a) div 8))" by (simp add: power_mult)
  also have "\<dots> = 2 ^ LENGTH('a)" using d by simp
  finally have "le_val (wire_bytes w) < 2 ^ LENGTH('a)"
    using le_val_bound [of "wire_bytes w"] n by simp
  then show ?thesis
    by (simp add: wire_new_def wire_get_def unat_word_of_nat le_enc_val' [OF n])
qed

lemma wire_new_valid: "8 dvd LENGTH('a) \<Longrightarrow> wire_valid (wire_new v :: 'a::len wire)"
  by (simp add: wire_valid_def wire_new_def)

interpretation wire16: bijective_codec wire_new wire_get "wire_valid :: 16 wire \<Rightarrow> bool"
  by unfold_locales (simp_all add: wire_get_new wire_new_get wire_new_valid)

interpretation wire32: bijective_codec wire_new wire_get "wire_valid :: 32 wire \<Rightarrow> bool"
  by unfold_locales (simp_all add: wire_get_new wire_new_get wire_new_valid)

interpretation wire64: bijective_codec wire_new wire_get "wire_valid :: 64 wire \<Rightarrow> bool"
  by unfold_locales (simp_all add: wire_get_new wire_new_get wire_new_valid)

interpretation wire128: bijective_codec wire_new wire_get "wire_valid :: 128 wire \<Rightarrow> bool"
  by unfold_locales (simp_all add: wire_get_new wire_new_get wire_new_valid)

interpretation wire_bool: codec wire_bool_new wire_bool_get "\<lambda>w. bool_byte w \<in> {0, 1}"
  by unfold_locales (simp_all add: wire_bool_new_def wire_bool_get_def)

lemma wire_bool_normalises: "wire_bool_eq w (wire_bool_new (wire_bool_get w))"
  by (simp add: wire_bool_eq_def wire_bool.dec_enc)

lemma fingerprint_matches_iff:
  assumes "length a = 8" and "length b = 8"
  shows "fingerprint_matches a b \<longleftrightarrow> a = b"
proof
  assume m: "fingerprint_matches a b"
  have "a ! i = b ! i" if "i < 8" for i
  proof -
    have "i \<in> {0, 1, 2, 3, 4, 5, 6, 7}" using that by auto
    then show ?thesis using m by (auto simp: fingerprint_matches_def)
  qed
  then show "a = b" using assms by (intro nth_equalityI) auto
qed (simp add: fingerprint_matches_def)

lemma fingerprint_verify_header_iff:
  "fingerprint_verify_header fp d = Ok () \<longleftrightarrow> 12 \<le> length d \<and> bslice 4 8 d = fp"
  by (auto simp: fingerprint_verify_header_def)

section \<open>Ordering\<close>

definition cmp_by :: "('k \<Rightarrow> int) \<Rightarrow> 'k \<Rightarrow> 'k \<Rightarrow> ordering" where
  "cmp_by f x y = (if f x < f y then Less else if f x = f y then Equal else Greater)"

interpretation key_order: total_cmp "cmp_by f" for f
  by unfold_locales (auto simp: cmp_by_def split: if_splits)

lemma wire_cmp_by: "wire_cmp s = cmp_by (\<lambda>w. native_val s (wire_get w))"
  by (intro ext) (simp add: wire_cmp_def cmp_by_def Let_def)

interpretation wire_order: total_cmp "wire_cmp s" for s
  unfolding wire_cmp_by by (rule key_order.total_cmp_axioms)

text \<open>The order of \<^verbatim>\<open>WireU64\<close> keys read as raw bytes.\<close>

definition wire_u64_cmp :: "bytes \<Rightarrow> bytes \<Rightarrow> ordering" where
  "wire_u64_cmp x y = wire_cmp Unsigned (Wire x :: 64 wire) (Wire y)"

interpretation wire_u64_order: total_cmp wire_u64_cmp
  using wire_order.total_cmp_axioms [of Unsigned]
  unfolding total_cmp_def wire_u64_cmp_def by blast

section \<open>Properties\<close>

text \<open>
  Wire integers are a faithful encoding of every native width: writing then reading
  gives the value back, every bit pattern of the right length is the encoding of exactly
  one value, and \<open>set\<close> is \<open>new\<close>.
\<close>

theorem wire_int_round_trip:
  assumes "8 dvd LENGTH('a::len)" and "length b = LENGTH('a) div 8"
  shows "wire_get (wire_new v :: 'a wire) = v \<and> wire_new (wire_get (Wire b :: 'a wire)) = Wire b \<and>
    wire_set w v = wire_new v"
  using assms wire_get_new [of v] wire_new_get [of "Wire b :: 'a wire"]
  by (auto simp: wire_valid_def wire_set_def wire_new_def)

theorem wire_int_round_trip_witness:
  "wire_new (wire_get (Wire [1, 2, 3, 4, 5, 6, 7, 8] :: 64 wire)) = Wire [1, 2, 3, 4, 5, 6, 7, 8]"
  using wire_int_round_trip [where 'a = 64 and b = "[1, 2, 3, 4, 5, 6, 7, 8]"] by simp

text \<open>
  Arithmetic on wire integers is exact or refused, for every width and signedness:
  the \<open>checked_*_assign\<close> helpers store the encoding of the mathematical result or report
  \<open>ArithmeticOverflow\<close>, and the operators give the same result or abort, so nothing wraps.
  For 64-bit unsigned products the helper goes through the split multiplication, the
  operator through the library one; they agree.
\<close>

theorem wire_arithmetic_exact:
  "(wire_checked_add_assign s w r = Ok w' \<longleftrightarrow>
      (\<exists>v. w' = wire_new v \<and> native_val s v = native_val s (wire_get w) + native_val s r)) \<and>
   (wire_checked_sub_assign s w r = Ok w' \<longleftrightarrow>
      (\<exists>v. w' = wire_new v \<and> native_val s v = native_val s (wire_get w) - native_val s r)) \<and>
   (wire_checked_mul_assign s w r = Ok w' \<longleftrightarrow>
      (\<exists>v. w' = wire_new v \<and> native_val s v = native_val s (wire_get w) * native_val s r)) \<and>
   (wire_add s w r = Ok w' \<longleftrightarrow> wire_checked_add_assign s w r = Ok w') \<and>
   (wire_sub s w r = Ok w' \<longleftrightarrow> wire_checked_sub_assign s w r = Ok w') \<and>
   (wire_mul s w r = Ok w' \<longleftrightarrow> wire_checked_mul_assign s w r = Ok w')"
  by (intro conjI) (auto simp: wire_checked_add_assign_def wire_checked_sub_assign_def
      wire_checked_mul_assign_def wire_add_def wire_sub_def wire_mul_def obind_Ok_iff wire_set_def
      wire_new_def native.add_exact native.sub_exact native.mul_exact checked_mul_lean_eq [symmetric])

end
