(* ===== verification/FixedVec.thy ===== *)
theory FixedVec imports Slots Contracts begin

text \<open>
  hopper-core/src/collections/fixed_vec.rs: the bounded array
  \<open>[count: u32][element 0]...\<close>. A \<^verbatim>\<open>T: Pod + FixedLayout\<close> value is its \<open>sz = T::SIZE\<close>
  bytes (the constructor asserts at compile time that \<open>SIZE\<close> is the size of \<open>T\<close> and
  positive), so an element is a byte list of length \<open>sz\<close>. \<open>get\<close> and \<open>get_ref\<close> read the
  same bytes and share a definition. Shown: the view refines a bounded list for every
  buffer the constructor accepts and every sequence of calls, so no call ever indexes
  or reads outside the slice.
\<close>

definition vec_header :: nat where "vec_header = 4"

definition fv_from_bytes :: "nat \<Rightarrow> bytes \<Rightarrow> view outcome" where
  "fv_from_bytes sz d =
     fail_if (length d < vec_header) AccountDataTooSmall
       (let capacity = (length d - vec_header) div sz in
        obind (rd_u32 d 0) (\<lambda>len.
        fail_if (len > capacity) InvalidAccountData
          (Ok \<lparr>vdata = d, vcap = capacity\<rparr>)))"

definition fv_len :: "view \<Rightarrow> nat outcome" where
  "fv_len v = rd_u32 (vdata v) 0"

definition fv_capacity :: "view \<Rightarrow> nat" where
  "fv_capacity v = vcap v"

definition fv_is_empty :: "view \<Rightarrow> bool outcome" where
  "fv_is_empty v = obind (fv_len v) (\<lambda>len. Ok (len = 0))"

definition fv_is_full :: "view \<Rightarrow> bool outcome" where
  "fv_is_full v = obind (fv_len v) (\<lambda>len. Ok (fv_capacity v \<le> len))"

definition fv_set_len :: "view \<Rightarrow> nat \<Rightarrow> view outcome" where
  "fv_set_len v len = obind (wr_u32 (vdata v) 0 len) (\<lambda>d. Ok (v\<lparr>vdata := d\<rparr>))"

definition fv_element_offset :: "nat \<Rightarrow> nat \<Rightarrow> nat" where
  "fv_element_offset sz index = vec_header + index * sz"

definition fv_get :: "nat \<Rightarrow> view \<Rightarrow> nat \<Rightarrow> bytes outcome" where
  "fv_get sz v index =
     obind (fv_len v) (\<lambda>len.
     fail_if (len \<le> index) InvalidArgument
       (rd (vdata v) (fv_element_offset sz index) sz))"

definition fv_set :: "nat \<Rightarrow> view \<Rightarrow> nat \<Rightarrow> bytes \<Rightarrow> view outcome" where
  "fv_set sz v index x =
     obind (fv_len v) (\<lambda>len.
     fail_if (len \<le> index) InvalidArgument
       (obind (wr (vdata v) (fv_element_offset sz index) x) (\<lambda>d. Ok (v\<lparr>vdata := d\<rparr>))))"

definition fv_push :: "nat \<Rightarrow> view \<Rightarrow> bytes \<Rightarrow> view outcome" where
  "fv_push sz v x =
     obind (fv_len v) (\<lambda>len.
     fail_if (fv_capacity v \<le> len) AccountDataTooSmall
       (obind (wr (vdata v) (fv_element_offset sz len) x) (\<lambda>d.
        fv_set_len (v\<lparr>vdata := d\<rparr>) (len + 1))))"

definition fv_pop :: "nat \<Rightarrow> view \<Rightarrow> (view \<times> bytes) outcome" where
  "fv_pop sz v =
     obind (fv_len v) (\<lambda>len.
     fail_if (len = 0) InvalidArgument
       (let offset = fv_element_offset sz (len - 1) in
        obind (rd (vdata v) offset sz) (\<lambda>value.
        obind (zero_bytes (vdata v) offset sz) (\<lambda>d.
        obind (fv_set_len (v\<lparr>vdata := d\<rparr>) (len - 1)) (\<lambda>v'. Ok (v', value))))))"

definition fv_swap_remove :: "nat \<Rightarrow> view \<Rightarrow> nat \<Rightarrow> (view \<times> bytes) outcome" where
  "fv_swap_remove sz v index =
     obind (fv_len v) (\<lambda>len.
     fail_if (len \<le> index) InvalidArgument
       (let removed_offset = fv_element_offset sz index; last_index = len - 1 in
        obind (rd (vdata v) removed_offset sz) (\<lambda>removed.
        obind (if index \<noteq> last_index
               then let last_offset = fv_element_offset sz last_index in
                    obind (copy_bytes (vdata v) removed_offset last_offset sz) (\<lambda>d.
                    zero_bytes d last_offset sz)
               else zero_bytes (vdata v) removed_offset sz) (\<lambda>d.
        obind (fv_set_len (v\<lparr>vdata := d\<rparr>) last_index) (\<lambda>v'. Ok (v', removed))))))"

definition fv_clear :: "nat \<Rightarrow> view \<Rightarrow> view outcome" where
  "fv_clear sz v =
     obind (fv_len v) (\<lambda>len.
     obind (zero_bytes (vdata v) vec_header (fv_element_offset sz len - vec_header)) (\<lambda>d.
     fv_set_len (v\<lparr>vdata := d\<rparr>) 0))"

definition fv_required_bytes :: "nat \<Rightarrow> nat \<Rightarrow> nat" where
  "fv_required_bytes sz capacity = vec_header + capacity * sz"

section \<open>Invariant and contents\<close>

definition fv_inv :: "nat \<Rightarrow> view \<Rightarrow> bool" where
  "fv_inv sz v \<longleftrightarrow> 0 < sz \<and> 4 \<le> length (vdata v) \<and> account_sized (vdata v) \<and>
     vcap v = slot_room 4 sz (vdata v) \<and> u32_at (vdata v) 0 \<le> vcap v"

definition fv_elems :: "nat \<Rightarrow> view \<Rightarrow> bytes list" where
  "fv_elems sz v = contents (slot_get 4 sz) (vdata v) (u32_at (vdata v) 0)"

lemma length_fv_elems [simp]: "length (fv_elems sz v) = u32_at (vdata v) 0"
  by (simp add: fv_elems_def)

lemma fv_from_bytes_inv:
  assumes "fv_from_bytes sz d = Ok v" and "0 < sz" and "account_sized d"
  shows "fv_inv sz v \<and> vdata v = d"
  using assms
  by (auto simp: fv_from_bytes_def fv_inv_def vec_header_def slot_room_def Let_def split: if_splits)

lemma fv_from_bytes_no_trap: "fv_from_bytes sz d \<noteq> Trap"
  by (simp add: fv_from_bytes_def vec_header_def Let_def)

lemma fv_len_eq [simp]: "fv_inv sz v \<Longrightarrow> fv_len v = Ok (length (fv_elems sz v))"
  by (simp add: fv_len_def fv_inv_def)

text \<open>The one lemma about updates: new slots, then a new count.\<close>

lemma fv_set_len_inv:
  assumes "fv_inv sz v" and "length d = length (vdata v)" and "n \<le> vcap v"
  shows "\<exists>v'. fv_set_len (v\<lparr>vdata := d\<rparr>) n = Ok v' \<and> fv_inv sz v' \<and> vcap v' = vcap v \<and>
    length (vdata v') = length (vdata v) \<and> fv_elems sz v' = contents (slot_get 4 sz) d n"
proof -
  have d4: "4 \<le> length d" using assms by (simp add: fv_inv_def)
  have room: "slot_room 4 sz d = vcap v" using assms by (simp add: fv_inv_def slot_room_def)
  have small: "n < 2 ^ 32"
    using slot_room_small [of "vdata v" 4 sz] assms by (auto simp: fv_inv_def)
  let ?v = "v\<lparr>vdata := bsplice 0 (le_enc 4 n) d\<rparr>"
  have n: "u32_at (vdata ?v) 0 = n" using d4 small by simp
  have "fv_elems sz ?v = contents (slot_get 4 sz) d n"
    using slots_header [of 0 "le_enc 4 n" 4 n sz d] assms(3) room d4 unfolding fv_elems_def n
    by simp
  moreover have "fv_inv sz ?v"
    using assms room d4 n by (auto simp: fv_inv_def account_sized_def)
  moreover have "fv_set_len (v\<lparr>vdata := d\<rparr>) n = Ok ?v" using d4 by (simp add: fv_set_len_def)
  ultimately show ?thesis using assms d4 by auto
qed

lemma fv_invD:
  assumes "fv_inv sz v"
  shows "vcap v = slot_room 4 sz (vdata v)" and "length (fv_elems sz v) \<le> slot_room 4 sz (vdata v)"
    and "0 < sz" and "4 \<le> length (vdata v)"
  using assms by (auto simp: fv_inv_def)

lemmas fv_defs = fv_element_offset_def vec_header_def fv_capacity_def Let_def

lemma fv_push_room:
  assumes "fv_inv sz v" and "length x = sz" and "length (fv_elems sz v) < vcap v"
  shows "\<exists>v'. fv_push sz v x = Ok v' \<and> fv_inv sz v' \<and> vcap v' = vcap v \<and>
    length (vdata v') = length (vdata v) \<and> fv_elems sz v' = fv_elems sz v @ [x]"
proof -
  let ?n = "length (fv_elems sz v)" and ?d = "slot_put 4 sz (vdata v) (length (fv_elems sz v)) x"
  note D = fv_invD [OF assms(1)]
  have "fv_push sz v x = fv_set_len (v\<lparr>vdata := ?d\<rparr>) (?n + 1)"
    using assms D by (simp add: fv_push_def fv_defs del: length_fv_elems)
  moreover have "contents (slot_get 4 sz) ?d (?n + 1) = fv_elems sz v @ [x]"
    using arr.contents_snoc [of ?n 4 sz "vdata v" x] assms D
    by (simp add: fv_elems_def)
  ultimately show ?thesis
    using fv_set_len_inv [OF assms(1), of ?d "?n + 1"] assms D by simp
qed

lemma fv_push_full:
  "fv_inv sz v \<Longrightarrow> vcap v \<le> length (fv_elems sz v) \<Longrightarrow> fv_push sz v x = Err AccountDataTooSmall"
  by (simp add: fv_push_def fv_defs)

lemma fv_pop_spec:
  assumes "fv_inv sz v" and "fv_elems sz v \<noteq> []"
  shows "\<exists>v'. fv_pop sz v = Ok (v', last (fv_elems sz v)) \<and> fv_inv sz v' \<and> vcap v' = vcap v \<and>
    length (vdata v') = length (vdata v) \<and> fv_elems sz v' = butlast (fv_elems sz v)"
proof -
  let ?n = "length (fv_elems sz v)"
  let ?d = "slot_put 4 sz (vdata v) (?n - 1) (replicate sz 0)"
  note D = fv_invD [OF assms(1)]
  have n: "0 < ?n" using assms(2) by (simp del: length_fv_elems)
  then have i: "?n - 1 < slot_room 4 sz (vdata v)" using D by linarith
  have last: "slot_get 4 sz (vdata v) (?n - 1) = last (fv_elems sz v)"
    using n by (simp add: contents_last fv_elems_def)
  have "contents (slot_get 4 sz) ?d (?n - 1) = butlast (fv_elems sz v)"
    using arr.contents_put_beyond [of "?n - 1" "?n - 1" 4 sz "vdata v" "replicate sz 0"] i n
      contents_butlast [of ?n "slot_get 4 sz" "vdata v"] by (simp add: fv_elems_def)
  moreover have "fv_pop sz v = obind (fv_set_len (v\<lparr>vdata := ?d\<rparr>) (?n - 1))
      (\<lambda>v'. Ok (v', last (fv_elems sz v)))"
    using assms(1) n i by (simp add: fv_pop_def fv_defs last [symmetric] del: length_fv_elems)
  ultimately show ?thesis
    using fv_set_len_inv [OF assms(1), of ?d "?n - 1"] i D by auto
qed

lemma fv_swap_remove_spec:
  assumes "fv_inv sz v" and "i < length (fv_elems sz v)"
  shows "\<exists>v'. fv_swap_remove sz v i = Ok (v', fv_elems sz v ! i) \<and> fv_inv sz v' \<and> vcap v' = vcap v \<and>
    length (vdata v') = length (vdata v) \<and>
    fv_elems sz v' = butlast ((fv_elems sz v)[i := last (fv_elems sz v)])"
proof -
  let ?n = "length (fv_elems sz v)" and ?z = "replicate sz (0::u8)" and ?m = "vdata v"
  let ?d = "if i \<noteq> ?n - 1 then slot_put 4 sz (slot_put 4 sz ?m i (slot_get 4 sz ?m (?n - 1))) (?n - 1) ?z
            else slot_put 4 sz ?m i ?z"
  note D = fv_invD [OF assms(1)]
  have i: "i < slot_room 4 sz ?m" and n: "?n - 1 < slot_room 4 sz ?m" using D assms(2) by linarith+
  have ith: "slot_get 4 sz ?m i = fv_elems sz v ! i" using assms(2) by (simp add: fv_elems_def contents_nth)
  have len: "length ?d = length ?m" using i n by (simp add: arr.room_put)
  have run: "fv_swap_remove sz v i = obind (fv_set_len (v\<lparr>vdata := ?d\<rparr>) (?n - 1))
      (\<lambda>v'. Ok (v', fv_elems sz v ! i))"
    using assms i n
    by (auto simp: fv_swap_remove_def fv_defs copy_slot arr.room_put ith simp del: length_fv_elems)
  have "contents (slot_get 4 sz) ?d (?n - 1) = butlast ((fv_elems sz v)[i := last (fv_elems sz v)])"
  proof (cases "i = ?n - 1")
    case True
    have "contents (slot_get 4 sz) ?d (?n - 1) = contents (slot_get 4 sz) ?m (?n - 1)"
      using arr.contents_put_beyond [of "?n - 1" i 4 sz ?m ?z] True i by simp
    also have "\<dots> = butlast (fv_elems sz v)"
      using contents_butlast [of ?n "slot_get 4 sz" ?m] assms(2) by (simp add: fv_elems_def)
    finally show ?thesis
      using True assms(2) by (simp add: butlast_list_update del: length_fv_elems)
  next
    case False
    then show ?thesis
      using arr.contents_move_last [of i ?n 4 sz ?m ?z] assms(2) n D by (simp add: fv_elems_def)
  qed
  moreover have "?n - 1 \<le> vcap v" using D by linarith
  ultimately show ?thesis
    using fv_set_len_inv [OF assms(1) len, of "?n - 1"] run by (metis obind.simps(1))
qed

lemma fv_get_spec:
  assumes "fv_inv sz v" and "i < length (fv_elems sz v)"
  shows "fv_get sz v i = Ok (fv_elems sz v ! i)"
proof -
  have "i < slot_room 4 sz (vdata v)" using fv_invD [OF assms(1)] assms(2) by linarith
  then show ?thesis using assms by (simp add: fv_get_def fv_defs) (simp add: fv_elems_def contents_nth)
qed

lemma fv_set_spec:
  assumes "fv_inv sz v" and "i < length (fv_elems sz v)" and "length x = sz"
  shows "\<exists>v'. fv_set sz v i x = Ok v' \<and> fv_inv sz v' \<and> vcap v' = vcap v \<and>
    length (vdata v') = length (vdata v) \<and> fv_elems sz v' = (fv_elems sz v)[i := x]"
proof -
  let ?v = "v\<lparr>vdata := slot_put 4 sz (vdata v) i x\<rparr>"
  note D = fv_invD [OF assms(1)]
  have i: "i < slot_room 4 sz (vdata v)" using D assms(2) by linarith
  have "fv_set sz v i x = Ok ?v" using assms i by (simp add: fv_set_def fv_defs)
  moreover have "fv_elems sz ?v = (fv_elems sz v)[i := x]"
    using arr.contents_put [of i "length (fv_elems sz v)" 4 sz "vdata v" x] assms i D
    by (simp add: fv_elems_def u32_at_slot_put)
  moreover have "fv_inv sz ?v"
    using assms i by (simp add: fv_inv_def u32_at_slot_put account_sized_def arr.room_put)
  ultimately show ?thesis using i assms by auto
qed

lemma fv_clear_spec:
  assumes "fv_inv sz v"
  shows "\<exists>v'. fv_clear sz v = Ok v' \<and> fv_inv sz v' \<and> vcap v' = vcap v \<and>
    length (vdata v') = length (vdata v) \<and> fv_elems sz v' = []"
proof -
  let ?n = "length (fv_elems sz v)"
  note D = fv_invD [OF assms]
  have "?n * sz \<le> slot_room 4 sz (vdata v) * sz" using D by (intro mult_le_mono1)
  also have "\<dots> \<le> length (vdata v) - 4" by (simp add: slot_room_def)
  finally have fits: "4 + ?n * sz \<le> length (vdata v)" using D by linarith
  then have "fv_clear sz v = fv_set_len (v\<lparr>vdata := bsplice 4 (replicate (?n * sz) 0) (vdata v)\<rparr>) 0"
    using assms by (simp add: fv_clear_def fv_defs)
  then show ?thesis
    using fv_set_len_inv [OF assms, of "bsplice 4 (replicate (?n * sz) 0) (vdata v)" 0] fits
    by auto
qed

interpretation fv_log: bounded_log "fv_push sz" "fv_elems sz" vcap "fv_inv sz" "\<lambda>x. length x = sz" for sz
proof
  fix v and x :: bytes
  assume "fv_inv sz v" "length x = sz" "length (fv_elems sz v) < vcap v"
  then show "\<exists>v'. fv_push sz v x = Ok v' \<and> fv_inv sz v' \<and> vcap v' = vcap v \<and>
      fv_elems sz v' = fv_elems sz v @ [x]"
    using fv_push_room by blast
qed (rule fv_push_full)

section \<open>Refinement\<close>

text \<open>The public methods, and the bounded list they implement.\<close>

datatype vec_call =
    VPush bytes | VPop | VSwapRemove nat | VSetAt nat bytes | VGetAt nat | VClear
  | VLen | VIsEmpty | VIsFull

fun vec_call_ok :: "nat \<Rightarrow> vec_call \<Rightarrow> bool" where
  "vec_call_ok sz (VPush x) = (length x = sz)"
| "vec_call_ok sz (VSetAt i x) = (length x = sz)"
| "vec_call_ok sz c = True"

fun fv_exec :: "nat \<Rightarrow> view \<Rightarrow> vec_call \<Rightarrow> (view \<times> answer) outcome" where
  "fv_exec sz v (VPush x) = unit_call (fv_push sz v x)"
| "fv_exec sz v VPop = value_call (fv_pop sz v) RBytes"
| "fv_exec sz v (VSwapRemove i) = value_call (fv_swap_remove sz v i) RBytes"
| "fv_exec sz v (VSetAt i x) = unit_call (fv_set sz v i x)"
| "fv_exec sz v (VGetAt i) = read_call v (fv_get sz v i) RBytes"
| "fv_exec sz v VClear = unit_call (fv_clear sz v)"
| "fv_exec sz v VLen = read_call v (fv_len v) RNum"
| "fv_exec sz v VIsEmpty = read_call v (fv_is_empty v) RBool"
| "fv_exec sz v VIsFull = read_call v (fv_is_full v) RBool"

fun bounded_list_exec :: "nat \<times> bytes list \<Rightarrow> vec_call \<Rightarrow> ((nat \<times> bytes list) \<times> answer) outcome" where
  "bounded_list_exec (cap, xs) (VPush x) =
     (if length xs < cap then Ok ((cap, xs @ [x]), RUnit) else Err AccountDataTooSmall)"
| "bounded_list_exec (cap, xs) VPop =
     (if xs = [] then Err InvalidArgument else Ok ((cap, butlast xs), RBytes (last xs)))"
| "bounded_list_exec (cap, xs) (VSwapRemove i) =
     (if i < length xs then Ok ((cap, butlast (xs[i := last xs])), RBytes (xs ! i))
      else Err InvalidArgument)"
| "bounded_list_exec (cap, xs) (VSetAt i x) =
     (if i < length xs then Ok ((cap, xs[i := x]), RUnit) else Err InvalidArgument)"
| "bounded_list_exec (cap, xs) (VGetAt i) =
     (if i < length xs then Ok ((cap, xs), RBytes (xs ! i)) else Err InvalidArgument)"
| "bounded_list_exec (cap, xs) VClear = Ok ((cap, []), RUnit)"
| "bounded_list_exec (cap, xs) VLen = Ok ((cap, xs), RNum (length xs))"
| "bounded_list_exec (cap, xs) VIsEmpty = Ok ((cap, xs), RBool (xs = []))"
| "bounded_list_exec (cap, xs) VIsFull = Ok ((cap, xs), RBool (cap \<le> length xs))"

definition fv_abs :: "nat \<Rightarrow> view \<Rightarrow> nat \<times> bytes list" where
  "fv_abs sz v = (vcap v, fv_elems sz v)"

lemma fv_error_branches:
  assumes "fv_inv sz v"
  shows "fv_elems sz v = [] \<Longrightarrow> fv_pop sz v = Err InvalidArgument"
    and "\<not> i < length (fv_elems sz v) \<Longrightarrow> fv_swap_remove sz v i = Err InvalidArgument"
    and "\<not> i < length (fv_elems sz v) \<Longrightarrow> fv_set sz v i x = Err InvalidArgument"
    and "\<not> i < length (fv_elems sz v) \<Longrightarrow> fv_get sz v i = Err InvalidArgument"
  using assms
  by (simp_all add: fv_pop_def fv_swap_remove_def fv_set_def fv_get_def del: length_fv_elems)

lemma fv_exec_step:
  assumes inv: "fv_inv sz v" and wt: "vec_call_ok sz c"
  shows "map_state (fv_abs sz) (fv_exec sz v c) = bounded_list_exec (fv_abs sz v) c \<and>
    (\<forall>v' r. fv_exec sz v c = Ok (v', r) \<longrightarrow> fv_inv sz v' \<and> length (vdata v') = length (vdata v))"
proof (cases c)
  case (VPush x)
  show ?thesis
  proof (cases "length (fv_elems sz v) < vcap v")
    case True
    with fv_push_room [OF inv, of x] wt VPush show ?thesis
      by (auto simp: call_defs fv_abs_def)
  next
    case False
    with fv_push_full [OF inv, of x] VPush show ?thesis
      by (auto simp: call_defs fv_abs_def)
  qed
next
  case VPop
  then show ?thesis
    using fv_pop_spec [OF inv] fv_error_branches(1) [OF inv]
    by (cases "fv_elems sz v = []") (auto simp: call_defs fv_abs_def)
next
  case (VSwapRemove i)
  then show ?thesis
    using fv_swap_remove_spec [OF inv, of i] fv_error_branches(2) [OF inv, of i]
    by (cases "i < length (fv_elems sz v)") (auto simp: call_defs fv_abs_def)
next
  case (VSetAt i x)
  then show ?thesis
    using fv_set_spec [OF inv, of i x] fv_error_branches(3) [OF inv, of i x] wt
    by (cases "i < length (fv_elems sz v)") (auto simp: call_defs fv_abs_def)
next
  case (VGetAt i)
  then show ?thesis
    using fv_get_spec [OF inv, of i] fv_error_branches(4) [OF inv, of i] inv
    by (cases "i < length (fv_elems sz v)") (auto simp: call_defs fv_abs_def)
next
  case VClear
  then show ?thesis using fv_clear_spec [OF inv] by (auto simp: call_defs fv_abs_def)
qed (use inv in \<open>auto simp: call_defs fv_abs_def fv_is_empty_def fv_is_full_def fv_capacity_def
    simp flip: length_0_conv\<close>)

interpretation fv_sim: simulation "fv_exec sz" bounded_list_exec "fv_abs sz" "fv_inv sz" "vec_call_ok sz"
  for sz
proof
  fix v c v' r
  assume A: "fv_inv sz v" "vec_call_ok sz c"
  show "map_state (fv_abs sz) (fv_exec sz v c) = bounded_list_exec (fv_abs sz v) c"
    using fv_exec_step [OF A] by blast
  show "fv_exec sz v c = Ok (v', r) \<Longrightarrow> fv_inv sz v'"
    using fv_exec_step [OF A] by blast
next
  fix a c
  show "bounded_list_exec a c \<noteq> Trap"
    by (cases a; cases c) auto
qed

section \<open>Properties\<close>

text \<open>
  \<open>FixedVec\<close> is memory safe and correct on hostile bytes. For every buffer the
  constructor accepts, every sequence of method calls returns exactly the answers of a
  bounded list started from the stored elements, ends in a well-formed view with the
  list's contents, and never indexes or reads outside the buffer.
\<close>

theorem fixed_vec_refines_bounded_list:
  assumes "fv_from_bytes sz d = Ok v" and "0 < sz" and "account_sized d"
    and "list_all (vec_call_ok sz) cs"
  shows "fv_inv sz (fst (run_calls (fv_exec sz) v cs)) \<and>
    fv_abs sz (fst (run_calls (fv_exec sz) v cs)) = fst (run_calls bounded_list_exec (fv_abs sz v) cs) \<and>
    snd (run_calls (fv_exec sz) v cs) = snd (run_calls bounded_list_exec (fv_abs sz v) cs) \<and>
    Trap \<notin> set (snd (run_calls (fv_exec sz) v cs))"
proof -
  have inv: "fv_inv sz v" using fv_from_bytes_inv assms by blast
  then show ?thesis
    using fv_sim.run_refines [OF inv assms(4)] fv_sim.safe.run_safe [OF inv assms(4)] by blast
qed

theorem fixed_vec_refines_bounded_list_witness:
  "snd (run_calls (fv_exec 2) \<lparr>vdata = [1, 0, 0, 0, 7, 8, 0, 0], vcap = 2\<rparr>
     [VPush [1, 2], VPush [3, 4], VSwapRemove 0, VGetAt 0]) =
   [Ok RUnit, Err AccountDataTooSmall, Ok (RBytes [7, 8]), Ok (RBytes [1, 2])]"
proof -
  have "fv_from_bytes 2 [1, 0, 0, 0, 7, 8, 0, 0] = Ok \<lparr>vdata = [1, 0, 0, 0, 7, 8, 0, 0], vcap = 2\<rparr>"
    by (simp add: fv_from_bytes_def vec_header_def u32_at_def bslice_def)
  from fixed_vec_refines_bounded_list [OF this,
      of "[VPush [1, 2], VPush [3, 4], VSwapRemove 0, VGetAt 0]"]
  show ?thesis
    by (simp add: account_sized_def fv_abs_def fv_elems_def contents_def slot_get_def u32_at_def bslice_def)
qed

end
