(* ===== verification/SortedVec.thy ===== *)
theory SortedVec imports FixedVec Abi "HOL-Library.Multiset" begin

text \<open>
  hopper-core/src/collections/sorted_vec.rs: the sorted bounded array, laid out like
  FixedVec. \<^verbatim>\<open>T: Ord\<close> is a parameter \<open>cmp\<close> with the documented laws of \<^verbatim>\<open>Ord\<close> (the locale
  \<open>total_cmp\<close>; \<open>WireU64\<close> is an instance). Shown: binary search is correct on a sorted
  array and never reads outside it; every sequence of calls keeps the array sorted;
  insert and remove add and remove exactly one element.
\<close>

datatype search = Found nat | Insert_at nat

definition sv_from_bytes :: "nat \<Rightarrow> bytes \<Rightarrow> view outcome" where
  "sv_from_bytes sz d =
     fail_if (length d < vec_header) AccountDataTooSmall
       (let capacity = (length d - vec_header) div sz in
        obind (rd_u32 d 0) (\<lambda>len.
        fail_if (len > capacity) InvalidAccountData
          (Ok \<lparr>vdata = d, vcap = capacity\<rparr>)))"

definition sv_len :: "view \<Rightarrow> nat outcome" where
  "sv_len v = rd_u32 (vdata v) 0"

definition sv_capacity :: "view \<Rightarrow> nat" where
  "sv_capacity v = vcap v"

definition sv_is_empty :: "view \<Rightarrow> bool outcome" where
  "sv_is_empty v = obind (sv_len v) (\<lambda>len. Ok (len = 0))"

definition sv_is_full :: "view \<Rightarrow> bool outcome" where
  "sv_is_full v = obind (sv_len v) (\<lambda>len. Ok (sv_capacity v \<le> len))"

definition sv_set_len :: "view \<Rightarrow> nat \<Rightarrow> view outcome" where
  "sv_set_len v len = obind (wr_u32 (vdata v) 0 len) (\<lambda>d. Ok (v\<lparr>vdata := d\<rparr>))"

definition sv_element_offset :: "nat \<Rightarrow> nat \<Rightarrow> nat" where
  "sv_element_offset sz index = vec_header + index * sz"

definition sv_read_at :: "nat \<Rightarrow> view \<Rightarrow> nat \<Rightarrow> bytes outcome" where
  "sv_read_at sz v index = rd (vdata v) (sv_element_offset sz index) sz"

definition sv_write_at :: "nat \<Rightarrow> view \<Rightarrow> nat \<Rightarrow> bytes \<Rightarrow> view outcome" where
  "sv_write_at sz v index x = obind (wr (vdata v) (sv_element_offset sz index) x) (\<lambda>d. Ok (v\<lparr>vdata := d\<rparr>))"

function sv_search_loop :: "(bytes \<Rightarrow> bytes \<Rightarrow> ordering) \<Rightarrow> nat \<Rightarrow> view \<Rightarrow> bytes \<Rightarrow> nat \<Rightarrow> nat \<Rightarrow> search outcome" where
  "sv_search_loop cmp sz v target lo hi =
     (if lo < hi then
        let mid = lo + (hi - lo) div 2 in
        obind (sv_read_at sz v mid) (\<lambda>elem.
          case cmp elem target of
            Less \<Rightarrow> sv_search_loop cmp sz v target (mid + 1) hi
          | Equal \<Rightarrow> Ok (Found mid)
          | Greater \<Rightarrow> sv_search_loop cmp sz v target lo mid)
      else Ok (Insert_at lo))"
  by pat_completeness auto
termination by (relation "measure (\<lambda>(c, sz, v, t, lo, hi). hi - lo)") auto

declare sv_search_loop.simps [simp del]

definition sv_binary_search :: "(bytes \<Rightarrow> bytes \<Rightarrow> ordering) \<Rightarrow> nat \<Rightarrow> view \<Rightarrow> bytes \<Rightarrow> search outcome" where
  "sv_binary_search cmp sz v target =
     obind (sv_len v) (\<lambda>len.
     if len = 0 then Ok (Insert_at 0) else sv_search_loop cmp sz v target 0 len)"

definition sv_contains :: "(bytes \<Rightarrow> bytes \<Rightarrow> ordering) \<Rightarrow> nat \<Rightarrow> view \<Rightarrow> bytes \<Rightarrow> bool outcome" where
  "sv_contains cmp sz v target =
     obind (sv_binary_search cmp sz v target) (\<lambda>r. Ok (case r of Found i \<Rightarrow> True | Insert_at i \<Rightarrow> False))"

definition sv_get :: "nat \<Rightarrow> view \<Rightarrow> nat \<Rightarrow> bytes outcome" where
  "sv_get sz v index =
     obind (sv_len v) (\<lambda>len. fail_if (len \<le> index) InvalidArgument (sv_read_at sz v index))"

text \<open>The shift of the tail by one slot, shared by both inserts.\<close>

definition sv_shift_right :: "nat \<Rightarrow> view \<Rightarrow> nat \<Rightarrow> nat \<Rightarrow> view outcome" where
  "sv_shift_right sz v insert_idx len =
     (if insert_idx < len then
        obind (move_bytes (vdata v) (sv_element_offset sz (insert_idx + 1))
            (sv_element_offset sz insert_idx) ((len - insert_idx) * sz)) (\<lambda>d. Ok (v\<lparr>vdata := d\<rparr>))
      else Ok v)"

definition sv_insert :: "(bytes \<Rightarrow> bytes \<Rightarrow> ordering) \<Rightarrow> nat \<Rightarrow> view \<Rightarrow> bytes \<Rightarrow> (view \<times> nat) outcome" where
  "sv_insert cmp sz v x =
     obind (sv_len v) (\<lambda>len.
     fail_if (len \<ge> sv_capacity v) AccountDataTooSmall
       (obind (sv_binary_search cmp sz v x) (\<lambda>r.
        let insert_idx = (case r of Found idx \<Rightarrow> idx | Insert_at idx \<Rightarrow> idx) in
        obind (sv_shift_right sz v insert_idx len) (\<lambda>v1.
        obind (sv_write_at sz v1 insert_idx x) (\<lambda>v2.
        obind (sv_set_len v2 (len + 1)) (\<lambda>v3. Ok (v3, insert_idx)))))))"

text \<open>\<^verbatim>\<open>Result<usize, usize>\<close>: the error carries an index, \<^verbatim>\<open>usize::MAX\<close> when the array is full.\<close>

datatype unique_result = Inserted nat | Refused nat

definition usize_max :: nat where "usize_max = 2 ^ 64 - 1"

definition sv_insert_unique :: "(bytes \<Rightarrow> bytes \<Rightarrow> ordering) \<Rightarrow> nat \<Rightarrow> view \<Rightarrow> bytes \<Rightarrow> (view \<times> unique_result) outcome" where
  "sv_insert_unique cmp sz v x =
     obind (sv_binary_search cmp sz v x) (\<lambda>r.
       case r of
         Found existing \<Rightarrow> Ok (v, Refused existing)
       | Insert_at insert_idx \<Rightarrow>
           obind (sv_len v) (\<lambda>len.
           if len \<ge> sv_capacity v then Ok (v, Refused usize_max)
           else
             obind (sv_shift_right sz v insert_idx len) (\<lambda>v1.
             obind (sv_write_at sz v1 insert_idx x) (\<lambda>v2.
             obind (sv_set_len v2 (len + 1)) (\<lambda>v3. Ok (v3, Inserted insert_idx))))))"

definition sv_remove :: "nat \<Rightarrow> view \<Rightarrow> nat \<Rightarrow> (view \<times> bytes) outcome" where
  "sv_remove sz v index =
     obind (sv_len v) (\<lambda>len.
     fail_if (index \<ge> len) InvalidArgument
       (obind (sv_read_at sz v index) (\<lambda>removed.
        obind (if index + 1 < len
               then move_bytes (vdata v) (sv_element_offset sz index) (sv_element_offset sz (index + 1))
                      ((len - index - 1) * sz)
               else Ok (vdata v)) (\<lambda>d.
        obind (zero_bytes d (sv_element_offset sz (len - 1)) sz) (\<lambda>d'.
        obind (sv_set_len (v\<lparr>vdata := d'\<rparr>) (len - 1)) (\<lambda>v'. Ok (v', removed)))))))"

definition sv_remove_value :: "(bytes \<Rightarrow> bytes \<Rightarrow> ordering) \<Rightarrow> nat \<Rightarrow> view \<Rightarrow> bytes \<Rightarrow> (view \<times> bytes) outcome" where
  "sv_remove_value cmp sz v x =
     obind (sv_binary_search cmp sz v x) (\<lambda>r.
       case r of Found idx \<Rightarrow> sv_remove sz v idx | Insert_at i \<Rightarrow> Err InvalidArgument)"

definition sv_min :: "nat \<Rightarrow> view \<Rightarrow> bytes outcome" where
  "sv_min sz v = obind (sv_is_empty v) (\<lambda>e. fail_if e InvalidArgument (sv_read_at sz v 0))"

definition sv_max :: "nat \<Rightarrow> view \<Rightarrow> bytes outcome" where
  "sv_max sz v = obind (sv_len v) (\<lambda>len. fail_if (len = 0) InvalidArgument (sv_read_at sz v (len - 1)))"

section \<open>The layout is FixedVec's\<close>

lemma sv_from_bytes_inv:
  "sv_from_bytes sz d = Ok v \<Longrightarrow> 0 < sz \<Longrightarrow> account_sized d \<Longrightarrow> fv_inv sz v"
  using fv_from_bytes_inv [of sz d v] by (simp add: sv_from_bytes_def fv_from_bytes_def)

lemma sv_len_eq [simp]: "fv_inv sz v \<Longrightarrow> sv_len v = Ok (length (fv_elems sz v))"
  using fv_len_eq [of sz v] by (simp add: sv_len_def fv_len_def)

lemma sv_set_len_fv: "sv_set_len = fv_set_len"
  by (intro ext) (simp add: sv_set_len_def fv_set_len_def)

lemma sv_room: "fv_inv sz v \<Longrightarrow> vcap v = slot_room 4 sz (vdata v) \<and> length (fv_elems sz v) \<le> vcap v"
  by (simp add: fv_inv_def)

lemma sv_read_at_eq: "fv_inv sz v \<Longrightarrow> i < length (fv_elems sz v) \<Longrightarrow> sv_read_at sz v i = Ok (fv_elems sz v ! i)"
  by (simp add: sv_read_at_def sv_element_offset_def vec_header_def fv_inv_def fv_elems_def contents_nth)

section \<open>Sorted lists under a comparison\<close>

definition sorted_by :: "('k \<Rightarrow> 'k \<Rightarrow> ordering) \<Rightarrow> 'k list \<Rightarrow> bool" where
  "sorted_by cmp xs \<longleftrightarrow> sorted_wrt (\<lambda>x y. cmp x y \<noteq> Greater) xs"

definition insert_at :: "nat \<Rightarrow> 'a \<Rightarrow> 'a list \<Rightarrow> 'a list" where
  "insert_at i x xs = take i xs @ x # drop i xs"

definition remove_nth :: "nat \<Rightarrow> 'a list \<Rightarrow> 'a list" where
  "remove_nth i xs = take i xs @ drop (Suc i) xs"

lemma mset_insert_at [simp]: "mset (insert_at i x xs) = add_mset x (mset xs)"
proof -
  have "mset (take i xs) + mset (drop i xs) = mset xs" by (metis append_take_drop_id mset_append)
  then show ?thesis by (simp add: insert_at_def)
qed

lemma mset_remove_nth: "i < length xs \<Longrightarrow> add_mset (xs ! i) (mset (remove_nth i xs)) = mset xs"
  by (subst (3) id_take_nth_drop [of i xs]) (auto simp: remove_nth_def)

lemma length_insert_at [simp]: "length (insert_at i x xs) = Suc (length xs)"
  by (simp add: insert_at_def)

lemma insert_at_nth: "i \<le> length xs \<Longrightarrow> insert_at i x xs ! i = x"
  by (simp add: insert_at_def nth_append)

lemma sorted_by_remove:
  assumes "sorted_by cmp xs"
  shows "sorted_by cmp (remove_nth i xs)"
proof -
  let ?R = "\<lambda>x y. cmp x y \<noteq> Greater"
  have "sorted_wrt ?R (take i xs @ drop i xs)" using assms by (simp add: sorted_by_def)
  then have cross: "\<forall>x \<in> set (take i xs). \<forall>y \<in> set (drop i xs). ?R x y"
    unfolding sorted_wrt_append by blast
  have sub: "set (drop (Suc i) xs) \<subseteq> set (drop i xs)" by (rule set_drop_subset_set_drop) simp
  have "sorted_wrt ?R (take i xs)" "sorted_wrt ?R (drop (Suc i) xs)"
    using assms by (simp_all add: sorted_by_def sorted_wrt_take sorted_wrt_drop)
  with cross sub show ?thesis unfolding sorted_by_def remove_nth_def sorted_wrt_append by blast
qed

text \<open>What a search promises.\<close>

definition search_spec :: "('k \<Rightarrow> 'k \<Rightarrow> ordering) \<Rightarrow> 'k list \<Rightarrow> 'k \<Rightarrow> search \<Rightarrow> bool" where
  "search_spec cmp xs t r =
     (case r of
        Found i \<Rightarrow> i < length xs \<and> cmp (xs ! i) t = Equal
      | Insert_at i \<Rightarrow> i \<le> length xs \<and> (\<forall>x \<in> set (take i xs). cmp x t = Less) \<and>
          (\<forall>x \<in> set (drop i xs). cmp x t = Greater))"

section \<open>The updates\<close>

lemma sv_finish:
  assumes "fv_inv sz v" and "length d = length (vdata v)" and "n \<le> vcap v"
  shows "\<exists>v'. sv_set_len (v\<lparr>vdata := d\<rparr>) n = Ok v' \<and> fv_inv sz v' \<and> vcap v' = vcap v \<and>
    fv_elems sz v' = contents (slot_get 4 sz) d n"
  unfolding sv_set_len_fv using fv_set_len_inv [OF assms] by blast

lemma shift_right_contents:
  assumes inv: "fv_inv sz v" and room: "length (fv_elems sz v) < vcap v" and i: "i \<le> length (fv_elems sz v)"
    and x: "length x = sz"
  shows "\<exists>v'. obind (sv_shift_right sz v i (length (fv_elems sz v))) (\<lambda>v1.
      obind (sv_write_at sz v1 i x) (\<lambda>v2. sv_set_len v2 (length (fv_elems sz v) + 1))) = Ok v' \<and>
    fv_inv sz v' \<and> vcap v' = vcap v \<and> fv_elems sz v' = insert_at i x (fv_elems sz v)"
proof -
  let ?n = "length (fv_elems sz v)" and ?d = "vdata v"
  have cap: "vcap v = slot_room 4 sz ?d" using inv by (simp add: fv_inv_def)
  have el: "fv_elems sz v ! j = slot_get 4 sz ?d j" if "j < ?n" for j
    using that by (simp add: fv_elems_def contents_nth)
  obtain d1 where d1: "sv_shift_right sz v i ?n = Ok (v\<lparr>vdata := d1\<rparr>)" "length d1 = length ?d"
    and g1: "\<And>j. j \<le> ?n \<Longrightarrow> j \<noteq> i \<Longrightarrow> slot_get 4 sz d1 j = slot_get 4 sz ?d (if i < j then j - 1 else j)"
  proof (cases "i < ?n")
    case True
    have "i + 1 + (?n - i) \<le> slot_room 4 sz ?d" "i + (?n - i) \<le> slot_room 4 sz ?d" "0 < ?n - i"
      using True room cap by auto
    from move_slots [OF this] obtain d' where d': "length d' = length ?d"
      "move_bytes ?d (4 + (i + 1) * sz) (4 + i * sz) ((?n - i) * sz) = Ok d'"
      "\<And>j. j < slot_room 4 sz ?d \<Longrightarrow> slot_get 4 sz d' j =
        slot_get 4 sz ?d (if i + 1 \<le> j \<and> j < i + 1 + (?n - i) then i + (j - (i + 1)) else j)"
      by blast
    show ?thesis
    proof (rule that [of d'])
      show "sv_shift_right sz v i ?n = Ok (v\<lparr>vdata := d'\<rparr>)"
        using True d'(2) by (simp add: sv_shift_right_def sv_element_offset_def vec_header_def del: length_fv_elems)
      show "slot_get 4 sz d' j = slot_get 4 sz ?d (if i < j then j - 1 else j)" if "j \<le> ?n" "j \<noteq> i" for j
      proof -
        have "j < slot_room 4 sz ?d" using that(1) room cap by simp
        moreover have "(if i + 1 \<le> j \<and> j < i + 1 + (?n - i) then i + (j - (i + 1)) else j) =
            (if i < j then j - 1 else j)" using that True by auto
        ultimately show ?thesis using d'(3) [of j] by simp
      qed
    qed (rule d'(1))
  next
    case False
    show ?thesis
      by (rule that [of ?d]) (use False in \<open>auto simp: sv_shift_right_def simp del: length_fv_elems\<close>)
  qed
  have room1: "slot_room 4 sz d1 = slot_room 4 sz ?d" using d1(2) by (simp add: slot_room_def)
  have ir: "i < slot_room 4 sz d1" using i room cap room1 by simp
  let ?d2 = "slot_put 4 sz d1 i x"
  have w: "sv_write_at sz (v\<lparr>vdata := d1\<rparr>) i x = Ok (v\<lparr>vdata := ?d2\<rparr>)"
    using ir x by (simp add: sv_write_at_def sv_element_offset_def vec_header_def)
  have len2: "length ?d2 = length ?d" using ir x d1(2) by simp
  from sv_finish [OF inv len2, of "?n + 1"] room obtain v' where v': "fv_inv sz v'" "vcap v' = vcap v"
    "sv_set_len (v\<lparr>vdata := ?d2\<rparr>) (?n + 1) = Ok v'" "fv_elems sz v' = contents (slot_get 4 sz) ?d2 (?n + 1)"
    by auto
  have "contents (slot_get 4 sz) ?d2 (?n + 1) = insert_at i x (fv_elems sz v)"
  proof (rule nth_equalityI)
    fix j assume "j < length (contents (slot_get 4 sz) ?d2 (?n + 1))"
    then have j: "j \<le> ?n" by simp
    then have jr: "j < slot_room 4 sz d1" using room cap room1 by simp
    have "contents (slot_get 4 sz) ?d2 (?n + 1) ! j = slot_get 4 sz ?d2 j" using j by (simp add: contents_nth)
    also have "\<dots> = (if j = i then x else slot_get 4 sz ?d (if i < j then j - 1 else j))"
      using jr ir x j g1 [of j] by (simp add: arr.get_put_same arr.get_put_other)
    also have "\<dots> = insert_at i x (fv_elems sz v) ! j"
      using i j by (auto simp: insert_at_def nth_append nth_Cons' el min_def not_less simp del: length_fv_elems)
    finally show "contents (slot_get 4 sz) ?d2 (?n + 1) ! j = insert_at i x (fv_elems sz v) ! j" .
  qed simp
  then show ?thesis using d1(1) w v' by simp
qed

lemma sv_remove_spec:
  assumes inv: "fv_inv sz v"
  shows "if i < length (fv_elems sz v)
    then \<exists>v'. sv_remove sz v i = Ok (v', fv_elems sz v ! i) \<and> fv_inv sz v' \<and> vcap v' = vcap v \<and>
      fv_elems sz v' = remove_nth i (fv_elems sz v)
    else sv_remove sz v i = Err InvalidArgument"
proof (cases "i < length (fv_elems sz v)")
  case True
  let ?n = "length (fv_elems sz v)" and ?d = "vdata v"
  have cap: "vcap v = slot_room 4 sz ?d" and le: "?n \<le> vcap v" using inv by (auto simp: fv_inv_def)
  have el: "fv_elems sz v ! j = slot_get 4 sz ?d j" if "j < ?n" for j
    using that by (simp add: fv_elems_def contents_nth)
  obtain d1 where d1: "(if i + 1 < ?n then move_bytes ?d (sv_element_offset sz i) (sv_element_offset sz (i + 1))
        ((?n - i - 1) * sz) else Ok ?d) = Ok d1" "length d1 = length ?d"
    and g1: "\<And>j. j + 1 < ?n \<Longrightarrow> slot_get 4 sz d1 j = slot_get 4 sz ?d (if i \<le> j then j + 1 else j)"
  proof (cases "i + 1 < ?n")
    case True
    have "i + (?n - i - 1) \<le> slot_room 4 sz ?d" "i + 1 + (?n - i - 1) \<le> slot_room 4 sz ?d" "0 < ?n - i - 1"
      using True le cap by auto
    from move_slots [OF this] obtain d' where d': "length d' = length ?d"
      "move_bytes ?d (4 + i * sz) (4 + (i + 1) * sz) ((?n - i - 1) * sz) = Ok d'"
      "\<And>j. j < slot_room 4 sz ?d \<Longrightarrow> slot_get 4 sz d' j =
        slot_get 4 sz ?d (if i \<le> j \<and> j < i + (?n - i - 1) then i + 1 + (j - i) else j)"
      by blast
    show ?thesis
    proof (rule that [of d'])
      show "(if i + 1 < ?n then move_bytes ?d (sv_element_offset sz i) (sv_element_offset sz (i + 1))
        ((?n - i - 1) * sz) else Ok ?d) = Ok d'"
        using True d'(2) by (simp add: sv_element_offset_def vec_header_def del: length_fv_elems)
      show "slot_get 4 sz d' j = slot_get 4 sz ?d (if i \<le> j then j + 1 else j)" if "j + 1 < ?n" for j
      proof -
        have "j < slot_room 4 sz ?d" using that le cap by simp
        moreover have "(if i \<le> j \<and> j < i + (?n - i - 1) then i + 1 + (j - i) else j) =
            (if i \<le> j then j + 1 else j)" using that True by auto
        ultimately show ?thesis using d'(3) [of j] by simp
      qed
    qed (rule d'(1))
  next
    case False
    show ?thesis
      by (rule that [of ?d]) (use False True in \<open>auto simp del: length_fv_elems\<close>)
  qed
  have room1: "slot_room 4 sz d1 = slot_room 4 sz ?d" using d1(2) by (simp add: slot_room_def)
  have last: "?n - 1 < slot_room 4 sz d1" using True le cap room1 by simp
  let ?d2 = "slot_put 4 sz d1 (?n - 1) (replicate sz 0)"
  have z: "zero_bytes d1 (sv_element_offset sz (?n - 1)) sz = Ok ?d2"
    using zero_slot [OF last] by (simp add: sv_element_offset_def vec_header_def)
  have len2: "length ?d2 = length ?d" using last d1(2) by simp
  have "?n - 1 \<le> vcap v" using le by (rule le_trans [OF diff_le_self])
  from sv_finish [OF inv len2 this] obtain v' where v': "fv_inv sz v'" "vcap v' = vcap v"
    "sv_set_len (v\<lparr>vdata := ?d2\<rparr>) (?n - 1) = Ok v'" "fv_elems sz v' = contents (slot_get 4 sz) ?d2 (?n - 1)"
    by blast
  have "contents (slot_get 4 sz) ?d2 (?n - 1) = contents (slot_get 4 sz) d1 (?n - 1)"
    using last by (intro arr.contents_put_beyond) auto
  also have "\<dots> = remove_nth i (fv_elems sz v)"
    using True g1 by (intro nth_equalityI)
      (auto simp: contents_nth remove_nth_def nth_append el min_def not_less simp del: length_fv_elems)
  finally have e: "fv_elems sz v' = remove_nth i (fv_elems sz v)" using v'(4) by simp
  have "sv_remove sz v i = obind (if i + 1 < ?n then move_bytes ?d (sv_element_offset sz i)
        (sv_element_offset sz (i + 1)) ((?n - i - 1) * sz) else Ok ?d) (\<lambda>d.
      obind (zero_bytes d (sv_element_offset sz (?n - 1)) sz) (\<lambda>d'.
      obind (sv_set_len (v\<lparr>vdata := d'\<rparr>) (?n - 1)) (\<lambda>v'. Ok (v', fv_elems sz v ! i))))"
    using True inv sv_read_at_eq [OF inv True] by (simp add: sv_remove_def del: length_fv_elems)
  also have "\<dots> = Ok (v', fv_elems sz v ! i)" unfolding d1(1) obind.simps z v'(3) ..
  finally have "sv_remove sz v i = Ok (v', fv_elems sz v ! i)" .
  then show ?thesis using True v' e by simp
qed (use inv in \<open>simp add: sv_remove_def del: length_fv_elems\<close>)

section \<open>Calls\<close>

datatype sorted_call =
    SInsert bytes | SInsertUnique bytes | SRemove nat | SRemoveValue bytes
  | SGet nat | SContains bytes | SMin | SMax

fun sorted_call_ok :: "nat \<Rightarrow> sorted_call \<Rightarrow> bool" where
  "sorted_call_ok sz (SInsert x) = (length x = sz)"
| "sorted_call_ok sz (SInsertUnique x) = (length x = sz)"
| "sorted_call_ok sz c = True"

fun unique_answer :: "unique_result \<Rightarrow> answer" where
  "unique_answer (Inserted i) = RNum i"
| "unique_answer (Refused i) = ROpt (Some i)"

fun sv_exec :: "(bytes \<Rightarrow> bytes \<Rightarrow> ordering) \<Rightarrow> nat \<Rightarrow> view \<Rightarrow> sorted_call \<Rightarrow> (view \<times> answer) outcome" where
  "sv_exec cmp sz v (SInsert x) = value_call (sv_insert cmp sz v x) RNum"
| "sv_exec cmp sz v (SInsertUnique x) = value_call (sv_insert_unique cmp sz v x) unique_answer"
| "sv_exec cmp sz v (SRemove i) = value_call (sv_remove sz v i) RBytes"
| "sv_exec cmp sz v (SRemoveValue x) = value_call (sv_remove_value cmp sz v x) RBytes"
| "sv_exec cmp sz v (SGet i) = read_call v (sv_get sz v i) RBytes"
| "sv_exec cmp sz v (SContains x) = read_call v (sv_contains cmp sz v x) RBool"
| "sv_exec cmp sz v SMin = read_call v (sv_min sz v) RBytes"
| "sv_exec cmp sz v SMax = read_call v (sv_max sz v) RBytes"

definition sv_inv :: "(bytes \<Rightarrow> bytes \<Rightarrow> ordering) \<Rightarrow> nat \<Rightarrow> view \<Rightarrow> bool" where
  "sv_inv cmp sz v \<longleftrightarrow> fv_inv sz v \<and> sorted_by cmp (fv_elems sz v)"

lemma sv_reads:
  assumes "fv_inv sz v"
  shows "sv_get sz v i = (if i < length (fv_elems sz v) then Ok (fv_elems sz v ! i) else Err InvalidArgument)"
    and "sv_min sz v = (if fv_elems sz v = [] then Err InvalidArgument else Ok (hd (fv_elems sz v)))"
    and "sv_max sz v = (if fv_elems sz v = [] then Err InvalidArgument else Ok (last (fv_elems sz v)))"
  using assms sv_read_at_eq [OF assms]
  by (auto simp: sv_get_def sv_min_def sv_max_def sv_is_empty_def hd_conv_nth last_conv_nth
      simp del: length_fv_elems)

section \<open>Search and insertion under a total order\<close>

locale bytes_cmp = total_cmp cmp for cmp :: "bytes \<Rightarrow> bytes \<Rightarrow> ordering"
begin

lemma sorted_nth: "sorted_by cmp xs \<Longrightarrow> j \<le> i \<Longrightarrow> i < length xs \<Longrightarrow> cmp (xs ! j) (xs ! i) \<noteq> Greater"
  unfolding sorted_by_def sorted_wrt_iff_nth_less
  by (cases "j = i") (auto simp: cmp_refl)

lemma greater_flip: "cmp x y = Greater \<longleftrightarrow> cmp y x = Less"
  by (metis cmp_flip)

lemma equal_not_greater: "cmp x y = Equal \<Longrightarrow> cmp x y \<noteq> Greater \<and> cmp y x \<noteq> Greater"
  by (metis cmp_flip ordering.distinct(1) ordering.distinct(5))

lemma search_loop_correct:
  assumes inv: "fv_inv sz v" and sorted: "sorted_by cmp (fv_elems sz v)"
    and "lo \<le> hi" "hi \<le> length (fv_elems sz v)"
    and "\<forall>j < lo. cmp (fv_elems sz v ! j) t = Less"
    and "\<forall>j. hi \<le> j \<and> j < length (fv_elems sz v) \<longrightarrow> cmp (fv_elems sz v ! j) t = Greater"
  shows "\<exists>r. sv_search_loop cmp sz v t lo hi = Ok r \<and> search_spec cmp (fv_elems sz v) t r"
  using assms(3-)
proof (induction "hi - lo" arbitrary: lo hi rule: less_induct)
  case less
  let ?xs = "fv_elems sz v" and ?m = "lo + (hi - lo) div 2"
  show ?case
  proof (cases "lo < hi")
    case False
    then have "lo = hi" using less.prems(1) by simp
    then have "search_spec cmp ?xs t (Insert_at lo)"
      using less.prems unfolding search_spec_def
      by (auto simp: in_set_conv_nth simp del: length_fv_elems)
    then show ?thesis using False by (simp add: sv_search_loop.simps)
  next
    case True
    have m: "lo \<le> ?m" "?m < hi" "?m < length ?xs" using True less.prems(2) by auto
    have step: "sv_search_loop cmp sz v t lo hi = (case cmp (?xs ! ?m) t of
        Less \<Rightarrow> sv_search_loop cmp sz v t (?m + 1) hi | Equal \<Rightarrow> Ok (Found ?m)
      | Greater \<Rightarrow> sv_search_loop cmp sz v t lo ?m)"
      using True sv_read_at_eq [OF inv m(3)]
      by (subst sv_search_loop.simps) (simp add: Let_def)
    show ?thesis
    proof (cases "cmp (?xs ! ?m) t")
      case Less
      have "\<forall>j < ?m + 1. cmp (?xs ! j) t = ordering.Less"
        using Less m(3) by (metis le_less_trans cmp_flip sorted_nth [OF sorted] less_Suc_eq_le Suc_eq_plus1
            local.le_less_trans)
      then show ?thesis
        using less.hyps [of hi "?m + 1"] less.prems m Less unfolding step by (simp del: length_fv_elems)
    next
      case Equal
      then show ?thesis using m(3) unfolding step search_spec_def by simp
    next
      case Greater
      have "cmp (?xs ! j) t = ordering.Greater" if "?m \<le> j" "j < length ?xs" for j
      proof -
        have "cmp (?xs ! ?m) (?xs ! j) \<noteq> ordering.Greater" using sorted_nth [OF sorted that] .
        moreover have "cmp t (?xs ! ?m) = ordering.Less" using Greater greater_flip by blast
        ultimately show ?thesis using less_le_trans greater_flip by blast
      qed
      then show ?thesis
        using less.hyps [of ?m lo] less.prems m Greater unfolding step by (simp del: length_fv_elems)
    qed
  qed
qed

lemma binary_search_correct:
  assumes "fv_inv sz v" and "sorted_by cmp (fv_elems sz v)"
  shows "\<exists>r. sv_binary_search cmp sz v t = Ok r \<and> search_spec cmp (fv_elems sz v) t r"
proof (cases "length (fv_elems sz v) = 0")
  case True
  then have "search_spec cmp (fv_elems sz v) t (Insert_at 0)" by (simp add: search_spec_def del: length_fv_elems)
  then show ?thesis using True assms(1) by (simp add: sv_binary_search_def del: length_fv_elems)
next
  case False
  have "\<exists>r. sv_search_loop cmp sz v t 0 (length (fv_elems sz v)) = Ok r \<and>
      search_spec cmp (fv_elems sz v) t r"
    by (rule search_loop_correct [OF assms]) auto
  then show ?thesis using False assms(1) by (simp add: sv_binary_search_def del: length_fv_elems)
qed

lemma sorted_insert:
  assumes sorted: "sorted_by cmp xs" and r: "search_spec cmp xs t r"
    and i: "i = (case r of Found j \<Rightarrow> j | Insert_at j \<Rightarrow> j)"
  shows "i \<le> length xs \<and> sorted_by cmp (insert_at i t xs)"
proof -
  have le: "i \<le> length xs" using r i by (auto simp: search_spec_def split: search.splits)
  have left: "cmp (xs ! j) t \<noteq> Greater" if "j < i" "j < length xs" for j
  proof (cases r)
    case (Found k)
    then have k: "k < length xs" "cmp (xs ! k) t = Equal" "i = k" using r i by (auto simp: search_spec_def)
    then show ?thesis using sorted_nth [OF sorted, of j k] that cmp_trans by (metis equal_not_greater less_imp_le)
  next
    case (Insert_at k)
    then have "xs ! j \<in> set (take k xs)"
      using that i by (auto simp: in_set_conv_nth intro!: exI [of _ j])
    then have "cmp (xs ! j) t = Less" using r Insert_at by (auto simp: search_spec_def)
    then show ?thesis by simp
  qed
  have right: "cmp t (xs ! j) \<noteq> Greater" if "i \<le> j" "j < length xs" for j
  proof (cases r)
    case (Found k)
    then have k: "k < length xs" "cmp (xs ! k) t = Equal" "i = k" using r i by (auto simp: search_spec_def)
    then show ?thesis using sorted_nth [OF sorted, of k j] that cmp_trans by (metis equal_not_greater)
  next
    case (Insert_at k)
    then have "xs ! j \<in> set (drop k xs)" using that i by (auto simp: in_set_conv_nth intro!: exI [of _ "j - k"])
    then have "cmp (xs ! j) t = Greater" using r Insert_at by (auto simp: search_spec_def)
    then show ?thesis using greater_flip by (metis ordering.distinct(3))
  qed
  have "sorted_by cmp (insert_at i t xs)"
    unfolding sorted_by_def insert_at_def sorted_wrt_append sorted_wrt.simps
  proof (intro conjI ballI)
    show "sorted_wrt (\<lambda>x y. cmp x y \<noteq> Greater) (take i xs)" "sorted_wrt (\<lambda>x y. cmp x y \<noteq> Greater) (drop i xs)"
      using sorted by (simp_all add: sorted_by_def sorted_wrt_take sorted_wrt_drop)
    fix y assume "y \<in> set (drop i xs)"
    then obtain j where "y = xs ! (i + j)" "i + j < length xs" by (auto simp: in_set_conv_nth)
    then show "cmp t y \<noteq> Greater" using right [of "i + j"] by simp
  next
    fix x y assume "x \<in> set (take i xs)" and y: "y \<in> set (t # drop i xs)"
    then obtain j where j: "x = xs ! j" "j < i" "j < length xs" by (auto simp: in_set_conv_nth)
    show "cmp x y \<noteq> Greater"
    proof (cases "y = t")
      case True
      then show ?thesis using left j by simp
    next
      case False
      then have "y \<in> set (drop i xs)" using y by simp
      then obtain k where "y = xs ! (i + k)" "i + k < length xs" by (auto simp: in_set_conv_nth)
      then show ?thesis using sorted_nth [OF sorted, of j "i + k"] j by simp
    qed
  qed
  with le show ?thesis ..
qed

lemma insert_correct:
  assumes inv: "fv_inv sz v" and sorted: "sorted_by cmp (fv_elems sz v)" and x: "length x = sz"
  shows "if length (fv_elems sz v) < vcap v
    then \<exists>v' i. sv_insert cmp sz v x = Ok (v', i) \<and> fv_inv sz v' \<and> vcap v' = vcap v \<and>
      i \<le> length (fv_elems sz v) \<and> fv_elems sz v' = insert_at i x (fv_elems sz v) \<and>
      sorted_by cmp (fv_elems sz v')
    else sv_insert cmp sz v x = Err AccountDataTooSmall"
proof (cases "length (fv_elems sz v) < vcap v")
  case True
  from binary_search_correct [OF inv sorted, of x]
  obtain r where r: "sv_binary_search cmp sz v x = Ok r" "search_spec cmp (fv_elems sz v) x r" by blast
  define i where "i = (case r of Found j \<Rightarrow> j | Insert_at j \<Rightarrow> j)"
  have i: "i \<le> length (fv_elems sz v)" "sorted_by cmp (insert_at i x (fv_elems sz v))"
    using sorted_insert [OF sorted r(2) i_def] by auto
  from shift_right_contents [OF inv True i(1) x] obtain v' where v':
    "obind (sv_shift_right sz v i (length (fv_elems sz v))) (\<lambda>v1.
      obind (sv_write_at sz v1 i x) (\<lambda>v2. sv_set_len v2 (length (fv_elems sz v) + 1))) = Ok v'"
    "fv_inv sz v'" "vcap v' = vcap v" "fv_elems sz v' = insert_at i x (fv_elems sz v)" by blast
  have "sv_insert cmp sz v x = Ok (v', i)"
    using True inv r(1) v'(1) unfolding sv_insert_def
    by (auto simp: sv_capacity_def Let_def obind_Ok_iff simp flip: i_def simp del: length_fv_elems)
  then show ?thesis using True i v' by auto
qed (use inv in \<open>simp add: sv_insert_def sv_capacity_def del: length_fv_elems\<close>)

lemma insert_unique_correct:
  assumes inv: "fv_inv sz v" and sorted: "sorted_by cmp (fv_elems sz v)" and x: "length x = sz"
  shows "\<exists>v' u. sv_insert_unique cmp sz v x = Ok (v', u) \<and> fv_inv sz v' \<and> vcap v' = vcap v \<and>
    sorted_by cmp (fv_elems sz v') \<and>
    (case u of
       Inserted i \<Rightarrow> (\<forall>y \<in> set (fv_elems sz v). cmp y x \<noteq> Equal) \<and> i \<le> length (fv_elems sz v) \<and>
         fv_elems sz v' = insert_at i x (fv_elems sz v)
     | Refused i \<Rightarrow> v' = v \<and> (i < length (fv_elems sz v) \<and> cmp (fv_elems sz v ! i) x = Equal \<or>
         i = usize_max \<and> length (fv_elems sz v) = vcap v))"
proof -
  from binary_search_correct [OF inv sorted, of x]
  obtain r where r: "sv_binary_search cmp sz v x = Ok r" "search_spec cmp (fv_elems sz v) x r" by blast
  show ?thesis
  proof (cases r)
    case (Found i)
    then show ?thesis using r inv sorted
      by (auto simp: sv_insert_unique_def search_spec_def simp del: length_fv_elems)
  next
    case (Insert_at i)
    then have fresh: "cmp y x \<noteq> Equal" if "y \<in> set (fv_elems sz v)" for y
    proof -
      have "y \<in> set (take i (fv_elems sz v)) \<union> set (drop i (fv_elems sz v))"
        using that by (metis append_take_drop_id set_append)
      then show ?thesis using r(2) Insert_at by (auto simp: search_spec_def)
    qed
    show ?thesis
    proof (cases "length (fv_elems sz v) < vcap v")
      case False
      then have "length (fv_elems sz v) = vcap v" using inv by (simp add: fv_inv_def)
      moreover have "sv_insert_unique cmp sz v x = Ok (v, Refused usize_max)"
        using False r(1) Insert_at inv
        by (simp add: sv_insert_unique_def sv_capacity_def del: length_fv_elems)
      ultimately show ?thesis using inv sorted by (auto simp del: length_fv_elems)
    next
      case True
      have i: "i \<le> length (fv_elems sz v)" "sorted_by cmp (insert_at i x (fv_elems sz v))"
        using sorted_insert [OF sorted r(2), of i] Insert_at by auto
      from shift_right_contents [OF inv True i(1) x] obtain v' where v':
        "obind (sv_shift_right sz v i (length (fv_elems sz v))) (\<lambda>v1.
          obind (sv_write_at sz v1 i x) (\<lambda>v2. sv_set_len v2 (length (fv_elems sz v) + 1))) = Ok v'"
        "fv_inv sz v'" "vcap v' = vcap v" "fv_elems sz v' = insert_at i x (fv_elems sz v)" by blast
      have "sv_insert_unique cmp sz v x = Ok (v', Inserted i)"
        using True inv r(1) Insert_at v'(1) unfolding sv_insert_unique_def
        by (auto simp: sv_capacity_def obind_Ok_iff simp del: length_fv_elems)
      then show ?thesis using i v' fresh by auto
    qed
  qed
qed

lemma remove_value_correct:
  assumes inv: "fv_inv sz v" and sorted: "sorted_by cmp (fv_elems sz v)"
  shows "if \<exists>y \<in> set (fv_elems sz v). cmp y x = Equal
    then \<exists>v' i. sv_remove_value cmp sz v x = Ok (v', fv_elems sz v ! i) \<and> fv_inv sz v' \<and>
      vcap v' = vcap v \<and> i < length (fv_elems sz v) \<and> cmp (fv_elems sz v ! i) x = Equal \<and>
      fv_elems sz v' = remove_nth i (fv_elems sz v) \<and> sorted_by cmp (fv_elems sz v')
    else sv_remove_value cmp sz v x = Err InvalidArgument"
proof -
  from binary_search_correct [OF inv sorted, of x]
  obtain r where r: "sv_binary_search cmp sz v x = Ok r" "search_spec cmp (fv_elems sz v) x r" by blast
  show ?thesis
  proof (cases r)
    case (Found i)
    then have i: "i < length (fv_elems sz v)" "cmp (fv_elems sz v ! i) x = Equal"
      using r(2) by (auto simp: search_spec_def)
    then have "\<exists>y \<in> set (fv_elems sz v). cmp y x = Equal" by (meson nth_mem)
    then show ?thesis using i Found r(1) sv_remove_spec [OF inv, of i] sorted_by_remove [OF sorted, of i]
      by (fastforce simp: sv_remove_value_def simp del: length_fv_elems)
  next
    case (Insert_at i)
    have "cmp y x \<noteq> Equal" if "y \<in> set (fv_elems sz v)" for y
    proof -
      have "y \<in> set (take i (fv_elems sz v)) \<union> set (drop i (fv_elems sz v))"
        using that by (metis append_take_drop_id set_append)
      then show ?thesis using r(2) Insert_at by (auto simp: search_spec_def)
    qed
    then show ?thesis using r(1) Insert_at by (auto simp: sv_remove_value_def)
  qed
qed

lemma call_preserves:
  assumes inv: "sv_inv cmp sz v" and ok: "sorted_call_ok sz c"
  shows "sv_exec cmp sz v c \<noteq> Trap \<and> (\<forall>v' r. sv_exec cmp sz v c = Ok (v', r) \<longrightarrow> sv_inv cmp sz v')"
proof -
  have v: "fv_inv sz v" "sorted_by cmp (fv_elems sz v)" using inv by (auto simp: sv_inv_def)
  show ?thesis
  proof (cases c)
    case (SInsert x)
    then show ?thesis using insert_correct [OF v, of x] ok
      by (auto simp: call_defs sv_inv_def split: if_splits)
  next
    case (SInsertUnique x)
    then show ?thesis using insert_unique_correct [OF v, of x] ok by (auto simp: call_defs sv_inv_def)
  next
    case (SRemove i)
    then show ?thesis using sv_remove_spec [OF v(1), of i] sorted_by_remove [OF v(2), of i]
      by (auto simp: call_defs sv_inv_def split: if_splits)
  next
    case (SRemoveValue x)
    then show ?thesis using remove_value_correct [OF v, of x]
      by (auto simp: call_defs sv_inv_def split: if_splits)
  next
    case (SContains x)
    then show ?thesis using binary_search_correct [OF v, of x] inv
      by (auto simp: call_defs sv_contains_def)
  qed (use inv in \<open>auto simp: call_defs sv_reads [OF v(1)]\<close>)
qed

end

sublocale bytes_cmp \<subseteq> calls: safe_calls "sv_exec cmp sz" "sv_inv cmp sz" "sorted_call_ok sz" for sz
  by unfold_locales (use call_preserves in blast)+

context bytes_cmp
begin

lemmas run_safe = calls.run_safe

end

interpretation wire_u64_keys: bytes_cmp wire_u64_cmp
  by (rule bytes_cmp.intro) (rule wire_u64_order.total_cmp_axioms)

section \<open>Properties\<close>

text \<open>
  Binary search on a sorted array, under any total order of the element type: it
  terminates, reads only live elements, and either finds an equal element or gives the
  position that separates the smaller from the greater ones.
\<close>

theorem sorted_vec_search:
  assumes "total_cmp cmp" and "fv_inv sz v" and "sorted_by cmp (fv_elems sz v)"
  shows "\<exists>r. sv_binary_search cmp sz v t = Ok r \<and>
    (case r of
       Found i \<Rightarrow> i < length (fv_elems sz v) \<and> cmp (fv_elems sz v ! i) t = Equal
     | Insert_at i \<Rightarrow> i \<le> length (fv_elems sz v) \<and>
         (\<forall>x \<in> set (take i (fv_elems sz v)). cmp x t = Less) \<and>
         (\<forall>x \<in> set (drop i (fv_elems sz v)). cmp x t = Greater))"
  using bytes_cmp.binary_search_correct [OF bytes_cmp.intro, OF assms, of t]
  unfolding search_spec_def .

theorem sorted_vec_search_witness:
  "\<exists>r. sv_binary_search wire_u64_cmp 8 \<lparr>vdata = [1, 0, 0, 0, 7, 0, 0, 0, 0, 0, 0, 0], vcap = 1\<rparr>
     [7, 0, 0, 0, 0, 0, 0, 0] = Ok r"
proof -
  let ?v = "\<lparr>vdata = [1, 0, 0, 0, 7, 0, 0, 0, 0, 0, 0, 0], vcap = 1\<rparr>"
  have "fv_inv 8 ?v"
    by (simp add: fv_inv_def account_sized_def slot_room_def u32_at_def bslice_def)
  moreover have "sorted_by wire_u64_cmp (fv_elems 8 ?v)"
    by (simp add: sorted_by_def fv_elems_def contents_def u32_at_def bslice_def)
  ultimately show ?thesis
    using sorted_vec_search [OF wire_u64_order.total_cmp_axioms, of 8 ?v] by blast
qed

text \<open>
  \<open>SortedVec\<close> stays sorted. On every buffer the constructor accepts whose live elements
  are sorted (in particular an empty one), any sequence of inserts, removals and lookups
  leaves them sorted, and no call reads or writes outside the slice.
\<close>

theorem sorted_vec_stays_sorted:
  assumes "total_cmp cmp" and "sv_from_bytes sz d = Ok v" and "0 < sz" and "account_sized d"
    and "sorted_by cmp (fv_elems sz v)" and "list_all (sorted_call_ok sz) cs"
  shows "sorted_by cmp (fv_elems sz (fst (run_calls (sv_exec cmp sz) v cs))) \<and>
    Trap \<notin> set (snd (run_calls (sv_exec cmp sz) v cs))"
proof -
  have "sv_inv cmp sz v" using sv_from_bytes_inv [OF assms(2-4)] assms(5) by (simp add: sv_inv_def)
  from bytes_cmp.run_safe [OF bytes_cmp.intro [OF assms(1)] this assms(6)] show ?thesis by (simp add: sv_inv_def)
qed

theorem sorted_vec_stays_sorted_witness:
  "Trap \<notin> set (snd (run_calls (sv_exec wire_u64_cmp 8) \<lparr>vdata = [0, 0, 0, 0, 0, 0, 0, 0, 0, 0, 0, 0, 0, 0, 0, 0, 0, 0, 0, 0], vcap = 2\<rparr>
     [SInsert [9, 0, 0, 0, 0, 0, 0, 0], SInsert [3, 0, 0, 0, 0, 0, 0, 0], SRemove 0, SMax]))"
proof -
  let ?v = "\<lparr>vdata = [0, 0, 0, 0, 0, 0, 0, 0, 0, 0, 0, 0, 0, 0, 0, 0, 0, 0, 0, 0], vcap = 2\<rparr>"
  have "sv_from_bytes 8 [0, 0, 0, 0, 0, 0, 0, 0, 0, 0, 0, 0, 0, 0, 0, 0, 0, 0, 0, 0] = Ok ?v"
    by (simp add: sv_from_bytes_def vec_header_def u32_at_def bslice_def)
  from sorted_vec_stays_sorted [OF wire_u64_order.total_cmp_axioms this,
      of "[SInsert [9, 0, 0, 0, 0, 0, 0, 0], SInsert [3, 0, 0, 0, 0, 0, 0, 0], SRemove 0, SMax]"]
  show ?thesis
    by (simp add: account_sized_def sorted_by_def fv_elems_def u32_at_def bslice_def del: sv_exec.simps run_calls.simps)
qed

text \<open>
  \<open>insert\<close> on a sorted array that is not full adds exactly the given element, at the
  index it returns, and keeps the order; on a full array it is refused.
\<close>

theorem sorted_vec_insert:
  assumes "total_cmp cmp" and "fv_inv sz v" and "sorted_by cmp (fv_elems sz v)" and "length x = sz"
  shows "if length (fv_elems sz v) < vcap v
    then \<exists>v' i. sv_insert cmp sz v x = Ok (v', i) \<and> sorted_by cmp (fv_elems sz v') \<and>
      mset (fv_elems sz v') = add_mset x (mset (fv_elems sz v)) \<and> fv_elems sz v' ! i = x
    else sv_insert cmp sz v x = Err AccountDataTooSmall"
  using bytes_cmp.insert_correct [OF bytes_cmp.intro, OF assms]
  by (auto simp: insert_at_nth split: if_splits simp del: length_fv_elems)

theorem sorted_vec_insert_witness:
  "sv_insert wire_u64_cmp 8 \<lparr>vdata = [1, 0, 0, 0, 7, 0, 0, 0, 0, 0, 0, 0], vcap = 1\<rparr>
     [5, 0, 0, 0, 0, 0, 0, 0] = Err AccountDataTooSmall"
proof -
  let ?v = "\<lparr>vdata = [1, 0, 0, 0, 7, 0, 0, 0, 0, 0, 0, 0], vcap = 1\<rparr>"
  have "fv_inv 8 ?v"
    by (simp add: fv_inv_def account_sized_def slot_room_def u32_at_def bslice_def)
  moreover have "sorted_by wire_u64_cmp (fv_elems 8 ?v)"
    by (simp add: sorted_by_def fv_elems_def contents_def u32_at_def bslice_def)
  ultimately show ?thesis
    using sorted_vec_insert [OF wire_u64_order.total_cmp_axioms, of 8 ?v "[5, 0, 0, 0, 0, 0, 0, 0]"]
    by (simp add: u32_at_def bslice_def)
qed

end
