(* ===== verification/PackedMap.thy ===== *)
theory PackedMap imports FixedVec "HOL-Library.Multiset" begin

text \<open>
  hopper-core/src/collections/packed_map.rs: the unsorted key-value registry
  \<open>[count: u32][K V][K V]...\<close>. \<open>ks\<close> and \<open>vs\<close> are \<^verbatim>\<open>K::SIZE\<close> and \<^verbatim>\<open>V::SIZE\<close>, \<open>keq\<close> is the
  key type's \<^verbatim>\<open>PartialEq\<close>. Shown: for key types compared by their bytes (wire integers,
  addresses), a map whose keys are distinct refines a finite map of bounded size, call by
  call; the slots behave like FixedVec's, from which the lemmas come.
\<close>

definition map_header :: nat where "map_header = 4"

definition pm_entry_size :: "nat \<Rightarrow> nat \<Rightarrow> nat" where
  "pm_entry_size ks vs = ks + vs"

definition pm_from_bytes :: "nat \<Rightarrow> nat \<Rightarrow> bytes \<Rightarrow> view outcome" where
  "pm_from_bytes ks vs d =
     fail_if (length d < map_header) AccountDataTooSmall
       (let capacity = (length d - map_header) div pm_entry_size ks vs in
        obind (rd_u32 d 0) (\<lambda>len.
        fail_if (len > capacity) InvalidAccountData
          (Ok \<lparr>vdata = d, vcap = capacity\<rparr>)))"

definition pm_len :: "view \<Rightarrow> nat outcome" where
  "pm_len v = rd_u32 (vdata v) 0"

definition pm_capacity :: "view \<Rightarrow> nat" where
  "pm_capacity v = vcap v"

definition pm_is_empty :: "view \<Rightarrow> bool outcome" where
  "pm_is_empty v = obind (pm_len v) (\<lambda>len. Ok (len = 0))"

definition pm_is_full :: "view \<Rightarrow> bool outcome" where
  "pm_is_full v = obind (pm_len v) (\<lambda>len. Ok (pm_capacity v \<le> len))"

definition pm_set_len :: "view \<Rightarrow> nat \<Rightarrow> view outcome" where
  "pm_set_len v n = obind (wr_u32 (vdata v) 0 n) (\<lambda>d. Ok (v\<lparr>vdata := d\<rparr>))"

definition pm_entry_offset :: "nat \<Rightarrow> nat \<Rightarrow> nat \<Rightarrow> nat" where
  "pm_entry_offset ks vs index = map_header + index * (ks + vs)"

definition pm_read_key :: "nat \<Rightarrow> nat \<Rightarrow> view \<Rightarrow> nat \<Rightarrow> bytes outcome" where
  "pm_read_key ks vs v index = rd (vdata v) (pm_entry_offset ks vs index) ks"

definition pm_read_value :: "nat \<Rightarrow> nat \<Rightarrow> view \<Rightarrow> nat \<Rightarrow> bytes outcome" where
  "pm_read_value ks vs v index = rd (vdata v) (pm_entry_offset ks vs index + ks) vs"

definition pm_write_key :: "nat \<Rightarrow> nat \<Rightarrow> view \<Rightarrow> nat \<Rightarrow> bytes \<Rightarrow> view outcome" where
  "pm_write_key ks vs v index key =
     obind (wr (vdata v) (pm_entry_offset ks vs index) key) (\<lambda>d. Ok (v\<lparr>vdata := d\<rparr>))"

definition pm_write_value :: "nat \<Rightarrow> nat \<Rightarrow> view \<Rightarrow> nat \<Rightarrow> bytes \<Rightarrow> view outcome" where
  "pm_write_value ks vs v index x =
     obind (wr (vdata v) (pm_entry_offset ks vs index + ks) x) (\<lambda>d. Ok (v\<lparr>vdata := d\<rparr>))"

text \<open>The scan \<^verbatim>\<open>while i < len\<close>; the last argument is \<open>len - i\<close>.\<close>

fun pm_find_loop :: "(bytes \<Rightarrow> bytes \<Rightarrow> bool) \<Rightarrow> nat \<Rightarrow> nat \<Rightarrow> view \<Rightarrow> bytes \<Rightarrow> nat \<Rightarrow> nat \<Rightarrow> nat option outcome" where
  "pm_find_loop keq ks vs v key i 0 = Ok None"
| "pm_find_loop keq ks vs v key i (Suc left) =
     obind (pm_read_key ks vs v i) (\<lambda>k.
     if keq k key then Ok (Some i) else pm_find_loop keq ks vs v key (Suc i) left)"

definition pm_find :: "(bytes \<Rightarrow> bytes \<Rightarrow> bool) \<Rightarrow> nat \<Rightarrow> nat \<Rightarrow> view \<Rightarrow> bytes \<Rightarrow> nat option outcome" where
  "pm_find keq ks vs v key = obind (pm_len v) (\<lambda>len. pm_find_loop keq ks vs v key 0 len)"

definition pm_get :: "(bytes \<Rightarrow> bytes \<Rightarrow> bool) \<Rightarrow> nat \<Rightarrow> nat \<Rightarrow> view \<Rightarrow> bytes \<Rightarrow> bytes outcome" where
  "pm_get keq ks vs v key =
     obind (pm_find keq ks vs v key) (\<lambda>r.
       case r of Some idx \<Rightarrow> pm_read_value ks vs v idx | None \<Rightarrow> Err InvalidArgument)"

definition pm_get_value_offset :: "(bytes \<Rightarrow> bytes \<Rightarrow> bool) \<Rightarrow> nat \<Rightarrow> nat \<Rightarrow> view \<Rightarrow> bytes \<Rightarrow> nat outcome" where
  "pm_get_value_offset keq ks vs v key =
     obind (pm_find keq ks vs v key) (\<lambda>r.
       case r of Some idx \<Rightarrow> Ok (pm_entry_offset ks vs idx + ks) | None \<Rightarrow> Err InvalidArgument)"

definition pm_insert :: "(bytes \<Rightarrow> bytes \<Rightarrow> bool) \<Rightarrow> nat \<Rightarrow> nat \<Rightarrow> view \<Rightarrow> bytes \<Rightarrow> bytes \<Rightarrow> (view \<times> bool) outcome" where
  "pm_insert keq ks vs v key x =
     obind (pm_find keq ks vs v key) (\<lambda>r.
       case r of
         Some idx \<Rightarrow> obind (pm_write_value ks vs v idx x) (\<lambda>v'. Ok (v', True))
       | None \<Rightarrow>
           obind (pm_len v) (\<lambda>len.
           fail_if (len \<ge> pm_capacity v) AccountDataTooSmall
             (obind (pm_write_key ks vs v len key) (\<lambda>v1.
              obind (pm_write_value ks vs v1 len x) (\<lambda>v2.
              obind (pm_set_len v2 (len + 1)) (\<lambda>v3. Ok (v3, False)))))))"

definition pm_remove :: "(bytes \<Rightarrow> bytes \<Rightarrow> bool) \<Rightarrow> nat \<Rightarrow> nat \<Rightarrow> view \<Rightarrow> bytes \<Rightarrow> (view \<times> bytes) outcome" where
  "pm_remove keq ks vs v key =
     obind (pm_find keq ks vs v key) (\<lambda>r.
     obind (ok_or r InvalidArgument) (\<lambda>idx.
     obind (pm_read_value ks vs v idx) (\<lambda>removed.
     obind (pm_len v) (\<lambda>len.
     let last = len - 1 in
     obind (if idx \<noteq> last then
              obind (pm_read_key ks vs v last) (\<lambda>last_key.
              obind (pm_read_value ks vs v last) (\<lambda>last_value.
              obind (pm_write_key ks vs v idx last_key) (\<lambda>v1.
              pm_write_value ks vs v1 idx last_value)))
            else Ok v) (\<lambda>v1.
     obind (zero_bytes (vdata v1) (pm_entry_offset ks vs last) (pm_entry_size ks vs)) (\<lambda>d.
     obind (pm_set_len (v1\<lparr>vdata := d\<rparr>) last) (\<lambda>v2. Ok (v2, removed))))))))"

definition pm_contains :: "(bytes \<Rightarrow> bytes \<Rightarrow> bool) \<Rightarrow> nat \<Rightarrow> nat \<Rightarrow> view \<Rightarrow> bytes \<Rightarrow> bool outcome" where
  "pm_contains keq ks vs v key = obind (pm_find keq ks vs v key) (\<lambda>r. Ok (r \<noteq> None))"

definition pm_clear :: "nat \<Rightarrow> nat \<Rightarrow> view \<Rightarrow> view outcome" where
  "pm_clear ks vs v =
     obind (pm_len v) (\<lambda>len.
     obind (zero_bytes (vdata v) map_header (pm_entry_offset ks vs len - map_header)) (\<lambda>d.
     pm_set_len (v\<lparr>vdata := d\<rparr>) 0))"

text \<open>\<^verbatim>\<open>PackedMapIter\<close>: the index and the length captured when the iterator was made.\<close>

record map_iter =
  it_index :: nat
  it_len :: nat

definition pm_iter :: "view \<Rightarrow> map_iter outcome" where
  "pm_iter v = obind (pm_len v) (\<lambda>len. Ok \<lparr>it_index = 0, it_len = len\<rparr>)"

definition pm_iter_next :: "nat \<Rightarrow> nat \<Rightarrow> view \<Rightarrow> map_iter \<Rightarrow> (map_iter \<times> (bytes \<times> bytes) option) outcome" where
  "pm_iter_next ks vs v it =
     (if it_index it \<ge> it_len it then Ok (it, None)
      else
        obind (pm_read_key ks vs v (it_index it)) (\<lambda>key.
        obind (pm_read_value ks vs v (it_index it)) (\<lambda>x.
        Ok (it\<lparr>it_index := it_index it + 1\<rparr>, Some (key, x)))))"

section \<open>In terms of FixedVec\<close>

lemma pm_from_bytes_inv:
  "pm_from_bytes ks vs d = Ok v \<Longrightarrow> 0 < ks + vs \<Longrightarrow> account_sized d \<Longrightarrow> fv_inv (ks + vs) v \<and> vdata v = d"
  using fv_from_bytes_inv [of "ks + vs" d v]
  by (simp add: pm_from_bytes_def fv_from_bytes_def map_header_def vec_header_def pm_entry_size_def)

lemma pm_len_eq [simp]: "fv_inv sz v \<Longrightarrow> pm_len v = Ok (length (fv_elems sz v))"
  using fv_len_eq [of sz v] by (simp add: pm_len_def fv_len_def)

lemma pm_set_len_fv: "pm_set_len = fv_set_len"
  by (intro ext) (simp add: pm_set_len_def fv_set_len_def)

lemma elem_room:
  assumes "fv_inv sz v" and "i < length (fv_elems sz v)"
  shows "i < slot_room 4 sz (vdata v)" "fv_elems sz v ! i = slot_get 4 sz (vdata v) i"
    "length (fv_elems sz v ! i) = sz"
proof -
  show i: "i < slot_room 4 sz (vdata v)" using fv_invD [OF assms(1)] assms(2) by linarith
  show e: "fv_elems sz v ! i = slot_get 4 sz (vdata v) i" using assms(2) by (simp add: fv_elems_def contents_nth)
  show "length (fv_elems sz v ! i) = sz" unfolding e using i by simp
qed

lemma read_parts:
  assumes inv: "fv_inv (ks + vs) v" and i: "i < length (fv_elems (ks + vs) v)"
  shows "pm_read_key ks vs v i = Ok (take ks (fv_elems (ks + vs) v ! i))"
    and "pm_read_value ks vs v i = Ok (drop ks (fv_elems (ks + vs) v ! i))"
proof -
  let ?o = "4 + i * (ks + vs)"
  note E = elem_room [OF inv i]
  have b: "?o + (ks + vs) \<le> length (vdata v)" using slot_in_bounds [OF E(1)] .
  have "bslice ?o ks (vdata v) = bslice 0 ks (bslice ?o (ks + vs) (vdata v))"
    using b by (simp add: bslice_bslice)
  moreover have "bslice (?o + ks) vs (vdata v) = bslice ks vs (bslice ?o (ks + vs) (vdata v))"
    by (simp add: bslice_bslice)
  ultimately show "pm_read_key ks vs v i = Ok (take ks (fv_elems (ks + vs) v ! i))"
    and "pm_read_value ks vs v i = Ok (drop ks (fv_elems (ks + vs) v ! i))"
    using b E(3) by (simp_all add: pm_read_key_def pm_read_value_def pm_entry_offset_def map_header_def
        E(2) slot_get_def bslice_take_drop)
qed

lemma write_value_fv:
  assumes inv: "fv_inv (ks + vs) v" and i: "i < length (fv_elems (ks + vs) v)" and x: "length x = vs"
  shows "pm_write_value ks vs v i x = fv_set (ks + vs) v i (take ks (fv_elems (ks + vs) v ! i) @ x)"
proof -
  let ?o = "4 + i * (ks + vs)" and ?s = "fv_elems (ks + vs) v ! i"
  note E = elem_room [OF inv i]
  have b: "?o + (ks + vs) \<le> length (vdata v)" using slot_in_bounds [OF E(1)] .
  have "bsplice (?o + ks) x (vdata v) = bsplice ?o (bsplice ks x (bslice ?o (ks + vs) (vdata v))) (vdata v)"
    by (rule bsplice_within) (use b x in auto)
  also have "bslice ?o (ks + vs) (vdata v) = ?s" by (simp add: E(2) slot_get_def)
  also have "bsplice ks x ?s = take ks ?s @ x" by (rule bsplice_tail) (simp add: E(3) x)
  finally have "bsplice (?o + ks) x (vdata v) = bsplice ?o (take ks ?s @ x) (vdata v)" .
  then show ?thesis
    using b x i inv E(3) by (simp add: pm_write_value_def pm_entry_offset_def map_header_def fv_set_def fv_defs
        del: length_fv_elems)
qed

lemma append_fv:
  assumes inv: "fv_inv (ks + vs) v" and room: "length (fv_elems (ks + vs) v) < vcap v"
    and k: "length k = ks" and x: "length x = vs"
  shows "obind (pm_write_key ks vs v (length (fv_elems (ks + vs) v)) k) (\<lambda>v1.
      obind (pm_write_value ks vs v1 (length (fv_elems (ks + vs) v)) x) (\<lambda>v2.
      pm_set_len v2 (length (fv_elems (ks + vs) v) + 1))) = fv_push (ks + vs) v (k @ x)"
proof -
  let ?n = "length (fv_elems (ks + vs) v)"
  let ?o = "4 + ?n * (ks + vs)"
  have "?n < slot_room 4 (ks + vs) (vdata v)" using fv_invD [OF inv] room by linarith
  then have b: "?o + (ks + vs) \<le> length (vdata v)" by (rule slot_in_bounds)
  have "bsplice (?o + ks) x (bsplice ?o k (vdata v)) = bsplice ?o (k @ x) (vdata v)"
    using bsplice_append [of ?o k x "vdata v"] b k x by simp
  then show ?thesis
    using b k x room inv by (simp add: pm_write_key_def pm_write_value_def pm_entry_offset_def map_header_def
        fv_push_def fv_defs pm_set_len_fv del: length_fv_elems)
qed

lemma swap_fv:
  assumes inv: "fv_inv (ks + vs) v" and i: "i < length (fv_elems (ks + vs) v)"
  defines "n \<equiv> length (fv_elems (ks + vs) v)"
  shows "obind (if i \<noteq> n - 1 then
              obind (pm_read_key ks vs v (n - 1)) (\<lambda>last_key.
              obind (pm_read_value ks vs v (n - 1)) (\<lambda>last_value.
              obind (pm_write_key ks vs v i last_key) (\<lambda>v1.
              pm_write_value ks vs v1 i last_value)))
            else Ok v) (\<lambda>v1.
     obind (zero_bytes (vdata v1) (pm_entry_offset ks vs (n - 1)) (pm_entry_size ks vs)) (\<lambda>d.
     obind (pm_set_len (v1\<lparr>vdata := d\<rparr>) (n - 1)) (\<lambda>v2. Ok (v2, drop ks (fv_elems (ks + vs) v ! i))))) =
    obind (fv_swap_remove (ks + vs) v i) (\<lambda>(v', s). Ok (v', drop ks s))"
proof -
  let ?sz = "ks + vs" and ?m = "vdata v"
  let ?o = "4 + i * ?sz"
  have last: "n - 1 < length (fv_elems ?sz v)" using i by (simp add: n_def)
  note I = elem_room [OF inv i] and N = elem_room [OF inv last]
  have b: "?o + ?sz \<le> length ?m" using slot_in_bounds [OF I(1)] .
  let ?l = "fv_elems ?sz v ! (n - 1)"
  have "bsplice (?o + ks) (drop ks ?l) (bsplice ?o (take ks ?l) ?m) = bsplice ?o ?l ?m"
    using bsplice_append [of ?o "take ks ?l" "drop ks ?l" ?m] b N(3) by simp
  then have move: "obind (pm_write_key ks vs v i (take ks ?l)) (\<lambda>v1. pm_write_value ks vs v1 i (drop ks ?l)) =
      Ok (v\<lparr>vdata := slot_put 4 ?sz ?m i ?l\<rparr>)"
    using b N(3) by (simp add: pm_write_key_def pm_write_value_def pm_entry_offset_def map_header_def
        slot_put_def)
  have copy: "copy_bytes ?m (4 + i * ?sz) (4 + (n - 1) * ?sz) ?sz = Ok (slot_put 4 ?sz ?m i ?l)" if "i \<noteq> n - 1"
    using copy_slot [OF I(1) N(1) that] N(2) by simp
  have rm: "rd ?m (4 + i * ?sz) ?sz = Ok (fv_elems ?sz v ! i)" using rd_slot [OF I(1)] I(2) by simp
  show ?thesis
  proof (cases "i = n - 1")
    case True
    then show ?thesis
      using i inv rm by (simp add: fv_swap_remove_def fv_defs pm_entry_offset_def pm_entry_size_def
          map_header_def pm_set_len_fv n_def obind_assoc del: length_fv_elems)
  next
    case False
    then show ?thesis
      using i inv rm copy move read_parts [OF inv last]
      by (simp add: fv_swap_remove_def fv_defs pm_entry_offset_def pm_entry_size_def
          map_header_def pm_set_len_fv n_def [symmetric] del: length_fv_elems)
  qed
qed

section \<open>The finite map\<close>

definition pm_entries :: "nat \<Rightarrow> nat \<Rightarrow> view \<Rightarrow> (bytes \<times> bytes) list" where
  "pm_entries ks vs v = map (\<lambda>s. (take ks s, drop ks s)) (fv_elems (ks + vs) v)"

definition pm_inv :: "nat \<Rightarrow> nat \<Rightarrow> view \<Rightarrow> bool" where
  "pm_inv ks vs v \<longleftrightarrow> fv_inv (ks + vs) v \<and> distinct (map fst (pm_entries ks vs v))"

lemma length_pm_entries [simp]: "length (pm_entries ks vs v) = length (fv_elems (ks + vs) v)"
  by (simp add: pm_entries_def del: length_fv_elems)

lemma entries_nth:
  "i < length (fv_elems (ks + vs) v) \<Longrightarrow>
   pm_entries ks vs v ! i = (take ks (fv_elems (ks + vs) v ! i), drop ks (fv_elems (ks + vs) v ! i))"
  by (simp add: pm_entries_def del: length_fv_elems)

lemma find_loop_correct:
  assumes inv: "fv_inv (ks + vs) v" and "i + n = length (pm_entries ks vs v)"
  shows "\<exists>r. pm_find_loop (=) ks vs v key i n = Ok r \<and>
    (case r of
       Some j \<Rightarrow> j < length (pm_entries ks vs v) \<and> fst (pm_entries ks vs v ! j) = key
     | None \<Rightarrow> \<forall>j. i \<le> j \<and> j < length (pm_entries ks vs v) \<longrightarrow> fst (pm_entries ks vs v ! j) \<noteq> key)"
  using assms(2)
proof (induction n arbitrary: i)
  case 0
  then show ?case by auto
next
  case (Suc n)
  have i: "i < length (fv_elems (ks + vs) v)" using Suc.prems by (simp del: length_fv_elems)
  have key: "pm_read_key ks vs v i = Ok (fst (pm_entries ks vs v ! i))"
    using read_parts(1) [OF inv i] entries_nth [OF i] by simp
  show ?case
  proof (cases "fst (pm_entries ks vs v ! i) = key")
    case True
    then show ?thesis using key Suc.prems by auto
  next
    case False
    from Suc.IH [of "Suc i"] Suc.prems obtain r where r: "pm_find_loop (=) ks vs v key (Suc i) n = Ok r"
      "case r of Some j \<Rightarrow> j < length (pm_entries ks vs v) \<and> fst (pm_entries ks vs v ! j) = key
       | None \<Rightarrow> \<forall>j. Suc i \<le> j \<and> j < length (pm_entries ks vs v) \<longrightarrow> fst (pm_entries ks vs v ! j) \<noteq> key"
      by (auto simp del: length_pm_entries)
    have "pm_find_loop (=) ks vs v key i (Suc n) = Ok r" using False key r(1) by simp
    moreover have "i = j \<or> Suc i \<le> j" if "i \<le> j" for j using that by linarith
    ultimately show ?thesis using r(2) False by (cases r) (auto simp del: length_pm_entries)
  qed
qed

lemma find_correct:
  assumes "fv_inv (ks + vs) v"
  shows "(\<exists>j. pm_find (=) ks vs v key = Ok (Some j) \<and> j < length (fv_elems (ks + vs) v) \<and>
      fst (pm_entries ks vs v ! j) = key) \<or>
    (pm_find (=) ks vs v key = Ok None \<and> key \<notin> fst ` set (pm_entries ks vs v))"
proof -
  from find_loop_correct [OF assms, of 0 "length (fv_elems (ks + vs) v)" key]
  obtain r where r: "pm_find_loop (=) ks vs v key 0 (length (fv_elems (ks + vs) v)) = Ok r"
    "case r of Some j \<Rightarrow> j < length (pm_entries ks vs v) \<and> fst (pm_entries ks vs v ! j) = key
     | None \<Rightarrow> \<forall>j. 0 \<le> j \<and> j < length (pm_entries ks vs v) \<longrightarrow> fst (pm_entries ks vs v ! j) \<noteq> key"
    by auto
  have "pm_find (=) ks vs v key = Ok r" using assms r(1) by (simp add: pm_find_def del: length_fv_elems)
  moreover have "key \<notin> fst ` set (pm_entries ks vs v)" if "r = None"
  proof
    assume "key \<in> fst ` set (pm_entries ks vs v)"
    then obtain j where "j < length (pm_entries ks vs v)" "fst (pm_entries ks vs v ! j) = key"
      by (metis imageE in_set_conv_nth)
    then show False using r(2) that by (simp del: length_pm_entries)
  qed
  ultimately show ?thesis using r(2) by (cases r) (auto simp del: length_fv_elems)
qed

lemma mset_swap_remove:
  assumes "i < length xs"
  shows "add_mset (xs ! i) (mset (butlast (xs[i := last xs]))) = mset xs"
proof (cases xs rule: rev_cases)
  case (snoc ys z)
  show ?thesis
  proof (cases "i = length ys")
    case True
    then show ?thesis using snoc by simp
  next
    case False
    then have "i < length ys" using assms snoc by simp
    then show ?thesis
      using snoc by (simp add: list_update_append nth_append mset_update)
  qed
qed (use assms in simp)

lemma map_of_swap_remove:
  assumes d: "distinct (map fst xs)" and i: "i < length xs"
  defines "ys \<equiv> butlast (xs[i := last xs])"
  shows "distinct (map fst ys) \<and> map_of ys = (map_of xs)(fst (xs ! i) := None)"
proof -
  have m: "mset (xs ! i # ys) = mset xs" using mset_swap_remove [OF i] by (simp add: ys_def)
  then have "mset (map fst (xs ! i # ys)) = mset (map fst xs)" by (simp only: mset_map)
  then have d': "distinct (map fst (xs ! i # ys))" using d mset_eq_imp_distinct_iff by blast
  have set: "set (xs ! i # ys) = set xs" by (metis m set_mset_mset)
  have eq: "map_of (xs ! i # ys) = map_of xs" using map_of_inject_set [OF d' d] set by blast
  obtain k y where ky: "xs ! i = (k, y)" by (cases "xs ! i")
  then have kn: "map_of ys k = None" using d' by (simp add: map_of_eq_None_iff)
  have "map_of ys = (map_of ((k, y) # ys))(k := None)" by (intro ext) (simp add: kn)
  then have "map_of ys = (map_of (xs ! i # ys))(fst (xs ! i) := None)" unfolding ky fst_conv .
  then have "map_of ys = (map_of xs)(fst (xs ! i) := None)" unfolding eq .
  moreover have "distinct (map fst ys)" using d' by simp
  ultimately show ?thesis by blast
qed

lemma map_of_append_fresh:
  "k \<notin> fst ` set xs \<Longrightarrow> map_of (xs @ [(k, x)]) = (map_of xs)(k \<mapsto> x)"
  by (simp add: map_add_upd_left domIff map_of_eq_None_iff)

lemma map_of_update_entry:
  assumes "distinct (map fst xs)" and "i < length xs" and "fst (xs ! i) = k"
  shows "map_of (xs[i := (k, x)]) = (map_of xs)(k \<mapsto> x)"
  using assms
proof (induction xs arbitrary: i)
  case (Cons p xs)
  show ?case
  proof (cases i)
    case 0
    then show ?thesis using Cons.prems by (intro ext) (cases p, auto)
  next
    case (Suc j)
    then have "k \<in> fst ` set xs" using Cons.prems by (metis imageI nth_Cons_Suc nth_mem Suc_less_eq length_Cons)
    then have "fst p \<noteq> k" using Cons.prems(1) by auto
    then show ?thesis using Cons.IH [of j] Cons.prems Suc by (intro ext) (cases p, auto)
  qed
qed simp

lemma card_dom_map_of: "distinct (map fst xs) \<Longrightarrow> card (dom (map_of xs)) = length xs"
  by (simp add: dom_map_of_conv_image_fst distinct_card [symmetric] flip: set_map)
     (metis distinct_card length_map set_map)

definition pm_map :: "nat \<Rightarrow> nat \<Rightarrow> view \<Rightarrow> bytes \<rightharpoonup> bytes" where
  "pm_map ks vs v = map_of (pm_entries ks vs v)"

lemma pm_lookup:
  assumes "pm_inv ks vs v" and "j < length (fv_elems (ks + vs) v)" and "fst (pm_entries ks vs v ! j) = k"
  shows "pm_map ks vs v k = Some (snd (pm_entries ks vs v ! j))"
proof -
  have "(k, snd (pm_entries ks vs v ! j)) \<in> set (pm_entries ks vs v)"
    using assms(2,3) by (metis length_pm_entries nth_mem prod.collapse)
  then show ?thesis using assms(1) by (simp add: pm_map_def pm_inv_def)
qed

lemma pm_card: "pm_inv ks vs v \<Longrightarrow> card (dom (pm_map ks vs v)) = length (fv_elems (ks + vs) v)"
  by (simp add: pm_map_def pm_inv_def card_dom_map_of del: length_fv_elems)

lemma pm_insert_spec:
  assumes inv: "pm_inv ks vs v" and k: "length k = ks" and x: "length x = vs"
  shows "if pm_map ks vs v k \<noteq> None \<or> length (fv_elems (ks + vs) v) < vcap v
    then \<exists>v'. pm_insert (=) ks vs v k x = Ok (v', pm_map ks vs v k \<noteq> None) \<and> pm_inv ks vs v' \<and>
      vcap v' = vcap v \<and> pm_map ks vs v' = (pm_map ks vs v)(k \<mapsto> x)
    else pm_insert (=) ks vs v k x = Err AccountDataTooSmall"
proof -
  have fi: "fv_inv (ks + vs) v" and d: "distinct (map fst (pm_entries ks vs v))"
    using inv by (auto simp: pm_inv_def)
  from find_correct [OF fi, of k] show ?thesis
  proof (elim disjE exE conjE)
    fix j assume f: "pm_find (=) ks vs v k = Ok (Some j)" "j < length (fv_elems (ks + vs) v)"
      "fst (pm_entries ks vs v ! j) = k"
    let ?s = "take ks (fv_elems (ks + vs) v ! j) @ x"
    have tk: "take ks (fv_elems (ks + vs) v ! j) = k" using f entries_nth [OF f(2)] by simp
    have "length ?s = ks + vs" using tk k x by simp
    from fv_set_spec [OF fi f(2) this] obtain v' where v': "fv_set (ks + vs) v j ?s = Ok v'"
      "fv_inv (ks + vs) v'" "vcap v' = vcap v" "fv_elems (ks + vs) v' = (fv_elems (ks + vs) v)[j := ?s]"
      by blast
    have e: "pm_entries ks vs v' = (pm_entries ks vs v)[j := (k, x)]"
      using tk k by (simp add: pm_entries_def v'(4) map_update del: length_fv_elems)
    have "pm_insert (=) ks vs v k x = Ok (v', True)"
      using f write_value_fv [OF fi f(2) x] v'(1) by (simp add: pm_insert_def)
    moreover have "pm_inv ks vs v'"
    proof -
      have "map fst (pm_entries ks vs v') = map fst (pm_entries ks vs v)"
        unfolding e map_update fst_conv using f(2,3) by (metis length_pm_entries list_update_id nth_map)
      then show ?thesis using v'(2) d by (simp add: pm_inv_def)
    qed
    moreover have "pm_map ks vs v' = (pm_map ks vs v)(k \<mapsto> x)"
      using map_of_update_entry [OF d, of j k x] f by (simp add: pm_map_def e del: length_fv_elems)
    ultimately show ?thesis using v'(3) pm_lookup [OF inv f(2,3)] by auto
  next
    assume f: "pm_find (=) ks vs v k = Ok None" "k \<notin> fst ` set (pm_entries ks vs v)"
    then have none: "pm_map ks vs v k = None" by (simp add: pm_map_def map_of_eq_None_iff)
    show ?thesis
    proof (cases "length (fv_elems (ks + vs) v) < vcap v")
      case False
      then show ?thesis using f(1) fi none
        by (simp add: pm_insert_def pm_capacity_def del: length_fv_elems)
    next
      case True
      have "length (k @ x) = ks + vs" using k x by simp
      from fv_push_room [OF fi this True] obtain v' where v': "fv_push (ks + vs) v (k @ x) = Ok v'"
        "fv_inv (ks + vs) v'" "vcap v' = vcap v" "fv_elems (ks + vs) v' = fv_elems (ks + vs) v @ [k @ x]"
        by blast
      have e: "pm_entries ks vs v' = pm_entries ks vs v @ [(k, x)]" using k by (simp add: pm_entries_def v'(4))
      have "pm_insert (=) ks vs v k x = Ok (v', False)"
        using f(1) fi True append_fv [OF fi True k x] v'(1)
        by (auto simp: pm_insert_def pm_capacity_def obind_Ok_iff simp del: length_fv_elems)
      moreover have "pm_inv ks vs v'" using v'(2) d f(2) by (simp add: pm_inv_def e)
      moreover have "pm_map ks vs v' = (pm_map ks vs v)(k \<mapsto> x)"
        using map_of_append_fresh [OF f(2)] by (simp add: pm_map_def e)
      ultimately show ?thesis using v'(3) none True by auto
    qed
  qed
qed

lemma pm_remove_spec:
  assumes inv: "pm_inv ks vs v"
  shows "case pm_map ks vs v k of
      Some x \<Rightarrow> \<exists>v'. pm_remove (=) ks vs v k = Ok (v', x) \<and> pm_inv ks vs v' \<and> vcap v' = vcap v \<and>
        pm_map ks vs v' = (pm_map ks vs v)(k := None)
    | None \<Rightarrow> pm_remove (=) ks vs v k = Err InvalidArgument"
proof -
  have fi: "fv_inv (ks + vs) v" and d: "distinct (map fst (pm_entries ks vs v))"
    using inv by (auto simp: pm_inv_def)
  from find_correct [OF fi, of k] show ?thesis
  proof (elim disjE exE conjE)
    fix j assume f: "pm_find (=) ks vs v k = Ok (Some j)" "j < length (fv_elems (ks + vs) v)"
      "fst (pm_entries ks vs v ! j) = k"
    let ?xs = "fv_elems (ks + vs) v"
    from fv_swap_remove_spec [OF fi f(2)] obtain v' where v':
      "fv_swap_remove (ks + vs) v j = Ok (v', ?xs ! j)" "fv_inv (ks + vs) v'" "vcap v' = vcap v"
      "fv_elems (ks + vs) v' = butlast (?xs[j := last ?xs])" by blast
    have ne: "?xs \<noteq> []" using f(2) by (auto simp del: length_fv_elems)
    have e: "pm_entries ks vs v' = butlast ((pm_entries ks vs v)[j := last (pm_entries ks vs v)])"
      using ne by (simp add: pm_entries_def v'(4) map_butlast map_update last_map del: length_fv_elems)
    have "pm_remove (=) ks vs v k = Ok (v', drop ks (?xs ! j))"
      unfolding pm_remove_def f(1) obind.simps ok_or.simps read_parts(2) [OF fi f(2)]
        pm_len_eq [OF fi] Let_def swap_fv [OF fi f(2)] v'(1) by simp
    moreover have "pm_map ks vs v k = Some (drop ks (?xs ! j))"
      using pm_lookup [OF inv f(2,3)] entries_nth [OF f(2)] by simp
    moreover have "distinct (map fst (pm_entries ks vs v')) \<and> pm_map ks vs v' = (pm_map ks vs v)(k := None)"
      using map_of_swap_remove [OF d, of j] f(2,3) by (simp add: pm_map_def e del: length_fv_elems)
    ultimately show ?thesis using v' by (auto simp: pm_inv_def)
  next
    assume f: "pm_find (=) ks vs v k = Ok None" "k \<notin> fst ` set (pm_entries ks vs v)"
    then have "pm_map ks vs v k = None" by (simp add: pm_map_def map_of_eq_None_iff)
    then show ?thesis using f(1) by (simp add: pm_remove_def)
  qed
qed

lemma pm_get_spec:
  assumes inv: "pm_inv ks vs v"
  shows "pm_get (=) ks vs v k = ok_or (pm_map ks vs v k) InvalidArgument"
    and "pm_contains (=) ks vs v k = Ok (pm_map ks vs v k \<noteq> None)"
proof -
  have fi: "fv_inv (ks + vs) v" using inv by (auto simp: pm_inv_def)
  from find_correct [OF fi, of k]
  have "pm_get (=) ks vs v k = ok_or (pm_map ks vs v k) InvalidArgument \<and>
    pm_contains (=) ks vs v k = Ok (pm_map ks vs v k \<noteq> None)"
  proof (elim disjE exE conjE)
    fix j assume f: "pm_find (=) ks vs v k = Ok (Some j)" "j < length (fv_elems (ks + vs) v)"
      "fst (pm_entries ks vs v ! j) = k"
    then show ?thesis using pm_lookup [OF inv f(2,3)] entries_nth [OF f(2)] read_parts(2) [OF fi f(2)]
      by (simp add: pm_get_def pm_contains_def)
  next
    assume f: "pm_find (=) ks vs v k = Ok None" "k \<notin> fst ` set (pm_entries ks vs v)"
    then have "pm_map ks vs v k = None" by (simp add: pm_map_def map_of_eq_None_iff)
    then show ?thesis using f(1) by (simp add: pm_get_def pm_contains_def)
  qed
  then show "pm_get (=) ks vs v k = ok_or (pm_map ks vs v k) InvalidArgument"
    and "pm_contains (=) ks vs v k = Ok (pm_map ks vs v k \<noteq> None)" by auto
qed

lemma pm_clear_spec:
  assumes inv: "pm_inv ks vs v"
  shows "\<exists>v'. pm_clear ks vs v = Ok v' \<and> pm_inv ks vs v' \<and> vcap v' = vcap v \<and> pm_map ks vs v' = Map.empty"
proof -
  have fi: "fv_inv (ks + vs) v" using inv by (auto simp: pm_inv_def)
  have "pm_clear ks vs v = fv_clear (ks + vs) v"
    by (simp add: pm_clear_def fv_clear_def pm_entry_offset_def fv_element_offset_def map_header_def
        vec_header_def pm_set_len_fv pm_len_def fv_len_def)
  then show ?thesis using fv_clear_spec [OF fi] by (auto simp: pm_inv_def pm_map_def pm_entries_def)
qed

section \<open>Refinement\<close>

datatype map_call = MInsert bytes bytes | MRemove bytes | MGet bytes | MContains bytes | MLen | MClear

fun map_call_ok :: "nat \<Rightarrow> nat \<Rightarrow> map_call \<Rightarrow> bool" where
  "map_call_ok ks vs (MInsert k x) = (length k = ks \<and> length x = vs)"
| "map_call_ok ks vs c = True"

fun pm_exec :: "nat \<Rightarrow> nat \<Rightarrow> view \<Rightarrow> map_call \<Rightarrow> (view \<times> answer) outcome" where
  "pm_exec ks vs v (MInsert k x) = value_call (pm_insert (=) ks vs v k x) RBool"
| "pm_exec ks vs v (MRemove k) = value_call (pm_remove (=) ks vs v k) RBytes"
| "pm_exec ks vs v (MGet k) = read_call v (pm_get (=) ks vs v k) RBytes"
| "pm_exec ks vs v (MContains k) = read_call v (pm_contains (=) ks vs v k) RBool"
| "pm_exec ks vs v MLen = read_call v (pm_len v) RNum"
| "pm_exec ks vs v MClear = unit_call (pm_clear ks vs v)"

fun bounded_map_exec ::
  "nat \<times> (bytes \<rightharpoonup> bytes) \<Rightarrow> map_call \<Rightarrow> ((nat \<times> (bytes \<rightharpoonup> bytes)) \<times> answer) outcome" where
  "bounded_map_exec (cap, m) (MInsert k x) =
     (if m k \<noteq> None \<or> card (dom m) < cap then Ok ((cap, m(k \<mapsto> x)), RBool (m k \<noteq> None))
      else Err AccountDataTooSmall)"
| "bounded_map_exec (cap, m) (MRemove k) =
     (case m k of Some x \<Rightarrow> Ok ((cap, m(k := None)), RBytes x) | None \<Rightarrow> Err InvalidArgument)"
| "bounded_map_exec (cap, m) (MGet k) =
     (case m k of Some x \<Rightarrow> Ok ((cap, m), RBytes x) | None \<Rightarrow> Err InvalidArgument)"
| "bounded_map_exec (cap, m) (MContains k) = Ok ((cap, m), RBool (m k \<noteq> None))"
| "bounded_map_exec (cap, m) MLen = Ok ((cap, m), RNum (card (dom m)))"
| "bounded_map_exec (cap, m) MClear = Ok ((cap, Map.empty), RUnit)"

definition pm_abs :: "nat \<Rightarrow> nat \<Rightarrow> view \<Rightarrow> nat \<times> (bytes \<rightharpoonup> bytes)" where
  "pm_abs ks vs v = (vcap v, pm_map ks vs v)"

lemma pm_exec_step:
  assumes inv: "pm_inv ks vs v" and ok: "map_call_ok ks vs c"
  shows "map_state (pm_abs ks vs) (pm_exec ks vs v c) = bounded_map_exec (pm_abs ks vs v) c \<and>
    (\<forall>v' r. pm_exec ks vs v c = Ok (v', r) \<longrightarrow> pm_inv ks vs v')"
proof (cases c)
  case (MInsert k x)
  then show ?thesis using pm_insert_spec [OF inv, of k x] ok pm_card [OF inv]
    by (auto simp: call_defs pm_abs_def split: if_splits)
next
  case (MRemove k)
  then show ?thesis using pm_remove_spec [OF inv, of k]
    by (auto simp: call_defs pm_abs_def split: option.splits)
next
  case (MGet k)
  then show ?thesis using inv by (cases "pm_map ks vs v k") (auto simp: call_defs pm_abs_def pm_get_spec)
next
  case (MContains k)
  then show ?thesis using inv by (auto simp: call_defs pm_abs_def pm_get_spec)
next
  case MLen
  then show ?thesis using inv pm_card [OF inv]
    by (auto simp: call_defs pm_abs_def pm_inv_def simp del: length_fv_elems)
next
  case MClear
  then show ?thesis using pm_clear_spec [OF inv] by (auto simp: call_defs pm_abs_def)
qed

interpretation pm_sim: simulation "pm_exec ks vs" bounded_map_exec "pm_abs ks vs" "pm_inv ks vs"
    "map_call_ok ks vs" for ks vs
proof
  fix v c v' r
  assume A: "pm_inv ks vs v" "map_call_ok ks vs c"
  show "map_state (pm_abs ks vs) (pm_exec ks vs v c) = bounded_map_exec (pm_abs ks vs v) c"
    and "pm_exec ks vs v c = Ok (v', r) \<Longrightarrow> pm_inv ks vs v'"
    using pm_exec_step [OF A] by blast+
next
  fix a c
  show "bounded_map_exec a c \<noteq> Trap"
    by (cases a; cases c) (auto split: option.splits)
qed

section \<open>Properties\<close>

text \<open>
  C36: \<open>PackedMap\<close> is a finite map of bounded size. For every buffer the constructor accepts
  whose keys are distinct (a cleared or freshly zeroed one in particular), every sequence
  of inserts, removals and lookups answers as the abstract map does (insert reports
  whether it replaced, a full map refuses only new keys, swap-with-last removal loses
  nothing else), and no call leaves the slice.
\<close>

theorem packed_map_refines_map:
  assumes "pm_from_bytes ks vs d = Ok v" and "0 < ks + vs" and "account_sized d"
    and "distinct (map fst (pm_entries ks vs v))" and "list_all (map_call_ok ks vs) cs"
  shows "pm_abs ks vs (fst (run_calls (pm_exec ks vs) v cs)) =
      fst (run_calls bounded_map_exec (pm_abs ks vs v) cs) \<and>
    snd (run_calls (pm_exec ks vs) v cs) = snd (run_calls bounded_map_exec (pm_abs ks vs v) cs) \<and>
    Trap \<notin> set (snd (run_calls (pm_exec ks vs) v cs))"
proof -
  have inv: "pm_inv ks vs v" using pm_from_bytes_inv [OF assms(1-3)] assms(4) by (simp add: pm_inv_def)
  then show ?thesis
    using pm_sim.run_refines [OF inv assms(5)] pm_sim.safe.run_safe [OF inv assms(5)] by blast
qed

theorem packed_map_refines_map_witness:
  "snd (run_calls (pm_exec 1 1) \<lparr>vdata = [1, 0, 0, 0, 7, 8, 0, 0], vcap = 2\<rparr>
     [MInsert [7] [9], MInsert [5] [6], MInsert [4] [4], MRemove [7], MGet [7], MGet [5]]) =
   [Ok (RBool True), Ok (RBool False), Err AccountDataTooSmall, Ok (RBytes [9]), Err InvalidArgument,
    Ok (RBytes [6])]"
proof -
  let ?v = "\<lparr>vdata = [1, 0, 0, 0, 7, 8, 0, 0], vcap = 2\<rparr>"
  let ?cs = "[MInsert [7] [9], MInsert [5] [6], MInsert [4] [4], MRemove [7], MGet [7], MGet [5]]"
  have ent: "pm_entries 1 1 ?v = [([7], [8])]"
    by (simp add: pm_entries_def fv_elems_def contents_def slot_get_def u32_at_def bslice_def)
  have "pm_from_bytes 1 1 [1, 0, 0, 0, 7, 8, 0, 0] = Ok ?v"
    by (simp add: pm_from_bytes_def map_header_def pm_entry_size_def u32_at_def bslice_def Let_def
        flip: numeral_2_eq_2)
  from packed_map_refines_map [OF this, of ?cs] ent
  have "snd (run_calls (pm_exec 1 1) ?v ?cs) = snd (run_calls bounded_map_exec (pm_abs 1 1 ?v) ?cs)"
    by (simp add: account_sized_def del: pm_exec.simps run_calls.simps bounded_map_exec.simps)
  also have "pm_abs 1 1 ?v = (2, [[7] \<mapsto> [8]])" unfolding pm_abs_def pm_map_def ent by simp
  finally show ?thesis by (simp del: pm_exec.simps)
qed

end
