(* ===== verification/SlotMap.thy ===== *)
theory SlotMap imports Slots Contracts begin

text \<open>
  hopper-core/src/collections/slot_map.rs: slots with generation counters,
  \<open>[count: u32][free_head: u32][generation: u32][occupied: u8][pad: 3][element]...\<close>.
  A handle is an index and the generation it was issued at. \<open>es\<close> is \<^verbatim>\<open>T::SIZE\<close>. Shown: the
  bytes refine a table of (generation, content) pairs; a live handle keeps its element
  until it is removed; a removed handle never resolves again before its 32-bit
  generation has come round.
\<close>

definition sm_map_header :: nat where "sm_map_header = 8"
definition sm_slot_overhead :: nat where "sm_slot_overhead = 8"

definition sm_slot_size :: "nat \<Rightarrow> nat" where
  "sm_slot_size es = sm_slot_overhead + es"

record slot_key =
  key_index :: nat
  key_generation :: nat

text \<open>The reconciliation scan: occupied flags of slots \<open>i ..< i + n\<close>.\<close>

fun sm_scan :: "nat \<Rightarrow> bytes \<Rightarrow> nat \<Rightarrow> nat \<Rightarrow> nat outcome" where
  "sm_scan es d i 0 = Ok 0"
| "sm_scan es d i (Suc n) =
     obind (rd_byte d (sm_map_header + i * sm_slot_size es + 4)) (\<lambda>flag.
     obind (sm_scan es d (Suc i) n) (\<lambda>occupied.
     Ok (if flag \<noteq> 0 then occupied + 1 else occupied)))"

definition sm_from_bytes :: "nat \<Rightarrow> bytes \<Rightarrow> view outcome" where
  "sm_from_bytes es d =
     fail_if (length d < sm_map_header) AccountDataTooSmall
       (let capacity = (length d - sm_map_header) div sm_slot_size es in
        obind (rd_u32 d 0) (\<lambda>count.
        fail_if (count > capacity) InvalidAccountData
          (obind (sm_scan es d 0 capacity) (\<lambda>occupied.
           fail_if (occupied \<noteq> count) InvalidAccountData
             (Ok \<lparr>vdata = d, vcap = capacity\<rparr>)))))"

definition sm_capacity :: "view \<Rightarrow> nat" where
  "sm_capacity v = vcap v"

definition sm_count :: "view \<Rightarrow> nat outcome" where
  "sm_count v = rd_u32 (vdata v) 0"

definition sm_set_count :: "view \<Rightarrow> nat \<Rightarrow> view outcome" where
  "sm_set_count v n = obind (wr_u32 (vdata v) 0 n) (\<lambda>d. Ok (v\<lparr>vdata := d\<rparr>))"

definition sm_slot_offset :: "nat \<Rightarrow> nat \<Rightarrow> nat" where
  "sm_slot_offset es index = sm_map_header + index * sm_slot_size es"

definition sm_slot_generation :: "nat \<Rightarrow> view \<Rightarrow> nat \<Rightarrow> nat outcome" where
  "sm_slot_generation es v index = rd_u32 (vdata v) (sm_slot_offset es index)"

definition sm_slot_occupied :: "nat \<Rightarrow> view \<Rightarrow> nat \<Rightarrow> bool outcome" where
  "sm_slot_occupied es v index =
     obind (rd_byte (vdata v) (sm_slot_offset es index + 4)) (\<lambda>b. Ok (b \<noteq> 0))"

text \<open>The body of the insert loop for the free slot \<open>i\<close>, and the loop over \<open>i ..< i + left\<close>.\<close>

definition sm_fill :: "nat \<Rightarrow> view \<Rightarrow> nat \<Rightarrow> bytes \<Rightarrow> (view \<times> slot_key) outcome" where
  "sm_fill es v i x =
     (let off = sm_slot_offset es i in
      obind (sm_slot_generation es v i) (\<lambda>gen.
      obind (wr_byte (vdata v) (off + 4) 1) (\<lambda>d.
      obind (wr d (off + sm_slot_overhead) x) (\<lambda>d'.
      let v1 = v\<lparr>vdata := d'\<rparr> in
      obind (sm_count v1) (\<lambda>count.
      obind (sm_set_count v1 (min (count + 1) (sm_capacity v))) (\<lambda>v2.
      Ok (v2, \<lparr>key_index = i, key_generation = gen\<rparr>)))))))"

fun sm_insert_loop :: "nat \<Rightarrow> view \<Rightarrow> bytes \<Rightarrow> nat \<Rightarrow> nat \<Rightarrow> (view \<times> slot_key) outcome" where
  "sm_insert_loop es v x i 0 = Err AccountDataTooSmall"
| "sm_insert_loop es v x i (Suc left) =
     obind (sm_slot_occupied es v i) (\<lambda>occ.
     if \<not> occ then sm_fill es v i x else sm_insert_loop es v x (Suc i) left)"

definition sm_insert :: "nat \<Rightarrow> view \<Rightarrow> bytes \<Rightarrow> (view \<times> slot_key) outcome" where
  "sm_insert es v x = sm_insert_loop es v x 0 (sm_capacity v)"

text \<open>The check both accessors start with: \<open>!occupied || generation != key.generation\<close>.\<close>

definition sm_stale :: "nat \<Rightarrow> view \<Rightarrow> slot_key \<Rightarrow> bool outcome" where
  "sm_stale es v key =
     obind (sm_slot_occupied es v (key_index key)) (\<lambda>occ.
     if \<not> occ then Ok True
     else obind (sm_slot_generation es v (key_index key)) (\<lambda>gen. Ok (gen \<noteq> key_generation key)))"

definition sm_get :: "nat \<Rightarrow> view \<Rightarrow> slot_key \<Rightarrow> bytes outcome" where
  "sm_get es v key =
     fail_if (key_index key \<ge> sm_capacity v) InvalidArgument
       (obind (sm_stale es v key) (\<lambda>stale.
        fail_if stale InvalidArgument
          (rd (vdata v) (sm_slot_offset es (key_index key) + sm_slot_overhead) es)))"

definition sm_remove :: "nat \<Rightarrow> view \<Rightarrow> slot_key \<Rightarrow> (view \<times> bytes) outcome" where
  "sm_remove es v key =
     fail_if (key_index key \<ge> sm_capacity v) InvalidArgument
       (obind (sm_stale es v key) (\<lambda>stale.
        fail_if stale InvalidArgument
          (let off = sm_slot_offset es (key_index key); val_off = off + sm_slot_overhead in
           obind (rd (vdata v) val_off es) (\<lambda>removed.
           obind (wr_byte (vdata v) (off + 4) 0) (\<lambda>d.
           obind (sm_slot_generation es (v\<lparr>vdata := d\<rparr>) (key_index key)) (\<lambda>gen.
           obind (wr_u32 d off ((gen + 1) mod 2 ^ 32)) (\<lambda>d1.
           obind (zero_bytes d1 val_off es) (\<lambda>d2.
           let v1 = v\<lparr>vdata := d2\<rparr> in
           obind (sm_count v1) (\<lambda>count.
           obind (sm_set_count v1 (count - 1)) (\<lambda>v2. Ok (v2, removed)))))))))))"

definition sm_required_bytes :: "nat \<Rightarrow> nat \<Rightarrow> nat" where
  "sm_required_bytes es capacity = sm_map_header + capacity * (sm_slot_overhead + es)"

section \<open>The slot table\<close>

type_synonym table = "(nat \<times> bytes option) list"

definition slot_view :: "bytes \<Rightarrow> nat \<times> bytes option" where
  "slot_view s = (le_val (take 4 s), if s ! 4 \<noteq> 0 then Some (drop 8 s) else None)"

definition sm_table :: "nat \<Rightarrow> view \<Rightarrow> table" where
  "sm_table es v = map slot_view (contents (slot_get 8 (8 + es)) (vdata v) (vcap v))"

definition live :: "table \<Rightarrow> nat" where
  "live t = length (filter (\<lambda>s. snd s \<noteq> None) t)"

definition sm_inv :: "nat \<Rightarrow> view \<Rightarrow> bool" where
  "sm_inv es v \<longleftrightarrow> 8 \<le> length (vdata v) \<and> account_sized (vdata v) \<and>
     vcap v = slot_room 8 (8 + es) (vdata v) \<and> u32_at (vdata v) 0 = live (sm_table es v)"

lemma length_sm_table [simp]: "length (sm_table es v) = vcap v"
  by (simp add: sm_table_def)

lemma table_nth: "i < vcap v \<Longrightarrow> sm_table es v ! i = slot_view (slot_get 8 (8 + es) (vdata v) i)"
  by (simp add: sm_table_def contents_nth)

lemma live_update:
  "i < length t \<Longrightarrow> live (t[i := s]) + (if snd (t ! i) \<noteq> None then 1 else 0) =
     live t + (if snd s \<noteq> None then 1 else 0)"
proof (induction t arbitrary: i)
  case (Cons a t)
  show ?case
  proof (cases i)
    case 0
    then show ?thesis by (simp add: live_def)
  next
    case (Suc j)
    then show ?thesis using Cons.IH [of j] Cons.prems by (simp add: live_def)
  qed
qed simp

lemma live_bound: "live t \<le> length t"
  by (simp add: live_def)

lemmas sm_sizes = sm_map_header_def sm_slot_overhead_def sm_slot_size_def sm_slot_offset_def sm_capacity_def

lemma slot_reads:
  assumes inv: "vcap v = slot_room 8 (8 + es) (vdata v)" and i: "i < vcap v"
  shows "sm_slot_occupied es v i = Ok (snd (sm_table es v ! i) \<noteq> None)"
    and "sm_slot_generation es v i = Ok (fst (sm_table es v ! i))"
    and "rd (vdata v) (8 + i * (8 + es) + 8) es = Ok (drop 8 (slot_get 8 (8 + es) (vdata v) i))"
proof -
  have ir: "i < slot_room 8 (8 + es) (vdata v)" using inv i by simp
  let ?s = "slot_get 8 (8 + es) (vdata v) i"
  have len: "length ?s = 8 + es" using ir by simp
  show "sm_slot_occupied es v i = Ok (snd (sm_table es v ! i) \<noteq> None)"
    using slot_byte [OF ir, of 4] by (simp add: sm_slot_occupied_def sm_sizes table_nth i slot_view_def)
  show "sm_slot_generation es v i = Ok (fst (sm_table es v ! i))"
    using slot_part [OF ir, of 0 4]
    by (simp add: sm_slot_generation_def sm_sizes rd_u32_def table_nth i slot_view_def bslice_take_drop)
  show "rd (vdata v) (8 + i * (8 + es) + 8) es = Ok (drop 8 ?s)"
    using slot_part [OF ir, of 8 es] len by (simp add: bslice_take_drop)
qed

lemma scan_eq:
  "i + n \<le> slot_room 8 (8 + es) d \<Longrightarrow>
   sm_scan es d i n = Ok (live (map (\<lambda>j. slot_view (slot_get 8 (8 + es) d j)) [i..<i + n]))"
proof (induction n arbitrary: i)
  case (Suc n)
  have "i < slot_room 8 (8 + es) d" using Suc.prems by simp
  from slot_byte [OF this, of 4] Suc.IH [of "Suc i"] Suc.prems show ?case
    by (simp add: sm_sizes slot_view_def live_def upt_conv_Cons del: upt_Suc)
qed (simp add: live_def)

lemma sm_from_bytes_inv:
  assumes "sm_from_bytes es d = Ok v" and "account_sized d"
  shows "sm_inv es v \<and> vdata v = d"
proof -
  let ?cap = "slot_room 8 (8 + es) d"
  have "8 \<le> length d" "v = \<lparr>vdata = d, vcap = ?cap\<rparr>" "sm_scan es d 0 ?cap = Ok (u32_at d 0)"
    using assms(1) by (auto simp: sm_from_bytes_def sm_sizes slot_room_def Let_def obind_Ok_iff split: if_splits)
  then show ?thesis using scan_eq [of 0 ?cap es d] assms(2)
    by (simp add: sm_inv_def sm_table_def contents_def map_map comp_def)
qed

section \<open>Updates\<close>

text \<open>One slot rewritten, then the count.\<close>

lemma slot_updated:
  assumes inv: "sm_inv es v" and i: "i < vcap v" and s: "length s = 8 + es"
    and n: "n = live ((sm_table es v)[i := slot_view s])"
  shows "\<exists>v'. sm_set_count (v\<lparr>vdata := slot_put 8 (8 + es) (vdata v) i s\<rparr>) n = Ok v' \<and> sm_inv es v' \<and>
    vcap v' = vcap v \<and> sm_table es v' = (sm_table es v)[i := slot_view s]"
proof -
  let ?d1 = "slot_put 8 (8 + es) (vdata v) i s"
  let ?d = "bsplice 0 (le_enc 4 n) ?d1" and ?get = "slot_get 8 (8 + es)"
  have ir: "i < slot_room 8 (8 + es) (vdata v)" and len: "8 \<le> length (vdata v)"
    using inv i by (auto simp: sm_inv_def)
  have len1: "length ?d1 = length (vdata v)" and room1: "slot_room 8 (8 + es) ?d1 = vcap v"
    using ir s inv by (auto simp: arr.room_put sm_inv_def)
  have small: "n < 2 ^ 32"
    using slot_room_small [of "vdata v" 8 "8 + es"] inv live_bound [of "(sm_table es v)[i := slot_view s]"] n
    by (auto simp: sm_inv_def)
  have "contents ?get ?d (vcap v) = contents ?get ?d1 (vcap v)"
    using len len1 room1 by (intro slots_header) auto
  also have "\<dots> = (contents ?get (vdata v) (vcap v))[i := s]"
    using i s inv by (intro arr.contents_put) (auto simp: sm_inv_def)
  finally have table: "sm_table es (v\<lparr>vdata := ?d\<rparr>) = (sm_table es v)[i := slot_view s]"
    by (simp add: sm_table_def map_update)
  have "u32_at ?d 0 = n" using small len len1 by simp
  moreover have "length ?d = length (vdata v)" using len len1 by simp
  ultimately have "sm_inv es (v\<lparr>vdata := ?d\<rparr>)"
    using inv table n by (simp add: sm_inv_def account_sized_def slot_room_def)
  moreover have "sm_set_count (v\<lparr>vdata := ?d1\<rparr>) n = Ok (v\<lparr>vdata := ?d\<rparr>)"
    using len len1 by (simp add: sm_set_count_def)
  ultimately show ?thesis using table by auto
qed

definition first_free :: "table \<Rightarrow> nat option" where
  "first_free t = find (\<lambda>i. snd (t ! i) = None) [0..<length t]"

lemma find_Some_nth: "find P [a..<b] = Some i \<Longrightarrow> a \<le> i \<and> i < b \<and> P i"
  by (auto simp: find_Some_iff)

lemma insert_loop_eq:
  assumes inv: "sm_inv es v"
  shows "i + n = vcap v \<Longrightarrow> sm_insert_loop es v x i n =
    (case find (\<lambda>i. snd (sm_table es v ! i) = None) [i..<vcap v] of
       None \<Rightarrow> Err AccountDataTooSmall | Some j \<Rightarrow> sm_fill es v j x)"
proof (induction n arbitrary: i)
  case (Suc n)
  have "i < vcap v" and cap: "vcap v = slot_room 8 (8 + es) (vdata v)"
    using Suc.prems inv by (auto simp: sm_inv_def)
  then show ?case
    using slot_reads(1) [OF cap, of i] Suc.IH [of "Suc i"] Suc.prems
    by (simp add: upt_conv_Cons del: upt_Suc)
qed simp

lemma slot_view_filled:
  assumes "length s = 8 + es" and "length x = es"
  shows "slot_view (bsplice 8 x (bsplice 4 [1] s)) = (fst (slot_view s), Some x)"
proof -
  let ?s1 = "bsplice 4 [1] s"
  have l1: "length ?s1 = 8 + es" using assms by simp
  have s2: "bsplice 8 x ?s1 = take 8 ?s1 @ x" by (rule bsplice_tail) (simp add: l1 assms)
  have "take 4 ?s1 = take 4 s" by (simp add: bsplice_def assms)
  moreover have "?s1 ! 4 = 1" using assms by (simp add: bsplice_nth)
  ultimately show ?thesis
    unfolding slot_view_def s2 by (simp add: l1 nth_append min_def)
qed

lemma slot_view_emptied:
  assumes "length s = 8 + es" and "g < 2 ^ 32"
  shows "slot_view (bsplice 8 (replicate es 0) (bsplice 0 (le_enc 4 g) (bsplice 4 [0] s))) = (g, None)"
proof -
  let ?s1 = "bsplice 4 [0] s"
  let ?s2 = "bsplice 0 (le_enc 4 g) ?s1"
  have l1: "length ?s1 = 8 + es" and l2: "length ?s2 = 8 + es" using assms by simp_all
  have s3: "bsplice 8 (replicate es 0) ?s2 = take 8 ?s2 @ replicate es 0" by (rule bsplice_tail) (simp add: l2)
  have "take 4 ?s2 = le_enc 4 g" by (simp add: bsplice_def)
  moreover have "?s2 ! 4 = 0" using assms l1 by (simp add: bsplice_nth)
  ultimately show ?thesis
    unfolding slot_view_def s3 using assms(2) by (simp add: l2 nth_append min_def le_val_enc)
qed

lemma sm_fill_spec:
  assumes inv: "sm_inv es v" and i: "i < vcap v" and free: "snd (sm_table es v ! i) = None"
    and x: "length x = es"
  shows "\<exists>v'. sm_fill es v i x = Ok (v', \<lparr>key_index = i, key_generation = fst (sm_table es v ! i)\<rparr>) \<and>
    sm_inv es v' \<and> vcap v' = vcap v \<and>
    sm_table es v' = (sm_table es v)[i := (fst (sm_table es v ! i), Some x)]"
proof -
  let ?d = "vdata v" and ?t = "sm_table es v"
  let ?s = "slot_get 8 (8 + es) ?d i"
  let ?s1 = "bsplice 4 [1] ?s"
  let ?s2 = "bsplice 8 x ?s1"
  have cap: "vcap v = slot_room 8 (8 + es) ?d" and ir: "i < slot_room 8 (8 + es) ?d"
    using inv i by (auto simp: sm_inv_def)
  have s: "length ?s = 8 + es" using ir by simp
  then have s1: "length ?s1 = 8 + es" and s2: "length ?s2 = 8 + es" using x by simp_all
  have w1: "wr_byte ?d (8 + i * (8 + es) + 4) 1 = Ok (slot_put 8 (8 + es) ?d i ?s1)"
    using slot_part_write [OF ir, of 4 "[1]"] by (simp add: wr_byte_wr)
  let ?d1 = "slot_put 8 (8 + es) ?d i ?s1"
  have ir1: "i < slot_room 8 (8 + es) ?d1" using ir s1 by (simp add: arr.room_put)
  have w2: "wr ?d1 (8 + i * (8 + es) + 8) x = Ok (slot_put 8 (8 + es) ?d i ?s2)"
    using slot_part_write [OF ir1, of 8 x] x ir s1 s2 by (simp add: arr.get_put_same slot_put_put)
  have view: "slot_view ?s2 = (fst (?t ! i), Some x)"
    using slot_view_filled [OF s x] i by (simp add: table_nth)
  have live: "live (?t[i := slot_view ?s2]) = live ?t + 1"
    using live_update [of i ?t "slot_view ?s2"] i free view by simp
  have bound: "live ?t + 1 \<le> vcap v"
    using live_bound [of "?t[i := slot_view ?s2]"] unfolding live by simp
  let ?v2 = "v\<lparr>vdata := slot_put 8 (8 + es) ?d i ?s2\<rparr>"
  have "sm_count ?v2 = Ok (live ?t)"
    using inv ir s2 by (simp add: sm_count_def sm_inv_def u32_at_slot_put arr.room_put)
  moreover from slot_updated [OF inv i s2, of "live ?t + 1"] obtain v' where
    v': "sm_set_count ?v2 (live ?t + 1) = Ok v'" "sm_inv es v'" "vcap v' = vcap v"
    "sm_table es v' = ?t[i := slot_view ?s2]" unfolding live by auto
  ultimately have "sm_fill es v i x = Ok (v', \<lparr>key_index = i, key_generation = fst (?t ! i)\<rparr>)"
    using w1 w2 slot_reads(2) [OF cap i] bound
    by (simp add: sm_fill_def sm_sizes Let_def min_absorb1)
  then show ?thesis using v' view by auto
qed

definition resolves :: "table \<Rightarrow> slot_key \<Rightarrow> bytes option" where
  "resolves t k =
     (if key_index k < length t \<and> fst (t ! key_index k) = key_generation k then snd (t ! key_index k) else None)"

lemma sm_stale_eq:
  assumes "sm_inv es v" and "key_index k < vcap v"
  shows "sm_stale es v k = Ok (resolves (sm_table es v) k = None)"
  using assms slot_reads [of v es "key_index k"]
  by (auto simp: sm_stale_def resolves_def sm_inv_def)

lemma resolves_content:
  assumes "resolves (sm_table es v) k = Some x"
  shows "key_index k < vcap v \<and> x = drop 8 (slot_get 8 (8 + es) (vdata v) (key_index k)) \<and>
    fst (sm_table es v ! key_index k) = key_generation k"
  using assms by (auto simp: resolves_def table_nth slot_view_def split: if_splits)

lemma sm_get_eq:
  assumes "sm_inv es v"
  shows "sm_get es v k = ok_or (resolves (sm_table es v) k) InvalidArgument"
proof (cases "resolves (sm_table es v) k")
  case None
  then show ?thesis using assms by (auto simp: sm_get_def sm_sizes sm_stale_eq not_le)
next
  case (Some x)
  note R = resolves_content [OF Some]
  then show ?thesis using assms Some slot_reads(3) [of v es "key_index k"]
    by (simp add: sm_get_def sm_sizes sm_stale_eq not_le sm_inv_def)
qed

lemma sm_remove_spec:
  assumes inv: "sm_inv es v"
  shows "case resolves (sm_table es v) k of
      None \<Rightarrow> sm_remove es v k = Err InvalidArgument
    | Some x \<Rightarrow> \<exists>v'. sm_remove es v k = Ok (v', x) \<and> sm_inv es v' \<and> vcap v' = vcap v \<and>
        sm_table es v' = (sm_table es v)[key_index k := ((key_generation k + 1) mod 2 ^ 32, None)]"
proof (cases "resolves (sm_table es v) k")
  case None
  then show ?thesis using inv by (auto simp: sm_remove_def sm_sizes sm_stale_eq not_le)
next
  case (Some x)
  let ?i = "key_index k" and ?d = "vdata v" and ?t = "sm_table es v"
  let ?g = "(key_generation k + 1) mod 2 ^ 32"
  note R = resolves_content [OF Some]
  have i: "?i < vcap v" using R by simp
  let ?s = "slot_get 8 (8 + es) ?d ?i"
  let ?s1 = "bsplice 4 [0] ?s"
  let ?s2 = "bsplice 0 (le_enc 4 ?g) ?s1"
  let ?s3 = "bsplice 8 (replicate es 0) ?s2"
  have cap: "vcap v = slot_room 8 (8 + es) ?d" and ir: "?i < slot_room 8 (8 + es) ?d"
    using inv i by (auto simp: sm_inv_def)
  have s: "length ?s = 8 + es" using ir by simp
  then have s1: "length ?s1 = 8 + es" and s2: "length ?s2 = 8 + es" and s3: "length ?s3 = 8 + es" by simp_all
  let ?d1 = "slot_put 8 (8 + es) ?d ?i ?s1" and ?d2 = "slot_put 8 (8 + es) ?d ?i ?s2"
  have ir1: "?i < slot_room 8 (8 + es) ?d1" and ir2: "?i < slot_room 8 (8 + es) ?d2"
    using ir s1 s2 by (simp_all add: arr.room_put)
  have w1: "wr_byte ?d (8 + ?i * (8 + es) + 4) 0 = Ok ?d1"
    using slot_part_write [OF ir, of 4 "[0]"] by (simp add: wr_byte_wr)
  have w2: "wr_u32 ?d1 (8 + ?i * (8 + es)) ?g = Ok ?d2"
    using slot_part_write [OF ir1, of 0 "le_enc 4 ?g"] ir s1 s2
    by (simp add: wr_u32_def arr.get_put_same slot_put_put)
  have w3: "zero_bytes ?d2 (8 + ?i * (8 + es) + 8) es = Ok (slot_put 8 (8 + es) ?d ?i ?s3)"
    using slot_part_write [OF ir2, of 8 "replicate es 0"] ir s2 s3
    by (simp add: zero_bytes_def arr.get_put_same slot_put_put)
  have gen: "sm_slot_generation es (v\<lparr>vdata := ?d1\<rparr>) ?i = Ok (key_generation k)"
  proof -
    have "take 4 ?s1 = take 4 ?s" by (simp add: bsplice_def s)
    then have "fst (slot_view ?s1) = key_generation k" using R i by (simp add: table_nth slot_view_def)
    moreover have "sm_slot_generation es (v\<lparr>vdata := ?d1\<rparr>) ?i = Ok (fst (slot_view ?s1))"
      using slot_reads(2) [of "v\<lparr>vdata := ?d1\<rparr>" es ?i] i cap ir s1
      by (simp add: table_nth arr.room_put arr.get_put_same)
    ultimately show ?thesis by simp
  qed
  have view: "slot_view ?s3 = (?g, None)" by (rule slot_view_emptied [OF s]) simp
  have occ: "snd (?t ! ?i) \<noteq> None" using Some by (auto simp: resolves_def split: if_splits)
  have live: "live (?t[?i := slot_view ?s3]) = live ?t - 1" "0 < live ?t"
    using live_update [of ?i ?t "slot_view ?s3"] i occ view by simp_all
  let ?v3 = "v\<lparr>vdata := slot_put 8 (8 + es) ?d ?i ?s3\<rparr>"
  have "sm_count ?v3 = Ok (live ?t)"
    using inv ir s3 by (simp add: sm_count_def sm_inv_def u32_at_slot_put arr.room_put)
  moreover from slot_updated [OF inv i s3, of "live ?t - 1"] obtain v' where
    v': "sm_set_count ?v3 (live ?t - 1) = Ok v'" "sm_inv es v'" "vcap v' = vcap v"
    "sm_table es v' = ?t[?i := slot_view ?s3]" unfolding live by auto
  ultimately have "sm_remove es v k = Ok (v', x)"
    using w1 w2 w3 gen inv i Some R slot_reads(3) [OF cap i]
    by (simp add: sm_remove_def sm_sizes Let_def sm_stale_eq not_le)
  then show ?thesis using v' view Some by auto
qed

lemma sm_insert_spec:
  assumes inv: "sm_inv es v" and x: "length x = es"
  shows "case first_free (sm_table es v) of
      None \<Rightarrow> sm_insert es v x = Err AccountDataTooSmall
    | Some i \<Rightarrow> \<exists>v'. sm_insert es v x =
          Ok (v', \<lparr>key_index = i, key_generation = fst (sm_table es v ! i)\<rparr>) \<and>
        sm_inv es v' \<and> vcap v' = vcap v \<and>
        sm_table es v' = (sm_table es v)[i := (fst (sm_table es v ! i), Some x)]"
proof -
  have run: "sm_insert es v x = (case first_free (sm_table es v) of
      None \<Rightarrow> Err AccountDataTooSmall | Some j \<Rightarrow> sm_fill es v j x)"
    using insert_loop_eq [OF inv, of 0 "vcap v" x]
    by (simp add: sm_insert_def sm_capacity_def first_free_def)
  show ?thesis
  proof (cases "first_free (sm_table es v)")
    case (Some i)
    then have "i < vcap v" "snd (sm_table es v ! i) = None"
      using find_Some_nth [of _ 0 "vcap v" i] by (auto simp: first_free_def)
    from sm_fill_spec [OF inv this x] show ?thesis using run Some by simp
  qed (simp add: run)
qed

section \<open>Refinement\<close>

datatype slot_call = HInsert bytes | HGet slot_key | HRemove slot_key | HCount

fun slot_call_ok :: "nat \<Rightarrow> slot_call \<Rightarrow> bool" where
  "slot_call_ok es (HInsert x) = (length x = es)"
| "slot_call_ok es c = True"

definition handle_answer :: "slot_key \<Rightarrow> answer" where
  "handle_answer k = RPair (key_index k) (key_generation k)"

fun sm_exec :: "nat \<Rightarrow> view \<Rightarrow> slot_call \<Rightarrow> (view \<times> answer) outcome" where
  "sm_exec es v (HInsert x) = value_call (sm_insert es v x) handle_answer"
| "sm_exec es v (HGet k) = read_call v (sm_get es v k) RBytes"
| "sm_exec es v (HRemove k) = value_call (sm_remove es v k) RBytes"
| "sm_exec es v HCount = read_call v (sm_count v) RNum"

fun table_exec :: "table \<Rightarrow> slot_call \<Rightarrow> (table \<times> answer) outcome" where
  "table_exec t (HInsert x) =
     (case first_free t of
        None \<Rightarrow> Err AccountDataTooSmall
      | Some i \<Rightarrow> Ok (t[i := (fst (t ! i), Some x)], RPair i (fst (t ! i))))"
| "table_exec t (HGet k) =
     (case resolves t k of None \<Rightarrow> Err InvalidArgument | Some x \<Rightarrow> Ok (t, RBytes x))"
| "table_exec t (HRemove k) =
     (case resolves t k of
        None \<Rightarrow> Err InvalidArgument
      | Some x \<Rightarrow> Ok (t[key_index k := ((key_generation k + 1) mod 2 ^ 32, None)], RBytes x))"
| "table_exec t HCount = Ok (t, RNum (live t))"

lemma sm_exec_step:
  assumes inv: "sm_inv es v" and ok: "slot_call_ok es c"
  shows "map_state (sm_table es) (sm_exec es v c) = table_exec (sm_table es v) c \<and>
    (\<forall>v' r. sm_exec es v c = Ok (v', r) \<longrightarrow> sm_inv es v')"
proof (cases c)
  case (HInsert x)
  then show ?thesis using sm_insert_spec [OF inv, of x] ok
    by (auto simp: call_defs handle_answer_def split: option.splits)
next
  case (HGet k)
  then show ?thesis using inv by (cases "resolves (sm_table es v) k") (auto simp: call_defs sm_get_eq)
next
  case (HRemove k)
  then show ?thesis using sm_remove_spec [OF inv, of k] by (auto simp: call_defs split: option.splits)
next
  case HCount
  then show ?thesis using inv by (auto simp: call_defs sm_count_def sm_inv_def)
qed

interpretation sm_sim: simulation "sm_exec es" table_exec "sm_table es" "sm_inv es" "slot_call_ok es" for es
proof
  fix v c v' r
  assume A: "sm_inv es v" "slot_call_ok es c"
  show "map_state (sm_table es) (sm_exec es v c) = table_exec (sm_table es v) c"
    and "sm_exec es v c = Ok (v', r) \<Longrightarrow> sm_inv es v'"
    using sm_exec_step [OF A] by blast+
next
  fix t c
  show "table_exec t c \<noteq> Trap" by (cases c) (auto split: option.splits)
qed

section \<open>Handles\<close>

lemma table_exec_generation:
  assumes "i < length t"
  shows "let t' = after_call t (table_exec t c) in length t' = length t \<and>
    (fst (t' ! i) = fst (t ! i) \<or> fst (t' ! i) = (fst (t ! i) + 1) mod 2 ^ 32)"
proof -
  have upd: "fst (t[j := (fst (t ! j), y)] ! i) = fst (t ! i)" for j y
    using assms by (cases "j = i") auto
  show ?thesis using assms
    by (cases c) (auto simp: upd nth_list_update resolves_def Let_def split: option.splits if_splits)
qed

lemma run_generation:
  "i < length t \<Longrightarrow> \<exists>n \<le> length cs. length (fst (run_calls table_exec t cs)) = length t \<and>
    (fst (fst (run_calls table_exec t cs) ! i) = fst (t ! i) \<or>
     fst (fst (run_calls table_exec t cs) ! i) = (fst (t ! i) + n) mod 2 ^ 32 \<and> 0 < n)"
proof (induction cs arbitrary: t)
  case Nil
  then show ?case by auto
next
  case (Cons c cs)
  let ?t = "after_call t (table_exec t c)"
  note E = table_exec_generation [OF Cons.prems, of c, unfolded Let_def]
  then obtain n where n: "n \<le> length cs" "length (fst (run_calls table_exec ?t cs)) = length ?t"
    "fst (fst (run_calls table_exec ?t cs) ! i) = fst (?t ! i) \<or>
     fst (fst (run_calls table_exec ?t cs) ! i) = (fst (?t ! i) + n) mod 2 ^ 32 \<and> 0 < n"
    using Cons.IH [of ?t] Cons.prems by auto
  have run: "fst (run_calls table_exec t (c # cs)) = fst (run_calls table_exec ?t cs)"
    by (simp add: Let_def split_beta)
  from E n(3) consider
      "fst (fst (run_calls table_exec ?t cs) ! i) = fst (t ! i)"
    | "fst (fst (run_calls table_exec ?t cs) ! i) = (fst (t ! i) + 1) mod 2 ^ 32"
    | "fst (fst (run_calls table_exec ?t cs) ! i) = (fst (t ! i) + n) mod 2 ^ 32" "0 < n"
    | "fst (fst (run_calls table_exec ?t cs) ! i) = ((fst (t ! i) + 1) mod 2 ^ 32 + n) mod 2 ^ 32" "0 < n"
    by auto
  then show ?case unfolding run
  proof cases
    case 1
    then show "\<exists>m\<le>length (c # cs). length (fst (run_calls table_exec ?t cs)) = length t \<and>
      (fst (fst (run_calls table_exec ?t cs) ! i) = fst (t ! i) \<or>
       fst (fst (run_calls table_exec ?t cs) ! i) = (fst (t ! i) + m) mod 2 ^ 32 \<and> 0 < m)"
      using E n(2) by auto
  next
    case 2
    then show "\<exists>m\<le>length (c # cs). length (fst (run_calls table_exec ?t cs)) = length t \<and>
      (fst (fst (run_calls table_exec ?t cs) ! i) = fst (t ! i) \<or>
       fst (fst (run_calls table_exec ?t cs) ! i) = (fst (t ! i) + m) mod 2 ^ 32 \<and> 0 < m)"
      using E n(2) by (intro exI [of _ 1]) auto
  next
    case 3
    then show "\<exists>m\<le>length (c # cs). length (fst (run_calls table_exec ?t cs)) = length t \<and>
      (fst (fst (run_calls table_exec ?t cs) ! i) = fst (t ! i) \<or>
       fst (fst (run_calls table_exec ?t cs) ! i) = (fst (t ! i) + m) mod 2 ^ 32 \<and> 0 < m)"
      using E n(1,2) by (intro exI [of _ n]) auto
  next
    case 4
    then have "fst (fst (run_calls table_exec ?t cs) ! i) = (fst (t ! i) + (1 + n)) mod 2 ^ 32"
      by (metis add.assoc mod_add_left_eq)
    then show "\<exists>m\<le>length (c # cs). length (fst (run_calls table_exec ?t cs)) = length t \<and>
      (fst (fst (run_calls table_exec ?t cs) ! i) = fst (t ! i) \<or>
       fst (fst (run_calls table_exec ?t cs) ! i) = (fst (t ! i) + m) mod 2 ^ 32 \<and> 0 < m)"
      using E n(1,2) by (intro exI [of _ "1 + n"]) auto
  qed
qed

lemma generation_distinct:
  assumes "(g :: nat) < 2 ^ 32" and "0 < n" and "n < 2 ^ 32"
  shows "(g + n) mod 2 ^ 32 \<noteq> g"
proof (cases "g + n < 2 ^ 32")
  case True
  then show ?thesis using assms by simp
next
  case False
  then have "(g + n) mod 2 ^ 32 = g + n - 2 ^ 32" using assms by (simp add: mod_if)
  then show ?thesis using assms False by simp
qed

lemma live_handle_step:
  assumes "resolves t k = Some x" and "c \<noteq> HRemove k"
  shows "resolves (after_call t (table_exec t c)) k = Some x"
proof (cases c)
  case (HInsert y)
  show ?thesis
  proof (cases "first_free t")
    case (Some i)
    then have "snd (t ! i) = None" using find_Some_nth [of _ 0 "length t" i] by (auto simp: first_free_def)
    then have "i \<noteq> key_index k" using assms(1) by (auto simp: resolves_def split: if_splits)
    then show ?thesis using assms(1) HInsert Some by (auto simp: resolves_def split: if_splits)
  qed (use assms HInsert in simp)
next
  case (HRemove k')
  show ?thesis
  proof (cases "resolves t k'")
    case (Some y)
    have "key_index k' \<noteq> key_index k"
    proof
      assume "key_index k' = key_index k"
      then have "k' = k" using Some assms(1)
        by (auto simp: resolves_def intro: slot_key.equality split: if_splits)
      then show False using assms(2) HRemove by simp
    qed
    then show ?thesis using assms(1) HRemove Some by (auto simp: resolves_def split: if_splits)
  qed (use assms HRemove in simp)
qed (use assms in \<open>auto split: option.splits\<close>)

lemma live_handle_run:
  "resolves t k = Some x \<Longrightarrow> HRemove k \<notin> set cs \<Longrightarrow> resolves (fst (run_calls table_exec t cs)) k = Some x"
proof (induction cs arbitrary: t)
  case (Cons c cs)
  then have "resolves (after_call t (table_exec t c)) k = Some x" by (intro live_handle_step) auto
  from Cons.IH [OF this] Cons.prems(2) show ?case by (simp add: Let_def split_beta del: table_exec.simps)
qed simp

section \<open>Properties\<close>

text \<open>
  \<open>SlotMap\<close> refines its slot table. For every buffer the constructor accepts (its
  header count must agree with the occupied flags), every sequence of calls answers as
  the table does, the count stays the number of occupied slots, and no call leaves the
  slice.
\<close>

theorem slot_map_refines_table:
  assumes "sm_from_bytes es d = Ok v" and "account_sized d" and "list_all (slot_call_ok es) cs"
  shows "sm_table es (fst (run_calls (sm_exec es) v cs)) = fst (run_calls table_exec (sm_table es v) cs) \<and>
    snd (run_calls (sm_exec es) v cs) = snd (run_calls table_exec (sm_table es v) cs) \<and>
    sm_count (fst (run_calls (sm_exec es) v cs)) = Ok (live (fst (run_calls table_exec (sm_table es v) cs))) \<and>
    Trap \<notin> set (snd (run_calls (sm_exec es) v cs))"
proof -
  have inv: "sm_inv es v" using sm_from_bytes_inv [OF assms(1,2)] by simp
  note R = sm_sim.run_refines [OF inv assms(3)]
  have "sm_count (fst (run_calls (sm_exec es) v cs)) =
      Ok (live (sm_table es (fst (run_calls (sm_exec es) v cs))))"
    using R by (auto simp: sm_inv_def sm_count_def)
  then show ?thesis using R sm_sim.safe.run_safe [OF inv assms(3)] by auto
qed

theorem slot_map_refines_table_witness:
  "snd (run_calls (sm_exec 1) \<lparr>vdata = [0, 0, 0, 0, 0, 0, 0, 0, 0, 0, 0, 0, 0, 0, 0, 0, 0, 0, 0, 0, 0, 0, 0, 0, 0, 0], vcap = 2\<rparr>
     [HInsert [7], HInsert [8], HInsert [9], HRemove \<lparr>key_index = 0, key_generation = 0\<rparr>,
      HInsert [9], HGet \<lparr>key_index = 0, key_generation = 0\<rparr>]) =
   [Ok (RPair 0 0), Ok (RPair 1 0), Err AccountDataTooSmall, Ok (RBytes [7]), Ok (RPair 0 1),
    Err InvalidArgument]"
proof -
  let ?v = "\<lparr>vdata = [0, 0, 0, 0, 0, 0, 0, 0, 0, 0, 0, 0, 0, 0, 0, 0, 0, 0, 0, 0, 0, 0, 0, 0, 0, 0], vcap = 2\<rparr>"
  let ?cs = "[HInsert [7], HInsert [8], HInsert [9], HRemove \<lparr>key_index = 0, key_generation = 0\<rparr>,
      HInsert [9], HGet \<lparr>key_index = 0, key_generation = 0\<rparr>]"
  have "(26 - 8) div 9 = (2 :: nat)" by simp
  moreover have "sm_scan (Suc 0) [0, 0, 0, 0, 0, 0, 0, 0, 0, 0, 0, 0, 0, 0, 0, 0, 0, 0, 0, 0, 0, 0, 0, 0, 0, 0] 0 2 = Ok 0"
    unfolding numeral_2_eq_2 by (simp add: sm_sizes)
  ultimately have "sm_from_bytes 1 [0, 0, 0, 0, 0, 0, 0, 0, 0, 0, 0, 0, 0, 0, 0, 0, 0, 0, 0, 0, 0, 0, 0, 0, 0, 0] = Ok ?v"
    by (simp add: sm_from_bytes_def sm_sizes u32_at_def bslice_def flip: numeral_2_eq_2)
  from slot_map_refines_table [OF this, of ?cs]
  have "snd (run_calls (sm_exec 1) ?v ?cs) = snd (run_calls table_exec (sm_table 1 ?v) ?cs)"
    by (simp add: account_sized_def del: sm_exec.simps table_exec.simps run_calls.simps)
  also have "sm_table 1 ?v = [(0, None), (0, None)]"
    by (simp add: sm_table_def contents_def slot_get_def slot_view_def bslice_def numeral_2_eq_2)
  finally show ?thesis
    by (simp add: first_free_def resolves_def del: sm_exec.simps)
qed

text \<open>
  C35: a stale handle does not resolve for \<open>2 ^ 32 - 2\<close> calls. Once the element of handle \<open>k\<close> has been
  removed, \<open>get\<close> with \<open>k\<close> fails after any fewer than \<open>2 ^ 32 - 1\<close> further calls, whatever
  was inserted into the same slot meanwhile. The bound is there because the generation of a slot
  wraps modulo \<open>2 ^ 32\<close>: after that many reuses the handle may resolve again.
\<close>

theorem slot_map_stale_handle:
  assumes "sm_inv es v" and "sm_remove es v k = Ok (v1, x)" and "key_generation k < 2 ^ 32"
    and "list_all (slot_call_ok es) cs" and "length cs < 2 ^ 32 - 1"
  shows "sm_get es (fst (run_calls (sm_exec es) v1 cs)) k = Err InvalidArgument"
proof -
  have live: "resolves (sm_table es v) k \<noteq> None"
    using sm_remove_spec [OF assms(1), of k] assms(2) by (auto split: option.splits)
  then have v1: "sm_inv es v1" "vcap v1 = vcap v"
    "sm_table es v1 = (sm_table es v)[key_index k := ((key_generation k + 1) mod 2 ^ 32, None)]"
    using sm_remove_spec [OF assms(1), of k] assms(2) by auto
  have i: "key_index k < length (sm_table es v1)"
    using live v1(2) by (auto simp: resolves_def split: if_splits)
  let ?t = "fst (run_calls table_exec (sm_table es v1) cs)"
  from run_generation [OF i, of cs] obtain n where n: "n \<le> length cs"
    "fst (?t ! key_index k) = fst (sm_table es v1 ! key_index k) \<or>
     fst (?t ! key_index k) = (fst (sm_table es v1 ! key_index k) + n) mod 2 ^ 32 \<and> 0 < n" by blast
  have g: "fst (sm_table es v1 ! key_index k) = (key_generation k + 1) mod 2 ^ 32" using i v1(2,3) by simp
  have "\<exists>m. fst (?t ! key_index k) = (key_generation k + m) mod 2 ^ 32 \<and> 0 < m \<and> m < 2 ^ 32"
  proof (cases "fst (?t ! key_index k) = fst (sm_table es v1 ! key_index k)")
    case True
    then show ?thesis using g by (intro exI [of _ 1]) simp
  next
    case False
    then have "fst (?t ! key_index k) = (key_generation k + (1 + n)) mod 2 ^ 32"
      using n(2) unfolding g by (metis add.assoc mod_add_left_eq)
    then show ?thesis using n(1) assms(5) by (intro exI [of _ "1 + n"]) simp
  qed
  then have "fst (?t ! key_index k) \<noteq> key_generation k" using generation_distinct [OF assms(3)] by metis
  then have "resolves ?t k = None" by (simp add: resolves_def)
  then show ?thesis
    using sm_sim.run_refines [OF v1(1) assms(4)] by (simp add: sm_get_eq)
qed

theorem slot_map_stale_handle_witness:
  "\<exists>v1 x. sm_remove 1 \<lparr>vdata = [1, 0, 0, 0, 0, 0, 0, 0, 5, 0, 0, 0, 1, 0, 0, 0, 7], vcap = 1\<rparr>
      \<lparr>key_index = 0, key_generation = 5\<rparr> = Ok (v1, x) \<and>
    sm_get 1 (fst (run_calls (sm_exec 1) v1 [HInsert [9]])) \<lparr>key_index = 0, key_generation = 5\<rparr> =
      Err InvalidArgument"
proof -
  let ?v = "\<lparr>vdata = [1, 0, 0, 0, 0, 0, 0, 0, 5, 0, 0, 0, 1, 0, 0, 0, 7], vcap = 1\<rparr>"
  let ?k = "\<lparr>key_index = 0, key_generation = 5\<rparr>"
  have t: "sm_table 1 ?v = [(5, Some [7])]"
    by (simp add: sm_table_def contents_def slot_get_def slot_view_def bslice_def)
  have inv: "sm_inv 1 ?v"
    unfolding sm_inv_def t by (simp add: live_def account_sized_def slot_room_def u32_at_def bslice_def)
  from sm_remove_spec [OF inv, of ?k, unfolded t] obtain v1 where v1: "sm_remove 1 ?v ?k = Ok (v1, [7])"
    by (auto simp: resolves_def)
  show ?thesis using v1 slot_map_stale_handle [OF inv v1, of "[HInsert [9]]"]
    by (auto simp del: sm_exec.simps run_calls.simps)
qed

text \<open>
  C37: a live handle is stable. The handle \<open>insert\<close> returns gives the inserted element back
  after any sequence of calls that does not remove it.
\<close>

theorem slot_map_live_handle:
  assumes "sm_inv es v" and "length x = es" and "sm_insert es v x = Ok (v1, k)"
    and "list_all (slot_call_ok es) cs" and "HRemove k \<notin> set cs"
  shows "sm_get es (fst (run_calls (sm_exec es) v1 cs)) k = Ok x"
proof -
  from sm_insert_spec [OF assms(1,2)] assms(3) obtain i where i: "first_free (sm_table es v) = Some i"
    and v1: "sm_inv es v1" "sm_table es v1 = (sm_table es v)[i := (fst (sm_table es v ! i), Some x)]"
    and k: "k = \<lparr>key_index = i, key_generation = fst (sm_table es v ! i)\<rparr>"
    by (auto split: option.splits)
  have "i < length (sm_table es v)"
    using i find_Some_nth [of _ 0 "length (sm_table es v)" i] unfolding first_free_def by blast
  then have "resolves (sm_table es v1) k = Some x" by (simp add: resolves_def v1(2) k)
  from live_handle_run [OF this assms(5)] sm_sim.run_refines [OF v1(1) assms(4)]
  show ?thesis by (simp add: sm_get_eq)
qed

theorem slot_map_live_handle_witness:
  "\<exists>v1 k. sm_insert 1 \<lparr>vdata = [0, 0, 0, 0, 0, 0, 0, 0, 5, 0, 0, 0, 0, 0, 0, 0, 7], vcap = 1\<rparr> [9] = Ok (v1, k) \<and>
    sm_get 1 (fst (run_calls (sm_exec 1) v1 [HInsert [4], HCount])) k = Ok [9]"
proof -
  let ?v = "\<lparr>vdata = [0, 0, 0, 0, 0, 0, 0, 0, 5, 0, 0, 0, 0, 0, 0, 0, 7], vcap = 1\<rparr>"
  have t: "sm_table 1 ?v = [(5, None)]"
    by (simp add: sm_table_def contents_def slot_get_def slot_view_def bslice_def)
  have inv: "sm_inv 1 ?v"
    unfolding sm_inv_def t by (simp add: live_def account_sized_def slot_room_def u32_at_def bslice_def)
  from sm_insert_spec [OF inv, of "[9]", unfolded t] obtain v1 k where v1: "sm_insert 1 ?v [9] = Ok (v1, k)"
    by (auto simp: first_free_def)
  show ?thesis using v1 slot_map_live_handle [OF inv _ v1, of "[HInsert [4], HCount]"]
    by (auto simp del: sm_exec.simps run_calls.simps)
qed

end
