(* ===== verification/BitSet.thy ===== *)
theory BitSet imports Contracts begin

text \<open>
  hopper-core/src/collections/bit_set.rs: a bit array without header; bit 0 of byte 0 is
  index 0. The first section's byte lemmas also serve the slab's occupancy bitmap. Shown:
  the bytes refine a finite set of indices, call by call.
\<close>

unbundle bit_operations_syntax

section \<open>Bits of a byte array\<close>

text \<open>\<^verbatim>\<open>(byte >> k) & 1 == 1\<close>, \<^verbatim>\<open>byte |= 1 << k\<close>, \<^verbatim>\<open>byte &= !(1 << k)\<close>, \<^verbatim>\<open>byte ^= 1 << k\<close>.\<close>

definition bit_test :: "u8 \<Rightarrow> nat \<Rightarrow> bool" where
  "bit_test b k \<longleftrightarrow> drop_bit k b AND 1 = 1"

definition bit_on :: "u8 \<Rightarrow> nat \<Rightarrow> u8" where
  "bit_on b k = b OR push_bit k 1"

definition bit_off :: "u8 \<Rightarrow> nat \<Rightarrow> u8" where
  "bit_off b k = b AND NOT (push_bit k 1)"

definition bit_flip :: "u8 \<Rightarrow> nat \<Rightarrow> u8" where
  "bit_flip b k = b XOR push_bit k 1"

lemma bit_test_iff [simp]: "bit_test b k = bit b k"
  by (simp add: bit_test_def and_one_eq bit_iff_odd_drop_bit odd_iff_mod_2_eq_one)

lemma bit_one_at: "k < 8 \<Longrightarrow> bit (push_bit k (1 :: u8)) j \<longleftrightarrow> j = k"
  by (auto simp: push_bit_of_1 bit_exp_iff)

lemma bit_ops [simp]:
  assumes "k < 8" and "j < 8"
  shows "bit (bit_on b k) j \<longleftrightarrow> j = k \<or> bit b j"
    and "bit (bit_off b k) j \<longleftrightarrow> j \<noteq> k \<and> bit b j"
    and "bit (bit_flip b k) j \<longleftrightarrow> (j = k) \<noteq> bit b j"
  using assms
  by (simp_all add: bit_on_def bit_off_def bit_flip_def bit_or_iff bit_and_iff bit_not_iff bit_xor_iff bit_one_at
      del: push_bit_of_1) auto

definition bits_at :: "bytes \<Rightarrow> nat \<Rightarrow> bool" where
  "bits_at d i \<longleftrightarrow> bit (d ! (i div 8)) (i mod 8)"

lemma bits_at_update:
  assumes "i < 8 * length d" and "j < 8 * length d"
  shows "bits_at (d[i div 8 := bit_on (d ! (i div 8)) (i mod 8)]) j \<longleftrightarrow> j = i \<or> bits_at d j"
    and "bits_at (d[i div 8 := bit_off (d ! (i div 8)) (i mod 8)]) j \<longleftrightarrow> j \<noteq> i \<and> bits_at d j"
    and "bits_at (d[i div 8 := bit_flip (d ! (i div 8)) (i mod 8)]) j \<longleftrightarrow> (j = i) \<noteq> bits_at d j"
proof -
  have i: "i div 8 < length d" and j: "j div 8 < length d" using assms by (simp_all add: less_mult_imp_div_less mult.commute)
  have eq: "j = i \<longleftrightarrow> j div 8 = i div 8 \<and> j mod 8 = i mod 8" by (metis div_mult_mod_eq)
  show "bits_at (d[i div 8 := bit_on (d ! (i div 8)) (i mod 8)]) j \<longleftrightarrow> j = i \<or> bits_at d j"
    and "bits_at (d[i div 8 := bit_off (d ! (i div 8)) (i mod 8)]) j \<longleftrightarrow> j \<noteq> i \<and> bits_at d j"
    and "bits_at (d[i div 8 := bit_flip (d ! (i div 8)) (i mod 8)]) j \<longleftrightarrow> (j = i) \<noteq> bits_at d j"
    using i j unfolding eq bits_at_def by (auto simp: nth_list_update)
qed

section \<open>The operations\<close>

definition bs_from_bytes :: "bytes \<Rightarrow> bytes" where
  "bs_from_bytes d = d"

definition bs_capacity :: "bytes \<Rightarrow> nat" where
  "bs_capacity d = length d * 8"

definition bs_get :: "bytes \<Rightarrow> nat \<Rightarrow> bool outcome" where
  "bs_get d index =
     (let byte_idx = index div 8; bit_idx = index mod 8 in
      fail_if (byte_idx \<ge> length d) InvalidArgument
        (obind (rd_byte d byte_idx) (\<lambda>b. Ok (bit_test b bit_idx))))"

definition bs_set :: "bytes \<Rightarrow> nat \<Rightarrow> bytes outcome" where
  "bs_set d index =
     (let byte_idx = index div 8; bit_idx = index mod 8 in
      fail_if (byte_idx \<ge> length d) InvalidArgument
        (obind (rd_byte d byte_idx) (\<lambda>b. wr_byte d byte_idx (bit_on b bit_idx))))"

definition bs_clear :: "bytes \<Rightarrow> nat \<Rightarrow> bytes outcome" where
  "bs_clear d index =
     (let byte_idx = index div 8; bit_idx = index mod 8 in
      fail_if (byte_idx \<ge> length d) InvalidArgument
        (obind (rd_byte d byte_idx) (\<lambda>b. wr_byte d byte_idx (bit_off b bit_idx))))"

definition bs_toggle :: "bytes \<Rightarrow> nat \<Rightarrow> bytes outcome" where
  "bs_toggle d index =
     (let byte_idx = index div 8; bit_idx = index mod 8 in
      fail_if (byte_idx \<ge> length d) InvalidArgument
        (obind (rd_byte d byte_idx) (\<lambda>b. wr_byte d byte_idx (bit_flip b bit_idx))))"

text \<open>\<^verbatim>\<open>u8::count_ones\<close> of the standard library.\<close>

definition byte_ones :: "u8 \<Rightarrow> nat" where
  "byte_ones b = length (filter (bit b) [0..<8])"

fun bs_count_ones :: "bytes \<Rightarrow> nat" where
  "bs_count_ones [] = 0"
| "bs_count_ones (byte # rest) = byte_ones byte + bs_count_ones rest"

definition bs_count_zeros :: "bytes \<Rightarrow> nat outcome" where
  "bs_count_zeros d = (if bs_count_ones d \<le> bs_capacity d then Ok (bs_capacity d - bs_count_ones d) else Trap)"

definition bs_check_flags :: "bytes \<Rightarrow> nat \<Rightarrow> u8 \<Rightarrow> unit outcome" where
  "bs_check_flags d byte_offset required =
     fail_if (byte_offset \<ge> length d) InvalidArgument
       (obind (rd_byte d byte_offset) (\<lambda>b.
        fail_if (b AND required \<noteq> required) InvalidAccountData (Ok ())))"

definition bs_check_any_flag :: "bytes \<Rightarrow> nat \<Rightarrow> u8 \<Rightarrow> unit outcome" where
  "bs_check_any_flag d byte_offset any_of =
     fail_if (byte_offset \<ge> length d) InvalidArgument
       (obind (rd_byte d byte_offset) (\<lambda>b.
        fail_if (b AND any_of = 0) InvalidAccountData (Ok ())))"

definition bs_required_bytes :: "nat \<Rightarrow> nat" where
  "bs_required_bytes num_bits = (num_bits + 7) div 8"

section \<open>Counting\<close>

definition members :: "bytes \<Rightarrow> nat set" where
  "members d = {i. i < 8 * length d \<and> bits_at d i}"

lemma finite_members [simp]: "finite (members d)"
  by (simp add: members_def)

lemma members_Cons:
  "members (b # d) = {k. k < 8 \<and> bit b k} \<union> (\<lambda>i. i + 8) ` members d"
proof (rule set_eqI)
  fix i
  show "i \<in> members (b # d) \<longleftrightarrow> i \<in> {k. k < 8 \<and> bit b k} \<union> (\<lambda>i. i + 8) ` members d"
  proof (cases "i < 8")
    case True
    then show ?thesis by (auto simp: members_def bits_at_def)
  next
    case False
    then obtain j where j: "i = j + 8" by (metis le_add_diff_inverse2 not_less)
    then have "i div 8 = Suc (j div 8)" "i mod 8 = j mod 8" by simp_all
    then show ?thesis using j by (auto simp: members_def bits_at_def)
  qed
qed

lemma count_ones_card: "bs_count_ones d = card (members d)"
proof (induction d)
  case Nil
  then show ?case by (simp add: members_def)
next
  case (Cons b d)
  have "{k. k < 8 \<and> bit b k} = set (filter (bit b) [0..<8])" by auto
  then have "card {k. k < 8 \<and> bit b k} = byte_ones b"
    unfolding byte_ones_def by (metis distinct_card distinct_filter distinct_upt)
  moreover have "card ((\<lambda>i. i + 8) ` members d) = card (members d)"
    by (intro card_image) (simp add: inj_on_def)
  moreover have "{k. k < 8 \<and> bit b k} \<inter> (\<lambda>i. i + 8) ` members d = {}" by auto
  ultimately show ?case
    unfolding members_Cons using Cons by (subst card_Un_disjoint) auto
qed

lemma card_members_le: "card (members d) \<le> 8 * length d"
proof -
  have "members d \<subseteq> {..<8 * length d}" by (auto simp: members_def)
  then show ?thesis using card_mono [of "{..<8 * length d}" "members d"] by simp
qed

section \<open>Refinement\<close>

datatype bit_call = BGet nat | BSet nat | BClear nat | BToggle nat | BOnes | BZeros | BCheckAll nat u8 | BCheckAny nat u8

fun bs_exec :: "bytes \<Rightarrow> bit_call \<Rightarrow> (bytes \<times> answer) outcome" where
  "bs_exec d (BGet i) = read_call d (bs_get d i) RBool"
| "bs_exec d (BSet i) = unit_call (bs_set d i)"
| "bs_exec d (BClear i) = unit_call (bs_clear d i)"
| "bs_exec d (BToggle i) = unit_call (bs_toggle d i)"
| "bs_exec d BOnes = Ok (d, RNum (bs_count_ones d))"
| "bs_exec d BZeros = read_call d (bs_count_zeros d) RNum"
| "bs_exec d (BCheckAll o' m) = read_call d (bs_check_flags d o' m) (\<lambda>_. RUnit)"
| "bs_exec d (BCheckAny o' m) = read_call d (bs_check_any_flag d o' m) (\<lambda>_. RUnit)"

text \<open>The set of byte \<open>o'\<close>'s mask.\<close>

definition mask_members :: "nat \<Rightarrow> u8 \<Rightarrow> nat set" where
  "mask_members o' m = (\<lambda>k. 8 * o' + k) ` {k. k < 8 \<and> bit m k}"

fun set_exec :: "nat \<times> nat set \<Rightarrow> bit_call \<Rightarrow> ((nat \<times> nat set) \<times> answer) outcome" where
  "set_exec (n, A) (BGet i) = (if i < 8 * n then Ok ((n, A), RBool (i \<in> A)) else Err InvalidArgument)"
| "set_exec (n, A) (BSet i) = (if i < 8 * n then Ok ((n, insert i A), RUnit) else Err InvalidArgument)"
| "set_exec (n, A) (BClear i) = (if i < 8 * n then Ok ((n, A - {i}), RUnit) else Err InvalidArgument)"
| "set_exec (n, A) (BToggle i) =
     (if i < 8 * n then Ok ((n, if i \<in> A then A - {i} else insert i A), RUnit) else Err InvalidArgument)"
| "set_exec (n, A) BOnes = Ok ((n, A), RNum (card A))"
| "set_exec (n, A) BZeros = Ok ((n, A), RNum (8 * n - card A))"
| "set_exec (n, A) (BCheckAll o' m) =
     (if o' \<ge> n then Err InvalidArgument
      else if mask_members o' m \<subseteq> A then Ok ((n, A), RUnit) else Err InvalidAccountData)"
| "set_exec (n, A) (BCheckAny o' m) =
     (if o' \<ge> n then Err InvalidArgument
      else if mask_members o' m \<inter> A \<noteq> {} then Ok ((n, A), RUnit) else Err InvalidAccountData)"

definition bs_abs :: "bytes \<Rightarrow> nat \<times> nat set" where
  "bs_abs d = (length d, members d)"

lemma index_in_range: "i div 8 < length d \<longleftrightarrow> i < 8 * length d"
  by (simp add: div_less_iff_less_mult mult.commute)

lemma members_updates:
  assumes "i < 8 * length d"
  shows "members (d[i div 8 := bit_on (d ! (i div 8)) (i mod 8)]) = insert i (members d)"
    and "members (d[i div 8 := bit_off (d ! (i div 8)) (i mod 8)]) = members d - {i}"
    and "members (d[i div 8 := bit_flip (d ! (i div 8)) (i mod 8)]) =
      (if i \<in> members d then members d - {i} else insert i (members d))"
  using assms bits_at_update [OF assms] by (auto simp: members_def)

lemma byte_eq_iff: "a = b \<longleftrightarrow> (\<forall>k < 8. bit a k = bit b k)" for a b :: u8
  by (auto intro: bit_word_eqI)

lemma mask_checks:
  assumes "o' < length d"
  shows "d ! o' AND m = m \<longleftrightarrow> mask_members o' m \<subseteq> members d"
    and "d ! o' AND m = 0 \<longleftrightarrow> mask_members o' m \<inter> members d = {}"
proof -
  have mem: "8 * o' + k \<in> members d \<longleftrightarrow> bit (d ! o') k" if "k < 8" for k
    using that assms by (simp add: members_def bits_at_def)
  show "d ! o' AND m = m \<longleftrightarrow> mask_members o' m \<subseteq> members d"
    unfolding byte_eq_iff by (auto simp: bit_and_iff mask_members_def mem)
  show "d ! o' AND m = 0 \<longleftrightarrow> mask_members o' m \<inter> members d = {}"
    unfolding byte_eq_iff by (auto simp: bit_and_iff mask_members_def mem)
qed

lemma bs_exec_step: "map_state bs_abs (bs_exec d c) = set_exec (bs_abs d) c"
proof (cases c)
  case (BGet i)
  have "i < 8 * length d \<Longrightarrow> bits_at d i = (i \<in> members d)" by (simp add: members_def)
  then show ?thesis unfolding BGet
    by (cases "i < 8 * length d") (simp_all add: call_defs bs_abs_def bs_get_def Let_def bits_at_def not_le index_in_range)
next
  case (BSet i)
  then show ?thesis
    by (cases "i < 8 * length d")
      (simp_all add: call_defs bs_abs_def bs_set_def Let_def wr_byte_def not_le index_in_range members_updates(1))
next
  case (BClear i)
  then show ?thesis
    by (cases "i < 8 * length d")
      (simp_all add: call_defs bs_abs_def bs_clear_def Let_def wr_byte_def not_le index_in_range members_updates(2))
next
  case (BToggle i)
  then show ?thesis
    by (cases "i < 8 * length d")
      (simp_all add: call_defs bs_abs_def bs_toggle_def Let_def wr_byte_def not_le index_in_range members_updates(3))
next
  case (BCheckAll o' m)
  then show ?thesis using mask_checks(1) [of o' d m]
    by (auto simp: call_defs bs_abs_def bs_check_flags_def not_le)
next
  case (BCheckAny o' m)
  then show ?thesis using mask_checks(2) [of o' d m]
    by (auto simp: call_defs bs_abs_def bs_check_any_flag_def not_le)
qed (use card_members_le [of d] in
  \<open>auto simp: call_defs bs_abs_def count_ones_card bs_count_zeros_def bs_capacity_def mult.commute\<close>)

interpretation bs_sim: simulation bs_exec set_exec bs_abs "\<lambda>d. True" "\<lambda>c. True"
proof
  fix d c
  show "map_state bs_abs (bs_exec d c) = set_exec (bs_abs d) c" by (rule bs_exec_step)
next
  fix a c
  show "set_exec a c \<noteq> Trap" by (cases a; cases c) auto
qed simp

section \<open>Properties\<close>

text \<open>
  \<open>BitSet\<close> is a finite set of indices below eight times the slice length: every
  sequence of get, set, clear, toggle, counting and mask-check calls answers as the set
  does, and none indexes outside the slice.
\<close>

theorem bit_set_refines_finite_set:
  "bs_abs (fst (run_calls bs_exec d cs)) = fst (run_calls set_exec (bs_abs d) cs) \<and>
   snd (run_calls bs_exec d cs) = snd (run_calls set_exec (bs_abs d) cs) \<and>
   Trap \<notin> set (snd (run_calls bs_exec d cs))"
  using bs_sim.run_refines [where s = d and cs = cs] bs_sim.safe.run_safe [where s = d and cs = cs] by (simp add: list_all_iff)

end
