(* ===== verification/Slab.thy ===== *)
theory Slab imports Slots BitSet begin

text \<open>
  hopper-core/src/collections/slab.rs: a pool of fixed slots with an occupancy bitmap and a
  free list threaded through the free slots,
  \<open>[count: u32][capacity: u32][free_head: u32][reserved: u32][bitmap][slot 0][slot 1]...\<close>.
  \<open>es\<close> is \<^verbatim>\<open>T::SIZE\<close>. Two levels are shown: on any bytes the constructor accepts the
  methods refine a pool whose free list may be arbitrarily corrupted (so a live slot is
  never handed out); a slab made by \<open>init\<close> refines a last-in first-out allocator.
\<close>

unbundle bit_operations_syntax

definition slab_header_size :: nat where "slab_header_size = 16"
definition no_free :: nat where "no_free = 0xFFFFFFFF"

definition bitmap_bytes :: "nat \<Rightarrow> nat" where
  "bitmap_bytes capacity = (capacity + 7) div 8"

definition slab_from_bytes :: "nat \<Rightarrow> bytes \<Rightarrow> view outcome" where
  "slab_from_bytes es d =
     fail_if (length d < slab_header_size) AccountDataTooSmall
     (fail_if (es < 4) InvalidArgument
     (obind (rd_u32 d 4) (\<lambda>capacity.
      let needed = slab_header_size + bitmap_bytes capacity + capacity * es in
      fail_if (length d < needed) AccountDataTooSmall
     (obind (rd_u32 d 0) (\<lambda>count.
      fail_if (count > capacity) InvalidAccountData
     (Ok \<lparr>vdata = d, vcap = capacity\<rparr>))))))"

text \<open>The free-list loop of \<open>init\<close>, for slots \<open>i ..< i + left\<close>.\<close>

fun slab_link :: "nat \<Rightarrow> nat \<Rightarrow> nat \<Rightarrow> bytes \<Rightarrow> nat \<Rightarrow> nat \<Rightarrow> bytes outcome" where
  "slab_link es slots_start capacity d i 0 = Ok d"
| "slab_link es slots_start capacity d i (Suc left) =
     obind (wr_u32 d (slots_start + i * es) (if i + 1 < capacity then i + 1 else no_free)) (\<lambda>d'.
     slab_link es slots_start capacity d' (Suc i) left)"

definition slab_init :: "nat \<Rightarrow> bytes \<Rightarrow> nat \<Rightarrow> bytes outcome" where
  "slab_init es d capacity =
     fail_if (es < 4) InvalidArgument
       (let bmap_len = bitmap_bytes capacity;
            needed = slab_header_size + bmap_len + capacity * es in
        fail_if (length d < needed) AccountDataTooSmall
          (obind (wr_u32 d 0 0) (\<lambda>d.
           obind (wr_u32 d 4 capacity) (\<lambda>d.
           obind (wr_u32 d 8 0) (\<lambda>d.
           obind (wr_u32 d 12 0) (\<lambda>d.
           obind (zero_bytes d slab_header_size bmap_len) (\<lambda>d.
           slab_link es (slab_header_size + bmap_len) capacity d 0 capacity)))))))"

definition slab_bitmap_offset :: nat where
  "slab_bitmap_offset = slab_header_size"

definition slab_slots_offset :: "view \<Rightarrow> nat" where
  "slab_slots_offset v = slab_header_size + bitmap_bytes (vcap v)"

definition slab_is_allocated :: "view \<Rightarrow> nat \<Rightarrow> bool outcome" where
  "slab_is_allocated v index =
     obind (rd_byte (vdata v) (slab_bitmap_offset + index div 8)) (\<lambda>b. Ok (bit_test b (index mod 8)))"

definition slab_mark_allocated :: "view \<Rightarrow> nat \<Rightarrow> view outcome" where
  "slab_mark_allocated v index =
     (let k = slab_bitmap_offset + index div 8 in
      obind (rd_byte (vdata v) k) (\<lambda>b.
      obind (wr_byte (vdata v) k (bit_on b (index mod 8))) (\<lambda>d. Ok (v\<lparr>vdata := d\<rparr>))))"

definition slab_mark_free :: "view \<Rightarrow> nat \<Rightarrow> view outcome" where
  "slab_mark_free v index =
     (let k = slab_bitmap_offset + index div 8 in
      obind (rd_byte (vdata v) k) (\<lambda>b.
      obind (wr_byte (vdata v) k (bit_off b (index mod 8))) (\<lambda>d. Ok (v\<lparr>vdata := d\<rparr>))))"

definition slab_count :: "view \<Rightarrow> nat outcome" where
  "slab_count v = rd_u32 (vdata v) 0"

definition slab_is_empty :: "view \<Rightarrow> bool outcome" where
  "slab_is_empty v = obind (slab_count v) (\<lambda>n. Ok (n = 0))"

definition slab_remaining_capacity :: "view \<Rightarrow> nat outcome" where
  "slab_remaining_capacity v = obind (slab_count v) (\<lambda>n. Ok (vcap v - n))"

definition slab_free_head :: "view \<Rightarrow> nat outcome" where
  "slab_free_head v = rd_u32 (vdata v) 8"

definition slab_is_full :: "view \<Rightarrow> bool outcome" where
  "slab_is_full v = obind (slab_free_head v) (\<lambda>h. Ok (h = no_free))"

definition slab_is_slot_allocated :: "view \<Rightarrow> nat \<Rightarrow> bool outcome" where
  "slab_is_slot_allocated v index =
     (if index < vcap v then slab_is_allocated v index else Ok False)"

definition slab_alloc :: "nat \<Rightarrow> view \<Rightarrow> bytes \<Rightarrow> (view \<times> nat) outcome" where
  "slab_alloc es v x =
     obind (slab_free_head v) (\<lambda>head.
     fail_if (head = no_free) AccountDataTooSmall
     (fail_if (head \<ge> vcap v) InvalidAccountData
     (obind (slab_is_allocated v head) (\<lambda>taken.
      fail_if taken InvalidAccountData
     (let slot_offset = slab_slots_offset v + head * es in
      obind (rd_u32 (vdata v) slot_offset) (\<lambda>next_free.
      obind (wr (vdata v) slot_offset x) (\<lambda>d.
      obind (slab_mark_allocated (v\<lparr>vdata := d\<rparr>) head) (\<lambda>v1.
      obind (wr_u32 (vdata v1) 8 next_free) (\<lambda>d2.
      let v2 = v1\<lparr>vdata := d2\<rparr> in
      obind (slab_count v2) (\<lambda>count.
      obind (wr_u32 (vdata v2) 0 (min (count + 1) 0xFFFFFFFF)) (\<lambda>d3.
      Ok (v2\<lparr>vdata := d3\<rparr>, head))))))))))))"

definition slab_free :: "nat \<Rightarrow> view \<Rightarrow> nat \<Rightarrow> view outcome" where
  "slab_free es v index =
     fail_if (index \<ge> vcap v) InvalidArgument
     (obind (slab_is_allocated v index) (\<lambda>taken.
      fail_if (\<not> taken) InvalidArgument
     (let slot_offset = slab_slots_offset v + index * es in
      obind (slab_free_head v) (\<lambda>current_head.
      obind (wr_u32 (vdata v) slot_offset current_head) (\<lambda>d.
      obind (zero_bytes d (slot_offset + 4) (es - 4)) (\<lambda>d1.
      obind (slab_mark_free (v\<lparr>vdata := d1\<rparr>) index) (\<lambda>v1.
      obind (wr_u32 (vdata v1) 8 index) (\<lambda>d2.
      let v2 = v1\<lparr>vdata := d2\<rparr> in
      obind (slab_count v2) (\<lambda>count.
      obind (wr_u32 (vdata v2) 0 (count - 1)) (\<lambda>d3.
      Ok (v2\<lparr>vdata := d3\<rparr>)))))))))))"

text \<open>The occupancy guard the slot accessors share, then the access.\<close>

definition slab_checked :: "view \<Rightarrow> nat \<Rightarrow> 'a outcome \<Rightarrow> 'a outcome" where
  "slab_checked v index rest =
     fail_if (index \<ge> vcap v) InvalidArgument
     (obind (slab_is_allocated v index) (\<lambda>taken. fail_if (\<not> taken) InvalidArgument rest))"

definition slab_get :: "nat \<Rightarrow> view \<Rightarrow> nat \<Rightarrow> bytes outcome" where
  "slab_get es v index = slab_checked v index (rd (vdata v) (slab_slots_offset v + index * es) es)"

definition slab_set :: "nat \<Rightarrow> view \<Rightarrow> nat \<Rightarrow> bytes \<Rightarrow> view outcome" where
  "slab_set es v index x =
     slab_checked v index
       (obind (wr (vdata v) (slab_slots_offset v + index * es) x) (\<lambda>d. Ok (v\<lparr>vdata := d\<rparr>)))"

definition slab_required_bytes :: "nat \<Rightarrow> nat \<Rightarrow> nat" where
  "slab_required_bytes es capacity = slab_header_size + bitmap_bytes capacity + capacity * es"

section \<open>The pool\<close>

record pool =
  p_count :: nat
  p_head :: nat
  p_cells :: "(bool \<times> bytes) list"

definition occ :: "bytes \<Rightarrow> nat \<Rightarrow> bool" where
  "occ d i \<longleftrightarrow> bit (d ! (16 + i div 8)) (i mod 8)"

definition slots_at :: "nat \<Rightarrow> nat" where
  "slots_at n = 16 + bitmap_bytes n"

definition pool_at :: "nat \<Rightarrow> nat \<Rightarrow> bytes \<Rightarrow> pool" where
  "pool_at es n d = \<lparr>p_count = u32_at d 0, p_head = u32_at d 8,
     p_cells = map (\<lambda>i. (occ d i, slot_get (slots_at n) es d i)) [0..<n]\<rparr>"

definition slab_room :: "nat \<Rightarrow> nat \<Rightarrow> bytes \<Rightarrow> bool" where
  "slab_room es n d \<longleftrightarrow> 4 \<le> es \<and> slots_at n + n * es \<le> length d"

lemma bitmap_holds: "i < n \<Longrightarrow> 16 + i div 8 < slots_at n"
  by (simp add: slots_at_def bitmap_bytes_def)

lemma slots_at_ge: "16 \<le> slots_at n"
  by (simp add: slots_at_def)

lemma slab_room_slots:
  assumes "slab_room es n d"
  shows "n \<le> slot_room (slots_at n) es d" and "slots_at n \<le> length d" and "4 \<le> es"
proof -
  show "4 \<le> es" and "slots_at n \<le> length d" using assms by (auto simp: slab_room_def)
  then have "n * es \<le> length d - slots_at n" and "0 < es" using assms by (auto simp: slab_room_def)
  then show "n \<le> slot_room (slots_at n) es d"
    by (simp add: slot_room_def less_eq_div_iff_mult_less_eq)
qed

lemma length_p_cells [simp]: "length (p_cells (pool_at es n d)) = n"
  by (simp add: pool_at_def)

lemma p_cells_nth: "i < n \<Longrightarrow> p_cells (pool_at es n d) ! i = (occ d i, slot_get (slots_at n) es d i)"
  by (simp add: pool_at_def)

lemma cells_update:
  assumes "i < n" and "\<And>j. j < n \<Longrightarrow> f j = (if j = i then c else g j)"
  shows "map f [0..<n] = (map g [0..<n])[i := c]"
  using assms by (intro nth_equalityI) (auto simp: nth_list_update)

text \<open>The three kinds of write, each as a change of the pool.\<close>

lemma pool_slot_put:
  assumes "slab_room es n d" and "i < n" and "length x = es"
  shows "pool_at es n (slot_put (slots_at n) es d i x) =
      (pool_at es n d)\<lparr>p_cells := (p_cells (pool_at es n d))[i := (occ d i, x)]\<rparr>"
    and "slab_room es n (slot_put (slots_at n) es d i x)"
proof -
  let ?d = "slot_put (slots_at n) es d i x"
  note R = slab_room_slots [OF assms(1)]
  have i: "i < slot_room (slots_at n) es d" using R(1) assms(2) by simp
  have "occ ?d j = occ d j" if "j < n" for j
  proof -
    have "16 + j div 8 < slots_at n" using bitmap_holds [OF that] .
    then have "?d ! (16 + j div 8) = d ! (16 + j div 8)"
      using slot_in_bounds [OF i] assms(3) by (simp add: slot_put_def bsplice_nth)
    then show ?thesis by (simp add: occ_def)
  qed
  moreover have "slot_get (slots_at n) es ?d j = (if j = i then x else slot_get (slots_at n) es d j)"
    if "j < n" for j
    using i assms(3) that R(1) by (auto simp: arr.get_put_same arr.get_put_other)
  ultimately have "map (\<lambda>j. (occ ?d j, slot_get (slots_at n) es ?d j)) [0..<n] =
      (map (\<lambda>j. (occ d j, slot_get (slots_at n) es d j)) [0..<n])[i := (occ d i, x)]"
    using assms(2) by (intro cells_update) auto
  moreover have "u32_at ?d 0 = u32_at d 0" "u32_at ?d 8 = u32_at d 8"
    using i assms(3) slots_at_ge [of n] by (auto intro!: u32_at_slot_put)
  ultimately show "pool_at es n ?d = (pool_at es n d)\<lparr>p_cells := (p_cells (pool_at es n d))[i := (occ d i, x)]\<rparr>"
    by (simp add: pool_at_def)
  show "slab_room es n ?d" using assms i by (simp add: slab_room_def)
qed

lemma pool_bit_put:
  assumes "slab_room es n d" and "i < n" and "b \<in> {bit_on, bit_off}"
  shows "pool_at es n (d[16 + i div 8 := b (d ! (16 + i div 8)) (i mod 8)]) =
      (pool_at es n d)\<lparr>p_cells := (p_cells (pool_at es n d))[i := (b = bit_on, slot_get (slots_at n) es d i)]\<rparr>"
    and "slab_room es n (d[16 + i div 8 := b (d ! (16 + i div 8)) (i mod 8)])"
proof -
  let ?k = "16 + i div 8"
  let ?d = "d[?k := b (d ! ?k) (i mod 8)]"
  note R = slab_room_slots [OF assms(1)]
  have k: "?k < slots_at n" using bitmap_holds [OF assms(2)] .
  have same: "bit_on \<noteq> bit_off"
  proof
    assume "bit_on = bit_off"
    then have "bit (bit_on 0 0) 0 = bit (bit_off 0 0) 0" by simp
    then show False by simp
  qed
  have splice: "?d = bsplice ?k [b (d ! ?k) (i mod 8)] d"
    using k R(2) by (simp add: bsplice_def upd_conv_take_nth_drop)
  have slots: "slot_get (slots_at n) es ?d j = slot_get (slots_at n) es d j" if "j < n" for j
    unfolding splice using that R k by (intro slot_get_header) auto
  have occs: "occ ?d j = (if j = i then b = bit_on else occ d j)" if "j < n" for j
  proof (cases "j div 8 = i div 8")
    case True
    have "j mod 8 < 8" "i mod 8 < 8" by simp_all
    moreover have "j = i \<longleftrightarrow> j mod 8 = i mod 8" using True by (metis div_mult_mod_eq)
    ultimately show ?thesis using True assms(3) same k R(2) by (auto simp: occ_def)
  next
    case False
    then show ?thesis by (auto simp: occ_def)
  qed
  have "map (\<lambda>j. (occ ?d j, slot_get (slots_at n) es ?d j)) [0..<n] =
      (map (\<lambda>j. (occ d j, slot_get (slots_at n) es d j)) [0..<n])[i := (b = bit_on, slot_get (slots_at n) es d i)]"
    using assms(2) slots occs by (intro cells_update) auto
  moreover have "u32_at ?d 0 = u32_at d 0" "u32_at ?d 8 = u32_at d 8"
    unfolding splice using R(2) k by (auto intro!: u32_at_bsplice_disjoint)
  ultimately show "pool_at es n ?d =
      (pool_at es n d)\<lparr>p_cells := (p_cells (pool_at es n d))[i := (b = bit_on, slot_get (slots_at n) es d i)]\<rparr>"
    by (simp add: pool_at_def)
  show "slab_room es n ?d" using assms(1) by (simp add: slab_room_def)
qed

lemma pool_header_put:
  assumes "slab_room es n d" and "a = 0 \<or> a = 8"
  shows "pool_at es n (bsplice a (le_enc 4 w) d) =
      (if a = 0 then (pool_at es n d)\<lparr>p_count := w mod 2 ^ 32\<rparr> else (pool_at es n d)\<lparr>p_head := w mod 2 ^ 32\<rparr>)"
    and "slab_room es n (bsplice a (le_enc 4 w) d)"
proof -
  let ?d = "bsplice a (le_enc 4 w) d"
  note R = slab_room_slots [OF assms(1)]
  have len: "a + 4 \<le> length d" and base: "a + 4 \<le> slots_at n" using R(2) slots_at_ge [of n] assms(2) by auto
  have "occ ?d j = occ d j" if "j < n" for j
  proof -
    have k: "16 + j div 8 < length d" using bitmap_holds [OF that] R(2) by (rule less_le_trans)
    have "a + 4 \<le> 16 + j div 8" using assms(2) by (rule disjE) simp_all
    then have "?d ! (16 + j div 8) = d ! (16 + j div 8)"
      using k len by (subst bsplice_nth) simp_all
    then show ?thesis by (simp only: occ_def)
  qed
  moreover have "slot_get (slots_at n) es ?d j = slot_get (slots_at n) es d j" if "j < n" for j
    using that R(1) len base by (intro slot_get_header) auto
  ultimately have cells: "p_cells (pool_at es n ?d) = p_cells (pool_at es n d)" by (simp add: pool_at_def)
  have "u32_at ?d a = w mod 2 ^ 32" using len by (rule u32_at_bsplice_same)
  moreover have "u32_at ?d (8 - a) = u32_at d (8 - a)"
    using len assms(2) R(2) slots_at_ge [of n] by (intro u32_at_bsplice_disjoint) auto
  ultimately have "p_count (pool_at es n ?d) = (if a = 0 then w mod 2 ^ 32 else u32_at d 0)"
    and "p_head (pool_at es n ?d) = (if a = 0 then u32_at d 8 else w mod 2 ^ 32)"
    using assms(2) unfolding pool_at_def by fastforce+
  then show "pool_at es n ?d =
      (if a = 0 then (pool_at es n d)\<lparr>p_count := w mod 2 ^ 32\<rparr> else (pool_at es n d)\<lparr>p_head := w mod 2 ^ 32\<rparr>)"
    using cells by (cases "a = 0") (simp_all add: pool_at_def)
  show "slab_room es n ?d" using assms(1) len by (simp add: slab_room_def)
qed

section \<open>The operations on the pool\<close>

definition slab_inv :: "nat \<Rightarrow> view \<Rightarrow> bool" where
  "slab_inv es v \<longleftrightarrow> slab_room es (vcap v) (vdata v) \<and> account_sized (vdata v)"

definition slab_pool :: "nat \<Rightarrow> view \<Rightarrow> pool" where
  "slab_pool es v = pool_at es (vcap v) (vdata v)"

definition cell_next :: "bool \<times> bytes \<Rightarrow> nat" where
  "cell_next c = le_val (take 4 (snd c))"

definition pool_taken :: "pool \<Rightarrow> nat \<Rightarrow> bool" where
  "pool_taken p i \<longleftrightarrow> i < length (p_cells p) \<and> fst (p_cells p ! i)"

definition pool_alloc :: "pool \<Rightarrow> bytes \<Rightarrow> (pool \<times> nat) outcome" where
  "pool_alloc p x =
     fail_if (p_head p = no_free) AccountDataTooSmall
     (fail_if (p_head p \<ge> length (p_cells p) \<or> pool_taken p (p_head p)) InvalidAccountData
     (Ok (p\<lparr>p_count := min (p_count p + 1) (2 ^ 32 - 1), p_head := cell_next (p_cells p ! p_head p),
            p_cells := (p_cells p)[p_head p := (True, x)]\<rparr>, p_head p)))"

definition pool_free :: "nat \<Rightarrow> pool \<Rightarrow> nat \<Rightarrow> pool outcome" where
  "pool_free es p i =
     fail_if (\<not> pool_taken p i) InvalidArgument
     (Ok (p\<lparr>p_count := p_count p - 1, p_head := i,
            p_cells := (p_cells p)[i := (False, le_enc 4 (p_head p) @ replicate (es - 4) 0)]\<rparr>))"

lemma slab_reads:
  assumes "slab_inv es v"
  shows "slab_count v = Ok (p_count (slab_pool es v))"
    and "slab_free_head v = Ok (p_head (slab_pool es v))"
    and "i < vcap v \<Longrightarrow> slab_is_allocated v i = Ok (fst (p_cells (slab_pool es v) ! i))"
    and "i < vcap v \<Longrightarrow> rd (vdata v) (slab_slots_offset v + i * es) es = Ok (snd (p_cells (slab_pool es v) ! i))"
    and "i < vcap v \<Longrightarrow> rd_u32 (vdata v) (slab_slots_offset v + i * es) = Ok (cell_next (p_cells (slab_pool es v) ! i))"
    and "p_count (slab_pool es v) < 2 ^ 32" and "p_head (slab_pool es v) < 2 ^ 32"
    and "vcap v < 2 ^ 32"
proof -
  have R: "vcap v \<le> slot_room (slots_at (vcap v)) es (vdata v)" "slots_at (vcap v) \<le> length (vdata v)" "4 \<le> es"
    using slab_room_slots assms unfolding slab_inv_def by blast+
  note L = R(2) slots_at_ge [of "vcap v"]
  show "slab_count v = Ok (p_count (slab_pool es v))"
    and "slab_free_head v = Ok (p_head (slab_pool es v))"
    using L by (simp_all add: slab_count_def slab_free_head_def slab_pool_def pool_at_def)
  show "p_count (slab_pool es v) < 2 ^ 32" and "p_head (slab_pool es v) < 2 ^ 32"
    using L u32_at_bound [of 0 "vdata v"] u32_at_bound [of 8 "vdata v"] by (auto simp: slab_pool_def pool_at_def)
  show "vcap v < 2 ^ 32"
    using R(1) slot_room_small [of "vdata v" "slots_at (vcap v)" es] assms by (simp add: slab_inv_def)
  assume i: "i < vcap v"
  have "16 + i div 8 < length (vdata v)" using bitmap_holds [OF i] R(2) by (rule less_le_trans)
  then show "slab_is_allocated v i = Ok (fst (p_cells (slab_pool es v) ! i))"
    using i by (simp add: slab_is_allocated_def slab_bitmap_offset_def slab_header_size_def slab_pool_def p_cells_nth occ_def)
  have ir: "i < slot_room (slots_at (vcap v)) es (vdata v)" using i R(1) by simp
  show "rd (vdata v) (slab_slots_offset v + i * es) es = Ok (snd (p_cells (slab_pool es v) ! i))"
    using ir i by (simp add: slab_slots_offset_def slab_header_size_def slab_pool_def p_cells_nth flip: slots_at_def)
  have "rd (vdata v) (slots_at (vcap v) + i * es) 4 = Ok (take 4 (slot_get (slots_at (vcap v)) es (vdata v) i))"
    using slot_part [OF ir, of 0 4] R(3) by (simp add: bslice_take_drop)
  then show "rd_u32 (vdata v) (slab_slots_offset v + i * es) = Ok (cell_next (p_cells (slab_pool es v) ! i))"
    using i by (simp add: rd_u32_def slab_slots_offset_def slab_header_size_def slab_pool_def p_cells_nth cell_next_def
        flip: slots_at_def)
qed

lemma slab_checked_eq:
  assumes "slab_inv es v"
  shows "slab_checked v i rest = (if pool_taken (slab_pool es v) i then rest else Err InvalidArgument)"
proof -
  have "length (p_cells (slab_pool es v)) = vcap v" by (simp add: slab_pool_def)
  then show ?thesis using slab_reads(3) [OF assms, of i]
    by (auto simp: slab_checked_def pool_taken_def not_le)
qed

text \<open>The tail both \<open>alloc\<close> and \<open>free\<close> end with: bitmap, head, count.\<close>

lemma slab_finish:
  assumes room: "slab_room es n d" and size: "account_sized d" and i: "i < n"
    and b: "b \<in> {bit_on, bit_off}" and h: "h < 2 ^ 32" and c: "c < 2 ^ 32"
  shows "\<exists>d'. obind (wr_byte d (16 + i div 8) (b (d ! (16 + i div 8)) (i mod 8))) (\<lambda>d1.
      obind (wr_u32 d1 8 h) (\<lambda>d2. wr_u32 d2 0 c)) = Ok d' \<and>
    slab_room es n d' \<and> account_sized d' \<and>
    pool_at es n d' = \<lparr>p_count = c, p_head = h,
      p_cells = (p_cells (pool_at es n d))[i := (b = bit_on, slot_get (slots_at n) es d i)]\<rparr>"
proof -
  let ?d1 = "d[16 + i div 8 := b (d ! (16 + i div 8)) (i mod 8)]"
  let ?d2 = "bsplice 8 (le_enc 4 h) ?d1"
  let ?d3 = "bsplice 0 (le_enc 4 c) ?d2"
  have len: "16 + i div 8 < length d" and l16: "16 \<le> length d"
    using bitmap_holds [OF i] slab_room_slots(2) [OF room] slots_at_ge [of n] by linarith+
  have w1: "wr_byte d (16 + i div 8) (b (d ! (16 + i div 8)) (i mod 8)) = Ok ?d1"
    using len by (simp add: wr_byte_def)
  have w2: "wr_u32 ?d1 8 h = Ok ?d2" and w3: "wr_u32 ?d2 0 c = Ok ?d3" using l16 by simp_all
  note P1 = pool_bit_put [OF room i b]
  note P2 = pool_header_put [OF P1(2), of 8 h]
  note P3 = pool_header_put [OF P2(2), of 0 c]
  have "slab_room es n ?d3" using P3(2) by simp
  moreover have "account_sized ?d3" using size l16 by (simp add: account_sized_def)
  moreover have "pool_at es n ?d3 = (pool_at es n ?d1)\<lparr>p_head := h, p_count := c\<rparr>"
    using P3(1) P2(1) h c by simp
  ultimately show ?thesis using w1 w2 w3 P1(1) by simp
qed

text \<open>Reads do not see the write of another header field.\<close>

lemma count_after:
  assumes "slab_room es n d" and "i < n"
  shows "rd_u32 (bsplice 8 (le_enc 4 h) (d[16 + i div 8 := y])) 0 = Ok (p_count (pool_at es n d))"
proof -
  have l16: "16 \<le> length d" using slab_room_slots(2) [OF assms(1)] slots_at_ge [of n] by linarith
  have "u32_at (d[16 + i div 8 := y]) 0 = u32_at d 0"
    unfolding u32_at_def bslice_def by simp
  then show ?thesis using l16 by (simp add: u32_at_bsplice_disjoint pool_at_def)
qed

lemma pool_fields_eq: "\<lparr>p_count = a, p_head = b, p_cells = c\<rparr> = p\<lparr>p_count := a, p_head := b, p_cells := c\<rparr>"
  for p :: pool by (cases p) simp

lemma slab_alloc_spec:
  assumes inv: "slab_inv es v" and x: "length x = es"
  shows "map_state (slab_pool es) (slab_alloc es v x) = pool_alloc (slab_pool es v) x \<and>
    (\<forall>v' i. slab_alloc es v x = Ok (v', i) \<longrightarrow> slab_inv es v' \<and> vcap v' = vcap v)"
proof -
  let ?p = "slab_pool es v" and ?n = "vcap v"
  let ?h = "p_head ?p" and ?d = "vdata v"
  note R = slab_reads [OF inv]
  have n: "length (p_cells ?p) = ?n" by (simp add: slab_pool_def)
  have room: "slab_room es ?n ?d" and size: "account_sized ?d" using inv by (auto simp: slab_inv_def)
  show ?thesis
  proof (cases "?h = no_free \<or> ?h \<ge> ?n \<or> pool_taken ?p ?h")
    case True
    then show ?thesis using R(2,3) n by (auto simp: slab_alloc_def pool_alloc_def pool_taken_def not_le)
  next
    case False
    then have h: "?h < ?n" and free: "\<not> fst (p_cells ?p ! ?h)" and nf: "?h \<noteq> no_free"
      using n by (auto simp: pool_taken_def)
    let ?d1 = "slot_put (slots_at ?n) es ?d ?h x"
    let ?k = "16 + ?h div 8"
    let ?nx = "cell_next (p_cells ?p ! ?h)"
    obtain c where c: "c = min (p_count ?p + 1) 4294967295" "c < 2 ^ 32" by simp
    have mc: "Suc (min (p_count ?p) 4294967294) = c" using c(1) by simp
    have hr: "?h < slot_room (slots_at ?n) es ?d" using h slab_room_slots(1) [OF room] by simp
    have w1: "wr ?d (slab_slots_offset v + ?h * es) x = Ok ?d1"
      using hr x by (simp add: slab_slots_offset_def slab_header_size_def flip: slots_at_def)
    note P = pool_slot_put [OF room h x]
    have len: "?k < length ?d1" using bitmap_holds [OF h] slab_room_slots(2) [OF P(2)] by linarith
    have "(256 :: nat) ^ length (take 4 (snd (p_cells ?p ! ?h))) \<le> 256 ^ 4"
      by (rule power_increasing) simp_all
    then have nx: "?nx < 2 ^ 32" using le_val_bound [of "take 4 (snd (p_cells ?p ! ?h))"]
      unfolding cell_next_def by simp
    have size1: "account_sized ?d1" using size hr x by (simp add: account_sized_def)
    from slab_finish [OF P(2) size1 h, of bit_on ?nx c] obtain d' where
      d': "obind (wr_byte ?d1 ?k (bit_on (?d1 ! ?k) (?h mod 8))) (\<lambda>d1. obind (wr_u32 d1 8 ?nx) (\<lambda>d2. wr_u32 d2 0 c)) = Ok d'"
      "slab_room es ?n d'" "account_sized d'"
      "pool_at es ?n d' = \<lparr>p_count = c, p_head = ?nx,
        p_cells = (p_cells (pool_at es ?n ?d1))[?h := (True, slot_get (slots_at ?n) es ?d1 ?h)]\<rparr>"
      using nx c(2) by auto
    have pc: "p_count (pool_at es ?n ?d1) = p_count ?p" unfolding P(1) by (simp add: slab_pool_def)
    have l16: "16 \<le> length ?d1" using len by simp
    have "slab_alloc es v x = Ok (v\<lparr>vdata := d'\<rparr>, ?h)"
      using R(2) R(3) [OF h] R(5) [OF h] h free nf w1 d'(1) len l16 count_after [OF P(2) h]
      by (simp add: slab_alloc_def slab_mark_allocated_def slab_bitmap_offset_def slab_header_size_def wr_byte_def
          slab_count_def pc Let_def mc)
    moreover have "pool_at es ?n d' = ?p\<lparr>p_count := c, p_head := ?nx, p_cells := (p_cells ?p)[?h := (True, x)]\<rparr>"
      using d'(4) P(1) hr x by (simp add: arr.get_put_same slab_pool_def pool_fields_eq)
    ultimately show ?thesis
      using d'(2,3) free nf h n by (simp add: slab_inv_def slab_pool_def pool_alloc_def pool_taken_def mc [unfolded slab_pool_def])
  qed
qed

lemma slab_free_spec:
  assumes inv: "slab_inv es v"
  shows "(case slab_free es v i of Ok v' \<Rightarrow> Ok (slab_pool es v') | Err e \<Rightarrow> Err e | Trap \<Rightarrow> Trap) = pool_free es (slab_pool es v) i \<and>
    (\<forall>v'. slab_free es v i = Ok v' \<longrightarrow> slab_inv es v' \<and> vcap v' = vcap v)"
proof (cases "pool_taken (slab_pool es v) i")
  case False
  have n: "length (p_cells (slab_pool es v)) = vcap v" by (simp add: slab_pool_def)
  then show ?thesis using False slab_reads(3) [OF inv, of i]
    by (auto simp: slab_free_def pool_free_def pool_taken_def not_le)
next
  case True
  let ?p = "slab_pool es v" and ?n = "vcap v" and ?d = "vdata v"
  let ?h = "p_head ?p" and ?k = "16 + i div 8"
  note R = slab_reads [OF inv]
  have room: "slab_room es ?n ?d" and size: "account_sized ?d" using inv by (auto simp: slab_inv_def)
  have i: "i < ?n" and taken: "fst (p_cells ?p ! i)" using True by (auto simp: pool_taken_def slab_pool_def)
  note S = slab_room_slots [OF room]
  have ir: "i < slot_room (slots_at ?n) es ?d" using i S(1) by simp
  let ?s = "slot_get (slots_at ?n) es ?d i"
  let ?s1 = "bsplice 0 (le_enc 4 ?h) ?s"
  let ?s2 = "bsplice 4 (replicate (es - 4) 0) ?s1"
  have s: "length ?s = es" using ir by simp
  then have s1: "length ?s1 = es" using S(3) by simp
  then have s2: "length ?s2 = es" using S(3) by simp
  have cell: "?s2 = le_enc 4 ?h @ replicate (es - 4) 0"
    using s s1 S(3) by (subst bsplice_tail) (simp_all add: bsplice_def)
  let ?d1 = "slot_put (slots_at ?n) es ?d i ?s1" and ?d2 = "slot_put (slots_at ?n) es ?d i ?s2"
  have off: "slab_slots_offset v = slots_at ?n" by (simp add: slab_slots_offset_def slab_header_size_def slots_at_def)
  have w1: "wr_u32 ?d (slots_at ?n + i * es) ?h = Ok ?d1"
    using slot_part_write [OF ir, of 0 "le_enc 4 ?h"] S(3) by (simp add: wr_u32_def)
  have ir1: "i < slot_room (slots_at ?n) es ?d1" using ir s1 by (simp add: arr.room_put)
  have w2: "zero_bytes ?d1 (slots_at ?n + i * es + 4) (es - 4) = Ok ?d2"
    using slot_part_write [OF ir1, of 4 "replicate (es - 4) 0"] S(3) ir s1 s2
    by (simp add: zero_bytes_def arr.get_put_same slot_put_put)
  note P = pool_slot_put [OF room i s2]
  have size1: "account_sized ?d2" using size ir s2 by (simp add: account_sized_def)
  have c: "p_count ?p - 1 < 2 ^ 32" using R(6) by simp
  from slab_finish [OF P(2) size1 i, of bit_off i "p_count ?p - 1"] obtain d' where
    d': "obind (wr_byte ?d2 ?k (bit_off (?d2 ! ?k) (i mod 8))) (\<lambda>d1. obind (wr_u32 d1 8 i) (\<lambda>d2. wr_u32 d2 0 (p_count ?p - 1))) = Ok d'"
    "slab_room es ?n d'" "account_sized d'"
    "pool_at es ?n d' = \<lparr>p_count = p_count ?p - 1, p_head = i,
      p_cells = (p_cells (pool_at es ?n ?d2))[i := (bit_off = bit_on, slot_get (slots_at ?n) es ?d2 i)]\<rparr>"
    using c i R(8) by auto
  have ne: "bit_off \<noteq> bit_on"
  proof
    assume "bit_off = bit_on"
    then have "bit (bit_on 0 0) 0 = bit (bit_off 0 0) 0" by simp
    then show False by simp
  qed
  have pc: "p_count (pool_at es ?n ?d2) = p_count ?p" unfolding P(1) by (simp add: slab_pool_def)
  have len: "?k < length ?d2" using bitmap_holds [OF i] slab_room_slots(2) [OF P(2)] by linarith
  have l16: "16 \<le> length ?d2" using len by simp
  have "slab_free es v i = Ok (v\<lparr>vdata := d'\<rparr>)"
    using R(2) R(3) [OF i] i taken w1 w2 d'(1) len l16 count_after [OF P(2) i]
    by (simp add: slab_free_def slab_mark_free_def slab_bitmap_offset_def slab_header_size_def wr_byte_def
        slab_count_def pc Let_def off)
  moreover have "pool_at es ?n d' = ?p\<lparr>p_count := p_count ?p - 1, p_head := i,
      p_cells := (p_cells ?p)[i := (False, le_enc 4 ?h @ replicate (es - 4) 0)]\<rparr>"
    using d'(4) P(1) ir s2 ne unfolding cell by (simp add: arr.get_put_same slab_pool_def pool_fields_eq)
  ultimately show ?thesis
    using d'(2,3) True by (simp add: slab_inv_def slab_pool_def pool_free_def)
qed

lemma slab_set_spec:
  assumes inv: "slab_inv es v" and x: "length x = es" and i: "pool_taken (slab_pool es v) i"
  shows "\<exists>v'. slab_set es v i x = Ok v' \<and> slab_inv es v' \<and> vcap v' = vcap v \<and>
    slab_pool es v' = (slab_pool es v)\<lparr>p_cells := (p_cells (slab_pool es v))[i := (True, x)]\<rparr>"
proof -
  let ?n = "vcap v" and ?d = "vdata v"
  have room: "slab_room es ?n ?d" and size: "account_sized ?d" using inv by (auto simp: slab_inv_def)
  have n: "i < ?n" and o': "occ ?d i" using i by (auto simp: pool_taken_def slab_pool_def p_cells_nth)
  then have ir: "i < slot_room (slots_at ?n) es ?d" using slab_room_slots(1) [OF room] by simp
  note P = pool_slot_put [OF room n x]
  have "slab_set es v i x = Ok (v\<lparr>vdata := slot_put (slots_at ?n) es ?d i x\<rparr>)"
    using i ir x by (simp add: slab_set_def slab_checked_eq [OF inv] slab_slots_offset_def slab_header_size_def
        flip: slots_at_def)
  moreover have "account_sized (slot_put (slots_at ?n) es ?d i x)" using size ir x by (simp add: account_sized_def)
  ultimately show ?thesis using P o' by (simp add: slab_inv_def slab_pool_def)
qed

section \<open>Refinement of the pool\<close>

datatype slab_call = SAlloc bytes | SFree nat | SGet nat | SSet nat bytes
  | SCount | SEmpty | SRemaining | SFull | SAllocated nat

fun slab_exec :: "nat \<Rightarrow> view \<Rightarrow> slab_call \<Rightarrow> (view \<times> answer) outcome" where
  "slab_exec es v (SAlloc x) = value_call (slab_alloc es v x) RNum"
| "slab_exec es v (SFree i) = unit_call (slab_free es v i)"
| "slab_exec es v (SGet i) = read_call v (slab_get es v i) RBytes"
| "slab_exec es v (SSet i x) = unit_call (slab_set es v i x)"
| "slab_exec es v SCount = read_call v (slab_count v) RNum"
| "slab_exec es v SEmpty = read_call v (slab_is_empty v) RBool"
| "slab_exec es v SRemaining = read_call v (slab_remaining_capacity v) RNum"
| "slab_exec es v SFull = read_call v (slab_is_full v) RBool"
| "slab_exec es v (SAllocated i) = read_call v (slab_is_slot_allocated v i) RBool"

fun slab_call_ok :: "nat \<Rightarrow> slab_call \<Rightarrow> bool" where
  "slab_call_ok es (SAlloc x) \<longleftrightarrow> length x = es"
| "slab_call_ok es (SSet i x) \<longleftrightarrow> length x = es"
| "slab_call_ok es _ \<longleftrightarrow> True"

fun pool_exec :: "nat \<Rightarrow> pool \<Rightarrow> slab_call \<Rightarrow> (pool \<times> answer) outcome" where
  "pool_exec es p (SAlloc x) = value_call (pool_alloc p x) RNum"
| "pool_exec es p (SFree i) = unit_call (pool_free es p i)"
| "pool_exec es p (SGet i) =
     (if pool_taken p i then Ok (p, RBytes (snd (p_cells p ! i))) else Err InvalidArgument)"
| "pool_exec es p (SSet i x) =
     (if pool_taken p i then Ok (p\<lparr>p_cells := (p_cells p)[i := (True, x)]\<rparr>, RUnit) else Err InvalidArgument)"
| "pool_exec es p SCount = Ok (p, RNum (p_count p))"
| "pool_exec es p SEmpty = Ok (p, RBool (p_count p = 0))"
| "pool_exec es p SRemaining = Ok (p, RNum (length (p_cells p) - p_count p))"
| "pool_exec es p SFull = Ok (p, RBool (p_head p = no_free))"
| "pool_exec es p (SAllocated i) = Ok (p, RBool (pool_taken p i))"

lemma map_state_calls:
  "map_state f (value_call m g) = value_call (map_state f m) g"
  "map_state f (unit_call k) = unit_call (case k of Ok s \<Rightarrow> Ok (f s) | Err e \<Rightarrow> Err e | Trap \<Rightarrow> Trap)"
  by (cases m rule: result_of.cases; simp add: call_defs) (cases k; simp add: call_defs)

lemma slab_exec_step:
  assumes inv: "slab_inv es v" and ok: "slab_call_ok es c"
  shows "map_state (slab_pool es) (slab_exec es v c) = pool_exec es (slab_pool es v) c \<and>
    (\<forall>v' r. slab_exec es v c = Ok (v', r) \<longrightarrow> slab_inv es v')"
proof -
  have n: "length (p_cells (slab_pool es v)) = vcap v" by (simp add: slab_pool_def)
  note R = slab_reads [OF inv]
  show ?thesis
  proof (cases c)
    case (SAlloc x)
    then show ?thesis using slab_alloc_spec [OF inv, of x] ok
      by (auto simp: map_state_calls) (auto simp: call_defs obind_Ok_iff)
  next
    case (SFree i)
    then show ?thesis using slab_free_spec [OF inv, of i]
      by (auto simp: map_state_calls) (auto simp: call_defs obind_Ok_iff)
  next
    case (SGet i)
    then show ?thesis using R(4) [of i] inv n
      by (auto simp: call_defs slab_get_def slab_checked_eq [OF inv] pool_taken_def)
  next
    case (SSet i x)
    show ?thesis
    proof (cases "pool_taken (slab_pool es v) i")
      case True
      then show ?thesis using slab_set_spec [OF inv, of x i] ok SSet by (auto simp: call_defs)
    next
      case False
      then show ?thesis using SSet by (simp add: call_defs slab_set_def slab_checked_eq [OF inv])
    qed
  next
    case (SAllocated i)
    then show ?thesis using R(3) [of i] inv n
      by (auto simp: call_defs slab_is_slot_allocated_def pool_taken_def)
  qed (use R inv n in \<open>auto simp: call_defs slab_is_empty_def slab_remaining_capacity_def slab_is_full_def\<close>)
qed

interpretation slab_sim: simulation "slab_exec es" "pool_exec es" "slab_pool es" "slab_inv es" "slab_call_ok es" for es
proof
  fix v c v' r
  assume A: "slab_inv es v" "slab_call_ok es c"
  show "map_state (slab_pool es) (slab_exec es v c) = pool_exec es (slab_pool es v) c"
    and "slab_exec es v c = Ok (v', r) \<Longrightarrow> slab_inv es v'"
    using slab_exec_step [OF A] by blast+
next
  fix p c
  show "pool_exec es p c \<noteq> Trap" by (cases c) (auto simp: call_defs pool_alloc_def pool_free_def)
qed

lemma slab_from_bytes_inv:
  assumes "slab_from_bytes es d = Ok v" and "account_sized d"
  shows "slab_inv es v \<and> v = \<lparr>vdata = d, vcap = u32_at d 4\<rparr>"
  using assms by (auto simp: slab_from_bytes_def slab_header_size_def slab_inv_def slab_room_def slots_at_def Let_def
      split: if_splits)

section \<open>A live slot stays live\<close>

definition leaves_alone :: "nat \<Rightarrow> slab_call \<Rightarrow> bool" where
  "leaves_alone i c \<longleftrightarrow> c \<noteq> SFree i \<and> (\<forall>x. c \<noteq> SSet i x)"

lemma live_cell_step:
  assumes "pool_taken p i" and "p_cells p ! i = (True, x)" and "leaves_alone i c"
  shows "let p' = after_call p (pool_exec es p c) in pool_taken p' i \<and> p_cells p' ! i = (True, x)"
  using assms
  by (cases c) (auto simp: call_defs pool_alloc_def pool_free_def pool_taken_def nth_list_update leaves_alone_def Let_def)

lemma live_cell_run:
  "pool_taken p i \<Longrightarrow> p_cells p ! i = (True, x) \<Longrightarrow> list_all (leaves_alone i) cs \<Longrightarrow>
   pool_taken (fst (run_calls (pool_exec es) p cs)) i \<and> p_cells (fst (run_calls (pool_exec es) p cs)) ! i = (True, x)"
proof (induction cs arbitrary: p)
  case (Cons c cs)
  note S = live_cell_step [OF Cons.prems(1,2), of c es, unfolded Let_def]
  with Cons.IH [of "after_call p (pool_exec es p c)"] Cons.prems(3)
  show ?case by (simp add: Let_def split_beta del: pool_exec.simps)
qed simp

section \<open>The allocator\<close>

text \<open>A well-formed free list: it visits exactly the free cells, each once, and ends.\<close>

fun chain :: "(bool \<times> bytes) list \<Rightarrow> nat \<Rightarrow> nat list \<Rightarrow> bool" where
  "chain cells h [] \<longleftrightarrow> h = no_free"
| "chain cells h (i # is) \<longleftrightarrow> h = i \<and> i < length cells \<and> \<not> fst (cells ! i) \<and> chain cells (cell_next (cells ! i)) is"

text \<open>Following the list for at most \<open>n\<close> steps.\<close>

fun walk :: "(bool \<times> bytes) list \<Rightarrow> nat \<Rightarrow> nat \<Rightarrow> nat list" where
  "walk cells 0 h = []"
| "walk cells (Suc n) h =
     (if h < length cells \<and> \<not> fst (cells ! h) then h # walk cells n (cell_next (cells ! h)) else [])"

record allocator =
  a_size :: nat
  a_free :: "nat list"
  a_live :: "nat \<Rightarrow> bytes option"

definition pool_alloc_view :: "pool \<Rightarrow> allocator" where
  "pool_alloc_view p = \<lparr>a_size = length (p_cells p), a_free = walk (p_cells p) (length (p_cells p)) (p_head p),
     a_live = (\<lambda>i. if pool_taken p i then Some (snd (p_cells p ! i)) else None)\<rparr>"

fun allocator_exec :: "allocator \<Rightarrow> slab_call \<Rightarrow> (allocator \<times> answer) outcome" where
  "allocator_exec a (SAlloc x) =
     (case a_free a of [] \<Rightarrow> Err AccountDataTooSmall
      | i # is \<Rightarrow> Ok (a\<lparr>a_free := is, a_live := (a_live a)(i \<mapsto> x)\<rparr>, RNum i))"
| "allocator_exec a (SFree i) =
     (if a_live a i = None then Err InvalidArgument
      else Ok (a\<lparr>a_free := i # a_free a, a_live := (a_live a)(i := None)\<rparr>, RUnit))"
| "allocator_exec a (SGet i) = (case a_live a i of None \<Rightarrow> Err InvalidArgument | Some x \<Rightarrow> Ok (a, RBytes x))"
| "allocator_exec a (SSet i x) =
     (if a_live a i = None then Err InvalidArgument else Ok (a\<lparr>a_live := (a_live a)(i \<mapsto> x)\<rparr>, RUnit))"
| "allocator_exec a SCount = Ok (a, RNum (a_size a - length (a_free a)))"
| "allocator_exec a SEmpty = Ok (a, RBool (length (a_free a) = a_size a))"
| "allocator_exec a SRemaining = Ok (a, RNum (length (a_free a)))"
| "allocator_exec a SFull = Ok (a, RBool (a_free a = []))"
| "allocator_exec a (SAllocated i) = Ok (a, RBool (a_live a i \<noteq> None))"

definition pool_wf :: "pool \<Rightarrow> nat list \<Rightarrow> bool" where
  "pool_wf p is \<longleftrightarrow> chain (p_cells p) (p_head p) is \<and> distinct is \<and>
     set is = {i. i < length (p_cells p) \<and> \<not> fst (p_cells p ! i)} \<and>
     p_count p + length is = length (p_cells p) \<and> length (p_cells p) < no_free"

lemma walk_chain:
  "chain cells h is \<Longrightarrow> length is \<le> n \<Longrightarrow> length cells < no_free \<Longrightarrow> walk cells n h = is"
proof (induction "is" arbitrary: h n)
  case Nil
  then show ?case by (cases n) auto
next
  case (Cons i "is")
  then show ?case by (cases n) auto
qed

lemma chain_update: "i \<notin> set is \<Longrightarrow> chain (cells[i := c]) h is = chain cells h is"
  by (induction "is" arbitrary: h) auto

lemma pool_wf_walk: "pool_wf p is \<Longrightarrow> walk (p_cells p) (length (p_cells p)) (p_head p) = is"
  unfolding pool_wf_def by (intro walk_chain) auto

lemma pool_wf_view:
  "pool_wf p is \<Longrightarrow> pool_alloc_view p = \<lparr>a_size = length (p_cells p), a_free = is,
     a_live = (\<lambda>i. if pool_taken p i then Some (snd (p_cells p ! i)) else None)\<rparr>"
  by (simp add: pool_alloc_view_def pool_wf_walk)

lemma pool_wf_alloc:
  assumes "pool_wf p (i # is)"
  shows "pool_alloc p x = Ok (p\<lparr>p_count := p_count p + 1, p_head := cell_next (p_cells p ! i),
      p_cells := (p_cells p)[i := (True, x)]\<rparr>, i)"
    and "pool_wf (p\<lparr>p_count := p_count p + 1, p_head := cell_next (p_cells p ! i),
      p_cells := (p_cells p)[i := (True, x)]\<rparr>) is"
proof -
  have i: "p_head p = i" "i < length (p_cells p)" "\<not> fst (p_cells p ! i)" and fresh: "i \<notin> set is"
    using assms by (auto simp: pool_wf_def)
  have n: "length (p_cells p) < no_free" and c: "p_count p < length (p_cells p)"
    using assms by (auto simp: pool_wf_def)
  then have "i \<noteq> no_free" "min (Suc (p_count p)) 4294967295 = Suc (p_count p)" using i by (auto simp: no_free_def)
  then show "pool_alloc p x = Ok (p\<lparr>p_count := p_count p + 1, p_head := cell_next (p_cells p ! i),
      p_cells := (p_cells p)[i := (True, x)]\<rparr>, i)"
    using i n c by (simp add: pool_alloc_def pool_taken_def no_free_def)
  have "set (i # is) = {j. j < length (p_cells p) \<and> \<not> fst (p_cells p ! j)}"
    using assms by (simp add: pool_wf_def)
  then have "set is = {j. j < length (p_cells p) \<and> \<not> fst (p_cells p ! j)} - {i}" using fresh by auto
  also have "\<dots> = {j. j < length (p_cells p) \<and> \<not> fst ((p_cells p)[i := (True, x)] ! j)}"
    using i(2) by (auto simp: nth_list_update)
  finally have "set is = {j. j < length (p_cells p) \<and> \<not> fst ((p_cells p)[i := (True, x)] ! j)}" .
  moreover have "chain ((p_cells p)[i := (True, x)]) (cell_next (p_cells p ! i)) is"
    using assms fresh by (simp add: pool_wf_def chain_update)
  moreover have "distinct is" "p_count p + 1 + length is = length (p_cells p)"
    using assms by (simp_all add: pool_wf_def)
  ultimately show "pool_wf (p\<lparr>p_count := p_count p + 1, p_head := cell_next (p_cells p ! i),
      p_cells := (p_cells p)[i := (True, x)]\<rparr>) is"
    using n unfolding pool_wf_def by simp
qed

lemma pool_wf_free:
  assumes wf: "pool_wf p is" and i: "pool_taken p i" and es: "4 \<le> es" and h: "p_head p < 2 ^ 32"
  shows "\<exists>p'. pool_free es p i = Ok p' \<and> pool_wf p' (i # is) \<and> p_head p' < 2 ^ 32 \<and>
    length (p_cells p') = length (p_cells p) \<and>
    (\<forall>j. pool_taken p' j \<longleftrightarrow> j \<noteq> i \<and> pool_taken p j) \<and> (\<forall>j. j \<noteq> i \<longrightarrow> p_cells p' ! j = p_cells p ! j)"
proof -
  let ?c = "(False, le_enc 4 (p_head p) @ replicate (es - 4) 0)"
  let ?p = "p\<lparr>p_count := p_count p - 1, p_head := i, p_cells := (p_cells p)[i := ?c]\<rparr>"
  have n: "i < length (p_cells p)" and fresh: "i \<notin> set is" using wf i by (auto simp: pool_wf_def pool_taken_def)
  have "cell_next ?c = p_head p" using h by (simp add: cell_next_def le_val_enc)
  then have ch: "chain (p_cells ?p) i (i # is)" using wf n fresh by (simp add: pool_wf_def chain_update)
  have "set (i # is) = {j. j < length (p_cells ?p) \<and> \<not> fst (p_cells ?p ! j)}"
    using wf n by (auto simp: pool_wf_def nth_list_update)
  moreover have "0 < p_count p"
  proof (rule ccontr)
    assume "\<not> 0 < p_count p"
    then have "length is = length (p_cells p)" "distinct is" using wf by (simp_all add: pool_wf_def)
    then have "card (set is) = length (p_cells p)" by (simp add: distinct_card)
    moreover have "set is \<subseteq> {..<length (p_cells p)} - {i}" using wf i by (auto simp: pool_wf_def pool_taken_def)
    then have "card (set is) \<le> card ({..<length (p_cells p)} - {i})" by (intro card_mono) auto
    ultimately show False using n by simp
  qed
  ultimately have "pool_wf ?p (i # is)" using wf ch fresh n by (simp add: pool_wf_def)
  moreover have "i < 2 ^ 32" using wf n by (simp add: pool_wf_def no_free_def)
  moreover have "pool_taken ?p j \<longleftrightarrow> j \<noteq> i \<and> pool_taken p j" for j
    using n by (cases "j = i") (simp_all add: pool_taken_def)
  ultimately show ?thesis using i n by (intro exI [of _ ?p]) (simp add: pool_free_def)
qed

definition pool_good :: "nat \<Rightarrow> pool \<Rightarrow> bool" where
  "pool_good es p \<longleftrightarrow> 4 \<le> es \<and> p_head p < 2 ^ 32 \<and> (\<exists>is. pool_wf p is)"

lemma cell_next_small: "cell_next c < 2 ^ 32"
proof -
  have "(256 :: nat) ^ length (take 4 (snd c)) \<le> 256 ^ 4" by (rule power_increasing) simp_all
  then show ?thesis using le_val_bound [of "take 4 (snd c)"] by (simp add: cell_next_def)
qed

lemma view_fields:
  "a_size (pool_alloc_view p) = length (p_cells p)"
  "a_live (pool_alloc_view p) i = (if pool_taken p i then Some (snd (p_cells p ! i)) else None)"
  by (simp_all add: pool_alloc_view_def)

lemma alloc_step:
  assumes wf: "pool_wf p is" and good: "4 \<le> es" "p_head p < 2 ^ 32"
  shows "map_state pool_alloc_view (pool_exec es p (SAlloc x)) = allocator_exec (pool_alloc_view p) (SAlloc x) \<and>
    (\<forall>p' r. pool_exec es p (SAlloc x) = Ok (p', r) \<longrightarrow> pool_good es p')"
proof (cases "is")
  case Nil
  then show ?thesis using wf by (simp add: pool_wf_view pool_alloc_def call_defs) (simp add: pool_wf_def)
next
  case (Cons i js)
  let ?p = "p\<lparr>p_count := p_count p + 1, p_head := cell_next (p_cells p ! i), p_cells := (p_cells p)[i := (True, x)]\<rparr>"
  note A = pool_wf_alloc [OF wf [unfolded Cons], of x]
  have i: "i < length (p_cells p)" using wf Cons by (simp add: pool_wf_def)
  have "pool_taken ?p j \<longleftrightarrow> j = i \<or> pool_taken p j" "snd (p_cells ?p ! j) = (if j = i then x else snd (p_cells p ! j))" for j
    using i by (auto simp: pool_taken_def nth_list_update)
  then have "pool_alloc_view ?p = (pool_alloc_view p)\<lparr>a_free := js, a_live := (a_live (pool_alloc_view p))(i \<mapsto> x)\<rparr>"
    using pool_wf_view [OF A(2)] pool_wf_view [OF wf] by (auto simp: fun_eq_iff)
  moreover have "pool_good es ?p" using A(2) good cell_next_small by (auto simp: pool_good_def)
  moreover have "a_free (pool_alloc_view p) = i # js" using pool_wf_view [OF wf] Cons by simp
  ultimately show ?thesis using A(1) by (simp add: call_defs)
qed

lemma free_step:
  assumes wf: "pool_wf p is" and good: "4 \<le> es" "p_head p < 2 ^ 32"
  shows "map_state pool_alloc_view (pool_exec es p (SFree i)) = allocator_exec (pool_alloc_view p) (SFree i) \<and>
    (\<forall>p' r. pool_exec es p (SFree i) = Ok (p', r) \<longrightarrow> pool_good es p')"
proof (cases "pool_taken p i")
  case False
  then show ?thesis by (simp add: pool_free_def call_defs view_fields)
next
  case True
  from pool_wf_free [OF wf True good] obtain p' where p': "pool_free es p i = Ok p'" "pool_wf p' (i # is)"
    "p_head p' < 2 ^ 32" "length (p_cells p') = length (p_cells p)"
    "\<And>j. pool_taken p' j \<longleftrightarrow> j \<noteq> i \<and> pool_taken p j" "\<And>j. j \<noteq> i \<Longrightarrow> p_cells p' ! j = p_cells p ! j" by blast
  have "pool_alloc_view p' = (pool_alloc_view p)\<lparr>a_free := i # a_free (pool_alloc_view p),
      a_live := (a_live (pool_alloc_view p))(i := None)\<rparr>"
    using pool_wf_view [OF p'(2)] pool_wf_view [OF wf] p'(4,5,6) by (auto simp: fun_eq_iff)
  moreover have "pool_good es p'" using p'(2,3) good by (auto simp: pool_good_def)
  ultimately show ?thesis using p'(1) True by (simp add: call_defs view_fields)
qed

lemma set_step:
  assumes wf: "pool_wf p is" and good: "4 \<le> es" "p_head p < 2 ^ 32"
  shows "map_state pool_alloc_view (pool_exec es p (SSet i x)) = allocator_exec (pool_alloc_view p) (SSet i x) \<and>
    (\<forall>p' r. pool_exec es p (SSet i x) = Ok (p', r) \<longrightarrow> pool_good es p')"
proof (cases "pool_taken p i")
  case False
  then show ?thesis by (simp add: view_fields)
next
  case True
  let ?p = "p\<lparr>p_cells := (p_cells p)[i := (True, x)]\<rparr>"
  have "i \<notin> set is" "i < length (p_cells p)" using wf True by (auto simp: pool_wf_def pool_taken_def)
  moreover have "set is = {j. j < length (p_cells p) \<and> \<not> fst (p_cells p ! j)}" using wf by (simp add: pool_wf_def)
  then have "set is = {j. j < length (p_cells ?p) \<and> \<not> fst (p_cells ?p ! j)}"
    using True by (auto simp: nth_list_update pool_taken_def)
  ultimately have wf': "pool_wf ?p is" using wf unfolding pool_wf_def by (simp add: chain_update)
  have "pool_taken ?p j = pool_taken p j" "snd (p_cells ?p ! j) = (if j = i then x else snd (p_cells p ! j))" for j
    using True by (auto simp: pool_taken_def nth_list_update)
  then have "pool_alloc_view ?p = (pool_alloc_view p)\<lparr>a_live := (a_live (pool_alloc_view p))(i \<mapsto> x)\<rparr>"
    using pool_wf_view [OF wf'] pool_wf_view [OF wf] True by (auto simp: fun_eq_iff)
  then show ?thesis using True wf' good by (auto simp: view_fields pool_good_def)
qed

lemma pool_exec_step:
  assumes "pool_good es p"
  shows "map_state pool_alloc_view (pool_exec es p c) = allocator_exec (pool_alloc_view p) c \<and>
    (\<forall>p' r. pool_exec es p c = Ok (p', r) \<longrightarrow> pool_good es p')"
proof -
  from assms obtain "is" where wf: "pool_wf p is" and good: "4 \<le> es" "p_head p < 2 ^ 32" by (auto simp: pool_good_def)
  have free: "a_free (pool_alloc_view p) = is" using pool_wf_view [OF wf] by simp
  have count: "p_count p = length (p_cells p) - length is" "length is \<le> length (p_cells p)"
    using wf unfolding pool_wf_def by linarith+
  have full: "(p_head p = no_free) = (is = [])" using wf by (cases "is") (auto simp: pool_wf_def)
  show ?thesis
  proof (cases c)
    case (SAlloc x)
    then show ?thesis using alloc_step [OF wf good] by blast
  next
    case (SFree i)
    then show ?thesis using free_step [OF wf good] by blast
  next
    case (SSet i x)
    then show ?thesis using set_step [OF wf good] by blast
  qed (use assms free count full in \<open>auto simp: view_fields\<close>)
qed

interpretation pool_sim: simulation "pool_exec es" allocator_exec pool_alloc_view "pool_good es" "\<lambda>c. True" for es
proof
  fix p c p' r
  assume A: "pool_good es p"
  show "map_state pool_alloc_view (pool_exec es p c) = allocator_exec (pool_alloc_view p) c"
    and "pool_exec es p c = Ok (p', r) \<Longrightarrow> pool_good es p'"
    using pool_exec_step [OF A, of c] by blast+
next
  fix a c
  show "allocator_exec a c \<noteq> Trap" by (cases c) (auto split: list.splits option.splits)
qed

section \<open>Initialisation\<close>

lemma slab_link_spec:
  assumes "4 \<le> es"
  shows "i + left = n \<Longrightarrow> n \<le> slot_room base es d \<Longrightarrow>
    \<exists>d'. slab_link es base n d i left = Ok d' \<and> length d' = length d \<and> take base d' = take base d \<and>
      (\<forall>j < i. slot_get base es d' j = slot_get base es d j) \<and>
      (\<forall>j. i \<le> j \<and> j < n \<longrightarrow> take 4 (slot_get base es d' j) = le_enc 4 (if j + 1 < n then j + 1 else no_free))"
proof (induction left arbitrary: i d)
  case 0
  then show ?case by auto
next
  case (Suc left)
  let ?next = "if i + 1 < n then i + 1 else no_free"
  let ?s = "bsplice 0 (le_enc 4 ?next) (slot_get base es d i)"
  let ?d = "slot_put base es d i ?s"
  have i: "i < slot_room base es d" "i < n" using Suc.prems by auto
  have s: "length ?s = es" using i assms by simp
  have room: "slot_room base es ?d = slot_room base es d" using i s by (simp add: arr.room_put)
  have base: "base + i * es + es \<le> length d" using slot_in_bounds [OF i(1)] .
  have wd: "wr_u32 d (base + i * es) ?next = Ok ?d"
    using slot_part_write [OF i(1), of 0 "le_enc 4 ?next"] assms by (simp add: wr_u32_def)
  from Suc.IH [of "Suc i" ?d] Suc.prems room obtain d' where
    d': "slab_link es base n ?d (Suc i) left = Ok d'" "length d' = length ?d" "take base d' = take base ?d"
    "\<And>j. j < Suc i \<Longrightarrow> slot_get base es d' j = slot_get base es ?d j"
    "\<And>j. Suc i \<le> j \<Longrightarrow> j < n \<Longrightarrow> take 4 (slot_get base es d' j) = le_enc 4 (if j + 1 < n then j + 1 else no_free)"
    by auto
  have "take base ?d = take base d" using base s by (simp add: slot_put_def bsplice_def min_def)
  moreover have "take 4 (slot_get base es d' i) = le_enc 4 ?next"
    using d'(4) [of i] i s by (simp add: arr.get_put_same bsplice_def)
  moreover have "slot_get base es d' j = slot_get base es d j" if "j < i" for j
    using d'(4) [of j] that i s by (simp add: arr.get_put_other)
  moreover have "take 4 (slot_get base es d' j) = le_enc 4 (if j + 1 < n then j + 1 else no_free)"
    if "i \<le> j" "j < n" for j
    using that d'(5) [of j] \<open>take 4 (slot_get base es d' i) = le_enc 4 ?next\<close> by (cases "j = i") auto
  ultimately show ?case using wd d'(1,2,3) i s by simp
qed

lemma chain_consecutive:
  assumes "\<And>j. j < n \<Longrightarrow> \<not> fst (cells ! j) \<and> cell_next (cells ! j) = (if j + 1 < n then j + 1 else no_free)"
    and "length cells = n" and "k \<le> n"
  shows "chain cells (if k < n then k else no_free) [k..<n]"
  using assms(3)
proof (induction k rule: inc_induct)
  case (step k)
  have "[k..<n] = k # [Suc k..<n]" using step.hyps by (simp add: upt_conv_Cons)
  moreover have "cell_next (cells ! k) = (if Suc k < n then Suc k else no_free)" using assms(1) [of k] step.hyps by simp
  ultimately show ?case using step assms(1) [of k] assms(2) by (simp split del: if_split)
qed simp

text \<open>The header \<open>init\<close> writes, then the cleared bitmap.\<close>

lemma slab_init_prefix:
  assumes "slots_at n \<le> length d"
  shows "\<exists>d5. obind (wr_u32 d 0 0) (\<lambda>d. obind (wr_u32 d 4 n) (\<lambda>d. obind (wr_u32 d 8 0) (\<lambda>d. obind (wr_u32 d 12 0)
      (\<lambda>d. zero_bytes d 16 (bitmap_bytes n))))) = Ok d5 \<and> length d5 = length d \<and>
    u32_at d5 0 = 0 \<and> u32_at d5 4 = n mod 2 ^ 32 \<and> u32_at d5 8 = 0 \<and> (\<forall>k. 16 \<le> k \<and> k < slots_at n \<longrightarrow> d5 ! k = 0)"
proof -
  let ?d1 = "bsplice 0 (le_enc 4 0) d"
  let ?d2 = "bsplice 4 (le_enc 4 n) ?d1"
  let ?d3 = "bsplice 8 (le_enc 4 0) ?d2"
  let ?d4 = "bsplice 12 (le_enc 4 0) ?d3"
  let ?d5 = "bsplice 16 (replicate (bitmap_bytes n) 0) ?d4"
  have l: "16 \<le> length d" "16 + bitmap_bytes n \<le> length d" using assms by (auto simp: slots_at_def)
  have "u32_at ?d5 8 = u32_at ?d3 8" using l by (simp add: u32_at_bsplice_disjoint)
  also have "\<dots> = 0" using l by simp
  finally have "u32_at ?d5 8 = 0" .
  moreover have "u32_at ?d5 4 = u32_at ?d2 4" using l by (simp add: u32_at_bsplice_disjoint)
  then have "u32_at ?d5 4 = n mod 2 ^ 32" using l by simp
  moreover have "u32_at ?d5 0 = u32_at ?d1 0" using l by (simp add: u32_at_bsplice_disjoint)
  then have "u32_at ?d5 0 = 0" using l by simp
  moreover have "?d5 ! k = 0" if "16 \<le> k" "k < slots_at n" for k
    using that l by (simp add: bsplice_nth slots_at_def)
  moreover have "wr_u32 d 0 0 = Ok ?d1" "wr_u32 ?d1 4 n = Ok ?d2" "wr_u32 ?d2 8 0 = Ok ?d3" "wr_u32 ?d3 12 0 = Ok ?d4"
    "zero_bytes ?d4 16 (bitmap_bytes n) = Ok ?d5" using l by (simp_all del: bsplice_def)
  ultimately show ?thesis using l by (intro exI [of _ ?d5]) simp
qed

lemma slab_init_spec:
  assumes "4 \<le> es" and "account_sized d" and "slots_at n + n * es \<le> length d"
  shows "\<exists>d'. slab_init es d n = Ok d' \<and> slab_from_bytes es d' = Ok \<lparr>vdata = d', vcap = n\<rparr> \<and>
    slab_inv es \<lparr>vdata = d', vcap = n\<rparr> \<and>
    (let p = pool_at es n d' in p_count p = 0 \<and> p_head p = 0 \<and>
      (\<forall>j < n. \<not> fst (p_cells p ! j) \<and> cell_next (p_cells p ! j) = (if j + 1 < n then j + 1 else no_free)))"
proof -
  have room: "slab_room es n d" using assms by (simp add: slab_room_def)
  from slab_init_prefix [of n d] assms(3) obtain d5 where
    d5: "obind (wr_u32 d 0 0) (\<lambda>d. obind (wr_u32 d 4 n) (\<lambda>d. obind (wr_u32 d 8 0) (\<lambda>d. obind (wr_u32 d 12 0)
      (\<lambda>d. zero_bytes d 16 (bitmap_bytes n))))) = Ok d5" "length d5 = length d"
    "u32_at d5 0 = 0" "u32_at d5 4 = n mod 2 ^ 32" "u32_at d5 8 = 0" "\<And>k. 16 \<le> k \<Longrightarrow> k < slots_at n \<Longrightarrow> d5 ! k = 0"
    by auto
  have room5: "slab_room es n d5" using room d5(2) by (simp add: slab_room_def)
  from slab_link_spec [OF assms(1), of 0 n n "slots_at n" d5] slab_room_slots(1) [OF room5] obtain d' where
    d': "slab_link es (slots_at n) n d5 0 n = Ok d'" "length d' = length d5" "take (slots_at n) d' = take (slots_at n) d5"
    "\<And>j. j < n \<Longrightarrow> take 4 (slot_get (slots_at n) es d' j) = le_enc 4 (if j + 1 < n then j + 1 else no_free)"
    by auto
  have small: "n < 2 ^ 32"
    using slab_room_slots(1) [OF room] slot_room_small [OF assms(2), of "slots_at n" es] by linarith
  have hdr: "u32_at d' 0 = 0" "u32_at d' 4 = n" "u32_at d' 8 = 0"
    using u32_at_take [OF d'(3)] d5(3,4,5) small slots_at_ge [of n] by simp_all
  have room': "slab_room es n d'" using room5 d'(2) by (simp add: slab_room_def)
  have size': "account_sized d'" using assms(2) d5(2) d'(2) by (simp add: account_sized_def)
  have free: "\<not> occ d' j" if "j < n" for j
  proof -
    have "d' ! (16 + j div 8) = take (slots_at n) d' ! (16 + j div 8)" using bitmap_holds [OF that] by simp
    also have "\<dots> = d5 ! (16 + j div 8)" using bitmap_holds [OF that] by (simp add: d'(3))
    also have "\<dots> = 0" using bitmap_holds [OF that] by (intro d5(6)) auto
    finally show ?thesis by (simp add: occ_def)
  qed
  have link: "cell_next (p_cells (pool_at es n d') ! j) = (if j + 1 < n then j + 1 else no_free)" if "j < n" for j
    using that small by (simp add: p_cells_nth cell_next_def d'(4) le_val_enc no_free_def)
  have "length d' = length d" using d5(2) d'(2) by simp
  moreover have l16: "16 \<le> length d'" using slab_room_slots(2) [OF room'] slots_at_ge [of n] by linarith
  ultimately have "slab_from_bytes es d' = Ok \<lparr>vdata = d', vcap = n\<rparr>"
    using assms(1,3) hdr by (simp add: slab_from_bytes_def slab_header_size_def Let_def slots_at_def)
  moreover have "slab_init es d n = Ok d'"
    using d5(1) d'(1) assms(1,3)
    by (simp add: slab_init_def slab_header_size_def slots_at_def Let_def obind_assoc [symmetric] del: obind_assoc)
  ultimately show ?thesis
    using room' size' hdr free link by (simp add: slab_inv_def Let_def pool_at_def)
qed

lemma slab_init_good:
  assumes "4 \<le> es" and "account_sized d" and "slots_at n + n * es \<le> length d" and "0 < n"
    and "slab_init es d n = Ok d'"
  shows "slab_inv es \<lparr>vdata = d', vcap = n\<rparr> \<and> slab_from_bytes es d' = Ok \<lparr>vdata = d', vcap = n\<rparr> \<and>
    pool_good es (pool_at es n d') \<and>
    pool_alloc_view (pool_at es n d') = \<lparr>a_size = n, a_free = [0..<n], a_live = (\<lambda>_. None)\<rparr>"
proof -
  let ?p = "pool_at es n d'"
  from slab_init_spec [OF assms(1,2,3)] assms(5) have
    I: "slab_from_bytes es d' = Ok \<lparr>vdata = d', vcap = n\<rparr>" "slab_inv es \<lparr>vdata = d', vcap = n\<rparr>"
    "p_count ?p = 0" "p_head ?p = 0" and
    c: "\<And>j. j < n \<Longrightarrow> \<not> fst (p_cells ?p ! j) \<and> cell_next (p_cells ?p ! j) = (if j + 1 < n then j + 1 else no_free)"
    by (auto simp: Let_def)
  have "n \<le> slot_room (slots_at n) es d'"
    using I(2) slab_room_slots(1) [of es n d'] by (simp add: slab_inv_def)
  moreover have "slot_room (slots_at n) es d' \<le> length d' div 4"
    using assms(1) by (simp add: slot_room_def) (meson div_le_mono2 div_le_mono diff_le_self le_trans zero_less_numeral)
  moreover have "length d' < 2 ^ 32" using I(2) by (simp add: slab_inv_def account_sized_def)
  ultimately have small: "n < no_free" by (simp add: no_free_def)
  have "chain (p_cells ?p) (p_head ?p) [0..<n]"
    using chain_consecutive [of n "p_cells ?p" 0] c assms(4) I(4) by simp
  then have wf: "pool_wf ?p [0..<n]" using c I(3) small by (auto simp: pool_wf_def)
  have "\<not> pool_taken ?p i" for i using c by (simp add: pool_taken_def)
  then show ?thesis using I wf pool_wf_view [OF wf] assms(1) by (auto simp: pool_good_def)
qed

section \<open>Properties\<close>

text \<open>
  C27: \<open>Slab\<close> on hostile bytes. For every buffer \<open>from_bytes_mut\<close> accepts, whatever its
  free list says, every sequence of calls answers as the pool does (the free head is
  refused when it is out of range or points at an allocated slot) and none leaves the slice.
\<close>

theorem slab_refines_pool:
  assumes "slab_from_bytes es d = Ok v" and "account_sized d" and "list_all (slab_call_ok es) cs"
  shows "slab_pool es (fst (run_calls (slab_exec es) v cs)) = fst (run_calls (pool_exec es) (slab_pool es v) cs) \<and>
    snd (run_calls (slab_exec es) v cs) = snd (run_calls (pool_exec es) (slab_pool es v) cs) \<and>
    Trap \<notin> set (snd (run_calls (slab_exec es) v cs))"
proof -
  have inv: "slab_inv es v" using slab_from_bytes_inv [OF assms(1,2)] by (rule conjunct1)
  show ?thesis using slab_sim.run_refines [OF inv assms(3)] slab_sim.safe.run_safe [OF inv assms(3)] by blast
qed

text \<open>A one-slot slab whose free head points outside the buffer.\<close>

theorem slab_refines_pool_witness:
  "snd (run_calls (slab_exec 4)
     \<lparr>vdata = [0, 0, 0, 0, 1, 0, 0, 0, 9, 0, 0, 0, 0, 0, 0, 0, 0, 5, 5, 5, 5], vcap = 1\<rparr>
     [SAlloc [1, 2, 3, 4], SGet 0]) = [Err InvalidAccountData, Err InvalidArgument]"
proof -
  let ?d = "[0, 0, 0, 0, 1, 0, 0, 0, 9, 0, 0, 0, 0, 0, 0, 0, 0, 5, 5, 5, 5] :: bytes"
  let ?v = "\<lparr>vdata = ?d, vcap = 1\<rparr>"
  have "slab_from_bytes 4 ?d = Ok ?v"
    by (simp add: slab_from_bytes_def slab_header_size_def bitmap_bytes_def u32_at_def bslice_def)
  moreover have "slab_pool 4 ?v = \<lparr>p_count = 0, p_head = 9, p_cells = [(False, [5, 5, 5, 5])]\<rparr>"
    by (simp add: slab_pool_def pool_at_def u32_at_def bslice_def occ_def slots_at_def bitmap_bytes_def slot_get_def)
  ultimately show ?thesis
    using slab_refines_pool [of 4 ?d ?v "[SAlloc [1, 2, 3, 4], SGet 0]"]
    by (simp add: account_sized_def pool_alloc_def pool_taken_def no_free_def call_defs del: slab_exec.simps)
qed

text \<open>
  A live slot is never handed out or overwritten. On any accepted bytes, if slot \<open>i\<close>
  reads \<open>x\<close> then after any calls other than \<open>free(i)\<close> and \<open>set(i)\<close> it still reads \<open>x\<close>, and the
  next \<open>alloc\<close> returns another slot, however the free list was rewired.
\<close>

theorem slab_live_slot_survives:
  assumes "slab_from_bytes es d = Ok v" and "account_sized d" and "slab_get es v i = Ok x"
    and "list_all (slab_call_ok es) cs" and "list_all (leaves_alone i) cs"
  shows "slab_get es (fst (run_calls (slab_exec es) v cs)) i = Ok x \<and>
    (length y = es \<longrightarrow> slab_alloc es (fst (run_calls (slab_exec es) v cs)) y = Ok (v', j) \<longrightarrow> j \<noteq> i)"
proof -
  have inv: "slab_inv es v" using slab_from_bytes_inv [OF assms(1,2)] by (rule conjunct1)
  let ?v = "fst (run_calls (slab_exec es) v cs)" and ?p = "slab_pool es v"
  have get: "slab_get es w i = Ok z \<longleftrightarrow> pool_taken (slab_pool es w) i \<and> p_cells (slab_pool es w) ! i = (True, z)"
    if "slab_inv es w" for w z
    using slab_reads(4) [OF that, of i]
    by (auto simp: slab_get_def slab_checked_eq [OF that] pool_taken_def slab_pool_def prod_eq_iff)
  note R = slab_sim.run_refines [OF inv assms(4)]
  have live: "pool_taken (slab_pool es ?v) i \<and> p_cells (slab_pool es ?v) ! i = (True, x)"
    using live_cell_run [of ?p i x cs es] get [OF inv, of x] assms(3,5) R by simp
  moreover have "j \<noteq> i" if "length y = es" and "slab_alloc es ?v y = Ok (v', j)"
  proof
    assume "j = i"
    have inv': "slab_inv es ?v" using R by simp
    have "map_state (slab_pool es) (Ok (v', j)) = pool_alloc (slab_pool es ?v) y"
      using slab_alloc_spec [OF inv' that(1)] that(2) by simp
    then show False using live \<open>j = i\<close> by (auto simp: pool_alloc_def split: if_splits)
  qed
  ultimately show ?thesis using get R by blast
qed

text \<open>A free list that points at the allocated slot 0.\<close>

theorem slab_live_slot_survives_witness:
  "slab_get 4 (fst (run_calls (slab_exec 4)
     \<lparr>vdata = [1, 0, 0, 0, 1, 0, 0, 0, 0, 0, 0, 0, 0, 0, 0, 0, 1, 5, 5, 5, 5], vcap = 1\<rparr> [SAlloc [1, 2, 3, 4]])) 0 =
   Ok [5, 5, 5, 5]"
proof -
  let ?d = "[1, 0, 0, 0, 1, 0, 0, 0, 0, 0, 0, 0, 0, 0, 0, 0, 1, 5, 5, 5, 5] :: bytes"
  let ?v = "\<lparr>vdata = ?d, vcap = 1\<rparr>"
  have "slab_from_bytes 4 ?d = Ok ?v"
    by (simp add: slab_from_bytes_def slab_header_size_def bitmap_bytes_def u32_at_def bslice_def)
  moreover have "slab_get 4 ?v 0 = Ok [5, 5, 5, 5]"
    by (simp add: slab_get_def slab_checked_def slab_is_allocated_def slab_bitmap_offset_def slab_header_size_def
        slab_slots_offset_def bitmap_bytes_def bslice_def)
  ultimately show ?thesis
    using slab_live_slot_survives [of 4 ?d ?v 0 "[5, 5, 5, 5]" "[SAlloc [1, 2, 3, 4]]" "[]"]
    by (simp add: account_sized_def leaves_alone_def del: slab_exec.simps run_calls.simps)
qed

text \<open>
  A slab made by \<open>init\<close> with a positive capacity is a last-in first-out allocator. Its
  bytes are accepted, and every sequence of calls answers as the allocator that starts with
  the free slots \<open>0, 1, ...\<close> and nothing live: \<open>alloc\<close> fails exactly when no slot is free,
  \<open>free\<close> of a slot that is not live is refused, and the last freed slot is reused first.
\<close>

theorem slab_init_is_allocator:
  assumes "4 \<le> es" and "account_sized d" and "slab_required_bytes es n \<le> length d" and "0 < n"
    and "slab_init es d n = Ok d'" and "list_all (slab_call_ok es) cs"
  shows "slab_from_bytes es d' = Ok \<lparr>vdata = d', vcap = n\<rparr> \<and>
    snd (run_calls (slab_exec es) \<lparr>vdata = d', vcap = n\<rparr> cs) =
    snd (run_calls allocator_exec \<lparr>a_size = n, a_free = [0..<n], a_live = (\<lambda>_. None)\<rparr> cs)"
proof -
  have "slots_at n + n * es \<le> length d"
    using assms(3) by (simp add: slab_required_bytes_def slab_header_size_def slots_at_def)
  note G = slab_init_good [OF assms(1,2) this assms(4,5)]
  let ?v = "\<lparr>vdata = d', vcap = n\<rparr>"
  have "snd (run_calls (slab_exec es) ?v cs) = snd (run_calls (pool_exec es) (pool_at es n d') cs)"
    using slab_sim.run_refines [of es ?v cs] G assms(6) by (simp add: slab_pool_def)
  also have "\<dots> = snd (run_calls allocator_exec (pool_alloc_view (pool_at es n d')) cs)"
    using pool_sim.run_refines [of es "pool_at es n d'" cs] G by (simp add: list_all_iff)
  finally show ?thesis using G by simp
qed

theorem slab_init_is_allocator_witness:
  "\<exists>d'. slab_init 4 [0, 0, 0, 0, 0, 0, 0, 0, 0, 0, 0, 0, 0, 0, 0, 0, 0, 0, 0, 0, 0, 0, 0, 0, 0] 2 = Ok d' \<and>
    snd (run_calls (slab_exec 4) \<lparr>vdata = d', vcap = 2\<rparr>
      [SAlloc [1, 1, 1, 1], SAlloc [2, 2, 2, 2], SAlloc [3, 3, 3, 3], SFree 0, SFree 0, SAlloc [4, 4, 4, 4], SGet 0]) =
    [Ok (RNum 0), Ok (RNum 1), Err AccountDataTooSmall, Ok RUnit, Err InvalidArgument, Ok (RNum 0),
     Ok (RBytes [4, 4, 4, 4])]"
proof -
  let ?d = "[0, 0, 0, 0, 0, 0, 0, 0, 0, 0, 0, 0, 0, 0, 0, 0, 0, 0, 0, 0, 0, 0, 0, 0, 0] :: bytes"
  let ?cs = "[SAlloc [1, 1, 1, 1], SAlloc [2, 2, 2, 2], SAlloc [3, 3, 3, 3], SFree 0, SFree 0, SAlloc [4, 4, 4, 4], SGet 0]"
  have size: "account_sized ?d" by (simp add: account_sized_def)
  have fits: "slots_at 2 + 2 * 4 \<le> length ?d" by (simp add: slots_at_def bitmap_bytes_def)
  from slab_init_spec [OF _ size fits] obtain d' where d': "slab_init 4 ?d 2 = Ok d'" by auto
  have "[0..<2] = [0, 1 :: nat]" by (simp add: numeral_2_eq_2)
  then show ?thesis
    using slab_init_is_allocator [OF _ size _ _ d', of ?cs] d'
    by (intro exI [of _ d']) (simp add: slab_required_bytes_def slab_header_size_def bitmap_bytes_def del: slab_exec.simps)
qed

text \<open>
  \<open>init\<close> with capacity 0 writes the free head 0 instead of the end marker: the empty
  slab says it is not full while it has no room, and \<open>alloc\<close> reports corrupt data instead of
  \<open>AccountDataTooSmall\<close>.
\<close>

theorem slab_capacity_zero:
  assumes "4 \<le> es" and "account_sized d" and "16 \<le> length d"
  shows "\<exists>d' v. slab_init es d 0 = Ok d' \<and> slab_from_bytes es d' = Ok v \<and>
    slab_is_full v = Ok False \<and> slab_remaining_capacity v = Ok 0 \<and>
    slab_alloc es v x = Err InvalidAccountData"
proof -
  have "slots_at 0 + 0 * es \<le> length d" using assms(3) by (simp add: slots_at_def bitmap_bytes_def)
  from slab_init_spec [OF assms(1,2) this] obtain d' where
    d': "slab_init es d 0 = Ok d'" "slab_from_bytes es d' = Ok \<lparr>vdata = d', vcap = 0\<rparr>"
    "slab_inv es \<lparr>vdata = d', vcap = 0\<rparr>" "p_count (pool_at es 0 d') = 0" "p_head (pool_at es 0 d') = 0"
    by (auto simp: Let_def)
  note R = slab_reads [OF d'(3)]
  show ?thesis
    using d' R(1,2)
    by (intro exI [of _ d'] exI [of _ "\<lparr>vdata = d', vcap = 0\<rparr>"])
      (simp add: slab_is_full_def slab_remaining_capacity_def slab_alloc_def slab_pool_def no_free_def)
qed

theorem slab_capacity_zero_witness:
  "\<exists>d' v. slab_init 4 [0, 0, 0, 0, 0, 0, 0, 0, 0, 0, 0, 0, 0, 0, 0, 0] 0 = Ok d' \<and> slab_from_bytes 4 d' = Ok v \<and>
    slab_is_full v = Ok False \<and> slab_remaining_capacity v = Ok 0 \<and>
    slab_alloc 4 v [1, 2, 3, 4] = Err InvalidAccountData"
  by (rule slab_capacity_zero) (simp_all add: account_sized_def)

end
