(* ===== verification/TouchLog.thy ===== *)
theory TouchLog imports Contracts begin

text \<open>
  hopper-runtime/src/segment_borrow.rs, first part: the segment borrow record, byte-range
  overlap, and the instruction's touch log (\<^verbatim>\<open>mod touch_log\<close>), which records at most 32
  ranges and, when it is full, merges ranges whose union is exact. The entry array with its
  length byte is the list of its live prefix; where the array is stored (VM heap, thread
  local, spinlock) is not modelled. Shown: the log never claims a byte that was not touched,
  claims every touched byte unless the overflow flag is set, and sets the flag only
  for more than 32 pairwise unmergeable ranges.
\<close>

datatype access_kind = Read | Write

record segment_borrow =
  sb_key_fp :: u64
  sb_key :: bytes
  sb_offset :: u32
  sb_size :: u32
  sb_kind :: access_kind

definition address_fingerprint :: "bytes \<Rightarrow> u64" where
  "address_fingerprint address = word_of_nat (le_val (take 8 address))"

definition address_eq :: "bytes \<Rightarrow> bytes \<Rightarrow> bool" where
  "address_eq a b \<longleftrightarrow> a = b"

definition borrow_eq :: "segment_borrow \<Rightarrow> segment_borrow \<Rightarrow> bool" where
  "borrow_eq a b \<longleftrightarrow> sb_key_fp a = sb_key_fp b \<and> address_eq (sb_key a) (sb_key b) \<and>
     sb_offset a = sb_offset b \<and> sb_size a = sb_size b \<and> sb_kind a = sb_kind b"

text \<open>\<^verbatim>\<open>offset as u64 + size as u64\<close>.\<close>

definition range_end :: "u32 \<Rightarrow> u32 \<Rightarrow> u64" where
  "range_end off sz = ucast off + ucast sz"

definition ranges_overlap :: "u32 \<Rightarrow> u32 \<Rightarrow> u32 \<Rightarrow> u32 \<Rightarrow> bool" where
  "ranges_overlap a_off a_size b_off b_size \<longleftrightarrow>
     \<not> (range_end a_off a_size \<le> ucast b_off \<or> range_end b_off b_size \<le> ucast a_off)"

definition max_touch_records :: nat where "max_touch_records = 32"

definition merge_exact :: "segment_borrow \<Rightarrow> segment_borrow \<Rightarrow> segment_borrow option" where
  "merge_exact a b =
     (if sb_key_fp a \<noteq> sb_key_fp b \<or> \<not> address_eq (sb_key a) (sb_key b) then None
      else
        let a_end = range_end (sb_offset a) (sb_size a); b_end = range_end (sb_offset b) (sb_size b) in
        if sb_kind a = sb_kind b then
          if ucast (sb_offset b) > a_end \<or> ucast (sb_offset a) > b_end then None
          else
            let off = (if sb_offset a < sb_offset b then sb_offset a else sb_offset b);
                end' = (if a_end > b_end then a_end else b_end);
                new_size = end' - ucast off
            in if new_size > 0xFFFFFFFF then None
               else Some (a\<lparr>sb_offset := off, sb_size := ucast new_size\<rparr>)
        else
          let (r, w) = (if sb_kind a = Write then (b, a) else (a, b));
              read_end = range_end (sb_offset r) (sb_size r);
              write_end = range_end (sb_offset w) (sb_size w)
          in if sb_offset w \<le> sb_offset r \<and> read_end \<le> write_end then Some w else None)"

section \<open>The log\<close>

record touch_log =
  tl_entries :: "segment_borrow list"
  tl_overflow :: bool

definition tl_new :: touch_log where
  "tl_new = \<lparr>tl_entries = [], tl_overflow = False\<rparr>"

text \<open>\<open>remove_at\<close> shifts the tail left by one.\<close>

definition tl_remove_at :: "segment_borrow list \<Rightarrow> nat \<Rightarrow> segment_borrow list" where
  "tl_remove_at xs idx = take idx xs @ drop (Suc idx) xs"

text \<open>The three nested loops of \<open>compact\<close>: over \<open>j\<close>, over \<open>i\<close>, and to a fixpoint.\<close>

function compact_inner :: "segment_borrow list \<Rightarrow> nat \<Rightarrow> nat \<Rightarrow> bool \<Rightarrow> segment_borrow list \<times> bool" where
  "compact_inner xs i j merged_any =
     (if j < length xs then
        case merge_exact (xs ! i) (xs ! j) of
          Some merged \<Rightarrow> compact_inner (tl_remove_at (xs[i := merged]) j) i j True
        | None \<Rightarrow> compact_inner xs i (j + 1) merged_any
      else (xs, merged_any))"
  by pat_completeness auto
termination
  by (relation "measure (\<lambda>(xs, i, j, m). length xs - j)") (auto simp: tl_remove_at_def)

declare compact_inner.simps [simp del]

text \<open>A pass leaves the log alone or shortens it and says so.\<close>

definition shrinks :: "segment_borrow list \<Rightarrow> bool \<Rightarrow> segment_borrow list \<times> bool \<Rightarrow> bool" where
  "shrinks xs m r \<longleftrightarrow> r = (xs, m) \<or> length (fst r) < length xs \<and> snd r"

lemma compact_inner_shrinks: "shrinks xs m (compact_inner xs i j m)"
proof (induction xs i j m rule: compact_inner.induct)
  case (1 xs i j m)
  show ?case
  proof (cases "j < length xs")
    case True
    then show ?thesis
      using 1(1) [OF True] 1(2) [OF True]
      by (cases "merge_exact (xs ! i) (xs ! j)")
        (auto simp: compact_inner.simps [of xs i j m] tl_remove_at_def shrinks_def)
  qed (simp add: compact_inner.simps shrinks_def)
qed

lemma shrinks_length: "shrinks xs m r \<Longrightarrow> length (fst r) \<le> length xs"
  by (auto simp: shrinks_def)

lemma shrinks_trans: "shrinks xs m r \<Longrightarrow> shrinks (fst r) (snd r) q \<Longrightarrow> shrinks xs m q"
  by (auto simp: shrinks_def)

function compact_outer :: "segment_borrow list \<Rightarrow> nat \<Rightarrow> bool \<Rightarrow> segment_borrow list \<times> bool" where
  "compact_outer xs i merged_any =
     (if i < length xs then
        let inner = compact_inner xs i (i + 1) merged_any in
        compact_outer (fst inner) (i + 1) (snd inner)
      else (xs, merged_any))"
  by pat_completeness auto
termination
proof (relation "measure (\<lambda>(xs, i, m). length xs - i)")
  fix xs :: "segment_borrow list" and i m x
  assume "i < length xs" and "x = compact_inner xs i (i + 1) m"
  then show "((fst x, i + 1, snd x), xs, i, m) \<in> measure (\<lambda>(xs, i, m). length xs - i)"
    using shrinks_length [OF compact_inner_shrinks [of xs m i "i + 1"]] by (simp del: One_nat_def)
qed simp

declare compact_outer.simps [simp del]

lemma compact_outer_shrinks: "shrinks xs m (compact_outer xs i m)"
proof (induction xs i m rule: compact_outer.induct)
  case (1 xs i m)
  show ?case
  proof (cases "i < length xs")
    case True
    then show ?thesis
      using 1 [OF True refl] shrinks_trans [OF compact_inner_shrinks [of xs m i "i + 1"]]
      by (simp add: compact_outer.simps [of xs i m] Let_def)
  qed (simp add: compact_outer.simps shrinks_def)
qed

function compact_loop :: "segment_borrow list \<Rightarrow> segment_borrow list" where
  "compact_loop xs =
     (let pass = compact_outer xs 0 False in
      if snd pass then compact_loop (fst pass) else fst pass)"
  by pat_completeness auto
termination
proof (relation "measure length")
  fix xs :: "segment_borrow list" and x
  assume "x = compact_outer xs 0 False" and "snd x"
  then show "(fst x, xs) \<in> measure length" using compact_outer_shrinks [of xs False 0] by (auto simp: shrinks_def)
qed simp

declare compact_loop.simps [simp del]

text \<open>\<open>compact\<close> returns whether a slot was freed.\<close>

definition tl_compact :: "segment_borrow list \<Rightarrow> segment_borrow list \<times> bool" where
  "tl_compact xs = (let ys = compact_loop xs in (ys, length ys < length xs))"

text \<open>The backward scan \<^verbatim>\<open>while i > 0\<close> that absorbs the new range.\<close>

fun absorb_loop :: "segment_borrow list \<Rightarrow> segment_borrow \<Rightarrow> nat \<Rightarrow> segment_borrow list option" where
  "absorb_loop xs b 0 = None"
| "absorb_loop xs b (Suc i) =
     (case merge_exact (xs ! i) b of
        Some merged \<Rightarrow> Some (xs[i := merged])
      | None \<Rightarrow> absorb_loop xs b i)"

definition record_under_pressure :: "touch_log \<Rightarrow> segment_borrow \<Rightarrow> touch_log" where
  "record_under_pressure log b =
     (case absorb_loop (tl_entries log) b (length (tl_entries log)) of
        Some xs \<Rightarrow> log\<lparr>tl_entries := xs\<rparr>
      | None \<Rightarrow>
          if tl_overflow log then log
          else
            let (xs, freed) = tl_compact (tl_entries log) in
            if freed then log\<lparr>tl_entries := xs @ [b]\<rparr>
            else log\<lparr>tl_entries := xs, tl_overflow := True\<rparr>)"

definition tl_record :: "touch_log \<Rightarrow> segment_borrow \<Rightarrow> touch_log" where
  "tl_record log b =
     (if list_ex (\<lambda>e. borrow_eq e b) (tl_entries log) then log
      else if length (tl_entries log) \<ge> max_touch_records then record_under_pressure log b
      else log\<lparr>tl_entries := tl_entries log @ [b]\<rparr>)"

definition tl_record_account :: "touch_log \<Rightarrow> bytes \<Rightarrow> u32 \<Rightarrow> access_kind \<Rightarrow> touch_log" where
  "tl_record_account log key data_len kind =
     tl_record log \<lparr>sb_key_fp = address_fingerprint key, sb_key = key, sb_offset = 0, sb_size = data_len, sb_kind = kind\<rparr>"

definition tl_len :: "touch_log \<Rightarrow> nat" where
  "tl_len log = length (tl_entries log)"

definition tl_overflowed :: "touch_log \<Rightarrow> bool" where
  "tl_overflowed log = tl_overflow log"

definition tl_reset :: "touch_log \<Rightarrow> touch_log" where
  "tl_reset log = \<lparr>tl_entries = [], tl_overflow = False\<rparr>"

section \<open>Bytes claimed\<close>

definition bytes_of :: "segment_borrow \<Rightarrow> nat set" where
  "bytes_of e = {unat (sb_offset e) ..< unat (sb_offset e) + unat (sb_size e)}"

definition touched :: "segment_borrow list \<Rightarrow> (bytes \<times> nat) set" where
  "touched xs = (\<Union>e \<in> set xs. {sb_key e} \<times> bytes_of e)"

definition written :: "segment_borrow list \<Rightarrow> (bytes \<times> nat) set" where
  "written xs = touched (filter (\<lambda>e. sb_kind e = Write) xs)"

lemma touched_simps [simp]:
  "touched [] = {}"
  "touched (e # xs) = {sb_key e} \<times> bytes_of e \<union> touched xs"
  "touched (xs @ ys) = touched xs \<union> touched ys"
  by (auto simp: touched_def)

lemma written_simps [simp]:
  "written [] = {}"
  "written (e # xs) = (if sb_kind e = Write then {sb_key e} \<times> bytes_of e else {}) \<union> written xs"
  "written (xs @ ys) = written xs \<union> written ys"
  by (auto simp: written_def)

lemma unat_u32_u64 [simp]: "unat (ucast (x :: u32) :: u64) = unat x"
proof -
  have "unat x < 2 ^ 64" using unsigned_less [of x, where 'a = nat] by simp
  then show ?thesis by (simp add: unsigned_ucast_eq take_bit_nat_eq_self)
qed

lemma unat_range_end [simp]: "unat (range_end off sz) = unat off + unat sz"
proof -
  have "unat off + unat sz < 2 ^ 64"
    using unsigned_less [of off, where 'a = nat] unsigned_less [of sz, where 'a = nat] by simp
  then show ?thesis by (simp add: range_end_def unat_word_ariths)
qed

lemma guarded_Some:
  "(if P then None else rest) = Some m \<longleftrightarrow> \<not> P \<and> rest = Some m"
  by simp

lemma merge_same_kind:
  assumes "merge_exact a b = Some m" and "sb_kind a = sb_kind b"
  shows "sb_key a = sb_key b \<and> sb_key m = sb_key a \<and> sb_kind m = sb_kind a \<and> bytes_of m = bytes_of a \<union> bytes_of b"
proof -
  let ?ae = "unat (sb_offset a) + unat (sb_size a)" and ?be = "unat (sb_offset b) + unat (sb_size b)"
  let ?off = "if sb_offset a < sb_offset b then sb_offset a else sb_offset b"
  let ?hi = "if range_end (sb_offset a) (sb_size a) > range_end (sb_offset b) (sb_size b)
      then range_end (sb_offset a) (sb_size a) else range_end (sb_offset b) (sb_size b)"
  have "merge_exact a b =
      (if sb_key_fp a \<noteq> sb_key_fp b \<or> \<not> address_eq (sb_key a) (sb_key b) then None
       else if ucast (sb_offset b) > range_end (sb_offset a) (sb_size a) \<or>
         ucast (sb_offset a) > range_end (sb_offset b) (sb_size b) then None
       else if ?hi - ucast ?off > 0xFFFFFFFF then None
       else Some (a\<lparr>sb_offset := ?off, sb_size := ucast (?hi - ucast ?off)\<rparr>))"
    unfolding merge_exact_def Let_def by (simp only: assms(2) refl if_True)
  from assms(1) [unfolded this guarded_Some]
  have key: "sb_key a = sb_key b"
    and touch: "\<not> ucast (sb_offset b) > range_end (sb_offset a) (sb_size a)"
      "\<not> ucast (sb_offset a) > range_end (sb_offset b) (sb_size b)"
    and fits: "\<not> ?hi - ucast ?off > 0xFFFFFFFF"
    and m: "m = a\<lparr>sb_offset := ?off, sb_size := ucast (?hi - ucast ?off)\<rparr>"
    unfolding address_eq_def by blast+
  have touch': "unat (sb_offset b) \<le> ?ae" "unat (sb_offset a) \<le> ?be"
    using touch by (simp_all add: word_less_nat_alt)
  have e: "unat ?hi = max ?ae ?be" and o': "unat ?off = min (unat (sb_offset a)) (unat (sb_offset b))"
    by (auto simp: word_less_nat_alt max_def min_def)
  have le: "ucast ?off \<le> ?hi" by (simp only: word_le_nat_alt unat_u32_u64 e o')
  then have d: "unat (?hi - ucast ?off) = max ?ae ?be - min (unat (sb_offset a)) (unat (sb_offset b))"
    by (simp only: unat_sub unat_u32_u64 e o')
  have "unat (?hi - ucast ?off) \<le> unat (0xFFFFFFFF :: u64)" using fits by (simp only: word_less_nat_alt not_less)
  then have "unat (?hi - ucast ?off) < 2 ^ 32" by simp
  then have "unat (ucast (?hi - ucast ?off) :: u32) = unat (?hi - ucast ?off)"
    by (simp only: unsigned_ucast_eq take_bit_nat_eq_self_iff) simp
  moreover have "sb_size m = ucast (?hi - ucast ?off)" "sb_offset m = ?off" unfolding m by simp_all
  ultimately have "unat (sb_size m) = max ?ae ?be - min (unat (sb_offset a)) (unat (sb_offset b))"
    and "unat (sb_offset m) = min (unat (sb_offset a)) (unat (sb_offset b))"
    by (simp_all only: d o')
  then have "bytes_of m = bytes_of a \<union> bytes_of b"
    unfolding bytes_of_def using touch' by (auto simp: max_def min_def)
  then show ?thesis using key by (simp add: m)
qed

lemma merge_read_in_write:
  assumes "merge_exact a b = Some m" and "sb_kind a \<noteq> sb_kind b"
  shows "sb_key a = sb_key b \<and> sb_kind m = Write \<and>
    (sb_kind a = Write \<and> m = a \<and> bytes_of b \<subseteq> bytes_of a \<or> sb_kind b = Write \<and> m = b \<and> bytes_of a \<subseteq> bytes_of b)"
proof -
  have kinds: "sb_kind a = Write \<and> sb_kind b = Read \<or> sb_kind a = Read \<and> sb_kind b = Write"
    using assms(2) by (cases "sb_kind a"; cases "sb_kind b") auto
  have sub: "bytes_of r \<subseteq> bytes_of w"
    if "sb_offset w \<le> sb_offset r" "range_end (sb_offset r) (sb_size r) \<le> range_end (sb_offset w) (sb_size w)" for r w
    using that by (auto simp: bytes_of_def word_le_nat_alt)
  from kinds show ?thesis
  proof
    assume k: "sb_kind a = Write \<and> sb_kind b = Read"
    then show ?thesis using assms(1) sub [of a b]
      by (auto simp: merge_exact_def address_eq_def Let_def split: if_splits)
  next
    assume k: "sb_kind a = Read \<and> sb_kind b = Write"
    then show ?thesis using assms(1) sub [of b a]
      by (auto simp: merge_exact_def address_eq_def Let_def split: if_splits)
  qed
qed

text \<open>A merge claims exactly what the pair claimed, as accesses and as writes.\<close>

lemma merge_exact_claims:
  assumes "merge_exact a b = Some m"
  shows "touched [m] = touched [a, b] \<and> written [m] = written [a, b]"
proof (cases "sb_kind a = sb_kind b")
  case True
  note M = merge_same_kind [OF assms True]
  then have "{sb_key m} \<times> bytes_of m = {sb_key a} \<times> bytes_of a \<union> {sb_key b} \<times> bytes_of b" by auto
  then show ?thesis using M True by auto
next
  case False
  note M = merge_read_in_write [OF assms False]
  then show ?thesis using False by (cases "sb_kind a = Write") auto
qed

text \<open>The claims of a log as one pair, and lists with the same claims.\<close>

definition claims :: "segment_borrow list \<Rightarrow> (bytes \<times> nat) set \<times> (bytes \<times> nat) set" where
  "claims xs = (touched xs, written xs)"

lemma claims_update:
  assumes "i < length xs"
  shows "touched (xs[i := m]) \<union> touched [xs ! i] = touched xs \<union> touched [m]"
    and "written (xs[i := m]) \<union> written [xs ! i] = written xs \<union> written [m]"
proof -
  have e: "xs = take i xs @ xs ! i # drop (Suc i) xs" "xs[i := m] = take i xs @ m # drop (Suc i) xs"
    using assms by (simp_all add: id_take_nth_drop upd_conv_take_nth_drop)
  show "touched (xs[i := m]) \<union> touched [xs ! i] = touched xs \<union> touched [m]"
    by (subst (3) e(1), subst e(2)) auto
  show "written (xs[i := m]) \<union> written [xs ! i] = written xs \<union> written [m]"
    by (subst (3) e(1), subst e(2)) auto
qed

lemma claims_mono: "set xs \<subseteq> set ys \<Longrightarrow> touched xs \<subseteq> touched ys" "set xs \<subseteq> set ys \<Longrightarrow> written xs \<subseteq> written ys"
  by (auto simp: touched_def written_def)

lemma claims_absorb:
  assumes "i < length xs" and "merge_exact (xs ! i) b = Some m"
  shows "claims (xs[i := m]) = claims (xs @ [b])"
proof -
  have "set [xs ! i] \<subseteq> set xs" using assms(1) by simp
  note sub = claims_mono [OF this]
  have m: "set [m] \<subseteq> set (xs[i := m])" using assms(1) by (simp add: set_update_memI)
  note sub' = claims_mono [OF m]
  note E = merge_exact_claims [OF assms(2)] and U = claims_update [OF assms(1), of m]
  show ?thesis using E U sub sub' unfolding claims_def by auto
qed

lemma claims_cong: "set xs = set ys \<Longrightarrow> claims xs = claims ys"
  by (simp add: claims_def touched_def written_def)

lemma claims_remove:
  assumes "i < j" and "j < length xs" and "merge_exact (xs ! i) (xs ! j) = Some m"
  shows "claims (tl_remove_at (xs[i := m]) j) = claims xs"
proof -
  let ?ys = "tl_remove_at xs j"
  have "tl_remove_at (xs[i := m]) j = ?ys[i := m]"
    using assms(1,2) by (simp add: tl_remove_at_def drop_update_cancel take_update_swap list_update_append)
  moreover have "?ys ! i = xs ! i" "i < length ?ys" using assms(1,2) by (simp_all add: tl_remove_at_def nth_append)
  moreover have "set (?ys @ [xs ! j]) = set xs"
    using id_take_nth_drop [OF assms(2)] unfolding tl_remove_at_def
    by (metis Un_insert_right append_Nil2 list.simps(15) set_append sup_commute inf_sup_aci(5) empty_set)
  ultimately show ?thesis using claims_absorb [of i ?ys "xs ! j" m] assms(3) claims_cong by metis
qed

lemma compact_inner_claims: "i < j \<Longrightarrow> claims (fst (compact_inner xs i j m)) = claims xs"
proof (induction xs i j m rule: compact_inner.induct)
  case (1 xs i j m)
  show ?case
  proof (cases "j < length xs")
    case True
    then show ?thesis
      using 1(1) [OF True] 1(2) [OF True] 1(3) claims_remove [OF 1(3) True]
      by (cases "merge_exact (xs ! i) (xs ! j)") (auto simp: compact_inner.simps [of xs i j m])
  qed (simp add: compact_inner.simps)
qed

lemma compact_outer_claims: "claims (fst (compact_outer xs i m)) = claims xs"
proof (induction xs i m rule: compact_outer.induct)
  case (1 xs i m)
  show ?case
    using 1 [OF _ refl] compact_inner_claims [of i "i + 1" xs m]
    by (cases "i < length xs") (simp_all add: compact_outer.simps [of xs i m] Let_def)
qed

lemma compact_loop_claims: "claims (compact_loop xs) = claims xs"
proof (induction xs rule: compact_loop.induct)
  case (1 xs)
  show ?case
    using 1 [OF refl] compact_outer_claims [of xs 0 False]
    by (subst compact_loop.simps) (simp add: Let_def)
qed

lemma compact_loop_length: "length (compact_loop xs) \<le> length xs"
proof (induction xs rule: compact_loop.induct)
  case (1 xs)
  show ?case
    using 1 [OF refl] shrinks_length [OF compact_outer_shrinks [of xs False 0]]
    by (subst compact_loop.simps) (auto simp: Let_def)
qed

lemma absorb_loop_Some:
  assumes "absorb_loop xs b n = Some ys" and "n \<le> length xs"
  shows "length ys = length xs \<and> claims ys = claims (xs @ [b])"
  using assms
proof (induction n)
  case (Suc n)
  then show ?case using claims_absorb [of n xs b] by (auto split: option.splits)
qed simp

lemma absorb_loop_None: "absorb_loop xs b n = None \<longleftrightarrow> (\<forall>i < n. merge_exact (xs ! i) b = None)"
  by (induction n) (auto simp: less_Suc_eq split: option.splits)

text \<open>The effect of one record: nothing is over-claimed, and nothing is lost unless the flag is set.\<close>

definition under_claims :: "touch_log \<Rightarrow> segment_borrow list \<Rightarrow> bool" where
  "under_claims log bs \<longleftrightarrow> touched (tl_entries log) \<subseteq> touched bs \<and> written (tl_entries log) \<subseteq> written bs \<and>
     length (tl_entries log) \<le> max_touch_records \<and>
     (\<not> tl_overflow log \<longrightarrow> claims (tl_entries log) = claims bs)"

lemma claims_eq: "claims xs = claims ys \<longleftrightarrow> touched xs = touched ys \<and> written xs = written ys"
  by (simp add: claims_def)

lemma borrow_eq_iff [simp]: "borrow_eq a b \<longleftrightarrow> a = b"
  by (auto simp: borrow_eq_def address_eq_def intro: segment_borrow.equality)

lemma pressure_under_claims:
  assumes "under_claims log bs"
  shows "under_claims (record_under_pressure log b) (bs @ [b])"
proof (cases "absorb_loop (tl_entries log) b (length (tl_entries log))")
  case (Some xs)
  then show ?thesis using assms absorb_loop_Some [OF Some]
    by (auto simp: under_claims_def record_under_pressure_def claims_eq)
next
  case None
  let ?ys = "compact_loop (tl_entries log)"
  have "touched ?ys = touched (tl_entries log)" "written ?ys = written (tl_entries log)"
    using compact_loop_claims [of "tl_entries log"] by (simp_all add: claims_eq)
  then show ?thesis using assms None compact_loop_length [of "tl_entries log"]
    by (auto simp: under_claims_def record_under_pressure_def claims_eq tl_compact_def Let_def)
qed

lemma record_under_claims:
  assumes "under_claims log bs"
  shows "under_claims (tl_record log b) (bs @ [b])"
proof (cases "b \<in> set (tl_entries log)")
  case True
  then have "claims (tl_entries log @ [b]) = claims (tl_entries log)" by (intro claims_cong) auto
  then have "touched [b] \<subseteq> touched (tl_entries log)" "written [b] \<subseteq> written (tl_entries log)"
    by (auto simp: claims_eq)
  then show ?thesis using assms True
    by (auto simp: tl_record_def list_ex_iff under_claims_def claims_eq simp del: touched_simps(2) written_simps(2))
next
  case False
  then show ?thesis
    using assms pressure_under_claims [OF assms, of b]
    by (auto simp: tl_record_def list_ex_iff under_claims_def claims_eq max_touch_records_def)
qed

section \<open>When the log overflows\<close>

definition unmergeable :: "segment_borrow list \<Rightarrow> bool" where
  "unmergeable xs \<longleftrightarrow> (\<forall>j < length xs. \<forall>i < j. merge_exact (xs ! i) (xs ! j) = None)"

lemma compact_inner_idle:
  "snd (compact_inner xs i j False) \<longleftrightarrow> (\<exists>k. j \<le> k \<and> k < length xs \<and> merge_exact (xs ! i) (xs ! k) \<noteq> None)"
proof (induction xs i j "False" rule: compact_inner.induct)
  case (1 xs i j)
  have flag: "snd (compact_inner ys i' j' True)" for ys i' j'
    using compact_inner_shrinks [of ys True i' j'] by (auto simp: shrinks_def)
  show ?case
  proof (cases "j < length xs")
    case True
    show ?thesis
    proof (cases "merge_exact (xs ! i) (xs ! j)")
      case None
      have "(\<exists>k \<ge> j. k < length xs \<and> merge_exact (xs ! i) (xs ! k) \<noteq> None) \<longleftrightarrow>
          (\<exists>k \<ge> j + 1. k < length xs \<and> merge_exact (xs ! i) (xs ! k) \<noteq> None)"
        using None by (metis Suc_eq_plus1 Suc_leD le_antisym not_less_eq_eq)
      then show ?thesis using 1(1) [OF True None] True None by (simp add: compact_inner.simps [of xs i j False])
    next
      case (Some merged)
      then show ?thesis using True flag by (auto simp: compact_inner.simps [of xs i j False])
    qed
  qed (auto simp: compact_inner.simps)
qed

lemma compact_outer_idle:
  "snd (compact_outer xs i False) \<longleftrightarrow>
   (\<exists>h k. i \<le> h \<and> h < k \<and> k < length xs \<and> merge_exact (xs ! h) (xs ! k) \<noteq> None)"
proof (induction xs i "False" rule: compact_outer.induct)
  case (1 xs i)
  let ?in = "compact_inner xs i (i + 1) False"
  show ?case
  proof (cases "i < length xs")
    case True
    have step: "compact_outer xs i False = compact_outer (fst ?in) (i + 1) (snd ?in)"
      using True by (simp add: compact_outer.simps [of xs i] Let_def)
    show ?thesis
    proof (cases "snd ?in")
      case True
      then have "snd (compact_outer (fst ?in) (i + 1) True)"
        using compact_outer_shrinks [of "fst ?in" True "i + 1"] by (auto simp: shrinks_def)
      moreover from True compact_inner_idle [of xs i "i + 1"]
      have "\<exists>h k. i \<le> h \<and> h < k \<and> k < length xs \<and> merge_exact (xs ! h) (xs ! k) \<noteq> None"
        by (metis Suc_eq_plus1 Suc_le_eq order_refl)
      ultimately show ?thesis using step True by simp
    next
      case False
      then have same: "?in = (xs, False)" using compact_inner_shrinks [of xs False i "i + 1"] by (auto simp: shrinks_def)
      have "snd (compact_outer xs i False) \<longleftrightarrow>
          (\<exists>h k. i + 1 \<le> h \<and> h < k \<and> k < length xs \<and> merge_exact (xs ! h) (xs ! k) \<noteq> None)"
        using 1 [OF True refl] same step by simp
      moreover have "merge_exact (xs ! i) (xs ! k) = None" if "i < k" "k < length xs" for k
        using False compact_inner_idle [of xs i "i + 1"] that by auto
      ultimately show ?thesis by (metis Suc_eq_plus1 Suc_leD le_antisym not_less_eq_eq)
    qed
  qed (auto simp: compact_outer.simps)
qed

lemma compact_freed_iff: "length (compact_loop xs) < length xs \<longleftrightarrow> \<not> unmergeable xs"
proof -
  let ?pass = "compact_outer xs 0 False"
  have idle: "snd ?pass \<longleftrightarrow> \<not> unmergeable xs"
    using compact_outer_idle [of xs 0] by (auto simp: unmergeable_def)
  have step: "compact_loop xs = (if snd ?pass then compact_loop (fst ?pass) else fst ?pass)"
    by (simp add: compact_loop.simps [of xs] Let_def)
  show ?thesis
  proof (cases "snd ?pass")
    case True
    then have "length (fst ?pass) < length xs" using compact_outer_shrinks [of xs False 0] by (auto simp: shrinks_def)
    then show ?thesis using compact_loop_length [of "fst ?pass"] True idle step by simp
  next
    case False
    then have "?pass = (xs, False)" using compact_outer_shrinks [of xs False 0] by (auto simp: shrinks_def)
    then show ?thesis using False idle step by simp
  qed
qed

lemma unmergeable_snoc:
  "unmergeable (xs @ [b]) \<longleftrightarrow> unmergeable xs \<and> (\<forall>i < length xs. merge_exact (xs ! i) b = None)"
  by (auto simp: unmergeable_def nth_append less_Suc_eq)

lemma under_claims_run: "under_claims log hs \<Longrightarrow> under_claims (foldl tl_record log bs) (hs @ bs)"
proof (induction bs arbitrary: log hs)
  case (Cons b bs)
  from Cons.IH [OF record_under_claims [OF Cons.prems, of b]] show ?case by simp
qed simp

lemma touch_log_exact':
  "let log = foldl tl_record tl_new bs in
     tl_len log \<le> 32 \<and> touched (tl_entries log) \<subseteq> touched bs \<and> written (tl_entries log) \<subseteq> written bs \<and>
     (tl_overflowed log \<or> touched (tl_entries log) = touched bs \<and> written (tl_entries log) = written bs)"
  using under_claims_run [of tl_new "[]" bs]
  by (auto simp: under_claims_def tl_new_def tl_len_def tl_overflowed_def max_touch_records_def claims_eq Let_def)

section \<open>Properties\<close>

text \<open>
  C26: the touch log is exact. After any sequence of touches the log holds at most 32
  records, claims no byte (and no written byte) that was not touched (written), and unless
  the overflow flag is set it claims all of them: merging under pressure gives up
  granularity, never coverage.
\<close>

theorem touch_log_exact:
  "let log = foldl tl_record tl_new bs in
     tl_len log \<le> 32 \<and> touched (tl_entries log) \<subseteq> touched bs \<and> written (tl_entries log) \<subseteq> written bs \<and>
     (tl_overflowed log \<or> touched (tl_entries log) = touched bs \<and> written (tl_entries log) = written bs)"
  by (rule touch_log_exact')

text \<open>
  The overflow flag is the last resort. A touch sets it exactly when the log holds 32
  records and these together with the new range are pairwise unmergeable and new.
\<close>

theorem touch_log_overflow_iff:
  assumes "\<not> tl_overflowed log" and "tl_len log \<le> 32"
  shows "tl_overflowed (tl_record log b) \<longleftrightarrow>
    tl_len log = 32 \<and> b \<notin> set (tl_entries log) \<and> unmergeable (tl_entries log @ [b])"
proof (cases "b \<in> set (tl_entries log) \<or> tl_len log < 32")
  case True
  then show ?thesis using assms by (auto simp: tl_record_def list_ex_iff tl_overflowed_def tl_len_def max_touch_records_def)
next
  case False
  let ?xs = "tl_entries log"
  have full: "length ?xs = 32" "\<not> tl_overflow log" using False assms by (auto simp: tl_len_def tl_overflowed_def)
  have "tl_record log b = record_under_pressure log b"
    using False full by (simp add: tl_record_def list_ex_iff max_touch_records_def)
  moreover have "tl_overflow (record_under_pressure log b) \<longleftrightarrow>
      absorb_loop ?xs b (length ?xs) = None \<and> \<not> length (compact_loop ?xs) < length ?xs"
    using full(2) by (cases "absorb_loop ?xs b (length ?xs)") (auto simp: record_under_pressure_def tl_compact_def Let_def)
  ultimately show ?thesis
    using False full compact_freed_iff [of ?xs]
    by (auto simp: tl_overflowed_def tl_len_def absorb_loop_None unmergeable_snoc)
qed

text \<open>32 accounts with one record each, and a touch of a 33rd.\<close>

definition one_record :: "nat \<Rightarrow> segment_borrow" where
  "one_record n = \<lparr>sb_key_fp = 0, sb_key = replicate n 0, sb_offset = 0, sb_size = 8, sb_kind = Write\<rparr>"

theorem touch_log_overflow_iff_witness:
  "tl_overflowed (tl_record \<lparr>tl_entries = map one_record [0..<32], tl_overflow = False\<rparr> (one_record 32)) \<and>
   \<not> tl_overflowed (tl_record \<lparr>tl_entries = map one_record [0..<32], tl_overflow = False\<rparr> (one_record 31))"
proof -
  let ?log = "\<lparr>tl_entries = map one_record [0..<32], tl_overflow = False\<rparr>"
  have none: "merge_exact (one_record i) (one_record j) = None" if "i \<noteq> j" for i j
    using that by (auto simp: merge_exact_def one_record_def address_eq_def)
  have "unmergeable (map one_record [0..<32] @ [one_record 32])"
    by (auto simp: unmergeable_def nth_append none)
  moreover have "one_record 32 \<notin> set (map one_record [0..<32])"
    by (auto simp: one_record_def)
  moreover have "one_record 31 \<in> set (map one_record [0..<32])" by simp
  ultimately show ?thesis
    using touch_log_overflow_iff [of ?log "one_record 32"] touch_log_overflow_iff [of ?log "one_record 31"]
    by (simp add: tl_overflowed_def tl_len_def)
qed

end
