(* ===== verification/TouchMap.thy ===== *)
theory TouchMap imports TouchLog begin

text \<open>
  The touch-map wire format: the encoder of hopper-runtime/src/segment_borrow.rs, the address
  resolution of hopper-runtime/src/context.rs and the off-chain decoder of
  grillo-verifier/src/touch_map.rs. The instruction's account list is the list of its
  addresses. Shown: encoding and decoding are inverse, and the whole chain from the touches
  through the log and the wire to the decoded map is exact unless the map says it is partial.
\<close>

unbundle bit_operations_syntax

definition touch_map_magic :: u8 where "touch_map_magic = 0x7A"
definition touch_map_version :: u8 where "touch_map_version = 0x01"
definition flag_overflowed :: u8 where "flag_overflowed = 1"
definition flag_skipped :: u8 where "flag_skipped = 2"
definition touch_map_header_len :: nat where "touch_map_header_len = 4"
definition touch_map_record_len :: nat where "touch_map_record_len = 9"
definition touch_map_max_encoded_len :: nat where
  "touch_map_max_encoded_len = touch_map_header_len + max_touch_records * touch_map_record_len"

record touch_map_record =
  tm_slot :: u8
  tm_offset :: u32
  tm_size :: u32
  tm_write :: bool

text \<open>The loop of \<open>encode_touch_map\<close> over the records, with its buffer, flags, count and position.\<close>

fun encode_loop :: "touch_map_record list \<Rightarrow> bytes \<Rightarrow> u8 \<Rightarrow> nat \<Rightarrow> nat \<Rightarrow> (bytes \<times> u8 \<times> nat \<times> nat) outcome" where
  "encode_loop [] buf flags count pos = Ok (buf, flags, count, pos)"
| "encode_loop (rec # rest) buf flags count pos =
     (if count \<ge> max_touch_records then Ok (buf, flags OR flag_overflowed, count, pos)
      else if tm_offset rec > 0x7FFFFFFF then encode_loop rest buf (flags OR flag_skipped) count pos
      else
        let packed = tm_offset rec OR (if tm_write rec then 0x80000000 else 0) in
        obind (wr_byte buf pos (tm_slot rec)) (\<lambda>buf.
        obind (wr_u32 buf (pos + 1) (unat packed)) (\<lambda>buf.
        obind (wr_u32 buf (pos + 5) (unat (tm_size rec))) (\<lambda>buf.
        encode_loop rest buf flags (count + 1) (pos + touch_map_record_len)))))"

definition encode_touch_map :: "touch_map_record list \<Rightarrow> bool \<Rightarrow> bool \<Rightarrow> (bytes \<times> nat) outcome" where
  "encode_touch_map records overflowed skipped =
     (let buf = replicate touch_map_max_encoded_len 0;
          flags = (if overflowed then flag_overflowed else 0) OR (if skipped then flag_skipped else 0) in
      obind (encode_loop records buf flags 0 touch_map_header_len) (\<lambda>(buf, flags, count, pos).
      obind (wr_byte buf 0 touch_map_magic) (\<lambda>buf.
      obind (wr_byte buf 1 touch_map_version) (\<lambda>buf.
      obind (wr_byte buf 2 flags) (\<lambda>buf.
      obind (wr_byte buf 3 (word_of_nat count)) (\<lambda>buf.
      Ok (buf, pos)))))))"

section \<open>Resolution of addresses to slots\<close>

definition position :: "'a \<Rightarrow> 'a list \<Rightarrow> nat option" where
  "position x xs = find (\<lambda>i. xs ! i = x) [0..<length xs]"

text \<open>The \<open>for_each_touch\<close> closure of \<open>Context::encode_touch_map\<close>: the records so far and the flag.\<close>

fun resolve_touches :: "bytes list \<Rightarrow> segment_borrow list \<Rightarrow> touch_map_record list \<Rightarrow> bool \<Rightarrow> touch_map_record list \<times> bool" where
  "resolve_touches accounts [] records skipped = (records, skipped)"
| "resolve_touches accounts (t # ts) records skipped =
     (case position (sb_key t) accounts of
        Some i \<Rightarrow>
          if i \<le> 255 \<and> length records < max_touch_records then
            resolve_touches accounts ts
              (records @ [\<lparr>tm_slot = word_of_nat i, tm_offset = sb_offset t, tm_size = sb_size t,
                 tm_write = (sb_kind t = Write)\<rparr>]) skipped
          else resolve_touches accounts ts records True
      | None \<Rightarrow> resolve_touches accounts ts records True)"

definition context_encode_touch_map :: "bytes list \<Rightarrow> touch_log \<Rightarrow> (bytes \<times> nat) outcome" where
  "context_encode_touch_map accounts log =
     (let (records, skipped) = resolve_touches accounts (tl_entries log) [] False in
      encode_touch_map records (tl_overflowed log) skipped)"

section \<open>The decoder\<close>

record touch_map =
  map_overflowed :: bool
  map_skipped :: bool
  map_records :: "touch_map_record list"

definition touch_record_end :: "touch_map_record \<Rightarrow> u64" where
  "touch_record_end r = ucast (tm_offset r) + ucast (tm_size r)"

definition map_is_partial :: "touch_map \<Rightarrow> bool" where
  "map_is_partial m \<longleftrightarrow> map_overflowed m \<or> map_skipped m"

definition map_writes :: "touch_map \<Rightarrow> touch_map_record list" where
  "map_writes m = filter tm_write (map_records m)"

datatype decode_error = TooShort nat | BadMagic u8 | BadVersion u8 | LengthMismatch nat nat nat

fun decode_records :: "bytes \<Rightarrow> nat \<Rightarrow> nat \<Rightarrow> touch_map_record list outcome" where
  "decode_records bs i 0 = Ok []"
| "decode_records bs i (Suc left) =
     (let base = touch_map_header_len + i * touch_map_record_len in
      obind (rd_u32 bs (base + 1)) (\<lambda>packed.
      obind (rd_u32 bs (base + 5)) (\<lambda>sz.
      obind (rd_byte bs base) (\<lambda>slot.
      obind (decode_records bs (Suc i) left) (\<lambda>rest.
      Ok (\<lparr>tm_slot = slot, tm_offset = word_of_nat packed AND 0x7FFFFFFF, tm_size = word_of_nat sz,
            tm_write = (word_of_nat packed AND (0x80000000 :: u32) \<noteq> 0)\<rparr> # rest))))))"

text \<open>\<open>Inl\<close> is the decoder's own error; \<open>Trap\<close> would be an index out of range.\<close>

definition decode_touch_map :: "bytes \<Rightarrow> (decode_error + touch_map) outcome" where
  "decode_touch_map bs =
     (if length bs < touch_map_header_len then Ok (Inl (TooShort (length bs)))
      else obind (rd_byte bs 0) (\<lambda>magic.
        if magic \<noteq> touch_map_magic then Ok (Inl (BadMagic magic))
        else obind (rd_byte bs 1) (\<lambda>version.
          if version \<noteq> touch_map_version then Ok (Inl (BadVersion version))
          else obind (rd_byte bs 2) (\<lambda>flags.
            obind (rd_byte bs 3) (\<lambda>c.
            let count = unat c; expected_len = touch_map_header_len + count * touch_map_record_len in
            if length bs \<noteq> expected_len then Ok (Inl (LengthMismatch count expected_len (length bs)))
            else obind (decode_records bs 0 count) (\<lambda>records.
              Ok (Inr \<lparr>map_overflowed = (flags AND flag_overflowed \<noteq> 0), map_skipped = (flags AND flag_skipped \<noteq> 0),
                       map_records = records\<rparr>)))))))"

section \<open>One record\<close>

definition representable :: "touch_map_record \<Rightarrow> bool" where
  "representable r \<longleftrightarrow> \<not> tm_offset r > 0x7FFFFFFF"

definition packed_of :: "touch_map_record \<Rightarrow> u32" where
  "packed_of r = tm_offset r OR (if tm_write r then 0x80000000 else 0)"

definition rec_bytes :: "touch_map_record \<Rightarrow> bytes" where
  "rec_bytes r = tm_slot r # le_enc 4 (unat (packed_of r)) @ le_enc 4 (unat (tm_size r))"

lemma length_rec_bytes [simp]: "length (rec_bytes r) = 9"
  by (simp add: rec_bytes_def)

lemma packed_fields:
  assumes "representable r"
  shows "packed_of r AND 0x7FFFFFFF = tm_offset r" and "packed_of r AND 0x80000000 \<noteq> 0 \<longleftrightarrow> tm_write r"
proof -
  have small: "unat (tm_offset r) < 2 ^ 31"
    using assms by (simp add: representable_def word_less_nat_alt not_less)
  have mask: "(0x7FFFFFFF :: u32) = mask 31" by (simp add: mask_eq_exp_minus_1)
  have top: "(0x80000000 :: u32) = 2 ^ 31" by simp
  have off: "take_bit 31 (tm_offset r) = tm_offset r"
    by (rule word_unat_eq_iff [THEN iffD2]) (simp only: unsigned_take_bit_eq take_bit_nat_eq_self [OF small])
  then have nb: "\<not> bit (tm_offset r) 31" by (metis bit_take_bit_iff less_irrefl)
  have "take_bit 31 (2 ^ 31 :: u32) = 0" by (rule word_unat_eq_iff [THEN iffD2]) (simp add: unsigned_take_bit_eq take_bit_eq_mod)
  then show "packed_of r AND 0x7FFFFFFF = tm_offset r"
    unfolding mask packed_of_def top by (cases "tm_write r") (simp_all only: take_bit_eq_mask [symmetric] take_bit_or off if_True if_False or.right_neutral)
  show "packed_of r AND 0x80000000 \<noteq> 0 \<longleftrightarrow> tm_write r"
    unfolding top and_exp_eq_0_iff_not_bit packed_of_def bit_or_iff using nb by (simp add: bit_exp_iff)
qed

lemma u32_word_round: "le_val (le_enc 4 (unat (x :: u32))) = unat x"
  using unsigned_less [of x, where 'a = nat] by (simp add: le_val_enc)

lemma decode_records_eq:
  assumes "list_all representable rs" and "bs = hd4 @ done @ concat (map rec_bytes rs)"
    and "length hd4 = 4" and "length done = 9 * i"
  shows "decode_records bs i (length rs) = Ok rs"
  using assms
proof (induction rs arbitrary: i "done")
  case (Cons r rs)
  let ?tail = "concat (map rec_bytes rs)" and ?base = "4 + i * 9"
  have bs: "bs = (hd4 @ done) @ rec_bytes r @ ?tail" and len: "length (hd4 @ done) = ?base"
    using Cons.prems by simp_all
  have cut: "bslice ?base 9 bs = rec_bytes r" and long: "?base + 9 \<le> length bs"
    unfolding bs using len by (simp_all add: bslice_def)
  have "bslice (?base + 1) 4 bs = bslice 1 4 (bslice ?base 9 bs)"
    and "bslice (?base + 5) 4 bs = bslice 5 4 (bslice ?base 9 bs)"
    by (simp_all add: bslice_bslice)
  then have parts: "u32_at bs (?base + 1) = unat (packed_of r)" "u32_at bs (?base + 5) = unat (tm_size r)"
    unfolding u32_at_def cut by (simp_all add: rec_bytes_def bslice_def u32_word_round)
  have slot: "bs ! ?base = tm_slot r" using bslice_nth [of ?base 9 bs 0] long by (simp add: cut rec_bytes_def)
  have "decode_records bs (Suc i) (length rs) = Ok rs"
    using Cons.IH [of "done @ rec_bytes r" "Suc i"] Cons.prems by simp
  then show ?case
    using parts slot long packed_fields [of r] Cons.prems(1)
    by (simp add: touch_map_header_len_def touch_map_record_len_def)
qed simp

section \<open>The encoder\<close>

text \<open>What the loop keeps of the records when \<open>n\<close> more fit, and the two flags it raises.\<close>

fun kept :: "touch_map_record list \<Rightarrow> nat \<Rightarrow> touch_map_record list \<times> bool \<times> bool" where
  "kept [] n = ([], False, False)"
| "kept (r # rs) 0 = ([], True, False)"
| "kept (r # rs) (Suc n) =
     (if representable r then (let (ks, ov, sk) = kept rs n in (r # ks, ov, sk))
      else (let (ks, ov, sk) = kept rs (Suc n) in (ks, ov, True)))"

lemma kept_take: "fst (kept rs n) = take n (filter representable rs)"
  by (induction rs n rule: kept.induct) (auto simp: Let_def split_beta)

lemma kept_all:
  "\<not> fst (snd (kept rs n)) \<Longrightarrow> \<not> snd (snd (kept rs n)) \<Longrightarrow> fst (kept rs n) = rs"
  by (induction rs n rule: kept.induct) (auto simp: Let_def split_beta split: if_splits)

lemma kept_fits: "list_all representable rs \<Longrightarrow> length rs \<le> n \<Longrightarrow> kept rs n = (rs, False, False)"
  by (induction rs n rule: kept.induct) auto

lemma flag_or: "f OR (if a then x else 0) OR (if b then x else 0) = f OR (if a \<or> b then x else 0)" for f x :: u8
  by (auto simp: or.assoc)

lemma encode_loop_eq:
  assumes "length buf = 292" and "pos = 4 + 9 * count" and "count \<le> 32"
  shows "\<exists>buf'. encode_loop rs buf flags count pos =
      Ok (buf', flags OR (if fst (snd (kept rs (32 - count))) then 1 else 0) OR (if snd (snd (kept rs (32 - count))) then 2 else 0),
          count + length (fst (kept rs (32 - count))), pos + 9 * length (fst (kept rs (32 - count)))) \<and>
    length buf' = 292 \<and>
    take (pos + 9 * length (fst (kept rs (32 - count)))) buf' = take pos buf @ concat (map rec_bytes (fst (kept rs (32 - count))))"
  using assms
proof (induction rs arbitrary: buf flags count pos)
  case (Cons r rs)
  let ?n = "31 - count"
  consider "count = 32" | "count < 32" "32 - count = Suc ?n" "representable r" | "count < 32" "32 - count = Suc ?n" "\<not> representable r"
    using Cons.prems(3) by (cases "count = 32"; cases "representable r") (auto simp: Suc_diff_Suc)
  then show ?case
  proof cases
    case 1
    then show ?thesis using Cons.prems by (simp add: max_touch_records_def flag_overflowed_def)
  next
    case 2
    let ?b1 = "buf[pos := tm_slot r]"
    let ?b2 = "bsplice (pos + 1) (le_enc 4 (unat (packed_of r))) ?b1"
    let ?b3 = "bsplice (pos + 5) (le_enc 4 (unat (tm_size r))) ?b2"
    have room: "pos + 9 \<le> 292" using 2 Cons.prems(2) by simp
    have b1: "?b1 = bsplice pos [tm_slot r] buf"
      using room Cons.prems(1) by (simp add: bsplice_def upd_conv_take_nth_drop)
    have "?b2 = bsplice pos (tm_slot r # le_enc 4 (unat (packed_of r))) buf"
      using bsplice_append [of pos "[tm_slot r]" "le_enc 4 (unat (packed_of r))" buf] room Cons.prems(1) unfolding b1 by simp
    then have b3: "?b3 = bsplice pos (rec_bytes r) buf"
      using bsplice_append [of pos "tm_slot r # le_enc 4 (unat (packed_of r))" "le_enc 4 (unat (tm_size r))" buf] room Cons.prems(1)
      by (simp add: rec_bytes_def)
    have l3: "length ?b3 = 292" using room Cons.prems(1) by simp
    have "take (pos + 9) (bsplice pos (rec_bytes r) buf) = take pos buf @ rec_bytes r"
      using room Cons.prems(1) by (simp add: bsplice_def)
    then have t3: "take (pos + 9) ?b3 = take pos buf @ rec_bytes r" by (simp only: b3)
    have step: "encode_loop (r # rs) buf flags count pos = encode_loop rs ?b3 flags (count + 1) (pos + 9)"
      using 2 room Cons.prems(1)
      by (simp add: max_touch_records_def representable_def wr_byte_def touch_map_record_len_def packed_of_def Let_def)
    have n: "32 - (count + 1) = ?n" by simp
    from Cons.IH [OF l3, of "pos + 9" "count + 1" flags, unfolded n] 2(1) Cons.prems(2) obtain buf' where
      "encode_loop rs ?b3 flags (count + 1) (pos + 9) =
        Ok (buf', flags OR (if fst (snd (kept rs ?n)) then 1 else 0) OR (if snd (snd (kept rs ?n)) then 2 else 0),
          count + 1 + length (fst (kept rs ?n)), pos + 9 + 9 * length (fst (kept rs ?n)))"
      "length buf' = 292" "take (pos + 9 + 9 * length (fst (kept rs ?n))) buf' = take (pos + 9) ?b3 @ concat (map rec_bytes (fst (kept rs ?n)))"
      by auto
    then show ?thesis unfolding step t3 using 2 by (simp add: split_beta Let_def algebra_simps)
  next
    case 3
    let ?f = "flags OR 2"
    have step: "encode_loop (r # rs) buf flags count pos = encode_loop rs buf ?f count pos"
      using 3 by (simp add: max_touch_records_def representable_def flag_skipped_def)
    have "?f OR x OR (if b then 2 else 0) = flags OR x OR 2" for x b
      by (auto simp: ac_simps)
    then show ?thesis
      unfolding step using Cons.IH [OF Cons.prems(1,2,3), of ?f, unfolded 3(2)] 3 by (simp add: split_beta Let_def)
  qed
qed simp

lemma encode_touch_map_eq:
  "\<exists>buf. encode_touch_map rs ov sk = Ok (buf, 4 + 9 * length (fst (kept rs 32))) \<and>
    take (4 + 9 * length (fst (kept rs 32))) buf =
      [0x7A, 1, (if ov \<or> fst (snd (kept rs 32)) then 1 else 0) OR (if sk \<or> snd (snd (kept rs 32)) then 2 else 0),
       word_of_nat (length (fst (kept rs 32)))] @ concat (map rec_bytes (fst (kept rs 32)))"
proof -
  let ?k = "kept rs 32"
  let ?init = "(if ov then 1 else 0) OR (if sk then 2 else 0) :: u8"
  let ?f = "?init OR (if fst (snd ?k) then 1 else 0) OR (if snd (snd ?k) then 2 else 0)"
  have "length (replicate 292 0 :: bytes) = 292" by simp
  from encode_loop_eq [OF this, of 4 0 rs ?init] obtain buf where
    b: "encode_loop rs (replicate 292 0) ?init 0 4 = Ok (buf, ?f, length (fst ?k), 4 + 9 * length (fst ?k))"
    "length buf = 292" "take (4 + 9 * length (fst ?k)) buf = take 4 (replicate 292 0) @ concat (map rec_bytes (fst ?k))"
    by auto
  have sizes: "touch_map_max_encoded_len = 292" "touch_map_header_len = 4"
    by (simp_all add: touch_map_max_encoded_len_def touch_map_header_len_def touch_map_record_len_def max_touch_records_def)
  let ?b = "buf[0 := 0x7A, 1 := 1, 2 := ?f, 3 := word_of_nat (length (fst ?k))]"
  have "encode_touch_map rs ov sk = Ok (?b, 4 + 9 * length (fst ?k))"
  proof -
    have "encode_touch_map rs ov sk = obind (encode_loop rs (replicate 292 0) ?init 0 4)
        (\<lambda>(buf, flags, count, pos). obind (wr_byte buf 0 touch_map_magic) (\<lambda>buf.
          obind (wr_byte buf 1 touch_map_version) (\<lambda>buf. obind (wr_byte buf 2 flags) (\<lambda>buf.
          obind (wr_byte buf 3 (word_of_nat count)) (\<lambda>buf. Ok (buf, pos))))))"
      by (simp only: encode_touch_map_def Let_def sizes flag_overflowed_def flag_skipped_def)
    then show ?thesis
      unfolding b(1) using b(2) by (auto simp: wr_byte_def touch_map_magic_def touch_map_version_def)
  qed
  moreover have "take (4 + 9 * length (fst ?k)) ?b =
      [0x7A, 1, ?f, word_of_nat (length (fst ?k))] @ concat (map rec_bytes (fst ?k))"
  proof -
    have "take 4 (replicate 292 0) = [0, 0, 0, 0 :: u8]" by (simp add: numeral_eq_Suc)
    then have "take (4 + 9 * length (fst ?k)) buf = [0, 0, 0, 0] @ concat (map rec_bytes (fst ?k))" using b(3) by simp
    then show ?thesis by (simp add: take_update_swap numeral_eq_Suc)
  qed
  moreover have "?f = (if ov \<or> fst (snd ?k) then 1 else 0) OR (if sk \<or> snd (snd ?k) then 2 else 0)"
    by (cases ov; cases sk; simp add: ac_simps)
  ultimately show ?thesis by (intro exI [of _ ?b]) simp
qed

lemma flag_bits:
  "((if a then 1 else 0) OR (if b then 2 else 0) :: u8) AND 1 \<noteq> 0 \<longleftrightarrow> a"
  "((if a then 1 else 0) OR (if b then 2 else 0) :: u8) AND 2 \<noteq> 0 \<longleftrightarrow> b"
  by (cases a; cases b; simp)+

lemma kept_representable: "list_all representable (fst (kept rs n))"
  by (auto simp: kept_take list_all_iff dest: in_set_takeD)

lemma decode_encoded:
  assumes "length ks \<le> 32" and "list_all representable ks"
  shows "decode_touch_map ([0x7A, 1, (if a then 1 else 0) OR (if b then 2 else 0), word_of_nat (length ks)] @ concat (map rec_bytes ks)) =
    Ok (Inr \<lparr>map_overflowed = a, map_skipped = b, map_records = ks\<rparr>)"
proof -
  let ?hd = "[0x7A, 1, (if a then 1 else 0) OR (if b then 2 else 0), word_of_nat (length ks)] :: u8 list"
  let ?bs = "?hd @ concat (map rec_bytes ks)"
  have len: "length ?bs = 4 + 9 * length ks"
    by (induction ks) simp_all
  have count: "unat (word_of_nat (length ks) :: u8) = length ks" using assms(1) by (simp add: unat_of_nat)
  have "decode_records ?bs 0 (length ks) = Ok ks"
    by (rule decode_records_eq [OF assms(2), of _ ?hd "[]"]) simp_all
  then show ?thesis
    using count len flag_bits [of a b]
    by (simp add: decode_touch_map_def rd_byte_def touch_map_header_len_def touch_map_record_len_def touch_map_magic_def
        touch_map_version_def flag_overflowed_def flag_skipped_def Let_def)
qed

section \<open>The whole chain\<close>

definition map_touched :: "bytes list \<Rightarrow> touch_map_record list \<Rightarrow> (bytes \<times> nat) set" where
  "map_touched accounts rs =
     (\<Union>r \<in> set rs. {accounts ! unat (tm_slot r)} \<times> {unat (tm_offset r) ..< unat (touch_record_end r)})"

lemma touch_record_end_val [simp]: "unat (touch_record_end r) = unat (tm_offset r) + unat (tm_size r)"
  using unat_range_end [of "tm_offset r" "tm_size r"] by (simp add: touch_record_end_def range_end_def)

lemma map_touched_simps [simp]:
  "map_touched accounts [] = {}"
  "map_touched accounts (r # rs) = {accounts ! unat (tm_slot r)} \<times> {unat (tm_offset r) ..< unat (touch_record_end r)} \<union> map_touched accounts rs"
  by (auto simp: map_touched_def)

lemma position_Some: "position x xs = Some i \<Longrightarrow> i < length xs \<and> xs ! i = x"
  by (auto simp: position_def find_Some_iff)

lemma resolve_touches_spec:
  "\<exists>rs. fst (resolve_touches accounts ts acc sk) = acc @ rs \<and>
    (sk \<longrightarrow> snd (resolve_touches accounts ts acc sk)) \<and>
    map_touched accounts rs \<subseteq> touched ts \<and> map_touched accounts (filter tm_write rs) \<subseteq> written ts \<and>
    (snd (resolve_touches accounts ts acc sk) \<or>
      map_touched accounts rs = touched ts \<and> map_touched accounts (filter tm_write rs) = written ts)"
proof (induction ts arbitrary: acc sk)
  case (Cons t ts)
  show ?case
  proof (cases "\<exists>i. position (sb_key t) accounts = Some i \<and> i \<le> 255 \<and> length acc < max_touch_records")
    case True
    then obtain i where i: "position (sb_key t) accounts = Some i" "i \<le> 255" "length acc < max_touch_records" by auto
    let ?r = "\<lparr>tm_slot = word_of_nat i, tm_offset = sb_offset t, tm_size = sb_size t, tm_write = (sb_kind t = Write)\<rparr>"
    have step: "resolve_touches accounts (t # ts) acc sk = resolve_touches accounts ts (acc @ [?r]) sk" using i by simp
    have one: "{accounts ! unat (tm_slot ?r)} \<times> {unat (tm_offset ?r) ..< unat (touch_record_end ?r)} = {sb_key t} \<times> bytes_of t"
      using position_Some [OF i(1)] i(2) by (simp add: unat_of_nat bytes_of_def)
    from Cons.IH [of "acc @ [?r]" sk] obtain rs where
      "fst (resolve_touches accounts ts (acc @ [?r]) sk) = acc @ ?r # rs"
      "sk \<longrightarrow> snd (resolve_touches accounts ts (acc @ [?r]) sk)"
      "map_touched accounts rs \<subseteq> touched ts" "map_touched accounts (filter tm_write rs) \<subseteq> written ts"
      "snd (resolve_touches accounts ts (acc @ [?r]) sk) \<or>
        map_touched accounts rs = touched ts \<and> map_touched accounts (filter tm_write rs) = written ts"
      by auto
    then show ?thesis unfolding step using one by (intro exI [of _ "?r # rs"]) auto
  next
    case False
    then have step: "resolve_touches accounts (t # ts) acc sk = resolve_touches accounts ts acc True"
      by (auto split: option.splits)
    from Cons.IH [of acc True] show ?thesis unfolding step by auto
  qed
qed auto

lemma map_touched_mono: "set rs \<subseteq> set rs' \<Longrightarrow> map_touched accounts rs \<subseteq> map_touched accounts rs'"
  by (auto simp: map_touched_def)

lemma touch_map_codec:
  "\<exists>buf n m. encode_touch_map rs ov sk = Ok (buf, n) \<and> decode_touch_map (take n buf) = Ok (Inr m) \<and>
     map_records m = take 32 (filter representable rs) \<and>
     (map_is_partial m \<or> map_records m = rs \<and> \<not> ov \<and> \<not> sk)"
proof -
  let ?k = "kept rs 32"
  let ?m = "\<lparr>map_overflowed = (ov \<or> fst (snd ?k)), map_skipped = (sk \<or> snd (snd ?k)), map_records = fst ?k\<rparr>"
  from encode_touch_map_eq [of rs ov sk] obtain buf where
    buf: "encode_touch_map rs ov sk = Ok (buf, 4 + 9 * length (fst ?k))"
    "take (4 + 9 * length (fst ?k)) buf =
      [0x7A, 1, (if ov \<or> fst (snd ?k) then 1 else 0) OR (if sk \<or> snd (snd ?k) then 2 else 0),
       word_of_nat (length (fst ?k))] @ concat (map rec_bytes (fst ?k))" by blast
  have "length (fst ?k) \<le> 32" by (simp add: kept_take)
  then have "decode_touch_map (take (4 + 9 * length (fst ?k)) buf) = Ok (Inr ?m)"
    unfolding buf(2) by (rule decode_encoded [OF _ kept_representable])
  moreover have "map_is_partial ?m \<or> map_records ?m = rs \<and> \<not> ov \<and> \<not> sk"
    using kept_all [of rs 32] by (auto simp: map_is_partial_def)
  ultimately show ?thesis
    using buf(1) by (intro exI [of _ buf] exI [of _ "4 + 9 * length (fst ?k)"] exI [of _ ?m]) (simp add: kept_take)
qed

lemma resolve_touches_slots:
  "\<forall>r \<in> set acc. unat (tm_slot r) < length accounts \<Longrightarrow>
   \<forall>r \<in> set (fst (resolve_touches accounts ts acc sk)). unat (tm_slot r) < length accounts"
proof (induction ts arbitrary: acc sk)
  case (Cons t ts)
  show ?case
  proof (cases "position (sb_key t) accounts")
    case None
    then show ?thesis using Cons by simp
  next
    case (Some i)
    then have "i < length accounts" using position_Some [OF Some] by simp
    then have "unat (word_of_nat i :: u8) < length accounts"
      by (simp add: unat_of_nat)
    then have "\<forall>r \<in> set (acc @ [\<lparr>tm_slot = word_of_nat i, tm_offset = sb_offset t, tm_size = sb_size t, tm_write = (sb_kind t = Write)\<rparr>]).
        unat (tm_slot r) < length accounts" using Cons.prems by simp
    from Cons.IH [OF this, of sk] Cons.IH [OF Cons.prems, of True] show ?thesis by (simp add: Some)
  qed
qed simp

lemma touch_map_chain:
  "\<exists>buf n m. context_encode_touch_map accounts (foldl tl_record tl_new bs) = Ok (buf, n) \<and>
     decode_touch_map (take n buf) = Ok (Inr m) \<and>
     map_touched accounts (map_records m) \<subseteq> touched bs \<and> map_touched accounts (map_writes m) \<subseteq> written bs \<and>
     (map_is_partial m \<or> map_touched accounts (map_records m) = touched bs \<and> map_touched accounts (map_writes m) = written bs) \<and>
     (\<forall>r \<in> set (map_records m). unat (tm_slot r) < length accounts)"
proof -
  let ?log = "foldl tl_record tl_new bs"
  let ?res = "resolve_touches accounts (tl_entries ?log) [] False"
  note L = touch_log_exact' [of bs, unfolded Let_def]
  from resolve_touches_spec [of accounts "tl_entries ?log" "[]" False] have R:
    "map_touched accounts (fst ?res) \<subseteq> touched (tl_entries ?log)"
    "map_touched accounts (filter tm_write (fst ?res)) \<subseteq> written (tl_entries ?log)"
    "snd ?res \<or> map_touched accounts (fst ?res) = touched (tl_entries ?log) \<and>
      map_touched accounts (filter tm_write (fst ?res)) = written (tl_entries ?log)" by auto
  from touch_map_codec [of "fst ?res" "tl_overflowed ?log" "snd ?res"] obtain buf n m where
    M: "encode_touch_map (fst ?res) (tl_overflowed ?log) (snd ?res) = Ok (buf, n)" "decode_touch_map (take n buf) = Ok (Inr m)"
    "map_records m = take 32 (filter representable (fst ?res))"
    "map_is_partial m \<or> map_records m = fst ?res \<and> \<not> tl_overflowed ?log \<and> \<not> snd ?res" by blast
  have recs: "set (map_records m) \<subseteq> set (fst ?res)" and "set (map_writes m) \<subseteq> set (filter tm_write (fst ?res))"
    unfolding map_writes_def M(3) by (auto dest: in_set_takeD)
  note sub = map_touched_mono [OF recs, of accounts] map_touched_mono [OF this(2), of accounts]
  have "context_encode_touch_map accounts ?log = Ok (buf, n)"
    using M(1) by (simp add: context_encode_touch_map_def split_beta)
  moreover have "map_touched accounts (map_records m) \<subseteq> touched bs" "map_touched accounts (map_writes m) \<subseteq> written bs"
    using sub R(1,2) L by blast+
  moreover have "map_is_partial m \<or> map_touched accounts (map_records m) = touched bs \<and> map_touched accounts (map_writes m) = written bs"
    using M(4) R(3) L unfolding map_writes_def by metis
  moreover have "\<forall>r \<in> set (map_records m). unat (tm_slot r) < length accounts"
    using recs resolve_touches_slots [of "[]" accounts "tl_entries ?log" False] by auto
  ultimately show ?thesis using M(2) by blast
qed

section \<open>Properties\<close>

text \<open>
  The touch-map codec is honest. For every list of records and both flags, the encoder
  stays inside its 292-byte buffer, the emitted bytes decode, the decoded records are the
  first 32 representable ones, and unless the map says it is partial they are all the
  records and neither flag was raised by the caller.
\<close>

theorem touch_map_codec_honest:
  "\<exists>buf n m. encode_touch_map rs ov sk = Ok (buf, n) \<and> decode_touch_map (take n buf) = Ok (Inr m) \<and>
     map_records m = take 32 (filter representable rs) \<and>
     (map_is_partial m \<or> map_records m = rs \<and> \<not> ov \<and> \<not> sk)"
  by (rule touch_map_codec)

text \<open>
  C9: the touch map, end to end. Run any touches through the log, resolve the addresses
  against the account list, encode and decode: the map always decodes, never claims a byte
  (or a written byte) the instruction did not touch (write), and unless it says it is
  partial it claims exactly those bytes.
\<close>

theorem touch_map_end_to_end:
  "\<exists>buf n m. context_encode_touch_map accounts (foldl tl_record tl_new bs) = Ok (buf, n) \<and>
     decode_touch_map (take n buf) = Ok (Inr m) \<and>
     map_touched accounts (map_records m) \<subseteq> touched bs \<and> map_touched accounts (map_writes m) \<subseteq> written bs \<and>
     (map_is_partial m \<or> map_touched accounts (map_records m) = touched bs \<and> map_touched accounts (map_writes m) = written bs)"
  using touch_map_chain [of accounts bs] by blast

end
