(* ===== verification/SegmentBorrow.thy ===== *)
theory SegmentBorrow imports TouchMap "HOL-Library.Multiset" begin

text \<open>
  hopper-runtime/src/segment_borrow.rs, second part: the segment borrow registry. The entry
  array with its length byte is the list of its live prefix (slots above the length are
  never read); the ledger pairs it with the instruction's touch log, which \<open>register\<close>
  appends to. Shown: the registry refines a multiset of at most 16 borrows, and no two
  active borrows of one account share a byte when one of them is a write.
\<close>

definition max_segment_borrows :: nat where "max_segment_borrows = 16"

record ledger =
  reg_active :: "segment_borrow list"
  reg_touch :: touch_log

definition reg_new :: "touch_log \<Rightarrow> ledger" where
  "reg_new log = \<lparr>reg_active = [], reg_touch = log\<rparr>"

definition reg_len :: "ledger \<Rightarrow> nat" where
  "reg_len r = length (reg_active r)"

definition reg_is_empty :: "ledger \<Rightarrow> bool" where
  "reg_is_empty r \<longleftrightarrow> length (reg_active r) = 0"

text \<open>The test of one existing entry against a new borrow, and the scans that use it.\<close>

definition clashes :: "segment_borrow \<Rightarrow> segment_borrow \<Rightarrow> bool" where
  "clashes existing new \<longleftrightarrow>
     sb_key_fp existing = sb_key_fp new \<and> address_eq (sb_key existing) (sb_key new) \<and>
     ranges_overlap (sb_offset existing) (sb_size existing) (sb_offset new) (sb_size new) \<and>
     (case (sb_kind existing, sb_kind new) of (Read, Read) \<Rightarrow> False | _ \<Rightarrow> True)"

fun reg_scan :: "segment_borrow list \<Rightarrow> segment_borrow \<Rightarrow> unit outcome" where
  "reg_scan [] new = Ok ()"
| "reg_scan (existing # rest) new =
     (if clashes existing new then Err AccountBorrowFailed else reg_scan rest new)"

definition reg_record_touch :: "ledger \<Rightarrow> segment_borrow \<Rightarrow> ledger" where
  "reg_record_touch r b = r\<lparr>reg_touch := tl_record (reg_touch r) b\<rparr>"

definition reg_record_account_touch :: "ledger \<Rightarrow> bytes \<Rightarrow> u32 \<Rightarrow> access_kind \<Rightarrow> ledger" where
  "reg_record_account_touch r key data_len kind = r\<lparr>reg_touch := tl_record_account (reg_touch r) key data_len kind\<rparr>"

definition reg_register :: "ledger \<Rightarrow> segment_borrow \<Rightarrow> ledger outcome" where
  "reg_register r new =
     fail_if (length (reg_active r) \<ge> max_segment_borrows) AccountBorrowFailed
       (obind (reg_scan (reg_active r) new) (\<lambda>_.
        Ok (reg_record_touch (r\<lparr>reg_active := reg_active r @ [new]\<rparr>) new)))"

definition make_borrow :: "bytes \<Rightarrow> u32 \<Rightarrow> u32 \<Rightarrow> access_kind \<Rightarrow> segment_borrow" where
  "make_borrow key off sz kind =
     \<lparr>sb_key_fp = address_fingerprint key, sb_key = key, sb_offset = off, sb_size = sz, sb_kind = kind\<rparr>"

definition reg_register_read :: "ledger \<Rightarrow> bytes \<Rightarrow> u32 \<Rightarrow> u32 \<Rightarrow> ledger outcome" where
  "reg_register_read r key off sz = reg_register r (make_borrow key off sz Read)"

definition reg_register_write :: "ledger \<Rightarrow> bytes \<Rightarrow> u32 \<Rightarrow> u32 \<Rightarrow> ledger outcome" where
  "reg_register_write r key off sz = reg_register r (make_borrow key off sz Write)"

definition reg_register_leased_read :: "ledger \<Rightarrow> bytes \<Rightarrow> u32 \<Rightarrow> u32 \<Rightarrow> (ledger \<times> segment_borrow) outcome" where
  "reg_register_leased_read r key off sz =
     (let borrow = make_borrow key off sz Read in obind (reg_register r borrow) (\<lambda>r'. Ok (r', borrow)))"

definition reg_register_leased_write :: "ledger \<Rightarrow> bytes \<Rightarrow> u32 \<Rightarrow> u32 \<Rightarrow> (ledger \<times> segment_borrow) outcome" where
  "reg_register_leased_write r key off sz =
     (let borrow = make_borrow key off sz Write in obind (reg_register r borrow) (\<lambda>r'. Ok (r', borrow)))"

text \<open>\<open>release\<close>: the first equal entry is replaced by the last one.\<close>

fun reg_release_loop :: "segment_borrow list \<Rightarrow> segment_borrow \<Rightarrow> nat \<Rightarrow> nat \<Rightarrow> segment_borrow list option" where
  "reg_release_loop xs b i 0 = None"
| "reg_release_loop xs b i (Suc left) =
     (if borrow_eq (xs ! i) b then
        (let new_len = length xs - 1 in
         Some (if i < new_len then take new_len (xs[i := xs ! new_len]) else take new_len xs))
      else reg_release_loop xs b (Suc i) left)"

definition reg_release :: "ledger \<Rightarrow> segment_borrow \<Rightarrow> ledger \<times> bool" where
  "reg_release r b =
     (case reg_release_loop (reg_active r) b 0 (length (reg_active r)) of
        Some xs \<Rightarrow> (r\<lparr>reg_active := xs\<rparr>, True)
      | None \<Rightarrow> (r, False))"

definition reg_release_last_registered :: "ledger \<Rightarrow> segment_borrow \<Rightarrow> ledger \<times> bool" where
  "reg_release_last_registered r b =
     (let len = length (reg_active r) in
      if len = 0 then (r, False)
      else if \<not> borrow_eq (reg_active r ! (len - 1)) b then reg_release r b
      else (r\<lparr>reg_active := take (len - 1) (reg_active r)\<rparr>, True))"

definition reg_clear :: "ledger \<Rightarrow> ledger" where
  "reg_clear r = r\<lparr>reg_active := []\<rparr>"

fun reg_conflict_loop :: "segment_borrow list \<Rightarrow> segment_borrow \<Rightarrow> bool" where
  "reg_conflict_loop [] proposed = False"
| "reg_conflict_loop (existing # rest) proposed =
     (if clashes existing proposed then True else reg_conflict_loop rest proposed)"

definition reg_would_conflict :: "ledger \<Rightarrow> segment_borrow \<Rightarrow> bool" where
  "reg_would_conflict r proposed = reg_conflict_loop (reg_active r) proposed"

fun reg_find_loop :: "segment_borrow list \<Rightarrow> segment_borrow \<Rightarrow> segment_borrow option" where
  "reg_find_loop [] wanted = None"
| "reg_find_loop (e # rest) wanted = (if borrow_eq e wanted then Some e else reg_find_loop rest wanted)"

definition reg_find_exact :: "ledger \<Rightarrow> bytes \<Rightarrow> u32 \<Rightarrow> u32 \<Rightarrow> access_kind \<Rightarrow> segment_borrow option" where
  "reg_find_exact r key off sz kind = reg_find_loop (reg_active r) (make_borrow key off sz kind)"

text \<open>The RAII guard: the ledger it borrows and the borrow it releases when dropped.\<close>

record borrow_guard =
  guard_registry :: ledger
  guard_borrow :: segment_borrow

definition reg_register_guard :: "ledger \<Rightarrow> segment_borrow \<Rightarrow> borrow_guard outcome" where
  "reg_register_guard r b = obind (reg_register r b) (\<lambda>r'. Ok \<lparr>guard_registry = r', guard_borrow = b\<rparr>)"

definition reg_register_guard_read :: "ledger \<Rightarrow> bytes \<Rightarrow> u32 \<Rightarrow> u32 \<Rightarrow> borrow_guard outcome" where
  "reg_register_guard_read r key off sz = reg_register_guard r (make_borrow key off sz Read)"

definition reg_register_guard_write :: "ledger \<Rightarrow> bytes \<Rightarrow> u32 \<Rightarrow> u32 \<Rightarrow> borrow_guard outcome" where
  "reg_register_guard_write r key off sz = reg_register_guard r (make_borrow key off sz Write)"

definition guard_kind :: "borrow_guard \<Rightarrow> access_kind" where "guard_kind g = sb_kind (guard_borrow g)"
definition guard_offset :: "borrow_guard \<Rightarrow> u32" where "guard_offset g = sb_offset (guard_borrow g)"
definition guard_size :: "borrow_guard \<Rightarrow> u32" where "guard_size g = sb_size (guard_borrow g)"

definition guard_drop :: "borrow_guard \<Rightarrow> ledger" where
  "guard_drop g = fst (reg_release (guard_registry g) (guard_borrow g))"

section \<open>Loops\<close>

lemma reg_scan_eq: "reg_scan xs b = (if \<exists>e \<in> set xs. clashes e b then Err AccountBorrowFailed else Ok ())"
  by (induction xs) auto

lemma reg_conflict_loop_eq: "reg_conflict_loop xs b \<longleftrightarrow> (\<exists>e \<in> set xs. clashes e b)"
  by (induction xs) auto

lemma reg_find_loop_eq: "reg_find_loop xs b = (if b \<in> set xs then Some b else None)"
  by (induction xs) auto

lemma swap_remove_mset:
  assumes "i < length xs"
  shows "mset (if i < length xs - 1 then take (length xs - 1) (xs[i := xs ! (length xs - 1)]) else take (length xs - 1) xs)
    = mset xs - {#xs ! i#}"
proof -
  obtain ys z where xs: "xs = ys @ [z]" using assms by (cases xs rule: rev_cases) auto
  show ?thesis
  proof (cases "i < length ys")
    case True
    then show ?thesis by (simp add: xs nth_append list_update_append mset_update)
  next
    case False
    then show ?thesis using assms by (simp add: xs nth_append)
  qed
qed

lemma reg_release_loop_eq:
  "i + left = length xs \<Longrightarrow>
   map_option mset (reg_release_loop xs b i left) = (if b \<in> set (drop i xs) then Some (mset xs - {#b#}) else None)"
proof (induction left arbitrary: i)
  case (Suc left)
  then have i: "i < length xs" and d: "drop i xs = xs ! i # drop (Suc i) xs" by (simp_all add: Cons_nth_drop_Suc)
  show ?case
  proof (cases "xs ! i = b")
    case True
    then show ?thesis using swap_remove_mset [OF i] d by (simp add: Let_def split: if_splits)
  next
    case False
    then show ?thesis using Suc.IH [of "Suc i"] Suc.prems d by auto
  qed
qed simp

lemma reg_release_eq:
  "mset (reg_active (fst (reg_release r b))) = mset (reg_active r) - {#b#}"
  "snd (reg_release r b) \<longleftrightarrow> b \<in> set (reg_active r)"
  "reg_touch (fst (reg_release r b)) = reg_touch r"
  using reg_release_loop_eq [of 0 "length (reg_active r)" "reg_active r" b]
  by (auto simp: reg_release_def split: option.splits if_splits)

lemma reg_release_last_eq:
  "mset (reg_active (fst (reg_release_last_registered r b))) = mset (reg_active r) - {#b#}"
  "snd (reg_release_last_registered r b) \<longleftrightarrow> b \<in> set (reg_active r)"
  "reg_touch (fst (reg_release_last_registered r b)) = reg_touch r"
  by (cases "reg_active r" rule: rev_cases; auto simp: reg_release_last_registered_def Let_def reg_release_eq nth_append)+

section \<open>Refinement\<close>

datatype seg_call = GRegister segment_borrow | GRelease segment_borrow | GReleaseLast segment_borrow | GClear
  | GConflict segment_borrow | GLen | GEmpty | GFind bytes u32 u32 access_kind

fun seg_exec :: "ledger \<Rightarrow> seg_call \<Rightarrow> (ledger \<times> answer) outcome" where
  "seg_exec r (GRegister b) = unit_call (reg_register r b)"
| "seg_exec r (GRelease b) = value_call (Ok (reg_release r b)) RBool"
| "seg_exec r (GReleaseLast b) = value_call (Ok (reg_release_last_registered r b)) RBool"
| "seg_exec r GClear = unit_call (Ok (reg_clear r))"
| "seg_exec r (GConflict b) = Ok (r, RBool (reg_would_conflict r b))"
| "seg_exec r GLen = Ok (r, RNum (reg_len r))"
| "seg_exec r GEmpty = Ok (r, RBool (reg_is_empty r))"
| "seg_exec r (GFind key off sz kind) = Ok (r, RBool (reg_find_exact r key off sz kind \<noteq> None))"

type_synonym borrow_bag = "segment_borrow multiset \<times> touch_log"

fun bag_exec :: "borrow_bag \<Rightarrow> seg_call \<Rightarrow> (borrow_bag \<times> answer) outcome" where
  "bag_exec (M, log) (GRegister b) =
     (if 16 \<le> size M \<or> (\<exists>e \<in># M. clashes e b) then Err AccountBorrowFailed
      else Ok ((add_mset b M, tl_record log b), RUnit))"
| "bag_exec (M, log) (GRelease b) = Ok ((M - {#b#}, log), RBool (b \<in># M))"
| "bag_exec (M, log) (GReleaseLast b) = Ok ((M - {#b#}, log), RBool (b \<in># M))"
| "bag_exec (M, log) GClear = Ok (({#}, log), RUnit)"
| "bag_exec (M, log) (GConflict b) = Ok ((M, log), RBool (\<exists>e \<in># M. clashes e b))"
| "bag_exec (M, log) GLen = Ok ((M, log), RNum (size M))"
| "bag_exec (M, log) GEmpty = Ok ((M, log), RBool (M = {#}))"
| "bag_exec (M, log) (GFind key off sz kind) = Ok ((M, log), RBool (make_borrow key off sz kind \<in># M))"

definition seg_abs :: "ledger \<Rightarrow> borrow_bag" where
  "seg_abs r = (mset (reg_active r), reg_touch r)"

lemma seg_exec_step: "map_state seg_abs (seg_exec r c) = bag_exec (seg_abs r) c"
proof (cases c)
  case (GRegister b)
  then show ?thesis
    by (auto simp: call_defs seg_abs_def reg_register_def reg_scan_eq reg_record_touch_def max_segment_borrows_def)
next
  case (GRelease b)
  then show ?thesis by (cases "reg_release r b") (use reg_release_eq [of r b] in \<open>auto simp: call_defs seg_abs_def\<close>)
next
  case (GReleaseLast b)
  then show ?thesis
    by (cases "reg_release_last_registered r b") (use reg_release_last_eq [of r b] in \<open>auto simp: call_defs seg_abs_def\<close>)
qed (auto simp: call_defs seg_abs_def reg_clear_def reg_would_conflict_def reg_conflict_loop_eq reg_len_def
    reg_is_empty_def reg_find_exact_def reg_find_loop_eq)

interpretation seg_sim: simulation seg_exec bag_exec seg_abs "\<lambda>r. True" "\<lambda>c. True"
proof
  fix r c
  show "map_state seg_abs (seg_exec r c) = bag_exec (seg_abs r) c" by (rule seg_exec_step)
next
  fix a c
  show "bag_exec a c \<noteq> Trap" by (cases a; cases c) auto
qed simp

section \<open>No aliasing\<close>

definition aliases :: "segment_borrow \<Rightarrow> segment_borrow \<Rightarrow> bool" where
  "aliases e f \<longleftrightarrow> sb_key e = sb_key f \<and> (sb_kind e = Write \<or> sb_kind f = Write) \<and> bytes_of e \<inter> bytes_of f \<noteq> {}"

definition stamped :: "segment_borrow \<Rightarrow> bool" where
  "stamped e \<longleftrightarrow> sb_key_fp e = address_fingerprint (sb_key e)"

definition bag_ok :: "borrow_bag \<Rightarrow> bool" where
  "bag_ok a \<longleftrightarrow> size (fst a) \<le> 16 \<and> (\<forall>e \<in># fst a. stamped e) \<and> (\<forall>e f. {#e, f#} \<subseteq># fst a \<longrightarrow> \<not> aliases e f)"

fun stamped_call :: "seg_call \<Rightarrow> bool" where
  "stamped_call (GRegister b) \<longleftrightarrow> stamped b"
| "stamped_call _ \<longleftrightarrow> True"

lemma aliases_commute: "aliases e f = aliases f e"
  by (auto simp: aliases_def)

lemma aliases_clash: "aliases e b \<Longrightarrow> stamped e \<Longrightarrow> stamped b \<Longrightarrow> clashes e b"
  by (auto simp: aliases_def stamped_def clashes_def address_eq_def ranges_overlap_def bytes_of_def word_le_nat_alt
      split: access_kind.splits)

lemma pair_in_add:
  assumes "{#e, f#} \<subseteq># add_mset b M"
  shows "{#e, f#} \<subseteq># M \<or> e = b \<and> f \<in># M \<or> f = b \<and> e \<in># M"
proof (cases "e = b")
  case True
  then show ?thesis using assms by (simp add: mset_subset_eq_add_mset_cancel)
next
  case False
  show ?thesis
  proof (cases "f = b")
    case True
    then have "add_mset b {#e#} \<subseteq># add_mset b M" using assms by (simp add: add_mset_commute)
    then show ?thesis using True by (simp add: mset_subset_eq_add_mset_cancel)
  next
    case f: False
    have "{#e, f#} \<subseteq># M"
    proof (rule mset_subset_eqI)
      fix x
      show "count {#e, f#} x \<le> count M x"
        using mset_subset_eq_count [OF assms, of x] False f by (auto split: if_splits)
    qed
    then show ?thesis by simp
  qed
qed

lemma bag_ok_register:
  assumes "bag_ok (M, log)" and "stamped b" and "\<not> 16 \<le> size M" and "\<forall>e \<in># M. \<not> clashes e b"
  shows "bag_ok (add_mset b M, log')"
proof -
  have "\<not> aliases e b" if "e \<in># M" for e
    using assms(1,2,4) that aliases_clash by (auto simp: bag_ok_def)
  then have "\<not> aliases e f" if "{#e, f#} \<subseteq># add_mset b M" for e f
    using pair_in_add [OF that] assms(1) aliases_commute by (auto simp: bag_ok_def)
  then show ?thesis using assms by (auto simp: bag_ok_def)
qed

lemma bag_ok_mono: "bag_ok (M, log) \<Longrightarrow> N \<subseteq># M \<Longrightarrow> bag_ok (N, log')"
  unfolding bag_ok_def by (auto dest: mset_subset_eqD intro: subset_mset.order_trans order_trans [OF size_mset_mono])

interpretation bag_safe: safe_calls bag_exec bag_ok stamped_call
proof
  fix a c a' r
  assume A: "bag_ok a" "stamped_call c"
  show "bag_exec a c \<noteq> Trap" by (cases a; cases c) auto
  obtain M log where a: "a = (M, log)" by (cases a)
  have less: "bag_ok (N, log)" if "N \<subseteq># M" for N using bag_ok_mono A(1) that unfolding a by blast
  assume "bag_exec a c = Ok (a', r)"
  then show "bag_ok a'"
    using A bag_ok_register [of M log] less [of "M - _"] less [of "{#}"] unfolding a
    by (cases c) (auto split: if_splits)
qed

lemma nth_pair_mset:
  assumes "i < j" and "j < length xs"
  shows "{#xs ! i, xs ! j#} \<subseteq># mset xs"
proof -
  have "mset xs = mset (take j xs @ xs ! j # drop (Suc j) xs)" using id_take_nth_drop [OF assms(2)] by simp
  moreover have "xs ! i \<in># mset (take j xs)" using assms by (simp add: in_set_conv_nth) (metis nth_take order.strict_trans)
  then obtain N where "mset (take j xs) = add_mset (xs ! i) N" by (meson multi_member_split)
  ultimately show ?thesis by simp
qed

section \<open>Properties\<close>

text \<open>
  C23: the registry is a bag of borrows. Every sequence of register, release, clear and
  query calls answers as a multiset of at most 16 borrows does: \<open>register\<close> succeeds exactly
  when there is room and no entry clashes, \<open>release\<close> removes exactly one equal borrow and
  says whether there was one; releases never shrink the touch log.
\<close>

theorem registry_refines_bag:
  "seg_abs (fst (run_calls seg_exec r cs)) = fst (run_calls bag_exec (seg_abs r) cs) \<and>
   snd (run_calls seg_exec r cs) = snd (run_calls bag_exec (seg_abs r) cs) \<and>
   Trap \<notin> set (snd (run_calls seg_exec r cs))"
  using seg_sim.run_refines [where s = r and cs = cs] seg_sim.safe.run_safe [where s = r and cs = cs]
  by (simp add: list_all_iff)

text \<open>
  C8: no aliasing. Starting from an empty registry, after any calls whose borrows carry
  the fingerprint of their own address, at most 16 borrows are active and two active
  borrows of the same account never share a byte if one of them is a write.
\<close>

theorem segment_borrows_never_alias:
  assumes "list_all stamped_call cs"
  shows "let r = fst (run_calls seg_exec (reg_new log) cs) in
    reg_len r \<le> 16 \<and>
    (\<forall>i j. i < j \<and> j < reg_len r \<and> sb_key (reg_active r ! i) = sb_key (reg_active r ! j) \<and>
      (sb_kind (reg_active r ! i) = Write \<or> sb_kind (reg_active r ! j) = Write) \<longrightarrow>
      bytes_of (reg_active r ! i) \<inter> bytes_of (reg_active r ! j) = {})"
proof -
  let ?r = "fst (run_calls seg_exec (reg_new log) cs)"
  have "bag_ok (seg_abs (reg_new log))" by (simp add: bag_ok_def seg_abs_def reg_new_def)
  from bag_safe.run_safe [OF this assms] have ok: "bag_ok (seg_abs ?r)"
    using seg_sim.run_refines [where s = "reg_new log" and cs = cs] by (simp add: list_all_iff)
  then have "reg_len ?r \<le> 16" by (simp add: bag_ok_def seg_abs_def reg_len_def)
  moreover have "\<not> aliases (reg_active ?r ! i) (reg_active ?r ! j)" if "i < j" "j < reg_len ?r" for i j
    using ok nth_pair_mset [OF that(1), of "reg_active ?r"] that(2) by (simp add: bag_ok_def seg_abs_def reg_len_def)
  ultimately show ?thesis unfolding aliases_def Let_def by blast
qed

theorem segment_borrows_never_alias_witness:
  "reg_len (fst (run_calls seg_exec (reg_new tl_new)
     [GRegister (make_borrow [7] 0 8 Write), GRegister (make_borrow [7] 4 8 Read), GRegister (make_borrow [7] 8 8 Read)])) \<le> 16"
  using segment_borrows_never_alias
    [of "[GRegister (make_borrow [7] 0 8 Write), GRegister (make_borrow [7] 4 8 Read), GRegister (make_borrow [7] 8 8 Read)]" tl_new]
  by (simp add: stamped_def make_borrow_def Let_def del: run_calls.simps)

text \<open>
  A borrow guard restores the registry. Registering a borrow under a guard and dropping
  the guard leaves the same borrows active as before.
\<close>

theorem guard_drop_restores:
  assumes "reg_register_guard r b = Ok g"
  shows "mset (reg_active (guard_drop g)) = mset (reg_active r) \<and>
    reg_touch (guard_drop g) = tl_record (reg_touch r) b"
  using assms
  by (auto simp: reg_register_guard_def obind_Ok_iff guard_drop_def reg_release_eq reg_register_def reg_record_touch_def
      reg_scan_eq split: if_splits)

theorem guard_drop_restores_witness:
  "\<exists>g. reg_register_guard (reg_new tl_new) (make_borrow [7] 0 8 Write) = Ok g \<and>
     mset (reg_active (guard_drop g)) = {#}"
proof -
  obtain g where g: "reg_register_guard (reg_new tl_new) (make_borrow [7] 0 8 Write) = Ok g"
    by (simp add: reg_register_guard_def reg_register_def reg_new_def max_segment_borrows_def)
  show ?thesis using guard_drop_restores [OF g] g by (simp add: reg_new_def)
qed

end
