(* ===== verification/Distribute.thy ===== *)
theory Distribute imports Math begin

text \<open>
  hopper-distribute/src/distribute.rs: proportional split by largest remainder and fee
  extraction. The caller's output slice is returned updated. Shown: a split always sums to
  the total, every part is the floor of its exact share or one more, and the extra units
  go to the largest remainders; all of it without panic or overflow.
\<close>

text \<open>Indexing a slice.\<close>

definition arr_get :: "'a list \<Rightarrow> nat \<Rightarrow> 'a outcome" where
  "arr_get xs i = (if i < length xs then Ok (xs ! i) else Trap)"

lemma arr_get_eq [simp]: "i < length xs \<Longrightarrow> arr_get xs i = Ok (xs ! i)"
  by (simp add: arr_get_def)

fun sum_shares :: "u64 list \<Rightarrow> u128 \<Rightarrow> u128 outcome" where
  "sum_shares [] s = Ok s"
| "sum_shares (share # rest) s = obind (native_add s (ucast share)) (\<lambda>s'. sum_shares rest s')"

text \<open>The first pass: the floor parts and their checked sum.\<close>

fun floor_pass :: "u64 list \<Rightarrow> u128 \<Rightarrow> u128 \<Rightarrow> u64 \<Rightarrow> (u64 list \<times> u64) outcome" where
  "floor_pass [] t128 total_shares distributed = Ok ([], distributed)"
| "floor_pass (share # rest) t128 total_shares distributed =
     obind (native_mul (ucast share) t128) (\<lambda>p.
     obind (native_div p total_shares) (\<lambda>q.
     let amt = ucast q in
     obind (ok_or (word_checked_add distributed amt) ArithmeticOverflow) (\<lambda>distributed'.
     obind (floor_pass rest t128 total_shares distributed') (\<lambda>(out, d).
     Ok (amt # out, d)))))"

definition fractional_part :: "u64 \<Rightarrow> u128 \<Rightarrow> u128 \<Rightarrow> u64 \<Rightarrow> u128" where
  "fractional_part share t128 total_shares part =
     (let exact = ucast share * t128;
          r = exact - ucast part * total_shares
      in if r \<ge> total_shares then r + total_shares else r)"

function rank_loop :: "u64 list \<Rightarrow> u128 \<Rightarrow> u128 \<Rightarrow> u64 list \<Rightarrow> nat \<Rightarrow> u128 \<Rightarrow> u64 \<Rightarrow> nat \<Rightarrow> u64 \<Rightarrow> u64 outcome" where
  "rank_loop shares t128 total_shares out i fractional remainder j rank =
     (if j < length shares \<and> rank < remainder then
        obind (arr_get shares j) (\<lambda>share.
        obind (arr_get out j) (\<lambda>part.
        let other = fractional_part share t128 total_shares part in
        obind (if other > fractional \<or> (other = fractional \<and> j < i) then native_add rank 1 else Ok rank) (\<lambda>rank'.
        rank_loop shares t128 total_shares out i fractional remainder (j + 1) rank')))
      else Ok rank)"
  by pat_completeness auto
termination by (relation "measure (\<lambda>(shares, t, ts, out, i, f, r, j, k). length shares - j)") auto

declare rank_loop.simps [simp del]

function award_loop :: "u64 list \<Rightarrow> u128 \<Rightarrow> u128 \<Rightarrow> u64 \<Rightarrow> u64 list \<Rightarrow> nat \<Rightarrow> u64 \<Rightarrow> u64 list outcome" where
  "award_loop shares t128 total_shares remainder out i awarded =
     (if i < length shares \<and> awarded < remainder then
        obind (arr_get shares i) (\<lambda>share.
        obind (arr_get out i) (\<lambda>part.
        let fractional = fractional_part share t128 total_shares part in
        obind (rank_loop shares t128 total_shares out i fractional remainder 0 0) (\<lambda>rank.
        if rank < remainder then
          obind (ok_or (word_checked_add part 1) ArithmeticOverflow) (\<lambda>part'.
          obind (native_add awarded 1) (\<lambda>awarded'.
          award_loop shares t128 total_shares remainder (out[i := part']) (i + 1) awarded'))
        else award_loop shares t128 total_shares remainder out (i + 1) awarded)))
      else Ok out)"
  by pat_completeness auto
termination by (relation "measure (\<lambda>(shares, t, ts, r, out, i, a). length shares - i)") auto

declare award_loop.simps [simp del]

definition proportional_split :: "u64 \<Rightarrow> u64 list \<Rightarrow> u64 list \<Rightarrow> u64 list outcome" where
  "proportional_split tot shares out =
     fail_if (length shares \<noteq> length out \<or> shares = []) InvalidArgument
     (obind (sum_shares shares 0) (\<lambda>total_shares.
      fail_if (total_shares = 0) InvalidArgument
     (let t128 = (ucast tot :: u128) in
      obind (floor_pass shares t128 total_shares 0) (\<lambda>(parts, distributed).
      obind (ok_or (word_checked_sub tot distributed) ArithmeticOverflow) (\<lambda>remainder.
      if remainder = 0 then Ok parts
      else award_loop shares t128 total_shares remainder parts 0 0)))))"

definition extract_fee :: "u64 \<Rightarrow> u64 \<Rightarrow> u64 \<Rightarrow> (u64 \<times> u64) outcome" where
  "extract_fee amount fee_bps flat_fee =
     obind (native_mul (ucast amount :: u128) (ucast fee_bps)) (\<lambda>p.
     obind (native_add p 9999) (\<lambda>p'.
     obind (native_div p' 10000) (\<lambda>bps_fee.
     obind (native_add bps_fee (ucast flat_fee)) (\<lambda>total_fee_128.
     fail_if (total_fee_128 > ucast amount) InsufficientFunds
       (let total_fee = ucast total_fee_128 in
        obind (native_sub amount total_fee) (\<lambda>net. Ok (net, total_fee)))))))"

section \<open>Ranks\<close>

text \<open>The order the awards follow: larger remainder first, then input order.\<close>

definition beats :: "(nat \<Rightarrow> nat) \<Rightarrow> nat \<Rightarrow> nat \<Rightarrow> bool" where
  "beats f k i \<longleftrightarrow> f k > f i \<or> f k = f i \<and> k < i"

definition rank_of :: "(nat \<Rightarrow> nat) \<Rightarrow> nat \<Rightarrow> nat \<Rightarrow> nat" where
  "rank_of f n i = card {k. k < n \<and> beats f k i}"

lemma rank_of_mono:
  assumes "beats f j i" and "j < n"
  shows "rank_of f n j < rank_of f n i"
proof -
  have "insert j {k. k < n \<and> beats f k j} \<subseteq> {k. k < n \<and> beats f k i}" using assms by (auto simp: beats_def)
  then have "card (insert j {k. k < n \<and> beats f k j}) \<le> rank_of f n i"
    unfolding rank_of_def by (intro card_mono) auto
  moreover have "j \<notin> {k. k < n \<and> beats f k j}" by (simp add: beats_def)
  ultimately show ?thesis by (simp add: rank_of_def)
qed

lemma rank_of_bij: "bij_betw (rank_of f n) {..<n} {..<n}"
proof -
  have tot: "i = j \<or> beats f i j \<or> beats f j i" for i j by (auto simp: beats_def)
  have "inj_on (rank_of f n) {..<n}"
    by (rule inj_onI) (metis tot rank_of_mono lessThan_iff less_irrefl)
  moreover have "rank_of f n i < n" if "i < n" for i
  proof -
    have "{k. k < n \<and> beats f k i} \<subseteq> {..<n} - {i}" by (auto simp: beats_def)
    then have "rank_of f n i \<le> card ({..<n} - {i})" unfolding rank_of_def by (intro card_mono) auto
    then show ?thesis using that by simp
  qed
  then have "rank_of f n ` {..<n} \<subseteq> {..<n}" by auto
  ultimately show ?thesis
    using endo_inj_surj [of "{..<n}" "rank_of f n"] by (simp add: bij_betw_def)
qed

lemma card_awarded:
  assumes "m \<le> n"
  shows "card {i. i < n \<and> rank_of f n i < m} = m"
proof -
  have img: "rank_of f n ` {..<n} = {..<n}" using rank_of_bij by (rule bij_betw_imp_surj_on)
  have "rank_of f n ` {i. i < n \<and> rank_of f n i < m} = {..<m}"
  proof (intro equalityI subsetI)
    fix r assume "r \<in> {..<m}"
    then have "r \<in> rank_of f n ` {..<n}" using img assms by simp
    then show "r \<in> rank_of f n ` {i. i < n \<and> rank_of f n i < m}" using \<open>r \<in> {..<m}\<close> by auto
  qed auto
  moreover have "inj_on (rank_of f n) {i. i < n \<and> rank_of f n i < m}"
    using rank_of_bij [of f n] unfolding bij_betw_def by (auto intro: inj_on_subset)
  ultimately show ?thesis by (metis card_image card_lessThan)
qed

section \<open>The passes\<close>

lemma sum_shares_eq:
  assumes "unat s + sum_list (map unat shares) < 2 ^ 128"
  shows "\<exists>r. sum_shares shares s = Ok r \<and> unat r = unat s + sum_list (map unat shares)"
  using assms
proof (induction shares arbitrary: s)
  case (Cons a shares)
  have "unat s + unat (ucast a :: u128) < 2 ^ LENGTH(128)" using Cons.prems by simp
  note A = native_add_eq [OF this] unat_add_exact [OF this]
  from Cons.IH [of "s + ucast a"] Cons.prems A(2) show ?case by (simp add: A(1) add.assoc)
qed simp

lemma sum_shares_bound: "sum_list (map unat (shares :: u64 list)) \<le> length shares * 2 ^ 64"
proof (induction shares)
  case (Cons a shares)
  then show ?case using unsigned_less [of a, where 'a = nat] by simp
qed simp

lemma share_le_sum: "i < length shares \<Longrightarrow> unat (shares ! i) \<le> sum_list (map unat shares)"
  by (rule member_le_sum_list) simp_all

definition floor_share :: "u64 \<Rightarrow> nat \<Rightarrow> nat \<Rightarrow> nat" where
  "floor_share share T S = unat share * T div S"

definition frac_share :: "u64 \<Rightarrow> nat \<Rightarrow> nat \<Rightarrow> nat" where
  "frac_share share T S = unat share * T mod S"

lemma floor_pass_eq:
  fixes tot :: u64
  assumes "0 < unat ts" and "\<forall>s \<in> set shares. unat s \<le> unat ts"
    and "unat d + sum_list (map (\<lambda>s. floor_share s (unat tot) (unat ts)) shares) < 2 ^ 64"
  shows "\<exists>out d'. floor_pass shares (ucast tot) ts d = Ok (out, d') \<and>
    map unat out = map (\<lambda>s. floor_share s (unat tot) (unat ts)) shares \<and>
    unat d' = unat d + sum_list (map unat out)"
  using assms(2,3)
proof (induction shares arbitrary: d)
  case (Cons s shares)
  let ?q = "ucast s * ucast tot div ts :: u128"
  have "unat (ucast s :: u128) * unat (ucast tot :: u128) < 2 ^ LENGTH(128)"
    using u64_product_fits [of 0 s tot] by simp
  then have mul: "native_mul (ucast s :: u128) (ucast tot) = Ok (ucast s * ucast tot)" by (rule native_mul_eq)
  have div: "native_div (ucast s * ucast tot) ts = Ok ?q" using assms(1) by (intro native_div_eq) auto
  have q: "unat ?q = floor_share s (unat tot) (unat ts)" by (simp add: unat_div_exact wide_product floor_share_def)
  have "unat s * unat tot div unat ts \<le> unat ts * unat tot div unat ts"
    using Cons.prems(1) by (intro div_le_mono mult_le_mono1) simp
  then have "unat s * unat tot div unat ts \<le> unat tot" using assms(1) by simp
  then have "unat ?q < 2 ^ 64" using q unsigned_less [of tot, where 'a = nat] by (simp add: floor_share_def)
  then have amt: "unat (ucast ?q :: u64) = floor_share s (unat tot) (unat ts)"
    using q by (simp add: unsigned_ucast_eq take_bit_nat_eq_self)
  have fits: "unat d + unat (ucast ?q :: u64) < 2 ^ LENGTH(64)" using Cons.prems(2) amt by simp
  from Cons.IH [of "d + ucast ?q"] Cons.prems fits amt obtain out d' where
    "floor_pass shares (ucast tot) ts (d + ucast ?q) = Ok (out, d')"
    "map unat out = map (\<lambda>s. floor_share s (unat tot) (unat ts)) shares"
    "unat d' = unat (d + ucast ?q) + sum_list (map unat out)"
    by (auto simp: unat_add_exact add.assoc)
  then show ?case using mul div fits amt by (simp add: checked_fits(2) unat_add_exact Let_def)
qed simp

text \<open>The remainder is recovered from a part before and after its award.\<close>

lemma fractional_part_eq:
  fixes tot :: u64
  assumes S: "0 < unat ts" "unat ts \<le> 2 ^ 127"
    and part: "unat part = floor_share share (unat tot) (unat ts) \<or> unat part = floor_share share (unat tot) (unat ts) + 1"
    and tot: "floor_share share (unat tot) (unat ts) \<le> unat tot"
  shows "unat (fractional_part share (ucast tot) ts part) = frac_share share (unat tot) (unat ts)"
proof -
  let ?x = "ucast share * ucast tot :: u128" and ?S = "unat ts"
  let ?q = "floor_share share (unat tot) ?S" and ?f = "frac_share share (unat tot) ?S"
  have x: "unat ?x = ?q * ?S + ?f" by (simp add: wide_product floor_share_def frac_share_def)
  have f: "?f < ?S" using S(1) by (simp add: frac_share_def)
  have xw: "?x = word_of_nat (?q * ?S + ?f)" by (simp flip: x)
  have pw: "(ucast part :: u128) * ts = word_of_nat (unat part * ?S)"
    by (rule word_eq_unatI) (simp add: unat_of_nat unat_word_ariths)
  from part show ?thesis
  proof
    assume p: "unat part = ?q"
    have "?x - ucast part * ts = word_of_nat ?f" unfolding pw p xw by simp
    moreover have "unat (word_of_nat ?f :: u128) = ?f" using f S(2) by (intro unat_word_of_nat) simp
    ultimately show ?thesis using f by (simp add: fractional_part_def Let_def word_le_nat_alt)
  next
    assume p: "unat part = ?q + 1"
    have r: "?x - ucast part * ts = word_of_nat ?f - ts" unfolding pw p xw by (simp add: algebra_simps)
    have uf: "unat (word_of_nat ?f :: u128) = ?f" using f S(2) by (intro unat_word_of_nat) simp
    have "unat (word_of_nat ?f - ts) = ?f + 2 ^ 128 - ?S"
      using f uf unsigned_less [of ts, where 'a = nat] by (simp add: unat_sub_if_size word_size word_le_nat_alt)
    then have "ts \<le> word_of_nat ?f - ts" using f S(2) by (simp add: word_le_nat_alt)
    moreover have "word_of_nat ?f - ts + ts = (word_of_nat ?f :: u128)" by simp
    ultimately show ?thesis using uf r by (simp add: fractional_part_def Let_def)
  qed
qed

section \<open>The awards\<close>

text \<open>The setting of the second pass: \<open>fl\<close> and \<open>fr\<close> are the exact floor parts and remainders.\<close>

definition parts_at :: "(nat \<Rightarrow> nat) \<Rightarrow> (nat \<Rightarrow> bool) \<Rightarrow> u64 list \<Rightarrow> nat \<Rightarrow> bool" where
  "parts_at fl awarded out n \<longleftrightarrow> length out = n \<and> (\<forall>k < n. unat (out ! k) = fl k + (if awarded k then 1 else 0))"

lemma rank_loop_eq:
  assumes fr: "\<And>k. k < length shares \<Longrightarrow> unat (fractional_part (shares ! k) t ts (out ! k)) = fr k"
    and len: "length out = length shares" and f: "unat fractional = fr i"
  shows "length shares - j = left \<Longrightarrow> j \<le> length shares \<Longrightarrow> unat rank = card {k. k < j \<and> beats fr k i} \<Longrightarrow>
    rank \<le> remainder \<Longrightarrow>
    \<exists>r. rank_loop shares t ts out i fractional remainder j rank = Ok r \<and>
      (r < remainder \<longleftrightarrow> rank_of fr (length shares) i < unat remainder)"
proof (induction left arbitrary: j rank)
  case 0
  then show ?case by (simp add: rank_loop.simps [of shares t ts out] rank_of_def word_less_nat_alt)
next
  case (Suc left)
  then have j: "j < length shares" by simp
  show ?case
  proof (cases "rank < remainder")
    case False
    then have full: "unat rank = unat remainder" using Suc.prems(4) by auto
    have "card {k. k < j \<and> beats fr k i} \<le> rank_of fr (length shares) i"
      unfolding rank_of_def using j by (intro card_mono) auto
    then show ?thesis using False full Suc.prems(3) by (simp add: rank_loop.simps [of shares t ts out])
  next
    case True
    let ?other = "fractional_part (shares ! j) t ts (out ! j)"
    let ?up = "?other > fractional \<or> (?other = fractional \<and> j < i)"
    have up: "?up \<longleftrightarrow> beats fr j i"
      using fr [OF j] f by (auto simp: beats_def word_less_nat_alt word_unat_eq_iff)
    let ?rank = "if ?up then rank + 1 else rank"
    have "unat rank + unat (1 :: u64) < 2 ^ LENGTH(64)"
      using True unsigned_less [of remainder, where 'a = nat] by (simp add: word_less_nat_alt)
    note one = native_add_eq [OF this] unat_add_exact [OF this]
    have step: "rank_loop shares t ts out i fractional remainder j rank =
        rank_loop shares t ts out i fractional remainder (j + 1) ?rank"
      using j True len one(1) by (simp add: rank_loop.simps [of shares t ts out i fractional remainder j] Let_def)
    have set_Suc: "{k. k < j + 1 \<and> beats fr k i} = (if beats fr j i then insert j {k. k < j \<and> beats fr k i} else {k. k < j \<and> beats fr k i})"
      by (auto simp: less_Suc_eq)
    have "unat ?rank = card {k. k < j + 1 \<and> beats fr k i}"
      unfolding set_Suc using up one(2) Suc.prems(3) by auto
    moreover have "?rank \<le> remainder" using True one(2) by (auto simp: word_less_nat_alt word_le_nat_alt)
    ultimately show ?thesis unfolding step using Suc.IH [of "j + 1" ?rank] Suc.prems(1) j by simp
  qed
qed

lemma award_loop_eq:
  assumes fr: "\<And>k part. k < length shares \<Longrightarrow> unat part = fl k \<or> unat part = fl k + 1 \<Longrightarrow>
      unat (fractional_part (shares ! k) t ts part) = fr k"
    and room: "\<And>k. k < length shares \<Longrightarrow> fl k + 1 < 2 ^ 64"
    and rem: "unat remainder \<le> length shares"
  shows "length shares - i = left \<Longrightarrow> i \<le> length shares \<Longrightarrow>
    parts_at fl (\<lambda>k. k < i \<and> rank_of fr (length shares) k < unat remainder) out (length shares) \<Longrightarrow>
    unat awarded = card {k. k < i \<and> rank_of fr (length shares) k < unat remainder} \<Longrightarrow>
    \<exists>out'. award_loop shares t ts remainder out i awarded = Ok out' \<and>
      parts_at fl (\<lambda>k. rank_of fr (length shares) k < unat remainder) out' (length shares)"
proof (induction left arbitrary: i out awarded)
  case 0
  then have "i = length shares" by simp
  then show ?case using 0 by (auto simp: award_loop.simps [of shares t ts remainder out] parts_at_def)
next
  case (Suc left)
  let ?n = "length shares" and ?win = "\<lambda>k. rank_of fr (length shares) k < unat remainder"
  have i: "i < ?n" using Suc.prems(1) by simp
  have len: "length out = ?n" and out: "\<And>k. k < ?n \<Longrightarrow> unat (out ! k) = fl k + (if k < i \<and> ?win k then 1 else 0)"
    using Suc.prems(3) by (auto simp: parts_at_def)
  have sub: "card {k. k < i \<and> ?win k} \<le> card {k. k < ?n \<and> ?win k}" using i by (intro card_mono) auto
  have all: "card {k. k < ?n \<and> ?win k} = unat remainder" using card_awarded [OF rem] .
  have set_Suc: "{k. k < i + 1 \<and> ?win k} = (if ?win i then insert i {k. k < i \<and> ?win k} else {k. k < i \<and> ?win k})"
    by (auto simp: less_Suc_eq)
  show ?case
  proof (cases "awarded < remainder")
    case False
    then have "card {k. k < i \<and> ?win k} = card {k. k < ?n \<and> ?win k}"
      using sub Suc.prems(4) all by (simp add: word_less_nat_alt)
    then have "{k. k < i \<and> ?win k} = {k. k < ?n \<and> ?win k}"
      using i by (intro card_subset_eq) auto
    then have "k < i" if "k < ?n" "?win k" for k using that by auto
    then show ?thesis using False out len by (auto simp: award_loop.simps [of shares t ts remainder out] parts_at_def)
  next
    case True
    have part: "unat (out ! k) = fl k \<or> unat (out ! k) = fl k + 1" if "k < ?n" for k using out [OF that] by auto
    have frs: "unat (fractional_part (shares ! k) t ts (out ! k)) = fr k" if "k < ?n" for k
      using fr [OF that part [OF that]] .
    from rank_loop_eq [OF frs len frs [OF i], of 0 ?n 0 remainder] obtain r where
      r: "rank_loop shares t ts out i (fractional_part (shares ! i) t ts (out ! i)) remainder 0 0 = Ok r"
      "r < remainder \<longleftrightarrow> ?win i" by auto
    show ?thesis
    proof (cases "?win i")
      case win: True
      let ?part = "out ! i + 1"
      have p: "unat (out ! i) = fl i" using out [OF i] by simp
      then have fits: "unat (out ! i) + unat (1 :: u64) < 2 ^ LENGTH(64)" using room [OF i] by simp
      have "unat awarded + unat (1 :: u64) < 2 ^ LENGTH(64)"
        using True unsigned_less [of remainder, where 'a = nat] by (simp add: word_less_nat_alt)
      note one = native_add_eq [OF this] unat_add_exact [OF this]
      have step: "award_loop shares t ts remainder out i awarded =
          award_loop shares t ts remainder (out[i := ?part]) (i + 1) (awarded + 1)"
        using i True len r win one(1)
        by (simp add: award_loop.simps [of shares t ts remainder out i] checked_fits(2) [OF fits] Let_def)
      have "parts_at fl (\<lambda>k. k < i + 1 \<and> ?win k) (out[i := ?part]) ?n"
        unfolding parts_at_def
      proof (intro conjI allI impI)
        fix k assume "k < ?n"
        then show "unat (out[i := ?part] ! k) = fl k + (if k < i + 1 \<and> ?win k then 1 else 0)"
          using len out [of k] win p unat_add_exact [OF fits] by (cases "k = i") (auto simp: less_Suc_eq)
      qed (use len in simp)
      moreover have "unat (awarded + 1) = card {k. k < i + 1 \<and> ?win k}"
        unfolding set_Suc using win one(2) Suc.prems(4) by simp
      ultimately show ?thesis unfolding step using Suc.IH [of "i + 1"] Suc.prems(1) i by simp
    next
      case lose: False
      have step: "award_loop shares t ts remainder out i awarded = award_loop shares t ts remainder out (i + 1) awarded"
        using i True len r lose by (simp add: award_loop.simps [of shares t ts remainder out i] Let_def)
      have "parts_at fl (\<lambda>k. k < i + 1 \<and> ?win k) out ?n"
        using len out lose by (auto simp: parts_at_def less_Suc_eq)
      moreover have "unat awarded = card {k. k < i + 1 \<and> ?win k}"
        unfolding set_Suc using lose Suc.prems(4) by simp
      ultimately show ?thesis unfolding step using Suc.IH [of "i + 1"] Suc.prems(1) i by simp
    qed
  qed
qed

section \<open>The split\<close>

lemma sum_floor_frac:
  assumes "0 < S" and "sum_list (map unat shares) = S"
  shows "sum_list (map (\<lambda>s. floor_share s T S) shares) * S + sum_list (map (\<lambda>s. frac_share s T S) shares) = S * T"
proof -
  have "sum_list (map (\<lambda>s. floor_share s T S) xs) * S + sum_list (map (\<lambda>s. frac_share s T S) xs) =
      sum_list (map unat xs) * T" for xs
  proof (induction xs)
    case (Cons a xs)
    have "floor_share a T S * S + frac_share a T S = unat a * T" by (simp add: floor_share_def frac_share_def)
    then show ?case using Cons by (simp add: algebra_simps)
  qed simp
  then show ?thesis using assms(2) by simp
qed

lemma frac_sum_less:
  assumes "0 < S" and "xs \<noteq> []"
  shows "sum_list (map (\<lambda>s. frac_share s T S) xs) < length xs * S"
  using assms(2)
proof (induction xs)
  case (Cons a xs)
  have "frac_share a T S < S" using assms(1) by (simp add: frac_share_def)
  then show ?case using Cons by (cases "xs = []") auto
qed simp

lemma leftover:
  assumes "0 < S" and "sum_list (map unat shares) = S" and "shares \<noteq> []"
  shows "\<exists>R < length shares. sum_list (map (\<lambda>s. floor_share s T S) shares) + R = T"
proof -
  let ?F = "sum_list (map (\<lambda>s. floor_share s T S) shares)"
  note E = sum_floor_frac [OF assms(1,2), of T]
  then have le: "?F \<le> T" using assms(1) by (metis mult.commute le_add1 mult_le_cancel1)
  have "(T - ?F) * S = sum_list (map (\<lambda>s. frac_share s T S) shares)"
    using E by (simp add: diff_mult_distrib mult.commute [of T])
  then have "(T - ?F) * S < length shares * S" using frac_sum_less [OF assms(1,3), of T] by simp
  then have "T - ?F < length shares" by simp
  then show ?thesis using le by (intro exI [of _ "T - ?F"]) simp
qed

lemma parts_sum:
  assumes "parts_at fl win out n"
  shows "sum_list (map unat out) = sum_list (map fl [0..<n]) + card {k. k < n \<and> win k}"
proof -
  have "map unat out = map (\<lambda>k. fl k + (if win k then 1 else 0)) [0..<n]"
    using assms by (intro nth_equalityI) (auto simp: parts_at_def)
  moreover have "sum_list (map (\<lambda>k. if win k then 1 else 0) [0..<m]) = card {k. k < m \<and> win k}" for m
  proof (induction m)
    case (Suc m)
    have "{k. k < Suc m \<and> win k} = (if win m then insert m {k. k < m \<and> win k} else {k. k < m \<and> win k})"
      by (auto simp: less_Suc_eq)
    then show ?case using Suc by simp
  qed simp
  ultimately show ?thesis by (simp add: sum_list_addf)
qed

lemma split_correct:
  fixes tot :: u64
  assumes "length shares = length out" and "length shares < 2 ^ 60" and pos: "0 < sum_list (map unat shares)"
  shows "\<exists>parts R. proportional_split tot shares out = Ok parts \<and> R < length shares \<and>
    sum_list (map unat parts) = unat tot \<and>
    parts_at (\<lambda>k. floor_share (shares ! k) (unat tot) (sum_list (map unat shares)))
      (\<lambda>k. rank_of (\<lambda>k. frac_share (shares ! k) (unat tot) (sum_list (map unat shares))) (length shares) k < R)
      parts (length shares)"
proof -
  let ?n = "length shares" and ?T = "unat tot" and ?S = "sum_list (map unat shares)"
  let ?fl = "\<lambda>k. floor_share (shares ! k) ?T ?S" and ?fr = "\<lambda>k. frac_share (shares ! k) ?T ?S"
  have ne: "shares \<noteq> []" using pos by auto
  have "?S \<le> ?n * 2 ^ 64" by (rule sum_shares_bound)
  also have "\<dots> \<le> 2 ^ 60 * 2 ^ 64" using assms(2) by (intro mult_le_mono1) simp
  finally have Sb: "?S \<le> 2 ^ 127" by simp
  then have "unat (0 :: u128) + ?S < 2 ^ 128" by simp
  from sum_shares_eq [OF this] obtain ts where ts: "sum_shares shares 0 = Ok ts" "unat ts = ?S" by auto
  from leftover [OF pos refl ne, of ?T] obtain R where R: "R < ?n" "sum_list (map (\<lambda>s. floor_share s ?T ?S) shares) + R = ?T"
    by blast
  have T: "?T < 2 ^ 64" using unsigned_less [of tot, where 'a = nat] by simp
  have le: "\<forall>s \<in> set shares. unat s \<le> unat ts" unfolding ts(2) by (auto intro: member_le_sum_list)
  have fits: "unat (0 :: u64) + sum_list (map (\<lambda>s. floor_share s ?T (unat ts)) shares) < 2 ^ 64" using R(2) T ts(2) by simp
  from floor_pass_eq [OF _ le fits] pos ts(2) obtain parts d where
    fp: "floor_pass shares (ucast tot) ts 0 = Ok (parts, d)" "map unat parts = map (\<lambda>s. floor_share s ?T ?S) shares"
    "unat d = sum_list (map unat parts)" by auto
  have d: "unat d + R = ?T" using fp(2,3) R(2) by simp
  let ?r = "tot - d"
  have sub: "word_checked_sub tot d = Some ?r" and r: "unat ?r = R"
    using d checked_fits(3) [of d tot] by (simp_all add: unat_sub_exact word_le_nat_alt)
  have lenp: "length parts = ?n" using fp(2) by (metis length_map)
  have pk: "unat (parts ! k) = ?fl k" if "k < ?n" for k
    using arg_cong [OF fp(2), of "\<lambda>xs. xs ! k"] that lenp by simp
  have ts0: "ts \<noteq> 0" using ts(2) pos by (metis less_irrefl unsigned_0)
  have body: "proportional_split tot shares out = (if ?r = 0 then Ok parts else award_loop shares (ucast tot) ts ?r parts 0 0)"
    using assms(1) ne ts(1) ts0 fp(1) by (simp add: proportional_split_def sub Let_def)
  have floor_le: "?fl k \<le> ?T" if "k < ?n" for k
  proof -
    have "unat (shares ! k) * ?T \<le> ?S * ?T" using share_le_sum [OF that] by (rule mult_le_mono1)
    then have "?fl k \<le> ?S * ?T div ?S" unfolding floor_share_def by (rule div_le_mono)
    then show ?thesis using pos by simp
  qed
  show ?thesis
  proof (cases "R = 0")
    case True
    then have "proportional_split tot shares out = Ok parts" using body r by (simp add: word_unat_eq_iff)
    moreover have "parts_at ?fl (\<lambda>k. rank_of ?fr ?n k < R) parts ?n" using lenp pk True by (simp add: parts_at_def)
    ultimately show ?thesis using d fp(3) True R(1) by auto
  next
    case False
    have fr: "unat (fractional_part (shares ! k) (ucast tot) ts part) = ?fr k"
      if "k < ?n" "unat part = ?fl k \<or> unat part = ?fl k + 1" for k part
      using fractional_part_eq [of ts part "shares ! k" tot] that(2) pos Sb floor_le [OF that(1)] by (simp add: ts(2))
    have lt: "?fl k < ?T" if "k < ?n" for k
    proof -
      have "?fl k \<le> sum_list (map (\<lambda>s. floor_share s ?T ?S) shares)" using that by (intro member_le_sum_list) auto
      then show ?thesis using R(2) False by simp
    qed
    have "\<exists>parts'. award_loop shares (ucast tot) ts ?r parts 0 0 = Ok parts' \<and>
        parts_at ?fl (\<lambda>k. rank_of ?fr ?n k < unat ?r) parts' ?n"
    proof (rule award_loop_eq [where left = ?n])
      show "?fl k + 1 < 2 ^ 64" if "k < ?n" for k using lt [OF that] T by linarith
      show "unat ?r \<le> ?n" using r R(1) by simp
      show "parts_at ?fl (\<lambda>k. k < 0 \<and> rank_of ?fr ?n k < unat ?r) parts ?n" using lenp pk by (simp add: parts_at_def)
    qed (use fr in auto)
    then obtain parts' where p: "award_loop shares (ucast tot) ts ?r parts 0 0 = Ok parts'"
      "parts_at ?fl (\<lambda>k. rank_of ?fr ?n k < R) parts' ?n" using r by auto
    have "sum_list (map ?fl [0..<?n]) = sum_list (map (\<lambda>s. floor_share s ?T ?S) shares)"
      by (rule arg_cong [of _ _ sum_list]) (rule nth_equalityI, simp_all)
    then have "sum_list (map unat parts') = ?T"
      using parts_sum [OF p(2)] card_awarded [of R ?n ?fr] R by simp
    moreover have "?r \<noteq> 0" using r False by auto
    ultimately show ?thesis using body p R(1) by auto
  qed
qed

section \<open>Properties\<close>

text \<open>
  A proportional split is exact and fair. For any slice of shares that are not all
  zero the split succeeds, the parts sum to the total, every part is the floor of its exact
  share or one more, and a recipient got the extra unit ahead of another only if its
  remainder is larger, or equal and earlier in the input.
\<close>

theorem proportional_split_exact:
  assumes "length shares = length out" and "length shares < 2 ^ 60" and "0 < sum_list (map unat shares)"
  shows "\<exists>parts. proportional_split tot shares out = Ok parts \<and> length parts = length shares \<and>
    sum_list (map unat parts) = unat tot \<and>
    (\<forall>i < length shares.
      unat (parts ! i) = floor_share (shares ! i) (unat tot) (sum_list (map unat shares)) \<or>
      unat (parts ! i) = floor_share (shares ! i) (unat tot) (sum_list (map unat shares)) + 1) \<and>
    (\<forall>i < length shares. \<forall>j < length shares.
      unat (parts ! i) = floor_share (shares ! i) (unat tot) (sum_list (map unat shares)) + 1 \<and>
      unat (parts ! j) = floor_share (shares ! j) (unat tot) (sum_list (map unat shares)) \<longrightarrow>
      beats (\<lambda>k. frac_share (shares ! k) (unat tot) (sum_list (map unat shares))) i j)"
proof -
  let ?n = "length shares" and ?S = "sum_list (map unat shares)"
  let ?fr = "\<lambda>k. frac_share (shares ! k) (unat tot) ?S"
  from split_correct [OF assms] obtain parts R where P: "proportional_split tot shares out = Ok parts"
    "sum_list (map unat parts) = unat tot"
    "parts_at (\<lambda>k. floor_share (shares ! k) (unat tot) ?S) (\<lambda>k. rank_of ?fr ?n k < R) parts ?n" by blast
  have "beats ?fr i j" if "i < ?n" "j < ?n" "rank_of ?fr ?n i < R" "\<not> rank_of ?fr ?n j < R" for i j
  proof (rule ccontr)
    assume "\<not> beats ?fr i j"
    moreover have "i \<noteq> j" using that by auto
    ultimately have "beats ?fr j i" by (auto simp: beats_def)
    then show False using rank_of_mono [of ?fr j i ?n] that by simp
  qed
  then show ?thesis using P by (intro exI [of _ parts]) (auto simp: parts_at_def split: if_splits)
qed

theorem proportional_split_exact_witness:
  "\<exists>parts. proportional_split 10 [1, 1, 1] [0, 0, 0] = Ok parts \<and> sum_list (map unat parts) = 10"
  using proportional_split_exact [of "[1, 1, 1]" "[0, 0, 0]" 10] by auto

text \<open>
  Fee extraction conserves the amount. The fee is the rounded-up basis-point fee plus the
  flat fee, net and fee sum to the amount, and the call fails exactly when the fee exceeds it.
\<close>

theorem extract_fee_conserves:
  "extract_fee amount fee_bps flat_fee =
    (let fee = ceil_div (unat amount * unat fee_bps) 10000 + unat flat_fee in
     if unat amount < fee then Err InsufficientFunds
     else Ok (word_of_nat (unat amount - fee), word_of_nat fee))"
proof -
  let ?p = "ucast amount * ucast fee_bps :: u128"
  have small: "unat ?p + 9999 < 2 ^ 128" using u64_product_fits [of 9999 amount fee_bps] by (simp add: wide_product)
  have mul: "native_mul (ucast amount :: u128) (ucast fee_bps) = Ok ?p"
    by (rule native_mul_eq) (use u64_product_fits [of 0 amount fee_bps] in simp)
  have add: "native_add ?p 9999 = Ok (?p + 9999)" and s: "unat (?p + 9999) = unat amount * unat fee_bps + 9999"
    using small native_add_eq [of ?p 9999] unat_add_exact [of ?p 9999] by (simp_all add: wide_product)
  let ?q = "(?p + 9999) div 10000"
  have q: "unat ?q = ceil_div (unat amount * unat fee_bps) 10000"
    unfolding unat_div_exact s by (simp add: ceil_div_def)
  have div: "native_div (?p + 9999) 10000 = Ok ?q" by (rule native_div_eq) simp
  have "unat ?q < 2 ^ 127" unfolding unat_div_exact s using small by (simp add: wide_product)
  then have "unat ?q + unat (ucast flat_fee :: u128) < 2 ^ LENGTH(128)"
    using unsigned_less [of flat_fee, where 'a = nat] by simp
  note last = native_add_eq [OF this] unat_add_exact [OF this]
  let ?t = "?q + ucast flat_fee"
  have t: "unat ?t = ceil_div (unat amount * unat fee_bps) 10000 + unat flat_fee" using last(2) q by simp
  show ?thesis
  proof (cases "unat amount < unat ?t")
    case True
    then show ?thesis using mul add div last(1) t by (simp add: extract_fee_def word_less_nat_alt Let_def)
  next
    case False
    then have "unat ?t < 2 ^ 64" using unsigned_less [of amount, where 'a = nat] by simp
    then have c: "unat (ucast ?t :: u64) = unat ?t" by (simp add: unsigned_ucast_eq take_bit_nat_eq_self)
    then have N: "native_sub amount (ucast ?t) = Ok (amount - ucast ?t)" using False by (intro native_sub_eq) simp
    have W1: "amount - ucast ?t = word_of_nat (unat amount - unat ?t)"
      using c False by (intro word_eq_unatI) (simp add: unat_sub_exact word_le_nat_alt unat_of_nat)
    have W2: "word_of_nat (unat ?t) = (ucast ?t :: u64)"
      using c by (intro word_eq_unatI) (simp add: unat_of_nat)
    have "extract_fee amount fee_bps flat_fee = Ok (amount - ucast ?t, ucast ?t)"
      using mul add div last(1) False N by (simp only: extract_fee_def word_less_nat_alt Let_def obind.simps fail_if_def unat_ucast_u64_u128 if_False)
    then show ?thesis unfolding t [symmetric] Let_def by (simp only: False if_False W1 W2)
  qed
qed

end
