(* ===== verification/Vesting.thy ===== *)
theory Vesting imports Math begin

text \<open>
  hopper-vesting/src/vesting.rs. \<^verbatim>\<open>i64\<close> timestamps are 64-bit words read with \<open>sint\<close>, and the
  \<^verbatim>\<open>i128\<close> differences 128-bit words. Shown: the linear schedule is the exact proportional
  amount, monotone in time, zero before the cliff and complete at the end.
\<close>

text \<open>\<^verbatim>\<open>(now as i128 - start as i128) as u128\<close>.\<close>

definition wide_difference :: "u64 \<Rightarrow> u64 \<Rightarrow> u128 outcome" where
  "wide_difference now start = no_panic (sword_checked_sub (scast now :: u128) (scast start))"

definition vested_amount :: "u64 \<Rightarrow> u64 \<Rightarrow> u64 \<Rightarrow> u64 \<Rightarrow> u64 \<Rightarrow> u64 outcome" where
  "vested_amount amount start cliff end_time now =
     fail_if (sint start > sint cliff \<or> sint cliff > sint end_time) InvalidArgument
     (if sint now < sint cliff then Ok 0
      else if sint now \<ge> sint end_time then Ok amount
      else
        obind (wide_difference now start) (\<lambda>elapsed.
        obind (wide_difference end_time start) (\<lambda>duration.
        if duration = 0 then Ok amount
        else
          obind (native_mul (ucast amount) elapsed) (\<lambda>p.
          obind (native_div p duration) (\<lambda>vested.
          if vested > ucast amount then Ok amount else Ok (ucast vested))))))"

definition check_cliff_reached :: "u64 \<Rightarrow> u64 \<Rightarrow> unit outcome" where
  "check_cliff_reached cliff_time now = fail_if (sint now < sint cliff_time) InvalidAccountData (Ok ())"

definition unlocked_at_step :: "u64 \<Rightarrow> u32 \<Rightarrow> u32 \<Rightarrow> u64 outcome" where
  "unlocked_at_step amount num_steps steps_elapsed =
     (if num_steps = 0 then Ok amount
      else if steps_elapsed \<ge> num_steps then Ok amount
      else
        obind (native_mul (ucast amount :: u128) (ucast steps_elapsed)) (\<lambda>p.
        obind (native_div p (ucast num_steps)) (\<lambda>unlocked. Ok (ucast unlocked))))"

definition claimable :: "u64 \<Rightarrow> u64 \<Rightarrow> u64" where
  "claimable vested already_claimed = word_saturating_sub vested already_claimed"

definition elapsed_steps :: "u64 \<Rightarrow> u64 \<Rightarrow> u64 \<Rightarrow> u32 outcome" where
  "elapsed_steps start now step_duration =
     (if sint now \<le> sint start \<or> sint step_duration \<le> 0 then Ok 0
      else
        obind (wide_difference now start) (\<lambda>elapsed.
        obind (native_div elapsed (scast step_duration)) (\<lambda>steps.
        if steps > 0xFFFFFFFF then Ok 0xFFFFFFFF else Ok (ucast steps))))"

section \<open>Closed forms\<close>

lemma sint_bounds: "- (2 ^ 63) \<le> sint (x :: u64)" "sint (x :: u64) < 2 ^ 63"
  using sint_ge [of x] sint_lt [of x] by simp_all

lemma sint_wide [simp]: "sint (scast (x :: u64) :: u128) = sint x"
  by (rule sint_up_scast) (simp add: is_up)

lemma wide_difference_eq:
  assumes "sint start \<le> sint now"
  shows "\<exists>w. wide_difference now start = Ok w \<and> unat w = nat (sint now - sint start)"
proof -
  let ?w = "scast now - scast start :: u128"
  have r: "- (2 ^ 127) \<le> sint now - sint start" "sint now - sint start < 2 ^ 127"
    using sint_bounds [of now] sint_bounds [of start] by simp_all
  then have s: "sint ?w = sint now - sint start"
    by (simp add: signed_take_bit_int_eq_self sint_word_ariths(2))
  then have "sword_checked_sub (scast now :: u128) (scast start) = Some ?w" by (simp add: sword_checked_sub_def)
  moreover have "unat ?w = nat (sint ?w)"
    using s assms r by (simp add: unat_eq_nat_uint uint_sint take_bit_int_eq_self)
  ultimately show ?thesis using s by (simp add: wide_difference_def no_panic_def)
qed

definition vested_at :: "u64 \<Rightarrow> u64 \<Rightarrow> u64 \<Rightarrow> u64 \<Rightarrow> u64 \<Rightarrow> nat" where
  "vested_at amount start cliff end_time now =
     (if sint now < sint cliff then 0 else if sint end_time \<le> sint now then unat amount
      else unat amount * nat (sint now - sint start) div nat (sint end_time - sint start))"

lemma share_of_whole: "e \<le> d \<Longrightarrow> a * e div d \<le> (a :: nat)"
  by (cases "d = 0") (auto intro: div_le_mono [of "a * e" "a * d" d, THEN order_trans])

lemma vested_amount_eq:
  assumes "sint start \<le> sint cliff" and "sint cliff \<le> sint end_time"
  shows "\<exists>v. vested_amount amount start cliff end_time now = Ok v \<and> unat v = vested_at amount start cliff end_time now"
proof (cases "sint now < sint cliff \<or> sint end_time \<le> sint now")
  case True
  then show ?thesis using assms by (auto simp: vested_amount_def vested_at_def)
next
  case False
  then have now: "sint cliff \<le> sint now" "sint now < sint end_time" by auto
  let ?e = "nat (sint now - sint start)" and ?d = "nat (sint end_time - sint start)"
  obtain e where e: "wide_difference now start = Ok e" "unat e = ?e"
    using wide_difference_eq [of start now] assms now by auto
  obtain d where d: "wide_difference end_time start = Ok d" "unat d = ?d"
    using wide_difference_eq [of start end_time] assms now by auto
  have pos: "0 < ?d" and le: "?e \<le> ?d" using assms now by auto
  have "?e < 2 ^ 64" using sint_bounds [of now] sint_bounds [of start] by simp
  then have "unat amount * ?e \<le> (2 ^ 64 - 1) * (2 ^ 64 - 1)"
    using unsigned_less [of amount, where 'a = nat] by (intro mult_le_mono) simp_all
  then have fits: "unat (ucast amount :: u128) * unat e < 2 ^ LENGTH(128)" using e(2) by simp
  note mul = native_mul_eq [OF fits] unat_mult_exact [OF fits]
  have d0: "d \<noteq> 0" using d(2) pos by (metis less_irrefl unsigned_0)
  let ?v = "ucast amount * e div d :: u128"
  have v: "unat ?v = unat amount * ?e div ?d" by (simp add: unat_div_exact mul(2) e(2) d(2))
  then have small: "unat ?v \<le> unat amount" using share_of_whole [OF le] by simp
  then have "unat (ucast ?v :: u64) = unat ?v"
    using unsigned_less [of amount, where 'a = nat] by (simp add: unsigned_ucast_eq take_bit_nat_eq_self)
  moreover have "vested_amount amount start cliff end_time now = Ok (ucast ?v)"
    using assms now e(1) d(1) d0 mul(1) small
    by (simp add: vested_amount_def native_div_eq word_less_nat_alt not_less)
  ultimately show ?thesis using now v by (simp add: vested_at_def)
qed

lemma vested_at_mono:
  assumes "sint start \<le> sint cliff" and "sint cliff \<le> sint end_time" and "sint now \<le> sint later"
  shows "vested_at amount start cliff end_time now \<le> vested_at amount start cliff end_time later"
proof -
  have "nat (sint now - sint start) \<le> nat (sint later - sint start)" using assms(3) by simp
  then have "unat amount * nat (sint now - sint start) div d \<le> unat amount * nat (sint later - sint start) div d" for d
    by (intro div_le_mono mult_le_mono2)
  moreover have "unat amount * nat (sint now - sint start) div nat (sint end_time - sint start) \<le> unat amount"
    if "sint now < sint end_time" using that by (intro share_of_whole) simp
  ultimately show ?thesis using assms by (auto simp: vested_at_def)
qed

section \<open>Properties\<close>

text \<open>
  The vesting schedule. With \<open>start <= cliff <= end\<close> the call always succeeds with the exact
  schedule: nothing before the cliff, everything from the end on, the rounded-down share in
  between; the amount never exceeds the grant and never decreases with time.
\<close>

theorem vesting_schedule_monotone:
  assumes "sint start \<le> sint cliff" and "sint cliff \<le> sint end_time" and "sint now \<le> sint later"
  shows "\<exists>v w. vested_amount amount start cliff end_time now = Ok v \<and> vested_amount amount start cliff end_time later = Ok w \<and>
    unat v = vested_at amount start cliff end_time now \<and> v \<le> w \<and> w \<le> amount"
proof -
  obtain v where v: "vested_amount amount start cliff end_time now = Ok v" "unat v = vested_at amount start cliff end_time now"
    using vested_amount_eq [OF assms(1,2)] by blast
  obtain w where w: "vested_amount amount start cliff end_time later = Ok w" "unat w = vested_at amount start cliff end_time later"
    using vested_amount_eq [OF assms(1,2)] by blast
  have "unat w \<le> unat amount"
    unfolding w(2) using assms by (auto simp: vested_at_def intro: share_of_whole)
  then show ?thesis using v w vested_at_mono [OF assms, of amount] by (auto simp: word_le_nat_alt)
qed

theorem vesting_schedule_monotone_witness:
  "\<exists>v w. vested_amount 1000 0 25 100 50 = Ok v \<and> vested_amount 1000 0 25 100 75 = Ok w \<and> unat v = 500 \<and> v \<le> w \<and> w \<le> 1000"
  using vesting_schedule_monotone [of 0 25 100 50 75 1000] by (auto simp: vested_at_def)

end
