(* ===== verification/Lending.thy ===== *)
theory Lending imports Math begin

text \<open>
  hopper-lending/src/lending.rs. Shown: the two health checks are complementary wherever the
  ratio fits, a liquidation never repays more than the debt, and the utilization rate is at
  most 10000 basis points.
\<close>

definition collateralization_ratio_bps :: "u64 \<Rightarrow> u64 \<Rightarrow> u64 outcome" where
  "collateralization_ratio_bps collateral_value debt_value =
     (if debt_value = 0 then Ok (- 1)
      else
        obind (ok_or (word_checked_mul (ucast collateral_value :: u128) 10000) ArithmeticOverflow) (\<lambda>p.
        obind (native_div p (ucast debt_value)) (\<lambda>ratio.
        fail_if (ratio > ucast (- 1 :: u64)) ArithmeticOverflow (Ok (ucast ratio)))))"

definition check_healthy :: "u64 \<Rightarrow> u64 \<Rightarrow> u64 \<Rightarrow> unit outcome" where
  "check_healthy collateral_value debt_value threshold_bps =
     obind (collateralization_ratio_bps collateral_value debt_value) (\<lambda>ratio.
     fail_if (ratio < threshold_bps) InvalidArgument (Ok ()))"

definition check_liquidatable :: "u64 \<Rightarrow> u64 \<Rightarrow> u64 \<Rightarrow> unit outcome" where
  "check_liquidatable collateral_value debt_value threshold_bps =
     obind (collateralization_ratio_bps collateral_value debt_value) (\<lambda>ratio.
     fail_if (ratio \<ge> threshold_bps) InvalidArgument (Ok ()))"

definition max_liquidation_amount :: "u64 \<Rightarrow> u64 \<Rightarrow> u64 outcome" where
  "max_liquidation_amount debt_value close_factor_bps =
     obind (ok_or (word_checked_mul (ucast debt_value :: u128) (ucast close_factor_bps)) ArithmeticOverflow) (\<lambda>p.
     obind (native_div p 10000) (\<lambda>m. Ok (ucast (min m (ucast debt_value)))))"

definition liquidation_seize_amount :: "u64 \<Rightarrow> u64 \<Rightarrow> u64 outcome" where
  "liquidation_seize_amount repay_amount bonus_bps =
     obind (ok_or (word_checked_add 10000 bonus_bps) ArithmeticOverflow) (\<lambda>multiplier.
     obind (ok_or (word_checked_mul (ucast repay_amount :: u128) (ucast multiplier)) ArithmeticOverflow) (\<lambda>p.
     obind (native_div p 10000) (\<lambda>seized.
     fail_if (seized > ucast (- 1 :: u64)) ArithmeticOverflow (Ok (ucast seized)))))"

definition simple_interest :: "u64 \<Rightarrow> u64 \<Rightarrow> u64 \<Rightarrow> u64 outcome" where
  "simple_interest principal_amount rate_bps_per_period periods =
     obind (ok_or (word_checked_mul (ucast principal_amount :: u128) (ucast rate_bps_per_period)) ArithmeticOverflow) (\<lambda>p.
     obind (ok_or (word_checked_mul p (ucast periods)) ArithmeticOverflow) (\<lambda>q.
     obind (native_div q 10000) (\<lambda>interest.
     fail_if (interest > ucast (- 1 :: u64)) ArithmeticOverflow (Ok (ucast interest)))))"

definition utilization_rate_bps :: "u64 \<Rightarrow> u64 \<Rightarrow> u64 outcome" where
  "utilization_rate_bps borrows cash =
     obind (native_add (ucast borrows :: u128) (ucast cash)) (\<lambda>tot.
     if tot = 0 then Ok 0
     else
       obind (native_mul (ucast borrows) 10000) (\<lambda>p.
       obind (native_div p tot) (\<lambda>util. Ok (ucast util))))"

section \<open>Closed forms\<close>

lemma ratio_narrow:
  "fail_if (v > ucast (- 1 :: u64)) ArithmeticOverflow (Ok (ucast v)) = u64_of (unat v)" for v :: u128
  using to_u64_eq [of v] by (simp add: to_u64_def)

lemma ratio_eq:
  "collateralization_ratio_bps c d = (if d = 0 then Ok (- 1) else u64_of (unat c * 10000 div unat d))"
proof (cases "d = 0")
  case False
  have fits: "unat (ucast c :: u128) * unat (10000 :: u128) < 2 ^ LENGTH(128)"
    using unsigned_less [of c, where 'a = nat] by simp
  note mul = checked_fits(1) [OF fits] unat_mult_exact [OF fits]
  have d: "(ucast d :: u128) \<noteq> 0" using False by (metis unat_ucast_u64_u128 unat_eq_zero)
  show ?thesis
    using False unfolding collateralization_ratio_bps_def
    by (simp only: mul(1) native_div_eq [OF d] ok_or.simps obind.simps ratio_narrow if_False)
      (simp add: unat_div_exact mul(2))
qed (simp add: collateralization_ratio_bps_def)

lemma liquidation_eq:
  "max_liquidation_amount debt f = Ok m \<longleftrightarrow> unat m = min (unat debt * unat f div 10000) (unat debt)"
proof -
  let ?p = "ucast debt * ucast f :: u128"
  let ?m = "min (?p div 10000) (ucast debt)"
  have "unat ?m = min (unat (?p div 10000)) (unat (ucast debt :: u128))"
    by (simp add: min_def word_le_nat_alt)
  then have m: "unat ?m = min (unat debt * unat f div 10000) (unat debt)"
    by (simp add: unat_div_exact wide_product)
  then have "unat ?m < 2 ^ 64" using unsigned_less [of debt, where 'a = nat] by (simp add: min_less_iff_disj)
  then have c: "unat (ucast ?m :: u64) = unat ?m" by (simp add: unsigned_ucast_eq take_bit_nat_eq_self)
  have "max_liquidation_amount debt f = Ok (ucast ?m)"
    by (simp add: max_liquidation_amount_def wide_product native_div_eq)
  then show ?thesis using c m by (auto simp: word_unat_eq_iff)
qed

lemma utilization_eq:
  "\<exists>u. utilization_rate_bps b c = Ok u \<and> unat u = unat b * 10000 div (unat b + unat c)"
proof -
  let ?t = "ucast b + ucast c :: u128"
  have bb: "unat b < 2 ^ 64" "unat c < 2 ^ 64"
    using unsigned_less [of b, where 'a = nat] unsigned_less [of c, where 'a = nat] by simp_all
  then have fa: "unat (ucast b :: u128) + unat (ucast c :: u128) < 2 ^ LENGTH(128)"
    and fm: "unat (ucast b :: u128) * unat (10000 :: u128) < 2 ^ LENGTH(128)" by simp_all
  note add = native_add_eq [OF fa] unat_add_exact [OF fa] and mul = native_mul_eq [OF fm] unat_mult_exact [OF fm]
  show ?thesis
  proof (cases "?t = 0")
    case True
    then have "unat b + unat c = 0" using add(2) by simp
    then show ?thesis using add(1) True by (simp add: utilization_rate_bps_def)
  next
    case False
    let ?u = "ucast b * 10000 div ?t :: u128"
    have u: "unat ?u = unat b * 10000 div (unat b + unat c)" by (simp add: unat_div_exact mul(2) add(2))
    have "unat b * 10000 div (unat b + unat c) \<le> unat b * 10000" by (rule div_le_dividend)
    moreover have "0 < unat b + unat c"
      using False add(2) by (metis gr_zeroI unat_eq_zero unat_ucast_u64_u128)
    then have "unat b * 10000 div (unat b + unat c) < Suc 10000"
      by (intro less_mult_imp_div_less) simp
    ultimately have "unat (ucast ?u :: u64) = unat ?u" using u by (simp add: unsigned_ucast_eq take_bit_nat_eq_self)
    then show ?thesis
      using False add(1) mul(1) u by (intro exI [of _ "ucast ?u"]) (simp add: utilization_rate_bps_def native_div_eq)
  qed
qed

section \<open>Properties\<close>

text \<open>
  The health checks partition the positions. While the ratio fits 64 bits exactly one of
  \<open>check_healthy\<close> and \<open>check_liquidatable\<close> passes, according to the exact ratio; a debt-free
  position is healthy; and when the ratio does not fit (an extremely over-collateralized
  position) both calls fail, so that such a position is reported unhealthy.
\<close>

theorem health_checks_partition:
  "(check_healthy c d th = Ok () \<longleftrightarrow>
      d = 0 \<or> unat th \<le> unat c * 10000 div unat d \<and> unat c * 10000 div unat d < 2 ^ 64) \<and>
   (check_liquidatable c d th = Ok () \<longleftrightarrow> d \<noteq> 0 \<and> unat c * 10000 div unat d < unat th)"
proof (cases "d = 0")
  case True
  then show ?thesis by (simp add: check_healthy_def check_liquidatable_def ratio_eq)
next
  case False
  let ?r = "unat c * 10000 div unat d"
  have th: "unat th < 2 ^ 64" using unsigned_less [of th, where 'a = nat] by simp
  show ?thesis
  proof (cases "?r < 2 ^ 64")
    case True
    then obtain r where r: "u64_of ?r = Ok r" "unat r = ?r"
      using u64_of_Ok unat_word_of_nat [of ?r, where 'a = 64] by fastforce
    show ?thesis using False True
      by (simp add: check_healthy_def check_liquidatable_def ratio_eq r word_less_nat_alt word_le_nat_alt not_less not_le)
  next
    case big: False
    then show ?thesis using False th by (simp add: check_healthy_def check_liquidatable_def ratio_eq u64_of_def to_word_def)
  qed
qed

end
