(* ===== verification/Multisig.thy ===== *)
theory Multisig imports Contracts "HOL-Library.Word" begin

text \<open>
  hopper-multisig/src/multisig.rs. The functions read two things of each \<open>AccountView\<close>, its
  address and its signer flag. Shown: the saturating 8-bit counter decides every threshold as
  the unbounded count would, and the checks count distinct keys, so the same signer passed
  twice never counts twice.
\<close>

record account_view =
  address :: "8 word list"
  is_signer :: bool

text \<open>\<open>n.saturating_add(1)\<close> on a \<open>u8\<close>, and the counting loop.\<close>

fun count_signers_loop :: "8 word \<Rightarrow> account_view list \<Rightarrow> 8 word" where
  "count_signers_loop n [] = n"
| "count_signers_loop n (a # as) =
     count_signers_loop (if is_signer a then (if n = - 1 then - 1 else n + 1) else n) as"

definition count_signers :: "account_view list \<Rightarrow> 8 word" where
  "count_signers accounts = count_signers_loop 0 accounts"

text \<open>The two uniqueness loops: the head against every later account, then the tail.\<close>

fun has_duplicate :: "account_view list \<Rightarrow> bool" where
  "has_duplicate [] = False"
| "has_duplicate (a # as) = (list_ex (\<lambda>b. address a = address b) as \<or> has_duplicate as)"

definition check_threshold :: "account_view list \<Rightarrow> 8 word \<Rightarrow> unit outcome" where
  "check_threshold accounts threshold =
     fail_if (has_duplicate accounts) InvalidArgument
       (fail_if (count_signers accounts < threshold) MissingRequiredSignature (Ok ()))"

definition check_all_signers :: "account_view list \<Rightarrow> unit outcome" where
  "check_all_signers accounts =
     fail_if (length accounts > 255) InvalidArgument
       (check_threshold accounts (word_of_nat (length accounts)))"

definition check_any_signer :: "account_view list \<Rightarrow> unit outcome" where
  "check_any_signer accounts = check_threshold accounts 1"

section \<open>The loops in closed form\<close>

abbreviation signer_keys :: "account_view list \<Rightarrow> 8 word list set" where
  "signer_keys accounts \<equiv> address ` {a \<in> set accounts. is_signer a}"

lemma saturating_succ: "unat (if n = - 1 then - 1 else n + 1 :: 8 word) = min (Suc (unat n)) 255"
proof (cases "n = - 1")
  case False
  have "unat n < 256" using unsigned_less [of n, where 'a = nat] by simp
  moreover have "unat (- 1 :: 8 word) = 255" by (simp add: unsigned_minus_1_eq_mask mask_eq_exp_minus_1)
  then have "unat n \<noteq> 255" using False by (metis word_unat_eq_iff)
  ultimately show ?thesis using False by (simp add: unat_word_ariths)
qed (simp add: unsigned_minus_1_eq_mask mask_eq_exp_minus_1)

lemma count_signers_loop_nat:
  "unat (count_signers_loop n as) = min (unat n + length (filter is_signer as)) 255"
proof (induction as arbitrary: n)
  case Nil
  have "unat n < 256" using unsigned_less [of n, where 'a = nat] by simp
  then show ?case by simp
next
  case (Cons a as)
  show ?case
    by (cases "is_signer a") (simp_all add: Cons.IH saturating_succ del: if_split)
qed

lemma has_duplicate_iff: "has_duplicate as \<longleftrightarrow> \<not> distinct (List.map address as)"
  by (induction as) (auto simp: list_ex_iff)

lemma distinct_signers:
  assumes "distinct (List.map address as)"
  shows "length (filter is_signer as) = card (signer_keys as)"
proof -
  have "distinct (List.map address (filter is_signer as))"
    using assms by (rule distinct_map_filter)
  then have "card (set (List.map address (filter is_signer as))) = length (filter is_signer as)"
    by (simp only: distinct_card length_map)
  then show ?thesis by simp
qed

lemma count_below: "count_signers as < t \<longleftrightarrow> length (filter is_signer as) < unat t"
proof -
  have "unat t < 256" using unsigned_less [of t, where 'a = nat] by simp
  then show ?thesis by (auto simp: count_signers_def word_less_nat_alt count_signers_loop_nat)
qed

lemma check_threshold_Ok:
  "check_threshold as t = Ok () \<longleftrightarrow> distinct (List.map address as) \<and> unat t \<le> card (signer_keys as)"
  by (auto simp: check_threshold_def has_duplicate_iff count_below distinct_signers not_less)

section \<open>Properties\<close>

text \<open>
  Thresholds count keys. Each of the three checks passes exactly on lists without
  repeated addresses, when the set of keys that signed has at least the threshold, contains
  every key of a list of at most 255 accounts, or is not empty; the counter's saturation never
  shows.
\<close>

theorem multisig_counts_keys:
  "(check_threshold as t = Ok () \<longleftrightarrow> distinct (List.map address as) \<and> unat t \<le> card (signer_keys as)) \<and>
   (check_all_signers as = Ok () \<longleftrightarrow>
      length as \<le> 255 \<and> distinct (List.map address as) \<and> list_all is_signer as) \<and>
   (check_any_signer as = Ok () \<longleftrightarrow> distinct (List.map address as) \<and> list_ex is_signer as)"
proof -
  have all: "length as \<le> length (filter is_signer as) \<longleftrightarrow> list_all is_signer as"
    using length_filter_le [of is_signer as]
    by (metis filter_id_conv le_antisym length_filter_less list_all_iff not_less order_refl)
  have "check_all_signers as = Ok () \<longleftrightarrow>
      length as \<le> 255 \<and> distinct (List.map address as) \<and> list_all is_signer as"
  proof (cases "length as \<le> 255")
    case True
    then have "unat (word_of_nat (length as) :: 8 word) = length as" by (simp add: unat_of_nat)
    then show ?thesis using True all
      by (auto simp: check_all_signers_def check_threshold_Ok simp flip: distinct_signers)
  qed (simp add: check_all_signers_def)
  moreover have "check_any_signer as = Ok () \<longleftrightarrow> distinct (List.map address as) \<and> list_ex is_signer as"
  proof -
    have "count_signers as < 1 \<longleftrightarrow> filter is_signer as = []" unfolding count_below by simp
    then show ?thesis
      by (auto simp: check_any_signer_def check_threshold_def has_duplicate_iff list_ex_iff filter_empty_conv
          simp del: word_less_1)
  qed
  ultimately show ?thesis using check_threshold_Ok by simp
qed

end
