(* ===== verification/ErrorCode.thy ===== *)
theory ErrorCode imports Prelude begin

text \<open>
  The \<^verbatim>\<open>u64\<close> codes of \<^verbatim>\<open>ProgramError\<close> (hopper-runtime/src/error.rs; hopper-native/src/error.rs
  holds the same text). Shown: every error survives the trip through its code, no error has
  the success code 0, and which codes are canonical.
\<close>

unbundle bit_operations_syntax

definition builtin_bit_shift :: nat where "builtin_bit_shift = 32"

definition custom_zero :: u64 where "custom_zero = push_bit builtin_bit_shift 1"

definition builtin_low_mask :: u64 where "builtin_low_mask = push_bit builtin_bit_shift 1 - 1"

text \<open>The discriminant that \<^verbatim>\<open>#[repr(u64)]\<close> stores in the leading word.\<close>

fun error_tag :: "program_error \<Rightarrow> u64" where
  "error_tag (Custom code) = 0"
| "error_tag InvalidArgument = 1"
| "error_tag InvalidInstructionData = 2"
| "error_tag InvalidAccountData = 3"
| "error_tag AccountDataTooSmall = 4"
| "error_tag InsufficientFunds = 5"
| "error_tag IncorrectProgramId = 6"
| "error_tag MissingRequiredSignature = 7"
| "error_tag AccountAlreadyInitialized = 8"
| "error_tag UninitializedAccount = 9"
| "error_tag NotEnoughAccountKeys = 10"
| "error_tag AccountBorrowFailed = 11"
| "error_tag MaxSeedLengthExceeded = 12"
| "error_tag InvalidSeeds = 13"
| "error_tag BorshIoError = 14"
| "error_tag AccountNotRentExempt = 15"
| "error_tag UnsupportedSysvar = 16"
| "error_tag IllegalOwner = 17"
| "error_tag MaxAccountsDataAllocationsExceeded = 18"
| "error_tag InvalidRealloc = 19"
| "error_tag MaxInstructionTraceLengthExceeded = 20"
| "error_tag BuiltinProgramsMustConsumeComputeUnits = 21"
| "error_tag InvalidAccountOwner = 22"
| "error_tag ArithmeticOverflow = 23"
| "error_tag Immutable = 24"
| "error_tag IncorrectAuthority = 25"

definition error_to_u64 :: "program_error \<Rightarrow> u64" where
  "error_to_u64 err =
     (case err of
        Custom code \<Rightarrow> if code = 0 then custom_zero else ucast code
      | builtin \<Rightarrow> push_bit builtin_bit_shift (error_tag builtin + 1))"

definition builtin_of :: "u64 \<Rightarrow> program_error option" where
  "builtin_of index =
     (if index = 0 then Some InvalidArgument
      else if index = 1 then Some InvalidInstructionData
      else if index = 2 then Some InvalidAccountData
      else if index = 3 then Some AccountDataTooSmall
      else if index = 4 then Some InsufficientFunds
      else if index = 5 then Some IncorrectProgramId
      else if index = 6 then Some MissingRequiredSignature
      else if index = 7 then Some AccountAlreadyInitialized
      else if index = 8 then Some UninitializedAccount
      else if index = 9 then Some NotEnoughAccountKeys
      else if index = 10 then Some AccountBorrowFailed
      else if index = 11 then Some MaxSeedLengthExceeded
      else if index = 12 then Some InvalidSeeds
      else if index = 13 then Some BorshIoError
      else if index = 14 then Some AccountNotRentExempt
      else if index = 15 then Some UnsupportedSysvar
      else if index = 16 then Some IllegalOwner
      else if index = 17 then Some MaxAccountsDataAllocationsExceeded
      else if index = 18 then Some InvalidRealloc
      else if index = 19 then Some MaxInstructionTraceLengthExceeded
      else if index = 20 then Some BuiltinProgramsMustConsumeComputeUnits
      else if index = 21 then Some InvalidAccountOwner
      else if index = 22 then Some ArithmeticOverflow
      else if index = 23 then Some Immutable
      else if index = 24 then Some IncorrectAuthority
      else None)"

definition error_from_u64 :: "u64 \<Rightarrow> program_error" where
  "error_from_u64 code =
     (if code = custom_zero then Custom 0
      else
        let builtin = drop_bit builtin_bit_shift code in
        case (if code AND builtin_low_mask = 0 \<and> builtin \<ge> 2 then builtin_of (builtin - 2) else None) of
          Some e \<Rightarrow> e
        | None \<Rightarrow> Custom (ucast code))"

section \<open>The codes\<close>

lemma low_mask: "builtin_low_mask = mask 32"
  by (simp add: builtin_low_mask_def builtin_bit_shift_def mask_eq_exp_minus_1)

lemma code_below:
  fixes c :: u32
  shows "unat (ucast c :: u64) = unat c" and "unat c < 2 ^ 32" and "unat custom_zero = 2 ^ 32"
  using unsigned_less [of c, where 'a = nat]
  by (simp_all add: custom_zero_def builtin_bit_shift_def unsigned_ucast_eq take_bit_nat_eq_self)

lemma custom_code: "error_to_u64 (Custom c) = (if c = 0 then custom_zero else ucast c)"
  by (simp add: error_to_u64_def)

lemma custom_round_trip: "error_from_u64 (error_to_u64 (Custom c)) = Custom c"
proof (cases "c = 0")
  case True
  then show ?thesis by (simp add: custom_code error_from_u64_def)
next
  case False
  let ?w = "ucast c :: u64"
  have "unat (take_bit 32 ?w) = unat ?w"
    using code_below(1,2) [of c] by (simp add: unsigned_take_bit_eq take_bit_nat_eq_self)
  then have "?w AND builtin_low_mask = ?w" by (simp add: low_mask word_unat_eq_iff flip: take_bit_eq_mask)
  moreover have "?w \<noteq> 0" using False code_below(1) [of c] by (metis unat_eq_zero)
  moreover have "?w \<noteq> custom_zero" using code_below(1,2) [of c] code_below(3) by auto
  moreover have "ucast ?w = c" by (rule bit_word_eqI) (simp add: bit_simps)
  ultimately show ?thesis using False by (simp add: custom_code error_from_u64_def Let_def)
qed

lemma builtin_round_trip:
  assumes "\<nexists>c. e = Custom c"
  shows "error_from_u64 (error_to_u64 e) = e"
proof (cases e)
  case (Custom c)
  then show ?thesis using assms by blast
qed (simp_all add: error_to_u64_def error_from_u64_def custom_zero_def builtin_low_mask_def builtin_bit_shift_def builtin_of_def)

definition canonical_codes :: "u64 set" where
  "canonical_codes = {code. 0 < unat code \<and> unat code < 2 ^ 32} \<union> {code. \<exists>k. 1 \<le> k \<and> k \<le> 26 \<and> unat code = k * 2 ^ 32}"

lemma code_canonical: "error_to_u64 e \<in> canonical_codes"
proof (cases e)
  case (Custom c)
  show ?thesis
  proof (cases "c = 0")
    case True
    then have "unat (error_to_u64 e) = 1 * 2 ^ 32" using Custom code_below(3) by (simp add: custom_code)
    then show ?thesis unfolding canonical_codes_def by fastforce
  next
    case False
    then have "0 < unat c" by (simp add: unat_gt_0)
    then show ?thesis using False Custom code_below(1,2) [of c] by (simp add: custom_code canonical_codes_def)
  qed
qed (simp_all add: error_to_u64_def canonical_codes_def builtin_bit_shift_def)

lemma canonical_code:
  assumes "code \<in> canonical_codes"
  shows "\<exists>e. error_to_u64 e = code"
proof (cases "unat code < 2 ^ 32")
  case True
  then have "0 < unat code" using assms by (auto simp: canonical_codes_def)
  moreover have "unat (ucast code :: u32) = unat code" using True by (simp add: unsigned_ucast_eq take_bit_nat_eq_self)
  moreover from this have "unat (ucast (ucast code :: u32) :: u64) = unat code" using code_below(1) by simp
  ultimately have "error_to_u64 (Custom (ucast code)) = code" by (auto simp: custom_code word_unat_eq_iff)
  then show ?thesis ..
next
  case False
  then obtain k where k: "1 \<le> k" "k \<le> 26" "unat code = k * 2 ^ 32"
    using assms by (auto simp: canonical_codes_def)
  then have code: "code = word_of_nat (k * 2 ^ 32)" by (simp only: flip: k(3)) simp
  have "k = 1 \<or> k = 2 \<or> k = 3 \<or> k = 4 \<or> k = 5 \<or> k = 6 \<or> k = 7 \<or> k = 8 \<or> k = 9 \<or> k = 10 \<or> k = 11 \<or> k = 12 \<or> k = 13 \<or> 
      k = 14 \<or> k = 15 \<or> k = 16 \<or> k = 17 \<or> k = 18 \<or> k = 19 \<or> k = 20 \<or> k = 21 \<or> k = 22 \<or> k = 23 \<or> k = 24 \<or> k = 25 \<or> k = 26"
    using k(1,2) by presburger
  then have "error_to_u64 (error_from_u64 code) = code"
    unfolding code
    by (elim disjE)
      (simp_all add: error_to_u64_def error_from_u64_def custom_zero_def builtin_low_mask_def builtin_bit_shift_def
        builtin_of_def Let_def)
  then show ?thesis ..
qed

section \<open>Property\<close>

text \<open>
  Error codes are lossless. Every error is recovered from its code, no error has the
  code 0 that the loader reads as success, and a code comes back as itself exactly when it is
  a non-zero 32-bit custom code or one of the 26 builtin codes.
\<close>

theorem error_codes_round_trip:
  "error_from_u64 (error_to_u64 e) = e \<and> error_to_u64 e \<noteq> 0 \<and>
   (error_to_u64 (error_from_u64 code) = code \<longleftrightarrow> code \<in> canonical_codes)"
proof -
  have rt: "error_from_u64 (error_to_u64 x) = x" for x
    using custom_round_trip builtin_round_trip by (cases "\<exists>c. x = Custom c") auto
  have "code \<in> canonical_codes \<Longrightarrow> error_to_u64 (error_from_u64 code) = code"
    using canonical_code rt by metis
  moreover have "error_to_u64 (error_from_u64 code) = code \<Longrightarrow> code \<in> canonical_codes" using code_canonical by metis
  moreover have "error_to_u64 e \<noteq> 0" using code_canonical [of e] by (auto simp: canonical_codes_def)
  ultimately show ?thesis using rt by blast
qed

end
