(* ===== verification/SegRegistry.thy ===== *)
theory SegRegistry imports RingBuffer SortedVec SlotMap Journal Slab MachineInts begin

text \<open>
  hopper-core/src/account/registry.rs and segment_role.rs: an account that carries its own
  table of segments. After the 16-byte account header come a 4-byte registry header and the
  entries, 16 bytes each; the rest is the data region. A reference into the account
  (\<^verbatim>\<open>&mut SegmentEntry\<close>, \<^verbatim>\<open>&mut [u8]\<close>) is its address, or its address and length. Shown: a
  table written by \<open>init\<close> partitions the data region; on any table, no sequence of calls
  leaves the account, moves an entry, or changes a locked segment that no entry overlaps.
\<close>

unbundle bit_operations_syntax

section \<open>Identifiers\<close>

fun fnv_loop :: "u32 \<Rightarrow> bytes \<Rightarrow> u32" where
  "fnv_loop hash [] = hash"
| "fnv_loop hash (b # bs) = fnv_loop ((hash XOR ucast b) * 0x01000193) bs"

definition segment_id :: "bytes \<Rightarrow> bytes" where
  "segment_id name = le_enc 4 (unat (fnv_loop 0x811c9dc5 name))"

section \<open>Roles\<close>

datatype segment_role =
  CoreRole | ExtensionRole | JournalRole | IndexRole | CacheRole | AuditRole | ShardRole | UnclassifiedRole

definition role_from_flags :: "u16 \<Rightarrow> segment_role" where
  "role_from_flags flags =
     (let n = drop_bit 12 flags AND 0xF in
      if n = 0 then CoreRole else if n = 1 then ExtensionRole else if n = 2 then JournalRole
      else if n = 3 then IndexRole else if n = 4 then CacheRole else if n = 5 then AuditRole
      else if n = 6 then ShardRole else UnclassifiedRole)"

fun role_number :: "segment_role \<Rightarrow> u16" where
  "role_number CoreRole = 0"
| "role_number ExtensionRole = 1"
| "role_number JournalRole = 2"
| "role_number IndexRole = 3"
| "role_number CacheRole = 4"
| "role_number AuditRole = 5"
| "role_number ShardRole = 6"
| "role_number UnclassifiedRole = 7"

definition role_into_flags :: "segment_role \<Rightarrow> u16 \<Rightarrow> u16" where
  "role_into_flags r existing_flags = (existing_flags AND 0x0FFF) OR push_bit 12 (role_number r)"

definition must_preserve :: "segment_role \<Rightarrow> bool" where
  "must_preserve r \<longleftrightarrow> r \<in> {CoreRole, AuditRole}"
definition clearable_on_migration :: "segment_role \<Rightarrow> bool" where
  "clearable_on_migration r \<longleftrightarrow> r \<in> {JournalRole, CacheRole}"
definition rebuildable :: "segment_role \<Rightarrow> bool" where
  "rebuildable r \<longleftrightarrow> r \<in> {IndexRole, CacheRole}"
definition is_append_only :: "segment_role \<Rightarrow> bool" where
  "is_append_only r \<longleftrightarrow> r \<in> {JournalRole, AuditRole}"
definition is_immutable_after_init :: "segment_role \<Rightarrow> bool" where
  "is_immutable_after_init r \<longleftrightarrow> r = AuditRole"
definition requires_migration_copy :: "segment_role \<Rightarrow> bool" where
  "requires_migration_copy r \<longleftrightarrow> r \<in> {CoreRole, AuditRole}"
definition is_safe_to_drop :: "segment_role \<Rightarrow> bool" where
  "is_safe_to_drop r \<longleftrightarrow> r = CacheRole"
definition should_emit_receipt :: "segment_role \<Rightarrow> bool" where
  "should_emit_receipt r \<longleftrightarrow> r \<in> {CoreRole, ExtensionRole, JournalRole, AuditRole, ShardRole}"
definition is_operator_relevant :: "segment_role \<Rightarrow> bool" where
  "is_operator_relevant r \<longleftrightarrow> r \<in> {CoreRole, ExtensionRole, JournalRole, AuditRole, ShardRole}"
definition may_hold_financial_state :: "segment_role \<Rightarrow> bool" where
  "may_hold_financial_state r \<longleftrightarrow> r \<in> {CoreRole, ExtensionRole}"

fun role_name :: "segment_role \<Rightarrow> string" where
  "role_name CoreRole = ''core''"
| "role_name ExtensionRole = ''extension''"
| "role_name JournalRole = ''journal''"
| "role_name IndexRole = ''index''"
| "role_name CacheRole = ''cache''"
| "role_name AuditRole = ''audit''"
| "role_name ShardRole = ''shard''"
| "role_name UnclassifiedRole = ''unclassified''"

section \<open>Entries\<close>

definition segment_entry_size :: nat where "segment_entry_size = 16"
definition seg_flag_locked :: u16 where "seg_flag_locked = 1"
definition seg_flag_frozen :: u16 where "seg_flag_frozen = 2"
definition seg_flag_dynamic :: u16 where "seg_flag_dynamic = 4"

record segment_entry =
  se_id :: bytes
  offset_bytes :: bytes
  size_bytes :: bytes
  flags_bytes :: bytes
  se_version :: u8
  se_reserved :: u8

definition entry_new :: "bytes \<Rightarrow> u32 \<Rightarrow> u32 \<Rightarrow> u16 \<Rightarrow> u8 \<Rightarrow> segment_entry" where
  "entry_new ident off sz flags version =
     \<lparr>se_id = ident, offset_bytes = le_enc 4 (unat off), size_bytes = le_enc 4 (unat sz),
      flags_bytes = le_enc 2 (unat flags), se_version = version, se_reserved = 0\<rparr>"

text \<open>The \<^verbatim>\<open>repr(C)\<close> layout of an entry, and the cast of 16 bytes to one.\<close>

definition entry_bytes :: "segment_entry \<Rightarrow> bytes" where
  "entry_bytes e = se_id e @ offset_bytes e @ size_bytes e @ flags_bytes e @ [se_version e, se_reserved e]"

definition entry_cast :: "bytes \<Rightarrow> segment_entry" where
  "entry_cast b = \<lparr>se_id = bslice 0 4 b, offset_bytes = bslice 4 4 b, size_bytes = bslice 8 4 b,
     flags_bytes = bslice 12 2 b, se_version = b ! 14, se_reserved = b ! 15\<rparr>"

definition entry_offset :: "segment_entry \<Rightarrow> u32" where
  "entry_offset e = word_of_nat (le_val (offset_bytes e))"
definition entry_size :: "segment_entry \<Rightarrow> u32" where
  "entry_size e = word_of_nat (le_val (size_bytes e))"
definition entry_flags :: "segment_entry \<Rightarrow> u16" where
  "entry_flags e = word_of_nat (le_val (flags_bytes e))"
definition entry_is_locked :: "segment_entry \<Rightarrow> bool" where
  "entry_is_locked e \<longleftrightarrow> entry_flags e AND seg_flag_locked \<noteq> 0"
definition entry_is_frozen :: "segment_entry \<Rightarrow> bool" where
  "entry_is_frozen e \<longleftrightarrow> entry_flags e AND seg_flag_frozen \<noteq> 0"
definition entry_role :: "segment_entry \<Rightarrow> segment_role" where
  "entry_role e = role_from_flags (entry_flags e)"

text \<open>Through a reference, that is at an address of the account.\<close>

definition entry_at :: "bytes \<Rightarrow> nat \<Rightarrow> segment_entry outcome" where
  "entry_at d at = obind (rd d at segment_entry_size) (\<lambda>b. Ok (entry_cast b))"

definition entry_set_offset :: "bytes \<Rightarrow> nat \<Rightarrow> u32 \<Rightarrow> bytes outcome" where
  "entry_set_offset d at off = wr d (at + 4) (le_enc 4 (unat off))"
definition entry_set_size :: "bytes \<Rightarrow> nat \<Rightarrow> u32 \<Rightarrow> bytes outcome" where
  "entry_set_size d at sz = wr d (at + 8) (le_enc 4 (unat sz))"
definition entry_set_flags :: "bytes \<Rightarrow> nat \<Rightarrow> u16 \<Rightarrow> bytes outcome" where
  "entry_set_flags d at flags = wr d (at + 12) (le_enc 2 (unat flags))"

section \<open>The registry\<close>

definition registry_header_size :: nat where "registry_header_size = 4"
definition max_registry_segments :: nat where "max_registry_segments = 16"
definition registry_offset :: nat where "registry_offset = 16"

record seg_registry =
  sr_data :: bytes
  sr_count :: nat
  sr_entries_offset :: nat

definition sr_from_account :: "bytes \<Rightarrow> seg_registry outcome" where
  "sr_from_account d =
     (let start = registry_offset in
      fail_if (length d < start + registry_header_size) AccountDataTooSmall
        (obind (rd_byte d start) (\<lambda>lo. obind (rd_byte d (start + 1)) (\<lambda>hi.
         let count = le_val [lo, hi] in
         fail_if (count > max_registry_segments) InvalidAccountData
           (let entries_offset = start + registry_header_size;
                needed = entries_offset + count * segment_entry_size in
            fail_if (length d < needed) AccountDataTooSmall
              (Ok \<lparr>sr_data = d, sr_count = count, sr_entries_offset = entries_offset\<rparr>))))))"

definition sr_segment_count :: "seg_registry \<Rightarrow> nat" where
  "sr_segment_count r = sr_count r"

definition sr_data_region_offset :: "seg_registry \<Rightarrow> nat" where
  "sr_data_region_offset r = sr_entries_offset r + sr_count r * segment_entry_size"

definition sr_entry :: "seg_registry \<Rightarrow> nat \<Rightarrow> segment_entry outcome" where
  "sr_entry r index =
     fail_if (index \<ge> sr_count r) InvalidArgument
       (entry_at (sr_data r) (sr_entries_offset r + index * segment_entry_size))"

function sr_find_loop :: "seg_registry \<Rightarrow> bytes \<Rightarrow> nat \<Rightarrow> (nat \<times> segment_entry) outcome" where
  "sr_find_loop r ident i =
     (if i < sr_count r then
        obind (entry_at (sr_data r) (sr_entries_offset r + i * segment_entry_size)) (\<lambda>e.
        if se_id e = ident then Ok (i, e) else sr_find_loop r ident (i + 1))
      else Err InvalidArgument)"
  by pat_completeness auto
termination by (relation "measure (\<lambda>(r, ident, i). sr_count r - i)") auto

declare sr_find_loop.simps [simp del]

definition sr_find :: "seg_registry \<Rightarrow> bytes \<Rightarrow> (nat \<times> segment_entry) outcome" where
  "sr_find r ident = sr_find_loop r ident 0"

definition sr_segment_data :: "seg_registry \<Rightarrow> bytes \<Rightarrow> bytes outcome" where
  "sr_segment_data r ident =
     obind (sr_find r ident) (\<lambda>(_, e).
     let start = unat (entry_offset e); finish = start + unat (entry_size e) in
     fail_if (start < sr_data_region_offset r) InvalidAccountData
       (fail_if (finish > length (sr_data r)) AccountDataTooSmall
          (rd (sr_data r) start (finish - start))))"

definition sr_segment_overlay :: "nat \<Rightarrow> seg_registry \<Rightarrow> bytes \<Rightarrow> bytes outcome" where
  "sr_segment_overlay sz r ident =
     obind (sr_segment_data r ident) (\<lambda>d.
     fail_if (length d < sz) AccountDataTooSmall (rd d 0 sz))"

record seg_iter =
  it_registry :: seg_registry
  it_pos :: nat

definition sr_iter :: "seg_registry \<Rightarrow> seg_iter" where
  "sr_iter r = \<lparr>it_registry = r, it_pos = 0\<rparr>"

definition sr_iter_next :: "seg_iter \<Rightarrow> (seg_iter \<times> (nat \<times> segment_entry) option) outcome" where
  "sr_iter_next it =
     (if it_pos it \<ge> sr_count (it_registry it) then Ok (it, None)
      else
        let idx = it_pos it in
        obind (entry_at (sr_data (it_registry it)) (sr_entries_offset (it_registry it) + idx * segment_entry_size))
          (\<lambda>e. Ok (it\<lparr>it_pos := it_pos it + 1\<rparr>, Some (idx, e))))"

definition sr_registry_size :: "seg_registry \<Rightarrow> nat" where
  "sr_registry_size r = registry_header_size + sr_count r * segment_entry_size"

definition sr_required_account_size :: "nat \<Rightarrow> nat \<Rightarrow> nat \<Rightarrow> nat" where
  "sr_required_account_size header_size segment_count total_segment_data =
     header_size + registry_header_size + segment_count * segment_entry_size + total_segment_data"

section \<open>Initialisation\<close>

text \<open>
  \<open>init\<close> writes into the borrowed account as it goes, so its result carries the bytes it has
  written also when it fails. The duplicate check is the two loops over the specifications.
\<close>

fun duplicate_ids :: "(bytes \<times> u32 \<times> u8) list \<Rightarrow> bool" where
  "duplicate_ids [] = False"
| "duplicate_ids (s # specs) = (list_ex (\<lambda>t. fst s = fst t) specs \<or> duplicate_ids specs)"

fun sr_init_loop :: "bytes \<Rightarrow> nat \<Rightarrow> nat \<Rightarrow> u32 \<Rightarrow> (bytes \<times> u32 \<times> u8) list \<Rightarrow> bytes \<times> unit outcome" where
  "sr_init_loop d entries_offset i current_offset [] = (d, Ok ())"
| "sr_init_loop d entries_offset i current_offset ((ident, sz, version) # specs) =
     (let entry = entry_new ident current_offset sz 0 version in
      case wr d (entries_offset + i * segment_entry_size) (entry_bytes entry) of
        Ok d' \<Rightarrow>
          (case word_checked_add current_offset sz of
             Some next_offset \<Rightarrow> sr_init_loop d' entries_offset (i + 1) next_offset specs
           | None \<Rightarrow> (d', Err ArithmeticOverflow))
      | Err e \<Rightarrow> (d, Err e)
      | Trap \<Rightarrow> (d, Trap))"

definition sr_init :: "bytes \<Rightarrow> (bytes \<times> u32 \<times> u8) list \<Rightarrow> bytes \<times> unit outcome" where
  "sr_init d specs =
     (let start = registry_offset in
      if length specs > max_registry_segments then (d, Err InvalidArgument)
      else if duplicate_ids specs then (d, Err InvalidArgument)
      else
        let count = length specs;
            entries_offset = start + registry_header_size;
            data_region = entries_offset + count * segment_entry_size in
        if length d < data_region then (d, Err AccountDataTooSmall)
        else
          (case wr d start [word_of_nat count, word_of_nat (count div 256), 0, 0] of
             Ok d' \<Rightarrow> sr_init_loop d' entries_offset 0 (word_of_nat data_region) specs
           | Err e \<Rightarrow> (d, Err e)
           | Trap \<Rightarrow> (d, Trap)))"

section \<open>The mutable registry\<close>

definition sr_from_account_mut :: "bytes \<Rightarrow> seg_registry outcome" where
  "sr_from_account_mut d = sr_from_account d"

text \<open>References: the address of an entry, the start and length of a segment.\<close>

definition sr_entry_mut :: "seg_registry \<Rightarrow> nat \<Rightarrow> nat outcome" where
  "sr_entry_mut r index =
     fail_if (index \<ge> sr_count r) InvalidArgument (Ok (sr_entries_offset r + index * segment_entry_size))"

function sr_find_mut_loop :: "seg_registry \<Rightarrow> bytes \<Rightarrow> nat \<Rightarrow> (nat \<times> nat) outcome" where
  "sr_find_mut_loop r ident i =
     (if i < sr_count r then
        let at = sr_entries_offset r + i * segment_entry_size in
        obind (entry_at (sr_data r) at) (\<lambda>e.
        if se_id e = ident then Ok (i, at) else sr_find_mut_loop r ident (i + 1))
      else Err InvalidArgument)"
  by pat_completeness auto
termination by (relation "measure (\<lambda>(r, ident, i). sr_count r - i)") auto

declare sr_find_mut_loop.simps [simp del]

definition sr_find_mut :: "seg_registry \<Rightarrow> bytes \<Rightarrow> (nat \<times> nat) outcome" where
  "sr_find_mut r ident = sr_find_mut_loop r ident 0"

definition sr_segment_data_mut :: "seg_registry \<Rightarrow> bytes \<Rightarrow> (nat \<times> nat) outcome" where
  "sr_segment_data_mut r ident =
     (let lowest = sr_data_region_offset r in
      obind (sr_find_mut r ident) (\<lambda>(_, at). obind (entry_at (sr_data r) at) (\<lambda>e.
      fail_if (entry_is_locked e \<or> entry_is_frozen e) InvalidAccountData
        (fail_if (is_immutable_after_init (entry_role e)) InvalidAccountData
          (let start = unat (entry_offset e); sz = unat (entry_size e); finish = start + sz in
           fail_if (start < lowest) InvalidAccountData
             (fail_if (finish > length (sr_data r)) AccountDataTooSmall
               (Ok (start, finish - start))))))))"

definition sr_segment_data_mut_unchecked :: "seg_registry \<Rightarrow> bytes \<Rightarrow> (nat \<times> nat) outcome" where
  "sr_segment_data_mut_unchecked r ident =
     (let lowest = sr_data_region_offset r in
      obind (sr_find_mut r ident) (\<lambda>(_, at). obind (entry_at (sr_data r) at) (\<lambda>e.
      fail_if (entry_is_locked e \<or> entry_is_frozen e) InvalidAccountData
        (let start = unat (entry_offset e); sz = unat (entry_size e); finish = start + sz in
         fail_if (start < lowest) InvalidAccountData
           (fail_if (finish > length (sr_data r)) AccountDataTooSmall
             (Ok (start, finish - start)))))))"

definition sr_segment_overlay_mut :: "nat \<Rightarrow> seg_registry \<Rightarrow> bytes \<Rightarrow> (nat \<times> nat) outcome" where
  "sr_segment_overlay_mut sz r ident =
     obind (sr_segment_data_mut r ident) (\<lambda>(start, n). fail_if (n < sz) AccountDataTooSmall (Ok (start, sz)))"

text \<open>A segment as a collection: the collection's constructor on the borrowed slice.\<close>

definition sr_segment_fixed_vec :: "nat \<Rightarrow> seg_registry \<Rightarrow> bytes \<Rightarrow> view outcome" where
  "sr_segment_fixed_vec sz r ident =
     obind (sr_segment_data_mut r ident) (\<lambda>(start, n). fv_from_bytes sz (bslice start n (sr_data r)))"
definition sr_segment_sorted_vec :: "nat \<Rightarrow> seg_registry \<Rightarrow> bytes \<Rightarrow> view outcome" where
  "sr_segment_sorted_vec sz r ident =
     obind (sr_segment_data_mut r ident) (\<lambda>(start, n). sv_from_bytes sz (bslice start n (sr_data r)))"
definition sr_segment_ring_buffer :: "nat \<Rightarrow> seg_registry \<Rightarrow> bytes \<Rightarrow> view outcome" where
  "sr_segment_ring_buffer sz r ident =
     obind (sr_segment_data_mut r ident) (\<lambda>(start, n). rb_from_bytes sz (bslice start n (sr_data r)))"
definition sr_segment_slot_map :: "nat \<Rightarrow> seg_registry \<Rightarrow> bytes \<Rightarrow> view outcome" where
  "sr_segment_slot_map sz r ident =
     obind (sr_segment_data_mut r ident) (\<lambda>(start, n). sm_from_bytes sz (bslice start n (sr_data r)))"
definition sr_segment_journal :: "nat \<Rightarrow> seg_registry \<Rightarrow> bytes \<Rightarrow> view outcome" where
  "sr_segment_journal sz r ident =
     obind (sr_segment_data_mut r ident) (\<lambda>(start, n). jn_from_bytes sz (bslice start n (sr_data r)))"
definition sr_segment_slab :: "nat \<Rightarrow> seg_registry \<Rightarrow> bytes \<Rightarrow> view outcome" where
  "sr_segment_slab sz r ident =
     obind (sr_segment_data_mut r ident) (\<lambda>(start, n). slab_from_bytes sz (bslice start n (sr_data r)))"

definition sr_update_flags :: "seg_registry \<Rightarrow> bytes \<Rightarrow> (u16 \<Rightarrow> u16) \<Rightarrow> seg_registry outcome" where
  "sr_update_flags r ident f =
     obind (sr_find_mut r ident) (\<lambda>(_, at). obind (entry_at (sr_data r) at) (\<lambda>e.
     obind (entry_set_flags (sr_data r) at (f (entry_flags e))) (\<lambda>d. Ok (r\<lparr>sr_data := d\<rparr>))))"

definition sr_freeze_segment :: "seg_registry \<Rightarrow> bytes \<Rightarrow> seg_registry outcome" where
  "sr_freeze_segment r ident = sr_update_flags r ident (\<lambda>flags. flags OR seg_flag_frozen)"
definition sr_unfreeze_segment :: "seg_registry \<Rightarrow> bytes \<Rightarrow> seg_registry outcome" where
  "sr_unfreeze_segment r ident = sr_update_flags r ident (\<lambda>flags. flags AND NOT seg_flag_frozen)"
definition sr_lock_segment :: "seg_registry \<Rightarrow> bytes \<Rightarrow> seg_registry outcome" where
  "sr_lock_segment r ident = sr_update_flags r ident (\<lambda>flags. flags OR seg_flag_locked)"

text \<open>The client's copy into a borrowed segment: as much of its bytes as the segment holds.\<close>

definition sr_store :: "seg_registry \<Rightarrow> nat \<times> nat \<Rightarrow> bytes \<Rightarrow> seg_registry outcome" where
  "sr_store r ref x = obind (wr (sr_data r) (fst ref) (take (snd ref) x)) (\<lambda>d. Ok (r\<lparr>sr_data := d\<rparr>))"

section \<open>Reading the table\<close>

definition sr_ok :: "seg_registry \<Rightarrow> bool" where
  "sr_ok r \<longleftrightarrow> sr_entries_offset r = 20 \<and> sr_count r \<le> 16 \<and> 20 + sr_count r * 16 \<le> length (sr_data r)"

definition entry_of :: "seg_registry \<Rightarrow> nat \<Rightarrow> segment_entry" where
  "entry_of r i = entry_cast (bslice (20 + i * 16) 16 (sr_data r))"

lemmas seg_consts = segment_entry_size_def registry_header_size_def registry_offset_def max_registry_segments_def

lemma sr_from_account_ok: "sr_from_account d = Ok r \<Longrightarrow> sr_ok r \<and> sr_data r = d"
  by (auto simp: sr_from_account_def Let_def seg_consts obind_Ok_iff sr_ok_def split: if_splits)

lemma sr_from_account_safe: "sr_from_account d \<noteq> Trap"
  by (simp add: sr_from_account_def Let_def seg_consts)

lemma entry_room:
  assumes "sr_ok r" and "i < sr_count r"
  shows "20 + i * 16 + 16 \<le> 20 + sr_count r * 16" and "20 + i * 16 + 16 \<le> length (sr_data r)"
proof -
  have "Suc i * 16 \<le> sr_count r * 16" using assms(2) by (intro mult_le_mono1) simp
  then show "20 + i * 16 + 16 \<le> 20 + sr_count r * 16" by simp
  then show "20 + i * 16 + 16 \<le> length (sr_data r)" using assms(1) by (simp add: sr_ok_def)
qed

lemma entry_at_table:
  assumes "sr_ok r" and "i < sr_count r"
  shows "entry_at (sr_data r) (sr_entries_offset r + i * segment_entry_size) = Ok (entry_of r i)"
  using assms(1) entry_room(2) [OF assms] by (simp add: sr_ok_def entry_at_def entry_of_def seg_consts)

definition position_of :: "seg_registry \<Rightarrow> bytes \<Rightarrow> nat option" where
  "position_of r ident = List.find (\<lambda>i. se_id (entry_of r i) = ident) [0..<sr_count r]"

lemma find_loops:
  assumes "sr_ok r" and "i \<le> sr_count r"
  shows "sr_find_loop r ident i = (case List.find (\<lambda>i. se_id (entry_of r i) = ident) [i..<sr_count r] of
      None \<Rightarrow> Err InvalidArgument | Some k \<Rightarrow> Ok (k, entry_of r k)) \<and>
    sr_find_mut_loop r ident i = (case List.find (\<lambda>i. se_id (entry_of r i) = ident) [i..<sr_count r] of
      None \<Rightarrow> Err InvalidArgument | Some k \<Rightarrow> Ok (k, 20 + k * 16))"
  using assms(2)
proof (induction "sr_count r - i" arbitrary: i)
  case 0
  then show ?case by (simp add: sr_find_loop.simps sr_find_mut_loop.simps)
next
  case (Suc n)
  then have i: "i < sr_count r" by simp
  then have l: "[i..<sr_count r] = i # [Suc i..<sr_count r]" by (rule upt_conv_Cons)
  have base: "sr_entries_offset r = 20" using assms(1) by (simp add: sr_ok_def)
  show ?case
    using Suc.hyps(1) [of "Suc i"] Suc.hyps(2) i entry_at_table [OF assms(1) i]
    by (subst sr_find_loop.simps, subst sr_find_mut_loop.simps)
      (simp add: l Let_def base segment_entry_size_def)
qed

lemma find_eq:
  assumes "sr_ok r"
  shows "sr_find r ident = (case position_of r ident of None \<Rightarrow> Err InvalidArgument | Some k \<Rightarrow> Ok (k, entry_of r k))"
    and "sr_find_mut r ident = (case position_of r ident of None \<Rightarrow> Err InvalidArgument | Some k \<Rightarrow> Ok (k, 20 + k * 16))"
  using find_loops [OF assms, of 0 ident] by (simp_all add: sr_find_def sr_find_mut_def position_of_def)

lemma position_of_Some: "position_of r ident = Some k \<Longrightarrow> k < sr_count r \<and> se_id (entry_of r k) = ident"
  by (auto simp: position_of_def find_Some_iff)

section \<open>One call\<close>

definition locked_at :: "seg_registry \<Rightarrow> nat \<Rightarrow> bool" where
  "locked_at r i \<longleftrightarrow> entry_is_locked (entry_of r i)"

definition segment_range :: "segment_entry \<Rightarrow> nat set" where
  "segment_range e = {unat (entry_offset e) ..< unat (entry_offset e) + unat (entry_size e)}"

text \<open>What no call changes: everything of the table but its flags, and there no lock is lost.\<close>

definition keeps_table :: "seg_registry \<Rightarrow> seg_registry \<Rightarrow> bool" where
  "keeps_table r r' \<longleftrightarrow> sr_ok r' \<and> sr_count r' = sr_count r \<and> length (sr_data r') = length (sr_data r) \<and>
     bslice 0 20 (sr_data r') = bslice 0 20 (sr_data r) \<and>
     (\<forall>i < sr_count r. entry_of r' i = entry_of r i\<lparr>flags_bytes := flags_bytes (entry_of r' i)\<rparr> \<and>
        (locked_at r i \<longrightarrow> locked_at r' i))"

lemma entry_cast_flags:
  assumes "length b = 16" and "length x = 2"
  shows "entry_cast (bsplice 12 x b) = (entry_cast b)\<lparr>flags_bytes := x\<rparr>"
proof -
  have fits: "12 + length x \<le> length b" using assms by simp
  show ?thesis
    using assms fits
    by (simp add: entry_cast_def bslice_bsplice_disjoint [OF fits] bslice_bsplice_eq [OF _ assms(2)] bsplice_nth)
qed

lemma entry_of_flags:
  assumes ok: "sr_ok r" and k: "k < sr_count r" and j: "j < sr_count r" and x: "length x = 2"
  shows "entry_of (r\<lparr>sr_data := bsplice (20 + k * 16 + 12) x (sr_data r)\<rparr>) j =
    (if j = k then (entry_of r k)\<lparr>flags_bytes := x\<rparr> else entry_of r j)"
proof (cases "j = k")
  case True
  let ?b = "bslice (20 + k * 16) 16 (sr_data r)"
  have room: "20 + k * 16 + 16 \<le> length (sr_data r)" using entry_room(2) [OF ok k] .
  have len: "length ?b = 16" "length (bsplice 12 x ?b) = 16" using room x by simp_all
  have "bsplice (20 + k * 16 + 12) x (sr_data r) = bsplice (20 + k * 16) (bsplice 12 x ?b) (sr_data r)"
    using room x by (intro bsplice_within) simp_all
  then have "bslice (20 + k * 16) 16 (bsplice (20 + k * 16 + 12) x (sr_data r)) = bsplice 12 x ?b"
    using room len by (simp add: bslice_bsplice_eq)
  then show ?thesis using True len x by (simp add: entry_of_def entry_cast_flags)
next
  case False
  then have "20 + j * 16 + 16 \<le> 20 + k * 16 + 12 \<or> 20 + k * 16 + 12 + length x \<le> 20 + j * 16" using x by arith
  then show ?thesis using False entry_room(2) [OF ok k] x by (simp add: entry_of_def bslice_bsplice_disjoint)
qed

lemma entry_of_data:
  assumes "sr_ok r" and "j < sr_count r" and "20 + sr_count r * 16 \<le> start" and "start + length x \<le> length (sr_data r)"
  shows "entry_of (r\<lparr>sr_data := bsplice start x (sr_data r)\<rparr>) j = entry_of r j"
  using entry_room [OF assms(1,2)] assms by (simp add: entry_of_def bslice_bsplice_disjoint)

lemma lock_bit: "entry_is_locked e \<longleftrightarrow> bit (entry_flags e) 0"
  by (simp add: entry_is_locked_def seg_flag_locked_def and_one_eq bit_0 odd_iff_mod_2_eq_one)

lemma entry_flags_put [simp]: "entry_flags (e\<lparr>flags_bytes := le_enc 2 (unat f)\<rparr>) = f"
proof -
  have "unat f mod 65536 = unat f" using unsigned_less [of f, where 'a = nat] by simp
  then show ?thesis by (simp add: entry_flags_def le_val_enc)
qed

lemma update_flags_spec:
  assumes ok: "sr_ok r" and mono: "\<And>f. bit f 0 \<Longrightarrow> bit (g f) 0"
  shows "sr_update_flags r ident g \<noteq> Trap"
    and "sr_update_flags r ident g = Ok r' \<Longrightarrow> keeps_table r r' \<and>
      (\<forall>a n. 20 + sr_count r * 16 \<le> a \<longrightarrow> bslice a n (sr_data r') = bslice a n (sr_data r))"
proof -
  have eq: "sr_update_flags r ident g = (case position_of r ident of None \<Rightarrow> Err InvalidArgument
    | Some k \<Rightarrow> Ok (r\<lparr>sr_data := bsplice (20 + k * 16 + 12) (le_enc 2 (unat (g (entry_flags (entry_of r k))))) (sr_data r)\<rparr>))"
  proof (cases "position_of r ident")
    case (Some k)
    then have k: "k < sr_count r" using position_of_Some by blast
    show ?thesis
      using entry_at_table [OF ok k] entry_room(2) [OF ok k] ok Some
      by (simp add: sr_update_flags_def find_eq [OF ok] entry_set_flags_def sr_ok_def segment_entry_size_def)
  qed (simp add: sr_update_flags_def find_eq [OF ok])
  then show "sr_update_flags r ident g \<noteq> Trap" by (simp split: option.split)
  assume "sr_update_flags r ident g = Ok r'"
  then obtain k where k: "position_of r ident = Some k"
    and r': "r' = r\<lparr>sr_data := bsplice (20 + k * 16 + 12) (le_enc 2 (unat (g (entry_flags (entry_of r k))))) (sr_data r)\<rparr>"
    unfolding eq by (auto split: option.splits)
  then have kc: "k < sr_count r" using position_of_Some by blast
  note room = entry_room [OF ok kc]
  have ent: "entry_of r' j = (if j = k
      then (entry_of r k)\<lparr>flags_bytes := le_enc 2 (unat (g (entry_flags (entry_of r k))))\<rparr> else entry_of r j)"
    if "j < sr_count r" for j
    unfolding r' using entry_of_flags [OF ok kc that length_le_enc] .
  have sel: "sr_count r' = sr_count r" "sr_entries_offset r' = sr_entries_offset r"
    "sr_data r' = bsplice (20 + k * 16 + 12) (le_enc 2 (unat (g (entry_flags (entry_of r k))))) (sr_data r)"
    by (simp_all add: r')
  have "keeps_table r r'"
    using ok room mono ent by (auto simp: keeps_table_def sel sr_ok_def locked_at_def lock_bit bslice_bsplice_disjoint)
  moreover have "bslice a n (sr_data r') = bslice a n (sr_data r)" if "20 + sr_count r * 16 \<le> a" for a n
    using room that by (simp add: sel bslice_bsplice_disjoint)
  ultimately show "keeps_table r r' \<and>
      (\<forall>a n. 20 + sr_count r * 16 \<le> a \<longrightarrow> bslice a n (sr_data r') = bslice a n (sr_data r))" by blast
qed

lemma store_spec:
  assumes ok: "sr_ok r" and start: "20 + sr_count r * 16 \<le> start" and fits: "start + n \<le> length (sr_data r)"
  shows "sr_store r (start, n) x = Ok (r\<lparr>sr_data := bsplice start (take n x) (sr_data r)\<rparr>)"
    and "keeps_table r (r\<lparr>sr_data := bsplice start (take n x) (sr_data r)\<rparr>)"
proof -
  have fits': "start + length (take n x) \<le> length (sr_data r)" using fits by simp
  show "sr_store r (start, n) x = Ok (r\<lparr>sr_data := bsplice start (take n x) (sr_data r)\<rparr>)"
    unfolding sr_store_def using fits' by (simp del: length_take)
  show "keeps_table r (r\<lparr>sr_data := bsplice start (take n x) (sr_data r)\<rparr>)"
    using ok start fits' entry_of_data [OF ok _ start fits']
    by (simp add: keeps_table_def sr_ok_def locked_at_def bslice_bsplice_disjoint del: length_take)
qed

text \<open>What a granted write reference is: the range of an entry that is neither locked nor frozen.\<close>

lemma data_mut_spec:
  assumes "sr_ok r"
  shows "sr_segment_data_mut r ident \<noteq> Trap" and "sr_segment_data_mut_unchecked r ident \<noteq> Trap"
    and "sr_segment_data_mut r ident = Ok ref \<Longrightarrow> sr_segment_data_mut_unchecked r ident = Ok ref"
    and "sr_segment_data_mut_unchecked r ident = Ok (start, n) \<Longrightarrow>
      (\<exists>k < sr_count r. \<not> locked_at r k \<and> segment_range (entry_of r k) = {start ..< start + n}) \<and>
      20 + sr_count r * 16 \<le> start \<and> start + n \<le> length (sr_data r)"
proof -
  have at: "entry_at (sr_data r) (20 + k * 16) = Ok (entry_of r k)" if "position_of r ident = Some k" for k
    using entry_at_table [OF assms] position_of_Some [OF that] assms by (simp add: sr_ok_def segment_entry_size_def)
  note eqs = sr_segment_data_mut_def sr_segment_data_mut_unchecked_def find_eq [OF assms] Let_def
  show "sr_segment_data_mut r ident \<noteq> Trap" and "sr_segment_data_mut_unchecked r ident \<noteq> Trap"
    and "sr_segment_data_mut r ident = Ok ref \<Longrightarrow> sr_segment_data_mut_unchecked r ident = Ok ref"
    by (auto simp: eqs at split: option.splits if_splits)
  assume ref: "sr_segment_data_mut_unchecked r ident = Ok (start, n)"
  then obtain k where k: "position_of r ident = Some k" by (auto simp: eqs split: option.splits)
  show "(\<exists>k < sr_count r. \<not> locked_at r k \<and> segment_range (entry_of r k) = {start ..< start + n}) \<and>
      20 + sr_count r * 16 \<le> start \<and> start + n \<le> length (sr_data r)"
    using ref position_of_Some [OF k] assms
    by (auto simp: eqs at [OF k] k locked_at_def segment_range_def sr_data_region_offset_def sr_ok_def segment_entry_size_def
        split: if_splits intro!: exI [of _ k])
qed

section \<open>Sequences of calls\<close>

datatype segment_call =
  SWrite bytes bytes | SWriteUnchecked bytes bytes | SFreeze bytes | SUnfreeze bytes | SLock bytes | SRead bytes | SSetFlags bytes u16

fun sr_exec :: "seg_registry \<Rightarrow> segment_call \<Rightarrow> (seg_registry \<times> answer) outcome" where
  "sr_exec r (SWrite ident x) = unit_call (obind (sr_segment_data_mut r ident) (\<lambda>ref. sr_store r ref x))"
| "sr_exec r (SWriteUnchecked ident x) =
     unit_call (obind (sr_segment_data_mut_unchecked r ident) (\<lambda>ref. sr_store r ref x))"
| "sr_exec r (SFreeze ident) = unit_call (sr_freeze_segment r ident)"
| "sr_exec r (SUnfreeze ident) = unit_call (sr_unfreeze_segment r ident)"
| "sr_exec r (SLock ident) = unit_call (sr_lock_segment r ident)"
| "sr_exec r (SRead ident) = read_call r (sr_segment_data r ident) RBytes"
| "sr_exec r (SSetFlags ident f) = unit_call (sr_update_flags r ident (\<lambda>_. f))"

text \<open>
  \<open>SSetFlags\<close> is \<^verbatim>\<open>find_mut\<close> followed by \<^verbatim>\<open>set_flags\<close> on the entry it lends, the one public way to clear
  a lock. A call keeps the locks when it does not write flags without the lock bit.
\<close>

definition keeps_lock_bit :: "segment_call \<Rightarrow> bool" where
  "keeps_lock_bit c \<longleftrightarrow> (case c of SSetFlags _ f \<Rightarrow> bit f 0 | _ \<Rightarrow> True)"

text \<open>A locked segment in the data region that no unlocked entry overlaps.\<close>

definition sealed :: "seg_registry \<Rightarrow> nat \<Rightarrow> bool" where
  "sealed r i \<longleftrightarrow> i < sr_count r \<and> locked_at r i \<and>
     20 + sr_count r * 16 \<le> unat (entry_offset (entry_of r i)) \<and>
     (\<forall>j < sr_count r. \<not> locked_at r j \<longrightarrow> segment_range (entry_of r j) \<inter> segment_range (entry_of r i) = {})"

definition content_of :: "seg_registry \<Rightarrow> nat \<Rightarrow> bytes" where
  "content_of r i = bslice (unat (entry_offset (entry_of r i))) (unat (entry_size (entry_of r i))) (sr_data r)"

definition step_ok :: "seg_registry \<Rightarrow> seg_registry \<Rightarrow> bool" where
  "step_ok r r' \<longleftrightarrow> keeps_table r r' \<and> (\<forall>i. sealed r i \<longrightarrow> sealed r' i \<and> content_of r' i = content_of r i)"

lemma keeps_table_fields:
  assumes "keeps_table r r'" and "i < sr_count r"
  shows "entry_offset (entry_of r' i) = entry_offset (entry_of r i)" "entry_size (entry_of r' i) = entry_size (entry_of r i)"
    "se_id (entry_of r' i) = se_id (entry_of r i)" "se_version (entry_of r' i) = se_version (entry_of r i)"
    "segment_range (entry_of r' i) = segment_range (entry_of r i)"
proof -
  have "entry_of r' i = entry_of r i\<lparr>flags_bytes := flags_bytes (entry_of r' i)\<rparr>"
    using assms by (simp add: keeps_table_def)
  then obtain x where x: "entry_of r' i = entry_of r i\<lparr>flags_bytes := x\<rparr>" by blast
  show "entry_offset (entry_of r' i) = entry_offset (entry_of r i)" "entry_size (entry_of r' i) = entry_size (entry_of r i)"
    "se_id (entry_of r' i) = se_id (entry_of r i)" "se_version (entry_of r' i) = se_version (entry_of r i)"
    "segment_range (entry_of r' i) = segment_range (entry_of r i)"
    unfolding x by (simp_all add: entry_offset_def entry_size_def segment_range_def)
qed

lemma keeps_table_trans:
  assumes a: "keeps_table r r'" and b: "keeps_table r' r''"
  shows "keeps_table r r''"
  unfolding keeps_table_def
proof (intro conjI allI impI)
  show "sr_ok r''" "sr_count r'' = sr_count r" "length (sr_data r'') = length (sr_data r)"
    "bslice 0 20 (sr_data r'') = bslice 0 20 (sr_data r)"
    using a b by (simp_all add: keeps_table_def)
  fix i assume i: "i < sr_count r"
  then have "entry_of r' i = entry_of r i\<lparr>flags_bytes := flags_bytes (entry_of r' i)\<rparr>"
    and "entry_of r'' i = entry_of r' i\<lparr>flags_bytes := flags_bytes (entry_of r'' i)\<rparr>"
    using a b by (simp_all add: keeps_table_def)
  then obtain x y where x: "entry_of r' i = entry_of r i\<lparr>flags_bytes := x\<rparr>"
    and y: "entry_of r'' i = entry_of r' i\<lparr>flags_bytes := y\<rparr>" by blast
  show "entry_of r'' i = entry_of r i\<lparr>flags_bytes := flags_bytes (entry_of r'' i)\<rparr>" unfolding y x by simp
  show "locked_at r i \<Longrightarrow> locked_at r'' i" using a b i by (simp add: keeps_table_def)
qed

lemma sealed_keeps: "keeps_table r r' \<Longrightarrow> sealed r i \<Longrightarrow> sealed r' i"
  unfolding sealed_def by (metis (no_types, lifting) keeps_table_def keeps_table_fields(1) keeps_table_fields(5))

lemma content_keeps:
  assumes "keeps_table r r'" and "i < sr_count r"
    and "bslice (unat (entry_offset (entry_of r i))) (unat (entry_size (entry_of r i))) (sr_data r') = content_of r i"
  shows "content_of r' i = content_of r i"
  using assms by (simp add: content_of_def keeps_table_fields)

lemma store_elsewhere:
  assumes "start + n \<le> length d" and "{start ..< start + n} \<inter> {off ..< off + sz} = {}"
  shows "bslice off sz (bsplice start (take n x) d) = bslice off sz d"
proof (cases "sz = 0 \<or> take n x = []")
  case True
  moreover have "bsplice start [] d = d" by (simp add: bsplice_def)
  ultimately show ?thesis by (auto simp: bslice_def simp del: take_eq_Nil)
next
  case False
  then have "off + sz \<le> start \<or> start + n \<le> off" using assms(2) by (auto simp: min_def max_def split: if_splits)
  then show ?thesis using assms(1) by (intro bslice_bsplice_disjoint) auto
qed

lemma store_step_ok:
  assumes ok: "sr_ok r" and ref: "sr_segment_data_mut_unchecked r ident = Ok (start, n)"
  shows "\<exists>r'. sr_store r (start, n) x = Ok r' \<and> step_ok r r'"
proof -
  obtain k where k: "k < sr_count r" "\<not> locked_at r k" "segment_range (entry_of r k) = {start ..< start + n}"
    and at: "20 + sr_count r * 16 \<le> start" "start + n \<le> length (sr_data r)"
    using data_mut_spec(4) [OF ok ref] by blast
  let ?r' = "r\<lparr>sr_data := bsplice start (take n x) (sr_data r)\<rparr>"
  note keeps = store_spec(2) [OF ok at, of x]
  have "content_of ?r' i = content_of r i" if "sealed r i" for i
  proof (rule content_keeps [OF keeps])
    show "i < sr_count r" using that by (simp add: sealed_def)
    have "segment_range (entry_of r k) \<inter> segment_range (entry_of r i) = {}" using that k by (auto simp: sealed_def)
    then have "{start ..< start + n} \<inter> {unat (entry_offset (entry_of r i)) ..<
        unat (entry_offset (entry_of r i)) + unat (entry_size (entry_of r i))} = {}"
      unfolding k(3) segment_range_def [of "entry_of r i"] .
    then show "bslice (unat (entry_offset (entry_of r i))) (unat (entry_size (entry_of r i))) (sr_data ?r') = content_of r i"
      using store_elsewhere [OF at(2)] by (simp add: content_of_def)
  qed
  then show ?thesis using store_spec(1) [OF ok at] keeps sealed_keeps [OF keeps] by (simp add: step_ok_def)
qed

lemma flags_step_ok:
  assumes ok: "sr_ok r" and mono: "\<And>f. bit f 0 \<Longrightarrow> bit (g f) 0" and upd: "sr_update_flags r ident g = Ok r'"
  shows "step_ok r r'"
proof -
  have keeps: "keeps_table r r'"
    and rest: "20 + sr_count r * 16 \<le> a \<Longrightarrow> bslice a n (sr_data r') = bslice a n (sr_data r)" for a n
    using update_flags_spec(2) [OF ok mono upd] by blast+
  have "content_of r' i = content_of r i" if "sealed r i" for i
    using that rest by (intro content_keeps [OF keeps]) (auto simp: sealed_def content_of_def)
  then show ?thesis using keeps sealed_keeps [OF keeps] by (simp add: step_ok_def)
qed

lemma lock_kept:
  "bit f 0 \<Longrightarrow> bit (f OR seg_flag_frozen) 0" "bit f 0 \<Longrightarrow> bit (f AND NOT seg_flag_frozen) 0"
  "bit f 0 \<Longrightarrow> bit (f OR seg_flag_locked) 0" for f :: u16
  by (simp_all add: seg_flag_frozen_def seg_flag_locked_def bit_simps)

lemma sr_segment_data_eq:
  assumes "sr_ok r"
  shows "sr_segment_data r ident =
    (case position_of r ident of None \<Rightarrow> Err InvalidArgument
     | Some k \<Rightarrow>
        fail_if (unat (entry_offset (entry_of r k)) < 20 + sr_count r * 16) InvalidAccountData
          (fail_if (unat (entry_offset (entry_of r k)) + unat (entry_size (entry_of r k)) > length (sr_data r))
             AccountDataTooSmall (Ok (content_of r k))))"
  using assms
  by (auto simp: sr_segment_data_def find_eq [OF assms] Let_def sr_data_region_offset_def sr_ok_def segment_entry_size_def
      content_of_def split: option.split)

lemma unit_call_iff:
  "unit_call m = Trap \<longleftrightarrow> m = Trap" "unit_call m = Ok (s, a) \<longleftrightarrow> m = Ok s \<and> a = RUnit"
  by (cases m; auto simp: unit_call_def)+

lemma sr_exec_step:
  assumes ok: "sr_ok r" and keeps: "keeps_lock_bit c"
  shows "sr_exec r c \<noteq> Trap" and "sr_exec r c = Ok (r', a) \<Longrightarrow> step_ok r r'"
proof -
  have same: "step_ok r r" using ok by (simp add: step_ok_def keeps_table_def)
  note flags = sr_freeze_segment_def sr_unfreeze_segment_def sr_lock_segment_def
  have upd: "unit_call (sr_update_flags r ident g) \<noteq> Trap \<and>
      (\<forall>r' a. unit_call (sr_update_flags r ident g) = Ok (r', a) \<longrightarrow> step_ok r r')"
    if "\<And>f. bit f 0 \<Longrightarrow> bit (g f) 0" for ident g
    using update_flags_spec(1) [OF ok that] flags_step_ok [OF ok that] by (simp add: unit_call_iff)
  have st: "unit_call (obind m (\<lambda>ref. sr_store r ref x)) \<noteq> Trap \<and>
      (\<forall>r' a. unit_call (obind m (\<lambda>ref. sr_store r ref x)) = Ok (r', a) \<longrightarrow> step_ok r r')"
    if "m \<noteq> Trap" and "\<And>ref. m = Ok ref \<Longrightarrow> sr_segment_data_mut_unchecked r ident = Ok ref" for m ident x
  proof (cases m)
    case (Ok ref)
    note hyp = that(2) [OF Ok]
    obtain start n where ref: "ref = (start, n)" "sr_segment_data_mut_unchecked r ident = Ok (start, n)"
      using hyp by (cases ref) blast
    then show ?thesis using store_step_ok [OF ok ref(2), of x] Ok by (auto simp: unit_call_iff)
  qed (use that(1) in \<open>simp_all add: unit_call_def\<close>)
  have "sr_exec r c \<noteq> Trap \<and> (\<forall>r' a. sr_exec r c = Ok (r', a) \<longrightarrow> step_ok r r')"
  proof (cases c)
    case (SWrite ident x)
    then show ?thesis using st [OF data_mut_spec(1) [OF ok, of ident] data_mut_spec(3) [OF ok, of ident]] by simp
  next
    case (SWriteUnchecked ident x)
    then show ?thesis using st [OF data_mut_spec(2) [OF ok, of ident]] by simp
  next
    case (SRead ident)
    then show ?thesis using same by (auto simp: call_defs sr_segment_data_eq [OF ok] split: option.split)
  next
    case (SFreeze ident)
    show ?thesis unfolding SFreeze sr_exec.simps flags by (rule upd) (rule lock_kept)
  next
    case (SUnfreeze ident)
    show ?thesis unfolding SUnfreeze sr_exec.simps flags by (rule upd) (rule lock_kept)
  next
    case (SLock ident)
    show ?thesis unfolding SLock sr_exec.simps flags by (rule upd) (rule lock_kept)
  next
    case (SSetFlags ident f)
    then show ?thesis using keeps upd [of "\<lambda>_. f" ident] by (simp add: keeps_lock_bit_def)
  qed
  then show "sr_exec r c \<noteq> Trap" and "sr_exec r c = Ok (r', a) \<Longrightarrow> step_ok r r'" by blast+
qed

interpretation sr_runs: safe_calls sr_exec "\<lambda>r. step_ok first r" keeps_lock_bit for first
proof
  fix r c r' a
  assume r: "step_ok first r" and c: "keeps_lock_bit c"
  then have ok: "sr_ok r" by (simp add: step_ok_def keeps_table_def)
  show "sr_exec r c \<noteq> Trap" using sr_exec_step(1) [OF ok c] .
  show "sr_exec r c = Ok (r', a) \<Longrightarrow> step_ok first r'"
    using sr_exec_step(2) [OF ok c] r keeps_table_trans by (simp add: step_ok_def) blast
qed

lemma step_ok_data:
  assumes "step_ok r r'" and "sr_ok r" and "sealed r i" and "position_of r ident = Some i"
  shows "sr_segment_data r' ident = sr_segment_data r ident"
proof -
  have k: "keeps_table r r'" and c: "content_of r' i = content_of r i" and i: "i < sr_count r"
    using assms by (auto simp: step_ok_def sealed_def)
  then have r': "sr_ok r'" "sr_count r' = sr_count r" "length (sr_data r') = length (sr_data r)"
    by (simp_all add: keeps_table_def)
  have "position_of r' ident = position_of r ident"
    unfolding position_of_def r' using keeps_table_fields(3) [OF k] by (intro find_cong) auto
  then show ?thesis
    using keeps_table_fields [OF k i] c r' assms(2,4) by (simp add: sr_segment_data_eq)
qed

section \<open>What init writes\<close>

fun init_entries :: "u32 \<Rightarrow> (bytes \<times> u32 \<times> u8) list \<Rightarrow> segment_entry list" where
  "init_entries cur [] = []"
| "init_entries cur ((ident, sz, version) # specs) = entry_new ident cur sz 0 version # init_entries (cur + sz) specs"

definition total_size :: "(bytes \<times> u32 \<times> u8) list \<Rightarrow> nat" where
  "total_size specs = sum_list (List.map (\<lambda>(_, sz, _). unat sz) specs)"

abbreviation good_ids :: "(bytes \<times> u32 \<times> u8) list \<Rightarrow> bool" where
  "good_ids \<equiv> list_all (\<lambda>s. length (fst s) = 4)"

lemma length_init_entries [simp]: "length (init_entries cur specs) = length specs"
  by (induction cur specs rule: init_entries.induct) auto

lemma length_entry_new [simp]: "length ident = 4 \<Longrightarrow> length (entry_bytes (entry_new ident off sz flags version)) = 16"
  by (simp add: entry_bytes_def entry_new_def)

lemma length_init_bytes:
  "good_ids specs \<Longrightarrow> length (concat (List.map entry_bytes (init_entries cur specs))) = length specs * 16"
  by (induction cur specs rule: init_entries.induct) auto

lemma init_loop_eq:
  assumes "eo + (i + length specs) * 16 \<le> length d" and "good_ids specs"
  shows "if unat cur + total_size specs < 2 ^ 32
    then sr_init_loop d eo i cur specs =
      (bsplice (eo + i * 16) (concat (List.map entry_bytes (init_entries cur specs))) d, Ok ())
    else snd (sr_init_loop d eo i cur specs) = Err ArithmeticOverflow"
  using assms
proof (induction specs arbitrary: d i cur)
  case Nil
  then show ?case using unsigned_less [of cur, where 'a = nat] by (simp add: total_size_def bsplice_def)
next
  case (Cons s specs)
  obtain ident sz version where s: "s = (ident, sz, version)" by (cases s)
  let ?e = "entry_bytes (entry_new ident cur sz 0 version)"
  let ?d' = "bsplice (eo + i * 16) ?e d"
  have e: "length ?e = 16" and ids: "good_ids specs" using Cons.prems(2) by (simp_all add: s)
  have room: "eo + i * 16 + length ?e \<le> length d" using Cons.prems(1) e by simp
  then have w: "wr d (eo + i * segment_entry_size) ?e = Ok ?d'" by (simp add: segment_entry_size_def)
  have step: "sr_init_loop d eo i cur (s # specs) =
      (if unat cur + unat sz < 2 ^ 32 then sr_init_loop ?d' eo (Suc i) (cur + sz) specs else (?d', Err ArithmeticOverflow))"
    by (simp add: s w word_checked_add_def Let_def)
  have ts: "total_size (s # specs) = unat sz + total_size specs" by (simp add: total_size_def s)
  show ?case
  proof (cases "unat cur + unat sz < 2 ^ 32")
    case True
    then have u: "unat (cur + sz) = unat cur + unat sz" by (intro unat_add_exact) simp
    have "length ?d' = length d" using room by simp
    then have "eo + ((Suc i) + length specs) * 16 \<le> length ?d'" using Cons.prems(1) by simp
    note IH = Cons.IH [OF this ids, of "cur + sz"]
    have "bsplice (eo + (Suc i) * 16) (concat (List.map entry_bytes (init_entries (cur + sz) specs))) ?d' =
        bsplice (eo + i * 16) (?e @ concat (List.map entry_bytes (init_entries (cur + sz) specs))) d"
      using bsplice_append [of "eo + i * 16" ?e "concat (List.map entry_bytes (init_entries (cur + sz) specs))" d]
        Cons.prems(1) e length_init_bytes [OF ids, of "cur + sz"] by (simp add: add.commute add.left_commute)
    then show ?thesis using IH True unfolding step ts u by (simp add: s add.assoc)
  next
    case False
    then show ?thesis unfolding step ts by simp
  qed
qed

lemma duplicate_ids_iff: "duplicate_ids specs \<longleftrightarrow> \<not> distinct (List.map fst specs)"
  by (induction specs) (auto simp: list_ex_iff)

lemma sr_init_eq:
  assumes "good_ids specs"
  shows "if length specs \<le> 16 \<and> distinct (List.map fst specs) \<and> 20 + length specs * 16 \<le> length d \<and>
      20 + length specs * 16 + total_size specs < 2 ^ 32
    then sr_init d specs =
      (bsplice 16 ([word_of_nat (length specs), word_of_nat (length specs div 256), 0, 0] @
         concat (List.map entry_bytes (init_entries (word_of_nat (20 + length specs * 16)) specs))) d, Ok ())
    else \<exists>e. snd (sr_init d specs) = Err e"
proof (cases "length specs \<le> 16 \<and> distinct (List.map fst specs) \<and> 20 + length specs * 16 \<le> length d")
  case True
  let ?n = "length specs"
  let ?h = "[word_of_nat ?n, word_of_nat (?n div 256), 0, 0] :: bytes"
  let ?d = "bsplice 16 ?h d"
  have w: "wr d 16 ?h = Ok ?d" using True by simp
  have u: "unat (word_of_nat (20 + ?n * 16) :: u32) = 20 + ?n * 16" using True by (intro unat_word_of_nat) simp
  have init: "sr_init d specs = sr_init_loop ?d 20 0 (word_of_nat (20 + ?n * 16)) specs"
    using True w by (simp add: sr_init_def Let_def seg_consts duplicate_ids_iff)
  have room: "20 + (0 + ?n) * 16 \<le> length ?d" using True by simp
  have "bsplice (16 + length ?h) y ?d = bsplice 16 (?h @ y) d" if "length y = ?n * 16" for y
    using True that by (intro bsplice_append) simp
  then show ?thesis
    using init_loop_eq [OF room assms, of "word_of_nat (20 + ?n * 16)"] True length_init_bytes [OF assms]
    unfolding init u by (auto split: if_splits)
next
  case False
  then show ?thesis by (auto simp: sr_init_def Let_def seg_consts duplicate_ids_iff)
qed

lemma bslice_prefix: "bslice (length h + a) m (h @ t) = bslice a m t"
  by (simp add: bslice_def)

lemma concat_chunk:
  "\<forall>x \<in> set xs. length x = m \<Longrightarrow> i < length xs \<Longrightarrow> bslice (i * m) m (concat xs) = xs ! i"
proof (induction xs arbitrary: i)
  case (Cons x xs)
  then show ?case by (cases i) (auto simp: bslice_def)
qed simp

lemma entry_cast_bytes:
  "length (se_id e) = 4 \<Longrightarrow> length (offset_bytes e) = 4 \<Longrightarrow> length (size_bytes e) = 4 \<Longrightarrow> length (flags_bytes e) = 2 \<Longrightarrow>
   entry_cast (entry_bytes e) = e"
  by (simp add: entry_cast_def entry_bytes_def bslice_def nth_append)

lemma init_entries_nth:
  assumes "i < length specs" and "unat cur + total_size specs < 2 ^ 32"
  shows "init_entries cur specs ! i =
    entry_new (fst (specs ! i)) (word_of_nat (unat cur + total_size (take i specs))) (fst (snd (specs ! i))) 0 (snd (snd (specs ! i)))"
  using assms
proof (induction specs arbitrary: cur i)
  case (Cons s specs)
  obtain ident sz version where s: "s = (ident, sz, version)" by (cases s)
  have sum: "unat cur + unat sz + total_size specs < 2 ^ 32" using Cons.prems(2) by (simp add: total_size_def s)
  then have u: "unat (cur + sz) = unat cur + unat sz" by (intro unat_add_exact) simp
  show ?case
    using Cons.IH [of _ "cur + sz"] Cons.prems(1) sum
    by (cases i) (simp_all add: s total_size_def u add.assoc)
qed simp

lemma entry_new_parts:
  "length ident = 4 \<Longrightarrow> entry_cast (entry_bytes (entry_new ident off sz flags version)) = entry_new ident off sz flags version"
  by (rule entry_cast_bytes) (simp_all add: entry_new_def)

lemma entry_new_fields:
  "entry_offset (entry_new ident off sz flags version) = off" "entry_size (entry_new ident off sz flags version) = sz"
  "entry_flags (entry_new ident off sz flags version) = flags" "se_id (entry_new ident off sz flags version) = ident"
proof -
  have "unat x mod 2 ^ 32 = unat x" for x :: u32 using unsigned_less [of x, where 'a = nat] by simp
  moreover have "unat x mod 2 ^ 16 = unat x" for x :: u16 using unsigned_less [of x, where 'a = nat] by simp
  ultimately show "entry_offset (entry_new ident off sz flags version) = off"
    "entry_size (entry_new ident off sz flags version) = sz" "entry_flags (entry_new ident off sz flags version) = flags"
    "se_id (entry_new ident off sz flags version) = ident"
    by (simp_all add: entry_new_def entry_offset_def entry_size_def entry_flags_def le_val_enc)
qed

lemma init_registry:
  assumes ids: "good_ids specs" and n: "length specs \<le> 16" and room: "20 + length specs * 16 \<le> length d"
    and sum: "20 + length specs * 16 + total_size specs < 2 ^ 32"
    and d': "d' = bsplice 16 ([word_of_nat (length specs), word_of_nat (length specs div 256), 0, 0] @
         concat (List.map entry_bytes (init_entries (word_of_nat (20 + length specs * 16)) specs))) d"
  shows "\<exists>r. sr_from_account d' = Ok r \<and> sr_ok r \<and> sr_data r = d' \<and> sr_count r = length specs \<and>
    (\<forall>i < length specs. entry_of r i = entry_new (fst (specs ! i))
       (word_of_nat (20 + length specs * 16 + total_size (take i specs))) (fst (snd (specs ! i))) 0 (snd (snd (specs ! i))))"
proof -
  let ?n = "length specs" and ?cur = "word_of_nat (20 + length specs * 16) :: u32"
  let ?es = "init_entries ?cur specs"
  let ?table = "concat (List.map entry_bytes ?es)"
  let ?h = "[word_of_nat ?n, word_of_nat (?n div 256), 0, 0] :: bytes"
  have u: "unat ?cur = 20 + ?n * 16" using n by (intro unat_word_of_nat) simp
  have len: "length ?table = ?n * 16" by (rule length_init_bytes [OF ids])
  have fits: "16 + length (?h @ ?table) \<le> length d" using room len by simp
  have d'_len: "length d' = length d" unfolding d' using fits by simp
  have head: "bslice 16 4 d' = ?h"
    unfolding d' using bslice_bsplice_inside [OF fits, of 16 4] by (simp add: bslice_def)
  have "d' ! (16 + i) = ?h ! i" if "i < 4" for i
    using bslice_nth [of 16 4 d' i] that room d'_len head by simp
  from this [of 0] this [of 1] have count: "d' ! 16 = word_of_nat ?n" "d' ! 17 = word_of_nat (?n div 256)" by simp_all
  have "?n < 256" using n by simp
  then have val: "le_val [word_of_nat ?n, word_of_nat (?n div 256)] = ?n" by (simp add: unat_of_nat_u8)
  let ?r = "\<lparr>sr_data = d', sr_count = ?n, sr_entries_offset = 20\<rparr>"
  have from_account: "sr_from_account d' = Ok ?r"
    using room n d'_len val by (simp add: sr_from_account_def Let_def seg_consts count del: le_val.simps)
  moreover have ok: "sr_ok ?r" using room n d'_len by (simp add: sr_ok_def)
  moreover have "entry_of ?r i = entry_new (fst (specs ! i))
       (word_of_nat (20 + ?n * 16 + total_size (take i specs))) (fst (snd (specs ! i))) 0 (snd (snd (specs ! i)))"
    if i: "i < ?n" for i
  proof -
    have all: "\<forall>x \<in> set (List.map entry_bytes ?es). length x = 16"
      using ids init_entries_nth [of _ specs ?cur] sum u by (auto simp: in_set_conv_nth list_all_length)
    have i16: "20 + i * 16 + 16 \<le> 20 + ?n * 16" using i by (simp add: Suc_leI flip: mult_Suc)
    have "bslice (20 + i * 16) 16 d' = bslice (4 + i * 16) 16 (?h @ ?table)"
      unfolding d' using bslice_bsplice_inside [OF fits, of "20 + i * 16" 16] i16 len by simp
    also have "\<dots> = bslice (i * 16) 16 ?table"
    proof -
      have "length ?h = 4" by simp
      then show ?thesis using bslice_prefix [of ?h "i * 16" 16 ?table] by (simp only:)
    qed
    also have "\<dots> = entry_bytes (?es ! i)" using concat_chunk [OF all] i by simp
    finally have "entry_of ?r i = entry_cast (entry_bytes (?es ! i))" by (simp add: entry_of_def)
    moreover have "length (fst (specs ! i)) = 4" using ids i by (simp add: list_all_length)
    ultimately show ?thesis using init_entries_nth [OF i, of ?cur] sum u by (simp add: entry_new_parts)
  qed
  ultimately show ?thesis by (intro exI [of _ ?r]) simp
qed

section \<open>Properties\<close>

text \<open>
  \<open>init\<close> partitions the data region. It succeeds exactly when there are at most 16
  specifications with different identifiers, the table fits the account and the segment ends
  fit 32 bits; then the account parses, no segment is locked, and segment \<open>i\<close> is the range
  right after segment \<open>i - 1\<close>, with the bytes the account held there, or is refused when it
  runs past the account.
\<close>

theorem init_partitions_data_region:
  assumes "list_all (\<lambda>s. length (fst s) = 4) specs"
  shows "(snd (sr_init d specs) = Ok () \<longleftrightarrow>
      length specs \<le> 16 \<and> distinct (List.map fst specs) \<and> 20 + length specs * 16 \<le> length d \<and>
      20 + length specs * 16 + total_size specs < 2 ^ 32) \<and>
    (snd (sr_init d specs) = Ok () \<longrightarrow>
      (\<exists>r. sr_from_account (fst (sr_init d specs)) = Ok r \<and> sr_count r = length specs \<and>
        (\<forall>i < length specs. \<not> locked_at r i \<and>
          (let start = 20 + length specs * 16 + total_size (take i specs); sz = unat (fst (snd (specs ! i))) in
           sr_segment_data r (fst (specs ! i)) =
             (if start + sz \<le> length d then Ok (bslice start sz d) else Err AccountDataTooSmall)))))"
proof -
  let ?n = "length specs"
  let ?ok = "?n \<le> 16 \<and> distinct (List.map fst specs) \<and> 20 + ?n * 16 \<le> length d \<and> 20 + ?n * 16 + total_size specs < 2 ^ 32"
  let ?table = "[word_of_nat ?n, word_of_nat (?n div 256), 0, 0] @
      concat (List.map entry_bytes (init_entries (word_of_nat (20 + ?n * 16)) specs))"
  have iff: "snd (sr_init d specs) = Ok () \<longleftrightarrow> ?ok" using sr_init_eq [OF assms, of d] by (auto split: if_splits)
  moreover have "\<exists>r. sr_from_account (fst (sr_init d specs)) = Ok r \<and> sr_count r = ?n \<and>
        (\<forall>i < ?n. \<not> locked_at r i \<and>
          (let start = 20 + ?n * 16 + total_size (take i specs); sz = unat (fst (snd (specs ! i))) in
           sr_segment_data r (fst (specs ! i)) =
             (if start + sz \<le> length d then Ok (bslice start sz d) else Err AccountDataTooSmall)))" if ok: ?ok
  proof -
    have d': "fst (sr_init d specs) = bsplice 16 ?table d" using sr_init_eq [OF assms, of d] ok by (simp split: if_splits)
    obtain r where r: "sr_from_account (fst (sr_init d specs)) = Ok r" "sr_ok r" "sr_data r = fst (sr_init d specs)"
        "sr_count r = ?n" and ent: "\<And>i. i < ?n \<Longrightarrow> entry_of r i = entry_new (fst (specs ! i))
       (word_of_nat (20 + ?n * 16 + total_size (take i specs))) (fst (snd (specs ! i))) 0 (snd (snd (specs ! i)))"
      using init_registry [OF assms _ _ _ d'] ok by blast
    have tlen: "16 + length ?table = 20 + ?n * 16" using length_init_bytes [OF assms] by simp
    have "\<not> locked_at r i \<and> (let start = 20 + ?n * 16 + total_size (take i specs); sz = unat (fst (snd (specs ! i))) in
           sr_segment_data r (fst (specs ! i)) =
             (if start + sz \<le> length d then Ok (bslice start sz d) else Err AccountDataTooSmall))" if i: "i < ?n" for i
    proof -
      let ?start = "20 + ?n * 16 + total_size (take i specs)"
      have "total_size (take i specs) \<le> total_size specs"
        by (metis append_take_drop_id le_add1 map_append sum_list_append total_size_def)
      then have start: "unat (word_of_nat ?start :: u32) = ?start" using ok by (intro unat_word_of_nat) simp
      have pos: "position_of r (fst (specs ! i)) = Some i"
        using i ok ent r(4) by (auto simp: position_of_def find_Some_iff entry_new_fields nth_eq_iff_index_eq
            distinct_conv_nth intro!: exI [of _ i])
      have "bslice ?start m (sr_data r) = bslice ?start m d" for m
        unfolding r(3) d' using ok tlen by (intro bslice_bsplice_disjoint) simp_all
      moreover have "length (sr_data r) = length d" unfolding r(3) d' using ok tlen by (intro length_bsplice) simp
      moreover have "unat (entry_offset (entry_of r i)) = ?start" "entry_size (entry_of r i) = fst (snd (specs ! i))"
        "\<not> locked_at r i"
        by (simp_all only: ent [OF i] entry_new_fields start locked_at_def lock_bit bit_0_eq bot_apply not_False_eq_True bot_bool_def)
      ultimately show ?thesis
        by (simp add: sr_segment_data_eq [OF r(2)] pos r(4) content_of_def Let_def)
    qed
    then show ?thesis using r(1,4) by blast
  qed
  ultimately show ?thesis by blast
qed

theorem init_partitions_data_region_witness:
  "\<exists>r. sr_from_account (fst (sr_init (replicate 64 7) [([1, 2, 3, 4], 8, 1), ([5, 6, 7, 8], 4, 1)])) = Ok r \<and>
     sr_segment_data r [5, 6, 7, 8] = Ok [7, 7, 7, 7]"
proof -
  let ?s = "[([1, 2, 3, 4], 8, 1), ([5, 6, 7, 8], 4, 1)] :: (bytes \<times> u32 \<times> u8) list"
  have ids: "list_all (\<lambda>s. length (fst s) = 4) ?s" by simp
  have ok: "snd (sr_init (replicate 64 7) ?s) = Ok ()"
    using init_partitions_data_region [OF ids, of "replicate 64 7"] by (simp add: total_size_def)
  then obtain r where r: "sr_from_account (fst (sr_init (replicate 64 7) ?s)) = Ok r"
    "\<forall>i < length ?s. (let start = 20 + length ?s * 16 + total_size (take i ?s); sz = unat (fst (snd (?s ! i))) in
           sr_segment_data r (fst (?s ! i)) = (if start + sz \<le> length (replicate 64 (7 :: u8))
             then Ok (bslice start sz (replicate 64 7)) else Err AccountDataTooSmall))"
    using init_partitions_data_region [OF ids, of "replicate 64 7"] by blast
  have "sr_segment_data r [5, 6, 7, 8] = Ok (replicate 4 7)"
    using r(2) [rule_format, of 1] by (simp add: Let_def total_size_def bslice_def)
  then show ?thesis using r(1) by (simp add: numeral_nat)
qed

text \<open>
  C10: A locked segment stays locked, and immutable unless an unlocked entry overlaps it. On any bytes
  that parse as a registry, hostile ones included, take any sequence of segment writes, freezes,
  unfreezes, locks, reads and raw flag writes that keep the lock bit set. Nothing traps, the length
  of the account, its header and every field of an entry but the flags stay what they were, no lock
  is lost, and the data of a locked segment that no unlocked entry overlaps is unchanged. Raw flag
  writes that clear the lock bit, edits of an entry's offset or size through a lent reference, and
  a new initialisation are outside: each of them undoes a lock.
\<close>

theorem locked_segments_are_immutable:
  assumes "sr_from_account_mut d = Ok r" and "list_all keeps_lock_bit cs" and "r' = fst (run_calls sr_exec r cs)"
  shows "Trap \<notin> set (snd (run_calls sr_exec r cs)) \<and> keeps_table r r' \<and>
    (\<forall>i ident. sealed r i \<and> position_of r ident = Some i \<longrightarrow> sr_segment_data r' ident = sr_segment_data r ident)"
proof -
  have ok: "sr_ok r" using assms(1) sr_from_account_ok by (simp add: sr_from_account_mut_def)
  then have "step_ok r r" by (simp add: step_ok_def keeps_table_def)
  then have "step_ok r r' \<and> Trap \<notin> set (snd (run_calls sr_exec r cs))"
    using sr_runs.run_safe [where s = r and cs = cs and first = r] assms(2,3) by simp
  then show ?thesis using step_ok_data [OF _ ok] by (auto simp: step_ok_def)
qed

theorem locked_segments_are_immutable_witness:
  "\<exists>r. sr_from_account_mut (replicate 16 0 @ [1, 0, 0, 0, 1, 2, 3, 4, 36, 0, 0, 0, 2, 0, 0, 0, 1, 0, 1, 0, 9, 8]) = Ok r \<and>
     sr_segment_data (fst (run_calls sr_exec r [SUnfreeze [1, 2, 3, 4], SSetFlags [1, 2, 3, 4] 5, SWriteUnchecked [1, 2, 3, 4] [0, 0]]))
       [1, 2, 3, 4] = sr_segment_data r [1, 2, 3, 4]"
proof -
  let ?d = "replicate 16 0 @ [1, 0, 0, 0, 1, 2, 3, 4, 36, 0, 0, 0, 2, 0, 0, 0, 1, 0, 1, 0, 9, 8] :: bytes"
  let ?r = "\<lparr>sr_data = ?d, sr_count = Suc 0, sr_entries_offset = 20\<rparr>"
  let ?cs = "[SUnfreeze [1, 2, 3, 4], SSetFlags [1, 2, 3, 4] 5, SWriteUnchecked [1, 2, 3, 4] [0, 0]]"
  have r: "sr_from_account_mut ?d = Ok ?r"
    by (simp add: sr_from_account_mut_def sr_from_account_def Let_def seg_consts rd_byte_def nth_append)
  have e: "entry_of ?r 0 = \<lparr>se_id = [1, 2, 3, 4], offset_bytes = [36, 0, 0, 0], size_bytes = [2, 0, 0, 0],
      flags_bytes = [1, 0], se_version = 1, se_reserved = 0\<rparr>"
    by (simp add: entry_of_def entry_cast_def bslice_def numeral_nat)
  have keeps: "list_all keeps_lock_bit ?cs" by (simp add: keeps_lock_bit_def)
  have "sealed ?r 0" by (simp add: sealed_def locked_at_def e lock_bit entry_flags_def entry_offset_def)
  moreover have "position_of ?r [1, 2, 3, 4] = Some 0" by (simp add: position_of_def e)
  ultimately show ?thesis
    using locked_segments_are_immutable [OF r keeps refl] r by (intro exI [of _ ?r]) (simp del: run_calls.simps)
qed

end
