(* ===== verification/AccountView.thy ===== *)
theory AccountView imports Contracts MachineInts begin

text \<open>
  hopper-native/src/raw_account.rs, account_view.rs and borrow.rs: the account header in the
  loader's input buffer, the accessors, the one-byte borrow tracking with its guards, resize
  and close. The memory after the header (data and realloc reserve) is a field of the
  account; an access outside it is a \<open>Trap\<close>. A guard is the range it exposes and whether
  dropping it releases the borrow byte. Shown: the byte is exactly the \<^verbatim>\<open>RefCell\<close> discipline on
  the live guards, so an exclusive guard is alone and every guard stays inside the data,
  across resize and close; what resize and close do; and that the packed header tests agree
  with the field by field ones.
\<close>

unbundle bit_operations_syntax

definition not_borrowed :: u8 where "not_borrowed = - 1"
definition max_permitted_data_increase :: nat where "max_permitted_data_increase = 10240"

record runtime_account =
  borrow_state :: u8
  ra_is_signer :: u8
  ra_is_writable :: u8
  ra_executable :: u8
  ra_resize_delta :: u32
  ra_address :: bytes
  ra_owner :: bytes
  ra_lamports :: u64
  ra_data_len :: u64
  ra_mem :: bytes

text \<open>\<^verbatim>\<open>Ref\<close> and \<^verbatim>\<open>RefMut\<close>; a null state pointer is \<open>g_tracked = False\<close>.\<close>

record guard =
  g_exclusive :: bool
  g_start :: nat
  g_len :: nat
  g_tracked :: bool

section \<open>Accessors\<close>

definition av_is_signer :: "runtime_account \<Rightarrow> bool" where
  "av_is_signer a \<longleftrightarrow> ra_is_signer a \<noteq> 0"
definition av_is_writable :: "runtime_account \<Rightarrow> bool" where
  "av_is_writable a \<longleftrightarrow> ra_is_writable a \<noteq> 0"
definition av_executable :: "runtime_account \<Rightarrow> bool" where
  "av_executable a \<longleftrightarrow> ra_executable a \<noteq> 0"
definition av_data_len :: "runtime_account \<Rightarrow> nat" where
  "av_data_len a = unat (ra_data_len a)"
definition av_original_data_len :: "runtime_account \<Rightarrow> nat" where
  "av_original_data_len a = unat (ra_resize_delta a)"
definition av_resize_delta :: "runtime_account \<Rightarrow> u32" where
  "av_resize_delta a = word_of_int (int (av_data_len a) - int (av_original_data_len a))"
definition av_initialize_original_data_len :: "runtime_account \<Rightarrow> runtime_account" where
  "av_initialize_original_data_len a = a\<lparr>ra_resize_delta := ucast (ra_data_len a)\<rparr>"
definition av_lamports :: "runtime_account \<Rightarrow> u64" where
  "av_lamports a = ra_lamports a"
definition av_is_data_empty :: "runtime_account \<Rightarrow> bool" where
  "av_is_data_empty a \<longleftrightarrow> av_data_len a = 0"
definition av_set_lamports :: "runtime_account \<Rightarrow> u64 \<Rightarrow> runtime_account" where
  "av_set_lamports a lamports = a\<lparr>ra_lamports := lamports\<rparr>"
definition av_owned_by :: "runtime_account \<Rightarrow> bytes \<Rightarrow> bool" where
  "av_owned_by a program \<longleftrightarrow> ra_owner a = program"
definition av_assign :: "runtime_account \<Rightarrow> bytes \<Rightarrow> runtime_account" where
  "av_assign a new_owner = a\<lparr>ra_owner := new_owner\<rparr>"
definition av_read_owner :: "runtime_account \<Rightarrow> bytes" where
  "av_read_owner a = ra_owner a"

definition av_is_borrowed :: "runtime_account \<Rightarrow> bool" where
  "av_is_borrowed a \<longleftrightarrow> borrow_state a \<noteq> not_borrowed"
definition av_is_borrowed_mut :: "runtime_account \<Rightarrow> bool" where
  "av_is_borrowed_mut a \<longleftrightarrow> borrow_state a = 0"

section \<open>Borrowing\<close>

definition av_check_borrow :: "runtime_account \<Rightarrow> unit outcome" where
  "av_check_borrow a = (if borrow_state a = 0 then Err AccountBorrowFailed else Ok ())"
definition av_check_borrow_mut :: "runtime_account \<Rightarrow> unit outcome" where
  "av_check_borrow_mut a = (if borrow_state a \<noteq> not_borrowed then Err AccountBorrowFailed else Ok ())"

text \<open>The acquisition that \<open>try_borrow\<close>, \<open>segment_ref\<close> and the projections share.\<close>

definition av_acquire_shared :: "runtime_account \<Rightarrow> runtime_account outcome" where
  "av_acquire_shared a =
     obind (av_check_borrow a) (\<lambda>_.
     let state = borrow_state a in
     obind (if state = not_borrowed then Ok 1 else native_add state 1) (\<lambda>new_state.
     fail_if (new_state = 0 \<or> new_state = not_borrowed) AccountBorrowFailed
       (Ok (a\<lparr>borrow_state := new_state\<rparr>))))"

definition av_borrow_unchecked :: "runtime_account \<Rightarrow> bytes outcome" where
  "av_borrow_unchecked a = rd (ra_mem a) 0 (av_data_len a)"

definition av_try_borrow :: "runtime_account \<Rightarrow> (runtime_account \<times> guard) outcome" where
  "av_try_borrow a =
     obind (av_acquire_shared a) (\<lambda>a'.
     obind (av_borrow_unchecked a') (\<lambda>_.
     Ok (a', \<lparr>g_exclusive = False, g_start = 0, g_len = av_data_len a', g_tracked = True\<rparr>)))"

definition av_try_borrow_mut :: "runtime_account \<Rightarrow> (runtime_account \<times> guard) outcome" where
  "av_try_borrow_mut a =
     obind (av_check_borrow_mut a) (\<lambda>_.
     let a' = a\<lparr>borrow_state := 0\<rparr> in
     obind (av_borrow_unchecked a') (\<lambda>_.
     Ok (a', \<lparr>g_exclusive = True, g_start = 0, g_len = av_data_len a', g_tracked = True\<rparr>)))"

definition av_require_writable :: "runtime_account \<Rightarrow> unit outcome" where
  "av_require_writable a = (if av_is_writable a then Ok () else Err Immutable)"

text \<open>\<open>tsz\<close> is \<^verbatim>\<open>size_of::<T>()\<close>; the cast to \<^verbatim>\<open>u32\<close> is the code's.\<close>

definition av_segment_ref :: "nat \<Rightarrow> runtime_account \<Rightarrow> u32 \<Rightarrow> u32 \<Rightarrow> (runtime_account \<times> guard) outcome" where
  "av_segment_ref tsz a off sz =
     fail_if (sz \<noteq> word_of_nat tsz) InvalidArgument
       (obind (ok_or (word_checked_add off sz) ArithmeticOverflow) (\<lambda>finish.
        fail_if (unat finish > av_data_len a) AccountDataTooSmall
          (obind (av_acquire_shared a) (\<lambda>a'.
           obind (rd (ra_mem a') (unat off) tsz) (\<lambda>_.
           Ok (a', \<lparr>g_exclusive = False, g_start = unat off, g_len = tsz, g_tracked = True\<rparr>))))))"

definition av_segment_ref_unchecked :: "nat \<Rightarrow> runtime_account \<Rightarrow> u32 \<Rightarrow> guard outcome" where
  "av_segment_ref_unchecked tsz a off =
     obind (rd (ra_mem a) (unat off) tsz) (\<lambda>_.
     Ok \<lparr>g_exclusive = False, g_start = unat off, g_len = tsz, g_tracked = False\<rparr>)"

definition av_segment_mut :: "nat \<Rightarrow> runtime_account \<Rightarrow> u32 \<Rightarrow> u32 \<Rightarrow> (runtime_account \<times> guard) outcome" where
  "av_segment_mut tsz a off sz =
     obind (av_require_writable a) (\<lambda>_.
     fail_if (sz \<noteq> word_of_nat tsz) InvalidArgument
       (obind (ok_or (word_checked_add off sz) ArithmeticOverflow) (\<lambda>finish.
        fail_if (unat finish > av_data_len a) AccountDataTooSmall
          (obind (av_check_borrow_mut a) (\<lambda>_.
           let a' = a\<lparr>borrow_state := 0\<rparr> in
           obind (rd (ra_mem a') (unat off) tsz) (\<lambda>_.
           Ok (a', \<lparr>g_exclusive = True, g_start = unat off, g_len = tsz, g_tracked = True\<rparr>)))))))"

definition av_segment_mut_unchecked :: "nat \<Rightarrow> runtime_account \<Rightarrow> u32 \<Rightarrow> guard outcome" where
  "av_segment_mut_unchecked tsz a off =
     obind (rd (ra_mem a) (unat off) tsz) (\<lambda>_.
     Ok \<lparr>g_exclusive = True, g_start = unat off, g_len = tsz, g_tracked = False\<rparr>)"

definition av_raw_ref :: "nat \<Rightarrow> runtime_account \<Rightarrow> (runtime_account \<times> guard) outcome" where
  "av_raw_ref tsz a = av_segment_ref tsz a 0 (word_of_nat tsz)"
definition av_raw_mut :: "nat \<Rightarrow> runtime_account \<Rightarrow> (runtime_account \<times> guard) outcome" where
  "av_raw_mut tsz a = av_segment_mut tsz a 0 (word_of_nat tsz)"

text \<open>Dropping a guard.\<close>

definition ref_drop :: "runtime_account \<Rightarrow> guard \<Rightarrow> runtime_account outcome" where
  "ref_drop a g =
     (if \<not> g_tracked g then Ok a
      else
        let current = borrow_state a in
        if current = 1 then Ok (a\<lparr>borrow_state := not_borrowed\<rparr>)
        else obind (native_sub current 1) (\<lambda>s. Ok (a\<lparr>borrow_state := s\<rparr>)))"

definition ref_mut_drop :: "runtime_account \<Rightarrow> guard \<Rightarrow> runtime_account outcome" where
  "ref_mut_drop a g = (if \<not> g_tracked g then Ok a else Ok (a\<lparr>borrow_state := not_borrowed\<rparr>))"

text \<open>
  \<open>map\<close>, \<open>try_map\<close> and \<open>filter_map\<close>: the closure picks a part of the guarded range (offset and
  length inside it) or fails, which gives the guard back.
\<close>

definition guard_map :: "guard \<Rightarrow> (nat \<times> nat) \<Rightarrow> guard outcome" where
  "guard_map g part =
     (if fst part + snd part \<le> g_len g then Ok (g\<lparr>g_start := g_start g + fst part, g_len := snd part\<rparr>) else Trap)"

definition guard_try_map :: "guard \<Rightarrow> ('e + nat \<times> nat) \<Rightarrow> (guard \<times> 'e option) outcome" where
  "guard_try_map g res =
     (case res of Inr part \<Rightarrow> obind (guard_map g part) (\<lambda>g'. Ok (g', None)) | Inl e \<Rightarrow> Ok (g, Some e))"

definition guard_filter_map :: "guard \<Rightarrow> (nat \<times> nat) option \<Rightarrow> (guard \<times> bool) outcome" where
  "guard_filter_map g res =
     obind (guard_try_map g (case res of Some part \<Rightarrow> Inr part | None \<Rightarrow> Inl ())) (\<lambda>(g', e). Ok (g', e = None))"

section \<open>Resize and close\<close>

definition av_check_resize :: "runtime_account \<Rightarrow> nat \<Rightarrow> unit outcome" where
  "av_check_resize a new_len =
     (if new_len = av_data_len a then Ok ()
      else
        obind (av_require_writable a) (\<lambda>_.
        obind (av_check_borrow_mut a) (\<lambda>_.
        fail_if (new_len - av_original_data_len a > max_permitted_data_increase) InvalidRealloc (Ok ()))))"

definition av_resize :: "runtime_account \<Rightarrow> nat \<Rightarrow> runtime_account outcome" where
  "av_resize a new_len =
     (let old_len = av_data_len a in
      if new_len = old_len then Ok a
      else
        obind (av_check_resize a new_len) (\<lambda>_.
        obind (if new_len > old_len then zero_bytes (ra_mem a) old_len (new_len - old_len) else Ok (ra_mem a)) (\<lambda>m.
        Ok (a\<lparr>ra_mem := m, ra_data_len := word_of_nat new_len\<rparr>))))"

definition av_resize_raw :: "runtime_account \<Rightarrow> nat \<Rightarrow> runtime_account outcome" where
  "av_resize_raw a new_len =
     (if new_len = av_data_len a then Ok a
      else obind (av_check_resize a new_len) (\<lambda>_. Ok (a\<lparr>ra_data_len := word_of_nat new_len\<rparr>)))"

definition av_resize_unchecked :: "runtime_account \<Rightarrow> nat \<Rightarrow> runtime_account" where
  "av_resize_unchecked a new_len = a\<lparr>ra_data_len := word_of_nat new_len\<rparr>"

definition system_program_id :: bytes where "system_program_id = replicate 32 0"

definition av_close :: "runtime_account \<Rightarrow> runtime_account outcome" where
  "av_close a =
     obind (av_require_writable a) (\<lambda>_.
     obind (av_check_borrow_mut a) (\<lambda>_.
     let a' = av_set_lamports a 0; len = av_data_len a' in
     obind (if len > 0 then zero_bytes (ra_mem a') 0 len else Ok (ra_mem a')) (\<lambda>m.
     Ok (a'\<lparr>ra_mem := m, ra_data_len := 0, ra_owner := system_program_id\<rparr>))))"

definition av_close_unchecked :: "runtime_account \<Rightarrow> runtime_account" where
  "av_close_unchecked a = a\<lparr>ra_lamports := 0, ra_data_len := 0, ra_owner := system_program_id\<rparr>"

section \<open>Validation\<close>

definition av_require_signer :: "runtime_account \<Rightarrow> unit outcome" where
  "av_require_signer a = (if av_is_signer a then Ok () else Err MissingRequiredSignature)"
definition av_require_owned_by :: "runtime_account \<Rightarrow> bytes \<Rightarrow> unit outcome" where
  "av_require_owned_by a program = (if av_owned_by a program then Ok () else Err IncorrectProgramId)"
definition av_require_payer :: "runtime_account \<Rightarrow> unit outcome" where
  "av_require_payer a = obind (av_require_signer a) (\<lambda>_. av_require_writable a)"

definition av_disc :: "runtime_account \<Rightarrow> u8 outcome" where
  "av_disc a = (if av_data_len a = 0 \<or> av_is_borrowed_mut a then Ok 0 else rd_byte (ra_mem a) 0)"
definition av_disc_unchecked :: "runtime_account \<Rightarrow> u8 outcome" where
  "av_disc_unchecked a = rd_byte (ra_mem a) 0"
definition av_version :: "runtime_account \<Rightarrow> u8 outcome" where
  "av_version a = (if av_data_len a < 2 \<or> av_is_borrowed_mut a then Ok 0 else rd_byte (ra_mem a) 1)"
definition av_layout_id :: "runtime_account \<Rightarrow> bytes option outcome" where
  "av_layout_id a =
     (if av_data_len a < 12 \<or> av_is_borrowed_mut a then Ok None
      else obind (rd (ra_mem a) 4 8) (\<lambda>b. Ok (Some b)))"
definition av_require_disc :: "runtime_account \<Rightarrow> u8 \<Rightarrow> unit outcome" where
  "av_require_disc a expected = obind (av_disc a) (\<lambda>d. if d = expected then Ok () else Err InvalidAccountData)"

text \<open>The chainable checks return the account itself.\<close>

definition av_check_signer :: "runtime_account \<Rightarrow> runtime_account outcome" where
  "av_check_signer a = (if av_is_signer a then Ok a else Err MissingRequiredSignature)"
definition av_check_writable :: "runtime_account \<Rightarrow> runtime_account outcome" where
  "av_check_writable a = (if av_is_writable a then Ok a else Err Immutable)"
definition av_check_owned_by :: "runtime_account \<Rightarrow> bytes \<Rightarrow> runtime_account outcome" where
  "av_check_owned_by a program = (if av_owned_by a program then Ok a else Err IncorrectProgramId)"
definition av_check_disc :: "runtime_account \<Rightarrow> u8 \<Rightarrow> runtime_account outcome" where
  "av_check_disc a expected = obind (av_disc a) (\<lambda>d. if d = expected then Ok a else Err InvalidAccountData)"
definition av_check_has_data :: "runtime_account \<Rightarrow> runtime_account outcome" where
  "av_check_has_data a = (if \<not> av_is_data_empty a then Ok a else Err AccountDataTooSmall)"
definition av_check_executable :: "runtime_account \<Rightarrow> runtime_account outcome" where
  "av_check_executable a = (if av_executable a then Ok a else Err InvalidArgument)"
definition av_check_address :: "runtime_account \<Rightarrow> bytes \<Rightarrow> runtime_account outcome" where
  "av_check_address a expected = (if ra_address a = expected then Ok a else Err InvalidArgument)"
definition av_check_data_len :: "runtime_account \<Rightarrow> nat \<Rightarrow> runtime_account outcome" where
  "av_check_data_len a min_len = (if av_data_len a \<ge> min_len then Ok a else Err AccountDataTooSmall)"

text \<open>The first four header bytes, read as one little-endian word.\<close>

definition av_header_word :: "runtime_account \<Rightarrow> u32" where
  "av_header_word a = word_of_nat (le_val [borrow_state a, ra_is_signer a, ra_is_writable a, ra_executable a])"

definition av_flags :: "runtime_account \<Rightarrow> u8" where
  "av_flags a =
     (let h = av_header_word a;
          f0 = 0 :: u8;
          f1 = (if h AND 0x0000FF00 \<noteq> 0 then f0 OR 1 else f0);
          f2 = (if h AND 0x00FF0000 \<noteq> 0 then f1 OR 2 else f1);
          f3 = (if h AND 0xFF000000 \<noteq> 0 then f2 OR 4 else f2) in
      if \<not> av_is_data_empty a then f3 OR 8 else f3)"

definition av_expect_flags :: "runtime_account \<Rightarrow> u8 \<Rightarrow> unit outcome" where
  "av_expect_flags a required = (if av_flags a AND required = required then Ok () else Err InvalidArgument)"

definition av_is_signer_writable :: "runtime_account \<Rightarrow> bool \<Rightarrow> bool \<Rightarrow> bool" where
  "av_is_signer_writable a need_signer need_writable =
     (let h = av_header_word a;
          m1 = (if need_signer then 0x0000FF00 else 0 :: u32);
          e1 = (if need_signer then 0x00000100 else 0 :: u32);
          m2 = (if need_writable then m1 OR 0x00FF0000 else m1);
          e2 = (if need_writable then e1 OR 0x00010000 else e1) in
      h AND m2 = e2)"

section \<open>Remaining accounts\<close>

record remaining_accounts =
  rem_accounts :: "runtime_account list"
  rem_cursor :: nat

definition rem_new :: "runtime_account list \<Rightarrow> remaining_accounts" where
  "rem_new accounts = \<lparr>rem_accounts = accounts, rem_cursor = 0\<rparr>"
definition rem_remaining :: "remaining_accounts \<Rightarrow> nat" where
  "rem_remaining r = length (rem_accounts r) - rem_cursor r"
definition rem_next :: "remaining_accounts \<Rightarrow> (remaining_accounts \<times> runtime_account) outcome" where
  "rem_next r =
     fail_if (rem_cursor r \<ge> length (rem_accounts r)) NotEnoughAccountKeys
       (Ok (r\<lparr>rem_cursor := rem_cursor r + 1\<rparr>, rem_accounts r ! rem_cursor r))"

text \<open>
  The filtered variants take the account first: a refused one is consumed. Their result is
  the cursor after the call and what the call returned.
\<close>

definition rem_next_with :: "(runtime_account \<Rightarrow> unit outcome) \<Rightarrow> remaining_accounts \<Rightarrow> remaining_accounts \<times> runtime_account outcome" where
  "rem_next_with require r =
     (case rem_next r of
        Ok (r', account) \<Rightarrow> (r', obind (require account) (\<lambda>_. Ok account))
      | Err e \<Rightarrow> (r, Err e)
      | Trap \<Rightarrow> (r, Trap))"
definition rem_next_signer :: "remaining_accounts \<Rightarrow> remaining_accounts \<times> runtime_account outcome" where
  "rem_next_signer r = rem_next_with av_require_signer r"
definition rem_next_writable :: "remaining_accounts \<Rightarrow> remaining_accounts \<times> runtime_account outcome" where
  "rem_next_writable r = rem_next_with av_require_writable r"
definition rem_next_owned_by :: "remaining_accounts \<Rightarrow> bytes \<Rightarrow> remaining_accounts \<times> runtime_account outcome" where
  "rem_next_owned_by r program = rem_next_with (\<lambda>a. av_require_owned_by a program) r"

section \<open>The header word\<close>

lemma u8_bound: "unat (b :: u8) < 256"
  using unsigned_less [of b, where 'a = nat] by simp

lemma unat_header_word:
  "unat (av_header_word a) = le_val [borrow_state a, ra_is_signer a, ra_is_writable a, ra_executable a]"
  unfolding av_header_word_def
  using le_val_bound [of "[borrow_state a, ra_is_signer a, ra_is_writable a, ra_executable a]"]
  by (intro unat_word_of_nat) simp

lemma le_val_digits:
  "le_val (b # bs) mod 256 = unat b" "le_val (b # bs) div 256 = le_val bs"
  using u8_bound [of b] by simp_all

lemma masked_byte:
  fixes h :: u32 and b :: u8
  assumes "unat h div 2 ^ k mod 256 = unat b"
  shows "h AND push_bit k 0xFF = push_bit k (ucast b)"
proof -
  have "unat (take_bit 8 (drop_bit k h)) = take_bit 8 (drop_bit k (unat h))"
    using unsigned_less [of h, where 'a = nat]
    by (simp only: unsigned_take_bit_eq unsigned_drop_bit_eq) (simp add: take_bit_nat_eq_self)
  also have "\<dots> = unat (ucast b :: u32)"
    using assms u8_bound [of b] by (simp add: take_bit_eq_mod drop_bit_eq_div unsigned_ucast_eq)
  finally have "take_bit 8 (drop_bit k h) = ucast b" by (simp only: word_unat_eq_iff)
  moreover have "h AND push_bit k 0xFF = push_bit k (take_bit 8 (drop_bit k h))"
  proof -
    have m: "(0xFF :: u32) = mask 8" by (simp add: mask_eq_exp_minus_1)
    show ?thesis unfolding m by (rule bit_word_eqI) (auto simp: bit_simps)
  qed
  ultimately show ?thesis by simp
qed

lemma header_bytes:
  "av_header_word a AND 0xFF00 = push_bit 8 (ucast (ra_is_signer a))"
  "av_header_word a AND 0xFF0000 = push_bit 16 (ucast (ra_is_writable a))"
  "av_header_word a AND 0xFF000000 = push_bit 24 (ucast (ra_executable a))"
proof -
  have pw: "(2 :: nat) ^ 8 = 256" "n div 2 ^ 16 = n div 256 div 256" "n div 2 ^ 24 = n div 256 div 256 div 256" for n :: nat
    by (simp_all add: div_mult2_eq [symmetric])
  have "unat (av_header_word a) div 2 ^ 8 mod 256 = unat (ra_is_signer a)"
    "unat (av_header_word a) div 2 ^ 16 mod 256 = unat (ra_is_writable a)"
    "unat (av_header_word a) div 2 ^ 24 mod 256 = unat (ra_executable a)"
    unfolding unat_header_word pw by (simp_all only: le_val_digits)
  from this [THEN masked_byte]
  show "av_header_word a AND 0xFF00 = push_bit 8 (ucast (ra_is_signer a))"
    "av_header_word a AND 0xFF0000 = push_bit 16 (ucast (ra_is_writable a))"
    "av_header_word a AND 0xFF000000 = push_bit 24 (ucast (ra_executable a))"
    by simp_all
qed

lemma pushed_byte_zero:
  assumes "k \<le> 24"
  shows "push_bit k (ucast (b :: u8) :: u32) = 0 \<longleftrightarrow> b = 0"
proof
  assume 0: "push_bit k (ucast b :: u32) = 0"
  show "b = 0"
  proof (rule bit_word_eqI)
    fix n assume n: "n < LENGTH(8)"
    then have "bit (push_bit k (ucast b :: u32)) (n + k) \<longleftrightarrow> bit b n" using assms by (simp add: bit_simps)
    then show "bit b n \<longleftrightarrow> bit 0 n" unfolding 0 by simp
  qed
qed simp

lemma av_flags_eq:
  "av_flags a = (if av_is_signer a then 1 else 0) + (if av_is_writable a then 2 else 0) +
     (if av_executable a then 4 else 0) + (if av_data_len a \<noteq> 0 then 8 else 0)"
  unfolding av_flags_def Let_def header_bytes
  by (simp add: pushed_byte_zero av_is_signer_def av_is_writable_def av_executable_def av_is_data_empty_def
      del: push_bit_eq_0_iff)

lemma flags_bits:
  "bit (av_flags a) 0 \<longleftrightarrow> av_is_signer a" "bit (av_flags a) 1 \<longleftrightarrow> av_is_writable a"
  "bit (av_flags a) 2 \<longleftrightarrow> av_executable a" "bit (av_flags a) 3 \<longleftrightarrow> av_data_len a \<noteq> 0"
  "bit (av_flags a) 4 \<longleftrightarrow> False" "bit (av_flags a) 5 \<longleftrightarrow> False" "bit (av_flags a) 6 \<longleftrightarrow> False" "bit (av_flags a) 7 \<longleftrightarrow> False"
  unfolding av_flags_eq by (simp_all split: if_split)

lemma expect_flags_iff:
  "av_expect_flags a required = Ok () \<longleftrightarrow>
     (bit required 0 \<longrightarrow> av_is_signer a) \<and> (bit required 1 \<longrightarrow> av_is_writable a) \<and>
     (bit required 2 \<longrightarrow> av_executable a) \<and> (bit required 3 \<longrightarrow> av_data_len a \<noteq> 0) \<and>
     \<not> bit required 4 \<and> \<not> bit required 5 \<and> \<not> bit required 6 \<and> \<not> bit required 7"
proof -
  have ex: "(\<forall>k < LENGTH(8). P k) \<longleftrightarrow> P 0 \<and> P 1 \<and> P 2 \<and> P 3 \<and> P 4 \<and> P 5 \<and> P 6 \<and> P 7" for P
    by (simp add: All_less_Suc eval_nat_numeral) auto
  have "av_flags a AND required = required \<longleftrightarrow> (\<forall>k < LENGTH(8). bit required k \<longrightarrow> bit (av_flags a) k)"
    by (auto simp: bit_eq_iff bit_and_iff dest: bit_imp_le_length)
  then show ?thesis unfolding av_expect_flags_def ex flags_bits by auto
qed

lemma signer_writable_iff:
  assumes "ra_is_signer a \<in> {0, 1}" and "ra_is_writable a \<in> {0, 1}"
  shows "av_is_signer_writable a ns nw \<longleftrightarrow> (ns \<longrightarrow> av_is_signer a) \<and> (nw \<longrightarrow> av_is_writable a)"
proof -
  have both: "av_header_word a AND 0xFFFF00 = push_bit 8 (ucast (ra_is_signer a)) OR push_bit 16 (ucast (ra_is_writable a))"
  proof -
    have "(0xFFFF00 :: u32) = 0xFF00 OR 0xFF0000" by simp
    then show ?thesis by (simp only: bit.conj_disj_distrib header_bytes)
  qed
  show ?thesis
    using assms
    by (cases ns; cases nw) (auto simp: av_is_signer_writable_def Let_def header_bytes both av_is_signer_def av_is_writable_def)
qed

section \<open>The borrow byte counts the guards\<close>

definition encodes :: "u8 \<Rightarrow> guard list \<Rightarrow> bool" where
  "encodes b gs \<longleftrightarrow> list_all g_tracked gs \<and>
     (if gs = [] then b = not_borrowed
      else if list_ex g_exclusive gs then length gs = 1 \<and> b = 0
      else length gs \<le> 254 \<and> unat b = length gs)"

definition can_share :: "guard list \<Rightarrow> bool" where
  "can_share gs \<longleftrightarrow> \<not> list_ex g_exclusive gs \<and> length gs < 254"

lemma unat_not_borrowed: "unat not_borrowed = 255"
  by (simp add: not_borrowed_def unsigned_minus_1_eq_mask mask_eq_exp_minus_1)

lemma unat_succ_word: "n < 255 \<Longrightarrow> unat (1 + word_of_nat n :: u8) = Suc n"
  using unat_word_of_nat [of "Suc n", where 'a = 8] by simp

lemma check_borrow_mut_iff: "encodes (borrow_state a) gs \<Longrightarrow> av_check_borrow_mut a = (if gs = [] then Ok () else Err AccountBorrowFailed)"
  using unat_not_borrowed by (auto simp: encodes_def av_check_borrow_mut_def split: if_splits)

lemma borrowed_mut_iff: "encodes (borrow_state a) gs \<Longrightarrow> av_is_borrowed_mut a \<longleftrightarrow> list_ex g_exclusive gs"
  using unat_not_borrowed by (auto simp: encodes_def av_is_borrowed_mut_def split: if_splits)

lemma acquire_shared_iff:
  assumes "encodes (borrow_state a) gs"
  shows "av_acquire_shared a =
    (if can_share gs then Ok (a\<lparr>borrow_state := word_of_nat (Suc (length gs))\<rparr>) else Err AccountBorrowFailed)"
proof (cases "gs = []")
  case True
  then show ?thesis using assms unat_not_borrowed
    by (auto simp: encodes_def av_acquire_shared_def av_check_borrow_def can_share_def Let_def)
next
  case False
  show ?thesis
  proof (cases "list_ex g_exclusive gs")
    case True
    then show ?thesis using assms False
      by (auto simp: encodes_def av_acquire_shared_def av_check_borrow_def can_share_def)
  next
    case no_excl: False
    let ?b = "borrow_state a"
    have len: "unat ?b = length gs" "length gs \<le> 254" "0 < length gs"
      using assms False no_excl by (auto simp: encodes_def split: if_splits)
    then have nb: "?b \<noteq> not_borrowed" "?b \<noteq> 0" using unat_not_borrowed by auto
    have sum: "native_add ?b 1 = Ok (?b + 1)" using len by (intro native_add_eq) simp
    have "unat (?b + 1) = Suc (length gs)" using len by (simp add: unat_add_exact)
    then have w: "?b + 1 = word_of_nat (Suc (length gs))" and z: "?b + 1 \<noteq> 0"
      and f: "?b + 1 = not_borrowed \<longleftrightarrow> length gs = 254"
      using len unat_not_borrowed by (auto simp: word_unat_eq_iff unat_succ_word)
    show ?thesis
      using nb sum z f w len no_excl by (auto simp: av_acquire_shared_def av_check_borrow_def can_share_def Let_def)
  qed
qed

lemma encodes_share:
  "can_share gs \<Longrightarrow> encodes b gs \<Longrightarrow> \<not> g_exclusive g \<Longrightarrow> g_tracked g \<Longrightarrow> encodes (word_of_nat (Suc (length gs))) (gs @ [g])"
  by (auto simp: encodes_def can_share_def unat_succ_word)

lemma encodes_drop:
  assumes enc: "encodes (borrow_state a) gs" and i: "i < length gs"
  shows "(if g_exclusive (gs ! i) then ref_mut_drop a (gs ! i) else ref_drop a (gs ! i)) =
      Ok (a\<lparr>borrow_state := if length gs = 1 then not_borrowed else borrow_state a - 1\<rparr>)"
    and "encodes (if length gs = 1 then not_borrowed else borrow_state a - 1) (take i gs @ drop (Suc i) gs)"
proof -
  let ?b = "borrow_state a"
  have t: "g_tracked (gs ! i)" using enc i by (simp add: encodes_def list_all_length)
  have excl: "list_ex g_exclusive gs \<Longrightarrow> length gs = 1 \<and> ?b = 0" and count: "\<not> list_ex g_exclusive gs \<Longrightarrow> unat ?b = length gs"
    using enc i by (auto simp: encodes_def split: if_splits)
  have here: "g_exclusive (gs ! i) \<Longrightarrow> list_ex g_exclusive gs" using i by (auto simp: list_ex_length)
  have only: "list_ex g_exclusive gs \<Longrightarrow> g_exclusive (gs ! i)" using excl i by (auto simp: list_ex_length less_Suc_eq)
  have one: "?b = 1 \<longleftrightarrow> length gs = 1" if "\<not> list_ex g_exclusive gs"
    using count [OF that] by (auto simp: word_unat_eq_iff)
  have sub: "native_sub ?b 1 = Ok (?b - 1)" if "\<not> list_ex g_exclusive gs"
    using count [OF that] i by (intro native_sub_eq) (simp add: word_le_nat_alt)
  show "(if g_exclusive (gs ! i) then ref_mut_drop a (gs ! i) else ref_drop a (gs ! i)) =
      Ok (a\<lparr>borrow_state := if length gs = 1 then not_borrowed else ?b - 1\<rparr>)"
    using t excl here only one sub
    by (cases "list_ex g_exclusive gs") (auto simp: ref_drop_def ref_mut_drop_def Let_def)
  have len: "length (take i gs @ drop (Suc i) gs) = length gs - 1" using i by simp
  have sub_set: "set (take i gs @ drop (Suc i) gs) \<subseteq> set gs" using set_take_subset set_drop_subset by fastforce
  show "encodes (if length gs = 1 then not_borrowed else ?b - 1) (take i gs @ drop (Suc i) gs)"
  proof (cases "length gs = 1")
    case True
    then have nil: "take i gs @ drop (Suc i) gs = []" using i by simp
    show ?thesis unfolding nil using True by (simp add: encodes_def)
  next
    case False
    then have no: "\<not> list_ex g_exclusive gs" using excl by blast
    then have u: "unat (?b - 1) = length gs - 1" using count i by (subst unat_sub_exact) (auto simp: word_le_nat_alt)
    have "\<not> list_ex g_exclusive (take i gs @ drop (Suc i) gs)" "list_all g_tracked (take i gs @ drop (Suc i) gs)"
      using no enc sub_set by (auto simp: list_ex_iff list_all_iff encodes_def)
    moreover have "length gs \<le> 254" using no enc i by (auto simp: encodes_def split: if_splits)
    moreover have "take i gs @ drop (Suc i) gs \<noteq> []" using len False i by (metis One_nat_def Suc_pred length_greater_0_conv list.size(3) not_less_zero zero_less_iff_neq_zero less_nat_zero_code diff_is_0_eq le_less_linear Suc_lessI)
    ultimately show ?thesis using u len False by (simp only: encodes_def if_False) simp
  qed
qed

section \<open>An account with its live guards\<close>

record account_system =
  sy_account :: runtime_account
  sy_guards :: "guard list"

text \<open>
  The calls a program can make on one account. \<open>CMap\<close> narrows a live guard, \<open>CDrop\<close> ends its
  life, \<open>CStore\<close> copies bytes through an exclusive guard; the borrow checker rules out using a
  guard that is not live, so such a call does nothing.
\<close>

datatype account_call =
  CBorrow | CBorrowMut | CSegmentRef nat u32 u32 | CSegmentMut nat u32 u32 | CMap nat nat nat | CDrop nat
| CStore nat bytes | CLoad nat | CDisc | CResize nat | CResizeRaw nat | CClose | CSetLamports u64

definition new_guard :: "guard list \<Rightarrow> (runtime_account \<times> guard) outcome \<Rightarrow> (account_system \<times> answer) outcome" where
  "new_guard gs m = obind m (\<lambda>(a, g). Ok (\<lparr>sy_account = a, sy_guards = gs @ [g]\<rparr>, RUnit))"

definition with_account :: "account_system \<Rightarrow> runtime_account outcome \<Rightarrow> (account_system \<times> answer) outcome" where
  "with_account s m = obind m (\<lambda>a. Ok (s\<lparr>sy_account := a\<rparr>, RUnit))"

fun account_exec :: "account_system \<Rightarrow> account_call \<Rightarrow> (account_system \<times> answer) outcome" where
  "account_exec s CBorrow = new_guard (sy_guards s) (av_try_borrow (sy_account s))"
| "account_exec s CBorrowMut = new_guard (sy_guards s) (av_try_borrow_mut (sy_account s))"
| "account_exec s (CSegmentRef tsz off sz) = new_guard (sy_guards s) (av_segment_ref tsz (sy_account s) off sz)"
| "account_exec s (CSegmentMut tsz off sz) = new_guard (sy_guards s) (av_segment_mut tsz (sy_account s) off sz)"
| "account_exec s (CMap i from n) =
     (if i < length (sy_guards s) \<and> from + n \<le> g_len (sy_guards s ! i)
      then obind (guard_map (sy_guards s ! i) (from, n)) (\<lambda>g. Ok (s\<lparr>sy_guards := (sy_guards s)[i := g]\<rparr>, RUnit))
      else Ok (s, RUnit))"
| "account_exec s (CDrop i) =
     (if i < length (sy_guards s)
      then
        let g = sy_guards s ! i in
        obind (if g_exclusive g then ref_mut_drop (sy_account s) g else ref_drop (sy_account s) g) (\<lambda>a.
        Ok (\<lparr>sy_account = a, sy_guards = take i (sy_guards s) @ drop (Suc i) (sy_guards s)\<rparr>, RUnit))
      else Ok (s, RUnit))"
| "account_exec s (CStore i x) =
     (if i < length (sy_guards s) \<and> g_exclusive (sy_guards s ! i)
      then
        let g = sy_guards s ! i; a = sy_account s in
        with_account s (obind (wr (ra_mem a) (g_start g) (take (g_len g) x)) (\<lambda>m. Ok (a\<lparr>ra_mem := m\<rparr>)))
      else Ok (s, RUnit))"
| "account_exec s (CLoad i) =
     (if i < length (sy_guards s)
      then let g = sy_guards s ! i in read_call s (rd (ra_mem (sy_account s)) (g_start g) (g_len g)) RBytes
      else Ok (s, RUnit))"
| "account_exec s CDisc = read_call s (av_disc (sy_account s)) (\<lambda>b. RNum (unat b))"
| "account_exec s (CResize n) = with_account s (av_resize (sy_account s) n)"
| "account_exec s (CResizeRaw n) = with_account s (av_resize_raw (sy_account s) n)"
| "account_exec s CClose = with_account s (av_close (sy_account s))"
| "account_exec s (CSetLamports l) = with_account s (Ok (av_set_lamports (sy_account s) l))"

text \<open>
  The specification: a \<^verbatim>\<open>RefCell\<close>. No borrow byte; the live guards decide. The account it
  works on has its byte erased.
\<close>

abbreviation "whole_guard ex a \<equiv> \<lparr>g_exclusive = ex, g_start = 0, g_len = av_data_len a, g_tracked = True\<rparr>"
abbreviation "segment_guard ex off tsz \<equiv> \<lparr>g_exclusive = ex, g_start = unat (off :: u32), g_len = tsz, g_tracked = True\<rparr>"

definition add_guard :: "account_system \<Rightarrow> bool \<Rightarrow> guard \<Rightarrow> (account_system \<times> answer) outcome" where
  "add_guard s allowed g =
     (if allowed then Ok (s\<lparr>sy_guards := sy_guards s @ [g]\<rparr>, RUnit) else Err AccountBorrowFailed)"

definition cell_segment :: "account_system \<Rightarrow> nat \<Rightarrow> u32 \<Rightarrow> u32 \<Rightarrow> (account_system \<times> answer) outcome \<Rightarrow> (account_system \<times> answer) outcome" where
  "cell_segment s tsz off sz rest =
     (if sz \<noteq> word_of_nat tsz then Err InvalidArgument
      else if unat off + unat sz \<ge> 2 ^ 32 then Err ArithmeticOverflow
      else if unat off + unat sz > av_data_len (sy_account s) then Err AccountDataTooSmall
      else rest)"

definition cell_resize :: "account_system \<Rightarrow> nat \<Rightarrow> bytes \<Rightarrow> (account_system \<times> answer) outcome" where
  "cell_resize s n m =
     (let a = sy_account s in
      if n = av_data_len a then Ok (s, RUnit)
      else if \<not> av_is_writable a then Err Immutable
      else if sy_guards s \<noteq> [] then Err AccountBorrowFailed
      else if n > av_original_data_len a + max_permitted_data_increase then Err InvalidRealloc
      else Ok (s\<lparr>sy_account := a\<lparr>ra_mem := m, ra_data_len := word_of_nat n\<rparr>\<rparr>, RUnit))"

fun cell_exec :: "account_system \<Rightarrow> account_call \<Rightarrow> (account_system \<times> answer) outcome" where
  "cell_exec s CBorrow = add_guard s (can_share (sy_guards s)) (whole_guard False (sy_account s))"
| "cell_exec s CBorrowMut = add_guard s (sy_guards s = []) (whole_guard True (sy_account s))"
| "cell_exec s (CSegmentRef tsz off sz) =
     cell_segment s tsz off sz (add_guard s (can_share (sy_guards s)) (segment_guard False off tsz))"
| "cell_exec s (CSegmentMut tsz off sz) =
     (if \<not> av_is_writable (sy_account s) then Err Immutable
      else cell_segment s tsz off sz (add_guard s (sy_guards s = []) (segment_guard True off tsz)))"
| "cell_exec s (CMap i from n) =
     (if i < length (sy_guards s) \<and> from + n \<le> g_len (sy_guards s ! i)
      then
        let g = sy_guards s ! i in
        Ok (s\<lparr>sy_guards := (sy_guards s)[i := g\<lparr>g_start := g_start g + from, g_len := n\<rparr>]\<rparr>, RUnit)
      else Ok (s, RUnit))"
| "cell_exec s (CDrop i) =
     Ok (if i < length (sy_guards s) then s\<lparr>sy_guards := take i (sy_guards s) @ drop (Suc i) (sy_guards s)\<rparr> else s, RUnit)"
| "cell_exec s (CStore i x) =
     (if i < length (sy_guards s) \<and> g_exclusive (sy_guards s ! i)
      then
        let g = sy_guards s ! i; a = sy_account s in
        Ok (s\<lparr>sy_account := a\<lparr>ra_mem := bsplice (g_start g) (take (g_len g) x) (ra_mem a)\<rparr>\<rparr>, RUnit)
      else Ok (s, RUnit))"
| "cell_exec s (CLoad i) =
     Ok (s, if i < length (sy_guards s)
            then RBytes (bslice (g_start (sy_guards s ! i)) (g_len (sy_guards s ! i)) (ra_mem (sy_account s)))
            else RUnit)"
| "cell_exec s CDisc =
     Ok (s, RNum (if av_data_len (sy_account s) = 0 \<or> list_ex g_exclusive (sy_guards s) then 0
                  else unat (ra_mem (sy_account s) ! 0)))"
| "cell_exec s (CResize n) =
     (let a = sy_account s; old_len = av_data_len a in
      cell_resize s n (if n > old_len then bsplice old_len (replicate (n - old_len) 0) (ra_mem a) else ra_mem a))"
| "cell_exec s (CResizeRaw n) = cell_resize s n (ra_mem (sy_account s))"
| "cell_exec s CClose =
     (let a = sy_account s in
      if \<not> av_is_writable a then Err Immutable
      else if sy_guards s \<noteq> [] then Err AccountBorrowFailed
      else Ok (s\<lparr>sy_account := a\<lparr>ra_lamports := 0, ra_owner := system_program_id, ra_data_len := 0,
                   ra_mem := bsplice 0 (replicate (av_data_len a) 0) (ra_mem a)\<rparr>\<rparr>, RUnit))"
| "cell_exec s (CSetLamports l) = Ok (s\<lparr>sy_account := (sy_account s)\<lparr>ra_lamports := l\<rparr>\<rparr>, RUnit)"

definition erase_byte :: "account_system \<Rightarrow> account_system" where
  "erase_byte s = s\<lparr>sy_account := (sy_account s)\<lparr>borrow_state := not_borrowed\<rparr>\<rparr>"

text \<open>The loader's memory: the data, and the reserve every permitted growth stays in.\<close>

definition mem_ok :: "runtime_account \<Rightarrow> bool" where
  "mem_ok a \<longleftrightarrow> av_data_len a \<le> length (ra_mem a) \<and>
     av_original_data_len a + max_permitted_data_increase \<le> length (ra_mem a)"

definition system_inv :: "account_system \<Rightarrow> bool" where
  "system_inv s \<longleftrightarrow> mem_ok (sy_account s) \<and> encodes (borrow_state (sy_account s)) (sy_guards s) \<and>
     list_all (\<lambda>g. g_start g + g_len g \<le> av_data_len (sy_account s)) (sy_guards s)"

fun good_call :: "account_call \<Rightarrow> bool" where
  "good_call (CSegmentRef tsz off sz) \<longleftrightarrow> tsz < 2 ^ 32"
| "good_call (CSegmentMut tsz off sz) \<longleftrightarrow> tsz < 2 ^ 32"
| "good_call _ \<longleftrightarrow> True"

section \<open>One call\<close>

lemma accessors_borrow [simp]:
  "av_data_len (a\<lparr>borrow_state := b\<rparr>) = av_data_len a" "av_original_data_len (a\<lparr>borrow_state := b\<rparr>) = av_original_data_len a"
  "av_is_writable (a\<lparr>borrow_state := b\<rparr>) = av_is_writable a"
  by (simp_all add: av_data_len_def av_original_data_len_def av_is_writable_def)

lemma system_invD:
  assumes "system_inv s"
  shows "encodes (borrow_state (sy_account s)) (sy_guards s)" "av_data_len (sy_account s) \<le> length (ra_mem (sy_account s))"
    "av_original_data_len (sy_account s) + max_permitted_data_increase \<le> length (ra_mem (sy_account s))"
    "\<And>g. g \<in> set (sy_guards s) \<Longrightarrow> g_start g + g_len g \<le> av_data_len (sy_account s)"
  using assms by (auto simp: system_inv_def mem_ok_def list_all_iff)

definition simulated :: "account_system \<Rightarrow> account_call \<Rightarrow> bool" where
  "simulated s c \<longleftrightarrow> map_state erase_byte (account_exec s c) = cell_exec (erase_byte s) c \<and>
     (\<forall>s' r. account_exec s c = Ok (s', r) \<longrightarrow> system_inv s')"

text \<open>The three ways a state can change and keep the invariant.\<close>

lemma inv_shared:
  assumes inv: "system_inv s" and share: "can_share (sy_guards s)"
    and g: "\<not> g_exclusive g" "g_tracked g" "g_start g + g_len g \<le> av_data_len (sy_account s)"
  shows "system_inv \<lparr>sy_account = (sy_account s)\<lparr>borrow_state := word_of_nat (Suc (length (sy_guards s)))\<rparr>, sy_guards = sy_guards s @ [g]\<rparr>"
  using inv g encodes_share [OF share system_invD(1) [OF inv] g(1,2)]
  by (simp add: system_inv_def mem_ok_def del: of_nat_Suc)

lemma inv_exclusive:
  assumes "system_inv s" and "g_exclusive g" "g_tracked g" "g_start g + g_len g \<le> av_data_len (sy_account s)"
  shows "system_inv \<lparr>sy_account = (sy_account s)\<lparr>borrow_state := 0\<rparr>, sy_guards = [g]\<rparr>"
  using assms by (simp add: system_inv_def mem_ok_def encodes_def)

lemma shared_simulated:
  assumes inv: "system_inv s" and g: "\<not> g_exclusive g" "g_tracked g" "g_start g + g_len g \<le> av_data_len (sy_account s)"
    and exec: "account_exec s c = obind (av_acquire_shared (sy_account s)) (\<lambda>a'. Ok (\<lparr>sy_account = a', sy_guards = sy_guards s @ [g]\<rparr>, RUnit))"
    and cell: "cell_exec (erase_byte s) c = add_guard (erase_byte s) (can_share (sy_guards s)) g"
  shows "simulated s c"
  using inv_shared [OF inv _ g] system_invD(1) [OF inv]
  unfolding simulated_def exec cell
  by (simp add: acquire_shared_iff add_guard_def erase_byte_def del: of_nat_Suc)

lemma exclusive_simulated:
  assumes inv: "system_inv s" and g: "g_exclusive g" "g_tracked g" "g_start g + g_len g \<le> av_data_len (sy_account s)"
    and exec: "account_exec s c = obind (av_check_borrow_mut (sy_account s)) (\<lambda>_.
      Ok (\<lparr>sy_account = (sy_account s)\<lparr>borrow_state := 0\<rparr>, sy_guards = sy_guards s @ [g]\<rparr>, RUnit))"
    and cell: "cell_exec (erase_byte s) c = add_guard (erase_byte s) (sy_guards s = []) g"
  shows "simulated s c"
  using inv_exclusive [OF inv g] system_invD(1) [OF inv]
  unfolding simulated_def exec cell
  by (simp add: check_borrow_mut_iff add_guard_def erase_byte_def)

lemma borrow_simulated:
  assumes inv: "system_inv s"
  shows "simulated s CBorrow" and "simulated s CBorrowMut"
proof -
  have acq: "av_acquire_shared a = Ok a' \<Longrightarrow> av_data_len a' = av_data_len a \<and> ra_mem a' = ra_mem a" for a a'
    by (auto simp: av_acquire_shared_def obind_Ok_iff Let_def split: if_splits)
  have "account_exec s CBorrow = obind (av_acquire_shared (sy_account s)) (\<lambda>a'.
      Ok (\<lparr>sy_account = a', sy_guards = sy_guards s @ [whole_guard False (sy_account s)]\<rparr>, RUnit))"
    using system_invD(2) [OF inv]
    by (cases "av_acquire_shared (sy_account s)")
      (auto simp: new_guard_def av_try_borrow_def av_borrow_unchecked_def dest: acq)
  then show "simulated s CBorrow"
    by (rule shared_simulated [OF inv, rotated -2]) (simp_all add: erase_byte_def)
  have "account_exec s CBorrowMut = obind (av_check_borrow_mut (sy_account s)) (\<lambda>_.
      Ok (\<lparr>sy_account = (sy_account s)\<lparr>borrow_state := 0\<rparr>, sy_guards = sy_guards s @ [whole_guard True (sy_account s)]\<rparr>, RUnit))"
    using system_invD(2) [OF inv]
    by (cases "av_check_borrow_mut (sy_account s)")
      (auto simp: new_guard_def av_try_borrow_mut_def av_borrow_unchecked_def Let_def)
  then show "simulated s CBorrowMut"
    by (rule exclusive_simulated [OF inv, rotated -2]) (simp_all add: erase_byte_def)
qed

text \<open>The argument checks of the segment projections are the same on both sides.\<close>

lemma segment_simulated:
  assumes inv: "system_inv s" and tsz: "tsz < 2 ^ 32"
  shows "simulated s (CSegmentRef tsz off sz)" and "simulated s (CSegmentMut tsz off sz)"
proof -
  let ?a = "sy_account s"
  let ?ok = "sz = word_of_nat tsz \<and> unat off + unat sz < 2 ^ 32 \<and> unat off + unat sz \<le> av_data_len ?a"
  have add: "unat off + unat sz < 2 ^ 32 \<Longrightarrow> unat (off + sz) = unat off + unat sz" by (intro unat_add_exact) simp
  have room: "?ok \<Longrightarrow> unat off + tsz \<le> av_data_len ?a \<and> unat off + tsz \<le> length (ra_mem ?a)"
    using tsz system_invD(2) [OF inv] unat_word_of_nat [of tsz, where 'a = 32] by auto
  have acq: "av_acquire_shared a = Ok a' \<Longrightarrow> ra_mem a' = ra_mem a" for a a'
    by (auto simp: av_acquire_shared_def obind_Ok_iff Let_def split: if_splits)
  show "simulated s (CSegmentRef tsz off sz)"
  proof (cases ?ok)
    case True
    have "account_exec s (CSegmentRef tsz off sz) = obind (av_acquire_shared ?a) (\<lambda>a'.
        Ok (\<lparr>sy_account = a', sy_guards = sy_guards s @ [segment_guard False off tsz]\<rparr>, RUnit))"
      using True room [OF True] add
      by (cases "av_acquire_shared ?a") (auto simp: new_guard_def av_segment_ref_def word_checked_add_def dest: acq)
    then show ?thesis
      by (rule shared_simulated [OF inv, rotated -2]) (use True room [OF True] in \<open>auto simp: erase_byte_def cell_segment_def\<close>)
  next
    case False
    then have "account_exec s (CSegmentRef tsz off sz) =
        cell_segment (erase_byte s) tsz off sz (add_guard (erase_byte s) (can_share (sy_guards s)) (segment_guard False off tsz))"
      and "\<exists>e. account_exec s (CSegmentRef tsz off sz) = Err e"
      using add by (auto simp: new_guard_def av_segment_ref_def word_checked_add_def cell_segment_def erase_byte_def)
    then show ?thesis by (auto simp: simulated_def erase_byte_def)
  qed
  show "simulated s (CSegmentMut tsz off sz)"
  proof (cases "av_is_writable ?a \<and> ?ok")
    case True
    have "account_exec s (CSegmentMut tsz off sz) = obind (av_check_borrow_mut ?a) (\<lambda>_.
        Ok (\<lparr>sy_account = ?a\<lparr>borrow_state := 0\<rparr>, sy_guards = sy_guards s @ [segment_guard True off tsz]\<rparr>, RUnit))"
      using True room add
      by (cases "av_check_borrow_mut ?a")
        (auto simp: new_guard_def av_segment_mut_def word_checked_add_def av_require_writable_def Let_def)
    then show ?thesis
      by (rule exclusive_simulated [OF inv, rotated -2]) (use True room in \<open>auto simp: erase_byte_def cell_segment_def\<close>)
  next
    case False
    then have "account_exec s (CSegmentMut tsz off sz) = cell_exec (erase_byte s) (CSegmentMut tsz off sz)"
      and "\<exists>e. account_exec s (CSegmentMut tsz off sz) = Err e"
      using add
      by (auto simp: new_guard_def av_segment_mut_def word_checked_add_def cell_segment_def erase_byte_def av_require_writable_def)
    then show ?thesis by (auto simp: simulated_def)
  qed
qed

lemma guards_simulated:
  assumes inv: "system_inv s"
  shows "simulated s (CMap i from n)" and "simulated s (CDrop i)" and "simulated s (CStore i x)" and "simulated s (CLoad i)"
proof -
  let ?a = "sy_account s" and ?gs = "sy_guards s"
  note D = system_invD [OF inv]
  have here: "i < length ?gs \<Longrightarrow> g_start (?gs ! i) + g_len (?gs ! i) \<le> av_data_len ?a" using D(4) by simp
  show "simulated s (CMap i from n)"
  proof (cases "i < length ?gs \<and> from + n \<le> g_len (?gs ! i)")
    case True
    let ?g = "(?gs ! i)\<lparr>g_start := g_start (?gs ! i) + from, g_len := n\<rparr>"
    have gs: "?gs[i := ?g] = take i ?gs @ ?g # drop (Suc i) ?gs"
      using True by (intro upd_conv_take_nth_drop) simp
    have "list_all g_tracked (?gs[i := ?g]) = list_all g_tracked ?gs" "list_ex g_exclusive (?gs[i := ?g]) = list_ex g_exclusive ?gs"
    proof -
      have "List.map g_tracked (?gs[i := ?g]) = List.map g_tracked ?gs" "List.map g_exclusive (?gs[i := ?g]) = List.map g_exclusive ?gs"
        using True by (simp_all add: map_update list_update_same_conv)
      moreover have "list_all f gs \<longleftrightarrow> list_all id (List.map f gs)" "list_ex f gs \<longleftrightarrow> list_ex id (List.map f gs)"
        for f and gs :: "guard list" by (simp_all add: list_all_iff list_ex_iff)
      ultimately show "list_all g_tracked (?gs[i := ?g]) = list_all g_tracked ?gs"
        "list_ex g_exclusive (?gs[i := ?g]) = list_ex g_exclusive ?gs" by metis+
    qed
    then have enc: "encodes (borrow_state ?a) (?gs[i := ?g])" using D(1) by (simp add: encodes_def)
    have "g_start (?gs ! i) + from + n \<le> av_data_len ?a" using here True by linarith
    then have "list_all (\<lambda>g. g_start g + g_len g \<le> av_data_len ?a) (?gs[i := ?g])"
      using inv by (subst gs) (auto simp: system_inv_def list_all_iff dest: in_set_takeD in_set_dropD)
    then have "system_inv (s\<lparr>sy_guards := ?gs[i := ?g]\<rparr>)" using inv enc by (simp add: system_inv_def)
    then show ?thesis using True by (simp add: simulated_def guard_map_def erase_byte_def Let_def)
  qed (use inv in \<open>auto simp: simulated_def erase_byte_def\<close>)
  show "simulated s (CDrop i)"
  proof (cases "i < length ?gs")
    case True
    note drop = encodes_drop [OF D(1) True]
    have "list_all (\<lambda>g. g_start g + g_len g \<le> av_data_len ?a) (take i ?gs @ drop (Suc i) ?gs)"
      using D(4) by (auto simp: list_all_iff dest: in_set_takeD in_set_dropD)
    then have "system_inv \<lparr>sy_account = ?a\<lparr>borrow_state := if length ?gs = 1 then not_borrowed else borrow_state ?a - 1\<rparr>,
        sy_guards = take i ?gs @ drop (Suc i) ?gs\<rparr>"
      using inv drop(2) by (simp add: system_inv_def mem_ok_def)
    then show ?thesis using True drop(1) by (simp add: simulated_def Let_def erase_byte_def del: One_nat_def)
  qed (use inv in \<open>auto simp: simulated_def erase_byte_def\<close>)
  show "simulated s (CStore i x)"
  proof (cases "i < length ?gs \<and> g_exclusive (?gs ! i)")
    case True
    let ?m = "bsplice (g_start (?gs ! i)) (take (g_len (?gs ! i)) x) (ra_mem ?a)"
    have room: "g_start (?gs ! i) + length (take (g_len (?gs ! i)) x) \<le> length (ra_mem ?a)" using True here D(2) by simp
    then have "length ?m = length (ra_mem ?a)" by (rule length_bsplice)
    then have "system_inv (s\<lparr>sy_account := ?a\<lparr>ra_mem := ?m\<rparr>\<rparr>)"
      using inv by (simp add: system_inv_def mem_ok_def av_data_len_def av_original_data_len_def)
    then show ?thesis using True wr_eq [OF room] by (simp add: simulated_def with_account_def erase_byte_def Let_def del: wr_eq)
  qed (use inv in \<open>auto simp: simulated_def erase_byte_def\<close>)
  show "simulated s (CLoad i)"
    using inv here D(2) by (auto simp: simulated_def erase_byte_def read_call_def Let_def)
qed

lemma resize_inv:
  assumes inv: "system_inv s" and gs: "sy_guards s = []" and m: "length m = length (ra_mem (sy_account s))"
    and n: "n \<le> av_original_data_len (sy_account s) + max_permitted_data_increase"
  shows "system_inv (s\<lparr>sy_account := (sy_account s)\<lparr>ra_mem := m, ra_data_len := word_of_nat n\<rparr>\<rparr>)"
proof -
  have "av_original_data_len (sy_account s) < 2 ^ 32"
    unfolding av_original_data_len_def using unsigned_less [of "ra_resize_delta (sy_account s)", where 'a = nat] by simp
  then have "unat (word_of_nat n :: u64) = n"
    using n by (intro unat_word_of_nat) (simp add: max_permitted_data_increase_def)
  then show ?thesis
    using inv gs m n by (simp add: system_inv_def mem_ok_def av_data_len_def av_original_data_len_def)
qed

lemma check_resize_eq:
  assumes "encodes (borrow_state a) gs"
  shows "n \<noteq> av_data_len a \<Longrightarrow> av_check_resize a n =
    (if \<not> av_is_writable a then Err Immutable else if gs \<noteq> [] then Err AccountBorrowFailed
     else if n > av_original_data_len a + max_permitted_data_increase then Err InvalidRealloc else Ok ())"
  by (auto simp: av_check_resize_def av_require_writable_def check_borrow_mut_iff [OF assms])

lemma resize_simulated:
  assumes inv: "system_inv s"
  shows "simulated s (CResize n)" and "simulated s (CResizeRaw n)" and "simulated s CClose"
proof -
  let ?a = "sy_account s"
  note D = system_invD [OF inv] and chk = check_resize_eq [OF system_invD(1) [OF inv]]
  let ?grow = "bsplice (av_data_len ?a) (replicate (n - av_data_len ?a) 0) (ra_mem ?a)"
  have zero: "zero_bytes (ra_mem ?a) (av_data_len ?a) (n - av_data_len ?a) = Ok ?grow" "length ?grow = length (ra_mem ?a)"
    if "n \<le> av_original_data_len ?a + max_permitted_data_increase" "n > av_data_len ?a"
    using that D(3) by simp_all
  note ri = resize_inv [OF inv]
  show "simulated s (CResize n)"
  proof (cases "n = av_data_len ?a \<or> \<not> av_is_writable ?a \<or> sy_guards s \<noteq> [] \<or> n > av_original_data_len ?a + max_permitted_data_increase")
    case True
    then show ?thesis using inv
      by (auto simp: simulated_def with_account_def av_resize_def Let_def chk cell_resize_def erase_byte_def)
  next
    case False
    then have ok: "av_check_resize ?a n = Ok ()" using chk by auto
    show ?thesis
      using False ok zero ri [of ?grow] ri [of "ra_mem ?a"]
      by (cases "n > av_data_len ?a")
        (auto simp: simulated_def with_account_def av_resize_def Let_def cell_resize_def erase_byte_def)
  qed
  show "simulated s (CResizeRaw n)"
  proof (cases "n = av_data_len ?a \<or> \<not> av_is_writable ?a \<or> sy_guards s \<noteq> [] \<or> n > av_original_data_len ?a + max_permitted_data_increase")
    case True
    then show ?thesis using inv
      by (auto simp: simulated_def with_account_def av_resize_raw_def Let_def chk cell_resize_def erase_byte_def)
  next
    case False
    then have ok: "av_check_resize ?a n = Ok ()" using chk by auto
    show ?thesis
      using False ok ri [of "ra_mem ?a"]
      by (auto simp: simulated_def with_account_def av_resize_raw_def cell_resize_def erase_byte_def Let_def)
  qed
  show "simulated s CClose"
  proof (cases "av_is_writable ?a \<and> sy_guards s = []")
    case True
    let ?m = "bsplice 0 (replicate (av_data_len ?a) 0) (ra_mem ?a)"
    have m: "length ?m = length (ra_mem ?a)" "0 < av_data_len ?a \<Longrightarrow> zero_bytes (ra_mem ?a) 0 (av_data_len ?a) = Ok ?m"
      "av_data_len ?a = 0 \<Longrightarrow> ?m = ra_mem ?a"
      using D(2) by (simp_all add: bsplice_def)
    have "system_inv (s\<lparr>sy_account := ?a\<lparr>ra_mem := ?m, ra_data_len := word_of_nat 0\<rparr>\<rparr>)"
      using True m by (intro ri) simp_all
    then have "system_inv (s\<lparr>sy_account := ?a\<lparr>ra_lamports := 0, ra_mem := ?m, ra_data_len := 0, ra_owner := system_program_id\<rparr>\<rparr>)"
      using True by (simp add: system_inv_def mem_ok_def av_data_len_def av_original_data_len_def)
    moreover have "av_check_borrow_mut ?a = Ok ()" using check_borrow_mut_iff [OF D(1)] True by simp
    moreover have len: "av_data_len (?a\<lparr>ra_lamports := 0\<rparr>) = av_data_len ?a" by (simp add: av_data_len_def)
    ultimately show ?thesis
      using True m
      by (cases "av_data_len ?a = 0")
        (auto simp: simulated_def with_account_def av_close_def av_require_writable_def av_set_lamports_def Let_def erase_byte_def len)
  next
    case False
    then show ?thesis using check_borrow_mut_iff [OF D(1)]
      by (auto simp: simulated_def with_account_def av_close_def av_require_writable_def erase_byte_def Let_def)
  qed
qed

lemma other_simulated:
  assumes inv: "system_inv s"
  shows "simulated s CDisc" and "simulated s (CSetLamports l)"
proof -
  note D = system_invD [OF inv]
  have "av_disc (sy_account s) = Ok (if av_data_len (sy_account s) = 0 \<or> list_ex g_exclusive (sy_guards s) then 0
      else ra_mem (sy_account s) ! 0)"
    using D(2) by (auto simp: av_disc_def borrowed_mut_iff [OF D(1)] rd_byte_def)
  then show "simulated s CDisc" using inv by (simp add: simulated_def read_call_def erase_byte_def)
  show "simulated s (CSetLamports l)"
    using inv by (simp add: simulated_def with_account_def av_set_lamports_def erase_byte_def system_inv_def mem_ok_def
        av_data_len_def av_original_data_len_def)
qed

lemma account_exec_simulated: "system_inv s \<Longrightarrow> good_call c \<Longrightarrow> simulated s c"
  by (cases c) (simp_all add: borrow_simulated segment_simulated guards_simulated resize_simulated other_simulated)

interpretation account_sim: simulation account_exec cell_exec erase_byte system_inv good_call
proof
  fix s c s' r
  assume "system_inv s" "good_call c"
  then have "simulated s c" by (rule account_exec_simulated)
  then show "map_state erase_byte (account_exec s c) = cell_exec (erase_byte s) c"
    and "account_exec s c = Ok (s', r) \<Longrightarrow> system_inv s'"
    by (auto simp: simulated_def)
next
  fix s c
  show "cell_exec s c \<noteq> Trap"
    by (cases c) (auto simp: add_guard_def cell_segment_def cell_resize_def Let_def)
qed

section \<open>Resizing and closing\<close>

definition account_data :: "runtime_account \<Rightarrow> bytes" where
  "account_data a = take (av_data_len a) (ra_mem a)"

lemma resize_data:
  assumes "mem_ok a" and "av_resize a n = Ok a'"
  shows "mem_ok a' \<and> av_data_len a' = n \<and> account_data a' = take n (account_data a) @ replicate (n - av_data_len a) 0 \<and>
    (n \<noteq> av_data_len a \<longrightarrow> av_is_writable a \<and> borrow_state a = not_borrowed \<and>
       n \<le> av_original_data_len a + max_permitted_data_increase)"
proof (cases "n = av_data_len a")
  case True
  then show ?thesis using assms by (simp add: av_resize_def account_data_def)
next
  case False
  then have chk: "av_is_writable a" "borrow_state a = not_borrowed" "n - av_original_data_len a \<le> max_permitted_data_increase"
    using assms(2)
    by (auto simp: av_resize_def av_check_resize_def av_require_writable_def av_check_borrow_mut_def obind_Ok_iff Let_def split: if_splits)
  then have n: "n \<le> length (ra_mem a)" "n \<le> av_original_data_len a + max_permitted_data_increase"
    using assms(1) unfolding mem_ok_def by linarith+
  have "av_original_data_len a < 2 ^ 32"
    unfolding av_original_data_len_def using unsigned_less [of "ra_resize_delta a", where 'a = nat] by simp
  then have w: "unat (word_of_nat n :: u64) = n"
    using n(2) by (intro unat_word_of_nat) (simp add: max_permitted_data_increase_def)
  have "av_check_resize a n = Ok ()"
    using chk by (simp add: av_check_resize_def av_require_writable_def av_check_borrow_mut_def)
  then have a': "a' = a\<lparr>ra_mem := if n > av_data_len a then bsplice (av_data_len a) (replicate (n - av_data_len a) 0) (ra_mem a)
      else ra_mem a, ra_data_len := word_of_nat n\<rparr>"
    using assms(2) False n(1) by (auto simp: av_resize_def Let_def split: if_splits)
  have "account_data a' = take n (account_data a) @ replicate (n - av_data_len a) 0"
    using assms(1) n(1) by (auto simp: a' account_data_def av_data_len_def w bsplice_def mem_ok_def min_def)
  moreover have "mem_ok a'"
    using assms(1) n by (auto simp: a' mem_ok_def av_data_len_def av_original_data_len_def w)
  moreover have "av_data_len a' = n" by (simp add: a' av_data_len_def w)
  ultimately show ?thesis using chk n(2) by simp
qed

lemma close_erases:
  assumes "mem_ok a" and "av_close a = Ok a'"
  shows "mem_ok a' \<and> av_data_len a' = 0 \<and> av_lamports a' = 0 \<and> ra_owner a' = system_program_id \<and>
    av_is_writable a \<and> borrow_state a = not_borrowed \<and> take (av_data_len a) (ra_mem a') = replicate (av_data_len a) 0"
proof -
  have chk: "av_is_writable a" "borrow_state a = not_borrowed"
    using assms(2) by (auto simp: av_close_def av_require_writable_def av_check_borrow_mut_def obind_Ok_iff split: if_splits)
  have len: "av_data_len (a\<lparr>ra_lamports := 0\<rparr>) = av_data_len a" by (simp add: av_data_len_def)
  have "a' = a\<lparr>ra_lamports := 0, ra_mem := if av_data_len a = 0 then ra_mem a else bsplice 0 (replicate (av_data_len a) 0) (ra_mem a),
      ra_data_len := 0, ra_owner := system_program_id\<rparr>"
    using assms chk
    by (auto simp: av_close_def av_require_writable_def av_check_borrow_mut_def av_set_lamports_def Let_def len mem_ok_def split: if_splits)
  then show ?thesis using chk assms(1)
    by (auto simp: mem_ok_def av_data_len_def av_original_data_len_def av_lamports_def bsplice_def)
qed

section \<open>Properties\<close>

text \<open>
  C7: Account borrows are a \<^verbatim>\<open>RefCell\<close>. For every account whose memory is as the loader lays it
  out and every sequence of borrows, segment projections, narrowings, drops, stores, loads,
  resizes, closes and balance changes, the one-byte tracking answers as the live guards
  decide, no access leaves the memory, and in every state reached a live exclusive guard is
  the only guard and every guard's range is inside the current data.
\<close>

theorem account_borrows_are_refcell:
  assumes "mem_ok a" and "borrow_state a = not_borrowed" and "list_all good_call cs"
    and "s = \<lparr>sy_account = a, sy_guards = []\<rparr>" and "s' = fst (run_calls account_exec s cs)"
  shows "erase_byte s' = fst (run_calls cell_exec s cs) \<and>
    snd (run_calls account_exec s cs) = snd (run_calls cell_exec s cs) \<and>
    Trap \<notin> set (snd (run_calls account_exec s cs)) \<and>
    (\<forall>g \<in> set (sy_guards s'). (g_exclusive g \<longrightarrow> sy_guards s' = [g]) \<and> g_start g + g_len g \<le> av_data_len (sy_account s')) \<and>
    (borrow_state (sy_account s') = not_borrowed \<longleftrightarrow> sy_guards s' = [])"
proof -
  have inv: "system_inv s" using assms by (simp add: system_inv_def encodes_def)
  have "erase_byte s = s" using assms by (simp add: erase_byte_def)
  then have run: "system_inv s'" "erase_byte s' = fst (run_calls cell_exec s cs)"
      "snd (run_calls account_exec s cs) = snd (run_calls cell_exec s cs)"
    using account_sim.run_refines [OF inv assms(3)] assms(5) by simp_all
  have "Trap \<notin> set (snd (run_calls account_exec s cs))" using account_sim.safe.run_safe [OF inv assms(3)] by blast
  moreover have "sy_guards s' = [g]" if "g \<in> set (sy_guards s')" "g_exclusive g" for g
  proof -
    have "list_ex g_exclusive (sy_guards s')" using that by (auto simp: list_ex_iff)
    then have "length (sy_guards s') = 1"
      using system_invD(1) [OF run(1)] by (auto simp: encodes_def split: if_splits)
    then show ?thesis using that(1) by (auto simp: length_Suc_conv)
  qed
  moreover have "borrow_state (sy_account s') = not_borrowed \<longleftrightarrow> sy_guards s' = []"
    using system_invD(1) [OF run(1)] unat_not_borrowed by (auto simp: encodes_def split: if_splits)
  ultimately show ?thesis using run(2,3) system_invD(4) [OF run(1)] by blast
qed

definition sample_account :: runtime_account where
  "sample_account = \<lparr>borrow_state = not_borrowed, ra_is_signer = 1, ra_is_writable = 1, ra_executable = 0, ra_resize_delta = 3,
     ra_address = replicate 32 1, ra_owner = replicate 32 2, ra_lamports = 9, ra_data_len = 3,
     ra_mem = [5, 6, 7] @ replicate 10240 0\<rparr>"

theorem account_borrows_are_refcell_witness:
  "Trap \<notin> set (snd (run_calls account_exec \<lparr>sy_account = sample_account, sy_guards = []\<rparr> [CBorrowMut, CBorrow, CDrop 0, CClose, CResize 3]))"
proof -
  let ?cs = "[CBorrowMut, CBorrow, CDrop 0, CClose, CResize 3]"
  have "mem_ok sample_account" "borrow_state sample_account = not_borrowed" "list_all good_call ?cs"
    by (simp_all add: mem_ok_def sample_account_def av_data_len_def av_original_data_len_def max_permitted_data_increase_def)
  from account_borrows_are_refcell [OF this refl refl] show ?thesis by blast
qed

text \<open>
  C28: Growth shows zeros and close erases. A successful \<open>resize\<close> keeps the common prefix and
  exposes only zeros beyond it, and changes the length only of a writable, unborrowed account
  within the realloc limit; after \<open>close\<close> the account is empty, without lamports, owned by the
  system program, and neither \<open>resize\<close> nor \<open>resize_raw\<close> up to the old length brings a byte back.
\<close>

theorem resize_and_close_reveal_zeros:
  assumes "mem_ok a"
  shows "(av_resize a n = Ok a' \<longrightarrow>
      account_data a' = take n (account_data a) @ replicate (n - av_data_len a) 0 \<and>
      (n \<noteq> av_data_len a \<longrightarrow> av_is_writable a \<and> borrow_state a = not_borrowed \<and>
         n \<le> av_original_data_len a + max_permitted_data_increase)) \<and>
    (av_close a = Ok a' \<longrightarrow>
      av_data_len a' = 0 \<and> av_lamports a' = 0 \<and> ra_owner a' = system_program_id \<and>
      (\<forall>m b. av_resize a' m = Ok b \<longrightarrow> account_data b = replicate m 0) \<and>
      (\<forall>m b. m \<le> av_data_len a \<and> av_resize_raw a' m = Ok b \<longrightarrow> account_data b = replicate m 0))"
proof (intro conjI impI)
  assume r: "av_resize a n = Ok a'"
  show "account_data a' = take n (account_data a) @ replicate (n - av_data_len a) 0"
    and "n \<noteq> av_data_len a \<Longrightarrow> av_is_writable a" and "n \<noteq> av_data_len a \<Longrightarrow> borrow_state a = not_borrowed"
    and "n \<noteq> av_data_len a \<Longrightarrow> n \<le> av_original_data_len a + max_permitted_data_increase"
    using resize_data [OF assms r] by simp_all
next
  assume "av_close a = Ok a'"
  note c = close_erases [OF assms this]
  then show "av_data_len a' = 0" "av_lamports a' = 0" "ra_owner a' = system_program_id" by simp_all
  have m: "mem_ok a'" "av_data_len a' = 0" using c by simp_all
  show "\<forall>m b. av_resize a' m = Ok b \<longrightarrow> account_data b = replicate m 0"
  proof (intro allI impI)
    fix k b
    assume b: "av_resize a' k = Ok b"
    have "account_data a' = []" by (simp add: account_data_def m(2))
    then show "account_data b = replicate k 0" using resize_data [OF m(1) b] m(2) by simp
  qed
  show "\<forall>m b. m \<le> av_data_len a \<and> av_resize_raw a' m = Ok b \<longrightarrow> account_data b = replicate m 0"
  proof (intro allI impI, elim conjE)
    fix k b
    assume k: "k \<le> av_data_len a" and b: "av_resize_raw a' k = Ok b"
    have "k < 2 ^ 64"
      using k unsigned_less [of "ra_data_len a", where 'a = nat] by (simp add: av_data_len_def)
    then have "unat (word_of_nat k :: u64) = k" by (intro unat_word_of_nat) simp
    then have mem: "ra_mem b = ra_mem a'" and "av_data_len b = k"
      using b m(2) by (auto simp: av_resize_raw_def obind_Ok_iff av_data_len_def split: if_splits)
    then show "account_data b = replicate k 0" using c k mem
      by (metis account_data_def min.absorb1 take_replicate take_take)
  qed
qed

theorem resize_and_close_reveal_zeros_witness:
  "\<exists>b. av_resize sample_account 5 = Ok b \<and> account_data b = [5, 6, 7, 0, 0]"
proof -
  have m: "mem_ok sample_account"
    by (simp add: mem_ok_def sample_account_def av_data_len_def av_original_data_len_def max_permitted_data_increase_def)
  have f: "av_data_len sample_account = 3" "av_original_data_len sample_account = 3" "length (ra_mem sample_account) = 10243"
    "av_is_writable sample_account" "borrow_state sample_account = not_borrowed" "account_data sample_account = [5, 6, 7]"
    by (simp_all add: sample_account_def av_data_len_def av_original_data_len_def av_is_writable_def account_data_def)
  then obtain b where b: "av_resize sample_account 5 = Ok b"
    by (simp add: av_resize_def av_check_resize_def av_require_writable_def av_check_borrow_mut_def
        max_permitted_data_increase_def Let_def)
  then have "account_data b = [5, 6, 7, 0, 0]"
    using resize_and_close_reveal_zeros [OF m, of 5 b] f(1,6) by (simp add: numeral_eq_Suc)
  with b show ?thesis by blast
qed

text \<open>
  The packed header tests agree with the field tests. \<open>expect_flags\<close> demands exactly the
  flags its mask names, and the fused signer and writable test is the two single ones for the
  0 and 1 bytes the loader writes.
\<close>

theorem header_flags_agree:
  "(av_expect_flags a required = Ok () \<longleftrightarrow>
     (bit required 0 \<longrightarrow> av_is_signer a) \<and> (bit required 1 \<longrightarrow> av_is_writable a) \<and>
     (bit required 2 \<longrightarrow> av_executable a) \<and> (bit required 3 \<longrightarrow> av_data_len a \<noteq> 0) \<and>
     \<not> bit required 4 \<and> \<not> bit required 5 \<and> \<not> bit required 6 \<and> \<not> bit required 7) \<and>
   (ra_is_signer a \<in> {0, 1} \<and> ra_is_writable a \<in> {0, 1} \<longrightarrow>
     av_is_signer_writable a need_signer need_writable \<longleftrightarrow>
       (need_signer \<longrightarrow> av_is_signer a) \<and> (need_writable \<longrightarrow> av_is_writable a))"
  using expect_flags_iff signer_writable_iff by blast

theorem header_flags_agree_witness:
  "av_expect_flags sample_account 11 = Ok () \<and> av_is_signer_writable sample_account True True"
  using header_flags_agree [of sample_account 11 True True]
  by (simp add: sample_account_def av_is_signer_def av_is_writable_def av_data_len_def)

end
