(* ===== verification/TailCodec.thy ===== *)
theory TailCodec imports Contracts MachineInts begin

text \<open>
  hopper-runtime/src/tail.rs, the codecs: \<^verbatim>\<open>TailCodec\<close> is the locale \<open>tail_codec\<close>, and every
  implementation of the trait is an interpretation: bytes, integers, booleans, byte arrays,
  addresses, \<^verbatim>\<open>Option\<close>, \<^verbatim>\<open>BoundedString\<close> and \<^verbatim>\<open>BoundedVec\<close>. \<open>encode\<close> works in the caller's
  buffer, so a definition returns the buffer after the call, also when it failed, and what
  the call returned. Shown by each interpretation: encoding writes one canonical byte string
  and nothing else, decoding accepts exactly the canonical strings, and neither panics.
\<close>

section \<open>The contract of the trait\<close>

locale tail_codec =
  fixes enc :: "'v \<Rightarrow> bytes \<Rightarrow> bytes \<times> nat outcome"
    and dec :: "bytes \<Rightarrow> ('v \<times> nat) outcome"
    and canonical :: "'v \<Rightarrow> bytes"
    and valid :: "'v \<Rightarrow> bool"
    and max_len :: nat
  assumes canonical_le: "valid v \<Longrightarrow> length (canonical v) \<le> max_len"
    and enc_fits: "valid v \<Longrightarrow> length (canonical v) \<le> length out \<Longrightarrow>
      enc v out = (canonical v @ drop (length (canonical v)) out, Ok (length (canonical v)))"
    and enc_full: "valid v \<Longrightarrow> length out < length (canonical v) \<Longrightarrow>
      snd (enc v out) = Err AccountDataTooSmall \<and> length (fst (enc v out)) = length out"
    and dec_canonical: "valid v \<Longrightarrow> dec (canonical v @ rest) = Ok (v, length (canonical v))"
    and dec_sound: "dec inp = Ok (v, n) \<Longrightarrow> valid v \<and> n = length (canonical v) \<and> (\<exists>rest. inp = canonical v @ rest)"
    and dec_safe: "dec inp \<noteq> Trap"
begin

lemma enc_length: "valid v \<Longrightarrow> length (fst (enc v out)) = length out"
  by (cases "length (canonical v) \<le> length out") (auto simp: enc_fits enc_full)

lemma canonical_inject: "valid v \<Longrightarrow> valid w \<Longrightarrow> canonical v = canonical w \<Longrightarrow> v = w"
  using dec_canonical [of v "[]"] dec_canonical [of w "[]"] by simp

lemma dec_whole: "dec inp = Ok (v, length inp) \<longleftrightarrow> valid v \<and> inp = canonical v"
  using dec_sound [of inp v "length inp"] dec_canonical [of v "[]"] by fastforce

end

section \<open>Fixed-width codecs\<close>

definition u8_encode :: "u8 \<Rightarrow> bytes \<Rightarrow> bytes \<times> nat outcome" where
  "u8_encode v out = (if out = [] then (out, Err AccountDataTooSmall) else (v # tl out, Ok 1))"
definition u8_decode :: "bytes \<Rightarrow> (u8 \<times> nat) outcome" where
  "u8_decode inp = (case inp of [] \<Rightarrow> Err InvalidAccountData | b # _ \<Rightarrow> Ok (b, 1))"

text \<open>\<^verbatim>\<open>out[..n].copy_from_slice(x)\<close> with \<open>n\<close> the length of \<open>x\<close>, after the length check.\<close>

definition put_front :: "bytes \<Rightarrow> bytes \<Rightarrow> bytes \<times> nat outcome" where
  "put_front x out =
     (if length out < length x then (out, Err AccountDataTooSmall) else (x @ drop (length x) out, Ok (length x)))"

text \<open>
  The macro's integers: \<open>'w\<close> stands for the width, a signed integer is its bit pattern.
\<close>

definition int_bytes :: "'w::len itself \<Rightarrow> nat" where
  "int_bytes _ = LENGTH('w) div 8"
definition int_encode :: "'w::len word \<Rightarrow> bytes \<Rightarrow> bytes \<times> nat outcome" where
  "int_encode v out = put_front (le_enc (int_bytes TYPE('w)) (unat v)) out"
definition int_decode :: "bytes \<Rightarrow> ('w::len word \<times> nat) outcome" where
  "int_decode inp =
     fail_if (length inp < int_bytes TYPE('w)) InvalidAccountData
       (Ok (word_of_nat (le_val (take (int_bytes TYPE('w)) inp)), int_bytes TYPE('w)))"

definition bool_encode :: "bool \<Rightarrow> bytes \<Rightarrow> bytes \<times> nat outcome" where
  "bool_encode v out = (if out = [] then (out, Err AccountDataTooSmall) else ((if v then 1 else 0) # tl out, Ok 1))"
definition bool_decode :: "bytes \<Rightarrow> (bool \<times> nat) outcome" where
  "bool_decode inp =
     (case inp of [] \<Rightarrow> Err InvalidAccountData
      | b # _ \<Rightarrow> if b = 0 then Ok (False, 1) else if b = 1 then Ok (True, 1) else Err InvalidAccountData)"

definition array_encode :: "nat \<Rightarrow> bytes \<Rightarrow> bytes \<Rightarrow> bytes \<times> nat outcome" where
  "array_encode n v out =
     (if length out < n then (out, Err AccountDataTooSmall) else (take n v @ drop n out, Ok n))"
definition array_decode :: "nat \<Rightarrow> bytes \<Rightarrow> (bytes \<times> nat) outcome" where
  "array_decode n inp = fail_if (length inp < n) InvalidAccountData (Ok (take n inp, n))"

definition address_encode :: "bytes \<Rightarrow> bytes \<Rightarrow> bytes \<times> nat outcome" where
  "address_encode v out = array_encode 32 v out"
definition address_decode :: "bytes \<Rightarrow> (bytes \<times> nat) outcome" where
  "address_decode inp = array_decode 32 inp"

lemma u8_codec: "tail_codec u8_encode u8_decode (\<lambda>v. [v]) (\<lambda>v. True) 1"
proof
  fix v w :: u8 and out inp rest :: bytes and n
  show "length [v] \<le> length out \<Longrightarrow> u8_encode v out = ([v] @ drop (length [v]) out, Ok (length [v]))"
    by (cases out) (simp_all add: u8_encode_def)
  show "u8_decode inp = Ok (w, n) \<Longrightarrow> True \<and> n = length [w] \<and> (\<exists>rest. inp = [w] @ rest)"
    by (cases inp) (simp_all add: u8_decode_def)
  show "u8_decode inp \<noteq> Trap" by (cases inp) (simp_all add: u8_decode_def)
qed (simp_all add: u8_encode_def u8_decode_def)

lemma bool_codec: "tail_codec bool_encode bool_decode (\<lambda>v. [if v then 1 else 0]) (\<lambda>v. True) 1"
proof
  fix v w :: bool and out inp rest :: bytes and n
  show "length [if v then 1 else 0 :: u8] \<le> length out \<Longrightarrow> bool_encode v out =
      ([if v then 1 else 0] @ drop (length [if v then 1 else 0 :: u8]) out, Ok (length [if v then 1 else 0 :: u8]))"
    by (cases out) (simp_all add: bool_encode_def)
  show "bool_decode inp = Ok (w, n) \<Longrightarrow>
      True \<and> n = length [if w then 1 else 0 :: u8] \<and> (\<exists>rest. inp = [if w then 1 else 0] @ rest)"
    by (cases inp) (auto simp: bool_decode_def split: if_splits)
  show "bool_decode inp \<noteq> Trap" by (cases inp) (simp_all add: bool_decode_def)
qed (simp_all add: bool_encode_def bool_decode_def)

lemma array_codec: "tail_codec (array_encode n) (array_decode n) (\<lambda>v. v) (\<lambda>v. length v = n) n"
proof
  fix v inp :: bytes and k
  show "array_decode n inp = Ok (v, k) \<Longrightarrow> length v = n \<and> k = length v \<and> (\<exists>rest. inp = v @ rest)"
    by (auto simp: array_decode_def split: if_splits intro: exI [of _ "drop n inp"])
qed (auto simp: array_encode_def array_decode_def)

lemma int_codec:
  assumes "LENGTH('w::len) = 8 * int_bytes TYPE('w)"
  shows "tail_codec (int_encode :: 'w word \<Rightarrow> _) int_decode (\<lambda>v. le_enc (int_bytes TYPE('w)) (unat v)) (\<lambda>v. True) (int_bytes TYPE('w))"
proof -
  let ?n = "int_bytes TYPE('w)"
  have pow: "256 ^ ?n = (2 :: nat) ^ LENGTH('w)" unfolding assms by (simp add: power_mult)
  have there: "word_of_nat (le_val (le_enc ?n (unat v))) = v" for v :: "'w word"
    by (simp add: le_val_enc pow)
  have forth: "le_enc ?n (unat (word_of_nat (le_val x) :: 'w word)) = x" if "length x = ?n" for x
  proof -
    have "le_val x < 2 ^ LENGTH('w)" using le_val_bound [of x] that pow by simp
    then show ?thesis using that by (simp add: unat_word_of_nat le_enc_val')
  qed
  show ?thesis
  proof
    fix v :: "'w word" and inp :: bytes and k
    assume d: "int_decode inp = Ok (v, k)"
    then have "?n \<le> length inp" "k = ?n" "v = word_of_nat (le_val (take ?n inp))"
      by (auto simp: int_decode_def split: if_splits)
    then have "le_enc ?n (unat v) = take ?n inp" using forth [of "take ?n inp"] by simp
    then have "inp = le_enc ?n (unat v) @ drop ?n inp" by simp
    then show "True \<and> k = length (le_enc ?n (unat v)) \<and> (\<exists>rest. inp = le_enc ?n (unat v) @ rest)"
      using \<open>k = ?n\<close> by auto
  qed (auto simp: int_encode_def int_decode_def put_front_def there)
qed

interpretation u8_tail: tail_codec u8_encode u8_decode "\<lambda>v. [v]" "\<lambda>v. True" 1
  by (rule u8_codec)
interpretation bool_tail: tail_codec bool_encode bool_decode "\<lambda>v. [if v then 1 else 0]" "\<lambda>v. True" 1
  by (rule bool_codec)
interpretation array_tail: tail_codec "array_encode n" "array_decode n" "\<lambda>v. v" "\<lambda>v. length v = n" n for n
  by (rule array_codec)
interpretation address_tail: tail_codec address_encode address_decode "\<lambda>v. v" "\<lambda>v. length v = 32" 32
  using array_codec [of 32] unfolding address_encode_def [abs_def] address_decode_def [abs_def] .
interpretation u16_tail: tail_codec "int_encode :: u16 \<Rightarrow> _" int_decode "\<lambda>v. le_enc 2 (unat v)" "\<lambda>v. True" 2
  using int_codec [where 'w = 16] by (simp add: int_bytes_def)
interpretation u32_tail: tail_codec "int_encode :: u32 \<Rightarrow> _" int_decode "\<lambda>v. le_enc 4 (unat v)" "\<lambda>v. True" 4
  using int_codec [where 'w = 32] by (simp add: int_bytes_def)
interpretation u64_tail: tail_codec "int_encode :: u64 \<Rightarrow> _" int_decode "\<lambda>v. le_enc 8 (unat v)" "\<lambda>v. True" 8
  using int_codec [where 'w = 64] by (simp add: int_bytes_def)
interpretation u128_tail: tail_codec "int_encode :: u128 \<Rightarrow> _" int_decode "\<lambda>v. le_enc 16 (unat v)" "\<lambda>v. True" 16
  using int_codec [where 'w = 128] by (simp add: int_bytes_def)

section \<open>Option\<close>

definition option_encode :: "('v \<Rightarrow> bytes \<Rightarrow> bytes \<times> nat outcome) \<Rightarrow> 'v option \<Rightarrow> bytes \<Rightarrow> bytes \<times> nat outcome" where
  "option_encode enc v out =
     (if out = [] then (out, Err AccountDataTooSmall)
      else
        case v of
          None \<Rightarrow> (0 # tl out, Ok 1)
        | Some inner \<Rightarrow> (case enc inner (tl out) of (rest, written) \<Rightarrow> (1 # rest, obind written (\<lambda>w. Ok (1 + w)))))"

definition option_decode :: "(bytes \<Rightarrow> ('v \<times> nat) outcome) \<Rightarrow> bytes \<Rightarrow> ('v option \<times> nat) outcome" where
  "option_decode dec inp =
     (case inp of
        [] \<Rightarrow> Err InvalidAccountData
      | b # rest \<Rightarrow>
          if b = 0 then Ok (None, 1)
          else if b = 1 then obind (dec rest) (\<lambda>(inner, n). Ok (Some inner, 1 + n))
          else Err InvalidAccountData)"

definition option_canonical :: "('v \<Rightarrow> bytes) \<Rightarrow> 'v option \<Rightarrow> bytes" where
  "option_canonical canonical v = (case v of None \<Rightarrow> [0] | Some inner \<Rightarrow> 1 # canonical inner)"

definition option_valid :: "('v \<Rightarrow> bool) \<Rightarrow> 'v option \<Rightarrow> bool" where
  "option_valid valid v \<longleftrightarrow> (case v of None \<Rightarrow> True | Some inner \<Rightarrow> valid inner)"

lemma option_codec:
  assumes "tail_codec enc dec canonical valid max_len"
  shows "tail_codec (option_encode enc) (option_decode dec) (option_canonical canonical) (option_valid valid) (1 + max_len)"
proof -
  note c = tail_codec.canonical_le [OF assms] tail_codec.dec_canonical [OF assms] tail_codec.dec_safe [OF assms]
  note fits = tail_codec.enc_fits [OF assms] and full = tail_codec.enc_full [OF assms] and sound = tail_codec.dec_sound [OF assms]
  show ?thesis
  proof
    fix v :: "'a option" and out inp rest :: bytes and n
    show "option_valid valid v \<Longrightarrow> length (option_canonical canonical v) \<le> 1 + max_len"
      using c(1) by (auto simp: option_valid_def option_canonical_def split: option.splits)
    show "option_valid valid v \<Longrightarrow> length (option_canonical canonical v) \<le> length out \<Longrightarrow> option_encode enc v out =
        (option_canonical canonical v @ drop (length (option_canonical canonical v)) out, Ok (length (option_canonical canonical v)))"
      using fits [of _ "tl out"]
      by (cases out) (auto simp: option_encode_def option_valid_def option_canonical_def split: option.splits)
    show "option_valid valid v \<Longrightarrow> length out < length (option_canonical canonical v) \<Longrightarrow>
        snd (option_encode enc v out) = Err AccountDataTooSmall \<and> length (fst (option_encode enc v out)) = length out"
      using full [of "the v" "tl out"]
      by (cases out) (auto simp: option_encode_def option_valid_def option_canonical_def case_prod_beta split: option.splits)
    show "option_valid valid v \<Longrightarrow> option_decode dec (option_canonical canonical v @ rest) = Ok (v, length (option_canonical canonical v))"
      using c(2) by (auto simp: option_decode_def option_valid_def option_canonical_def split: option.splits)
    show "option_decode dec inp = Ok (v, n) \<Longrightarrow> option_valid valid v \<and> n = length (option_canonical canonical v) \<and>
        (\<exists>rest. inp = option_canonical canonical v @ rest)"
      by (cases inp) (auto simp: option_decode_def option_valid_def option_canonical_def obind_Ok_iff split: if_splits dest!: sound)
    show "option_decode dec inp \<noteq> Trap"
      using c(3) by (cases inp; cases "dec (tl inp)") (auto simp: option_decode_def)
  qed
qed

section \<open>UTF-8\<close>

text \<open>\<^verbatim>\<open>core::str::from_utf8\<close> accepts the well-formed byte sequences of the Unicode standard.\<close>

definition utf8_cont :: "u8 \<Rightarrow> bool" where
  "utf8_cont b \<longleftrightarrow> 0x80 \<le> b \<and> b \<le> 0xBF"

fun utf8_valid :: "bytes \<Rightarrow> bool" where
  "utf8_valid [] = True"
| "utf8_valid (a # bs) =
     (if a < 0x80 then utf8_valid bs
      else if 0xC2 \<le> a \<and> a \<le> 0xDF then (case bs of b # r \<Rightarrow> utf8_cont b \<and> utf8_valid r | _ \<Rightarrow> False)
      else if 0xE0 \<le> a \<and> a \<le> 0xEF then
        (case bs of b # c # r \<Rightarrow>
           (if a = 0xE0 then 0xA0 \<le> b \<and> b \<le> 0xBF else if a = 0xED then 0x80 \<le> b \<and> b \<le> 0x9F else utf8_cont b) \<and>
           utf8_cont c \<and> utf8_valid r
         | _ \<Rightarrow> False)
      else if 0xF0 \<le> a \<and> a \<le> 0xF4 then
        (case bs of b # c # d # r \<Rightarrow>
           (if a = 0xF0 then 0x90 \<le> b \<and> b \<le> 0xBF else if a = 0xF4 then 0x80 \<le> b \<and> b \<le> 0x8F else utf8_cont b) \<and>
           utf8_cont c \<and> utf8_cont d \<and> utf8_valid r
         | _ \<Rightarrow> False)
      else False)"

definition as_utf8 :: "bytes \<Rightarrow> bytes outcome" where
  "as_utf8 b = (if utf8_valid b then Ok b else Err InvalidAccountData)"

section \<open>BoundedString\<close>

text \<open>\<open>N\<close> is the length of \<open>bstr_bytes\<close>; slicing past it panics.\<close>

record bounded_string =
  bstr_len :: u16
  bstr_bytes :: bytes

definition bstr_empty :: "nat \<Rightarrow> bounded_string" where
  "bstr_empty N = \<lparr>bstr_len = 0, bstr_bytes = replicate N 0\<rparr>"
definition bstr_from_bytes :: "nat \<Rightarrow> bytes \<Rightarrow> bounded_string outcome" where
  "bstr_from_bytes N x =
     fail_if (length x > N \<or> length x > 65535) InvalidInstructionData
       (obind (wr (bstr_bytes (bstr_empty N)) 0 x) (\<lambda>b. Ok \<lparr>bstr_len = word_of_nat (length x), bstr_bytes = b\<rparr>))"
definition bstr_set_bytes :: "nat \<Rightarrow> bounded_string \<Rightarrow> bytes \<Rightarrow> bounded_string outcome" where
  "bstr_set_bytes N s x =
     fail_if (length x > N \<or> length x > 65535) InvalidInstructionData
       (obind (wr (replicate N 0) 0 x) (\<lambda>b. Ok (s\<lparr>bstr_bytes := b, bstr_len := word_of_nat (length x)\<rparr>)))"
definition bstr_clear :: "nat \<Rightarrow> bounded_string \<Rightarrow> bounded_string" where
  "bstr_clear N s = s\<lparr>bstr_bytes := replicate N 0, bstr_len := 0\<rparr>"
definition bstr_as_bytes :: "bounded_string \<Rightarrow> bytes outcome" where
  "bstr_as_bytes s = rd (bstr_bytes s) 0 (unat (bstr_len s))"
definition bstr_as_str :: "bounded_string \<Rightarrow> bytes outcome" where
  "bstr_as_str s = obind (bstr_as_bytes s) as_utf8"
definition bstr_length :: "bounded_string \<Rightarrow> nat" where
  "bstr_length s = unat (bstr_len s)"
definition bstr_remaining_capacity :: "nat \<Rightarrow> bounded_string \<Rightarrow> nat outcome" where
  "bstr_remaining_capacity N s = (if unat (bstr_len s) \<le> N then Ok (N - unat (bstr_len s)) else Trap)"
definition bstr_is_full :: "nat \<Rightarrow> bounded_string \<Rightarrow> bool" where
  "bstr_is_full N s \<longleftrightarrow> unat (bstr_len s) = N"
definition bstr_is_empty :: "bounded_string \<Rightarrow> bool" where
  "bstr_is_empty s \<longleftrightarrow> bstr_len s = 0"

definition bstr_encode :: "nat \<Rightarrow> bounded_string \<Rightarrow> bytes \<Rightarrow> bytes \<times> nat outcome" where
  "bstr_encode N s out =
     (let len = unat (bstr_len s) in
      if len > N \<or> length out < 2 + len then (out, Err AccountDataTooSmall)
      else
        case obind (wr out 0 (le_enc 2 len)) (\<lambda>o1. obind (rd (bstr_bytes s) 0 len) (\<lambda>x. wr o1 2 x)) of
          Ok o2 \<Rightarrow> (o2, Ok (2 + len))
        | Err e \<Rightarrow> (out, Err e)
        | Trap \<Rightarrow> (out, Trap))"

definition bstr_decode :: "nat \<Rightarrow> bytes \<Rightarrow> (bounded_string \<times> nat) outcome" where
  "bstr_decode N inp =
     fail_if (length inp < 2) InvalidAccountData
       (let len = le_val (take 2 inp) in
        fail_if (len > N \<or> length inp < 2 + len) InvalidAccountData
          (obind (rd inp 2 len) (\<lambda>x. obind (wr (replicate N 0) 0 x) (\<lambda>b.
           Ok (\<lparr>bstr_len = word_of_nat len, bstr_bytes = b\<rparr>, 2 + len)))))"

definition bstr_valid :: "nat \<Rightarrow> bounded_string \<Rightarrow> bool" where
  "bstr_valid N s \<longleftrightarrow> length (bstr_bytes s) = N \<and> unat (bstr_len s) \<le> N \<and>
     drop (unat (bstr_len s)) (bstr_bytes s) = replicate (N - unat (bstr_len s)) 0"

definition bstr_canonical :: "bounded_string \<Rightarrow> bytes" where
  "bstr_canonical s = le_enc 2 (unat (bstr_len s)) @ take (unat (bstr_len s)) (bstr_bytes s)"

lemma le_val_2: "length x = 2 \<Longrightarrow> le_val x < 65536"
  using le_val_bound [of x] by simp

lemma bstr_codec: "tail_codec (bstr_encode N) (bstr_decode N) bstr_canonical (bstr_valid N) (2 + N)"
proof
  fix s :: bounded_string and out inp rest :: bytes and n
  let ?len = "unat (bstr_len s)"
  have len: "?len < 65536" using unsigned_less [of "bstr_len s", where 'a = nat] by simp
  { assume v: "bstr_valid N s"
    then have c: "length (bstr_canonical s) = 2 + ?len" by (simp add: bstr_valid_def bstr_canonical_def)
    show "length (bstr_canonical s) \<le> 2 + N" using v c by (simp add: bstr_valid_def)
    show "length out < length (bstr_canonical s) \<Longrightarrow>
        snd (bstr_encode N s out) = Err AccountDataTooSmall \<and> length (fst (bstr_encode N s out)) = length out"
      using c by (simp add: bstr_encode_def Let_def)
    show "length (bstr_canonical s) \<le> length out \<Longrightarrow> bstr_encode N s out =
        (bstr_canonical s @ drop (length (bstr_canonical s)) out, Ok (length (bstr_canonical s)))"
      using v c by (simp add: bstr_encode_def bstr_valid_def Let_def) (simp add: bsplice_def bslice_def bstr_canonical_def)
    have "bslice 0 ?len (bstr_bytes s) @ replicate (N - ?len) 0 = bstr_bytes s"
      using v by (simp add: bstr_valid_def bslice_def) (metis append_take_drop_id)
    then have "bsplice 0 (take ?len (bstr_bytes s)) (replicate N 0) = bstr_bytes s"
      using v by (simp add: bsplice_def bslice_def bstr_valid_def)
    then show "bstr_decode N (bstr_canonical s @ rest) = Ok (s, length (bstr_canonical s))"
      using v c len by (simp add: bstr_decode_def bstr_canonical_def bstr_valid_def Let_def le_val_enc bslice_def) }
  { assume d: "bstr_decode N inp = Ok (s, n)"
    then have l: "2 \<le> length inp" by (simp add: bstr_decode_def split: if_splits)
    let ?m = "le_val (take 2 inp)"
    have m: "?m < 65536" using le_val_2 [of "take 2 inp"] l by simp
    then have w: "unat (word_of_nat ?m :: u16) = ?m" by (intro unat_word_of_nat) simp
    have f: "?m \<le> N" "2 + ?m \<le> length inp" using d l by (auto simp: bstr_decode_def Let_def split: if_splits)
    then have s: "n = 2 + ?m" "s = \<lparr>bstr_len = word_of_nat ?m, bstr_bytes = bslice 2 ?m inp @ replicate (N - ?m) 0\<rparr>"
      using d l by (auto simp: bstr_decode_def Let_def bsplice_def)
    have "le_enc 2 ?m = take 2 inp" using l by (intro le_enc_val') simp
    then have "bstr_canonical s = take 2 inp @ bslice 2 ?m inp" using f by (simp add: s bstr_canonical_def w)
    also have "\<dots> = take (2 + ?m) inp" by (simp only: bslice_def take_add)
    finally have "bstr_canonical s = take n inp" by (simp add: s)
    then show "bstr_valid N s \<and> n = length (bstr_canonical s) \<and> (\<exists>rest. inp = bstr_canonical s @ rest)"
      using f s w by (auto simp: bstr_valid_def intro!: exI [of _ "drop n inp"]) }
  show "bstr_decode N inp \<noteq> Trap"
    by (auto simp: bstr_decode_def Let_def)
qed

section \<open>BoundedVec\<close>

text \<open>\<open>N\<close> is the length of \<open>bv_items\<close>, \<open>dflt\<close> is \<^verbatim>\<open>T::default()\<close>; indexing past \<open>N\<close> panics.\<close>

record 'v bounded_vec =
  bv_len :: u16
  bv_items :: "'v list"

definition bv_put :: "'v list \<Rightarrow> nat \<Rightarrow> 'v \<Rightarrow> 'v list outcome" where
  "bv_put items i x = (if i < length items then Ok (items[i := x]) else Trap)"
definition bv_at :: "'v list \<Rightarrow> nat \<Rightarrow> 'v outcome" where
  "bv_at items i = (if i < length items then Ok (items ! i) else Trap)"

definition bv_empty :: "nat \<Rightarrow> 'v \<Rightarrow> 'v bounded_vec" where
  "bv_empty N dflt = \<lparr>bv_len = 0, bv_items = replicate N dflt\<rparr>"
definition bv_as_slice :: "'v bounded_vec \<Rightarrow> 'v list outcome" where
  "bv_as_slice v = (if unat (bv_len v) \<le> length (bv_items v) then Ok (take (unat (bv_len v)) (bv_items v)) else Trap)"
definition bv_from_slice :: "nat \<Rightarrow> 'v \<Rightarrow> 'v list \<Rightarrow> 'v bounded_vec outcome" where
  "bv_from_slice N dflt xs =
     fail_if (length xs > N \<or> length xs > 65535) InvalidInstructionData
       (Ok \<lparr>bv_len = word_of_nat (length xs), bv_items = xs @ drop (length xs) (bv_items (bv_empty N dflt))\<rparr>)"
definition bv_push :: "nat \<Rightarrow> 'v bounded_vec \<Rightarrow> 'v \<Rightarrow> 'v bounded_vec outcome" where
  "bv_push N v item =
     (let len = unat (bv_len v) in
      fail_if (len \<ge> N \<or> len \<ge> 65535) AccountDataTooSmall
        (obind (bv_put (bv_items v) len item) (\<lambda>items.
         obind (native_add (bv_len v) 1) (\<lambda>l. Ok (v\<lparr>bv_items := items, bv_len := l\<rparr>)))))"
definition bv_pop :: "'v \<Rightarrow> 'v bounded_vec \<Rightarrow> ('v bounded_vec \<times> 'v option) outcome" where
  "bv_pop dflt v =
     (let len = unat (bv_len v) in
      if len = 0 then Ok (v, None)
      else
        let new_len = len - 1 in
        obind (bv_at (bv_items v) new_len) (\<lambda>item.
        obind (bv_put (bv_items v) new_len dflt) (\<lambda>items.
        Ok (v\<lparr>bv_items := items, bv_len := word_of_nat new_len\<rparr>, Some item))))"

fun bv_clear_loop :: "'v \<Rightarrow> 'v list \<Rightarrow> nat \<Rightarrow> nat \<Rightarrow> 'v list outcome" where
  "bv_clear_loop dflt items i 0 = Ok items"
| "bv_clear_loop dflt items i (Suc k) = obind (bv_put items i dflt) (\<lambda>items'. bv_clear_loop dflt items' (i + 1) k)"

definition bv_clear :: "'v \<Rightarrow> 'v bounded_vec \<Rightarrow> 'v bounded_vec outcome" where
  "bv_clear dflt v = obind (bv_clear_loop dflt (bv_items v) 0 (unat (bv_len v))) (\<lambda>items. Ok (v\<lparr>bv_items := items, bv_len := 0\<rparr>))"

definition bv_contains :: "'v bounded_vec \<Rightarrow> 'v \<Rightarrow> bool outcome" where
  "bv_contains v item = obind (bv_as_slice v) (\<lambda>xs. Ok (list_ex (\<lambda>candidate. candidate = item) xs))"
definition bv_push_unique :: "nat \<Rightarrow> 'v bounded_vec \<Rightarrow> 'v \<Rightarrow> ('v bounded_vec \<times> bool) outcome" where
  "bv_push_unique N v item =
     obind (bv_contains v item) (\<lambda>found.
     if found then Ok (v, False) else obind (bv_push N v item) (\<lambda>v'. Ok (v', True)))"

fun bv_find_loop :: "'v list \<Rightarrow> 'v \<Rightarrow> nat \<Rightarrow> nat \<Rightarrow> nat option outcome" where
  "bv_find_loop items item i 0 = Ok None"
| "bv_find_loop items item i (Suc k) =
     obind (bv_at items i) (\<lambda>x. if x = item then Ok (Some i) else bv_find_loop items item (i + 1) k)"

text \<open>\<^verbatim>\<open>while j + 1 < len { items[j] = items[j + 1] }\<close>, \<open>k\<close> iterations to go.\<close>

fun bv_shift_loop :: "'v list \<Rightarrow> nat \<Rightarrow> nat \<Rightarrow> 'v list outcome" where
  "bv_shift_loop items j 0 = Ok items"
| "bv_shift_loop items j (Suc k) =
     obind (bv_at items (j + 1)) (\<lambda>x. obind (bv_put items j x) (\<lambda>items'. bv_shift_loop items' (j + 1) k))"

definition bv_remove_first :: "'v \<Rightarrow> 'v bounded_vec \<Rightarrow> 'v \<Rightarrow> ('v bounded_vec \<times> bool) outcome" where
  "bv_remove_first dflt v item =
     (let len = unat (bv_len v) in
      obind (bv_find_loop (bv_items v) item 0 len) (\<lambda>found.
      case found of
        None \<Rightarrow> Ok (v, False)
      | Some index \<Rightarrow>
          obind (bv_shift_loop (bv_items v) index (len - 1 - index)) (\<lambda>items.
          obind (bv_put items (len - 1) dflt) (\<lambda>items'.
          Ok (v\<lparr>bv_items := items', bv_len := word_of_nat (len - 1)\<rparr>, True)))))"

fun vec_encode_items ::
  "('v \<Rightarrow> bytes \<Rightarrow> bytes \<times> nat outcome) \<Rightarrow> 'v list \<Rightarrow> bytes \<Rightarrow> nat \<Rightarrow> bytes \<times> nat outcome" where
  "vec_encode_items enc [] out cursor = (out, Ok cursor)"
| "vec_encode_items enc (item # items) out cursor =
     (if cursor > length out then (out, Trap)
      else
        case enc item (drop cursor out) of
          (rest, Ok written) \<Rightarrow> vec_encode_items enc items (take cursor out @ rest) (cursor + written)
        | (rest, Err e) \<Rightarrow> (take cursor out @ rest, Err e)
        | (rest, Trap) \<Rightarrow> (take cursor out @ rest, Trap))"

definition bv_encode :: "nat \<Rightarrow> ('v \<Rightarrow> bytes \<Rightarrow> bytes \<times> nat outcome) \<Rightarrow> 'v bounded_vec \<Rightarrow> bytes \<Rightarrow> bytes \<times> nat outcome" where
  "bv_encode N enc v out =
     (let len = unat (bv_len v) in
      if len > N \<or> length out < 2 then (out, Err AccountDataTooSmall)
      else
        let out' = le_enc 2 len @ drop 2 out in
        case bv_as_slice v of
          Ok items \<Rightarrow> vec_encode_items enc items out' 2
        | Err e \<Rightarrow> (out', Err e)
        | Trap \<Rightarrow> (out', Trap))"

fun vec_decode_items ::
  "(bytes \<Rightarrow> ('v \<times> nat) outcome) \<Rightarrow> bytes \<Rightarrow> 'v list \<Rightarrow> nat \<Rightarrow> nat \<Rightarrow> nat \<Rightarrow> ('v list \<times> nat) outcome" where
  "vec_decode_items dec inp items i cursor 0 = Ok (items, cursor)"
| "vec_decode_items dec inp items i cursor (Suc k) =
     (if cursor > length inp then Trap
      else
        obind (dec (drop cursor inp)) (\<lambda>(item, consumed).
        obind (bv_put items i item) (\<lambda>items'.
        vec_decode_items dec inp items' (i + 1) (cursor + consumed) k)))"

definition bv_decode :: "nat \<Rightarrow> 'v \<Rightarrow> (bytes \<Rightarrow> ('v \<times> nat) outcome) \<Rightarrow> bytes \<Rightarrow> ('v bounded_vec \<times> nat) outcome" where
  "bv_decode N dflt dec inp =
     fail_if (length inp < 2) InvalidAccountData
       (let len = le_val (take 2 inp) in
        fail_if (len > N) InvalidAccountData
          (obind (vec_decode_items dec inp (bv_items (bv_empty N dflt)) 0 2 len) (\<lambda>(items, cursor).
           Ok (\<lparr>bv_len = word_of_nat len, bv_items = items\<rparr>, cursor))))"

definition live_items :: "'v bounded_vec \<Rightarrow> 'v list" where
  "live_items v = take (unat (bv_len v)) (bv_items v)"

definition bv_valid :: "nat \<Rightarrow> 'v \<Rightarrow> ('v \<Rightarrow> bool) \<Rightarrow> 'v bounded_vec \<Rightarrow> bool" where
  "bv_valid N dflt valid v \<longleftrightarrow> length (bv_items v) = N \<and> unat (bv_len v) \<le> N \<and> list_all valid (live_items v) \<and>
     drop (unat (bv_len v)) (bv_items v) = replicate (N - unat (bv_len v)) dflt"

definition bv_canonical :: "('v \<Rightarrow> bytes) \<Rightarrow> 'v bounded_vec \<Rightarrow> bytes" where
  "bv_canonical canonical v = le_enc 2 (unat (bv_len v)) @ concat (List.map canonical (live_items v))"

lemma bv_valid_eq:
  "bv_valid N dflt valid v \<longleftrightarrow> unat (bv_len v) \<le> N \<and> list_all valid (live_items v) \<and> length (live_items v) = unat (bv_len v) \<and>
     bv_items v = live_items v @ replicate (N - unat (bv_len v)) dflt"
proof -
  let ?n = "unat (bv_len v)" and ?xs = "bv_items v"
  have split: "?xs = take ?n ?xs @ drop ?n ?xs" by simp
  have "drop ?n ?xs = r" "length ?xs = ?n + length r" if "?xs = take ?n ?xs @ r" "length (take ?n ?xs) = ?n" for r
    using that split by (metis same_append_eq, metis length_append)
  note fwd = this
  show ?thesis
    unfolding bv_valid_def live_items_def
  proof (intro iffI conjI; elim conjE)
    assume n: "length ?xs = N" "?n \<le> N" and r: "drop ?n ?xs = replicate (N - ?n) dflt"
    show "?xs = take ?n ?xs @ replicate (N - ?n) dflt" using split unfolding r .
    show "length (take ?n ?xs) = ?n" using n by simp
  next
    assume n: "?n \<le> N" "length (take ?n ?xs) = ?n" and r: "?xs = take ?n ?xs @ replicate (N - ?n) dflt"
    show "length ?xs = N" using fwd(2) [OF r n(2)] n(1) by simp
    show "drop ?n ?xs = replicate (N - ?n) dflt" using fwd(1) [OF r n(2)] .
  qed
qed

context tail_codec
begin

lemma encode_items_fits:
  assumes "list_all valid items" and "length pre + length (concat (List.map canonical items)) \<le> length pre + length post"
  shows "vec_encode_items enc items (pre @ post) (length pre) =
    (pre @ concat (List.map canonical items) @ drop (length (concat (List.map canonical items))) post,
     Ok (length pre + length (concat (List.map canonical items))))"
  using assms
proof (induction items arbitrary: pre post)
  case (Cons x xs)
  let ?c = "canonical x"
  have e: "enc x post = (?c @ drop (length ?c) post, Ok (length ?c))" using Cons.prems by (intro enc_fits) auto
  show ?case
    using Cons.IH [of "pre @ ?c" "drop (length ?c) post"] Cons.prems
    by (simp add: e add.assoc add.commute add.left_commute)
qed simp

lemma encode_items_full:
  assumes "list_all valid items" and "length post < length (concat (List.map canonical items))"
  shows "snd (vec_encode_items enc items (pre @ post) (length pre)) = Err AccountDataTooSmall \<and>
    length (fst (vec_encode_items enc items (pre @ post) (length pre))) = length pre + length post"
  using assms
proof (induction items arbitrary: pre post)
  case (Cons x xs)
  let ?c = "canonical x"
  show ?case
  proof (cases "length ?c \<le> length post")
    case True
    then have e: "enc x post = (?c @ drop (length ?c) post, Ok (length ?c))" using Cons.prems by (intro enc_fits) auto
    show ?thesis using Cons.IH [of "drop (length ?c) post" "pre @ ?c"] Cons.prems True by (auto simp: e add.assoc)
  next
    case False
    then have "snd (enc x post) = Err AccountDataTooSmall \<and> length (fst (enc x post)) = length post"
      using Cons.prems by (intro enc_full) auto
    then show ?thesis by (cases "enc x post") simp
  qed
qed simp

lemma decode_items_canonical:
  assumes "list_all valid xs" and "inp = pre @ concat (List.map canonical xs) @ rest" and "i + length xs \<le> length items"
  shows "vec_decode_items dec inp items i (length pre) (length xs) =
    Ok (take i items @ xs @ drop (i + length xs) items, length pre + length (concat (List.map canonical xs)))"
  using assms
proof (induction xs arbitrary: pre items i)
  case (Cons x xs)
  let ?c = "canonical x"
  have d: "dec (canonical x @ concat (List.map canonical xs) @ rest) = Ok (x, length ?c)"
    using Cons.prems(1) by (intro dec_canonical) simp
  have "vec_decode_items dec inp (items[i := x]) (i + 1) (length (pre @ ?c)) (length xs) =
      Ok (take (i + 1) (items[i := x]) @ xs @ drop (i + 1 + length xs) (items[i := x]),
        length (pre @ ?c) + length (concat (List.map canonical xs)))"
    using Cons.prems by (intro Cons.IH) auto
  moreover have "take (i + 1) (items[i := x]) = take i items @ [x]" using Cons.prems(3) by (simp add: take_Suc_conv_app_nth)
  ultimately show ?case using Cons.prems by (simp add: d bv_put_def add.assoc)
qed simp

lemma decode_items_sound:
  assumes "vec_decode_items dec inp items i cursor k = Ok (items', cursor')"
    and "cursor \<le> length inp" and "i + k \<le> length items"
  shows "\<exists>xs. length xs = k \<and> list_all valid xs \<and> items' = take i items @ xs @ drop (i + k) items \<and>
    cursor' = cursor + length (concat (List.map canonical xs)) \<and> cursor' \<le> length inp \<and>
    bslice cursor (cursor' - cursor) inp = concat (List.map canonical xs)"
  using assms
proof (induction k arbitrary: items i cursor)
  case (Suc k)
  from Suc.prems obtain x c where d: "dec (drop cursor inp) = Ok (x, c)"
    and rest: "vec_decode_items dec inp (items[i := x]) (i + 1) (cursor + c) k = Ok (items', cursor')"
    by (auto simp: obind_Ok_iff bv_put_def split: if_splits)
  obtain tail where t: "valid x" "c = length (canonical x)" "drop cursor inp = canonical x @ tail"
    using dec_sound [OF d] by blast
  have c: "cursor + c \<le> length inp" using t Suc.prems(2) by (metis add.commute diff_le_self le_add1 le_diff_conv2 length_append length_drop)
  obtain xs where xs: "length xs = k" "list_all valid xs" "items' = take (i + 1) (items[i := x]) @ xs @ drop (i + 1 + k) (items[i := x])"
    "cursor' = cursor + c + length (concat (List.map canonical xs))" "cursor' \<le> length inp"
    "bslice (cursor + c) (cursor' - (cursor + c)) inp = concat (List.map canonical xs)"
    using Suc.IH [OF rest c] Suc.prems(3) by auto
  have "take (i + 1) (items[i := x]) = take i items @ [x]" using Suc.prems(3) by (simp add: take_Suc_conv_app_nth)
  moreover have "bslice cursor (cursor' - cursor) inp = canonical x @ concat (List.map canonical xs)"
  proof -
    have "drop c (drop cursor inp) = tail" using t by simp
    then have "drop (cursor + c) inp = tail" by (simp add: add.commute)
    then have "take (length (concat (List.map canonical xs))) tail = concat (List.map canonical xs)"
      using xs(4,6) by (simp add: bslice_def)
    then show ?thesis using t xs(4) by (simp add: bslice_def)
  qed
  ultimately show ?case using t xs Suc.prems(3) by (intro exI [of _ "x # xs"]) (auto simp: add.assoc)
qed (simp add: bslice_def)

lemma decode_items_safe:
  assumes "cursor \<le> length inp" and "i + k \<le> length items"
  shows "vec_decode_items dec inp items i cursor k \<noteq> Trap"
  using assms
proof (induction k arbitrary: items i cursor)
  case (Suc k)
  show ?case
  proof (cases "dec (drop cursor inp)")
    case (Ok r)
    obtain x c where r: "r = (x, c)" by (cases r)
    then obtain tail where "c = length (canonical x)" "drop cursor inp = canonical x @ tail"
      using dec_sound [of "drop cursor inp" x c] Ok by blast
    then have "cursor + c \<le> length inp"
      using Suc.prems(1) by (metis add.commute diff_le_self le_add1 le_diff_conv2 length_append length_drop)
    then show ?thesis using Suc Ok r by (auto simp: bv_put_def)
  qed (use Suc.prems dec_safe in auto)
qed simp

end

lemma bv_codec:
  assumes codec: "tail_codec enc dec canonical valid max_len"
  shows "tail_codec (bv_encode N enc) (bv_decode N dflt dec) (bv_canonical canonical) (bv_valid N dflt valid) (2 + N * max_len)"
proof
  fix v :: "'a bounded_vec" and out inp rest :: bytes and n
  let ?len = "unat (bv_len v)"
  let ?items = "live_items v"
  let ?body = "concat (List.map canonical ?items)"
  have len: "?len < 65536" using unsigned_less [of "bv_len v", where 'a = nat] by simp
  { assume v: "bv_valid N dflt valid v"
    then have f: "?len \<le> N" "list_all valid ?items" "length ?items = ?len"
        "bv_items v = ?items @ replicate (N - ?len) dflt"
      unfolding bv_valid_eq by blast+
    have slice: "bv_as_slice v = Ok ?items" using v by (simp add: bv_as_slice_def live_items_def bv_valid_def)
    have c: "length (bv_canonical canonical v) = 2 + length ?body" by (simp add: bv_canonical_def)
    have "length (concat (List.map canonical xs)) \<le> length xs * max_len" if "list_all valid xs" for xs
      using that
    proof (induction xs)
      case (Cons x xs)
      then show ?case using tail_codec.canonical_le [OF codec, of x] by (simp add: add_mono)
    qed simp
    from this [OF f(2)] have "length ?body \<le> N * max_len" using f(1,3) by (metis le_trans mult_le_mono1)
    then show "length (bv_canonical canonical v) \<le> 2 + N * max_len" unfolding c by simp
    have start: "le_enc 2 ?len @ drop 2 out = le_enc 2 ?len @ drop 2 out" and two: "length (le_enc 2 ?len) = 2" by simp_all
    show "length (bv_canonical canonical v) \<le> length out \<Longrightarrow> bv_encode N enc v out =
        (bv_canonical canonical v @ drop (length (bv_canonical canonical v)) out, Ok (length (bv_canonical canonical v)))"
      using tail_codec.encode_items_fits [OF codec f(2), of "le_enc 2 ?len" "drop 2 out"] f(1) slice c
      unfolding two by (simp add: bv_encode_def Let_def bv_canonical_def)
    show "length out < length (bv_canonical canonical v) \<Longrightarrow>
        snd (bv_encode N enc v out) = Err AccountDataTooSmall \<and> length (fst (bv_encode N enc v out)) = length out"
      using tail_codec.encode_items_full [OF codec f(2), of "drop 2 out" "le_enc 2 ?len"] f(1) slice c
      unfolding two by (cases "length out < 2") (auto simp: bv_encode_def Let_def)
    have "vec_decode_items dec (bv_canonical canonical v @ rest) (replicate N dflt) 0 2 ?len =
        Ok (?items @ replicate (N - ?len) dflt, 2 + length ?body)"
      using tail_codec.decode_items_canonical [OF codec f(2), of "bv_canonical canonical v @ rest" "le_enc 2 ?len" rest 0 "replicate N dflt"]
        f(1,3) by (simp add: bv_canonical_def)
    then show "bv_decode N dflt dec (bv_canonical canonical v @ rest) = Ok (v, length (bv_canonical canonical v))"
      using f(1,4) len c by (simp add: bv_decode_def bv_empty_def Let_def bv_canonical_def le_val_enc) }
  { assume d: "bv_decode N dflt dec inp = Ok (v, n)"
    let ?m = "le_val (take 2 inp)"
    have l: "2 \<le> length inp" "?m \<le> N" using d by (auto simp: bv_decode_def Let_def split: if_splits)
    then have "?m < 65536" using le_val_2 [of "take 2 inp"] by simp
    then have w: "unat (word_of_nat ?m :: u16) = ?m" by (intro unat_word_of_nat) simp
    obtain items where v: "v = \<lparr>bv_len = word_of_nat ?m, bv_items = items\<rparr>"
      and run: "vec_decode_items dec inp (replicate N dflt) 0 2 ?m = Ok (items, n)"
      using d l by (auto simp: bv_decode_def bv_empty_def Let_def obind_Ok_iff)
    obtain xs where xs: "length xs = ?m" "list_all valid xs" "items = xs @ replicate (N - ?m) dflt"
        "n = 2 + length (concat (List.map canonical xs))" "n \<le> length inp" "bslice 2 (n - 2) inp = concat (List.map canonical xs)"
      using tail_codec.decode_items_sound [OF codec run] l by auto
    have live: "live_items v = xs" using xs by (simp add: live_items_def v w)
    have "le_enc 2 ?m = take 2 inp" using l by (intro le_enc_val') simp
    then have "bv_canonical canonical v = take 2 inp @ bslice 2 (n - 2) inp"
      unfolding bv_canonical_def live xs(6) by (simp add: v w)
    also have "\<dots> = take (2 + (n - 2)) inp" by (simp only: bslice_def take_add)
    finally have can: "bv_canonical canonical v = take n inp" using xs(4) by simp
    have "bv_valid N dflt valid v" unfolding bv_valid_eq live using xs l w by (simp add: v)
    then show "bv_valid N dflt valid v \<and> n = length (bv_canonical canonical v) \<and> (\<exists>rest. inp = bv_canonical canonical v @ rest)"
      using can xs(5) by (auto intro!: exI [of _ "drop n inp"]) }
  show "bv_decode N dflt dec inp \<noteq> Trap"
    using tail_codec.decode_items_safe [OF codec, of 2 inp 0 "le_val (take 2 inp)" "replicate N dflt"]
    by (cases "vec_decode_items dec inp (replicate N dflt) 0 2 (le_val (take 2 inp))")
      (auto simp: bv_decode_def bv_empty_def Let_def not_less)
qed

interpretation string_tail: tail_codec "bstr_encode N" "bstr_decode N" bstr_canonical "bstr_valid N" "2 + N" for N
  by (rule bstr_codec)
interpretation u64_option_tail: tail_codec "option_encode (int_encode :: u64 \<Rightarrow> _)" "option_decode int_decode"
  "option_canonical (\<lambda>v. le_enc 8 (unat v))" "option_valid (\<lambda>v. True)" "1 + 8"
  by (rule option_codec) (rule u64_tail.tail_codec_axioms)
interpretation address_vec_tail: tail_codec "bv_encode N address_encode" "bv_decode N (replicate 32 0) address_decode"
  "bv_canonical (\<lambda>v. v)" "bv_valid N (replicate 32 0) (\<lambda>v. length v = 32)" "2 + N * 32" for N
  by (rule bv_codec) (rule address_tail.tail_codec_axioms)

end
