(* ===== verification/TailStore.thy ===== *)
theory TailStore imports TailCodec FixedVec begin

text \<open>
  hopper-runtime/src/tail.rs, the storage: the length-prefixed tail after a fixed body, its
  in-place field replacement, the borrowed readers, and \<^verbatim>\<open>Seq\<close>, the growable sequence of
  fixed-stride elements. A function that writes returns the account's bytes as it leaves them
  also when it fails. Shown: writing then reading returns the value and touches only the
  tail; replacing a field splices it between its neighbours; and a sequence is a \<open>FixedVec\<close>
  of encoded elements.
\<close>

section \<open>The tail\<close>

definition read_tail_len :: "bytes \<Rightarrow> nat \<Rightarrow> nat outcome" where
  "read_tail_len d body_end =
     (let finish = body_end + 4 in
      fail_if (length d < finish) AccountDataTooSmall (rd_u32 d body_end))"

definition tail_payload :: "bytes \<Rightarrow> nat \<Rightarrow> bytes outcome" where
  "tail_payload d body_end =
     obind (read_tail_len d body_end) (\<lambda>len.
     let start = body_end + 4; finish = start + len in
     fail_if (length d < finish) InvalidAccountData (rd d start len))"

definition tail_capacity :: "bytes \<Rightarrow> nat \<Rightarrow> nat outcome" where
  "tail_capacity d body_end =
     (let start = body_end + 4 in fail_if (length d < start) AccountDataTooSmall (Ok (length d - start)))"

definition borrow_bounded_str :: "nat \<Rightarrow> bytes \<Rightarrow> (bytes \<times> nat) outcome" where
  "borrow_bounded_str N inp =
     fail_if (length inp < 2) InvalidAccountData
       (let len = le_val (take 2 inp) in
        fail_if (len > N \<or> length inp < 2 + len) InvalidAccountData
          (obind (rd inp 2 len) (\<lambda>b. obind (as_utf8 b) (\<lambda>x. Ok (x, 2 + len)))))"

text \<open>The cast of \<open>len * 32\<close> bytes to a slice of addresses.\<close>

fun address_chunks :: "nat \<Rightarrow> bytes \<Rightarrow> bytes list" where
  "address_chunks 0 b = []"
| "address_chunks (Suc n) b = take 32 b # address_chunks n (drop 32 b)"

definition borrow_address_slice :: "nat \<Rightarrow> bytes \<Rightarrow> (bytes list \<times> nat) outcome" where
  "borrow_address_slice N inp =
     fail_if (length inp < 2) InvalidAccountData
       (let len = le_val (take 2 inp) in
        fail_if (len > N) InvalidAccountData
          (let finish = 2 + len * 32 in
           fail_if (length inp < finish) InvalidAccountData
             (obind (rd inp 2 (len * 32)) (\<lambda>b. Ok (address_chunks len b, finish)))))"

definition read_tail :: "(bytes \<Rightarrow> ('v \<times> nat) outcome) \<Rightarrow> bytes \<Rightarrow> nat \<Rightarrow> 'v outcome" where
  "read_tail dec d body_end =
     obind (tail_payload d body_end) (\<lambda>payload.
     obind (dec payload) (\<lambda>(value, consumed).
     fail_if (consumed \<noteq> length payload) InvalidAccountData (Ok value)))"

text \<open>A write that must succeed, or the bytes so far and the failure.\<close>

definition finish_write :: "bytes \<Rightarrow> bytes outcome \<Rightarrow> nat \<Rightarrow> bytes \<times> nat outcome" where
  "finish_write d m n = (case m of Ok d' \<Rightarrow> (d', Ok n) | Err e \<Rightarrow> (d, Err e) | Trap \<Rightarrow> (d, Trap))"

definition write_tail :: "('v \<Rightarrow> bytes \<Rightarrow> bytes \<times> nat outcome) \<Rightarrow> bytes \<Rightarrow> nat \<Rightarrow> 'v \<Rightarrow> bytes \<times> nat outcome" where
  "write_tail enc d body_end tail =
     (let prefix_end = body_end + 4 in
      if length d < prefix_end then (d, Err AccountDataTooSmall)
      else
        case enc tail (drop prefix_end d) of
          (rest, res) \<Rightarrow>
            let d' = take prefix_end d @ rest in
            case res of
              Ok written \<Rightarrow>
                if written > 2 ^ 32 - 1 then (d', Err InvalidAccountData)
                else finish_write d' (wr_u32 d' body_end written) written
            | Err e \<Rightarrow> (d', Err e)
            | Trap \<Rightarrow> (d', Trap))"

text \<open>\<open>fill\<close> is the closure that writes the field's new slot.\<close>

definition replace_tail_field ::
  "bytes \<Rightarrow> nat \<Rightarrow> nat \<Rightarrow> nat \<Rightarrow> nat \<Rightarrow> (bytes \<Rightarrow> bytes) \<Rightarrow> bytes \<times> nat outcome" where
  "replace_tail_field d body_end field_start old_len new_len fill =
     (case read_tail_len d body_end of
        Err e \<Rightarrow> (d, Err e)
      | Trap \<Rightarrow> (d, Trap)
      | Ok total_len \<Rightarrow>
          let prefix_end = body_end + 4; field_end = field_start + old_len in
          if field_end > total_len then (d, Err InvalidAccountData)
          else
            let new_total = total_len - old_len + new_len; new_payload_end = prefix_end + new_total in
            if length d < new_payload_end \<or> new_total > 2 ^ 32 - 1 then (d, Err AccountDataTooSmall)
            else
              let abs_start = prefix_end + field_start;
                  abs_old_end = abs_start + old_len;
                  abs_new_end = abs_start + new_len in
              case (if old_len \<noteq> new_len
                    then move_bytes d abs_new_end abs_old_end (prefix_end + total_len - abs_old_end) else Ok d) of
                Ok d1 \<Rightarrow>
                  (case obind (rd d1 abs_start new_len) (\<lambda>slot. wr d1 abs_start (fill slot)) of
                     Ok d2 \<Rightarrow> finish_write d2 (wr_u32 d2 body_end new_total) new_total
                   | Err e \<Rightarrow> (d1, Err e)
                   | Trap \<Rightarrow> (d1, Trap))
              | Err e \<Rightarrow> (d, Err e)
              | Trap \<Rightarrow> (d, Trap))"

fun extent_loop :: "(bytes \<Rightarrow> ('v \<times> nat) outcome) \<Rightarrow> bytes \<Rightarrow> nat \<Rightarrow> nat \<Rightarrow> nat outcome" where
  "extent_loop dec inp cursor 0 = Ok cursor"
| "extent_loop dec inp cursor (Suc k) =
     (if cursor > length inp then Trap
      else obind (dec (drop cursor inp)) (\<lambda>(_, consumed). extent_loop dec inp (cursor + consumed) k))"

definition vec_field_extent :: "nat \<Rightarrow> (bytes \<Rightarrow> ('v \<times> nat) outcome) \<Rightarrow> bytes \<Rightarrow> (nat \<times> nat) outcome" where
  "vec_field_extent N dec inp =
     fail_if (length inp < 2) InvalidAccountData
       (let count = le_val (take 2 inp) in
        fail_if (count > N) InvalidAccountData
          (obind (extent_loop dec inp 2 count) (\<lambda>cursor. Ok (count, cursor))))"

definition write_tail_payload :: "bytes \<Rightarrow> nat \<Rightarrow> bytes \<Rightarrow> bytes \<times> nat outcome" where
  "write_tail_payload d body_end payload =
     (let prefix_end = body_end + 4; payload_end = prefix_end + length payload in
      if length d < payload_end \<or> length payload > 2 ^ 32 - 1 then (d, Err AccountDataTooSmall)
      else
        case wr d prefix_end payload of
          Ok d' \<Rightarrow> finish_write d' (wr_u32 d' body_end (length payload)) (length payload)
        | Err e \<Rightarrow> (d, Err e)
        | Trap \<Rightarrow> (d, Trap))"

section \<open>Seq\<close>

definition seq_len_prefix :: nat where "seq_len_prefix = 4"
definition seq_capacity_for :: "nat \<Rightarrow> nat \<Rightarrow> nat" where
  "seq_capacity_for stride region_len = (if region_len < seq_len_prefix then 0 else (region_len - seq_len_prefix) div stride)"
definition seq_region_bytes_for :: "nat \<Rightarrow> nat \<Rightarrow> nat" where
  "seq_region_bytes_for stride n = seq_len_prefix + n * stride"

definition seq_length :: "bytes \<Rightarrow> nat outcome" where
  "seq_length region = rd_u32 region 0"
definition seq_capacity :: "nat \<Rightarrow> bytes \<Rightarrow> nat" where
  "seq_capacity stride region = seq_capacity_for stride (length region)"
definition seq_from_region :: "nat \<Rightarrow> bytes \<Rightarrow> bytes outcome" where
  "seq_from_region stride region =
     fail_if (length region < seq_len_prefix) AccountDataTooSmall
       (obind (seq_length region) (\<lambda>len.
        fail_if (len > seq_capacity stride region) InvalidAccountData (Ok region)))"
definition seq_is_empty :: "bytes \<Rightarrow> bool outcome" where
  "seq_is_empty region = obind (seq_length region) (\<lambda>len. Ok (len = 0))"
definition seq_is_full :: "nat \<Rightarrow> bytes \<Rightarrow> bool outcome" where
  "seq_is_full stride region = obind (seq_length region) (\<lambda>len. Ok (len \<ge> seq_capacity stride region))"
definition seq_remaining_capacity :: "nat \<Rightarrow> bytes \<Rightarrow> nat outcome" where
  "seq_remaining_capacity stride region = obind (seq_length region) (\<lambda>len. Ok (seq_capacity stride region - len))"

text \<open>\<^verbatim>\<open>region.get(start..end).ok_or(e)\<close>.\<close>

definition region_get :: "bytes \<Rightarrow> nat \<Rightarrow> nat \<Rightarrow> program_error \<Rightarrow> bytes outcome" where
  "region_get region start n e = (if start + n \<le> length region then Ok (bslice start n region) else Err e)"

definition seq_get :: "nat \<Rightarrow> (bytes \<Rightarrow> ('v \<times> nat) outcome) \<Rightarrow> bytes \<Rightarrow> nat \<Rightarrow> 'v outcome" where
  "seq_get stride dec region index =
     obind (seq_length region) (\<lambda>len.
     fail_if (index \<ge> len) InvalidArgument
       (let start = seq_len_prefix + index * stride in
        obind (region_get region start stride InvalidAccountData) (\<lambda>b.
        obind (dec b) (\<lambda>(value, _). Ok value))))"

record seq_iter =
  si_region :: bytes
  si_len :: nat
  si_pos :: nat

definition seq_iter_new :: "bytes \<Rightarrow> seq_iter outcome" where
  "seq_iter_new region = obind (seq_length region) (\<lambda>len. Ok \<lparr>si_region = region, si_len = len, si_pos = 0\<rparr>)"
definition seq_iter_next :: "nat \<Rightarrow> (bytes \<Rightarrow> ('v \<times> nat) outcome) \<Rightarrow> seq_iter \<Rightarrow> seq_iter \<times> 'v outcome option" where
  "seq_iter_next stride dec it =
     (if si_pos it \<ge> si_len it then (it, None)
      else
        let start = seq_len_prefix + si_pos it * stride in
        (it\<lparr>si_pos := si_pos it + 1\<rparr>,
         Some (obind (region_get (si_region it) start stride InvalidAccountData) (\<lambda>b.
               obind (dec b) (\<lambda>(value, _). Ok value)))))"

text \<open>Encoding into the slot \<open>region[start..start + stride]\<close>.\<close>

definition seq_encode_at :: "nat \<Rightarrow> ('v \<Rightarrow> bytes \<Rightarrow> bytes \<times> nat outcome) \<Rightarrow> bytes \<Rightarrow> nat \<Rightarrow> 'v \<Rightarrow> bytes outcome" where
  "seq_encode_at stride enc region start value =
     obind (region_get region start stride AccountDataTooSmall) (\<lambda>slot.
     case enc value slot of (slot', res) \<Rightarrow> obind res (\<lambda>_. wr region start slot'))"

definition seq_set :: "nat \<Rightarrow> ('v \<Rightarrow> bytes \<Rightarrow> bytes \<times> nat outcome) \<Rightarrow> bytes \<Rightarrow> nat \<Rightarrow> 'v \<Rightarrow> bytes outcome" where
  "seq_set stride enc region index value =
     obind (seq_length region) (\<lambda>len.
     fail_if (index \<ge> len) InvalidArgument
       (seq_encode_at stride enc region (seq_len_prefix + index * stride) value))"

definition seq_push :: "nat \<Rightarrow> ('v \<Rightarrow> bytes \<Rightarrow> bytes \<times> nat outcome) \<Rightarrow> bytes \<Rightarrow> 'v \<Rightarrow> bytes outcome" where
  "seq_push stride enc region value =
     obind (seq_length region) (\<lambda>len.
     fail_if (len \<ge> seq_capacity stride region) AccountDataTooSmall
       (obind (seq_encode_at stride enc region (seq_len_prefix + len * stride) value) (\<lambda>r.
        wr_u32 r 0 (len + 1))))"

definition seq_swap_remove :: "nat \<Rightarrow> (bytes \<Rightarrow> ('v \<times> nat) outcome) \<Rightarrow> bytes \<Rightarrow> nat \<Rightarrow> (bytes \<times> 'v) outcome" where
  "seq_swap_remove stride dec region index =
     obind (seq_length region) (\<lambda>len.
     fail_if (index \<ge> len) InvalidArgument
       (obind (seq_get stride dec region index) (\<lambda>removed.
        let final = len - 1; last_start = seq_len_prefix + final * stride in
        obind (if index \<noteq> final then move_bytes region (seq_len_prefix + index * stride) last_start stride else Ok region) (\<lambda>r1.
        obind (if last_start + stride \<le> length r1 then zero_bytes r1 last_start stride else Ok r1) (\<lambda>r2.
        obind (wr_u32 r2 0 final) (\<lambda>r3. Ok (r3, removed)))))))"

section \<open>Writing and reading back\<close>

definition tail_of :: "bytes \<Rightarrow> nat \<Rightarrow> bytes" where
  "tail_of d body_end = bslice (body_end + 4) (u32_at d body_end) d"

lemma tail_payload_eq:
  "tail_payload d be =
    (if length d < be + 4 then Err AccountDataTooSmall
     else if length d < be + 4 + u32_at d be then Err InvalidAccountData else Ok (tail_of d be))"
  by (simp add: tail_payload_def read_tail_len_def Let_def tail_of_def)

lemma prefixed_tail:
  assumes "be + 4 + length x \<le> length d" and "length x < 2 ^ 32"
  shows "u32_at (take be d @ le_enc 4 (length x) @ x @ drop (be + 4 + length x) d) be = length x"
    and "tail_of (take be d @ le_enc 4 (length x) @ x @ drop (be + 4 + length x) d) be = x"
proof -
  have u: "u32_at (take be d @ le_enc 4 (length x) @ x @ drop (be + 4 + length x) d) be = length x"
    using assms by (simp add: u32_at_def bslice_def le_val_enc)
  then show "u32_at (take be d @ le_enc 4 (length x) @ x @ drop (be + 4 + length x) d) be = length x" .
  show "tail_of (take be d @ le_enc 4 (length x) @ x @ drop (be + 4 + length x) d) be = x"
    unfolding tail_of_def u using assms(1) by (simp add: bslice_def)
qed

lemma bsplice_prefixed:
  "be + 4 + length x \<le> length d \<Longrightarrow> bsplice be (le_enc 4 (length x) @ x) d =
     take be d @ le_enc 4 (length x) @ x @ drop (be + 4 + length x) d"
  by (simp add: bsplice_def add.assoc)

text \<open>The account after a tail with payload \<open>x\<close> was written at \<open>body_end\<close>.\<close>

definition with_tail :: "bytes \<Rightarrow> nat \<Rightarrow> bytes \<Rightarrow> bytes" where
  "with_tail d body_end x = bsplice body_end (le_enc 4 (length x) @ x) d"

lemma length_with_tail: "be + 4 + length x \<le> length d \<Longrightarrow> length (with_tail d be x) = length d"
  by (simp add: with_tail_def)

lemma tail_of_with_tail:
  assumes "be + 4 + length x \<le> length d" and "length x < 2 ^ 32"
  shows "u32_at (with_tail d be x) be = length x" and "tail_of (with_tail d be x) be = x"
    and "tail_payload (with_tail d be x) be = Ok x"
  using prefixed_tail [OF assms] assms
  by (simp_all add: with_tail_def bsplice_prefixed tail_payload_eq)

lemma account_payload_small: "account_sized d \<Longrightarrow> be + 4 + n \<le> length d \<Longrightarrow> n < 2 ^ 32"
  by (simp add: account_sized_def)

lemma write_tail_fits:
  assumes c: "tail_codec enc dec canonical valid m" and v: "valid v" and d: "account_sized d"
    and fits: "be + 4 + length (canonical v) \<le> length d"
  shows "write_tail enc d be v = (with_tail d be (canonical v), Ok (length (canonical v)))"
proof -
  note small = account_payload_small [OF d fits]
  have "enc v (drop (be + 4) d) =
      (canonical v @ drop (length (canonical v)) (drop (be + 4) d), Ok (length (canonical v)))"
    using fits by (intro tail_codec.enc_fits [OF c v]) simp
  then show ?thesis
    using fits small
    by (simp add: write_tail_def finish_write_def with_tail_def bsplice_prefixed)
       (simp add: bsplice_def add.commute add.left_commute)
qed

lemma write_tail_full:
  assumes c: "tail_codec enc dec canonical valid m" and v: "valid v"
    and full: "length d < be + 4 + length (canonical v)"
  shows "snd (write_tail enc d be v) = Err AccountDataTooSmall \<and>
    take (be + 4) (fst (write_tail enc d be v)) = take (be + 4) d \<and>
    length (fst (write_tail enc d be v)) = length d"
proof (cases "length d < be + 4")
  case True
  then show ?thesis by (simp add: write_tail_def)
next
  case False
  then have "length (drop (be + 4) d) < length (canonical v)" using full by simp
  from tail_codec.enc_full [OF c v this] False show ?thesis
    by (auto simp: write_tail_def Let_def split_beta)
qed

lemma read_tail_iff:
  assumes c: "tail_codec enc dec canonical valid m"
  shows "read_tail dec d be = Ok v \<longleftrightarrow> valid v \<and> tail_payload d be = Ok (canonical v)"
proof -
  have "obind (dec p) (\<lambda>(value, consumed). fail_if (consumed \<noteq> length p) InvalidAccountData (Ok value)) = Ok v
      \<longleftrightarrow> valid v \<and> p = canonical v" for p
    using tail_codec.dec_whole [OF c, of p v] by (auto simp: obind_Ok_iff split: if_splits)
  then show ?thesis by (auto simp: read_tail_def obind_Ok_iff)
qed

lemma read_tail_safe:
  assumes "tail_codec enc dec canonical valid m"
  shows "read_tail dec d be \<noteq> Trap"
proof -
  have "dec p \<noteq> Trap" for p by (rule tail_codec.dec_safe [OF assms])
  then show ?thesis
    by (cases "dec (tail_of d be)") (auto simp: read_tail_def tail_payload_eq split: if_splits)
qed

section \<open>Splicing one field\<close>

lemma move_suffix:
  assumes "s + old \<le> e" and "e \<le> length d" and "s + new + (e - (s + old)) \<le> length d"
    and "length x = new"
  shows "bsplice s x (bsplice (s + new) (bslice (s + old) (e - (s + old)) d) d) =
    bsplice s (x @ bslice (s + old) (e - (s + old)) d) d"
  using assms by (simp add: bsplice_def)

lemma splice_moves_suffix:
  assumes d: "be + 4 + u32_at d be \<le> length d" and f: "s + old \<le> u32_at d be"
    and n: "n = u32_at d be - old + length x" "be + 4 + n \<le> length d" and b: "b = be + 4 + s"
  shows "bsplice be (le_enc 4 n) (bsplice b x
      (bsplice (b + length x) (bslice (b + old) (be + 4 + u32_at d be - (b + old)) d) d)) =
    with_tail d be (take s (tail_of d be) @ x @ drop (s + old) (tail_of d be))"
proof -
  let ?t = "u32_at d be" and ?p = "tail_of d be"
  have suffix: "bslice (b + old) (be + 4 + ?t - (b + old)) d = drop (s + old) ?p"
  proof -
    have e: "be + 4 + ?t - (b + old) = ?t - (s + old)" "b + old = s + old + (be + 4)" using b by simp_all
    show ?thesis unfolding e by (simp add: bslice_def tail_of_def drop_take)
  qed
  have front: "take s ?p = bslice (be + 4) s d" using f by (simp add: tail_of_def bslice_def)
  have len: "length ?p = ?t" using d by (simp add: tail_of_def)
  have n': "n = length (take s ?p @ x @ drop (s + old) ?p)" using n f by (simp add: len)
  have "bsplice b x (bsplice (b + length x) (drop (s + old) ?p) d) = bsplice b (x @ drop (s + old) ?p) d"
    using n d f b len by (simp add: bsplice_def)
  also have "\<dots> = bsplice (be + 4) (take s ?p @ x @ drop (s + old) ?p) d"
  proof -
    have "take b d = take (be + 4) d @ bslice (be + 4) s d"
      unfolding b bslice_def by (rule take_add)
    moreover have "length (take s ?p) = s" using len f by simp
    ultimately show ?thesis using len f b by (simp add: bsplice_def front add.assoc)
  qed
  finally have moved: "bsplice b x (bsplice (b + length x) (drop (s + old) ?p) d) =
    bsplice (be + 4) (take s ?p @ x @ drop (s + old) ?p) d" .
  have prefixed: "bsplice be (le_enc 4 n) (bsplice (be + 4) q d) = bsplice be (le_enc 4 n @ q) d"
    if "be + 4 + length q \<le> length d" for q
    using that by (simp add: bsplice_def add.assoc)
  have "be + 4 + length (take s ?p @ x @ drop (s + old) ?p) \<le> length d" using n(2) n' by simp
  from prefixed [OF this] show ?thesis unfolding suffix moved with_tail_def n' [symmetric] .
qed

lemma bsplice_self: "k + n \<le> length d \<Longrightarrow> bsplice k (bslice k n d) d = d"
  by (rule nth_equalityI) (auto simp: bsplice_nth bslice_nth)

lemma splice_in_place:
  assumes d: "be + 4 + u32_at d be \<le> length d" and f: "s + old \<le> u32_at d be"
    and x: "length x = old" and b: "b = be + 4 + s"
  shows "bsplice be (le_enc 4 (u32_at d be)) (bsplice b x d) =
    with_tail d be (take s (tail_of d be) @ x @ drop (s + old) (tail_of d be))"
proof -
  let ?r = "bslice (b + old) (be + 4 + u32_at d be - (b + old)) d"
  have "bsplice (b + length x) ?r d = d"
    using d f b unfolding x by (intro bsplice_self) simp
  then show ?thesis
    using splice_moves_suffix [of be d s old "u32_at d be" x b] assms by simp
qed

lemma replace_moves:
  assumes d: "be + 4 + u32_at d be \<le> length d" and f: "s + old \<le> u32_at d be"
    and n: "n = u32_at d be - old + new" "be + 4 + n \<le> length d" "n < 2 ^ 32"
    and fill: "\<And>b. length (fill b) = length b"
  shows "replace_tail_field d be s old new fill =
    (with_tail d be (take s (tail_of d be) @ fill (bslice (be + 4 + s) new d) @ drop (s + old) (tail_of d be)), Ok n)"
proof -
  let ?b = "be + 4 + s" and ?t = "u32_at d be"
  let ?x = "fill (bslice (be + 4 + s) new d)" and ?r = "bslice (?b + old) (be + 4 + ?t - (?b + old)) d"
  have x: "length ?x = new" using n f d by (simp add: fill)
  have moved: "bslice ?b new (bsplice (?b + new) ?r d) = bslice ?b new d"
    using n f d by (intro bslice_bsplice_disjoint) auto
  show ?thesis
  proof (cases "old = new")
    case True
    then have nt: "n = ?t" using n f by simp
    have "replace_tail_field d be s old new fill =
        (bsplice be (le_enc 4 ?t) (bsplice ?b ?x d), Ok ?t)"
      using True n f d x by (simp add: replace_tail_field_def read_tail_len_def finish_write_def Let_def)
    then show ?thesis
      using splice_in_place [OF d f, of ?x ?b] True x nt by simp
  next
    case False
    have "replace_tail_field d be s old new fill =
        (bsplice be (le_enc 4 n) (bsplice ?b ?x (bsplice (?b + new) ?r d)), Ok n)"
      using False n f d x moved
      by (simp add: replace_tail_field_def read_tail_len_def finish_write_def Let_def)
    then show ?thesis
      using splice_moves_suffix [OF d f, of n ?x ?b] n x by simp
  qed
qed

section \<open>Properties of the tail\<close>

text \<open>
  C33: For every codec that keeps the trait's contract, a tail that fits is written as its
  canonical encoding behind its length, no byte outside is touched, and reading gives back
  exactly the value written; a tail that does not fit is refused with the length prefix
  and the body intact; and a read succeeds exactly on a payload that is the canonical
  encoding of the value it returns, and never panics.
\<close>

theorem tail_write_then_read:
  assumes "tail_codec enc dec canonical valid m" and "valid v" and "account_sized d"
  shows "(if be + 4 + length (canonical v) \<le> length d
     then write_tail enc d be v = (with_tail d be (canonical v), Ok (length (canonical v))) \<and>
       (\<forall>w. read_tail dec (fst (write_tail enc d be v)) be = Ok w \<longleftrightarrow> w = v)
     else snd (write_tail enc d be v) = Err AccountDataTooSmall \<and>
       take (be + 4) (fst (write_tail enc d be v)) = take (be + 4) d) \<and>
    length (fst (write_tail enc d be v)) = length d \<and>
    (\<forall>w. read_tail dec d be = Ok w \<longleftrightarrow> valid w \<and> tail_payload d be = Ok (canonical w)) \<and>
    read_tail dec d be \<noteq> Trap"
proof -
  note reads = read_tail_iff [OF assms(1)] and safe = read_tail_safe [OF assms(1)]
  show ?thesis
  proof (cases "be + 4 + length (canonical v) \<le> length d")
    case True
    note w = write_tail_fits [OF assms True]
    have "read_tail dec (with_tail d be (canonical v)) be = Ok x \<longleftrightarrow> x = v" for x
      using tail_of_with_tail(3) [OF True account_payload_small [OF assms(3) True]] assms(2)
        tail_codec.canonical_inject [OF assms(1)]
      by (auto simp: reads)
    then show ?thesis using True w reads safe length_with_tail [OF True] by auto
  next
    case False
    then show ?thesis
      using write_tail_full [OF assms(1,2), of d be] reads safe by auto
  qed
qed

theorem tail_write_then_read_witness:
  "write_tail (int_encode :: u16 \<Rightarrow> _) [0, 0, 0, 0, 0, 0, 0, 0] 1 513 = ([0, 2, 0, 0, 0, 1, 2, 0], Ok 2) \<and>
   read_tail (int_decode :: _ \<Rightarrow> (u16 \<times> nat) outcome) [0, 2, 0, 0, 0, 1, 2, 0] 1 = Ok 513"
proof -
  have c: "tail_codec (int_encode :: u16 \<Rightarrow> _) int_decode (\<lambda>v. le_enc (int_bytes TYPE(16)) (unat v)) (\<lambda>v. True) (int_bytes TYPE(16))"
    by (rule int_codec) (simp add: int_bytes_def)
  have n: "int_bytes TYPE(16) = 2" by (simp add: int_bytes_def)
  have e: "le_enc 2 513 = [1, 2]" by (simp only: numeral_2_eq_2 le_enc.simps) simp
  note t = tail_write_then_read [OF c, where v = 513 and d = "[0, 0, 0, 0, 0, 0, 0, 0]" and be = 1]
  have fits: "1 + 4 + length (le_enc (int_bytes TYPE(16)) (unat (513 :: u16))) \<le> length [0, 0, 0, 0, 0, 0, 0, 0 :: u8]"
    by (simp add: n)
  have "account_sized [0, 0, 0, 0, 0, 0, 0, 0]" by (simp add: account_sized_def)
  note t' = t [OF TrueI this, THEN conjunct1, unfolded if_P [OF fits]]
  have w: "write_tail (int_encode :: u16 \<Rightarrow> _) [0, 0, 0, 0, 0, 0, 0, 0] 1 513 = ([0, 2, 0, 0, 0, 1, 2, 0], Ok 2)"
    using t' [THEN conjunct1] by (simp add: n e with_tail_def eval_bytes)
  with t' [THEN conjunct2] show ?thesis unfolding w by simp
qed

text \<open>
  C34: A setter on the tail is a splice. When the stored tail lies in the account, replacing
  the field \<open>field_start .. field_start + old_len\<close> by \<open>new_len\<close> bytes keeps the payload
  before and after the field, stores the new length, touches nothing behind the new
  payload, and is refused, with the account unchanged, exactly when the field is not inside
  the payload or the new payload does not fit.
\<close>

theorem replace_tail_field_splices:
  assumes "be + 4 + u32_at d be \<le> length d" and "account_sized d"
    and "\<And>slot. length (fill slot) = length slot"
  shows "replace_tail_field d be field_start old_len new_len fill =
    (let p = tail_of d be; n = length p - old_len + new_len;
         slot = bslice (be + 4 + field_start) new_len d;
         p' = take field_start p @ fill slot @ drop (field_start + old_len) p
     in if field_start + old_len > length p then (d, Err InvalidAccountData)
        else if be + 4 + n > length d then (d, Err AccountDataTooSmall)
        else (bsplice be (le_enc 4 (length p') @ p') d, Ok (length p')))"
proof -
  have p: "length (tail_of d be) = u32_at d be" using assms(1) by (simp add: tail_of_def)
  let ?n = "u32_at d be - old_len + new_len"
  have small: "?n < 2 ^ 32" if "be + 4 + ?n \<le> length d"
    using that assms(2) by (simp add: account_sized_def)
  show ?thesis
  proof (cases "field_start + old_len \<le> u32_at d be \<and> be + 4 + ?n \<le> length d")
    case True
    then have "be + 4 + field_start + new_len \<le> length d" by linarith
    then have x: "length (fill (bslice (be + 4 + field_start) new_len d)) = new_len"
      by (simp add: assms(3))
    show ?thesis
      using replace_moves [OF assms(1) _ refl _ small assms(3), where s = field_start] True x
      by (auto simp: Let_def p with_tail_def)
  next
    case False
    then show ?thesis
      using assms(1) p by (auto simp: replace_tail_field_def read_tail_len_def Let_def)
  qed
qed

theorem replace_tail_field_splices_witness:
  "replace_tail_field [9, 3, 0, 0, 0, 1, 2, 3, 7, 7] 1 1 1 2 (\<lambda>slot. replicate (length slot) 8) =
     ([9, 4, 0, 0, 0, 1, 8, 8, 3, 7], Ok 4) \<and>
   replace_tail_field [9, 3, 0, 0, 0, 1, 2, 3, 7, 7] 1 1 1 4 (\<lambda>slot. replicate (length slot) 8) =
     ([9, 3, 0, 0, 0, 1, 2, 3, 7, 7], Err AccountDataTooSmall)"
proof -
  let ?d = "[9, 3, 0, 0, 0, 1, 2, 3, 7, 7] :: bytes"
  have u: "u32_at ?d 1 = 3" by (simp add: u32_at_def eval_bytes)
  have s: "1 + 4 + u32_at ?d 1 \<le> length ?d" "account_sized ?d"
    unfolding u by (simp_all add: account_sized_def)
  have f: "length (replicate (length slot) (8 :: u8)) = length slot" for slot :: bytes by simp
  note r = replace_tail_field_splices [OF s f, where field_start = 1 and old_len = 1]
  show ?thesis
    using r [of 2] r [of 4] unfolding Let_def tail_of_def u
    by (simp_all add: eval_bytes numeral_2_eq_2)
qed

section \<open>Seq is a FixedVec of encoded elements\<close>

definition seq_view :: "nat \<Rightarrow> bytes \<Rightarrow> view" where
  "seq_view stride region = \<lparr>vdata = region, vcap = seq_capacity stride region\<rparr>"

lemma seq_view_inv:
  "seq_from_region stride region = Ok r \<Longrightarrow> 0 < stride \<Longrightarrow> account_sized region \<Longrightarrow>
   fv_inv stride (seq_view stride region) \<and> r = region"
  by (auto simp: seq_from_region_def seq_view_def fv_inv_def slot_room_def seq_length_def seq_capacity_def
      seq_capacity_for_def seq_len_prefix_def split: if_splits)

lemma seq_view_cap:
  "4 \<le> length region \<Longrightarrow> seq_capacity stride region = slot_room 4 stride region"
  by (simp add: seq_capacity_def seq_capacity_for_def seq_len_prefix_def slot_room_def)

lemma seq_view_simps [simp]:
  "vdata (seq_view stride region) = region" "vcap (seq_view stride region) = seq_capacity stride region"
  by (simp_all add: seq_view_def)

lemma seq_inv_facts:
  assumes "fv_inv stride (seq_view stride region)"
  shows "seq_length region = Ok (u32_at region 0)" and "fv_len (seq_view stride region) = Ok (u32_at region 0)"
    and "u32_at region 0 \<le> slot_room 4 stride region" and "seq_capacity stride region = slot_room 4 stride region"
    and "i < slot_room 4 stride region \<Longrightarrow> 4 + i * stride + stride \<le> length region"
    and "4 \<le> length region" and "0 < stride"
  using assms slot_in_bounds [of i 4 stride region]
  by (auto simp: fv_inv_def seq_view_def seq_length_def fv_len_def)

lemma region_get_slot:
  "i < slot_room 4 stride region \<Longrightarrow> region_get region (4 + i * stride) stride e = Ok (slot_get 4 stride region i)"
  using slot_in_bounds [of i 4 stride region] by (simp add: region_get_def slot_get_def)

lemma seq_get_vec:
  assumes "fv_inv stride (seq_view stride region)"
  shows "seq_get stride dec region i =
    obind (fv_get stride (seq_view stride region) i) (\<lambda>b. obind (dec b) (\<lambda>(x, _). Ok x))"
proof -
  note f = seq_inv_facts [OF assms]
  show ?thesis
    by (cases "i < u32_at region 0")
      (use f(3) in \<open>auto simp: seq_get_def fv_get_def f(1,2) seq_len_prefix_def fv_defs region_get_slot\<close>)
qed

lemma seq_encode_slot:
  assumes "tail_codec enc dec canonical valid m" and "valid v" and "length (canonical v) = stride"
    and "i < slot_room 4 stride region"
  shows "seq_encode_at stride enc region (4 + i * stride) v = Ok (slot_put 4 stride region i (canonical v))"
proof -
  have "enc v (slot_get 4 stride region i) = (canonical v, Ok stride)"
    using tail_codec.enc_fits [OF assms(1,2), of "slot_get 4 stride region i"] assms(3,4) by simp
  then show ?thesis using assms(3,4) by (simp add: seq_encode_at_def region_get_slot)
qed

definition region_of :: "view outcome \<Rightarrow> bytes outcome" where
  "region_of m = obind m (\<lambda>w. Ok (vdata w))"

lemma seq_set_vec:
  assumes "tail_codec enc dec canonical valid m" and "valid v" and "length (canonical v) = stride"
    and "fv_inv stride (seq_view stride region)"
  shows "seq_set stride enc region i v = region_of (fv_set stride (seq_view stride region) i (canonical v))"
proof -
  note f = seq_inv_facts [OF assms(4)] and e = seq_encode_slot [OF assms(1-3)]
  show ?thesis
    by (cases "i < u32_at region 0")
      (use f(3) assms(3) in \<open>auto simp: seq_set_def fv_set_def f(1,2) seq_len_prefix_def fv_defs e region_of_def\<close>)
qed

lemma seq_push_vec:
  assumes "tail_codec enc dec canonical valid m" and "valid v" and "length (canonical v) = stride"
    and "fv_inv stride (seq_view stride region)"
  shows "seq_push stride enc region v = region_of (fv_push stride (seq_view stride region) (canonical v))"
proof -
  note f = seq_inv_facts [OF assms(4)] and e = seq_encode_slot [OF assms(1-3)]
  show ?thesis
    by (cases "u32_at region 0 < slot_room 4 stride region")
      (use f(4,6) assms(3) in \<open>auto simp: seq_push_def fv_push_def f(1,2) seq_len_prefix_def fv_defs e
        region_of_def fv_set_len_def\<close>)
qed

lemma copy_slot_is_move:
  assumes "i < slot_room 4 sz d" and "j < slot_room 4 sz d" and "i \<noteq> j"
  shows "move_bytes d (4 + i * sz) (4 + j * sz) sz = copy_bytes d (4 + i * sz) (4 + j * sz) sz"
  using copy_slot [OF assms] slot_in_bounds [OF assms(1)] slot_in_bounds [OF assms(2)]
  by (simp add: slot_put_def slot_get_def)

lemma seq_swap_remove_vec:
  assumes "fv_inv stride (seq_view stride region)"
  shows "seq_swap_remove stride dec region i =
    obind (fv_get stride (seq_view stride region) i) (\<lambda>b. obind (dec b) (\<lambda>(x, _).
    obind (fv_swap_remove stride (seq_view stride region) i) (\<lambda>(w, _). Ok (vdata w, x))))"
proof (cases "i < u32_at region 0")
  case False
  then show ?thesis by (simp add: seq_swap_remove_def fv_get_def seq_inv_facts [OF assms])
next
  case True
  note f = seq_inv_facts [OF assms]
  let ?k = "u32_at region 0 - 1"
  have i: "i < slot_room 4 stride region" and k: "?k < slot_room 4 stride region" using f(3) True by linarith+
  note b = slot_in_bounds [OF k] and move = copy_slot_is_move [OF i k]
  show ?thesis
  proof (cases "dec (slot_get 4 stride region i)")
    case (Ok y)
    then show ?thesis
      using True i k b move f(6)
      by (auto simp: seq_swap_remove_def fv_swap_remove_def f(1,2) seq_get_def seq_len_prefix_def fv_defs fv_get_def
        region_get_slot copy_slot arr.room_put fv_set_len_def split: prod.splits)
  qed (use True i in \<open>auto simp: seq_swap_remove_def f(1,2) seq_get_def seq_len_prefix_def fv_defs fv_get_def
        region_get_slot\<close>)
qed

section \<open>Property of Seq\<close>

text \<open>
  \<open>Seq\<close> is a \<open>FixedVec\<close> of encoded elements. For every region \<open>from_region\<close> accepts and
  every codec whose encodings all have the stride's length, a push, a set and a removal leave
  the region the bounded array leaves when given the encodings, fail when it fails and with
  its error, and a read decodes what the array returns; so \<open>Seq\<close> inherits the array's
  correctness and never leaves its region.
\<close>

theorem seq_is_fixed_vec:
  assumes "tail_codec enc dec canonical valid m" and "\<And>x. valid x \<Longrightarrow> length (canonical x) = stride"
    and "seq_from_region stride region = Ok r" and "0 < stride" and "account_sized region" and "valid v"
  shows "fv_from_bytes stride region = Ok (seq_view stride r) \<and>
    seq_push stride enc r v = region_of (fv_push stride (seq_view stride r) (canonical v)) \<and>
    seq_set stride enc r i v = region_of (fv_set stride (seq_view stride r) i (canonical v)) \<and>
    seq_get stride dec r i =
      obind (fv_get stride (seq_view stride r) i) (\<lambda>b. obind (dec b) (\<lambda>(x, _). Ok x)) \<and>
    seq_swap_remove stride dec r i =
      obind (fv_get stride (seq_view stride r) i) (\<lambda>b. obind (dec b) (\<lambda>(x, _).
      obind (fv_swap_remove stride (seq_view stride r) i) (\<lambda>(w, _). Ok (vdata w, x)))) \<and>
    Trap \<notin> {region_of (fv_push stride (seq_view stride r) (canonical v)),
            region_of (fv_set stride (seq_view stride r) i (canonical v))} \<and>
    fv_get stride (seq_view stride r) i \<noteq> Trap \<and> fv_swap_remove stride (seq_view stride r) i \<noteq> Trap"
proof -
  from seq_view_inv [OF assms(3-5)]
  have inv: "fv_inv stride (seq_view stride r)" and r: "r = region" by simp_all
  note f = seq_inv_facts [OF inv] and len = assms(2) [OF assms(6)]
  have bytes: "fv_from_bytes stride region = Ok (seq_view stride r)"
    using f(3,4,6) unfolding r by (simp add: fv_from_bytes_def fv_defs seq_view_def slot_room_def)
  have no_trap: "fv_exec stride (seq_view stride r) c \<noteq> Trap" if "vec_call_ok stride c" for c
    using fv_sim.safe.call_safe [OF inv that] .
  have "fv_push stride (seq_view stride r) (canonical v) \<noteq> Trap"
    "fv_set stride (seq_view stride r) i (canonical v) \<noteq> Trap"
    "fv_get stride (seq_view stride r) i \<noteq> Trap" "fv_swap_remove stride (seq_view stride r) i \<noteq> Trap"
    using no_trap [of "VPush (canonical v)"] no_trap [of "VSetAt i (canonical v)"]
      no_trap [of "VGetAt i"] no_trap [of "VSwapRemove i"] len
    by (auto simp: call_defs)
  moreover have "Trap = region_of x \<longleftrightarrow> x = Trap" for x by (cases x) (simp_all add: region_of_def)
  ultimately show ?thesis
    using bytes seq_push_vec [OF assms(1,6) len inv] seq_set_vec [OF assms(1,6) len inv]
      seq_get_vec [OF inv, of dec i] seq_swap_remove_vec [OF inv, of dec i] by simp
qed

theorem seq_is_fixed_vec_witness:
  "seq_from_region 1 [1, 0, 0, 0, 7, 0] = Ok [1, 0, 0, 0, 7, 0] \<and>
   seq_push 1 u8_encode [1, 0, 0, 0, 7, 0] 9 =
     region_of (fv_push 1 (seq_view 1 [1, 0, 0, 0, 7, 0]) [9])"
proof -
  have r: "seq_from_region 1 [1, 0, 0, 0, 7, 0] = Ok [1, 0, 0, 0, 7, 0]"
    by (simp add: seq_from_region_def seq_length_def seq_len_prefix_def seq_capacity_def seq_capacity_for_def
        u32_at_def eval_bytes)
  have len: "length [x] = 1" for x :: u8 by simp
  have s: "account_sized [1, 0, 0, 0, 7, 0]" by (simp add: account_sized_def)
  show ?thesis
    using seq_is_fixed_vec [OF u8_codec len r zero_less_one s TrueI, of 9] r by blast
qed

end
