(* ===== verification/WritePolicy.thy ===== *)
theory WritePolicy imports TouchLog MachineInts begin

text \<open>
  hopper-runtime/src/write_policy.rs, the declared write set: static byte ranges, columns of
  which the invocation's arguments select one cell, and the lamport dimension. Account
  indices are bytes, offsets and sizes \<^verbatim>\<open>u32\<close>, and the sums and products are formed in \<^verbatim>\<open>u64\<close>.
  Shown: no such sum wraps, a write that is acquired passes the audit of the touched bytes,
  and the audit finds the first byte nothing authorises.
\<close>

unbundle bit_operations_syntax

section \<open>Ranges\<close>

definition write_policy_violation_page :: u32 where "write_policy_violation_page = 0xD000"
definition write_policy_violation :: "u8 \<Rightarrow> program_error" where
  "write_policy_violation account_index = Custom (write_policy_violation_page OR ucast account_index)"

record write_range =
  wr_account :: u8
  wr_offset :: u32
  wr_size :: u32

record param_range =
  pr_account :: u8
  pr_base :: u32
  pr_stride :: u32
  pr_cell :: u32
  pr_count :: u32
  pr_argument :: u8
  pr_argument_name :: string
  pr_segment_name :: string

definition param_new :: "u8 \<Rightarrow> u32 \<Rightarrow> u32 \<Rightarrow> u32 \<Rightarrow> u32 \<Rightarrow> u8 \<Rightarrow> string \<Rightarrow> string \<Rightarrow> param_range" where
  "param_new account_index base_offset stride cell_size count argument_index argument_name segment_name =
     \<lparr>pr_account = account_index, pr_base = base_offset, pr_stride = stride, pr_cell = cell_size, pr_count = count,
      pr_argument = argument_index, pr_argument_name = argument_name, pr_segment_name = segment_name\<rparr>"

definition range_new :: "u8 \<Rightarrow> u32 \<Rightarrow> u32 \<Rightarrow> write_range" where
  "range_new account_index off sz = \<lparr>wr_account = account_index, wr_offset = off, wr_size = sz\<rparr>"
definition whole_account :: "u8 \<Rightarrow> write_range" where
  "whole_account account_index = \<lparr>wr_account = account_index, wr_offset = 0, wr_size = - 1\<rparr>"
definition tail_from :: "u8 \<Rightarrow> u32 \<Rightarrow> write_range" where
  "tail_from account_index off = \<lparr>wr_account = account_index, wr_offset = off, wr_size = - 1\<rparr>"

definition range_contains :: "write_range \<Rightarrow> u32 \<Rightarrow> u32 \<Rightarrow> bool" where
  "range_contains r off sz =
     (let req_start = ucast off :: u64; req_end = ucast off + ucast sz :: u64;
          start = ucast (wr_offset r) :: u64; end' = ucast (wr_offset r) + ucast (wr_size r)
      in req_start \<ge> start \<and> req_end \<le> end')"

text \<open>The end of a rule's envelope, as both the overlap test and the audit compute it.\<close>

definition envelope_end :: "param_range \<Rightarrow> u64" where
  "envelope_end r = ucast (pr_base r) + ucast (pr_stride r) * ucast (word_saturating_sub (pr_count r) 1) + ucast (pr_cell r)"

definition envelope_overlaps :: "param_range \<Rightarrow> u32 \<Rightarrow> u32 \<Rightarrow> bool" where
  "envelope_overlaps r off sz =
     (let envelope_start = ucast (pr_base r) :: u64; request_start = ucast off :: u64; request_end = request_start + ucast sz
      in request_start < envelope_end r \<and> request_end > envelope_start)"

definition cell_start :: "param_range \<Rightarrow> u32 \<Rightarrow> u64" where
  "cell_start r selected = ucast (pr_base r) + ucast (pr_stride r) * ucast selected"

definition selected_contains :: "param_range \<Rightarrow> u32 \<Rightarrow> u32 \<Rightarrow> u32 \<Rightarrow> bool" where
  "selected_contains r selected off sz =
     (if selected \<ge> pr_count r then False
      else
        let start = cell_start r selected; end' = start + ucast (pr_cell r);
            request_start = ucast off; request_end = request_start + ucast sz
        in request_start \<ge> start \<and> request_end \<le> end')"

section \<open>The policy\<close>

datatype lamport_policy = Undeclared | Declared "u8 list"

record write_policy =
  wp_allows :: "write_range list"
  wp_parametric :: "param_range list"
  wp_lamports :: lamport_policy

definition policy_new :: "write_range list \<Rightarrow> write_policy" where
  "policy_new allows = \<lparr>wp_allows = allows, wp_parametric = [], wp_lamports = Undeclared\<rparr>"
definition with_lamports :: "write_range list \<Rightarrow> u8 list \<Rightarrow> write_policy" where
  "with_lamports allows lamport_accounts = \<lparr>wp_allows = allows, wp_parametric = [], wp_lamports = Declared lamport_accounts\<rparr>"
definition with_parametric :: "write_range list \<Rightarrow> param_range list \<Rightarrow> write_policy" where
  "with_parametric allows parametric = \<lparr>wp_allows = allows, wp_parametric = parametric, wp_lamports = Undeclared\<rparr>"
definition with_parametric_and_lamports :: "write_range list \<Rightarrow> param_range list \<Rightarrow> u8 list \<Rightarrow> write_policy" where
  "with_parametric_and_lamports allows parametric lamport_accounts =
     \<lparr>wp_allows = allows, wp_parametric = parametric, wp_lamports = Declared lamport_accounts\<rparr>"

definition lamports_declared :: "write_policy \<Rightarrow> bool" where
  "lamports_declared p = (case wp_lamports p of Undeclared \<Rightarrow> False | Declared _ \<Rightarrow> True)"

fun index_loop :: "u8 list \<Rightarrow> u8 \<Rightarrow> bool" where
  "index_loop [] account_index = False"
| "index_loop (i # indices) account_index = (if i = account_index then True else index_loop indices account_index)"

definition allows_lamport_mutation :: "write_policy \<Rightarrow> u8 \<Rightarrow> bool" where
  "allows_lamport_mutation p account_index =
     (case wp_lamports p of Undeclared \<Rightarrow> True | Declared indices \<Rightarrow> index_loop indices account_index)"

text \<open>The scan \<open>check_write\<close> and \<open>allows_whole_account_write\<close> make over the declared ranges.\<close>

fun contains_loop :: "write_range list \<Rightarrow> u8 \<Rightarrow> u32 \<Rightarrow> u32 \<Rightarrow> bool" where
  "contains_loop [] account_index off sz = False"
| "contains_loop (r # ranges) account_index off sz =
     (if wr_account r = account_index \<and> range_contains r off sz then True
      else contains_loop ranges account_index off sz)"

definition allows_whole_account_write :: "write_policy \<Rightarrow> u8 \<Rightarrow> bool" where
  "allows_whole_account_write p account_index = contains_loop (wp_allows p) account_index 0 (- 1)"

fun any_range_loop :: "write_range list \<Rightarrow> u8 \<Rightarrow> bool" where
  "any_range_loop [] account_index = False"
| "any_range_loop (r # ranges) account_index =
     (if wr_account r = account_index then True else any_range_loop ranges account_index)"

definition allows_any_account_write :: "write_policy \<Rightarrow> u8 \<Rightarrow> bool" where
  "allows_any_account_write p account_index = any_range_loop (wp_allows p) account_index"

definition check_write :: "write_policy \<Rightarrow> u8 \<Rightarrow> u32 \<Rightarrow> u32 \<Rightarrow> unit outcome" where
  "check_write p account_index off sz =
     (if contains_loop (wp_allows p) account_index off sz then Ok () else Err (write_policy_violation account_index))"

definition allows_write :: "write_policy \<Rightarrow> u8 \<Rightarrow> u32 \<Rightarrow> u32 \<Rightarrow> bool" where
  "allows_write p account_index off sz = (check_write p account_index off sz = Ok ())"

text \<open>\<^verbatim>\<open>args.get(rule.argument_index)\<close>.\<close>

definition selected_argument :: "param_range \<Rightarrow> u32 list \<Rightarrow> u32 option" where
  "selected_argument r args = (if unat (pr_argument r) < length args then Some (args ! unat (pr_argument r)) else None)"

text \<open>The loop of \<open>check_write_with_args\<close>: the verdict of the first rule the request touches.\<close>

fun governed_loop :: "param_range list \<Rightarrow> u8 \<Rightarrow> u32 \<Rightarrow> u32 \<Rightarrow> u32 list \<Rightarrow> unit outcome option" where
  "governed_loop [] account_index off sz args = None"
| "governed_loop (rule # rules) account_index off sz args =
     (if pr_account rule = account_index \<and> envelope_overlaps rule off sz then
        Some (if (case selected_argument rule args of Some selected \<Rightarrow> selected_contains rule selected off sz | None \<Rightarrow> False)
              then Ok () else Err (write_policy_violation account_index))
      else governed_loop rules account_index off sz args)"

definition check_write_with_args :: "write_policy \<Rightarrow> u8 \<Rightarrow> u32 \<Rightarrow> u32 \<Rightarrow> u32 list \<Rightarrow> unit outcome" where
  "check_write_with_args p account_index off sz args =
     (case governed_loop (wp_parametric p) account_index off sz args of
        Some verdict \<Rightarrow> verdict
      | None \<Rightarrow> check_write p account_index off sz)"

section \<open>The audit\<close>

text \<open>The three inner loops of \<open>first_unauthorized_byte_with_args\<close>.\<close>

fun governing_loop :: "param_range list \<Rightarrow> u8 \<Rightarrow> u64 \<Rightarrow> param_range option" where
  "governing_loop [] account_index cursor = None"
| "governing_loop (rule # rules) account_index cursor =
     (if pr_account rule = account_index \<and> ucast (pr_base rule) \<le> cursor \<and> cursor < envelope_end rule then Some rule
      else governing_loop rules account_index cursor)"

fun cover_loop :: "write_range list \<Rightarrow> u8 \<Rightarrow> u64 \<Rightarrow> u64 \<Rightarrow> u64" where
  "cover_loop [] account_index cursor covered_until = covered_until"
| "cover_loop (r # ranges) account_index cursor covered_until =
     (let range_start = ucast (wr_offset r); range_end = range_start + ucast (wr_size r) in
      cover_loop ranges account_index cursor
        (if wr_account r = account_index \<and> range_start \<le> cursor \<and> cursor < range_end
         then max covered_until range_end else covered_until))"

fun stop_loop :: "param_range list \<Rightarrow> u8 \<Rightarrow> u64 \<Rightarrow> u64 \<Rightarrow> u64" where
  "stop_loop [] account_index cursor covered_until = covered_until"
| "stop_loop (rule # rules) account_index cursor covered_until =
     (let envelope_start = ucast (pr_base rule) in
      stop_loop rules account_index cursor
        (if pr_account rule = account_index \<and> cursor < envelope_start \<and> envelope_start < covered_until
         then envelope_start else covered_until))"

lemma cover_loop_ge: "c \<le> cover_loop ranges i cursor c"
  by (induction ranges i cursor c rule: cover_loop.induct)
    (auto simp: Let_def max_def intro: order_trans split: if_splits)

lemma stop_loop_gt: "cursor < c \<Longrightarrow> cursor < stop_loop rules i cursor c"
  by (induction rules i cursor c rule: stop_loop.induct) (auto simp: Let_def)

lemma cover_loop_gt: "cover_loop ranges i cursor cursor \<noteq> cursor \<Longrightarrow> cursor < cover_loop ranges i cursor cursor"
  using cover_loop_ge [of cursor ranges i cursor] by simp

lemma audit_progress:
  "cursor < request_end \<Longrightarrow> cursor < y \<Longrightarrow>
   unat request_end - unat (min y request_end) < unat request_end - unat (cursor :: u64)"
  by (auto simp: min_def word_less_nat_alt word_le_nat_alt)

function audit_loop :: "write_policy \<Rightarrow> u8 \<Rightarrow> u32 list \<Rightarrow> u64 \<Rightarrow> u64 \<Rightarrow> u64 option" where
  "audit_loop p account_index args cursor request_end =
     (if cursor < request_end then
        case governing_loop (wp_parametric p) account_index cursor of
          Some rule \<Rightarrow>
            (case selected_argument rule args of
               None \<Rightarrow> Some cursor
             | Some selected \<Rightarrow>
                 if selected \<ge> pr_count rule then Some cursor
                 else
                   let selected_start = cell_start rule selected; selected_end = selected_start + ucast (pr_cell rule) in
                   if selected_start \<le> cursor \<and> cursor < selected_end
                   then audit_loop p account_index args (min selected_end request_end) request_end
                   else Some cursor)
        | None \<Rightarrow>
            let covered_until = cover_loop (wp_allows p) account_index cursor cursor in
            if covered_until = cursor then Some cursor
            else audit_loop p account_index args
              (min (stop_loop (wp_parametric p) account_index cursor covered_until) request_end) request_end
      else None)"
  by pat_completeness auto
termination
proof (relation "measure (\<lambda>(p, i, args, cursor, request_end). unat request_end - unat cursor)", goal_cases)
qed (auto intro!: audit_progress stop_loop_gt cover_loop_gt)

declare audit_loop.simps [simp del]

definition first_unauthorized_byte_with_args :: "write_policy \<Rightarrow> u8 \<Rightarrow> u32 \<Rightarrow> u32 \<Rightarrow> u32 list \<Rightarrow> u64 option" where
  "first_unauthorized_byte_with_args p account_index off sz args =
     (let cursor = ucast off; request_end = cursor + ucast sz in audit_loop p account_index args cursor request_end)"

section \<open>The bytes a policy authorises\<close>

definition range_bytes :: "write_range \<Rightarrow> nat set" where
  "range_bytes r = {unat (wr_offset r) ..< unat (wr_offset r) + unat (wr_size r)}"
definition envelope :: "param_range \<Rightarrow> nat set" where
  "envelope r = {unat (pr_base r) ..< unat (pr_base r) + unat (pr_stride r) * (unat (pr_count r) - 1) + unat (pr_cell r)}"
definition cell_bytes :: "param_range \<Rightarrow> u32 \<Rightarrow> nat set" where
  "cell_bytes r selected =
     (let start = unat (pr_base r) + unat (pr_stride r) * unat selected in {start ..< start + unat (pr_cell r)})"

text \<open>
  A byte inside the envelope of a rule belongs to the first such rule, which grants its
  selected cell; any other byte needs a static range.
\<close>

definition byte_allowed :: "write_policy \<Rightarrow> u8 \<Rightarrow> u32 list \<Rightarrow> nat \<Rightarrow> bool" where
  "byte_allowed p i args b =
     (case find (\<lambda>r. pr_account r = i \<and> b \<in> envelope r) (wp_parametric p) of
        Some r \<Rightarrow> (case selected_argument r args of
           Some selected \<Rightarrow> selected < pr_count r \<and> b \<in> cell_bytes r selected | None \<Rightarrow> False)
      | None \<Rightarrow> \<exists>r \<in> set (wp_allows p). wr_account r = i \<and> b \<in> range_bytes r)"

lemma u32_sum_exact: "unat (ucast (a :: u32) + ucast (b :: u32) :: u64) = unat a + unat b"
  using unat_range_end [of a b] by (simp add: range_end_def)

lemma column_exact:
  fixes a s k n c :: u32
  assumes "unat k < unat n"
  shows "unat (ucast a + ucast s * ucast k :: u64) = unat a + unat s * unat k"
    and "unat (ucast a + ucast s * ucast k + ucast c :: u64) = unat a + unat s * unat k + unat c"
proof -
  let ?M = "2 ^ 32 - 1 :: nat"
  have m: "unat (x :: u32) \<le> ?M" for x using unsigned_less [of x, where 'a = nat] by simp
  have "unat k \<le> ?M - 1" using assms m [of n] by linarith
  then have "unat s * unat k \<le> ?M * (?M - 1)" using m [of s] by (intro mult_le_mono) auto
  then have b: "unat a + unat s * unat k + unat c < 2 ^ 64"
    using m [of a] m [of c] by simp
  then have "unat s * unat k < 2 ^ 64" by linarith
  then have p: "unat (ucast s * ucast k :: u64) = unat s * unat k" by (simp add: unat_word_ariths)
  with b show q: "unat (ucast a + ucast s * ucast k :: u64) = unat a + unat s * unat k"
    by (simp add: unat_word_ariths)
  with b show "unat (ucast a + ucast s * ucast k + ucast c :: u64) = unat a + unat s * unat k + unat c"
    by (simp add: unat_word_ariths)
qed

lemma unat_envelope_end:
  "unat (envelope_end r) = unat (pr_base r) + unat (pr_stride r) * (unat (pr_count r) - 1) + unat (pr_cell r)"
proof (cases "pr_count r = 0")
  case True
  then show ?thesis by (simp add: envelope_end_def word_saturating_sub_def u32_sum_exact)
next
  case False
  then have "1 \<le> pr_count r" by (simp add: word_le_nat_alt unat_gt_0 Suc_le_eq)
  then have e: "word_saturating_sub (pr_count r) 1 = pr_count r - 1" "unat (pr_count r - 1) = unat (pr_count r) - 1"
    by (simp_all add: word_saturating_sub_def unat_sub_exact)
  have "unat (pr_count r - 1) < unat (pr_count r)" using False by (simp add: e unat_gt_0)
  from column_exact(2) [OF this, of "pr_base r" "pr_stride r" "pr_cell r"] show ?thesis
    by (simp add: envelope_end_def e)
qed

lemma cell_exact:
  assumes "selected < pr_count r"
  shows "unat (cell_start r selected) = unat (pr_base r) + unat (pr_stride r) * unat selected"
    and "unat (cell_start r selected + ucast (pr_cell r)) = unat (pr_base r) + unat (pr_stride r) * unat selected + unat (pr_cell r)"
  using column_exact [of selected "pr_count r"] assms by (simp_all add: cell_start_def word_less_nat_alt)

lemma cell_in_envelope: "selected < pr_count r \<Longrightarrow> cell_bytes r selected \<subseteq> envelope r"
proof -
  assume "selected < pr_count r"
  then have "unat selected \<le> unat (pr_count r) - 1" by (simp add: word_less_nat_alt)
  then have "unat (pr_stride r) * unat selected \<le> unat (pr_stride r) * (unat (pr_count r) - 1)" by simp
  then show ?thesis by (auto simp: cell_bytes_def envelope_def Let_def)
qed

lemma range_contains_exact:
  "range_contains r off sz \<longleftrightarrow>
     unat (wr_offset r) \<le> unat off \<and> unat off + unat sz \<le> unat (wr_offset r) + unat (wr_size r)"
  by (simp add: range_contains_def Let_def word_le_nat_alt u32_sum_exact)

lemma envelope_overlaps_exact:
  "envelope_overlaps r off sz \<longleftrightarrow>
     unat off < unat (envelope_end r) \<and> unat (pr_base r) < unat off + unat sz"
  by (simp add: envelope_overlaps_def Let_def word_less_nat_alt u32_sum_exact)

lemma governing_find:
  "governing_loop rules i cursor = find (\<lambda>r. pr_account r = i \<and> unat cursor \<in> envelope r) rules"
  by (induction rules) (auto simp: envelope_def word_le_nat_alt word_less_nat_alt unat_envelope_end)

lemma cover_loop_cases:
  "cover_loop ranges i cursor c = c \<or>
   (\<exists>r \<in> set ranges. wr_account r = i \<and> unat cursor \<in> range_bytes r \<and>
      unat (cover_loop ranges i cursor c) = unat (wr_offset r) + unat (wr_size r))"
proof (induction ranges i cursor c rule: cover_loop.induct)
  case (1 i cursor c)
  then show ?case by simp
next
  case (2 r ranges i cursor c)
  let ?e = "ucast (wr_offset r) + ucast (wr_size r) :: u64"
  let ?c = "if wr_account r = i \<and> ucast (wr_offset r) \<le> cursor \<and> cursor < ?e then max c ?e else c"
  have "?c = c \<or> wr_account r = i \<and> unat cursor \<in> range_bytes r \<and> unat ?c = unat (wr_offset r) + unat (wr_size r)"
    by (auto simp: range_bytes_def word_le_nat_alt word_less_nat_alt u32_sum_exact max_def)
  then show ?case using 2 [OF refl refl] by (auto simp: Let_def)
qed

lemma stop_loop_le: "stop_loop rules i cursor c \<le> c"
  by (induction rules i cursor c rule: stop_loop.induct)
    (auto simp: Let_def intro: order_trans dest: less_imp_le)

lemma stop_loop_before:
  "r \<in> set rules \<Longrightarrow> pr_account r = i \<Longrightarrow> cursor < ucast (pr_base r) \<Longrightarrow> stop_loop rules i cursor c \<le> ucast (pr_base r)"
proof (induction rules i cursor c rule: stop_loop.induct)
  case (1 i cursor c)
  then show ?case by simp
next
  case (2 rule rules i cursor c)
  show ?case
  proof (cases "r = rule")
    case True
    let ?c = "if ucast (pr_base rule) < c then ucast (pr_base rule) else c"
    have "stop_loop rules i cursor ?c \<le> ?c" by (rule stop_loop_le)
    then show ?thesis using True 2 by (auto simp: Let_def split: if_splits)
  next
    case False
    then show ?thesis using 2 by (simp add: Let_def)
  qed
qed

section \<open>What the audit decides\<close>

text \<open>The rules the context macro generates govern disjoint columns.\<close>

definition disjoint_rules :: "write_policy \<Rightarrow> u8 \<Rightarrow> bool" where
  "disjoint_rules p i \<longleftrightarrow>
     (\<forall>r \<in> set (wp_parametric p). \<forall>s \<in> set (wp_parametric p).
        pr_account r = i \<and> pr_account s = i \<and> r \<noteq> s \<longrightarrow> envelope r \<inter> envelope s = {})"

lemma find_disjoint:
  assumes "disjoint_rules p i" and "r \<in> set (wp_parametric p)" and "pr_account r = i" and "b \<in> envelope r"
  shows "find (\<lambda>r. pr_account r = i \<and> b \<in> envelope r) (wp_parametric p) = Some r"
proof -
  from assms obtain s where s: "find (\<lambda>r. pr_account r = i \<and> b \<in> envelope r) (wp_parametric p) = Some s"
    by (cases "find (\<lambda>r. pr_account r = i \<and> b \<in> envelope r) (wp_parametric p)") (auto simp: find_None_iff)
  then have "s \<in> set (wp_parametric p)" "pr_account s = i" "b \<in> envelope s"
    by (auto simp: find_Some_iff)
  with assms have "s = r" unfolding disjoint_rules_def by blast
  with s show ?thesis by simp
qed

lemma cell_allowed:
  assumes "disjoint_rules p i" and "governing_loop (wp_parametric p) i cursor = Some r"
    and "selected_argument r args = Some sel" and "sel < pr_count r" and "b \<in> cell_bytes r sel"
  shows "byte_allowed p i args b"
proof -
  have r: "r \<in> set (wp_parametric p)" "pr_account r = i"
    using assms(2) by (auto simp: governing_find find_Some_iff)
  have "b \<in> envelope r" using cell_in_envelope [OF assms(4)] assms(5) by blast
  from find_disjoint [OF assms(1) r this] show ?thesis using assms(3-5) by (simp add: byte_allowed_def)
qed

lemma static_allowed:
  assumes "governing_loop (wp_parametric p) i cursor = None"
    and "cover_loop (wp_allows p) i cursor cursor \<noteq> cursor"
    and "unat cursor \<le> b" and "b < unat (stop_loop (wp_parametric p) i cursor (cover_loop (wp_allows p) i cursor cursor))"
  shows "byte_allowed p i args b"
proof -
  let ?u = "cover_loop (wp_allows p) i cursor cursor"
  have le: "b < unat ?u" using assms(4) stop_loop_le [of "wp_parametric p" i cursor ?u] by (simp add: word_le_nat_alt)
  have "b \<notin> envelope r" if r: "r \<in> set (wp_parametric p)" "pr_account r = i" for r
  proof
    assume b: "b \<in> envelope r"
    have "unat cursor \<notin> envelope r" using assms(1) r by (auto simp: governing_find find_None_iff)
    then have "cursor < ucast (pr_base r)" using b assms(3) by (auto simp: envelope_def word_less_nat_alt)
    from stop_loop_before [OF r this, of ?u] show False
      using assms(4) b by (auto simp: envelope_def word_le_nat_alt)
  qed
  then have none: "find (\<lambda>r. pr_account r = i \<and> b \<in> envelope r) (wp_parametric p) = None"
    by (auto simp: find_None_iff)
  from cover_loop_cases [of "wp_allows p" i cursor cursor] assms(2) obtain r where
    "r \<in> set (wp_allows p)" "wr_account r = i" "unat cursor \<in> range_bytes r" "unat ?u = unat (wr_offset r) + unat (wr_size r)"
    by auto
  then show ?thesis using none le assms(3) by (auto simp: byte_allowed_def range_bytes_def)
qed

lemma cover_none:
  "cover_loop (wp_allows p) i cursor cursor = cursor \<Longrightarrow> r \<in> set (wp_allows p) \<Longrightarrow> wr_account r = i \<Longrightarrow>
   unat cursor \<notin> range_bytes r"
proof -
  have mono: "unat e \<in> range_bytes r \<Longrightarrow> r \<in> set ranges \<Longrightarrow> wr_account r = i \<Longrightarrow>
    unat (wr_offset r) + unat (wr_size r) \<le> unat (cover_loop ranges i e c)" for ranges i e c
  proof (induction ranges i e c rule: cover_loop.induct)
    case (1 i cursor c)
    then show ?case by simp
  next
    case (2 q ranges i cursor c)
    show ?case
    proof (cases "q = r")
      case True
      let ?e = "ucast (wr_offset r) + ucast (wr_size r) :: u64"
      have "ucast (wr_offset r) \<le> cursor" "cursor < ?e"
        using 2 by (auto simp: range_bytes_def word_le_nat_alt word_less_nat_alt u32_sum_exact)
      moreover have "unat ?e \<le> unat (cover_loop ranges i cursor (max c ?e))"
        using cover_loop_ge [of "max c ?e" ranges i cursor] by (simp add: word_le_nat_alt [symmetric])
      ultimately show ?thesis using True 2 by (simp add: Let_def u32_sum_exact)
    next
      case False
      then show ?thesis using 2 by (simp add: Let_def)
    qed
  qed
  then show "cover_loop (wp_allows p) i cursor cursor = cursor \<Longrightarrow> r \<in> set (wp_allows p) \<Longrightarrow> wr_account r = i \<Longrightarrow>
   unat cursor \<notin> range_bytes r" using mono [of cursor "wp_allows p" i cursor] by (auto simp: range_bytes_def)
qed

definition audit_result :: "write_policy \<Rightarrow> u8 \<Rightarrow> u32 list \<Rightarrow> nat \<Rightarrow> nat \<Rightarrow> u64 option \<Rightarrow> bool" where
  "audit_result p i args from until r =
     (case r of
        None \<Rightarrow> \<forall>b. from \<le> b \<and> b < until \<longrightarrow> byte_allowed p i args b
      | Some x \<Rightarrow> from \<le> unat x \<and> unat x < until \<and> \<not> byte_allowed p i args (unat x) \<and>
          (\<forall>b. from \<le> b \<and> b < unat x \<longrightarrow> byte_allowed p i args b))"

lemma audit_result_step:
  assumes "\<And>b. from \<le> b \<Longrightarrow> b < mid \<Longrightarrow> byte_allowed p i args b" and "from \<le> mid"
    and "audit_result p i args mid until r"
  shows "audit_result p i args from until r"
  using assms by (cases r) (simp_all add: audit_result_def, (metis le_trans not_le)+)

lemma audit_here:
  "cursor < finish \<Longrightarrow> \<not> byte_allowed p i args (unat cursor) \<Longrightarrow>
   audit_result p i args (unat cursor) (unat finish) (Some cursor)"
  by (auto simp: audit_result_def word_less_nat_alt)

lemma audit_loop_exact:
  "disjoint_rules p i \<Longrightarrow> audit_result p i args (unat cursor) (unat finish) (audit_loop p i args cursor finish)"
proof (induction p i args cursor finish rule: audit_loop.induct)
  case (1 p i args cursor finish)
  note d = 1(3) and unfold = audit_loop.simps [of p i args cursor finish]
  show ?case
  proof (cases "cursor < finish")
    case False
    then show ?thesis by (auto simp: unfold audit_result_def word_less_nat_alt)
  next
    case run: True
    show ?thesis
    proof (cases "governing_loop (wp_parametric p) i cursor")
      case None
      let ?u = "cover_loop (wp_allows p) i cursor cursor"
      let ?next = "min (stop_loop (wp_parametric p) i cursor ?u) finish"
      show ?thesis
      proof (cases "?u = cursor")
        case True
        then have "\<not> byte_allowed p i args (unat cursor)"
          using None cover_none [of p i cursor] by (auto simp: byte_allowed_def governing_find)
        then show ?thesis using run None True by (simp add: unfold audit_here)
      next
        case False
        have lt: "cursor < ?next" using run stop_loop_gt [OF cover_loop_gt [OF False]] by simp
        have ok: "byte_allowed p i args b" if "unat cursor \<le> b" "b < unat ?next" for b
          using static_allowed [OF None False that(1), of args] that(2)
          by (auto simp: min_def word_le_nat_alt split: if_splits)
        from 1(1) [OF run None refl False d] show ?thesis
          using audit_result_step [OF ok] lt run None False by (simp add: unfold word_less_nat_alt less_imp_le Let_def)
      qed
    next
      case (Some r)
      have stuck: "audit_result p i args (unat cursor) (unat finish) (Some cursor)"
        if "\<not> (\<exists>sel. selected_argument r args = Some sel \<and> sel < pr_count r \<and> unat cursor \<in> cell_bytes r sel)"
        using that Some run by (intro audit_here) (auto simp: byte_allowed_def governing_find split: option.splits)
      show ?thesis
      proof (cases "selected_argument r args")
        case None
        then show ?thesis using stuck run Some by (simp add: unfold)
      next
        case arg: (Some sel)
        let ?stop = "cell_start r sel + ucast (pr_cell r)"
        show ?thesis
        proof (cases "sel < pr_count r \<and> unat cursor \<in> cell_bytes r sel")
          case False
          then show ?thesis
            using stuck run Some arg cell_exact [of sel r]
            by (auto simp: unfold cell_bytes_def Let_def word_le_nat_alt word_less_nat_alt not_le)
        next
          case True
          then have in_cell: "cell_start r sel \<le> cursor" "cursor < ?stop"
            using cell_exact [of sel r] by (simp_all add: cell_bytes_def Let_def word_le_nat_alt word_less_nat_alt)
          have ok: "byte_allowed p i args b" if "unat cursor \<le> b" "b < unat (min ?stop finish)" for b
            using that True in_cell cell_exact [of sel r]
            by (intro cell_allowed [OF d Some arg])
              (auto simp: cell_bytes_def Let_def min_def word_le_nat_alt word_less_nat_alt split: if_splits)
          have lt: "cursor < min ?stop finish" using in_cell run by simp
          have IH: "audit_result p i args (unat (min ?stop finish)) (unat finish) (audit_loop p i args (min ?stop finish) finish)"
            using 1(2) [OF run Some arg _ refl refl] True in_cell d by (simp add: not_le)
          have "\<not> pr_count r \<le> sel" using True by (simp add: not_le)
          then have e: "audit_loop p i args cursor finish = audit_loop p i args (min ?stop finish) finish"
            using run Some arg in_cell by (simp add: unfold)
          show ?thesis unfolding e using lt by (intro audit_result_step [OF ok _ IH]) (auto simp: word_less_nat_alt)
        qed
      qed
    qed
  qed
qed

text \<open>
  Where the columns of hand-built rules overlap, the audit jumps over a whole selected cell and may
  pass over a byte an earlier rule governs; but what it reports is never authorised.
\<close>

lemma audit_reports_unauthorized:
  "audit_loop p i args cursor finish = Some x \<Longrightarrow> cursor \<le> x \<and> x < finish \<and> \<not> byte_allowed p i args (unat x)"
proof (induction p i args cursor finish rule: audit_loop.induct)
  case (1 p i args cursor finish)
  note run = 1(3) [unfolded audit_loop.simps [of p i args cursor finish]]
  have lt: "cursor < finish" using run by (simp split: if_splits)
  show ?case
  proof (cases "governing_loop (wp_parametric p) i cursor")
    case None
    let ?u = "cover_loop (wp_allows p) i cursor cursor"
    let ?next = "min (stop_loop (wp_parametric p) i cursor ?u) finish"
    show ?thesis
    proof (cases "?u = cursor")
      case True
      then have "x = cursor" using run lt None by simp
      moreover have "\<not> byte_allowed p i args (unat cursor)"
        using None cover_none [of p i cursor] True by (auto simp: byte_allowed_def governing_find)
      ultimately show ?thesis using lt by simp
    next
      case False
      have "cursor \<le> ?next" using lt stop_loop_gt [OF cover_loop_gt [OF False]] by (simp add: less_imp_le)
      moreover have "audit_loop p i args ?next finish = Some x" using run lt None False by (simp add: Let_def)
      ultimately show ?thesis using 1(1) [OF lt None refl False] by (blast intro: order_trans)
    qed
  next
    case (Some r)
    show ?thesis
    proof (cases "\<exists>sel. selected_argument r args = Some sel \<and> sel < pr_count r \<and> unat cursor \<in> cell_bytes r sel")
      case False
      then have "x = cursor" using run lt Some cell_exact [of _ r]
        by (auto simp: Let_def cell_bytes_def word_le_nat_alt word_less_nat_alt not_le split: option.splits if_splits)
      moreover have "\<not> byte_allowed p i args (unat cursor)"
        using False Some by (auto simp: byte_allowed_def governing_find split: option.splits)
      ultimately show ?thesis using lt by simp
    next
      case True
      then obtain sel where arg: "selected_argument r args = Some sel" "sel < pr_count r" "unat cursor \<in> cell_bytes r sel" by blast
      let ?stop = "cell_start r sel + ucast (pr_cell r)"
      have cell: "cell_start r sel \<le> cursor" "cursor < ?stop"
        using arg(2,3) cell_exact [of sel r] by (simp_all add: cell_bytes_def Let_def word_le_nat_alt word_less_nat_alt)
      have "audit_loop p i args (min ?stop finish) finish = Some x" using run lt Some arg(1) cell arg(2) [folded not_le] by (auto simp: Let_def split: if_splits)
      moreover have "cursor \<le> min ?stop finish" using cell lt by (simp add: less_imp_le)
      moreover have "\<not> pr_count r \<le> sel" using arg(2) by (simp add: not_le)
      ultimately show ?thesis using 1(2) [OF lt Some arg(1) _ refl refl] cell by (blast intro: order_trans)
    qed
  qed
qed

section \<open>What an acquired write may touch\<close>

lemma governed_loop_Some:
  "governed_loop rules i off sz args = Some (Ok ()) \<Longrightarrow>
   \<exists>r sel pre post. rules = pre @ r # post \<and> (\<forall>q \<in> set pre. \<not> (pr_account q = i \<and> envelope_overlaps q off sz)) \<and>
     pr_account r = i \<and> envelope_overlaps r off sz \<and> selected_argument r args = Some sel \<and> selected_contains r sel off sz"
proof (induction rules)
  case Nil
  then show ?case by simp
next
  case (Cons q rules)
  show ?case
  proof (cases "pr_account q = i \<and> envelope_overlaps q off sz")
    case True
    then obtain sel where "selected_argument q args = Some sel" "selected_contains q sel off sz"
      using Cons.prems by (auto split: if_splits option.splits)
    then show ?thesis
      using True by (intro exI [of _ q] exI [of _ sel] exI [of _ "[]"] exI [of _ rules]) simp
  next
    case False
    then have "governed_loop rules i off sz args = Some (Ok ())" using Cons.prems by auto
    from Cons.IH [OF this] obtain r sel pre post where
      "rules = pre @ r # post \<and> (\<forall>q \<in> set pre. \<not> (pr_account q = i \<and> envelope_overlaps q off sz)) \<and>
       pr_account r = i \<and> envelope_overlaps r off sz \<and> selected_argument r args = Some sel \<and> selected_contains r sel off sz"
      by blast
    then show ?thesis using False by (intro exI [of _ r] exI [of _ sel] exI [of _ "q # pre"] exI [of _ post]) auto
  qed
qed

lemma governed_loop_None:
  "governed_loop rules i off sz args = None \<longleftrightarrow>
   (\<forall>r \<in> set rules. \<not> (pr_account r = i \<and> envelope_overlaps r off sz))"
  by (induction rules) auto

lemma contains_loop_iff:
  "contains_loop ranges i off sz \<longleftrightarrow> (\<exists>r \<in> set ranges. wr_account r = i \<and> range_contains r off sz)"
  by (induction ranges) auto

lemma selected_contains_exact:
  "selected_contains r sel off sz \<longleftrightarrow> sel < pr_count r \<and>
     unat (pr_base r) + unat (pr_stride r) * unat sel \<le> unat off \<and>
     unat off + unat sz \<le> unat (pr_base r) + unat (pr_stride r) * unat sel + unat (pr_cell r)"
  by (auto simp: selected_contains_def Let_def cell_exact word_le_nat_alt u32_sum_exact not_le word_less_nat_alt)

lemma find_prefix: "find P xs = None \<Longrightarrow> find P (xs @ ys) = find P ys"
  by (induction xs) (auto split: if_splits)

lemma byte_overlaps:
  "unat off \<le> b \<Longrightarrow> b < unat off + unat sz \<Longrightarrow> b \<in> envelope q \<Longrightarrow> envelope_overlaps q off sz"
  by (auto simp: envelope_overlaps_exact unat_envelope_end envelope_def)

lemma acquired_bytes_allowed:
  assumes "check_write_with_args p i off sz args = Ok ()" and "unat off \<le> b" and "b < unat off + unat sz"
  shows "byte_allowed p i args b"
proof (cases "governed_loop (wp_parametric p) i off sz args")
  case None
  then have "find (\<lambda>r. pr_account r = i \<and> b \<in> envelope r) (wp_parametric p) = None"
    using assms(2,3) byte_overlaps by (auto simp: find_None_iff governed_loop_None)
  moreover obtain r where "r \<in> set (wp_allows p)" "wr_account r = i" "range_contains r off sz"
    using assms(1) None by (auto simp: check_write_with_args_def check_write_def contains_loop_iff split: if_splits)
  ultimately show ?thesis
    using assms(2,3) by (auto simp: byte_allowed_def range_contains_exact range_bytes_def)
next
  case (Some v)
  then have "governed_loop (wp_parametric p) i off sz args = Some (Ok ())"
    using assms(1) by (simp add: check_write_with_args_def)
  from governed_loop_Some [OF this] obtain r sel pre post where
    r: "wp_parametric p = pre @ r # post" "\<forall>q \<in> set pre. \<not> (pr_account q = i \<and> envelope_overlaps q off sz)"
      "pr_account r = i" "selected_argument r args = Some sel" "selected_contains r sel off sz" by blast
  then have cell: "b \<in> cell_bytes r sel" and sel: "sel < pr_count r"
    using assms(2,3) by (auto simp: selected_contains_exact cell_bytes_def Let_def)
  then have env: "b \<in> envelope r" using cell_in_envelope by blast
  have "find (\<lambda>q. pr_account q = i \<and> b \<in> envelope q) pre = None"
    using r(2) assms(2,3) byte_overlaps by (auto simp: find_None_iff)
  then have "find (\<lambda>q. pr_account q = i \<and> b \<in> envelope q) (wp_parametric p) = Some r"
    using r(1,3) env by (simp add: find_prefix)
  then show ?thesis using r(4) cell sel by (simp add: byte_allowed_def)
qed

lemma audit_exact:
  assumes "disjoint_rules p i"
  shows "audit_result p i args (unat off) (unat off + unat sz) (first_unauthorized_byte_with_args p i off sz args)"
  using audit_loop_exact [OF assms, of args "ucast off" "ucast off + ucast sz"]
  by (simp add: first_unauthorized_byte_with_args_def u32_sum_exact Let_def)

lemma allowed_bytes_pass:
  assumes "\<And>b. unat off \<le> b \<Longrightarrow> b < unat off + unat sz \<Longrightarrow> byte_allowed p i args b"
  shows "first_unauthorized_byte_with_args p i off sz args = None"
proof (cases "first_unauthorized_byte_with_args p i off sz args")
  case (Some x)
  then have "ucast off \<le> x \<and> x < ucast off + ucast sz \<and> \<not> byte_allowed p i args (unat x)"
    by (intro audit_reports_unauthorized) (simp add: first_unauthorized_byte_with_args_def Let_def)
  then show ?thesis using assms [of "unat x"] by (simp add: word_le_nat_alt word_less_nat_alt u32_sum_exact)
qed simp

section \<open>Properties\<close>

text \<open>
  The audit is exact. For a policy whose columns do not overlap and any write record, the
  audit terminates, answers with the first byte no declaration authorises for the selected
  cells, and answers nothing exactly when every byte is authorised; in particular it accepts
  every range an acquire was granted, whatever the arguments.
\<close>

theorem audit_finds_first_unauthorized_byte:
  assumes "disjoint_rules p i"
  shows "(case first_unauthorized_byte_with_args p i off sz args of
      None \<Rightarrow> \<forall>b \<in> {unat off ..< unat off + unat sz}. byte_allowed p i args b
    | Some x \<Rightarrow> unat x \<in> {unat off ..< unat off + unat sz} \<and> \<not> byte_allowed p i args (unat x) \<and>
        (\<forall>b \<in> {unat off ..< unat x}. byte_allowed p i args b)) \<and>
    (check_write_with_args p i off sz args = Ok () \<longrightarrow> first_unauthorized_byte_with_args p i off sz args = None)"
proof
  note exact = audit_exact [OF assms, of args off sz]
  show "case first_unauthorized_byte_with_args p i off sz args of
      None \<Rightarrow> \<forall>b \<in> {unat off ..< unat off + unat sz}. byte_allowed p i args b
    | Some x \<Rightarrow> unat x \<in> {unat off ..< unat off + unat sz} \<and> \<not> byte_allowed p i args (unat x) \<and>
        (\<forall>b \<in> {unat off ..< unat x}. byte_allowed p i args b)"
    using exact by (auto simp: audit_result_def split: option.splits)
  show "check_write_with_args p i off sz args = Ok () \<longrightarrow> first_unauthorized_byte_with_args p i off sz args = None"
  proof
    assume "check_write_with_args p i off sz args = Ok ()"
    from acquired_bytes_allowed [OF this] exact
    show "first_unauthorized_byte_with_args p i off sz args = None"
      by (cases "first_unauthorized_byte_with_args p i off sz args") (auto simp: audit_result_def)
  qed
qed

theorem audit_finds_first_unauthorized_byte_witness:
  "first_unauthorized_byte_with_args
     \<lparr>wp_allows = [range_new 1 0 100], wp_parametric = [param_new 1 16 8 4 3 0 ''slot'' ''balances''], wp_lamports = Undeclared\<rparr>
     1 24 4 [1] = None"
proof -
  let ?p = "\<lparr>wp_allows = [range_new 1 0 100], wp_parametric = [param_new 1 16 8 4 3 0 ''slot'' ''balances''], wp_lamports = Undeclared\<rparr>"
  have "disjoint_rules ?p 1" by (simp add: disjoint_rules_def)
  moreover have "check_write_with_args ?p 1 24 4 [1] = Ok ()"
    by (simp add: check_write_with_args_def param_new_def envelope_overlaps_exact unat_envelope_end
        selected_argument_def selected_contains_exact)
  ultimately show ?thesis using audit_finds_first_unauthorized_byte [of ?p 1 24 4 "[1]"] by blast
qed

text \<open>
  C32: enforcement and evidence agree, for every policy, hand-built ones with overlapping rules
  included. If every write borrow of an account was acquired under the policy as one position of the
  instruction, every write record the touch log holds for that account, merged from many acquires or
  not, passes the audit for that position.
\<close>

theorem acquired_writes_pass_the_audit:
  assumes "\<And>b. b \<in> set bs \<Longrightarrow> sb_kind b = Write \<Longrightarrow> sb_key b = key \<Longrightarrow>
      check_write_with_args p i (sb_offset b) (sb_size b) args = Ok ()"
    and "e \<in> set (tl_entries (foldl tl_record tl_new bs))" and "sb_kind e = Write" and "sb_key e = key"
  shows "first_unauthorized_byte_with_args p i (sb_offset e) (sb_size e) args = None"
proof (rule allowed_bytes_pass)
  have sub: "written (tl_entries (foldl tl_record tl_new bs)) \<subseteq> written bs"
    using touch_log_exact' [of bs] by (simp add: Let_def)
  fix x assume "unat (sb_offset e) \<le> x" "x < unat (sb_offset e) + unat (sb_size e)"
  then have "(key, x) \<in> written (tl_entries (foldl tl_record tl_new bs))"
    using assms(2-4) by (auto simp: written_def touched_def bytes_of_def)
  then have "(key, x) \<in> written bs" using sub by blast
  then obtain b where b: "b \<in> set bs" "sb_kind b = Write" "sb_key b = key" "x \<in> bytes_of b"
    by (auto simp: written_def touched_def)
  show "byte_allowed p i args x"
    using acquired_bytes_allowed [OF assms(1) [OF b(1-3)], of x] b(4) by (simp add: bytes_of_def)
qed

text \<open>
  Two rules whose columns overlap, and a log that is full when the second half of the selected
  cell is acquired, so that its record is merged with that of the first half.
\<close>

definition sample_overlapping :: write_policy where
  "sample_overlapping = with_parametric [range_new 0 8 4]
     [param_new 0 300 8 4 3 0 ''slot'' ''balances'', param_new 0 304 8 8 2 0 ''slot'' ''claims'']"

definition sample_touches :: "segment_borrow list" where
  "sample_touches =
     List.map (\<lambda>k. \<lparr>sb_key_fp = 1, sb_key = [1], sb_offset = word_of_nat (8 * k), sb_size = 4, sb_kind = Read\<rparr>) [0..<31] @
     [\<lparr>sb_key_fp = 0, sb_key = [], sb_offset = 308, sb_size = 2, sb_kind = Write\<rparr>,
      \<lparr>sb_key_fp = 0, sb_key = [], sb_offset = 310, sb_size = 2, sb_kind = Write\<rparr>]"

lemma sample_log: "tl_entries (foldl tl_record tl_new sample_touches) =
    take 31 sample_touches @ [\<lparr>sb_key_fp = 0, sb_key = [], sb_offset = 308, sb_size = 4, sb_kind = Write\<rparr>]"
  by code_simp

theorem acquired_writes_pass_the_audit_witness:
  "first_unauthorized_byte_with_args sample_overlapping 0 308 4 [1] = None"
proof -
  have ok: "check_write_with_args sample_overlapping 0 (sb_offset b) (sb_size b) [1] = Ok ()"
    if "b \<in> set sample_touches" "sb_kind b = Write" for b
    using that by (auto simp: sample_touches_def check_write_with_args_def sample_overlapping_def with_parametric_def param_new_def
        envelope_overlaps_exact unat_envelope_end selected_argument_def selected_contains_exact)
  show ?thesis
    using acquired_writes_pass_the_audit [OF ok, where bs = sample_touches and key = "[]"
        and e = "\<lparr>sb_key_fp = 0, sb_key = [], sb_offset = 308, sb_size = 4, sb_kind = Write\<rparr>"] sample_log by simp
qed

end
