(* ===== verification/WriteGate.thy ===== *)
theory WriteGate imports WritePolicy Contracts begin

text \<open>
  hopper-runtime/src/write_policy.rs, the ambient gate: a fixed array of slots, each holding
  the account addresses, the policy and the selector arguments of one bound instruction. The
  account slice is the list of its addresses (nothing else is read from it). Shown: the store
  is a stack of gates of which the newest governs, whatever the order in which guards are
  dropped, and every mutation check decides by that gate's policy alone.
\<close>

section \<open>The store\<close>

definition lamport_gate_install_error_page :: u32 where "lamport_gate_install_error_page = 0xD100"
definition lamport_gate_too_many_accounts :: program_error where
  "lamport_gate_too_many_accounts = Custom (lamport_gate_install_error_page OR 1)"
definition lamport_gate_depth_exceeded :: program_error where
  "lamport_gate_depth_exceeded = Custom (lamport_gate_install_error_page OR 2)"
definition ambient_gate_too_many_arguments :: program_error where
  "ambient_gate_too_many_arguments = Custom (lamport_gate_install_error_page OR 4)"
definition ambient_gate_unguarded_build :: program_error where
  "ambient_gate_unguarded_build = Custom (lamport_gate_install_error_page OR 5)"
definition lamport_gate_capacity :: nat where "lamport_gate_capacity = 254"
definition ambient_gate_arg_capacity :: nat where "ambient_gate_arg_capacity = 8"

datatype gate_install_error = TooManyAccounts | TooManyArguments | NoFreeSlot

record gate_entry =
  ge_address :: bytes
  ge_index :: u8
  ge_mutation :: bool
  ge_delegation :: bool
  ge_transition :: bool

definition empty_entry :: gate_entry where
  "empty_entry = \<lparr>ge_address = replicate 32 0, ge_index = 0, ge_mutation = False, ge_delegation = False, ge_transition = False\<rparr>"

record gate_slot =
  gs_token :: u64
  gs_len :: nat
  gs_policy :: "write_policy option"
  gs_args :: "u32 list"
  gs_args_len :: nat
  gs_entries :: "gate_entry list"

definition free_slot :: gate_slot where
  "free_slot = \<lparr>gs_token = 0, gs_len = 0, gs_policy = None, gs_args = replicate ambient_gate_arg_capacity 0,
     gs_args_len = 0, gs_entries = replicate lamport_gate_capacity empty_entry\<rparr>"

datatype gate_check = GLamports | GData u32 u32 | GTransition | GDelegation

record gate_store =
  gt_issued :: u64
  gt_installed :: u64
  gt_top_token :: u64
  gt_top_idx :: u8
  gt_slots :: "gate_slot list"

definition gate_store_new :: "nat \<Rightarrow> gate_store" where
  "gate_store_new depth =
     \<lparr>gt_issued = 0, gt_installed = 0, gt_top_token = 0, gt_top_idx = 0, gt_slots = replicate depth free_slot\<rparr>"

text \<open>\<^verbatim>\<open>self.slots.iter_mut().enumerate().find(|(_, s)| s.token == token)\<close>.\<close>

fun slot_with_token :: "gate_slot list \<Rightarrow> nat \<Rightarrow> u64 \<Rightarrow> nat option" where
  "slot_with_token [] i token = None"
| "slot_with_token (s # slots) i token = (if gs_token s = token then Some i else slot_with_token slots (i + 1) token)"

definition make_entry :: "write_policy \<Rightarrow> bytes \<Rightarrow> nat \<Rightarrow> gate_entry" where
  "make_entry policy address i =
     (if i \<le> 255 then
        let idx = word_of_nat i; m = allows_lamport_mutation policy idx in
        \<lparr>ge_address = address, ge_index = idx, ge_mutation = m,
         ge_delegation = lamports_declared policy \<and> m \<and> allows_whole_account_write policy idx,
         ge_transition = allows_any_account_write policy idx\<rparr>
      else
        \<lparr>ge_address = address, ge_index = 255, ge_mutation = False, ge_delegation = False, ge_transition = False\<rparr>)"

text \<open>The loop over the accounts: \<open>None\<close> is the early return.\<close>

fun install_loop :: "write_policy \<Rightarrow> bytes list \<Rightarrow> nat \<Rightarrow> nat \<Rightarrow> gate_entry list \<Rightarrow> gate_entry list \<times> nat option" where
  "install_loop policy [] i len entries = (entries, Some len)"
| "install_loop policy (address # accounts) i len entries =
     (if len < length entries
      then install_loop policy accounts (i + 1) (len + 1) (entries[len := make_entry policy address i])
      else (entries, None))"

definition gate_install :: "gate_store \<Rightarrow> bytes list \<Rightarrow> write_policy \<Rightarrow> u32 list \<Rightarrow> gate_store \<times> (gate_install_error + u64)" where
  "gate_install s accounts policy args =
     (if length accounts > lamport_gate_capacity then (s, Inl TooManyAccounts)
      else if length args > ambient_gate_arg_capacity then (s, Inl TooManyArguments)
      else
        case slot_with_token (gt_slots s) 0 0 of
          None \<Rightarrow> (s, Inl NoFreeSlot)
        | Some slot_idx \<Rightarrow>
            let slot = gt_slots s ! slot_idx in
            case install_loop policy accounts 0 0 (gs_entries slot) of
              (entries, None) \<Rightarrow> (s\<lparr>gt_slots := (gt_slots s)[slot_idx := slot\<lparr>gs_entries := entries\<rparr>]\<rparr>, Inl TooManyAccounts)
            | (entries, Some len) \<Rightarrow>
                let issued = gt_issued s + 1;
                    token = (if issued = 0 then 1 else issued);
                    n = min (length (gs_args slot)) (length args);
                    slot' = slot\<lparr>gs_entries := entries, gs_len := len, gs_policy := Some policy,
                      gs_args_len := length args, gs_args := take n args @ drop n (gs_args slot), gs_token := token\<rparr>
                in (s\<lparr>gt_slots := (gt_slots s)[slot_idx := slot'], gt_issued := token, gt_top_token := token,
                     gt_top_idx := word_of_nat slot_idx, gt_installed := gt_installed s + 1\<rparr>, Inr token))"

fun best_loop :: "gate_slot list \<Rightarrow> nat \<Rightarrow> u64 \<Rightarrow> u8 \<Rightarrow> u64 \<times> u8" where
  "best_loop [] i best_token best_idx = (best_token, best_idx)"
| "best_loop (s # slots) i best_token best_idx =
     (if gs_token s > best_token then best_loop slots (i + 1) (gs_token s) (word_of_nat i)
      else best_loop slots (i + 1) best_token best_idx)"

definition gate_remove :: "gate_store \<Rightarrow> u64 \<Rightarrow> gate_store \<times> bool" where
  "gate_remove s token =
     (case slot_with_token (gt_slots s) 0 token of
        None \<Rightarrow> (s, False)
      | Some i \<Rightarrow>
          let slot = gt_slots s ! i;
              slots = (gt_slots s)[i := slot\<lparr>gs_token := 0, gs_len := 0, gs_policy := None, gs_args_len := 0\<rparr>];
              s1 = s\<lparr>gt_slots := slots, gt_installed := word_saturating_sub (gt_installed s) 1\<rparr>
          in (if token = gt_top_token s1 then
                let (best_token, best_idx) = best_loop slots 0 0 0 in s1\<lparr>gt_top_token := best_token, gt_top_idx := best_idx\<rparr>
              else s1, True))"

definition active_slot :: "gate_store \<Rightarrow> gate_slot option" where
  "active_slot s =
     (if gt_top_token s = 0 then None
      else if unat (gt_top_idx s) < length (gt_slots s) then Some (gt_slots s ! unat (gt_top_idx s)) else None)"

definition entry_allows :: "write_policy \<Rightarrow> u32 list \<Rightarrow> gate_entry \<Rightarrow> gate_check \<Rightarrow> bool" where
  "entry_allows policy args entry check =
     (case check of
        GLamports \<Rightarrow> ge_mutation entry
      | GData off sz \<Rightarrow> check_write_with_args policy (ge_index entry) off sz args = Ok ()
      | GTransition \<Rightarrow> ge_transition entry
      | GDelegation \<Rightarrow> ge_delegation entry)"

fun check_loop :: "write_policy \<Rightarrow> u32 list \<Rightarrow> gate_entry list \<Rightarrow> bytes \<Rightarrow> gate_check \<Rightarrow> u8 option \<Rightarrow> unit outcome" where
  "check_loop policy args [] address check first =
     Err (write_policy_violation (case first of Some i \<Rightarrow> i | None \<Rightarrow> 255))"
| "check_loop policy args (entry # seen) address check first =
     (if ge_address entry = address then
        let first' = (if first = None then Some (ge_index entry) else first) in
        if entry_allows policy args entry check then Ok () else check_loop policy args seen address check first'
      else check_loop policy args seen address check first)"

text \<open>\<^verbatim>\<open>slice.get(..n).unwrap_or(&[])\<close>.\<close>

definition prefix_or_empty :: "nat \<Rightarrow> 'a list \<Rightarrow> 'a list" where
  "prefix_or_empty n xs = (if n \<le> length xs then take n xs else [])"

definition gate_store_check :: "gate_store \<Rightarrow> bytes \<Rightarrow> gate_check \<Rightarrow> unit outcome" where
  "gate_store_check s address check =
     (if gt_installed s = 0 then Ok ()
      else
        case active_slot s of
          None \<Rightarrow> Ok ()
        | Some slot \<Rightarrow>
            (case gs_policy slot of
               None \<Rightarrow> Err (write_policy_violation 255)
             | Some policy \<Rightarrow>
                 if \<not> lamports_declared policy \<and> (check = GLamports \<or> check = GDelegation) then Ok ()
                 else check_loop policy (prefix_or_empty (gs_args_len slot) (gs_args slot))
                        (prefix_or_empty (gs_len slot) (gs_entries slot)) address check None))"

definition gate_any_active :: "gate_store \<Rightarrow> bool" where
  "gate_any_active s \<longleftrightarrow> gt_installed s \<noteq> 0"

section \<open>The on-chain tier\<close>

record sbf_gate_state =
  sb_checker :: "(gate_store \<Rightarrow> bytes \<Rightarrow> gate_check \<Rightarrow> unit outcome) option"
  sb_store :: gate_store

definition sbf_gate_depth :: nat where "sbf_gate_depth = 2"

definition sbf_install :: "sbf_gate_state \<Rightarrow> bytes list \<Rightarrow> write_policy \<Rightarrow> u32 list \<Rightarrow> sbf_gate_state \<times> (gate_install_error + u64)" where
  "sbf_install st accounts policy args =
     (case gate_install (sb_store st) accounts policy args of
        (store, Inl e) \<Rightarrow> (st\<lparr>sb_store := store\<rparr>, Inl e)
      | (store, Inr token) \<Rightarrow> (st\<lparr>sb_store := store, sb_checker := Some gate_store_check\<rparr>, Inr token))"

definition sbf_remove :: "sbf_gate_state \<Rightarrow> u64 \<Rightarrow> sbf_gate_state" where
  "sbf_remove st token =
     (let st1 = st\<lparr>sb_store := fst (gate_remove (sb_store st) token)\<rparr> in
      if \<not> gate_any_active (sb_store st1) then st1\<lparr>sb_checker := None\<rparr> else st1)"

definition sbf_check :: "sbf_gate_state \<Rightarrow> bytes \<Rightarrow> gate_check \<Rightarrow> unit outcome" where
  "sbf_check st address check =
     (case sb_checker st of Some checker \<Rightarrow> checker (sb_store st) address check | None \<Rightarrow> Ok ())"

definition sbf_any_active :: "sbf_gate_state \<Rightarrow> bool" where
  "sbf_any_active st \<longleftrightarrow> sb_checker st \<noteq> None"

section \<open>The entry points\<close>

text \<open>
  A guard is its token. \<open>unguarded\<close> is the build feature \<^verbatim>\<open>unguarded-raw-surfaces\<close>.
\<close>

definition try_install_ambient_gate_with_args ::
  "bool \<Rightarrow> sbf_gate_state \<Rightarrow> bytes list \<Rightarrow> write_policy \<Rightarrow> u32 list \<Rightarrow> sbf_gate_state \<times> u64 outcome" where
  "try_install_ambient_gate_with_args unguarded st accounts policy args =
     (if unguarded \<and> (wp_allows policy \<noteq> [] \<or> wp_parametric policy \<noteq> []) then (st, Err ambient_gate_unguarded_build)
      else
        case sbf_install st accounts policy args of
          (st', Inr token) \<Rightarrow> (st', Ok token)
        | (st', Inl TooManyAccounts) \<Rightarrow> (st', Err lamport_gate_too_many_accounts)
        | (st', Inl TooManyArguments) \<Rightarrow> (st', Err ambient_gate_too_many_arguments)
        | (st', Inl NoFreeSlot) \<Rightarrow> (st', Err lamport_gate_depth_exceeded))"

definition try_install_lamport_gate :: "bool \<Rightarrow> sbf_gate_state \<Rightarrow> bytes list \<Rightarrow> write_policy \<Rightarrow> sbf_gate_state \<times> u64 outcome" where
  "try_install_lamport_gate unguarded st accounts policy = try_install_ambient_gate_with_args unguarded st accounts policy []"

definition guard_gate_drop :: "sbf_gate_state \<Rightarrow> u64 \<Rightarrow> sbf_gate_state" where
  "guard_gate_drop st token = (if token \<noteq> 0 then sbf_remove st token else st)"

definition check_lamport_mutation :: "sbf_gate_state \<Rightarrow> bytes \<Rightarrow> unit outcome" where
  "check_lamport_mutation st address = (if \<not> sbf_any_active st then Ok () else sbf_check st address GLamports)"
definition check_data_mutation :: "bool \<Rightarrow> sbf_gate_state \<Rightarrow> bytes \<Rightarrow> u32 \<Rightarrow> u32 \<Rightarrow> unit outcome" where
  "check_data_mutation unguarded st address off sz =
     (if unguarded then Ok () else if \<not> sbf_any_active st then Ok () else sbf_check st address (GData off sz))"
definition check_account_transition :: "bool \<Rightarrow> sbf_gate_state \<Rightarrow> bytes \<Rightarrow> unit outcome" where
  "check_account_transition unguarded st address =
     (if unguarded then Ok () else if \<not> sbf_any_active st then Ok () else sbf_check st address GTransition)"
definition check_lamport_delegation :: "sbf_gate_state \<Rightarrow> bytes \<Rightarrow> unit outcome" where
  "check_lamport_delegation st address = sbf_check st address GDelegation"

section \<open>The stack of gates\<close>

record gate =
  ga_accounts :: "bytes list"
  ga_policy :: write_policy
  ga_args :: "u32 list"

definition index_permits :: "gate \<Rightarrow> gate_check \<Rightarrow> nat \<Rightarrow> bool" where
  "index_permits g check i =
     (let p = ga_policy g; idx = word_of_nat i in
      case check of
        GLamports \<Rightarrow> allows_lamport_mutation p idx
      | GData off sz \<Rightarrow> check_write_with_args p idx off sz (ga_args g) = Ok ()
      | GTransition \<Rightarrow> allows_any_account_write p idx
      | GDelegation \<Rightarrow> lamports_declared p \<and> allows_lamport_mutation p idx \<and> allows_whole_account_write p idx)"

definition positions :: "bytes list \<Rightarrow> bytes \<Rightarrow> nat list" where
  "positions accounts address = filter (\<lambda>i. accounts ! i = address) [0..<length accounts]"

text \<open>The verdict of one gate: some position of the address must be permitted.\<close>

definition gate_verdict :: "gate \<Rightarrow> bytes \<Rightarrow> gate_check \<Rightarrow> unit outcome" where
  "gate_verdict g address check =
     (if \<not> lamports_declared (ga_policy g) \<and> (check = GLamports \<or> check = GDelegation) then Ok ()
      else if list_ex (index_permits g check) (positions (ga_accounts g) address) then Ok ()
      else Err (write_policy_violation (case positions (ga_accounts g) address of [] \<Rightarrow> 255 | i # _ \<Rightarrow> word_of_nat i)))"

definition slot_gate :: "gate_slot \<Rightarrow> gate" where
  "slot_gate s = \<lparr>ga_accounts = List.map ge_address (take (gs_len s) (gs_entries s)), ga_policy = the (gs_policy s),
     ga_args = take (gs_args_len s) (gs_args s)\<rparr>"

definition slot_ok :: "gate_slot \<Rightarrow> bool" where
  "slot_ok s \<longleftrightarrow> length (gs_entries s) = lamport_gate_capacity \<and> length (gs_args s) = ambient_gate_arg_capacity \<and>
     (gs_token s \<noteq> 0 \<longrightarrow> gs_policy s \<noteq> None \<and> gs_len s \<le> lamport_gate_capacity \<and> gs_args_len s \<le> ambient_gate_arg_capacity \<and>
       (\<forall>i < gs_len s. gs_entries s ! i = make_entry (the (gs_policy s)) (ge_address (gs_entries s ! i)) i))"

lemma install_loop_eq:
  "len + length accounts \<le> length entries \<Longrightarrow>
   install_loop policy accounts i len entries =
     (take len entries @ List.map (\<lambda>j. make_entry policy (accounts ! j) (i + j)) [0..<length accounts] @
        drop (len + length accounts) entries, Some (len + length accounts))"
proof (induction accounts arbitrary: i len entries)
  case Nil
  then show ?case by simp
next
  case (Cons a accounts)
  let ?e = "entries[len := make_entry policy a i]"
  have "take (Suc len) ?e = take len entries @ [make_entry policy a i]"
    using Cons.prems by (simp add: take_Suc_conv_app_nth)
  moreover have "List.map (\<lambda>j. make_entry policy ((a # accounts) ! j) (i + j)) [0..<length (a # accounts)] =
      make_entry policy a i # List.map (\<lambda>j. make_entry policy (accounts ! j) (Suc i + j)) [0..<length accounts]"
    by (simp add: upt_conv_Cons map_Suc_upt [symmetric] del: upt_Suc)
  ultimately show ?case using Cons.IH [of "Suc len" ?e "Suc i"] Cons.prems by simp
qed

lemma make_entry_fields [simp]:
  "ge_address (make_entry p a i) = a"
  "i \<le> 255 \<Longrightarrow> ge_index (make_entry p a i) = word_of_nat i"
  by (simp_all add: make_entry_def Let_def)

lemma entry_allows_make:
  "i \<le> 255 \<Longrightarrow> entry_allows (ga_policy g) (ga_args g) (make_entry (ga_policy g) a i) check = index_permits g check i"
  by (auto simp: entry_allows_def index_permits_def make_entry_def Let_def split: gate_check.splits)

lemma check_loop_eq:
  assumes "\<forall>j \<in> set js. j \<le> 255" and "ga_policy g = p" and "ga_args g = args"
  shows "check_loop p args (List.map (\<lambda>j. make_entry p (accounts ! j) j) js) a c first =
    (if list_ex (index_permits g c) (filter (\<lambda>j. accounts ! j = a) js) then Ok ()
     else Err (write_policy_violation (case first of Some i \<Rightarrow> i | None \<Rightarrow>
       (case filter (\<lambda>j. accounts ! j = a) js of [] \<Rightarrow> 255 | i # _ \<Rightarrow> word_of_nat i))))"
  using assms
proof (induction js arbitrary: first)
  case Nil
  then show ?case by (cases first) simp_all
next
  case (Cons j js)
  have "entry_allows p args (make_entry p x j) c = index_permits g c j" for x
    using entry_allows_make [of j g x c] Cons.prems by simp
  then show ?case using Cons by (auto split: option.splits)
qed

lemma slot_check:
  assumes "slot_ok s" and "gs_token s \<noteq> 0"
  shows "\<exists>p. gs_policy s = Some p \<and>
    (if \<not> lamports_declared p \<and> (c = GLamports \<or> c = GDelegation) then Ok ()
     else check_loop p (prefix_or_empty (gs_args_len s) (gs_args s)) (prefix_or_empty (gs_len s) (gs_entries s)) a c None)
    = gate_verdict (slot_gate s) a c"
proof -
  from assms obtain p where p: "gs_policy s = Some p" by (auto simp: slot_ok_def)
  let ?as = "ga_accounts (slot_gate s)"
  have n: "gs_len s \<le> length (gs_entries s)" "gs_len s \<le> 254" "length ?as = gs_len s"
    using assms by (auto simp: slot_ok_def slot_gate_def lamport_gate_capacity_def)
  have "take (gs_len s) (gs_entries s) = List.map (\<lambda>j. make_entry p (?as ! j) j) [0..<gs_len s]"
    using assms n p by (intro nth_equalityI) (auto simp: slot_ok_def slot_gate_def)
  then have "check_loop p (prefix_or_empty (gs_args_len s) (gs_args s)) (prefix_or_empty (gs_len s) (gs_entries s)) a c None =
      check_loop p (ga_args (slot_gate s)) (List.map (\<lambda>j. make_entry p (?as ! j) j) [0..<gs_len s]) a c None"
    using assms n by (simp add: prefix_or_empty_def slot_ok_def slot_gate_def)
  also have "\<dots> = (if list_ex (index_permits (slot_gate s) c) (positions ?as a) then Ok ()
      else Err (write_policy_violation (case positions ?as a of [] \<Rightarrow> 255 | i # _ \<Rightarrow> word_of_nat i)))"
    using n p by (subst check_loop_eq [where g = "slot_gate s"]) (auto simp: slot_gate_def positions_def)
  finally show ?thesis using p by (simp add: gate_verdict_def slot_gate_def)
qed

section \<open>Invariant\<close>

definition occupied :: "gate_slot list \<Rightarrow> gate_slot list" where
  "occupied slots = filter (\<lambda>s. gs_token s \<noteq> 0) slots"

definition live_gates :: "gate_slot list \<Rightarrow> (u64 \<times> gate) list" where
  "live_gates slots = List.map (\<lambda>s. (gs_token s, slot_gate s)) (occupied slots)"

text \<open>The gates in the order in which they were installed.\<close>

definition gate_stack :: "gate_slot list \<Rightarrow> (u64 \<times> gate) list" where
  "gate_stack slots = sort_key fst (live_gates slots)"

definition top_ok :: "gate_slot list \<Rightarrow> u64 \<Rightarrow> u8 \<Rightarrow> bool" where
  "top_ok slots token idx \<longleftrightarrow>
     (if occupied slots = [] then token = 0
      else unat idx < length slots \<and> gs_token (slots ! unat idx) = token \<and> token \<noteq> 0 \<and>
        (\<forall>s \<in> set slots. gs_token s \<le> token))"

definition slots_ok :: "gate_slot list \<Rightarrow> u64 \<Rightarrow> bool" where
  "slots_ok slots issued \<longleftrightarrow> (\<forall>s \<in> set slots. slot_ok s \<and> gs_token s \<le> issued) \<and>
     distinct (List.map fst (live_gates slots)) \<and> length slots \<le> 255"

definition store_ok :: "nat \<Rightarrow> gate_store \<Rightarrow> bool" where
  "store_ok n s \<longleftrightarrow> slots_ok (gt_slots s) (gt_issued s) \<and> unat (gt_installed s) = length (live_gates (gt_slots s)) \<and>
     top_ok (gt_slots s) (gt_top_token s) (gt_top_idx s) \<and> unat (gt_issued s) + n < 2 ^ 64"

lemma live_gates_simps [simp]:
  "live_gates [] = []"
  "live_gates (s # slots) = (if gs_token s = 0 then [] else [(gs_token s, slot_gate s)]) @ live_gates slots"
  "live_gates (xs @ ys) = live_gates xs @ live_gates ys"
  by (simp_all add: live_gates_def occupied_def)

lemma live_gates_empty: "live_gates slots = [] \<longleftrightarrow> occupied slots = []"
  by (simp add: live_gates_def)

lemma slot_with_token_Some:
  "slot_with_token slots k t = Some j \<Longrightarrow>
   \<exists>pre s post. slots = pre @ s # post \<and> j = k + length pre \<and> gs_token s = t \<and> (\<forall>x \<in> set pre. gs_token x \<noteq> t)"
proof (induction slots k t rule: slot_with_token.induct)
  case (1 i t)
  then show ?case by simp
next
  case (2 s slots i t)
  show ?case
  proof (cases "gs_token s = t")
    case True
    then show ?thesis using 2 by (intro exI [of _ "[]"] exI [of _ s] exI [of _ slots]) simp
  next
    case False
    then have "slot_with_token slots (i + 1) t = Some j" using 2 by simp
    from 2(1) [OF False this] obtain pre x post where
      "slots = pre @ x # post" "j = i + 1 + length pre" "gs_token x = t" "\<forall>y \<in> set pre. gs_token y \<noteq> t" by blast
    then show ?thesis using False by (intro exI [of _ "s # pre"] exI [of _ x] exI [of _ post]) simp
  qed
qed

lemma slot_with_token_None: "slot_with_token slots k t = None \<longleftrightarrow> (\<forall>s \<in> set slots. gs_token s \<noteq> t)"
  by (induction slots k t rule: slot_with_token.induct) auto

lemma distinct_sort_fst: "distinct (List.map fst (sort_key fst xs)) \<longleftrightarrow> distinct (List.map fst xs)"
  by (simp only: distinct_map distinct_sort set_sort)

lemma stack_unique:
  assumes "distinct (List.map fst xs)" and "sorted (List.map fst ys)" and "distinct (List.map fst ys)" and "set xs = set ys"
  shows "sort_key fst xs = ys"
proof (rule map_sorted_distinct_set_unique [where f = fst])
  show "inj_on fst (set (sort_key fst xs) \<union> set ys)" using assms by (simp add: distinct_map)
  show "distinct (List.map fst (sort_key fst xs))" using assms(1) by (simp add: distinct_map)
qed (use assms in simp_all)

lemma stack_push:
  assumes "distinct (List.map fst (A @ B))" and "\<forall>x \<in> set (A @ B). fst x < t"
  shows "sort_key fst (A @ (t, g) # B) = sort_key fst (A @ B) @ [(t, g)]"
proof (rule stack_unique)
  show "distinct (List.map fst (A @ (t, g) # B))" using assms by auto
  show "sorted (List.map fst (sort_key fst (A @ B) @ [(t, g)]))" using assms(2) by (auto simp: sorted_append intro: less_imp_le)
  show "distinct (List.map fst (sort_key fst (A @ B) @ [(t, g)]))"
    using assms by (auto simp: distinct_sort_fst)
qed auto

lemma stack_pop:
  assumes "distinct (List.map fst (A @ (t, g) # B))"
  shows "sort_key fst (A @ B) = filter (\<lambda>x. fst x \<noteq> t) (sort_key fst (A @ (t, g) # B))"
proof (rule stack_unique)
  show "distinct (List.map fst (A @ B))" using assms by simp
  show "sorted (List.map fst (filter (\<lambda>x. fst x \<noteq> t) (sort_key fst (A @ (t, g) # B))))"
    by (intro sorted_filter) simp
  show "distinct (List.map fst (filter (\<lambda>x. fst x \<noteq> t) (sort_key fst (A @ (t, g) # B))))"
    using assms by (intro distinct_map_filter) (simp only: distinct_sort_fst)
qed (use assms in auto)

lemma best_loop_max:
  "i + length slots \<le> 256 \<Longrightarrow> (case best_loop slots i bt bi of (t, idx) \<Rightarrow>
     bt \<le> t \<and> (\<forall>s \<in> set slots. gs_token s \<le> t) \<and>
     ((t, idx) = (bt, bi) \<or> (\<exists>j < length slots. gs_token (slots ! j) = t \<and> unat idx = i + j \<and> bt < t)))"
proof (induction slots i bt bi rule: best_loop.induct)
  case (1 i bt bi)
  then show ?case by simp
next
  case (2 s slots i bt bi)
  have i: "unat (word_of_nat i :: u8) = i" using 2(3) by (simp add: unat_of_nat)
  show ?case
  proof (cases "bt < gs_token s")
    case True
    obtain t idx where r: "best_loop slots (i + 1) (gs_token s) (word_of_nat i) = (t, idx)" by fastforce
    note IH = 2(1) [OF True, unfolded r, simplified]
    have "gs_token s \<le> t" "\<forall>x \<in> set slots. gs_token x \<le> t" using IH 2(3) by auto
    moreover have "\<exists>j < length (s # slots). gs_token ((s # slots) ! j) = t \<and> unat idx = i + j \<and> bt < t"
    proof (cases "(t, idx) = (gs_token s, word_of_nat i)")
      case True
      then show ?thesis using i \<open>bt < gs_token s\<close> by (intro exI [of _ 0]) simp
    next
      case False
      then obtain j where "j < length slots" "gs_token (slots ! j) = t" "unat idx = i + 1 + j" "gs_token s < t"
        using IH 2(3) by auto
      then show ?thesis using \<open>bt < gs_token s\<close> by (intro exI [of _ "Suc j"]) auto
    qed
    ultimately show ?thesis using True r by auto
  next
    case False
    obtain t idx where r: "best_loop slots (i + 1) bt bi = (t, idx)" by fastforce
    note IH = 2(2) [OF False, unfolded r, simplified]
    have "bt \<le> t" "\<forall>x \<in> set slots. gs_token x \<le> t" using IH 2(3) by auto
    moreover have "(t, idx) = (bt, bi) \<or> (\<exists>j < length (s # slots). gs_token ((s # slots) ! j) = t \<and> unat idx = i + j \<and> bt < t)"
      using IH 2(3) by (auto intro: exI [of _ "Suc _"])
    ultimately show ?thesis using False r by auto
  qed
qed

section \<open>The three operations\<close>

lemma store_okD:
  assumes "store_ok n s"
  shows "slots_ok (gt_slots s) (gt_issued s)" and "unat (gt_installed s) = length (live_gates (gt_slots s))"
    and "top_ok (gt_slots s) (gt_top_token s) (gt_top_idx s)" and "unat (gt_issued s) + n < 2 ^ 64"
  using assms by (simp_all add: store_ok_def)

lemma stack_empty [simp]: "gate_stack slots = [] \<longleftrightarrow> live_gates slots = []"
  by (simp add: gate_stack_def) (metis length_0_conv length_sort)

lemma live_gates_mem: "(t, g) \<in> set (live_gates slots) \<longleftrightarrow> (\<exists>s \<in> set slots. gs_token s = t \<and> t \<noteq> 0 \<and> slot_gate s = g)"
  by (auto simp: live_gates_def occupied_def)

lemma last_stack:
  assumes "slots_ok slots issued" and "s \<in> set slots" and "gs_token s \<noteq> 0" and "\<forall>x \<in> set slots. gs_token x \<le> gs_token s"
  shows "last (gate_stack slots) = (gs_token s, slot_gate s)"
proof -
  let ?S = "gate_stack slots"
  have mem: "(gs_token s, slot_gate s) \<in> set (live_gates slots)" using assms by (auto simp: live_gates_mem)
  then have ne: "?S \<noteq> []" by auto
  have S: "set ?S = set (live_gates slots)" "sorted (List.map fst ?S)" by (simp_all add: gate_stack_def)
  obtain t g where l: "last ?S = (t, g)" by fastforce
  have t_in: "(t, g) \<in> set (live_gates slots)" using last_in_set [OF ne] l S(1) by simp
  then have "t \<le> gs_token s" using assms(4) by (auto simp: live_gates_mem)
  moreover have "gs_token s \<le> t"
  proof -
    have "?S = butlast ?S @ [(t, g)]" using ne l by (metis append_butlast_last_id)
    then have "sorted (List.map fst (butlast ?S @ [(t, g)]))" and "(gs_token s, slot_gate s) \<in> set (butlast ?S @ [(t, g)])"
      using S mem by metis+
    then show ?thesis by (auto simp: sorted_append)
  qed
  ultimately have "t = gs_token s" by simp
  moreover have "distinct (List.map fst (live_gates slots))" using assms(1) by (simp add: slots_ok_def)
  ultimately have "g = slot_gate s" using t_in mem by (metis eq_key_imp_eq_value)
  with l \<open>t = gs_token s\<close> show ?thesis by simp
qed

lemma check_governs:
  assumes "store_ok n s"
  shows "gate_store_check s a c =
    (if gate_stack (gt_slots s) = [] then Ok () else gate_verdict (snd (last (gate_stack (gt_slots s)))) a c)"
proof (cases "live_gates (gt_slots s) = []")
  case True
  then have "gt_installed s = 0" using store_okD(2) [OF assms] by (simp add: unat_eq_0)
  then show ?thesis using True by (simp add: gate_store_check_def)
next
  case False
  note d = store_okD [OF assms]
  have inst: "gt_installed s \<noteq> 0" using d(2) False by auto
  let ?sl = "gt_slots s ! unat (gt_top_idx s)"
  have top: "unat (gt_top_idx s) < length (gt_slots s)" "gs_token ?sl = gt_top_token s" "gt_top_token s \<noteq> 0"
      "\<forall>x \<in> set (gt_slots s). gs_token x \<le> gs_token ?sl"
    using d(3) False by (auto simp: top_ok_def live_gates_empty)
  then have mem: "?sl \<in> set (gt_slots s)" by simp
  have last: "last (gate_stack (gt_slots s)) = (gs_token ?sl, slot_gate ?sl)"
    using last_stack [OF d(1) mem _ top(4)] top by simp
  have "slot_ok ?sl" using d(1) mem by (simp add: slots_ok_def)
  from slot_check [OF this, of c a] top obtain p where "gs_policy ?sl = Some p"
      "(if \<not> lamports_declared p \<and> (c = GLamports \<or> c = GDelegation) then Ok ()
        else check_loop p (prefix_or_empty (gs_args_len ?sl) (gs_args ?sl)) (prefix_or_empty (gs_len ?sl) (gs_entries ?sl)) a c None)
       = gate_verdict (slot_gate ?sl) a c" by auto
  then show ?thesis
    using inst top False last by (simp add: gate_store_check_def active_slot_def)
qed

lemma no_free_slot: "slot_with_token slots k 0 = None \<longleftrightarrow> length slots \<le> length (live_gates slots)"
proof
  assume "slot_with_token slots k 0 = None"
  then have "filter (\<lambda>s. gs_token s \<noteq> 0) slots = slots" by (simp add: slot_with_token_None)
  then show "length slots \<le> length (live_gates slots)" by (simp add: live_gates_def occupied_def)
next
  assume le: "length slots \<le> length (live_gates slots)"
  have "gs_token s \<noteq> 0" if "s \<in> set slots" for s
    using length_filter_less [OF that, of "\<lambda>s. gs_token s \<noteq> 0"] le by (auto simp: live_gates_def occupied_def)
  then show "slot_with_token slots k 0 = None" by (simp add: slot_with_token_None)
qed

lemma unat_succ:
  assumes "unat (w :: u64) + 1 < 2 ^ 64"
  shows "unat (w + 1) = unat w + 1" and "w + 1 \<noteq> 0" and "w < w + 1"
proof -
  show u: "unat (w + 1) = unat w + 1" using assms unat_add_exact [of w 1] by simp
  show "w + 1 \<noteq> 0" using u by (metis add_is_0 unat_0 one_neq_zero)
  show "w < w + 1" by (simp add: word_less_nat_alt u)
qed

lemma install_step:
  assumes "store_ok (Suc n) s"
  shows "(case gate_install s accounts p args of (s', r) \<Rightarrow>
     if length accounts > 254 then s' = s \<and> r = Inl TooManyAccounts
     else if length args > 8 then s' = s \<and> r = Inl TooManyArguments
     else if length (gt_slots s) \<le> length (gate_stack (gt_slots s)) then s' = s \<and> r = Inl NoFreeSlot
     else r = Inr (gt_issued s + 1) \<and> store_ok n s' \<and> length (gt_slots s') = length (gt_slots s) \<and> gt_issued s' = gt_issued s + 1 \<and>
       gate_stack (gt_slots s') = gate_stack (gt_slots s) @
         [(gt_issued s + 1, \<lparr>ga_accounts = accounts, ga_policy = p, ga_args = args\<rparr>)])"
proof -
  note d = store_okD [OF assms] and caps = lamport_gate_capacity_def ambient_gate_arg_capacity_def
  let ?slots = "gt_slots s" and ?t = "gt_issued s + 1" and ?g = "\<lparr>ga_accounts = accounts, ga_policy = p, ga_args = args\<rparr>"
  have stack_len: "length (gate_stack ?slots) = length (live_gates ?slots)" by (simp add: gate_stack_def)
  have full: "length ?slots \<le> length (gate_stack ?slots) \<longleftrightarrow> slot_with_token ?slots 0 0 = None"
    by (simp add: no_free_slot stack_len)
  show ?thesis
  proof (cases "length accounts > 254 \<or> length args > 8 \<or> slot_with_token ?slots 0 0 = None")
    case True
    then show ?thesis unfolding full by (auto simp: gate_install_def caps)
  next
    case False
    then obtain j where j: "slot_with_token ?slots 0 0 = Some j" by auto
    from slot_with_token_Some [OF this] obtain pre sl post where
      sp: "?slots = pre @ sl # post" "j = length pre" "gs_token sl = 0" by auto
    note su = unat_succ [of "gt_issued s"]
    have t: "?t \<noteq> 0" "gt_issued s < ?t" "unat ?t = unat (gt_issued s) + 1" using su d(4) by simp_all
    have room: "\<not> length ?slots \<le> length (live_gates ?slots)" using j no_free_slot [of ?slots 0] by simp
    have ok: "slot_ok sl" using d(1) sp(1) by (simp add: slots_ok_def)
    let ?es = "List.map (\<lambda>k. make_entry p (accounts ! k) k) [0..<length accounts] @ drop (length accounts) (gs_entries sl)"
    let ?new = "sl\<lparr>gs_entries := ?es, gs_len := length accounts, gs_policy := Some p, gs_args_len := length args,
        gs_args := args @ drop (length args) (gs_args sl), gs_token := ?t\<rparr>"
    have loop: "install_loop p accounts 0 0 (gs_entries sl) = (?es, Some (length accounts))"
      using install_loop_eq [of 0 accounts "gs_entries sl" p 0] ok False by (simp add: slot_ok_def caps)
    have "min (length (gs_args sl)) (length args) = length args" using ok False by (simp add: slot_ok_def caps)
    then have inst: "gate_install s accounts p args =
        (s\<lparr>gt_slots := pre @ ?new # post, gt_issued := ?t, gt_top_token := ?t,
           gt_top_idx := word_of_nat (length pre), gt_installed := gt_installed s + 1\<rparr>, Inr ?t)"
      using False j t(1) loop by (simp add: gate_install_def caps sp(1,2) Let_def)
    have gate: "slot_gate ?new = ?g"
      by (auto simp: slot_gate_def intro!: nth_equalityI)
    have live: "live_gates ?slots = live_gates pre @ live_gates post" using sp by simp
    have older: "\<forall>x \<in> set ?slots. gs_token x < ?t"
    proof
      fix x assume "x \<in> set ?slots"
      then have "gs_token x \<le> gt_issued s" using d(1) by (simp add: slots_ok_def)
      then show "gs_token x < ?t" using t(2) by (rule le_less_trans)
    qed
    then have below: "\<forall>x \<in> set (live_gates pre @ live_gates post). fst x < ?t"
      using sp(1) by (auto simp: live_gates_mem)
    have fresh: "?t \<notin> fst ` set (live_gates pre @ live_gates post)"
    proof
      assume "?t \<in> fst ` set (live_gates pre @ live_gates post)"
      then obtain x where x: "x \<in> set (live_gates pre @ live_gates post)" "?t = fst x" by (rule imageE)
      with below have "fst x < ?t" by blast
      with x(2) show False by simp
    qed
    have dist: "distinct (List.map fst (live_gates pre @ live_gates post))" using d(1) live by (simp add: slots_ok_def)
    have stack: "gate_stack (pre @ ?new # post) = gate_stack ?slots @ [(?t, ?g)]"
      using stack_push [OF dist below, of ?g] gate t(1) by (simp add: gate_stack_def live)
    have "slot_ok ?new"
      using ok False by (auto simp: slot_ok_def caps nth_append)
    moreover have "distinct (List.map fst (live_gates (pre @ ?new # post)))" using dist fresh t(1) by auto
    ultimately have "slots_ok (pre @ ?new # post) ?t"
      using d(1) sp(1) older by (auto simp: slots_ok_def less_imp_le)
    moreover have "top_ok (pre @ ?new # post) ?t (word_of_nat (length pre))"
    proof -
      have "length pre < 256" using d(1) sp(1) by (simp add: slots_ok_def)
      then show ?thesis
        using older t sp(1) by (auto simp: top_ok_def occupied_def unat_of_nat less_imp_le)
    qed
    moreover have "unat (gt_installed s + 1) = length (live_gates (pre @ ?new # post))"
    proof -
      have "length (live_gates ?slots) < length ?slots" using room by simp
      then have "unat (gt_installed s) + 1 < 2 ^ 64" using d(1,2) by (simp add: slots_ok_def)
      then show ?thesis using unat_succ(1) d(2) live t(1) by simp
    qed
    ultimately show ?thesis
      using False room inst stack stack_len d(4) t(3) sp(1) by (simp add: store_ok_def)
  qed
qed

lemma remove_step:
  assumes "store_ok (Suc n) s" and "t \<noteq> 0"
  shows "store_ok n (fst (gate_remove s t)) \<and> length (gt_slots (fst (gate_remove s t))) = length (gt_slots s) \<and>
    gt_issued (fst (gate_remove s t)) = gt_issued s \<and>
    gate_stack (gt_slots (fst (gate_remove s t))) = filter (\<lambda>x. fst x \<noteq> t) (gate_stack (gt_slots s))"
proof (cases "slot_with_token (gt_slots s) 0 t")
  case None
  then have "filter (\<lambda>x. fst x \<noteq> t) (gate_stack (gt_slots s)) = gate_stack (gt_slots s)"
    by (auto simp: filter_id_conv gate_stack_def live_gates_mem slot_with_token_None)
  then show ?thesis using None assms by (simp add: gate_remove_def store_ok_def)
next
  case (Some j)
  note d = store_okD [OF assms(1)]
  from slot_with_token_Some [OF Some] obtain pre sl post where
    sp: "gt_slots s = pre @ sl # post" "j = length pre" "gs_token sl = t" by auto
  let ?new = "sl\<lparr>gs_token := 0, gs_len := 0, gs_policy := None, gs_args_len := 0\<rparr>"
  let ?slots = "pre @ ?new # post"
  have live: "live_gates (gt_slots s) = live_gates pre @ (t, slot_gate sl) # live_gates post" using sp assms(2) by simp
  have dist: "distinct (List.map fst (live_gates pre @ (t, slot_gate sl) # live_gates post))"
    using d(1) by (simp only: slots_ok_def live)
  have stack: "gate_stack ?slots = filter (\<lambda>x. fst x \<noteq> t) (gate_stack (gt_slots s))"
    using stack_pop [OF dist] by (simp add: gate_stack_def live)
  have "slot_ok ?new" using d(1) sp(1) by (auto simp: slots_ok_def slot_ok_def)
  then have ok: "slots_ok ?slots (gt_issued s)" using d(1) sp(1) dist by (auto simp: slots_ok_def)
  have inst: "unat (word_saturating_sub (gt_installed s) 1) = length (live_gates ?slots)"
  proof -
    have u: "unat (gt_installed s) = Suc (length (live_gates ?slots))" using d(2) live by simp
    then have "1 \<le> gt_installed s" by (simp add: word_le_nat_alt)
    then show ?thesis using u by (simp add: word_saturating_sub_def unat_sub_exact)
  qed
  have len: "length ?slots \<le> 255" using d(1) sp(1) by (simp add: slots_ok_def)
  have top: "top_ok ?slots
      (if t = gt_top_token s then fst (best_loop ?slots 0 0 0) else gt_top_token s)
      (if t = gt_top_token s then snd (best_loop ?slots 0 0 0) else gt_top_idx s)"
  proof (cases "t = gt_top_token s")
    case True
    obtain b idx where r: "best_loop ?slots 0 0 0 = (b, idx)" by fastforce
    from best_loop_max [of 0 ?slots 0 0] len r have best: "\<forall>x \<in> set ?slots. gs_token x \<le> b"
      "(b, idx) = (0, 0) \<or> (\<exists>j < length ?slots. gs_token (?slots ! j) = b \<and> unat idx = j \<and> 0 < b)" by auto
    show ?thesis
    proof (cases "occupied ?slots = []")
      case True
      then have "\<forall>x \<in> set ?slots. gs_token x = 0" by (auto simp: occupied_def filter_empty_conv)
      then have "b = 0" using best(2) nth_mem [of _ ?slots] by fastforce
      then show ?thesis using True \<open>t = gt_top_token s\<close> r by (simp add: top_ok_def)
    next
      case False
      then obtain x where "x \<in> set ?slots" "gs_token x \<noteq> 0" by (auto simp: occupied_def filter_empty_conv)
      then have "b \<noteq> 0" using best(1) by (metis word_le_0_iff)
      then show ?thesis using False best r \<open>t = gt_top_token s\<close> by (auto simp: top_ok_def)
    qed
  next
    case False
    have "occupied (gt_slots s) \<noteq> []" using sp assms(2) by (simp add: occupied_def)
    then have o: "unat (gt_top_idx s) < length (gt_slots s)" "gs_token (gt_slots s ! unat (gt_top_idx s)) = gt_top_token s"
      "gt_top_token s \<noteq> 0" "\<forall>x \<in> set (gt_slots s). gs_token x \<le> gt_top_token s"
      using d(3) by (auto simp: top_ok_def)
    then have ne: "unat (gt_top_idx s) \<noteq> length pre" using False sp by (auto simp: nth_append)
    then have same: "?slots ! unat (gt_top_idx s) = gt_slots s ! unat (gt_top_idx s)"
      using sp(1) by (simp add: nth_append nth_Cons split: nat.splits)
    moreover have "unat (gt_top_idx s) < length ?slots" using o(1) sp(1) by simp
    ultimately have "?slots ! unat (gt_top_idx s) \<in> set ?slots" "gs_token (?slots ! unat (gt_top_idx s)) = gt_top_token s"
      using o(2) nth_mem by (blast, simp)
    then have "occupied ?slots \<noteq> []" using o(3) by (fastforce simp: occupied_def filter_empty_conv)
    then show ?thesis using False o same sp(1) by (auto simp: top_ok_def)
  qed
  have run: "fst (gate_remove s t) =
     s\<lparr>gt_slots := ?slots, gt_installed := word_saturating_sub (gt_installed s) 1,
       gt_top_token := (if t = gt_top_token s then fst (best_loop ?slots 0 0 0) else gt_top_token s),
       gt_top_idx := (if t = gt_top_token s then snd (best_loop ?slots 0 0 0) else gt_top_idx s)\<rparr>"
    using Some sp by (simp add: gate_remove_def Let_def split_beta)
  show ?thesis unfolding run using ok inst top stack d(4) sp(1) by (simp add: store_ok_def)
qed

section \<open>Refinement\<close>

text \<open>What a program does to the gates: bind, drop a guard, and mutate behind a check.\<close>

datatype gate_call = GInstall "bytes list" write_policy "u32 list" | GDropGuard u64 | GMutate gate_check bytes

definition gate_exec :: "bool \<Rightarrow> sbf_gate_state \<Rightarrow> gate_call \<Rightarrow> (sbf_gate_state \<times> answer) outcome" where
  "gate_exec unguarded st c =
     (case c of
        GInstall accounts p args \<Rightarrow>
          (case try_install_ambient_gate_with_args unguarded st accounts p args of
             (st', r) \<Rightarrow> obind r (\<lambda>token. Ok (st', RNum (unat token))))
      | GDropGuard token \<Rightarrow> Ok (guard_gate_drop st token, RUnit)
      | GMutate check a \<Rightarrow>
          read_call st (case check of
              GLamports \<Rightarrow> check_lamport_mutation st a
            | GData off sz \<Rightarrow> check_data_mutation unguarded st a off sz
            | GTransition \<Rightarrow> check_account_transition unguarded st a
            | GDelegation \<Rightarrow> check_lamport_delegation st a) (\<lambda>_. RUnit))"

text \<open>The specification: at most \<open>depth\<close> gates, newest last, each known by its token.\<close>

record gate_stack_state =
  st_depth :: nat
  st_issued :: u64
  st_gates :: "(u64 \<times> gate) list"

definition stack_exec :: "bool \<Rightarrow> gate_stack_state \<Rightarrow> gate_call \<Rightarrow> (gate_stack_state \<times> answer) outcome" where
  "stack_exec unguarded k c =
     (case c of
        GInstall accounts p args \<Rightarrow>
          if unguarded \<and> (wp_allows p \<noteq> [] \<or> wp_parametric p \<noteq> []) then Err ambient_gate_unguarded_build
          else if length accounts > 254 then Err lamport_gate_too_many_accounts
          else if length args > 8 then Err ambient_gate_too_many_arguments
          else if st_depth k \<le> length (st_gates k) then Err lamport_gate_depth_exceeded
          else
            let token = st_issued k + 1; g = \<lparr>ga_accounts = accounts, ga_policy = p, ga_args = args\<rparr> in
            Ok (k\<lparr>st_issued := token, st_gates := st_gates k @ [(token, g)]\<rparr>, RNum (unat token))
      | GDropGuard token \<Rightarrow>
          Ok (k\<lparr>st_gates := (if token = 0 then st_gates k else filter (\<lambda>x. fst x \<noteq> token) (st_gates k))\<rparr>, RUnit)
      | GMutate check a \<Rightarrow>
          if st_gates k = [] then Ok (k, RUnit)
          else if unguarded \<and> (check = GTransition \<or> (\<exists>off sz. check = GData off sz)) then Ok (k, RUnit)
          else read_call k (gate_verdict (snd (last (st_gates k))) a check) (\<lambda>_. RUnit))"

definition stack_of :: "sbf_gate_state \<Rightarrow> gate_stack_state" where
  "stack_of st = \<lparr>st_depth = length (gt_slots (sb_store st)), st_issued = gt_issued (sb_store st),
     st_gates = gate_stack (gt_slots (sb_store st))\<rparr>"

definition gates_ok :: "nat \<Rightarrow> sbf_gate_state \<Rightarrow> bool" where
  "gates_ok n st \<longleftrightarrow> store_ok n (sb_store st) \<and>
     sb_checker st = (if gate_any_active (sb_store st) then Some gate_store_check else None)"

lemma any_active_iff: "store_ok n s \<Longrightarrow> gate_any_active s \<longleftrightarrow> gate_stack (gt_slots s) \<noteq> []"
  using store_okD(2) [of n s] by (auto simp: gate_any_active_def unat_eq_0)

lemma store_ok_mono: "store_ok (Suc n) s \<Longrightarrow> store_ok n s"
  by (simp add: store_ok_def)

lemma sbf_check_eq:
  assumes "gates_ok n st"
  shows "sbf_check st a c = (if st_gates (stack_of st) = [] then Ok () else gate_verdict (snd (last (st_gates (stack_of st)))) a c)"
    and "sbf_any_active st \<longleftrightarrow> st_gates (stack_of st) \<noteq> []"
proof -
  have ok: "store_ok n (sb_store st)" and chk: "sb_checker st = (if gate_any_active (sb_store st) then Some gate_store_check else None)"
    using assms by (simp_all add: gates_ok_def)
  show "sbf_check st a c = (if st_gates (stack_of st) = [] then Ok () else gate_verdict (snd (last (st_gates (stack_of st)))) a c)"
    using any_active_iff [OF ok] check_governs [OF ok, of a c] chk by (simp add: sbf_check_def stack_of_def)
  show "sbf_any_active st \<longleftrightarrow> st_gates (stack_of st) \<noteq> []"
    using any_active_iff [OF ok] chk by (simp add: sbf_any_active_def stack_of_def)
qed

lemma gate_verdict_no_trap [simp]: "gate_verdict g a c \<noteq> Trap"
  by (simp add: gate_verdict_def)

lemma sbf_install_step:
  assumes "gates_ok (Suc n) st"
  shows "(case sbf_install st accounts p args of (st', r) \<Rightarrow>
     if length accounts > 254 then st' = st \<and> r = Inl TooManyAccounts
     else if length args > 8 then st' = st \<and> r = Inl TooManyArguments
     else if st_depth (stack_of st) \<le> length (st_gates (stack_of st)) then st' = st \<and> r = Inl NoFreeSlot
     else r = Inr (st_issued (stack_of st) + 1) \<and> gates_ok n st' \<and>
       stack_of st' = stack_of st\<lparr>st_issued := st_issued (stack_of st) + 1, st_gates := st_gates (stack_of st) @
         [(st_issued (stack_of st) + 1, \<lparr>ga_accounts = accounts, ga_policy = p, ga_args = args\<rparr>)]\<rparr>)"
proof -
  have ok: "store_ok (Suc n) (sb_store st)" using assms by (simp add: gates_ok_def)
  obtain s' r where i: "gate_install (sb_store st) accounts p args = (s', r)" by fastforce
  note step = install_step [OF ok, where accounts = accounts and p = p and args = args, unfolded i, simplified]
  show ?thesis
  proof (cases r)
    case (Inl e)
    then show ?thesis using step i by (auto simp: sbf_install_def stack_of_def split: if_splits)
  next
    case (Inr t)
    then have s: "\<not> length accounts > 254" "\<not> length args > 8"
        "\<not> length (gt_slots (sb_store st)) \<le> length (gate_stack (gt_slots (sb_store st)))"
      and s': "store_ok n s'" "t = gt_issued (sb_store st) + 1" "length (gt_slots s') = length (gt_slots (sb_store st))"
        "gt_issued s' = gt_issued (sb_store st) + 1" "gate_stack (gt_slots s') = gate_stack (gt_slots (sb_store st)) @
         [(gt_issued (sb_store st) + 1, \<lparr>ga_accounts = accounts, ga_policy = p, ga_args = args\<rparr>)]"
      using step by (auto split: if_splits)
    have "gate_any_active s'" using any_active_iff [OF s'(1)] s'(5) by simp
    then show ?thesis using Inr i s s' by (simp add: sbf_install_def stack_of_def gates_ok_def)
  qed
qed

lemma sbf_drop_step:
  assumes "gates_ok (Suc n) st"
  shows "gates_ok n (guard_gate_drop st t) \<and> stack_of (guard_gate_drop st t) =
    stack_of st\<lparr>st_gates := (if t = 0 then st_gates (stack_of st) else filter (\<lambda>x. fst x \<noteq> t) (st_gates (stack_of st)))\<rparr>"
proof (cases "t = 0")
  case True
  then show ?thesis using assms by (auto simp: guard_gate_drop_def gates_ok_def store_ok_mono stack_of_def)
next
  case False
  have ok: "store_ok (Suc n) (sb_store st)" using assms by (simp add: gates_ok_def)
  note step = remove_step [OF ok False]
  have "sb_checker st = Some gate_store_check \<or> \<not> gate_any_active (fst (gate_remove (sb_store st) t))"
  proof (cases "gate_any_active (sb_store st)")
    case True
    then show ?thesis using assms by (simp add: gates_ok_def)
  next
    case False
    then have "gate_stack (gt_slots (fst (gate_remove (sb_store st) t))) = []"
      using step any_active_iff [OF ok] by (metis filter.simps(1))
    then show ?thesis using step any_active_iff by blast
  qed
  then show ?thesis using step False
    by (auto simp: guard_gate_drop_def sbf_remove_def gates_ok_def stack_of_def Let_def)
qed

lemma gate_step:
  assumes "gates_ok (Suc n) st"
  shows "map_state stack_of (gate_exec unguarded st c) = stack_exec unguarded (stack_of st) c \<and>
    gates_ok n (after_call st (gate_exec unguarded st c))"
proof (cases c)
  case (GInstall accounts p args)
  obtain st' r where i: "sbf_install st accounts p args = (st', r)" by fastforce
  have keep: "gates_ok n st" using assms by (auto simp: gates_ok_def store_ok_mono)
  show ?thesis
    using sbf_install_step [OF assms, where accounts = accounts and p = p and args = args] i GInstall keep
    by (auto simp: gate_exec_def stack_exec_def try_install_ambient_gate_with_args_def Let_def split: if_splits)
next
  case (GDropGuard t)
  then show ?thesis using sbf_drop_step [OF assms, of t] by (auto simp: gate_exec_def stack_exec_def)
next
  case (GMutate check a)
  have keep: "gates_ok n st" using assms by (auto simp: gates_ok_def store_ok_mono)
  note e = sbf_check_eq [OF assms]
  have r: "gate_verdict g a c = Ok () \<or> (\<exists>e. gate_verdict g a c = Err e)" for g a c by (simp add: gate_verdict_def)
  show ?thesis
    using GMutate keep r [of "snd (last (st_gates (stack_of st)))" a check]
    by (cases check) (auto simp: gate_exec_def stack_exec_def call_defs e check_lamport_mutation_def
        check_data_mutation_def check_account_transition_def check_lamport_delegation_def)
qed

interpretation gate_sim: bounded_simulation "gate_exec unguarded" "stack_exec unguarded" stack_of gates_ok "\<lambda>_. True" for unguarded
proof
  fix n st and c :: gate_call
  assume "gates_ok (Suc n) st"
  from gate_step [OF this, of unguarded c] show "map_state stack_of (gate_exec unguarded st c) = stack_exec unguarded (stack_of st) c"
    and "gates_ok n (after_call st (gate_exec unguarded st c))" by simp_all
next
  fix k and c :: gate_call
  show "stack_exec unguarded k c \<noteq> Trap"
    by (cases c) (auto simp: stack_exec_def call_defs Let_def gate_verdict_def)
qed

section \<open>Properties\<close>

text \<open>The heap the virtual machine zeroes before every instruction.\<close>

definition zeroed_gates :: "nat \<Rightarrow> sbf_gate_state" where
  "zeroed_gates depth = \<lparr>sb_checker = None, sb_store = gate_store_new depth\<rparr>"

lemma zeroed_gates_ok:
  assumes "depth \<le> 255" and "n < 2 ^ 64"
  shows "gates_ok n (zeroed_gates depth)" and "stack_of (zeroed_gates depth) = \<lparr>st_depth = depth, st_issued = 0, st_gates = []\<rparr>"
proof -
  have tok: "gs_token free_slot = 0" by (simp add: free_slot_def)
  then have live: "live_gates (replicate depth free_slot) = []" "occupied (replicate depth free_slot) = []"
    by (simp_all add: live_gates_def occupied_def)
  have "slot_ok free_slot" by (simp add: slot_ok_def free_slot_def)
  then show "gates_ok n (zeroed_gates depth)"
    using assms live tok by (simp add: gates_ok_def zeroed_gates_def store_ok_def gate_store_new_def slots_ok_def top_ok_def
        gate_any_active_def)
  show "stack_of (zeroed_gates depth) = \<lparr>st_depth = depth, st_issued = 0, st_gates = []\<rparr>"
    using live by (simp add: stack_of_def zeroed_gates_def gate_store_new_def)
qed

text \<open>
  The ambient gate store is a stack. From the zeroed heap, every sequence of binds, guard
  drops in any order and mutation checks gives the answers of a list of gates of which the
  newest governs; dropping a guard removes its own gate and no other, and an install refused
  in the end state leaves that state as it was.
\<close>

theorem gate_store_is_a_stack:
  assumes "depth \<le> 255" and "length cs + 1 < 2 ^ 64" and "st = fst (run_calls (gate_exec unguarded) (zeroed_gates depth) cs)"
    and "k = \<lparr>st_depth = depth, st_issued = 0, st_gates = []\<rparr>"
  shows "stack_of st = fst (run_calls (stack_exec unguarded) k cs) \<and>
    snd (run_calls (gate_exec unguarded) (zeroed_gates depth) cs) = snd (run_calls (stack_exec unguarded) k cs) \<and>
    Trap \<notin> set (snd (run_calls (gate_exec unguarded) (zeroed_gates depth) cs)) \<and>
    (\<forall>accounts p args e. snd (try_install_ambient_gate_with_args unguarded st accounts p args) = Err e \<longrightarrow>
       fst (try_install_ambient_gate_with_args unguarded st accounts p args) = st)"
proof -
  let ?run = "run_calls (gate_exec unguarded) (zeroed_gates depth)"
  note z = zeroed_gates_ok [OF assms(1)]
  have "gates_ok (length cs + 1) (zeroed_gates depth)" using z(1) assms(2) .
  from gate_sim.run_refines [OF this, where unguarded = unguarded]
  have run: "gates_ok 1 st" "stack_of st = fst (run_calls (stack_exec unguarded) k cs)"
      "snd (?run cs) = snd (run_calls (stack_exec unguarded) k cs)" "Trap \<notin> set (snd (?run cs))"
    using z(2) [of 0] assms by (auto simp: list_all_iff)
  have refused: "fst (try_install_ambient_gate_with_args unguarded st accounts p args) = st"
    if "snd (try_install_ambient_gate_with_args unguarded st accounts p args) = Err e" for accounts p args e
    using that run(1) sbf_install_step [where n = 0 and st = st and accounts = accounts and p = p and args = args]
    by (auto simp: try_install_ambient_gate_with_args_def split: if_splits prod.splits sum.splits gate_install_error.splits)
  then show ?thesis using run by blast
qed

theorem gate_store_is_a_stack_witness:
  "Trap \<notin> set (snd (run_calls (gate_exec False) (zeroed_gates sbf_gate_depth)
     [GInstall [[1], [2]] (with_lamports [range_new 0 8 4] [1]) [], GMutate GLamports [2], GMutate (GData 8 4) [1], GDropGuard 1]))"
proof -
  let ?cs = "[GInstall [[1], [2]] (with_lamports [range_new 0 8 4] [1]) [], GMutate GLamports [2], GMutate (GData 8 4) [1], GDropGuard 1]"
  have "sbf_gate_depth \<le> 255" "length ?cs + 1 < 2 ^ 64" by (simp_all add: sbf_gate_depth_def)
  from gate_store_is_a_stack [OF this refl refl] show ?thesis by blast
qed

text \<open>The calls under which the gate of a guard stays the newest one.\<close>

definition keeps_governing :: "u64 \<Rightarrow> gate_call \<Rightarrow> bool" where
  "keeps_governing token c \<longleftrightarrow> (case c of GInstall _ _ _ \<Rightarrow> False | GDropGuard t \<Rightarrow> t \<noteq> token | GMutate _ _ \<Rightarrow> True)"

lemma newest_gate_stays:
  assumes "list_all (keeps_governing t) cs" and "st_gates k = gates @ [(t, g)]"
  shows "\<exists>below. st_gates (fst (run_calls (stack_exec unguarded) k cs)) = below @ [(t, g)]"
  using assms
proof (induction cs arbitrary: k gates)
  case Nil
  then show ?case by simp
next
  case (Cons c cs)
  have "\<exists>below. st_gates (after_call k (stack_exec unguarded k c)) = below @ [(t, g)]"
    using Cons.prems by (cases c) (auto simp: keeps_governing_def stack_exec_def call_defs gate_verdict_def)
  then obtain below where "st_gates (after_call k (stack_exec unguarded k c)) = below @ [(t, g)]" by blast
  from Cons.IH [OF _ this] show ?case using Cons.prems by (simp add: Let_def split_beta)
qed

text \<open>
  C29: a bound instruction is confined to its declaration, in the guarded build, from its binding until
  the next binding or the drop of its own guard (other guards may be dropped, and any number of
  mutations checked, in between). An address outside the instruction's accounts is refused every
  write and every transition; an account's bytes can be written exactly where the policy grants
  them to one of its positions. For a policy that declares its lamport dimension a balance moves
  exactly at a position with the lamport permission, and a writable hand-off needs a whole-account
  grant besides; a policy that declares bytes only leaves both open, by design.
\<close>

theorem bound_instruction_is_confined:
  assumes "depth \<le> 255" and "length before + length cs + 1 < 2 ^ 64"
    and "st = fst (run_calls (gate_exec False) (zeroed_gates depth) before)"
    and "try_install_ambient_gate_with_args False st accounts p args = (bound, Ok token)"
    and "list_all (keeps_governing token) cs" and "st' = fst (run_calls (gate_exec False) bound cs)"
  shows "(check_lamport_mutation st' a = Ok () \<longleftrightarrow>
      \<not> lamports_declared p \<or> (\<exists>i < length accounts. accounts ! i = a \<and> allows_lamport_mutation p (word_of_nat i))) \<and>
    (check_data_mutation False st' a off sz = Ok () \<longleftrightarrow>
      (\<exists>i < length accounts. accounts ! i = a \<and> check_write_with_args p (word_of_nat i) off sz args = Ok ())) \<and>
    (check_account_transition False st' a = Ok () \<longleftrightarrow>
      (\<exists>i < length accounts. accounts ! i = a \<and> allows_any_account_write p (word_of_nat i))) \<and>
    (check_lamport_delegation st' a = Ok () \<longleftrightarrow>
      \<not> lamports_declared p \<or> (\<exists>i < length accounts. accounts ! i = a \<and> allows_lamport_mutation p (word_of_nat i) \<and>
         allows_whole_account_write p (word_of_nat i)))"
proof -
  have "gates_ok (length before + Suc (length cs)) (zeroed_gates depth)" using zeroed_gates_ok(1) assms(1,2) by simp
  from gate_sim.run_refines [OF this, where unguarded = False] have ok: "gates_ok (Suc (length cs)) st"
    using assms(3) by (simp add: list_all_iff)
  let ?g = "\<lparr>ga_accounts = accounts, ga_policy = p, ga_args = args\<rparr>"
  have b: "gates_ok (length cs + 0) bound" and "\<exists>k. st_gates (stack_of bound) = k @ [(token, ?g)]"
    using sbf_install_step [OF ok, where accounts = accounts and p = p and args = args] assms(4)
    by (auto simp: try_install_ambient_gate_with_args_def split: if_splits prod.splits sum.splits gate_install_error.splits)
  then have stack: "\<exists>k. st_gates (stack_of st') = k @ [(token, ?g)]" and "gates_ok 0 st'"
    using gate_sim.run_refines [OF b, where unguarded = False] newest_gate_stays [OF assms(5)] assms(6)
    by (auto simp: list_all_iff)
  note e = sbf_check_eq [OF this(2)]
  have verdict: "gate_verdict ?g a c = Ok () \<longleftrightarrow> \<not> lamports_declared p \<and> (c = GLamports \<or> c = GDelegation) \<or>
      (\<exists>i < length accounts. accounts ! i = a \<and> index_permits ?g c i)" for c
    by (auto simp: gate_verdict_def positions_def list_ex_iff)
  have check: "sbf_check st' a c = gate_verdict ?g a c" and active: "sbf_any_active st'" for c
    using stack e by auto
  show ?thesis
    by (auto simp: check_lamport_mutation_def check_data_mutation_def check_account_transition_def
        check_lamport_delegation_def active check verdict index_permits_def Let_def)
qed

theorem bound_instruction_is_confined_witness:
  "\<exists>st token. try_install_ambient_gate_with_args False (zeroed_gates 2) [[1], [2]] (with_lamports [range_new 0 8 4] [1]) [] = (st, Ok token) \<and>
     (let st' = fst (run_calls (gate_exec False) st [GMutate GTransition [2], GDropGuard (token + 1)]) in
      check_data_mutation False st' [1] 8 4 = Ok () \<and> check_lamport_mutation st' [1] \<noteq> Ok ())"
proof -
  let ?p = "with_lamports [range_new 0 8 4] [1]" and ?as = "[[1], [2]] :: bytes list"
  have "gates_ok 1 (zeroed_gates 2)" and s: "stack_of (zeroed_gates 2) = \<lparr>st_depth = 2, st_issued = 0, st_gates = []\<rparr>"
    using zeroed_gates_ok [of 2 1] by simp_all
  then obtain st token where t: "try_install_ambient_gate_with_args False (zeroed_gates 2) ?as ?p [] = (st, Ok token)"
    using sbf_install_step [of 0 "zeroed_gates 2", where accounts = ?as and p = ?p and args = "[]"]
    by (auto simp: try_install_ambient_gate_with_args_def split: prod.splits)
  let ?cs = "[GMutate GTransition [2], GDropGuard (token + 1)]"
  have keeps: "list_all (keeps_governing token) ?cs" by (simp add: keeps_governing_def)
  let ?st = "fst (run_calls (gate_exec False) st ?cs)"
  have declared: "lamports_declared ?p" by (simp add: lamports_declared_def with_lamports_def)
  note c = bound_instruction_is_confined [where depth = 2 and before = "[]", OF _ _ _ t keeps refl]
  have data: "check_write_with_args ?p (word_of_nat 0) 8 4 [] = Ok ()" and lamports: "\<not> allows_lamport_mutation ?p (word_of_nat 0)"
    by (simp_all add: check_write_with_args_def check_write_def with_lamports_def range_new_def range_contains_exact
        allows_lamport_mutation_def)
  have "check_data_mutation False ?st [1] 8 4 = Ok () \<longleftrightarrow>
      (\<exists>i < length ?as. ?as ! i = [1] \<and> check_write_with_args ?p (word_of_nat i) 8 4 [] = Ok ())"
    and "check_lamport_mutation ?st [1] = Ok () \<longleftrightarrow>
      (\<exists>i < length ?as. ?as ! i = [1] \<and> allows_lamport_mutation ?p (word_of_nat i))"
    using c [of "[1]" 8 4] declared by simp_all
  moreover have "?as ! i = [1] \<Longrightarrow> i < length ?as \<Longrightarrow> i = 0" for i :: nat by (cases i) auto
  ultimately have "check_data_mutation False ?st [1] 8 4 = Ok ()" "check_lamport_mutation ?st [1] \<noteq> Ok ()"
    using data lamports by (metis length_greater_0_conv list.distinct(1) nth_Cons_0, metis)
  then show ?thesis using t by (simp only: Let_def) blast
qed

end
