(* ===== verification/Fallible.thy ===== *)
theory Fallible imports Prelude begin

text \<open>
  Functions whose error is not a \<open>program_error\<close>: \<open>'e + 'a\<close> is \<^verbatim>\<open>Result\<close> with the error on the left, with
  the combinators the parsers and resolvers share, and the checked arithmetic and slicing that
  feed them.
\<close>

fun sbind :: "'e + 'a \<Rightarrow> ('a \<Rightarrow> 'e + 'b) \<Rightarrow> 'e + 'b" where
  "sbind (Inl e) f = Inl e"
| "sbind (Inr x) f = f x"

definition map_err :: "'e \<Rightarrow> 'e + 'a \<Rightarrow> 'e + 'a" where
  "map_err e r = (case r of Inl _ \<Rightarrow> Inl e | Inr x \<Rightarrow> Inr x)"

definition sok_or :: "'a option \<Rightarrow> 'e \<Rightarrow> 'e + 'a" where
  "sok_or x e = (case x of Some y \<Rightarrow> Inr y | None \<Rightarrow> Inl e)"

definition usize_add :: "nat \<Rightarrow> nat \<Rightarrow> nat option" where
  "usize_add a b = (if a + b < 2 ^ 64 then Some (a + b) else None)"

text \<open>\<^verbatim>\<open>buf.get(from..until)\<close>.\<close>

definition get_range :: "bytes \<Rightarrow> nat \<Rightarrow> nat \<Rightarrow> bytes option" where
  "get_range buf from until = (if from \<le> until \<and> until \<le> length buf then Some (bslice from (until - from) buf) else None)"

text \<open>A loop that returns on the first error.\<close>

fun each_ok :: "('a \<Rightarrow> 'e + unit) \<Rightarrow> 'a list \<Rightarrow> 'e + unit" where
  "each_ok check [] = Inr ()"
| "each_ok check (x # xs) = sbind (check x) (\<lambda>_. each_ok check xs)"

lemma sbind_Inr: "sbind m f = Inr y \<longleftrightarrow> (\<exists>x. m = Inr x \<and> f x = Inr y)"
  by (cases m) auto

lemma sbind_InrE:
  assumes "sbind m f = Inr y"
  obtains x where "m = Inr x" and "f x = Inr y"
  using assms by (cases m) auto

lemma map_err_Inr [simp]: "map_err e m = Inr y \<longleftrightarrow> m = Inr y"
  by (cases m) (simp_all add: map_err_def)

lemma sok_or_Inr [simp]: "sok_or m e = Inr y \<longleftrightarrow> m = Some y"
  by (cases m) (simp_all add: sok_or_def)

lemma sbind_Inl: "sbind m f = Inl e \<longleftrightarrow> m = Inl e \<or> (\<exists>x. m = Inr x \<and> f x = Inl e)"
  by (cases m) auto

lemma each_ok_Inr: "each_ok check xs = Inr () \<longleftrightarrow> (\<forall>x \<in> set xs. check x = Inr ())"
  by (induction xs) (auto simp: sbind_Inr)

lemma obind_Trap_iff: "obind m f = Trap \<longleftrightarrow> m = Trap \<or> (\<exists>x. m = Ok x \<and> f x = Trap)"
  by (cases m) auto

end
