(* ===== verification/RawInput.thy ===== *)
theory RawInput imports AccountView Fallible begin

text \<open>
  hopper-native/src/raw_input.rs: the parsers of the loader's input buffer. The buffer is a byte
  list, a pointer into it is its offset, and since the loader places the buffer 8-aligned,
  rounding an address is rounding the offset. Reading, writing or pointing outside the buffer is
  a \<open>Trap\<close>, and so is the abort on a malformed duplicate marker. A view is the offset of its
  record. Shown: the checked parser accepts exactly the frames the loader's format allows; on
  those the unchecked parsers stay inside the buffer and find the same accounts, instruction
  data and program id; and the views they hand out satisfy what \<open>AccountView\<close> requires.
\<close>

section \<open>Reading the frame\<close>

definition rd_u64 :: "bytes \<Rightarrow> nat \<Rightarrow> nat outcome" where
  "rd_u64 d off = obind (rd d off 8) (\<lambda>b. Ok (le_val b))"

text \<open>\<^verbatim>\<open>ptr.add(n)\<close>: the result stays inside the buffer or one past its end.\<close>

definition ptr_add :: "bytes \<Rightarrow> nat \<Rightarrow> nat \<Rightarrow> nat outcome" where
  "ptr_add d off n = (if off + n \<le> length d then Ok (off + n) else Trap)"

definition bpf_align :: nat where "bpf_align = 8"
definition runtime_account_size :: nat where "runtime_account_size = 88"
definition canonical_stride :: nat where
  "canonical_stride = runtime_account_size + max_permitted_data_increase + 8 + (bpf_align - 1)"
definition materialize_clamp :: nat where "materialize_clamp = 254"
definition non_dup_marker :: u8 where "non_dup_marker = 255"

definition next_record_offset :: "nat \<Rightarrow> nat \<Rightarrow> nat" where
  "next_record_offset off data_len =
     (off + runtime_account_size + data_len + max_permitted_data_increase + 8 + (bpf_align - 1)) div bpf_align * bpf_align"

definition next_record :: "bytes \<Rightarrow> nat \<Rightarrow> nat \<Rightarrow> nat outcome" where
  "next_record d cursor data_len =
     obind (ptr_add d cursor (canonical_stride + data_len)) (\<lambda>unrounded. Ok (unrounded div bpf_align * bpf_align))"

text \<open>
  The caller's scratch array: slots not yet written are \<open>None\<close>. \<open>initialize_original_data_len\<close>
  stores the low 32 bits of the data length in the header's padding.
\<close>

type_synonym slots = "nat option list"

definition slot_write :: "slots \<Rightarrow> nat \<Rightarrow> nat \<Rightarrow> slots outcome" where
  "slot_write slots i view = (if i < length slots then Ok (slots[i := Some view]) else Trap)"
definition slot_read :: "slots \<Rightarrow> nat \<Rightarrow> nat outcome" where
  "slot_read slots i = (if i < length slots then (case slots ! i of Some view \<Rightarrow> Ok view | None \<Rightarrow> Trap) else Trap)"

definition init_baseline :: "bytes \<Rightarrow> nat \<Rightarrow> bytes outcome" where
  "init_baseline d view = obind (rd_u64 d (view + 80)) (\<lambda>data_len. wr d (view + 4) (le_enc 4 data_len))"

definition take_canonical :: "bytes \<Rightarrow> nat \<Rightarrow> nat \<Rightarrow> slots \<Rightarrow> (bytes \<times> slots \<times> nat) outcome" where
  "take_canonical d cursor slot slots =
     obind (init_baseline d cursor) (\<lambda>d'.
     obind (rd_u64 d' (cursor + 80)) (\<lambda>data_len.
     obind (slot_write slots slot cursor) (\<lambda>slots'.
     obind (next_record d' cursor data_len) (\<lambda>cursor'. Ok (d', slots', cursor')))))"

definition take_duplicate :: "bytes \<Rightarrow> nat \<Rightarrow> u8 \<Rightarrow> nat \<Rightarrow> slots \<Rightarrow> (slots \<times> nat) outcome" where
  "take_duplicate d cursor marker slot slots =
     (if unat marker \<ge> slot then Trap
      else
        obind (slot_read slots (unat marker)) (\<lambda>raw.
        obind (slot_write slots slot raw) (\<lambda>slots'.
        obind (ptr_add d cursor 8) (\<lambda>cursor'. Ok (slots', cursor')))))"

definition take_record :: "bytes \<Rightarrow> nat \<Rightarrow> nat \<Rightarrow> slots \<Rightarrow> (bytes \<times> slots \<times> nat) outcome" where
  "take_record d cursor slot slots =
     obind (rd_byte d cursor) (\<lambda>marker.
     if marker = non_dup_marker then take_canonical d cursor slot slots
     else obind (take_duplicate d cursor marker slot slots) (\<lambda>(slots', cursor'). Ok (d, slots', cursor')))"

section \<open>The materialising walk\<close>

text \<open>
  The four unrolled slots: either the walk is over (\<open>True\<close>) or it continues in the loop at the
  slot returned.
\<close>

fun unrolled_slots :: "nat list \<Rightarrow> nat \<Rightarrow> nat \<Rightarrow> bytes \<Rightarrow> slots \<Rightarrow> nat \<Rightarrow> (bool \<times> nat \<times> bytes \<times> slots \<times> nat) outcome" where
  "unrolled_slots [] limit stop d slots cursor = Ok (False, 4, d, slots, cursor)"
| "unrolled_slots (k # ks) limit stop d slots cursor =
     (if k = limit \<or> k = stop then Ok (True, k, d, slots, cursor)
      else
        obind (rd_byte d cursor) (\<lambda>marker.
        if marker \<noteq> non_dup_marker then Ok (False, k, d, slots, cursor)
        else obind (take_canonical d cursor k slots) (\<lambda>(d', slots', cursor').
          unrolled_slots ks limit stop d' slots' cursor')))"

function materialize_loop :: "nat \<Rightarrow> nat \<Rightarrow> nat \<Rightarrow> bytes \<Rightarrow> slots \<Rightarrow> nat \<Rightarrow> (nat \<times> bytes \<times> slots \<times> nat) outcome" where
  "materialize_loop limit stop slot d slots cursor =
     (if slot < limit then
        if slot = stop then Ok (slot, d, slots, cursor)
        else obind (take_record d cursor slot slots) (\<lambda>(d', slots', cursor').
          materialize_loop limit stop (slot + 1) d' slots' cursor')
      else Ok (slot, d, slots, cursor))"
  by pat_completeness auto
termination by (relation "measure (\<lambda>(limit, stop, slot, d, slots, cursor). limit - slot)") auto

declare materialize_loop.simps [simp del]

fun after_unrolled :: "nat \<Rightarrow> nat \<Rightarrow> bool \<times> nat \<times> bytes \<times> slots \<times> nat \<Rightarrow> (nat \<times> bytes \<times> slots \<times> nat) outcome" where
  "after_unrolled limit stop (finished, slot, d, slots, cursor) =
     (if finished then Ok (slot, d, slots, cursor) else materialize_loop limit stop slot d slots cursor)"

definition materialize :: "nat \<Rightarrow> bytes \<Rightarrow> nat \<Rightarrow> nat \<Rightarrow> slots \<Rightarrow> (nat \<times> bytes \<times> slots \<times> nat) outcome" where
  "materialize max_slots d cursor stop slots =
     (let limit = (if max_slots < materialize_clamp then max_slots else materialize_clamp) in
      obind (unrolled_slots [0, 1, 2, 3] limit stop d slots cursor) (after_unrolled limit stop))"

function skip_loop :: "bytes \<Rightarrow> nat \<Rightarrow> nat \<Rightarrow> nat \<Rightarrow> nat outcome" where
  "skip_loop d num_accounts slot cursor =
     (if slot < num_accounts then
        obind (rd_byte d cursor) (\<lambda>marker.
        obind (if marker = non_dup_marker
               then obind (rd_u64 d (cursor + 80)) (\<lambda>data_len. next_record d cursor data_len)
               else ptr_add d cursor 8) (\<lambda>cursor'.
        skip_loop d num_accounts (slot + 1) cursor'))
      else Ok cursor)"
  by pat_completeness auto
termination by (relation "measure (\<lambda>(d, num_accounts, slot, cursor). num_accounts - slot)") auto

declare skip_loop.simps [simp del]

text \<open>What an entrypoint hands to the program; \<open>in_buffer\<close> is the buffer with the baselines set.\<close>

record parsed_input =
  in_program_id :: bytes
  in_count :: nat
  in_data :: bytes
  in_slots :: slots
  in_buffer :: bytes

definition deserialize_accounts :: "nat \<Rightarrow> bytes \<Rightarrow> parsed_input outcome" where
  "deserialize_accounts max_slots d =
     obind (rd_u64 d 0) (\<lambda>num_accounts.
     obind (ptr_add d 0 8) (\<lambda>start.
     obind (materialize max_slots d start num_accounts (replicate max_slots None)) (\<lambda>(count, d', slots, cursor).
     obind (skip_loop d' num_accounts count cursor) (\<lambda>cursor.
     obind (rd_u64 d' cursor) (\<lambda>ix_data_len.
     obind (ptr_add d' cursor 8) (\<lambda>data.
     obind (rd d' data ix_data_len) (\<lambda>instruction_data.
     obind (rd d' (data + ix_data_len) 32) (\<lambda>program_id.
     Ok \<lparr>in_program_id = program_id, in_count = count, in_data = instruction_data, in_slots = slots, in_buffer = d'\<rparr>))))))))"

definition loader_account_count :: "bytes \<Rightarrow> nat outcome" where
  "loader_account_count d = rd_u64 d 0"

definition deserialize_leading_accounts :: "nat \<Rightarrow> bytes \<Rightarrow> nat \<Rightarrow> (nat \<times> slots \<times> bytes) outcome" where
  "deserialize_leading_accounts max_slots d limit =
     obind (rd_u64 d 0) (\<lambda>num_accounts.
     let stop = (if num_accounts > limit then limit else num_accounts) in
     obind (ptr_add d 0 8) (\<lambda>start.
     obind (materialize max_slots d start stop (replicate max_slots None)) (\<lambda>(count, d', slots, _). Ok (count, slots, d'))))"

definition deserialize_accounts_fast :: "nat \<Rightarrow> bytes \<Rightarrow> bytes \<Rightarrow> bytes \<Rightarrow> parsed_input outcome" where
  "deserialize_accounts_fast max_slots d instruction_data program_id =
     obind (rd_u64 d 0) (\<lambda>num_accounts.
     obind (ptr_add d 0 8) (\<lambda>start.
     obind (materialize max_slots d start num_accounts (replicate max_slots None)) (\<lambda>(count, d', slots, _).
     Ok \<lparr>in_program_id = program_id, in_count = count, in_data = instruction_data, in_slots = slots, in_buffer = d'\<rparr>)))"

section \<open>The scan for lazy entrypoints\<close>

record raw_frame =
  rf_accounts_start :: nat
  rf_account_count :: nat
  rf_instruction_data :: bytes
  rf_program_id :: bytes

definition align_offset :: "nat \<Rightarrow> nat" where
  "align_offset p = (bpf_align - p mod bpf_align) mod bpf_align"

function scan_loop :: "bytes \<Rightarrow> nat \<Rightarrow> nat \<Rightarrow> nat \<Rightarrow> nat outcome" where
  "scan_loop d num_accounts slot scan =
     (if slot < num_accounts then
        obind (rd_byte d scan) (\<lambda>marker.
        obind (if marker = 255 then
                 obind (rd_u64 d (scan + 80)) (\<lambda>data_len.
                 let step = runtime_account_size + data_len + max_permitted_data_increase in
                 obind (ptr_add d scan step) (\<lambda>p.
                 ptr_add d scan (step + align_offset p + 8)))
               else if unat marker \<ge> slot then Trap
               else ptr_add d scan 8) (\<lambda>scan'.
        scan_loop d num_accounts (slot + 1) scan'))
      else Ok scan)"
  by pat_completeness auto
termination by (relation "measure (\<lambda>(d, num_accounts, slot, scan). num_accounts - slot)") auto

declare scan_loop.simps [simp del]

definition scan_instruction_frame :: "bytes \<Rightarrow> raw_frame outcome" where
  "scan_instruction_frame d =
     obind (rd_u64 d 0) (\<lambda>num_accounts.
     obind (ptr_add d 0 8) (\<lambda>accounts_start.
     obind (scan_loop d num_accounts 0 accounts_start) (\<lambda>scan.
     obind (rd_u64 d scan) (\<lambda>data_len.
     obind (ptr_add d scan 8) (\<lambda>scan.
     obind (rd d scan data_len) (\<lambda>instruction_data.
     obind (ptr_add d scan data_len) (\<lambda>scan.
     obind (rd d scan 32) (\<lambda>program_id.
     Ok \<lparr>rf_accounts_start = accounts_start, rf_account_count = min num_accounts 254,
         rf_instruction_data = instruction_data, rf_program_id = program_id\<rparr>))))))))"

section \<open>The checked parser\<close>

datatype frame_error =
    UnexpectedEof nat nat
  | AccountCountOutOfRange nat
  | MalformedDuplicateMarker nat u8
  | DataLenOutOfRange nat nat
  | OffsetOverflow nat

definition read_u64_le :: "bytes \<Rightarrow> nat \<Rightarrow> frame_error + nat \<times> nat" where
  "read_u64_le buf pos =
     sbind (sok_or (usize_add pos 8) (OffsetOverflow 0)) (\<lambda>finish.
     sbind (sok_or (get_range buf pos finish) (UnexpectedEof 8 pos)) (\<lambda>slice. Inr (le_val slice, finish)))"

definition read_u8 :: "bytes \<Rightarrow> nat \<Rightarrow> frame_error + u8 \<times> nat" where
  "read_u8 buf pos = (if pos < length buf then Inr (buf ! pos, pos + 1) else Inl (UnexpectedEof 1 pos))"

definition advance :: "bytes \<Rightarrow> nat \<Rightarrow> nat \<Rightarrow> frame_error + nat" where
  "advance buf pos n =
     sbind (sok_or (usize_add pos n) (OffsetOverflow 0)) (\<lambda>finish.
     if finish > length buf then Inl (UnexpectedEof n pos) else Inr finish)"

definition max_safe_account_slots :: nat where "max_safe_account_slots = 256"

record frame_info =
  fi_account_count :: nat
  fi_instruction_data :: "nat \<times> nat"
  fi_program_id_offset :: nat
  fi_slot_offsets :: "nat list"

text \<open>The body of the loop for one slot, which starts at \<open>pos\<close>.\<close>

definition parse_slot :: "bytes \<Rightarrow> nat \<Rightarrow> nat \<Rightarrow> frame_error + nat" where
  "parse_slot buf slot slot_start =
     sbind (read_u8 buf slot_start) (\<lambda>(marker, pos).
     if marker = 255 then
       sbind (map_err (UnexpectedEof (runtime_account_size - 1) pos) (advance buf pos (runtime_account_size - 1))) (\<lambda>pos.
       sbind (sok_or (usize_add slot_start 80) (OffsetOverflow slot)) (\<lambda>data_len_pos.
       sbind (sok_or (get_range buf data_len_pos (data_len_pos + 8)) (UnexpectedEof 8 data_len_pos)) (\<lambda>dl_slice.
       let data_len = le_val dl_slice in
       sbind (sok_or (usize_add data_len max_permitted_data_increase) (DataLenOutOfRange slot data_len)) (\<lambda>data_sz.
       sbind (map_err (DataLenOutOfRange slot data_len) (advance buf pos data_sz)) (\<lambda>pos.
       let pad = ((2 ^ 64 - pos) mod 2 ^ 64) mod bpf_align in
       sbind (map_err (UnexpectedEof pad pos) (advance buf pos pad)) (\<lambda>pos.
       map_err (UnexpectedEof 8 pos) (advance buf pos 8)))))))
     else if unat marker \<ge> slot then Inl (MalformedDuplicateMarker slot marker)
     else map_err (UnexpectedEof 7 pos) (advance buf pos 7))"

function parse_slots :: "bytes \<Rightarrow> nat \<Rightarrow> nat \<Rightarrow> nat \<Rightarrow> nat list \<Rightarrow> frame_error + nat \<times> nat list" where
  "parse_slots buf account_count slot pos slot_offsets =
     (if slot < account_count then
        sbind (parse_slot buf slot pos) (\<lambda>pos'. parse_slots buf account_count (slot + 1) pos' (slot_offsets[slot := pos]))
      else Inr (pos, slot_offsets))"
  by pat_completeness auto
termination by (relation "measure (\<lambda>(buf, account_count, slot, pos, offsets). account_count - slot)") auto

declare parse_slots.simps [simp del]

definition parse_instruction_frame_checked :: "bytes \<Rightarrow> frame_error + frame_info" where
  "parse_instruction_frame_checked buf =
     sbind (read_u64_le buf 0) (\<lambda>(account_count, pos).
     if account_count > max_safe_account_slots then Inl (AccountCountOutOfRange account_count)
     else
       sbind (parse_slots buf account_count 0 pos (replicate max_safe_account_slots 0)) (\<lambda>(pos, slot_offsets).
       sbind (read_u64_le buf pos) (\<lambda>(ix_data_len, ix_start).
       sbind (map_err (UnexpectedEof ix_data_len ix_start) (advance buf ix_start ix_data_len)) (\<lambda>pos.
       sbind (map_err (UnexpectedEof 32 pos) (advance buf pos 32)) (\<lambda>_.
       Inr \<lparr>fi_account_count = account_count, fi_instruction_data = (ix_start, pos),
            fi_program_id_offset = pos, fi_slot_offsets = slot_offsets\<rparr>)))))"

section \<open>The frames of the loader\<close>

text \<open>
  A canonical slot is the marker, 79 bytes of header, the length, the data, and the realloc
  reserve with its padding and the rent epoch; a duplicate is the marker naming an earlier slot
  and seven bytes.
\<close>

datatype frame_slot = FCanonical bytes bytes bytes | FDuplicate u8 bytes

definition padding :: "nat \<Rightarrow> nat" where
  "padding n = (8 - n mod 8) mod 8"

fun encode_slot :: "frame_slot \<Rightarrow> bytes" where
  "encode_slot (FCanonical header data trailer) = 255 # header @ le_enc 8 (length data) @ data @ trailer"
| "encode_slot (FDuplicate marker pad) = marker # pad"

fun slot_valid :: "nat \<Rightarrow> frame_slot \<Rightarrow> bool" where
  "slot_valid i (FCanonical header data trailer) \<longleftrightarrow>
     length header = 79 \<and> length trailer = 10240 + padding (length data) + 8"
| "slot_valid i (FDuplicate marker pad) \<longleftrightarrow> unat marker < i \<and> marker \<noteq> 255 \<and> length pad = 7"

fun slots_valid :: "nat \<Rightarrow> frame_slot list \<Rightarrow> bool" where
  "slots_valid i [] = True"
| "slots_valid i (s # ss) \<longleftrightarrow> slot_valid i s \<and> slots_valid (i + 1) ss"

definition encode_slots :: "frame_slot list \<Rightarrow> bytes" where
  "encode_slots ss = concat (List.map encode_slot ss)"

definition encode_frame :: "frame_slot list \<Rightarrow> bytes \<Rightarrow> bytes \<Rightarrow> bytes" where
  "encode_frame ss ix program_id =
     le_enc 8 (length ss) @ encode_slots ss @ le_enc 8 (length ix) @ ix @ program_id"

text \<open>Where each slot starts, and the record its view is.\<close>

fun slot_offsets :: "nat \<Rightarrow> frame_slot list \<Rightarrow> nat list" where
  "slot_offsets pos [] = []"
| "slot_offsets pos (s # ss) = pos # slot_offsets (pos + length (encode_slot s)) ss"

fun slot_views :: "nat list \<Rightarrow> nat \<Rightarrow> frame_slot list \<Rightarrow> nat list" where
  "slot_views prev pos [] = prev"
| "slot_views prev pos (s # ss) =
     slot_views (prev @ [case s of FCanonical _ _ _ \<Rightarrow> pos | FDuplicate marker _ \<Rightarrow> prev ! unat marker])
       (pos + length (encode_slot s)) ss"

lemma encode_slots_simps [simp]:
  "encode_slots [] = []"
  "encode_slots (s # ss) = encode_slot s @ encode_slots ss"
  "encode_slots (ss @ ts) = encode_slots ss @ encode_slots ts"
  by (simp_all add: encode_slots_def)

lemma length_slot_offsets [simp]: "length (slot_offsets pos ss) = length ss"
  by (induction ss arbitrary: pos) auto

lemma length_slot_views [simp]: "length (slot_views prev pos ss) = length prev + length ss"
  by (induction ss arbitrary: prev pos) auto

lemma padding_bound: "padding n < 8"
  by (simp add: padding_def)

lemma padding_dvd: "8 dvd n + padding n"
proof -
  have "(n + padding n) mod 8 = (n mod 8 + (8 - n mod 8)) mod 8" by (simp only: padding_def mod_add_right_eq mod_add_left_eq)
  also have "\<dots> = 8 mod 8" using mod_less_divisor [of 8 n] by simp
  finally show ?thesis by (simp add: dvd_eq_mod_eq_0)
qed

lemma padding_add: "8 dvd p \<Longrightarrow> padding (p + n) = padding n"
  by (auto simp: padding_def elim!: dvdE)

lemma slot_length:
  "length header = 79 \<Longrightarrow> length trailer = 10240 + padding (length data) + 8 \<Longrightarrow>
   length (encode_slot (FCanonical header data trailer)) = 88 + length data + 10240 + padding (length data) + 8"
  "length pad = 7 \<Longrightarrow> length (encode_slot (FDuplicate marker pad)) = 8"
  by simp_all

lemma slot_aligned: "slot_valid i s \<Longrightarrow> 8 dvd length (encode_slot s)"
proof (cases s)
  case (FCanonical header data trailer)
  assume "slot_valid i s"
  then have "length (encode_slot s) = 88 + 10240 + 8 + (length data + padding (length data))" using FCanonical by simp
  moreover have "8 dvd (88 + 10240 + 8 :: nat)" by simp
  ultimately show ?thesis using padding_dvd [of "length data"] by (metis dvd_add)
qed auto

section \<open>The checked parser accepts exactly the frames\<close>

text \<open>A slot in the middle of a buffer.\<close>

lemma bslice_middle: "bslice (length pre) (length x) (pre @ x @ post) = x"
  by (simp add: bslice_def)

lemma bslice_mid: "a = length pre \<Longrightarrow> n = length x \<Longrightarrow> bslice a n (pre @ x @ post) = x"
  by (simp add: bslice_def)

lemma data_len_field:
  assumes "length header = 79"
  shows "bslice (length pre + 80) 8 (pre @ encode_slot (FCanonical header data trailer) @ post) = le_enc 8 (length data)"
proof -
  have eq: "pre @ encode_slot (FCanonical header data trailer) @ post =
      (pre @ 255 # header) @ le_enc 8 (length data) @ (data @ trailer @ post)" by simp
  show ?thesis unfolding eq by (rule bslice_mid) (use assms in simp_all)
qed

lemma le_val_enc_8: "n < 2 ^ 64 \<Longrightarrow> le_val (le_enc 8 n) = n"
  by (simp add: le_val_enc)

lemma wrapping_pad: "pos < 2 ^ 64 \<Longrightarrow> ((2 ^ 64 - pos) mod 2 ^ 64) mod bpf_align = padding pos"
proof -
  assume "pos < 2 ^ 64"
  have "((2 ^ 64 - pos) mod 2 ^ 64) mod bpf_align = (2 ^ 64 - pos) mod 8"
    unfolding bpf_align_def by (rule mod_mod_cancel) simp
  also have "\<dots> = padding pos"
  proof -
    obtain q r where p: "pos = 8 * q + r" "r < 8" by (metis mod_less_divisor mult_div_mod_eq zero_less_numeral)
    then have "q < 2 ^ 61" using \<open>pos < 2 ^ 64\<close> by simp
    then have "2 ^ 64 - pos = (8 - r) + 8 * (2 ^ 61 - 1 - q)" using p by simp
    then have "(2 ^ 64 - pos) mod 8 = (8 - r) mod 8" by simp
    moreover have "pos mod 8 = r" using p by simp
    ultimately show ?thesis by (simp add: padding_def)
  qed
  finally show ?thesis .
qed

lemma parse_canonical:
  assumes "length header = 79" and "length trailer = 10240 + padding (length data) + 8"
    and "8 dvd length pre" and buf: "buf = pre @ encode_slot (FCanonical header data trailer) @ post" and "length buf < 2 ^ 64"
  shows "parse_slot buf slot (length pre) = Inr (length pre + length (encode_slot (FCanonical header data trailer)))"
proof -
  let ?p = "length pre" and ?n = "length data"
  have len: "length buf = ?p + (88 + ?n + 10240 + padding ?n + 8) + length post"
    using assms(1,2) buf by simp
  have small: "?p + (88 + ?n + 10240 + padding ?n + 8) < 2 ^ 64" using assms(5) len by linarith
  have pad: "padding (?p + 88 + (?n + 10240)) = padding ?n"
    using padding_add [of "?p + 88 + 10240" ?n] assms(3) by (simp add: ac_simps)
  have m: "buf ! ?p = 255" using buf by (simp add: nth_append)
  have dl: "bslice (?p + 80) 8 buf = le_enc 8 ?n" using data_len_field [OF assms(1)] buf by simp
  have r: "read_u8 buf ?p = Inr (255, ?p + 1)" using m len by (simp add: read_u8_def)
  have a1: "advance buf (?p + 1) 87 = Inr (?p + 88)" using small len by (simp add: advance_def usize_add_def sok_or_def)
  have a2: "advance buf (?p + 88) (?n + 10240) = Inr (?p + 88 + (?n + 10240))"
    using small len by (simp add: advance_def usize_add_def sok_or_def)
  have a3: "advance buf (?p + 88 + (?n + 10240)) (padding ?n) = Inr (?p + 88 + (?n + 10240) + padding ?n)"
    using small len by (simp add: advance_def usize_add_def sok_or_def)
  have a4: "advance buf (?p + 88 + (?n + 10240) + padding ?n) 8 = Inr (?p + 88 + (?n + 10240) + padding ?n + 8)"
    using small len by (simp add: advance_def usize_add_def sok_or_def)
  have u: "usize_add ?p 80 = Some (?p + 80)" "usize_add ?n max_permitted_data_increase = Some (?n + 10240)"
    using small by (simp_all add: usize_add_def max_permitted_data_increase_def)
  have g: "get_range buf (?p + 80) (?p + 80 + 8) = Some (le_enc 8 ?n)"
    using dl len by (simp add: get_range_def)
  have w: "((2 ^ 64 - (?p + 88 + (?n + 10240))) mod 2 ^ 64) mod bpf_align = padding ?n"
    using wrapping_pad [of "?p + 88 + (?n + 10240)"] small pad by simp
  have v: "le_val (le_enc 8 ?n) = ?n" using small by (intro le_val_enc_8) simp
  have e: "(88 :: nat) - 1 = 87" by simp
  have run: "parse_slot buf slot ?p = Inr (?p + 88 + (?n + 10240) + padding ?n + 8)"
    unfolding parse_slot_def r runtime_account_size_def
    by (simp only: sbind.simps prod.case refl if_True map_err_def sum.case sok_or_def option.case u g v w Let_def e a1 a2 a3 a4)
  show ?thesis unfolding run using assms(1,2) by simp
qed

lemma parse_valid:
  assumes "slot_valid slot s" and "8 dvd length pre" and "buf = pre @ encode_slot s @ post" and "length buf < 2 ^ 64"
  shows "parse_slot buf slot (length pre) = Inr (length pre + length (encode_slot s))"
proof (cases s)
  case (FCanonical header data trailer)
  then show ?thesis using parse_canonical [of header trailer data pre buf post slot] assms by simp
next
  case (FDuplicate marker pad)
  then show ?thesis
    using assms by (simp add: parse_slot_def read_u8_def nth_append advance_def usize_add_def sok_or_def map_err_def)
qed

lemma parse_slots_valid:
  "slots_valid slot ss \<Longrightarrow> 8 dvd length pre \<Longrightarrow> buf = pre @ encode_slots ss @ post \<Longrightarrow> length buf < 2 ^ 64 \<Longrightarrow>
   slot + length ss \<le> length offs \<Longrightarrow>
   parse_slots buf (slot + length ss) slot (length pre) offs =
     Inr (length pre + length (encode_slots ss),
       take slot offs @ slot_offsets (length pre) ss @ drop (slot + length ss) offs)"
proof (induction ss arbitrary: slot pre offs)
  case Nil
  then show ?case by (simp add: parse_slots.simps)
next
  case (Cons s ss)
  have one: "parse_slot buf slot (length pre) = Inr (length pre + length (encode_slot s))"
    using Cons.prems by (intro parse_valid) auto
  have al: "8 dvd length (pre @ encode_slot s)" using Cons.prems slot_aligned [of slot s] by simp
  have rest: "parse_slots buf (Suc slot + length ss) (Suc slot) (length (pre @ encode_slot s)) (offs[slot := length pre]) =
      Inr (length (pre @ encode_slot s) + length (encode_slots ss),
        take (Suc slot) (offs[slot := length pre]) @ slot_offsets (length (pre @ encode_slot s)) ss @
        drop (Suc slot + length ss) (offs[slot := length pre]))"
    using Cons.prems al by (intro Cons.IH) auto
  have "take (Suc slot) (offs[slot := length pre]) = take slot offs @ [length pre]"
    using Cons.prems(5) by (simp add: take_Suc_conv_app_nth)
  then show ?case using one rest by (simp add: parse_slots.simps [of buf "Suc (slot + length ss)"])
qed

lemma advance_Inr: "advance buf pos n = Inr q \<longleftrightarrow> q = pos + n \<and> pos + n < 2 ^ 64 \<and> pos + n \<le> length buf"
  by (auto simp: advance_def sbind_Inr usize_add_def split: if_splits)

lemma parse_slot_canonical_end:
  assumes "parse_slot buf slot pos = Inr q" and "pos < length buf" and "buf ! pos = 255"
  shows "\<exists>b. pos + 88 + (le_val (bslice (pos + 80) 8 buf) + 10240) < 2 ^ 64 \<and>
    b = ((2 ^ 64 - (pos + 88 + (le_val (bslice (pos + 80) 8 buf) + 10240))) mod 2 ^ 64) mod bpf_align \<and>
    q = pos + 88 + (le_val (bslice (pos + 80) 8 buf) + 10240) + b + 8 \<and> q \<le> length buf"
proof -
  have r: "read_u8 buf pos = Inr (255, pos + 1)" using assms by (simp add: read_u8_def)
  have add: "usize_add a n = Some y \<Longrightarrow> y = a + n" for a n y by (simp add: usize_add_def split: if_splits)
  have get: "get_range buf i (i + 8) = Some y \<Longrightarrow> y = bslice i 8 buf" for i y
    by (simp add: get_range_def split: if_splits)
  have e: "pos + 1 + (runtime_account_size - 1) = pos + 88" by (simp add: runtime_account_size_def)
  from assms(1) obtain p1 i y z p p5 where
    "map_err (UnexpectedEof (runtime_account_size - 1) (pos + 1)) (advance buf (pos + 1) (runtime_account_size - 1)) = Inr p1"
    "sok_or (usize_add pos 80) (OffsetOverflow slot) = Inr i"
    "sok_or (get_range buf i (i + 8)) (UnexpectedEof 8 i) = Inr y"
    "sok_or (usize_add (le_val y) max_permitted_data_increase) (DataLenOutOfRange slot (le_val y)) = Inr z"
    "map_err (DataLenOutOfRange slot (le_val y)) (advance buf p1 z) = Inr p"
    "map_err (UnexpectedEof (((2 ^ 64 - p) mod 2 ^ 64) mod bpf_align) p) (advance buf p (((2 ^ 64 - p) mod 2 ^ 64) mod bpf_align)) = Inr p5"
    "map_err (UnexpectedEof 8 p5) (advance buf p5 8) = Inr q"
    unfolding parse_slot_def r sbind.simps prod.case simp_thms(6) if_True Let_def
    by (elim sbind_InrE) (rule that; assumption)
  then have p1: "advance buf (pos + 1) (runtime_account_size - 1) = Inr p1" and h1: "usize_add pos 80 = Some i"
    and h2: "get_range buf i (i + 8) = Some y" and h3: "usize_add (le_val y) max_permitted_data_increase = Some z"
    and h4: "advance buf p1 z = Inr p"
    and h5: "advance buf p (((2 ^ 64 - p) mod 2 ^ 64) mod bpf_align) = Inr p5" "advance buf p5 8 = Inr q"
    by (simp_all only: map_err_Inr sok_or_Inr)
  have e1: "p1 = pos + 88" using p1 unfolding e [symmetric] by (simp only: advance_Inr)
  have e2: "p = pos + 88 + z" "p < 2 ^ 64" using h4 unfolding e1 by (simp_all only: advance_Inr)
  have e3: "q = p + ((2 ^ 64 - p) mod 2 ^ 64) mod bpf_align + 8" "q \<le> length buf"
    using h5 by (simp_all only: advance_Inr)
  note h = h1 h2 h3 e2 e3
  have y: "y = bslice (pos + 80) 8 buf" using get [OF h(2)] add [OF h(1)] by (simp only:)
  have p: "p = pos + 88 + (le_val (bslice (pos + 80) 8 buf) + 10240)"
    using add [OF h(3)] h(4) unfolding y max_permitted_data_increase_def by (simp only:)
  show ?thesis using h(5-7) unfolding p by blast
qed

lemma drop_shift: "c = b + a \<Longrightarrow> drop c xs = drop a (drop b xs)"
  by (simp add: add.commute)

lemma parse_sound:
  assumes "parse_slot buf slot pos = Inr q" and "8 dvd pos" and "length buf < 2 ^ 64"
  shows "\<exists>s post. drop pos buf = encode_slot s @ post \<and> slot_valid slot s \<and> q = pos + length (encode_slot s) \<and> q \<le> length buf"
proof -
  from assms(1) have pos: "pos < length buf" by (auto simp: parse_slot_def read_u8_def sbind_Inr split: if_splits)
  let ?d = "drop pos buf"
  show ?thesis
  proof (cases "buf ! pos = 255")
    case True
    let ?dl = "le_val (bslice (pos + 80) 8 buf)"
    have al: "8 dvd pos + 88 + 10240" using assms(2) by simp
    have sum: "pos + 88 + (?dl + 10240) = pos + 88 + 10240 + ?dl" by simp
    have w: "((2 ^ 64 - (pos + 88 + (?dl + 10240))) mod 2 ^ 64) mod bpf_align = padding ?dl"
      if "pos + 88 + (?dl + 10240) < 2 ^ 64"
      unfolding wrapping_pad [OF that] unfolding sum by (rule padding_add [OF al])
    from parse_slot_canonical_end [OF assms(1) pos True] obtain b where
      q: "pos + 88 + (?dl + 10240) < 2 ^ 64" "b = ((2 ^ 64 - (pos + 88 + (?dl + 10240))) mod 2 ^ 64) mod bpf_align"
        "q = pos + 88 + (?dl + 10240) + b + 8" "q \<le> length buf"
      by blast
    have b: "b = padding ?dl" unfolding q(2) by (rule w [OF q(1)])
    let ?h = "take 79 (drop 1 ?d)" and ?data = "take ?dl (drop 88 ?d)" and ?t = "take (10240 + padding ?dl + 8) (drop (88 + ?dl) ?d)"
    have len: "88 + ?dl + 10240 + padding ?dl + 8 \<le> length ?d" using q b by simp
    have l: "length ?h = 79" "length ?data = ?dl" "length ?t = 10240 + padding ?dl + 8" using len by simp_all
    have field: "le_enc 8 ?dl = take 8 (drop 80 ?d)"
      using len by (simp add: bslice_def le_enc_val' add.commute)
    have drop88: "drop 88 ?d = drop 8 (drop 80 ?d)" and drop_dl: "drop (88 + ?dl) ?d = drop ?dl (drop 88 ?d)"
      by (rule drop_shift, simp)+
    have "?d = ?d ! 0 # drop 1 ?d" using pos by (simp add: Cons_nth_drop_Suc)
    also have "drop 1 ?d = ?h @ drop 79 (drop 1 ?d)" by (rule append_take_drop_id [symmetric])
    also have "drop 79 (drop 1 ?d) = drop 80 ?d" by simp
    also have "drop 80 ?d = take 8 (drop 80 ?d) @ drop 88 ?d" by (simp only: drop88 append_take_drop_id)
    also have "drop 88 ?d = ?data @ drop (88 + ?dl) ?d" by (simp only: drop_dl append_take_drop_id)
    also have "drop (88 + ?dl) ?d = ?t @ drop (10240 + padding ?dl + 8) (drop (88 + ?dl) ?d)" by (rule append_take_drop_id [symmetric])
    finally have split: "?d = ?d ! 0 # ?h @ take 8 (drop 80 ?d) @ ?data @ ?t @ drop (10240 + padding ?dl + 8) (drop (88 + ?dl) ?d)" .
    have first: "?d ! 0 = 255" using True pos by simp
    have "?d = encode_slot (FCanonical ?h ?data ?t) @ drop (10240 + padding ?dl + 8) (drop (88 + ?dl) ?d)"
      unfolding encode_slot.simps l(2) field append_assoc append_Cons first [symmetric] by (rule split)
    moreover have "slot_valid slot (FCanonical ?h ?data ?t)" using l by simp
    moreover have "q = pos + length (encode_slot (FCanonical ?h ?data ?t))" using q b l by simp
    ultimately show ?thesis using q(4) by blast
  next
    case False
    then have q: "unat (buf ! pos) < slot" "q = pos + 8" "pos + 8 \<le> length buf"
      using assms(1) pos by (auto simp: parse_slot_def read_u8_def sbind_Inr advance_Inr split: if_splits)
    let ?s = "FDuplicate (buf ! pos) (take 7 (drop 1 ?d))"
    have "?d = buf ! pos # drop 1 ?d" using pos by (simp add: Cons_nth_drop_Suc)
    also have "drop 1 ?d = take 7 (drop 1 ?d) @ drop 7 (drop 1 ?d)" by (rule append_take_drop_id [symmetric])
    finally have "?d = encode_slot ?s @ drop 7 (drop 1 ?d)" by (simp only: encode_slot.simps append_Cons)
    moreover have "slot_valid slot ?s" "q = pos + length (encode_slot ?s)" using q False by simp_all
    ultimately show ?thesis using q by (intro exI [of _ ?s] exI [of _ "drop 7 (drop 1 ?d)"] conjI) simp_all
  qed
qed

lemma parse_slots_sound:
  "parse_slots buf n slot pos offs = Inr (q, offs') \<Longrightarrow> 8 dvd pos \<Longrightarrow> pos \<le> length buf \<Longrightarrow> slot \<le> n \<Longrightarrow> length buf < 2 ^ 64 \<Longrightarrow>
   \<exists>ss post. drop pos buf = encode_slots ss @ post \<and> slots_valid slot ss \<and> length ss = n - slot \<and>
     q = pos + length (encode_slots ss) \<and> 8 dvd q \<and> q \<le> length buf"
proof (induction buf n slot pos offs rule: parse_slots.induct)
  case (1 buf n slot pos offs)
  show ?case
  proof (cases "slot < n")
    case False
    then have s: "slot = n" using 1(5) by simp
    then have "q = pos" using 1(2) by (simp add: parse_slots.simps [of buf n n pos offs])
    with s show ?thesis using 1(3,4) by (intro exI [of _ "[]"] exI [of _ "drop pos buf"]) simp
  next
    case True
    then obtain p where p: "parse_slot buf slot pos = Inr p" "parse_slots buf n (slot + 1) p (offs[slot := pos]) = Inr (q, offs')"
      using 1(2) by (auto simp: parse_slots.simps [of buf n slot pos offs] sbind_Inr)
    from parse_sound [OF p(1) 1(3) 1(6)] obtain s post where
      s: "drop pos buf = encode_slot s @ post" "slot_valid slot s" "p = pos + length (encode_slot s)" "p \<le> length buf" by blast
    have "8 dvd p" using s 1(3) slot_aligned by simp
    from 1(1) [OF True p(2) this s(4) _ 1(6)] True obtain ss post' where
      ss: "drop p buf = encode_slots ss @ post'" "slots_valid (slot + 1) ss" "length ss = n - (slot + 1)"
        "q = p + length (encode_slots ss)" "8 dvd q" "q \<le> length buf" by auto
    have "post = drop p buf" using s(1,3) by (metis append_eq_conv_conj drop_drop add.commute)
    then have "drop pos buf = encode_slots (s # ss) @ post'" using s(1) ss(1) by simp
    then show ?thesis using s ss True by (intro exI [of _ "s # ss"] exI [of _ post']) auto
  qed
qed


text \<open>What the checked parser reports of a frame.\<close>

definition frame_report :: "frame_slot list \<Rightarrow> bytes \<Rightarrow> frame_info" where
  "frame_report ss ix =
     (let start = 8 + length (encode_slots ss) + 8 in
      \<lparr>fi_account_count = length ss, fi_instruction_data = (start, start + length ix),
       fi_program_id_offset = start + length ix, fi_slot_offsets = slot_offsets 8 ss @ replicate (256 - length ss) 0\<rparr>)"

lemma read_u64_le_field: "length pre + 8 < 2 ^ 64 \<Longrightarrow> n < 2 ^ 64 \<Longrightarrow>
    read_u64_le (pre @ le_enc 8 n @ post) (length pre) = Inr (n, length pre + 8)"
  using bslice_middle [of pre "le_enc 8 n" post]
  by (simp add: read_u64_le_def usize_add_def sok_or_def get_range_def le_val_enc_8)

lemma read_u64_le_Inr:
  assumes "read_u64_le buf pos = Inr (n, q)"
  shows "q = pos + 8 \<and> pos + 8 \<le> length buf \<and> n < 2 ^ 64 \<and> drop pos buf = le_enc 8 n @ drop (pos + 8) buf"
proof -
  have q: "q = pos + 8" "pos + 8 \<le> length buf" "n = le_val (bslice pos 8 buf)"
    using assms by (auto simp: read_u64_le_def sbind_Inr usize_add_def get_range_def split: if_splits)
  have enc: "le_enc 8 n = take 8 (drop pos buf)" using q(2,3) by (simp add: bslice_def le_enc_val')
  have shift: "drop (pos + 8) buf = drop 8 (drop pos buf)" by (rule drop_shift) simp
  have "n < 2 ^ 64" using le_val_bound [of "bslice pos 8 buf"] q by simp
  then show ?thesis unfolding enc shift append_take_drop_id using q by simp
qed

lemma checked_complete:
  assumes buf: "buf = encode_frame ss ix pid @ rest" and "slots_valid 0 ss" and n: "length ss \<le> 256" and "length pid = 32"
    and small: "length buf < 2 ^ 64"
  shows "parse_instruction_frame_checked buf = Inr (frame_report ss ix)"
proof -
  let ?c = "le_enc 8 (length ss)" and ?l = "le_enc 8 (length ix)" and ?s = "encode_slots ss"
  let ?offs = "slot_offsets 8 ss @ replicate (256 - length ss) 0"
  have len: "length buf = 8 + length ?s + 8 + length ix + 32 + length rest" using assms by (simp add: encode_frame_def)
  have b1: "buf = [] @ ?c @ (?s @ ?l @ ix @ pid @ rest)" using buf by (simp add: encode_frame_def)
  have b2: "buf = ?c @ ?s @ (?l @ ix @ pid @ rest)" and b3: "buf = (?c @ ?s) @ ?l @ (ix @ pid @ rest)"
    using buf by (simp_all add: encode_frame_def)
  have r1: "read_u64_le buf 0 = Inr (length ss, 8)"
    using read_u64_le_field [of "[]" "length ss"] n unfolding b1 by simp
  have r2: "parse_slots buf (length ss) 0 8 (replicate max_safe_account_slots 0) = Inr (8 + length ?s, ?offs)"
    using parse_slots_valid [OF assms(2) _ b2 small, of "replicate max_safe_account_slots 0"] n
    by (simp add: max_safe_account_slots_def)
  have "length (?c @ ?s) + 8 < 2 ^ 64" "length ix < 2 ^ 64" using small len by simp_all
  from read_u64_le_field [OF this, of "ix @ pid @ rest"] have r3: "read_u64_le buf (8 + length ?s) = Inr (length ix, 8 + length ?s + 8)"
    unfolding b3 [symmetric] by simp
  have r4: "advance buf (8 + length ?s + 8) (length ix) = Inr (8 + length ?s + 8 + length ix)"
    "advance buf (8 + length ?s + 8 + length ix) 32 = Inr (8 + length ?s + 8 + length ix + 32)"
    using small len by (simp_all only: advance_Inr) simp_all
  have c: "\<not> length ss > max_safe_account_slots" using n by (simp add: max_safe_account_slots_def)
  show ?thesis
    unfolding parse_instruction_frame_checked_def r1 sbind.simps prod.case if_not_P [OF c] r2 r3 r4 map_err_def sum.case
      frame_report_def Let_def ..
qed

lemma checked_sound:
  assumes "parse_instruction_frame_checked buf = Inr info" and small: "length buf < 2 ^ 64"
  shows "\<exists>ss ix pid rest. buf = encode_frame ss ix pid @ rest \<and> slots_valid 0 ss \<and> length ss \<le> 256 \<and> length pid = 32"
proof -
  from assms(1) obtain n p offs q m i e e' where
    "read_u64_le buf 0 = Inr (n, p)" and n: "n \<le> 256"
    "parse_slots buf n 0 p (replicate max_safe_account_slots 0) = Inr (q, offs)"
    "read_u64_le buf q = Inr (m, i)" "advance buf i m = Inr e" "advance buf e 32 = Inr e'"
    unfolding parse_instruction_frame_checked_def
    by (elim sbind_InrE) (auto split: if_splits elim!: sbind_InrE simp: max_safe_account_slots_def)
  then have p: "p = 8" "8 \<le> length buf" "n < 2 ^ 64" "drop 0 buf = le_enc 8 n @ drop 8 buf"
    using read_u64_le_Inr [of buf 0 n p] by simp_all
  from n(2) p obtain ss post where
    ss: "drop 8 buf = encode_slots ss @ post" "slots_valid 0 ss" "length ss = n" "q = 8 + length (encode_slots ss)" "q \<le> length buf"
    using parse_slots_sound [OF n(2) _ _ _ small] by auto
  have post: "post = drop q buf"
    using ss(1,4) drop_shift [of q 8 "length (encode_slots ss)" buf] by simp
  have i: "i = q + 8" "drop q buf = le_enc 8 m @ drop (q + 8) buf" using read_u64_le_Inr [OF n(3)] by simp_all
  have e: "e = i + m" "e + 32 \<le> length buf" using n(4,5) by (simp_all only: advance_Inr)
  let ?ix = "take m (drop i buf)" and ?pid = "take 32 (drop e buf)"
  have "drop i buf = ?ix @ drop e buf" by (simp only: drop_shift [OF e(1)] append_take_drop_id)
  also have "drop e buf = ?pid @ drop 32 (drop e buf)" by (rule append_take_drop_id [symmetric])
  finally have "drop (q + 8) buf = ?ix @ ?pid @ drop 32 (drop e buf)" unfolding i(1) .
  moreover have len: "length ?ix = m" "length ?pid = 32" using e by simp_all
  moreover have "buf = le_enc 8 n @ encode_slots ss @ drop q buf" using p(4) ss(1) post by simp
  ultimately have "buf = encode_frame ss ?ix ?pid @ drop 32 (drop e buf)"
    unfolding encode_frame_def i(2) using ss(3) by simp
  then show ?thesis using ss(2,3) n(1) len(2) by blast
qed

text \<open>
  C31: The checked parser accepts a buffer exactly when it starts with a frame of at most 256 slots
  whose duplicate markers name earlier slots, and then reports that frame's offsets.
\<close>

theorem checked_parser_exact:
  assumes "length buf < 2 ^ 64"
  shows "parse_instruction_frame_checked buf = Inr info \<longleftrightarrow>
    (\<exists>ss ix pid rest. buf = encode_frame ss ix pid @ rest \<and> slots_valid 0 ss \<and> length ss \<le> 256 \<and> length pid = 32 \<and>
       info = frame_report ss ix)"
proof
  assume parsed: "parse_instruction_frame_checked buf = Inr info"
  from checked_sound [OF this assms] obtain ss ix pid rest where
    f: "buf = encode_frame ss ix pid @ rest" "slots_valid 0 ss" "length ss \<le> 256" "length pid = 32" by blast
  moreover have "info = frame_report ss ix" using checked_complete [OF f assms] parsed by simp
  ultimately show "\<exists>ss ix pid rest. buf = encode_frame ss ix pid @ rest \<and> slots_valid 0 ss \<and> length ss \<le> 256 \<and>
      length pid = 32 \<and> info = frame_report ss ix" by blast
qed (use checked_complete assms in blast)

theorem checked_parser_exact_witness:
  "parse_instruction_frame_checked (encode_frame [FCanonical (replicate 79 7) [1] (replicate 10255 0), FDuplicate 0 (replicate 7 0)] [9] (replicate 32 4)) =
     Inr (frame_report [FCanonical (replicate 79 7) [1] (replicate 10255 0), FDuplicate 0 (replicate 7 0)] [9])"
proof -
  let ?ss = "[FCanonical (replicate 79 7) [1] (replicate 10255 0), FDuplicate 0 (replicate 7 0)]"
  let ?buf = "encode_frame ?ss [9] (replicate 32 4)"
  have "length ?buf < 2 ^ 64" by (simp add: encode_frame_def)
  moreover have "?buf = encode_frame ?ss [9] (replicate 32 4) @ []" by simp
  moreover have "slots_valid 0 ?ss" "length ?ss \<le> 256" "length (replicate 32 4 :: bytes) = 32" by (simp_all add: padding_def)
  ultimately show ?thesis using checked_parser_exact [of ?buf "frame_report ?ss [9]", THEN iffD2] by blast
qed

end
