(* ===== verification/RawWalk.thy ===== *)
theory RawWalk imports RawInput begin

text \<open>
  hopper-native/src/raw_input.rs, the unchecked walks on the loader's frames: the unrolled
  materialising walk is the plain loop; on a frame every walk stays inside the buffer, finds the
  accounts, instruction data and program id the frame holds, and changes nothing but the
  baseline word of the accounts it hands out; and each account handed out is a well-formed,
  unborrowed account whose growth is measured from the length it arrived with.
\<close>

section \<open>The unrolled slots\<close>

lemma unrolled_is_loop:
  assumes "k \<le> 4" and "k \<le> limit"
  shows "obind (unrolled_slots [k..<4] limit stop d slots cursor) (after_unrolled limit stop) =
    materialize_loop limit stop k d slots cursor"
  using assms
proof (induction "4 - k" arbitrary: k d slots cursor)
  case 0
  then have "k = 4" by simp
  then show ?case by simp
next
  case (Suc n)
  then have ks: "[k..<4] = k # [Suc k..<4]" by (simp add: upt_conv_Cons)
  show ?case
  proof (cases "k = limit \<or> k = stop")
    case True
    then show ?thesis using Suc.prems by (auto simp: ks materialize_loop.simps [of limit stop k])
  next
    case False
    then have lt: "k < limit" "k \<noteq> stop" "k \<noteq> limit" using Suc.prems by simp_all
    have IH: "obind (unrolled_slots [Suc k..<4] limit stop d' slots' cursor') (after_unrolled limit stop) =
      materialize_loop limit stop (Suc k) d' slots' cursor'" for d' slots' cursor'
      using Suc lt by (intro Suc.hyps(1)) simp_all
    show ?thesis
      using lt by (auto simp: ks IH materialize_loop.simps [of limit stop k] take_record_def split_beta intro!: obind_cong)
  qed
qed

lemma materialize_is_loop:
  "materialize max_slots d cursor stop slots =
     materialize_loop (min max_slots materialize_clamp) stop 0 d slots cursor"
proof -
  have "[0, 1, 2, 3] = [0 :: nat..<4]" by (simp add: upt_conv_Cons)
  moreover have "(if max_slots < materialize_clamp then max_slots else materialize_clamp) = min max_slots materialize_clamp"
    by simp
  ultimately show ?thesis
    using unrolled_is_loop [of 0 "min max_slots materialize_clamp" stop d slots cursor]
    by (simp only: materialize_def Let_def zero_le)
qed

section \<open>The walk over a frame\<close>

fun baseline_slot :: "frame_slot \<Rightarrow> frame_slot" where
  "baseline_slot (FCanonical header data trailer) =
     FCanonical (take 3 header @ le_enc 4 (length data) @ drop 7 header) data trailer"
| "baseline_slot (FDuplicate marker pad) = FDuplicate marker pad"

lemma baseline_length: "slot_valid i s \<Longrightarrow> length (encode_slot (baseline_slot s)) = length (encode_slot s)"
  by (cases s) auto

lemma baseline_valid: "slot_valid i s \<Longrightarrow> slot_valid i (baseline_slot s)"
  by (cases s) auto

lemma rd_u64_data_len:
  assumes "length header = 79" and "length data < 2 ^ 64"
  shows "rd_u64 (pre @ encode_slot (FCanonical header data trailer) @ post) (length pre + 80) = Ok (length data)"
proof -
  have "length pre + 80 + 8 \<le> length (pre @ encode_slot (FCanonical header data trailer) @ post)" using assms(1) by simp
  then show ?thesis
    unfolding rd_u64_def using data_len_field [OF assms(1)] assms(2) by (simp only: rd_eq obind.simps le_val_enc_8)
qed

lemma wr_middle: "length x = length y \<Longrightarrow> wr (pre @ x @ post) (length pre) y = Ok (pre @ y @ post)"
  by (simp add: wr_def bsplice_def)

lemma init_baseline_canonical:
  assumes "length header = 79" and "length data < 2 ^ 64"
  shows "init_baseline (pre @ encode_slot (FCanonical header data trailer) @ post) (length pre) =
    Ok (pre @ encode_slot (baseline_slot (FCanonical header data trailer)) @ post)"
proof -
  let ?d = "pre @ encode_slot (FCanonical header data trailer) @ post"
  have h: "header = take 3 header @ bslice 3 4 header @ drop 7 header"
    using append_take_drop_id [of 3 header] append_take_drop_id [of 4 "drop 3 header"]
    by (simp add: bslice_def)
  have d: "?d = (pre @ 255 # take 3 header) @ bslice 3 4 header @ (drop 7 header @ le_enc 8 (length data) @ data @ trailer @ post)"
    using arg_cong [OF h, of "\<lambda>h. pre @ 255 # h @ le_enc 8 (length data) @ data @ trailer @ post"] by simp
  have l: "length (bslice 3 4 header) = 4" "length (pre @ 255 # take 3 header) = length pre + 4" using assms(1) by simp_all
  have "wr ?d (length pre + 4) (le_enc 4 (length data)) =
      Ok ((pre @ 255 # take 3 header) @ le_enc 4 (length data) @ (drop 7 header @ le_enc 8 (length data) @ data @ trailer @ post))"
    unfolding d l(2) [symmetric] using l(1) by (intro wr_middle) simp
  then show ?thesis unfolding init_baseline_def rd_u64_data_len [OF assms] by simp
qed

lemma round_record:
  assumes "8 dvd (p :: nat)"
  shows "(p + (10343 + n)) div 8 * 8 = p + (10336 + n + padding n)"
proof -
  obtain q where p: "p = 8 * q" using assms ..
  obtain k r where n: "n = 8 * k + r" "r < 8" by (metis mod_less_divisor mult_div_mod_eq zero_less_numeral)
  have pad: "r + padding n = (if r = 0 then 0 else 8)" using n by (auto simp: padding_def)
  have "(p + (10343 + n)) div 8 = q + 1292 + k + (r + 7) div 8" using p n by simp
  moreover have "(r + 7) div 8 = (if r = 0 then 0 else 1)" using n(2) by auto
  ultimately show ?thesis using p n pad by (simp split: if_splits)
qed

lemma next_record_canonical:
  assumes "8 dvd cursor" and "cursor + 10343 + n \<le> length d"
  shows "next_record d cursor n = Ok (cursor + (10336 + n + padding n))"
  using assms round_record [OF assms(1), of n]
  by (simp add: next_record_def ptr_add_def canonical_stride_def runtime_account_size_def max_permitted_data_increase_def bpf_align_def)

text \<open>The view a slot stands for, given the views of the slots before it.\<close>

fun slot_view :: "nat list \<Rightarrow> nat \<Rightarrow> frame_slot \<Rightarrow> nat" where
  "slot_view views pos (FCanonical header data trailer) = pos"
| "slot_view views pos (FDuplicate marker pad) = views ! unat marker"

lemma slot_views_Cons: "slot_views views pos (s # ss) = slot_views (views @ [slot_view views pos s]) (pos + length (encode_slot s)) ss"
  by (cases s) simp_all

lemma slot_size: "slot_valid i s \<Longrightarrow> 8 \<le> length (encode_slot s)"
  by (cases s) simp_all

lemma take_record_frame:
  assumes valid: "slot_valid slot s" and al: "8 dvd length pre" and room: "8 \<le> length post"
    and small: "length (encode_slot s) < 2 ^ 64" and slot: "slot < length slots"
    and prev: "take slot slots = List.map Some views" and views: "length views = slot"
  shows "take_record (pre @ encode_slot s @ post) (length pre) slot slots =
    Ok (pre @ encode_slot (baseline_slot s) @ post, slots[slot := Some (slot_view views (length pre) s)],
      length pre + length (encode_slot s))"
proof (cases s)
  case (FCanonical header data trailer)
  let ?b = "baseline_slot s" and ?d' = "pre @ encode_slot (baseline_slot s) @ post"
  have h: "length header = 79" and t: "length trailer = 10240 + padding (length data) + 8" and n: "length data < 2 ^ 64"
    using valid small FCanonical by simp_all
  have len: "length (encode_slot s) = 10336 + length data + padding (length data)" using h t FCanonical by simp
  have "length (take 3 header @ le_enc 4 (length data) @ drop 7 header) = 79" using h by simp
  from rd_u64_data_len [OF this n] have r: "rd_u64 ?d' (length pre + 80) = Ok (length data)"
    using FCanonical by simp
  have "length pre + 10343 + length data \<le> length ?d'" using room len baseline_length [OF valid] by simp
  then have nr: "next_record ?d' (length pre) (length data) = Ok (length pre + length (encode_slot s))"
    unfolding len by (rule next_record_canonical [OF al])
  have m: "rd_byte (pre @ encode_slot s @ post) (length pre) = Ok non_dup_marker"
    using FCanonical by (simp add: rd_byte_def nth_append non_dup_marker_def)
  show ?thesis
    unfolding take_record_def m take_canonical_def
    using init_baseline_canonical [OF h n, of pre trailer post] r nr slot FCanonical
    by (simp add: slot_write_def)
next
  case (FDuplicate marker pad)
  then have v: "unat marker < slot" "marker \<noteq> 255" "length pad = 7" using valid by simp_all
  have "slots ! unat marker = take slot slots ! unat marker" using v(1) by simp
  then have "slots ! unat marker = Some (views ! unat marker)" using prev v(1) views by simp
  then show ?thesis
    using v slot FDuplicate
    by (simp add: take_record_def rd_byte_def nth_append non_dup_marker_def take_duplicate_def slot_read_def slot_write_def ptr_add_def)
qed

lemma materialize_loop_frame:
  "slots_valid slot ss \<Longrightarrow> 8 dvd length pre \<Longrightarrow> 8 \<le> length post \<Longrightarrow> length (encode_slots ss) < 2 ^ 64 \<Longrightarrow>
   take slot slots = List.map Some views \<Longrightarrow> length views = slot \<Longrightarrow> slot + k = min limit stop \<Longrightarrow> k \<le> length ss \<Longrightarrow>
   limit \<le> length slots \<Longrightarrow>
   materialize_loop limit stop slot (pre @ encode_slots ss @ post) slots (length pre) =
     Ok (slot + k, pre @ encode_slots (List.map baseline_slot (take k ss) @ drop k ss) @ post,
       List.map Some (slot_views views (length pre) (take k ss)) @ drop (slot + k) slots,
       length pre + length (encode_slots (take k ss)))"
proof (induction k arbitrary: slot ss pre slots views)
  case 0
  then have "slot = limit \<or> slot = stop" by (auto simp: min_def split: if_splits)
  moreover have "List.map Some views @ drop slot slots = slots" using 0(5) append_take_drop_id [of slot slots] by simp
  ultimately show ?case by (auto simp: materialize_loop.simps [of limit stop slot])
next
  case (Suc k)
  then obtain s ss' where ss: "ss = s # ss'" by (cases ss) auto
  let ?v = "slot_view views (length pre) s" and ?e = "encode_slot (baseline_slot s)"
  let ?slots = "slots[slot := Some ?v]"
  have lt: "slot < limit" "slot \<noteq> stop" "slot < length slots" using Suc.prems by auto
  have valid: "slot_valid slot s" and rest: "slots_valid (Suc slot) ss'" using Suc.prems(1) ss by simp_all
  have one: "take_record (pre @ encode_slot s @ (encode_slots ss' @ post)) (length pre) slot slots =
      Ok (pre @ ?e @ (encode_slots ss' @ post), ?slots, length pre + length (encode_slot s))"
    using Suc.prems ss valid lt by (intro take_record_frame) simp_all
  have pre': "length (pre @ ?e) = length pre + length (encode_slot s)" using baseline_length [OF valid] by simp
  have al: "8 dvd length (pre @ ?e)" unfolding pre' using Suc.prems(2) slot_aligned [OF valid] by (rule dvd_add)
  have "take (Suc slot) ?slots = List.map Some (views @ [?v])"
    using lt(3) Suc.prems(5,6) by (simp add: take_Suc_conv_app_nth)
  then have "materialize_loop limit stop (Suc slot) ((pre @ ?e) @ encode_slots ss' @ post) ?slots (length (pre @ ?e)) =
      Ok (Suc slot + k, (pre @ ?e) @ encode_slots (List.map baseline_slot (take k ss') @ drop k ss') @ post,
       List.map Some (slot_views (views @ [?v]) (length (pre @ ?e)) (take k ss')) @ drop (Suc slot + k) ?slots,
       length (pre @ ?e) + length (encode_slots (take k ss')))"
    using Suc.prems ss rest al by (intro Suc.IH) simp_all
  then show ?case
    unfolding pre' using one lt
    by (simp add: ss materialize_loop.simps [of limit stop slot] slot_views_Cons del: slot_views.simps)
qed

lemma skip_loop_step:
  assumes "slot < n"
    and "obind (rd_byte d cursor) (\<lambda>marker.
      if marker = non_dup_marker then obind (rd_u64 d (cursor + 80)) (\<lambda>data_len. next_record d cursor data_len)
      else ptr_add d cursor 8) = Ok cursor'"
  shows "skip_loop d n slot cursor = skip_loop d n (slot + 1) cursor'"
  unfolding skip_loop.simps [of d n slot cursor] if_P [OF assms(1)] obind_assoc [symmetric] assms(2) by simp

lemma skip_loop_frame:
  "slots_valid slot ss \<Longrightarrow> 8 dvd length pre \<Longrightarrow> 8 \<le> length post \<Longrightarrow> length (encode_slots ss) < 2 ^ 64 \<Longrightarrow>
   skip_loop (pre @ encode_slots ss @ post) (slot + length ss) slot (length pre) = Ok (length pre + length (encode_slots ss))"
proof (induction ss arbitrary: slot pre)
  case Nil
  then show ?case by (simp add: skip_loop.simps)
next
  case (Cons s ss)
  let ?d = "pre @ encode_slots (s # ss) @ post"
  have valid: "slot_valid slot s" and rest: "slots_valid (Suc slot) ss" using Cons.prems(1) by simp_all
  have al: "8 dvd length (pre @ encode_slot s)" using Cons.prems(2) slot_aligned [OF valid] by simp
  have "skip_loop ((pre @ encode_slot s) @ encode_slots ss @ post) (Suc slot + length ss) (Suc slot) (length (pre @ encode_slot s)) =
      Ok (length (pre @ encode_slot s) + length (encode_slots ss))"
    using Cons.prems rest al by (intro Cons.IH) simp_all
  moreover have "obind (rd_byte ?d (length pre)) (\<lambda>marker.
      if marker = non_dup_marker then obind (rd_u64 ?d (length pre + 80)) (\<lambda>data_len. next_record ?d (length pre) data_len)
      else ptr_add ?d (length pre) 8) = Ok (length pre + length (encode_slot s))"
  proof (cases s)
    case (FCanonical header data trailer)
    have h: "length header = 79" "length trailer = 10240 + padding (length data) + 8" and n: "length data < 2 ^ 64"
      using valid Cons.prems(4) FCanonical by simp_all
    have "rd_u64 ?d (length pre + 80) = Ok (length data)"
      using rd_u64_data_len [OF h(1) n, of pre trailer "encode_slots ss @ post"] FCanonical by simp
    moreover have "length pre + 10343 + length data \<le> length ?d" using Cons.prems(3) h FCanonical by simp
    then have "next_record ?d (length pre) (length data) = Ok (length pre + (10336 + length data + padding (length data)))"
      by (rule next_record_canonical [OF Cons.prems(2)])
    ultimately show ?thesis using h FCanonical by (simp add: rd_byte_def nth_append non_dup_marker_def)
  next
    case (FDuplicate marker pad)
    then show ?thesis using valid by (simp add: rd_byte_def nth_append non_dup_marker_def ptr_add_def)
  qed
  ultimately show ?case using skip_loop_step [of slot "slot + length (s # ss)" ?d "length pre"] by simp
qed

lemma scan_loop_step:
  assumes "slot < n"
    and "obind (rd_byte d scan) (\<lambda>marker.
      if marker = 255 then
        obind (rd_u64 d (scan + 80)) (\<lambda>data_len.
        let step = runtime_account_size + data_len + max_permitted_data_increase in
        obind (ptr_add d scan step) (\<lambda>p. ptr_add d scan (step + align_offset p + 8)))
      else if unat marker \<ge> slot then Trap
      else ptr_add d scan 8) = Ok scan'"
  shows "scan_loop d n slot scan = scan_loop d n (slot + 1) scan'"
  unfolding scan_loop.simps [of d n slot scan] if_P [OF assms(1)] obind_assoc [symmetric] assms(2) by simp

lemma scan_loop_frame:
  "slots_valid slot ss \<Longrightarrow> 8 dvd length pre \<Longrightarrow> length (encode_slots ss) < 2 ^ 64 \<Longrightarrow>
   scan_loop (pre @ encode_slots ss @ post) (slot + length ss) slot (length pre) = Ok (length pre + length (encode_slots ss))"
proof (induction ss arbitrary: slot pre)
  case Nil
  then show ?case by (simp add: scan_loop.simps)
next
  case (Cons s ss)
  let ?d = "pre @ encode_slots (s # ss) @ post"
  have valid: "slot_valid slot s" and rest: "slots_valid (Suc slot) ss" using Cons.prems(1) by simp_all
  have al: "8 dvd length (pre @ encode_slot s)" using Cons.prems(2) slot_aligned [OF valid] by simp
  have "scan_loop ((pre @ encode_slot s) @ encode_slots ss @ post) (Suc slot + length ss) (Suc slot) (length (pre @ encode_slot s)) =
      Ok (length (pre @ encode_slot s) + length (encode_slots ss))"
    using Cons.prems rest al by (intro Cons.IH) simp_all
  moreover have "obind (rd_byte ?d (length pre)) (\<lambda>marker.
      if marker = 255 then
        obind (rd_u64 ?d (length pre + 80)) (\<lambda>data_len.
        let step = runtime_account_size + data_len + max_permitted_data_increase in
        obind (ptr_add ?d (length pre) step) (\<lambda>p. ptr_add ?d (length pre) (step + align_offset p + 8)))
      else if unat marker \<ge> slot then Trap
      else ptr_add ?d (length pre) 8) = Ok (length pre + length (encode_slot s))"
  proof (cases s)
    case (FCanonical header data trailer)
    have h: "length header = 79" "length trailer = 10240 + padding (length data) + 8" and n: "length data < 2 ^ 64"
      using valid Cons.prems(3) FCanonical by simp_all
    have r: "rd_u64 ?d (length pre + 80) = Ok (length data)"
      using rd_u64_data_len [OF h(1) n, of pre trailer "encode_slots ss @ post"] FCanonical by simp
    have "align_offset (length pre + (88 + length data + 10240)) = padding (length pre + 88 + 10240 + length data)"
      by (simp add: align_offset_def padding_def bpf_align_def ac_simps)
    also have "\<dots> = padding (length data)" using Cons.prems(2) by (intro padding_add) simp
    finally show ?thesis
      using r h FCanonical
      by (simp add: rd_byte_def nth_append ptr_add_def runtime_account_size_def max_permitted_data_increase_def Let_def)
  next
    case (FDuplicate marker pad)
    then show ?thesis using valid by (simp add: rd_byte_def nth_append ptr_add_def)
  qed
  ultimately show ?case using scan_loop_step [of slot "slot + length (s # ss)" ?d "length pre"] by simp
qed

section \<open>The entrypoints on a frame\<close>

lemma rd_field: "a = length pre \<Longrightarrow> n = length x \<Longrightarrow> rd (pre @ x @ post) a n = Ok x"
  using bslice_middle [of pre x post] by (simp add: rd_def)

lemma rd_u64_field: "a = length pre \<Longrightarrow> n < 2 ^ 64 \<Longrightarrow> rd_u64 (pre @ le_enc 8 n @ post) a = Ok n"
  by (simp only: rd_u64_def rd_field length_le_enc obind.simps le_val_enc_8)

text \<open>The slots a walk of at most \<open>bound\<close> views hands out, and the frame it leaves.\<close>

definition walked :: "nat \<Rightarrow> frame_slot list \<Rightarrow> frame_slot list" where
  "walked k ss = List.map baseline_slot (take k ss) @ drop k ss"

definition walked_views :: "nat \<Rightarrow> nat \<Rightarrow> frame_slot list \<Rightarrow> slots" where
  "walked_views max_slots k ss = List.map Some (slot_views [] 8 (take k ss)) @ replicate (max_slots - k) None"

lemma slots_valid_append: "slots_valid i (xs @ ys) \<longleftrightarrow> slots_valid i xs \<and> slots_valid (i + length xs) ys"
  by (induction xs arbitrary: i) auto

lemma baseline_slots_valid: "slots_valid i ss \<Longrightarrow> slots_valid i (List.map baseline_slot ss)"
  by (induction ss arbitrary: i) (auto simp: baseline_valid)

lemma baseline_slots_length: "slots_valid i ss \<Longrightarrow> length (encode_slots (List.map baseline_slot ss)) = length (encode_slots ss)"
  by (induction ss arbitrary: i) (auto simp: baseline_length)

lemma slots_length_aligned: "slots_valid i ss \<Longrightarrow> 8 dvd length (encode_slots ss)"
  by (induction ss arbitrary: i) (auto simp: slot_aligned)

lemma length_walked [simp]: "length (walked k ss) = length ss"
  by (simp add: walked_def)

lemma walked_size: "slots_valid 0 ss \<Longrightarrow> length (encode_slots (walked k ss)) = length (encode_slots ss)"
proof -
  assume "slots_valid 0 ss"
  then have v: "slots_valid 0 (take k ss)" using slots_valid_append [of 0 "take k ss" "drop k ss"] by simp
  have "length (encode_slots (walked k ss)) = length (encode_slots (take k ss @ drop k ss))"
    using baseline_slots_length [OF v] by (simp only: walked_def encode_slots_simps length_append)
  then show ?thesis by (simp only: append_take_drop_id)
qed

lemma frame_split: "encode_frame ss ix pid @ rest = le_enc 8 (length ss) @ encode_slots ss @ (le_enc 8 (length ix) @ ix @ pid @ rest)"
  by (simp add: encode_frame_def)

lemma frame_length: "length (encode_frame ss ix pid) = 16 + length (encode_slots ss) + length ix + length pid"
  by (simp add: encode_frame_def)

lemma slot_count_small: "slots_valid i ss \<Longrightarrow> length ss \<le> length (encode_slots ss)"
proof (induction ss arbitrary: i)
  case (Cons s ss)
  then show ?case using slot_size [of i s] Cons.IH [of "Suc i"] by simp
qed simp

lemma frame_count:
  assumes "slots_valid 0 ss" and "length (encode_frame ss ix pid) < 2 ^ 64"
  shows "rd_u64 (encode_frame ss ix pid @ rest) 0 = Ok (length ss)" "ptr_add (encode_frame ss ix pid @ rest) 0 8 = Ok 8"
    "length (encode_slots ss) < 2 ^ 64" "length ix < 2 ^ 64"
proof -
  show s: "length (encode_slots ss) < 2 ^ 64" and "length ix < 2 ^ 64" using assms(2) frame_length [of ss ix pid] by linarith+
  have "length ss < 2 ^ 64" using slot_count_small [OF assms(1)] s by linarith
  then show "rd_u64 (encode_frame ss ix pid @ rest) 0 = Ok (length ss)"
    using rd_u64_field [of 0 "[]" "length ss"] by (simp add: encode_frame_def)
  show "ptr_add (encode_frame ss ix pid @ rest) 0 8 = Ok 8" by (simp add: ptr_add_def frame_length)
qed

lemma materialize_frame:
  assumes valid: "slots_valid 0 ss" and small: "length (encode_frame ss ix pid) < 2 ^ 64"
    and k: "k = min (min max_slots 254) stop" "stop \<le> length ss"
  shows "materialize max_slots (encode_frame ss ix pid @ rest) 8 stop (replicate max_slots None) =
    Ok (k, encode_frame (walked k ss) ix pid @ rest, walked_views max_slots k ss, 8 + length (encode_slots (take k ss)))"
proof -
  have c: "min max_slots materialize_clamp = min max_slots 254" by (simp add: materialize_clamp_def)
  have "materialize_loop (min max_slots 254) stop 0 (le_enc 8 (length ss) @ encode_slots ss @ (le_enc 8 (length ix) @ ix @ pid @ rest))
      (replicate max_slots None) (length (le_enc 8 (length ss))) =
    Ok (0 + k, le_enc 8 (length ss) @ encode_slots (List.map baseline_slot (take k ss) @ drop k ss) @ (le_enc 8 (length ix) @ ix @ pid @ rest),
      List.map Some (slot_views [] (length (le_enc 8 (length ss))) (take k ss)) @ drop (0 + k) (replicate max_slots None),
      length (le_enc 8 (length ss)) + length (encode_slots (take k ss)))"
    using valid frame_count(3) [OF valid small] k by (intro materialize_loop_frame) simp_all
  then show ?thesis unfolding materialize_is_loop c frame_split length_walked by (simp add: walked_def walked_views_def)
qed

lemma frame_tail:
  assumes "length pid = 32" and "length ix < 2 ^ 64"
  shows "rd_u64 (encode_frame ss ix pid @ rest) (8 + length (encode_slots ss)) = Ok (length ix)"
    "ptr_add (encode_frame ss ix pid @ rest) (8 + length (encode_slots ss)) 8 = Ok (8 + length (encode_slots ss) + 8)"
    "rd (encode_frame ss ix pid @ rest) (8 + length (encode_slots ss) + 8) (length ix) = Ok ix"
    "ptr_add (encode_frame ss ix pid @ rest) (8 + length (encode_slots ss) + 8) (length ix) = Ok (8 + length (encode_slots ss) + 8 + length ix)"
    "rd (encode_frame ss ix pid @ rest) (8 + length (encode_slots ss) + 8 + length ix) 32 = Ok pid"
proof -
  let ?h = "le_enc 8 (length ss) @ encode_slots ss"
  have d: "encode_frame ss ix pid @ rest = ?h @ le_enc 8 (length ix) @ (ix @ pid @ rest)"
    "encode_frame ss ix pid @ rest = (?h @ le_enc 8 (length ix)) @ ix @ (pid @ rest)"
    "encode_frame ss ix pid @ rest = (?h @ le_enc 8 (length ix) @ ix) @ pid @ rest"
    by (simp_all add: encode_frame_def)
  show "rd_u64 (encode_frame ss ix pid @ rest) (8 + length (encode_slots ss)) = Ok (length ix)"
    unfolding d(1) using assms(2) by (intro rd_u64_field) simp_all
  show "rd (encode_frame ss ix pid @ rest) (8 + length (encode_slots ss) + 8) (length ix) = Ok ix"
    unfolding d(2) by (intro rd_field) simp_all
  show "rd (encode_frame ss ix pid @ rest) (8 + length (encode_slots ss) + 8 + length ix) 32 = Ok pid"
    unfolding d(3) using assms(1) by (intro rd_field) simp_all
  show "ptr_add (encode_frame ss ix pid @ rest) (8 + length (encode_slots ss)) 8 = Ok (8 + length (encode_slots ss) + 8)"
    "ptr_add (encode_frame ss ix pid @ rest) (8 + length (encode_slots ss) + 8) (length ix) = Ok (8 + length (encode_slots ss) + 8 + length ix)"
    by (simp_all add: ptr_add_def frame_length)
qed

text \<open>What \<open>deserialize_accounts\<close> finds in a frame.\<close>

definition frame_input :: "nat \<Rightarrow> frame_slot list \<Rightarrow> bytes \<Rightarrow> bytes \<Rightarrow> bytes \<Rightarrow> parsed_input" where
  "frame_input max_slots ss ix pid rest =
     (let k = min (min max_slots 254) (length ss) in
      \<lparr>in_program_id = pid, in_count = k, in_data = ix, in_slots = walked_views max_slots k ss,
       in_buffer = encode_frame (walked k ss) ix pid @ rest\<rparr>)"

lemma deserialize_frame:
  assumes valid: "slots_valid 0 ss" and pid: "length pid = 32" and small: "length (encode_frame ss ix pid) < 2 ^ 64"
  shows "deserialize_accounts max_slots (encode_frame ss ix pid @ rest) = Ok (frame_input max_slots ss ix pid rest)"
proof -
  let ?k = "min (min max_slots 254) (length ss)"
  let ?post = "le_enc 8 (length ix) @ ix @ pid @ rest"
  let ?pre = "le_enc 8 (length ss) @ encode_slots (List.map baseline_slot (take ?k ss))"
  note size = walked_size [OF valid, of ?k]
  note tail = frame_tail [OF pid frame_count(4) [OF valid small], of "walked ?k ss" rest, unfolded size]
  have d': "encode_frame (walked ?k ss) ix pid @ rest = ?pre @ encode_slots (drop ?k ss) @ ?post"
    by (simp add: encode_frame_def walked_def)
  have v: "slots_valid 0 (take ?k ss)" "slots_valid ?k (drop ?k ss)"
    using valid slots_valid_append [of 0 "take ?k ss" "drop ?k ss"] by simp_all
  have sum: "length (encode_slots (take ?k ss)) + length (encode_slots (drop ?k ss)) = length (encode_slots ss)"
    using encode_slots_simps(3) [of "take ?k ss" "drop ?k ss"] by (metis append_take_drop_id length_append)
  have pre: "length ?pre = 8 + length (encode_slots (take ?k ss))" using baseline_slots_length [OF v(1)] by simp
  have "8 dvd length ?pre" unfolding pre using slots_length_aligned [OF v(1)] by simp
  moreover have "length (encode_slots (drop ?k ss)) < 2 ^ 64" using frame_count(3) [OF valid small] sum by linarith
  ultimately have "skip_loop (?pre @ encode_slots (drop ?k ss) @ ?post) (?k + length (drop ?k ss)) ?k (length ?pre) =
      Ok (length ?pre + length (encode_slots (drop ?k ss)))"
    using v(2) by (intro skip_loop_frame) simp_all
  moreover have "?k + length (drop ?k ss) = length ss" by simp
  moreover have "length ?pre + length (encode_slots (drop ?k ss)) = 8 + length (encode_slots ss)" using pre sum by linarith
  ultimately have skip: "skip_loop (encode_frame (walked ?k ss) ix pid @ rest) (length ss) ?k (8 + length (encode_slots (take ?k ss))) =
      Ok (8 + length (encode_slots ss))"
    unfolding d' pre by (simp only:)
  have m: "materialize max_slots (encode_frame ss ix pid @ rest) 8 (length ss) (replicate max_slots None) =
      Ok (?k, encode_frame (walked ?k ss) ix pid @ rest, walked_views max_slots ?k ss, 8 + length (encode_slots (take ?k ss)))"
    by (rule materialize_frame [OF valid small]) simp_all
  show ?thesis
    unfolding deserialize_accounts_def frame_count [OF valid small] obind.simps m prod.case skip tail frame_input_def Let_def ..
qed

lemma scan_frame:
  assumes valid: "slots_valid 0 ss" and pid: "length pid = 32" and small: "length (encode_frame ss ix pid) < 2 ^ 64"
  shows "scan_instruction_frame (encode_frame ss ix pid @ rest) =
    Ok \<lparr>rf_accounts_start = 8, rf_account_count = min (length ss) 254, rf_instruction_data = ix, rf_program_id = pid\<rparr>"
proof -
  have "scan_loop (le_enc 8 (length ss) @ encode_slots ss @ (le_enc 8 (length ix) @ ix @ pid @ rest)) (0 + length ss) 0
      (length (le_enc 8 (length ss))) = Ok (length (le_enc 8 (length ss)) + length (encode_slots ss))"
    using valid frame_count(3) [OF valid small] by (intro scan_loop_frame) simp_all
  then have scan: "scan_loop (encode_frame ss ix pid @ rest) (length ss) 0 8 = Ok (8 + length (encode_slots ss))"
    unfolding frame_split by simp
  show ?thesis
    unfolding scan_instruction_frame_def frame_count [OF valid small] obind.simps scan
      frame_tail [OF pid frame_count(4) [OF valid small], of ss rest] ..
qed

section \<open>The accounts handed out\<close>

text \<open>The header of raw_account.rs at an offset of the buffer, with the data and realloc reserve behind it.\<close>

definition account_at :: "bytes \<Rightarrow> nat \<Rightarrow> runtime_account" where
  "account_at d off =
     \<lparr>borrow_state = d ! off, ra_is_signer = d ! (off + 1), ra_is_writable = d ! (off + 2), ra_executable = d ! (off + 3),
      ra_resize_delta = word_of_nat (le_val (bslice (off + 4) 4 d)), ra_address = bslice (off + 8) 32 d,
      ra_owner = bslice (off + 40) 32 d, ra_lamports = word_of_nat (le_val (bslice (off + 72) 8 d)),
      ra_data_len = word_of_nat (le_val (bslice (off + 80) 8 d)),
      ra_mem = bslice (off + 88) (le_val (bslice (off + 80) 8 d) + max_permitted_data_increase) d\<rparr>"

fun slot_account :: "frame_slot \<Rightarrow> runtime_account" where
  "slot_account (FCanonical header data trailer) =
     \<lparr>borrow_state = not_borrowed, ra_is_signer = header ! 0, ra_is_writable = header ! 1, ra_executable = header ! 2,
      ra_resize_delta = word_of_nat (length data), ra_address = bslice 7 32 header,
      ra_owner = bslice 39 32 header, ra_lamports = word_of_nat (le_val (bslice 71 8 header)),
      ra_data_len = word_of_nat (length data), ra_mem = data @ take max_permitted_data_increase trailer\<rparr>"

lemma bslice_inside: "a + m \<le> length x \<Longrightarrow> bslice (length pre + a) m (pre @ x @ post) = bslice a m x"
  by (simp add: bslice_def)

lemma nth_middle: "i < length x \<Longrightarrow> (pre @ x @ post) ! (length pre + i) = x ! i"
  by (simp add: nth_append)

lemma word_le_enc_4: "(word_of_nat (le_val (le_enc 4 n)) :: u32) = word_of_nat n"
  by (rule word_unat_eq_iff [THEN iffD2]) (simp only: unat_of_nat le_val_enc, simp)

lemma account_at_slot:
  assumes "length header = 79" and "length data < 2 ^ 64" and "length trailer = 10240 + padding (length data) + 8"
  shows "account_at (pre @ encode_slot (baseline_slot (FCanonical header data trailer)) @ post) (length pre) =
    slot_account (FCanonical header data trailer)"
proof -
  let ?h = "take 3 header @ le_enc 4 (length data) @ drop 7 header"
  let ?x = "255 # ?h @ le_enc 8 (length data) @ data @ trailer"
  let ?d = "pre @ ?x @ post"
  have l: "length ?x = 88 + length data + 10240 + padding (length data) + 8" using assms by simp
  have byte: "?d ! length pre = not_borrowed" "?d ! (length pre + 1) = header ! 0" "?d ! (length pre + 2) = header ! 1"
      "?d ! (length pre + 3) = header ! 2"
    using assms(1) nth_middle [of 0 ?x pre post] nth_middle [of 1 ?x pre post] nth_middle [of 2 ?x pre post] nth_middle [of 3 ?x pre post]
    by (simp_all add: nth_Cons' nth_append not_borrowed_def)
  have word: "bslice (length pre + 4) 4 ?d = le_enc 4 (length data)"
    using bslice_mid [of "length pre + 4" "pre @ 255 # take 3 header" 4 "le_enc 4 (length data)"
      "drop 7 header @ le_enc 8 (length data) @ data @ trailer @ post"] assms(1) by simp
  have field: "bslice (length pre + (8 + a)) m ?d = bslice (7 + a) m header" if "a + m \<le> 72" for a m
  proof -
    have "bslice (length (pre @ 255 # take 3 header @ le_enc 4 (length data)) + a) m
        ((pre @ 255 # take 3 header @ le_enc 4 (length data)) @ drop 7 header @ (le_enc 8 (length data) @ data @ trailer @ post)) =
        bslice a m (drop 7 header)" using that assms(1) by (intro bslice_inside) simp
    moreover have "bslice a m (drop 7 header) = bslice (7 + a) m header" by (simp add: bslice_def add.commute)
    moreover have "length (pre @ 255 # take 3 header @ le_enc 4 (length data)) + a = length pre + (8 + a)" using assms(1) by simp
    ultimately show ?thesis by (simp add: add.assoc)
  qed
  have len: "bslice (length pre + 80) 8 ?d = le_enc 8 (length data)"
    using data_len_field [of ?h pre data trailer post] assms(1) by simp
  have mem: "bslice (length pre + 88) (length data + max_permitted_data_increase) ?d = data @ take max_permitted_data_increase trailer"
  proof -
    have at: "bslice (length (pre @ 255 # ?h @ le_enc 8 (length data)) + 0) (length data + max_permitted_data_increase)
        ((pre @ 255 # ?h @ le_enc 8 (length data)) @ (data @ trailer) @ post) =
        bslice 0 (length data + max_permitted_data_increase) (data @ trailer)"
      using assms(3) by (intro bslice_inside) (simp add: max_permitted_data_increase_def)
    have off: "length (pre @ 255 # ?h @ le_enc 8 (length data)) + 0 = length pre + 88"
      and d: "(pre @ 255 # ?h @ le_enc 8 (length data)) @ (data @ trailer) @ post = ?d" using assms(1) by simp_all
    have field: "bslice 0 (length data + max_permitted_data_increase) (data @ trailer) = data @ take max_permitted_data_increase trailer"
      by (simp add: bslice_def)
    show ?thesis using at unfolding off d field .
  qed
  show ?thesis
    using byte word field [of 0 32] field [of 32 32] field [of 64 8] len mem
    by (simp add: account_at_def word_le_enc_4 le_val_enc_8 [OF assms(2)])
qed

lemma slot_account_ok:
  assumes "length data < 2 ^ 64" and "length trailer = 10240 + padding (length data) + 8"
  shows "mem_ok (slot_account (FCanonical header data trailer)) \<and>
    borrow_state (slot_account (FCanonical header data trailer)) = not_borrowed \<and>
    account_data (slot_account (FCanonical header data trailer)) = data"
proof -
  have "unat (word_of_nat (length data) :: u64) = length data" using assms(1) by (simp add: unat_of_nat)
  moreover have "unat (word_of_nat (length data) :: u32) \<le> length data" by (simp add: unat_of_nat)
  ultimately show ?thesis
    using assms(2) by (simp add: mem_ok_def account_data_def av_data_len_def av_original_data_len_def max_permitted_data_increase_def)
qed

text \<open>The canonical slot each slot names, through any chain of duplicates.\<close>

fun origins :: "nat list \<Rightarrow> frame_slot list \<Rightarrow> nat list" where
  "origins prev [] = prev"
| "origins prev (s # ss) =
     origins (prev @ [case s of FCanonical _ _ _ \<Rightarrow> length prev | FDuplicate marker _ \<Rightarrow> prev ! unat marker]) ss"

fun is_canonical :: "frame_slot \<Rightarrow> bool" where
  "is_canonical (FCanonical _ _ _) = True"
| "is_canonical (FDuplicate _ _) = False"

lemma length_origins [simp]: "length (origins prev ss) = length prev + length ss"
  by (induction ss arbitrary: prev) auto

lemma origins_name_canonical:
  "slots_valid (length dn) todo \<Longrightarrow> length prev = length dn \<Longrightarrow>
   \<forall>i < length prev. prev ! i \<le> i \<and> is_canonical (dn ! (prev ! i)) \<Longrightarrow>
   \<forall>i < length dn + length todo. origins prev todo ! i \<le> i \<and> is_canonical ((dn @ todo) ! (origins prev todo ! i))"
proof (induction todo arbitrary: dn prev)
  case (Cons s todo)
  let ?o = "case s of FCanonical _ _ _ \<Rightarrow> length prev | FDuplicate marker _ \<Rightarrow> prev ! unat marker"
  have o: "?o \<le> length prev \<and> is_canonical ((dn @ [s]) ! ?o)"
  proof (cases s)
    case (FDuplicate marker pad)
    then have "unat marker < length prev" using Cons.prems by simp
    then show ?thesis using Cons.prems(2,3) FDuplicate by (simp add: nth_append) (meson le_trans less_imp_le order.strict_trans1)
  qed (use Cons.prems(2) in simp)
  have "\<forall>i < length (prev @ [?o]). (prev @ [?o]) ! i \<le> i \<and> is_canonical ((dn @ [s]) ! ((prev @ [?o]) ! i))"
  proof (intro allI impI)
    fix i assume i: "i < length (prev @ [?o])"
    show "(prev @ [?o]) ! i \<le> i \<and> is_canonical ((dn @ [s]) ! ((prev @ [?o]) ! i))"
    proof (cases "i < length prev")
      case True
      then have "prev ! i \<le> i" "is_canonical (dn ! (prev ! i))" using Cons.prems(3) by simp_all
      moreover have "prev ! i < length dn" using True calculation(1) Cons.prems(2) by simp
      ultimately show ?thesis using True by (simp add: nth_append)
    next
      case False
      then have "i = length prev" using i by simp
      then show ?thesis using o by simp
    qed
  qed
  from Cons.IH [OF _ _ this] Cons.prems(1,2) show ?case by simp
qed simp

lemma slot_views_origins:
  "slots_valid (length prev) todo \<Longrightarrow> length prev = length dn \<Longrightarrow> ss = dn @ todo \<Longrightarrow>
   \<forall>i < length prev. prev ! i \<le> i \<Longrightarrow>
   slot_views (List.map (\<lambda>j. 8 + length (encode_slots (take j ss))) prev) (8 + length (encode_slots dn)) todo =
     List.map (\<lambda>j. 8 + length (encode_slots (take j ss))) (origins prev todo)"
proof (induction todo arbitrary: dn prev)
  case (Cons s todo)
  let ?f = "\<lambda>j. 8 + length (encode_slots (take j ss))"
  let ?o = "case s of FCanonical _ _ _ \<Rightarrow> length prev | FDuplicate marker _ \<Rightarrow> prev ! unat marker"
  have o: "?o \<le> length prev"
  proof (cases s)
    case (FDuplicate marker pad)
    then have "unat marker < length prev" using Cons.prems(1) by simp
    then show ?thesis using Cons.prems(4) FDuplicate by (auto dest!: spec [of _ "unat marker"])
  qed simp
  have view: "(case s of FCanonical _ _ _ \<Rightarrow> 8 + length (encode_slots dn) | FDuplicate marker _ \<Rightarrow> List.map ?f prev ! unat marker) = ?f ?o"
    using Cons.prems by (cases s) auto
  have "\<forall>i < length (prev @ [?o]). (prev @ [?o]) ! i \<le> i"
    using Cons.prems(4) o by (auto simp: nth_append less_Suc_eq)
  moreover have "ss = (dn @ [s]) @ todo" "length (prev @ [?o]) = length (dn @ [s])" "slots_valid (length (prev @ [?o])) todo"
    using Cons.prems(1-3) by simp_all
  ultimately have IH: "slot_views (List.map ?f (prev @ [?o])) (8 + length (encode_slots (dn @ [s]))) todo = List.map ?f (origins (prev @ [?o]) todo)"
    by (intro Cons.IH)
  have pos: "8 + length (encode_slots (dn @ [s])) = 8 + length (encode_slots dn) + length (encode_slot s)" by simp
  show ?case unfolding slot_views.simps origins.simps view using IH unfolding pos map_append list.map .
qed simp

lemma encode_slots_split: "j < length ss \<Longrightarrow>
    encode_slots ss = encode_slots (take j ss) @ encode_slot (ss ! j) @ encode_slots (drop (Suc j) ss)"
  by (metis encode_slots_simps(2,3) id_take_nth_drop)

lemma walked_before: "slots_valid 0 ss \<Longrightarrow> j \<le> k \<Longrightarrow> length (encode_slots (take j (walked k ss))) = length (encode_slots (take j ss))"
proof -
  assume valid: "slots_valid 0 ss" and j: "j \<le> k"
  have v: "slots_valid 0 (take j ss)" using valid slots_valid_append [of 0 "take j ss" "drop j ss"] by simp
  have "take j (walked k ss) = List.map baseline_slot (take j ss)" if "k \<le> length ss"
    using that j by (simp add: walked_def take_map min_def)
  moreover have "take j (walked k ss) = List.map baseline_slot (take j ss)" if "\<not> k \<le> length ss"
    using that by (simp add: walked_def take_map)
  ultimately have "take j (walked k ss) = List.map baseline_slot (take j ss)" by blast
  then show ?thesis using baseline_slots_length [OF v] by simp
qed

lemma walked_account:
  assumes valid: "slots_valid 0 ss" and small: "length (encode_slots ss) < 2 ^ 64"
    and j: "j < k" "j < length ss" and can: "is_canonical (ss ! j)"
  shows "account_at (encode_frame (walked k ss) ix pid @ rest) (8 + length (encode_slots (take j ss))) = slot_account (ss ! j)"
    "mem_ok (slot_account (ss ! j))" "borrow_state (slot_account (ss ! j)) = not_borrowed"
proof -
  obtain header data trailer where s: "ss ! j = FCanonical header data trailer" using can by (cases "ss ! j") auto
  have "slots_valid j (drop j ss)" using valid slots_valid_append [of 0 "take j ss" "drop j ss"] j(2) by simp
  then have v: "length header = 79" "length trailer = 10240 + padding (length data) + 8"
    using s j(2) by (simp_all add: Cons_nth_drop_Suc [symmetric])
  have "length (encode_slot (ss ! j)) \<le> length (encode_slots ss)" using encode_slots_split [OF j(2)] by simp
  then have n: "length data < 2 ^ 64" using s small by simp
  let ?w = "walked k ss"
  let ?pre = "le_enc 8 (length ?w) @ encode_slots (take j ?w)" and ?post = "encode_slots (drop (Suc j) ?w) @ le_enc 8 (length ix) @ ix @ pid @ rest"
  have wj: "?w ! j = baseline_slot (FCanonical header data trailer)" using j s by (simp add: walked_def nth_append)
  have frame: "encode_frame ?w ix pid @ rest = ?pre @ encode_slot (baseline_slot (FCanonical header data trailer)) @ ?post"
    using encode_slots_split [of j ?w] j(2) unfolding wj by (simp add: encode_frame_def)
  have pre: "length ?pre = 8 + length (encode_slots (take j ss))" using walked_before [OF valid, of j k] j(1) by simp
  show "account_at (encode_frame ?w ix pid @ rest) (8 + length (encode_slots (take j ss))) = slot_account (ss ! j)"
    unfolding frame s pre [symmetric] by (rule account_at_slot [OF v(1) n v(2)])
  show "mem_ok (slot_account (ss ! j))" "borrow_state (slot_account (ss ! j)) = not_borrowed"
    using slot_account_ok [OF n v(2), of header] s by simp_all
qed

lemma origins_prefix: "\<exists>suf. origins prev ss = prev @ suf"
proof (induction ss arbitrary: prev)
  case (Cons s ss)
  let ?o = "case s of FCanonical _ _ _ \<Rightarrow> length prev | FDuplicate marker _ \<Rightarrow> prev ! unat marker"
  obtain suf where "origins (prev @ [?o]) ss = (prev @ [?o]) @ suf" using Cons.IH by blast
  then show ?case by simp
qed simp

lemma origins_take: "slots_valid (length prev) ss \<Longrightarrow> k \<le> length ss \<Longrightarrow>
    origins prev (take k ss) = take (length prev + k) (origins prev ss)"
proof (induction k arbitrary: prev ss)
  case 0
  then show ?case
  proof -
    obtain suf where "origins prev ss = prev @ suf" using origins_prefix by blast
    then show ?thesis by simp
  qed
next
  case (Suc k)
  then obtain s ss' where "ss = s # ss'" by (cases ss) auto
  then show ?case using Suc by simp
qed

lemma slots_valid_take: "slots_valid 0 ss \<Longrightarrow> slots_valid 0 (take k ss)"
  using slots_valid_append [of 0 "take k ss" "drop k ss"] by simp

text \<open>The account that the views handed out decode to.\<close>

lemma view_of_slot:
  assumes "slots_valid 0 ss" and "i < k" and "k \<le> length ss" and "k \<le> max_slots"
  shows "walked_views max_slots k ss ! i = Some (8 + length (encode_slots (take (origins [] ss ! i) ss))) \<and>
    origins [] ss ! i \<le> i \<and> is_canonical (ss ! (origins [] ss ! i))"
proof -
  have eq: "slot_views [] 8 (take k ss) = List.map (\<lambda>j. 8 + length (encode_slots (take j (take k ss)))) (origins [] (take k ss))"
    using slot_views_origins [of "[]" "take k ss" "[]"] slots_valid_take [OF assms(1)] by simp
  have o: "origins [] (take k ss) ! i = origins [] ss ! i" using origins_take [of "[]" ss k] assms by simp
  have "\<forall>i < 0 + length ss. origins [] ss ! i \<le> i \<and> is_canonical (ss ! (origins [] ss ! i))"
    using origins_name_canonical [of "[]" ss "[]"] assms(1) by simp
  then have le: "origins [] ss ! i \<le> i" "is_canonical (ss ! (origins [] ss ! i))" using assms by simp_all
  then have "take (origins [] ss ! i) (take k ss) = take (origins [] ss ! i) ss" using assms(2) by (simp add: min_def)
  then show ?thesis using le o eq assms by (simp add: walked_views_def nth_append)
qed

text \<open>A two-slot frame: an account with three bytes of data, and a duplicate of it.\<close>

definition sample_slots :: "frame_slot list" where
  "sample_slots = [FCanonical (replicate 79 7) [1, 2, 3] (replicate 10253 0), FDuplicate 0 (replicate 7 0)]"

lemma sample_slots_valid: "slots_valid 0 sample_slots"
  by (simp add: sample_slots_def padding_def)

lemma sample_frame_small: "length (encode_frame sample_slots [9] (replicate 32 4)) < 2 ^ 64"
  by (simp add: frame_length sample_slots_def)

section \<open>Properties\<close>

text \<open>
  The unchecked parsers agree with the loader's format. On every frame (of any number of
  slots, followed by anything) \<open>deserialize_accounts\<close> and the lazy scan never leave the buffer or
  abort, and return the frame's own instruction data and program id and the number of accounts
  the caller has room for; the four unrolled slots are the plain loop.
\<close>

theorem unchecked_parsers_read_frames:
  assumes "slots_valid 0 ss" and "length pid = 32" and "length (encode_frame ss ix pid) < 2 ^ 64"
  shows "deserialize_accounts max_slots (encode_frame ss ix pid @ rest) = Ok (frame_input max_slots ss ix pid rest) \<and>
    scan_instruction_frame (encode_frame ss ix pid @ rest) =
      Ok \<lparr>rf_accounts_start = 8, rf_account_count = min (length ss) 254, rf_instruction_data = ix, rf_program_id = pid\<rparr> \<and>
    loader_account_count (encode_frame ss ix pid @ rest) = Ok (length ss) \<and>
    deserialize_leading_accounts max_slots (encode_frame ss ix pid @ rest) limit =
      (let k = min (min max_slots 254) (min limit (length ss)) in
       Ok (k, walked_views max_slots k ss, encode_frame (walked k ss) ix pid @ rest)) \<and>
    deserialize_accounts_fast max_slots (encode_frame ss ix pid @ rest) ix pid = Ok (frame_input max_slots ss ix pid rest)"
proof -
  let ?d = "encode_frame ss ix pid @ rest"
  note count = frame_count [OF assms(1,3)]
  have stop: "(if limit < length ss then limit else length ss) = min limit (length ss)" by simp
  have "materialize max_slots ?d 8 (min limit (length ss)) (replicate max_slots None) =
      (let k = min (min max_slots 254) (min limit (length ss)) in
       Ok (k, encode_frame (walked k ss) ix pid @ rest, walked_views max_slots k ss, 8 + length (encode_slots (take k ss))))"
    unfolding Let_def by (rule materialize_frame [OF assms(1,3)]) simp_all
  then have lead: "deserialize_leading_accounts max_slots ?d limit =
      (let k = min (min max_slots 254) (min limit (length ss)) in
       Ok (k, walked_views max_slots k ss, encode_frame (walked k ss) ix pid @ rest))"
    unfolding deserialize_leading_accounts_def count obind.simps Let_def stop by simp
  have "materialize max_slots ?d 8 (length ss) (replicate max_slots None) =
      (let k = min (min max_slots 254) (length ss) in
       Ok (k, encode_frame (walked k ss) ix pid @ rest, walked_views max_slots k ss, 8 + length (encode_slots (take k ss))))"
    unfolding Let_def by (rule materialize_frame [OF assms(1,3)]) simp_all
  then have fast: "deserialize_accounts_fast max_slots ?d ix pid = Ok (frame_input max_slots ss ix pid rest)"
    unfolding deserialize_accounts_fast_def count obind.simps frame_input_def Let_def by simp
  have c: "loader_account_count ?d = Ok (length ss)" unfolding loader_account_count_def by (rule count)
  show ?thesis by (intro conjI deserialize_frame scan_frame assms c lead fast)
qed

theorem unchecked_parsers_read_frames_witness:
  "deserialize_accounts 4 (encode_frame sample_slots [9] (replicate 32 4) @ [1, 2]) =
     Ok (frame_input 4 sample_slots [9] (replicate 32 4) [1, 2])"
proof -
  have "length (replicate 32 4 :: bytes) = 32" by simp
  from unchecked_parsers_read_frames [OF sample_slots_valid this sample_frame_small] show ?thesis by blast
qed

text \<open>
  C30: Every view is a well-formed account. The view handed out for slot \<open>i\<close> of a frame is the one of
  the canonical slot that \<open>i\<close> names through its chain of duplicates, so slots that name the same
  account get the same view; the record there holds the frame's own flags, keys,
  lamports and data, starts unborrowed, has the whole realloc reserve behind it, and measures
  growth from the length it arrived with.
\<close>

theorem views_are_wellformed_accounts:
  assumes "slots_valid 0 ss" and "length pid = 32" and "length (encode_frame ss ix pid) < 2 ^ 64"
    and "deserialize_accounts max_slots (encode_frame ss ix pid @ rest) = Ok p" and "i < in_count p"
  shows "let j = origins [] ss ! i; view = 8 + length (encode_slots (take j ss)) in
    in_slots p ! i = Some view \<and> j \<le> i \<and> is_canonical (ss ! j) \<and>
    account_at (in_buffer p) view = slot_account (ss ! j) \<and>
    mem_ok (account_at (in_buffer p) view) \<and> borrow_state (account_at (in_buffer p) view) = not_borrowed"
proof -
  let ?k = "min (min max_slots 254) (length ss)"
  have p: "p = frame_input max_slots ss ix pid rest" using deserialize_frame [OF assms(1-3)] assms(4) by simp
  then have i: "i < ?k" "i < length ss" using assms(5) by (simp_all add: frame_input_def Let_def)
  let ?j = "origins [] ss ! i"
  have v: "walked_views max_slots ?k ss ! i = Some (8 + length (encode_slots (take ?j ss)))" "?j \<le> i" "is_canonical (ss ! ?j)"
    using view_of_slot [OF assms(1) i(1), of max_slots] by simp_all
  then have j: "?j < ?k" "?j < length ss" using i by simp_all
  note acc = walked_account [OF assms(1) frame_count(3) [OF assms(1,3)] j v(3)]
  show ?thesis unfolding Let_def p frame_input_def parsed_input.simps using v acc by simp
qed

theorem views_are_wellformed_accounts_witness:
  "in_slots (frame_input 4 sample_slots [9] (replicate 32 4) []) ! 1 = Some 8 \<and>
   mem_ok (account_at (in_buffer (frame_input 4 sample_slots [9] (replicate 32 4) [])) 8)"
proof -
  let ?p = "frame_input 4 sample_slots [9] (replicate 32 4) []"
  have pid: "length (replicate 32 4 :: bytes) = 32" by simp
  have run: "deserialize_accounts 4 (encode_frame sample_slots [9] (replicate 32 4) @ []) = Ok ?p"
    by (rule deserialize_frame [OF sample_slots_valid pid sample_frame_small])
  have i: "1 < in_count ?p" by (simp add: frame_input_def Let_def sample_slots_def)
  have o: "origins [] sample_slots ! 1 = 0" by (simp add: sample_slots_def)
  have e: "8 + length (encode_slots (take 0 sample_slots)) = 8" by simp
  show ?thesis
    using views_are_wellformed_accounts [OF sample_slots_valid pid sample_frame_small run i] unfolding Let_def o e by blast
qed

end
