(* ===== verification/Rent.thy ===== *)
theory Rent imports AccountView Complex_Main begin

text \<open>
  hopper-native/src/sysvar.rs (the rent part) and hopper-runtime/src/rent.rs: the rent-exempt
  balance of an account. The sysvar's exemption threshold is a double, read as its bits and
  applied without floating point. Shown: for every finite positive threshold the amount is the
  product with the threshold rounded up to whole years, or the largest \<^verbatim>\<open>u64\<close>; so it is exact for
  the thresholds clusters have used and never below Solana's own formula.
\<close>

unbundle bit_operations_syntax

record rent =
  lamports_per_byte_year :: u64
  exemption_threshold_bits :: u64
  burn_percent :: u8

definition launch_lamports_per_byte_year :: u64 where "launch_lamports_per_byte_year = 3480"
definition exemption_threshold_years :: u64 where "exemption_threshold_years = 2"
definition account_storage_overhead :: u64 where "account_storage_overhead = 128"

definition rent_exempt_minimum :: "nat \<Rightarrow> u64 outcome" where
  "rent_exempt_minimum data_len =
     obind (native_add (word_of_nat data_len) account_storage_overhead) (\<lambda>bytes.
     obind (native_mul bytes launch_lamports_per_byte_year) (\<lambda>year. native_mul year exemption_threshold_years))"

definition threshold_one_bits :: u64 where "threshold_one_bits = 0x3FF0000000000000"
definition threshold_two_bits :: u64 where "threshold_two_bits = 0x4000000000000000"

definition ceil_years :: "u64 \<Rightarrow> u64" where
  "ceil_years bits =
     (if drop_bit 63 bits = 1 then 0
      else
        let exponent = drop_bit 52 bits AND 0x7FF; mantissa = bits AND (push_bit 52 1 - 1) in
        if exponent = 0x7FF then (if mantissa = 0 then - 1 else 0)
        else if exponent = 0 then (if mantissa = 0 then 0 else 1)
        else
          let e = int (unat exponent) - 1023 in
          if e < 0 then 1
          else if e \<ge> 64 then - 1
          else
            let significand = push_bit 52 1 OR mantissa in
            if e \<ge> 52 then push_bit (nat (e - 52)) significand
            else
              let shift = nat (52 - e); whole = drop_bit shift significand; fraction = significand AND (push_bit shift 1 - 1)
              in if fraction = 0 then whole else whole + 1)"

definition scale_by_unusual_threshold :: "u64 \<Rightarrow> u64 \<Rightarrow> u64" where
  "scale_by_unusual_threshold integer_part threshold_bits = saturating_mul_u64 integer_part (ceil_years threshold_bits)"

definition scale_by_exemption_threshold :: "u64 \<Rightarrow> u64 \<Rightarrow> u64" where
  "scale_by_exemption_threshold integer_part threshold_bits =
     (if threshold_bits = threshold_one_bits then integer_part
      else if threshold_bits = threshold_two_bits then
        (case word_checked_mul integer_part 2 of Some product \<Rightarrow> product | None \<Rightarrow> - 1)
      else scale_by_unusual_threshold integer_part threshold_bits)"

definition minimum_balance :: "rent \<Rightarrow> nat \<Rightarrow> u64" where
  "minimum_balance r data_len =
     (let integer_part = word_saturating_add account_storage_overhead (word_of_nat data_len) * lamports_per_byte_year r in
      scale_by_exemption_threshold integer_part (exemption_threshold_bits r))"

text \<open>
  The runtime's wrappers. What the sysvar read returns is a parameter \<open>live\<close>: \<open>Err\<close> when the
  system call fails; the per-invocation cache returns the same value again.
\<close>

definition minimum_balance_live :: "rent outcome \<Rightarrow> nat \<Rightarrow> u64 outcome" where
  "minimum_balance_live live data_len = obind live (\<lambda>r. Ok (minimum_balance r data_len))"

definition check_rent_exempt :: "rent outcome \<Rightarrow> runtime_account \<Rightarrow> unit outcome" where
  "check_rent_exempt live a =
     obind (minimum_balance_live live (av_data_len a)) (\<lambda>required.
     if av_lamports a \<ge> required then Ok () else Err AccountNotRentExempt)"

definition require_rent_exempt :: "runtime_account \<Rightarrow> unit outcome" where
  "require_rent_exempt a =
     obind (rent_exempt_minimum (av_data_len a)) (\<lambda>required.
     if av_lamports a \<ge> required then Ok () else Err AccountNotRentExempt)"

definition require_rent_exempt_with :: "rent \<Rightarrow> runtime_account \<Rightarrow> unit outcome" where
  "require_rent_exempt_with r a =
     (if av_lamports a \<ge> minimum_balance r (av_data_len a) then Ok () else Err AccountNotRentExempt)"

section \<open>The value of a double\<close>

text \<open>A finite double with the sign bit clear.\<close>

definition finite_positive :: "u64 \<Rightarrow> bool" where
  "finite_positive bits \<longleftrightarrow> unat bits < 2047 * 2 ^ 52"

definition double_value :: "u64 \<Rightarrow> real" where
  "double_value bits =
     (let expo = unat bits div 2 ^ 52; m = unat bits mod 2 ^ 52 in
      if expo = 0 then real m / 2 ^ 1074
      else if 1075 \<le> expo then real ((2 ^ 52 + m) * 2 ^ (expo - 1075))
      else real (2 ^ 52 + m) / 2 ^ (1075 - expo))"

definition whole_years :: "u64 \<Rightarrow> nat" where
  "whole_years bits = nat \<lceil>double_value bits\<rceil>"

lemma unat_mask: "n < 64 \<Longrightarrow> unat ((x :: u64) AND (push_bit n 1 - 1)) = unat x mod 2 ^ n"
proof -
  assume "n < 64"
  have "(push_bit n 1 - 1 :: u64) = mask n" by (simp add: mask_eq_exp_minus_1 push_bit_eq_mult)
  then have "x AND (push_bit n 1 - 1) = take_bit n x" by (simp only: take_bit_eq_mask)
  then show ?thesis by (simp only: unsigned_take_bit_eq) (simp add: take_bit_eq_mod)
qed

lemma unat_drop: "unat (drop_bit n (x :: u64)) = unat x div 2 ^ n"
  unfolding unat_drop_bit_eq by (rule drop_bit_eq_div)

lemma unat_push: "unat (push_bit n (x :: u64)) = unat x * 2 ^ n mod 2 ^ 64"
  by (simp only: unsigned_push_bit_eq) (simp add: take_bit_eq_mod push_bit_eq_mult)

lemma unat_exponent: "finite_positive bits \<Longrightarrow> unat (drop_bit 52 bits AND 0x7FF :: u64) = unat bits div 2 ^ 52"
proof -
  assume "finite_positive bits"
  then have lt: "unat bits div 2 ^ 52 < 2047" by (simp add: finite_positive_def less_mult_imp_div_less)
  have "(0x7FF :: u64) = push_bit 11 1 - 1" by (simp add: push_bit_eq_mult)
  then have "unat (drop_bit 52 bits AND 0x7FF :: u64) = unat (drop_bit 52 bits) mod 2 ^ 11" using unat_mask [of 11] by simp
  also have "\<dots> = unat bits div 2 ^ 52" unfolding unat_drop using lt by simp
  finally show ?thesis .
qed

lemma unat_significand: "unat (push_bit 52 1 OR (x AND (push_bit 52 1 - 1)) :: u64) = 2 ^ 52 + unat x mod 2 ^ 52"
proof -
  have m: "(push_bit 52 1 - 1 :: u64) = mask 52" by (simp add: mask_eq_exp_minus_1 push_bit_eq_mult)
  have "push_bit 52 1 AND (x AND (push_bit 52 1 - 1)) = (0 :: u64)"
    unfolding m
    by (rule bit_word_eqI) (simp only: bit_and_iff bit_push_bit_iff bit_1_iff bit_mask_iff bit_0_eq, auto)
  then have "push_bit 52 1 OR (x AND (push_bit 52 1 - 1)) = push_bit 52 1 + (x AND (push_bit 52 1 - 1) :: u64)"
    by (simp only: disjunctive_add_eq_or)
  moreover have "unat (push_bit 52 1 + (x AND (push_bit 52 1 - 1)) :: u64) = unat (push_bit 52 1 :: u64) + unat (x AND (push_bit 52 1 - 1) :: u64)"
  proof (rule unat_add_exact)
    have "unat x mod 2 ^ 52 < 2 ^ 52" by simp
    then have "2 ^ 52 + unat x mod 2 ^ 52 < 2 ^ 64" by simp
    then show "unat (push_bit 52 1 :: u64) + unat (x AND (push_bit 52 1 - 1) :: u64) < 2 ^ LENGTH(64)"
      using unat_mask [of 52 x] by (simp add: push_bit_eq_mult)
  qed
  ultimately show ?thesis using unat_mask [of 52 x] by (simp add: push_bit_eq_mult)
qed

lemma ceiling_quotient: "nat \<lceil>real s / 2 ^ n\<rceil> = s div 2 ^ n + (if s mod 2 ^ n = 0 then 0 else 1)"
proof -
  let ?d = "2 ^ n :: nat"
  have "real s = real (s div ?d) * real ?d + real (s mod ?d)" by (metis div_mult_mod_eq of_nat_add of_nat_mult)
  then have split: "real s / 2 ^ n = real (s div ?d) + real (s mod ?d) / 2 ^ n" by (simp add: add_divide_distrib)
  have "s mod ?d < ?d" by simp
  then have frac: "real (s mod ?d) / 2 ^ n < 1" by (simp add: divide_less_eq)
  show ?thesis
  proof (cases "s mod ?d = 0")
    case True
    then show ?thesis using split by simp
  next
    case False
    then have "0 < real (s mod ?d) / 2 ^ n" by simp
    then have "\<lceil>real s / 2 ^ n\<rceil> = int (s div ?d) + 1" using split frac by (intro ceiling_unique) simp_all
    then show ?thesis using False by simp
  qed
qed

lemma finite_positive_sign: "finite_positive bits \<Longrightarrow> drop_bit 63 bits \<noteq> 1"
proof
  assume f: "finite_positive bits" and "drop_bit 63 bits = 1"
  then have "unat bits div 2 ^ 63 = 1" using unat_drop [of 63 bits] by simp
  then have "2 ^ 63 \<le> unat bits" by (metis div_less zero_neq_one not_less)
  then show False using f by (simp add: finite_positive_def)
qed

lemma ceil_years_exact:
  assumes f: "finite_positive bits"
  shows "unat (ceil_years bits) = min (2 ^ 64 - 1) (whole_years bits)"
proof -
  let ?x = "unat bits div 2 ^ 52" and ?m = "unat bits mod 2 ^ 52"
  let ?E = "drop_bit 52 bits AND 0x7FF :: u64" and ?M = "bits AND (push_bit 52 1 - 1) :: u64"
  let ?S = "push_bit 52 1 OR ?M :: u64"
  have x: "unat ?E = ?x" by (rule unat_exponent [OF f])
  have xlt: "?x < 2047" using f by (simp add: finite_positive_def less_mult_imp_div_less)
  have m: "unat ?M = ?m" by (rule unat_mask) simp
  have mlt: "?m < 2 ^ 52" by simp
  have S: "unat ?S = 2 ^ 52 + ?m" by (rule unat_significand)
  have E7: "?E \<noteq> 0x7FF"
  proof
    assume "?E = 0x7FF"
    then have "unat ?E = 2047" by simp
    then show False using x xlt by simp
  qed
  have E0: "?E = 0 \<longleftrightarrow> ?x = 0" using x by (metis unat_eq_zero)
  have M0: "?M = 0 \<longleftrightarrow> ?m = 0" using m by (metis unat_eq_zero)
  show ?thesis
  proof (cases "?x = 0")
    case True
    have "real ?m / 2 ^ 1074 < 1"
    proof -
      have "real ?m < 2 ^ 52" using mlt by (metis of_nat_less_iff of_nat_numeral of_nat_power)
      also have "\<dots> \<le> (2 :: real) ^ 1074" by (rule power_increasing) simp_all
      finally show ?thesis by simp
    qed
    then have "\<lceil>real ?m / 2 ^ 1074\<rceil> = (if ?m = 0 then 0 else 1)" by (auto intro: ceiling_unique)
    then have "whole_years bits = (if ?m = 0 then 0 else 1)" using True by (simp add: whole_years_def double_value_def Let_def)
    moreover have "ceil_years bits = (if ?m = 0 then 0 else 1)"
      unfolding ceil_years_def Let_def if_not_P [OF finite_positive_sign [OF f]] if_not_P [OF E7] if_P [OF E0 [THEN iffD2, OF True]] M0 ..
    ultimately show ?thesis by simp
  next
    case False
    let ?e = "int (unat ?E) - 1023"
    have E0': "?E \<noteq> 0" using E0 False by blast
    have code: "ceil_years bits =
        (if ?e < 0 then 1 else if ?e \<ge> 64 then - 1
         else if ?e \<ge> 52 then push_bit (nat (?e - 52)) ?S
         else if ?S AND (push_bit (nat (52 - ?e)) 1 - 1) = 0 then drop_bit (nat (52 - ?e)) ?S
         else drop_bit (nat (52 - ?e)) ?S + 1)"
      unfolding ceil_years_def Let_def if_not_P [OF finite_positive_sign [OF f]] if_not_P [OF E7] if_not_P [OF E0'] ..
    have e: "?e = int ?x - 1023" using x by simp
    let ?s = "2 ^ 52 + ?m"
    have slt: "?s < 2 ^ 53" using mlt by simp
    consider "?x < 1023" | "1023 \<le> ?x" "?x < 1075" | "1075 \<le> ?x" "?x < 1087" | "1087 \<le> ?x" by linarith
    then show ?thesis
    proof cases
      case 1
      have lt: "?s < 2 ^ (1075 - ?x)"
        by (rule less_le_trans [OF slt]) (rule power_increasing, use 1 in simp_all)
      have nx: "\<not> 1075 \<le> ?x" using 1 by simp
      have "whole_years bits = ?s div 2 ^ (1075 - ?x) + (if ?s mod 2 ^ (1075 - ?x) = 0 then 0 else 1)"
        unfolding whole_years_def double_value_def Let_def if_not_P [OF False] if_not_P [OF nx] by (rule ceiling_quotient)
      then have "whole_years bits = 1" unfolding div_less [OF lt] mod_less [OF lt] by simp
      moreover have "ceil_years bits = 1" unfolding code e using 1 by simp
      ultimately show ?thesis by simp
    next
      case 2
      let ?n = "1075 - ?x"
      have n: "nat (52 - (int ?x - 1023)) = ?n" "?n < 64" using 2 by simp_all
      have nx: "\<not> 1075 \<le> ?x" using 2 by simp
      have w: "whole_years bits = ?s div 2 ^ ?n + (if ?s mod 2 ^ ?n = 0 then 0 else 1)"
        unfolding whole_years_def double_value_def Let_def if_not_P [OF False] if_not_P [OF nx] by (rule ceiling_quotient)
      have c: "ceil_years bits = (if ?S AND (push_bit ?n 1 - 1) = 0 then drop_bit ?n ?S else drop_bit ?n ?S + 1)"
        unfolding code e n(1) using 2 by simp
      have z: "?S AND (push_bit ?n 1 - 1) = 0 \<longleftrightarrow> ?s mod 2 ^ ?n = 0"
        using unat_mask [OF n(2), of ?S] unfolding S by (metis unat_eq_zero)
      have d: "unat (drop_bit ?n ?S) = ?s div 2 ^ ?n" unfolding unat_drop S ..
      have small: "?s div 2 ^ ?n < 2 ^ 53" using slt div_le_dividend [of ?s "2 ^ ?n"] by linarith
      then have "unat (drop_bit ?n ?S + 1) = ?s div 2 ^ ?n + 1" using d by (subst unat_add_exact) simp_all
      then have "unat (ceil_years bits) = whole_years bits" unfolding c w z using d by simp
      moreover have "whole_years bits < 2 ^ 64" unfolding w using small by simp
      ultimately show ?thesis by simp
    next
      case 3
      let ?n = "?x - 1075"
      have n: "nat (int ?x - 1023 - 52) = ?n" using 3 by simp
      have w: "whole_years bits = ?s * 2 ^ ?n"
        unfolding whole_years_def double_value_def Let_def if_not_P [OF False] if_P [OF 3(1)] by (simp only: ceiling_of_nat nat_int)
      have "?n \<le> 11" using 3(2) by simp
      then have "(2 :: nat) ^ ?n \<le> 2 ^ 11" by (rule power_increasing) simp
      then have "?s * 2 ^ ?n \<le> (2 ^ 53 - 1) * 2 ^ 11" using slt by (intro mult_le_mono) simp_all
      then have lt: "?s * 2 ^ ?n < 2 ^ 64" by (rule le_less_trans) simp
      have c: "ceil_years bits = push_bit ?n ?S" unfolding code e n using 3 by simp
      have "unat (push_bit ?n ?S) = ?s * 2 ^ ?n mod 2 ^ 64"
        unfolding S [symmetric] by (rule unat_push)
      then show ?thesis unfolding c w using lt by simp
    next
      case 4
      have x': "1075 \<le> ?x" using 4 by simp
      have "12 \<le> ?x - 1075" using 4 by simp
      then have "(2 :: nat) ^ 12 \<le> 2 ^ (?x - 1075)" by (rule power_increasing) simp
      then have "(2 :: nat) ^ 52 * 2 ^ 12 \<le> ?s * 2 ^ (?x - 1075)" by (intro mult_le_mono) simp_all
      then have "2 ^ 64 \<le> ?s * 2 ^ (?x - 1075)" by simp
      moreover have "whole_years bits = ?s * 2 ^ (?x - 1075)"
        unfolding whole_years_def double_value_def Let_def if_not_P [OF False] if_P [OF x'] by (simp only: ceiling_of_nat nat_int)
      ultimately have "2 ^ 64 \<le> whole_years bits" by simp
      moreover have "ceil_years bits = - 1" unfolding code e using 4 by simp
      ultimately show ?thesis by (simp add: unsigned_minus_1_eq_mask mask_eq_exp_minus_1)
    qed
  qed
qed

lemma u64_saturating_product:
  "unat (case word_checked_mul a b of Some product \<Rightarrow> product | None \<Rightarrow> (- 1 :: u64)) = min (2 ^ 64 - 1) (unat a * unat b)"
proof (cases "unat a * unat b < 2 ^ 64")
  case True
  then have product: "word_checked_mul a b = Some (a * b)" "unat (a * b) = unat a * unat b"
    by (simp_all add: word_checked_mul_def unat_mult_exact)
  show ?thesis unfolding product(1) using True product(2) by simp
next
  case False
  then have none: "word_checked_mul a b = None" by (simp add: word_checked_mul_def)
  show ?thesis unfolding none using False by (simp add: unsigned_minus_1_eq_mask mask_eq_exp_minus_1)
qed

lemma scale_exact:
  assumes "finite_positive bits"
  shows "unat (scale_by_exemption_threshold p bits) = min (2 ^ 64 - 1) (unat p * whole_years bits)"
proof -
  have p: "unat p \<le> 2 ^ 64 - 1" using unsigned_less [of p, where 'a = nat] by simp
  have one: "whole_years threshold_one_bits = 1" and two: "whole_years threshold_two_bits = 2"
    by (simp_all add: whole_years_def double_value_def threshold_one_bits_def threshold_two_bits_def)
  have unusual: "unat (scale_by_unusual_threshold p bits) = min (2 ^ 64 - 1) (unat p * whole_years bits)"
  proof (cases "whole_years bits \<le> 2 ^ 64 - 1")
    case True
    then show ?thesis
      unfolding scale_by_unusual_threshold_def saturating_mul_u64_def checked_mul_u64_eq u64_saturating_product ceil_years_exact [OF assms]
      by simp
  next
    case False
    then have m: "min (2 ^ 64 - 1) (whole_years bits) = 2 ^ 64 - 1" by simp
    show ?thesis
    proof (cases "unat p = 0")
      case False
      have "2 ^ 64 - 1 \<le> unat p * (2 ^ 64 - 1)" using False by simp
      moreover have "unat p * (2 ^ 64 - 1) \<le> unat p * whole_years bits" using \<open>\<not> whole_years bits \<le> 2 ^ 64 - 1\<close> by simp
      ultimately show ?thesis
        unfolding scale_by_unusual_threshold_def saturating_mul_u64_def checked_mul_u64_eq u64_saturating_product ceil_years_exact [OF assms] m
        by linarith
    qed (simp add: scale_by_unusual_threshold_def saturating_mul_u64_def checked_mul_u64_eq u64_saturating_product)
  qed
  show ?thesis
    using unusual one two p u64_saturating_product [of p 2]
    by (auto simp: scale_by_exemption_threshold_def)
qed

section \<open>Properties\<close>

text \<open>
  C22: Rent is never underfunded. For every finite positive exemption threshold and every account
  whose integer product does not wrap, \<open>minimum_balance\<close> is the product of the byte rate and the
  threshold rounded up to whole years, capped at the largest \<^verbatim>\<open>u64\<close>; so it is exact for the two
  thresholds clusters have stored, and never below the truncated product with the exact
  threshold that Solana itself computes.
\<close>

theorem rent_never_underfunded:
  assumes "finite_positive (exemption_threshold_bits r)"
    and "(128 + data_len) * unat (lamports_per_byte_year r) < 2 ^ 64" and "128 + data_len < 2 ^ 64"
  shows "unat (minimum_balance r data_len) =
      min (2 ^ 64 - 1) ((128 + data_len) * unat (lamports_per_byte_year r) * whole_years (exemption_threshold_bits r)) \<and>
    whole_years threshold_one_bits = 1 \<and> whole_years threshold_two_bits = 2 \<and>
    min (2 ^ 64 - 1) (nat \<lfloor>real ((128 + data_len) * unat (lamports_per_byte_year r)) * double_value (exemption_threshold_bits r)\<rfloor>)
      \<le> unat (minimum_balance r data_len)"
proof -
  let ?p = "(128 + data_len) * unat (lamports_per_byte_year r)" and ?b = "exemption_threshold_bits r"
  let ?bytes = "word_saturating_add account_storage_overhead (word_of_nat data_len) :: u64"
  have "unat (word_of_nat data_len :: u64) = data_len" using assms(3) by (intro unat_word_of_nat) simp
  then have bytes: "unat ?bytes = 128 + data_len"
    using assms(3) by (simp add: word_saturating_add_def account_storage_overhead_def unat_add_exact)
  have "unat (?bytes * lamports_per_byte_year r) = ?p" using assms(2) bytes by (subst unat_mult_exact) simp_all
  then have exact: "unat (minimum_balance r data_len) = min (2 ^ 64 - 1) (?p * whole_years ?b)"
    unfolding minimum_balance_def Let_def scale_exact [OF assms(1)] by simp
  have "0 \<le> double_value ?b"
    by (auto simp only: double_value_def Let_def intro!: divide_nonneg_nonneg of_nat_0_le_iff zero_le_power zero_le_numeral
        split: if_split)
  then have "real (whole_years ?b) = real_of_int \<lceil>double_value ?b\<rceil>" by (simp add: whole_years_def)
  then have "double_value ?b \<le> real (whole_years ?b)" using le_of_int_ceiling [of "double_value ?b"] by simp
  then have "real ?p * double_value ?b \<le> real ?p * real (whole_years ?b)" by (rule mult_left_mono) (rule of_nat_0_le_iff)
  then have "real ?p * double_value ?b \<le> real (?p * whole_years ?b)" by (simp only: of_nat_mult)
  then have "nat \<lfloor>real ?p * double_value ?b\<rfloor> \<le> ?p * whole_years ?b"
    using floor_mono [of "real ?p * double_value ?b" "real (?p * whole_years ?b)"] by (simp only: floor_of_nat nat_le_iff)
  then have "min (2 ^ 64 - 1) (nat \<lfloor>real ?p * double_value ?b\<rfloor>) \<le> unat (minimum_balance r data_len)" unfolding exact by simp
  moreover have "whole_years threshold_one_bits = 1" "whole_years threshold_two_bits = 2"
    by (simp_all add: whole_years_def double_value_def threshold_one_bits_def threshold_two_bits_def)
  ultimately show ?thesis using exact by blast
qed

theorem rent_never_underfunded_witness:
  "unat (minimum_balance \<lparr>lamports_per_byte_year = 3480, exemption_threshold_bits = threshold_two_bits, burn_percent = 50\<rparr> 56) =
     min (2 ^ 64 - 1) ((128 + 56) * 3480 * 2)"
proof -
  let ?r = "\<lparr>lamports_per_byte_year = 3480, exemption_threshold_bits = threshold_two_bits, burn_percent = 50\<rparr>"
  have "finite_positive (exemption_threshold_bits ?r)" by (simp add: finite_positive_def threshold_two_bits_def)
  moreover have "(128 + 56) * unat (lamports_per_byte_year ?r) < 2 ^ 64" "(128 + 56 :: nat) < 2 ^ 64" by simp_all
  ultimately show ?thesis using rent_never_underfunded [of ?r 56] by simp
qed

end
