(* ===== verification/Lamports.thy ===== *)
theory Lamports imports Rent WriteGate begin

text \<open>
  The operations that move lamports between accounts: hopper-runtime/src/lamports.rs, the close
  and resize methods of account.rs and the funnel in native_boundary.rs, hopper-native/src/batch.rs
  and mem.rs, hopper-core/src/account/lifecycle.rs. The state is the list of distinct accounts;
  a view is an index into it, so two views of one account share it. An operation returns the
  state also with an error. The borrow registry of the runtime is empty code on chain. Shown:
  the preflighted transfers conserve lamports and are all or nothing, under every gate; the
  lifecycle helpers conserve them when they succeed, and exactly when they do not.
\<close>

section \<open>Operations on several accounts\<close>

type_synonym 'a act = "runtime_account list \<Rightarrow> runtime_account list \<times> 'a outcome"

definition act_return :: "'a \<Rightarrow> 'a act" where
  "act_return x ws = (ws, Ok x)"
definition act_lift :: "'a outcome \<Rightarrow> 'a act" where
  "act_lift r ws = (ws, r)"
definition act_bind :: "'a act \<Rightarrow> ('a \<Rightarrow> 'b act) \<Rightarrow> 'b act" where
  "act_bind m f ws =
     (case m ws of (ws', Ok x) \<Rightarrow> f x ws' | (ws', Err e) \<Rightarrow> (ws', Err e) | (ws', Trap) \<Rightarrow> (ws', Trap))"

text \<open>A read of an account, and an update of one account that keeps it on error.\<close>

definition on_account :: "nat \<Rightarrow> (runtime_account \<Rightarrow> 'a outcome) \<Rightarrow> 'a act" where
  "on_account i f ws = (ws, if i < length ws then f (ws ! i) else Trap)"
definition update_account :: "nat \<Rightarrow> (runtime_account \<Rightarrow> runtime_account outcome) \<Rightarrow> unit act" where
  "update_account i f ws =
     (if i < length ws then
        (case f (ws ! i) of Ok a \<Rightarrow> (ws[i := a], Ok ()) | Err e \<Rightarrow> (ws, Err e) | Trap \<Rightarrow> (ws, Trap))
      else (ws, Trap))"

definition balance :: "nat \<Rightarrow> u64 act" where
  "balance i = on_account i (\<lambda>a. Ok (av_lamports a))"
definition address_of :: "nat \<Rightarrow> bytes act" where
  "address_of i = on_account i (\<lambda>a. Ok (ra_address a))"

section \<open>The runtime's funnel\<close>

text \<open>
  \<open>st\<close> is the ambient gate, which none of these operations changes, and \<open>un\<close> the build feature
  \<^verbatim>\<open>unguarded-raw-surfaces\<close>.
\<close>

definition rt_try_set_lamports :: "sbf_gate_state \<Rightarrow> nat \<Rightarrow> u64 \<Rightarrow> unit act" where
  "rt_try_set_lamports st i lamports =
     act_bind (on_account i (\<lambda>a. check_lamport_mutation st (ra_address a))) (\<lambda>_.
     update_account i (\<lambda>a. Ok (av_set_lamports a lamports)))"

definition boundary_close :: "sbf_gate_state \<Rightarrow> nat \<Rightarrow> unit act" where
  "boundary_close st i =
     act_bind (on_account i (\<lambda>a. check_lamport_mutation st (ra_address a))) (\<lambda>_. update_account i av_close)"

text \<open>Taking the exclusive guard, rewriting what it exposes, and dropping it.\<close>

definition through_guard :: "(bytes \<Rightarrow> guard \<Rightarrow> bytes outcome) \<Rightarrow> runtime_account \<times> guard \<Rightarrow> runtime_account outcome" where
  "through_guard f held =
     obind (f (ra_mem (fst held)) (snd held)) (\<lambda>m. ref_mut_drop ((fst held)\<lparr>ra_mem := m\<rparr>) (snd held))"

definition zero_guarded :: "bytes \<Rightarrow> guard \<Rightarrow> bytes outcome" where
  "zero_guarded m g = zero_bytes m (g_start g) (g_len g)"

definition boundary_zero_data :: "runtime_account \<Rightarrow> runtime_account outcome" where
  "boundary_zero_data a = obind (av_try_borrow_mut a) (through_guard zero_guarded)"

definition rt_try_borrow_mut :: "bool \<Rightarrow> sbf_gate_state \<Rightarrow> runtime_account \<Rightarrow> (runtime_account \<times> guard) outcome" where
  "rt_try_borrow_mut un st a =
     (let len = av_data_len a in
      obind (if len > 0 then check_data_mutation un st (ra_address a) 0 (word_of_nat len) else Ok ()) (\<lambda>_.
      av_try_borrow_mut a))"

definition rt_resize :: "bool \<Rightarrow> sbf_gate_state \<Rightarrow> nat \<Rightarrow> runtime_account \<Rightarrow> runtime_account outcome" where
  "rt_resize un st new_len a =
     obind (check_account_transition un st (ra_address a)) (\<lambda>_.
     obind (if new_len \<noteq> av_data_len a then av_check_borrow_mut a else Ok ()) (\<lambda>_.
     av_resize a new_len))"

definition rt_resize_raw :: "bool \<Rightarrow> sbf_gate_state \<Rightarrow> nat \<Rightarrow> runtime_account \<Rightarrow> runtime_account outcome" where
  "rt_resize_raw un st new_len a =
     obind (check_account_transition un st (ra_address a)) (\<lambda>_.
     obind (if new_len \<noteq> av_data_len a then av_check_borrow_mut a else Ok ()) (\<lambda>_.
     av_resize_raw a new_len))"

definition rt_close :: "bool \<Rightarrow> sbf_gate_state \<Rightarrow> nat \<Rightarrow> unit act" where
  "rt_close un st i =
     act_bind (on_account i (\<lambda>a. check_account_transition un st (ra_address a))) (\<lambda>_.
     act_bind (on_account i av_check_borrow_mut) (\<lambda>_. boundary_close st i))"

section \<open>Transfers and closes of the runtime\<close>

definition transfer_lamports :: "sbf_gate_state \<Rightarrow> nat \<Rightarrow> nat \<Rightarrow> u64 \<Rightarrow> unit act" where
  "transfer_lamports st from dest amount =
     act_bind (on_account from (\<lambda>a. check_lamport_mutation st (ra_address a))) (\<lambda>_.
     act_bind (on_account dest (\<lambda>a. check_lamport_mutation st (ra_address a))) (\<lambda>_.
     act_bind (on_account from av_require_writable) (\<lambda>_.
     act_bind (on_account dest av_require_writable) (\<lambda>_.
     act_bind (address_of from) (\<lambda>from_address.
     act_bind (address_of dest) (\<lambda>dest_address.
     act_bind (balance from) (\<lambda>from_lamports.
     if from_address = dest_address then
       act_lift (if from_lamports < amount then Err InsufficientFunds else Ok ())
     else
       act_bind (act_lift (ok_or (word_checked_sub from_lamports amount) InsufficientFunds)) (\<lambda>debited.
       act_bind (balance dest) (\<lambda>dest_lamports.
       act_bind (act_lift (ok_or (word_checked_add dest_lamports amount) ArithmeticOverflow)) (\<lambda>credited.
       act_bind (rt_try_set_lamports st from debited) (\<lambda>_.
       rt_try_set_lamports st dest credited)))))))))))"

definition close_to_preflighted :: "sbf_gate_state \<Rightarrow> nat \<Rightarrow> nat \<Rightarrow> unit act" where
  "close_to_preflighted st i dest =
     act_bind (address_of i) (\<lambda>address.
     act_bind (address_of dest) (\<lambda>dest_address.
     if address = dest_address then act_lift (Err InvalidArgument)
     else
       act_bind (on_account i av_check_borrow_mut) (\<lambda>_.
       act_bind (on_account i av_require_writable) (\<lambda>_.
       act_bind (on_account i (\<lambda>a. check_lamport_mutation st (ra_address a))) (\<lambda>_.
       act_bind (on_account dest (\<lambda>a. check_lamport_mutation st (ra_address a))) (\<lambda>_.
       act_bind (balance dest) (\<lambda>dest_lamports.
       act_bind (balance i) (\<lambda>lamports.
       act_bind (act_lift (ok_or (word_checked_add dest_lamports lamports) ArithmeticOverflow)) (\<lambda>credited.
       act_bind (update_account i boundary_zero_data) (\<lambda>_.
       act_bind (rt_try_set_lamports st i 0) (\<lambda>_.
       rt_try_set_lamports st dest credited)))))))))))"

definition close_to :: "bool \<Rightarrow> sbf_gate_state \<Rightarrow> nat \<Rightarrow> nat \<Rightarrow> bytes \<Rightarrow> unit act" where
  "close_to un st i dest program_id =
     act_bind (on_account i (\<lambda>a. check_account_transition un st (ra_address a))) (\<lambda>_.
     act_bind (on_account i av_require_writable) (\<lambda>_.
     act_bind (on_account i (\<lambda>a. av_require_owned_by a program_id)) (\<lambda>_.
     act_bind (on_account dest av_require_writable) (\<lambda>_.
     close_to_preflighted st i dest))))"

definition close_to_unchecked :: "bool \<Rightarrow> sbf_gate_state \<Rightarrow> nat \<Rightarrow> nat \<Rightarrow> unit act" where
  "close_to_unchecked un st i dest =
     act_bind (on_account i (\<lambda>a. check_account_transition un st (ra_address a))) (\<lambda>_.
     close_to_preflighted st i dest)"

section \<open>The ungated batch helpers of the native layer\<close>

definition close_and_transfer :: "nat \<Rightarrow> nat \<Rightarrow> unit act" where
  "close_and_transfer source dest =
     act_bind (address_of source) (\<lambda>source_address.
     act_bind (address_of dest) (\<lambda>dest_address.
     if source_address = dest_address then act_lift (Err InvalidArgument)
     else
       act_bind (on_account source av_require_writable) (\<lambda>_.
       act_bind (on_account dest av_require_writable) (\<lambda>_.
       act_bind (on_account source av_check_borrow_mut) (\<lambda>_.
       act_bind (balance source) (\<lambda>lamports.
       act_bind (balance dest) (\<lambda>dest_lamports.
       act_bind (act_lift (ok_or (word_checked_add dest_lamports lamports) ArithmeticOverflow)) (\<lambda>credited.
       act_bind (update_account source av_close) (\<lambda>_.
       update_account dest (\<lambda>a. Ok (av_set_lamports a credited)))))))))))"

definition batch_transfer_lamports :: "nat \<Rightarrow> nat \<Rightarrow> u64 \<Rightarrow> unit act" where
  "batch_transfer_lamports from dest amount =
     act_bind (on_account from av_require_writable) (\<lambda>_.
     act_bind (on_account dest av_require_writable) (\<lambda>_.
     act_bind (balance from) (\<lambda>from_lamports.
     if from_lamports < amount then act_lift (Err InsufficientFunds)
     else
       act_bind (address_of from) (\<lambda>from_address.
       act_bind (address_of dest) (\<lambda>dest_address.
       if from_address = dest_address then act_return ()
       else
         act_bind (balance dest) (\<lambda>dest_lamports.
         act_bind (act_lift (ok_or (word_checked_add dest_lamports amount) ArithmeticOverflow)) (\<lambda>new_dest.
         act_bind (act_lift (native_sub from_lamports amount)) (\<lambda>new_from.
         act_bind (update_account from (\<lambda>a. Ok (av_set_lamports a new_from))) (\<lambda>_.
         update_account dest (\<lambda>a. Ok (av_set_lamports a new_dest)))))))))))"

text \<open>The body that \<open>realloc_checked\<close> and \<open>realloc_checked_with\<close> share, for a required balance.\<close>

definition realloc_funded :: "u64 outcome \<Rightarrow> nat \<Rightarrow> nat \<Rightarrow> nat option \<Rightarrow> unit act" where
  "realloc_funded required i new_len payer =
     act_bind (on_account i (\<lambda>a. av_check_resize a new_len)) (\<lambda>_.
     act_bind (act_lift required) (\<lambda>min_balance.
     act_bind (balance i) (\<lambda>current.
     act_bind
       (if current < min_balance then
          (case payer of
             Some p \<Rightarrow>
               act_bind (address_of i) (\<lambda>address.
               act_bind (address_of p) (\<lambda>payer_address.
               if address = payer_address then act_lift (Err InvalidArgument)
               else batch_transfer_lamports p i (min_balance - current)))
           | None \<Rightarrow> act_lift (Err AccountNotRentExempt))
        else act_return ())
       (\<lambda>_. update_account i (\<lambda>a. av_resize a new_len)))))"

definition realloc_checked :: "nat \<Rightarrow> nat \<Rightarrow> nat option \<Rightarrow> unit act" where
  "realloc_checked i new_len payer = realloc_funded (rent_exempt_minimum new_len) i new_len payer"

definition realloc_checked_with :: "rent \<Rightarrow> nat \<Rightarrow> nat \<Rightarrow> nat option \<Rightarrow> unit act" where
  "realloc_checked_with r i new_len payer = realloc_funded (Ok (minimum_balance r new_len)) i new_len payer"

definition zero_account_data :: "runtime_account \<Rightarrow> runtime_account outcome" where
  "zero_account_data a =
     obind (av_check_borrow_mut a) (\<lambda>_.
     if av_data_len a = 0 then Ok a
     else obind (zero_bytes (ra_mem a) 0 (av_data_len a)) (\<lambda>m. Ok (a\<lparr>ra_mem := m\<rparr>)))"

definition batch_zero_data :: "nat \<Rightarrow> unit act" where
  "batch_zero_data i = update_account i zero_account_data"

section \<open>Lifecycle\<close>

definition check_writable :: "runtime_account \<Rightarrow> unit outcome" where
  "check_writable a = (if \<not> av_is_writable a then Err InvalidAccountData else Ok ())"
definition check_owner :: "runtime_account \<Rightarrow> bytes \<Rightarrow> unit outcome" where
  "check_owner a expected = (if \<not> av_owned_by a expected then Err IncorrectProgramId else Ok ())"
definition check_signer :: "runtime_account \<Rightarrow> unit outcome" where
  "check_signer a = (if \<not> av_is_signer a then Err MissingRequiredSignature else Ok ())"

definition close_sentinel :: u8 where "close_sentinel = 0xFF"

definition move_all_lamports :: "sbf_gate_state \<Rightarrow> nat \<Rightarrow> nat \<Rightarrow> unit act" where
  "move_all_lamports st i dest =
     act_bind (balance i) (\<lambda>lamports.
     act_bind (balance dest) (\<lambda>dest_lamports.
     act_bind (act_lift (ok_or (word_checked_add dest_lamports lamports) ArithmeticOverflow)) (\<lambda>new_dest.
     act_bind (rt_try_set_lamports st dest new_dest) (\<lambda>_.
     rt_try_set_lamports st i 0))))"

definition safe_close_unchecked :: "bool \<Rightarrow> sbf_gate_state \<Rightarrow> nat \<Rightarrow> nat \<Rightarrow> unit act" where
  "safe_close_unchecked un st i dest =
     act_bind (address_of i) (\<lambda>address.
     act_bind (address_of dest) (\<lambda>dest_address.
     if address = dest_address then act_lift (Err InvalidArgument)
     else
       act_bind (update_account i (\<lambda>a. obind (rt_try_borrow_mut un st a) (\<lambda>(a', g). ref_mut_drop a' g))) (\<lambda>_.
       act_bind (move_all_lamports st i dest) (\<lambda>_.
       update_account i (\<lambda>a. obind (rt_try_borrow_mut un st a) (through_guard zero_guarded))))))"

definition safe_close :: "bool \<Rightarrow> sbf_gate_state \<Rightarrow> nat \<Rightarrow> nat \<Rightarrow> bytes \<Rightarrow> unit act" where
  "safe_close un st i dest program_id =
     act_bind (on_account i check_writable) (\<lambda>_.
     act_bind (on_account i (\<lambda>a. check_owner a program_id)) (\<lambda>_.
     act_bind (on_account dest check_writable) (\<lambda>_.
     safe_close_unchecked un st i dest)))"

definition sentinel_guarded :: "bytes \<Rightarrow> guard \<Rightarrow> bytes outcome" where
  "sentinel_guarded m g = (if g_len g \<noteq> 0 then wr m (g_start g) [close_sentinel] else Ok m)"

definition write_close_sentinel :: "bool \<Rightarrow> sbf_gate_state \<Rightarrow> nat \<Rightarrow> unit act" where
  "write_close_sentinel un st i =
     update_account i (\<lambda>a. obind (rt_try_borrow_mut un st a) (through_guard sentinel_guarded))"

definition safe_close_with_sentinel :: "bool \<Rightarrow> sbf_gate_state \<Rightarrow> nat \<Rightarrow> nat \<Rightarrow> bytes \<Rightarrow> unit act" where
  "safe_close_with_sentinel un st i dest program_id =
     act_bind (safe_close un st i dest program_id) (\<lambda>_. write_close_sentinel un st i)"

definition safe_close_with_sentinel_unchecked :: "bool \<Rightarrow> sbf_gate_state \<Rightarrow> nat \<Rightarrow> nat \<Rightarrow> unit act" where
  "safe_close_with_sentinel_unchecked un st i dest =
     act_bind (safe_close_unchecked un st i dest) (\<lambda>_. write_close_sentinel un st i)"

text \<open>\<open>live\<close> is the rent sysvar, as in \<open>Rent\<close>.\<close>

definition rent_exempt_min_internal :: "rent outcome \<Rightarrow> nat \<Rightarrow> u64 outcome" where
  "rent_exempt_min_internal live data_len = minimum_balance_live live data_len"

definition safe_realloc_unchecked :: "bool \<Rightarrow> sbf_gate_state \<Rightarrow> rent outcome \<Rightarrow> nat \<Rightarrow> nat \<Rightarrow> nat \<Rightarrow> bool \<Rightarrow> unit act" where
  "safe_realloc_unchecked un st live i new_size payer require_payer_signature =
     act_bind (act_lift (rent_exempt_min_internal live new_size)) (\<lambda>rent_needed.
     act_bind (balance i) (\<lambda>current_lamports.
     let deficit = word_saturating_sub rent_needed current_lamports in
     act_bind
       (if deficit > 0 then
          act_bind (on_account payer check_writable) (\<lambda>_.
          act_bind (if require_payer_signature then on_account payer check_signer else act_return ()) (\<lambda>_.
          act_bind (balance payer) (\<lambda>payer_lamports.
          act_bind (act_lift (ok_or (word_checked_sub payer_lamports deficit) InsufficientFunds)) (\<lambda>after.
          act_return (Some after)))))
        else act_return None) (\<lambda>payer_lamports_after.
     act_bind
       (if deficit > 0 then
          act_bind (act_lift (ok_or (word_checked_add current_lamports deficit) ArithmeticOverflow)) (\<lambda>after.
          act_return (Some after))
        else act_return None) (\<lambda>account_lamports_after.
     act_bind (on_account i av_check_borrow_mut) (\<lambda>_.
     act_bind (update_account i (rt_resize un st new_size)) (\<lambda>_.
     case (payer_lamports_after, account_lamports_after) of
       (Some payer_lamports, Some account_lamports) \<Rightarrow>
         act_bind (rt_try_set_lamports st payer payer_lamports) (\<lambda>_.
         rt_try_set_lamports st i account_lamports)
     | _ \<Rightarrow> act_return ()))))))"

definition safe_realloc :: "bool \<Rightarrow> sbf_gate_state \<Rightarrow> rent outcome \<Rightarrow> nat \<Rightarrow> nat \<Rightarrow> nat \<Rightarrow> bytes \<Rightarrow> unit act" where
  "safe_realloc un st live i new_size payer program_id =
     act_bind (on_account i check_writable) (\<lambda>_.
     act_bind (on_account i (\<lambda>a. check_owner a program_id)) (\<lambda>_.
     safe_realloc_unchecked un st live i new_size payer True))"

definition safe_realloc_bounded :: "bool \<Rightarrow> sbf_gate_state \<Rightarrow> rent outcome \<Rightarrow> nat \<Rightarrow> nat \<Rightarrow> nat \<Rightarrow> nat \<Rightarrow> bytes \<Rightarrow> unit act" where
  "safe_realloc_bounded un st live i new_size min_size payer program_id =
     (if new_size < min_size then act_lift (Err InvalidRealloc)
      else safe_realloc un st live i new_size payer program_id)"

section \<open>All or nothing\<close>

definition accounts_ok :: "runtime_account list \<Rightarrow> bool" where
  "accounts_ok ws \<longleftrightarrow> distinct (List.map ra_address ws) \<and> list_all mem_ok ws \<and> list_all (\<lambda>a. length (ra_mem a) < 2 ^ 32) ws"

definition total_lamports :: "runtime_account list \<Rightarrow> nat" where
  "total_lamports ws = sum_list (List.map (\<lambda>a. unat (ra_lamports a)) ws)"

text \<open>The gate as the program can leave it: no evaluator, or the store's own.\<close>

definition gate_ready :: "sbf_gate_state \<Rightarrow> bool" where
  "gate_ready st \<longleftrightarrow> sb_checker st = None \<or> sb_checker st = Some gate_store_check"

text \<open>
  A result that is all or nothing: on success the lamports are conserved and only accounts in
  \<open>allowed\<close> have a new balance; on an error nothing changed.
\<close>

definition settled :: "(bytes \<Rightarrow> bool) \<Rightarrow> runtime_account list \<Rightarrow> runtime_account list \<times> 'a outcome \<Rightarrow> bool" where
  "settled allowed ws r =
     (case r of
        (ws', Ok _) \<Rightarrow>
          accounts_ok ws' \<and> total_lamports ws' = total_lamports ws \<and> List.map ra_address ws' = List.map ra_address ws \<and>
          (\<forall>k < length ws. ra_lamports (ws' ! k) \<noteq> ra_lamports (ws ! k) \<longrightarrow> allowed (ra_address (ws ! k)))
      | (ws', Err _) \<Rightarrow> ws' = ws
      | (ws', Trap) \<Rightarrow> False)"

lemma check_loop_no_trap: "check_loop p args es a c first \<noteq> Trap"
  by (induction p args es a c first rule: check_loop.induct) (auto simp: Let_def)

lemma store_check_no_trap: "gate_store_check s a c \<noteq> Trap"
  using check_loop_no_trap by (auto simp: gate_store_check_def split: option.splits)

lemma gate_no_trap:
  assumes "gate_ready st"
  shows "check_lamport_mutation st a \<noteq> Trap" "check_account_transition un st a \<noteq> Trap" "check_data_mutation un st a off sz \<noteq> Trap"
  using assms store_check_no_trap
  by (auto simp: gate_ready_def check_lamport_mutation_def check_account_transition_def check_data_mutation_def sbf_check_def
      sbf_any_active_def)

lemma settled_read:
  "i < length ws \<Longrightarrow> f (ws ! i) \<noteq> Trap \<Longrightarrow> (\<And>x. f (ws ! i) = Ok x \<Longrightarrow> settled al ws (g x ws)) \<Longrightarrow>
   settled al ws (act_bind (on_account i f) g ws)"
  by (cases "f (ws ! i)") (simp_all add: act_bind_def on_account_def settled_def)

lemma settled_lift:
  "r \<noteq> Trap \<Longrightarrow> (\<And>x. r = Ok x \<Longrightarrow> settled al ws (g x ws)) \<Longrightarrow> settled al ws (act_bind (act_lift r) g ws)"
  by (cases r) (simp_all add: act_bind_def act_lift_def settled_def)

lemma settled_balance: "i < length ws \<Longrightarrow> settled al ws (g (ra_lamports (ws ! i)) ws) \<Longrightarrow> settled al ws (act_bind (balance i) g ws)"
  unfolding balance_def by (rule settled_read) (simp_all add: av_lamports_def)

lemma settled_address: "i < length ws \<Longrightarrow> settled al ws (g (ra_address (ws ! i)) ws) \<Longrightarrow> settled al ws (act_bind (address_of i) g ws)"
  unfolding address_of_def by (rule settled_read) simp_all

lemma settled_same: "accounts_ok ws \<Longrightarrow> r \<noteq> Trap \<Longrightarrow> settled al ws (ws, r)"
  by (cases r) (simp_all add: settled_def)

lemma settled_act_lift: "accounts_ok ws \<Longrightarrow> r \<noteq> Trap \<Longrightarrow> settled al ws (act_lift r ws)"
  unfolding act_lift_def by (rule settled_same)

lemma total_update: "i < length ws \<Longrightarrow> total_lamports (ws[i := a]) + unat (ra_lamports (ws ! i)) = total_lamports ws + unat (ra_lamports a)"
  using member_le_sum_list [of "unat (ra_lamports (ws ! i))" "List.map (\<lambda>a. unat (ra_lamports a)) ws"]
  unfolding total_lamports_def by (simp add: map_update sum_list_update)

lemma accounts_ok_update:
  assumes "accounts_ok ws" and "i < length ws" and "mem_ok a" and "length (ra_mem a) < 2 ^ 32" and "ra_address a = ra_address (ws ! i)"
  shows "accounts_ok (ws[i := a])" "List.map ra_address (ws[i := a]) = List.map ra_address ws"
proof -
  show m: "List.map ra_address (ws[i := a]) = List.map ra_address ws"
    using assms(2,5) by (simp add: map_update list_update_same_conv)
  show "accounts_ok (ws[i := a])"
    using assms unfolding accounts_ok_def m by (auto simp: list_all_iff dest!: set_update_subset_insert [THEN subsetD])
qed

lemma settled_two:
  assumes ok: "accounts_ok ws" and ij: "i < length ws" "j < length ws" "i \<noteq> j"
    and a: "mem_ok a" "length (ra_mem a) < 2 ^ 32" "ra_address a = ra_address (ws ! i)"
    and b: "mem_ok b" "length (ra_mem b) < 2 ^ 32" "ra_address b = ra_address (ws ! j)"
    and sum: "unat (ra_lamports a) + unat (ra_lamports b) = unat (ra_lamports (ws ! i)) + unat (ra_lamports (ws ! j))"
    and al: "al (ra_address (ws ! i))" "al (ra_address (ws ! j))"
  shows "settled al ws (ws[i := a, j := b], Ok ())"
proof -
  note u1 = accounts_ok_update [OF ok ij(1) a]
  have "j < length (ws[i := a])" "ra_address b = ra_address (ws[i := a] ! j)" using ij b(3) by simp_all
  note u2 = accounts_ok_update [OF u1(1) this(1) b(1,2) this(2)]
  have "total_lamports (ws[i := a, j := b]) + unat (ra_lamports (ws ! j)) = total_lamports (ws[i := a]) + unat (ra_lamports b)"
    using total_update [of j "ws[i := a]" b] ij by simp
  then have "total_lamports (ws[i := a, j := b]) = total_lamports ws" using total_update [OF ij(1), of a] sum by linarith
  moreover have "al (ra_address (ws ! k))" if "ra_lamports (ws[i := a, j := b] ! k) \<noteq> ra_lamports (ws ! k)" for k
    using that al by (cases "k = i"; cases "k = j") (auto simp: nth_list_update)
  ultimately show ?thesis using u1 u2 by (simp add: settled_def)
qed

lemma distinct_accounts: "ra_address (ws ! i) \<noteq> ra_address (ws ! j) \<Longrightarrow> i \<noteq> j"
  by auto

lemma set_lamports_eq:
  "i < length ws \<Longrightarrow> check_lamport_mutation st (ra_address (ws ! i)) = Ok () \<Longrightarrow>
   rt_try_set_lamports st i v ws = (ws[i := av_set_lamports (ws ! i) v], Ok ())"
  by (simp add: rt_try_set_lamports_def act_bind_def on_account_def update_account_def)

lemma two_sets:
  assumes "i < length ws" and "j < length ws" and "i \<noteq> j"
    and "check_lamport_mutation st (ra_address (ws ! i)) = Ok ()" and "check_lamport_mutation st (ra_address (ws ! j)) = Ok ()"
  shows "act_bind (rt_try_set_lamports st i v) (\<lambda>_. rt_try_set_lamports st j w) ws =
    (ws[i := av_set_lamports (ws ! i) v, j := av_set_lamports (ws ! j) w], Ok ())"
proof -
  have "rt_try_set_lamports st j w (ws[i := av_set_lamports (ws ! i) v]) =
      (ws[i := av_set_lamports (ws ! i) v, j := av_set_lamports (ws ! j) w], Ok ())"
    using set_lamports_eq [of j "ws[i := av_set_lamports (ws ! i) v]" st w] assms by simp
  then show ?thesis unfolding act_bind_def set_lamports_eq [OF assms(1,4)] by simp
qed

lemma account_ok: "accounts_ok ws \<Longrightarrow> i < length ws \<Longrightarrow> mem_ok (ws ! i) \<and> length (ra_mem (ws ! i)) < 2 ^ 32"
  by (simp add: accounts_ok_def list_all_length)

lemma mem_ok_set_lamports [simp]: "mem_ok (av_set_lamports a v) = mem_ok a"
  by (simp add: mem_ok_def av_set_lamports_def av_data_len_def av_original_data_len_def)

lemma set_lamports_simps [simp]:
  "ra_address (av_set_lamports a v) = ra_address a" "ra_mem (av_set_lamports a v) = ra_mem a"
  "ra_lamports (av_set_lamports a v) = v" "ra_data_len (av_set_lamports a v) = ra_data_len a"
  by (simp_all add: av_set_lamports_def)

lemma require_no_trap [simp]:
  "av_require_writable a \<noteq> Trap" "av_require_owned_by a p \<noteq> Trap" "av_check_borrow_mut a \<noteq> Trap" "ok_or x e \<noteq> Trap"
  by (simp_all add: av_require_writable_def av_require_owned_by_def av_check_borrow_mut_def)

lemma ok_or_Ok: "ok_or x e = Ok y \<longleftrightarrow> x = Some y"
  by (cases x) simp_all

lemma transfer_settled:
  assumes ok: "accounts_ok ws" "gate_ready st" and ij: "from < length ws" "dest < length ws"
  shows "settled (\<lambda>a. check_lamport_mutation st a = Ok ()) ws (transfer_lamports st from dest amount ws)"
proof -
  let ?al = "\<lambda>a. check_lamport_mutation st a = Ok ()" and ?f = "ws ! from" and ?d = "ws ! dest"
  have final: "settled ?al ws (act_bind (rt_try_set_lamports st from v) (\<lambda>_. rt_try_set_lamports st dest w) ws)"
    if gate: "?al (ra_address ?f)" "?al (ra_address ?d)" and ne: "ra_address ?f \<noteq> ra_address ?d"
      and v: "unat (ra_lamports ?f) = unat v + unat amount" and w: "unat w = unat (ra_lamports ?d) + unat amount" for v w
  proof -
    note ne' = distinct_accounts [OF ne]
    show ?thesis unfolding two_sets [OF ij ne' gate]
      using account_ok [OF ok(1) ij(1)] account_ok [OF ok(1) ij(2)] ok ij ne' gate v w by (intro settled_two) simp_all
  qed
  show ?thesis
    unfolding transfer_lamports_def
    using ij ok gate_no_trap [OF ok(2)]
    by (intro settled_read settled_balance settled_address)
      (auto intro!: settled_lift settled_balance settled_act_lift final simp: ok_or_Ok)
qed

text \<open>Rewriting an account through its guard leaves the header alone.\<close>

lemma zero_data_eq:
  assumes "mem_ok a" and "av_check_borrow_mut a = Ok ()"
  shows "boundary_zero_data a = Ok (a\<lparr>ra_mem := bsplice 0 (replicate (av_data_len a) 0) (ra_mem a)\<rparr>)"
proof -
  have len: "av_data_len a \<le> length (ra_mem a)" using assms(1) by (simp add: mem_ok_def)
  have free: "borrow_state a = not_borrowed" using assms(2) by (simp add: av_check_borrow_mut_def split: if_splits)
  have "av_data_len (a\<lparr>borrow_state := 0\<rparr>) = av_data_len a" by (simp add: av_data_len_def)
  then show ?thesis
    using len assms(2) free
    by (simp add: boundary_zero_data_def av_try_borrow_mut_def av_borrow_unchecked_def through_guard_def zero_guarded_def ref_mut_drop_def Let_def)
qed

lemma mem_ok_mem: "mem_ok a \<Longrightarrow> length m = length (ra_mem a) \<Longrightarrow> mem_ok (a\<lparr>ra_mem := m\<rparr>)"
  by (simp add: mem_ok_def av_data_len_def av_original_data_len_def)

lemma preflighted_settled:
  assumes ok: "accounts_ok ws" "gate_ready st" and ij: "i < length ws" "dest < length ws"
  shows "settled (\<lambda>a. check_lamport_mutation st a = Ok ()) ws (close_to_preflighted st i dest ws)"
proof -
  let ?al = "\<lambda>a. check_lamport_mutation st a = Ok ()" and ?a = "ws ! i" and ?d = "ws ! dest"
  have final: "settled ?al ws (act_bind (update_account i boundary_zero_data) (\<lambda>_.
      act_bind (rt_try_set_lamports st i 0) (\<lambda>_. rt_try_set_lamports st dest credited)) ws)"
    if gate: "?al (ra_address ?a)" "?al (ra_address ?d)" and ne: "ra_address ?a \<noteq> ra_address ?d"
      and free: "av_check_borrow_mut ?a = Ok ()" and c: "unat credited = unat (ra_lamports ?d) + unat (ra_lamports ?a)" for credited
  proof -
    note ne' = distinct_accounts [OF ne]
    have a: "mem_ok ?a" "length (ra_mem ?a) < 2 ^ 32" and d: "mem_ok ?d" "length (ra_mem ?d) < 2 ^ 32"
      using account_ok [OF ok(1)] ij by simp_all
    let ?z = "?a\<lparr>ra_mem := bsplice 0 (replicate (av_data_len ?a) 0) (ra_mem ?a)\<rparr>"
    have l: "av_data_len ?a \<le> length (ra_mem ?a)" using a(1) by (simp add: mem_ok_def)
    have z: "mem_ok ?z" "length (ra_mem ?z) < 2 ^ 32" using a l by (simp_all add: mem_ok_mem)
    have "act_bind (rt_try_set_lamports st i 0) (\<lambda>_. rt_try_set_lamports st dest credited) (ws[i := ?z]) =
        (ws[i := av_set_lamports ?z 0, dest := av_set_lamports ?d credited], Ok ())"
      using two_sets [of i "ws[i := ?z]" dest st 0 credited] ij ne' gate by simp
    then have "act_bind (update_account i boundary_zero_data) (\<lambda>_.
        act_bind (rt_try_set_lamports st i 0) (\<lambda>_. rt_try_set_lamports st dest credited)) ws =
        (ws[i := av_set_lamports ?z 0, dest := av_set_lamports ?d credited], Ok ())"
      using ij(1) zero_data_eq [OF a(1) free]
      by (simp add: act_bind_def [of "update_account i boundary_zero_data"] update_account_def)
    then show ?thesis using z d ij ne' c gate ok by (simp only:) (intro settled_two, simp_all)
  qed
  show ?thesis
    unfolding close_to_preflighted_def
    using ij ok gate_no_trap [OF ok(2)]
    by (auto intro!: settled_address settled_read settled_lift settled_balance settled_act_lift final simp: ok_or_Ok)
qed

lemma close_to_settled:
  assumes "accounts_ok ws" and "gate_ready st" and "i < length ws" and "dest < length ws"
  shows "settled (\<lambda>a. check_lamport_mutation st a = Ok ()) ws (close_to un st i dest program_id ws)"
    "settled (\<lambda>a. check_lamport_mutation st a = Ok ()) ws (close_to_unchecked un st i dest ws)"
  unfolding close_to_def close_to_unchecked_def
  using assms gate_no_trap [OF assms(2)] by (auto intro!: settled_read preflighted_settled)

lemma batch_transfer_settled:
  assumes ok: "accounts_ok ws" and ij: "from < length ws" "dest < length ws"
  shows "settled (\<lambda>_. True) ws (batch_transfer_lamports from dest amount ws)"
proof -
  let ?f = "ws ! from" and ?d = "ws ! dest"
  have final: "settled (\<lambda>_. True) ws (act_bind (update_account from (\<lambda>a. Ok (av_set_lamports a v)))
      (\<lambda>_. update_account dest (\<lambda>a. Ok (av_set_lamports a w))) ws)"
    if ne: "ra_address ?f \<noteq> ra_address ?d" and v: "unat (ra_lamports ?f) = unat v + unat amount"
      and w: "unat w = unat (ra_lamports ?d) + unat amount" for v w
  proof -
    note ne' = distinct_accounts [OF ne]
    have "act_bind (update_account from (\<lambda>a. Ok (av_set_lamports a v))) (\<lambda>_. update_account dest (\<lambda>a. Ok (av_set_lamports a w))) ws =
        (ws[from := av_set_lamports ?f v, dest := av_set_lamports ?d w], Ok ())"
      using ij ne' by (simp add: act_bind_def update_account_def)
    then show ?thesis
      using account_ok [OF ok(1) ij(1)] account_ok [OF ok(1) ij(2)] ok ij ne' v w
      by (simp only:) (intro settled_two, simp_all)
  qed
  have sub: "unat (ra_lamports ?f) = unat (ra_lamports ?f - amount) + unat amount" "native_sub (ra_lamports ?f) amount = Ok (ra_lamports ?f - amount)"
    if "\<not> ra_lamports ?f < amount"
    using that by (simp_all add: native_sub_def unat_sub_exact word_le_nat_alt word_less_nat_alt word_checked_sub_def)
  show ?thesis
    unfolding batch_transfer_lamports_def
    using ij ok sub
    by (auto intro!: settled_address settled_read settled_lift settled_balance settled_act_lift settled_same final
        simp: ok_or_Ok act_return_def)
qed

lemma close_eq:
  assumes "mem_ok a" and "av_is_writable a" and "av_check_borrow_mut a = Ok ()"
  shows "\<exists>a'. av_close a = Ok a' \<and> mem_ok a' \<and> ra_lamports a' = 0 \<and> ra_address a' = ra_address a \<and>
    length (ra_mem a') = length (ra_mem a)"
proof -
  have len: "av_data_len a \<le> length (ra_mem a)" "av_data_len (a\<lparr>ra_lamports := 0\<rparr>) = av_data_len a"
    using assms(1) by (simp_all add: mem_ok_def av_data_len_def)
  let ?m = "if 0 < av_data_len a then bsplice 0 (replicate (av_data_len a) 0) (ra_mem a) else ra_mem a"
  have run: "av_close a = Ok (a\<lparr>ra_lamports := 0, ra_mem := ?m, ra_data_len := 0, ra_owner := system_program_id\<rparr>)"
    using assms(2,3) len by (simp add: av_close_def av_require_writable_def av_set_lamports_def Let_def)
  moreover have "mem_ok (a\<lparr>ra_lamports := 0, ra_mem := ?m, ra_data_len := 0, ra_owner := system_program_id\<rparr>)"
    using assms(1) len by (simp add: mem_ok_def av_data_len_def av_original_data_len_def)
  ultimately show ?thesis using len by auto
qed

lemma close_and_transfer_settled:
  assumes ok: "accounts_ok ws" and ij: "i < length ws" "dest < length ws"
  shows "settled (\<lambda>_. True) ws (close_and_transfer i dest ws)"
proof -
  let ?a = "ws ! i" and ?d = "ws ! dest"
  have final: "settled (\<lambda>_. True) ws (act_bind (update_account i av_close) (\<lambda>_. update_account dest (\<lambda>a. Ok (av_set_lamports a w))) ws)"
    if ne: "ra_address ?a \<noteq> ra_address ?d" and chk: "av_require_writable ?a = Ok ()" "av_check_borrow_mut ?a = Ok ()"
      and w: "unat w = unat (ra_lamports ?d) + unat (ra_lamports ?a)" for w
  proof -
    note ne' = distinct_accounts [OF ne]
    have "av_is_writable ?a" using chk(1) by (simp add: av_require_writable_def split: if_splits)
    then obtain a' where a': "av_close ?a = Ok a'" "mem_ok a'" "ra_lamports a' = 0" "ra_address a' = ra_address ?a"
        "length (ra_mem a') = length (ra_mem ?a)"
      using close_eq [of ?a] chk(2) account_ok [OF ok ij(1)] by blast
    have "act_bind (update_account i av_close) (\<lambda>_. update_account dest (\<lambda>a. Ok (av_set_lamports a w))) ws =
        (ws[i := a', dest := av_set_lamports ?d w], Ok ())"
      using ij ne' a' by (simp add: act_bind_def update_account_def)
    then show ?thesis
      using a' account_ok [OF ok(1) ij(1)] account_ok [OF ok(1) ij(2)] ok ij ne' w
      by (simp only:) (intro settled_two, simp_all)
  qed
  show ?thesis
    unfolding close_and_transfer_def
    using ij ok
    by (auto intro!: settled_address settled_read settled_lift settled_balance settled_act_lift final simp: ok_or_Ok)
qed

lemma settled_one:
  assumes "accounts_ok ws" and "i < length ws" and "mem_ok a" and "length (ra_mem a) < 2 ^ 32"
    and "ra_address a = ra_address (ws ! i)" and "ra_lamports a = ra_lamports (ws ! i)"
  shows "settled al ws (ws[i := a], Ok ())"
  using accounts_ok_update [OF assms(1-5)] total_update [OF assms(2), of a] assms(2,6)
  by (auto simp: settled_def nth_list_update)

lemma check_resize_bound:
  assumes "mem_ok a" and "length (ra_mem a) < 2 ^ 32" and "av_check_resize a n = Ok ()"
  shows "n < 2 ^ 33"
proof (cases "n = av_data_len a")
  case True
  then show ?thesis using assms(1,2) by (simp add: mem_ok_def)
next
  case False
  then have "n - av_original_data_len a \<le> 10240"
    using assms(3) by (auto simp: av_check_resize_def obind_Ok_iff max_permitted_data_increase_def split: if_splits)
  moreover have "av_original_data_len a < 2 ^ 32"
    unfolding av_original_data_len_def using unsigned_less [of "ra_resize_delta a", where 'a = nat] by simp
  ultimately show ?thesis by simp
qed

lemma resize_ok:
  assumes "mem_ok a" and "av_check_resize a n = Ok ()"
  shows "\<exists>a'. av_resize a n = Ok a' \<and> mem_ok a' \<and> ra_lamports a' = ra_lamports a \<and> ra_address a' = ra_address a \<and>
    length (ra_mem a') = length (ra_mem a)"
proof (cases "n = av_data_len a")
  case True
  then show ?thesis using assms(1) by (simp add: av_resize_def)
next
  case False
  then have "n - av_original_data_len a \<le> max_permitted_data_increase"
    using assms(2) by (auto simp: av_check_resize_def obind_Ok_iff split: if_splits)
  then have n: "n \<le> length (ra_mem a)" using assms(1) unfolding mem_ok_def by linarith
  let ?m = "if av_data_len a < n then bsplice (av_data_len a) (replicate (n - av_data_len a) 0) (ra_mem a) else ra_mem a"
  have run: "av_resize a n = Ok (a\<lparr>ra_mem := ?m, ra_data_len := word_of_nat n\<rparr>)"
    using False n assms(2) by (simp add: av_resize_def Let_def)
  then have "mem_ok (a\<lparr>ra_mem := ?m, ra_data_len := word_of_nat n\<rparr>)" using resize_data [OF assms(1) run] by blast
  then show ?thesis using run n by auto
qed

lemma batch_transfer_cases:
  assumes "from < length ws" and "dest < length ws" and "ra_address (ws ! from) \<noteq> ra_address (ws ! dest)"
  shows "(\<exists>e. batch_transfer_lamports from dest amount ws = (ws, Err e)) \<or>
    (\<exists>v w. batch_transfer_lamports from dest amount ws =
        (ws[from := av_set_lamports (ws ! from) v, dest := av_set_lamports (ws ! dest) w], Ok ()) \<and>
      unat (ra_lamports (ws ! from)) = unat v + unat amount \<and> unat w = unat (ra_lamports (ws ! dest)) + unat amount)"
proof -
  let ?f = "ws ! from" and ?d = "ws ! dest"
  note ne' = distinct_accounts [OF assms(3)]
  note step = act_bind_def on_account_def update_account_def balance_def address_of_def act_lift_def av_lamports_def
  show ?thesis
  proof (cases "av_is_writable ?f \<and> av_is_writable ?d \<and> \<not> ra_lamports ?f < amount")
    case False
    then have "\<exists>e. batch_transfer_lamports from dest amount ws = (ws, Err e)"
      using assms by (auto simp: batch_transfer_lamports_def step av_require_writable_def)
    then show ?thesis ..
  next
    case True
    then have le: "amount \<le> ra_lamports ?f" by (simp add: not_less)
    then have sub: "native_sub (ra_lamports ?f) amount = Ok (ra_lamports ?f - amount)"
      by (simp add: native_sub_def word_checked_sub_def)
    show ?thesis
    proof (cases "word_checked_add (ra_lamports ?d) amount")
      case None
      then have "batch_transfer_lamports from dest amount ws = (ws, Err ArithmeticOverflow)"
        using True assms by (simp add: batch_transfer_lamports_def step av_require_writable_def)
      then show ?thesis by blast
    next
      case (Some w)
      have w: "unat w = unat (ra_lamports ?d) + unat amount" using Some by (simp only: word_checked_add_Some)
      have "batch_transfer_lamports from dest amount ws =
          (ws[from := av_set_lamports ?f (ra_lamports ?f - amount), dest := av_set_lamports ?d w], Ok ())"
        unfolding batch_transfer_lamports_def step using True assms ne' sub
        by (simp add: av_require_writable_def Some del: word_checked_add_Some)
      moreover have "unat (ra_lamports ?f) = unat (ra_lamports ?f - amount) + unat amount"
        using le by (simp add: unat_sub_exact word_le_nat_alt)
      ultimately show ?thesis using w by blast
    qed
  qed
qed

lemma check_resize_set_lamports [simp]: "av_check_resize (av_set_lamports a v) n = av_check_resize a n"
  by (simp add: av_check_resize_def av_set_lamports_def av_data_len_def av_original_data_len_def av_require_writable_def
      av_is_writable_def av_check_borrow_mut_def)

lemma act_assoc: "act_bind (act_bind m f) g = act_bind m (\<lambda>x. act_bind (f x) g)"
  by (rule ext) (simp add: act_bind_def split: prod.split outcome.split)

lemma act_lift_error: "act_bind (act_lift (Err e)) g ws = (ws, Err e)"
  by (simp add: act_bind_def act_lift_def)

lemma check_resize_no_trap: "av_check_resize a n \<noteq> Trap"
  by (simp add: av_check_resize_def av_require_writable_def av_check_borrow_mut_def)

lemma realloc_settled:
  assumes ok: "accounts_ok ws" and i: "i < length ws" and p: "\<forall>p. payer = Some p \<longrightarrow> p < length ws"
    and req: "av_check_resize (ws ! i) n = Ok () \<Longrightarrow> required \<noteq> Trap"
  shows "settled (\<lambda>_. True) ws (realloc_funded required i n payer ws)"
proof -
  let ?a = "ws ! i" and ?resize = "\<lambda>_ :: unit. update_account i (\<lambda>a. av_resize a n)"
  have a: "mem_ok ?a" "length (ra_mem ?a) < 2 ^ 32" using account_ok [OF ok i] by simp_all
  have plain: "settled (\<lambda>_. True) ws (act_bind (act_return ()) ?resize ws)" if chk: "av_check_resize ?a n = Ok ()"
  proof -
    obtain a' where "av_resize ?a n = Ok a'" "mem_ok a'" "ra_lamports a' = ra_lamports ?a" "ra_address a' = ra_address ?a"
        "length (ra_mem a') = length (ra_mem ?a)"
      using resize_ok [OF a(1) chk] by blast
    then show ?thesis using i a ok by (simp add: act_bind_def act_return_def update_account_def settled_one)
  qed
  have funded: "settled (\<lambda>_. True) ws (act_bind (batch_transfer_lamports q i d) ?resize ws)"
    if chk: "av_check_resize ?a n = Ok ()" and ne: "ra_address ?a \<noteq> ra_address (ws ! q)" and q: "q < length ws" for q d
  proof -
    note ne' = distinct_accounts [OF ne]
    from batch_transfer_cases [OF q i ne [symmetric], of d] show ?thesis
    proof (elim disjE exE conjE)
      fix v w
      assume run: "batch_transfer_lamports q i d ws = (ws[q := av_set_lamports (ws ! q) v, i := av_set_lamports ?a w], Ok ())"
        and vw: "unat (ra_lamports (ws ! q)) = unat v + unat d" "unat w = unat (ra_lamports ?a) + unat d"
      have chk': "av_check_resize (av_set_lamports ?a w) n = Ok ()" "mem_ok (av_set_lamports ?a w)" using chk a by simp_all
      obtain a' where a': "av_resize (av_set_lamports ?a w) n = Ok a'" "mem_ok a'" "ra_lamports a' = w" "ra_address a' = ra_address ?a"
          "length (ra_mem a') = length (ra_mem ?a)"
        using resize_ok [OF chk'(2,1)] by auto
      have "act_bind (batch_transfer_lamports q i d) ?resize ws = (ws[q := av_set_lamports (ws ! q) v, i := a'], Ok ())"
        unfolding act_bind_def run using i a'(1) by (simp add: update_account_def)
      then show ?thesis
        using a' vw account_ok [OF ok q] a ok q i ne' by (simp only:) (intro settled_two, simp_all)
    qed (simp add: act_bind_def settled_def)
  qed
  have topup: "settled (\<lambda>_. True) ws (act_bind
      (case payer of
         Some q \<Rightarrow> act_bind (address_of i) (\<lambda>address. act_bind (address_of q) (\<lambda>payer_address.
           if address = payer_address then act_lift (Err InvalidArgument) else batch_transfer_lamports q i d))
       | None \<Rightarrow> act_lift (Err AccountNotRentExempt)) ?resize ws)"
    if chk: "av_check_resize ?a n = Ok ()" for d
  proof (cases payer)
    case (Some q)
    then have q: "q < length ws" using p by simp
    show ?thesis unfolding Some option.case act_assoc
      using funded [OF chk _ q] by (intro settled_address i q) (auto simp: act_lift_error settled_def)
  qed (simp add: act_lift_error settled_def)
  show ?thesis
    unfolding realloc_funded_def
  proof (intro settled_read settled_lift settled_balance i, goal_cases)
    case (3 x min_balance)
    then have chk: "av_check_resize ?a n = Ok ()" by simp
    show ?case using topup [OF chk] plain [OF chk] by simp
  qed (use req check_resize_no_trap in auto)
qed

section \<open>Runs of transfers\<close>

text \<open>The first three go through the runtime's gate, the others are the native layer's.\<close>

datatype transfer_call =
  TTransfer nat nat u64 | TCloseTo nat nat bytes | TCloseToUnchecked nat nat
| TBatchTransfer nat nat u64 | TCloseAndTransfer nat nat | TRealloc nat nat "nat option" | TReallocWith rent nat nat "nat option"

fun transfer_exec :: "bool \<Rightarrow> sbf_gate_state \<Rightarrow> transfer_call \<Rightarrow> unit act" where
  "transfer_exec un st (TTransfer i j amount) = transfer_lamports st i j amount"
| "transfer_exec un st (TCloseTo i j program_id) = close_to un st i j program_id"
| "transfer_exec un st (TCloseToUnchecked i j) = close_to_unchecked un st i j"
| "transfer_exec un st (TBatchTransfer i j amount) = batch_transfer_lamports i j amount"
| "transfer_exec un st (TCloseAndTransfer i j) = close_and_transfer i j"
| "transfer_exec un st (TRealloc i n payer) = realloc_checked i n payer"
| "transfer_exec un st (TReallocWith r i n payer) = realloc_checked_with r i n payer"

fun gated_call :: "transfer_call \<Rightarrow> bool" where
  "gated_call (TTransfer _ _ _) = True"
| "gated_call (TCloseTo _ _ _) = True"
| "gated_call (TCloseToUnchecked _ _) = True"
| "gated_call _ = False"

fun call_in_range :: "nat \<Rightarrow> transfer_call \<Rightarrow> bool" where
  "call_in_range n (TTransfer i j _) \<longleftrightarrow> i < n \<and> j < n"
| "call_in_range n (TCloseTo i j _) \<longleftrightarrow> i < n \<and> j < n"
| "call_in_range n (TCloseToUnchecked i j) \<longleftrightarrow> i < n \<and> j < n"
| "call_in_range n (TBatchTransfer i j _) \<longleftrightarrow> i < n \<and> j < n"
| "call_in_range n (TCloseAndTransfer i j) \<longleftrightarrow> i < n \<and> j < n"
| "call_in_range n (TRealloc i _ payer) \<longleftrightarrow> i < n \<and> (case payer of Some p \<Rightarrow> p < n | None \<Rightarrow> True)"
| "call_in_range n (TReallocWith _ i _ payer) \<longleftrightarrow> i < n \<and> (case payer of Some p \<Rightarrow> p < n | None \<Rightarrow> True)"

text \<open>The positions a call names.\<close>

fun call_accounts :: "transfer_call \<Rightarrow> nat set" where
  "call_accounts (TTransfer i j _) = {i, j}"
| "call_accounts (TCloseTo i j _) = {i, j}"
| "call_accounts (TCloseToUnchecked i j) = {i, j}"
| "call_accounts (TBatchTransfer i j _) = {i, j}"
| "call_accounts (TCloseAndTransfer i j) = {i, j}"
| "call_accounts (TRealloc i _ payer) = insert i (set_option payer)"
| "call_accounts (TReallocWith _ i _ payer) = insert i (set_option payer)"

definition confined :: "nat set \<Rightarrow> 'a act \<Rightarrow> bool" where
  "confined S m \<longleftrightarrow> (\<forall>ws k. k \<notin> S \<longrightarrow> fst (m ws) ! k = ws ! k)"

lemma confined_bind [intro]: "confined S m \<Longrightarrow> (\<And>x. confined S (f x)) \<Longrightarrow> confined S (act_bind m f)"
  by (auto simp: confined_def act_bind_def split: prod.split outcome.split dest: spec)
    (metis fst_conv)+

lemma confined_steps [intro, simp]:
  "confined S (act_lift r)" "confined S (act_return x)" "confined S (on_account i f')" "confined S (balance i)"
  "confined S (address_of i)"
  by (auto simp: confined_def act_lift_def act_return_def on_account_def balance_def address_of_def split: outcome.split)

lemma confined_update [intro]: "i \<in> S \<Longrightarrow> confined S (update_account i f)"
  by (auto simp: confined_def update_account_def nth_list_update split: outcome.split)

lemma confined_set_lamports [intro]: "i \<in> S \<Longrightarrow> confined S (rt_try_set_lamports st i v)"
  unfolding rt_try_set_lamports_def by auto

lemma confined_if [intro]: "confined S m \<Longrightarrow> confined S m' \<Longrightarrow> confined S (if b then m else m')"
  by simp

lemma confined_batch_transfer [intro]: "i \<in> S \<Longrightarrow> j \<in> S \<Longrightarrow> confined S (batch_transfer_lamports i j amount)"
  unfolding batch_transfer_lamports_def by (intro confined_bind confined_steps confined_if confined_update)

lemma confined_realloc: "insert i (set_option payer) \<subseteq> S \<Longrightarrow> confined S (realloc_funded required i n payer)"
  unfolding realloc_funded_def
  by (cases payer) (auto intro!: confined_bind confined_steps confined_if confined_update confined_batch_transfer)

lemma exec_confined: "confined (call_accounts c) (transfer_exec un st c)"
  by (cases c)
    (auto simp: transfer_lamports_def close_to_def close_to_unchecked_def close_to_preflighted_def close_and_transfer_def
      realloc_checked_def realloc_checked_with_def
      intro!: confined_bind confined_if confined_update confined_set_lamports confined_batch_transfer confined_realloc)

fun run_transfers :: "bool \<Rightarrow> sbf_gate_state \<Rightarrow> runtime_account list \<Rightarrow> transfer_call list \<Rightarrow> runtime_account list \<times> unit outcome list" where
  "run_transfers un st ws [] = (ws, [])"
| "run_transfers un st ws (c # cs) =
     (let (ws', r) = transfer_exec un st c ws; (ws'', rs) = run_transfers un st ws' cs in (ws'', r # rs))"

lemma rent_exempt_minimum_small: "n < 2 ^ 33 \<Longrightarrow> rent_exempt_minimum n \<noteq> Trap"
proof -
  assume n: "n < 2 ^ 33"
  have w: "unat (word_of_nat n :: u64) = n" using n by (intro unat_word_of_nat) simp
  let ?b = "word_of_nat n + account_storage_overhead :: u64"
  have a: "unat ?b = n + 128" "native_add (word_of_nat n) account_storage_overhead = Ok ?b"
    using n w by (simp_all add: account_storage_overhead_def unat_add_exact native_add_eq)
  have l: "unat launch_lamports_per_byte_year = 3480" "unat exemption_threshold_years = 2"
    by (simp_all add: launch_lamports_per_byte_year_def exemption_threshold_years_def)
  have lt: "unat ?b * unat launch_lamports_per_byte_year < 2 ^ LENGTH(64)" using n unfolding a(1) l by simp
  have m: "unat (?b * launch_lamports_per_byte_year) = (n + 128) * 3480"
      "native_mul ?b launch_lamports_per_byte_year = Ok (?b * launch_lamports_per_byte_year)"
    using unat_mult_exact [OF lt] native_mul_eq [OF lt] unfolding a(1) l by simp_all
  have "unat (?b * launch_lamports_per_byte_year) * unat exemption_threshold_years < 2 ^ LENGTH(64)" using n unfolding m(1) l by simp
  from native_mul_eq [OF this]
  have "native_mul (?b * launch_lamports_per_byte_year) exemption_threshold_years = Ok (?b * launch_lamports_per_byte_year * exemption_threshold_years)" .
  then show ?thesis unfolding rent_exempt_minimum_def a(2) obind.simps m(2) by simp
qed

lemma settled_weaken: "settled al ws r \<Longrightarrow> (\<And>a. al a \<Longrightarrow> al' a) \<Longrightarrow> settled al' ws r"
  by (auto simp: settled_def split: prod.splits outcome.splits)

lemma exec_settled:
  assumes "accounts_ok ws" and "gate_ready st" and "call_in_range (length ws) c"
  shows "settled (\<lambda>a. gated_call c \<longrightarrow> check_lamport_mutation st a = Ok ()) ws (transfer_exec un st c ws)"
proof (cases c)
  case (TTransfer i j amount)
  then show ?thesis using transfer_settled [OF assms(1,2), of i j amount] assms(3) by simp
next
  case (TCloseTo i j p)
  then show ?thesis using close_to_settled(1) [OF assms(1,2), of i j un p] assms(3) by simp
next
  case (TCloseToUnchecked i j)
  then show ?thesis using close_to_settled(2) [OF assms(1,2), of i j un] assms(3) by simp
next
  case (TBatchTransfer i j amount)
  then show ?thesis using batch_transfer_settled [OF assms(1), of i j amount] assms(3) by (auto intro: settled_weaken)
next
  case (TCloseAndTransfer i j)
  then show ?thesis using close_and_transfer_settled [OF assms(1), of i j] assms(3) by (auto intro: settled_weaken)
next
  case (TRealloc i n payer)
  then have i: "i < length ws" and p: "\<forall>p. payer = Some p \<longrightarrow> p < length ws" using assms(3) by (auto split: option.splits)
  have "settled (\<lambda>_. True) ws (realloc_funded (rent_exempt_minimum n) i n payer ws)"
  proof (rule realloc_settled [OF assms(1) i p])
    assume "av_check_resize (ws ! i) n = Ok ()"
    then have "n < 2 ^ 33" using account_ok [OF assms(1) i] check_resize_bound by blast
    then show "rent_exempt_minimum n \<noteq> Trap" by (rule rent_exempt_minimum_small)
  qed
  then show ?thesis using TRealloc by (auto simp: realloc_checked_def intro: settled_weaken)
next
  case (TReallocWith r i n payer)
  then have i: "i < length ws" and p: "\<forall>p. payer = Some p \<longrightarrow> p < length ws" using assms(3) by (auto split: option.splits)
  have "settled (\<lambda>_. True) ws (realloc_funded (Ok (minimum_balance r n)) i n payer ws)"
    by (rule realloc_settled [OF assms(1) i p]) simp
  then show ?thesis using TReallocWith by (auto simp: realloc_checked_with_def intro: settled_weaken)
qed

lemma settled_cases:
  assumes "settled al ws r" and "accounts_ok ws"
  shows "accounts_ok (fst r) \<and> total_lamports (fst r) = total_lamports ws \<and> List.map ra_address (fst r) = List.map ra_address ws \<and>
    snd r \<noteq> Trap \<and> (\<forall>k < length ws. \<not> al (ra_address (ws ! k)) \<longrightarrow> ra_lamports (fst r ! k) = ra_lamports (ws ! k)) \<and>
    (\<forall>e. snd r = Err e \<longrightarrow> fst r = ws)"
  using assms by (cases r; cases "snd r") (auto simp: settled_def)

lemma exec_refused:
  assumes "settled (\<lambda>a. gated_call c \<longrightarrow> check_lamport_mutation st a = Ok ()) ws (transfer_exec un st c ws)" and "accounts_ok ws"
    and "gated_call c \<or> k \<notin> call_accounts c" and "k < length ws" and "check_lamport_mutation st (ra_address (ws ! k)) \<noteq> Ok ()"
  shows "ra_lamports (fst (transfer_exec un st c ws) ! k) = ra_lamports (ws ! k)"
  using settled_cases [OF assms(1,2)] assms(3-5) exec_confined [of c un st] by (auto simp: confined_def)

lemma run_settled:
  "accounts_ok ws \<Longrightarrow> gate_ready st \<Longrightarrow> list_all (call_in_range (length ws)) cs \<Longrightarrow>
   accounts_ok (fst (run_transfers un st ws cs)) \<and> total_lamports (fst (run_transfers un st ws cs)) = total_lamports ws \<and>
   List.map ra_address (fst (run_transfers un st ws cs)) = List.map ra_address ws \<and>
   Trap \<notin> set (snd (run_transfers un st ws cs)) \<and>
   (\<forall>k < length ws. check_lamport_mutation st (ra_address (ws ! k)) \<noteq> Ok () \<longrightarrow>
      list_all (\<lambda>c. gated_call c \<or> k \<notin> call_accounts c) cs \<longrightarrow>
      ra_lamports (fst (run_transfers un st ws cs) ! k) = ra_lamports (ws ! k))"
proof (induction cs arbitrary: ws)
  case (Cons c cs)
  let ?r = "transfer_exec un st c ws" and ?P = "\<lambda>a. gated_call c \<longrightarrow> check_lamport_mutation st a = Ok ()"
  have "settled ?P ws ?r" using Cons.prems by (intro exec_settled) simp_all
  note refused = exec_refused [OF this Cons.prems(1)] and step = settled_cases [OF this Cons.prems(1)]
  have addr: "List.map ra_address (fst ?r) = List.map ra_address ws" using step by blast
  then have len: "length (fst ?r) = length ws" by (metis length_map)
  have same: "ra_address (fst ?r ! k) = ra_address (ws ! k)" if "k < length ws" for k
    using addr that len by (metis nth_map)
  have IH: "accounts_ok (fst (run_transfers un st (fst ?r) cs)) \<and>
      total_lamports (fst (run_transfers un st (fst ?r) cs)) = total_lamports (fst ?r) \<and>
      List.map ra_address (fst (run_transfers un st (fst ?r) cs)) = List.map ra_address (fst ?r) \<and>
      Trap \<notin> set (snd (run_transfers un st (fst ?r) cs)) \<and>
      (\<forall>k < length (fst ?r). check_lamport_mutation st (ra_address (fst ?r ! k)) \<noteq> Ok () \<longrightarrow>
         list_all (\<lambda>c. gated_call c \<or> k \<notin> call_accounts c) cs \<longrightarrow>
         ra_lamports (fst (run_transfers un st (fst ?r) cs) ! k) = ra_lamports (fst ?r ! k))"
    using Cons.prems step len by (intro Cons.IH) simp_all
  have run: "run_transfers un st ws (c # cs) =
      (fst (run_transfers un st (fst ?r) cs), snd ?r # snd (run_transfers un st (fst ?r) cs))"
    by (simp add: Let_def split_beta)
  show ?case unfolding run fst_conv snd_conv
  proof (intro conjI impI allI)
    show "Trap \<notin> set (snd ?r # snd (run_transfers un st (fst ?r) cs))" using step IH by auto
    fix k assume "k < length ws" "check_lamport_mutation st (ra_address (ws ! k)) \<noteq> Ok ()"
      "list_all (\<lambda>c. gated_call c \<or> k \<notin> call_accounts c) (c # cs)"
    then show "ra_lamports (fst (run_transfers un st (fst ?r) cs) ! k) = ra_lamports (ws ! k)"
      using refused IH len same by simp
  qed (use step IH in simp_all)
qed simp

lemma run_confined:
  "list_all (\<lambda>c. k \<notin> call_accounts c) cs \<Longrightarrow> fst (run_transfers un st ws cs) ! k = ws ! k"
proof (induction cs arbitrary: ws)
  case (Cons c cs)
  then show ?case using exec_confined [of c un st] by (simp add: Let_def split_beta confined_def)
qed simp

section \<open>The lifecycle helpers\<close>

definition data_gate :: "bool \<Rightarrow> sbf_gate_state \<Rightarrow> runtime_account \<Rightarrow> unit outcome" where
  "data_gate un st a =
     (if av_data_len a > 0 then check_data_mutation un st (ra_address a) 0 (word_of_nat (av_data_len a)) else Ok ())"

definition zeroed :: "runtime_account \<Rightarrow> runtime_account" where
  "zeroed a = a\<lparr>ra_mem := bsplice 0 (replicate (av_data_len a) 0) (ra_mem a)\<rparr>"

lemma borrow_and_release:
  assumes "mem_ok a"
  shows "obind (rt_try_borrow_mut un st a) (\<lambda>(a', g). ref_mut_drop a' g) =
    obind (data_gate un st a) (\<lambda>_. obind (av_check_borrow_mut a) (\<lambda>_. Ok a))"
proof -
  have len: "av_data_len (a\<lparr>borrow_state := 0\<rparr>) \<le> length (ra_mem a)" using assms by (simp add: mem_ok_def av_data_len_def)
  have "a\<lparr>borrow_state := not_borrowed\<rparr> = a" if "av_check_borrow_mut a = Ok ()"
    using that by (auto simp: av_check_borrow_mut_def split: if_splits)
  then show ?thesis
    using len
    by (cases "data_gate un st a"; cases "av_check_borrow_mut a")
      (simp_all add: rt_try_borrow_mut_def data_gate_def Let_def av_try_borrow_mut_def av_borrow_unchecked_def ref_mut_drop_def)
qed

lemma zero_through_guard:
  assumes "mem_ok a" and "data_gate un st a = Ok ()" and "av_check_borrow_mut a = Ok ()"
  shows "obind (rt_try_borrow_mut un st a) (through_guard zero_guarded) = Ok (zeroed a)"
  using zero_data_eq [OF assms(1,3)] assms(2)
  by (simp add: rt_try_borrow_mut_def data_gate_def Let_def boundary_zero_data_def zeroed_def)

lemma zeroed_simps [simp]:
  "ra_lamports (zeroed a) = ra_lamports a" "ra_address (zeroed a) = ra_address a"
  "mem_ok a \<Longrightarrow> length (ra_mem (zeroed a)) = length (ra_mem a)" "mem_ok a \<Longrightarrow> mem_ok (zeroed a)"
  "mem_ok a \<Longrightarrow> account_data (zeroed a) = replicate (av_data_len a) 0"
proof -
  assume a: "mem_ok a"
  then have len: "av_data_len a \<le> length (ra_mem a)" by (simp add: mem_ok_def)
  then show "length (ra_mem (zeroed a)) = length (ra_mem a)" by (simp add: zeroed_def)
  show "mem_ok (zeroed a)" unfolding zeroed_def using a len by (intro mem_ok_mem) simp_all
  have "av_data_len (zeroed a) = av_data_len a" by (simp add: zeroed_def av_data_len_def)
  then show "account_data (zeroed a) = replicate (av_data_len a) 0"
    using len by (simp add: account_data_def) (simp add: zeroed_def bsplice_def)
qed (simp_all add: zeroed_def)

lemma set_lamports_checks [simp]:
  "av_data_len (av_set_lamports a v) = av_data_len a" "av_check_borrow_mut (av_set_lamports a v) = av_check_borrow_mut a"
  "data_gate un st (av_set_lamports a v) = data_gate un st a"
  by (simp_all add: av_data_len_def av_check_borrow_mut_def data_gate_def av_set_lamports_def)

lemma safe_close_unchecked_eq:
  assumes ok: "accounts_ok ws" "gate_ready st" and ij: "i < length ws" "dest < length ws"
    and ne: "ra_address (ws ! i) \<noteq> ra_address (ws ! dest)"
  shows "safe_close_unchecked un st i dest ws =
    (case obind (data_gate un st (ws ! i)) (\<lambda>_. obind (av_check_borrow_mut (ws ! i)) (\<lambda>_.
        obind (ok_or (word_checked_add (ra_lamports (ws ! dest)) (ra_lamports (ws ! i))) ArithmeticOverflow) (\<lambda>c.
        obind (check_lamport_mutation st (ra_address (ws ! dest))) (\<lambda>_. Ok c)))) of
       Ok c \<Rightarrow>
         (case check_lamport_mutation st (ra_address (ws ! i)) of
            Ok _ \<Rightarrow> (ws[dest := av_set_lamports (ws ! dest) c, i := zeroed (av_set_lamports (ws ! i) 0)], Ok ())
          | Err e \<Rightarrow> (ws[dest := av_set_lamports (ws ! dest) c], Err e)
          | Trap \<Rightarrow> (ws[dest := av_set_lamports (ws ! dest) c], Trap))
     | Err e \<Rightarrow> (ws, Err e) | Trap \<Rightarrow> (ws, Trap))"
proof -
  let ?a = "ws ! i" and ?d = "ws ! dest"
  note ne' = distinct_accounts [OF ne]
  have a: "mem_ok ?a" using account_ok [OF ok(1) ij(1)] by simp
  note step = act_bind_def on_account_def update_account_def balance_def address_of_def act_lift_def av_lamports_def
  have traps: "data_gate un st ?a \<noteq> Trap" "av_check_borrow_mut ?a \<noteq> Trap" "check_lamport_mutation st (ra_address ?d) \<noteq> Trap"
    using gate_no_trap [OF ok(2)] by (simp_all add: data_gate_def)
  show ?thesis
  proof (cases "data_gate un st ?a = Ok () \<and> av_check_borrow_mut ?a = Ok ()")
    case False
    then show ?thesis
      using ij ne traps borrow_and_release [OF a, of un st]
      by (cases "data_gate un st ?a"; cases "av_check_borrow_mut ?a") (simp_all add: safe_close_unchecked_def step)
  next
    case True
    have zero: "obind (rt_try_borrow_mut un st (av_set_lamports ?a 0)) (through_guard zero_guarded) = Ok (zeroed (av_set_lamports ?a 0))"
      using True a by (intro zero_through_guard) simp_all
    have first: "update_account i (\<lambda>a. obind (rt_try_borrow_mut un st a) (\<lambda>(a', g). ref_mut_drop a' g)) ws = (ws, Ok ())"
      using True ij borrow_and_release [OF a, of un st] by (simp add: update_account_def)
    show ?thesis
    proof (cases "word_checked_add (ra_lamports ?d) (ra_lamports ?a)")
      case None
      then show ?thesis
        using True ij ne first by (simp add: safe_close_unchecked_def move_all_lamports_def act_bind_def on_account_def balance_def
            address_of_def act_lift_def av_lamports_def del: word_checked_add_Some)
    next
      case (Some c)
      note prefix = safe_close_unchecked_def move_all_lamports_def rt_try_set_lamports_def act_bind_def on_account_def balance_def
        address_of_def act_lift_def av_lamports_def Some borrow_and_release [OF a, of un st] update_account_def
      show ?thesis
        using True ij ne ne' zero
        by (cases "check_lamport_mutation st (ra_address ?d)"; cases "check_lamport_mutation st (ra_address ?a)")
          (simp_all add: prefix del: word_checked_add_Some)
    qed
  qed
qed

text \<open>Taking a successful run apart.\<close>

lemma act_bind_Ok: "act_bind m f ws = (ws', Ok y) \<longleftrightarrow> (\<exists>x ws1. m ws = (ws1, Ok x) \<and> f x ws1 = (ws', Ok y))"
  by (auto simp: act_bind_def split: prod.splits outcome.splits)

lemma act_steps_Ok:
  "on_account i f ws = (ws', Ok x) \<longleftrightarrow> ws' = ws \<and> i < length ws \<and> f (ws ! i) = Ok x"
  "act_lift r ws = (ws', Ok x) \<longleftrightarrow> ws' = ws \<and> r = Ok x"
  "act_return x ws = (ws', Ok y) \<longleftrightarrow> ws' = ws \<and> y = x"
  "balance i ws = (ws', Ok v) \<longleftrightarrow> ws' = ws \<and> i < length ws \<and> v = ra_lamports (ws ! i)"
  by (auto simp: on_account_def act_lift_def act_return_def balance_def av_lamports_def)

lemma update_account_Ok:
  "update_account i f ws = (ws', Ok u) \<longleftrightarrow> i < length ws \<and> (\<exists>a. f (ws ! i) = Ok a \<and> ws' = ws[i := a])"
  by (auto simp: update_account_def split: outcome.splits)

lemma set_lamports_Ok:
  "rt_try_set_lamports st i v ws = (ws', Ok u) \<longleftrightarrow>
     i < length ws \<and> check_lamport_mutation st (ra_address (ws ! i)) = Ok () \<and> ws' = ws[i := av_set_lamports (ws ! i) v]"
  by (auto simp: rt_try_set_lamports_def act_bind_Ok act_steps_Ok update_account_Ok)

lemma total_set_lamports:
  "i < length ws \<Longrightarrow> total_lamports (ws[i := av_set_lamports (ws ! i) v]) + unat (ra_lamports (ws ! i)) = total_lamports ws + unat v"
  using total_update [of i ws "av_set_lamports (ws ! i) v"] by simp

lemma rt_resize_ok:
  assumes "mem_ok a" and "rt_resize un st n a = Ok a'"
  shows "ra_lamports a' = ra_lamports a \<and> av_data_len a' = n"
proof -
  have run: "av_resize a n = Ok a'" using assms(2) by (auto simp: rt_resize_def obind_Ok_iff split: if_splits)
  then have "av_data_len a' = n" using resize_data [OF assms(1) run] by blast
  moreover have "ra_lamports a' = ra_lamports a"
    using run by (auto simp: av_resize_def Let_def obind_Ok_iff split: if_splits)
  ultimately show ?thesis by blast
qed

lemma realloc_run:
  assumes run: "safe_realloc_unchecked un st live i n payer sign ws = (ws', Ok ())"
    and rent: "rent_exempt_min_internal live n = Ok needed"
  shows "\<exists>a. i < length ws \<and> rt_resize un st n (ws ! i) = Ok a \<and>
    (if needed \<le> ra_lamports (ws ! i) then ws' = ws[i := a]
     else payer < length ws \<and>
       unat (needed - ra_lamports (ws ! i)) \<le> unat (ra_lamports (ws ! payer)) \<and>
       (let paid = (ws[i := a])[payer := av_set_lamports (ws[i := a] ! payer) (ra_lamports (ws ! payer) - (needed - ra_lamports (ws ! i)))]
        in ws' = paid[i := av_set_lamports (paid ! i) needed]))"
proof (cases "needed \<le> ra_lamports (ws ! i)")
  case True
  then have "word_saturating_sub needed (ra_lamports (ws ! i)) = 0" by (auto simp: word_saturating_sub_def)
  then show ?thesis
    using run rent True
    by (auto simp: safe_realloc_unchecked_def act_bind_Ok act_steps_Ok update_account_Ok Let_def)
next
  case False
  let ?cur = "ra_lamports (ws ! i)"
  have d: "word_saturating_sub needed ?cur = needed - ?cur" "needed - ?cur > 0"
    using False by (auto simp: word_saturating_sub_def word_gt_0 not_le)
  have refund: "unat needed = unat ?cur + unat (needed - ?cur)"
    using False by (simp add: unat_sub_exact not_le less_imp_le word_le_nat_alt word_less_nat_alt)
  have credit: "v = needed" if "unat v = unat ?cur + unat (needed - ?cur)" for v
    using that refund by (simp add: word_eq_unatI)
  have debit: "v = p - x \<and> unat x \<le> unat p" if "unat p = unat v + unat x" for v p x :: u64
    using that by (auto intro!: word_eq_unatI simp: unat_sub_exact word_le_nat_alt)
  show ?thesis
    using run rent False d
    by (auto simp: safe_realloc_unchecked_def act_bind_Ok act_steps_Ok update_account_Ok set_lamports_Ok Let_def ok_or_Ok
        split: if_splits dest!: credit debit)
qed

section \<open>Properties\<close>

text \<open>
  C11: Lamports are conserved. For every run of gated transfers and closes, ungated batch transfers
  and closes, and funded reallocations, whatever each call answers and whichever gate is installed:
  the lamports of the accounts add up to what they were, nothing traps, a call that fails changes
  nothing at all, and an account no call names is untouched. An account the gate refuses keeps its
  balance when only gated calls name it: the batch helpers and the reallocation of the native layer
  move lamports without asking the gate, by design. \<open>safe_close\<close> is not among these calls, since it
  can fail half way.
\<close>

theorem lamports_are_conserved:
  assumes "accounts_ok ws" and "gate_ready st" and "list_all (call_in_range (length ws)) cs"
  shows "total_lamports (fst (run_transfers un st ws cs)) = total_lamports ws \<and>
    Trap \<notin> set (snd (run_transfers un st ws cs)) \<and> accounts_ok (fst (run_transfers un st ws cs)) \<and>
    (\<forall>c \<in> set cs. \<forall>e. snd (transfer_exec un st c ws) = Err e \<longrightarrow> fst (transfer_exec un st c ws) = ws) \<and>
    (\<forall>k. list_all (\<lambda>c. k \<notin> call_accounts c) cs \<longrightarrow> fst (run_transfers un st ws cs) ! k = ws ! k) \<and>
    (\<forall>k < length ws. check_lamport_mutation st (ra_address (ws ! k)) \<noteq> Ok () \<longrightarrow>
       list_all (\<lambda>c. gated_call c \<or> k \<notin> call_accounts c) cs \<longrightarrow>
       ra_lamports (fst (run_transfers un st ws cs) ! k) = ra_lamports (ws ! k))"
proof -
  have "fst (transfer_exec un st c ws) = ws" if "c \<in> set cs" "snd (transfer_exec un st c ws) = Err e" for c e
  proof -
    have "call_in_range (length ws) c" using that(1) assms(3) by (simp add: list_all_iff)
    from settled_cases [OF exec_settled [OF assms(1,2) this] assms(1), of un] that(2) show ?thesis by blast
  qed
  then show ?thesis using run_settled [OF assms] run_confined by blast
qed

definition sample_wallet :: "u8 \<Rightarrow> u64 \<Rightarrow> runtime_account" where
  "sample_wallet seed lamports =
     \<lparr>borrow_state = not_borrowed, ra_is_signer = 1, ra_is_writable = 1, ra_executable = 0, ra_resize_delta = 0,
      ra_address = replicate 32 seed, ra_owner = replicate 32 2, ra_lamports = lamports, ra_data_len = 0,
      ra_mem = replicate 10240 0\<rparr>"

definition open_gate :: sbf_gate_state where
  "open_gate = \<lparr>sb_checker = None, sb_store = gate_store_new 2\<rparr>"

lemma sample_wallets_ok: "accounts_ok [sample_wallet 1 x, sample_wallet 2 y]"
  by (simp add: accounts_ok_def sample_wallet_def mem_ok_def av_data_len_def av_original_data_len_def max_permitted_data_increase_def)

theorem lamports_are_conserved_witness:
  "total_lamports (fst (run_transfers False open_gate [sample_wallet 1 10, sample_wallet 2 5]
     [TTransfer 0 1 7, TTransfer 0 1 7, TCloseAndTransfer 1 0])) = 15"
proof -
  have "gate_ready open_gate" by (simp add: gate_ready_def open_gate_def)
  from lamports_are_conserved [OF sample_wallets_ok [of 10 5] this,
      of "[TTransfer 0 1 7, TTransfer 0 1 7, TCloseAndTransfer 1 0]" False]
  show ?thesis by (simp add: total_lamports_def sample_wallet_def)
qed

text \<open>
  C14: What a refused close does. \<open>safe_close\<close> credits the destination before it debits the source, each
  through the gate: when it succeeds the lamports are conserved, the source is empty and its
  data zero; when it fails it has changed nothing, or the gate refused the source and the
  destination keeps lamports the source still has.
\<close>

theorem safe_close_conserves_unless_refused:
  assumes "accounts_ok ws" and "gate_ready st" and "i < length ws" and "dest < length ws"
    and "safe_close_unchecked un st i dest ws = (ws', r)"
  shows "r \<noteq> Trap \<and>
    (r = Ok () \<longrightarrow> total_lamports ws' = total_lamports ws \<and> ra_lamports (ws' ! i) = 0 \<and>
       account_data (ws' ! i) = replicate (av_data_len (ws ! i)) 0) \<and>
    (r \<noteq> Ok () \<longrightarrow> ws' = ws \<or>
       check_lamport_mutation st (ra_address (ws ! i)) \<noteq> Ok () \<and> ra_lamports (ws' ! i) = ra_lamports (ws ! i) \<and>
       total_lamports ws' = total_lamports ws + unat (ra_lamports (ws ! i)))"
proof (cases "ra_address (ws ! i) = ra_address (ws ! dest)")
  case True
  then have "(ws', r) = (ws, Err InvalidArgument)"
    using assms by (simp add: safe_close_unchecked_def act_bind_def address_of_def on_account_def act_lift_def)
  then show ?thesis by simp
next
  case False
  let ?a = "ws ! i" and ?d = "ws ! dest"
  let ?pre = "obind (data_gate un st ?a) (\<lambda>_. obind (av_check_borrow_mut ?a) (\<lambda>_.
      obind (ok_or (word_checked_add (ra_lamports ?d) (ra_lamports ?a)) ArithmeticOverflow) (\<lambda>c.
      obind (check_lamport_mutation st (ra_address ?d)) (\<lambda>_. Ok c))))"
  note ne = distinct_accounts [OF False]
  have eq: "(ws', r) = (case ?pre of
       Ok c \<Rightarrow>
         (case check_lamport_mutation st (ra_address ?a) of
            Ok _ \<Rightarrow> (ws[dest := av_set_lamports ?d c, i := zeroed (av_set_lamports ?a 0)], Ok ())
          | Err e \<Rightarrow> (ws[dest := av_set_lamports ?d c], Err e)
          | Trap \<Rightarrow> (ws[dest := av_set_lamports ?d c], Trap))
     | Err e \<Rightarrow> (ws, Err e) | Trap \<Rightarrow> (ws, Trap))"
    using safe_close_unchecked_eq [OF assms(1-4) False, of un] assms(5) by simp
  have nt: "data_gate un st ?a \<noteq> Trap" "check_lamport_mutation st a \<noteq> Trap" for a
    using gate_no_trap [OF assms(2)] by (simp_all add: data_gate_def)
  show ?thesis
  proof (cases ?pre)
    case (Ok c)
    then have c: "unat c = unat (ra_lamports ?d) + unat (ra_lamports ?a)" by (auto simp: obind_Ok_iff ok_or_Ok)
    have a: "mem_ok (av_set_lamports ?a 0)" using account_ok [OF assms(1,3)] by simp
    have half: "total_lamports (ws[dest := av_set_lamports ?d c]) = total_lamports ws + unat (ra_lamports ?a)"
      using total_set_lamports [OF assms(4), of c] c by linarith
    have "total_lamports (ws[dest := av_set_lamports ?d c, i := zeroed (av_set_lamports ?a 0)]) + unat (ra_lamports ?a) =
        total_lamports (ws[dest := av_set_lamports ?d c])"
      using total_update [of i "ws[dest := av_set_lamports ?d c]" "zeroed (av_set_lamports ?a 0)"] assms(3) ne by simp
    then have "total_lamports (ws[dest := av_set_lamports ?d c, i := zeroed (av_set_lamports ?a 0)]) = total_lamports ws"
      using half by linarith
    then show ?thesis
      using eq half a assms(3) ne nt(2) [of "ra_address ?a"]
      unfolding Ok outcome.case by (cases "check_lamport_mutation st (ra_address ?a)") auto
  next
    case (Err e)
    then show ?thesis using eq by simp
  next
    case Trap
    then show ?thesis using nt by (cases "data_gate un st ?a"; cases "av_check_borrow_mut ?a";
        cases "word_checked_add (ra_lamports ?d) (ra_lamports ?a)"; cases "check_lamport_mutation st (ra_address ?d)") auto
  qed
qed

text \<open>A gate over both wallets whose policy lets only the second one's lamports change.\<close>

definition refusing_gate :: sbf_gate_state where
  "refusing_gate =
     \<lparr>sb_checker = Some gate_store_check,
      sb_store = \<lparr>gt_issued = 1, gt_installed = 1, gt_top_token = 1, gt_top_idx = 0,
        gt_slots = [\<lparr>gs_token = 1, gs_len = 2, gs_policy = Some (with_lamports [] [1]), gs_args = [], gs_args_len = 0,
          gs_entries =
            [\<lparr>ge_address = replicate 32 1, ge_index = 0, ge_mutation = False, ge_delegation = False, ge_transition = False\<rparr>,
             \<lparr>ge_address = replicate 32 2, ge_index = 1, ge_mutation = True, ge_delegation = False, ge_transition = False\<rparr>]\<rparr>]\<rparr>\<rparr>"

lemma refusing_gate_checks:
  "check_lamport_mutation refusing_gate (replicate 32 1) = Err (write_policy_violation 0)"
  "check_lamport_mutation refusing_gate (replicate 32 2) = Ok ()"
  by (simp_all add: check_lamport_mutation_def sbf_any_active_def sbf_check_def refusing_gate_def gate_store_check_def
      active_slot_def lamports_declared_def with_lamports_def prefix_or_empty_def entry_allows_def Let_def)

theorem safe_close_conserves_unless_refused_witness:
  "total_lamports (fst (safe_close_unchecked False refusing_gate 0 1 [sample_wallet 1 10, sample_wallet 2 5])) = 25"
proof -
  let ?ws = "[sample_wallet 1 10, sample_wallet 2 5]"
  obtain ws' r where run: "safe_close_unchecked False refusing_gate 0 1 ?ws = (ws', r)" by (rule prod.exhaust)
  have ready: "gate_ready refusing_gate" by (simp add: gate_ready_def refusing_gate_def)
  have eq: "safe_close_unchecked False refusing_gate 0 1 ?ws =
      (?ws[1 := av_set_lamports (sample_wallet 2 5) 15], Err (write_policy_violation 0))"
    using safe_close_unchecked_eq [OF sample_wallets_ok ready, of 0 10 5 1 False] refusing_gate_checks
    by (simp add: sample_wallet_def data_gate_def av_data_len_def av_check_borrow_mut_def word_checked_add_def)
  have "ws' \<noteq> ?ws" using run eq by (auto simp: sample_wallet_def av_set_lamports_def)
  moreover have "r \<noteq> Ok ()" using run eq by simp
  ultimately have "total_lamports ws' = total_lamports ?ws + 10"
    using safe_close_conserves_unless_refused [OF sample_wallets_ok ready _ _ run] by (simp add: sample_wallet_def)
  then show ?thesis using run by (simp add: total_lamports_def sample_wallet_def)
qed

text \<open>
  C15: What a reallocation pays. When \<open>safe_realloc\<close> succeeds the account has the new length and at least
  the required rent; the lamports of the accounts are conserved if the payer is another
  account, and grow by the whole top-up if the payer is the account itself, which the code
  does not rule out.
\<close>

theorem safe_realloc_conserves_unless_self_paid:
  assumes "accounts_ok ws" and "safe_realloc_unchecked un st live i n payer sign ws = (ws', Ok ())"
    and "rent_exempt_min_internal live n = Ok needed"
  shows "total_lamports ws' = total_lamports ws +
      (if payer = i then unat (word_saturating_sub needed (ra_lamports (ws ! i))) else 0) \<and>
    unat needed \<le> unat (ra_lamports (ws' ! i)) \<and> av_data_len (ws' ! i) = n"
proof -
  let ?cur = "ra_lamports (ws ! i)"
  from realloc_run [OF assms(2,3)] obtain a where
    i: "i < length ws" and a: "rt_resize un st n (ws ! i) = Ok a" and
    res: "if needed \<le> ?cur then ws' = ws[i := a]
     else payer < length ws \<and> unat (needed - ?cur) \<le> unat (ra_lamports (ws ! payer)) \<and>
       (let paid = (ws[i := a])[payer := av_set_lamports (ws[i := a] ! payer) (ra_lamports (ws ! payer) - (needed - ?cur))]
        in ws' = paid[i := av_set_lamports (paid ! i) needed])" by blast
  have la: "ra_lamports a = ?cur" "av_data_len a = n" using rt_resize_ok [OF _ a] account_ok [OF assms(1) i] by simp_all
  have t1: "total_lamports (ws[i := a]) = total_lamports ws" using total_update [OF i, of a] la by simp
  show ?thesis
  proof (cases "needed \<le> ?cur")
    case True
    have "word_saturating_sub needed ?cur = 0"
      using True by (cases "needed = ?cur") (auto simp: word_saturating_sub_def)
    then show ?thesis using True res t1 la i by (simp add: word_le_nat_alt)
  next
    case False
    let ?d = "needed - ?cur" and ?w = "ws[i := a]"
    let ?paid = "?w[payer := av_set_lamports (?w ! payer) (ra_lamports (ws ! payer) - ?d)]"
    have p: "payer < length ws" "unat ?d \<le> unat (ra_lamports (ws ! payer))" and ws': "ws' = ?paid[i := av_set_lamports (?paid ! i) needed]"
      using res False by (simp_all add: Let_def)
    have d: "unat needed = unat ?cur + unat ?d" "word_saturating_sub needed ?cur = ?d"
      using False by (auto simp: unat_sub_exact not_le less_imp_le word_le_nat_alt word_less_nat_alt word_saturating_sub_def)
    have lp: "ra_lamports (?w ! payer) = ra_lamports (ws ! payer)" using la i by (cases "payer = i") simp_all
    have "total_lamports ?paid + unat (ra_lamports (ws ! payer)) = total_lamports ?w + unat (ra_lamports (ws ! payer) - ?d)"
      using total_set_lamports [of payer ?w] p lp by simp
    moreover have m: "unat (ra_lamports (ws ! payer) - ?d) = unat (ra_lamports (ws ! payer)) - unat ?d"
      using p(2) by (simp add: unat_sub_exact word_le_nat_alt)
    ultimately have t2: "total_lamports ?paid + unat ?d = total_lamports ws" using p(2) t1 by linarith
    have t3: "total_lamports ws' + unat (ra_lamports (?paid ! i)) = total_lamports ?paid + unat needed"
      unfolding ws' using total_set_lamports [of i ?paid needed] i by simp
    have data: "av_data_len (ws' ! i) = n" "ra_lamports (ws' ! i) = needed"
      unfolding ws' using i p la by (simp_all add: nth_list_update)
    show ?thesis
    proof (cases "payer = i")
      case True
      then have "ra_lamports (?paid ! i) = ra_lamports (ws ! payer) - ?d" using i by simp
      with m True have "unat (ra_lamports (?paid ! i)) = unat ?cur - unat ?d" by metis
      then have "total_lamports ws' = total_lamports ws + unat ?d" using t2 t3 d(1) p(2) True by simp
      then show ?thesis using True d data by simp
    next
      case False
      then have "ra_lamports (?paid ! i) = ?cur" using la i by simp
      then have "total_lamports ws' = total_lamports ws" using t2 t3 d(1) by simp
      then show ?thesis using False data by simp
    qed
  qed
qed

theorem safe_realloc_conserves_unless_self_paid_witness:
  "total_lamports (fst (safe_realloc_unchecked False open_gate (Ok \<lparr>lamports_per_byte_year = 1, exemption_threshold_bits = threshold_one_bits, burn_percent = 50\<rparr>)
     0 0 0 True [sample_wallet 1 100, sample_wallet 2 5])) = 133"
proof -
  let ?live = "Ok \<lparr>lamports_per_byte_year = 1, exemption_threshold_bits = threshold_one_bits, burn_percent = 50\<rparr>"
  let ?ws = "[sample_wallet 1 100, sample_wallet 2 5]"
  have rent: "rent_exempt_min_internal ?live 0 = Ok 128"
    by (simp add: rent_exempt_min_internal_def minimum_balance_live_def minimum_balance_def scale_by_exemption_threshold_def
        account_storage_overhead_def word_saturating_add_def)
  obtain ws' r where run: "safe_realloc_unchecked False open_gate ?live 0 0 0 True ?ws = (ws', r)" by (rule prod.exhaust)
  have "r = Ok ()"
    using run unfolding safe_realloc_unchecked_def act_bind_def act_lift_def rent
    by (auto simp: on_account_def balance_def act_return_def update_account_def Let_def word_saturating_sub_def sample_wallet_def
        check_writable_def check_signer_def av_is_writable_def av_is_signer_def av_lamports_def word_checked_sub_def word_checked_add_def
        av_check_borrow_mut_def rt_resize_def check_account_transition_def sbf_any_active_def open_gate_def av_data_len_def av_resize_def
        rt_try_set_lamports_def act_bind_def check_lamport_mutation_def)
  then have "total_lamports ws' = total_lamports ?ws + unat (word_saturating_sub 128 (ra_lamports (?ws ! 0)))"
    using safe_realloc_conserves_unless_self_paid [OF sample_wallets_ok _ rent, where ws' = ws' and payer = 0] run by simp
  then show ?thesis using run by (simp add: total_lamports_def sample_wallet_def word_saturating_sub_def)
qed

end
