(* ===== verification/LazyInput.thy ===== *)
theory LazyInput imports RawWalk begin

text \<open>
  hopper-native/src/lazy.rs: the lazy parser, which hands out accounts one at a time and finds the
  instruction data and program id by a skip-walk on first use. A context holds the buffer it
  points into, its cursor and the remembered tail as offsets, and the accounts already resolved.
  Shown: for every order of calls, with anything the program writes into the accounts it was
  handed in between, the context answers as the loader's frame says.
\<close>

section \<open>The parser\<close>

definition non_dup_stride :: "nat \<Rightarrow> nat" where
  "non_dup_stride data_len =
     runtime_account_size + max_permitted_data_increase + 8 + (data_len + (bpf_align - 1)) div bpf_align * bpf_align"

record lazy_context =
  lz_buffer :: bytes
  lz_cursor :: nat
  lz_total_accounts :: nat
  lz_declared_accounts :: nat
  lz_parsed_count :: nat
  lz_tail :: "nat option"
  lz_resolved :: slots

function tail_loop :: "bytes \<Rightarrow> nat \<Rightarrow> nat \<Rightarrow> nat \<Rightarrow> nat outcome" where
  "tail_loop d declared_accounts slot scan =
     (if slot < declared_accounts then
        obind (rd_byte d scan) (\<lambda>marker.
        obind (if marker = 255 then
                 obind (rd_u64 d (scan + 80)) (\<lambda>data_len. ptr_add d scan (non_dup_stride data_len))
               else if unat marker \<ge> slot then Trap
               else ptr_add d scan 8) (\<lambda>scan'.
        tail_loop d declared_accounts (slot + 1) scan'))
      else Ok scan)"
  by pat_completeness auto
termination by (relation "measure (\<lambda>(d, declared_accounts, slot, scan). declared_accounts - slot)") auto

declare tail_loop.simps [simp del]

definition lazy_tail_ptr :: "lazy_context \<Rightarrow> (lazy_context \<times> nat) outcome" where
  "lazy_tail_ptr ctx =
     (case lz_tail ctx of
        Some cached \<Rightarrow> Ok (ctx, cached)
      | None \<Rightarrow>
          obind (tail_loop (lz_buffer ctx) (lz_declared_accounts ctx) (lz_parsed_count ctx) (lz_cursor ctx)) (\<lambda>scan.
          Ok (ctx\<lparr>lz_tail := Some scan\<rparr>, scan)))"

definition lazy_instruction_data :: "lazy_context \<Rightarrow> (lazy_context \<times> bytes) outcome" where
  "lazy_instruction_data ctx =
     obind (lazy_tail_ptr ctx) (\<lambda>(ctx, tail).
     obind (rd_u64 (lz_buffer ctx) tail) (\<lambda>len.
     obind (ptr_add (lz_buffer ctx) tail 8) (\<lambda>data.
     obind (rd (lz_buffer ctx) data len) (\<lambda>b. Ok (ctx, b)))))"

definition lazy_program_id :: "lazy_context \<Rightarrow> (lazy_context \<times> bytes) outcome" where
  "lazy_program_id ctx =
     obind (lazy_tail_ptr ctx) (\<lambda>(ctx, tail).
     obind (rd_u64 (lz_buffer ctx) tail) (\<lambda>len.
     obind (rd (lz_buffer ctx) (tail + (8 + len)) 32) (\<lambda>b. Ok (ctx, b))))"

definition lazy_remaining :: "lazy_context \<Rightarrow> nat outcome" where
  "lazy_remaining ctx =
     (if lz_parsed_count ctx \<le> lz_total_accounts ctx then Ok (lz_total_accounts ctx - lz_parsed_count ctx) else Trap)"

definition parse_one_account :: "lazy_context \<Rightarrow> (lazy_context \<times> nat) outcome" where
  "parse_one_account ctx =
     obind (rd_byte (lz_buffer ctx) (lz_cursor ctx)) (\<lambda>dup_marker.
     if dup_marker = 255 then
       obind (init_baseline (lz_buffer ctx) (lz_cursor ctx)) (\<lambda>d.
       obind (rd_u64 d (lz_cursor ctx + 80)) (\<lambda>data_len.
       obind (ptr_add d (lz_cursor ctx) (non_dup_stride data_len)) (\<lambda>cursor.
       Ok (ctx\<lparr>lz_buffer := d, lz_cursor := cursor\<rparr>, lz_cursor ctx))))
     else
       obind (ptr_add (lz_buffer ctx) (lz_cursor ctx) 8) (\<lambda>cursor.
       if unat dup_marker \<ge> lz_parsed_count ctx then Trap
       else obind (slot_read (lz_resolved ctx) (unat dup_marker)) (\<lambda>view. Ok (ctx\<lparr>lz_cursor := cursor\<rparr>, view))))"

text \<open>The three lines every consuming method shares: parse, record, count.\<close>

definition consume_one :: "lazy_context \<Rightarrow> (lazy_context \<times> nat) outcome" where
  "consume_one ctx =
     obind (parse_one_account ctx) (\<lambda>(ctx, view).
     obind (slot_write (lz_resolved ctx) (lz_parsed_count ctx) view) (\<lambda>resolved.
     Ok (ctx\<lparr>lz_resolved := resolved, lz_parsed_count := lz_parsed_count ctx + 1\<rparr>, view)))"

definition lazy_next_account :: "lazy_context \<Rightarrow> (lazy_context \<times> nat) outcome" where
  "lazy_next_account ctx =
     (if lz_parsed_count ctx \<ge> lz_total_accounts ctx then Err NotEnoughAccountKeys else consume_one ctx)"

text \<open>The header a view points to, and the typed variants, which consume the account also when the check fails.\<close>

definition view_account :: "bytes \<Rightarrow> nat \<Rightarrow> runtime_account outcome" where
  "view_account d view = (if view + 88 \<le> length d then Ok (account_at d view) else Trap)"

definition lazy_next_checked :: "(runtime_account \<Rightarrow> unit outcome) \<Rightarrow> lazy_context \<Rightarrow> lazy_context \<times> nat outcome" where
  "lazy_next_checked check ctx =
     (case lazy_next_account ctx of
        Ok (ctx', view) \<Rightarrow> (ctx', obind (view_account (lz_buffer ctx') view) (\<lambda>acct. obind (check acct) (\<lambda>_. Ok view)))
      | Err e \<Rightarrow> (ctx, Err e)
      | Trap \<Rightarrow> (ctx, Trap))"

definition lazy_next_signer :: "lazy_context \<Rightarrow> lazy_context \<times> nat outcome" where
  "lazy_next_signer = lazy_next_checked av_require_signer"
definition lazy_next_writable :: "lazy_context \<Rightarrow> lazy_context \<times> nat outcome" where
  "lazy_next_writable = lazy_next_checked av_require_writable"
definition lazy_next_payer :: "lazy_context \<Rightarrow> lazy_context \<times> nat outcome" where
  "lazy_next_payer = lazy_next_checked av_require_payer"
definition lazy_next_owned_by :: "lazy_context \<Rightarrow> bytes \<Rightarrow> lazy_context \<times> nat outcome" where
  "lazy_next_owned_by ctx program = lazy_next_checked (\<lambda>acct. av_require_owned_by acct program) ctx"

primrec lazy_skip :: "nat \<Rightarrow> lazy_context \<Rightarrow> lazy_context \<times> unit outcome" where
  "lazy_skip 0 ctx = (ctx, Ok ())"
| "lazy_skip (Suc n) ctx =
     (if lz_parsed_count ctx \<ge> lz_total_accounts ctx then (ctx, Err NotEnoughAccountKeys)
      else
        (case consume_one ctx of
           Ok (ctx', _) \<Rightarrow> lazy_skip n ctx'
         | Err e \<Rightarrow> (ctx, Err e)
         | Trap \<Rightarrow> (ctx, Trap)))"

lemma consume_one_counts:
  "consume_one ctx = Ok (ctx', view) \<Longrightarrow>
   lz_parsed_count ctx' = lz_parsed_count ctx + 1 \<and> lz_total_accounts ctx' = lz_total_accounts ctx"
  by (auto simp: consume_one_def parse_one_account_def obind_Ok_iff split: if_splits)

function drain_loop :: "lazy_context \<Rightarrow> lazy_context outcome" where
  "drain_loop ctx =
     (if lz_parsed_count ctx < lz_total_accounts ctx then
        obind (consume_one ctx) (\<lambda>r. drain_loop (fst r))
      else Ok ctx)"
  by pat_completeness auto
termination
  by (relation "measure (\<lambda>ctx. lz_total_accounts ctx - lz_parsed_count ctx)") (auto dest: consume_one_counts)

declare drain_loop.simps [simp del]

fun read_slots :: "slots \<Rightarrow> nat list outcome" where
  "read_slots [] = Ok []"
| "read_slots (None # slots) = Trap"
| "read_slots (Some view # slots) = obind (read_slots slots) (\<lambda>views. Ok (view # views))"

definition lazy_drain_remaining :: "lazy_context \<Rightarrow> (lazy_context \<times> nat list) outcome" where
  "lazy_drain_remaining ctx =
     (let start = lz_parsed_count ctx in
      obind (drain_loop ctx) (\<lambda>ctx.
      if lz_parsed_count ctx \<le> length (lz_resolved ctx)
      then obind (read_slots (take (lz_parsed_count ctx - start) (drop start (lz_resolved ctx)))) (\<lambda>views. Ok (ctx, views))
      else Trap))"

definition lazy_get :: "lazy_context \<Rightarrow> nat \<Rightarrow> nat option outcome" where
  "lazy_get ctx index =
     (if index < lz_parsed_count ctx then obind (slot_read (lz_resolved ctx) index) (\<lambda>view. Ok (Some view)) else Ok None)"

definition lazy_deserialize :: "bytes \<Rightarrow> lazy_context outcome" where
  "lazy_deserialize input =
     obind (rd_u64 input 0) (\<lambda>num_accounts.
     obind (ptr_add input 0 8) (\<lambda>accounts_start.
     let total_accounts = (if num_accounts > 254 then 254 else num_accounts) in
     Ok \<lparr>lz_buffer = input, lz_cursor = accounts_start, lz_total_accounts = total_accounts,
         lz_declared_accounts = num_accounts, lz_parsed_count = 0, lz_tail = None, lz_resolved = replicate 254 None\<rparr>))"

section \<open>Calls\<close>

text \<open>
  A handler's calls. \<open>LStore\<close> is not a method: it is the program writing through an account view
  it holds, anywhere in the records the cursor has passed; elsewhere it has no view and nothing
  happens.
\<close>

datatype lazy_call =
    LNext | LNextSigner | LNextWritable | LNextPayer | LNextOwnedBy bytes
  | LSkip nat | LDrain | LGet nat | LInstructionData | LProgramId | LTotal | LParsed | LRemaining
  | LStore nat bytes

datatype lazy_answer =
    AView nat | AViews "nat list" | AOpt "nat option" | ABytes bytes | ANum nat | AUnit | AErr program_error

definition returned :: "('x \<Rightarrow> lazy_answer) \<Rightarrow> 's \<times> 'x outcome \<Rightarrow> ('s \<times> lazy_answer) outcome" where
  "returned f sr = (case snd sr of Ok x \<Rightarrow> Ok (fst sr, f x) | Err e \<Rightarrow> Ok (fst sr, AErr e) | Trap \<Rightarrow> Trap)"

definition stores :: "nat \<Rightarrow> nat \<Rightarrow> bytes \<Rightarrow> bytes \<Rightarrow> bytes" where
  "stores bound off b d = (if 8 \<le> off \<and> off + length b \<le> bound then bsplice off b d else d)"

definition kept :: "'s \<Rightarrow> ('s \<times> 'x) outcome \<Rightarrow> 's \<times> 'x outcome" where
  "kept s m = (case m of Ok (s', x) \<Rightarrow> (s', Ok x) | Err e \<Rightarrow> (s, Err e) | Trap \<Rightarrow> (s, Trap))"

fun lazy_exec :: "lazy_context \<Rightarrow> lazy_call \<Rightarrow> (lazy_context \<times> lazy_answer) outcome" where
  "lazy_exec ctx LNext = returned AView (kept ctx (lazy_next_account ctx))"
| "lazy_exec ctx LNextSigner = returned AView (lazy_next_signer ctx)"
| "lazy_exec ctx LNextWritable = returned AView (lazy_next_writable ctx)"
| "lazy_exec ctx LNextPayer = returned AView (lazy_next_payer ctx)"
| "lazy_exec ctx (LNextOwnedBy program) = returned AView (lazy_next_owned_by ctx program)"
| "lazy_exec ctx (LSkip n) = returned (\<lambda>_. AUnit) (lazy_skip n ctx)"
| "lazy_exec ctx LDrain = returned AViews (kept ctx (lazy_drain_remaining ctx))"
| "lazy_exec ctx (LGet i) = returned AOpt (ctx, lazy_get ctx i)"
| "lazy_exec ctx LInstructionData = returned ABytes (kept ctx (lazy_instruction_data ctx))"
| "lazy_exec ctx LProgramId = returned ABytes (kept ctx (lazy_program_id ctx))"
| "lazy_exec ctx LTotal = Ok (ctx, ANum (lz_total_accounts ctx))"
| "lazy_exec ctx LParsed = Ok (ctx, ANum (lz_parsed_count ctx))"
| "lazy_exec ctx LRemaining = returned ANum (ctx, lazy_remaining ctx)"
| "lazy_exec ctx (LStore off b) = Ok (ctx\<lparr>lz_buffer := stores (lz_cursor ctx) off b (lz_buffer ctx)\<rparr>, AUnit)"

section \<open>What the frame says\<close>

text \<open>
  The abstract state: how many slots were consumed, and the bytes of the buffer up to there,
  which the program may have written to. There is no cursor, no walk and no remembered tail.
\<close>

type_synonym lazy_spec_state = "nat \<times> bytes"

definition slot_place :: "frame_slot list \<Rightarrow> nat \<Rightarrow> nat" where
  "slot_place ss i = 8 + length (encode_slots (take (origins [] ss ! i) ss))"

definition exposed :: "frame_slot list \<Rightarrow> nat" where
  "exposed ss = min (length ss) 254"

text \<open>Consuming the slots up to \<open>k'\<close> sets the baseline of the accounts among them.\<close>

definition consumed :: "frame_slot list \<Rightarrow> nat \<Rightarrow> lazy_spec_state \<Rightarrow> lazy_spec_state" where
  "consumed ss k' = (\<lambda>(k, mem). (k', mem @ encode_slots (List.map baseline_slot (take (k' - k) (drop k ss)))))"

definition spec_next :: "frame_slot list \<Rightarrow> (runtime_account \<Rightarrow> unit outcome) \<Rightarrow> lazy_spec_state \<Rightarrow> lazy_spec_state \<times> nat outcome" where
  "spec_next ss check s =
     (if fst s \<ge> exposed ss then (s, Err NotEnoughAccountKeys)
      else
        let s' = consumed ss (fst s + 1) s; view = slot_place ss (fst s) in
        (s', obind (check (account_at (snd s') view)) (\<lambda>_. Ok view)))"

fun lazy_spec :: "frame_slot list \<Rightarrow> bytes \<Rightarrow> bytes \<Rightarrow> lazy_spec_state \<Rightarrow> lazy_call \<Rightarrow> (lazy_spec_state \<times> lazy_answer) outcome" where
  "lazy_spec ss ix pid s LNext = returned AView (spec_next ss (\<lambda>_. Ok ()) s)"
| "lazy_spec ss ix pid s LNextSigner = returned AView (spec_next ss av_require_signer s)"
| "lazy_spec ss ix pid s LNextWritable = returned AView (spec_next ss av_require_writable s)"
| "lazy_spec ss ix pid s LNextPayer = returned AView (spec_next ss av_require_payer s)"
| "lazy_spec ss ix pid s (LNextOwnedBy program) = returned AView (spec_next ss (\<lambda>acct. av_require_owned_by acct program) s)"
| "lazy_spec ss ix pid s (LSkip n) =
     Ok (consumed ss (min (fst s + n) (exposed ss)) s, if fst s + n \<le> exposed ss then AUnit else AErr NotEnoughAccountKeys)"
| "lazy_spec ss ix pid s LDrain = Ok (consumed ss (exposed ss) s, AViews (List.map (slot_place ss) [fst s..<exposed ss]))"
| "lazy_spec ss ix pid s (LGet i) = Ok (s, AOpt (if i < fst s then Some (slot_place ss i) else None))"
| "lazy_spec ss ix pid s LInstructionData = Ok (s, ABytes ix)"
| "lazy_spec ss ix pid s LProgramId = Ok (s, ABytes pid)"
| "lazy_spec ss ix pid s LTotal = Ok (s, ANum (exposed ss))"
| "lazy_spec ss ix pid s LParsed = Ok (s, ANum (fst s))"
| "lazy_spec ss ix pid s LRemaining = Ok (s, ANum (exposed ss - fst s))"
| "lazy_spec ss ix pid s (LStore off b) = Ok ((fst s, stores (length (snd s)) off b (snd s)), AUnit)"

section \<open>A step of the cursor\<close>

lemma non_dup_stride_eq: "non_dup_stride n = 10336 + n + padding n"
proof -
  obtain k r where n: "n = 8 * k + r" "r < 8" by (metis mod_less_divisor mult_div_mod_eq zero_less_numeral)
  have "r + padding n = (if r = 0 then 0 else 8)" using n by (auto simp: padding_def)
  moreover have "(n + 7) div 8 = k + (r + 7) div 8" using n by simp
  moreover have "(r + 7) div 8 = (if r = 0 then 0 else 1)" using n(2) by auto
  ultimately show ?thesis
    using n by (simp add: non_dup_stride_def runtime_account_size_def max_permitted_data_increase_def bpf_align_def split: if_splits)
qed

lemma origins_append: "origins prev (xs @ ys) = origins (origins prev xs) ys"
  by (induction xs arbitrary: prev) simp_all

lemma slot_valid_nth: "slots_valid i ss \<Longrightarrow> k < length ss \<Longrightarrow> slot_valid (i + k) (ss ! k)"
proof (induction ss arbitrary: i k)
  case (Cons s ss)
  then show ?case using Cons.IH [of "Suc i" "k - 1"] by (cases k) auto
qed simp

lemma origins_nth:
  assumes "slots_valid 0 ss" and "k < length ss"
  shows "origins [] ss ! k = (case ss ! k of FCanonical _ _ _ \<Rightarrow> k | FDuplicate marker _ \<Rightarrow> origins [] ss ! unat marker)"
proof -
  let ?o = "take k (origins [] ss)"
  have o: "origins [] (take k ss) = ?o" and o': "origins [] (take (Suc k) ss) = take (Suc k) (origins [] ss)"
    using origins_take [of "[]" ss] assms by simp_all
  have "take (Suc k) (origins [] ss) = origins ?o [ss ! k]"
    unfolding o' [symmetric] take_Suc_conv_app_nth [OF assms(2)] origins_append o ..
  then have "take (Suc k) (origins [] ss) ! k =
      (case ss ! k of FCanonical _ _ _ \<Rightarrow> length ?o | FDuplicate marker _ \<Rightarrow> ?o ! unat marker)"
    using assms(2) by (simp add: nth_append)
  moreover have "slot_valid k (ss ! k)" using slot_valid_nth [OF assms] by simp
  ultimately show ?thesis using assms(2) by (cases "ss ! k") simp_all
qed

lemma slot_place_view:
  assumes "slots_valid 0 ss" and "k < length ss"
  shows "slot_view (List.map (slot_place ss) [0..<k]) (8 + length (encode_slots (take k ss))) (ss ! k) = slot_place ss k"
proof -
  have "slot_valid k (ss ! k)" using slot_valid_nth [OF assms] by simp
  then show ?thesis using origins_nth [OF assms] by (cases "ss ! k") (simp_all add: slot_place_def)
qed

text \<open>On a record of a frame, consuming it is the \<open>take_record\<close> of the eager parser.\<close>

lemma consume_is_take_record:
  assumes "lz_buffer ctx = pre @ encode_slot s @ post" and "lz_cursor ctx = length pre"
    and "slot_valid (lz_parsed_count ctx) s" and "length (encode_slot s) < 2 ^ 64" and "8 dvd length pre" and "8 \<le> length post"
  shows "consume_one ctx =
    obind (take_record (lz_buffer ctx) (lz_cursor ctx) (lz_parsed_count ctx) (lz_resolved ctx)) (\<lambda>(d, slots, cursor).
    obind (slot_read slots (lz_parsed_count ctx)) (\<lambda>view.
    Ok (ctx\<lparr>lz_buffer := d, lz_cursor := cursor, lz_resolved := slots, lz_parsed_count := lz_parsed_count ctx + 1\<rparr>, view)))"
proof (cases s)
  case (FCanonical header data trailer)
  let ?d' = "pre @ encode_slot (baseline_slot s) @ post"
  have h: "length header = 79" and t: "length trailer = 10240 + padding (length data) + 8" and n: "length data < 2 ^ 64"
    using assms(3,4) FCanonical by simp_all
  have len: "length (encode_slot s) = 10336 + length data + padding (length data)" using h t FCanonical by simp
  have size: "length ?d' = length pre + length (encode_slot s) + length post" using baseline_length [OF assms(3)] by simp
  have "length (take 3 header @ le_enc 4 (length data) @ drop 7 header) = 79" using h by simp
  from rd_u64_data_len [OF this n] have r: "rd_u64 ?d' (length pre + 80) = Ok (length data)"
    using FCanonical by simp
  have "length pre + 10343 + length data \<le> length ?d'" using assms(6) len size by simp
  then have nr: "next_record ?d' (length pre) (length data) = Ok (length pre + length (encode_slot s))"
    unfolding len by (rule next_record_canonical [OF assms(5)])
  have pa: "ptr_add ?d' (length pre) (non_dup_stride (length data)) = Ok (length pre + length (encode_slot s))"
    unfolding non_dup_stride_eq len [symmetric] using size by (simp add: ptr_add_def)
  have m: "rd_byte (pre @ encode_slot s @ post) (length pre) = Ok 255" using FCanonical by (simp add: rd_byte_def nth_append)
  show ?thesis
    unfolding consume_one_def parse_one_account_def take_record_def take_canonical_def assms(1,2) m obind.simps non_dup_marker_def
      if_P [OF refl] init_baseline_canonical [OF h n, of pre trailer post, folded FCanonical] r nr pa
    by (simp add: slot_write_def slot_read_def)
next
  case (FDuplicate marker pad)
  then have v: "unat marker < lz_parsed_count ctx" "marker \<noteq> 255" "length pad = 7" using assms(3) by simp_all
  have m: "rd_byte (pre @ encode_slot s @ post) (length pre) = Ok marker" using FDuplicate by (simp add: rd_byte_def nth_append)
  have p: "ptr_add (pre @ encode_slot s @ post) (length pre) 8 = Ok (length pre + 8)" using FDuplicate v by (simp add: ptr_add_def)
  have u: "lz_buffer ctx = pre @ encode_slot s @ post" by (rule assms(1))
  show ?thesis
    using v unfolding consume_one_def parse_one_account_def take_record_def take_duplicate_def assms(2) u m p obind.simps non_dup_marker_def
    by (cases "slot_read (lz_resolved ctx) (unat marker)")
      (auto simp: slot_write_def slot_read_def u [symmetric] intro!: lazy_context.equality)
qed

section \<open>The refinement\<close>

definition frame_ok :: "frame_slot list \<Rightarrow> bytes \<Rightarrow> bytes \<Rightarrow> bool" where
  "frame_ok ss ix pid \<longleftrightarrow> slots_valid 0 ss \<and> length pid = 32 \<and> length (encode_frame ss ix pid) < 2 ^ 64"

text \<open>What lies ahead of slot \<open>k\<close>, and where it starts.\<close>

definition ahead :: "frame_slot list \<Rightarrow> bytes \<Rightarrow> bytes \<Rightarrow> bytes \<Rightarrow> nat \<Rightarrow> bytes" where
  "ahead ss ix pid rest k = encode_slots (drop k ss) @ le_enc 8 (length ix) @ ix @ pid @ rest"

definition place :: "frame_slot list \<Rightarrow> nat \<Rightarrow> nat" where
  "place ss k = 8 + length (encode_slots (take k ss))"

definition resolved_upto :: "frame_slot list \<Rightarrow> nat \<Rightarrow> slots" where
  "resolved_upto ss k = List.map (\<lambda>i. Some (slot_place ss i)) [0..<k] @ replicate (254 - k) None"

definition lazy_inv :: "frame_slot list \<Rightarrow> bytes \<Rightarrow> bytes \<Rightarrow> bytes \<Rightarrow> lazy_context \<Rightarrow> bool" where
  "lazy_inv ss ix pid rest ctx \<longleftrightarrow>
     frame_ok ss ix pid \<and> lz_parsed_count ctx \<le> exposed ss \<and> lz_total_accounts ctx = exposed ss \<and>
     lz_declared_accounts ctx = length ss \<and> lz_cursor ctx = place ss (lz_parsed_count ctx) \<and>
     place ss (lz_parsed_count ctx) \<le> length (lz_buffer ctx) \<and>
     drop (place ss (lz_parsed_count ctx)) (lz_buffer ctx) = ahead ss ix pid rest (lz_parsed_count ctx) \<and>
     lz_resolved ctx = resolved_upto ss (lz_parsed_count ctx) \<and>
     (lz_tail ctx = None \<or> lz_tail ctx = Some (place ss (length ss)))"

definition lazy_abs :: "lazy_context \<Rightarrow> lazy_spec_state" where
  "lazy_abs ctx = (lz_parsed_count ctx, take (lz_cursor ctx) (lz_buffer ctx))"

lemma fst_lazy_abs [simp]: "fst (lazy_abs ctx) = lz_parsed_count ctx"
  by (simp add: lazy_abs_def)

lemma lazy_buffer_split:
  assumes "lazy_inv ss ix pid rest ctx"
  shows "lz_buffer ctx = snd (lazy_abs ctx) @ ahead ss ix pid rest (lz_parsed_count ctx)"
    "length (snd (lazy_abs ctx)) = lz_cursor ctx"
  using assms append_take_drop_id [of "lz_cursor ctx" "lz_buffer ctx"] by (auto simp: lazy_inv_def lazy_abs_def)

lemma ahead_Suc: "k < length ss \<Longrightarrow> ahead ss ix pid rest k = encode_slot (ss ! k) @ ahead ss ix pid rest (Suc k)"
  by (simp add: ahead_def Cons_nth_drop_Suc [symmetric])

lemma place_Suc: "k < length ss \<Longrightarrow> place ss (Suc k) = place ss k + length (encode_slot (ss ! k))"
  by (simp add: place_def take_Suc_conv_app_nth)

lemma place_aligned: "slots_valid 0 ss \<Longrightarrow> 8 dvd place ss k"
  using slots_length_aligned [OF slots_valid_take] by (simp add: place_def)

lemma resolved_upto_prefix: "k \<le> 254 \<Longrightarrow> take k (resolved_upto ss k) = List.map Some (List.map (slot_place ss) [0..<k])"
  by (simp add: resolved_upto_def)

lemma resolved_upto_Suc: "k < 254 \<Longrightarrow> (resolved_upto ss k)[k := Some (slot_place ss k)] = resolved_upto ss (Suc k)"
  by (simp add: resolved_upto_def list_update_append Suc_diff_Suc [symmetric])

lemma slot_size_small:
  assumes "frame_ok ss ix pid" and "k < length ss"
  shows "length (encode_slot (ss ! k)) < 2 ^ 64"
  using assms frame_count(3) [of ss ix pid] encode_slots_split [OF assms(2)] by (simp add: frame_ok_def)

lemma consume_frame:
  assumes inv: "lazy_inv ss ix pid rest ctx" and k: "lz_parsed_count ctx < exposed ss"
  shows "\<exists>ctx'. consume_one ctx = Ok (ctx', slot_place ss (lz_parsed_count ctx)) \<and> lazy_inv ss ix pid rest ctx' \<and>
    lazy_abs ctx' = consumed ss (lz_parsed_count ctx + 1) (lazy_abs ctx)"
proof -
  let ?k = "lz_parsed_count ctx" and ?s = "ss ! lz_parsed_count ctx" and ?pre = "snd (lazy_abs ctx)"
  let ?post = "ahead ss ix pid rest (Suc (lz_parsed_count ctx))"
  have ok: "slots_valid 0 ss" "frame_ok ss ix pid" using inv by (simp_all add: lazy_inv_def frame_ok_def)
  have len: "?k < length ss" "?k < 254" using k by (simp_all add: exposed_def)
  have buf: "lz_buffer ctx = ?pre @ encode_slot ?s @ ?post" and cur: "lz_cursor ctx = length ?pre"
    using lazy_buffer_split [OF inv] ahead_Suc [OF len(1)] by simp_all
  have cur': "length ?pre = place ss ?k" using cur inv by (simp add: lazy_inv_def)
  have v: "slot_valid ?k ?s" using slot_valid_nth [OF ok(1) len(1)] by simp
  have small: "length (encode_slot ?s) < 2 ^ 64" by (rule slot_size_small [OF ok(2) len(1)])
  have al: "8 dvd length ?pre" unfolding cur' by (rule place_aligned [OF ok(1)])
  have room: "8 \<le> length ?post" by (simp add: ahead_def)
  have res: "lz_resolved ctx = resolved_upto ss ?k" using inv by (simp add: lazy_inv_def)
  have view: "slot_view (List.map (slot_place ss) [0..<?k]) (length ?pre) ?s = slot_place ss ?k"
    unfolding cur' place_def by (rule slot_place_view [OF ok(1) len(1)])
  have slots: "?k < length (lz_resolved ctx)" using len unfolding res by (simp add: resolved_upto_def)
  have pre: "take ?k (lz_resolved ctx) = List.map Some (List.map (slot_place ss) [0..<?k])"
    unfolding res using len by (intro resolved_upto_prefix) simp
  have "take_record (?pre @ encode_slot ?s @ ?post) (length ?pre) ?k (lz_resolved ctx) =
      Ok (?pre @ encode_slot (baseline_slot ?s) @ ?post, (lz_resolved ctx)[?k := Some (slot_place ss ?k)], length ?pre + length (encode_slot ?s))"
    unfolding view [symmetric] by (rule take_record_frame [OF v al room small slots pre]) simp
  then have take_rec: "take_record (lz_buffer ctx) (lz_cursor ctx) ?k (lz_resolved ctx) =
      Ok (?pre @ encode_slot (baseline_slot ?s) @ ?post, resolved_upto ss (Suc ?k), place ss (Suc ?k))"
    unfolding cur buf [symmetric] unfolding res resolved_upto_Suc [OF len(2)] cur' place_Suc [OF len(1)] .
  have read: "slot_read (resolved_upto ss (Suc ?k)) ?k = Ok (slot_place ss ?k)"
    using len(2) by (simp add: slot_read_def resolved_upto_def nth_append)
  let ?ctx = "ctx\<lparr>lz_buffer := ?pre @ encode_slot (baseline_slot ?s) @ ?post, lz_cursor := place ss (Suc ?k),
      lz_resolved := resolved_upto ss (Suc ?k), lz_parsed_count := ?k + 1\<rparr>"
  have run: "consume_one ctx = Ok (?ctx, slot_place ss ?k)"
    unfolding consume_is_take_record [OF buf cur v small al room] take_rec obind.simps prod.case read ..
  have lb: "length (?pre @ encode_slot (baseline_slot ?s)) = place ss (Suc ?k)"
    using baseline_length [OF v] cur' place_Suc [OF len(1)] by simp
  have "lazy_inv ss ix pid rest ?ctx"
    using inv k lb drop_append [of "place ss (Suc ?k)" "?pre @ encode_slot (baseline_slot ?s)" ?post]
    by (auto simp: lazy_inv_def)
  moreover have "take (Suc ?k - ?k) (drop ?k ss) = [?s]" using len(1) by (simp add: Cons_nth_drop_Suc [symmetric])
  then have "consumed ss (?k + 1) (lazy_abs ctx) = (Suc ?k, ?pre @ encode_slot (baseline_slot ?s))"
    by (simp add: consumed_def case_prod_beta)
  moreover have "take (place ss (Suc ?k)) ((?pre @ encode_slot (baseline_slot ?s)) @ ?post) = ?pre @ encode_slot (baseline_slot ?s)"
    unfolding lb [symmetric] by (rule append_eq_conv_conj [THEN iffD1, THEN conjunct1, symmetric, OF refl])
  then have "lazy_abs ?ctx = (Suc ?k, ?pre @ encode_slot (baseline_slot ?s))" unfolding lazy_abs_def [of ?ctx] by simp
  ultimately show ?thesis using run by metis
qed

text \<open>The typed checks read the flags and the owner only, which lie in the record's first 88 bytes.\<close>

definition reads_header :: "(runtime_account \<Rightarrow> unit outcome) \<Rightarrow> bool" where
  "reads_header check \<longleftrightarrow> (\<forall>a. check a \<noteq> Trap) \<and>
     (\<forall>d view n. view + 88 \<le> n \<longrightarrow> check (account_at (take n d) view) = check (account_at d view))"

lemma bslice_take: "a + m \<le> n \<Longrightarrow> bslice a m (take n d) = bslice a m d"
  by (simp add: bslice_def drop_take min_def)

lemma checks_read_header:
  "reads_header (\<lambda>_. Ok ())" "reads_header av_require_signer" "reads_header av_require_writable" "reads_header av_require_payer"
  "reads_header (\<lambda>acct. av_require_owned_by acct program)"
  by (auto simp: reads_header_def av_require_signer_def av_require_writable_def av_require_payer_def av_require_owned_by_def
      av_is_signer_def av_is_writable_def av_owned_by_def account_at_def bslice_take split: if_splits)

lemma place_mono: "i \<le> j \<Longrightarrow> place ss i \<le> place ss j"
  using take_add [of i "j - i" ss] by (simp add: place_def)

lemma lazy_inv_counts:
  assumes "lazy_inv ss ix pid rest ctx"
  shows "lz_total_accounts ctx = exposed ss" "lz_parsed_count ctx \<le> exposed ss" "slots_valid 0 ss"
    "lz_parsed_count ctx < exposed ss \<Longrightarrow> lz_parsed_count ctx < length ss"
  using assms by (simp_all add: lazy_inv_def frame_ok_def exposed_def)

lemma slot_place_bound:
  assumes "slots_valid 0 ss" and "k < length ss" and "k < j"
  shows "slot_place ss k + 88 \<le> place ss j"
proof -
  let ?o = "origins [] ss ! k"
  have "\<forall>i < 0 + length ss. origins [] ss ! i \<le> i \<and> is_canonical (ss ! (origins [] ss ! i))"
    using origins_name_canonical [of "[]" ss "[]"] assms(1) by simp
  then have o: "?o \<le> k" "is_canonical (ss ! ?o)" using assms(2) by simp_all
  then have lt: "?o < length ss" "?o < j" using assms(2,3) by simp_all
  have "slot_valid ?o (ss ! ?o)" using slot_valid_nth [OF assms(1) lt(1)] by simp
  then have "88 \<le> length (encode_slot (ss ! ?o))" using o(2) by (cases "ss ! ?o") simp_all
  moreover have "place ss (Suc ?o) \<le> place ss j" using lt(2) by (intro place_mono) simp
  ultimately show ?thesis using place_Suc [OF lt(1)] by (simp add: slot_place_def place_def)
qed

lemma next_checked_frame:
  assumes inv: "lazy_inv ss ix pid rest ctx" and check: "reads_header check"
  shows "\<exists>ctx'. lazy_next_checked check ctx = (ctx', snd (spec_next ss check (lazy_abs ctx))) \<and>
    lazy_inv ss ix pid rest ctx' \<and> lazy_abs ctx' = fst (spec_next ss check (lazy_abs ctx))"
proof (cases "lz_parsed_count ctx < exposed ss")
  case True
  let ?k = "lz_parsed_count ctx"
  obtain ctx' where run: "consume_one ctx = Ok (ctx', slot_place ss ?k)" and inv': "lazy_inv ss ix pid rest ctx'"
    and abs: "lazy_abs ctx' = consumed ss (?k + 1) (lazy_abs ctx)" using consume_frame [OF inv True] by blast
  have k': "lz_parsed_count ctx' = Suc ?k" using consume_one_counts [OF run] by simp
  have v: "slots_valid 0 ss" "?k < length ss" using True lazy_inv_counts [OF inv] by simp_all
  have bound: "slot_place ss ?k + 88 \<le> lz_cursor ctx'"
    using slot_place_bound [OF v, of "Suc ?k"] inv' k' by (simp add: lazy_inv_def)
  then have "view_account (lz_buffer ctx') (slot_place ss ?k) = Ok (account_at (lz_buffer ctx') (slot_place ss ?k))"
    using inv' by (simp add: view_account_def lazy_inv_def)
  moreover have "check (account_at (lz_buffer ctx') (slot_place ss ?k)) = check (account_at (snd (lazy_abs ctx')) (slot_place ss ?k))"
    using check bound by (simp add: reads_header_def lazy_abs_def)
  ultimately show ?thesis
    using inv' run True abs lazy_inv_counts [OF inv]
    by (simp add: lazy_next_checked_def lazy_next_account_def spec_next_def Let_def)
next
  case False
  then show ?thesis using inv lazy_inv_counts [OF inv] by (simp add: lazy_next_checked_def lazy_next_account_def spec_next_def)
qed

lemma next_account_is_checked:
  assumes inv: "lazy_inv ss ix pid rest ctx"
  shows "kept ctx (lazy_next_account ctx) = lazy_next_checked (\<lambda>_. Ok ()) ctx"
proof (cases "lz_parsed_count ctx < exposed ss")
  case True
  let ?k = "lz_parsed_count ctx"
  obtain ctx' where run: "consume_one ctx = Ok (ctx', slot_place ss ?k)" and inv': "lazy_inv ss ix pid rest ctx'"
    using consume_frame [OF inv True] by blast
  have k': "lz_parsed_count ctx' = Suc ?k" using consume_one_counts [OF run] by simp
  have v: "slots_valid 0 ss" "?k < length ss" using True lazy_inv_counts [OF inv] by simp_all
  have "slot_place ss ?k + 88 \<le> length (lz_buffer ctx')"
    using slot_place_bound [OF v, of "Suc ?k"] inv' k' by (simp add: lazy_inv_def)
  then show ?thesis using run True lazy_inv_counts [OF inv]
    by (simp add: kept_def lazy_next_checked_def lazy_next_account_def view_account_def)
next
  case False
  then show ?thesis using lazy_inv_counts [OF inv] by (simp add: kept_def lazy_next_checked_def lazy_next_account_def)
qed

lemma consumed_step: "k + 1 \<le> k' \<Longrightarrow> fst s = k \<Longrightarrow> k < length ss \<Longrightarrow> consumed ss k' (consumed ss (k + 1) s) = consumed ss k' s"
proof -
  assume k: "k + 1 \<le> k'" "fst s = k" "k < length ss"
  obtain j where "k' = k + 1 + j" using le_Suc_ex [OF k(1)] by blast
  then show ?thesis using k(2,3) by (cases s) (simp add: consumed_def Cons_nth_drop_Suc [symmetric])
qed

lemma consumed_none [simp]: "lz_parsed_count ctx = k \<Longrightarrow> consumed ss k (lazy_abs ctx) = lazy_abs ctx"
  by (simp add: consumed_def case_prod_beta prod_eq_iff)

lemma skip_frame:
  "lazy_inv ss ix pid rest ctx \<Longrightarrow> \<exists>ctx'. lazy_skip n ctx =
     (ctx', if lz_parsed_count ctx + n \<le> exposed ss then Ok () else Err NotEnoughAccountKeys) \<and>
   lazy_inv ss ix pid rest ctx' \<and> lazy_abs ctx' = consumed ss (min (lz_parsed_count ctx + n) (exposed ss)) (lazy_abs ctx)"
proof (induction n arbitrary: ctx)
  case 0
  then show ?case by (simp add: lazy_inv_def min_def)
next
  case (Suc n)
  let ?k = "lz_parsed_count ctx"
  have t: "lz_total_accounts ctx = exposed ss" "?k \<le> exposed ss" using lazy_inv_counts [OF Suc.prems] by simp_all
  show ?case
  proof (cases "?k < exposed ss")
    case True
    obtain ctx' where run: "consume_one ctx = Ok (ctx', slot_place ss ?k)" and inv': "lazy_inv ss ix pid rest ctx'"
      and abs: "lazy_abs ctx' = consumed ss (?k + 1) (lazy_abs ctx)" using consume_frame [OF Suc.prems True] by blast
    have k': "lz_parsed_count ctx' = Suc ?k" using consume_one_counts [OF run] by simp
    have "consumed ss (min (Suc ?k + n) (exposed ss)) (lazy_abs ctx') = consumed ss (min (?k + Suc n) (exposed ss)) (lazy_abs ctx)"
      unfolding abs add_Suc add_Suc_right using True lazy_inv_counts(4) [OF Suc.prems] by (intro consumed_step) simp_all
    then show ?thesis using Suc.IH [OF inv'] run True t k' by auto
  next
    case False
    then show ?thesis using Suc.prems t by (auto simp: min_def)
  qed
qed

lemma drain_frame:
  "lazy_inv ss ix pid rest ctx \<Longrightarrow> \<exists>ctx'. drain_loop ctx = Ok ctx' \<and> lazy_inv ss ix pid rest ctx' \<and>
   lz_parsed_count ctx' = exposed ss \<and> lazy_abs ctx' = consumed ss (exposed ss) (lazy_abs ctx)"
proof (induction ctx rule: drain_loop.induct)
  case (1 ctx)
  let ?k = "lz_parsed_count ctx"
  have t: "lz_total_accounts ctx = exposed ss" "?k \<le> exposed ss" using lazy_inv_counts [OF 1(2)] by simp_all
  show ?case
  proof (cases "?k < exposed ss")
    case True
    obtain ctx' where run: "consume_one ctx = Ok (ctx', slot_place ss ?k)" and inv': "lazy_inv ss ix pid rest ctx'"
      and abs: "lazy_abs ctx' = consumed ss (?k + 1) (lazy_abs ctx)" using consume_frame [OF 1(2) True] by blast
    have "consumed ss (exposed ss) (lazy_abs ctx') = consumed ss (exposed ss) (lazy_abs ctx)"
      unfolding abs using True lazy_inv_counts(4) [OF 1(2)] by (intro consumed_step) simp_all
    then show ?thesis using 1(1) [OF _ run] inv' True t run by (simp add: drain_loop.simps [of ctx])
  next
    case False
    then have "?k = exposed ss" using t by simp
    then show ?thesis using 1(2) t by (simp add: drain_loop.simps [of ctx])
  qed
qed

lemma drain_remaining_frame:
  assumes inv: "lazy_inv ss ix pid rest ctx"
  shows "\<exists>ctx'. lazy_drain_remaining ctx = Ok (ctx', List.map (slot_place ss) [lz_parsed_count ctx..<exposed ss]) \<and>
    lazy_inv ss ix pid rest ctx' \<and> lazy_abs ctx' = consumed ss (exposed ss) (lazy_abs ctx)"
proof -
  let ?k = "lz_parsed_count ctx"
  obtain ctx' where run: "drain_loop ctx = Ok ctx'" and inv': "lazy_inv ss ix pid rest ctx'" and k: "lz_parsed_count ctx' = exposed ss"
    and abs: "lazy_abs ctx' = consumed ss (exposed ss) (lazy_abs ctx)" using drain_frame [OF inv] by blast
  have res: "lz_resolved ctx' = resolved_upto ss (exposed ss)" using inv' k by (simp add: lazy_inv_def)
  have le: "?k \<le> exposed ss" using lazy_inv_counts [OF inv] by simp
  have "take (exposed ss - ?k) (drop ?k (resolved_upto ss (exposed ss))) = List.map Some (List.map (slot_place ss) [?k..<exposed ss])"
    using le by (simp add: resolved_upto_def drop_map)
  moreover have "read_slots (List.map Some xs) = Ok xs" for xs by (induction xs) simp_all
  then have "read_slots (List.map Some (List.map (slot_place ss) [?k..<exposed ss])) = Ok (List.map (slot_place ss) [?k..<exposed ss])" .
  moreover have "exposed ss \<le> length (resolved_upto ss (exposed ss))" by (simp add: resolved_upto_def)
  ultimately show ?thesis using run inv' abs k res by (simp add: lazy_drain_remaining_def Let_def del: map_map)
qed

lemma get_frame:
  assumes inv: "lazy_inv ss ix pid rest ctx"
  shows "lazy_get ctx i = Ok (if i < lz_parsed_count ctx then Some (slot_place ss i) else None)"
proof (cases "i < lz_parsed_count ctx")
  case True
  moreover have "lz_resolved ctx = resolved_upto ss (lz_parsed_count ctx)" using inv by (simp add: lazy_inv_def)
  ultimately show ?thesis by (simp add: lazy_get_def slot_read_def resolved_upto_def nth_append)
qed (simp add: lazy_get_def)

section \<open>The tail\<close>

lemma tail_loop_step:
  assumes "slot < n"
    and "obind (rd_byte d scan) (\<lambda>marker.
      if marker = 255 then obind (rd_u64 d (scan + 80)) (\<lambda>data_len. ptr_add d scan (non_dup_stride data_len))
      else if unat marker \<ge> slot then Trap
      else ptr_add d scan 8) = Ok scan'"
  shows "tail_loop d n slot scan = tail_loop d n (slot + 1) scan'"
  unfolding tail_loop.simps [of d n slot scan] if_P [OF assms(1)] obind_assoc [symmetric] assms(2) by simp

lemma tail_loop_frame:
  "slots_valid slot ss \<Longrightarrow> length (encode_slots ss) < 2 ^ 64 \<Longrightarrow>
   tail_loop (pre @ encode_slots ss @ post) (slot + length ss) slot (length pre) = Ok (length pre + length (encode_slots ss))"
proof (induction ss arbitrary: slot pre)
  case Nil
  then show ?case by (simp add: tail_loop.simps)
next
  case (Cons s ss)
  let ?d = "pre @ encode_slots (s # ss) @ post"
  have valid: "slot_valid slot s" and rest: "slots_valid (Suc slot) ss" using Cons.prems(1) by simp_all
  have "tail_loop ((pre @ encode_slot s) @ encode_slots ss @ post) (Suc slot + length ss) (Suc slot) (length (pre @ encode_slot s)) =
      Ok (length (pre @ encode_slot s) + length (encode_slots ss))"
    using Cons.prems rest by (intro Cons.IH) simp_all
  moreover have "obind (rd_byte ?d (length pre)) (\<lambda>marker.
      if marker = 255 then obind (rd_u64 ?d (length pre + 80)) (\<lambda>data_len. ptr_add ?d (length pre) (non_dup_stride data_len))
      else if unat marker \<ge> slot then Trap
      else ptr_add ?d (length pre) 8) = Ok (length pre + length (encode_slot s))"
  proof (cases s)
    case (FCanonical header data trailer)
    have h: "length header = 79" "length trailer = 10240 + padding (length data) + 8" and n: "length data < 2 ^ 64"
      using valid Cons.prems(2) FCanonical by simp_all
    have "rd_u64 ?d (length pre + 80) = Ok (length data)"
      using rd_u64_data_len [OF h(1) n, of pre trailer "encode_slots ss @ post"] FCanonical by simp
    then show ?thesis using h FCanonical by (simp add: rd_byte_def nth_append ptr_add_def non_dup_stride_eq)
  next
    case (FDuplicate marker pad)
    then show ?thesis using valid by (simp add: rd_byte_def nth_append ptr_add_def)
  qed
  ultimately show ?case using tail_loop_step [of slot "slot + length (s # ss)" ?d "length pre"] by simp
qed

lemma tail_ptr_frame:
  assumes inv: "lazy_inv ss ix pid rest ctx"
  shows "\<exists>ctx'. lazy_tail_ptr ctx = Ok (ctx', place ss (length ss)) \<and> lazy_inv ss ix pid rest ctx' \<and>
    lazy_abs ctx' = lazy_abs ctx \<and> lz_buffer ctx' = lz_buffer ctx"
proof (cases "lz_tail ctx")
  case None
  let ?k = "lz_parsed_count ctx" and ?pre = "snd (lazy_abs ctx)"
  let ?post = "le_enc 8 (length ix) @ ix @ pid @ rest"
  have v: "slots_valid ?k (drop ?k ss)" and k: "?k \<le> length ss" and decl: "lz_declared_accounts ctx = ?k + length (drop ?k ss)"
    using inv slots_valid_append [of 0 "take ?k ss" "drop ?k ss"] by (auto simp: lazy_inv_def frame_ok_def exposed_def)
  have buf: "lz_buffer ctx = ?pre @ encode_slots (drop ?k ss) @ ?post" and cur: "lz_cursor ctx = length ?pre"
    using lazy_buffer_split [OF inv] by (simp_all add: ahead_def)
  have sum: "place ss ?k + length (encode_slots (drop ?k ss)) = place ss (length ss)"
    using encode_slots_simps(3) [of "take ?k ss" "drop ?k ss"] by (simp add: place_def flip: length_append)
  have "length (encode_slots ss) < 2 ^ 64" using inv frame_count(3) [of ss ix pid] by (simp add: lazy_inv_def frame_ok_def)
  then have "length (encode_slots (drop ?k ss)) < 2 ^ 64" using sum by (simp add: place_def)
  from tail_loop_frame [OF v this, of ?pre ?post]
  have "tail_loop (lz_buffer ctx) (lz_declared_accounts ctx) ?k (lz_cursor ctx) = Ok (place ss (length ss))"
    unfolding buf [symmetric] decl [symmetric] cur [symmetric] using sum inv by (simp add: lazy_inv_def)
  then show ?thesis using None inv by (simp add: lazy_tail_ptr_def lazy_inv_def lazy_abs_def)
next
  case (Some cached)
  then show ?thesis using inv by (simp add: lazy_tail_ptr_def lazy_inv_def)
qed

lemma tail_fields:
  assumes inv: "lazy_inv ss ix pid rest ctx"
  shows "rd_u64 (lz_buffer ctx) (place ss (length ss)) = Ok (length ix)"
    "ptr_add (lz_buffer ctx) (place ss (length ss)) 8 = Ok (place ss (length ss) + 8)"
    "rd (lz_buffer ctx) (place ss (length ss) + 8) (length ix) = Ok ix"
    "rd (lz_buffer ctx) (place ss (length ss) + (8 + length ix)) 32 = Ok pid"
proof -
  let ?k = "lz_parsed_count ctx" and ?pre = "snd (lazy_abs ctx) @ encode_slots (drop (lz_parsed_count ctx) ss)"
  have buf: "lz_buffer ctx = ?pre @ le_enc 8 (length ix) @ ix @ pid @ rest" and cur: "length (snd (lazy_abs ctx)) = place ss ?k"
    using lazy_buffer_split [OF inv] inv by (simp_all add: ahead_def lazy_inv_def)
  have "length (encode_slots (take ?k ss)) + length (encode_slots (drop ?k ss)) = length (encode_slots ss)"
    using encode_slots_simps(3) [of "take ?k ss" "drop ?k ss"] by (metis append_take_drop_id length_append)
  then have p: "place ss (length ss) = length ?pre" using cur by (simp add: place_def)
  have n: "length ix < 2 ^ 64" "length pid = 32" using inv frame_count(4) [of ss ix pid] by (simp_all add: lazy_inv_def frame_ok_def)
  show "rd_u64 (lz_buffer ctx) (place ss (length ss)) = Ok (length ix)"
    unfolding buf p by (rule rd_u64_field [OF refl n(1)])
  show "ptr_add (lz_buffer ctx) (place ss (length ss)) 8 = Ok (place ss (length ss) + 8)"
    unfolding buf p by (simp add: ptr_add_def)
  show "rd (lz_buffer ctx) (place ss (length ss) + 8) (length ix) = Ok ix"
    unfolding buf p using rd_field [of "length ?pre + 8" "?pre @ le_enc 8 (length ix)" "length ix" ix "pid @ rest"] by simp
  show "rd (lz_buffer ctx) (place ss (length ss) + (8 + length ix)) 32 = Ok pid"
    unfolding buf p using n(2) rd_field [of "length ?pre + (8 + length ix)" "?pre @ le_enc 8 (length ix) @ ix" 32 pid rest] by simp
qed

lemma instruction_data_frame:
  assumes inv: "lazy_inv ss ix pid rest ctx"
  shows "\<exists>ctx'. lazy_instruction_data ctx = Ok (ctx', ix) \<and> lazy_inv ss ix pid rest ctx' \<and> lazy_abs ctx' = lazy_abs ctx"
proof -
  obtain ctx' where c: "lazy_tail_ptr ctx = Ok (ctx', place ss (length ss))" "lazy_inv ss ix pid rest ctx'" "lazy_abs ctx' = lazy_abs ctx"
    using tail_ptr_frame [OF inv] by blast
  then show ?thesis using tail_fields [OF c(2)] by (simp add: lazy_instruction_data_def)
qed

lemma program_id_frame:
  assumes inv: "lazy_inv ss ix pid rest ctx"
  shows "\<exists>ctx'. lazy_program_id ctx = Ok (ctx', pid) \<and> lazy_inv ss ix pid rest ctx' \<and> lazy_abs ctx' = lazy_abs ctx"
proof -
  obtain ctx' where c: "lazy_tail_ptr ctx = Ok (ctx', place ss (length ss))" "lazy_inv ss ix pid rest ctx'" "lazy_abs ctx' = lazy_abs ctx"
    using tail_ptr_frame [OF inv] by blast
  then show ?thesis using tail_fields [OF c(2)] by (simp add: lazy_program_id_def)
qed

lemma stores_prefix: "bound \<le> length d \<Longrightarrow>
    take bound (stores bound off b d) = stores bound off b (take bound d) \<and> drop bound (stores bound off b d) = drop bound d \<and>
    length (stores bound off b d) = length d"
proof (cases "8 \<le> off \<and> off + length b \<le> bound")
  case True
  moreover assume "bound \<le> length d"
  ultimately have le: "off \<le> bound" "off \<le> length d" "off + length b \<le> length d" "off + length b \<le> bound" by linarith+
  then have d: "stores bound off b d = take off d @ b @ drop (off + length b) d" using True by (simp add: stores_def bsplice_def)
  have "stores bound off b (take bound d) = take off d @ b @ take (bound - (off + length b)) (drop (off + length b) d)"
    using True le by (simp add: stores_def bsplice_def drop_take min.absorb1)
  then show ?thesis unfolding d using le by (simp add: min.absorb2)
qed (auto simp: stores_def)

lemma store_frame:
  assumes inv: "lazy_inv ss ix pid rest ctx"
  shows "lazy_inv ss ix pid rest (ctx\<lparr>lz_buffer := stores (lz_cursor ctx) off b (lz_buffer ctx)\<rparr>) \<and>
    lazy_abs (ctx\<lparr>lz_buffer := stores (lz_cursor ctx) off b (lz_buffer ctx)\<rparr>) =
      (lz_parsed_count ctx, stores (length (snd (lazy_abs ctx))) off b (snd (lazy_abs ctx)))"
proof -
  have "lz_cursor ctx \<le> length (lz_buffer ctx)" using inv by (simp add: lazy_inv_def)
  from stores_prefix [OF this, of off b] show ?thesis
    using inv lazy_buffer_split(2) [OF inv] by (simp add: lazy_inv_def) (simp add: lazy_abs_def)
qed

section \<open>Every call\<close>

lemmas next_checked_simps = lazy_next_signer_def lazy_next_writable_def lazy_next_payer_def lazy_next_owned_by_def

lemma returned_kept_Ok [simp]: "returned f (kept s (Ok (s', x))) = Ok (s', f x)"
  by (simp add: returned_def kept_def)

lemma next_step:
  assumes "lazy_inv ss ix pid rest ctx" and "reads_header check"
  shows "\<exists>ctx' r. returned AView (lazy_next_checked check ctx) = Ok (ctx', r) \<and> lazy_inv ss ix pid rest ctx' \<and>
    returned AView (spec_next ss check (lazy_abs ctx)) = Ok (lazy_abs ctx', r)"
proof -
  have "snd (spec_next ss check (lazy_abs ctx)) \<noteq> Trap"
    using assms(2) by (auto simp: spec_next_def reads_header_def Let_def obind_Trap_iff)
  then show ?thesis
    using next_checked_frame [OF assms] by (cases "snd (spec_next ss check (lazy_abs ctx))") (auto simp: returned_def)
qed

lemma lazy_step:
  assumes inv: "lazy_inv ss ix pid rest ctx"
  shows "\<exists>ctx' r. lazy_exec ctx c = Ok (ctx', r) \<and> lazy_inv ss ix pid rest ctx' \<and>
    lazy_spec ss ix pid (lazy_abs ctx) c = Ok (lazy_abs ctx', r)"
proof (cases c)
  case LNext
  then show ?thesis using next_step [OF inv checks_read_header(1)] next_account_is_checked [OF inv] by simp
next
  case LNextSigner
  then show ?thesis using next_step [OF inv checks_read_header(2)] by (simp add: next_checked_simps)
next
  case LNextWritable
  then show ?thesis using next_step [OF inv checks_read_header(3)] by (simp add: next_checked_simps)
next
  case LNextPayer
  then show ?thesis using next_step [OF inv checks_read_header(4)] by (simp add: next_checked_simps)
next
  case (LNextOwnedBy program)
  then show ?thesis using next_step [OF inv checks_read_header(5)] by (simp add: next_checked_simps)
next
  case (LSkip n)
  then show ?thesis using skip_frame [OF inv, of n] by (auto simp: returned_def)
next
  case LDrain
  then show ?thesis using drain_remaining_frame [OF inv] by auto
next
  case (LGet i)
  then show ?thesis using inv get_frame [OF inv] by (simp add: returned_def)
next
  case LInstructionData
  then show ?thesis using instruction_data_frame [OF inv] by auto
next
  case LProgramId
  then show ?thesis using program_id_frame [OF inv] by auto
next
  case (LStore off b)
  then show ?thesis using store_frame [OF inv, of off b] by simp
qed (use inv lazy_inv_counts [OF inv] in \<open>simp_all add: returned_def lazy_remaining_def\<close>)

lemma spec_total: "lazy_spec ss ix pid s c \<noteq> Trap"
proof -
  have "returned AView (spec_next ss check s) \<noteq> Trap" if "reads_header check" for check
    using that by (auto simp: returned_def spec_next_def reads_header_def Let_def obind_Trap_iff split: outcome.splits)
  then show ?thesis using checks_read_header by (cases c) (auto simp: returned_def)
qed

interpretation lazy_sim: simulation lazy_exec "lazy_spec ss ix pid" lazy_abs "lazy_inv ss ix pid rest" "\<lambda>_. True"
  for ss ix pid rest
proof
  fix ctx c ctx' r
  assume inv: "lazy_inv ss ix pid rest ctx"
  from lazy_step [OF this, of c] show "map_state lazy_abs (lazy_exec ctx c) = lazy_spec ss ix pid (lazy_abs ctx) c" by auto
  assume "lazy_exec ctx c = Ok (ctx', r)"
  with lazy_step [OF inv, of c] show "lazy_inv ss ix pid rest ctx'" by auto
qed (rule spec_total)

lemma lazy_deserialize_frame:
  assumes "frame_ok ss ix pid"
  shows "\<exists>ctx. lazy_deserialize (encode_frame ss ix pid @ rest) = Ok ctx \<and> lazy_inv ss ix pid rest ctx \<and>
    lazy_abs ctx = (0, le_enc 8 (length ss))"
proof -
  note count = frame_count [of ss ix pid]
  have c: "rd_u64 (encode_frame ss ix pid @ rest) 0 = Ok (length ss)" "ptr_add (encode_frame ss ix pid @ rest) 0 8 = Ok 8"
    using count assms by (simp_all add: frame_ok_def)
  have e: "(if length ss > 254 then 254 else length ss) = exposed ss" by (simp add: exposed_def)
  show ?thesis
    unfolding lazy_deserialize_def c obind.simps Let_def e
    using assms by (simp add: lazy_inv_def lazy_abs_def place_def resolved_upto_def ahead_def frame_split)
qed

section \<open>The property\<close>

text \<open>
  C17: The lazy parser is as good as the eager one. On every frame, for every order of the lazy
  calls and whatever the program writes into the accounts it has been handed meanwhile, the
  context never leaves the buffer or aborts, and every answer (views, checks of flags and owner,
  skipped and drained accounts, instruction data and program id before, between or after the
  accounts) is the one the frame determines; the accounts, the data and the id are those the
  eager parser returns.
\<close>

theorem lazy_parser_reads_frames:
  assumes "slots_valid 0 ss" and "length pid = 32" and "length (encode_frame ss ix pid) < 2 ^ 64"
  shows "\<exists>ctx p. lazy_deserialize (encode_frame ss ix pid @ rest) = Ok ctx \<and>
    deserialize_accounts 254 (encode_frame ss ix pid @ rest) = Ok p \<and>
    snd (run_calls lazy_exec ctx cs) = snd (run_calls (lazy_spec ss ix pid) (0, le_enc 8 (length ss)) cs) \<and>
    Trap \<notin> set (snd (run_calls lazy_exec ctx cs)) \<and>
    in_data p = ix \<and> in_program_id p = pid \<and> in_count p = exposed ss \<and>
    (\<forall>i < exposed ss. in_slots p ! i = Some (slot_place ss i))"
proof -
  let ?p = "frame_input 254 ss ix pid rest"
  have ok: "frame_ok ss ix pid" using assms by (simp add: frame_ok_def)
  obtain ctx where ctx: "lazy_deserialize (encode_frame ss ix pid @ rest) = Ok ctx" and inv: "lazy_inv ss ix pid rest ctx"
    and abs: "lazy_abs ctx = (0, le_enc 8 (length ss))" using lazy_deserialize_frame [OF ok] by blast
  have all: "list_all (\<lambda>_. True) cs" by (simp add: list_all_iff)
  have views: "in_slots ?p ! i = Some (slot_place ss i)" if "i < exposed ss" for i
    using view_of_slot [OF assms(1), of i "exposed ss" 254] that
    by (simp add: frame_input_def slot_place_def exposed_def min.commute Let_def)
  show ?thesis
    using ctx deserialize_frame [OF assms, of 254 rest] lazy_sim.run_refines [OF inv all] lazy_sim.safe.run_safe [OF inv all] abs views
    by (auto simp: frame_input_def Let_def exposed_def min.commute)
qed

theorem lazy_parser_reads_frames_witness:
  "\<exists>ctx. lazy_deserialize (encode_frame sample_slots [9] (replicate 32 4)) = Ok ctx \<and>
     snd (run_calls lazy_exec ctx [LGet 0, LInstructionData, LDrain, LGet 1, LNext]) =
       [Ok (AOpt None), Ok (ABytes [9]), Ok (AViews [8, 8]), Ok (AOpt (Some 8)), Ok (AErr NotEnoughAccountKeys)]"
proof -
  have pid: "length (replicate 32 4 :: bytes) = 32" by simp
  have "origins [] sample_slots = [0, 0]" "exposed sample_slots = 2" by (simp_all add: sample_slots_def exposed_def)
  then have "snd (run_calls (lazy_spec sample_slots [9] (replicate 32 4)) (0, le_enc 8 (length sample_slots))
      [LGet 0, LInstructionData, LDrain, LGet 1, LNext]) =
      [Ok (AOpt None), Ok (ABytes [9]), Ok (AViews [8, 8]), Ok (AOpt (Some 8)), Ok (AErr NotEnoughAccountKeys)]"
    by (simp add: consumed_def spec_next_def returned_def slot_place_def upt_conv_Cons)
  then show ?thesis
    using lazy_parser_reads_frames [OF sample_slots_valid pid sample_frame_small, of "[]" "[LGet 0, LInstructionData, LDrain, LGet 1, LNext]"]
    by auto
qed

end
