(* ===== verification/Contract.thy ===== *)
theory Contract imports MachineInts Fallible "HOL-Library.Product_Lexorder" begin

text \<open>
  grillo-manifest/src/manifest.rs and resolve.rs: the mutation contract a program publishes for
  an instruction, and its resolution against the arguments of one invocation. The \<^verbatim>\<open>u64\<close> values
  here are \<^verbatim>\<open>u32\<close> fields widened and are natural numbers; where the code checks for overflow so
  does the model. JSON parsing and the hash commitments are not modelled. Shown: resolution
  grants exactly the static bytes outside the parametric columns and the selected cells inside
  them, never more than the static contract.
\<close>

section \<open>The contract\<close>

definition u64_add :: "nat \<Rightarrow> nat \<Rightarrow> nat option" where
  "u64_add a b = (if a + b < 2 ^ 64 then Some (a + b) else None)"
definition u64_mul :: "nat \<Rightarrow> nat \<Rightarrow> nat option" where
  "u64_mul a b = (if a * b < 2 ^ 64 then Some (a * b) else None)"
definition u32_max :: nat where "u32_max = 2 ^ 32 - 1"

record range_contract =
  rc_account :: u8
  rc_offset :: u32
  rc_size :: u32

definition range_contract_end :: "range_contract \<Rightarrow> nat" where
  "range_contract_end r = unat (rc_offset r) + unat (rc_size r)"

definition contains_byte :: "range_contract \<Rightarrow> u32 \<Rightarrow> bool" where
  "contains_byte r off \<longleftrightarrow> unat off \<ge> unat (rc_offset r) \<and> unat off < range_contract_end r"

record parametric_contract =
  pc_account :: u8
  pc_base :: u32
  pc_stride :: u32
  pc_cell :: u32
  pc_count :: u32
  pc_argument_index :: u8
  pc_argument_name :: string
  pc_segment :: string

definition column_end :: "parametric_contract \<Rightarrow> nat option" where
  "column_end r =
     (if pc_count r = 0 then None
      else
        let last = unat (pc_stride r) * unat (pc_count r - 1) in
        Option.bind (u64_add (unat (pc_base r)) last) (\<lambda>x. u64_add x (unat (pc_cell r))))"

definition selected_range :: "parametric_contract \<Rightarrow> u32 \<Rightarrow> range_contract option" where
  "selected_range r selector =
     (if selector \<ge> pc_count r \<or> pc_cell r = 0 then None
      else
        Option.bind (u64_mul (unat (pc_stride r)) (unat selector)) (\<lambda>m.
        Option.bind (u64_add (unat (pc_base r)) m) (\<lambda>off.
        Option.bind (u64_add off (unat (pc_cell r))) (\<lambda>finish.
        if off > u32_max \<or> finish > u32_max then None
        else Some \<lparr>rc_account = pc_account r, rc_offset = word_of_nat off, rc_size = pc_cell r\<rparr>))))"

record account_role =
  ar_name :: string
  ar_writable :: bool
  ar_signer :: bool

datatype arg_encoding = EncFixed | EncBoundedVec | EncBoundedString

record arg_contract =
  ac_name :: string
  ac_type :: string
  ac_size :: u16
  ac_encoding :: arg_encoding
  ac_max_len :: "u16 option"
  ac_element_size :: "u16 option"

record instruction_contract =
  ic_name :: string
  ic_tag :: u8
  ic_strict_writes :: bool
  ic_mutation_complete :: bool
  ic_authorized :: "range_contract list"
  ic_parametric :: "parametric_contract list"
  ic_lamport_accounts :: "u8 list"
  ic_args :: "arg_contract list"
  ic_accounts :: "account_role list"

text \<open>The trait both kinds of contract offer to the verifier, as the record of its methods' results.\<close>

record contract_view =
  cv_strict_writes :: bool
  cv_mutation_complete :: bool
  cv_authorized_ranges :: "range_contract list"
  cv_lamport_accounts :: "u8 list"
  cv_requires_resolution :: bool

definition authorizes_lamports :: "contract_view \<Rightarrow> u8 \<Rightarrow> bool" where
  "authorizes_lamports v i \<longleftrightarrow> cv_mutation_complete v \<and> i \<in> set (cv_lamport_accounts v)"

definition instruction_view :: "instruction_contract \<Rightarrow> contract_view" where
  "instruction_view c =
     \<lparr>cv_strict_writes = ic_strict_writes c, cv_mutation_complete = ic_mutation_complete c,
      cv_authorized_ranges = ic_authorized c, cv_lamport_accounts = ic_lamport_accounts c,
      cv_requires_resolution = (ic_parametric c \<noteq> [])\<rparr>"

definition account_name :: "instruction_contract \<Rightarrow> u8 \<Rightarrow> string option" where
  "account_name c i = (if unat i < length (ic_accounts c) then Some (ar_name (ic_accounts c ! unat i)) else None)"

definition authorized_for :: "instruction_contract \<Rightarrow> u8 \<Rightarrow> range_contract list" where
  "authorized_for c i = filter (\<lambda>r. rc_account r = i) (ic_authorized c)"

definition instruction_by_name :: "instruction_contract list \<Rightarrow> string \<Rightarrow> instruction_contract option" where
  "instruction_by_name instructions name = find (\<lambda>i. ic_name i = name) instructions"
definition instruction_by_tag :: "instruction_contract list \<Rightarrow> u8 \<Rightarrow> instruction_contract option" where
  "instruction_by_tag instructions tag = find (\<lambda>i. ic_tag i = tag) instructions"

section \<open>Resolution\<close>

record resolved_selector =
  rs_argument_index :: u8
  rs_name :: string
  rs_value :: u32

record resolved_contract =
  res_name :: string
  res_tag :: u8
  res_strict_writes :: bool
  res_mutation_complete :: bool
  res_authorized :: "range_contract list"
  res_lamport_accounts :: "u8 list"
  res_selectors :: "resolved_selector list"

definition resolved_view :: "resolved_contract \<Rightarrow> contract_view" where
  "resolved_view c =
     \<lparr>cv_strict_writes = res_strict_writes c, cv_mutation_complete = res_mutation_complete c,
      cv_authorized_ranges = res_authorized c, cv_lamport_accounts = res_lamport_accounts c,
      cv_requires_resolution = False\<rparr>"

datatype resolve_error =
    MissingArgumentDescriptor string
  | TruncatedArgument string
  | InvalidArgumentDescriptor string string
  | UnsupportedSelectorType string string
  | SelectorOutOfRange string u32 u32
  | InvalidRule string string
  | OverlappingRules string string
  | EnvelopeNotStaticallyAuthorized u8 string
  | MissingSelectorValue string u8
  | InconsistentSelectorIdentity string u8

text \<open>
  The coverage sweep of resolve.rs and verify.rs: both jump the cursor to the furthest end of a
  covering interval. Here an interval is its start and end.
\<close>

fun furthest :: "(nat \<times> nat) list \<Rightarrow> nat \<Rightarrow> nat \<Rightarrow> nat" where
  "furthest [] cursor far = far"
| "furthest ((cover_start, cover_end) # cover) cursor far =
     furthest cover cursor
       (if cover_start \<le> cursor \<and> cursor < cover_end \<and> cover_end > far then cover_end else far)"

lemma furthest_ge: "far \<le> furthest cover cursor far"
proof (induction cover arbitrary: far)
  case (Cons c cover)
  obtain s e where "c = (s, e)" by (cases c)
  then show ?case using Cons [of "if s \<le> cursor \<and> cursor < e \<and> e > far then e else far"] by (auto split: if_splits)
qed simp

function first_gap :: "nat \<Rightarrow> nat \<Rightarrow> (nat \<times> nat) list \<Rightarrow> nat option" where
  "first_gap cursor finish cover =
     (if cursor < finish then
        let far = furthest cover cursor cursor in
        if far = cursor then Some cursor else first_gap far finish cover
      else None)"
  by pat_completeness auto
termination
proof (relation "measure (\<lambda>(cursor, finish, cover). finish - cursor)")
  fix cursor finish :: nat and cover far
  assume "cursor < finish" "far = furthest cover cursor cursor" "far \<noteq> cursor"
  then show "((far, finish, cover), (cursor, finish, cover)) \<in> measure (\<lambda>(cursor, finish, cover). finish - cursor)"
    using furthest_ge [of cursor cover cursor] by auto
qed simp

declare first_gap.simps [simp del]

text \<open>The three loops of \<open>validate_rules\<close>.\<close>

definition validate_rule :: "range_contract list \<Rightarrow> parametric_contract \<Rightarrow> resolve_error + unit" where
  "validate_rule authorized rule =
     (if pc_count rule = 0 then Inl (InvalidRule (pc_segment rule) ''cell count is zero'')
      else if pc_cell rule = 0 then Inl (InvalidRule (pc_segment rule) ''cell size is zero'')
      else if pc_count rule > 1 \<and> pc_stride rule < pc_cell rule
      then Inl (InvalidRule (pc_segment rule) ''cell stride is smaller than cell size'')
      else
        sbind (sok_or (column_end rule) (InvalidRule (pc_segment rule) ''column envelope overflows'')) (\<lambda>finish.
        if finish > u32_max
        then Inl (InvalidRule (pc_segment rule) ''column envelope exceeds the u32 account address space'')
        else
          let static_cover = List.map (\<lambda>r. (unat (rc_offset r), range_contract_end r))
                (filter (\<lambda>r. rc_account r = pc_account rule) authorized) in
          if first_gap (unat (pc_base rule)) finish static_cover \<noteq> None
          then Inl (EnvelopeNotStaticallyAuthorized (pc_account rule) (pc_segment rule))
          else Inr ()))"

fun overlap_loop :: "parametric_contract list \<Rightarrow> resolve_error + unit" where
  "overlap_loop [] = Inr ()"
| "overlap_loop (left # rights) =
     sbind (sok_or (column_end left) (InvalidRule (pc_segment left) ''column envelope overflows'')) (\<lambda>left_end.
     sbind (each_ok (\<lambda>right.
       if pc_account left \<noteq> pc_account right then Inr ()
       else
         sbind (sok_or (column_end right) (InvalidRule (pc_segment right) ''column envelope overflows'')) (\<lambda>right_end.
         if unat (pc_base left) < right_end \<and> unat (pc_base right) < left_end
         then Inl (OverlappingRules (pc_segment left) (pc_segment right)) else Inr ())) rights) (\<lambda>_.
     overlap_loop rights))"

fun identity_loop :: "parametric_contract list \<Rightarrow> resolve_error + unit" where
  "identity_loop [] = Inr ()"
| "identity_loop (left # rights) =
     sbind (each_ok (\<lambda>right.
       if (pc_argument_index left = pc_argument_index right) \<noteq> (pc_argument_name left = pc_argument_name right)
       then Inl (InconsistentSelectorIdentity (pc_argument_name right) (pc_argument_index right))
       else Inr ()) rights) (\<lambda>_. identity_loop rights)"

definition validate_rules :: "instruction_contract \<Rightarrow> resolve_error + unit" where
  "validate_rules c =
     sbind (each_ok (validate_rule (ic_authorized c)) (ic_parametric c)) (\<lambda>_.
     sbind (overlap_loop (ic_parametric c)) (\<lambda>_. identity_loop (ic_parametric c)))"

definition subtract_envelope :: "range_contract \<Rightarrow> u8 \<Rightarrow> nat \<Rightarrow> nat \<Rightarrow> range_contract list" where
  "subtract_envelope r i envelope_start envelope_stop =
     (if rc_account r \<noteq> i \<or> range_contract_end r \<le> envelope_start \<or> unat (rc_offset r) \<ge> envelope_stop then [r]
      else
        let range_start = unat (rc_offset r); range_stop = range_contract_end r in
        (if range_start < envelope_start
         then [\<lparr>rc_account = i, rc_offset = rc_offset r, rc_size = word_of_nat (envelope_start - range_start)\<rparr>] else []) @
        (if range_stop > envelope_stop
         then [\<lparr>rc_account = i, rc_offset = word_of_nat envelope_stop, rc_size = word_of_nat (range_stop - envelope_stop)\<rparr>] else []))"

text \<open>The loops of \<open>resolve_with\<close>: the selected cells and selectors, then the columns taken out.\<close>

fun select_loop :: "parametric_contract list \<Rightarrow> (parametric_contract \<Rightarrow> u32 option) \<Rightarrow> range_contract list \<Rightarrow>
    resolved_selector list \<Rightarrow> resolve_error + range_contract list \<times> resolved_selector list" where
  "select_loop [] selector_for selected_ranges selectors = Inr (selected_ranges, selectors)"
| "select_loop (rule # rules) selector_for selected_ranges selectors =
     sbind (sok_or (selector_for rule) (MissingSelectorValue (pc_argument_name rule) (pc_argument_index rule))) (\<lambda>value.
     sbind (sok_or (selected_range rule value) (SelectorOutOfRange (pc_argument_name rule) value (pc_count rule))) (\<lambda>selected.
     case find (\<lambda>s. rs_argument_index s = pc_argument_index rule \<or> rs_name s = pc_argument_name rule) selectors of
       Some existing \<Rightarrow>
         if rs_argument_index existing \<noteq> pc_argument_index rule \<or> rs_name existing \<noteq> pc_argument_name rule \<or> rs_value existing \<noteq> value
         then Inl (InconsistentSelectorIdentity (pc_argument_name rule) (pc_argument_index rule))
         else select_loop rules selector_for (selected_ranges @ [selected]) selectors
     | None \<Rightarrow>
         select_loop rules selector_for (selected_ranges @ [selected])
           (selectors @ [\<lparr>rs_argument_index = pc_argument_index rule, rs_name = pc_argument_name rule, rs_value = value\<rparr>])))"

fun subtract_loop :: "parametric_contract list \<Rightarrow> range_contract list \<Rightarrow> resolve_error + range_contract list" where
  "subtract_loop [] effective = Inr effective"
| "subtract_loop (rule # rules) effective =
     sbind (sok_or (column_end rule) (InvalidRule (pc_segment rule) ''column envelope overflows'')) (\<lambda>envelope_stop.
     subtract_loop rules
       (concat (List.map (\<lambda>r. subtract_envelope r (pc_account rule) (unat (pc_base rule)) envelope_stop) effective)))"

definition resolve_with :: "instruction_contract \<Rightarrow> (parametric_contract \<Rightarrow> u32 option) \<Rightarrow> resolve_error + resolved_contract" where
  "resolve_with c selector_for =
     sbind (validate_rules c) (\<lambda>_.
     sbind (select_loop (ic_parametric c) selector_for [] []) (\<lambda>(selected_ranges, selectors).
     sbind (subtract_loop (ic_parametric c) (ic_authorized c)) (\<lambda>effective.
     Inr \<lparr>res_name = ic_name c, res_tag = ic_tag c, res_strict_writes = ic_strict_writes c,
       res_mutation_complete = ic_mutation_complete c,
       res_authorized = sort_key (\<lambda>r. (rc_account r, rc_offset r, rc_size r)) (effective @ selected_ranges),
       res_lamport_accounts = ic_lamport_accounts c,
       res_selectors = sort_key rs_argument_index selectors\<rparr>)))"

section \<open>Decoding the arguments\<close>

definition decode_unsigned_selector :: "arg_contract \<Rightarrow> bytes \<Rightarrow> resolve_error + u32" where
  "decode_unsigned_selector arg b =
     (if ac_type arg = ''u8'' \<and> length b = 1 \<or> ac_type arg = ''u16'' \<and> length b = 2 \<or> ac_type arg = ''u32'' \<and> length b = 4
      then Inr (word_of_nat (le_val b)) else Inl (UnsupportedSelectorType (ac_name arg) (ac_type arg)))"

definition read_u16_len :: "bytes \<Rightarrow> nat \<Rightarrow> string \<Rightarrow> resolve_error + u16 \<times> nat" where
  "read_u16_len payload cursor argument =
     sbind (sok_or (get_range payload cursor (min (cursor + 2) (2 ^ 64 - 1))) (TruncatedArgument argument)) (\<lambda>b.
     Inr (word_of_nat (le_val (take 2 b)), cursor + 2))"

fun unique_names :: "arg_contract list \<Rightarrow> resolve_error + unit" where
  "unique_names [] = Inr ()"
| "unique_names (left # rest) =
     (if list_ex (\<lambda>right. ac_name right = ac_name left) rest
      then Inl (InvalidArgumentDescriptor (ac_name left) ''duplicate argument name'') else unique_names rest)"

fun selector_names :: "parametric_contract list \<Rightarrow> string list \<Rightarrow> string list" where
  "selector_names [] names = names"
| "selector_names (rule # rules) names =
     selector_names rules (if pc_argument_name rule \<in> set names then names else names @ [pc_argument_name rule])"

fun decode_loop :: "arg_contract list \<Rightarrow> parametric_contract list \<Rightarrow> bytes \<Rightarrow> nat \<Rightarrow> nat \<Rightarrow> (string \<times> u32) list \<Rightarrow>
    resolve_error + (string \<times> u32) list" where
  "decode_loop [] rules payload wanted cursor decoded = Inr decoded"
| "decode_loop (arg # args) rules payload wanted cursor decoded =
     (if length decoded = wanted then Inr decoded
      else
        let selected = list_ex (\<lambda>rule. pc_argument_name rule = ac_name arg) rules in
        case ac_encoding arg of
          EncFixed \<Rightarrow>
            if ac_size arg = 0
            then Inl (InvalidArgumentDescriptor (ac_name arg) ''cannot locate a selector after a zero-width or unknown fixed encoding'')
            else
              sbind (sok_or (usize_add cursor (unat (ac_size arg))) (InvalidArgumentDescriptor (ac_name arg) ''fixed size overflows'')) (\<lambda>finish.
              sbind (sok_or (get_range payload cursor finish) (TruncatedArgument (ac_name arg))) (\<lambda>b.
              if selected then
                sbind (decode_unsigned_selector arg b) (\<lambda>value.
                decode_loop args rules payload wanted finish (decoded @ [(ac_name arg, value)]))
              else decode_loop args rules payload wanted finish decoded))
        | EncBoundedVec \<Rightarrow>
            if selected then Inl (UnsupportedSelectorType (ac_name arg) (ac_type arg))
            else Inl (InvalidArgumentDescriptor (ac_name arg)
                   ''cannot locate a later selector after boundedVec without an exact element encoding'')
        | EncBoundedString \<Rightarrow>
            if selected then Inl (UnsupportedSelectorType (ac_name arg) (ac_type arg))
            else
              sbind (read_u16_len payload cursor (ac_name arg)) (\<lambda>(len, after_len).
              sbind (sok_or (ac_max_len arg) (InvalidArgumentDescriptor (ac_name arg) ''bounded string has no maxLen'')) (\<lambda>max_len.
              if len > max_len
              then Inl (InvalidArgumentDescriptor (ac_name arg) ''bounded string length exceeds maxLen'')
              else
                sbind (sok_or (usize_add after_len (unat len)) (InvalidArgumentDescriptor (ac_name arg) ''bounded string length overflows'')) (\<lambda>cursor.
                if cursor > length payload then Inl (TruncatedArgument (ac_name arg))
                else decode_loop args rules payload wanted cursor decoded))))"

definition decode_selector_values :: "arg_contract list \<Rightarrow> parametric_contract list \<Rightarrow> bytes \<Rightarrow> resolve_error + (string \<times> u32) list" where
  "decode_selector_values args rules payload =
     sbind (unique_names args) (\<lambda>_.
     sbind (each_ok (\<lambda>rule.
       if list_ex (\<lambda>arg. ac_name arg = pc_argument_name rule) args then Inr ()
       else Inl (MissingArgumentDescriptor (pc_argument_name rule))) rules) (\<lambda>_.
     decode_loop args rules payload (length (selector_names rules [])) 0 []))"

definition resolve_effects :: "instruction_contract \<Rightarrow> bytes \<Rightarrow> resolve_error + resolved_contract" where
  "resolve_effects c argument_payload =
     sbind (decode_selector_values (ic_args c) (ic_parametric c) argument_payload) (\<lambda>named.
     resolve_with c (\<lambda>rule. map_option snd (find (\<lambda>(name, _). name = pc_argument_name rule) named)))"

definition resolve_effects_with_selectors :: "instruction_contract \<Rightarrow> u32 list \<Rightarrow> resolve_error + resolved_contract" where
  "resolve_effects_with_selectors c selectors =
     resolve_with c (\<lambda>rule.
       if unat (pc_argument_index rule) < length selectors then Some (selectors ! unat (pc_argument_index rule)) else None)"

section \<open>The bytes a contract grants\<close>

definition range_set :: "range_contract \<Rightarrow> nat set" where
  "range_set r = {unat (rc_offset r) ..< range_contract_end r}"

definition granted :: "range_contract list \<Rightarrow> u8 \<Rightarrow> nat set" where
  "granted rs i = (\<Union>r \<in> {r \<in> set rs. rc_account r = i}. range_set r)"

definition column_stop :: "parametric_contract \<Rightarrow> nat" where
  "column_stop r = unat (pc_base r) + unat (pc_stride r) * (unat (pc_count r) - 1) + unat (pc_cell r)"
definition column :: "parametric_contract \<Rightarrow> nat set" where
  "column r = {unat (pc_base r) ..< column_stop r}"
definition cell :: "parametric_contract \<Rightarrow> u32 \<Rightarrow> nat set" where
  "cell r v = (let start = unat (pc_base r) + unat (pc_stride r) * unat v in {start ..< start + unat (pc_cell r)})"

lemma granted_simps [simp]:
  "granted [] i = {}"
  "granted (r # rs) i = (if rc_account r = i then range_set r else {}) \<union> granted rs i"
  "granted (rs @ rs') i = granted rs i \<union> granted rs' i"
  by (auto simp: granted_def)

lemma granted_cong: "set rs = set rs' \<Longrightarrow> granted rs i = granted rs' i"
  by (simp add: granted_def)

lemma contains_byte_iff: "contains_byte r off \<longleftrightarrow> unat off \<in> range_set r"
  by (auto simp: contains_byte_def range_set_def)

lemma u32_bound: "unat (x :: u32) \<le> 2 ^ 32 - 1"
  using unsigned_less [of x, where 'a = nat] by simp

text \<open>The column arithmetic never overflows 64 bits.\<close>

lemma column_end_iff: "column_end r = Some e \<longleftrightarrow> pc_count r \<noteq> 0 \<and> e = column_stop r"
proof (cases "pc_count r = 0")
  case False
  then have "(1 :: u32) \<le> pc_count r" by (simp add: word_le_nat_alt Suc_le_eq unat_gt_0)
  then have n: "unat (pc_count r - 1) = unat (pc_count r) - 1" by (simp add: unat_sub_exact)
  have "unat (pc_stride r) * (unat (pc_count r) - 1) \<le> (2 ^ 32 - 1) * (2 ^ 32 - 1)"
    using u32_bound [of "pc_stride r"] u32_bound [of "pc_count r"] by (intro mult_le_mono) auto
  then have "column_stop r < 2 ^ 64"
    using u32_bound [of "pc_base r"] u32_bound [of "pc_cell r"] by (simp add: column_stop_def)
  then show ?thesis using False n by (auto simp: column_end_def u64_add_def column_stop_def Let_def)
qed (simp add: column_end_def)

lemma selected_range_Some:
  "selected_range r v = Some s \<longleftrightarrow>
     v < pc_count r \<and> pc_cell r \<noteq> 0 \<and> unat (pc_base r) + unat (pc_stride r) * unat v + unat (pc_cell r) \<le> u32_max \<and>
     s = \<lparr>rc_account = pc_account r, rc_offset = word_of_nat (unat (pc_base r) + unat (pc_stride r) * unat v), rc_size = pc_cell r\<rparr>"
  by (auto simp: selected_range_def u64_add_def u64_mul_def u32_max_def not_le split: bind_splits)

lemma selected_range_set:
  assumes "selected_range r v = Some s"
  shows "rc_account s = pc_account r" "range_set s = cell r v"
proof -
  obtain start where start: "start = unat (pc_base r) + unat (pc_stride r) * unat v" by blast
  with assms have s: "s = \<lparr>rc_account = pc_account r, rc_offset = word_of_nat start, rc_size = pc_cell r\<rparr>"
    and small: "start + unat (pc_cell r) \<le> 2 ^ 32 - 1" by (simp_all only: selected_range_Some u32_max_def)
  have "start < 2 ^ 32" using small by simp
  then have "unat (word_of_nat start :: u32) = start" by (simp add: unat_of_nat)
  then show "rc_account s = pc_account r" "range_set s = cell r v"
    by (simp_all add: s range_set_def cell_def range_contract_end_def start [symmetric])
qed

lemma cell_in_column: "v < pc_count r \<Longrightarrow> cell r v \<subseteq> column r"
proof -
  assume "v < pc_count r"
  then have "unat v \<le> unat (pc_count r) - 1" by (simp add: word_less_nat_alt)
  then have "unat (pc_stride r) * unat v \<le> unat (pc_stride r) * (unat (pc_count r) - 1)" by simp
  then show ?thesis by (auto simp: cell_def column_def column_stop_def Let_def)
qed

section \<open>Coverage\<close>

definition covered :: "(nat \<times> nat) list \<Rightarrow> nat set" where
  "covered cover = (\<Union>(s, e) \<in> set cover. {s ..< e})"

lemma furthest_covers: "cursor \<le> far \<Longrightarrow> {cursor ..< furthest cover cursor far} \<subseteq> {cursor ..< far} \<union> covered cover"
proof (induction cover arbitrary: far)
  case (Cons c cover)
  obtain s e where c: "c = (s, e)" by (cases c)
  show ?case
  proof (cases "s \<le> cursor \<and> cursor < e \<and> e > far")
    case True
    then have "{cursor ..< e} \<subseteq> covered (c # cover)" by (auto simp: c covered_def)
    then show ?thesis using Cons.IH [of e] Cons.prems True by (simp add: c) (auto simp: covered_def)
  next
    case False
    then show ?thesis using Cons.IH [of far] Cons.prems by (simp add: c) (auto simp: covered_def)
  qed
qed (simp add: covered_def)

lemma furthest_stuck: "furthest cover cursor cursor = cursor \<Longrightarrow> cursor \<notin> covered cover"
proof (induction cover)
  case (Cons c cover)
  obtain s e where c: "c = (s, e)" by (cases c)
  show ?case
  proof (cases "s \<le> cursor \<and> cursor < e")
    case True
    then show ?thesis using Cons.prems furthest_ge [of e cover cursor] by (simp add: c)
  next
    case False
    then have "cursor \<notin> covered cover" using Cons by (auto simp: c)
    then show ?thesis using False by (auto simp: c covered_def)
  qed
qed (simp add: covered_def)

lemma first_gap_exact:
  "case first_gap cursor finish cover of
     None \<Rightarrow> {cursor ..< finish} \<subseteq> covered cover
   | Some gap \<Rightarrow> cursor \<le> gap \<and> gap < finish \<and> gap \<notin> covered cover \<and> {cursor ..< gap} \<subseteq> covered cover"
proof (induction cursor finish cover rule: first_gap.induct)
  case (1 cursor finish cover)
  let ?far = "furthest cover cursor cursor"
  show ?case
  proof (cases "cursor < finish")
    case less: True
    show ?thesis
    proof (cases "?far = cursor")
      case True
      then show ?thesis using less furthest_stuck [OF True] by (simp add: first_gap.simps [of cursor])
    next
      case False
      have "{cursor ..< ?far} \<subseteq> covered cover" using furthest_covers [of cursor cursor cover] by simp
      moreover have "cursor \<le> ?far" by (rule furthest_ge)
      moreover have "first_gap cursor finish cover = first_gap ?far finish cover" using less False by (simp add: first_gap.simps [of cursor] Let_def)
      ultimately show ?thesis using 1 [OF less refl False] by (fastforce split: option.splits)
    qed
  qed (simp add: first_gap.simps [of cursor])
qed

lemma first_gap_None: "first_gap cursor finish cover = None \<longleftrightarrow> {cursor ..< finish} \<subseteq> covered cover"
  using first_gap_exact [of cursor finish cover] by (auto split: option.splits)

lemma first_gap_Some:
  "first_gap cursor finish cover = Some gap \<Longrightarrow>
   cursor \<le> gap \<and> gap < finish \<and> gap \<notin> covered cover \<and> {cursor ..< gap} \<subseteq> covered cover"
  using first_gap_exact [of cursor finish cover] by simp

lemma covered_granted:
  "covered (List.map (\<lambda>r. (unat (rc_offset r), range_contract_end r)) (filter (\<lambda>r. rc_account r = i) rs)) = granted rs i"
  by (auto simp: covered_def granted_def range_set_def)

section \<open>Valid rules\<close>

definition rule_ok :: "range_contract list \<Rightarrow> parametric_contract \<Rightarrow> bool" where
  "rule_ok authorized r \<longleftrightarrow>
     pc_count r \<noteq> 0 \<and> pc_cell r \<noteq> 0 \<and> (pc_count r > 1 \<longrightarrow> pc_cell r \<le> pc_stride r) \<and>
     column_stop r \<le> u32_max \<and> column r \<subseteq> granted authorized (pc_account r)"

text \<open>Two rules of one account have disjoint columns; index and name of a selector go together.\<close>

definition rules_apart :: "parametric_contract \<Rightarrow> parametric_contract \<Rightarrow> bool" where
  "rules_apart l r \<longleftrightarrow>
     (pc_account l = pc_account r \<longrightarrow> column l \<inter> column r = {}) \<and>
     (pc_argument_index l = pc_argument_index r \<longleftrightarrow> pc_argument_name l = pc_argument_name r)"

definition rules_ok :: "instruction_contract \<Rightarrow> bool" where
  "rules_ok c \<longleftrightarrow> list_all (rule_ok (ic_authorized c)) (ic_parametric c) \<and> sorted_wrt rules_apart (ic_parametric c)"

lemma validate_rule_iff: "validate_rule authorized r = Inr () \<longleftrightarrow> rule_ok authorized r"
proof (cases "pc_count r = 0")
  case False
  then have "column_end r = Some (column_stop r)" by (simp add: column_end_iff)
  then show ?thesis
    using False
    by (auto simp: validate_rule_def rule_ok_def sok_or_def first_gap_None covered_granted column_def Let_def not_less not_le)
qed (simp add: validate_rule_def rule_ok_def)

lemma column_nonempty: "pc_cell r \<noteq> 0 \<Longrightarrow> unat (pc_base r) < column_stop r"
  by (simp add: column_stop_def unat_gt_0 add.assoc)

lemma columns_meet:
  assumes "pc_cell l \<noteq> 0" and "pc_cell r \<noteq> 0"
  shows "unat (pc_base l) < column_stop r \<and> unat (pc_base r) < column_stop l \<longleftrightarrow> column l \<inter> column r \<noteq> {}"
  using column_nonempty [OF assms(1)] column_nonempty [OF assms(2)] by (auto simp: column_def disjoint_iff not_less)

lemma overlap_loop_iff:
  "list_all (rule_ok authorized) rules \<Longrightarrow>
   overlap_loop rules = Inr () \<longleftrightarrow>
     sorted_wrt (\<lambda>l r. pc_account l = pc_account r \<longrightarrow> column l \<inter> column r = {}) rules"
proof (induction rules)
  case (Cons l rules)
  have l: "column_end l = Some (column_stop l)" "pc_cell l \<noteq> 0" using Cons.prems by (simp_all add: rule_ok_def column_end_iff)
  have r: "column_end r = Some (column_stop r)" "pc_cell r \<noteq> 0" if "r \<in> set rules" for r
    using that Cons.prems by (simp_all add: rule_ok_def column_end_iff list_all_iff)
  show ?case
    using Cons l r columns_meet [OF l(2)]
    by (auto simp: sbind_Inr each_ok_Inr sok_or_def)
qed simp

lemma identity_loop_iff:
  "identity_loop rules = Inr () \<longleftrightarrow>
     sorted_wrt (\<lambda>l r. (pc_argument_index l = pc_argument_index r) = (pc_argument_name l = pc_argument_name r)) rules"
  by (induction rules) (auto simp: sbind_Inr each_ok_Inr)

lemma validate_rules_iff: "validate_rules c = Inr () \<longleftrightarrow> rules_ok c"
proof -
  have "each_ok (validate_rule (ic_authorized c)) (ic_parametric c) = Inr () \<longleftrightarrow> list_all (rule_ok (ic_authorized c)) (ic_parametric c)"
    by (simp add: each_ok_Inr validate_rule_iff list_all_iff)
  moreover have "sorted_wrt rules_apart xs \<longleftrightarrow>
      sorted_wrt (\<lambda>l r. pc_account l = pc_account r \<longrightarrow> column l \<inter> column r = {}) xs \<and>
      sorted_wrt (\<lambda>l r. (pc_argument_index l = pc_argument_index r) = (pc_argument_name l = pc_argument_name r)) xs" for xs
    by (induction xs) (auto simp: rules_apart_def)
  ultimately show ?thesis
    using overlap_loop_iff [of "ic_authorized c" "ic_parametric c"]
    by (auto simp: validate_rules_def rules_ok_def sbind_Inr identity_loop_iff)
qed

section \<open>What resolution does\<close>

lemma subtract_envelope_bytes:
  assumes "stop \<le> u32_max"
  shows "granted (subtract_envelope r i start stop) j = (if rc_account r = j then range_set r - (if i = j then {start ..< stop} else {}) else {})"
proof -
  let ?a = "unat (rc_offset r)" and ?b = "range_contract_end r"
  have b: "?b \<le> ?a + (2 ^ 32 - 1)" "?a \<le> ?b" using u32_bound [of "rc_size r"] by (simp_all add: range_contract_end_def)
  show ?thesis
  proof (cases "rc_account r \<noteq> i \<or> ?b \<le> start \<or> ?a \<ge> stop")
    case True
    then show ?thesis by (auto simp: subtract_envelope_def range_set_def)
  next
    case False
    then have f: "rc_account r = i" "start < ?b" "?a < stop" by simp_all
    have "start - ?a < 2 ^ 32" "?b - stop < 2 ^ 32" "stop < 2 ^ 32" using f b assms by (simp_all add: u32_max_def)
    then have left: "unat (word_of_nat (start - ?a) :: u32) = start - ?a"
      and right: "unat (word_of_nat (?b - stop) :: u32) = ?b - stop" "unat (word_of_nat stop :: u32) = stop"
      by (simp_all add: unat_word_of_nat)
    show ?thesis
      using False left right by (auto simp: subtract_envelope_def range_set_def range_contract_end_def Let_def)
  qed
qed

lemma subtract_all_bytes:
  assumes "stop \<le> u32_max"
  shows "granted (concat (List.map (\<lambda>r. subtract_envelope r i start stop) rs)) j = granted rs j - (if i = j then {start ..< stop} else {})"
  by (induction rs) (auto simp: subtract_envelope_bytes [OF assms])

definition columns :: "parametric_contract list \<Rightarrow> u8 \<Rightarrow> nat set" where
  "columns rules i = (\<Union>r \<in> {r \<in> set rules. pc_account r = i}. column r)"

lemma columns_simps [simp]:
  "columns [] i = {}"
  "columns (r # rs) i = (if pc_account r = i then column r else {}) \<union> columns rs i"
  by (auto simp: columns_def)

lemma subtract_loop_bytes:
  "list_all (rule_ok authorized) rules \<Longrightarrow>
   \<exists>effective'. subtract_loop rules effective = Inr effective' \<and> granted effective' i = granted effective i - columns rules i"
proof (induction rules arbitrary: effective)
  case (Cons r rules)
  have r: "column_end r = Some (column_stop r)" "column_stop r \<le> u32_max" using Cons.prems by (simp_all add: rule_ok_def column_end_iff)
  show ?case
    using Cons.IH [of "concat (List.map (\<lambda>x. subtract_envelope x (pc_account r) (unat (pc_base r)) (column_stop r)) effective)"] Cons.prems r
    by (auto simp: sok_or_def subtract_all_bytes column_def)
qed simp

text \<open>A selector is chosen by its index or, equivalently, by its name.\<close>

definition by_identity :: "parametric_contract list \<Rightarrow> (parametric_contract \<Rightarrow> u32 option) \<Rightarrow> bool" where
  "by_identity rules selector_for \<longleftrightarrow>
     (\<forall>l \<in> set rules. \<forall>r \<in> set rules. pc_argument_index l = pc_argument_index r \<longrightarrow> selector_for l = selector_for r)"

definition chosen :: "parametric_contract list \<Rightarrow> (parametric_contract \<Rightarrow> u32 option) \<Rightarrow> u8 \<Rightarrow> nat set" where
  "chosen rules selector_for i = (\<Union>r \<in> {r \<in> set rules. pc_account r = i}. cell r (the (selector_for r)))"

lemma chosen_simps [simp]:
  "chosen [] f i = {}"
  "chosen (r # rs) f i = (if pc_account r = i then cell r (the (f r)) else {}) \<union> chosen rs f i"
  by (auto simp: chosen_def)

lemma select_loop_bytes:
  "select_loop rules f ranges selectors = Inr (ranges', selectors') \<Longrightarrow>
   granted ranges' i = granted ranges i \<union> chosen rules f i \<and> (\<forall>r \<in> set rules. \<exists>v. f r = Some v \<and> v < pc_count r)"
proof (induction rules arbitrary: ranges selectors)
  case (Cons r rules)
  from Cons.prems obtain v s where v: "f r = Some v" and s: "selected_range r v = Some s"
    by (auto elim!: sbind_InrE)
  have lt: "v < pc_count r" using s by (simp add: selected_range_Some)
  obtain selectors2 where "select_loop rules f (ranges @ [s]) selectors2 = Inr (ranges', selectors')"
    using Cons.prems v s by (auto simp: sok_or_def split: option.splits if_splits)
  from Cons.IH [OF this] show ?case using v s selected_range_set [OF s] lt by auto
qed simp

text \<open>The selectors recorded so far, each for the rules that use its index.\<close>

definition recorded :: "parametric_contract list \<Rightarrow> (parametric_contract \<Rightarrow> u32 option) \<Rightarrow> resolved_selector list \<Rightarrow> bool" where
  "recorded rules f selectors \<longleftrightarrow>
     (\<forall>s \<in> set selectors. \<exists>r \<in> set rules. rs_argument_index s = pc_argument_index r \<and> rs_name s = pc_argument_name r \<and> f r = Some (rs_value s))"

lemma select_loop_total:
  assumes id: "\<forall>l \<in> set all. \<forall>r \<in> set all. pc_argument_index l = pc_argument_index r \<longleftrightarrow> pc_argument_name l = pc_argument_name r"
    and ident: "by_identity all f"
  shows "set rules \<subseteq> set all \<Longrightarrow> recorded all f selectors \<Longrightarrow>
    \<forall>r \<in> set rules. rule_ok authorized r \<and> (\<exists>v. f r = Some v \<and> v < pc_count r) \<Longrightarrow>
    \<exists>out. select_loop rules f ranges selectors = Inr out"
proof (induction rules arbitrary: ranges selectors)
  case (Cons r rules)
  then obtain v where v: "f r = Some v" "v < pc_count r" and ok: "rule_ok authorized r" by auto
  have fits: "unat (pc_base r) + unat (pc_stride r) * unat v + unat (pc_cell r) \<le> column_stop r"
  proof -
    have "unat v \<le> unat (pc_count r) - 1" using v(2) by (simp add: word_less_nat_alt)
    then have "unat (pc_stride r) * unat v \<le> unat (pc_stride r) * (unat (pc_count r) - 1)" by simp
    then show ?thesis by (simp add: column_stop_def)
  qed
  obtain s where s: "selected_range r v = Some s"
    using v(2) ok fits by (auto simp: selected_range_Some rule_ok_def)
  let ?P = "\<lambda>s. rs_argument_index s = pc_argument_index r \<or> rs_name s = pc_argument_name r"
  show ?case
  proof (cases "find ?P selectors")
    case None
    have "recorded all f (selectors @ [\<lparr>rs_argument_index = pc_argument_index r, rs_name = pc_argument_name r, rs_value = v\<rparr>])"
      using Cons.prems v by (auto simp: recorded_def)
    then show ?thesis using Cons.IH [of _ "ranges @ [s]"] Cons.prems v s None by (simp add: sok_or_def)
  next
    case (Some e)
    then have e: "e \<in> set selectors" "?P e" by (auto simp: find_Some_iff)
    then obtain q where q: "q \<in> set all" "rs_argument_index e = pc_argument_index q" "rs_name e = pc_argument_name q" "f q = Some (rs_value e)"
      using Cons.prems(2) by (auto simp: recorded_def)
    have r: "r \<in> set all" using Cons.prems(1) by simp
    have same: "pc_argument_index q = pc_argument_index r" "pc_argument_name q = pc_argument_name r" using e(2) q id r by auto
    then have "rs_value e = v" using ident q r v unfolding by_identity_def by (metis option.inject)
    then show ?thesis using Cons.IH [OF _ Cons.prems(2), of "ranges @ [s]"] Cons.prems v s Some q same by (simp add: sok_or_def)
  qed
qed simp

lemma resolve_with_ok:
  assumes "resolve_with c f = Inr res"
  shows "rules_ok c \<and> (\<forall>r \<in> set (ic_parametric c). \<exists>v. f r = Some v \<and> v < pc_count r) \<and>
    (\<forall>i. granted (res_authorized res) i = granted (ic_authorized c) i - columns (ic_parametric c) i \<union> chosen (ic_parametric c) f i) \<and>
    res_strict_writes res = ic_strict_writes c \<and> res_mutation_complete res = ic_mutation_complete c \<and>
    res_lamport_accounts res = ic_lamport_accounts c"
proof -
  obtain ranges selectors effective where v: "validate_rules c = Inr ()"
    and sel: "select_loop (ic_parametric c) f [] [] = Inr (ranges, selectors)"
    and sub: "subtract_loop (ic_parametric c) (ic_authorized c) = Inr effective"
    and res: "res = \<lparr>res_name = ic_name c, res_tag = ic_tag c, res_strict_writes = ic_strict_writes c,
       res_mutation_complete = ic_mutation_complete c,
       res_authorized = sort_key (\<lambda>r. (rc_account r, rc_offset r, rc_size r)) (effective @ ranges),
       res_lamport_accounts = ic_lamport_accounts c, res_selectors = sort_key rs_argument_index selectors\<rparr>"
    using assms by (auto simp: resolve_with_def elim!: sbind_InrE)
  have ok: "rules_ok c" using v by (simp add: validate_rules_iff)
  have "granted (res_authorized res) i = granted (effective @ ranges) i" for i unfolding res by (simp add: granted_cong [OF set_sort])
  moreover have "granted effective i = granted (ic_authorized c) i - columns (ic_parametric c) i" for i
    using subtract_loop_bytes [of "ic_authorized c" "ic_parametric c" "ic_authorized c" i] ok sub by (auto simp: rules_ok_def)
  ultimately show ?thesis using select_loop_bytes [OF sel] ok res by auto
qed

lemma apart_pair:
  assumes "sorted_wrt rules_apart rules" and "l \<in> set rules" and "r \<in> set rules"
  shows "l = r \<or> rules_apart l r \<or> rules_apart r l"
proof -
  obtain i j where i: "i < length rules" "rules ! i = l" and j: "j < length rules" "rules ! j = r"
    using assms(2,3) by (auto simp: in_set_conv_nth)
  have "i < j \<Longrightarrow> rules_apart l r" "j < i \<Longrightarrow> rules_apart r l"
    using assms(1) i j by (auto simp: sorted_wrt_iff_nth_less)
  then show ?thesis using i j by (cases i j rule: linorder_cases) simp_all
qed

lemma apart_identity:
  assumes "sorted_wrt rules_apart rules" and "l \<in> set rules" and "r \<in> set rules"
  shows "pc_argument_index l = pc_argument_index r \<longleftrightarrow> pc_argument_name l = pc_argument_name r"
  using apart_pair [OF assms] by (auto simp: rules_apart_def)

lemma apart_columns:
  assumes "sorted_wrt rules_apart rules" and "l \<in> set rules" and "r \<in> set rules" and "pc_account l = pc_account r"
    and "b \<in> column l" and "b \<in> column r"
  shows "l = r"
  using apart_pair [OF assms(1-3)] assms(4-6) by (auto simp: rules_apart_def)

lemma resolve_with_total:
  assumes ok: "rules_ok c" and ident: "by_identity (ic_parametric c) f"
    and fit: "\<forall>r \<in> set (ic_parametric c). \<exists>v. f r = Some v \<and> v < pc_count r"
  shows "\<exists>res. resolve_with c f = Inr res"
proof -
  let ?rules = "ic_parametric c"
  have rules: "list_all (rule_ok (ic_authorized c)) ?rules" and apart: "sorted_wrt rules_apart ?rules" using ok by (simp_all add: rules_ok_def)
  have same: "pc_argument_index l = pc_argument_index r \<longleftrightarrow> pc_argument_name l = pc_argument_name r" if "l \<in> set ?rules" "r \<in> set ?rules" for l r
    using apart_identity [OF apart that] .
  have "recorded ?rules f []" by (simp add: recorded_def)
  then obtain out where "select_loop ?rules f [] [] = Inr out"
    using select_loop_total [of ?rules f ?rules "[]" "ic_authorized c" "[]"] same ident rules fit by (auto simp: list_all_iff)
  moreover obtain effective where "subtract_loop ?rules (ic_authorized c) = Inr effective"
    using subtract_loop_bytes [OF rules] by blast
  ultimately show ?thesis using ok by (cases out) (simp add: resolve_with_def validate_rules_iff [symmetric])
qed

lemma chosen_in_columns:
  "\<forall>r \<in> set rules. \<exists>v. f r = Some v \<and> v < pc_count r \<Longrightarrow> chosen rules f i \<subseteq> columns rules i"
  using cell_in_column by (fastforce simp: chosen_def columns_def)

lemma columns_static: "rules_ok c \<Longrightarrow> columns (ic_parametric c) i \<subseteq> granted (ic_authorized c) i"
  by (auto simp: rules_ok_def list_all_iff rule_ok_def columns_def)

section \<open>Binding the payload\<close>

definition selector_at :: "u32 list \<Rightarrow> parametric_contract \<Rightarrow> u32 option" where
  "selector_at selectors rule =
     (if unat (pc_argument_index rule) < length selectors then Some (selectors ! unat (pc_argument_index rule)) else None)"

text \<open>The wire form of the arguments: fixed values, and strings with a length prefix.\<close>

definition wire_arg :: "arg_contract \<Rightarrow> bytes \<Rightarrow> bytes" where
  "wire_arg arg b = (if ac_encoding arg = EncBoundedString then le_enc 2 (length b) @ b else b)"

definition is_selector :: "parametric_contract list \<Rightarrow> arg_contract \<Rightarrow> bool" where
  "is_selector rules arg \<longleftrightarrow> list_ex (\<lambda>rule. pc_argument_name rule = ac_name arg) rules"

definition wire_ok :: "parametric_contract list \<Rightarrow> arg_contract \<Rightarrow> bytes \<Rightarrow> bool" where
  "wire_ok rules arg b \<longleftrightarrow>
     (case ac_encoding arg of
        EncFixed \<Rightarrow> ac_size arg \<noteq> 0 \<and> length b = unat (ac_size arg) \<and>
          (is_selector rules arg \<longrightarrow> ac_type arg = ''u8'' \<and> length b = 1 \<or> ac_type arg = ''u16'' \<and> length b = 2 \<or> ac_type arg = ''u32'' \<and> length b = 4)
      | EncBoundedVec \<Rightarrow> False
      | EncBoundedString \<Rightarrow> \<not> is_selector rules arg \<and> (\<exists>m. ac_max_len arg = Some m \<and> length b \<le> unat m))"

definition wire_payload :: "(arg_contract \<times> bytes) list \<Rightarrow> bytes" where
  "wire_payload avs = concat (List.map (\<lambda>(arg, b). wire_arg arg b) avs)"

definition selector_values :: "parametric_contract list \<Rightarrow> (arg_contract \<times> bytes) list \<Rightarrow> (string \<times> u32) list" where
  "selector_values rules avs =
     List.map (\<lambda>(arg, b). (ac_name arg, word_of_nat (le_val b))) (filter (\<lambda>(arg, b). is_selector rules arg) avs)"

lemma wire_payload_simps [simp]:
  "wire_payload [] = []" "wire_payload ((arg, b) # avs) = wire_arg arg b @ wire_payload avs"
  by (simp_all add: wire_payload_def)

lemma selector_values_Cons:
  "selector_values rules ((arg, b) # avs) =
     (if is_selector rules arg then [(ac_name arg, word_of_nat (le_val b))] else []) @ selector_values rules avs"
  by (simp add: selector_values_def)

lemma get_range_field: "a = length pre \<Longrightarrow> z = length pre + length x \<Longrightarrow> get_range (pre @ x @ post) a z = Some x"
  by (simp add: get_range_def bslice_def)

lemma decode_loop_wire:
  "list_all (\<lambda>(arg, b). wire_ok rules arg b) avs \<Longrightarrow> length decoded + length (selector_values rules avs) = wanted \<Longrightarrow>
   length (pre @ wire_payload avs @ rest) < 2 ^ 64 \<Longrightarrow>
   decode_loop (List.map fst avs) rules (pre @ wire_payload avs @ rest) wanted (length pre) decoded = Inr (decoded @ selector_values rules avs)"
proof (induction avs arbitrary: pre decoded)
  case (Cons av avs)
  obtain arg b where av: "av = (arg, b)" by (cases av)
  have ok: "wire_ok rules arg b" using Cons.prems(1) av by simp
  let ?payload = "pre @ wire_payload (av # avs) @ rest"
  have pay: "?payload = (pre @ wire_arg arg b) @ wire_payload avs @ rest" by (simp add: av)
  show ?case
  proof (cases "length decoded = wanted")
    case True
    then show ?thesis using Cons.prems(2) by simp
  next
    case False
    let ?v = "(ac_name arg, word_of_nat (le_val b) :: u32)"
    have sel: "list_ex (\<lambda>rule. pc_argument_name rule = ac_name arg) rules \<longleftrightarrow> is_selector rules arg" by (simp add: is_selector_def)
    have IH: "decode_loop (List.map fst avs) rules ?payload wanted (length pre + length (wire_arg arg b))
        (decoded @ (if is_selector rules arg then [?v] else [])) = Inr (decoded @ selector_values rules (av # avs))"
      using Cons.IH [of "decoded @ (if is_selector rules arg then [?v] else [])" "pre @ wire_arg arg b"] Cons.prems
      unfolding pay by (simp add: av selector_values_Cons)
    have small: "length pre + length (wire_arg arg b) < 2 ^ 64" using Cons.prems(3) by (simp add: av)
    show ?thesis
    proof (cases "ac_encoding arg")
      case EncFixed
      then have w: "wire_arg arg b = b" "ac_size arg \<noteq> 0" "length b = unat (ac_size arg)" using ok by (simp_all add: wire_arg_def wire_ok_def)
      have "get_range ?payload (length pre) (length pre + unat (ac_size arg)) = Some b"
        using get_range_field [of "length pre" pre "length pre + unat (ac_size arg)" b "wire_payload avs @ rest"] w by (simp add: av)
      moreover have "is_selector rules arg \<longrightarrow> decode_unsigned_selector arg b = Inr (word_of_nat (le_val b))"
        using ok EncFixed by (auto simp: wire_ok_def decode_unsigned_selector_def)
      ultimately show ?thesis using False EncFixed w IH small
        by (simp add: av sel usize_add_def sok_or_def split: if_splits)
    next
      case EncBoundedVec
      then show ?thesis using ok by (simp add: wire_ok_def)
    next
      case EncBoundedString
      then obtain m where m: "ac_max_len arg = Some m" "length b \<le> unat m" "\<not> is_selector rules arg" using ok by (auto simp: wire_ok_def)
      have w: "wire_arg arg b = le_enc 2 (length b) @ b" using EncBoundedString by (simp add: wire_arg_def)
      have lt: "length b < 2 ^ 16" using m(2) unsigned_less [of m, where 'a = nat] by simp
      have c: "min (length pre + 2) (2 ^ 64 - 1) = length pre + 2" using small w by simp
      have "get_range ?payload (length pre) (length pre + 2) = Some (le_enc 2 (length b))"
        using get_range_field [of "length pre" pre "length pre + 2" "le_enc 2 (length b)" "b @ wire_payload avs @ rest"] w by (simp add: av)
      then have "read_u16_len ?payload (length pre) (ac_name arg) = Inr (word_of_nat (length b), length pre + 2)"
        using lt unfolding read_u16_len_def c by (simp add: sok_or_def le_val_enc)
      moreover have "unat (word_of_nat (length b) :: u16) = length b" using lt by (simp add: unat_word_of_nat)
      moreover have "\<not> (word_of_nat (length b) :: u16) > m" using calculation(2) m(2) by (simp add: word_less_nat_alt)
      ultimately show ?thesis using False EncBoundedString m IH small w
        by (simp add: av sel usize_add_def sok_or_def add.assoc)
    qed
  qed
qed (simp add: selector_values_def)

lemma select_loop_cong:
  "(\<And>r. r \<in> set rules \<Longrightarrow> f r = g r) \<Longrightarrow> select_loop rules f ranges selectors = select_loop rules g ranges selectors"
proof (induction rules arbitrary: ranges selectors)
  case (Cons r rules)
  have IH: "select_loop rules f = select_loop rules g" using Cons by (intro ext) simp
  have r: "f r = g r" using Cons.prems by simp
  show ?case unfolding select_loop.simps IH r ..
qed simp

lemma resolve_with_cong: "(\<And>r. r \<in> set (ic_parametric c) \<Longrightarrow> f r = g r) \<Longrightarrow> resolve_with c f = resolve_with c g"
  using select_loop_cong [of "ic_parametric c" f g] by (simp add: resolve_with_def)

lemma selector_names_set: "set (selector_names rules names) = pc_argument_name ` set rules \<union> set names"
  by (induction rules names rule: selector_names.induct) auto

lemma selector_names_distinct: "distinct names \<Longrightarrow> distinct (selector_names rules names)"
  by (induction rules names rule: selector_names.induct) auto

lemma unique_names_iff: "unique_names args = Inr () \<longleftrightarrow> distinct (List.map ac_name args)"
proof (induction args)
  case (Cons a args)
  have "list_ex (\<lambda>right. ac_name right = ac_name a) args \<longleftrightarrow> ac_name a \<in> ac_name ` set args" by (simp add: list_ex_iff image_iff eq_commute [of _ "ac_name a"])
  then show ?case using Cons by simp
qed simp

lemma find_Some_mem: "find P xs = Some x \<Longrightarrow> x \<in> set xs \<and> P x"
  by (auto simp: find_Some_iff)

text \<open>Every selector a rule names is an argument, so their number is the number of names.\<close>

lemma selector_count:
  assumes "distinct (List.map (ac_name \<circ> fst) avs)" and "\<forall>rule \<in> set rules. pc_argument_name rule \<in> (ac_name \<circ> fst) ` set avs"
  shows "length (selector_values rules avs) = length (selector_names rules [])"
proof -
  have n: "List.map fst (selector_values rules avs) = List.map (ac_name \<circ> fst) (filter (\<lambda>(arg, b). is_selector rules arg) avs)"
    by (simp add: selector_values_def split_beta comp_def)
  have "distinct (List.map fst (selector_values rules avs))" unfolding n using assms(1) by (rule distinct_map_filter)
  moreover have "set (List.map fst (selector_values rules avs)) = set (selector_names rules [])"
    unfolding n using assms(2) by (force simp: selector_names_set is_selector_def list_ex_iff)
  ultimately show ?thesis
    using selector_names_distinct [of "[]" rules] by (metis distinct.simps(1) distinct_card length_map)
qed

lemma decode_wire:
  assumes "distinct (List.map (ac_name \<circ> fst) avs)" and "\<forall>rule \<in> set rules. pc_argument_name rule \<in> (ac_name \<circ> fst) ` set avs"
    and "list_all (\<lambda>(arg, b). wire_ok rules arg b) avs" and "length (wire_payload avs @ rest) < 2 ^ 64"
  shows "decode_selector_values (List.map fst avs) rules (wire_payload avs @ rest) = Inr (selector_values rules avs)"
proof -
  have "unique_names (List.map fst avs) = Inr ()" using assms(1) by (simp add: unique_names_iff)
  moreover have "list_ex (\<lambda>arg. ac_name arg = pc_argument_name rule) (List.map fst avs)" if "rule \<in> set rules" for rule
    using assms(2) that by (force simp: list_ex_iff)
  ultimately show ?thesis
    using decode_loop_wire [OF assms(3), of "[]" _ "[]" rest] selector_count [OF assms(1,2)] assms(4)
    by (simp add: decode_selector_values_def each_ok_Inr [THEN iffD2])
qed

section \<open>Properties\<close>

definition selectors_fit :: "instruction_contract \<Rightarrow> u32 list \<Rightarrow> bool" where
  "selectors_fit c selectors \<longleftrightarrow>
     list_all (\<lambda>r. unat (pc_argument_index r) < length selectors \<and> selectors ! unat (pc_argument_index r) < pc_count r) (ic_parametric c)"

lemma selectors_fit_iff:
  "selectors_fit c selectors \<longleftrightarrow> (\<forall>r \<in> set (ic_parametric c). \<exists>v. selector_at selectors r = Some v \<and> v < pc_count r)"
  by (auto simp: selectors_fit_def list_all_iff selector_at_def)

text \<open>
  C16: Resolution is exact and fails closed. It succeeds precisely when the published rules are well
  formed (columns inside the static grant, disjoint, addressable, selectors named consistently)
  and every selector is present and in range; then the bytes it grants on an account are the
  static ones outside all columns together with the selected cells, so never more than the
  manifest, and the other dimensions are those of the manifest.
\<close>

theorem resolution_exact:
  "case resolve_effects_with_selectors c selectors of
     Inl _ \<Rightarrow> \<not> (rules_ok c \<and> selectors_fit c selectors)
   | Inr res \<Rightarrow> rules_ok c \<and> selectors_fit c selectors \<and>
       (\<forall>i. granted (res_authorized res) i =
          granted (ic_authorized c) i - columns (ic_parametric c) i \<union> chosen (ic_parametric c) (selector_at selectors) i) \<and>
       (\<forall>i. granted (res_authorized res) i \<subseteq> granted (ic_authorized c) i) \<and>
       res_strict_writes res = ic_strict_writes c \<and> res_mutation_complete res = ic_mutation_complete c \<and>
       res_lamport_accounts res = ic_lamport_accounts c"
proof -
  have run: "resolve_effects_with_selectors c selectors = resolve_with c (selector_at selectors)"
    by (simp add: resolve_effects_with_selectors_def selector_at_def [abs_def])
  have ident: "by_identity (ic_parametric c) (selector_at selectors)" by (simp add: by_identity_def selector_at_def)
  show ?thesis
  proof (cases "resolve_with c (selector_at selectors)")
    case (Inl e)
    then show ?thesis using resolve_with_total [OF _ ident] unfolding run selectors_fit_iff by auto
  next
    case (Inr res)
    note ok = resolve_with_ok [OF Inr]
    have "granted (res_authorized res) i \<subseteq> granted (ic_authorized c) i" for i
      using ok columns_static [of c i] chosen_in_columns [of "ic_parametric c" "selector_at selectors" i] by auto
    then show ?thesis using ok Inr unfolding run selectors_fit_iff by simp
  qed
qed

text \<open>
  The payload binds the selectors. For arguments written on the wire one after the other
  (fixed values, length-prefixed strings, then anything), resolving from the payload is
  resolving with the values of the named arguments, wherever they stand.
\<close>

theorem payload_binds_selectors:
  assumes "ic_args c = List.map fst avs" and "distinct (List.map (ac_name \<circ> fst) avs)"
    and "\<forall>rule \<in> set (ic_parametric c). pc_argument_name rule \<in> (ac_name \<circ> fst) ` set avs"
    and "list_all (\<lambda>(arg, b). wire_ok (ic_parametric c) arg b) avs" and "length (wire_payload avs @ rest) < 2 ^ 64"
    and "\<forall>rule \<in> set (ic_parametric c). \<forall>(arg, b) \<in> set avs. ac_name arg = pc_argument_name rule \<longrightarrow>
      selector_at selectors rule = Some (word_of_nat (le_val b))"
  shows "resolve_effects c (wire_payload avs @ rest) = resolve_effects_with_selectors c selectors"
proof -
  let ?rules = "ic_parametric c" and ?vs = "selector_values (ic_parametric c) avs"
  let ?f = "\<lambda>rule. map_option snd (find (\<lambda>(name, _). name = pc_argument_name rule) ?vs)"
  have "?f rule = selector_at selectors rule" if rule: "rule \<in> set ?rules" for rule
  proof -
    obtain arg b where a: "(arg, b) \<in> set avs" "ac_name arg = pc_argument_name rule" using assms(3) rule by auto
    then have "(ac_name arg, word_of_nat (le_val b)) \<in> set ?vs"
      using rule by (force simp: selector_values_def is_selector_def list_ex_iff)
    then obtain x where x: "find (\<lambda>(name, _). name = pc_argument_name rule) ?vs = Some x"
      using a(2) by (cases "find (\<lambda>(name, _). name = pc_argument_name rule) ?vs") (auto simp: find_None_iff)
    then have "x \<in> set ?vs" "fst x = pc_argument_name rule" using find_Some_mem [OF x] by auto
    then obtain arg' b' where "(arg', b') \<in> set avs" "ac_name arg' = pc_argument_name rule" "snd x = word_of_nat (le_val b')"
      by (auto simp: selector_values_def)
    then have "selector_at selectors rule = Some (snd x)" using assms(6) rule by (auto dest!: bspec)
    then show ?thesis using x by simp
  qed
  then have "resolve_with c ?f = resolve_with c (selector_at selectors)" by (rule resolve_with_cong)
  moreover have "decode_selector_values (ic_args c) ?rules (wire_payload avs @ rest) = Inr ?vs"
    unfolding assms(1) by (rule decode_wire [OF assms(2-5)])
  ultimately show ?thesis
    by (simp add: resolve_effects_def resolve_effects_with_selectors_def selector_at_def [abs_def])
qed

text \<open>A table of three cells, of which the argument after a label selects one.\<close>

definition sample_rule :: parametric_contract where
  "sample_rule = \<lparr>pc_account = 1, pc_base = 16, pc_stride = 8, pc_cell = 4, pc_count = 3, pc_argument_index = 0,
     pc_argument_name = ''slot'', pc_segment = ''balances''\<rparr>"
definition sample_args :: "arg_contract list" where
  "sample_args =
     [\<lparr>ac_name = ''label'', ac_type = ''string'', ac_size = 10, ac_encoding = EncBoundedString, ac_max_len = Some 8, ac_element_size = None\<rparr>,
      \<lparr>ac_name = ''slot'', ac_type = ''u8'', ac_size = 1, ac_encoding = EncFixed, ac_max_len = None, ac_element_size = None\<rparr>]"
definition sample_contract :: instruction_contract where
  "sample_contract =
     \<lparr>ic_name = ''set'', ic_tag = 3, ic_strict_writes = True, ic_mutation_complete = False,
      ic_authorized = [\<lparr>rc_account = 1, rc_offset = 0, rc_size = 100\<rparr>], ic_parametric = [sample_rule],
      ic_lamport_accounts = [], ic_args = sample_args, ic_accounts = []\<rparr>"

theorem payload_binds_selectors_witness:
  "resolve_effects sample_contract [2, 0, 65, 66, 2, 9] = resolve_effects_with_selectors sample_contract [2]"
proof -
  let ?avs = "[(sample_args ! 0, [65, 66]), (sample_args ! 1, [2])] :: (arg_contract \<times> bytes) list"
  have args: "ic_args sample_contract = List.map fst ?avs" "distinct (List.map (ac_name \<circ> fst) ?avs)"
    by (simp_all add: sample_contract_def sample_args_def)
  have names: "\<forall>rule \<in> set (ic_parametric sample_contract). pc_argument_name rule \<in> (ac_name \<circ> fst) ` set ?avs"
    by (simp add: sample_contract_def sample_args_def sample_rule_def)
  have wire: "list_all (\<lambda>(arg, b). wire_ok (ic_parametric sample_contract) arg b) ?avs"
    by (simp add: sample_contract_def sample_args_def sample_rule_def wire_ok_def is_selector_def)
  have pay: "wire_payload ?avs @ [9] = [2, 0, 65, 66, 2, 9]"
    by (simp add: sample_args_def wire_arg_def numeral_2_eq_2)
  have small: "length (wire_payload ?avs @ [9]) < 2 ^ 64" unfolding pay by simp
  have sel: "\<forall>rule \<in> set (ic_parametric sample_contract). \<forall>(arg, b) \<in> set ?avs. ac_name arg = pc_argument_name rule \<longrightarrow>
      selector_at [2] rule = Some (word_of_nat (le_val b))"
    by (simp add: sample_contract_def sample_args_def sample_rule_def selector_at_def)
  show ?thesis using payload_binds_selectors [OF args names wire small sel] unfolding pay .
qed

end
