(* ===== verification/Verdict.thy ===== *)
theory Verdict imports Contract WritePolicy TouchMap "HOL-Library.Multiset" begin

text \<open>
  grillo-verifier/src/verify.rs: the off-chain verdict on one instruction, from account snapshots
  before and after, the decoded touch map and the published contract. Rendering is left out.
  Shown: the verdict is exact for changed within acquired within authorized; the resolved
  contract grants the very bytes the on-chain policy allows; and an instruction that ran under
  that policy and logged its writes is not accused, when its accounts are distinct.
\<close>

record account_delta =
  ad_index :: u8
  ad_pre :: bytes
  ad_post :: bytes
  ad_pre_lamports :: u64
  ad_post_lamports :: u64
  ad_lamports_observed :: bool

definition delta_new :: "u8 \<Rightarrow> bytes \<Rightarrow> bytes \<Rightarrow> account_delta" where
  "delta_new i pre post =
     \<lparr>ad_index = i, ad_pre = pre, ad_post = post, ad_pre_lamports = 0, ad_post_lamports = 0, ad_lamports_observed = False\<rparr>"

definition delta_with_lamports :: "account_delta \<Rightarrow> u64 \<Rightarrow> u64 \<Rightarrow> account_delta" where
  "delta_with_lamports d pre post = d\<lparr>ad_pre_lamports := pre, ad_post_lamports := post, ad_lamports_observed := True\<rparr>"

datatype violation =
    UntrackedWrite u8 u32
  | UnauthorizedAcquisition u8 u32 u32
  | UnauthorizedLamportDelta u8 u64 u64

datatype inconclusive_reason =
    DuplicateAccountSnapshot u8
  | NoByteContract
  | ParametricArgumentsRequired
  | PartialTouchMap bool bool

record pass_evidence =
  pe_observed_data_accounts :: "u8 list"
  pe_observed_lamport_accounts :: "u8 list"
  pe_changed :: "range_contract list"
  pe_acquired_unchanged :: "range_contract list"
  pe_changed_bytes :: u64

datatype verdict = Pass pass_evidence | Violation "violation list" | Inconclusive inconclusive_reason

fun is_pass :: "verdict \<Rightarrow> bool" where
  "is_pass (Pass _) = True"
| "is_pass _ = False"

section \<open>Changed bytes\<close>

text \<open>\<^verbatim>\<open>slice.get(i)\<close>.\<close>

definition byte_at :: "bytes \<Rightarrow> nat \<Rightarrow> u8 option" where
  "byte_at d i = (if i < length d then Some (d ! i) else None)"

fun interval_loop :: "bytes \<Rightarrow> bytes \<Rightarrow> nat list \<Rightarrow> nat option \<Rightarrow> (u32 \<times> u32) list \<Rightarrow> nat option \<times> (u32 \<times> u32) list" where
  "interval_loop pre post [] run_start out = (run_start, out)"
| "interval_loop pre post (i # rest) run_start out =
     (case (byte_at pre i \<noteq> byte_at post i, run_start) of
        (True, None) \<Rightarrow> interval_loop pre post rest (Some i) out
      | (False, Some start) \<Rightarrow> interval_loop pre post rest None (out @ [(word_of_nat start, word_of_nat (i - start))])
      | _ \<Rightarrow> interval_loop pre post rest run_start out)"

definition changed_intervals :: "bytes \<Rightarrow> bytes \<Rightarrow> (u32 \<times> u32) list" where
  "changed_intervals pre post =
     (let n = max (length pre) (length post);
          (run_start, out) = interval_loop pre post [0..<n] None [] in
      case run_start of Some start \<Rightarrow> out @ [(word_of_nat start, word_of_nat (n - start))] | None \<Rightarrow> out)"

section \<open>The verdict\<close>

text \<open>The array of 256 flags: the first account index that occurs twice.\<close>

fun observe_loop :: "account_delta list \<Rightarrow> bool list \<Rightarrow> u8 option" where
  "observe_loop [] observed = None"
| "observe_loop (d # ds) observed =
     (if observed ! unat (ad_index d) then Some (ad_index d) else observe_loop ds (observed[unat (ad_index d) := True]))"

text \<open>The intervals of one account against what it acquired: violations, ranges and byte count so far.\<close>

fun interval_check :: "u8 \<Rightarrow> (nat \<times> nat) list \<Rightarrow> (u32 \<times> u32) list \<Rightarrow> violation list \<times> range_contract list \<times> u64 \<Rightarrow>
    violation list \<times> range_contract list \<times> u64" where
  "interval_check i acquired [] acc = acc"
| "interval_check i acquired ((off, sz) # rest) (violations, changed_all, changed_bytes) =
     interval_check i acquired rest
       (case first_gap (unat off) (unat off + unat sz) acquired of
          Some gap \<Rightarrow> violations @ [UntrackedWrite i (word_of_nat gap)] | None \<Rightarrow> violations,
        changed_all @ [\<lparr>rc_account = i, rc_offset = off, rc_size = sz\<rparr>],
        changed_bytes + ucast sz)"

fun account_check :: "touch_map \<Rightarrow> (u8 \<times> (u32 \<times> u32) list) list \<Rightarrow> violation list \<times> range_contract list \<times> u64 \<Rightarrow>
    violation list \<times> range_contract list \<times> u64" where
  "account_check m [] acc = acc"
| "account_check m ((i, intervals) # rest) acc =
     (let acquired = List.map (\<lambda>r. (unat (tm_offset r), unat (tm_offset r) + unat (tm_size r)))
            (filter (\<lambda>r. tm_write r \<and> tm_slot r = i) (map_records m)) in
      account_check m rest (interval_check i acquired intervals acc))"

fun acquisition_check :: "contract_view \<Rightarrow> touch_map_record list \<Rightarrow> violation list" where
  "acquisition_check v [] = []"
| "acquisition_check v (r # rs) =
     (let authorized = List.map (\<lambda>x. (unat (rc_offset x), unat (rc_offset x) + unat (rc_size x)))
            (filter (\<lambda>x. rc_account x = tm_slot r) (cv_authorized_ranges v)) in
      (if first_gap (unat (tm_offset r)) (unat (touch_record_end r)) authorized \<noteq> None
       then [UnauthorizedAcquisition (tm_slot r) (tm_offset r) (tm_size r)] else []) @ acquisition_check v rs)"

fun lamport_check :: "contract_view \<Rightarrow> account_delta list \<Rightarrow> violation list" where
  "lamport_check v [] = []"
| "lamport_check v (d # ds) =
     (if ad_lamports_observed d \<and> ad_pre_lamports d \<noteq> ad_post_lamports d \<and> \<not> authorizes_lamports v (ad_index d)
      then [UnauthorizedLamportDelta (ad_index d) (ad_pre_lamports d) (ad_post_lamports d)] else []) @ lamport_check v ds"

text \<open>A write record of a snapshotted account that changed none of its bytes.\<close>

definition touches_interval :: "touch_map_record \<Rightarrow> u32 \<times> u32 \<Rightarrow> bool" where
  "touches_interval r = (\<lambda>(off, sz). unat off < unat (touch_record_end r) \<and> unat (tm_offset r) < unat off + unat sz)"

definition acquired_unchanged :: "(u8 \<times> (u32 \<times> u32) list) list \<Rightarrow> touch_map_record list \<Rightarrow> range_contract list" where
  "acquired_unchanged changed_per_account writes =
     List.map (\<lambda>r. \<lparr>rc_account = tm_slot r, rc_offset = tm_offset r, rc_size = tm_size r\<rparr>)
       (filter (\<lambda>r.
          list_ex (\<lambda>(i, _). i = tm_slot r) changed_per_account \<and>
          \<not> list_ex (\<lambda>(i, intervals). i = tm_slot r \<and> list_ex (touches_interval r) intervals) changed_per_account) writes)"

definition verify_contract :: "contract_view \<Rightarrow> account_delta list \<Rightarrow> touch_map \<Rightarrow> verdict" where
  "verify_contract v deltas m =
     (case observe_loop deltas (replicate 256 False) of
        Some i \<Rightarrow> Inconclusive (DuplicateAccountSnapshot i)
      | None \<Rightarrow>
          if \<not> cv_strict_writes v then Inconclusive NoByteContract
          else if map_is_partial m then Inconclusive (PartialTouchMap (map_overflowed m) (map_skipped m))
          else
            let changed_per_account = sort_key fst (List.map (\<lambda>d. (ad_index d, changed_intervals (ad_pre d) (ad_post d))) deltas);
                (untracked, changed_all, changed_bytes) = account_check m changed_per_account ([], [], 0);
                violations = untracked @ acquisition_check v (filter tm_write (map_records m)) @
                  (if cv_mutation_complete v then lamport_check v deltas else []) in
            if violations \<noteq> [] then Violation violations
            else
              Pass \<lparr>pe_observed_data_accounts = remdups_adj (sort (List.map ad_index deltas)),
                    pe_observed_lamport_accounts = remdups_adj (sort (List.map ad_index (filter ad_lamports_observed deltas))),
                    pe_changed = changed_all,
                    pe_acquired_unchanged = acquired_unchanged changed_per_account (filter tm_write (map_records m)),
                    pe_changed_bytes = changed_bytes\<rparr>)"

definition verify :: "instruction_contract \<Rightarrow> account_delta list \<Rightarrow> touch_map \<Rightarrow> verdict" where
  "verify c deltas m =
     (if cv_requires_resolution (instruction_view c) then Inconclusive ParametricArgumentsRequired
      else verify_contract (instruction_view c) deltas m)"

definition verify_resolved :: "resolved_contract \<Rightarrow> account_delta list \<Rightarrow> touch_map \<Rightarrow> verdict" where
  "verify_resolved c deltas m = verify_contract (resolved_view c) deltas m"

definition verify_invocation :: "instruction_contract \<Rightarrow> bytes \<Rightarrow> account_delta list \<Rightarrow> touch_map \<Rightarrow> resolve_error + verdict" where
  "verify_invocation c argument_payload deltas m =
     sbind (resolve_effects c argument_payload) (\<lambda>resolved. Inr (verify_resolved resolved deltas m))"

section \<open>Specification\<close>

definition changed :: "account_delta \<Rightarrow> nat set" where
  "changed d = {b. byte_at (ad_pre d) b \<noteq> byte_at (ad_post d) b}"

definition record_bytes :: "touch_map_record \<Rightarrow> nat set" where
  "record_bytes r = {unat (tm_offset r) ..< unat (tm_offset r) + unat (tm_size r)}"

definition acquired :: "touch_map \<Rightarrow> u8 \<Rightarrow> nat set" where
  "acquired m i = (\<Union>r \<in> {r \<in> set (map_writes m). tm_slot r = i}. record_bytes r)"

definition interval_bytes :: "(u32 \<times> u32) list \<Rightarrow> nat set" where
  "interval_bytes xs = (\<Union>(off, sz) \<in> set xs. {unat off ..< unat off + unat sz})"

definition small_delta :: "account_delta \<Rightarrow> bool" where
  "small_delta d \<longleftrightarrow> length (ad_pre d) < 2 ^ 32 \<and> length (ad_post d) < 2 ^ 32"

section \<open>The intervals are the changed bytes\<close>

definition differs :: "bytes \<Rightarrow> bytes \<Rightarrow> nat \<Rightarrow> bool" where
  "differs pre post b \<longleftrightarrow> byte_at pre b \<noteq> byte_at post b"

definition run_bytes :: "nat option \<Rightarrow> nat \<Rightarrow> nat set" where
  "run_bytes run_start i = (case run_start of Some start \<Rightarrow> {start ..< i} | None \<Rightarrow> {})"
definition run_len :: "nat option \<Rightarrow> nat \<Rightarrow> nat" where
  "run_len run_start i = (case run_start of Some start \<Rightarrow> i - start | None \<Rightarrow> 0)"

definition interval_weight :: "(u32 \<times> u32) list \<Rightarrow> nat" where
  "interval_weight xs = sum_list (List.map (\<lambda>(off, sz). unat sz) xs)"

lemma interval_simps [simp]:
  "interval_bytes [] = {}"
  "interval_bytes (x # xs) = (case x of (off, sz) \<Rightarrow> {unat off ..< unat off + unat sz}) \<union> interval_bytes xs"
  "interval_bytes (xs @ ys) = interval_bytes xs \<union> interval_bytes ys"
  "interval_weight [] = 0" "interval_weight (xs @ ys) = interval_weight xs + interval_weight ys"
  "interval_weight ((off, sz) # xs) = unat sz + interval_weight xs"
  by (auto simp: interval_bytes_def interval_weight_def)

lemma differs_step: "i < n \<Longrightarrow> {b. i \<le> b \<and> b < n \<and> differs pre post b} =
    (if differs pre post i then {i} else {}) \<union> {b. Suc i \<le> b \<and> b < n \<and> differs pre post b}"
  by (auto simp: Suc_le_eq order_le_less)

lemma differs_card: "i < n \<Longrightarrow> card {b. i \<le> b \<and> b < n \<and> differs pre post b} =
    (if differs pre post i then 1 else 0) + card {b. Suc i \<le> b \<and> b < n \<and> differs pre post b}"
  unfolding differs_step by (simp add: card_insert_if)

lemma interval_loop_exact:
  "i \<le> n \<Longrightarrow> n < 2 ^ 32 \<Longrightarrow> (\<forall>start. run_start = Some start \<longrightarrow> start \<le> i) \<Longrightarrow>
   interval_loop pre post [i..<n] run_start out = (run', out') \<Longrightarrow>
   interval_bytes out' \<union> run_bytes run' n = interval_bytes out \<union> run_bytes run_start i \<union> {b. i \<le> b \<and> b < n \<and> differs pre post b} \<and>
   interval_weight out' + run_len run' n =
     interval_weight out + run_len run_start i + card {b. i \<le> b \<and> b < n \<and> differs pre post b} \<and>
   (\<forall>start. run' = Some start \<longrightarrow> start \<le> n)"
proof (induction "n - i" arbitrary: i run_start out)
  case 0
  then have "i = n" by simp
  then show ?case using 0 by auto
next
  case (Suc k)
  then have lt: "i < n" by simp
  have cons: "[i..<n] = i # [Suc i..<n]" using lt by (simp add: upt_conv_Cons)
  note IH = Suc.hyps(1) [of "Suc i"]
  let ?rest = "{b. Suc i \<le> b \<and> b < n \<and> differs pre post b}"
  note step = differs_step [OF lt, of pre post] and count = differs_card [OF lt, of pre post]
  show ?case
  proof (cases run_start)
    case None
    show ?thesis
    proof (cases "differs pre post i")
      case True
      then have "interval_loop pre post [Suc i..<n] (Some i) out = (run', out')"
        using Suc.prems(4) None by (simp add: cons differs_def)
      from IH [OF _ _ _ _ this] show ?thesis using Suc.hyps(2) Suc.prems lt None True
        unfolding step count by (simp add: run_bytes_def run_len_def)
    next
      case False
      then have "interval_loop pre post [Suc i..<n] None out = (run', out')"
        using Suc.prems(4) None by (simp add: cons differs_def)
      from IH [OF _ _ _ _ this] show ?thesis using Suc.hyps(2) Suc.prems lt None False
        unfolding step count by (simp add: run_bytes_def run_len_def)
    qed
  next
    case (Some start)
    then have le: "start \<le> i" using Suc.prems(3) by simp
    show ?thesis
    proof (cases "differs pre post i")
      case True
      then have "interval_loop pre post [Suc i..<n] (Some start) out = (run', out')"
        using Suc.prems(4) Some by (simp add: cons differs_def)
      moreover have "{start ..< Suc i} = insert i {start ..< i}" using le by auto
      ultimately show ?thesis using IH [of "Some start" out] Suc.hyps(2) Suc.prems lt Some True le
        unfolding step count by (simp add: run_bytes_def run_len_def Suc_diff_le)
    next
      case False
      let ?x = "(word_of_nat start, word_of_nat (i - start)) :: u32 \<times> u32"
      have run: "interval_loop pre post [Suc i..<n] None (out @ [?x]) = (run', out')"
        using Suc.prems(4) Some False by (simp add: cons differs_def)
      have "start < 2 ^ 32" "i - start < 2 ^ 32" using le lt Suc.prems(2) by simp_all
      then have x: "unat (fst ?x) = start" "unat (snd ?x) = i - start" by (simp_all add: unat_word_of_nat)
      then have "interval_bytes [?x] = {start ..< i}" "interval_weight [?x] = i - start" using le by simp_all
      then show ?thesis using IH [OF _ _ _ _ run] Suc.hyps(2) Suc.prems lt Some False
        unfolding step count by (simp add: run_bytes_def run_len_def del: interval_simps(2,6))
    qed
  qed
qed

lemma changed_intervals_exact:
  assumes "small_delta d"
  shows "interval_bytes (changed_intervals (ad_pre d) (ad_post d)) = changed d"
    and "interval_weight (changed_intervals (ad_pre d) (ad_post d)) = card (changed d)"
    and "changed d \<subseteq> {..< 2 ^ 32}"
proof -
  let ?pre = "ad_pre d" and ?post = "ad_post d"
  let ?n = "max (length ?pre) (length ?post)"
  obtain run' out' where run: "interval_loop ?pre ?post [0..<?n] None [] = (run', out')" by (rule prod.exhaust)
  have n: "?n < 2 ^ 32" using assms by (simp add: small_delta_def)
  have all: "{b. 0 \<le> b \<and> b < ?n \<and> differs ?pre ?post b} = changed d"
    by (auto simp: changed_def differs_def byte_at_def split: if_splits)
  have "changed d \<subseteq> {..< ?n}" using all by auto
  then show "changed d \<subseteq> {..< 2 ^ 32}" using n by (auto intro: less_trans)
  from interval_loop_exact [OF _ n _ run] have
    b: "interval_bytes out' \<union> run_bytes run' ?n = changed d" and w: "interval_weight out' + run_len run' ?n = card (changed d)"
    and le: "\<forall>start. run' = Some start \<longrightarrow> start \<le> ?n"
    unfolding all by (simp_all add: run_bytes_def run_len_def)
  have word: "unat (word_of_nat start :: u32) = start" if "start \<le> ?n" for start
    using le_less_trans [OF that n] by (simp add: unat_word_of_nat)
  have "interval_bytes (changed_intervals ?pre ?post) = changed d \<and> interval_weight (changed_intervals ?pre ?post) = card (changed d)"
  proof (cases run')
    case None
    then show ?thesis using b w by (simp add: changed_intervals_def Let_def run run_bytes_def run_len_def)
  next
    case (Some start)
    then have s: "start \<le> ?n" using le by simp
    obtain len where len: "len = ?n - start" by blast
    have iv: "changed_intervals ?pre ?post = out' @ [(word_of_nat start, word_of_nat len)]"
      by (simp add: changed_intervals_def Let_def run Some len)
    have "unat (word_of_nat len :: u32) = len" using word [of len] len by simp
    then show ?thesis unfolding iv using b w s word [OF s] Some len by (simp add: run_bytes_def run_len_def)
  qed
  then show "interval_bytes (changed_intervals ?pre ?post) = changed d" "interval_weight (changed_intervals ?pre ?post) = card (changed d)"
    by simp_all
qed

section \<open>The checks\<close>

definition write_cover :: "touch_map \<Rightarrow> u8 \<Rightarrow> (nat \<times> nat) list" where
  "write_cover m i = List.map (\<lambda>r. (unat (tm_offset r), unat (tm_offset r) + unat (tm_size r)))
     (filter (\<lambda>r. tm_write r \<and> tm_slot r = i) (map_records m))"

lemma write_cover_bytes: "covered (write_cover m i) = acquired m i"
  by (auto simp: covered_def write_cover_def acquired_def record_bytes_def map_writes_def)

definition gap_report :: "u8 \<Rightarrow> (nat \<times> nat) list \<Rightarrow> u32 \<times> u32 \<Rightarrow> violation list" where
  "gap_report i cover = (\<lambda>(off, sz). case first_gap (unat off) (unat off + unat sz) cover of
     Some gap \<Rightarrow> [UntrackedWrite i (word_of_nat gap)] | None \<Rightarrow> [])"

definition untracked_of :: "touch_map \<Rightarrow> u8 \<times> (u32 \<times> u32) list \<Rightarrow> violation list" where
  "untracked_of m = (\<lambda>(i, intervals). concat (List.map (gap_report i (write_cover m i)) intervals))"

definition ranges_of :: "u8 \<times> (u32 \<times> u32) list \<Rightarrow> range_contract list" where
  "ranges_of = (\<lambda>(i, intervals). List.map (\<lambda>(off, sz). \<lparr>rc_account = i, rc_offset = off, rc_size = sz\<rparr>) intervals)"

definition weight_of :: "u8 \<times> (u32 \<times> u32) list \<Rightarrow> u64" where
  "weight_of = (\<lambda>(i, intervals). sum_list (List.map (\<lambda>(off, sz). ucast sz) intervals))"

lemma interval_check_eq:
  "interval_check i cover intervals (vs, all, n) =
     (vs @ concat (List.map (gap_report i cover) intervals), all @ ranges_of (i, intervals), n + weight_of (i, intervals))"
proof (induction intervals arbitrary: vs all n)
  case (Cons x intervals)
  obtain off sz where "x = (off, sz)" by (cases x)
  then show ?case using Cons by (simp add: gap_report_def ranges_of_def weight_of_def split: option.split)
qed (simp add: ranges_of_def weight_of_def)

lemma account_check_eq:
  "account_check m accounts (vs, all, n) =
     (vs @ concat (List.map (untracked_of m) accounts), all @ concat (List.map ranges_of accounts), n + sum_list (List.map weight_of accounts))"
proof (induction accounts arbitrary: vs all n)
  case (Cons x accounts)
  obtain i intervals where "x = (i, intervals)" by (cases x)
  then show ?case using Cons by (simp add: interval_check_eq untracked_of_def write_cover_def [symmetric] Let_def)
qed simp

lemma observe_loop_None:
  "length observed = 256 \<Longrightarrow>
   observe_loop ds observed = None \<longleftrightarrow> distinct (List.map ad_index ds) \<and> (\<forall>d \<in> set ds. \<not> observed ! unat (ad_index d))"
proof (induction ds arbitrary: observed)
  case (Cons d ds)
  have lt: "unat (x :: u8) < 256" for x using unsigned_less [of x, where 'a = nat] by simp
  have "observed[unat (ad_index d) := True] ! unat (ad_index e) \<longleftrightarrow> ad_index e = ad_index d \<or> observed ! unat (ad_index e)" for e
    using Cons.prems lt [of "ad_index d"] by (auto simp: nth_list_update word_unat_eq_iff)
  moreover have "ad_index d \<in> ad_index ` set ds \<longleftrightarrow> (\<exists>e \<in> set ds. ad_index e = ad_index d)" by (simp add: image_iff eq_commute [of "ad_index d"])
  ultimately show ?case using Cons by auto
qed simp

lemma observe_none: "observe_loop ds (replicate 256 False) = None \<longleftrightarrow> distinct (List.map ad_index ds)"
proof -
  have "unat (x :: u8) < 256" for x using unsigned_less [of x, where 'a = nat] by simp
  then show ?thesis by (simp add: observe_loop_None)
qed

lemma acquisition_check_set:
  "x \<in> set (acquisition_check v rs) \<longleftrightarrow>
     (\<exists>r \<in> set rs. x = UnauthorizedAcquisition (tm_slot r) (tm_offset r) (tm_size r) \<and>
        \<not> record_bytes r \<subseteq> granted (cv_authorized_ranges v) (tm_slot r))"
proof (induction rs)
  case (Cons r rs)
  have "first_gap (unat (tm_offset r)) (unat (touch_record_end r))
      (List.map (\<lambda>x. (unat (rc_offset x), unat (rc_offset x) + unat (rc_size x)))
        (filter (\<lambda>x. rc_account x = tm_slot r) (cv_authorized_ranges v))) = None \<longleftrightarrow>
      record_bytes r \<subseteq> granted (cv_authorized_ranges v) (tm_slot r)"
    unfolding first_gap_None covered_granted [of "tm_slot r" "cv_authorized_ranges v", unfolded range_contract_end_def]
    by (simp add: record_bytes_def)
  then show ?case using Cons by (auto simp: Let_def)
qed simp

lemma lamport_check_set:
  "x \<in> set (lamport_check v ds) \<longleftrightarrow>
     (\<exists>d \<in> set ds. x = UnauthorizedLamportDelta (ad_index d) (ad_pre_lamports d) (ad_post_lamports d) \<and>
        ad_lamports_observed d \<and> ad_pre_lamports d \<noteq> ad_post_lamports d \<and> \<not> authorizes_lamports v (ad_index d))"
  by (induction ds) auto

lemma untracked_of_set:
  assumes "small_delta d"
  shows "x \<in> set (untracked_of m (ad_index d, changed_intervals (ad_pre d) (ad_post d))) \<Longrightarrow>
      \<exists>off. x = UntrackedWrite (ad_index d) off \<and> unat off \<in> changed d - acquired m (ad_index d)"
    and "untracked_of m (ad_index d, changed_intervals (ad_pre d) (ad_post d)) = [] \<Longrightarrow> changed d \<subseteq> acquired m (ad_index d)"
proof -
  let ?ivs = "changed_intervals (ad_pre d) (ad_post d)" and ?c = "write_cover m (ad_index d)"
  note exact = changed_intervals_exact [OF assms]
  {
    assume "x \<in> set (untracked_of m (ad_index d, ?ivs))"
    then obtain off sz where iv: "(off, sz) \<in> set ?ivs" and rep: "x \<in> set (gap_report (ad_index d) ?c (off, sz))"
      by (auto simp: untracked_of_def)
    obtain gap where gap: "first_gap (unat off) (unat off + unat sz) ?c = Some gap"
      and x: "x = UntrackedWrite (ad_index d) (word_of_nat gap)"
      using rep by (cases "first_gap (unat off) (unat off + unat sz) ?c") (auto simp: gap_report_def)
    note g = first_gap_Some [OF gap]
    then have "gap \<in> interval_bytes ?ivs" using iv by (force simp: interval_bytes_def)
    then have c: "gap \<in> changed d" using exact(1) by simp
    then have "gap < 2 ^ 32" using exact(3) by auto
    then have "unat (word_of_nat gap :: u32) = gap" by (simp add: unat_word_of_nat)
    then show "\<exists>off. x = UntrackedWrite (ad_index d) off \<and> unat off \<in> changed d - acquired m (ad_index d)"
      using c g x by (auto simp: write_cover_bytes)
  }
  assume "untracked_of m (ad_index d, ?ivs) = []"
  then have "first_gap (unat off) (unat off + unat sz) ?c = None" if "(off, sz) \<in> set ?ivs" for off sz
    using that by (auto simp: untracked_of_def gap_report_def split: option.splits)
  then have "interval_bytes ?ivs \<subseteq> acquired m (ad_index d)"
    by (fastforce simp: first_gap_None write_cover_bytes interval_bytes_def)
  then show "changed d \<subseteq> acquired m (ad_index d)" using exact(1) by simp
qed

section \<open>What a verdict means\<close>

text \<open>The inputs allow a verdict, and the contract is respected.\<close>

definition checkable :: "contract_view \<Rightarrow> account_delta list \<Rightarrow> touch_map \<Rightarrow> bool" where
  "checkable v deltas m \<longleftrightarrow> distinct (List.map ad_index deltas) \<and> cv_strict_writes v \<and> \<not> map_is_partial m"

definition respected :: "contract_view \<Rightarrow> account_delta list \<Rightarrow> touch_map \<Rightarrow> bool" where
  "respected v deltas m \<longleftrightarrow>
     list_all (\<lambda>d. changed d \<subseteq> acquired m (ad_index d)) deltas \<and>
     list_all (\<lambda>r. record_bytes r \<subseteq> granted (cv_authorized_ranges v) (tm_slot r)) (map_writes m) \<and>
     (cv_mutation_complete v \<longrightarrow>
        list_all (\<lambda>d. ad_lamports_observed d \<and> ad_pre_lamports d \<noteq> ad_post_lamports d \<longrightarrow> authorizes_lamports v (ad_index d)) deltas)"

fun violates :: "contract_view \<Rightarrow> account_delta list \<Rightarrow> touch_map \<Rightarrow> violation \<Rightarrow> bool" where
  "violates v deltas m (UntrackedWrite i off) \<longleftrightarrow>
     list_ex (\<lambda>d. ad_index d = i \<and> unat off \<in> changed d - acquired m i) deltas"
| "violates v deltas m (UnauthorizedAcquisition i off sz) \<longleftrightarrow>
     list_ex (\<lambda>r. tm_slot r = i \<and> tm_offset r = off \<and> tm_size r = sz \<and> \<not> record_bytes r \<subseteq> granted (cv_authorized_ranges v) i) (map_writes m)"
| "violates v deltas m (UnauthorizedLamportDelta i pre post) \<longleftrightarrow>
     cv_mutation_complete v \<and>
     list_ex (\<lambda>d. ad_index d = i \<and> ad_lamports_observed d \<and> ad_pre_lamports d = pre \<and> ad_post_lamports d = post \<and> pre \<noteq> post \<and>
       \<not> authorizes_lamports v i) deltas"

definition account_intervals :: "account_delta \<Rightarrow> u8 \<times> (u32 \<times> u32) list" where
  "account_intervals d = (ad_index d, changed_intervals (ad_pre d) (ad_post d))"

definition all_violations :: "contract_view \<Rightarrow> account_delta list \<Rightarrow> touch_map \<Rightarrow> violation list" where
  "all_violations v deltas m =
     concat (List.map (untracked_of m) (sort_key fst (List.map account_intervals deltas))) @
     acquisition_check v (map_writes m) @ (if cv_mutation_complete v then lamport_check v deltas else [])"

lemma all_violations_real:
  assumes "list_all small_delta deltas" and "x \<in> set (all_violations v deltas m)"
  shows "violates v deltas m x"
proof -
  consider d where "d \<in> set deltas" "x \<in> set (untracked_of m (account_intervals d))"
    | "x \<in> set (acquisition_check v (map_writes m))" | "cv_mutation_complete v" "x \<in> set (lamport_check v deltas)"
    using assms(2) by (auto simp: all_violations_def split: if_splits)
  then show ?thesis
  proof cases
    case 1
    then have "small_delta d" using assms(1) by (simp add: list_all_iff)
    from untracked_of_set(1) [OF this] 1 show ?thesis by (fastforce simp: account_intervals_def list_ex_iff)
  next
    case 2
    then obtain r where "r \<in> set (map_writes m)" "x = UnauthorizedAcquisition (tm_slot r) (tm_offset r) (tm_size r)"
      "\<not> record_bytes r \<subseteq> granted (cv_authorized_ranges v) (tm_slot r)" by (auto simp: acquisition_check_set)
    then show ?thesis by (simp add: list_ex_iff) blast
  qed (auto simp: lamport_check_set list_ex_iff)
qed

lemma no_violations_iff:
  assumes "list_all small_delta deltas"
  shows "all_violations v deltas m = [] \<longleftrightarrow> respected v deltas m"
proof
  assume none: "all_violations v deltas m = []"
  have "changed d \<subseteq> acquired m (ad_index d)" if "d \<in> set deltas" for d
  proof -
    have "small_delta d" using assms that by (simp add: list_all_iff)
    moreover have "untracked_of m (account_intervals d) = []" using none that by (auto simp: all_violations_def)
    ultimately show ?thesis using untracked_of_set(2) by (simp add: account_intervals_def)
  qed
  moreover have "acquisition_check v (map_writes m) = []" "cv_mutation_complete v \<longrightarrow> lamport_check v deltas = []"
    using none by (auto simp: all_violations_def split: if_splits)
  then have "\<forall>x. x \<notin> set (acquisition_check v (map_writes m))" "cv_mutation_complete v \<longrightarrow> (\<forall>x. x \<notin> set (lamport_check v deltas))" by simp_all
  ultimately show "respected v deltas m"
    by (auto simp: respected_def list_all_iff acquisition_check_set lamport_check_set)
next
  assume r: "respected v deltas m"
  have "\<not> violates v deltas m x" for x
    using r by (cases x) (auto simp: respected_def list_all_iff list_ex_iff)
  then show "all_violations v deltas m = []" using all_violations_real [OF assms, of _ v m] by (cases "all_violations v deltas m") auto
qed

text \<open>Sums over the accounts: at most 256 of them, so the byte count does not wrap.\<close>

lemma unat_sum_list: "(\<Sum>x \<leftarrow> xs. unat (f x)) < 2 ^ 64 \<Longrightarrow> unat (sum_list (List.map f xs) :: u64) = (\<Sum>x \<leftarrow> xs. unat (f x))"
proof (induction xs)
  case (Cons x xs)
  then have "unat (sum_list (List.map f xs)) = (\<Sum>x \<leftarrow> xs. unat (f x))" by simp
  then show ?case using Cons.prems by (simp add: unat_add_exact)
qed simp

lemma weight_of_exact:
  assumes "small_delta d"
  shows "unat (weight_of (account_intervals d)) = card (changed d)"
proof -
  let ?ivs = "changed_intervals (ad_pre d) (ad_post d)"
  let ?f = "\<lambda>(off, sz). ucast (sz :: u32) :: u64"
  have "(\<lambda>x. unat (?f x)) = (\<lambda>(off :: u32, sz). unat sz)" by (auto simp: fun_eq_iff)
  then have w: "(\<Sum>x \<leftarrow> ?ivs. unat (?f x)) = card (changed d)"
    using changed_intervals_exact(2) [OF assms] by (simp add: interval_weight_def)
  have "card (changed d) \<le> 2 ^ 32" using card_mono [OF _ changed_intervals_exact(3) [OF assms]] by simp
  then have "(\<Sum>x \<leftarrow> ?ivs. unat (?f x)) < 2 ^ 64" using w by simp
  from unat_sum_list [OF this] show ?thesis using w by (simp add: weight_of_def account_intervals_def)
qed

lemma changed_bytes_exact:
  assumes "list_all small_delta deltas" and "distinct (List.map ad_index deltas)"
  shows "unat (sum_list (List.map weight_of (sort_key fst (List.map account_intervals deltas)))) = (\<Sum>d \<leftarrow> deltas. card (changed d))"
proof -
  have perm: "sum_list (List.map weight_of (sort_key fst (List.map account_intervals deltas))) = sum_list (List.map (weight_of \<circ> account_intervals) deltas)"
    by (simp add: multiset.map_comp flip: sum_mset_sum_list)
  have each: "unat (weight_of (account_intervals d)) = card (changed d)" if "d \<in> set deltas" for d
    using assms(1) that by (intro weight_of_exact) (simp add: list_all_iff)
  have len: "length deltas \<le> 256"
  proof -
    have "length deltas = card (ad_index ` set deltas)" using assms(2) distinct_card [of "List.map ad_index deltas"] by simp
    also have "\<dots> \<le> card (UNIV :: u8 set)" by (intro card_mono) simp_all
    also have "\<dots> = 256" by (simp add: card_word)
    finally show ?thesis .
  qed
  have sums: "(\<Sum>d \<leftarrow> deltas. unat (weight_of (account_intervals d))) = (\<Sum>d \<leftarrow> deltas. card (changed d))"
    using each by (simp cong: map_cong)
  have "(\<Sum>d \<leftarrow> deltas. card (changed d)) \<le> (\<Sum>d \<leftarrow> deltas. 2 ^ 32)"
  proof (rule sum_list_mono)
    fix d assume "d \<in> set deltas"
    then have "changed d \<subseteq> {..< 2 ^ 32}" using assms(1) by (intro changed_intervals_exact(3)) (simp add: list_all_iff)
    from card_mono [OF _ this] show "card (changed d) \<le> 2 ^ 32" by simp
  qed
  also have "\<dots> < 2 ^ 64" using len by (simp add: sum_list_triv)
  finally show ?thesis
    unfolding perm using unat_sum_list [of "weight_of \<circ> account_intervals" deltas] sums by (simp add: comp_def)
qed

definition evidence :: "account_delta list \<Rightarrow> touch_map \<Rightarrow> pass_evidence" where
  "evidence deltas m =
     (let accounts = sort_key fst (List.map account_intervals deltas) in
      \<lparr>pe_observed_data_accounts = remdups_adj (sort (List.map ad_index deltas)),
       pe_observed_lamport_accounts = remdups_adj (sort (List.map ad_index (filter ad_lamports_observed deltas))),
       pe_changed = concat (List.map ranges_of accounts), pe_acquired_unchanged = acquired_unchanged accounts (map_writes m),
       pe_changed_bytes = sum_list (List.map weight_of accounts)\<rparr>)"

lemma verify_contract_eq:
  "verify_contract v deltas m =
     (if checkable v deltas m then
        if all_violations v deltas m \<noteq> [] then Violation (all_violations v deltas m) else Pass (evidence deltas m)
      else
        case observe_loop deltas (replicate 256 False) of
          Some i \<Rightarrow> Inconclusive (DuplicateAccountSnapshot i)
        | None \<Rightarrow> if \<not> cv_strict_writes v then Inconclusive NoByteContract
            else Inconclusive (PartialTouchMap (map_overflowed m) (map_skipped m)))"
proof (cases "observe_loop deltas (replicate 256 False)")
  case None
  have "account_check m accounts ([], [], 0) =
      (concat (List.map (untracked_of m) accounts), concat (List.map ranges_of accounts), sum_list (List.map weight_of accounts))" for accounts
    by (simp add: account_check_eq)
  then show ?thesis
    using None observe_none [of deltas]
    by (simp add: verify_contract_def checkable_def all_violations_def evidence_def account_intervals_def [abs_def] map_writes_def Let_def)
next
  case (Some i)
  then show ?thesis using observe_none [of deltas] by (simp add: verify_contract_def checkable_def)
qed

lemma granted_ranges: "granted (ranges_of (j, intervals)) i = (if j = i then interval_bytes intervals else {})"
  by (induction intervals) (auto simp: ranges_of_def range_set_def range_contract_end_def)

lemma granted_all_ranges: "granted (concat (List.map ranges_of accounts)) i = (\<Union>(j, intervals) \<in> set accounts. if j = i then interval_bytes intervals else {})"
proof (induction accounts)
  case (Cons x accounts)
  then show ?case by (cases x) (simp add: granted_ranges)
qed simp

lemma evidence_changed:
  assumes "list_all small_delta deltas"
  shows "granted (pe_changed (evidence deltas m)) i = (\<Union>d \<in> {d \<in> set deltas. ad_index d = i}. changed d)"
proof -
  have "interval_bytes (changed_intervals (ad_pre d) (ad_post d)) = changed d" if "d \<in> set deltas" for d
    using assms that by (intro changed_intervals_exact(1)) (simp add: list_all_iff)
  then show ?thesis by (force simp: evidence_def Let_def granted_all_ranges account_intervals_def split: if_splits)
qed

lemma acquired_unchanged_real:
  assumes "list_all small_delta deltas" and "x \<in> set (pe_acquired_unchanged (evidence deltas m))" and "d \<in> set deltas" and "ad_index d = rc_account x"
  shows "range_set x \<inter> changed d = {}"
proof -
  obtain r where r: "x = \<lparr>rc_account = tm_slot r, rc_offset = tm_offset r, rc_size = tm_size r\<rparr>"
    and no: "\<not> list_ex (\<lambda>(i, intervals). i = tm_slot r \<and> list_ex (touches_interval r) intervals) (sort_key fst (List.map account_intervals deltas))"
    using assms(2) by (auto simp: evidence_def Let_def acquired_unchanged_def)
  have "\<not> touches_interval r iv" if "iv \<in> set (changed_intervals (ad_pre d) (ad_post d))" for iv
    using no assms(3,4) r that by (auto simp: list_ex_iff account_intervals_def)
  then have "range_set x \<inter> interval_bytes (changed_intervals (ad_pre d) (ad_post d)) = {}"
    using r by (force simp: touches_interval_def interval_bytes_def range_set_def range_contract_end_def disjoint_iff)
  then show ?thesis using changed_intervals_exact(1) [of d] assms(1,3) by (simp add: list_all_iff)
qed

section \<open>Properties\<close>

text \<open>
  C2: The verdict is exact. For snapshots under 4 GiB, the verifier passes precisely when the inputs
  allow a verdict and every changed byte was acquired by a write record, every acquired byte is
  authorised and every observed lamport change is permitted; a pass reports exactly the changed
  bytes of each account and their number, and only records that changed nothing as unchanged.
  Otherwise it reports violations, each of them real, or says why there is no verdict.
\<close>

theorem verdict_is_exact:
  assumes "list_all small_delta deltas"
  shows "case verify_contract v deltas m of
     Pass ev \<Rightarrow> checkable v deltas m \<and> respected v deltas m \<and>
       (\<forall>i. granted (pe_changed ev) i = (\<Union>d \<in> {d \<in> set deltas. ad_index d = i}. changed d)) \<and>
       unat (pe_changed_bytes ev) = (\<Sum>d \<leftarrow> deltas. card (changed d)) \<and>
       set (pe_observed_data_accounts ev) = ad_index ` set deltas \<and>
       list_all (\<lambda>x. list_all (\<lambda>d. ad_index d = rc_account x \<longrightarrow> range_set x \<inter> changed d = {}) deltas) (pe_acquired_unchanged ev)
   | Violation vs \<Rightarrow> checkable v deltas m \<and> \<not> respected v deltas m \<and> vs \<noteq> [] \<and> list_all (violates v deltas m) vs
   | Inconclusive _ \<Rightarrow> \<not> checkable v deltas m"
proof (cases "checkable v deltas m")
  case True
  then have bytes: "unat (pe_changed_bytes (evidence deltas m)) = (\<Sum>d \<leftarrow> deltas. card (changed d))"
    using changed_bytes_exact [OF assms] by (simp add: checkable_def evidence_def Let_def)
  have obs: "set (pe_observed_data_accounts (evidence deltas m)) = ad_index ` set deltas" by (simp add: evidence_def Let_def)
  have "list_all (\<lambda>x. list_all (\<lambda>d. ad_index d = rc_account x \<longrightarrow> range_set x \<inter> changed d = {}) deltas)
      (pe_acquired_unchanged (evidence deltas m))"
    using acquired_unchanged_real [OF assms] by (auto simp: list_all_iff)
  moreover have "list_all (violates v deltas m) (all_violations v deltas m)"
    using all_violations_real [OF assms] by (auto simp: list_all_iff)
  ultimately show ?thesis
    using True no_violations_iff [OF assms] evidence_changed [OF assms] bytes obs by (simp add: verify_contract_eq)
qed (simp add: verify_contract_eq split: option.splits)

definition sample_delta :: account_delta where
  "sample_delta = delta_new 1 (replicate 40 0) ((replicate 40 0)[33 := 7])"

lemma sample_delta_small: "list_all small_delta [sample_delta]"
  by (simp add: sample_delta_def delta_new_def small_delta_def)

lemma sample_delta_changed: "changed sample_delta = {33}"
  by (auto simp: sample_delta_def delta_new_def changed_def byte_at_def nth_list_update split: if_splits)

theorem verdict_is_exact_witness:
  "is_pass (verify_contract
     \<lparr>cv_strict_writes = True, cv_mutation_complete = False, cv_authorized_ranges = [\<lparr>rc_account = 1, rc_offset = 32, rc_size = 8\<rparr>],
      cv_lamport_accounts = [], cv_requires_resolution = False\<rparr>
     [sample_delta]
     \<lparr>map_overflowed = False, map_skipped = False, map_records = [\<lparr>tm_slot = 1, tm_offset = 32, tm_size = 4, tm_write = True\<rparr>]\<rparr>)"
proof -
  let ?v = "\<lparr>cv_strict_writes = True, cv_mutation_complete = False, cv_authorized_ranges = [\<lparr>rc_account = 1, rc_offset = 32, rc_size = 8\<rparr>],
      cv_lamport_accounts = [], cv_requires_resolution = False\<rparr> :: contract_view"
  let ?m = "\<lparr>map_overflowed = False, map_skipped = False, map_records = [\<lparr>tm_slot = 1, tm_offset = 32, tm_size = 4, tm_write = True\<rparr>]\<rparr> :: touch_map"
  have "ad_index sample_delta = 1" by (simp add: sample_delta_def delta_new_def)
  then have "checkable ?v [sample_delta] ?m" "respected ?v [sample_delta] ?m"
    by (simp_all add: checkable_def map_is_partial_def respected_def sample_delta_changed acquired_def map_writes_def record_bytes_def range_set_def range_contract_end_def)
  then show ?thesis using verdict_is_exact [OF sample_delta_small, of ?v ?m] by (cases "verify_contract ?v [sample_delta] ?m") simp_all
qed

text \<open>The runtime policy the same macro generates from a contract.\<close>

definition policy_of :: "instruction_contract \<Rightarrow> write_policy" where
  "policy_of c =
     \<lparr>wp_allows = List.map (\<lambda>r. range_new (rc_account r) (rc_offset r) (rc_size r)) (ic_authorized c),
      wp_parametric = List.map (\<lambda>r. param_new (pc_account r) (pc_base r) (pc_stride r) (pc_cell r) (pc_count r) (pc_argument_index r)
        (pc_argument_name r) (pc_segment r)) (ic_parametric c),
      wp_lamports = (if ic_mutation_complete c then Declared (ic_lamport_accounts c) else Undeclared)\<rparr>"

abbreviation to_param :: "parametric_contract \<Rightarrow> param_range" where
  "to_param r \<equiv> param_new (pc_account r) (pc_base r) (pc_stride r) (pc_cell r) (pc_count r) (pc_argument_index r)
     (pc_argument_name r) (pc_segment r)"

lemma to_param_simps [simp]:
  "pr_account (to_param r) = pc_account r" "envelope (to_param r) = column r" "pr_count (to_param r) = pc_count r"
  "cell_bytes (to_param r) v = cell r v" "selected_argument (to_param r) args = selector_at args r"
  by (simp_all add: param_new_def envelope_def column_def column_stop_def cell_bytes_def cell_def selected_argument_def selector_at_def)

lemma static_policy: "(\<exists>r \<in> set (wp_allows (policy_of c)). wr_account r = i \<and> b \<in> range_bytes r) \<longleftrightarrow> b \<in> granted (ic_authorized c) i"
  by (auto simp: policy_of_def range_new_def range_bytes_def granted_def range_set_def range_contract_end_def)

lemma resolved_policy:
  assumes "resolve_effects_with_selectors c args = Inr res"
  shows "b \<in> granted (res_authorized res) i \<longleftrightarrow> byte_allowed (policy_of c) i args b"
proof -
  let ?rules = "ic_parametric c" and ?P = "\<lambda>r. pr_account r = i \<and> b \<in> envelope r"
  have "resolve_with c (selector_at args) = Inr res"
    using assms by (simp add: resolve_effects_with_selectors_def selector_at_def [abs_def])
  note ok = resolve_with_ok [OF this]
  then have apart: "sorted_wrt rules_apart ?rules" and fit: "\<forall>r \<in> set ?rules. \<exists>v. selector_at args r = Some v \<and> v < pc_count r"
    and g: "granted (res_authorized res) i = granted (ic_authorized c) i - columns ?rules i \<union> chosen ?rules (selector_at args) i"
    by (simp_all add: rules_ok_def)
  have par: "wp_parametric (policy_of c) = List.map to_param ?rules" by (simp add: policy_of_def)
  show ?thesis
  proof (cases "find ?P (wp_parametric (policy_of c))")
    case None
    then have "b \<notin> columns ?rules i" by (auto simp: par find_None_iff columns_def)
    moreover have "b \<notin> chosen ?rules (selector_at args) i" using calculation chosen_in_columns [OF fit] by blast
    ultimately show ?thesis unfolding g byte_allowed_def None by (simp add: static_policy)
  next
    case (Some q)
    from find_Some_mem [OF Some] obtain r where r: "r \<in> set ?rules" "q = to_param r" "pc_account r = i" "b \<in> column r" by (auto simp: par)
    obtain v where v: "selector_at args r = Some v" "v < pc_count r" using fit r(1) by blast
    have "b \<in> columns ?rules i" using r by (auto simp: columns_def)
    moreover have "b \<in> chosen ?rules (selector_at args) i \<longleftrightarrow> b \<in> cell r v"
    proof
      assume "b \<in> chosen ?rules (selector_at args) i"
      then obtain l where l: "l \<in> set ?rules" "pc_account l = i" "b \<in> cell l (the (selector_at args l))" by (auto simp: chosen_def)
      obtain u where u: "selector_at args l = Some u" "u < pc_count l" using fit l(1) by blast
      then have "b \<in> column l" using l(3) cell_in_column by auto
      then have "l = r" using apart_columns [OF apart l(1) r(1)] l(2) r(3,4) by simp
      then show "b \<in> cell r v" using l(3) v by simp
    next
      assume "b \<in> cell r v"
      then show "b \<in> chosen ?rules (selector_at args) i" using r v by (force simp: chosen_def)
    qed
    moreover have "selected_argument q args = Some v" "pr_count q = pc_count r" "cell_bytes q v = cell r v"
      unfolding r(2) to_param_simps using v by simp_all
    ultimately show ?thesis unfolding g byte_allowed_def Some using v(2) by simp
  qed
qed

lemma index_loop_iff: "index_loop xs i \<longleftrightarrow> i \<in> set xs"
  by (induction xs) auto

lemma resolved_lamports:
  assumes "resolve_effects_with_selectors c args = Inr res" and "ic_mutation_complete c"
  shows "authorizes_lamports (resolved_view res) i \<longleftrightarrow> allows_lamport_mutation (policy_of c) i"
proof -
  have "resolve_with c (selector_at args) = Inr res"
    using assms(1) by (simp add: resolve_effects_with_selectors_def selector_at_def [abs_def])
  from resolve_with_ok [OF this] show ?thesis
    using assms(2) by (simp add: authorizes_lamports_def resolved_view_def allows_lamport_mutation_def policy_of_def index_loop_iff)
qed

lemma sample_resolves: "\<exists>res. resolve_effects_with_selectors sample_contract [2] = Inr res"
proof -
  have "rules_ok sample_contract"
    by (simp add: rules_ok_def sample_contract_def sample_rule_def rule_ok_def column_def column_stop_def u32_max_def range_set_def range_contract_end_def)
  moreover have "by_identity (ic_parametric sample_contract) (selector_at [2])" by (simp add: by_identity_def selector_at_def)
  moreover have "\<forall>r \<in> set (ic_parametric sample_contract). \<exists>v. selector_at [2] r = Some v \<and> v < pc_count r"
    by (simp add: sample_contract_def sample_rule_def selector_at_def)
  ultimately show ?thesis
    using resolve_with_total by (simp add: resolve_effects_with_selectors_def selector_at_def [abs_def])
qed

text \<open>
  C3: An instruction over distinct accounts that kept to its contract is not accused. The hypotheses:
  the instruction's accounts have pairwise different addresses (with an account at two positions
  the verifier does accuse an honest write, because the map names the first position only); every
  write borrow was acquired under the policy and logged; every byte that changed in a snapshot was
  borrowed for writing; lamports moved only where the policy allows it. Then for the touch map the
  log emits the verifier passes, or it is inconclusive on inputs that allow no verdict.
\<close>

theorem honest_distinct_instruction_is_not_accused:
  assumes res: "resolve_effects_with_selectors c args = Inr res" and accounts: "distinct accounts"
    and acquired: "\<And>b i. b \<in> set bs \<Longrightarrow> sb_kind b = Write \<Longrightarrow> unat (i :: u8) < length accounts \<Longrightarrow> accounts ! unat i = sb_key b \<Longrightarrow>
      check_write_with_args (policy_of c) i (sb_offset b) (sb_size b) args = Ok ()"
    and deltas: "list_all small_delta deltas"
    and written: "\<And>d x. d \<in> set deltas \<Longrightarrow> x \<in> changed d \<Longrightarrow>
      unat (ad_index d) < length accounts \<and> (accounts ! unat (ad_index d), x) \<in> written bs"
    and lamports: "\<And>d. d \<in> set deltas \<Longrightarrow> ad_pre_lamports d \<noteq> ad_post_lamports d \<Longrightarrow> allows_lamport_mutation (policy_of c) (ad_index d)"
    and wire: "context_encode_touch_map accounts (foldl tl_record tl_new bs) = Ok (buf, n)" "decode_touch_map (take n buf) = Ok (Inr m)"
  shows "is_pass (verify_resolved res deltas m) \<or>
    (\<exists>reason. verify_resolved res deltas m = Inconclusive reason \<and> \<not> checkable (resolved_view res) deltas m)"
proof (cases "checkable (resolved_view res) deltas m")
  case True
  then have full: "\<not> map_is_partial m" by (simp add: checkable_def)
  have chain: "map_touched accounts (map_writes m) = written bs" "\<forall>r \<in> set (map_records m). unat (tm_slot r) < length accounts"
    using touch_map_chain [of accounts bs] wire full by auto
  have at: "(key, x) \<in> written bs \<longleftrightarrow> (\<exists>r \<in> set (map_writes m). accounts ! unat (tm_slot r) = key \<and> x \<in> record_bytes r)" for key x
    unfolding chain(1) [symmetric] map_touched_def by (auto simp: record_bytes_def)
  have slot: "unat (tm_slot r) < length accounts" if "r \<in> set (map_writes m)" for r using chain(2) that by (simp add: map_writes_def)
  have one: "changed d \<subseteq> acquired m (ad_index d)" if d: "d \<in> set deltas" for d
  proof
    fix x assume "x \<in> changed d"
    from written [OF d this] obtain r where r: "r \<in> set (map_writes m)" "accounts ! unat (tm_slot r) = accounts ! unat (ad_index d)" "x \<in> record_bytes r"
      and i: "unat (ad_index d) < length accounts" by (auto simp: at)
    then have "tm_slot r = ad_index d" using accounts slot [OF r(1)] by (simp add: nth_eq_iff_index_eq word_unat_eq_iff)
    then show "x \<in> acquired m (ad_index d)" using r by (auto simp: acquired_def)
  qed
  have two: "record_bytes r \<subseteq> granted (res_authorized res) (tm_slot r)" if r: "r \<in> set (map_writes m)" for r
  proof
    fix x assume "x \<in> record_bytes r"
    then have "(accounts ! unat (tm_slot r), x) \<in> written bs" using r by (auto simp: at)
    then obtain b where b: "b \<in> set bs" "sb_kind b = Write" "sb_key b = accounts ! unat (tm_slot r)" "x \<in> bytes_of b"
      by (auto simp: written_def touched_def)
    from acquired_bytes_allowed [OF acquired [OF b(1,2) slot [OF r] b(3) [symmetric]]] b(4)
    show "x \<in> granted (res_authorized res) (tm_slot r)" by (simp add: resolved_policy [OF res] bytes_of_def)
  qed
  have three: "authorizes_lamports (resolved_view res) (ad_index d)"
    if "cv_mutation_complete (resolved_view res)" "d \<in> set deltas" "ad_pre_lamports d \<noteq> ad_post_lamports d" for d
  proof -
    have "resolve_with c (selector_at args) = Inr res" using res by (simp add: resolve_effects_with_selectors_def selector_at_def [abs_def])
    then have "ic_mutation_complete c" using resolve_with_ok that(1) by (fastforce simp: resolved_view_def)
    then show ?thesis using resolved_lamports [OF res] lamports [OF that(2,3)] by simp
  qed
  have "respected (resolved_view res) deltas m"
    using one two three by (auto simp: respected_def list_all_iff resolved_view_def)
  then show ?thesis using True no_violations_iff [OF deltas] by (simp add: verify_resolved_def verify_contract_eq)
next
  case False
  then show ?thesis by (simp add: verify_resolved_def verify_contract_eq split: option.split)
qed

theorem honest_distinct_instruction_is_not_accused_witness:
  "\<exists>res buf n m. resolve_effects_with_selectors sample_contract [2] = Inr res \<and>
     context_encode_touch_map [[5], [6]] (foldl tl_record tl_new [\<lparr>sb_key_fp = 0, sb_key = [6], sb_offset = 32, sb_size = 4, sb_kind = Write\<rparr>]) = Ok (buf, n) \<and>
     decode_touch_map (take n buf) = Ok (Inr m) \<and>
     (is_pass (verify_resolved res [sample_delta] m) \<or>
      (\<exists>reason. verify_resolved res [sample_delta] m = Inconclusive reason \<and> \<not> checkable (resolved_view res) [sample_delta] m))"
proof -
  let ?b = "\<lparr>sb_key_fp = 0, sb_key = [6], sb_offset = 32, sb_size = 4, sb_kind = Write\<rparr> :: segment_borrow"
  let ?accounts = "[[5], [6]] :: bytes list"
  obtain res where res: "resolve_effects_with_selectors sample_contract [2] = Inr res" using sample_resolves by blast
  from touch_map_chain [of ?accounts "[?b]"] obtain buf n m where
    wire: "context_encode_touch_map ?accounts (foldl tl_record tl_new [?b]) = Ok (buf, n)" "decode_touch_map (take n buf) = Ok (Inr m)" by blast
  have distinct: "distinct ?accounts" by simp
  have ok: "check_write_with_args (policy_of sample_contract) i (sb_offset b) (sb_size b) [2] = Ok ()"
    if "b \<in> set [?b]" "unat (i :: u8) < length ?accounts" "?accounts ! unat i = sb_key b" for b i
  proof -
    have "unat i = 1" using that by (cases "unat i") (auto simp: less_Suc_eq)
    then have "i = 1" by (simp add: word_unat_eq_iff)
    then show ?thesis
      using that(1) by (simp add: check_write_with_args_def policy_of_def sample_contract_def sample_rule_def param_new_def
          envelope_overlaps_exact unat_envelope_end selected_argument_def selected_contains_exact)
  qed
  have "is_pass (verify_resolved res [sample_delta] m) \<or>
      (\<exists>reason. verify_resolved res [sample_delta] m = Inconclusive reason \<and> \<not> checkable (resolved_view res) [sample_delta] m)"
  proof (rule honest_distinct_instruction_is_not_accused [OF res distinct _ sample_delta_small _ _ wire])
    fix b i assume "b \<in> set [?b]" "unat (i :: u8) < length ?accounts" "?accounts ! unat i = sb_key b"
    then show "check_write_with_args (policy_of sample_contract) i (sb_offset b) (sb_size b) [2] = Ok ()" by (rule ok)
  next
    fix d x assume "d \<in> set [sample_delta]" "x \<in> changed d"
    then have "d = sample_delta" "x = 33" by (simp_all add: sample_delta_changed)
    then show "unat (ad_index d) < length ?accounts \<and> (?accounts ! unat (ad_index d), x) \<in> written [?b]"
      by (simp add: sample_delta_def delta_new_def written_def touched_def bytes_of_def)
  next
    fix d assume "d \<in> set [sample_delta]" "ad_pre_lamports d \<noteq> ad_post_lamports d"
    then show "allows_lamport_mutation (policy_of sample_contract) (ad_index d)" by (simp add: sample_delta_def delta_new_def)
  qed
  then show ?thesis using res wire by blast
qed

end
