(* ===== verification/Sysvar.thy ===== *)
theory Sysvar imports Rent begin

text \<open>
  hopper-native/src/sysvar.rs: the readers of the cluster's sysvars and the epoch schedule. The
  system call \<^verbatim>\<open>sol_get_sysvar\<close> is a parameter \<open>sol\<close>: given an address (its base58 text), an offset and
  a length it returns a code and, when the code is 0, that many bytes. \<open>serves\<close> is its documented
  behaviour for a sysvar with a given account image. Shown: every reader returns the fields of the
  image, and the two directions of the epoch arithmetic are inverse.
\<close>

section \<open>The system call\<close>

type_synonym get_sysvar = "string \<Rightarrow> nat \<Rightarrow> nat \<Rightarrow> nat \<times> bytes"

definition clock_id :: string where "clock_id = ''SysvarC1ock11111111111111111111111111111111''"
definition rent_id :: string where "rent_id = ''SysvarRent111111111111111111111111111111111''"
definition epoch_schedule_id :: string where "epoch_schedule_id = ''SysvarEpochSchedu1e111111111111111111111111''"
definition slot_hashes_id :: string where "slot_hashes_id = ''SysvarS1otHashes111111111111111111111111111''"
definition stake_history_id :: string where "stake_history_id = ''SysvarStakeHistory1111111111111111111111111''"
definition epoch_rewards_id :: string where "epoch_rewards_id = ''SysvarEpochRewards1111111111111111111111111''"

definition offset_length_exceeds_sysvar :: nat where "offset_length_exceeds_sysvar = 1"

definition get_sysvar_into :: "get_sysvar \<Rightarrow> string \<Rightarrow> nat \<Rightarrow> nat \<Rightarrow> bytes outcome" where
  "get_sysvar_into sol sysvar_id offset len =
     (let (rc, dst) = sol sysvar_id offset len in if rc \<noteq> 0 then Err UnsupportedSysvar else Ok dst)"

definition get_sysvar_prefix_at :: "get_sysvar \<Rightarrow> string \<Rightarrow> nat \<Rightarrow> nat \<Rightarrow> bytes option outcome" where
  "get_sysvar_prefix_at sol sysvar_id offset len =
     (let (rc, dst) = sol sysvar_id offset len in
      if rc = 0 then Ok (Some dst)
      else if rc = offset_length_exceeds_sysvar then Ok None
      else Err UnsupportedSysvar)"

section \<open>Fixed images\<close>

definition rd8 :: "bytes \<Rightarrow> nat \<Rightarrow> u64 outcome" where
  "rd8 data off = obind (rd data off 8) (\<lambda>b. Ok (word_of_nat (le_val b)))"

record clock =
  cl_slot :: u64
  cl_epoch_start_timestamp :: u64
  cl_epoch :: u64
  cl_leader_schedule_epoch :: u64
  cl_unix_timestamp :: u64

definition get_clock :: "get_sysvar \<Rightarrow> clock outcome" where
  "get_clock sol =
     obind (get_sysvar_into sol clock_id 0 40) (\<lambda>data.
     obind (rd8 data 0) (\<lambda>slot. obind (rd8 data 8) (\<lambda>start. obind (rd8 data 16) (\<lambda>epoch.
     obind (rd8 data 24) (\<lambda>leader. obind (rd8 data 32) (\<lambda>unix.
     Ok \<lparr>cl_slot = slot, cl_epoch_start_timestamp = start, cl_epoch = epoch, cl_leader_schedule_epoch = leader,
       cl_unix_timestamp = unix\<rparr>))))))"

definition rent_image_len :: nat where "rent_image_len = 17"

definition get_rent :: "get_sysvar \<Rightarrow> rent outcome" where
  "get_rent sol =
     (let (rc, data) = sol rent_id 0 rent_image_len in
      if rc \<noteq> 0 then Err UnsupportedSysvar
      else obind (rd8 data 0) (\<lambda>rate. obind (rd8 data 8) (\<lambda>threshold. obind (rd_byte data 16) (\<lambda>burn.
        Ok \<lparr>lamports_per_byte_year = rate, exemption_threshold_bits = threshold, burn_percent = burn\<rparr>))))"

record epoch_schedule =
  es_slots_per_epoch :: u64
  es_leader_schedule_slot_offset :: u64
  es_warmup :: bool
  es_first_normal_epoch :: u64
  es_first_normal_slot :: u64

definition epoch_schedule_image_len :: nat where "epoch_schedule_image_len = 33"

definition decode_epoch_schedule :: "bytes \<Rightarrow> epoch_schedule outcome" where
  "decode_epoch_schedule data =
     obind (rd8 data 0) (\<lambda>slots_per_epoch. obind (rd8 data 8) (\<lambda>slot_offset. obind (rd_byte data 16) (\<lambda>warmup.
     obind (rd8 data 17) (\<lambda>first_epoch. obind (rd8 data 25) (\<lambda>first_slot.
     Ok \<lparr>es_slots_per_epoch = slots_per_epoch, es_leader_schedule_slot_offset = slot_offset, es_warmup = (warmup \<noteq> 0),
       es_first_normal_epoch = first_epoch, es_first_normal_slot = first_slot\<rparr>)))))"

definition get_epoch_schedule :: "get_sysvar \<Rightarrow> epoch_schedule outcome" where
  "get_epoch_schedule sol =
     obind (get_sysvar_into sol epoch_schedule_id 0 epoch_schedule_image_len) decode_epoch_schedule"

record epoch_rewards =
  ew_distribution_starting_block_height :: u64
  ew_num_partitions :: u64
  ew_parent_blockhash :: bytes
  ew_total_points :: u128
  ew_total_rewards :: u64
  ew_distributed_rewards :: u64
  ew_active :: bool

definition epoch_rewards_len :: nat where "epoch_rewards_len = 81"

definition decode_epoch_rewards :: "bytes \<Rightarrow> epoch_rewards outcome" where
  "decode_epoch_rewards buf =
     obind (rd buf 16 32) (\<lambda>parent_blockhash. obind (rd buf 48 16) (\<lambda>points.
     obind (rd8 buf 0) (\<lambda>height. obind (rd8 buf 8) (\<lambda>partitions.
     obind (rd8 buf 64) (\<lambda>total. obind (rd8 buf 72) (\<lambda>distributed. obind (rd_byte buf 80) (\<lambda>active.
     Ok \<lparr>ew_distribution_starting_block_height = height, ew_num_partitions = partitions, ew_parent_blockhash = parent_blockhash,
       ew_total_points = word_of_nat (le_val points), ew_total_rewards = total, ew_distributed_rewards = distributed,
       ew_active = (active \<noteq> 0)\<rparr>)))))))"

definition get_epoch_rewards :: "get_sysvar \<Rightarrow> epoch_rewards outcome" where
  "get_epoch_rewards sol = obind (get_sysvar_into sol epoch_rewards_id 0 epoch_rewards_len) decode_epoch_rewards"

section \<open>The newest entry of a list\<close>

definition empty_list_or_error :: "get_sysvar \<Rightarrow> string \<Rightarrow> 'a option outcome" where
  "empty_list_or_error sol sysvar_id =
     obind (get_sysvar_into sol sysvar_id 0 8) (\<lambda>count_buf.
     if le_val count_buf = 0 then Ok None else Err UnsupportedSysvar)"

record slot_hash =
  sh_slot :: u64
  sh_hash :: bytes

definition slot_hashes_latest :: "get_sysvar \<Rightarrow> slot_hash option outcome" where
  "slot_hashes_latest sol =
     obind (get_sysvar_prefix_at sol slot_hashes_id 0 48) (\<lambda>prefix.
     case prefix of
       None \<Rightarrow> empty_list_or_error sol slot_hashes_id
     | Some prefix \<Rightarrow>
         obind (rd8 prefix 0) (\<lambda>count.
         if count = 0 then Ok None
         else obind (rd8 prefix 8) (\<lambda>slot. obind (rd prefix 16 32) (\<lambda>hash.
           Ok (Some \<lparr>sh_slot = slot, sh_hash = hash\<rparr>)))))"

record stake_history_entry =
  st_epoch :: u64
  st_effective :: u64
  st_activating :: u64
  st_deactivating :: u64

definition stake_history_latest :: "get_sysvar \<Rightarrow> stake_history_entry option outcome" where
  "stake_history_latest sol =
     obind (get_sysvar_prefix_at sol stake_history_id 0 40) (\<lambda>prefix.
     case prefix of
       None \<Rightarrow> empty_list_or_error sol stake_history_id
     | Some prefix \<Rightarrow>
         obind (rd8 prefix 0) (\<lambda>count.
         if count = 0 then Ok None
         else obind (rd8 prefix 8) (\<lambda>epoch. obind (rd8 prefix 16) (\<lambda>effective. obind (rd8 prefix 24) (\<lambda>activating.
           obind (rd8 prefix 32) (\<lambda>deactivating.
           Ok (Some \<lparr>st_epoch = epoch, st_effective = effective, st_activating = activating, st_deactivating = deactivating\<rparr>)))))))"

section \<open>Epoch arithmetic\<close>

text \<open>The warm-up loop: epoch lengths double from 32 and saturate, so the second test never fails; it is there for termination.\<close>

function warmup_loop :: "u64 \<Rightarrow> u64 \<Rightarrow> u64 \<Rightarrow> u64 outcome" where
  "warmup_loop slot_remaining epoch_len epoch =
     (if slot_remaining \<ge> epoch_len \<and> epoch_len > 0 then
        obind (native_add epoch 1) (\<lambda>epoch'.
        warmup_loop (slot_remaining - epoch_len)
          (case word_checked_mul epoch_len 2 of Some doubled \<Rightarrow> doubled | None \<Rightarrow> - 1) epoch')
      else Ok epoch)"
  by pat_completeness auto
termination
  by (relation "measure (\<lambda>(slot_remaining, epoch_len, epoch). unat slot_remaining)")
    (auto simp: unat_sub_exact word_less_nat_alt word_le_nat_alt)

declare warmup_loop.simps [simp del]

definition get_epoch :: "epoch_schedule \<Rightarrow> u64 \<Rightarrow> u64 outcome" where
  "get_epoch s slot =
     (if slot < es_first_normal_slot s then
        if slot = 0 then Ok 0 else warmup_loop slot 32 0
      else
        let normal_slot_index = slot - es_first_normal_slot s in
        Ok (word_saturating_add (es_first_normal_epoch s)
          (case word_checked_div normal_slot_index (es_slots_per_epoch s) of Some n \<Rightarrow> n | None \<Rightarrow> 0)))"

definition get_first_slot_in_epoch :: "epoch_schedule \<Rightarrow> u64 \<Rightarrow> u64" where
  "get_first_slot_in_epoch s epoch =
     (if epoch \<le> es_first_normal_epoch s then
        if epoch = 0 then 0
        else
          let shift = min (unat epoch) 63 in
          (case word_checked_mul 32 (word_saturating_sub (push_bit shift 1) 1) of Some first \<Rightarrow> first | None \<Rightarrow> - 1)
      else
        let normal_epoch_index = epoch - es_first_normal_epoch s in
        word_saturating_add (es_first_normal_slot s)
          (case word_checked_mul normal_epoch_index (es_slots_per_epoch s) of Some slots \<Rightarrow> slots | None \<Rightarrow> - 1))"

section \<open>The readers against the images\<close>

definition serves :: "get_sysvar \<Rightarrow> string \<Rightarrow> bytes \<Rightarrow> bool" where
  "serves sol sysvar_id img \<longleftrightarrow>
     (\<forall>off n. if off + n \<le> length img then sol sysvar_id off n = (0, bslice off n img) else fst (sol sysvar_id off n) = 1)"

lemma serves_into:
  assumes "serves sol sysvar_id img" and "off + n \<le> length img"
  shows "get_sysvar_into sol sysvar_id off n = Ok (bslice off n img)" "get_sysvar_prefix_at sol sysvar_id off n = Ok (Some (bslice off n img))"
  using assms by (simp_all add: serves_def get_sysvar_into_def get_sysvar_prefix_at_def)

lemma serves_past:
  assumes "serves sol sysvar_id img" and "length img < off + n"
  shows "get_sysvar_prefix_at sol sysvar_id off n = Ok None"
proof -
  have "fst (sol sysvar_id off n) = 1" using assms by (auto simp: serves_def)
  then show ?thesis by (auto simp: get_sysvar_prefix_at_def offset_length_exceeds_sysvar_def split: prod.splits)
qed

definition word_image :: "u64 \<Rightarrow> bytes" where "word_image v = le_enc 8 (unat v)"

lemma length_word_image [simp]: "length (word_image v) = 8" by (simp add: word_image_def)

lemma bslice_past: "length x \<le> off \<Longrightarrow> bslice off n (x @ y) = bslice (off - length x) n y"
  by (simp add: bslice_def)

lemma bslice_Cons: "0 < off \<Longrightarrow> bslice off n (b # y) = bslice (off - 1) n y"
  by (cases off) (simp_all add: bslice_def)

lemma bslice_first: "length x = n \<Longrightarrow> bslice 0 n (x @ y) = x" "length x = n \<Longrightarrow> bslice 0 n x = x"
  by (simp_all add: bslice_def)

lemma le_val_word_image [simp]: "(word_of_nat (le_val (word_image v)) :: u64) = v"
proof -
  have "unat v mod 256 ^ 8 = unat v" using unat_less_power [of v] by simp
  then show ?thesis by (simp add: word_image_def le_val_enc)
qed

lemma rd8_bslice: "off + 8 \<le> length img \<Longrightarrow> rd8 img off = Ok (word_of_nat (le_val (bslice off 8 img)))"
  by (simp add: rd8_def)

lemmas read_fields = rd8_bslice bslice_past bslice_Cons bslice_first nth_append

definition clock_image :: "clock \<Rightarrow> bytes" where
  "clock_image c = word_image (cl_slot c) @ word_image (cl_epoch_start_timestamp c) @ word_image (cl_epoch c) @
     word_image (cl_leader_schedule_epoch c) @ word_image (cl_unix_timestamp c)"

definition rent_image :: "rent \<Rightarrow> bytes" where
  "rent_image r = word_image (lamports_per_byte_year r) @ word_image (exemption_threshold_bits r) @ [burn_percent r]"

definition epoch_schedule_image :: "epoch_schedule \<Rightarrow> bytes" where
  "epoch_schedule_image s = word_image (es_slots_per_epoch s) @ word_image (es_leader_schedule_slot_offset s) @
     [if es_warmup s then 1 else 0] @ word_image (es_first_normal_epoch s) @ word_image (es_first_normal_slot s)"

definition epoch_rewards_image :: "epoch_rewards \<Rightarrow> bytes" where
  "epoch_rewards_image w = word_image (ew_distribution_starting_block_height w) @ word_image (ew_num_partitions w) @
     ew_parent_blockhash w @ le_enc 16 (unat (ew_total_points w)) @ word_image (ew_total_rewards w) @
     word_image (ew_distributed_rewards w) @ [if ew_active w then 1 else 0]"

lemma get_clock_image: "serves sol clock_id (clock_image c) \<Longrightarrow> get_clock sol = Ok c"
  by (simp add: get_clock_def serves_into bslice_first clock_image_def read_fields)

lemma get_rent_image:
  assumes "serves sol rent_id (rent_image r)"
  shows "get_rent sol = Ok r"
proof -
  have "sol rent_id 0 rent_image_len = (0, bslice 0 rent_image_len (rent_image r))"
    using assms by (simp add: serves_def rent_image_def rent_image_len_def)
  then show ?thesis by (simp add: get_rent_def rent_image_len_def bslice_first rent_image_def read_fields)
qed

lemma get_epoch_schedule_image:
  "serves sol epoch_schedule_id (epoch_schedule_image s) \<Longrightarrow> get_epoch_schedule sol = Ok s"
  by (simp add: get_epoch_schedule_def serves_into bslice_first epoch_schedule_image_def epoch_schedule_image_len_def
      decode_epoch_schedule_def read_fields)

lemma le_val_points [simp]: "(word_of_nat (le_val (le_enc 16 (unat p))) :: u128) = p"
proof -
  have "unat p mod 256 ^ 16 = unat p" using unat_less_power [of p] by simp
  then show ?thesis by (simp add: le_val_enc)
qed

lemma get_epoch_rewards_image:
  "length (ew_parent_blockhash w) = 32 \<Longrightarrow> serves sol epoch_rewards_id (epoch_rewards_image w) \<Longrightarrow> get_epoch_rewards sol = Ok w"
  by (simp add: get_epoch_rewards_def serves_into bslice_first epoch_rewards_image_def epoch_rewards_len_def
      decode_epoch_rewards_def read_fields)

definition slot_hashes_image :: "slot_hash list \<Rightarrow> bytes" where
  "slot_hashes_image es = word_image (word_of_nat (length es)) @ concat (List.map (\<lambda>e. word_image (sh_slot e) @ sh_hash e) es)"

definition stake_history_image :: "stake_history_entry list \<Rightarrow> bytes" where
  "stake_history_image es = word_image (word_of_nat (length es)) @
     concat (List.map (\<lambda>e. word_image (st_epoch e) @ word_image (st_effective e) @ word_image (st_activating e) @
       word_image (st_deactivating e)) es)"

definition newest :: "'a list \<Rightarrow> 'a option" where
  "newest es = (case es of [] \<Rightarrow> None | e # _ \<Rightarrow> Some e)"

lemma count_word: "length es < 2 ^ 64 \<Longrightarrow> (word_of_nat (length es) :: u64) = 0 \<longleftrightarrow> es = []"
  by (simp add: word_unat_eq_iff unat_of_nat)

text \<open>The two ways an empty list is found: a count of zero in a long image, or a short image.\<close>

lemma empty_list_read:
  assumes "serves sol sysvar_id (word_image 0 @ rest)"
  shows "empty_list_or_error sol sysvar_id = Ok None"
proof -
  have "le_val (word_image 0) = 0" by (simp add: word_image_def le_val_enc)
  then show ?thesis using assms by (simp add: empty_list_or_error_def serves_into bslice_first)
qed

lemma slot_hashes_latest_image:
  assumes s: "serves sol slot_hashes_id (slot_hashes_image es @ rest)" and l: "list_all (\<lambda>e. length (sh_hash e) = 32) es" "length es < 2 ^ 64"
  shows "slot_hashes_latest sol = Ok (newest es)"
proof (cases es)
  case Nil
  with s have s0: "serves sol slot_hashes_id (word_image 0 @ rest)" by (simp add: slot_hashes_image_def)
  show ?thesis
  proof (cases "40 \<le> length rest")
    case True
    then show ?thesis using Nil
      by (simp add: slot_hashes_latest_def serves_into [OF s0] newest_def rd8_bslice bslice_bslice bslice_first)
  next
    case False
    then show ?thesis using Nil
      by (simp add: slot_hashes_latest_def serves_past [OF s0] newest_def empty_list_read [OF s0])
  qed
next
  case (Cons e es')
  then have h: "length (sh_hash e) = 32" using l by simp
  have "(word_of_nat (length es) :: u64) \<noteq> 0" using count_word [OF l(2)] Cons by simp
  then show ?thesis using h Cons
    by (simp add: slot_hashes_latest_def serves_into [OF s] newest_def slot_hashes_image_def rd8_bslice bslice_bslice bslice_first bslice_past)
qed

lemma stake_history_latest_image:
  assumes s: "serves sol stake_history_id (stake_history_image es @ rest)" and l: "length es < 2 ^ 64"
  shows "stake_history_latest sol = Ok (newest es)"
proof (cases es)
  case Nil
  with s have s0: "serves sol stake_history_id (word_image 0 @ rest)" by (simp add: stake_history_image_def)
  show ?thesis
  proof (cases "32 \<le> length rest")
    case True
    then show ?thesis using Nil
      by (simp add: stake_history_latest_def serves_into [OF s0] newest_def rd8_bslice bslice_bslice bslice_first)
  next
    case False
    then show ?thesis using Nil
      by (simp add: stake_history_latest_def serves_past [OF s0] newest_def empty_list_read [OF s0])
  qed
next
  case (Cons e es')
  have "(word_of_nat (length es) :: u64) \<noteq> 0" using count_word [OF l] Cons by simp
  then show ?thesis using Cons
    by (simp add: stake_history_latest_def serves_into [OF s] newest_def stake_history_image_def rd8_bslice bslice_bslice bslice_first bslice_past)
qed

text \<open>
  Every reader returns the fields of the account image the cluster serves, whatever follows the
  image of a list, and an empty list is no entry, in a short sysvar as in a long one.
\<close>

theorem sysvar_readers_decode:
  assumes "serves sol clock_id (clock_image c)" and "serves sol rent_id (rent_image r)"
    and "serves sol epoch_schedule_id (epoch_schedule_image s)"
    and "length (ew_parent_blockhash w) = 32" and "serves sol epoch_rewards_id (epoch_rewards_image w)"
    and "list_all (\<lambda>e. length (sh_hash e) = 32) hashes" and "length hashes < 2 ^ 64"
    and "serves sol slot_hashes_id (slot_hashes_image hashes @ rest)"
    and "length stakes < 2 ^ 64" and "serves sol stake_history_id (stake_history_image stakes @ rest')"
  shows "get_clock sol = Ok c \<and> get_rent sol = Ok r \<and> get_epoch_schedule sol = Ok s \<and> get_epoch_rewards sol = Ok w \<and>
    slot_hashes_latest sol = Ok (newest hashes) \<and> stake_history_latest sol = Ok (newest stakes)"
  using get_clock_image [OF assms(1)] get_rent_image [OF assms(2)] get_epoch_schedule_image [OF assms(3)]
    get_epoch_rewards_image [OF assms(4,5)] slot_hashes_latest_image [OF assms(8,6,7)] stake_history_latest_image [OF assms(10,9)]
  by blast

text \<open>A cluster given by one image per address.\<close>

definition cluster :: "(string \<Rightarrow> bytes) \<Rightarrow> get_sysvar" where
  "cluster img sysvar_id off n = (if off + n \<le> length (img sysvar_id) then (0, bslice off n (img sysvar_id)) else (1, []))"

lemma cluster_serves: "img sysvar_id = i \<Longrightarrow> serves (cluster img) sysvar_id i"
  by (simp add: serves_def cluster_def)

definition sample_clock :: clock where
  "sample_clock = \<lparr>cl_slot = 400, cl_epoch_start_timestamp = 5, cl_epoch = 3, cl_leader_schedule_epoch = 4, cl_unix_timestamp = 9\<rparr>"
definition sample_rent :: rent where
  "sample_rent = \<lparr>lamports_per_byte_year = 3480, exemption_threshold_bits = threshold_two_bits, burn_percent = 50\<rparr>"
definition sample_schedule :: epoch_schedule where
  "sample_schedule = \<lparr>es_slots_per_epoch = 432000, es_leader_schedule_slot_offset = 432000, es_warmup = True,
     es_first_normal_epoch = 14, es_first_normal_slot = 524256\<rparr>"
definition sample_rewards :: epoch_rewards where
  "sample_rewards = \<lparr>ew_distribution_starting_block_height = 7, ew_num_partitions = 2, ew_parent_blockhash = replicate 32 6,
     ew_total_points = 90, ew_total_rewards = 80, ew_distributed_rewards = 10, ew_active = True\<rparr>"
definition sample_images :: "string \<Rightarrow> bytes" where
  "sample_images sysvar_id =
     (if sysvar_id = clock_id then clock_image sample_clock
      else if sysvar_id = rent_id then rent_image sample_rent
      else if sysvar_id = epoch_schedule_id then epoch_schedule_image sample_schedule
      else if sysvar_id = epoch_rewards_id then epoch_rewards_image sample_rewards
      else if sysvar_id = slot_hashes_id then slot_hashes_image [\<lparr>sh_slot = 8, sh_hash = replicate 32 1\<rparr>] @ []
      else stake_history_image [] @ replicate 99 0)"

lemmas sysvar_ids = clock_id_def rent_id_def epoch_schedule_id_def epoch_rewards_id_def slot_hashes_id_def stake_history_id_def

theorem sysvar_readers_decode_witness:
  "get_rent (cluster sample_images) = Ok sample_rent \<and> get_epoch_schedule (cluster sample_images) = Ok sample_schedule \<and>
   slot_hashes_latest (cluster sample_images) = Ok (Some \<lparr>sh_slot = 8, sh_hash = replicate 32 1\<rparr>) \<and>
   stake_history_latest (cluster sample_images) = Ok None"
  using sysvar_readers_decode [where sol = "cluster sample_images" and c = sample_clock and r = sample_rent and s = sample_schedule
      and w = sample_rewards and hashes = "[\<lparr>sh_slot = 8, sh_hash = replicate 32 1\<rparr>]" and stakes = "[]" and rest = "[]" and rest' = "replicate 99 0"]
  by (simp add: cluster_serves sample_images_def sysvar_ids sample_rewards_def newest_def)

section \<open>Epochs and slots\<close>

text \<open>The first slot of an epoch, exactly; the schedules the cluster builds from its parameters.\<close>

definition warmup_slots :: "nat \<Rightarrow> nat" where "warmup_slots e = 32 * (2 ^ e - 1)"

definition first_slot :: "epoch_schedule \<Rightarrow> nat \<Rightarrow> nat" where
  "first_slot s e =
     (if e \<le> unat (es_first_normal_epoch s) then warmup_slots e
      else unat (es_first_normal_slot s) + (e - unat (es_first_normal_epoch s)) * unat (es_slots_per_epoch s))"

definition schedule_ok :: "epoch_schedule \<Rightarrow> bool" where
  "schedule_ok s \<longleftrightarrow> es_slots_per_epoch s \<noteq> 0 \<and> unat (es_first_normal_epoch s) \<le> 59 \<and>
     unat (es_first_normal_slot s) = warmup_slots (unat (es_first_normal_epoch s))"

lemma warmup_slots_Suc: "warmup_slots (Suc k) = warmup_slots k + 32 * 2 ^ k"
  by (simp add: warmup_slots_def diff_mult_distrib2)

lemma warmup_slots_mono: "a \<le> b \<Longrightarrow> warmup_slots a \<le> warmup_slots b"
  by (simp add: warmup_slots_def diff_le_mono)

lemma warmup_bound: "k \<le> 59 \<Longrightarrow> warmup_slots k < 2 ^ 64 \<and> 32 * 2 ^ k \<le> (2 ^ 64 :: nat)"
proof -
  assume "k \<le> 59"
  then have "(2 :: nat) ^ k \<le> 2 ^ 59" by (intro power_increasing) simp_all
  then show ?thesis by (simp add: warmup_slots_def)
qed

lemma count_epoch:
  assumes "k < 59"
  shows "native_add (word_of_nat k) (1 :: u64) = Ok (word_of_nat (Suc k))"
proof -
  have "k < 2 ^ LENGTH(64)" using assms by simp
  then have "unat (word_of_nat k :: u64) = k" by (rule unat_word_of_nat)
  then have "unat (word_of_nat k :: u64) + unat (1 :: u64) < 2 ^ LENGTH(64)" using assms by (simp only:) simp
  then show ?thesis by (simp only: native_add_eq of_nat_Suc add.commute)
qed

lemma warmup_loop_epoch:
  assumes "unat rest = slot - warmup_slots k" and "warmup_slots k \<le> slot" and "slot < warmup_slots n" and "n \<le> 59"
    and "unat len = 32 * 2 ^ k"
  shows "\<exists>e. warmup_loop rest len (word_of_nat k) = Ok (word_of_nat e) \<and> warmup_slots e \<le> slot \<and> slot < warmup_slots (Suc e) \<and> e < n"
  using assms
proof (induction "n - k" arbitrary: k rest len)
  case 0
  then show ?case using warmup_slots_mono [of n k] by simp
next
  case (Suc d)
  then have kn: "k < n" by simp
  show ?case
  proof (cases "slot < warmup_slots (Suc k)")
    case True
    then have "\<not> len \<le> rest" using Suc.prems by (simp add: word_le_nat_alt warmup_slots_Suc)
    then have "warmup_loop rest len (word_of_nat k) = Ok (word_of_nat k)" by (subst warmup_loop.simps) simp
    then show ?thesis using True Suc.prems(2) kn by blast
  next
    case False
    have n: "Suc k < n" using False Suc.prems(3) kn warmup_slots_mono [of n "Suc k"] by (metis Suc_lessI linorder_not_le)
    have p: "(2 :: nat) ^ k \<le> 2 ^ 57" using n Suc.prems(4) by (intro power_increasing) simp_all
    have le: "len \<le> rest" using False Suc.prems by (simp add: word_le_nat_alt warmup_slots_Suc)
    have pos: "0 < len" using Suc.prems(5) by (simp add: word_less_nat_alt)
    have dbl: "word_checked_mul len 2 = Some (len * 2)" and dv: "unat (len * 2) = 32 * 2 ^ Suc k"
      using Suc.prems(5) p by (simp_all add: unat_mult_exact)
    have count: "native_add (word_of_nat k) (1 :: u64) = Ok (word_of_nat (Suc k))" using count_epoch [of k] n Suc.prems(4) by simp
    have step: "warmup_loop rest len (word_of_nat k) = warmup_loop (rest - len) (len * 2) (word_of_nat (Suc k))"
      using le pos by (subst warmup_loop.simps) (simp only: dbl count obind.simps option.case simp_thms if_True)
    have r: "unat (rest - len) = slot - warmup_slots (Suc k)"
      using unat_sub_exact [OF le] Suc.prems(1,5) by (simp add: warmup_slots_Suc)
    show ?thesis unfolding step
      by (rule Suc.hyps(1)) (use Suc.hyps(2) r False Suc.prems dv in simp_all)
  qed
qed

lemma unat_minus_one: "unat (- 1 :: 'a::len word) = 2 ^ LENGTH('a) - 1"
  by (simp add: unsigned_minus_1_eq_mask mask_eq_exp_minus_1)

lemma saturated_mul:
  "unat (case word_checked_mul a b of Some p \<Rightarrow> p | None \<Rightarrow> - 1) = min (unat a * unat b) (2 ^ LENGTH('a) - 1)"
  for a b :: "'a::len word"
proof (cases "unat a * unat b < 2 ^ LENGTH('a)")
  case False
  then show ?thesis by (simp add: word_checked_mul_def unat_minus_one min_absorb2)
qed (simp add: word_checked_mul_def unat_mult_exact min_absorb1)

lemma saturated_add: "unat (word_saturating_add a b) = min (unat a + unat b) (2 ^ LENGTH('a) - 1)" for a b :: "'a::len word"
  by (auto simp: word_saturating_add_def unat_add_exact unat_minus_one min_def)

lemma unat_warmup: "k \<le> 59 \<Longrightarrow> unat (word_saturating_sub (push_bit k 1) 1 :: u64) = 2 ^ k - 1"
proof -
  assume k: "k \<le> 59"
  then have "(2 :: nat) ^ k \<le> 2 ^ 59" by (intro power_increasing) simp_all
  then have p: "unat (2 ^ k :: u64) = 2 ^ k" using unat_power_exact [of "2 :: u64" k] by simp
  then have "(1 :: u64) \<le> 2 ^ k" by (simp add: word_le_nat_alt)
  then show ?thesis using p by (simp add: word_saturating_sub_def unat_sub_exact push_bit_eq_mult)
qed

lemma first_slot_of_epoch:
  assumes "schedule_ok s"
  shows "unat (get_first_slot_in_epoch s e) = min (first_slot s (unat e)) (2 ^ 64 - 1)"
proof (cases "e \<le> es_first_normal_epoch s")
  case True
  then have e: "unat e \<le> unat (es_first_normal_epoch s)" "unat e \<le> 59"
    using assms by (simp_all add: schedule_ok_def word_le_nat_alt)
  have w: "warmup_slots (unat e) < 2 ^ 64" using warmup_bound [OF e(2)] by simp
  show ?thesis
    using e w saturated_mul [of "32 :: u64" "word_saturating_sub (push_bit (unat e) 1) 1"] unat_warmup [OF e(2)]
    by (auto simp: get_first_slot_in_epoch_def True Let_def first_slot_def min_def warmup_slots_def)
next
  case False
  then have e: "unat (es_first_normal_epoch s) < unat e" "es_first_normal_epoch s \<le> e" by (simp_all add: word_less_nat_alt word_le_nat_alt)
  show ?thesis using e(1)
    by (simp add: get_first_slot_in_epoch_def False Let_def first_slot_def saturated_add saturated_mul unat_sub_exact [OF e(2)])
qed

lemma first_slot_step: "schedule_ok s \<Longrightarrow> first_slot s k < first_slot s (Suc k)"
  by (auto simp: schedule_ok_def first_slot_def warmup_slots_Suc word_unat_eq_iff Suc_diff_le not_less_eq_eq le_Suc_eq)

lemma first_slot_strict: "schedule_ok s \<Longrightarrow> a < b \<Longrightarrow> first_slot s a < first_slot s b"
  by (rule lift_Suc_mono_less [of "first_slot s"]) (rule first_slot_step)

lemma epoch_of_slot:
  assumes ok: "schedule_ok s"
  shows "\<exists>e. get_epoch s slot = Ok e \<and> first_slot s (unat e) \<le> unat slot \<and> unat slot < first_slot s (Suc (unat e))"
proof (cases "slot < es_first_normal_slot s")
  case True
  let ?n = "unat (es_first_normal_epoch s)"
  have n: "?n \<le> 59" "unat slot < warmup_slots ?n" using ok True by (simp_all add: schedule_ok_def word_less_nat_alt)
  have "\<exists>e. warmup_loop slot 32 (word_of_nat 0) = Ok (word_of_nat e) \<and> warmup_slots e \<le> unat slot \<and>
      unat slot < warmup_slots (Suc e) \<and> e < ?n"
    by (rule warmup_loop_epoch) (use n in \<open>simp_all add: warmup_slots_def\<close>)
  then obtain e where e: "warmup_loop slot 32 0 = Ok (word_of_nat e)" "warmup_slots e \<le> unat slot" "unat slot < warmup_slots (Suc e)" "e < ?n"
    by auto
  have "e < 2 ^ LENGTH(64)" using e(4) n(1) by simp
  then have u: "unat (word_of_nat e :: u64) = e" by (rule unat_word_of_nat)
  show ?thesis
  proof (cases "slot = 0")
    case True
    then have "e = 0" using e(2) by (cases e) (simp_all add: warmup_slots_Suc)
    then show ?thesis using e True \<open>slot < _\<close> by (simp add: get_epoch_def first_slot_def)
  next
    case False
    then show ?thesis using e u True by (auto simp: get_epoch_def first_slot_def)
  qed
next
  case False
  let ?n = "unat (es_first_normal_epoch s)" and ?f = "unat (es_first_normal_slot s)" and ?p = "unat (es_slots_per_epoch s)"
  have p: "0 < ?p" "es_slots_per_epoch s \<noteq> 0" and n: "?n \<le> 59" "?f = warmup_slots ?n" using ok by (simp_all add: schedule_ok_def word_unat_eq_iff)
  have le: "es_first_normal_slot s \<le> slot" using False by simp
  let ?i = "(unat slot - ?f) div ?p"
  have idx: "unat (slot - es_first_normal_slot s) = unat slot - ?f" using le by (rule unat_sub_exact)
  have "?n \<le> 2 ^ ?n - 1" using less_exp [of ?n] by linarith
  then have "?n \<le> warmup_slots ?n" by (simp add: warmup_slots_def)
  moreover have "?i \<le> unat slot - ?f" by (rule div_le_dividend)
  moreover have "?f \<le> unat slot" "unat slot < 2 ^ 64" using le unat_less_power [of slot] by (simp_all add: word_le_nat_alt)
  ultimately have small: "?n + ?i < 2 ^ 64" using n(2) by linarith
  let ?e = "word_saturating_add (es_first_normal_epoch s) ((slot - es_first_normal_slot s) div es_slots_per_epoch s)"
  have ue: "unat ?e = ?n + ?i" using small by (simp add: saturated_add unat_div_exact idx)
  have run: "get_epoch s slot = Ok ?e" using False p(2) by (simp add: get_epoch_def Let_def word_checked_div_def)
  have lo: "?f + ?i * ?p \<le> unat slot" using le div_times_less_eq_dividend [of "unat slot - ?f" ?p] unfolding word_le_nat_alt by linarith
  have hi: "unat slot < ?f + (?i + 1) * ?p"
    using dividend_less_div_times [OF p(1), of "unat slot - ?f"] le by (simp add: word_le_nat_alt algebra_simps less_diff_conv)
  have "first_slot s (?n + ?i) = ?f + ?i * ?p" "first_slot s (Suc (?n + ?i)) = ?f + (?i + 1) * ?p"
    by (simp_all add: first_slot_def n(2) Suc_diff_le)
  then show ?thesis using run lo hi ue by (intro exI [of _ ?e]) simp
qed

lemma epoch_interval:
  assumes "schedule_ok s" and "first_slot s a \<le> n" "n < first_slot s (Suc a)" and "first_slot s b \<le> n" "n < first_slot s (Suc b)"
  shows "a = b"
proof (rule ccontr)
  assume "a \<noteq> b"
  then have "Suc a \<le> b \<or> Suc b \<le> a" by auto
  then show False
    using assms(2-5) first_slot_strict [OF assms(1), of "Suc a" b] first_slot_strict [OF assms(1), of "Suc b" a]
    by (auto simp: le_less)
qed

text \<open>
  C21: Epochs and slots convert back and forth. For every schedule the cluster can build, warm-up or
  not, \<^verbatim>\<open>get_epoch\<close> returns the one epoch whose slots contain the given slot, without a panic; the
  first slot of an epoch is exact until it saturates, and lies in that epoch.
\<close>

theorem epoch_arithmetic_inverse:
  assumes "schedule_ok s"
  shows "(\<exists>i. get_epoch s slot = Ok i \<and> (\<forall>k. k = unat i \<longleftrightarrow> first_slot s k \<le> unat slot \<and> unat slot < first_slot s (Suc k))) \<and>
    unat (get_first_slot_in_epoch s e) = min (first_slot s (unat e)) (2 ^ 64 - 1) \<and>
    (first_slot s (unat e) < 2 ^ 64 \<longrightarrow> get_epoch s (get_first_slot_in_epoch s e) = Ok e)"
proof (intro conjI impI)
  show "\<exists>i. get_epoch s slot = Ok i \<and> (\<forall>k. k = unat i \<longleftrightarrow> first_slot s k \<le> unat slot \<and> unat slot < first_slot s (Suc k))"
    using epoch_of_slot [OF assms, of slot] epoch_interval [OF assms] by blast
  show first: "unat (get_first_slot_in_epoch s e) = min (first_slot s (unat e)) (2 ^ 64 - 1)" by (rule first_slot_of_epoch [OF assms])
  assume "first_slot s (unat e) < 2 ^ 64"
  then have slot: "unat (get_first_slot_in_epoch s e) = first_slot s (unat e)" using first by simp
  obtain i where i: "get_epoch s (get_first_slot_in_epoch s e) = Ok i" "first_slot s (unat i) \<le> first_slot s (unat e)"
      "first_slot s (unat e) < first_slot s (Suc (unat i))"
    using epoch_of_slot [OF assms, of "get_first_slot_in_epoch s e"] unfolding slot by blast
  have "unat i = unat e" using epoch_interval [OF assms i(2,3) order_refl first_slot_step [OF assms]] .
  then show "get_epoch s (get_first_slot_in_epoch s e) = Ok e" using i(1) by (simp add: word_unat_eq_iff)
qed

theorem epoch_arithmetic_inverse_witness:
  "unat (get_first_slot_in_epoch sample_schedule 16) = 1388256 \<and> (\<exists>i. get_epoch sample_schedule 1388255 = Ok i \<and> unat i = 15)"
proof -
  have ok: "schedule_ok sample_schedule" by (simp add: schedule_ok_def sample_schedule_def warmup_slots_def)
  have "first_slot sample_schedule 15 = 956256" "first_slot sample_schedule 16 = 1388256"
    by (simp_all add: first_slot_def sample_schedule_def)
  moreover have "Suc 15 = 16" "unat (1388255 :: u64) = 1388255" "unat (16 :: u64) = 16" by simp_all
  moreover note epoch_arithmetic_inverse [OF ok, of 1388255 16]
  ultimately have "unat (get_first_slot_in_epoch sample_schedule 16) = min 1388256 (2 ^ 64 - 1)"
    and "\<exists>i. get_epoch sample_schedule 1388255 = Ok i \<and> (15 = unat i \<longleftrightarrow> 956256 \<le> (1388255 :: nat) \<and> (1388255 :: nat) < 1388256)"
    by metis+
  then show ?thesis by auto
qed

end
