(* ===== verification/SlotHashes.thy ===== *)
theory SlotHashes imports Sysvar begin

text \<open>
  hopper-native/src/slot_hashes.rs: looking up the hash of a slot in the SlotHashes sysvar through a
  few windowed reads, by an interpolation search that halves its range on every other probe. The
  search is a function of the reader, as in the code. Shown: over any reader whatever (a hostile
  or inconsistent image included) it returns without a panic after at most ten reads, and over the
  image of a descending list it gives the answer of the list, reason included.
\<close>

section \<open>The search\<close>

definition window_entries :: nat where "window_entries = 16"
definition entry_len :: nat where "entry_len = 40"
definition max_entries :: nat where "max_entries = 512"
definition header_len :: nat where "header_len = 8"

datatype slot_hash_status = Found bytes | Skipped | TooOld | Ahead

record slot_lookup_result =
  lk_status :: slot_hash_status
  lk_reads :: u8

definition lookup_hash :: "slot_lookup_result \<Rightarrow> bytes option" where
  "lookup_hash r = (case lk_status r of Found hash \<Rightarrow> Some hash | _ \<Rightarrow> None)"

type_synonym reader = "nat \<Rightarrow> nat \<Rightarrow> bytes option outcome"

definition entry_slot :: "bytes \<Rightarrow> nat \<Rightarrow> nat outcome" where
  "entry_slot window index = obind (rd window (index * entry_len) 8) (\<lambda>b. Ok (le_val b))"

definition entry_hash :: "bytes \<Rightarrow> nat \<Rightarrow> bytes outcome" where
  "entry_hash window index = rd window (index * entry_len + 8) 32"

definition read_count :: "bytes \<Rightarrow> nat outcome" where
  "read_count head =
     obind (rd head 0 8) (\<lambda>b.
     let count = le_val b in if count > max_entries then Err UnsupportedSysvar else Ok count)"

function scan_window :: "bytes \<Rightarrow> nat \<Rightarrow> nat \<Rightarrow> bool \<Rightarrow> nat \<Rightarrow> slot_hash_status option outcome" where
  "scan_window window len target newer_before i =
     (if i < len then
        obind (entry_slot window i) (\<lambda>slot.
        if slot = target then obind (entry_hash window i) (\<lambda>hash. Ok (Some (Found hash)))
        else if slot < target then Ok (if i > 0 \<or> newer_before then Some Skipped else None)
        else scan_window window len target newer_before (i + 1))
      else Ok None)"
  by pat_completeness auto
termination by (relation "measure (\<lambda>(window, len, target, newer_before, i). len - i)") auto

declare scan_window.simps [simp del]

text \<open>Unsigned subtraction, which panics below zero.\<close>

definition usize_sub :: "nat \<Rightarrow> nat \<Rightarrow> nat outcome" where
  "usize_sub a b = (if b \<le> a then Ok (a - b) else Trap)"

text \<open>Where the next window starts: the \<^verbatim>\<open>match older\<close> of the loop body.\<close>

definition probe_start :: "nat \<Rightarrow> nat \<Rightarrow> nat \<Rightarrow> nat \<times> nat \<Rightarrow> (nat \<times> nat) option \<Rightarrow> bool \<Rightarrow> nat outcome" where
  "probe_start target lo hi newer older bisect =
     (let span = hi - lo + 1;
          width = (if span < window_entries then span else window_entries);
          highest_start = hi + 1 - width in
      case older of
        None \<Rightarrow> Ok highest_start
      | Some (older_index, older_slot) \<Rightarrow>
          if bisect then Ok (lo + (span - width) div 2)
          else
            obind (usize_sub older_index (fst newer)) (\<lambda>gap.
            obind (usize_sub (snd newer) older_slot) (\<lambda>run.
            obind (usize_sub (snd newer) target) (\<lambda>back.
            if run = 0 then Trap
            else
              let guess = fst newer + back * gap div run; centred = guess - width div 2 in
              Ok (if centred < lo then lo else if centred > highest_start then highest_start else centred)))))"

lemma probe_start_inside:
  assumes "lo \<le> hi" and "probe_start target lo hi newer older bisect = Ok start"
  shows "lo \<le> start \<and> start + (if hi - lo + 1 < window_entries then hi - lo + 1 else window_entries) \<le> hi + 1"
  using assms by (auto simp: probe_start_def Let_def obind_Ok_iff window_entries_def split: option.splits if_splits)

lemma probe_shrinks:
  assumes "lo \<le> hi" and "probe_start target lo hi newer older bisect = Ok start"
  shows "0 < start \<Longrightarrow> start - 1 + 1 - lo < hi + 1 - lo"
    and "hi + 1 - (start + (if hi - lo + 1 < window_entries then hi - lo + 1 else window_entries)) < hi + 1 - lo"
  using assms(1) probe_start_inside [OF assms] by (auto simp: window_entries_def split: if_splits)

function search_loop :: "reader \<Rightarrow> nat \<Rightarrow> nat \<Rightarrow> nat \<Rightarrow> nat \<times> nat \<Rightarrow> (nat \<times> nat) option \<Rightarrow> bool \<Rightarrow> u8 \<Rightarrow> slot_lookup_result outcome" where
  "search_loop read target lo hi newer older bisect reads =
     (if lo \<le> hi then
        let span = hi - lo + 1;
            width = (if span < window_entries then span else window_entries) in
        obind (probe_start target lo hi newer older bisect) (\<lambda>start.
        let bisect = (older \<noteq> None \<and> \<not> bisect);
            reads = word_saturating_add reads 1 in
        obind (read (header_len + start * entry_len) (width * entry_len)) (\<lambda>r.
        case r of
          None \<Rightarrow> Err UnsupportedSysvar
        | Some window \<Rightarrow>
            obind (scan_window window width target (start = lo) 0) (\<lambda>s.
            case s of
              Some status \<Rightarrow> Ok \<lparr>lk_status = status, lk_reads = reads\<rparr>
            | None \<Rightarrow>
                obind (entry_slot window 0) (\<lambda>first_slot.
                if first_slot < target then
                  if start = 0 then Trap
                  else search_loop read target lo (start - 1) newer (Some (start, first_slot)) bisect reads
                else
                  obind (entry_slot window (width - 1)) (\<lambda>last_slot.
                  search_loop read target (start + width) hi (start + width - 1, last_slot) older bisect reads)))))
      else Ok \<lparr>lk_status = (if older \<noteq> None then Skipped else TooOld), lk_reads = reads\<rparr>)"
  by pat_completeness auto
termination
proof (relation "measure (\<lambda>(read, target, lo, hi, newer, older, bisect, reads). hi + 1 - lo)", goal_cases)
  case (2 read target lo hi newer older bisect reads x xa start)
  from probe_shrinks(1) [OF this(1,4)] this(13) show ?case by (simp only: in_measure prod.case neq0_conv)
next
  case (3 read target lo hi newer older bisect reads x xa start)
  from probe_shrinks(2) [OF this(1,4)] show ?case by (simp only: in_measure prod.case 3(2,3))
qed simp

declare search_loop.simps [simp del]

text \<open>The first reads: the count with the newest window, or, in a sysvar shorter than that, the count and then its entries.\<close>

definition read_head :: "reader \<Rightarrow> (nat \<times> bytes \<times> u8) outcome" where
  "read_head read =
     (let head = replicate (header_len + window_entries * entry_len) 0 in
      obind (read 0 (header_len + window_entries * entry_len)) (\<lambda>r.
      case r of
        Some head \<Rightarrow> obind (read_count head) (\<lambda>count. Ok (count, head, 1))
      | None \<Rightarrow>
          obind (read 0 header_len) (\<lambda>r.
          case r of
            None \<Rightarrow> Err UnsupportedSysvar
          | Some b \<Rightarrow>
              obind (wr head 0 b) (\<lambda>head.
              obind (read_count head) (\<lambda>count.
              if count \<ge> window_entries then Err UnsupportedSysvar
              else if count > 0 then
                obind (read 0 (header_len + count * entry_len)) (\<lambda>r.
                case r of
                  None \<Rightarrow> Err UnsupportedSysvar
                | Some b \<Rightarrow> obind (wr head 0 b) (\<lambda>head. Ok (count, head, 3)))
              else Ok (count, head, 2))))))"

definition slot_hash_lookup_with :: "u64 \<Rightarrow> reader \<Rightarrow> slot_lookup_result outcome" where
  "slot_hash_lookup_with target read =
     (let target = unat target in
      obind (read_head read) (\<lambda>(count, head, reads).
      if count = 0 then Ok \<lparr>lk_status = Ahead, lk_reads = reads\<rparr>
      else
        let have_entries = (if count < window_entries then count else window_entries) in
        obind (rd head header_len (have_entries * entry_len)) (\<lambda>window.
        obind (entry_slot window 0) (\<lambda>newest.
        if target > newest then Ok \<lparr>lk_status = Ahead, lk_reads = reads\<rparr>
        else
          obind (scan_window window have_entries target True 0) (\<lambda>s.
          case s of
            Some status \<Rightarrow> Ok \<lparr>lk_status = status, lk_reads = reads\<rparr>
          | None \<Rightarrow>
              if have_entries = count then Ok \<lparr>lk_status = TooOld, lk_reads = reads\<rparr>
              else
                let last_index = count - 1; bound = newest - target;
                    hi = (if bound > last_index then last_index else bound) in
                obind (entry_slot window (have_entries - 1)) (\<lambda>newer_slot.
                search_loop read target have_entries hi (have_entries - 1, newer_slot) None False reads))))))"

definition slot_hash_lookup :: "get_sysvar \<Rightarrow> u64 \<Rightarrow> slot_lookup_result outcome" where
  "slot_hash_lookup sol slot = slot_hash_lookup_with slot (get_sysvar_prefix_at sol slot_hashes_id)"

definition slot_hash_of :: "get_sysvar \<Rightarrow> u64 \<Rightarrow> bytes option outcome" where
  "slot_hash_of sol slot = obind (slot_hash_lookup sol slot) (\<lambda>r. Ok (lookup_hash r))"

section \<open>One step of the search\<close>

definition slot_in :: "bytes \<Rightarrow> nat \<Rightarrow> nat" where "slot_in w j = le_val (bslice (j * entry_len) 8 w)"

lemma entry_slot_in: "j < n \<Longrightarrow> n * entry_len \<le> length w \<Longrightarrow> entry_slot w j = Ok (slot_in w j)"
proof -
  assume "j < n" "n * entry_len \<le> length w"
  then have "Suc j * entry_len \<le> length w" by (meson Suc_leI le_trans mult_le_mono1)
  then show ?thesis by (simp add: entry_slot_def slot_in_def entry_len_def)
qed

lemma entry_hash_in: "j < n \<Longrightarrow> n * entry_len \<le> length w \<Longrightarrow> entry_hash w j = Ok (bslice (j * entry_len + 8) 32 w)"
proof -
  assume "j < n" "n * entry_len \<le> length w"
  then have "Suc j * entry_len \<le> length w" by (meson Suc_leI le_trans mult_le_mono1)
  then show ?thesis by (simp add: entry_hash_def entry_len_def)
qed

text \<open>What a window decides: its first entry that is not newer than the target.\<close>

definition window_status :: "bytes \<Rightarrow> nat \<Rightarrow> bool \<Rightarrow> nat \<Rightarrow> slot_hash_status option" where
  "window_status w target newer_before j =
     (if slot_in w j = target then Some (Found (bslice (j * entry_len + 8) 32 w))
      else if j > 0 \<or> newer_before then Some Skipped else None)"

lemma scan_window_first:
  assumes "len * entry_len \<le> length w"
  shows "scan_window w len target newer_before i =
    Ok (case find (\<lambda>j. slot_in w j \<le> target) [i..<len] of None \<Rightarrow> None | Some j \<Rightarrow> window_status w target newer_before j)"
  using assms
proof (induction w len target newer_before i rule: scan_window.induct)
  case (1 w len target nb i)
  show ?case
  proof (cases "i < len")
    case True
    note e = entry_slot_in [OF True 1(2)] entry_hash_in [OF True 1(2)]
    have up: "[i..<len] = i # [i + 1..<len]" using True by (simp add: upt_conv_Cons)
    have step: "slot_in w i \<noteq> target \<Longrightarrow> \<not> slot_in w i < target \<Longrightarrow> scan_window w len target nb i = scan_window w len target nb (i + 1)"
      using True by (subst scan_window.simps) (simp add: e)
    consider "slot_in w i = target" | "slot_in w i < target" | "target < slot_in w i" by linarith
    then show ?thesis
    proof cases
      case 3
      then show ?thesis using 1(1) [OF True e(1)] 1(2) step up by simp
    qed (use True up in \<open>(subst scan_window.simps, simp add: e window_status_def)+\<close>)
  next
    case False
    then show ?thesis by (subst scan_window.simps) simp
  qed
qed

lemma find_snoc: "find P (xs @ [y]) = (case find P xs of Some x \<Rightarrow> Some x | None \<Rightarrow> if P y then Some y else None)"
  by (induction xs) auto

lemma find_upt_Some:
  "find P [0..<n] = Some j \<longleftrightarrow> j < n \<and> P j \<and> (\<forall>i < j. \<not> P i)"
proof (induction n)
  case (Suc n)
  have "find P [0..<Suc n] = (case find P [0..<n] of Some x \<Rightarrow> Some x | None \<Rightarrow> if P n then Some n else None)"
    by (simp add: find_snoc)
  then show ?case using Suc find_None_iff [of P "[0..<n]"]
    by (cases "find P [0..<n]") (auto simp: less_Suc_eq)
qed simp

text \<open>A reader that fills the buffer it is given, or reports that it cannot.\<close>

definition fills :: "reader \<Rightarrow> bool" where
  "fills read \<longleftrightarrow> (\<forall>off n. read off n \<noteq> Trap \<and> (\<forall>b. read off n = Ok (Some b) \<longrightarrow> length b = n))"

definition search_inv :: "nat \<Rightarrow> nat \<Rightarrow> nat \<Rightarrow> nat \<times> nat \<Rightarrow> (nat \<times> nat) option \<Rightarrow> bool" where
  "search_inv target lo hi newer older \<longleftrightarrow> 0 < lo \<and> fst newer < lo \<and> target < snd newer \<and>
     (case older of None \<Rightarrow> True | Some (oi, os) \<Rightarrow> hi < oi \<and> os < target)"

definition probe_width :: "nat \<Rightarrow> nat \<Rightarrow> nat" where
  "probe_width lo hi = (if hi - lo + 1 < window_entries then hi - lo + 1 else window_entries)"

lemma probe_start_total:
  assumes "search_inv target lo hi newer older" and "lo \<le> hi"
  shows "\<exists>start. probe_start target lo hi newer older bisect = Ok start"
  using assms
  by (auto simp: search_inv_def probe_start_def usize_sub_def Let_def split: option.split)

text \<open>
  One round of the loop: the reader fails, the window decides, or the search goes on to the left
  of a window that is older than the target or to the right of one that is newer.
\<close>

definition window_read :: "reader \<Rightarrow> nat \<Rightarrow> nat \<Rightarrow> nat \<Rightarrow> bytes \<Rightarrow> bool" where
  "window_read read lo hi start w \<longleftrightarrow>
     read (header_len + start * entry_len) (probe_width lo hi * entry_len) = Ok (Some w) \<and>
     length w = probe_width lo hi * entry_len \<and> lo \<le> start \<and> start + probe_width lo hi \<le> hi + 1"

lemma search_step:
  fixes reads :: u8
  assumes fills: "fills read" and inv: "search_inv target lo hi newer older" and le: "lo \<le> hi"
  obtains (failed) e start where "search_loop read target lo hi newer older bisect reads = Err e"
      "start + probe_width lo hi \<le> hi + 1" "\<And>w. read (header_len + start * entry_len) (probe_width lo hi * entry_len) \<noteq> Ok (Some w)"
  | (decided) start w j status where "window_read read lo hi start w" "j < probe_width lo hi" "slot_in w j \<le> target"
      "\<forall>i < j. target < slot_in w i" "window_status w target (start = lo) j = Some status"
      "search_loop read target lo hi newer older bisect reads = Ok \<lparr>lk_status = status, lk_reads = word_saturating_add reads 1\<rparr>"
  | (left) start w where "window_read read lo hi start w" "slot_in w 0 < target" "lo < start"
      "probe_start target lo hi newer older bisect = Ok start"
      "search_loop read target lo hi newer older bisect reads =
       search_loop read target lo (start - 1) newer (Some (start, slot_in w 0)) (older \<noteq> None \<and> \<not> bisect) (word_saturating_add reads 1)"
  | (right) start w where "window_read read lo hi start w" "\<forall>i < probe_width lo hi. target < slot_in w i"
      "probe_start target lo hi newer older bisect = Ok start"
      "search_loop read target lo hi newer older bisect reads =
       search_loop read target (start + probe_width lo hi) hi (start + probe_width lo hi - 1, slot_in w (probe_width lo hi - 1))
         older (older \<noteq> None \<and> \<not> bisect) (word_saturating_add reads 1)"
proof -
  let ?n = "probe_width lo hi"
  obtain start where start: "probe_start target lo hi newer older bisect = Ok start" using probe_start_total [OF inv le] by blast
  have inside: "lo \<le> start" "start + ?n \<le> hi + 1" using probe_start_inside [OF le start] by (simp_all add: probe_width_def)
  have pos: "0 < ?n" "0 < start" using inside(1) inv by (auto simp: probe_width_def window_entries_def search_inv_def)
  let ?r = "read (header_len + start * entry_len) (?n * entry_len)"
  have loop: "search_loop read target lo hi newer older bisect reads =
      obind ?r (\<lambda>r.
        case r of
          None \<Rightarrow> Err UnsupportedSysvar
        | Some window \<Rightarrow>
            obind (scan_window window ?n target (start = lo) 0) (\<lambda>s.
            case s of
              Some status \<Rightarrow> Ok \<lparr>lk_status = status, lk_reads = word_saturating_add reads 1\<rparr>
            | None \<Rightarrow>
                obind (entry_slot window 0) (\<lambda>first_slot.
                if first_slot < target then
                  if start = 0 then Trap
                  else search_loop read target lo (start - 1) newer (Some (start, first_slot)) (older \<noteq> None \<and> \<not> bisect) (word_saturating_add reads 1)
                else
                  obind (entry_slot window (?n - 1)) (\<lambda>last_slot.
                  search_loop read target (start + ?n) hi (start + ?n - 1, last_slot) older (older \<noteq> None \<and> \<not> bisect) (word_saturating_add reads 1)))))"
    unfolding probe_width_def using le start by (subst search_loop.simps) (simp only: Let_def if_True obind.simps)
  show thesis
  proof (cases ?r)
    case (Ok r)
    show thesis
    proof (cases r)
      case None
      then show thesis using loop Ok inside(2) by (intro failed [of UnsupportedSysvar start]) simp_all
    next
      case (Some w)
      then have len: "length w = ?n * entry_len" using fills Ok by (auto simp: fills_def)
      have wr: "window_read read lo hi start w" using Ok Some len inside by (simp add: window_read_def)
      have scan: "scan_window w ?n target (start = lo) 0 =
          Ok (case find (\<lambda>j. slot_in w j \<le> target) [0..<?n] of None \<Rightarrow> None | Some j \<Rightarrow> window_status w target (start = lo) j)"
        by (rule scan_window_first) (simp add: len)
      have ends: "entry_slot w 0 = Ok (slot_in w 0)" "entry_slot w (?n - 1) = Ok (slot_in w (?n - 1))"
        using pos(1) len by (auto intro!: entry_slot_in [of _ ?n])
      show thesis
      proof (cases "find (\<lambda>j. slot_in w j \<le> target) [0..<?n]")
        case None
        then have newer: "\<forall>i < ?n. target < slot_in w i" by (auto simp: find_None_iff not_le)
        then have "\<not> slot_in w 0 < target" using pos(1) by (meson less_asym)
        then show thesis using loop Ok Some scan None ends start by (intro right [OF wr newer]) simp_all
      next
        case (Some j)
        then have j: "j < ?n" "slot_in w j \<le> target" "\<forall>i < j. target < slot_in w i" by (auto simp: find_upt_Some not_le)
        show thesis
        proof (cases "window_status w target (start = lo) j")
          case None
          then have "slot_in w j \<noteq> target" "j = 0" "start \<noteq> lo" by (auto simp: window_status_def split: if_splits)
          then show thesis using loop Ok \<open>r = Some w\<close> scan Some None ends start pos inside j by (intro left [OF wr]) simp_all
        next
          case (Some status)
          then show thesis using loop Ok \<open>r = Some w\<close> scan \<open>find _ _ = Some j\<close> by (intro decided [OF wr j]) simp_all
        qed
      qed
    qed
  next
    case (Err e)
    then show thesis using loop inside(2) by (intro failed [of e start]) simp_all
  next
    case Trap
    then show thesis using fills by (simp add: fills_def)
  qed
qed

lemma search_inv_left:
  "search_inv target lo hi newer older \<Longrightarrow> lo < start \<Longrightarrow> v < target \<Longrightarrow> search_inv target lo (start - 1) newer (Some (start, v))"
  by (auto simp: search_inv_def)

lemma search_inv_right:
  "search_inv target lo hi newer older \<Longrightarrow> lo \<le> start \<Longrightarrow> lo \<le> hi \<Longrightarrow> target < v \<Longrightarrow>
   search_inv target (start + probe_width lo hi) hi (start + probe_width lo hi - 1, v) older"
  by (auto simp: search_inv_def probe_width_def window_entries_def split: option.splits)

section \<open>The number of reads\<close>

text \<open>
  The widest range a search with \<open>k\<close> rounds left is sure to finish: an interpolating round drops
  at least a window, a bisecting one leaves at most half of the rest.
\<close>

fun reach :: "bool \<Rightarrow> nat \<Rightarrow> nat" where
  "reach bisect 0 = 0"
| "reach False (Suc k) = reach True k + 16"
| "reach True (Suc k) = 2 * reach False k + 16"

definition budget :: "(nat \<times> nat) option \<Rightarrow> bool \<Rightarrow> nat \<Rightarrow> nat" where
  "budget older bisect k = (if older = None then (case k of 0 \<Rightarrow> 0 | Suc k' \<Rightarrow> reach False k' + 16) else reach bisect k)"

lemma budget_left:
  assumes "probe_start target lo hi newer older bisect = Ok start" and "lo < start" and "start + probe_width lo hi \<le> hi + 1"
    and "hi + 1 - lo \<le> budget older bisect (Suc k)"
  shows "start - 1 + 1 - lo \<le> budget (Some x) (older \<noteq> None \<and> \<not> bisect) k"
proof (cases "older = None")
  case True
  then show ?thesis using assms by (auto simp: budget_def probe_width_def window_entries_def split: if_splits)
next
  case False
  then show ?thesis using assms
    by (cases bisect) (auto simp: budget_def probe_start_def probe_width_def window_entries_def Let_def split: if_splits)
qed

lemma budget_right:
  assumes "probe_start target lo hi newer older bisect = Ok start" and "lo \<le> start" and "lo \<le> hi"
    and "hi + 1 - lo \<le> budget older bisect (Suc k)"
  shows "hi + 1 - (start + probe_width lo hi) \<le> budget older (older \<noteq> None \<and> \<not> bisect) k"
proof (cases "older = None")
  case True
  then show ?thesis using assms by (auto simp: probe_start_def probe_width_def Let_def split: if_splits)
next
  case False
  then show ?thesis using assms
    by (cases bisect) (auto simp: budget_def probe_start_def probe_width_def window_entries_def Let_def split: if_splits)
qed

lemma saturating_count: "unat (word_saturating_add reads 1 :: u8) \<le> unat reads + 1"
  by (simp add: saturated_add)

lemma search_loop_reads:
  assumes "fills read" and "search_inv target lo hi newer older" and "hi + 1 - lo \<le> budget older bisect k"
  shows "(\<exists>e. search_loop read target lo hi newer older bisect reads = Err e) \<or>
    (\<exists>r. search_loop read target lo hi newer older bisect reads = Ok r \<and> unat (lk_reads r) \<le> unat reads + k)"
  using assms(2,3)
proof (induction k arbitrary: lo hi newer older bisect reads)
  case 0
  have "budget older bisect 0 = 0" by (simp add: budget_def)
  then have "\<not> lo \<le> hi" using 0(2) by simp
  then show ?case by (subst (2) search_loop.simps) simp
next
  case (Suc k)
  show ?case
  proof (cases "lo \<le> hi")
    case True
    have mono: "unat r \<le> unat reads + Suc k" if "unat r \<le> unat (word_saturating_add reads 1) + k" for r :: u8
      using that saturating_count [of reads] by linarith
    show ?thesis
    proof (rule search_step [OF assms(1) Suc.prems(1) True, of bisect reads])
      fix start w assume w: "window_read read lo hi start w" and v: "slot_in w 0 < target" and st: "lo < start" "probe_start target lo hi newer older bisect = Ok start"
        and eq: "search_loop read target lo hi newer older bisect reads =
          search_loop read target lo (start - 1) newer (Some (start, slot_in w 0)) (older \<noteq> None \<and> \<not> bisect) (word_saturating_add reads 1)"
      have "start + probe_width lo hi \<le> hi + 1" using w by (simp add: window_read_def)
      from Suc.IH [OF search_inv_left [OF Suc.prems(1) st(1) v] budget_left [OF st(2,1) this Suc.prems(2)]]
      show ?thesis unfolding eq using mono by fast
    next
      fix start w assume w: "window_read read lo hi start w" and v: "\<forall>i < probe_width lo hi. target < slot_in w i" and st: "probe_start target lo hi newer older bisect = Ok start"
        and eq: "search_loop read target lo hi newer older bisect reads =
          search_loop read target (start + probe_width lo hi) hi (start + probe_width lo hi - 1, slot_in w (probe_width lo hi - 1))
            older (older \<noteq> None \<and> \<not> bisect) (word_saturating_add reads 1)"
      have lo: "lo \<le> start" using w by (simp add: window_read_def)
      have "probe_width lo hi - 1 < probe_width lo hi" by (simp add: probe_width_def window_entries_def)
      then have last: "target < slot_in w (probe_width lo hi - 1)" using v by blast
      from Suc.IH [OF search_inv_right [OF Suc.prems(1) lo True last] budget_right [OF st lo True Suc.prems(2)]]
      show ?thesis unfolding eq using mono by fast
    qed (use saturating_count [of reads] in auto)
  next
    case False
    then show ?thesis by (subst (2) search_loop.simps) simp
  qed
qed

lemma search_rounds: "reach False 8 = 480"
  by (simp add: numeral_eq_Suc)

lemma read_count_cases: "8 \<le> length b \<Longrightarrow> read_count b = (if le_val (bslice 0 8 b) > max_entries then Err UnsupportedSysvar else Ok (le_val (bslice 0 8 b)))"
  by (simp add: read_count_def Let_def)

lemma read_head_cases:
  assumes "fills read"
  obtains (failed) e where "read_head read = Err e"
  | (head) count head reads where "read_head read = Ok (count, head, reads)" "length head = header_len + window_entries * entry_len"
      "count \<le> max_entries" "unat reads \<le> 3" "window_entries \<le> count \<Longrightarrow> reads = 1"
proof -
  let ?long = "header_len + window_entries * entry_len"
  have len: "length b = n" if "read off n = Ok (Some b)" for off n b using assms that by (simp add: fills_def)
  have total: "read off n \<noteq> Trap" for off n using assms by (simp add: fills_def)
  have nums: "header_len = 8" "8 \<le> ?long" "\<And>c. c < window_entries \<Longrightarrow> header_len + c * entry_len \<le> ?long"
    by (simp_all add: header_len_def window_entries_def entry_len_def)
  note defs = read_head_def Let_def
  show thesis
  proof (cases "read 0 ?long")
    case (Ok r)
    show thesis
    proof (cases r)
      case (Some h)
      with Ok have h: "length h = ?long" using len by simp
      then show thesis using Ok Some nums failed head [of "le_val (bslice 0 8 h)" h 1]
        by (cases "le_val (bslice 0 8 h) > max_entries") (simp_all add: defs read_count_cases)
    next
      case None
      note long = Ok [unfolded None]
      show thesis
      proof (cases "read 0 header_len")
        case (Ok r)
        show thesis
        proof (cases r)
          case None
          then show thesis using long Ok failed by (simp add: defs)
        next
          case (Some b)
          with Ok have b: "length b = 8" using len nums(1) by simp
          let ?h = "bsplice 0 b (replicate ?long 0)" and ?c = "le_val (bslice 0 8 (bsplice 0 b (replicate ?long 0)))"
          have w: "wr (replicate ?long 0) 0 b = Ok ?h" "length ?h = ?long" using b nums(2) by simp_all
          then have c: "read_count ?h = (if ?c > max_entries then Err UnsupportedSysvar else Ok ?c)" using nums(2) by (simp add: read_count_cases)
          consider "?c > max_entries \<or> window_entries \<le> ?c" | "?c = 0" | "0 < ?c" "?c < window_entries" "?c \<le> max_entries" by linarith
          then show thesis
          proof cases
            case 1
            then show thesis using long Ok Some w(1) c failed by (auto simp: defs)
          next
            case 2
            then show thesis using long Ok Some w c head [of 0 ?h 2] by (simp add: defs window_entries_def max_entries_def)
          next
            case 3
            then have fits: "header_len + ?c * entry_len \<le> ?long" using nums(3) by blast
            have step: "read_head read =
                obind (read 0 (header_len + ?c * entry_len)) (\<lambda>r.
                case r of None \<Rightarrow> Err UnsupportedSysvar | Some b \<Rightarrow> obind (wr ?h 0 b) (\<lambda>head. Ok (?c, head, 3)))"
              using 3 long Ok Some w(1) c by (simp add: defs)
            show thesis
            proof (cases "read 0 (header_len + ?c * entry_len)")
              case (Ok r')
              show thesis
              proof (cases r')
                case None
                then show thesis using step Ok failed by simp
              next
                case (Some b')
                then have "length b' \<le> ?long" using Ok len fits by simp
                then have "wr ?h 0 b' = Ok (bsplice 0 b' ?h)" "length (bsplice 0 b' ?h) = ?long" using w(2) by simp_all
                then show thesis using step Ok Some 3 head [of ?c "bsplice 0 b' ?h" 3] by simp
              qed
            qed (use step total failed in auto)
          qed
        qed
      qed (use long total failed in \<open>auto simp: defs\<close>)
    qed
  qed (use total failed in \<open>auto simp: defs\<close>)
qed

text \<open>What the first window settles, given the head that was read.\<close>

definition window_answer :: "bytes \<Rightarrow> nat \<Rightarrow> nat \<Rightarrow> slot_hash_status" where
  "window_answer w target j = (if slot_in w j = target then Found (bslice (j * entry_len + 8) 32 w) else Skipped)"

lemma lookup_after_head:
  assumes "read_head read = Ok (count, head, reads)" and "length head = header_len + window_entries * entry_len" and "count \<noteq> 0"
  defines "n \<equiv> (if count < window_entries then count else window_entries)"
  defines "w \<equiv> bslice header_len (n * entry_len) head"
  shows "slot_hash_lookup_with target read =
    (if unat target > slot_in w 0 then Ok \<lparr>lk_status = Ahead, lk_reads = reads\<rparr>
     else case find (\<lambda>j. slot_in w j \<le> unat target) [0..<n] of
       Some j \<Rightarrow> Ok \<lparr>lk_status = window_answer w (unat target) j, lk_reads = reads\<rparr>
     | None \<Rightarrow>
         if n = count then Ok \<lparr>lk_status = TooOld, lk_reads = reads\<rparr>
         else search_loop read (unat target) n (if slot_in w 0 - unat target > count - 1 then count - 1 else slot_in w 0 - unat target)
           (n - 1, slot_in w (n - 1)) None False reads)"
proof -
  have n: "0 < n" "n \<le> window_entries" using assms(3) by (auto simp: n_def window_entries_def)
  then have rd: "rd head header_len (n * entry_len) = Ok w" and w: "length w = n * entry_len"
    using assms(2) mult_le_mono1 [OF n(2), of entry_len] by (simp_all add: w_def)
  have ends: "entry_slot w 0 = Ok (slot_in w 0)" "entry_slot w (n - 1) = Ok (slot_in w (n - 1))"
    using n(1) w by (auto intro!: entry_slot_in [of _ n])
  have scan: "scan_window w n (unat target) True 0 =
      Ok (case find (\<lambda>j. slot_in w j \<le> unat target) [0..<n] of None \<Rightarrow> None | Some j \<Rightarrow> window_status w (unat target) True j)"
    by (rule scan_window_first) (simp add: w)
  have some: "window_status w (unat target) True j = Some (window_answer w (unat target) j)" for j
    by (simp add: window_status_def window_answer_def)
  show ?thesis
    unfolding slot_hash_lookup_with_def Let_def assms(1) obind.simps prod.case n_def [symmetric] rd ends scan
    using assms(3) by (auto simp: some split: option.splits)
qed

lemma lookup_reads:
  assumes fills: "fills read"
  shows "(\<exists>e. slot_hash_lookup_with target read = Err e) \<or>
    (\<exists>r. slot_hash_lookup_with target read = Ok r \<and> unat (lk_reads r) \<le> 10)"
proof (rule read_head_cases [OF fills])
  fix count head and reads :: u8
  assume h: "read_head read = Ok (count, head, reads)" "length head = header_len + window_entries * entry_len"
    and c: "count \<le> max_entries" and r: "unat reads \<le> 3" "window_entries \<le> count \<Longrightarrow> reads = 1"
  show ?thesis
  proof (cases "count = 0")
    case True
    then show ?thesis using h(1) r(1) by (simp add: slot_hash_lookup_with_def Let_def)
  next
    case False
    let ?n = "if count < window_entries then count else window_entries"
    let ?w = "bslice header_len (?n * entry_len) head" and ?t = "unat target"
    note after = lookup_after_head [OF h False, of target]
    show ?thesis
    proof (cases "find (\<lambda>j. slot_in ?w j \<le> ?t) [0..<?n] = None \<and> ?n \<noteq> count \<and> \<not> slot_in ?w 0 < ?t")
      case True
      then have n: "?n = window_entries" "window_entries \<le> count" by (auto split: if_splits)
      let ?hi = "if slot_in ?w 0 - ?t > count - 1 then count - 1 else slot_in ?w 0 - ?t"
      have run: "slot_hash_lookup_with target read =
          search_loop read ?t window_entries ?hi (window_entries - 1, slot_in ?w (window_entries - 1)) None False reads"
        using after True unfolding n(1) by (simp del: if_split)
      have "?t < slot_in ?w (window_entries - 1)"
        using True unfolding n(1) by (auto simp: find_None_iff window_entries_def not_le)
      then have inv: "search_inv ?t window_entries ?hi (window_entries - 1, slot_in ?w (window_entries - 1)) None"
        by (simp add: search_inv_def window_entries_def)
      have fits: "h + 1 - window_entries \<le> budget None False (Suc 8)" if "h \<le> count - 1" for h
        using that c n(2) by (simp add: budget_def search_rounds window_entries_def max_entries_def)
      have "?hi \<le> count - 1" by simp
      note fits [OF this]
      from search_loop_reads [OF fills inv this, of reads] show ?thesis unfolding run using r(2) [OF n(2)] by auto
    next
      case False
      then show ?thesis using r(1) unfolding after by (auto split: option.splits)
    qed
  qed
qed (simp add: slot_hash_lookup_with_def Let_def)

text \<open>
  C19: The lookup cannot fail badly. Whatever the system call returns, as long as a success fills the
  buffer it was given, looking up a slot never panics (no underflow, no division by zero, no index
  out of range, also on images that contradict themselves) and makes at most ten reads.
\<close>

theorem slot_lookup_bounded:
  assumes "\<And>sysvar_id off n. fst (sol sysvar_id off n) = 0 \<Longrightarrow> length (snd (sol sysvar_id off n)) = n"
  shows "slot_hash_lookup sol slot \<noteq> Trap \<and> (\<forall>r. slot_hash_lookup sol slot = Ok r \<longrightarrow> unat (lk_reads r) \<le> 10)"
proof -
  have "fills (get_sysvar_prefix_at sol slot_hashes_id)"
    unfolding fills_def
  proof (intro allI conjI impI)
    fix off n b assume "get_sysvar_prefix_at sol slot_hashes_id off n = Ok (Some b)"
    then show "length b = n" using assms [of slot_hashes_id off n] by (auto simp: get_sysvar_prefix_at_def split: prod.splits if_splits)
  qed (simp add: get_sysvar_prefix_at_def split: prod.split)
  from lookup_reads [OF this, of slot] show ?thesis by (auto simp: slot_hash_lookup_def)
qed

text \<open>A cluster whose image counts 512 entries but repeats one slot number.\<close>

definition odd_image :: "string \<Rightarrow> bytes" where
  "odd_image _ = word_image 512 @ replicate 20480 9"

theorem slot_lookup_bounded_witness:
  "slot_hash_lookup (cluster odd_image) 3 \<noteq> Trap"
proof -
  have "slot_hash_lookup (cluster odd_image) 3 \<noteq> Trap \<and> (\<forall>r. slot_hash_lookup (cluster odd_image) 3 = Ok r \<longrightarrow> unat (lk_reads r) \<le> 10)"
    by (rule slot_lookup_bounded) (auto simp: cluster_def split: if_splits)
  then show ?thesis by blast
qed

section \<open>The answer\<close>

definition descending :: "slot_hash list \<Rightarrow> bool" where
  "descending es \<longleftrightarrow> sorted_wrt (\<lambda>a b. sh_slot b < sh_slot a) es"

text \<open>The answer by definition, from the list itself.\<close>

definition expected_status :: "slot_hash list \<Rightarrow> u64 \<Rightarrow> slot_hash_status" where
  "expected_status es target =
     (case find (\<lambda>e. sh_slot e = target) es of
        Some e \<Rightarrow> Found (sh_hash e)
      | None \<Rightarrow>
          if es = [] \<or> sh_slot (hd es) < target then Ahead
          else if target < sh_slot (last es) then TooOld
          else Skipped)"

lemma descending_nth: "descending es \<Longrightarrow> i < j \<Longrightarrow> j < length es \<Longrightarrow> unat (sh_slot (es ! j)) < unat (sh_slot (es ! i))"
  by (simp add: descending_def sorted_wrt_iff_nth_less word_less_nat_alt)

lemma descending_back: "descending es \<Longrightarrow> j < length es \<Longrightarrow> unat (sh_slot (es ! j)) + j \<le> unat (sh_slot (es ! 0))"
proof (induction j)
  case (Suc j)
  then show ?case using descending_nth [of es j "Suc j"] by simp
qed simp

lemma expected_found:
  assumes "descending es" and "j < length es" and "unat (sh_slot (es ! j)) = unat target"
  shows "expected_status es target = Found (sh_hash (es ! j))"
proof -
  have "find (\<lambda>e. sh_slot e = target) es = Some (es ! j)"
  proof -
    have "sh_slot (es ! i) \<noteq> target" if "i < j" for i using descending_nth [OF assms(1) that assms(2)] assms(3) by auto
    then show ?thesis using assms(2,3) by (auto simp: find_Some_iff word_unat_eq_iff intro!: exI [of _ j])
  qed
  then show ?thesis by (simp add: expected_status_def)
qed

text \<open>Not in the list: everything before \<open>k\<close> is newer, everything from \<open>k\<close> on is older.\<close>

lemma expected_absent:
  assumes d: "descending es" and before: "\<And>i. i < k \<Longrightarrow> unat target < unat (sh_slot (es ! i))" and k: "k \<le> length es"
    and after: "k < length es \<Longrightarrow> unat (sh_slot (es ! k)) < unat target"
  shows "expected_status es target = (if k = 0 then Ahead else if k = length es then TooOld else Skipped)"
proof -
  have after': "unat (sh_slot (es ! i)) < unat target" if "k \<le> i" "i < length es" for i
    using that after descending_nth [OF d, of k i] by (cases "i = k") auto
  have "sh_slot (es ! i) \<noteq> target" if "i < length es" for i
    using before [of i] after' [of i] that by (cases "i < k") auto
  then have find: "find (\<lambda>e. sh_slot e = target) es = None" by (auto simp: find_None_iff in_set_conv_nth)
  show ?thesis
  proof (cases "es = []")
    case False
    then have pos: "length es - 1 < length es" "0 < length es" by simp_all
    have hd: "sh_slot (hd es) < target \<longleftrightarrow> k = 0"
      using before [of 0] after' [of 0] pos(2) False by (cases "k = 0") (auto simp: hd_conv_nth word_less_nat_alt)
    have last: "target < sh_slot (last es) \<longleftrightarrow> k = length es"
    proof (cases "k = length es")
      case True
      then show ?thesis using before [of "length es - 1"] pos False by (simp add: last_conv_nth word_less_nat_alt)
    next
      case ne: False
      then have "unat (sh_slot (es ! (length es - 1))) < unat target" using k by (intro after') simp_all
      then show ?thesis using ne False by (simp add: last_conv_nth word_less_nat_alt)
    qed
    show ?thesis using find False hd last by (simp add: expected_status_def)
  qed (use k find in \<open>simp add: expected_status_def\<close>)
qed

lemma bslice_block:
  assumes "\<And>x. x \<in> set xs \<Longrightarrow> length (f x) = n" and "i < length xs"
  shows "bslice (i * n) n (concat (List.map f xs) @ rest) = f (xs ! i)"
  using assms
proof (induction xs arbitrary: i)
  case (Cons x xs)
  show ?case
  proof (cases i)
    case 0
    then show ?thesis using Cons.prems by (simp add: bslice_first)
  next
    case (Suc i')
    then show ?thesis using Cons by (simp add: bslice_past)
  qed
qed simp

definition image_ok :: "slot_hash list \<Rightarrow> bool" where
  "image_ok es \<longleftrightarrow> descending es \<and> list_all (\<lambda>e. length (sh_hash e) = 32) es \<and> length es \<le> max_entries"

lemma entry_image:
  assumes "image_ok es" and "i < length es"
  shows "bslice (header_len + i * entry_len) entry_len (slot_hashes_image es @ rest) = word_image (sh_slot (es ! i)) @ sh_hash (es ! i)"
proof -
  have "bslice (i * entry_len) entry_len (concat (List.map (\<lambda>e. word_image (sh_slot e) @ sh_hash e) es) @ rest) =
      word_image (sh_slot (es ! i)) @ sh_hash (es ! i)"
    by (rule bslice_block) (use assms in \<open>auto simp: image_ok_def list_all_iff entry_len_def\<close>)
  then show ?thesis by (simp add: slot_hashes_image_def bslice_past header_len_def)
qed

lemma length_slot_hashes_image: "image_ok es \<Longrightarrow> length (slot_hashes_image es) = header_len + length es * entry_len"
proof -
  assume "image_ok es"
  then have "List.map (\<lambda>e. length (word_image (sh_slot e) @ sh_hash e)) es = List.map (\<lambda>_. entry_len) es"
    by (auto simp: image_ok_def list_all_iff entry_len_def)
  then show ?thesis
    by (simp only: slot_hashes_image_def length_append length_word_image length_concat list.map_comp comp_def header_len_def)
      (simp add: sum_list_triv)
qed

text \<open>A window of the image holds consecutive entries of the list.\<close>

lemma window_of_image:
  assumes "image_ok es" and "start + n \<le> length es" and "j < n"
    and w: "w = bslice (header_len + start * entry_len) (n * entry_len) (slot_hashes_image es @ rest)"
  shows "slot_in w j = unat (sh_slot (es ! (start + j)))" "bslice (j * entry_len + 8) 32 w = sh_hash (es ! (start + j))"
proof -
  let ?e = "word_image (sh_slot (es ! (start + j))) @ sh_hash (es ! (start + j))"
  have h: "length (sh_hash (es ! (start + j))) = 32" using assms(1-3) by (simp add: image_ok_def list_all_length)
  have "Suc j * entry_len \<le> n * entry_len" using assms(3) by (intro mult_le_mono1) simp
  then have fit: "j * entry_len + entry_len \<le> n * entry_len" by simp
  have e: "bslice (j * entry_len) entry_len w = ?e"
    using entry_image [OF assms(1), of "start + j" rest] assms(2,3) fit
    by (simp add: w bslice_bslice add_mult_distrib add.assoc)
  have "bslice (j * entry_len) 8 w = bslice 0 8 ?e" unfolding e [symmetric] by (simp add: bslice_bslice entry_len_def)
  then show "slot_in w j = unat (sh_slot (es ! (start + j)))"
    using le_val_word_image [of "sh_slot (es ! (start + j))"] unat_less_power [of "sh_slot (es ! (start + j))"]
    by (simp add: slot_in_def bslice_first word_image_def le_val_enc)
  have "bslice (j * entry_len + 8) 32 w = bslice 8 32 ?e" unfolding e [symmetric] by (simp add: bslice_bslice entry_len_def)
  then show "bslice (j * entry_len + 8) 32 w = sh_hash (es ! (start + j))" using h by (simp add: bslice_past bslice_first)
qed

text \<open>What the loop knows of the list; with nothing older read, the range still reaches the last possible entry.\<close>

definition list_inv :: "slot_hash list \<Rightarrow> u64 \<Rightarrow> nat \<Rightarrow> nat \<Rightarrow> (nat \<times> nat) option \<Rightarrow> bool" where
  "list_inv es target lo hi older \<longleftrightarrow> lo \<le> length es \<and> hi < length es \<and>
     (\<forall>i < lo. unat target < unat (sh_slot (es ! i))) \<and>
     (\<forall>i. hi < i \<longrightarrow> i < length es \<longrightarrow> unat (sh_slot (es ! i)) < unat target) \<and>
     (case older of None \<Rightarrow> hi = length es - 1 \<or> unat (sh_slot (es ! hi)) \<le> unat target
      | Some _ \<Rightarrow> hi + 1 < length es)"

lemma search_done:
  assumes "image_ok es" and inv: "list_inv es target lo hi older" and "\<not> lo \<le> hi" and "0 < lo"
  shows "expected_status es target = (if older \<noteq> None then Skipped else TooOld)"
proof -
  have d: "descending es" using assms(1) by (simp add: image_ok_def)
  have e: "expected_status es target = (if lo = 0 then Ahead else if lo = length es then TooOld else Skipped)"
    by (rule expected_absent [OF d]) (use inv assms(3) in \<open>auto simp: list_inv_def\<close>)
  show ?thesis
  proof (cases older)
    case None
    then have "hi = length es - 1" using inv assms(3) by (auto simp: list_inv_def dest: spec [of _ hi])
    then show ?thesis using e None inv assms(3,4) by (auto simp: list_inv_def)
  next
    case (Some x)
    have "lo \<noteq> length es"
    proof
      assume "lo = length es"
      then have "unat target < unat (sh_slot (es ! (hi + 1)))" "unat (sh_slot (es ! (hi + 1))) < unat target"
        using inv Some by (simp_all add: list_inv_def)
      then show False by simp
    qed
    then show ?thesis using e Some assms(4) by simp
  qed
qed

lemma serves_fills: "serves sol sysvar_id img \<Longrightarrow> fills (get_sysvar_prefix_at sol sysvar_id)"
proof -
  assume serves: "serves sol sysvar_id img"
  have "length b = n" if "get_sysvar_prefix_at sol sysvar_id off n = Ok (Some b)" for off n b
    using serves_into(2) [OF serves, of off n] serves_past [OF serves, of off n] that by (cases "off + n \<le> length img") auto
  moreover have "get_sysvar_prefix_at sol sysvar_id off n \<noteq> Trap" for off n by (simp add: get_sysvar_prefix_at_def split: prod.split)
  ultimately show ?thesis by (simp add: fills_def)
qed

lemma decided_answer:
  assumes d: "descending es" and inv: "list_inv es target lo hi older" and lo: "lo \<le> start" "0 < lo" and j: "start + j < length es"
    and win: "\<And>i. i \<le> j \<Longrightarrow> slot_in w i = unat (sh_slot (es ! (start + i)))" "bslice (j * entry_len + 8) 32 w = sh_hash (es ! (start + j))"
    and first: "slot_in w j \<le> unat target" "\<forall>i < j. unat target < slot_in w i"
    and st: "window_status w (unat target) (start = lo) j = Some status"
  shows "expected_status es target = status"
proof (cases "slot_in w j = unat target")
  case True
  then show ?thesis using expected_found [OF d j] st win by (simp add: window_status_def)
next
  case False
  then have place: "j > 0 \<or> start = lo" "status = Skipped" using st by (auto simp: window_status_def split: if_splits)
  have "unat target < unat (sh_slot (es ! i))" if i: "i < start + j" for i
  proof (cases "j > 0")
    case True
    then have "unat target < slot_in w (j - 1)" using first(2) by simp
    then have "unat target < unat (sh_slot (es ! (start + (j - 1))))" using win(1) [of "j - 1"] by simp
    moreover have "i < start + (j - 1) \<or> i = start + (j - 1)" "start + (j - 1) < length es" using i j True by auto
    ultimately show ?thesis using descending_nth [OF d, of i "start + (j - 1)"] by auto
  next
    case False
    then show ?thesis using place(1) i inv by (simp add: list_inv_def)
  qed
  then show ?thesis
    using expected_absent [OF d, of "start + j" target] j lo place(2) first(1) win(1) [of j] False by auto
qed

lemma search_loop_answer:
  assumes ok: "image_ok es" and serves: "serves sol slot_hashes_id (slot_hashes_image es @ rest)"
    and "search_inv (unat target) lo hi newer older" and "list_inv es target lo hi older"
  shows "\<exists>r. search_loop (get_sysvar_prefix_at sol slot_hashes_id) (unat target) lo hi newer older bisect reads = Ok r \<and>
    lk_status r = expected_status es target"
  using assms(3,4)
proof (induction "hi + 1 - lo" arbitrary: lo hi newer older bisect reads rule: less_induct)
  case less
  let ?read = "get_sysvar_prefix_at sol slot_hashes_id" and ?t = "unat target"
  have d: "descending es" using ok by (simp add: image_ok_def)
  have fills: "fills ?read" by (rule serves_fills [OF serves])
  show ?case
  proof (cases "lo \<le> hi")
    case True
    let ?n = "probe_width lo hi"
    have n: "0 < ?n" by (simp add: probe_width_def window_entries_def)
    have hi: "hi < length es" using less.prems(2) by (simp add: list_inv_def)
    have win: "slot_in w j = unat (sh_slot (es ! (start + j)))" "bslice (j * entry_len + 8) 32 w = sh_hash (es ! (start + j))"
        "start + j < length es" if wr: "window_read ?read lo hi start w" and j: "j < ?n" for start w j
    proof -
      have inside: "start + ?n \<le> length es" using wr hi by (simp add: window_read_def)
      have "header_len + start * entry_len + ?n * entry_len \<le> length (slot_hashes_image es @ rest)"
        using mult_le_mono1 [OF inside, of entry_len] by (simp add: length_slot_hashes_image [OF ok] add_mult_distrib)
      then have "w = bslice (header_len + start * entry_len) (?n * entry_len) (slot_hashes_image es @ rest)"
        using wr serves_into(2) [OF serves] by (simp add: window_read_def)
      from window_of_image [OF ok inside j this] inside j
      show "slot_in w j = unat (sh_slot (es ! (start + j)))" "bslice (j * entry_len + 8) 32 w = sh_hash (es ! (start + j))"
        "start + j < length es" by simp_all
    qed
    show ?thesis
    proof (rule search_step [OF fills less.prems(1) True, of bisect reads])
      fix e start assume "start + ?n \<le> hi + 1" and no: "\<And>w. ?read (header_len + start * entry_len) (?n * entry_len) \<noteq> Ok (Some w)"
      then have "header_len + start * entry_len + ?n * entry_len \<le> length (slot_hashes_image es @ rest)"
        using mult_le_mono1 [of "start + ?n" "length es" entry_len] hi by (simp add: length_slot_hashes_image [OF ok] add_mult_distrib)
      then show ?thesis using no serves_into(2) [OF serves] by blast
    next
      fix start w j status
      assume wr: "window_read ?read lo hi start w" and j: "j < ?n" "slot_in w j \<le> ?t" "\<forall>i < j. ?t < slot_in w i"
        and st: "window_status w ?t (start = lo) j = Some status"
        and run: "search_loop ?read ?t lo hi newer older bisect reads = Ok \<lparr>lk_status = status, lk_reads = word_saturating_add reads 1\<rparr>"
      have "expected_status es target = status"
      proof (rule decided_answer [OF d less.prems(2)])
        show "lo \<le> start" "0 < lo" using wr less.prems(1) by (simp_all add: window_read_def search_inv_def)
        show "start + j < length es" by (rule win(3) [OF wr j(1)])
        show "\<And>i. i \<le> j \<Longrightarrow> slot_in w i = unat (sh_slot (es ! (start + i)))" "bslice (j * entry_len + 8) 32 w = sh_hash (es ! (start + j))"
          using win [OF wr] j(1) by simp_all
      qed (fact j st)+
      then show ?thesis using run by simp
    next
      fix start w
      assume wr: "window_read ?read lo hi start w" and v: "slot_in w 0 < ?t" and st: "lo < start"
        and run: "search_loop ?read ?t lo hi newer older bisect reads =
          search_loop ?read ?t lo (start - 1) newer (Some (start, slot_in w 0)) (older \<noteq> None \<and> \<not> bisect) (word_saturating_add reads 1)"
      have s: "unat (sh_slot (es ! start)) < ?t" "start < length es" using win(1,3) [OF wr n] v by simp_all
      have "unat (sh_slot (es ! i)) < ?t" if "start - 1 < i" "i < length es" for i
      proof (cases "i = start")
        case False
        then have "start < i" using that(1) by simp
        then show ?thesis using descending_nth [OF d, of start i] s that by simp
      qed (use s in simp)
      then have "list_inv es target lo (start - 1) (Some (start, slot_in w 0))" using less.prems(2) s st by (simp add: list_inv_def)
      moreover have "start + ?n \<le> hi + 1" using wr by (simp add: window_read_def)
      then have "start - 1 + 1 - lo < hi + 1 - lo" using st n by linarith
      ultimately show ?thesis unfolding run by (intro less.hyps search_inv_left [OF less.prems(1) st v])
    next
      fix start w
      assume wr: "window_read ?read lo hi start w" and v: "\<forall>i < ?n. ?t < slot_in w i"
        and run: "search_loop ?read ?t lo hi newer older bisect reads =
          search_loop ?read ?t (start + ?n) hi (start + ?n - 1, slot_in w (?n - 1)) older (older \<noteq> None \<and> \<not> bisect) (word_saturating_add reads 1)"
      let ?m = "start + (?n - 1)"
      have last: "?t < slot_in w (?n - 1)" using v n by simp
      have s: "?t < unat (sh_slot (es ! ?m))" "?m < length es" using win(1,3) [OF wr, of "?n - 1"] n last by simp_all
      have "?t < unat (sh_slot (es ! i))" if "i < start + ?n" for i
      proof (cases "i = ?m")
        case False
        then have "i < ?m" using that by linarith
        then show ?thesis using descending_nth [OF d, of i ?m] s by simp
      qed (use s in simp)
      then have "list_inv es target (start + ?n) hi older" using less.prems(2) s n by (simp add: list_inv_def)
      moreover have "lo \<le> start" "start + ?n \<le> hi + 1" using wr by (simp_all add: window_read_def)
      moreover from this have "hi + 1 - (start + ?n) < hi + 1 - lo" using n True by linarith
      ultimately show ?thesis unfolding run by (intro less.hyps search_inv_right [OF less.prems(1) _ True last])
    qed
  next
    case False
    have "0 < lo" using less.prems(1) by (simp add: search_inv_def)
    from search_done [OF ok less.prems(2) False this] False show ?thesis by (subst search_loop.simps) simp
  qed
qed

text \<open>The head of an honest image: its count, and the newest window.\<close>

lemma read_head_image:
  assumes ok: "image_ok es" and serves: "serves sol slot_hashes_id (slot_hashes_image es @ rest)"
  shows "\<exists>head reads. read_head (get_sysvar_prefix_at sol slot_hashes_id) = Ok (length es, head, reads) \<and>
    length head = header_len + window_entries * entry_len \<and>
    (let n = (if length es < window_entries then length es else window_entries) in
     bslice header_len (n * entry_len) head = bslice header_len (n * entry_len) (slot_hashes_image es @ rest))"
proof -
  let ?img = "slot_hashes_image es @ rest" and ?long = "header_len + window_entries * entry_len"
  let ?read = "get_sysvar_prefix_at sol slot_hashes_id"
  have len: "length es \<le> 512" and img: "length ?img = header_len + length es * entry_len + length rest"
    using ok by (simp_all add: image_ok_def max_entries_def length_slot_hashes_image [OF ok])
  have nums: "header_len = 8" "8 \<le> ?long" by (simp_all add: header_len_def window_entries_def entry_len_def)
  have "bslice 0 8 ?img = word_image (word_of_nat (length es))" by (simp add: slot_hashes_image_def bslice_first)
  moreover have "unat (word_of_nat (length es) :: u64) = length es" using len by (intro unat_word_of_nat) simp
  ultimately have count: "le_val (bslice 0 8 ?img) = length es" using len by (simp add: word_image_def le_val_enc del: bslice_take_drop)
  have rc: "read_count b = Ok (length es)" if "8 \<le> length b" "bslice 0 8 b = bslice 0 8 ?img" for b
    using that count len by (simp add: read_count_cases max_entries_def)
  show ?thesis
  proof (cases "?long \<le> length ?img")
    case True
    let ?h = "bslice 0 ?long ?img"
    have h: "length ?h = ?long" "bslice 0 8 ?h = bslice 0 8 ?img" using True nums(2) by (simp_all add: bslice_bslice)
    have "read_head ?read = Ok (length es, ?h, 1)"
      using serves_into(2) [OF serves, of 0 ?long] True rc [of ?h] h nums(2) by (simp add: read_head_def Let_def)
    moreover have "bslice header_len (n * entry_len) ?h = bslice header_len (n * entry_len) ?img" if "n \<le> window_entries" for n
      using mult_le_mono1 [OF that, of entry_len] by (simp add: bslice_bslice)
    ultimately show ?thesis using h(1) by (auto simp: Let_def)
  next
    case False
    then have small: "length es < window_entries" using img by (simp add: window_entries_def entry_len_def header_len_def)
    let ?m = "header_len + length es * entry_len" and ?z = "replicate ?long 0 :: bytes"
    have m: "?m \<le> length ?img" "?m \<le> ?long" "8 \<le> ?m" using img mult_le_mono1 [OF less_imp_le [OF small], of entry_len] nums(1) by simp_all
    let ?h = "bsplice 0 (bslice 0 8 ?img) ?z"
    have h: "length ?h = ?long" "bslice 0 8 ?h = bslice 0 8 ?img" using m nums by (simp_all add: bslice_bsplice_eq)
    have long: "?read 0 ?long = Ok None" using serves_past [OF serves, of 0 ?long] False by simp
    have short: "?read 0 header_len = Ok (Some (bslice 0 8 ?img))" using serves_into(2) [OF serves, of 0 8] m nums(1) by simp
    have w1: "wr ?z 0 (bslice 0 8 ?img) = Ok ?h" using m nums by simp
    show ?thesis
    proof (cases "length es = 0")
      case True
      have "read_head ?read = Ok (length es, ?h, 2)"
        using long short w1 rc [of ?h] h nums(2) True by (simp add: read_head_def Let_def window_entries_def)
      then show ?thesis using h(1) True by (auto simp: Let_def bslice_def)
    next
      case False
      have full: "?read 0 ?m = Ok (Some (bslice 0 ?m ?img))" using serves_into(2) [OF serves, of 0 ?m] m(1) by simp
      have w2: "wr ?h 0 (bslice 0 ?m ?img) = Ok (bsplice 0 (bslice 0 ?m ?img) ?h)" using m h(1) by simp
      have "read_head ?read = Ok (length es, bsplice 0 (bslice 0 ?m ?img) ?h, 3)"
        using long short w1 rc [of ?h] h nums(2) False small full w2 by (simp add: read_head_def Let_def)
      moreover have "bslice header_len (length es * entry_len) (bsplice 0 (bslice 0 ?m ?img) ?h) =
          bslice header_len (length es * entry_len) ?img"
        using m h(1) by (simp add: bslice_bsplice_inside bslice_bslice)
      moreover have "length (bsplice 0 (bslice 0 ?m ?img) ?h) = ?long" using m h(1) by simp
      ultimately show ?thesis using small by (auto simp: Let_def)
    qed
  qed
qed

lemma lookup_answer:
  assumes ok: "image_ok es" and serves: "serves sol slot_hashes_id (slot_hashes_image es @ rest)"
  shows "\<exists>r. slot_hash_lookup sol target = Ok r \<and> lk_status r = expected_status es target"
proof -
  let ?read = "get_sysvar_prefix_at sol slot_hashes_id" and ?t = "unat target"
  let ?n = "if length es < window_entries then length es else window_entries"
  have d: "descending es" using ok by (simp add: image_ok_def)
  obtain head reads where h: "read_head ?read = Ok (length es, head, reads)" "length head = header_len + window_entries * entry_len"
    and same: "bslice header_len (?n * entry_len) head = bslice header_len (?n * entry_len) (slot_hashes_image es @ rest)"
    using read_head_image [OF assms] by (auto simp: Let_def)
  show ?thesis
  proof (cases "es = []")
    case True
    then show ?thesis using h(1) by (simp add: slot_hash_lookup_def slot_hash_lookup_with_def Let_def expected_status_def)
  next
    case False
    then have ne: "length es \<noteq> 0" by simp
    let ?w = "bslice header_len (?n * entry_len) head"
    have n: "0 < ?n" "?n \<le> length es" using ne by (auto simp: window_entries_def)
    have win: "slot_in ?w j = unat (sh_slot (es ! j))" "bslice (j * entry_len + 8) 32 ?w = sh_hash (es ! j)" if "j < ?n" for j
      using window_of_image [OF ok _ that, of 0 ?w rest] n(2) same by simp_all
    note after = lookup_after_head [OF h ne, of target, folded slot_hash_lookup_def]
    consider (ahead) "slot_in ?w 0 < ?t"
      | (decided) j where "\<not> slot_in ?w 0 < ?t" "find (\<lambda>j. slot_in ?w j \<le> ?t) [0..<?n] = Some j"
      | (newer) "\<not> slot_in ?w 0 < ?t" "find (\<lambda>j. slot_in ?w j \<le> ?t) [0..<?n] = None" by (cases "find (\<lambda>j. slot_in ?w j \<le> ?t) [0..<?n]") auto
    then show ?thesis
    proof cases
      case ahead
      then have "expected_status es target = Ahead" using expected_absent [OF d, of 0 target] win(1) [of 0] n by simp
      then show ?thesis using after ahead by simp
    next
      case (decided j)
      then have j: "j < ?n" "slot_in ?w j \<le> ?t" "\<forall>i < j. ?t < slot_in ?w i" by (simp_all add: find_upt_Some not_le)
      have "window_answer ?w ?t j = expected_status es target"
      proof (cases "slot_in ?w j = ?t")
        case True
        then show ?thesis using expected_found [OF d, of j target] win [OF j(1)] j(1) n(2) by (simp add: window_answer_def)
      next
        case False
        then have "j \<noteq> 0" using j(2) decided(1) by (cases j) auto
        moreover have "?t < unat (sh_slot (es ! i))" if i: "i < j" for i
          using j(3) i win(1) [OF less_trans [OF i j(1)]] by metis
        ultimately show ?thesis
          using expected_absent [OF d, of j target] False j n(2) win(1) [OF j(1)] by (simp add: window_answer_def)
      qed
      then show ?thesis using after decided by simp
    next
      case newer
      have before: "?t < unat (sh_slot (es ! i))" if "i < ?n" for i
        using newer(2) win(1) [OF that] that by (auto simp: find_None_iff not_le)
      show ?thesis
      proof (cases "?n = length es")
        case True
        then have "expected_status es target = TooOld" using expected_absent [OF d, of "length es" target] before ne by simp
        then show ?thesis using after newer True by simp
      next
        case False
        then have n16: "?n = window_entries" "window_entries < length es" by (auto split: if_splits)
        let ?b = "slot_in ?w 0 - ?t" let ?hi = "if ?b > length es - 1 then length es - 1 else ?b"
        have s0: "slot_in ?w 0 = unat (sh_slot (es ! 0))" "?t < unat (sh_slot (es ! 0))" using win(1) [of 0] before [of 0] n by simp_all
        have "list_inv es target window_entries ?hi None"
        proof -
          have "unat (sh_slot (es ! i)) < ?t" if "?b < i" "i < length es" for i
            using descending_back [OF d that(2)] that(1) s0 by linarith
          moreover have "?hi = length es - 1 \<or> unat (sh_slot (es ! ?hi)) \<le> ?t"
          proof (cases "?b > length es - 1")
            case b: False
            then have "?b < length es" using ne by linarith
            from descending_back [OF d this] have "unat (sh_slot (es ! ?b)) \<le> ?t" using s0 by linarith
            then show ?thesis using b by simp
          qed simp
          ultimately show ?thesis using before n16 ne unfolding list_inv_def n16(1) by auto
        qed
        moreover have "search_inv ?t window_entries ?hi (window_entries - 1, slot_in ?w (window_entries - 1)) None"
          using before [of "window_entries - 1"] win(1) [of "window_entries - 1"] unfolding n16(1)
          by (simp add: search_inv_def window_entries_def)
        ultimately show ?thesis
          using search_loop_answer [OF ok serves, of target window_entries ?hi "(window_entries - 1, slot_in ?w (window_entries - 1))" None False reads]
            after newer False unfolding n16(1) by simp
      qed
    qed
  qed
qed

text \<open>
  C12: The lookup answers what the list says. When the cluster serves the image of a list of at most
  512 entries with strictly descending slots, then for every slot the status is the list's: the
  hash of the slot, or that it was skipped, is older than the list, or is ahead of it; and it takes
  at most ten reads.
\<close>

theorem slot_lookup_answers_the_list:
  assumes "image_ok es" and "serves sol slot_hashes_id (slot_hashes_image es @ rest)"
  shows "(\<exists>reads. slot_hash_lookup sol target = Ok \<lparr>lk_status = expected_status es target, lk_reads = reads\<rparr> \<and> unat reads \<le> 10) \<and>
    slot_hash_of sol target = Ok (map_option sh_hash (find (\<lambda>e. sh_slot e = target) es))"
proof -
  obtain r where r: "slot_hash_lookup sol target = Ok r" "lk_status r = expected_status es target" using lookup_answer [OF assms] by blast
  moreover have "unat (lk_reads r) \<le> 10" using lookup_reads [OF serves_fills [OF assms(2)], of target] r(1) by (auto simp: slot_hash_lookup_def)
  moreover have "lookup_hash r = map_option sh_hash (find (\<lambda>e. sh_slot e = target) es)"
    by (simp add: lookup_hash_def r(2) expected_status_def split: option.split)
  moreover have "r = \<lparr>lk_status = expected_status es target, lk_reads = lk_reads r\<rparr>" using r(2) by simp
  ultimately show ?thesis by (auto simp: slot_hash_of_def intro!: exI [of _ "lk_reads r"])
qed

text \<open>A sparse list of twenty slots, six apart; the windowed reads must search for the older ones.\<close>

definition sparse_list :: "slot_hash list" where
  "sparse_list = List.map (\<lambda>i. \<lparr>sh_slot = word_of_nat (900 - 6 * i), sh_hash = replicate 32 (word_of_nat i)\<rparr>) [0..<20]"

theorem slot_lookup_answers_the_list_witness:
  "slot_hash_of (cluster (\<lambda>_. slot_hashes_image sparse_list @ [])) 792 = Ok (Some (replicate 32 18)) \<and>
   slot_hash_of (cluster (\<lambda>_. slot_hashes_image sparse_list @ [])) 793 = Ok None"
proof -
  have "image_ok sparse_list"
    by (simp add: image_ok_def descending_def sparse_list_def upt_rec max_entries_def)
  from slot_lookup_answers_the_list [OF this, of "cluster (\<lambda>_. slot_hashes_image sparse_list @ [])" "[]"]
  have "slot_hash_of (cluster (\<lambda>_. slot_hashes_image sparse_list @ [])) t =
      Ok (map_option sh_hash (find (\<lambda>e. sh_slot e = t) sparse_list))" for t
    using cluster_serves [OF refl] by blast
  moreover have "find (\<lambda>e. sh_slot e = 792) sparse_list = Some \<lparr>sh_slot = 792, sh_hash = replicate 32 18\<rparr>"
    "find (\<lambda>e. sh_slot e = 793) sparse_list = None"
    by (simp_all add: sparse_list_def upt_rec)
  ultimately show ?thesis by simp
qed

end
