(* ===== verification/TokenExt.thy ===== *)
theory TokenExt imports AccountView begin

text \<open>
  hopper-runtime/src/token_2022_ext.rs: readers of the type-length-value region of Token-2022 mints
  and token accounts, and the policies over it. Shown: the validators accept exactly the streams
  of well-formed entries (with the end marker and the trailing byte Token-2022 permits), on every
  such stream the readers answer as the list of its entries, and no reader panics on any bytes.
\<close>

section \<open>The stream\<close>

definition ext_uninitialized :: u16 where "ext_uninitialized = 0"
definition ext_transfer_fee_config :: u16 where "ext_transfer_fee_config = 1"
definition ext_mint_close_authority :: u16 where "ext_mint_close_authority = 3"
definition ext_confidential_transfer_mint :: u16 where "ext_confidential_transfer_mint = 4"
definition ext_confidential_transfer_account :: u16 where "ext_confidential_transfer_account = 5"
definition ext_default_account_state :: u16 where "ext_default_account_state = 6"
definition ext_immutable_owner :: u16 where "ext_immutable_owner = 7"
definition ext_non_transferable :: u16 where "ext_non_transferable = 9"
definition ext_interest_bearing_config :: u16 where "ext_interest_bearing_config = 10"
definition ext_cpi_guard :: u16 where "ext_cpi_guard = 11"
definition ext_permanent_delegate :: u16 where "ext_permanent_delegate = 12"
definition ext_transfer_hook :: u16 where "ext_transfer_hook = 14"
definition ext_metadata_pointer :: u16 where "ext_metadata_pointer = 18"
definition ext_scaled_ui_amount_config :: u16 where "ext_scaled_ui_amount_config = 25"
definition max_known_extension_type :: u16 where "max_known_extension_type = 28"
definition account_type_mint :: u8 where "account_type_mint = 1"
definition account_type_token :: u8 where "account_type_token = 2"
definition base_mint_len :: nat where "base_mint_len = 82"
definition base_token_len :: nat where "base_token_len = 165"
definition token_multisig_len :: nat where "token_multisig_len = 355"
definition account_type_offset :: nat where "account_type_offset = base_token_len"
definition tlv_offset :: nat where "tlv_offset = account_type_offset + 1"

text \<open>\<^verbatim>\<open>u16::from_le_bytes([b[i], b[i + 1]])\<close>.\<close>

definition rd_u16 :: "bytes \<Rightarrow> nat \<Rightarrow> u16 outcome" where
  "rd_u16 d i = obind (rd d i 2) (\<lambda>b. Ok (word_of_nat (le_val b)))"

function find_loop :: "bytes \<Rightarrow> u16 \<Rightarrow> nat \<Rightarrow> bytes option outcome" where
  "find_loop tlv ext_type cursor =
     (if cursor + 4 \<le> length tlv then
        obind (rd_u16 tlv cursor) (\<lambda>t.
        obind (rd_u16 tlv (cursor + 2)) (\<lambda>len.
        let data_start = cursor + 4; data_end = data_start + unat len in
        if data_end > length tlv then Ok None
        else if t = ext_type then obind (rd tlv data_start (unat len)) (\<lambda>b. Ok (Some b))
        else if t = ext_uninitialized then Ok None
        else find_loop tlv ext_type data_end))
      else Ok None)"
  by pat_completeness auto
termination by (relation "measure (\<lambda>(tlv, ext_type, cursor). length tlv - cursor)") auto

definition find_extension :: "bytes \<Rightarrow> u16 \<Rightarrow> bytes option outcome" where
  "find_extension tlv ext_type = find_loop tlv ext_type 0"

text \<open>One header of a validator's walk: where the walk ends, or the type and the next cursor.\<close>

function structure_loop :: "bytes \<Rightarrow> nat \<Rightarrow> unit outcome" where
  "structure_loop tlv cursor =
     (if cursor < length tlv then
        if length tlv - cursor < 2 then Ok ()
        else
          obind (rd_u16 tlv cursor) (\<lambda>ext_type.
          if ext_type = ext_uninitialized then Ok ()
          else if length tlv - cursor < 4 then Err InvalidAccountData
          else
            obind (rd_u16 tlv (cursor + 2)) (\<lambda>len.
            if cursor + 4 + unat len > length tlv then Err InvalidAccountData
            else structure_loop tlv (cursor + 4 + unat len)))
      else Ok ())"
  by pat_completeness auto
termination by (relation "measure (\<lambda>(tlv, cursor). length tlv - cursor)") auto

definition validate_tlv_structure :: "bytes \<Rightarrow> unit outcome" where
  "validate_tlv_structure tlv = structure_loop tlv 0"

function allowlist_loop :: "bytes \<Rightarrow> u16 list \<Rightarrow> nat \<Rightarrow> u32 \<Rightarrow> unit outcome" where
  "allowlist_loop tlv allowed cursor seen =
     (if cursor < length tlv then
        if length tlv - cursor < 2 then Ok ()
        else
          obind (rd_u16 tlv cursor) (\<lambda>ext_type.
          if ext_type = ext_uninitialized then Ok ()
          else if ext_type > max_known_extension_type \<or> ext_type \<notin> set allowed then Err InvalidAccountData
          else
            obind (if unat ext_type < 32 then Ok (push_bit (unat ext_type) 1) else Err InvalidAccountData) (\<lambda>b :: u32.
            if seen AND b \<noteq> 0 then Err InvalidAccountData
            else if length tlv - cursor < 4 then Err InvalidAccountData
            else
              obind (rd_u16 tlv (cursor + 2)) (\<lambda>len.
              if cursor + 4 + unat len > length tlv then Err InvalidAccountData
              else allowlist_loop tlv allowed (cursor + 4 + unat len) (seen OR b))))
      else Ok ())"
  by pat_completeness auto
termination by (relation "measure (\<lambda>(tlv, allowed, cursor, seen). length tlv - cursor)") auto

declare find_loop.simps [simp del] structure_loop.simps [simp del] allowlist_loop.simps [simp del]

definition validate_extension_allowlist :: "bytes \<Rightarrow> u16 list \<Rightarrow> unit outcome" where
  "validate_extension_allowlist tlv allowed = allowlist_loop tlv allowed 0 0"

section \<open>The region in an account\<close>

definition mint_tlv_region :: "bytes \<Rightarrow> bytes option outcome" where
  "mint_tlv_region data =
     (if length data \<le> tlv_offset \<or> length data = token_multisig_len then Ok None
      else
        obind (rd_byte data account_type_offset) (\<lambda>kind.
        if kind \<noteq> account_type_mint \<and> kind \<noteq> 0 then Ok None
        else
          obind (rd data base_mint_len (account_type_offset - base_mint_len)) (\<lambda>padding.
          if list_ex (\<lambda>b. b \<noteq> 0) padding then Ok None
          else Ok (Some (drop tlv_offset data)))))"

definition token_account_tlv_region :: "bytes \<Rightarrow> bytes option outcome" where
  "token_account_tlv_region data =
     (if length data \<le> tlv_offset \<or> length data = token_multisig_len then Ok None
      else
        obind (rd_byte data account_type_offset) (\<lambda>kind.
        if kind \<noteq> account_type_token \<and> kind \<noteq> 0 then Ok None
        else Ok (Some (drop tlv_offset data))))"

section \<open>Policies\<close>

record extension_policy =
  required_types :: "u16 list"
  forbidden_types :: "u16 list"

definition ext_policy_new :: "u16 list \<Rightarrow> u16 list \<Rightarrow> extension_policy" where
  "ext_policy_new required forbidden = \<lparr>required_types = required, forbidden_types = forbidden\<rparr>"

definition require_extension :: "bytes \<Rightarrow> u16 \<Rightarrow> unit outcome" where
  "require_extension tlv ext_type =
     obind (validate_tlv_structure tlv) (\<lambda>_.
     obind (find_extension tlv ext_type) (\<lambda>found. if found \<noteq> None then Ok () else Err InvalidAccountData))"

definition forbid_extension :: "bytes \<Rightarrow> u16 \<Rightarrow> unit outcome" where
  "forbid_extension tlv ext_type =
     obind (validate_tlv_structure tlv) (\<lambda>_.
     obind (find_extension tlv ext_type) (\<lambda>found. if found = None then Ok () else Err InvalidAccountData))"

fun required_loop :: "bytes \<Rightarrow> u16 list \<Rightarrow> unit outcome" where
  "required_loop tlv [] = Ok ()"
| "required_loop tlv (t # ts) =
     obind (find_extension tlv t) (\<lambda>found. if found = None then Err InvalidAccountData else required_loop tlv ts)"

fun forbidden_loop :: "bytes \<Rightarrow> u16 list \<Rightarrow> unit outcome" where
  "forbidden_loop tlv [] = Ok ()"
| "forbidden_loop tlv (t # ts) =
     obind (find_extension tlv t) (\<lambda>found. if found \<noteq> None then Err InvalidAccountData else forbidden_loop tlv ts)"

definition validate_extension_policy :: "bytes \<Rightarrow> extension_policy \<Rightarrow> unit outcome" where
  "validate_extension_policy tlv policy =
     obind (validate_tlv_structure tlv) (\<lambda>_.
     obind (required_loop tlv (required_types policy)) (\<lambda>_. forbidden_loop tlv (forbidden_types policy)))"

section \<open>Checks on accounts\<close>

text \<open>\<^verbatim>\<open>keys_eq_bytes\<close> (address.rs): four 64-bit comparisons.\<close>

definition keys_eq_bytes :: "bytes \<Rightarrow> bytes \<Rightarrow> bool" where
  "keys_eq_bytes a b \<longleftrightarrow> length a = 32 \<and>
     le_val (bslice 0 8 a) = le_val (bslice 0 8 b) \<and> le_val (bslice 8 8 a) = le_val (bslice 8 8 b) \<and>
     le_val (bslice 16 8 a) = le_val (bslice 16 8 b) \<and> le_val (bslice 24 8 a) = le_val (bslice 24 8 b)"

text \<open>The first three statements of every check: borrow (any failure is reported as a failed borrow), region.\<close>

definition borrowed_region :: "(bytes \<Rightarrow> bytes option outcome) \<Rightarrow> runtime_account \<Rightarrow> bytes outcome" where
  "borrowed_region region a =
     (case av_try_borrow a of
        Ok (a', g) \<Rightarrow>
          obind (rd (ra_mem a') (g_start g) (g_len g)) (\<lambda>data.
          obind (region data) (\<lambda>tlv. ok_or tlv InvalidAccountData))
      | Err _ \<Rightarrow> Err AccountBorrowFailed
      | Trap \<Rightarrow> Trap)"

text \<open>The last statements of the comparing checks: find, check the length, compare one field.\<close>

definition field_equals :: "bytes \<Rightarrow> u16 \<Rightarrow> nat \<Rightarrow> bytes \<Rightarrow> program_error \<Rightarrow> unit outcome" where
  "field_equals tlv ext_type off expected mismatch =
     obind (find_extension tlv ext_type) (\<lambda>found.
     obind (ok_or found InvalidAccountData) (\<lambda>ext.
     if length ext < off + 32 then Err InvalidAccountData
     else obind (rd ext off 32) (\<lambda>key. if keys_eq_bytes key expected then Ok () else Err mismatch)))"

definition require_non_transferable :: "runtime_account \<Rightarrow> unit outcome" where
  "require_non_transferable mint =
     obind (borrowed_region mint_tlv_region mint) (\<lambda>tlv.
     obind (find_extension tlv ext_non_transferable) (\<lambda>found. if found \<noteq> None then Ok () else Err InvalidAccountData))"

definition require_mint_close_authority :: "runtime_account \<Rightarrow> bytes \<Rightarrow> unit outcome" where
  "require_mint_close_authority mint expected =
     obind (borrowed_region mint_tlv_region mint) (\<lambda>tlv. field_equals tlv ext_mint_close_authority 0 expected IncorrectAuthority)"
definition require_permanent_delegate :: "runtime_account \<Rightarrow> bytes \<Rightarrow> unit outcome" where
  "require_permanent_delegate mint expected =
     obind (borrowed_region mint_tlv_region mint) (\<lambda>tlv. field_equals tlv ext_permanent_delegate 0 expected IncorrectAuthority)"
definition require_transfer_hook_program :: "runtime_account \<Rightarrow> bytes \<Rightarrow> unit outcome" where
  "require_transfer_hook_program mint expected =
     obind (borrowed_region mint_tlv_region mint) (\<lambda>tlv. field_equals tlv ext_transfer_hook 32 expected IncorrectProgramId)"
definition require_transfer_hook_authority :: "runtime_account \<Rightarrow> bytes \<Rightarrow> unit outcome" where
  "require_transfer_hook_authority mint expected =
     obind (borrowed_region mint_tlv_region mint) (\<lambda>tlv. field_equals tlv ext_transfer_hook 0 expected IncorrectAuthority)"
definition require_metadata_pointer_address :: "runtime_account \<Rightarrow> bytes \<Rightarrow> unit outcome" where
  "require_metadata_pointer_address mint expected =
     obind (borrowed_region mint_tlv_region mint) (\<lambda>tlv. field_equals tlv ext_metadata_pointer 32 expected InvalidAccountData)"
definition require_metadata_pointer_authority :: "runtime_account \<Rightarrow> bytes \<Rightarrow> unit outcome" where
  "require_metadata_pointer_authority mint expected =
     obind (borrowed_region mint_tlv_region mint) (\<lambda>tlv. field_equals tlv ext_metadata_pointer 0 expected IncorrectAuthority)"
definition require_interest_bearing_authority :: "runtime_account \<Rightarrow> bytes \<Rightarrow> unit outcome" where
  "require_interest_bearing_authority mint expected =
     obind (borrowed_region mint_tlv_region mint) (\<lambda>tlv. field_equals tlv ext_interest_bearing_config 0 expected IncorrectAuthority)"
definition require_transfer_fee_config_authority :: "runtime_account \<Rightarrow> bytes \<Rightarrow> unit outcome" where
  "require_transfer_fee_config_authority mint expected =
     obind (borrowed_region mint_tlv_region mint) (\<lambda>tlv. field_equals tlv ext_transfer_fee_config 0 expected IncorrectAuthority)"
definition require_transfer_fee_withdraw_authority :: "runtime_account \<Rightarrow> bytes \<Rightarrow> unit outcome" where
  "require_transfer_fee_withdraw_authority mint expected =
     obind (borrowed_region mint_tlv_region mint) (\<lambda>tlv. field_equals tlv ext_transfer_fee_config 32 expected IncorrectAuthority)"

definition require_immutable_owner :: "runtime_account \<Rightarrow> unit outcome" where
  "require_immutable_owner token_account =
     obind (borrowed_region token_account_tlv_region token_account) (\<lambda>tlv. require_extension tlv ext_immutable_owner)"
definition require_cpi_guard :: "runtime_account \<Rightarrow> unit outcome" where
  "require_cpi_guard token_account =
     obind (borrowed_region token_account_tlv_region token_account) (\<lambda>tlv. require_extension tlv ext_cpi_guard)"
definition require_confidential_transfer_mint :: "runtime_account \<Rightarrow> unit outcome" where
  "require_confidential_transfer_mint mint =
     obind (borrowed_region mint_tlv_region mint) (\<lambda>tlv. require_extension tlv ext_confidential_transfer_mint)"
definition require_confidential_transfer_account :: "runtime_account \<Rightarrow> unit outcome" where
  "require_confidential_transfer_account token_account =
     obind (borrowed_region token_account_tlv_region token_account) (\<lambda>tlv. require_extension tlv ext_confidential_transfer_account)"
definition require_scaled_ui_amount_config :: "runtime_account \<Rightarrow> unit outcome" where
  "require_scaled_ui_amount_config mint =
     obind (borrowed_region mint_tlv_region mint) (\<lambda>tlv. require_extension tlv ext_scaled_ui_amount_config)"

definition require_default_account_state :: "runtime_account \<Rightarrow> u8 \<Rightarrow> unit outcome" where
  "require_default_account_state mint expected =
     obind (borrowed_region mint_tlv_region mint) (\<lambda>tlv.
     obind (find_extension tlv ext_default_account_state) (\<lambda>found.
     obind (ok_or found InvalidAccountData) (\<lambda>ext.
     if ext = [] then Err InvalidAccountData
     else obind (rd_byte ext 0) (\<lambda>b. if b = expected then Ok () else Err InvalidAccountData))))"

section \<open>Streams of entries\<close>

definition tlv_entry_bytes :: "u16 \<times> bytes \<Rightarrow> bytes" where
  "tlv_entry_bytes e = le_enc 2 (unat (fst e)) @ le_enc 2 (length (snd e)) @ snd e"

definition entry_ok :: "u16 \<times> bytes \<Rightarrow> bool" where
  "entry_ok e \<longleftrightarrow> fst e \<noteq> ext_uninitialized \<and> length (snd e) < 2 ^ 16"

text \<open>Where a stream may stop: at its end, one trailing byte, or the type 0 followed by anything.\<close>

definition stream_end :: "bytes \<Rightarrow> bool" where
  "stream_end rest \<longleftrightarrow> length rest < 2 \<or> take 2 rest = [0, 0]"

definition stream :: "bytes \<Rightarrow> (u16 \<times> bytes) list \<Rightarrow> bool" where
  "stream tlv es \<longleftrightarrow> list_all entry_ok es \<and> (\<exists>rest. tlv = concat (List.map tlv_entry_bytes es) @ rest \<and> stream_end rest)"

definition head_type :: "bytes \<Rightarrow> u16" where "head_type s = word_of_nat (le_val (bslice 0 2 s))"
definition head_len :: "bytes \<Rightarrow> nat" where "head_len s = le_val (bslice 2 2 s)"

lemma head_len_bound: "4 \<le> length s \<Longrightarrow> head_len s < 2 ^ 16"
  using le_val_bound [of "bslice 2 2 s"] by (simp add: head_len_def)

lemma le_two: "length b = 2 \<Longrightarrow> le_enc 2 (unat (word_of_nat (le_val b) :: u16)) = b"
proof -
  assume b: "length b = 2"
  then have "le_val b < 2 ^ LENGTH(16)" using le_val_bound [of b] by simp
  then have "unat (word_of_nat (le_val b) :: u16) = le_val b" by (rule unat_word_of_nat)
  then show ?thesis using le_enc_val' [OF b] by simp
qed

lemma head_type_zero: "2 \<le> length s \<Longrightarrow> head_type s = ext_uninitialized \<longleftrightarrow> take 2 s = [0, 0]"
proof -
  assume s: "2 \<le> length s"
  then have b: "length (bslice 0 2 s) = 2" by simp
  have z: "le_enc 2 (unat (0 :: u16)) = [0, 0]" by (simp add: numeral_2_eq_2)
  have "bslice 0 2 s = [0, 0]" if "head_type s = 0" using le_two [OF b] that z by (simp add: head_type_def del: bslice_take_drop)
  moreover have "head_type s = 0" if "bslice 0 2 s = [0, 0]" by (simp add: head_type_def that)
  ultimately show ?thesis by (auto simp: ext_uninitialized_def bslice_def)
qed

lemma bslice_cut: "bslice a b s @ drop (a + b) s = drop a s"
  by (metis append_take_drop_id bslice_def drop_drop add.commute)

lemma head_entry: "length v < 2 ^ 16 \<Longrightarrow> head_type (tlv_entry_bytes (t, v) @ r) = t \<and> head_len (tlv_entry_bytes (t, v) @ r) = length v"
proof -
  assume v: "length v < 2 ^ 16"
  have "bslice 0 2 (tlv_entry_bytes (t, v) @ r) = le_enc 2 (unat t)" "bslice 2 2 (tlv_entry_bytes (t, v) @ r) = le_enc 2 (length v)"
    by (simp_all add: tlv_entry_bytes_def bslice_def)
  moreover have "unat t mod 256 ^ 2 = unat t" using unat_less_power [of t] by simp
  ultimately show ?thesis using v by (simp add: head_type_def head_len_def le_val_enc)
qed

lemma head_split:
  assumes "4 + head_len s \<le> length s"
  shows "s = tlv_entry_bytes (head_type s, bslice 4 (head_len s) s) @ drop (4 + head_len s) s"
proof -
  have "le_enc 2 (unat (head_type s)) = bslice 0 2 s" using assms le_two [of "bslice 0 2 s"] by (simp add: head_type_def)
  moreover have "le_enc 2 (head_len s) = bslice 2 2 s" using assms le_enc_val' [of "bslice 2 2 s" 2] by (simp add: head_len_def)
  moreover have "bslice 0 2 s @ bslice 2 2 s @ bslice 4 (head_len s) s @ drop (4 + head_len s) s = s"
    using bslice_cut [of 0 2 s] bslice_cut [of 2 2 s] bslice_cut [of 4 "head_len s" s] by (simp del: add_2_eq_Suc')
  ultimately show ?thesis using assms by (simp add: tlv_entry_bytes_def)
qed

text \<open>The three shapes of the bytes at a header.\<close>

lemma stream_stop: "stream_end s \<Longrightarrow> stream s es \<longleftrightarrow> es = []"
proof
  assume stop: "stream_end s" and st: "stream s es"
  show "es = []"
  proof (rule ccontr)
    assume "es \<noteq> []"
    then obtain t v es' where es: "es = (t, v) # es'" by (cases es) auto
    then obtain r where s: "s = tlv_entry_bytes (t, v) @ r" "t \<noteq> ext_uninitialized" "length v < 2 ^ 16"
      using st by (auto simp: stream_def entry_ok_def)
    then have "head_type s = t" "4 \<le> length s" using head_entry [of v t r] by (simp_all add: tlv_entry_bytes_def)
    then show False using stop s(2) head_type_zero [of s] by (auto simp: stream_end_def)
  qed
qed (auto simp: stream_def)

lemma stream_broken:
  assumes "\<not> stream_end s" and "length s < 4 \<or> length s < 4 + head_len s"
  shows "\<not> stream s es"
proof
  assume st: "stream s es"
  then obtain t v es' where es: "es = (t, v) # es'" using assms(1) by (cases es) (auto simp: stream_def)
  then obtain r where s: "s = tlv_entry_bytes (t, v) @ r" "length v < 2 ^ 16" using st by (auto simp: stream_def entry_ok_def)
  then show False using assms(2) head_entry [of v t r] by (simp add: tlv_entry_bytes_def)
qed

lemma stream_entry:
  assumes "\<not> stream_end s" and "4 + head_len s \<le> length s"
  shows "stream s es \<longleftrightarrow> (\<exists>es'. es = (head_type s, bslice 4 (head_len s) s) # es' \<and> stream (drop (4 + head_len s) s) es')"
proof
  assume st: "stream s es"
  then obtain t v es' where es: "es = (t, v) # es'" using assms(1) by (cases es) (auto simp: stream_def)
  then obtain r where s: "s = tlv_entry_bytes (t, v) @ concat (List.map tlv_entry_bytes es') @ r" "stream_end r" "length v < 2 ^ 16" "list_all entry_ok es'"
    using st by (auto simp: stream_def entry_ok_def)
  have h: "head_type s = t" "head_len s = length v" using head_entry [OF s(3)] unfolding s(1) by simp_all
  then have "bslice 4 (head_len s) s = v" "drop (4 + head_len s) s = concat (List.map tlv_entry_bytes es') @ r"
    unfolding s(1) h by (simp_all add: tlv_entry_bytes_def bslice_def)
  then show "\<exists>es'. es = (head_type s, bslice 4 (head_len s) s) # es' \<and> stream (drop (4 + head_len s) s) es'"
    using es h s(2,4) by (auto simp: stream_def)
next
  assume "\<exists>es'. es = (head_type s, bslice 4 (head_len s) s) # es' \<and> stream (drop (4 + head_len s) s) es'"
  then obtain es' r where es: "es = (head_type s, bslice 4 (head_len s) s) # es'" "list_all entry_ok es'"
    and d: "drop (4 + head_len s) s = concat (List.map tlv_entry_bytes es') @ r" "stream_end r" by (auto simp: stream_def)
  have "head_type s \<noteq> ext_uninitialized" using assms(1) head_type_zero [of s] by (auto simp: stream_end_def)
  moreover have "length (bslice 4 (head_len s) s) < 2 ^ 16" using assms(2) head_len_bound [of s] by simp
  moreover have "s = tlv_entry_bytes (head_type s, bslice 4 (head_len s) s) @ concat (List.map tlv_entry_bytes es') @ r"
    using head_split [OF assms(2)] d(1) by simp
  ultimately show "stream s es" using es d(2) unfolding stream_def by (auto simp: entry_ok_def)
qed

section \<open>The loops over a stream\<close>

text \<open>All loops look at the bytes from the cursor on.\<close>

lemma head_reads:
  "2 \<le> length s \<Longrightarrow> rd_u16 (pre @ s) (length pre) = Ok (head_type s)"
  "4 \<le> length s \<Longrightarrow> rd_u16 (pre @ s) (length pre + 2) = Ok (word_of_nat (head_len s))"
  "4 \<le> length s \<Longrightarrow> unat (word_of_nat (head_len s) :: u16) = head_len s"
  using head_len_bound [of s]
  by (simp_all add: rd_u16_def head_type_def head_len_def bslice_def unat_word_of_nat)

lemma advance:
  assumes "4 + head_len s \<le> length s"
  obtains pre' s' where "pre @ s = pre' @ s'" and "length pre' = length pre + 4 + head_len s" and "s' = drop (4 + head_len s) s"
    and "length s' < length s"
  using assms that [of "pre @ take (4 + head_len s) s" "drop (4 + head_len s) s"] by simp

lemma not_end: "\<not> stream_end s \<Longrightarrow> 2 \<le> length s \<and> head_type s \<noteq> ext_uninitialized"
  using head_type_zero [of s] by (auto simp: stream_end_def)

lemma at_end: "stream_end s \<Longrightarrow> 2 \<le> length s \<Longrightarrow> head_type s = ext_uninitialized"
  using head_type_zero [of s] by (auto simp: stream_end_def)

lemma structure_loop_stream:
  "structure_loop (pre @ s) (length pre) = (if \<exists>es. stream s es then Ok () else Err InvalidAccountData)"
proof (induction s arbitrary: pre rule: length_induct)
  case (1 s)
  show ?case
  proof (cases "stream_end s")
    case True
    then have "structure_loop (pre @ s) (length pre) = Ok ()"
      using head_reads(1) [of s pre] at_end [OF True] by (subst structure_loop.simps) auto
    moreover have "\<exists>es. stream s es" using stream_stop [OF True] by blast
    ultimately show ?thesis by simp
  next
    case False
    note ne = not_end [OF False]
    show ?thesis
    proof (cases "length s < 4 \<or> length s < 4 + head_len s")
      case True
      then have "structure_loop (pre @ s) (length pre) = Err InvalidAccountData"
        using head_reads(1,2) [of s pre] head_reads(3) [of s] ne by (subst structure_loop.simps) auto
      then show ?thesis using stream_broken [OF False True] by simp
    next
      case fits: False
      then have le: "4 + head_len s \<le> length s" by simp
      obtain pre' s' where next_s: "pre @ s = pre' @ s'" "length pre' = length pre + 4 + head_len s" "s' = drop (4 + head_len s) s" "length s' < length s"
        by (rule advance [OF le, of pre])
      have "structure_loop (pre @ s) (length pre) = structure_loop (pre @ s) (length pre + 4 + head_len s)"
        using head_reads(1,2) [of s pre] head_reads(3) [of s] ne le by (subst structure_loop.simps) auto
      also have "structure_loop (pre @ s) (length pre + 4 + head_len s) = (if \<exists>es. stream s' es then Ok () else Err InvalidAccountData)"
        using 1 next_s(4) unfolding next_s(1) next_s(2) [symmetric] by blast
      finally show ?thesis using stream_entry [OF False le] next_s(3) by auto
    qed
  qed
qed

lemma find_loop_stream:
  "stream s es \<Longrightarrow> t \<noteq> ext_uninitialized \<Longrightarrow> find_loop (pre @ s) t (length pre) = Ok (map_of es t)"
proof (induction s arbitrary: pre es rule: length_induct)
  case (1 s)
  show ?case
  proof (cases "stream_end s")
    case True
    then have "find_loop (pre @ s) t (length pre) = Ok None"
      using head_reads(1,2) [of s pre] head_reads(3) [of s] at_end [OF True] 1(3) by (subst find_loop.simps) (auto simp: Let_def)
    then show ?thesis using stream_stop [OF True] 1(2) by simp
  next
    case False
    note ne = not_end [OF False]
    have le: "4 + head_len s \<le> length s" using stream_broken [OF False] 1(2) by (meson not_le)
    obtain es' where es: "es = (head_type s, bslice 4 (head_len s) s) # es'" "stream (drop (4 + head_len s) s) es'"
      using stream_entry [OF False le] 1(2) by blast
    obtain pre' s' where next_s: "pre @ s = pre' @ s'" "length pre' = length pre + 4 + head_len s" "s' = drop (4 + head_len s) s" "length s' < length s"
      by (rule advance [OF le, of pre])
    have val: "rd (pre @ s) (length pre + 4) (head_len s) = Ok (bslice 4 (head_len s) s)" using le by (simp add: bslice_def)
    have "find_loop (pre @ s) t (length pre) =
        (if head_type s = t then Ok (Some (bslice 4 (head_len s) s)) else find_loop (pre @ s) t (length pre + 4 + head_len s))"
      using head_reads(1,2) [of s pre] head_reads(3) [of s] ne le val by (subst find_loop.simps) (simp add: Let_def)
    also have "find_loop (pre @ s) t (length pre + 4 + head_len s) = Ok (map_of es' t)"
      using 1(1) next_s(3,4) es(2) 1(3) unfolding next_s(1) next_s(2) [symmetric] by blast
    finally show ?thesis using es(1) by auto
  qed
qed

lemma find_loop_total: "\<exists>r. find_loop tlv t cursor = Ok r"
proof (induction tlv t cursor rule: find_loop.induct)
  case (1 tlv t cursor)
  show ?case
  proof (cases "cursor + 4 \<le> length tlv")
    case True
    then obtain ty len where r: "rd_u16 tlv cursor = Ok ty" "rd_u16 tlv (cursor + 2) = Ok len" by (simp add: rd_u16_def)
    show ?thesis
    proof (cases "cursor + 4 + unat len \<le> length tlv \<and> ty \<noteq> t \<and> ty \<noteq> ext_uninitialized")
      case cont: True
      then have "find_loop tlv t cursor = find_loop tlv t (cursor + 4 + unat len)"
        using True r by (subst find_loop.simps) (simp add: Let_def)
      then show ?thesis using 1 [OF True r refl refl] cont by simp
    next
      case False
      then show ?thesis using True r by (subst find_loop.simps) (auto simp: Let_def)
    qed
  next
    case False
    then show ?thesis by (subst find_loop.simps) simp
  qed
qed


text \<open>The bit set of seen types.\<close>

definition seen_bit :: "u16 \<Rightarrow> u32" where "seen_bit t = push_bit (unat t) 1"

lemma seen_bit_test: "(seen AND seen_bit t) \<noteq> 0 \<longleftrightarrow> bit seen (unat t)"
  by (simp add: seen_bit_def push_bit_of_1 and_exp_eq_0_iff_not_bit)

lemma seen_bit_or: "unat t < 32 \<Longrightarrow> bit (seen OR seen_bit t) n \<longleftrightarrow> bit seen n \<or> n = unat t"
  by (auto simp: seen_bit_def bit_or_iff push_bit_of_1 bit_exp_iff dest: bit_imp_le_length)

text \<open>An entry the walk takes, and the entries a walk accepts that has seen some types already.\<close>

definition listed :: "u16 list \<Rightarrow> u16 \<Rightarrow> bool" where
  "listed allowed t \<longleftrightarrow> t \<le> max_known_extension_type \<and> t \<in> set allowed"

definition admitted :: "u16 list \<Rightarrow> u32 \<Rightarrow> (u16 \<times> bytes) list \<Rightarrow> bool" where
  "admitted allowed seen es \<longleftrightarrow>
     distinct (List.map fst es) \<and> list_all (\<lambda>e. listed allowed (fst e) \<and> \<not> bit seen (unat (fst e))) es"

lemma admitted_Nil: "admitted allowed seen []" by (simp add: admitted_def)

lemma listed_small: "listed allowed t \<Longrightarrow> unat t < 32"
  by (simp add: listed_def max_known_extension_type_def word_le_nat_alt)

lemma admitted_Cons:
  "admitted allowed seen ((t, v) # es) \<longleftrightarrow>
     listed allowed t \<and> \<not> bit seen (unat t) \<and> admitted allowed (seen OR seen_bit t) es"
proof (cases "listed allowed t")
  case True
  note or = seen_bit_or [OF listed_small [OF True]]
  have "list_all (\<lambda>e. listed allowed (fst e) \<and> \<not> bit (seen OR seen_bit t) (unat (fst e))) es \<longleftrightarrow>
        list_all (\<lambda>e. listed allowed (fst e) \<and> \<not> bit seen (unat (fst e))) es \<and> t \<notin> fst ` set es"
    unfolding list_all_iff or word_unat_eq_iff [symmetric] by (force simp: image_iff)
  then show ?thesis using True by (auto simp: admitted_def)
qed (simp add: admitted_def)

lemma allowlist_loop_stream:
  "allowlist_loop (pre @ s) allowed (length pre) seen =
     (if \<exists>es. stream s es \<and> admitted allowed seen es then Ok () else Err InvalidAccountData)"
proof (induction s arbitrary: pre seen rule: length_induct)
  case (1 s)
  show ?case
  proof (cases "stream_end s")
    case True
    then have "allowlist_loop (pre @ s) allowed (length pre) seen = Ok ()"
      using head_reads(1) [of s pre] at_end [OF True] by (subst allowlist_loop.simps) auto
    then show ?thesis using stream_stop [OF True] admitted_Nil by auto
  next
    case False
    note ne = not_end [OF False]
    have read: "rd_u16 (pre @ s) (length pre) = Ok (head_type s)" using head_reads(1) ne by blast
    have step: "allowlist_loop (pre @ s) allowed (length pre) seen =
        (if \<not> listed allowed (head_type s) \<or> bit seen (unat (head_type s)) \<or> length s < 4 \<or> length s < 4 + head_len s
         then Err InvalidAccountData
         else allowlist_loop (pre @ s) allowed (length pre + 4 + head_len s) (seen OR seen_bit (head_type s)))"
    proof (cases "listed allowed (head_type s)")
      case True
      note small = listed_small [OF True]
      have l: "\<not> head_type s > max_known_extension_type" "head_type s \<in> set allowed" using True by (auto simp: listed_def)
      have unfold: "allowlist_loop (pre @ s) allowed (length pre) seen =
          (if bit seen (unat (head_type s)) \<or> length s < 4 then Err InvalidAccountData
           else obind (rd_u16 (pre @ s) (length pre + 2)) (\<lambda>len.
             if length pre + 4 + unat len > length (pre @ s) then Err InvalidAccountData
             else allowlist_loop (pre @ s) allowed (length pre + 4 + unat len) (seen OR seen_bit (head_type s))))"
        using ne l small read seen_bit_test [of seen "head_type s", unfolded seen_bit_def]
        unfolding seen_bit_def push_bit_of_1 by (subst allowlist_loop.simps) (auto simp: push_bit_of_1)
      show ?thesis
      proof (cases "length s < 4")
        case False
        then show ?thesis unfolding unfold using True head_reads(2) [of s pre] head_reads(3) [of s] by simp
      qed (simp add: unfold)
    next
      case False
      then have "head_type s > max_known_extension_type \<or> head_type s \<notin> set allowed" by (auto simp: listed_def)
      then show ?thesis using ne read False by (subst allowlist_loop.simps) auto
    qed
    show ?thesis
    proof (cases "length s < 4 \<or> length s < 4 + head_len s")
      case True
      then show ?thesis using stream_broken [OF False True] step by auto
    next
      case fits: False
      then have le: "4 + head_len s \<le> length s" by simp
      obtain pre' s' where next_s: "pre @ s = pre' @ s'" "length pre' = length pre + 4 + head_len s" "s' = drop (4 + head_len s) s" "length s' < length s"
        by (rule advance [OF le, of pre])
      have rest: "allowlist_loop (pre @ s) allowed (length pre + 4 + head_len s) (seen OR seen_bit (head_type s)) =
          (if \<exists>es. stream s' es \<and> admitted allowed (seen OR seen_bit (head_type s)) es then Ok () else Err InvalidAccountData)"
        using 1 next_s(4) unfolding next_s(1) next_s(2) [symmetric] by blast
      show ?thesis unfolding step rest using stream_entry [OF False le] fits next_s(3) by (auto simp: admitted_Cons)
    qed
  qed
qed

text \<open>The entries of a stream are determined by its bytes.\<close>

lemma stream_unique: "stream s es \<Longrightarrow> stream s es' \<Longrightarrow> es = es'"
proof (induction s arbitrary: es es' rule: length_induct)
  case (1 s)
  show ?case
  proof (cases "stream_end s")
    case True
    then show ?thesis using stream_stop [OF True] 1(2,3) by simp
  next
    case False
    have le: "4 + head_len s \<le> length s" using stream_broken [OF False] 1(2) by (meson not_le)
    obtain r where r: "es = (head_type s, bslice 4 (head_len s) s) # r" "stream (drop (4 + head_len s) s) r"
      using stream_entry [OF False le] 1(2) by blast
    obtain r' where r': "es' = (head_type s, bslice 4 (head_len s) s) # r'" "stream (drop (4 + head_len s) s) r'"
      using stream_entry [OF False le] 1(3) by blast
    have "length (drop (4 + head_len s) s) < length s" using le by simp
    then have "r = r'" using 1(1) r(2) r'(2) by blast
    then show ?thesis using r(1) r'(1) by simp
  qed
qed

lemma find_extension_stream:
  "stream tlv es \<Longrightarrow> t \<noteq> ext_uninitialized \<Longrightarrow> find_extension tlv t = Ok (map_of es t)"
  using find_loop_stream [of tlv es t "[]"] by (simp add: find_extension_def)

lemma required_loop_stream:
  "stream tlv es \<Longrightarrow> ext_uninitialized \<notin> set ts \<Longrightarrow>
     required_loop tlv ts = (if \<forall>t \<in> set ts. map_of es t \<noteq> None then Ok () else Err InvalidAccountData)"
proof (induction ts)
  case (Cons t ts)
  then have "find_extension tlv t = Ok (map_of es t)" using find_extension_stream [of tlv es t] by auto
  moreover have "required_loop tlv ts = (if \<forall>t \<in> set ts. map_of es t \<noteq> None then Ok () else Err InvalidAccountData)"
    using Cons by simp
  ultimately show ?case by (cases "map_of es t") simp_all
qed simp

lemma forbidden_loop_stream:
  "stream tlv es \<Longrightarrow> ext_uninitialized \<notin> set ts \<Longrightarrow>
     forbidden_loop tlv ts = (if \<forall>t \<in> set ts. map_of es t = None then Ok () else Err InvalidAccountData)"
proof (induction ts)
  case (Cons t ts)
  then have "find_extension tlv t = Ok (map_of es t)" using find_extension_stream [of tlv es t] by auto
  moreover have "forbidden_loop tlv ts = (if \<forall>t \<in> set ts. map_of es t = None then Ok () else Err InvalidAccountData)"
    using Cons by simp
  ultimately show ?case by (cases "map_of es t") simp_all
qed simp


lemma structure_stream: "validate_tlv_structure tlv = (if \<exists>es. stream tlv es then Ok () else Err InvalidAccountData)"
  using structure_loop_stream [of "[]" tlv] by (simp add: validate_tlv_structure_def)

text \<open>What a policy demands of the entries.\<close>

definition meets :: "(u16 \<times> bytes) list \<Rightarrow> extension_policy \<Rightarrow> bool" where
  "meets es policy \<longleftrightarrow> (\<forall>t \<in> set (required_types policy). map_of es t \<noteq> None) \<and> (\<forall>t \<in> set (forbidden_types policy). map_of es t = None)"

lemma policy_stream:
  assumes "stream tlv es" and "ext_uninitialized \<notin> set (required_types policy)" and "ext_uninitialized \<notin> set (forbidden_types policy)"
  shows "validate_extension_policy tlv policy = (if meets es policy then Ok () else Err InvalidAccountData)"
  using assms structure_stream [of tlv] required_loop_stream [OF assms(1,2)] forbidden_loop_stream [OF assms(1,3)]
  by (auto simp: validate_extension_policy_def meets_def)

lemma require_stream:
  assumes "stream tlv es" and "t \<noteq> ext_uninitialized"
  shows "require_extension tlv t = (if map_of es t \<noteq> None then Ok () else Err InvalidAccountData)"
    and "forbid_extension tlv t = (if map_of es t = None then Ok () else Err InvalidAccountData)"
  using assms structure_stream [of tlv] find_extension_stream [OF assms]
  by (auto simp: require_extension_def forbid_extension_def)

lemma allowlist_stream:
  "validate_extension_allowlist tlv allowed =
     (if \<exists>es. stream tlv es \<and> distinct (List.map fst es) \<and> list_all (\<lambda>e. listed allowed (fst e)) es then Ok () else Err InvalidAccountData)"
  using allowlist_loop_stream [of "[]" tlv allowed 0] by (simp add: validate_extension_allowlist_def admitted_def)

lemma region_total: "\<exists>r. mint_tlv_region d = Ok r" "\<exists>r. token_account_tlv_region d = Ok r"
  by (auto simp: mint_tlv_region_def token_account_tlv_region_def tlv_offset_def account_type_offset_def base_token_len_def base_mint_len_def)

lemma keys_eq_bytes_iff: "length b = 32 \<Longrightarrow> keys_eq_bytes a b \<longleftrightarrow> a = b"
proof
  assume b: "length b = 32" and eq: "keys_eq_bytes a b"
  have part: "bslice i 8 a = bslice i 8 b" if "i \<in> {0, 8, 16, 24}" for i
  proof -
    have "le_val (bslice i 8 a) = le_val (bslice i 8 b)" "length (bslice i 8 a) = 8" "length (bslice i 8 b) = 8"
      using that b eq by (auto simp: keys_eq_bytes_def)
    then show ?thesis by (metis le_enc_val')
  qed
  have whole: "x = bslice 0 8 x @ bslice 8 8 x @ bslice 16 8 x @ bslice 24 8 x" if "length x = 32" for x :: bytes
    using bslice_cut [of 0 8 x] bslice_cut [of 8 8 x] bslice_cut [of 16 8 x] that by (simp add: bslice_def)
  have "length a = 32" using eq by (simp add: keys_eq_bytes_def)
  then show "a = b" using whole [of a] whole [OF b] part by simp
qed (simp add: keys_eq_bytes_def)


text \<open>A region always comes out of an account as its end.\<close>

lemma mint_region_image:
  assumes "length base = 82" and "kind \<in> {0, account_type_mint}" and "tlv \<noteq> []" and "length tlv \<noteq> 189"
  shows "mint_tlv_region (base @ replicate 83 0 @ [kind] @ tlv) = Ok (Some tlv)"
  using assms
  by (auto simp: mint_tlv_region_def tlv_offset_def account_type_offset_def base_token_len_def base_mint_len_def
      token_multisig_len_def bslice_def nth_append list_ex_iff)

lemma token_region_image:
  assumes "length base = 165" and "kind \<in> {0, account_type_token}" and "tlv \<noteq> []" and "length tlv \<noteq> 189"
  shows "token_account_tlv_region (base @ [kind] @ tlv) = Ok (Some tlv)"
  using assms
  by (auto simp: token_account_tlv_region_def tlv_offset_def account_type_offset_def base_token_len_def
      token_multisig_len_def nth_append)

lemma borrowed_region_shared:
  assumes "encodes (borrow_state a) gs" and "av_data_len a \<le> length (ra_mem a)"
    and "region (take (av_data_len a) (ra_mem a)) = Ok (Some tlv)"
  shows "borrowed_region region a = (if can_share gs then Ok tlv else Err AccountBorrowFailed)"
  using assms(2,3) acquire_shared_iff [OF assms(1)]
  by (simp add: borrowed_region_def av_try_borrow_def av_borrow_unchecked_def bslice_take_drop)

text \<open>What a comparing check answers for the entries.\<close>

definition expected_field :: "(u16 \<times> bytes) list \<Rightarrow> u16 \<Rightarrow> nat \<Rightarrow> bytes \<Rightarrow> program_error \<Rightarrow> unit outcome" where
  "expected_field es t off key mismatch =
     (case map_of es t of
        None \<Rightarrow> Err InvalidAccountData
      | Some v \<Rightarrow> if length v < off + 32 then Err InvalidAccountData
                  else if bslice off 32 v = key then Ok () else Err mismatch)"

lemma field_equals_stream:
  assumes "stream tlv es" and "t \<noteq> ext_uninitialized" and "length key = 32"
  shows "field_equals tlv t off key mismatch = expected_field es t off key mismatch"
  using find_extension_stream [OF assms(1,2)] keys_eq_bytes_iff [OF assms(3)]
  by (auto simp: field_equals_def expected_field_def split: option.splits)

definition expected_presence :: "(u16 \<times> bytes) list \<Rightarrow> u16 \<Rightarrow> unit outcome" where
  "expected_presence es t = (if map_of es t \<noteq> None then Ok () else Err InvalidAccountData)"

lemmas ext_types = ext_uninitialized_def ext_transfer_fee_config_def ext_mint_close_authority_def ext_confidential_transfer_mint_def
  ext_confidential_transfer_account_def ext_default_account_state_def ext_immutable_owner_def ext_non_transferable_def
  ext_interest_bearing_config_def ext_cpi_guard_def ext_permanent_delegate_def ext_transfer_hook_def
  ext_metadata_pointer_def ext_scaled_ui_amount_config_def

section \<open>The properties\<close>

text \<open>
  C13: over any bytes the two validators answer, never panicking: the structure check accepts exactly
  the streams, the allowlist exactly the streams whose entries are distinct, known and allowed. On
  a stream, whose entries its bytes determine, each presence check is a lookup in the list of the
  entries, and a policy that does not name the end marker holds exactly when the entries meet it.
\<close>

theorem tlv_policies_exact:
  "validate_tlv_structure tlv = (if \<exists>es. stream tlv es then Ok () else Err InvalidAccountData) \<and>
   validate_extension_allowlist tlv allowed =
     (if \<exists>es. stream tlv es \<and> distinct (List.map fst es) \<and> list_all (\<lambda>e. listed allowed (fst e)) es
      then Ok () else Err InvalidAccountData) \<and>
   (\<exists>r. find_extension tlv t = Ok r) \<and>
   (\<forall>es. stream tlv es \<longrightarrow>
      (\<forall>es'. stream tlv es' \<longrightarrow> es' = es) \<and>
      (t \<noteq> ext_uninitialized \<longrightarrow>
         find_extension tlv t = Ok (map_of es t) \<and>
         require_extension tlv t = (if map_of es t \<noteq> None then Ok () else Err InvalidAccountData) \<and>
         forbid_extension tlv t = (if map_of es t = None then Ok () else Err InvalidAccountData)) \<and>
      (ext_uninitialized \<notin> set required \<and> ext_uninitialized \<notin> set forbidden \<longrightarrow>
         validate_extension_policy tlv (ext_policy_new required forbidden) =
           (if meets es (ext_policy_new required forbidden) then Ok () else Err InvalidAccountData)))"
proof -
  have "\<forall>es. stream tlv es \<longrightarrow> (\<forall>es'. stream tlv es' \<longrightarrow> es' = es)" using stream_unique by blast
  moreover have "\<forall>es. stream tlv es \<longrightarrow> t \<noteq> ext_uninitialized \<longrightarrow>
      find_extension tlv t = Ok (map_of es t) \<and>
      require_extension tlv t = (if map_of es t \<noteq> None then Ok () else Err InvalidAccountData) \<and>
      forbid_extension tlv t = (if map_of es t = None then Ok () else Err InvalidAccountData)"
    using find_extension_stream require_stream by blast
  moreover have "\<forall>es. stream tlv es \<longrightarrow> ext_uninitialized \<notin> set required \<and> ext_uninitialized \<notin> set forbidden \<longrightarrow>
      validate_extension_policy tlv (ext_policy_new required forbidden) =
        (if meets es (ext_policy_new required forbidden) then Ok () else Err InvalidAccountData)"
    by (auto simp: policy_stream ext_policy_new_def)
  ultimately show ?thesis
    using structure_stream [of tlv] allowlist_stream [of tlv allowed] find_loop_total [of tlv t 0] unfolding find_extension_def by blast
qed

definition sample_entries :: "(u16 \<times> bytes) list" where
  "sample_entries = [(ext_mint_close_authority, replicate 32 7), (ext_non_transferable, [])]"
definition sample_tlv :: bytes where
  "sample_tlv = concat (List.map tlv_entry_bytes sample_entries) @ [0, 0, 5]"

lemma sample_stream: "stream sample_tlv sample_entries"
  by (simp add: stream_def sample_tlv_def sample_entries_def entry_ok_def ext_types stream_end_def)

theorem tlv_policies_exact_witness:
  "find_extension sample_tlv ext_mint_close_authority = Ok (Some (replicate 32 7)) \<and>
   validate_extension_policy sample_tlv (ext_policy_new [ext_non_transferable] [ext_transfer_hook]) = Ok () \<and>
   validate_extension_allowlist sample_tlv [ext_non_transferable, ext_mint_close_authority] = Ok ()"
proof -
  have facts: "ext_mint_close_authority \<noteq> ext_uninitialized" "ext_uninitialized \<notin> set [ext_non_transferable]"
    "ext_uninitialized \<notin> set [ext_transfer_hook]" "meets sample_entries (ext_policy_new [ext_non_transferable] [ext_transfer_hook])"
    "distinct (List.map fst sample_entries)" "list_all (\<lambda>e. listed [ext_non_transferable, ext_mint_close_authority] (fst e)) sample_entries"
    "map_of sample_entries ext_mint_close_authority = Some (replicate 32 7)"
    by (simp_all add: sample_entries_def ext_types meets_def ext_policy_new_def listed_def max_known_extension_type_def)
  note exact = tlv_policies_exact [of sample_tlv "[ext_non_transferable, ext_mint_close_authority]" ext_mint_close_authority
    "[ext_non_transferable]" "[ext_transfer_hook]"]
  show ?thesis using exact sample_stream facts by metis
qed

text \<open>
  C20: on a mint that carries a stream of entries and on which the live guards are encoded, every
  of the thirteen checks refuses with a failed borrow when no further shared guard can be taken (an
  exclusive guard is live, or 254 shared ones), and otherwise decides by its own field of its own
  entry, wherever in the stream the entry stands.
\<close>

theorem mint_requirements_decide:
  assumes "encodes (borrow_state mint) gs" and "av_data_len mint \<le> length (ra_mem mint)"
    and "take (av_data_len mint) (ra_mem mint) = base @ replicate 83 0 @ [kind] @ tlv" and "length base = 82"
    and "kind \<in> {0, account_type_mint}" and "tlv \<noteq> []" and "length tlv \<noteq> 189"
    and "stream tlv es" and "length key = 32"
  shows "if can_share gs then
      require_non_transferable mint = expected_presence es ext_non_transferable \<and>
      require_mint_close_authority mint key = expected_field es ext_mint_close_authority 0 key IncorrectAuthority \<and>
      require_permanent_delegate mint key = expected_field es ext_permanent_delegate 0 key IncorrectAuthority \<and>
      require_transfer_hook_program mint key = expected_field es ext_transfer_hook 32 key IncorrectProgramId \<and>
      require_transfer_hook_authority mint key = expected_field es ext_transfer_hook 0 key IncorrectAuthority \<and>
      require_metadata_pointer_address mint key = expected_field es ext_metadata_pointer 32 key InvalidAccountData \<and>
      require_metadata_pointer_authority mint key = expected_field es ext_metadata_pointer 0 key IncorrectAuthority \<and>
      require_interest_bearing_authority mint key = expected_field es ext_interest_bearing_config 0 key IncorrectAuthority \<and>
      require_transfer_fee_config_authority mint key = expected_field es ext_transfer_fee_config 0 key IncorrectAuthority \<and>
      require_transfer_fee_withdraw_authority mint key = expected_field es ext_transfer_fee_config 32 key IncorrectAuthority \<and>
      require_confidential_transfer_mint mint = expected_presence es ext_confidential_transfer_mint \<and>
      require_scaled_ui_amount_config mint = expected_presence es ext_scaled_ui_amount_config \<and>
      require_default_account_state mint state =
        (case map_of es ext_default_account_state of
           None \<Rightarrow> Err InvalidAccountData
         | Some v \<Rightarrow> if v \<noteq> [] \<and> v ! 0 = state then Ok () else Err InvalidAccountData)
    else
      require_non_transferable mint = Err AccountBorrowFailed \<and>
      require_mint_close_authority mint key = Err AccountBorrowFailed \<and>
      require_permanent_delegate mint key = Err AccountBorrowFailed \<and>
      require_transfer_hook_program mint key = Err AccountBorrowFailed \<and>
      require_transfer_hook_authority mint key = Err AccountBorrowFailed \<and>
      require_metadata_pointer_address mint key = Err AccountBorrowFailed \<and>
      require_metadata_pointer_authority mint key = Err AccountBorrowFailed \<and>
      require_interest_bearing_authority mint key = Err AccountBorrowFailed \<and>
      require_transfer_fee_config_authority mint key = Err AccountBorrowFailed \<and>
      require_transfer_fee_withdraw_authority mint key = Err AccountBorrowFailed \<and>
      require_confidential_transfer_mint mint = Err AccountBorrowFailed \<and>
      require_scaled_ui_amount_config mint = Err AccountBorrowFailed \<and>
      require_default_account_state mint state = Err AccountBorrowFailed"
proof -
  have region: "borrowed_region mint_tlv_region mint = (if can_share gs then Ok tlv else Err AccountBorrowFailed)"
    by (rule borrowed_region_shared [OF assms(1,2)]) (simp only: assms(3) mint_region_image [OF assms(4-7)])
  note field = field_equals_stream [OF assms(8) _ assms(9)]
  note presence = require_stream(1) [OF assms(8)] find_extension_stream [OF assms(8)]
  have types: "ext_non_transferable \<noteq> ext_uninitialized" "ext_mint_close_authority \<noteq> ext_uninitialized"
    "ext_permanent_delegate \<noteq> ext_uninitialized" "ext_transfer_hook \<noteq> ext_uninitialized" "ext_metadata_pointer \<noteq> ext_uninitialized"
    "ext_interest_bearing_config \<noteq> ext_uninitialized" "ext_transfer_fee_config \<noteq> ext_uninitialized"
    "ext_confidential_transfer_mint \<noteq> ext_uninitialized" "ext_scaled_ui_amount_config \<noteq> ext_uninitialized"
    "ext_default_account_state \<noteq> ext_uninitialized" by (simp_all add: ext_types)
  have state: "require_default_account_state mint state =
      (case map_of es ext_default_account_state of
         None \<Rightarrow> Err InvalidAccountData
       | Some v \<Rightarrow> if v \<noteq> [] \<and> v ! 0 = state then Ok () else Err InvalidAccountData)" if "can_share gs"
    using that region presence(2) types by (auto simp: require_default_account_state_def split: option.splits)
  show ?thesis
  proof (cases "can_share gs")
    case True
    then show ?thesis using region state types
      by (simp add: field presence expected_presence_def require_non_transferable_def require_mint_close_authority_def
          require_permanent_delegate_def require_transfer_hook_program_def require_transfer_hook_authority_def
          require_metadata_pointer_address_def require_metadata_pointer_authority_def require_interest_bearing_authority_def
          require_transfer_fee_config_authority_def require_transfer_fee_withdraw_authority_def
          require_confidential_transfer_mint_def require_scaled_ui_amount_config_def)
  next
    case False
    then show ?thesis using region
      by (simp add: require_non_transferable_def require_mint_close_authority_def
          require_permanent_delegate_def require_transfer_hook_program_def require_transfer_hook_authority_def
          require_metadata_pointer_address_def require_metadata_pointer_authority_def require_interest_bearing_authority_def
          require_transfer_fee_config_authority_def require_transfer_fee_withdraw_authority_def
          require_confidential_transfer_mint_def require_scaled_ui_amount_config_def require_default_account_state_def)
  qed
qed

definition sample_mint :: runtime_account where
  "sample_mint = \<lparr>borrow_state = not_borrowed, ra_is_signer = 0, ra_is_writable = 0, ra_executable = 0, ra_resize_delta = 0,
     ra_address = [], ra_owner = [], ra_lamports = 0, ra_data_len = 209,
     ra_mem = replicate 165 0 @ [account_type_mint] @ sample_tlv\<rparr>"

theorem mint_requirements_decide_witness:
  "require_non_transferable sample_mint = Ok () \<and>
   require_mint_close_authority sample_mint (replicate 32 7) = Ok () \<and>
   require_permanent_delegate sample_mint (replicate 32 7) = Err InvalidAccountData"
proof -
  have zeros: "replicate 165 (0 :: u8) = replicate 82 0 @ replicate 83 0" by (simp add: replicate_add [symmetric])
  have size: "length sample_tlv = 43" by (simp add: sample_tlv_def sample_entries_def tlv_entry_bytes_def)
  have live: "encodes (borrow_state sample_mint) []" by (simp add: encodes_def sample_mint_def)
  have room: "av_data_len sample_mint \<le> length (ra_mem sample_mint)" using size by (simp add: sample_mint_def av_data_len_def)
  have shape: "take (av_data_len sample_mint) (ra_mem sample_mint) = replicate 82 0 @ replicate 83 0 @ [account_type_mint] @ sample_tlv"
    using size by (simp add: sample_mint_def av_data_len_def zeros)
  have "sample_tlv \<noteq> []" "length sample_tlv \<noteq> 189" using size by auto
  note decide = mint_requirements_decide [OF live room shape _ _ this sample_stream, of "replicate 32 7"]
  have answers: "expected_presence sample_entries ext_non_transferable = Ok ()"
    "expected_field sample_entries ext_mint_close_authority 0 (replicate 32 7) IncorrectAuthority = Ok ()"
    "expected_field sample_entries ext_permanent_delegate 0 (replicate 32 7) IncorrectAuthority = Err InvalidAccountData"
    by (simp_all add: expected_presence_def expected_field_def sample_entries_def ext_types bslice_def)
  have "can_share []" by (simp add: can_share_def)
  then show ?thesis using decide answers by simp
qed

end
