(* ===== verification/Encoding.thy ===== *)
theory Encoding imports MachineInts begin

text \<open>
  Self-delimiting encodings: the bytes of a value tell where it ends, so that two concatenated
  encodings agree only if their values do. The locale \<open>prefix_code\<close> is what every commitment
  encoder of the Grillo crates promises; the encoders here are the ones they share
  (\<^verbatim>\<open>encode_len\<close>, \<^verbatim>\<open>encode_bytes\<close>, \<^verbatim>\<open>encode_option_32\<close>, fixed arrays and integers).
\<close>

named_theorems code_cancel "cancellation of an encoded value at the front of two equal byte strings"

locale prefix_code =
  fixes enc :: "'a \<Rightarrow> bytes" and ok :: "'a \<Rightarrow> bool"
  assumes cancel: "ok x \<Longrightarrow> ok y \<Longrightarrow> enc x @ r = enc y @ s \<longleftrightarrow> x = y \<and> r = s"
begin

lemma injective: "ok x \<Longrightarrow> ok y \<Longrightarrow> enc x = enc y \<Longrightarrow> x = y"
  using cancel [of x y "[]" "[]"] by simp

lemma concat_cancel:
  "length xs = length ys \<Longrightarrow> list_all ok xs \<Longrightarrow> list_all ok ys \<Longrightarrow>
     concat (List.map enc xs) @ r = concat (List.map enc ys) @ s \<longleftrightarrow> xs = ys \<and> r = s"
  by (induction xs ys rule: list_induct2) (auto simp: cancel)

end

section \<open>Integers and arrays\<close>

definition enc_u16 :: "u16 \<Rightarrow> bytes" where "enc_u16 v = le_enc 2 (unat v)"
definition enc_u32 :: "u32 \<Rightarrow> bytes" where "enc_u32 v = le_enc 4 (unat v)"
definition enc_u64 :: "u64 \<Rightarrow> bytes" where "enc_u64 v = le_enc 8 (unat v)"
definition enc_bool :: "bool \<Rightarrow> bytes" where "enc_bool b = [if b then 1 else 0]"

text \<open>The length is cast to 32 bits.\<close>

definition encode_len :: "nat \<Rightarrow> bytes" where
  "encode_len value = enc_u32 (word_of_nat value)"

definition encode_bytes :: "bytes \<Rightarrow> bytes" where
  "encode_bytes b = encode_len (length b) @ b"

definition short :: "'a list \<Rightarrow> bool" where "short xs \<longleftrightarrow> length xs < 2 ^ 32"
definition array :: "nat \<Rightarrow> bytes \<Rightarrow> bool" where "array n b \<longleftrightarrow> length b = n"

fun encode_option_32 :: "bytes option \<Rightarrow> bytes" where
  "encode_option_32 (Some value) = 1 # value"
| "encode_option_32 None = [0]"

lemma le_enc_cancel:
  fixes a b :: "'a::len word"
  assumes "LENGTH('a) = 8 * n"
  shows "le_enc n (unat a) @ r = le_enc n (unat b) @ s \<longleftrightarrow> a = b \<and> r = s"
proof -
  have bound: "unat x < 256 ^ n" for x :: "'a word" using assms unsigned_less [of x, where 'a = nat] by (simp add: power_mult)
  have "le_enc n (unat a) = le_enc n (unat b) \<longleftrightarrow> a = b"
    using le_val_enc [of n "unat a"] le_val_enc [of n "unat b"] bound by (metis mod_less word_unat_eq_iff)
  then show ?thesis by (simp add: append_eq_append_conv)
qed

interpretation u16_code: prefix_code enc_u16 "\<lambda>_. True"
  unfolding enc_u16_def by unfold_locales (rule le_enc_cancel, simp)
interpretation u32_code: prefix_code enc_u32 "\<lambda>_. True"
  unfolding enc_u32_def by unfold_locales (rule le_enc_cancel, simp)
interpretation u64_code: prefix_code enc_u64 "\<lambda>_. True"
  unfolding enc_u64_def by unfold_locales (rule le_enc_cancel, simp)
interpretation bool_code: prefix_code enc_bool "\<lambda>_. True"
  by unfold_locales (auto simp: enc_bool_def)
interpretation array_code: prefix_code "\<lambda>b. b" "array n" for n
  by unfold_locales (auto simp: array_def)

lemma encode_len_cancel: "a < 2 ^ 32 \<Longrightarrow> b < 2 ^ 32 \<Longrightarrow> encode_len a @ r = encode_len b @ s \<longleftrightarrow> a = b \<and> r = s"
proof -
  assume "a < 2 ^ 32" "b < 2 ^ 32"
  then have "a < 2 ^ LENGTH(32)" "b < 2 ^ LENGTH(32)" by simp_all
  then have "unat (word_of_nat a :: u32) = a" "unat (word_of_nat b :: u32) = b" by (simp_all only: unat_word_of_nat)
  then show ?thesis unfolding encode_len_def u32_code.cancel [OF TrueI TrueI] by (metis)
qed

interpretation len_code: prefix_code encode_len "\<lambda>n. n < 2 ^ 32"
  by unfold_locales (rule encode_len_cancel)

interpretation bytes_code: prefix_code encode_bytes short
  by unfold_locales (auto simp: encode_bytes_def short_def len_code.cancel)

interpretation option_code: prefix_code encode_option_32 "pred_option (array 32)"
proof unfold_locales
  fix x y :: "bytes option" and r s
  assume "pred_option (array 32) x" "pred_option (array 32) y"
  then show "encode_option_32 x @ r = encode_option_32 y @ s \<longleftrightarrow> x = y \<and> r = s"
    by (cases x; cases y) (auto simp: array_code.cancel)
qed

lemmas [code_cancel] = u16_code.cancel u32_code.cancel u64_code.cancel bool_code.cancel array_code.cancel
  len_code.cancel bytes_code.cancel option_code.cancel

section \<open>Lists with their length\<close>

definition encode_seq :: "('a \<Rightarrow> bytes) \<Rightarrow> 'a list \<Rightarrow> bytes" where
  "encode_seq enc xs = encode_len (length xs) @ concat (List.map enc xs)"

definition seq_ok :: "('a \<Rightarrow> bool) \<Rightarrow> 'a list \<Rightarrow> bool" where
  "seq_ok ok xs \<longleftrightarrow> short xs \<and> list_all ok xs"

context prefix_code
begin

lemma seq_code: "prefix_code (encode_seq enc) (seq_ok ok)"
proof unfold_locales
  fix xs ys r s
  assume "seq_ok ok xs" "seq_ok ok ys"
  then show "encode_seq enc xs @ r = encode_seq enc ys @ s \<longleftrightarrow> xs = ys \<and> r = s"
    by (auto simp: encode_seq_def seq_ok_def short_def len_code.cancel concat_cancel)
qed

end

end
