(* ===== verification/Sha256.thy ===== *)
theory Sha256 imports Prelude begin

text \<open>
  The two SHA-256 routines of the repository: the one-shot hash the manifests are committed with
  (grillo-manifest/src/sha256.rs), and the constant evaluated one of the runtime, which hashes two
  concatenated slices or a stream of slices (hopper-native/src/sha256.rs). Shown: for every input they
  are one function, however a stream is cut; their compression is the recurrence of the standard.
\<close>

unbundle bit_operations_syntax

section \<open>grillo-manifest\<close>

definition round_constants :: "u32 list" where
  "round_constants =
    [0x428a2f98, 0x71374491, 0xb5c0fbcf, 0xe9b5dba5, 0x3956c25b, 0x59f111f1, 0x923f82a4, 0xab1c5ed5] @
    [0xd807aa98, 0x12835b01, 0x243185be, 0x550c7dc3, 0x72be5d74, 0x80deb1fe, 0x9bdc06a7, 0xc19bf174] @
    [0xe49b69c1, 0xefbe4786, 0x0fc19dc6, 0x240ca1cc, 0x2de92c6f, 0x4a7484aa, 0x5cb0a9dc, 0x76f988da] @
    [0x983e5152, 0xa831c66d, 0xb00327c8, 0xbf597fc7, 0xc6e00bf3, 0xd5a79147, 0x06ca6351, 0x14292967] @
    [0x27b70a85, 0x2e1b2138, 0x4d2c6dfc, 0x53380d13, 0x650a7354, 0x766a0abb, 0x81c2c92e, 0x92722c85] @
    [0xa2bfe8a1, 0xa81a664b, 0xc24b8b70, 0xc76c51a3, 0xd192e819, 0xd6990624, 0xf40e3585, 0x106aa070] @
    [0x19a4c116, 0x1e376c08, 0x2748774c, 0x34b0bcb5, 0x391c0cb3, 0x4ed8aa4a, 0x5b9cca4f, 0x682e6ff3] @
    [0x748f82ee, 0x78a5636f, 0x84c87814, 0x8cc70208, 0x90befffa, 0xa4506ceb, 0xbef9a3f7, 0xc67178f2]"

definition initial_state :: "u32 list" where
  "initial_state = [0x6a09e667, 0xbb67ae85, 0x3c6ef372, 0xa54ff53a, 0x510e527f, 0x9b05688c, 0x1f83d9ab, 0x5be0cd19]"

text \<open>\<^verbatim>\<open>from_be_bytes\<close> and \<^verbatim>\<open>to_be_bytes\<close>.\<close>

definition be_word :: "bytes \<Rightarrow> u32" where "be_word b = word_of_nat (le_val (rev b))"
definition be_enc :: "nat \<Rightarrow> nat \<Rightarrow> bytes" where "be_enc n v = rev (le_enc n v)"

text \<open>The two loops that fill the message schedule; every index is below 64, the length of the arrays.\<close>

definition schedule_words :: "bytes \<Rightarrow> u32 list" where
  "schedule_words block = List.map (\<lambda>i. be_word [block ! (i * 4), block ! (i * 4 + 1), block ! (i * 4 + 2), block ! (i * 4 + 3)]) [0..<16]"

definition schedule_next :: "u32 list \<Rightarrow> nat \<Rightarrow> u32" where
  "schedule_next w i =
     (let s0 = word_rotr 7 (w ! (i - 15)) XOR word_rotr 18 (w ! (i - 15)) XOR drop_bit 3 (w ! (i - 15));
          s1 = word_rotr 17 (w ! (i - 2)) XOR word_rotr 19 (w ! (i - 2)) XOR drop_bit 10 (w ! (i - 2)) in
      w ! (i - 16) + s0 + w ! (i - 7) + s1)"

definition schedule :: "bytes \<Rightarrow> u32 list" where
  "schedule block = foldl (\<lambda>w i. w[i := schedule_next w i]) (schedule_words block @ replicate 48 0) [16..<64]"

type_synonym working = "u32 \<times> u32 \<times> u32 \<times> u32 \<times> u32 \<times> u32 \<times> u32 \<times> u32"

definition round_step :: "u32 list \<Rightarrow> working \<Rightarrow> nat \<Rightarrow> working" where
  "round_step w v i =
     (case v of (a, b, c, d, e, f, g, hh) \<Rightarrow>
        let s1 = word_rotr 6 e XOR word_rotr 11 e XOR word_rotr 25 e;
            ch = (e AND f) XOR (NOT e AND g);
            temp1 = hh + s1 + ch + round_constants ! i + w ! i;
            s0 = word_rotr 2 a XOR word_rotr 13 a XOR word_rotr 22 a;
            maj = (a AND b) XOR (a AND c) XOR (b AND c);
            temp2 = s0 + maj in
        (temp1 + temp2, a, b, c, d + temp1, e, f, g))"

definition compress :: "u32 list \<Rightarrow> bytes \<Rightarrow> u32 list" where
  "compress h block =
     (let w = schedule block in
      case foldl (round_step w) (h ! 0, h ! 1, h ! 2, h ! 3, h ! 4, h ! 5, h ! 6, h ! 7) [0..<64] of
        (a, b, c, d, e, f, g, hh) \<Rightarrow>
          [h ! 0 + a, h ! 1 + b, h ! 2 + c, h ! 3 + d, h ! 4 + e, h ! 5 + f, h ! 6 + g, h ! 7 + hh])"

text \<open>The padding loop and \<^verbatim>\<open>chunks_exact(64)\<close>.\<close>

function pad_zeros :: "bytes \<Rightarrow> bytes" where
  "pad_zeros msg = (if length msg mod 64 \<noteq> 56 then pad_zeros (msg @ [0]) else msg)"
  by pat_completeness auto
termination
  by (relation "measure (\<lambda>msg. if length msg mod 64 \<le> 56 then 56 - length msg mod 64 else 120 - length msg mod 64)")
    (auto simp: mod_Suc split: if_splits)

function blocks :: "bytes \<Rightarrow> bytes list" where
  "blocks msg = (if length msg < 64 then [] else take 64 msg # blocks (drop 64 msg))"
  by pat_completeness auto
termination by (relation "measure length") auto

declare pad_zeros.simps [simp del] blocks.simps [simp del]

definition sha256 :: "bytes \<Rightarrow> bytes" where
  "sha256 data =
     (let bit_len = word_of_nat (length data) * 8 :: u64;
          msg = pad_zeros (data @ [0x80]) @ be_enc 8 (unat bit_len);
          h = foldl compress initial_state (blocks msg) in
      concat (List.map (\<lambda>w. be_enc 4 (unat w)) h))"

section \<open>hopper-native\<close>

definition const_round_constants :: "u32 list" where
  "const_round_constants =
    [0x428a2f98, 0x71374491, 0xb5c0fbcf, 0xe9b5dba5, 0x3956c25b, 0x59f111f1, 0x923f82a4, 0xab1c5ed5] @
    [0xd807aa98, 0x12835b01, 0x243185be, 0x550c7dc3, 0x72be5d74, 0x80deb1fe, 0x9bdc06a7, 0xc19bf174] @
    [0xe49b69c1, 0xefbe4786, 0x0fc19dc6, 0x240ca1cc, 0x2de92c6f, 0x4a7484aa, 0x5cb0a9dc, 0x76f988da] @
    [0x983e5152, 0xa831c66d, 0xb00327c8, 0xbf597fc7, 0xc6e00bf3, 0xd5a79147, 0x06ca6351, 0x14292967] @
    [0x27b70a85, 0x2e1b2138, 0x4d2c6dfc, 0x53380d13, 0x650a7354, 0x766a0abb, 0x81c2c92e, 0x92722c85] @
    [0xa2bfe8a1, 0xa81a664b, 0xc24b8b70, 0xc76c51a3, 0xd192e819, 0xd6990624, 0xf40e3585, 0x106aa070] @
    [0x19a4c116, 0x1e376c08, 0x2748774c, 0x34b0bcb5, 0x391c0cb3, 0x4ed8aa4a, 0x5b9cca4f, 0x682e6ff3] @
    [0x748f82ee, 0x78a5636f, 0x84c87814, 0x8cc70208, 0x90befffa, 0xa4506ceb, 0xbef9a3f7, 0xc67178f2]"

definition rotr :: "u32 \<Rightarrow> nat \<Rightarrow> u32" where "rotr value by_bits = word_rotr by_bits value"

text \<open>The counting loops of the compression function.\<close>

function load_words :: "bytes \<Rightarrow> u32 list \<Rightarrow> nat \<Rightarrow> u32 list" where
  "load_words block w i =
     (if i < 16 then
        load_words block (w[i := be_word [block ! (i * 4), block ! (i * 4 + 1), block ! (i * 4 + 2), block ! (i * 4 + 3)]]) (i + 1)
      else w)"
  by pat_completeness auto
termination by (relation "measure (\<lambda>(block, w, i). 16 - i)") auto

function extend_words :: "u32 list \<Rightarrow> nat \<Rightarrow> u32 list" where
  "extend_words w i =
     (if i < 64 then
        let s0 = rotr (w ! (i - 15)) 7 XOR rotr (w ! (i - 15)) 18 XOR drop_bit 3 (w ! (i - 15));
            s1 = rotr (w ! (i - 2)) 17 XOR rotr (w ! (i - 2)) 19 XOR drop_bit 10 (w ! (i - 2)) in
        extend_words (w[i := w ! (i - 16) + s0 + w ! (i - 7) + s1]) (i + 1)
      else w)"
  by pat_completeness auto
termination by (relation "measure (\<lambda>(w, i). 64 - i)") auto

function const_rounds :: "u32 list \<Rightarrow> nat \<Rightarrow> working \<Rightarrow> working" where
  "const_rounds w i (a, b, c, d, e, f, g, h) =
     (if i < 64 then
        let s1 = rotr e 6 XOR rotr e 11 XOR rotr e 25;
            ch = (e AND f) XOR (NOT e AND g);
            temp1 = h + s1 + ch + const_round_constants ! i + w ! i;
            s0 = rotr a 2 XOR rotr a 13 XOR rotr a 22;
            maj = (a AND b) XOR (a AND c) XOR (b AND c);
            temp2 = s0 + maj in
        const_rounds w (i + 1) (temp1 + temp2, a, b, c, d + temp1, e, f, g)
      else (a, b, c, d, e, f, g, h))"
  by pat_completeness auto
termination by (relation "measure (\<lambda>(w, i, v). 64 - i)") auto

declare load_words.simps [simp del] extend_words.simps [simp del] const_rounds.simps [simp del]

definition const_compress :: "u32 list \<Rightarrow> bytes \<Rightarrow> u32 list" where
  "const_compress state block =
     (let w = extend_words (load_words block (replicate 64 0) 0) 16 in
      case const_rounds w 0 (state ! 0, state ! 1, state ! 2, state ! 3, state ! 4, state ! 5, state ! 6, state ! 7) of
        (a, b, c, d, e, f, g, h) \<Rightarrow>
          [state ! 0 + a, state ! 1 + b, state ! 2 + c, state ! 3 + d, state ! 4 + e, state ! 5 + f, state ! 6 + g, state ! 7 + h])"

definition write_len :: "bytes \<Rightarrow> u64 \<Rightarrow> bytes" where
  "write_len block bit_len = foldl (\<lambda>b i. b[56 + i := be_enc 8 (unat bit_len) ! i]) block [0..<8]"

definition state_to_bytes :: "u32 list \<Rightarrow> bytes" where
  "state_to_bytes state = concat (List.map (\<lambda>i. be_enc 4 (unat (state ! i))) [0..<8])"

text \<open>The stream; a write behind the block is a panic.\<close>

record const_sha256 =
  cs_state :: "u32 list"
  cs_block :: bytes
  cs_block_len :: nat
  cs_total_len :: u64

definition cs_new :: const_sha256 where
  "cs_new = \<lparr>cs_state = initial_state, cs_block = replicate 64 0, cs_block_len = 0, cs_total_len = 0\<rparr>"

fun cs_update :: "const_sha256 \<Rightarrow> bytes \<Rightarrow> const_sha256 outcome" where
  "cs_update s [] = Ok s"
| "cs_update s (b # input) =
     (if cs_block_len s \<ge> 64 then Trap
      else
        let s = s\<lparr>cs_block := (cs_block s)[cs_block_len s := b], cs_block_len := cs_block_len s + 1, cs_total_len := cs_total_len s + 1\<rparr> in
        cs_update
          (if cs_block_len s = 64
           then s\<lparr>cs_state := const_compress (cs_state s) (cs_block s), cs_block := replicate 64 0, cs_block_len := 0\<rparr>
           else s) input)"

definition cs_finalize :: "const_sha256 \<Rightarrow> bytes outcome" where
  "cs_finalize s =
     (if cs_block_len s \<ge> 64 then Trap
      else
        let s = s\<lparr>cs_block := (cs_block s)[cs_block_len s := 0x80]\<rparr>;
            s = (if cs_block_len s \<ge> 56
                 then s\<lparr>cs_state := const_compress (cs_state s) (cs_block s), cs_block := replicate 64 0\<rparr> else s);
            block = write_len (cs_block s) (cs_total_len s * 8) in
        Ok (state_to_bytes (const_compress (cs_state s) block)))"

text \<open>The hash of two slices.\<close>

definition concat_byte :: "bytes \<Rightarrow> bytes \<Rightarrow> nat \<Rightarrow> u8 outcome" where
  "concat_byte left right i = (if i < length left then Ok (left ! i) else rd_byte right (i - length left))"

function fill_loop :: "bytes \<Rightarrow> bytes \<Rightarrow> nat \<Rightarrow> nat \<Rightarrow> nat \<Rightarrow> bytes \<Rightarrow> bytes outcome" where
  "fill_loop left right base n i block =
     (if i < n then obind (concat_byte left right (base + i)) (\<lambda>b. fill_loop left right base n (i + 1) (block[i := b]))
      else Ok block)"
  by pat_completeness auto
termination by (relation "measure (\<lambda>(left, right, base, n, i, block). n - i)") auto

function block_loop :: "bytes \<Rightarrow> bytes \<Rightarrow> nat \<Rightarrow> nat \<Rightarrow> u32 list \<Rightarrow> u32 list outcome" where
  "block_loop left right full_blocks block_index state =
     (if block_index < full_blocks then
        obind (fill_loop left right (block_index * 64) 64 0 (replicate 64 0)) (\<lambda>block.
        block_loop left right full_blocks (block_index + 1) (const_compress state block))
      else Ok state)"
  by pat_completeness auto
termination by (relation "measure (\<lambda>(left, right, full_blocks, block_index, state). full_blocks - block_index)") auto

declare fill_loop.simps [simp del] block_loop.simps [simp del]

definition sha256_concat :: "bytes \<Rightarrow> bytes \<Rightarrow> bytes outcome" where
  "sha256_concat left right =
     (let len = length left + length right; full_blocks = len div 64 in
      obind (block_loop left right full_blocks 0 initial_state) (\<lambda>state.
      let r = len mod 64 in
      obind (fill_loop left right (full_blocks * 64) r 0 (replicate 64 0)) (\<lambda>block.
      let block = block[r := 0x80]; bit_len = word_of_nat len * 8 :: u64;
          state = (if r \<le> 55 then const_compress state (write_len block bit_len)
                   else const_compress (const_compress state block) (write_len (replicate 64 0) bit_len)) in
      Ok (state_to_bytes state))))"

definition const_sha256_of :: "bytes \<Rightarrow> bytes outcome" where
  "const_sha256_of data = sha256_concat data []"

definition sha256_prefix8 :: "bytes \<Rightarrow> bytes \<Rightarrow> bytes outcome" where
  "sha256_prefix8 left right =
     obind (sha256_concat left right) (\<lambda>hash. Ok [hash ! 0, hash ! 1, hash ! 2, hash ! 3, hash ! 4, hash ! 5, hash ! 6, hash ! 7])"

section \<open>One compression function\<close>

lemma load_words_eq:
  "i \<le> 16 \<Longrightarrow> length w = 64 \<Longrightarrow> load_words block w i = take i w @ drop i (schedule_words block) @ drop 16 w"
proof (induction "16 - i" arbitrary: i w)
  case 0
  then show ?case by (subst load_words.simps) (simp add: schedule_words_def)
next
  case (Suc n)
  then have i: "i < 16" by simp
  let ?w = "be_word [block ! (i * 4), block ! (i * 4 + 1), block ! (i * 4 + 2), block ! (i * 4 + 3)]"
  have "load_words block w i = load_words block (w[i := ?w]) (i + 1)" using i by (subst load_words.simps) simp
  also have "\<dots> = take (Suc i) (w[i := ?w]) @ drop (Suc i) (schedule_words block) @ drop 16 w"
    using Suc i by simp
  also have "take (Suc i) (w[i := ?w]) = take i w @ [?w]" using i Suc(4) by (simp add: take_Suc_conv_app_nth)
  also have "[?w] = [schedule_words block ! i]" using i by (simp add: schedule_words_def)
  finally show ?case using i Cons_nth_drop_Suc [of i "schedule_words block"] by (simp add: schedule_words_def)
qed

lemma extend_words_eq: "i \<le> 64 \<Longrightarrow> extend_words w i = foldl (\<lambda>w i. w[i := schedule_next w i]) w [i..<64]"
proof (induction "64 - i" arbitrary: i w)
  case 0
  then show ?case by (subst extend_words.simps) simp
next
  case (Suc n)
  then have i: "i < 64" by simp
  then have "extend_words w i = extend_words (w[i := schedule_next w i]) (i + 1)"
    by (subst extend_words.simps) (simp add: Let_def schedule_next_def rotr_def)
  also have "\<dots> = foldl (\<lambda>w i. w[i := schedule_next w i]) (w[i := schedule_next w i]) [i + 1..<64]" using Suc i by simp
  finally show ?case using i by (simp add: upt_conv_Cons)
qed

lemma const_round_constants_eq: "const_round_constants = round_constants"
  by (simp add: const_round_constants_def round_constants_def)

lemma working_cases: obtains a b c d e f g h where "(v :: working) = (a, b, c, d, e, f, g, h)"
  by (metis surj_pair)

lemma const_rounds_eq: "i \<le> 64 \<Longrightarrow> const_rounds w i v = foldl (round_step w) v [i..<64]"
proof (induction "64 - i" arbitrary: i v)
  case 0
  obtain a b c d e f g h where v: "v = (a, b, c, d, e, f, g, h)" by (rule working_cases)
  show ?case using 0 unfolding v by (subst const_rounds.simps) simp
next
  case (Suc n)
  then have i: "i < 64" by simp
  obtain a b c d e f g h where v: "v = (a, b, c, d, e, f, g, h)" by (rule working_cases)
  have "const_rounds w i v = const_rounds w (i + 1) (round_step w v i)"
    using i unfolding v by (subst const_rounds.simps) (simp add: round_step_def Let_def rotr_def const_round_constants_eq)
  also have "\<dots> = foldl (round_step w) (round_step w v i) [i + 1..<64]" using Suc i by simp
  finally show ?case using i by (simp add: upt_conv_Cons)
qed

lemma const_compress_eq: "const_compress = compress"
proof (intro ext)
  fix st block
  have "load_words block (replicate 64 0) 0 = schedule_words block @ replicate 48 0"
    using load_words_eq [of 0 "replicate 64 0" block] by (simp del: upt_rec_numeral)
  then have "extend_words (load_words block (replicate 64 0) 0) 16 = schedule block"
    using extend_words_eq [of 16] by (simp add: schedule_def del: upt_rec_numeral)
  then show "const_compress st block = compress st block"
    using const_rounds_eq [of 0] by (simp add: const_compress_def compress_def del: upt_rec_numeral)
qed

lemma length_compress [simp]: "length (compress h block) = 8"
  by (simp add: compress_def Let_def split: prod.split)

lemma length_fold_compress: "length h = 8 \<Longrightarrow> length (foldl compress h bs) = 8"
  by (induction bs arbitrary: h) auto

lemma length_initial_state: "length initial_state = 8" by (simp add: initial_state_def)

lemma length_be_enc [simp]: "length (be_enc n v) = n" by (simp add: be_enc_def)

lemma state_to_bytes_eq: "length h = 8 \<Longrightarrow> state_to_bytes h = concat (List.map (\<lambda>w. be_enc 4 (unat w)) h)"
proof -
  assume "length h = 8"
  then have "h = List.map (\<lambda>i. h ! i) [0..<8]" using map_nth [of h] by simp
  then show ?thesis unfolding state_to_bytes_def by (metis (no_types, lifting) List.map.compositionality comp_apply map_eq_conv)
qed

lemma write_len_eq: "length block = 64 \<Longrightarrow> write_len block n = take 56 block @ be_enc 8 (unat n)"
proof -
  assume l: "length block = 64"
  have "k \<le> 8 \<Longrightarrow> foldl (\<lambda>b i. b[56 + i := be_enc 8 (unat n) ! i]) block [0..<k] =
      take 56 block @ take k (be_enc 8 (unat n)) @ drop (56 + k) block" for k
  proof (induction k)
    case 0
    then show ?case by simp
  next
    case (Suc k)
    then have k: "k < 8" by simp
    have "foldl (\<lambda>b i. b[56 + i := be_enc 8 (unat n) ! i]) block [0..<Suc k] =
        (take 56 block @ take k (be_enc 8 (unat n)) @ drop (56 + k) block)[56 + k := be_enc 8 (unat n) ! k]"
      using Suc by simp
    also have "drop (56 + k) block = block ! (56 + k) # drop (56 + Suc k) block" using l k Cons_nth_drop_Suc [of "56 + k" block] by simp
    finally show ?case using l k by (simp add: list_update_append take_Suc_conv_app_nth)
  qed
  from this [of 8] show ?thesis using l by (simp add: write_len_def)
qed

section \<open>The padded message\<close>

definition zeros_to_56 :: "nat \<Rightarrow> nat" where
  "zeros_to_56 n = (if n mod 64 \<le> 56 then 56 - n mod 64 else 120 - n mod 64)"

lemma pad_zeros_eq: "pad_zeros msg = msg @ replicate (zeros_to_56 (length msg)) 0"
proof (induction msg rule: pad_zeros.induct)
  case (1 msg)
  show ?case
  proof (cases "length msg mod 64 = 56")
    case False
    then have "zeros_to_56 (length msg) = Suc (zeros_to_56 (Suc (length msg)))"
      by (auto simp: zeros_to_56_def mod_Suc)
    then show ?thesis using 1 False by (subst pad_zeros.simps) simp
  qed (simp add: pad_zeros.simps zeros_to_56_def)
qed

lemma blocks_append: "length p mod 64 = 0 \<Longrightarrow> blocks (p @ x) = blocks p @ blocks x"
proof (induction p rule: length_induct)
  case (1 p)
  show ?case
  proof (cases "p = []")
    case True
    then show ?thesis by (simp add: blocks.simps [of "[]"])
  next
    case False
    then have l: "64 \<le> length p" using 1(2) by (metis length_0_conv mod_less not_le)
    then have "length (drop 64 p) mod 64 = 0" using 1(2) by (simp add: le_mod_geq)
    then have "blocks (drop 64 p @ x) = blocks (drop 64 p) @ blocks x" using 1(1) False by simp
    then show ?thesis using l by (subst (1 2) blocks.simps) simp
  qed
qed

lemma blocks_one: "length b = 64 \<Longrightarrow> blocks b = [b]"
  by (simp add: blocks.simps [of b] blocks.simps [of "[]"])

lemma blocks_two: "length a = 64 \<Longrightarrow> length b = 64 \<Longrightarrow> blocks (a @ b) = [a, b]"
  by (simp add: blocks_append blocks_one)

text \<open>The last one or two blocks, from the bytes behind the full blocks.\<close>

definition finish :: "u32 list \<Rightarrow> bytes \<Rightarrow> u64 \<Rightarrow> bytes" where
  "finish h rest bit_len =
     concat (List.map (\<lambda>w. be_enc 4 (unat w)) (foldl compress h (blocks (pad_zeros (rest @ [0x80]) @ be_enc 8 (unat bit_len)))))"

lemma sha256_split:
  assumes "length p mod 64 = 0"
  shows "sha256 (p @ rest) = finish (foldl compress initial_state (blocks p)) rest (word_of_nat (length (p @ rest)) * 8)"
proof -
  have "zeros_to_56 (length (p @ rest @ [0x80])) = zeros_to_56 (length (rest @ [0x80]))"
    proof -
    have "length (p @ rest @ [0x80]) mod 64 = length (rest @ [0x80]) mod 64" using assms by (simp add: mod_add_left_eq [of "length p", symmetric] flip: add_Suc_right)
    then show ?thesis by (simp only: zeros_to_56_def)
  qed
  then show ?thesis using assms by (simp add: sha256_def Let_def finish_def pad_zeros_eq blocks_append)
qed

lemma finish_short:
  assumes "length rest \<le> 55" and "length h = 8"
  shows "finish h rest n = state_to_bytes (compress h (write_len ((rest @ replicate (64 - length rest) 0)[length rest := 0x80]) n))"
proof -
  let ?b = "(rest @ replicate (64 - length rest) 0)[length rest := 0x80 :: u8]"
  have z: "zeros_to_56 (Suc (length rest)) = 55 - length rest" using assms(1) by (simp add: zeros_to_56_def)
  have "replicate (64 - length rest) (0 :: u8) = 0 # replicate (63 - length rest) 0" using assms(1) by (simp add: Suc_diff_le flip: replicate_Suc)
  then have b: "?b = rest @ 0x80 # replicate (63 - length rest) 0" by (simp add: list_update_append)
  then have "write_len ?b n = (rest @ [0x80] @ replicate (55 - length rest) 0) @ be_enc 8 (unat n)"
    using assms(1) by (simp add: write_len_eq take_Cons' min_def)
  then show ?thesis using assms z by (simp add: finish_def pad_zeros_eq blocks_one state_to_bytes_eq)
qed

lemma finish_long:
  assumes "55 < length rest" and "length rest < 64" and "length h = 8"
  shows "finish h rest n = state_to_bytes (compress (compress h ((rest @ replicate (64 - length rest) 0)[length rest := 0x80]))
    (write_len (replicate 64 0) n))"
proof -
  let ?b = "(rest @ replicate (64 - length rest) 0)[length rest := 0x80 :: u8]"
  have z: "zeros_to_56 (Suc (length rest)) = 119 - length rest" using assms(1,2) by (auto simp: zeros_to_56_def mod_Suc)
  have "replicate (64 - length rest) (0 :: u8) = 0 # replicate (63 - length rest) 0" using assms(2) by (simp add: Suc_diff_le flip: replicate_Suc)
  then have b: "?b = rest @ 0x80 # replicate (63 - length rest) 0" by (simp add: list_update_append)
  have "replicate (119 - length rest) (0 :: u8) = replicate (63 - length rest) 0 @ replicate 56 0"
    using assms(2) by (simp flip: replicate_add)
  then have whole: "pad_zeros (rest @ [0x80]) @ be_enc 8 (unat n) = ?b @ (replicate 56 0 @ be_enc 8 (unat n))"
    using z b by (simp add: pad_zeros_eq)
  have "write_len (replicate 64 0) n = replicate 56 0 @ be_enc 8 (unat n)" by (simp add: write_len_eq)
  moreover have "length ?b = 64" "length (replicate 56 (0 :: u8) @ be_enc 8 (unat n)) = 64" using assms(2) by simp_all
  then have "blocks (pad_zeros (rest @ [0x80]) @ be_enc 8 (unat n)) = [?b, replicate 56 0 @ be_enc 8 (unat n)]"
    unfolding whole by (rule blocks_two)
  ultimately show ?thesis by (simp add: finish_def state_to_bytes_eq)
qed


lemma finish_eq:
  assumes "length rest = r" and "r < 64" and "length h = 8"
  shows "finish h rest n = (if r \<le> 55
      then state_to_bytes (compress h (write_len ((rest @ replicate (64 - r) 0)[r := 0x80]) n))
      else state_to_bytes (compress (compress h ((rest @ replicate (64 - r) 0)[r := 0x80])) (write_len (replicate 64 0) n)))"
  using assms finish_short [of rest h n] finish_long [of rest h n] by simp

section \<open>Two slices\<close>

lemma fill_loop_eq:
  assumes "base + n \<le> length (left @ right)" and "i \<le> n" and "n \<le> length block"
  shows "fill_loop left right base n i block = Ok (take i block @ bslice (base + i) (n - i) (left @ right) @ drop n block)"
  using assms(2,3)
proof (induction "n - i" arbitrary: i block)
  case 0
  then show ?case by (subst fill_loop.simps) (simp add: bslice_def)
next
  case (Suc k)
  then have i: "i < n" by simp
  have byte: "concat_byte left right (base + i) = Ok ((left @ right) ! (base + i))"
    using i assms(1) by (simp add: concat_byte_def nth_append)
  have "fill_loop left right base n i block = fill_loop left right base n (i + 1) (block[i := (left @ right) ! (base + i)])"
    using i byte by (subst fill_loop.simps) simp
  also have "\<dots> = Ok (take (Suc i) (block[i := (left @ right) ! (base + i)]) @ bslice (base + Suc i) (n - Suc i) (left @ right) @ drop n block)"
    using Suc i by simp
  also have "take (Suc i) (block[i := (left @ right) ! (base + i)]) = take i block @ [(left @ right) ! (base + i)]"
    using i Suc(4) by (simp add: take_Suc_conv_app_nth)
  also have "bslice (base + i) (n - i) (left @ right) = (left @ right) ! (base + i) # bslice (base + Suc i) (n - Suc i) (left @ right)"
  proof -
    have "drop (base + i) (left @ right) = (left @ right) ! (base + i) # drop (base + Suc i) (left @ right)"
      using i assms(1) Cons_nth_drop_Suc [of "base + i" "left @ right"] by simp
    moreover have "n - i = Suc (n - Suc i)" using i by simp
    ultimately show ?thesis unfolding bslice_def by simp
  qed
  ultimately show ?case by simp
qed

lemma blocks_step: "64 \<le> length x \<Longrightarrow> blocks x = take 64 x # blocks (drop 64 x)"
  by (simp add: blocks.simps [of x])

lemma bslice_parts: "take a (bslice b (a + c) x) = bslice b a x" "drop a (bslice b (a + c) x) = bslice (b + a) c x"
  by (simp_all add: bslice_def drop_take add.commute)

lemma block_loop_eq:
  assumes "k * 64 \<le> length (left @ right)" and "i \<le> k"
  shows "block_loop left right k i h = Ok (foldl compress h (blocks (bslice (i * 64) ((k - i) * 64) (left @ right))))"
  using assms(2)
proof (induction "k - i" arbitrary: i h)
  case 0
  then show ?case by (subst block_loop.simps) (simp add: bslice_def blocks.simps [of "[]"])
next
  case (Suc n)
  then have i: "i < k" by simp
  have len: "i * 64 + (k - i) * 64 \<le> length (left @ right)" using assms(1) i by (simp add: add_mult_distrib [symmetric])
  have one: "(k - i) * 64 = 64 + (k - Suc i) * 64" using i by (simp add: diff_mult_distrib)
  let ?s = "bslice (i * 64) ((k - i) * 64) (left @ right)"
  have "fill_loop left right (i * 64) 64 0 (replicate 64 0) = Ok (bslice (i * 64) 64 (left @ right))"
    using len one by (subst fill_loop_eq) simp_all
  then have "block_loop left right k i h = block_loop left right k (i + 1) (compress h (bslice (i * 64) 64 (left @ right)))"
    using i by (subst block_loop.simps) (simp add: const_compress_eq)
  also have "\<dots> = Ok (foldl compress (compress h (bslice (i * 64) 64 (left @ right)))
      (blocks (bslice (Suc i * 64) ((k - Suc i) * 64) (left @ right))))" using Suc i by simp
  also have "blocks ?s = bslice (i * 64) 64 (left @ right) # blocks (bslice (Suc i * 64) ((k - Suc i) * 64) (left @ right))"
  proof -
    have "64 \<le> length ?s" using len one by simp
    moreover have "take 64 ?s = bslice (i * 64) 64 (left @ right)" unfolding one by (rule bslice_parts(1))
    moreover have "drop 64 ?s = bslice (Suc i * 64) ((k - Suc i) * 64) (left @ right)"
      using bslice_parts(2) [of 64 "i * 64" "(k - Suc i) * 64" "left @ right"] unfolding one by (simp only: mult_Suc add.commute)
    ultimately show ?thesis using blocks_step by metis
  qed
  ultimately show ?case by simp
qed

lemma sha256_concat_eq: "sha256_concat left right = Ok (sha256 (left @ right))"
proof -
  let ?d = "left @ right" and ?n = "length (left @ right)"
  let ?p = "take (?n div 64 * 64) ?d" and ?r = "drop (?n div 64 * 64) ?d"
  have "length ?p = ?n div 64 * 64" by (simp only: length_take min_absorb2 div_times_less_eq_dividend)
  then have sizes: "length ?p mod 64 = 0" "length ?r = ?n mod 64" by (simp_all only: length_drop minus_div_mult_eq_mod mod_mult_self2_is_0)
  let ?h = "foldl compress initial_state (blocks ?p)"
  have loop: "block_loop left right (?n div 64) 0 initial_state = Ok ?h"
    by (subst block_loop_eq) (simp_all add: bslice_def del: length_append)
  have rest: "fill_loop left right (?n div 64 * 64) (?n mod 64) 0 (replicate 64 0) = Ok (?r @ replicate (64 - ?n mod 64) 0)"
  proof -
    have "?n mod 64 \<le> length (replicate 64 (0 :: u8))" by simp
    from fill_loop_eq [OF _ le0 this, of "?n div 64 * 64" left right]
    have "fill_loop left right (?n div 64 * 64) (?n mod 64) 0 (replicate 64 0) =
        Ok (bslice (?n div 64 * 64) (?n mod 64) ?d @ replicate (64 - ?n mod 64) 0)" by (simp del: length_append)
    moreover have "bslice (?n div 64 * 64) (?n mod 64) ?d = ?r" unfolding bslice_def using sizes(2) by (simp only: take_all_iff order_refl)
    ultimately show ?thesis by simp
  qed
  have state: "length ?h = 8" by (rule length_fold_compress [OF length_initial_state])
  have "sha256 ?d = finish ?h ?r (word_of_nat ?n * 8)" using sha256_split [OF sizes(1), of ?r] by (simp only: append_take_drop_id)
  also have "\<dots> = (if ?n mod 64 \<le> 55
      then state_to_bytes (compress ?h (write_len ((?r @ replicate (64 - ?n mod 64) 0)[?n mod 64 := 0x80]) (word_of_nat ?n * 8)))
      else state_to_bytes (compress (compress ?h ((?r @ replicate (64 - ?n mod 64) 0)[?n mod 64 := 0x80])) (write_len (replicate 64 0) (word_of_nat ?n * 8))))"
    by (rule finish_eq [OF sizes(2) _ state]) simp
  finally show ?thesis
    by (simp only: sha256_concat_def Let_def length_append [symmetric] loop obind.simps rest const_compress_eq if_distrib [of state_to_bytes])
qed

section \<open>The stream\<close>

definition stream_inv :: "const_sha256 \<Rightarrow> bytes \<Rightarrow> bool" where
  "stream_inv s fed \<longleftrightarrow>
     (\<exists>p rest. fed = p @ rest \<and> length p mod 64 = 0 \<and> length rest < 64 \<and>
        cs_state s = foldl compress initial_state (blocks p) \<and> cs_block s = rest @ replicate (64 - length rest) 0 \<and>
        cs_block_len s = length rest \<and> cs_total_len s = word_of_nat (length fed))"

lemma stream_inv_new: "stream_inv cs_new []"
  by (simp add: stream_inv_def cs_new_def blocks.simps [of "[]"])

lemma stream_inv_update: "stream_inv s fed \<Longrightarrow> \<exists>s'. cs_update s input = Ok s' \<and> stream_inv s' (fed @ input)"
proof (induction input arbitrary: s fed)
  case Nil
  then show ?case by simp
next
  case (Cons b input)
  then obtain p rest where fed: "fed = p @ rest" "length p mod 64 = 0" "length rest < 64"
    and s: "cs_state s = foldl compress initial_state (blocks p)" "cs_block s = rest @ replicate (64 - length rest) 0"
      "cs_block_len s = length rest" "cs_total_len s = word_of_nat (length fed)" by (auto simp: stream_inv_def)
  have zero: "replicate (64 - length rest) (0 :: u8) = 0 # replicate (63 - length rest) 0" using fed(3) by (simp add: Suc_diff_le flip: replicate_Suc)
  have block: "(cs_block s)[length rest := b] = (rest @ [b]) @ replicate (64 - length (rest @ [b])) 0"
    unfolding s(2) zero by (simp add: list_update_append)
  have total: "cs_total_len s + 1 = word_of_nat (length (fed @ [b]))" using s(4) by simp
  let ?s1 = "s\<lparr>cs_block := (rest @ [b]) @ replicate (64 - length (rest @ [b])) 0, cs_block_len := length (rest @ [b]), cs_total_len := word_of_nat (length (fed @ [b]))\<rparr>"
  let ?s2 = "if length (rest @ [b]) = 64
     then ?s1\<lparr>cs_state := compress (cs_state s) (rest @ [b]), cs_block := replicate 64 0, cs_block_len := 0\<rparr> else ?s1"
  have step: "cs_update s (b # input) = cs_update ?s2 input"
    using fed(3) block total s(3) by (simp add: Let_def const_compress_eq add.commute)
  have "stream_inv ?s2 (fed @ [b])"
  proof (cases "length (rest @ [b]) = 64")
    case True
    have "blocks ((p @ rest @ [b])) = blocks p @ [rest @ [b]]" using blocks_append [OF fed(2), of "rest @ [b]"] blocks_one [OF True] by simp
    then show ?thesis unfolding stream_inv_def
      by (intro exI [of _ "p @ rest @ [b]"] exI [of _ "[]"]) (use True fed s(1) in \<open>simp add: mod_add_eq [of "length p", symmetric] del: mod_add_eq\<close>)
  next
    case False
    then show ?thesis unfolding stream_inv_def
      by (intro exI [of _ p] exI [of _ "rest @ [b]"]) (use fed s(1) in simp)
  qed
  from Cons.IH [OF this] show ?case using step by simp
qed

lemma stream_inv_finalize: "stream_inv s fed \<Longrightarrow> cs_finalize s = Ok (sha256 fed)"
proof -
  assume "stream_inv s fed"
  then obtain p rest where fed: "fed = p @ rest" "length p mod 64 = 0" "length rest < 64"
    and s: "cs_state s = foldl compress initial_state (blocks p)" "cs_block s = rest @ replicate (64 - length rest) 0"
      "cs_block_len s = length rest" "cs_total_len s = word_of_nat (length fed)" by (auto simp: stream_inv_def)
  let ?h = "foldl compress initial_state (blocks p)"
  have state: "length ?h = 8" by (rule length_fold_compress [OF length_initial_state])
  have "sha256 fed = finish ?h rest (word_of_nat (length fed) * 8)" using sha256_split [OF fed(2)] fed(1) by simp
  then show ?thesis
    using finish_short [OF _ state, of rest] finish_long [OF _ fed(3) state] fed(3) s
    by (cases "length rest \<le> 55") (simp_all add: cs_finalize_def Let_def const_compress_eq)
qed

fun cs_updates :: "const_sha256 \<Rightarrow> bytes list \<Rightarrow> const_sha256 outcome" where
  "cs_updates s [] = Ok s"
| "cs_updates s (part # parts) = obind (cs_update s part) (\<lambda>s. cs_updates s parts)"

lemma stream_inv_updates: "stream_inv s fed \<Longrightarrow> \<exists>s'. cs_updates s parts = Ok s' \<and> stream_inv s' (fed @ concat parts)"
proof (induction parts arbitrary: s fed)
  case (Cons part parts)
  obtain s1 where "cs_update s part = Ok s1" "stream_inv s1 (fed @ part)" using stream_inv_update [OF Cons(2)] by blast
  then show ?case using Cons(1) [of s1 "fed @ part"] by simp
qed simp


text \<open>Two inputs that show the hash is not injective.\<close>

definition collision :: "bytes \<Rightarrow> bytes \<Rightarrow> bool" where
  "collision x y \<longleftrightarrow> x \<noteq> y \<and> sha256 x = sha256 y"

section \<open>The recurrence of the standard\<close>

text \<open>The message schedule as FIPS 180-4 states it: the words of the block, then the recurrence.\<close>

function standard_word :: "bytes \<Rightarrow> nat \<Rightarrow> u32" where
  "standard_word block t =
     (if t < 16 then be_word (bslice (t * 4) 4 block)
      else
        (word_rotr 17 (standard_word block (t - 2)) XOR word_rotr 19 (standard_word block (t - 2)) XOR drop_bit 10 (standard_word block (t - 2))) +
        standard_word block (t - 7) +
        (word_rotr 7 (standard_word block (t - 15)) XOR word_rotr 18 (standard_word block (t - 15)) XOR drop_bit 3 (standard_word block (t - 15))) +
        standard_word block (t - 16))"
  by pat_completeness auto
termination by (relation "measure snd") auto

declare standard_word.simps [simp del]

lemma four_bytes: "i + 4 \<le> length b \<Longrightarrow> bslice i 4 b = [b ! i, b ! (i + 1), b ! (i + 2), b ! (i + 3)]"
  by (rule nth_equalityI) (auto simp: bslice_nth nth_Cons' less_Suc_eq numeral_eq_Suc)

lemma schedule_standard:
  assumes "length block = 64" and "t < 64"
  shows "schedule block ! t = standard_word block t"
proof -
  have "16 \<le> n \<Longrightarrow> n \<le> 64 \<Longrightarrow>
      length (foldl (\<lambda>w i. w[i := schedule_next w i]) (schedule_words block @ replicate 48 0) [16..<n]) = 64 \<and>
      (\<forall>t < n. foldl (\<lambda>w i. w[i := schedule_next w i]) (schedule_words block @ replicate 48 0) [16..<n] ! t = standard_word block t)" for n
  proof (induction n)
    case (Suc n)
    show ?case
    proof (cases "n = 15")
      case True
      have "(schedule_words block @ replicate 48 0) ! t = standard_word block t" if "t < 16" for t
      proof -
        have "schedule_words block ! t = be_word (bslice (t * 4) 4 block)"
          using that assms(1) four_bytes [of "t * 4" block] by (simp add: schedule_words_def)
        then show ?thesis using that by (simp add: standard_word.simps [of block t] nth_append schedule_words_def)
      qed
      then show ?thesis using True by (simp add: schedule_words_def)
    next
      case False
      let ?w = "foldl (\<lambda>w i. w[i := schedule_next w i]) (schedule_words block @ replicate 48 0) [16..<n]"
      have n: "16 \<le> n" "n < 64" using Suc(2,3) False by simp_all
      then have w: "length ?w = 64" "\<And>t. t < n \<Longrightarrow> ?w ! t = standard_word block t" using Suc(1) by simp_all
      have "schedule_next ?w n = standard_word block n"
        using n w(2) [of "n - 15"] w(2) [of "n - 2"] w(2) [of "n - 16"] w(2) [of "n - 7"]
        by (simp add: schedule_next_def Let_def standard_word.simps [of block n] add_ac)
      moreover have "foldl (\<lambda>w i. w[i := schedule_next w i]) (schedule_words block @ replicate 48 0) [16..<Suc n] = ?w[n := schedule_next ?w n]"
        using n(1) by (simp del: upt_Suc add: upt_Suc_append)
      ultimately have next_w: "foldl (\<lambda>w i. w[i := schedule_next w i]) (schedule_words block @ replicate 48 0) [16..<Suc n] = ?w[n := standard_word block n]"
        by (simp only:)
      have "?w[n := standard_word block n] ! t = standard_word block t" if "t < Suc n" for t
        using that n(2) w by (cases "t = n") simp_all
      moreover have "length (?w[n := standard_word block n]) = 64" using w(1) by (simp only: length_list_update)
      ultimately show ?thesis unfolding next_w by blast
    qed
  qed simp
  from this [of 64] show ?thesis using assms(2) unfolding schedule_def by (simp del: upt_rec_numeral)
qed

section \<open>The properties\<close>

lemma length_sha256: "length (sha256 data) = 32"
proof -
  have "length (foldl compress initial_state bs) = 8" for bs by (rule length_fold_compress [OF length_initial_state])
  then show ?thesis by (simp add: sha256_def Let_def length_concat comp_def sum_list_triv)
qed

lemma length_block: "b \<in> set (blocks x) \<Longrightarrow> length b = 64"
proof (induction x rule: blocks.induct)
  case (1 x)
  then show ?case by (cases "length x < 64") (auto simp: blocks.simps [of x])
qed

text \<open>
  C24: The repository has one hash function. Hashing two slices, hashing one slice and hashing a stream,
  in whatever pieces it is fed, never panic and give the 32 bytes that the one-shot routine of the
  manifest tools gives for the concatenation; and the message schedule of both is the recurrence of
  the standard.
\<close>

theorem sha256_implementations_agree:
  "sha256_concat left right = Ok (sha256 (left @ right)) \<and>
   const_sha256_of data = Ok (sha256 data) \<and>
   obind (cs_updates cs_new parts) cs_finalize = Ok (sha256 (concat parts)) \<and>
   length (sha256 data) = 32 \<and>
   list_all (\<lambda>block. List.map (\<lambda>t. schedule block ! t) [0..<64] = List.map (standard_word block) [0..<64])
     (blocks (pad_zeros (data @ [0x80]) @ be_enc 8 (unat (word_of_nat (length data) * 8 :: u64))))"
proof -
  have stream: "obind (cs_updates cs_new parts) cs_finalize = Ok (sha256 (concat parts))"
    using stream_inv_updates [OF stream_inv_new, of parts] stream_inv_finalize by fastforce
  have "b \<in> set (blocks x) \<Longrightarrow> length b = 64" for b x
    by (rule length_block)
  then have "list_all (\<lambda>block. List.map (\<lambda>t. schedule block ! t) [0..<64] = List.map (standard_word block) [0..<64]) (blocks x)" for x
    by (simp add: list_all_iff schedule_standard del: upt_rec_numeral)
  then show ?thesis using stream length_sha256 sha256_concat_eq by (simp add: const_sha256_of_def)
qed

end
