(* ===== verification/EffectContract.thy ===== *)
theory EffectContract imports Encoding Fallible Sha256 begin

text \<open>
  grillo-manifest/src/effect_v2.rs: the second effect contract, its validation, the dispatch of
  instruction data to an instruction, the expansion of the account grammar, and the canonical bytes
  it is committed by. A \<^verbatim>\<open>String\<close> is its bytes; the text of an error message is left out, so the
  messages of one constructor are one error. Shown: on a validated contract dispatch and call
  envelopes are unambiguous and the expansion is bounded, and the canonical bytes determine the
  contract.
\<close>

section \<open>The contract\<close>

definition effect_abi_v2 :: bytes where "effect_abi_v2 = [48, 46, 50]"

datatype deployment_binding = ExactDeployment bytes bytes bytes | ExactArtifact bytes

fun binding_executable_digest :: "deployment_binding \<Rightarrow> bytes" where
  "binding_executable_digest (ExactDeployment program_id loader_id executable_digest) = executable_digest"
| "binding_executable_digest (ExactArtifact executable_digest) = executable_digest"

datatype privilege_requirement = PrivRequired | PrivForbidden | PrivAllowed

datatype address_constraint = AnyAddress | ExactAddress bytes | ProgramIdAddress

record data_range =
  dr_offset :: u32
  dr_size :: u32

definition data_range_end :: "data_range \<Rightarrow> nat" where
  "data_range_end r = unat (dr_offset r) + unat (dr_size r)"

definition data_range_contains :: "data_range \<Rightarrow> nat \<Rightarrow> bool" where
  "data_range_contains r off \<longleftrightarrow> unat (dr_offset r) \<le> off \<and> off < data_range_end r"

datatype lamport_policy_v2 = LamPreserve | LamMayChange | LamDebitOnly | LamCreditOnly
datatype owner_target = TargetExact bytes | TargetProgramId | TargetSystemProgram
datatype owner_policy = OwnPreserve | OwnSetTo owner_target | OwnMayChange
datatype length_policy = LenPreserve | LenExact u32 | LenRange u32 u32 | LenMayChange
datatype presence_policy = PresPreserve | MustRemainPresent | MustCreate | MayCreate | MustClose | MayClose
datatype executable_policy = ExecPreserve | ExecSet bool | ExecMayChange

record transition_policy =
  tp_data :: "data_range list"
  tp_lamports :: lamport_policy_v2
  tp_owner :: owner_policy
  tp_data_length :: length_policy
  tp_presence :: presence_policy
  tp_executable :: executable_policy

record effect_role =
  er_name :: bytes
  er_signer :: privilege_requirement
  er_writable :: privilege_requirement
  er_address :: address_constraint
  er_transition :: transition_policy

datatype duplicate_policy = DenyAll | DenyWritable | AllowDuplicates

record remaining_group =
  rg_name :: bytes
  rg_repeat :: u16
  rg_roles :: "effect_role list"

record remaining_contract =
  rm_complete :: bool
  rm_allow_trailing :: bool
  rm_duplicate_policy :: duplicate_policy
  rm_groups :: "remaining_group list"

record cpi_account_binding =
  cb_child_position :: u16
  cb_parent_position :: u16
  cb_signer :: privilege_requirement
  cb_writable :: privilege_requirement

record cpi_envelope =
  ce_id :: bytes
  ce_program_id :: bytes
  ce_loader_id :: bytes
  ce_executable_digest :: bytes
  ce_discriminator :: bytes
  ce_min_calls :: u16
  ce_max_calls :: u16
  ce_allow_rollback :: bool
  ce_allow_extra_accounts :: bool
  ce_accounts :: "cpi_account_binding list"

datatype cpi_policy = CpiForbidden | CpiDeclared bool "cpi_envelope list"

record contract_completeness =
  cc_accounts :: bool
  cc_data :: bool
  cc_lamports :: bool
  cc_owner :: bool
  cc_data_length :: bool
  cc_presence :: bool
  cc_executable :: bool
  cc_cpi :: bool

record effect_instruction =
  ei_name :: bytes
  ei_discriminator :: bytes
  ei_completeness :: contract_completeness
  ei_accounts :: "effect_role list"
  ei_remaining :: remaining_contract
  ei_cpi :: cpi_policy

record effect_contract =
  ef_abi_version :: bytes
  ef_deployment :: deployment_binding
  ef_instructions :: "effect_instruction list"

datatype effect_error = UnsupportedVersion bytes | InvalidContract

section \<open>Validation\<close>

definition is_prefix :: "bytes \<Rightarrow> bytes \<Rightarrow> bool" where
  "is_prefix left right \<longleftrightarrow> take (length left) right = left"

definition invalid_if :: "bool \<Rightarrow> effect_error + unit" where
  "invalid_if c = (if c then Inl InvalidContract else Inr ())"

text \<open>A loop over the elements that also looks at those behind each.\<close>

fun each_with_rest :: "('a \<Rightarrow> 'a list \<Rightarrow> 'e + unit) \<Rightarrow> 'a list \<Rightarrow> 'e + unit" where
  "each_with_rest check [] = Inr ()"
| "each_with_rest check (x # xs) = sbind (check x xs) (\<lambda>_. each_with_rest check xs)"

definition validate_role_names :: "effect_role list \<Rightarrow> effect_error + unit" where
  "validate_role_names roles =
     each_with_rest (\<lambda>role rest.
       sbind (invalid_if (er_name role = [])) (\<lambda>_. invalid_if (list_ex (\<lambda>other. er_name other = er_name role) rest))) roles"

definition validate_role :: "effect_role \<Rightarrow> effect_error + unit" where
  "validate_role role =
     sbind (each_ok (\<lambda>range. invalid_if (dr_size range = 0 \<or> data_range_end range > 2 ^ 32 - 1)) (tp_data (er_transition role))) (\<lambda>_.
     case tp_data_length (er_transition role) of LenRange lo hi \<Rightarrow> invalid_if (lo > hi) | _ \<Rightarrow> Inr ())"

definition validate_bindings :: "nat \<Rightarrow> cpi_account_binding list \<Rightarrow> effect_error + unit" where
  "validate_bindings parent_account_count accounts =
     each_with_rest (\<lambda>binding rest.
       sbind (invalid_if (unat (cb_parent_position binding) \<ge> parent_account_count)) (\<lambda>_.
       invalid_if (list_ex (\<lambda>other. cb_child_position other = cb_child_position binding) rest))) accounts"

definition envelopes_clash :: "cpi_envelope \<Rightarrow> cpi_envelope \<Rightarrow> effect_error + unit" where
  "envelopes_clash call other =
     sbind (invalid_if (ce_id call = ce_id other)) (\<lambda>_.
     invalid_if (ce_program_id call = ce_program_id other \<and>
       (is_prefix (ce_discriminator call) (ce_discriminator other) \<or> is_prefix (ce_discriminator other) (ce_discriminator call))))"

definition validate_call :: "nat \<Rightarrow> cpi_envelope \<Rightarrow> cpi_envelope list \<Rightarrow> effect_error + unit" where
  "validate_call parent_account_count call rest =
     sbind (invalid_if (ce_id call = [] \<or> ce_discriminator call = [] \<or> length (ce_discriminator call) > 32)) (\<lambda>_.
     sbind (invalid_if (ce_min_calls call > ce_max_calls call \<or> ce_max_calls call = 0)) (\<lambda>_.
     sbind (each_ok (envelopes_clash call) rest) (\<lambda>_.
     sbind (validate_bindings parent_account_count (ce_accounts call)) (\<lambda>_.
     if ce_allow_extra_accounts call then Inr ()
     else
       each_ok (\<lambda>expected. invalid_if (\<not> list_ex (\<lambda>binding. unat (cb_child_position binding) = expected) (ce_accounts call)))
         [0..<length (ce_accounts call)]))))"

definition validate_cpi :: "cpi_policy \<Rightarrow> nat \<Rightarrow> effect_error + unit" where
  "validate_cpi policy parent_account_count =
     (case policy of
        CpiForbidden \<Rightarrow> Inr ()
      | CpiDeclared complete calls \<Rightarrow>
          sbind (invalid_if (complete \<and> list_ex ce_allow_extra_accounts calls)) (\<lambda>_.
          each_with_rest (validate_call parent_account_count) calls))"

text \<open>The loop over the groups adds up the number of accounts.\<close>

fun validate_groups :: "remaining_group list \<Rightarrow> nat \<Rightarrow> effect_error + nat" where
  "validate_groups [] count = Inr count"
| "validate_groups (g # rest) count =
     sbind (invalid_if (rg_name g = [])) (\<lambda>_.
     sbind (invalid_if (list_ex (\<lambda>other. rg_name other = rg_name g) rest)) (\<lambda>_.
     sbind (invalid_if (rg_repeat g > 0 \<and> rg_roles g = [])) (\<lambda>_.
     sbind (validate_role_names (rg_roles g)) (\<lambda>_.
     sbind (each_ok validate_role (rg_roles g)) (\<lambda>_.
     sbind (sok_or (usize_add count (min (length (rg_roles g) * unat (rg_repeat g)) (2 ^ 64 - 1))) InvalidContract) (\<lambda>count.
     validate_groups rest count))))))"

definition validate_instruction :: "effect_instruction \<Rightarrow> effect_error + unit" where
  "validate_instruction i =
     sbind (invalid_if (ei_name i = [])) (\<lambda>_.
     sbind (invalid_if (ei_discriminator i = [] \<or> length (ei_discriminator i) > 32)) (\<lambda>_.
     sbind (invalid_if (cc_accounts (ei_completeness i) \<and>
       (\<not> rm_complete (ei_remaining i) \<or> rm_allow_trailing (ei_remaining i)))) (\<lambda>_.
     sbind (if cc_cpi (ei_completeness i) then
              (case ei_cpi i of CpiDeclared complete _ \<Rightarrow> invalid_if (\<not> complete) | CpiForbidden \<Rightarrow> Inr ())
            else Inr ()) (\<lambda>_.
     sbind (validate_role_names (ei_accounts i)) (\<lambda>_.
     sbind (each_ok validate_role (ei_accounts i)) (\<lambda>_.
     sbind (validate_groups (rm_groups (ei_remaining i)) (length (ei_accounts i))) (\<lambda>total.
     sbind (invalid_if (total > 256)) (\<lambda>_.
     validate_cpi (ei_cpi i) total))))))))"

definition instructions_clash :: "effect_instruction \<Rightarrow> effect_instruction \<Rightarrow> effect_error + unit" where
  "instructions_clash i other =
     sbind (invalid_if (ei_name i = ei_name other)) (\<lambda>_.
     invalid_if (is_prefix (ei_discriminator i) (ei_discriminator other) \<or> is_prefix (ei_discriminator other) (ei_discriminator i)))"

definition validate_contract :: "effect_contract \<Rightarrow> effect_error + unit" where
  "validate_contract c =
     (if ef_abi_version c \<noteq> effect_abi_v2 then Inl (UnsupportedVersion (ef_abi_version c))
      else
        sbind (invalid_if (ef_instructions c = [])) (\<lambda>_.
        each_with_rest (\<lambda>i rest. sbind (validate_instruction i) (\<lambda>_. each_ok (instructions_clash i) rest)) (ef_instructions c)))"

section \<open>Dispatch and expansion\<close>

definition instruction_for_data :: "effect_contract \<Rightarrow> bytes \<Rightarrow> effect_instruction option" where
  "instruction_for_data c data = find (\<lambda>i. is_prefix (ei_discriminator i) data) (ef_instructions c)"

text \<open>The decimal digits \<^verbatim>\<open>format!\<close> prints for a number.\<close>

fun decimal :: "nat \<Rightarrow> bytes" where
  "decimal n = (if n < 10 then [word_of_nat (48 + n)] else decimal (n div 10) @ [word_of_nat (48 + n mod 10)])"

declare decimal.simps [simp del]

definition expanded_name :: "bytes \<Rightarrow> bytes \<Rightarrow> nat \<Rightarrow> bytes" where
  "expanded_name group_name role_name iteration = group_name @ [46] @ role_name @ [91] @ decimal iteration @ [93]"

definition expanded_roles :: "effect_instruction \<Rightarrow> (bytes \<times> effect_role) list" where
  "expanded_roles i =
     List.map (\<lambda>role. (er_name role, role)) (ei_accounts i) @
     concat (List.map (\<lambda>group.
       concat (List.map (\<lambda>iteration.
         List.map (\<lambda>role. (expanded_name (rg_name group) (er_name role) iteration, role)) (rg_roles group))
         [0..<unat (rg_repeat group)]))
       (rm_groups (ei_remaining i)))"

section \<open>Canonical bytes\<close>

fun privilege_tag :: "privilege_requirement \<Rightarrow> u8" where
  "privilege_tag PrivRequired = 0"
| "privilege_tag PrivForbidden = 1"
| "privilege_tag PrivAllowed = 2"

fun duplicate_tag :: "duplicate_policy \<Rightarrow> u8" where
  "duplicate_tag DenyAll = 0"
| "duplicate_tag DenyWritable = 1"
| "duplicate_tag AllowDuplicates = 2"

fun lamport_tag :: "lamport_policy_v2 \<Rightarrow> u8" where
  "lamport_tag LamPreserve = 0"
| "lamport_tag LamMayChange = 1"
| "lamport_tag LamDebitOnly = 2"
| "lamport_tag LamCreditOnly = 3"

fun presence_tag :: "presence_policy \<Rightarrow> u8" where
  "presence_tag PresPreserve = 0"
| "presence_tag MustRemainPresent = 1"
| "presence_tag MustCreate = 2"
| "presence_tag MayCreate = 3"
| "presence_tag MustClose = 4"
| "presence_tag MayClose = 5"

fun encode_binding :: "deployment_binding \<Rightarrow> bytes" where
  "encode_binding (ExactDeployment program_id loader_id executable_digest) = 0 # program_id @ loader_id @ executable_digest"
| "encode_binding (ExactArtifact executable_digest) = 1 # executable_digest"

definition encode_completeness :: "contract_completeness \<Rightarrow> bytes" where
  "encode_completeness c =
     enc_bool (cc_accounts c) @ enc_bool (cc_data c) @ enc_bool (cc_lamports c) @ enc_bool (cc_owner c) @
     enc_bool (cc_data_length c) @ enc_bool (cc_presence c) @ enc_bool (cc_executable c) @ enc_bool (cc_cpi c)"

fun encode_owner :: "owner_policy \<Rightarrow> bytes" where
  "encode_owner OwnPreserve = [0]"
| "encode_owner (OwnSetTo target) =
     1 # (case target of TargetExact address \<Rightarrow> 0 # address | TargetProgramId \<Rightarrow> [1] | TargetSystemProgram \<Rightarrow> [2])"
| "encode_owner OwnMayChange = [2]"

fun encode_length :: "length_policy \<Rightarrow> bytes" where
  "encode_length LenPreserve = [0]"
| "encode_length (LenExact n) = 1 # enc_u32 n"
| "encode_length (LenRange lo hi) = 2 # enc_u32 lo @ enc_u32 hi"
| "encode_length LenMayChange = [3]"

fun encode_address :: "address_constraint \<Rightarrow> bytes" where
  "encode_address AnyAddress = [0]"
| "encode_address (ExactAddress address) = 1 # address"
| "encode_address ProgramIdAddress = [2]"

fun encode_executable :: "executable_policy \<Rightarrow> bytes" where
  "encode_executable ExecPreserve = [0]"
| "encode_executable (ExecSet v) = 1 # enc_bool v"
| "encode_executable ExecMayChange = [2]"

definition encode_range :: "data_range \<Rightarrow> bytes" where
  "encode_range r = enc_u32 (dr_offset r) @ enc_u32 (dr_size r)"

definition encode_role :: "effect_role \<Rightarrow> bytes" where
  "encode_role role =
     encode_bytes (er_name role) @ [privilege_tag (er_signer role)] @ [privilege_tag (er_writable role)] @
     encode_address (er_address role) @ encode_seq encode_range (tp_data (er_transition role)) @
     [lamport_tag (tp_lamports (er_transition role))] @ encode_owner (tp_owner (er_transition role)) @
     encode_length (tp_data_length (er_transition role)) @ [presence_tag (tp_presence (er_transition role))] @
     encode_executable (tp_executable (er_transition role))"

definition encode_call_binding :: "cpi_account_binding \<Rightarrow> bytes" where
  "encode_call_binding b =
     enc_u16 (cb_child_position b) @ enc_u16 (cb_parent_position b) @ [privilege_tag (cb_signer b)] @ [privilege_tag (cb_writable b)]"

definition encode_call :: "cpi_envelope \<Rightarrow> bytes" where
  "encode_call call =
     encode_bytes (ce_id call) @ ce_program_id call @ ce_loader_id call @ ce_executable_digest call @
     encode_bytes (ce_discriminator call) @ enc_u16 (ce_min_calls call) @ enc_u16 (ce_max_calls call) @
     enc_bool (ce_allow_rollback call) @ enc_bool (ce_allow_extra_accounts call) @
     encode_seq encode_call_binding (ce_accounts call)"

fun encode_cpi :: "cpi_policy \<Rightarrow> bytes" where
  "encode_cpi CpiForbidden = [0]"
| "encode_cpi (CpiDeclared complete calls) = 1 # enc_bool complete @ encode_seq encode_call calls"

definition encode_group :: "remaining_group \<Rightarrow> bytes" where
  "encode_group g = encode_bytes (rg_name g) @ enc_u16 (rg_repeat g) @ encode_seq encode_role (rg_roles g)"

definition encode_instruction :: "effect_instruction \<Rightarrow> bytes" where
  "encode_instruction i =
     encode_bytes (ei_name i) @ encode_bytes (ei_discriminator i) @ encode_completeness (ei_completeness i) @
     encode_seq encode_role (ei_accounts i) @ enc_bool (rm_complete (ei_remaining i)) @
     enc_bool (rm_allow_trailing (ei_remaining i)) @ [duplicate_tag (rm_duplicate_policy (ei_remaining i))] @
     encode_seq encode_group (rm_groups (ei_remaining i)) @ encode_cpi (ei_cpi i)"

text \<open>The label \<^verbatim>\<open>grillo.effect-contract.v0.2.c1\<close>.\<close>

definition contract_label :: bytes where
  "contract_label = [103, 114, 105, 108, 108, 111, 46, 101, 102, 102, 101, 99, 116, 45, 99, 111, 110, 116, 114, 97, 99, 116, 46, 118, 48, 46, 50, 46, 99, 49]"

definition canonical_bytes :: "effect_contract \<Rightarrow> effect_error + bytes" where
  "canonical_bytes c =
     sbind (validate_contract c) (\<lambda>_.
     Inr (contract_label @ encode_bytes (ef_abi_version c) @ encode_binding (ef_deployment c) @
       encode_seq encode_instruction (ef_instructions c)))"

definition contract_commitment :: "effect_contract \<Rightarrow> effect_error + bytes" where
  "contract_commitment c = sbind (canonical_bytes c) (\<lambda>b. Inr (sha256 b))"


section \<open>The bytes determine the contract\<close>

lemma tags [simp]:
  "privilege_tag a = privilege_tag b \<longleftrightarrow> a = b" "duplicate_tag d = duplicate_tag e \<longleftrightarrow> d = e"
  "lamport_tag l = lamport_tag m \<longleftrightarrow> l = m" "presence_tag p = presence_tag q \<longleftrightarrow> p = q"
proof -
  show "privilege_tag a = privilege_tag b \<longleftrightarrow> a = b" by (cases a; cases b) simp_all
  show "duplicate_tag d = duplicate_tag e \<longleftrightarrow> d = e" by (cases d; cases e) simp_all
  show "lamport_tag l = lamport_tag m \<longleftrightarrow> l = m" by (cases l; cases m) simp_all
  show "presence_tag p = presence_tag q \<longleftrightarrow> p = q" by (cases p; cases q) simp_all
qed

text \<open>The types of the code: fixed arrays have their size, and a length fits its 32 bits.\<close>

fun binding_ok :: "deployment_binding \<Rightarrow> bool" where
  "binding_ok (ExactDeployment p l e) \<longleftrightarrow> array 32 p \<and> array 32 l \<and> array 32 e"
| "binding_ok (ExactArtifact e) \<longleftrightarrow> array 32 e"

fun owner_ok :: "owner_policy \<Rightarrow> bool" where
  "owner_ok (OwnSetTo (TargetExact address)) \<longleftrightarrow> array 32 address"
| "owner_ok _ \<longleftrightarrow> True"

fun address_ok :: "address_constraint \<Rightarrow> bool" where
  "address_ok (ExactAddress address) \<longleftrightarrow> array 32 address"
| "address_ok _ \<longleftrightarrow> True"

definition role_ok :: "effect_role \<Rightarrow> bool" where
  "role_ok role \<longleftrightarrow> short (er_name role) \<and> address_ok (er_address role) \<and>
     seq_ok (\<lambda>_. True) (tp_data (er_transition role)) \<and> owner_ok (tp_owner (er_transition role))"

definition call_ok :: "cpi_envelope \<Rightarrow> bool" where
  "call_ok call \<longleftrightarrow> short (ce_id call) \<and> array 32 (ce_program_id call) \<and> array 32 (ce_loader_id call) \<and>
     array 32 (ce_executable_digest call) \<and> short (ce_discriminator call) \<and> seq_ok (\<lambda>_. True) (ce_accounts call)"

fun cpi_ok :: "cpi_policy \<Rightarrow> bool" where
  "cpi_ok CpiForbidden \<longleftrightarrow> True"
| "cpi_ok (CpiDeclared complete calls) \<longleftrightarrow> seq_ok call_ok calls"

definition group_ok :: "remaining_group \<Rightarrow> bool" where
  "group_ok g \<longleftrightarrow> short (rg_name g) \<and> seq_ok role_ok (rg_roles g)"

definition instruction_ok :: "effect_instruction \<Rightarrow> bool" where
  "instruction_ok i \<longleftrightarrow> short (ei_name i) \<and> short (ei_discriminator i) \<and> seq_ok role_ok (ei_accounts i) \<and>
     seq_ok group_ok (rm_groups (ei_remaining i)) \<and> cpi_ok (ei_cpi i)"

definition contract_ok :: "effect_contract \<Rightarrow> bool" where
  "contract_ok c \<longleftrightarrow> short (ef_abi_version c) \<and> binding_ok (ef_deployment c) \<and> seq_ok instruction_ok (ef_instructions c)"

interpretation binding_code: prefix_code encode_binding binding_ok
proof unfold_locales
  fix x y r s
  assume "binding_ok x" "binding_ok y"
  then show "encode_binding x @ r = encode_binding y @ s \<longleftrightarrow> x = y \<and> r = s"
    by (cases x; cases y) (auto simp: code_cancel)
qed

interpretation completeness_code: prefix_code encode_completeness "\<lambda>_. True"
  by unfold_locales (simp only: encode_completeness_def append_assoc bool_code.cancel [OF TrueI TrueI], auto intro: contract_completeness.equality)

interpretation owner_code: prefix_code encode_owner owner_ok
proof unfold_locales
  fix x y r s
  assume "owner_ok x" "owner_ok y"
  then show "encode_owner x @ r = encode_owner y @ s \<longleftrightarrow> x = y \<and> r = s"
    by (cases x rule: owner_ok.cases; cases y rule: owner_ok.cases) (auto simp: code_cancel)
qed

interpretation length_code: prefix_code encode_length "\<lambda>_. True"
proof unfold_locales
  fix x y r s
  show "encode_length x @ r = encode_length y @ s \<longleftrightarrow> x = y \<and> r = s"
    by (cases x; cases y) (auto simp: code_cancel)
qed

interpretation address_code: prefix_code encode_address address_ok
proof unfold_locales
  fix x y r s
  assume "address_ok x" "address_ok y"
  then show "encode_address x @ r = encode_address y @ s \<longleftrightarrow> x = y \<and> r = s"
    by (cases x; cases y) (auto simp: code_cancel)
qed

interpretation executable_code: prefix_code encode_executable "\<lambda>_. True"
proof unfold_locales
  fix x y r s
  show "encode_executable x @ r = encode_executable y @ s \<longleftrightarrow> x = y \<and> r = s"
    by (cases x; cases y) (auto simp: code_cancel)
qed

interpretation range_code: prefix_code encode_range "\<lambda>_. True"
  by unfold_locales (auto simp: encode_range_def code_cancel intro: data_range.equality)

lemmas [code_cancel] = binding_code.cancel completeness_code.cancel owner_code.cancel length_code.cancel address_code.cancel
  executable_code.cancel range_code.cancel prefix_code.cancel [OF range_code.seq_code]

lemma transition_eq: "x = y \<longleftrightarrow> tp_data x = tp_data y \<and> tp_lamports x = tp_lamports y \<and> tp_owner x = tp_owner y \<and>
    tp_data_length x = tp_data_length y \<and> tp_presence x = tp_presence y \<and> tp_executable x = tp_executable y"
  for x y :: transition_policy
  by (auto intro: transition_policy.equality)

interpretation role_code: prefix_code encode_role role_ok
  by unfold_locales
    (auto simp: encode_role_def role_ok_def code_cancel transition_eq intro!: effect_role.equality)

interpretation call_binding_code: prefix_code encode_call_binding "\<lambda>_. True"
  by unfold_locales (auto simp: encode_call_binding_def code_cancel intro!: cpi_account_binding.equality)

lemmas [code_cancel] = role_code.cancel prefix_code.cancel [OF role_code.seq_code] call_binding_code.cancel
  prefix_code.cancel [OF call_binding_code.seq_code]

interpretation call_code: prefix_code encode_call call_ok
  by unfold_locales (auto simp: encode_call_def call_ok_def code_cancel intro!: cpi_envelope.equality)

interpretation group_code: prefix_code encode_group group_ok
  by unfold_locales (auto simp: encode_group_def group_ok_def code_cancel intro!: remaining_group.equality)

lemmas [code_cancel] = call_code.cancel prefix_code.cancel [OF call_code.seq_code] group_code.cancel
  prefix_code.cancel [OF group_code.seq_code]

interpretation cpi_code: prefix_code encode_cpi cpi_ok
proof unfold_locales
  fix x y r s
  assume "cpi_ok x" "cpi_ok y"
  then show "encode_cpi x @ r = encode_cpi y @ s \<longleftrightarrow> x = y \<and> r = s"
    by (cases x; cases y) (auto simp: code_cancel)
qed

lemma remaining_eq: "x = y \<longleftrightarrow> rm_complete x = rm_complete y \<and> rm_allow_trailing x = rm_allow_trailing y \<and>
    rm_duplicate_policy x = rm_duplicate_policy y \<and> rm_groups x = rm_groups y" for x y :: remaining_contract
  by (auto intro: remaining_contract.equality)

interpretation instruction_code: prefix_code encode_instruction instruction_ok
  by unfold_locales
    (auto simp: encode_instruction_def instruction_ok_def code_cancel cpi_code.cancel remaining_eq intro!: effect_instruction.equality)

lemmas [code_cancel] = cpi_code.cancel instruction_code.cancel prefix_code.cancel [OF instruction_code.seq_code]

interpretation contract_code: prefix_code
  "\<lambda>c. encode_bytes (ef_abi_version c) @ encode_binding (ef_deployment c) @ encode_seq encode_instruction (ef_instructions c)" contract_ok
  by unfold_locales (auto simp: contract_ok_def code_cancel intro!: effect_contract.equality)

lemma canonical_Inr:
  assumes "canonical_bytes c = Inr b"
  shows "b = contract_label @ encode_bytes (ef_abi_version c) @ encode_binding (ef_deployment c) @ encode_seq encode_instruction (ef_instructions c)"
proof -
  obtain u where "validate_contract c = Inr u" using assms unfolding canonical_bytes_def by (rule sbind_InrE)
  then show ?thesis using assms by (simp add: canonical_bytes_def)
qed

lemma canonical_injective:
  assumes "contract_ok c" and "contract_ok c'" and "canonical_bytes c = Inr b" and "canonical_bytes c' = Inr b"
  shows "c = c'"
proof -
  have "b = contract_label @ encode_bytes (ef_abi_version c) @ encode_binding (ef_deployment c) @ encode_seq encode_instruction (ef_instructions c)"
    "b = contract_label @ encode_bytes (ef_abi_version c') @ encode_binding (ef_deployment c') @ encode_seq encode_instruction (ef_instructions c')"
    by (rule canonical_Inr [OF assms(3)], rule canonical_Inr [OF assms(4)])
  then show ?thesis using contract_code.injective [OF assms(1,2)] by (metis append_same_eq same_append_eq)
qed

section \<open>What validation gives\<close>

lemma invalid_if_Inr [simp]: "invalid_if c = Inr () \<longleftrightarrow> \<not> c"
  by (simp add: invalid_if_def)

lemma each_with_rest_Inr:
  "each_with_rest check xs = Inr () \<longleftrightarrow> (\<forall>k < length xs. check (xs ! k) (drop (Suc k) xs) = Inr ())"
proof (induction xs)
  case (Cons x xs)
  show ?case
  proof
    assume "each_with_rest check (x # xs) = Inr ()"
    then have "check x xs = Inr ()" "each_with_rest check xs = Inr ()" by (auto simp: sbind_Inr)
    then show "\<forall>k < length (x # xs). check ((x # xs) ! k) (drop (Suc k) (x # xs)) = Inr ()"
      using Cons by (auto simp: nth_Cons split: nat.split)
  next
    assume all: "\<forall>k < length (x # xs). check ((x # xs) ! k) (drop (Suc k) (x # xs)) = Inr ()"
    from all have "check x xs = Inr ()" by force
    moreover from all have "\<forall>k < length xs. check (xs ! k) (drop (Suc k) xs) = Inr ()" by force
    ultimately show "each_with_rest check (x # xs) = Inr ()" using Cons by simp
  qed
qed simp

lemma drop_elem: "j < length xs \<Longrightarrow> k < j \<Longrightarrow> xs ! j \<in> set (drop (Suc k) xs)"
  by (auto simp: in_set_conv_nth intro!: exI [of _ "j - Suc k"])

lemma prefixes_comparable: "is_prefix a d \<Longrightarrow> is_prefix b d \<Longrightarrow> is_prefix a b \<or> is_prefix b a"
proof (cases "length a \<le> length b")
  case True
  assume "is_prefix a d" "is_prefix b d"
  then have "take (length a) b = take (length a) d" "take (length a) d = a"
    using True unfolding is_prefix_def by (metis min.absorb1 take_take, simp)
  then show ?thesis by (simp add: is_prefix_def)
next
  case False
  assume "is_prefix a d" "is_prefix b d"
  then have "take (length b) a = take (length b) d" "take (length b) d = b"
    using False unfolding is_prefix_def by (metis min.absorb1 nat_le_linear take_take, simp)
  then show ?thesis by (simp add: is_prefix_def)
qed

text \<open>The pairs an unordered clash check has compared.\<close>

lemma pairwise_distinct:
  assumes "\<forall>k < length xs. \<forall>y \<in> set (drop (Suc k) xs). \<not> clash (xs ! k) y"
    and "\<And>x y. clash x y \<Longrightarrow> clash y x" and "i < length xs" and "j < length xs" and "i \<noteq> j"
  shows "\<not> clash (xs ! i) (xs ! j)"
  using assms drop_elem [of j xs i] drop_elem [of i xs j] by (metis nat_neq_iff)

definition disc_clash :: "bytes \<Rightarrow> bytes \<Rightarrow> bool" where
  "disc_clash a b \<longleftrightarrow> is_prefix a b \<or> is_prefix b a"

lemma validated_instructions:
  assumes "validate_contract c = Inr ()"
  shows "i \<in> set (ef_instructions c) \<Longrightarrow> validate_instruction i = Inr ()"
    and "k < length (ef_instructions c) \<Longrightarrow> l < length (ef_instructions c) \<Longrightarrow> k \<noteq> l \<Longrightarrow>
      ei_name (ef_instructions c ! k) \<noteq> ei_name (ef_instructions c ! l) \<and>
      \<not> disc_clash (ei_discriminator (ef_instructions c ! k)) (ei_discriminator (ef_instructions c ! l))"
proof -
  have each: "\<forall>k < length (ef_instructions c). validate_instruction (ef_instructions c ! k) = Inr () \<and>
      (\<forall>other \<in> set (drop (Suc k) (ef_instructions c)). instructions_clash (ef_instructions c ! k) other = Inr ())"
    using assms by (auto simp: validate_contract_def each_with_rest_Inr each_ok_Inr sbind_Inr split: if_splits)
  then show "i \<in> set (ef_instructions c) \<Longrightarrow> validate_instruction i = Inr ()" by (auto simp: in_set_conv_nth)
  assume kl: "k < length (ef_instructions c)" "l < length (ef_instructions c)" "k \<noteq> l"
  have "\<not> (ei_name (ef_instructions c ! k) = ei_name (ef_instructions c ! l) \<or>
      disc_clash (ei_discriminator (ef_instructions c ! k)) (ei_discriminator (ef_instructions c ! l)))"
    by (rule pairwise_distinct [where clash = "\<lambda>x y. ei_name x = ei_name y \<or> disc_clash (ei_discriminator x) (ei_discriminator y)"])
      (use each kl in \<open>auto simp: instructions_clash_def sbind_Inr disc_clash_def\<close>)
  then show "ei_name (ef_instructions c ! k) \<noteq> ei_name (ef_instructions c ! l) \<and>
      \<not> disc_clash (ei_discriminator (ef_instructions c ! k)) (ei_discriminator (ef_instructions c ! l))" by blast
qed

lemma find_unique:
  assumes "\<And>x y. x \<in> set xs \<Longrightarrow> y \<in> set xs \<Longrightarrow> P x \<Longrightarrow> P y \<Longrightarrow> x = y"
  shows "find P xs = Some x \<longleftrightarrow> x \<in> set xs \<and> P x"
proof
  assume "find P xs = Some x"
  then show "x \<in> set xs \<and> P x" by (auto simp: find_Some_iff)
next
  assume x: "x \<in> set xs \<and> P x"
  then obtain y where "find P xs = Some y" using find_None_iff [of P xs] by (cases "find P xs") auto
  moreover from this have "y \<in> set xs \<and> P y" by (auto simp: find_Some_iff)
  ultimately show "find P xs = Some x" using assms x by metis
qed

lemma dispatch_unique:
  assumes "validate_contract c = Inr ()"
  shows "instruction_for_data c data = Some i \<longleftrightarrow> i \<in> set (ef_instructions c) \<and> is_prefix (ei_discriminator i) data"
  unfolding instruction_for_data_def
proof (rule find_unique)
  fix x y assume "x \<in> set (ef_instructions c)" "y \<in> set (ef_instructions c)"
    "is_prefix (ei_discriminator x) data" "is_prefix (ei_discriminator y) data"
  then show "x = y" using validated_instructions(2) [OF assms] prefixes_comparable
    unfolding disc_clash_def in_set_conv_nth by metis
qed

text \<open>The number of accounts.\<close>

lemma validate_groups_sum:
  "validate_groups gs n = Inr t \<Longrightarrow> t \<le> 256 \<Longrightarrow> n + sum_list (List.map (\<lambda>g. length (rg_roles g) * unat (rg_repeat g)) gs) = t"
proof (induction gs arbitrary: n)
  case (Cons g gs)
  let ?m = "min (length (rg_roles g) * unat (rg_repeat g)) (2 ^ 64 - 1)"
  have rest: "validate_groups gs (n + ?m) = Inr t"
    using Cons(2) by (auto simp: sbind_Inr usize_add_def split: if_splits)
  then have sum: "n + ?m + sum_list (List.map (\<lambda>g. length (rg_roles g) * unat (rg_repeat g)) gs) = t" using Cons(1,3) by blast
  then have "?m \<le> 256" using Cons(3) by simp
  then have "?m = length (rg_roles g) * unat (rg_repeat g)" by (simp add: min_def split: if_splits)
  then show ?case using sum by simp
qed simp

lemma length_expanded: "length (expanded_roles i) =
    length (ei_accounts i) + sum_list (List.map (\<lambda>g. length (rg_roles g) * unat (rg_repeat g)) (rm_groups (ei_remaining i)))"
  by (simp add: expanded_roles_def length_concat comp_def sum_list_triv mult.commute)

lemma validated_expansion:
  assumes "validate_instruction i = Inr ()"
  shows "length (expanded_roles i) \<le> 256" and "validate_cpi (ei_cpi i) (length (expanded_roles i)) = Inr ()"
proof -
  obtain t where t: "validate_groups (rm_groups (ei_remaining i)) (length (ei_accounts i)) = Inr t" "t \<le> 256" "validate_cpi (ei_cpi i) t = Inr ()"
    using assms by (auto simp: validate_instruction_def sbind_Inr)
  then show "length (expanded_roles i) \<le> 256" "validate_cpi (ei_cpi i) (length (expanded_roles i)) = Inr ()"
    using validate_groups_sum [OF t(1,2)] by (simp_all add: length_expanded)
qed

text \<open>The call envelopes.\<close>

definition call_matches :: "bytes \<Rightarrow> bytes \<Rightarrow> cpi_envelope \<Rightarrow> bool" where
  "call_matches program_id data call \<longleftrightarrow> program_id = ce_program_id call \<and> is_prefix (ce_discriminator call) data"

lemma validated_calls:
  assumes "validate_cpi (CpiDeclared complete calls) n = Inr ()"
  shows "k < length calls \<Longrightarrow> l < length calls \<Longrightarrow> call_matches program_id data (calls ! k) \<Longrightarrow> call_matches program_id data (calls ! l) \<Longrightarrow> k = l"
    and "call \<in> set calls \<Longrightarrow> ce_min_calls call \<le> ce_max_calls call \<and>
      list_all (\<lambda>b. unat (cb_parent_position b) < n) (ce_accounts call) \<and> distinct (List.map cb_child_position (ce_accounts call)) \<and>
      (\<not> ce_allow_extra_accounts call \<longrightarrow>
        set (List.map (\<lambda>b. unat (cb_child_position b)) (ce_accounts call)) = {..<length (ce_accounts call)})"
proof -
  have each: "\<forall>k < length calls. validate_call n (calls ! k) (drop (Suc k) calls) = Inr ()"
    using assms by (auto simp: validate_cpi_def sbind_Inr each_with_rest_Inr)
  show "k = l" if kl: "k < length calls" "l < length calls" "call_matches program_id data (calls ! k)" "call_matches program_id data (calls ! l)"
  proof (rule ccontr)
    assume "k \<noteq> l"
    have "\<not> (ce_program_id (calls ! k) = ce_program_id (calls ! l) \<and> disc_clash (ce_discriminator (calls ! k)) (ce_discriminator (calls ! l)))"
      by (rule pairwise_distinct [where clash = "\<lambda>x y. ce_program_id x = ce_program_id y \<and> disc_clash (ce_discriminator x) (ce_discriminator y)"])
        (use each kl \<open>k \<noteq> l\<close> in \<open>auto simp: validate_call_def envelopes_clash_def sbind_Inr each_ok_Inr disc_clash_def\<close>)
    then show False using kl(3,4) prefixes_comparable unfolding call_matches_def disc_clash_def by metis
  qed
  assume "call \<in> set calls"
  then obtain k where k: "k < length calls" "calls ! k = call" by (auto simp: in_set_conv_nth)
  then have call: "validate_call n call (drop (Suc k) calls) = Inr ()" using each by blast
  then have bounds: "ce_min_calls call \<le> ce_max_calls call" by (auto simp: validate_call_def sbind_Inr not_less)
  have bindings: "\<forall>k < length (ce_accounts call). unat (cb_parent_position (ce_accounts call ! k)) < n \<and>
      (\<forall>other \<in> set (drop (Suc k) (ce_accounts call)). cb_child_position other \<noteq> cb_child_position (ce_accounts call ! k))"
    using call by (auto simp: validate_call_def sbind_Inr validate_bindings_def each_with_rest_Inr list_ex_iff not_le)
  have distinct: "distinct (List.map cb_child_position (ce_accounts call))"
    unfolding distinct_conv_nth
  proof (intro allI impI)
    fix a b assume "a < length (List.map cb_child_position (ce_accounts call))" "b < length (List.map cb_child_position (ce_accounts call))" "a \<noteq> b"
    then show "List.map cb_child_position (ce_accounts call) ! a \<noteq> List.map cb_child_position (ce_accounts call) ! b"
      using pairwise_distinct [of "ce_accounts call" "\<lambda>x y. cb_child_position y = cb_child_position x" a b] bindings by auto
  qed
  have "set (List.map (\<lambda>b. unat (cb_child_position b)) (ce_accounts call)) = {..<length (ce_accounts call)}"
    if closed: "\<not> ce_allow_extra_accounts call"
  proof -
    have "{..<length (ce_accounts call)} \<subseteq> (\<lambda>b. unat (cb_child_position b)) ` set (ce_accounts call)"
    proof
      fix x assume "x \<in> {..<length (ce_accounts call)}"
      then have "list_ex (\<lambda>binding. unat (cb_child_position binding) = x) (ce_accounts call)"
        using call closed by (auto simp: validate_call_def sbind_Inr each_ok_Inr)
      then show "x \<in> (\<lambda>b. unat (cb_child_position b)) ` set (ce_accounts call)" by (auto simp: list_ex_iff)
    qed
    moreover have "card ((\<lambda>b. unat (cb_child_position b)) ` set (ce_accounts call)) \<le> length (ce_accounts call)"
      by (meson card_image_le card_length finite_set order_trans)
    ultimately have "{..<length (ce_accounts call)} = (\<lambda>b. unat (cb_child_position b)) ` set (ce_accounts call)"
      by (intro card_seteq) simp_all
    then show ?thesis by simp
  qed
  then show "ce_min_calls call \<le> ce_max_calls call \<and>
      list_all (\<lambda>b. unat (cb_parent_position b) < n) (ce_accounts call) \<and> distinct (List.map cb_child_position (ce_accounts call)) \<and>
      (\<not> ce_allow_extra_accounts call \<longrightarrow>
        set (List.map (\<lambda>b. unat (cb_child_position b)) (ce_accounts call)) = {..<length (ce_accounts call)})"
    using bounds distinct bindings by (auto simp: list_all_length)
qed

section \<open>The properties\<close>

text \<open>
  C25: On a validated contract the order of the instructions does not matter: instruction data
  selects an instruction exactly when its discriminator is a prefix, and at most one has this. The
  account grammar of each expands to at most 256 accounts, and in a declared call policy a child
  invocation matches at most one envelope, whose bindings name each child position once, leave no
  gap in a closed envelope and refer only to accounts of the parent.
\<close>

theorem effect_dispatch_unambiguous:
  assumes "validate_contract c = Inr ()" and "i \<in> set (ef_instructions c)"
  shows "(instruction_for_data c data = Some i \<longleftrightarrow> is_prefix (ei_discriminator i) data) \<and>
    length (expanded_roles i) \<le> 256 \<and>
    (case ei_cpi i of
       CpiForbidden \<Rightarrow> True
     | CpiDeclared complete calls \<Rightarrow>
         (\<forall>k < length calls. \<forall>l < length calls. call_matches p d (calls ! k) \<and> call_matches p d (calls ! l) \<longrightarrow> k = l) \<and>
         (\<forall>call \<in> set calls. ce_min_calls call \<le> ce_max_calls call \<and>
            list_all (\<lambda>b. unat (cb_parent_position b) < length (expanded_roles i)) (ce_accounts call) \<and>
            distinct (List.map cb_child_position (ce_accounts call)) \<and>
            (\<not> ce_allow_extra_accounts call \<longrightarrow>
               set (List.map (\<lambda>b. unat (cb_child_position b)) (ce_accounts call)) = {..<length (ce_accounts call)})))"
proof -
  note valid = validated_instructions(1) [OF assms]
  have "instruction_for_data c data = Some i \<longleftrightarrow> is_prefix (ei_discriminator i) data"
    using dispatch_unique [OF assms(1)] assms(2) by blast
  moreover have "length (expanded_roles i) \<le> 256" by (rule validated_expansion(1) [OF valid])
  moreover have "(\<forall>k < length calls. \<forall>l < length calls. call_matches p d (calls ! k) \<and> call_matches p d (calls ! l) \<longrightarrow> k = l) \<and>
         (\<forall>call \<in> set calls. ce_min_calls call \<le> ce_max_calls call \<and>
            list_all (\<lambda>b. unat (cb_parent_position b) < length (expanded_roles i)) (ce_accounts call) \<and>
            distinct (List.map cb_child_position (ce_accounts call)) \<and>
            (\<not> ce_allow_extra_accounts call \<longrightarrow>
               set (List.map (\<lambda>b. unat (cb_child_position b)) (ce_accounts call)) = {..<length (ce_accounts call)}))"
    if "ei_cpi i = CpiDeclared complete calls" for complete calls
  proof -
    have v: "validate_cpi (CpiDeclared complete calls) (length (expanded_roles i)) = Inr ()"
      using validated_expansion(2) [OF valid] that by simp
    show ?thesis using validated_calls [OF v] by blast
  qed
  ultimately show ?thesis by (cases "ei_cpi i") simp_all
qed

definition frozen_transition :: transition_policy where
  "frozen_transition = \<lparr>tp_data = [], tp_lamports = LamPreserve, tp_owner = OwnPreserve, tp_data_length = LenPreserve,
     tp_presence = PresPreserve, tp_executable = ExecPreserve\<rparr>"

definition sample_envelope :: cpi_envelope where
  "sample_envelope = \<lparr>ce_id = [116], ce_program_id = replicate 32 1, ce_loader_id = replicate 32 2, ce_executable_digest = replicate 32 3,
     ce_discriminator = [3], ce_min_calls = 1, ce_max_calls = 2, ce_allow_rollback = False, ce_allow_extra_accounts = False,
     ce_accounts = [\<lparr>cb_child_position = 0, cb_parent_position = 0, cb_signer = PrivAllowed, cb_writable = PrivRequired\<rparr>]\<rparr>"

definition sample_instruction :: "u8 \<Rightarrow> cpi_policy \<Rightarrow> effect_instruction" where
  "sample_instruction tag policy = \<lparr>ei_name = [115, tag], ei_discriminator = [tag],
     ei_completeness = \<lparr>cc_accounts = True, cc_data = True, cc_lamports = True, cc_owner = True, cc_data_length = True,
       cc_presence = True, cc_executable = True, cc_cpi = True\<rparr>,
     ei_accounts = [\<lparr>er_name = [97], er_signer = PrivForbidden, er_writable = PrivRequired, er_address = AnyAddress, er_transition = frozen_transition\<rparr>],
     ei_remaining = \<lparr>rm_complete = True, rm_allow_trailing = False, rm_duplicate_policy = DenyWritable, rm_groups = []\<rparr>,
     ei_cpi = policy\<rparr>"

definition sample_effects :: effect_contract where
  "sample_effects = \<lparr>ef_abi_version = effect_abi_v2, ef_deployment = ExactArtifact (replicate 32 7),
     ef_instructions = [sample_instruction 1 CpiForbidden, sample_instruction 2 (CpiDeclared True [sample_envelope])]\<rparr>"

lemma sample_validates: "validate_contract sample_effects = Inr ()"
  by (simp add: validate_contract_def sample_effects_def sample_instruction_def sample_envelope_def frozen_transition_def
      validate_instruction_def validate_role_names_def validate_role_def validate_cpi_def validate_call_def validate_bindings_def
      instructions_clash_def is_prefix_def invalid_if_def)

lemma sample_contract_ok: "contract_ok sample_effects"
  by (simp add: contract_ok_def sample_effects_def seq_ok_def short_def array_def effect_abi_v2_def instruction_ok_def sample_instruction_def
      sample_envelope_def frozen_transition_def role_ok_def call_ok_def)

theorem effect_dispatch_unambiguous_witness:
  "instruction_for_data sample_effects [2, 9, 9] = Some (sample_instruction 2 (CpiDeclared True [sample_envelope]))"
  using effect_dispatch_unambiguous [OF sample_validates, of "sample_instruction 2 (CpiDeclared True [sample_envelope])" "[2, 9, 9]"]
  by (simp add: sample_effects_def sample_instruction_def is_prefix_def)

text \<open>
  The commitment covers every field. Two different contracts, both of them valid, have different
  canonical bytes, so equal commitments would exhibit a collision of SHA-256 on exactly these bytes.
\<close>

theorem effect_commitment_binds:
  assumes "contract_ok c" and "contract_ok c'" and "validate_contract c = Inr ()" and "validate_contract c' = Inr ()" and "c \<noteq> c'"
  shows "\<exists>b b'. canonical_bytes c = Inr b \<and> canonical_bytes c' = Inr b' \<and> b \<noteq> b' \<and>
    contract_commitment c = Inr (sha256 b) \<and> contract_commitment c' = Inr (sha256 b')"
proof -
  obtain b b' where b: "canonical_bytes c = Inr b" "canonical_bytes c' = Inr b'" using assms(3,4) by (simp add: canonical_bytes_def)
  then have "b \<noteq> b'" using canonical_injective [OF assms(1,2)] assms(5) by blast
  then show ?thesis using b by (simp add: contract_commitment_def)
qed

theorem effect_commitment_binds_witness:
  "\<exists>b b'. canonical_bytes sample_effects = Inr b \<and>
     canonical_bytes (sample_effects\<lparr>ef_deployment := ExactArtifact (replicate 32 8)\<rparr>) = Inr b' \<and> b \<noteq> b' \<and>
     contract_commitment sample_effects = Inr (sha256 b) \<and>
     contract_commitment (sample_effects\<lparr>ef_deployment := ExactArtifact (replicate 32 8)\<rparr>) = Inr (sha256 b')"
proof (rule effect_commitment_binds [OF _ _ sample_validates])
  show "contract_ok sample_effects" by (rule sample_contract_ok)
  then show "contract_ok (sample_effects\<lparr>ef_deployment := ExactArtifact (replicate 32 8)\<rparr>)" by (simp add: contract_ok_def array_def)
  have "validate_contract (sample_effects\<lparr>ef_deployment := d\<rparr>) = validate_contract sample_effects" for d by (simp add: validate_contract_def)
  then show "validate_contract (sample_effects\<lparr>ef_deployment := ExactArtifact (replicate 32 8)\<rparr>) = Inr ()" using sample_validates by simp
  show "sample_effects \<noteq> sample_effects\<lparr>ef_deployment := ExactArtifact (replicate 32 8)\<rparr>" by (simp add: sample_effects_def)
qed

end
