(* ===== verification/EffectFrame.thy ===== *)
theory EffectFrame imports EffectContract begin

text \<open>
  grillo-verifier/src/frame_v2.rs: the evidence of one invocation with its nested calls, and its
  binding to a contract. Binding is the only way to a bound invocation, so what it checks is what the
  verdict relies on. Shown: what a bound call tree looks like at every node, how it relates to the
  envelopes of the contract, and that the commitment of a frame covers every field of it.
\<close>

section \<open>Evidence\<close>

definition max_invocation_path_depth :: nat where "max_invocation_path_depth = 8"
definition max_invocation_nodes :: nat where "max_invocation_nodes = 64"
definition max_instruction_data_bytes :: nat where "max_instruction_data_bytes = 10240"
definition max_accounts_per_frame :: nat where "max_accounts_per_frame = 256"
definition max_account_data_bytes :: nat where "max_account_data_bytes = 10 * 1024 * 1024"
definition max_loaded_account_data_bytes :: nat where "max_loaded_account_data_bytes = 64 * 1024 * 1024"
definition max_provenance_text_bytes :: nat where "max_provenance_text_bytes = 4096"

record transaction_identity =
  ti_signature :: bytes
  ti_message_hash :: bytes
  ti_bank_slot :: u64
  ti_outer_instruction_index :: u16
  ti_invocation_path :: "u16 list"

record deployment_identity =
  di_program_id :: bytes
  di_loader_id :: bytes
  di_executable_digest :: bytes
  di_programdata_address :: "bytes option"
  di_deployment_slot :: "u64 option"
  di_manifest_commitment :: bytes

record account_ref =
  af_position :: u16
  af_transaction_index :: u16
  af_pubkey :: bytes
  af_signer :: bool
  af_writable :: bool

datatype account_state = Absent | Present (ps_lamports: u64) (ps_owner: bytes) (ps_executable: bool) (ps_data: bytes)

fun is_present :: "account_state \<Rightarrow> bool" where
  "is_present Absent = False"
| "is_present (Present l ow e d) = True"

fun state_lamports :: "account_state \<Rightarrow> u64" where
  "state_lamports Absent = 0"
| "state_lamports (Present l ow e d) = l"

fun state_data_len :: "account_state \<Rightarrow> nat" where
  "state_data_len Absent = 0"
| "state_data_len (Present l ow e d) = length d"

record account_transition =
  at_pubkey :: bytes
  at_pre :: account_state
  at_post :: account_state

record evidence_completeness =
  ev_accounts :: bool
  ev_data :: bool
  ev_lamports :: bool
  ev_owner :: bool
  ev_data_length :: bool
  ev_presence :: bool
  ev_executable :: bool
  ev_cpi :: bool
  ev_touch :: bool

definition all_state_dimensions :: "evidence_completeness \<Rightarrow> bool" where
  "all_state_dimensions e \<longleftrightarrow> ev_accounts e \<and> ev_data e \<and> ev_lamports e \<and> ev_owner e \<and> ev_data_length e \<and>
     ev_presence e \<and> ev_executable e"

datatype observation_boundary = InvocationEntryExit | TransactionPrePost | UnknownBoundary
datatype evidence_provenance = Fixture | RpcObserved bytes | ReplayClaimed bytes | ProviderClaimed bytes bytes

record touch_evidence =
  te_complete :: bool
  te_digest :: "bytes option"

datatype invocation_outcome = Succeeded | Failed | RolledBack

datatype invocation_frame = InvocationFrame
  (fr_genesis_hash: bytes)
  (fr_transaction: transaction_identity)
  (fr_deployment: deployment_identity)
  (fr_instruction_data: bytes)
  (fr_accounts: "account_ref list")
  (fr_states: "account_transition list")
  (fr_touch: touch_evidence)
  (fr_children: "invocation_frame list")
  (fr_outcome: invocation_outcome)
  (fr_boundary: observation_boundary)
  (fr_evidence: evidence_completeness)
  (fr_provenance: evidence_provenance)

datatype bind_error =
    BindInvalidContract effect_error
  | InstructionNotFound
  | DeploymentMismatch string
  | ManifestCommitmentMismatch
  | AccountCount nat nat
  | AccountPosition u16 u16
  | TransactionAccountMismatch u16 u16
  | DeploymentSlotAfterInvocation u64 u64
  | FrameLimitExceeded string nat nat
  | PrivilegeMismatch u16 string
  | AddressMismatch u16
  | DuplicateAccount u16 u16
  | DuplicateState bytes
  | MissingState bytes
  | ExtraState bytes
  | ForbiddenCpi
  | UndeclaredCpi nat
  | CpiCount bytes u16 u16 nat
  | CpiAccountMismatch nat u16
  | CpiContextMismatch nat string
  | CpiAccountNotVisible nat u16
  | CpiPrivilegeEscalation nat u16 string
  | CpiRollbackForbidden nat
  | IncompleteRollbackEvidence nat
  | RolledBackMutation nat bytes
  | InvalidFrame string

section \<open>The shape of a call tree\<close>

definition err_if :: "bool \<Rightarrow> 'e \<Rightarrow> 'e + unit" where
  "err_if c e = (if c then Inl e else Inr ())"

definition usize_saturating_add :: "nat \<Rightarrow> nat \<Rightarrow> nat" where
  "usize_saturating_add a b = min (a + b) (2 ^ 64 - 1)"

definition check_frame_limit :: "string \<Rightarrow> nat \<Rightarrow> nat \<Rightarrow> bind_error + unit" where
  "check_frame_limit resource maximum actual = (if actual \<le> maximum then Inr () else Inl (FrameLimitExceeded resource maximum actual))"

record frame_usage =
  us_nodes :: nat
  us_pre_state_data_bytes :: nat
  us_post_state_data_bytes :: nat

definition charge_state_data :: "nat \<Rightarrow> account_state \<Rightarrow> string \<Rightarrow> bind_error + nat" where
  "charge_state_data total_bytes st resource =
     sbind (check_frame_limit ''account data bytes'' max_account_data_bytes (state_data_len st)) (\<lambda>_.
     let total_bytes = usize_saturating_add total_bytes (state_data_len st) in
     sbind (check_frame_limit resource max_loaded_account_data_bytes total_bytes) (\<lambda>_. Inr total_bytes))"

fun provenance_text_len :: "evidence_provenance \<Rightarrow> nat" where
  "provenance_text_len (RpcObserved endpoint) = length endpoint"
| "provenance_text_len (ReplayClaimed source) = length source"
| "provenance_text_len Fixture = 0"
| "provenance_text_len (ProviderClaimed provider signature) = 0"

text \<open>The loops of \<^verbatim>\<open>validate_frame_shape\<close>, in their order.\<close>

fun position_loop :: "account_ref list \<Rightarrow> nat \<Rightarrow> bind_error + unit" where
  "position_loop [] index = Inr ()"
| "position_loop (a # xs) index =
     sbind (err_if (unat (af_position a) \<noteq> index) (AccountPosition (word_of_nat index) (af_position a))) (\<lambda>_.
     position_loop xs (index + 1))"

definition index_mismatch :: "account_ref \<Rightarrow> account_ref \<Rightarrow> bool" where
  "index_mismatch left right \<longleftrightarrow>
     (af_transaction_index left = af_transaction_index right \<and> af_pubkey left \<noteq> af_pubkey right) \<or>
     (af_pubkey left = af_pubkey right \<and> af_transaction_index left \<noteq> af_transaction_index right)"

definition tx_index_loop :: "account_ref list \<Rightarrow> bind_error + unit" where
  "tx_index_loop accounts =
     each_with_rest (\<lambda>left rest. each_ok (\<lambda>right.
       err_if (index_mismatch left right) (TransactionAccountMismatch (af_position left) (af_position right))) rest) accounts"

fun state_loop :: "account_transition list \<Rightarrow> account_ref list \<Rightarrow> frame_usage \<Rightarrow> bind_error + frame_usage" where
  "state_loop [] accounts usage = Inr usage"
| "state_loop (st # rest) accounts usage =
     sbind (charge_state_data (us_pre_state_data_bytes usage) (at_pre st) ''pre-state data bytes'') (\<lambda>pre.
     sbind (charge_state_data (us_post_state_data_bytes usage) (at_post st) ''post-state data bytes'') (\<lambda>post.
     sbind (err_if (list_ex (\<lambda>other. at_pubkey other = at_pubkey st) rest) (DuplicateState (at_pubkey st))) (\<lambda>_.
     sbind (err_if (\<not> list_ex (\<lambda>a. af_pubkey a = at_pubkey st) accounts) (ExtraState (at_pubkey st))) (\<lambda>_.
     state_loop rest accounts (usage\<lparr>us_pre_state_data_bytes := pre, us_post_state_data_bytes := post\<rparr>)))))"

definition missing_loop :: "account_ref list \<Rightarrow> account_transition list \<Rightarrow> bind_error + unit" where
  "missing_loop accounts states =
     each_ok (\<lambda>a. err_if (\<not> list_ex (\<lambda>st. at_pubkey st = af_pubkey a) states) (MissingState (af_pubkey a))) accounts"

definition rollback_check :: "invocation_frame \<Rightarrow> nat option \<Rightarrow> bind_error + unit" where
  "rollback_check frame child_index =
     (if fr_outcome frame = Succeeded then Inr ()
      else
        let index = (case child_index of Some i \<Rightarrow> i | None \<Rightarrow> 0) in
        sbind (err_if (\<not> all_state_dimensions (fr_evidence frame)) (IncompleteRollbackEvidence index)) (\<lambda>_.
        each_ok (\<lambda>st. err_if (at_pre st \<noteq> at_post st) (RolledBackMutation index (at_pubkey st))) (fr_states frame)))"

definition visible_loop :: "account_ref list \<Rightarrow> nat \<Rightarrow> account_ref list \<Rightarrow> bind_error + unit" where
  "visible_loop parent_accounts child_index child_accounts =
     each_ok (\<lambda>child.
       let visible = filter (\<lambda>p. af_transaction_index p = af_transaction_index child \<and> af_pubkey p = af_pubkey child) parent_accounts in
       sbind (err_if (visible = []) (CpiAccountNotVisible child_index (af_position child))) (\<lambda>_.
       err_if (af_writable child \<and> \<not> list_ex af_writable visible) (CpiPrivilegeEscalation child_index (af_position child) ''writable'')))
       child_accounts"

definition validate_child_context :: "invocation_frame \<Rightarrow> invocation_frame \<Rightarrow> nat \<Rightarrow> bind_error + unit" where
  "validate_child_context parent child child_index =
     sbind (err_if (fr_boundary child \<noteq> InvocationEntryExit) (CpiContextMismatch child_index ''observation_boundary'')) (\<lambda>_.
     sbind (each_ok (\<lambda>(field, matches). err_if (\<not> matches) (CpiContextMismatch child_index field))
       [(''genesis_hash'', fr_genesis_hash parent = fr_genesis_hash child),
        (''signature'', ti_signature (fr_transaction parent) = ti_signature (fr_transaction child)),
        (''message_hash'', ti_message_hash (fr_transaction parent) = ti_message_hash (fr_transaction child)),
        (''bank_slot'', ti_bank_slot (fr_transaction parent) = ti_bank_slot (fr_transaction child)),
        (''outer_instruction_index'',
           ti_outer_instruction_index (fr_transaction parent) = ti_outer_instruction_index (fr_transaction child))]) (\<lambda>_.
     if child_index \<ge> 2 ^ 16 then Inl (InvalidFrame ''CPI child ordinal exceeds u16::MAX'')
     else
       sbind (err_if (ti_invocation_path (fr_transaction child) \<noteq> ti_invocation_path (fr_transaction parent) @ [word_of_nat child_index])
         (CpiContextMismatch child_index ''invocation_path'')) (\<lambda>_.
       visible_loop (fr_accounts parent) child_index (fr_accounts child))))"

text \<open>What is checked at one frame before its children are entered.\<close>

definition validate_node :: "invocation_frame \<Rightarrow> nat option \<Rightarrow> invocation_frame option \<Rightarrow> frame_usage \<Rightarrow> bind_error + frame_usage" where
  "validate_node frame child_index parent usage =
     (let usage = usage\<lparr>us_nodes := usize_saturating_add (us_nodes usage) 1\<rparr> in
      sbind (check_frame_limit ''invocation nodes'' max_invocation_nodes (us_nodes usage)) (\<lambda>_.
      sbind (check_frame_limit ''invocation path depth'' max_invocation_path_depth (length (ti_invocation_path (fr_transaction frame)))) (\<lambda>_.
      sbind (check_frame_limit ''instruction data bytes'' max_instruction_data_bytes (length (fr_instruction_data frame))) (\<lambda>_.
      sbind (check_frame_limit ''provenance text bytes'' max_provenance_text_bytes (provenance_text_len (fr_provenance frame))) (\<lambda>_.
      sbind (check_frame_limit ''accounts per frame'' max_accounts_per_frame (length (fr_accounts frame))) (\<lambda>_.
      sbind (case di_deployment_slot (fr_deployment frame) of
               Some slot \<Rightarrow> err_if (slot > ti_bank_slot (fr_transaction frame)) (DeploymentSlotAfterInvocation slot (ti_bank_slot (fr_transaction frame)))
             | None \<Rightarrow> Inr ()) (\<lambda>_.
      sbind (position_loop (fr_accounts frame) 0) (\<lambda>_.
      sbind (tx_index_loop (fr_accounts frame)) (\<lambda>_.
      sbind (case (parent, child_index) of
               (Some p, Some i) \<Rightarrow> validate_child_context p frame i
             | _ \<Rightarrow> Inr ()) (\<lambda>_.
      sbind (state_loop (fr_states frame) (fr_accounts frame) usage) (\<lambda>usage.
      sbind (if ev_accounts (fr_evidence frame) then missing_loop (fr_accounts frame) (fr_states frame) else Inr ()) (\<lambda>_.
      sbind (rollback_check frame child_index) (\<lambda>_. Inr usage)))))))))))))"

fun validate_frame_shape :: "invocation_frame \<Rightarrow> nat option \<Rightarrow> invocation_frame option \<Rightarrow> frame_usage \<Rightarrow> bind_error + frame_usage"
  and shape_children :: "invocation_frame list \<Rightarrow> nat \<Rightarrow> invocation_frame \<Rightarrow> frame_usage \<Rightarrow> bind_error + frame_usage" where
  "validate_frame_shape (InvocationFrame g t d idata accounts states touch children oc b e p) child_index parent usage =
     (let frame = InvocationFrame g t d idata accounts states touch children oc b e p in
      sbind (validate_node frame child_index parent usage) (\<lambda>usage. shape_children children 0 frame usage))"
| "shape_children [] index frame usage = Inr usage"
| "shape_children (child # children) index frame usage =
     sbind (validate_frame_shape child (Some index) (Some frame) usage) (\<lambda>usage.
     shape_children children (index + 1) frame usage)"

section \<open>Privileges, aliases and nested calls\<close>

fun privilege_valid :: "privilege_requirement \<Rightarrow> bool \<Rightarrow> bool" where
  "privilege_valid PrivRequired actual = actual"
| "privilege_valid PrivForbidden actual = (\<not> actual)"
| "privilege_valid PrivAllowed actual = True"

definition validate_privilege :: "privilege_requirement \<Rightarrow> bool \<Rightarrow> u16 \<Rightarrow> string \<Rightarrow> bind_error + unit" where
  "validate_privilege requirement actual position privilege =
     (if privilege_valid requirement actual then Inr () else Inl (PrivilegeMismatch position privilege))"

fun alias_rejected :: "duplicate_policy \<Rightarrow> account_ref \<Rightarrow> account_ref \<Rightarrow> bool" where
  "alias_rejected DenyAll left right = True"
| "alias_rejected DenyWritable left right = (af_writable left \<or> af_writable right)"
| "alias_rejected AllowDuplicates left right = False"

definition validate_aliases :: "effect_instruction \<Rightarrow> account_ref list \<Rightarrow> bind_error + unit" where
  "validate_aliases i accounts =
     (let policy = rm_duplicate_policy (ei_remaining i) in
      each_with_rest (\<lambda>left rest. each_ok (\<lambda>right.
        if af_pubkey left \<noteq> af_pubkey right then Inr ()
        else err_if (alias_rejected policy left right) (DuplicateAccount (af_position left) (af_position right))) rest) accounts)"

definition validate_cpi_child :: "invocation_frame \<Rightarrow> invocation_frame \<Rightarrow> nat \<Rightarrow> cpi_envelope \<Rightarrow> bind_error + unit" where
  "validate_cpi_child parent child child_index call =
     sbind (err_if (fr_outcome child \<noteq> Succeeded \<and> \<not> ce_allow_rollback call) (CpiRollbackForbidden child_index)) (\<lambda>_.
     sbind (err_if (\<not> ce_allow_extra_accounts call \<and> length (fr_accounts child) \<noteq> length (ce_accounts call))
       (CpiAccountMismatch child_index (word_of_nat (length (fr_accounts child))))) (\<lambda>_.
     each_ok (\<lambda>binding.
       let e = CpiAccountMismatch child_index (cb_child_position binding);
           ci = unat (cb_child_position binding); pa = unat (cb_parent_position binding) in
       if ci \<ge> length (fr_accounts child) then Inl e
       else if pa \<ge> length (fr_accounts parent) then Inl e
       else
         let c = fr_accounts child ! ci; p = fr_accounts parent ! pa in
         err_if (af_pubkey c \<noteq> af_pubkey p \<or>
           isl (validate_privilege (cb_signer binding) (af_signer c) (af_position c) ''child signer'') \<or>
           isl (validate_privilege (cb_writable binding) (af_writable c) (af_position c) ''child writable'')) e)
       (ce_accounts call)))"

text \<open>The first envelope with the program and the discriminator of the child.\<close>

fun find_call :: "invocation_frame \<Rightarrow> cpi_envelope list \<Rightarrow> nat \<Rightarrow> (nat \<times> cpi_envelope) option" where
  "find_call child [] index = None"
| "find_call child (call # calls) index =
     (if di_program_id (fr_deployment child) = ce_program_id call \<and> is_prefix (ce_discriminator call) (fr_instruction_data child)
      then Some (index, call) else find_call child calls (index + 1))"

fun cpi_loop :: "invocation_frame \<Rightarrow> cpi_envelope list \<Rightarrow> invocation_frame list \<Rightarrow> nat \<Rightarrow> nat list \<Rightarrow> bind_error + nat list" where
  "cpi_loop frame calls [] child_index counts = Inr counts"
| "cpi_loop frame calls (child # children) child_index counts =
     (case find_call child calls 0 of
        None \<Rightarrow> Inl (UndeclaredCpi child_index)
      | Some (call_index, call) \<Rightarrow>
          sbind (err_if (di_loader_id (fr_deployment child) \<noteq> ce_loader_id call \<or>
            di_executable_digest (fr_deployment child) \<noteq> ce_executable_digest call) (UndeclaredCpi child_index)) (\<lambda>_.
          let counts = counts[call_index := counts ! call_index + 1] in
          sbind (validate_cpi_child frame child child_index call) (\<lambda>_.
          cpi_loop frame calls children (child_index + 1) counts)))"

definition validate_cpi_policy :: "effect_instruction \<Rightarrow> invocation_frame \<Rightarrow> bind_error + unit" where
  "validate_cpi_policy i frame =
     (case ei_cpi i of
        CpiForbidden \<Rightarrow> err_if (fr_children frame \<noteq> []) ForbiddenCpi
      | CpiDeclared complete calls \<Rightarrow>
          sbind (cpi_loop frame calls (fr_children frame) 0 (replicate (length calls) 0)) (\<lambda>counts.
          each_ok (\<lambda>(call, actual).
            let below_min = ev_cpi (fr_evidence frame) \<and> actual < unat (ce_min_calls call) in
            err_if (below_min \<or> actual > unat (ce_max_calls call)) (CpiCount (ce_id call) (ce_min_calls call) (ce_max_calls call) actual))
            (zip calls counts)))"

section \<open>The commitment of a frame\<close>

fun encode_state :: "account_state \<Rightarrow> bytes" where
  "encode_state Absent = [0]"
| "encode_state (Present l ow e d) = 1 # enc_u64 l @ ow @ enc_bool e @ encode_bytes d"

definition encode_transition :: "account_transition \<Rightarrow> bytes" where
  "encode_transition t = at_pubkey t @ encode_state (at_pre t) @ encode_state (at_post t)"

definition encode_account_ref :: "account_ref \<Rightarrow> bytes" where
  "encode_account_ref a =
     enc_u16 (af_position a) @ enc_u16 (af_transaction_index a) @ af_pubkey a @ enc_bool (af_signer a) @ enc_bool (af_writable a)"

fun encode_option_slot :: "u64 option \<Rightarrow> bytes" where
  "encode_option_slot (Some slot) = 1 # enc_u64 slot"
| "encode_option_slot None = [0]"

definition encode_deployment :: "deployment_identity \<Rightarrow> bytes" where
  "encode_deployment d =
     di_program_id d @ di_loader_id d @ di_executable_digest d @ encode_option_32 (di_programdata_address d) @
     encode_option_slot (di_deployment_slot d) @ di_manifest_commitment d"

definition encode_transaction :: "transaction_identity \<Rightarrow> bytes" where
  "encode_transaction t =
     ti_signature t @ ti_message_hash t @ enc_u64 (ti_bank_slot t) @ enc_u16 (ti_outer_instruction_index t) @
     encode_seq enc_u16 (ti_invocation_path t)"

fun outcome_tag :: "invocation_outcome \<Rightarrow> u8" where
  "outcome_tag Succeeded = 0"
| "outcome_tag Failed = 1"
| "outcome_tag RolledBack = 2"

fun boundary_tag :: "observation_boundary \<Rightarrow> u8" where
  "boundary_tag InvocationEntryExit = 0"
| "boundary_tag TransactionPrePost = 1"
| "boundary_tag UnknownBoundary = 2"

definition encode_evidence :: "evidence_completeness \<Rightarrow> bytes" where
  "encode_evidence e =
     enc_bool (ev_accounts e) @ enc_bool (ev_data e) @ enc_bool (ev_lamports e) @ enc_bool (ev_owner e) @
     enc_bool (ev_data_length e) @ enc_bool (ev_presence e) @ enc_bool (ev_executable e) @ enc_bool (ev_cpi e) @ enc_bool (ev_touch e)"

fun encode_provenance :: "evidence_provenance \<Rightarrow> bytes" where
  "encode_provenance Fixture = [0]"
| "encode_provenance (RpcObserved endpoint) = 1 # encode_bytes endpoint"
| "encode_provenance (ReplayClaimed source) = 2 # encode_bytes source"
| "encode_provenance (ProviderClaimed provider signature) = 3 # provider @ signature"

definition encode_touch :: "touch_evidence \<Rightarrow> bytes" where
  "encode_touch t = enc_bool (te_complete t) @ encode_option_32 (te_digest t)"

fun encode_invocation :: "invocation_frame \<Rightarrow> bytes" where
  "encode_invocation (InvocationFrame g t d idata accounts states touch children oc b e p) =
     g @ encode_transaction t @ encode_deployment d @ encode_bytes idata @
     encode_seq encode_account_ref accounts @ encode_seq encode_transition states @ encode_touch touch @
     encode_len (length children) @ concat (List.map encode_invocation children) @
     [outcome_tag oc] @ [boundary_tag b] @ encode_evidence e @ encode_provenance p"

text \<open>The labels \<^verbatim>\<open>grillo.invocation-frame.v0.2.c1\<close> and \<^verbatim>\<open>grillo.bound-invocation.v0.2.c1\<close>.\<close>

definition frame_label :: bytes where
  "frame_label = [103, 114, 105, 108, 108, 111, 46, 105, 110, 118, 111, 99, 97, 116, 105, 111, 110, 45, 102, 114, 97, 109, 101, 46, 118, 48, 46, 50, 46, 99, 49]"
definition bound_label :: bytes where
  "bound_label = [103, 114, 105, 108, 108, 111, 46, 98, 111, 117, 110, 100, 45, 105, 110, 118, 111, 99, 97, 116, 105, 111, 110, 46, 118, 48, 46, 50, 46, 99, 49]"

definition frame_commitment :: "invocation_frame \<Rightarrow> bytes" where
  "frame_commitment frame = sha256 (frame_label @ encode_invocation frame)"

section \<open>Binding\<close>

record resolved_role =
  rr_name :: bytes
  rr_position :: u16
  rr_pubkey :: bytes
  rr_contract :: effect_role

record bound_invocation =
  bi_contract_commitment :: bytes
  bi_frame_commitment :: bytes
  bi_commitment :: bytes
  bi_instruction :: effect_instruction
  bi_frame :: invocation_frame
  bi_roles :: "resolved_role list"

fun check_deployment :: "deployment_binding \<Rightarrow> deployment_identity \<Rightarrow> bind_error + unit" where
  "check_deployment (ExactDeployment program_id loader_id executable_digest) d =
     sbind (err_if (di_program_id d \<noteq> program_id) (DeploymentMismatch ''program_id'')) (\<lambda>_.
     sbind (err_if (di_loader_id d \<noteq> loader_id) (DeploymentMismatch ''loader_id'')) (\<lambda>_.
     err_if (di_executable_digest d \<noteq> executable_digest) (DeploymentMismatch ''executable_digest'')))"
| "check_deployment (ExactArtifact executable_digest) d =
     err_if (di_executable_digest d \<noteq> executable_digest) (DeploymentMismatch ''executable_digest'')"

fun address_matches :: "address_constraint \<Rightarrow> bytes \<Rightarrow> bytes \<Rightarrow> bool" where
  "address_matches AnyAddress pubkey program_id = True"
| "address_matches (ExactAddress address) pubkey program_id = (pubkey = address)"
| "address_matches ProgramIdAddress pubkey program_id = (pubkey = program_id)"

text \<open>The loop that pairs the expanded roles with the accounts.\<close>

fun role_loop :: "bytes \<Rightarrow> ((bytes \<times> effect_role) \<times> account_ref) list \<Rightarrow> nat \<Rightarrow> bind_error + resolved_role list" where
  "role_loop program_id [] index = Inr []"
| "role_loop program_id (((name, role), a) # rest) index =
     sbind (validate_privilege (er_signer role) (af_signer a) (af_position a) ''signer'') (\<lambda>_.
     sbind (validate_privilege (er_writable role) (af_writable a) (af_position a) ''writable'') (\<lambda>_.
     sbind (err_if (\<not> address_matches (er_address role) (af_pubkey a) program_id) (AddressMismatch (word_of_nat index))) (\<lambda>_.
     sbind (role_loop program_id rest (index + 1)) (\<lambda>roles.
     Inr (\<lparr>rr_name = name, rr_position = word_of_nat index, rr_pubkey = af_pubkey a, rr_contract = role\<rparr> # roles)))))"

definition encode_resolved_role :: "resolved_role \<Rightarrow> bytes" where
  "encode_resolved_role r = encode_bytes (rr_name r) @ enc_u16 (rr_position r) @ rr_pubkey r"

definition bound_bytes :: "bytes \<Rightarrow> bytes \<Rightarrow> effect_instruction \<Rightarrow> resolved_role list \<Rightarrow> bytes" where
  "bound_bytes contract_hash frame_hash i roles =
     bound_label @ contract_hash @ frame_hash @ encode_bytes (ei_name i) @ encode_bytes (ei_discriminator i) @
       encode_seq encode_resolved_role roles"

definition bind_invocation :: "effect_contract \<Rightarrow> invocation_frame \<Rightarrow> bind_error + bound_invocation" where
  "bind_invocation c frame =
     sbind (case validate_contract c of Inl e \<Rightarrow> Inl (BindInvalidContract e) | Inr _ \<Rightarrow> Inr ()) (\<lambda>_.
     sbind (validate_frame_shape frame None None \<lparr>us_nodes = 0, us_pre_state_data_bytes = 0, us_post_state_data_bytes = 0\<rparr>) (\<lambda>_.
     sbind (case contract_commitment c of Inl e \<Rightarrow> Inl (BindInvalidContract e) | Inr h \<Rightarrow> Inr h) (\<lambda>contract_hash.
     sbind (err_if (di_manifest_commitment (fr_deployment frame) \<noteq> contract_hash) ManifestCommitmentMismatch) (\<lambda>_.
     sbind (check_deployment (ef_deployment c) (fr_deployment frame)) (\<lambda>_.
     sbind (sok_or (instruction_for_data c (fr_instruction_data frame)) InstructionNotFound) (\<lambda>i.
     let expanded = expanded_roles i in
     sbind (err_if (length (fr_accounts frame) \<noteq> length expanded) (AccountCount (length expanded) (length (fr_accounts frame)))) (\<lambda>_.
     sbind (role_loop (di_program_id (fr_deployment frame)) (zip expanded (fr_accounts frame)) 0) (\<lambda>roles.
     sbind (validate_aliases i (fr_accounts frame)) (\<lambda>_.
     sbind (validate_cpi_policy i frame) (\<lambda>_.
     let frame_hash = frame_commitment frame in
     Inr \<lparr>bi_contract_commitment = contract_hash, bi_frame_commitment = frame_hash,
       bi_commitment = sha256 (bound_bytes contract_hash frame_hash i roles),
       bi_instruction = i, bi_frame = frame, bi_roles = roles\<rparr>))))))))))"

section \<open>The commitment covers the frame\<close>

lemma frame_tags [simp]:
  "outcome_tag a = outcome_tag b \<longleftrightarrow> a = b" "boundary_tag c = boundary_tag d \<longleftrightarrow> c = d"
proof -
  show "outcome_tag a = outcome_tag b \<longleftrightarrow> a = b" by (cases a; cases b) simp_all
  show "boundary_tag c = boundary_tag d \<longleftrightarrow> c = d" by (cases c; cases d) simp_all
qed

text \<open>The types of the code.\<close>

fun state_ok :: "account_state \<Rightarrow> bool" where
  "state_ok Absent \<longleftrightarrow> True"
| "state_ok (Present l ow e d) \<longleftrightarrow> array 32 ow \<and> short d"

definition change_ok :: "account_transition \<Rightarrow> bool" where
  "change_ok t \<longleftrightarrow> array 32 (at_pubkey t) \<and> state_ok (at_pre t) \<and> state_ok (at_post t)"

definition account_ref_ok :: "account_ref \<Rightarrow> bool" where
  "account_ref_ok a \<longleftrightarrow> array 32 (af_pubkey a)"

definition deployment_ok :: "deployment_identity \<Rightarrow> bool" where
  "deployment_ok d \<longleftrightarrow> array 32 (di_program_id d) \<and> array 32 (di_loader_id d) \<and> array 32 (di_executable_digest d) \<and>
     pred_option (array 32) (di_programdata_address d) \<and> array 32 (di_manifest_commitment d)"

definition transaction_ok :: "transaction_identity \<Rightarrow> bool" where
  "transaction_ok t \<longleftrightarrow> array 64 (ti_signature t) \<and> array 32 (ti_message_hash t) \<and> seq_ok (\<lambda>_. True) (ti_invocation_path t)"

fun provenance_ok :: "evidence_provenance \<Rightarrow> bool" where
  "provenance_ok Fixture \<longleftrightarrow> True"
| "provenance_ok (RpcObserved endpoint) \<longleftrightarrow> short endpoint"
| "provenance_ok (ReplayClaimed source) \<longleftrightarrow> short source"
| "provenance_ok (ProviderClaimed provider signature) \<longleftrightarrow> array 32 provider \<and> array 64 signature"

definition touch_ok :: "touch_evidence \<Rightarrow> bool" where
  "touch_ok t \<longleftrightarrow> pred_option (array 32) (te_digest t)"

fun invocation_ok :: "invocation_frame \<Rightarrow> bool" where
  "invocation_ok (InvocationFrame g t d idata accounts states touch children oc b e p) \<longleftrightarrow>
     array 32 g \<and> transaction_ok t \<and> deployment_ok d \<and> short idata \<and> seq_ok account_ref_ok accounts \<and>
     seq_ok change_ok states \<and> touch_ok touch \<and> short children \<and> (\<forall>c \<in> set children. invocation_ok c) \<and> provenance_ok p"

interpretation state_code: prefix_code encode_state state_ok
proof unfold_locales
  fix x y r s
  assume "state_ok x" "state_ok y"
  then show "encode_state x @ r = encode_state y @ s \<longleftrightarrow> x = y \<and> r = s"
    by (cases x; cases y) (auto simp: code_cancel)
qed

lemmas [code_cancel] = state_code.cancel

interpretation change_code: prefix_code encode_transition change_ok
  by unfold_locales (auto simp: encode_transition_def change_ok_def code_cancel intro!: account_transition.equality)

interpretation account_ref_code: prefix_code encode_account_ref account_ref_ok
  by unfold_locales (auto simp: encode_account_ref_def account_ref_ok_def code_cancel intro!: account_ref.equality)

interpretation slot_code: prefix_code encode_option_slot "\<lambda>_. True"
proof unfold_locales
  fix x y r s
  show "encode_option_slot x @ r = encode_option_slot y @ s \<longleftrightarrow> x = y \<and> r = s" by (cases x; cases y) (auto simp: code_cancel)
qed

lemmas [code_cancel] = prefix_code.cancel [OF change_code.seq_code] prefix_code.cancel [OF account_ref_code.seq_code] slot_code.cancel
  prefix_code.cancel [OF u16_code.seq_code]

interpretation deployment_code: prefix_code encode_deployment deployment_ok
  by unfold_locales (auto simp: encode_deployment_def deployment_ok_def code_cancel intro!: deployment_identity.equality)

interpretation transaction_code: prefix_code encode_transaction transaction_ok
  by unfold_locales (auto simp: encode_transaction_def transaction_ok_def code_cancel intro!: transaction_identity.equality)

lemma evidence_eq: "x = y \<longleftrightarrow> ev_accounts x = ev_accounts y \<and> ev_data x = ev_data y \<and> ev_lamports x = ev_lamports y \<and>
    ev_owner x = ev_owner y \<and> ev_data_length x = ev_data_length y \<and> ev_presence x = ev_presence y \<and>
    ev_executable x = ev_executable y \<and> ev_cpi x = ev_cpi y \<and> ev_touch x = ev_touch y" for x y :: evidence_completeness
  by (cases x; cases y) simp

interpretation evidence_code: prefix_code encode_evidence "\<lambda>_. True"
  by unfold_locales (simp only: encode_evidence_def append_assoc bool_code.cancel [OF TrueI TrueI] evidence_eq conj_assoc)

interpretation provenance_code: prefix_code encode_provenance provenance_ok
proof unfold_locales
  fix x y r s
  assume "provenance_ok x" "provenance_ok y"
  then show "encode_provenance x @ r = encode_provenance y @ s \<longleftrightarrow> x = y \<and> r = s"
    by (cases x; cases y) (auto simp: code_cancel)
qed

interpretation touch_code: prefix_code encode_touch touch_ok
  by unfold_locales (auto simp: encode_touch_def touch_ok_def code_cancel intro!: touch_evidence.equality)

lemmas [code_cancel] = deployment_code.cancel transaction_code.cancel evidence_code.cancel provenance_code.cancel touch_code.cancel

lemma concat_cancel_each:
  assumes "length xs = length ys"
    and "\<And>x y r s. x \<in> set xs \<Longrightarrow> y \<in> set ys \<Longrightarrow> enc x @ r = enc y @ s \<longleftrightarrow> x = y \<and> r = s"
  shows "concat (List.map enc xs) @ r = concat (List.map enc ys) @ s \<longleftrightarrow> xs = ys \<and> r = s"
  using assms
proof (induction xs ys rule: list_induct2)
  case (Cons x xs y ys)
  have "enc x @ (concat (List.map enc xs) @ r) = enc y @ (concat (List.map enc ys) @ s) \<longleftrightarrow>
      x = y \<and> concat (List.map enc xs) @ r = concat (List.map enc ys) @ s" by (rule Cons(3)) simp_all
  moreover have "concat (List.map enc xs) @ r = concat (List.map enc ys) @ s \<longleftrightarrow> xs = ys \<and> r = s" by (rule Cons(2)) (rule Cons(3), simp_all)
  ultimately show ?case by simp
qed simp

lemma encode_invocation_cancel:
  "invocation_ok x \<Longrightarrow> invocation_ok y \<Longrightarrow> encode_invocation x @ r = encode_invocation y @ s \<longleftrightarrow> x = y \<and> r = s"
proof (induction x arbitrary: y r s)
  case (InvocationFrame g t d idata accounts states touch children oc b e p)
  obtain g' t' d' idata' accounts' states' touch' children' oc' b' e' p'
    where y: "y = InvocationFrame g' t' d' idata' accounts' states' touch' children' oc' b' e' p'" by (cases y)
  have kids: "concat (List.map encode_invocation children) @ r1 = concat (List.map encode_invocation children') @ s1 \<longleftrightarrow> children = children' \<and> r1 = s1"
    if "length children = length children'" for r1 s1
    by (rule concat_cancel_each [OF that]) (use InvocationFrame y in auto)
  have short: "length children < 2 ^ 32" "length children' < 2 ^ 32" using InvocationFrame(2,3) y by (simp_all add: short_def)
  have "encode_len (length children) @ concat (List.map encode_invocation children) @ r1 =
      encode_len (length children') @ concat (List.map encode_invocation children') @ s1 \<longleftrightarrow> children = children' \<and> r1 = s1" for r1 s1
    using kids by (auto simp: len_code.cancel [OF short])
  note kids_cancel = this
  have x_ok: "array 32 g" "transaction_ok t" "deployment_ok d" "short idata" "seq_ok account_ref_ok accounts" "seq_ok change_ok states"
    "touch_ok touch" "provenance_ok p" using InvocationFrame(2) by simp_all
  have y_ok: "array 32 g'" "transaction_ok t'" "deployment_ok d'" "short idata'" "seq_ok account_ref_ok accounts'" "seq_ok change_ok states'"
    "touch_ok touch'" "provenance_ok p'" using InvocationFrame(3) y by simp_all
  show ?case unfolding y encode_invocation.simps append_assoc
    by (simp add: kids_cancel array_code.cancel [OF x_ok(1) y_ok(1)] code_cancel x_ok y_ok del: len_code.cancel array_code.cancel)
qed

interpretation frame_code: prefix_code encode_invocation invocation_ok
  by unfold_locales (rule encode_invocation_cancel)

section \<open>The frames of a tree\<close>

fun at_path :: "invocation_frame \<Rightarrow> nat list \<Rightarrow> invocation_frame option" where
  "at_path f [] = Some f"
| "at_path f (k # ks) = (if k < length (fr_children f) then at_path (fr_children f ! k) ks else None)"

fun node_count :: "invocation_frame \<Rightarrow> nat" where
  "node_count (InvocationFrame g t d idata accounts states touch children oc b e p) = Suc (sum_list (List.map node_count children))"

definition checked_node :: "invocation_frame \<Rightarrow> bool" where
  "checked_node f \<longleftrightarrow> (\<exists>child_index parent usage usage'. validate_node f child_index parent usage = Inr usage')"

definition checked_edges :: "invocation_frame \<Rightarrow> bool" where
  "checked_edges f \<longleftrightarrow> (\<forall>k < length (fr_children f). validate_child_context f (fr_children f ! k) k = Inr ())"

lemma err_if_Inr [simp]: "err_if c e = Inr () \<longleftrightarrow> \<not> c" by (simp add: err_if_def)

lemma limit_Inr [simp]: "check_frame_limit resource m n = Inr () \<longleftrightarrow> n \<le> m" by (simp add: check_frame_limit_def)

lemma state_loop_nodes: "state_loop sts accounts u = Inr u' \<Longrightarrow> us_nodes u' = us_nodes u"
  by (induction sts accounts u arbitrary: u' rule: state_loop.induct) (auto simp: sbind_Inr)

lemma validate_node_nodes:
  "validate_node f ci p u = Inr u' \<Longrightarrow> us_nodes u' = Suc (us_nodes u) \<and> us_nodes u' \<le> 64"
proof -
  assume "validate_node f ci p u = Inr u'"
  then obtain v where "state_loop (fr_states f) (fr_accounts f) (u\<lparr>us_nodes := usize_saturating_add (us_nodes u) 1\<rparr>) = Inr v"
    "usize_saturating_add (us_nodes u) 1 \<le> 64" "u' = v"
    by (auto simp: validate_node_def sbind_Inr Let_def max_invocation_nodes_def)
  then show ?thesis using state_loop_nodes by (fastforce simp: usize_saturating_add_def min_def split: if_splits)
qed

lemma validate_node_edge: "validate_node f (Some k) (Some p) u = Inr u' \<Longrightarrow> validate_child_context p f k = Inr ()"
  by (auto simp: validate_node_def sbind_Inr Let_def)

lemma shape_nodes:
  "validate_frame_shape f ci p u = Inr u' \<Longrightarrow>
     us_nodes u' = us_nodes u + node_count f \<and> us_nodes u' \<le> 64 \<and> (\<exists>v. validate_node f ci p u = Inr v) \<and>
     (\<forall>ks n. at_path f ks = Some n \<longrightarrow> checked_node n \<and> checked_edges n)"
  "shape_children cs k f u = Inr u' \<Longrightarrow> us_nodes u \<le> 64 \<Longrightarrow>
     us_nodes u' = us_nodes u + sum_list (List.map node_count cs) \<and> us_nodes u' \<le> 64 \<and>
     (\<forall>j < length cs. validate_child_context f (cs ! j) (k + j) = Inr () \<and>
        (\<forall>ks n. at_path (cs ! j) ks = Some n \<longrightarrow> checked_node n \<and> checked_edges n))"
proof (induction f ci p u and cs k f u arbitrary: u' and u' rule: validate_frame_shape_shape_children.induct)
  case (1 g t d idata accounts states touch children oc b e p ci parent u)
  let ?f = "InvocationFrame g t d idata accounts states touch children oc b e p"
  obtain v where v: "validate_node ?f ci parent u = Inr v" "shape_children children 0 ?f v = Inr u'"
    using 1(2) by (auto simp: sbind_Inr Let_def)
  note nodes = validate_node_nodes [OF v(1)]
  have kids: "us_nodes u' = us_nodes v + sum_list (List.map node_count children) \<and> us_nodes u' \<le> 64 \<and>
     (\<forall>j < length children. validate_child_context ?f (children ! j) (0 + j) = Inr () \<and>
        (\<forall>ks n. at_path (children ! j) ks = Some n \<longrightarrow> checked_node n \<and> checked_edges n))"
    using 1(1) [OF refl v(2)] nodes by blast
  have "checked_node n \<and> checked_edges n" if "at_path ?f ks = Some n" for ks n
  proof (cases ks)
    case Nil
    then have "n = ?f" using that by simp
    then show ?thesis using v(1) kids unfolding checked_node_def checked_edges_def by auto
  next
    case (Cons k ks')
    then show ?thesis using that kids by (auto split: if_splits)
  qed
  then show ?case using kids nodes v(1) by auto
next
  case (3 child children k f u)
  obtain v where v: "validate_frame_shape child (Some k) (Some f) u = Inr v" "shape_children children (k + 1) f v = Inr u'"
    using 3(3) by (auto simp: sbind_Inr)
  note one = 3(1) [OF v(1)]
  then have rest: "us_nodes u' = us_nodes v + sum_list (List.map node_count children) \<and> us_nodes u' \<le> 64 \<and>
     (\<forall>j < length children. validate_child_context f (children ! j) (k + 1 + j) = Inr () \<and>
        (\<forall>ks n. at_path (children ! j) ks = Some n \<longrightarrow> checked_node n \<and> checked_edges n))"
    using 3(2) [OF v(2)] by blast
  have "validate_child_context f child k = Inr ()" using one validate_node_edge by blast
  then show ?case using one rest by (auto simp: nth_Cons split: nat.split)
qed auto


section \<open>What one checked frame is\<close>

text \<open>An account of a caller that the account of a callee is.\<close>

definition passed_down :: "account_ref \<Rightarrow> account_ref \<Rightarrow> bool" where
  "passed_down caller callee \<longleftrightarrow> af_pubkey caller = af_pubkey callee \<and> af_transaction_index caller = af_transaction_index callee \<and>
     (af_writable callee \<longrightarrow> af_writable caller)"

definition same_transaction :: "invocation_frame \<Rightarrow> invocation_frame \<Rightarrow> bool" where
  "same_transaction f n \<longleftrightarrow> fr_genesis_hash f = fr_genesis_hash n \<and> ti_signature (fr_transaction f) = ti_signature (fr_transaction n) \<and>
     ti_message_hash (fr_transaction f) = ti_message_hash (fr_transaction n) \<and>
     ti_bank_slot (fr_transaction f) = ti_bank_slot (fr_transaction n) \<and>
     ti_outer_instruction_index (fr_transaction f) = ti_outer_instruction_index (fr_transaction n)"

definition state_keys :: "invocation_frame \<Rightarrow> bytes set" where "state_keys n = at_pubkey ` set (fr_states n)"
definition account_keys :: "invocation_frame \<Rightarrow> bytes set" where "account_keys n = af_pubkey ` set (fr_accounts n)"

definition frame_sound :: "invocation_frame \<Rightarrow> bool" where
  "frame_sound n \<longleftrightarrow>
     length (fr_accounts n) \<le> 256 \<and> length (ti_invocation_path (fr_transaction n)) \<le> 8 \<and>
     (\<forall>k < length (fr_accounts n). unat (af_position (fr_accounts n ! k)) = k) \<and>
     (\<forall>a \<in> set (fr_accounts n). \<forall>b \<in> set (fr_accounts n). af_transaction_index a = af_transaction_index b \<longleftrightarrow> af_pubkey a = af_pubkey b) \<and>
     distinct (List.map at_pubkey (fr_states n)) \<and> state_keys n \<subseteq> account_keys n \<and>
     (ev_accounts (fr_evidence n) \<longrightarrow> state_keys n = account_keys n) \<and>
     (\<forall>t \<in> set (fr_states n). state_data_len (at_pre t) \<le> max_account_data_bytes \<and> state_data_len (at_post t) \<le> max_account_data_bytes) \<and>
     (fr_outcome n \<noteq> Succeeded \<longrightarrow> all_state_dimensions (fr_evidence n) \<and> (\<forall>t \<in> set (fr_states n). at_pre t = at_post t))"

lemma position_loop_Inr: "position_loop xs i = Inr () \<longleftrightarrow> (\<forall>k < length xs. unat (af_position (xs ! k)) = i + k)"
proof (induction xs i rule: position_loop.induct)
  case (2 a xs i)
  show ?case
  proof
    assume "position_loop (a # xs) i = Inr ()"
    then have "unat (af_position a) = i" "\<forall>k < length xs. unat (af_position (xs ! k)) = i + 1 + k"
      using 2 by (auto simp: sbind_Inr)
    then show "\<forall>k < length (a # xs). unat (af_position ((a # xs) ! k)) = i + k" by (auto simp: nth_Cons split: nat.split)
  next
    assume all: "\<forall>k < length (a # xs). unat (af_position ((a # xs) ! k)) = i + k"
    from all have "unat (af_position a) = i" by force
    moreover from all have "\<forall>k < length xs. unat (af_position (xs ! k)) = i + 1 + k" by force
    ultimately show "position_loop (a # xs) i = Inr ()" using 2 by (simp add: err_if_def)
  qed
qed simp

lemma tx_index_loop_Inr:
  assumes "tx_index_loop xs = Inr ()" and "a \<in> set xs" and "b \<in> set xs"
  shows "af_transaction_index a = af_transaction_index b \<longleftrightarrow> af_pubkey a = af_pubkey b"
proof -
  obtain i j where ij: "i < length xs" "xs ! i = a" "j < length xs" "xs ! j = b" using assms(2,3) by (auto simp: in_set_conv_nth)
  have "\<forall>k < length xs. \<forall>y \<in> set (drop (Suc k) xs). \<not> index_mismatch (xs ! k) y"
    using assms(1) by (simp add: tx_index_loop_def each_with_rest_Inr each_ok_Inr)
  moreover have "index_mismatch x y \<Longrightarrow> index_mismatch y x" for x y by (auto simp: index_mismatch_def)
  ultimately have "\<not> index_mismatch (xs ! i) (xs ! j)" if "i \<noteq> j"
    using pairwise_distinct [of xs index_mismatch i j] ij(1,3) that by blast
  then show ?thesis using ij by (cases "i = j") (auto simp: index_mismatch_def)
qed

lemma charge_Inr: "charge_state_data n st resource = Inr m \<Longrightarrow> state_data_len st \<le> max_account_data_bytes"
  by (auto simp: charge_state_data_def sbind_Inr)

lemma state_loop_Inr:
  "state_loop sts accounts u = Inr u' \<Longrightarrow>
     distinct (List.map at_pubkey sts) \<and> at_pubkey ` set sts \<subseteq> af_pubkey ` set accounts \<and>
     (\<forall>t \<in> set sts. state_data_len (at_pre t) \<le> max_account_data_bytes \<and> state_data_len (at_post t) \<le> max_account_data_bytes)"
proof (induction sts accounts u arbitrary: u' rule: state_loop.induct)
  case (2 st rest accounts usage)
  obtain pre post where step: "charge_state_data (us_pre_state_data_bytes usage) (at_pre st) ''pre-state data bytes'' = Inr pre"
    "charge_state_data (us_post_state_data_bytes usage) (at_post st) ''post-state data bytes'' = Inr post"
    "\<not> list_ex (\<lambda>other. at_pubkey other = at_pubkey st) rest" "list_ex (\<lambda>a. af_pubkey a = at_pubkey st) accounts"
    "state_loop rest accounts (usage\<lparr>us_pre_state_data_bytes := pre, us_post_state_data_bytes := post\<rparr>) = Inr u'"
    using 2(2) by (auto simp: sbind_Inr)
  have "distinct (List.map at_pubkey rest) \<and> at_pubkey ` set rest \<subseteq> af_pubkey ` set accounts \<and>
     (\<forall>t \<in> set rest. state_data_len (at_pre t) \<le> max_account_data_bytes \<and> state_data_len (at_post t) \<le> max_account_data_bytes)"
    by (rule 2(1) [OF step(5)])
  moreover have "at_pubkey st \<notin> set (List.map at_pubkey rest)" using step(3) by (auto simp: list_ex_iff)
  moreover have "at_pubkey st \<in> af_pubkey ` set accounts" using step(4) unfolding list_ex_iff by (metis image_eqI)
  ultimately show ?case using charge_Inr [OF step(1)] charge_Inr [OF step(2)] by simp
qed simp

lemma checked_frame_sound:
  assumes "checked_node n"
  shows "frame_sound n"
proof -
  obtain ci p u u' where node: "validate_node n ci p u = Inr u'" using assms by (auto simp: checked_node_def)
  have size: "length (fr_accounts n) \<le> 256" "length (ti_invocation_path (fr_transaction n)) \<le> 8"
    and pos: "position_loop (fr_accounts n) 0 = Inr ()" and idx: "tx_index_loop (fr_accounts n) = Inr ()"
    and miss: "ev_accounts (fr_evidence n) \<longrightarrow> missing_loop (fr_accounts n) (fr_states n) = Inr ()"
    and roll: "rollback_check n ci = Inr ()"
    using node by (auto simp: validate_node_def sbind_Inr Let_def max_accounts_per_frame_def max_invocation_path_depth_def split: if_splits)
  obtain v v' where st: "state_loop (fr_states n) (fr_accounts n) v = Inr v'"
    using node by (auto simp: validate_node_def sbind_Inr Let_def)
  note states = state_loop_Inr [OF st]
  have all: "account_keys n \<subseteq> state_keys n" if "ev_accounts (fr_evidence n)"
  proof -
    have "\<forall>a \<in> set (fr_accounts n). \<exists>t \<in> set (fr_states n). at_pubkey t = af_pubkey a"
      using miss that by (simp add: missing_loop_def each_ok_Inr list_ex_iff)
    then show ?thesis unfolding account_keys_def state_keys_def by (metis image_eqI image_subsetI)
  qed
  have rolled: "all_state_dimensions (fr_evidence n) \<and> (\<forall>t \<in> set (fr_states n). at_pre t = at_post t)" if "fr_outcome n \<noteq> Succeeded"
    using roll that by (auto simp: rollback_check_def Let_def sbind_Inr each_ok_Inr)
  show ?thesis unfolding frame_sound_def
    using size pos [unfolded position_loop_Inr] tx_index_loop_Inr [OF idx] states all rolled
    by (auto simp: state_keys_def account_keys_def)
qed

lemma child_context_Inr:
  assumes "validate_child_context p c k = Inr ()"
  shows "same_transaction p c" and "fr_boundary c = InvocationEntryExit"
    and "ti_invocation_path (fr_transaction c) = ti_invocation_path (fr_transaction p) @ [word_of_nat k]" and "k < 2 ^ 16"
    and "\<forall>a \<in> set (fr_accounts c). \<exists>r \<in> set (fr_accounts p). passed_down r a"
proof -
  have facts: "fr_boundary c = InvocationEntryExit" "same_transaction p c"
    "ti_invocation_path (fr_transaction c) = ti_invocation_path (fr_transaction p) @ [word_of_nat k]" "k < 2 ^ 16"
    "visible_loop (fr_accounts p) k (fr_accounts c) = Inr ()"
    using assms by (auto simp: validate_child_context_def sbind_Inr same_transaction_def split: if_splits)
  then show "same_transaction p c" "fr_boundary c = InvocationEntryExit"
    "ti_invocation_path (fr_transaction c) = ti_invocation_path (fr_transaction p) @ [word_of_nat k]" "k < 2 ^ 16" by blast+
  show "\<forall>a \<in> set (fr_accounts c). \<exists>r \<in> set (fr_accounts p). passed_down r a"
  proof
    fix a assume "a \<in> set (fr_accounts c)"
    then have "filter (\<lambda>p. af_transaction_index p = af_transaction_index a \<and> af_pubkey p = af_pubkey a) (fr_accounts p) \<noteq> []"
      "af_writable a \<Longrightarrow> list_ex af_writable (filter (\<lambda>p. af_transaction_index p = af_transaction_index a \<and> af_pubkey p = af_pubkey a) (fr_accounts p))"
      using facts(5) by (auto simp: visible_loop_def each_ok_Inr sbind_Inr Let_def)
    then show "\<exists>r \<in> set (fr_accounts p). passed_down r a"
      by (cases "af_writable a") (auto simp: passed_down_def list_ex_iff filter_empty_conv)
  qed
qed

lemma passed_down_trans: "passed_down a b \<Longrightarrow> passed_down b c \<Longrightarrow> passed_down a c"
  by (auto simp: passed_down_def)

lemma same_transaction_trans: "same_transaction a b \<Longrightarrow> same_transaction b c \<Longrightarrow> same_transaction a c"
  by (auto simp: same_transaction_def)

lemma tree_related:
  "at_path f ks = Some n \<Longrightarrow> \<forall>ks n. at_path f ks = Some n \<longrightarrow> checked_edges n \<Longrightarrow>
     same_transaction f n \<and> ti_invocation_path (fr_transaction n) = ti_invocation_path (fr_transaction f) @ List.map word_of_nat ks \<and>
     list_all (\<lambda>k. k < 2 ^ 16) ks \<and> (\<forall>a \<in> set (fr_accounts n). \<exists>r \<in> set (fr_accounts f). passed_down r a)"
proof (induction ks arbitrary: f)
  case Nil
  then show ?case by (auto simp: same_transaction_def passed_down_def)
next
  case (Cons k ks)
  then have k: "k < length (fr_children f)" "at_path (fr_children f ! k) ks = Some n" by (auto split: if_splits)
  let ?c = "fr_children f ! k"
  have edges: "\<forall>ks n. at_path ?c ks = Some n \<longrightarrow> checked_edges n"
  proof (intro allI impI)
    fix js m assume "at_path ?c js = Some m"
    then have "at_path f (k # js) = Some m" using k(1) by simp
    then show "checked_edges m" using Cons(3) by blast
  qed
  have "checked_edges f" using Cons(3) at_path.simps(1) by blast
  then have edge: "validate_child_context f ?c k = Inr ()" using k(1) by (simp add: checked_edges_def)
  note child = child_context_Inr [OF edge]
  note below = Cons(1) [OF k(2) edges]
  have "\<forall>a \<in> set (fr_accounts n). \<exists>r \<in> set (fr_accounts f). passed_down r a"
    using child(5) below passed_down_trans by metis
  then show ?case using child(1,3,4) below same_transaction_trans [of f ?c n] by simp
qed


section \<open>What the call policy gives\<close>

definition child_match :: "cpi_envelope list \<Rightarrow> nat \<Rightarrow> invocation_frame \<Rightarrow> bool" where
  "child_match calls j child \<longleftrightarrow> j < length calls \<and>
     call_matches (di_program_id (fr_deployment child)) (fr_instruction_data child) (calls ! j)"

lemma find_call_Some:
  "find_call child calls k = Some (j, call) \<Longrightarrow> k \<le> j \<and> child_match calls (j - k) child \<and> calls ! (j - k) = call"
proof (induction child calls k rule: find_call.induct)
  case (2 child c calls k)
  show ?case
  proof (cases "di_program_id (fr_deployment child) = ce_program_id c \<and> is_prefix (ce_discriminator c) (fr_instruction_data child)")
    case True
    then show ?thesis using 2(2) by (simp add: child_match_def call_matches_def)
  next
    case False
    then have rest: "k + 1 \<le> j" "child_match calls (j - (k + 1)) child" "calls ! (j - (k + 1)) = call" using 2 by auto
    then have "j - k = Suc (j - (k + 1))" by simp
    then show ?thesis using rest by (simp add: child_match_def)
  qed
qed simp

text \<open>One account of a child as its envelope binds it.\<close>

definition account_bound :: "invocation_frame \<Rightarrow> invocation_frame \<Rightarrow> cpi_account_binding \<Rightarrow> bool" where
  "account_bound parent child b \<longleftrightarrow>
     (let ci = unat (cb_child_position b); pa = unat (cb_parent_position b) in
      ci < length (fr_accounts child) \<and> pa < length (fr_accounts parent) \<and>
      af_pubkey (fr_accounts child ! ci) = af_pubkey (fr_accounts parent ! pa) \<and>
      privilege_valid (cb_signer b) (af_signer (fr_accounts child ! ci)) \<and>
      privilege_valid (cb_writable b) (af_writable (fr_accounts child ! ci)))"

definition child_declared :: "invocation_frame \<Rightarrow> invocation_frame \<Rightarrow> cpi_envelope \<Rightarrow> bool" where
  "child_declared parent child call \<longleftrightarrow>
     di_loader_id (fr_deployment child) = ce_loader_id call \<and> di_executable_digest (fr_deployment child) = ce_executable_digest call \<and>
     (fr_outcome child = Succeeded \<or> ce_allow_rollback call) \<and>
     (ce_allow_extra_accounts call \<or> length (fr_accounts child) = length (ce_accounts call)) \<and>
     list_all (account_bound parent child) (ce_accounts call)"

lemma isl_privilege: "isl (validate_privilege r a p s) \<longleftrightarrow> \<not> privilege_valid r a"
  by (simp add: validate_privilege_def)

lemma validate_cpi_child_Inr:
  "validate_cpi_child parent child k call = Inr () \<longleftrightarrow>
     (fr_outcome child = Succeeded \<or> ce_allow_rollback call) \<and>
     (ce_allow_extra_accounts call \<or> length (fr_accounts child) = length (ce_accounts call)) \<and>
     list_all (account_bound parent child) (ce_accounts call)"
proof -
  have "(let e = CpiAccountMismatch k (cb_child_position b); ci = unat (cb_child_position b); pa = unat (cb_parent_position b) in
      if ci \<ge> length (fr_accounts child) then Inl e
      else if pa \<ge> length (fr_accounts parent) then Inl e
      else
        let c = fr_accounts child ! ci; p = fr_accounts parent ! pa in
        err_if (af_pubkey c \<noteq> af_pubkey p \<or>
          isl (validate_privilege (cb_signer b) (af_signer c) (af_position c) ''child signer'') \<or>
          isl (validate_privilege (cb_writable b) (af_writable c) (af_position c) ''child writable'')) e) = Inr () \<longleftrightarrow>
      account_bound parent child b" for b
    by (auto simp: account_bound_def Let_def isl_privilege not_le)
  then show ?thesis by (auto simp: validate_cpi_child_def sbind_Inr each_ok_Inr list_all_iff)
qed

text \<open>The counts are the numbers of children of each envelope, when no child matches two.\<close>

lemma cpi_loop_Inr:
  assumes "\<And>child j l. child_match calls j child \<Longrightarrow> child_match calls l child \<Longrightarrow> j = l"
    and "cpi_loop frame calls children k counts = Inr counts'" and "length counts = length calls"
  shows "length counts' = length calls \<and>
    (\<forall>j < length calls. counts' ! j = counts ! j + length (filter (child_match calls j) children)) \<and>
    (\<forall>child \<in> set children. \<exists>j. child_match calls j child \<and> child_declared frame child (calls ! j))"
  using assms(2,3)
proof (induction children arbitrary: k counts)
  case (Cons child children)
  obtain i call where found: "find_call child calls 0 = Some (i, call)" using Cons(2) by (cases "find_call child calls 0") auto
  have i: "child_match calls i child" "calls ! i = call" using find_call_Some [OF found] by simp_all
  then have in_range: "i < length calls" by (simp add: child_match_def)
  have step: "child_declared frame child call" "cpi_loop frame calls children (k + 1) (counts[i := counts ! i + 1]) = Inr counts'"
    using Cons(2) found by (auto simp: sbind_Inr Let_def child_declared_def validate_cpi_child_Inr)
  have IH: "length counts' = length calls"
    "\<forall>j < length calls. counts' ! j = counts[i := counts ! i + 1] ! j + length (filter (child_match calls j) children)"
    "\<forall>child \<in> set children. \<exists>j. child_match calls j child \<and> child_declared frame child (calls ! j)"
    using Cons(1) [OF step(2)] Cons(3) by simp_all
  have "counts' ! j = counts ! j + length (filter (child_match calls j) (child # children))" if "j < length calls" for j
  proof (cases "j = i")
    case True
    then show ?thesis using IH(2) i(1) in_range Cons(3) by simp
  next
    case False
    then have "\<not> child_match calls j child" using assms(1) i(1) by blast
    then show ?thesis using IH(2) that False by simp
  qed
  then show ?case using IH(1,3) i step(1) by auto
qed simp

section \<open>What binding gives\<close>

lemma bind_invocationE:
  assumes "bind_invocation c f = Inr b"
  obtains u where "validate_contract c = Inr ()" and "validate_frame_shape f None None \<lparr>us_nodes = 0, us_pre_state_data_bytes = 0, us_post_state_data_bytes = 0\<rparr> = Inr u"
    and "contract_commitment c = Inr (bi_contract_commitment b)" and "di_manifest_commitment (fr_deployment f) = bi_contract_commitment b"
    and "check_deployment (ef_deployment c) (fr_deployment f) = Inr ()"
    and "instruction_for_data c (fr_instruction_data f) = Some (bi_instruction b)"
    and "length (fr_accounts f) = length (expanded_roles (bi_instruction b))"
    and "role_loop (di_program_id (fr_deployment f)) (zip (expanded_roles (bi_instruction b)) (fr_accounts f)) 0 = Inr (bi_roles b)"
    and "validate_aliases (bi_instruction b) (fr_accounts f) = Inr ()" and "validate_cpi_policy (bi_instruction b) f = Inr ()"
    and "bi_frame b = f" and "bi_frame_commitment b = frame_commitment f"
    and "bi_commitment b = sha256 (bound_bytes (bi_contract_commitment b) (frame_commitment f) (bi_instruction b) (bi_roles b))"
proof -
  show thesis
    using assms unfolding bind_invocation_def Let_def
    by (elim sbind_InrE) (auto split: sum.splits if_splits intro: that)
qed

lemma bound_tree:
  assumes "bind_invocation c f = Inr b" and "at_path f ks = Some n"
  shows "frame_sound n" and "node_count f \<le> 64" and "same_transaction f n"
    and "ti_invocation_path (fr_transaction n) = ti_invocation_path (fr_transaction f) @ List.map word_of_nat ks"
    and "list_all (\<lambda>k. k < 2 ^ 16) ks" and "\<forall>a \<in> set (fr_accounts n). \<exists>r \<in> set (fr_accounts f). passed_down r a"
proof -
  obtain u where shape: "validate_frame_shape f None None \<lparr>us_nodes = 0, us_pre_state_data_bytes = 0, us_post_state_data_bytes = 0\<rparr> = Inr u"
    using assms(1) by (rule bind_invocationE)
  note nodes = shape_nodes(1) [OF shape]
  then have edges: "\<forall>ks n. at_path f ks = Some n \<longrightarrow> checked_edges n" by blast
  show "frame_sound n" using nodes assms(2) checked_frame_sound by blast
  show "node_count f \<le> 64" using nodes by simp
  show "same_transaction f n" "ti_invocation_path (fr_transaction n) = ti_invocation_path (fr_transaction f) @ List.map word_of_nat ks"
    "list_all (\<lambda>k. k < 2 ^ 16) ks" "\<forall>a \<in> set (fr_accounts n). \<exists>r \<in> set (fr_accounts f). passed_down r a"
    using tree_related [OF assms(2) edges] by simp_all
qed

lemma bound_calls:
  assumes "bind_invocation c f = Inr b" and "ei_cpi (bi_instruction b) = CpiDeclared complete calls"
  shows "\<forall>child \<in> set (fr_children f). \<exists>!j. child_match calls j child \<and> child_declared f child (calls ! j)"
    and "j < length calls \<Longrightarrow> length (filter (child_match calls j) (fr_children f)) \<le> unat (ce_max_calls (calls ! j)) \<and>
      (ev_cpi (fr_evidence f) \<longrightarrow> unat (ce_min_calls (calls ! j)) \<le> length (filter (child_match calls j) (fr_children f)))"
proof -
  have valid: "validate_contract c = Inr ()" using assms(1) by (rule bind_invocationE)
  have "instruction_for_data c (fr_instruction_data f) = Some (bi_instruction b)" using assms(1) by (rule bind_invocationE)
  then have inst: "bi_instruction b \<in> set (ef_instructions c)" using dispatch_unique [OF valid] by blast
  have policy: "validate_cpi_policy (bi_instruction b) f = Inr ()" using assms(1) by (rule bind_invocationE)
  have cpi: "validate_cpi (CpiDeclared complete calls) (length (expanded_roles (bi_instruction b))) = Inr ()"
    using validated_expansion(2) [OF validated_instructions(1) [OF valid inst]] assms(2) by simp
  have unique: "child_match calls j child \<Longrightarrow> child_match calls l child \<Longrightarrow> j = l" for j l child
    using validated_calls(1) [OF cpi] by (auto simp: child_match_def)
  let ?check = "\<lambda>(call, actual).
      let below_min = ev_cpi (fr_evidence f) \<and> actual < unat (ce_min_calls call) in
      err_if (below_min \<or> actual > unat (ce_max_calls call)) (CpiCount (ce_id call) (ce_min_calls call) (ce_max_calls call) actual)"
  have "sbind (cpi_loop f calls (fr_children f) 0 (replicate (length calls) 0)) (\<lambda>counts. each_ok ?check (zip calls counts)) = Inr ()"
    using policy by (simp only: validate_cpi_policy_def assms(2) cpi_policy.case)
  then obtain counts where counts: "cpi_loop f calls (fr_children f) 0 (replicate (length calls) 0) = Inr counts"
    "each_ok ?check (zip calls counts) = Inr ()"
    by (rule sbind_InrE)
  have loop: "length counts = length calls \<and>
      (\<forall>j < length calls. counts ! j = replicate (length calls) 0 ! j + length (filter (child_match calls j) (fr_children f))) \<and>
      (\<forall>child \<in> set (fr_children f). \<exists>j. child_match calls j child \<and> child_declared f child (calls ! j))"
  proof (rule cpi_loop_Inr [OF _ counts(1) length_replicate])
    fix child j l assume "child_match calls j child" "child_match calls l child"
    then show "j = l" by (rule unique)
  qed
  show "\<forall>child \<in> set (fr_children f). \<exists>!j. child_match calls j child \<and> child_declared f child (calls ! j)"
  proof
    fix child assume "child \<in> set (fr_children f)"
    then obtain j where j: "child_match calls j child" "child_declared f child (calls ! j)" using loop by blast
    show "\<exists>!j. child_match calls j child \<and> child_declared f child (calls ! j)"
    proof (rule ex1I)
      show "child_match calls j child \<and> child_declared f child (calls ! j)" using j by blast
    next
      fix l assume "child_match calls l child \<and> child_declared f child (calls ! l)"
      then show "l = j" using unique [of l child j] j(1) by blast
    qed
  qed
  assume j: "j < length calls"
  then have "(calls ! j, counts ! j) \<in> set (zip calls counts)" using loop by (auto simp: set_zip)
  then have "?check (calls ! j, counts ! j) = Inr ()" using counts(2) unfolding each_ok_Inr by blast
  then have "\<not> (ev_cpi (fr_evidence f) \<and> counts ! j < unat (ce_min_calls (calls ! j)) \<or> counts ! j > unat (ce_max_calls (calls ! j)))"
    by (simp add: Let_def)
  then show "length (filter (child_match calls j) (fr_children f)) \<le> unat (ce_max_calls (calls ! j)) \<and>
      (ev_cpi (fr_evidence f) \<longrightarrow> unat (ce_min_calls (calls ! j)) \<le> length (filter (child_match calls j) (fr_children f)))"
    using loop j by auto
qed


text \<open>Every account plays its role, in the order of the expanded grammar.\<close>

definition plays :: "bytes \<Rightarrow> nat \<Rightarrow> bytes \<times> effect_role \<Rightarrow> account_ref \<Rightarrow> resolved_role \<Rightarrow> bool" where
  "plays program_id k named a r \<longleftrightarrow>
     r = \<lparr>rr_name = fst named, rr_position = word_of_nat k, rr_pubkey = af_pubkey a, rr_contract = snd named\<rparr> \<and>
     privilege_valid (er_signer (snd named)) (af_signer a) \<and> privilege_valid (er_writable (snd named)) (af_writable a) \<and>
     address_matches (er_address (snd named)) (af_pubkey a) program_id"

lemma validate_privilege_Inr [simp]: "validate_privilege r a p s = Inr () \<longleftrightarrow> privilege_valid r a"
  by (simp add: validate_privilege_def)

lemma role_loop_Inr:
  "role_loop program_id xs i = Inr rs \<Longrightarrow>
     length rs = length xs \<and> (\<forall>k < length xs. plays program_id (i + k) (fst (xs ! k)) (snd (xs ! k)) (rs ! k))"
proof (induction program_id xs i arbitrary: rs rule: role_loop.induct)
  case (2 program_id name role a rest i)
  let ?r = "\<lparr>rr_name = name, rr_position = word_of_nat i, rr_pubkey = af_pubkey a, rr_contract = role\<rparr>"
  obtain rs' where step: "privilege_valid (er_signer role) (af_signer a)" "privilege_valid (er_writable role) (af_writable a)"
    "address_matches (er_address role) (af_pubkey a) program_id" "role_loop program_id rest (i + 1) = Inr rs'" "rs = ?r # rs'"
    using 2(2) by (auto simp: sbind_Inr)
  have IH: "length rs' = length rest \<and> (\<forall>k < length rest. plays program_id (i + 1 + k) (fst (rest ! k)) (snd (rest ! k)) (rs' ! k))"
    by (rule 2(1) [OF step(4)])
  have "plays program_id i (name, role) a ?r" using step by (simp add: plays_def)
  then show ?case using IH step(5) by (auto simp: nth_Cons split: nat.split)
qed simp

definition aliases_allowed :: "duplicate_policy \<Rightarrow> account_ref list \<Rightarrow> bool" where
  "aliases_allowed policy as \<longleftrightarrow>
     (\<forall>i < length as. \<forall>j < length as. i \<noteq> j \<and> af_pubkey (as ! i) = af_pubkey (as ! j) \<longrightarrow> \<not> alias_rejected policy (as ! i) (as ! j))"

lemma validate_aliases_Inr: "validate_aliases i as = Inr () \<Longrightarrow> aliases_allowed (rm_duplicate_policy (ei_remaining i)) as"
  unfolding aliases_allowed_def
proof (intro allI impI)
  fix k l assume valid: "validate_aliases i as = Inr ()" and kl: "k < length as" "l < length as" "k \<noteq> l \<and> af_pubkey (as ! k) = af_pubkey (as ! l)"
  let ?clash = "\<lambda>x y. af_pubkey x = af_pubkey y \<and> alias_rejected (rm_duplicate_policy (ei_remaining i)) x y"
  have "\<forall>k < length as. \<forall>y \<in> set (drop (Suc k) as). \<not> ?clash (as ! k) y"
  proof (intro allI impI ballI)
    fix m y assume "m < length as" "y \<in> set (drop (Suc m) as)"
    then show "\<not> ?clash (as ! m) y"
      using valid by (auto simp: validate_aliases_def Let_def each_with_rest_Inr each_ok_Inr split: if_splits)
  qed
  moreover have "?clash y x" if "?clash x y" for x y
    using that by (cases "rm_duplicate_policy (ei_remaining i)") auto
  ultimately have "\<not> ?clash (as ! k) (as ! l)" using pairwise_distinct [of as ?clash k l] kl by blast
  then show "\<not> alias_rejected (rm_duplicate_policy (ei_remaining i)) (as ! k) (as ! l)" using kl by blast
qed

lemma bound_roles:
  assumes "bind_invocation c f = Inr b"
  shows "length (bi_roles b) = length (fr_accounts f)" and "length (expanded_roles (bi_instruction b)) = length (fr_accounts f)"
    and "k < length (fr_accounts f) \<Longrightarrow>
      plays (di_program_id (fr_deployment f)) k (expanded_roles (bi_instruction b) ! k) (fr_accounts f ! k) (bi_roles b ! k)"
    and "aliases_allowed (rm_duplicate_policy (ei_remaining (bi_instruction b))) (fr_accounts f)"
    and "validate_contract c = Inr ()" and "bi_instruction b \<in> set (ef_instructions c)"
    and "is_prefix (ei_discriminator (bi_instruction b)) (fr_instruction_data f)" and "bi_frame b = f"
proof -
  have roles: "role_loop (di_program_id (fr_deployment f)) (zip (expanded_roles (bi_instruction b)) (fr_accounts f)) 0 = Inr (bi_roles b)"
    using assms by (rule bind_invocationE)
  show count: "length (expanded_roles (bi_instruction b)) = length (fr_accounts f)"
    using assms by (rule bind_invocationE) simp
  show "length (bi_roles b) = length (fr_accounts f)" using role_loop_Inr [OF roles] count by simp
  show "plays (di_program_id (fr_deployment f)) k (expanded_roles (bi_instruction b) ! k) (fr_accounts f ! k) (bi_roles b ! k)"
    if "k < length (fr_accounts f)" using role_loop_Inr [OF roles] count that by simp
  have "validate_aliases (bi_instruction b) (fr_accounts f) = Inr ()" using assms by (rule bind_invocationE)
  then show "aliases_allowed (rm_duplicate_policy (ei_remaining (bi_instruction b))) (fr_accounts f)" by (rule validate_aliases_Inr)
  show valid: "validate_contract c = Inr ()" using assms by (rule bind_invocationE)
  have "instruction_for_data c (fr_instruction_data f) = Some (bi_instruction b)" using assms by (rule bind_invocationE)
  then show "bi_instruction b \<in> set (ef_instructions c)" "is_prefix (ei_discriminator (bi_instruction b)) (fr_instruction_data f)"
    using dispatch_unique [OF valid] by blast+
  show "bi_frame b = f" using assms by (rule bind_invocationE)
qed

text \<open>The commitments of a bound invocation.\<close>

definition commitments_differ :: "bound_invocation \<Rightarrow> bound_invocation \<Rightarrow> bool" where
  "commitments_differ b b' \<longleftrightarrow> bi_commitment b \<noteq> bi_commitment b'"

definition contract_bytes :: "effect_contract \<Rightarrow> bytes" where
  "contract_bytes c = contract_label @ encode_bytes (ef_abi_version c) @ encode_binding (ef_deployment c) @ encode_seq encode_instruction (ef_instructions c)"

definition frame_bytes :: "invocation_frame \<Rightarrow> bytes" where
  "frame_bytes f = frame_label @ encode_invocation f"

definition committed_bytes :: "bound_invocation \<Rightarrow> bytes" where
  "committed_bytes b = bound_bytes (bi_contract_commitment b) (bi_frame_commitment b) (bi_instruction b) (bi_roles b)"

lemma bound_hashes:
  assumes "bind_invocation c f = Inr b"
  shows "bi_contract_commitment b = sha256 (contract_bytes c)" and "bi_frame_commitment b = sha256 (frame_bytes f)"
    and "bi_commitment b = sha256 (committed_bytes b)"
proof -
  have "contract_commitment c = Inr (bi_contract_commitment b)" using assms by (rule bind_invocationE)
  then show "bi_contract_commitment b = sha256 (contract_bytes c)"
    using canonical_Inr by (auto simp: contract_commitment_def sbind_Inr contract_bytes_def)
  have "bi_frame_commitment b = frame_commitment f" using assms by (rule bind_invocationE)
  then show fh: "bi_frame_commitment b = sha256 (frame_bytes f)" by (simp add: frame_commitment_def frame_bytes_def)
  have "bi_commitment b = sha256 (bound_bytes (bi_contract_commitment b) (frame_commitment f) (bi_instruction b) (bi_roles b))"
    using assms by (rule bind_invocationE)
  then show "bi_commitment b = sha256 (committed_bytes b)" using fh by (simp add: committed_bytes_def frame_commitment_def frame_bytes_def)
qed

lemma bound_bytes_hashes:
  assumes "bound_bytes h g i rs = bound_bytes h' g' i' rs'" and "length h = 32" and "length h' = 32" and "length g = 32" and "length g' = 32"
  shows "h = h' \<and> g = g'"
  using assms by (simp add: bound_bytes_def)

section \<open>The properties\<close>

text \<open>
  C4: A bound call tree is sound at every node. It has at most 64 nodes; the node at a path of child
  numbers belongs to the same transaction and carries that path; its accounts are numbered, its
  states are one per account key and complete where the evidence says so; a node that did not
  succeed changed nothing; and no nested call, at any depth, has an account that the root does not
  have, nor write access the root does not have to it.
\<close>

theorem bound_tree_is_sound:
  assumes "bind_invocation c f = Inr b" and "at_path f ks = Some n"
  shows "frame_sound n \<and> node_count f \<le> 64 \<and> same_transaction f n \<and>
    ti_invocation_path (fr_transaction n) = ti_invocation_path (fr_transaction f) @ List.map word_of_nat ks \<and>
    (\<forall>a \<in> set (fr_accounts n). \<exists>r \<in> set (fr_accounts f). passed_down r a)"
  using bound_tree [OF assms] by blast

definition sample_hash :: bytes where
  "sample_hash = sha256 (contract_bytes sample_effects)"

definition sample_invocation :: "bytes \<Rightarrow> bytes \<Rightarrow> bytes \<Rightarrow> u16 list \<Rightarrow> invocation_frame list \<Rightarrow> u64 \<Rightarrow> invocation_frame" where
  "sample_invocation program_id digest idata path children lamports = InvocationFrame (replicate 32 0)
     \<lparr>ti_signature = replicate 64 1, ti_message_hash = replicate 32 1, ti_bank_slot = 100, ti_outer_instruction_index = 0,
       ti_invocation_path = path\<rparr>
     \<lparr>di_program_id = program_id, di_loader_id = replicate 32 2, di_executable_digest = digest, di_programdata_address = None,
       di_deployment_slot = Some 50, di_manifest_commitment = sample_hash\<rparr>
     idata
     [\<lparr>af_position = 0, af_transaction_index = 4, af_pubkey = replicate 32 5, af_signer = False, af_writable = True\<rparr>]
     [\<lparr>at_pubkey = replicate 32 5, at_pre = Present lamports (replicate 32 6) False [1, 2, 3],
       at_post = Present lamports (replicate 32 6) False [1, 2, 3]\<rparr>]
     \<lparr>te_complete = False, te_digest = None\<rparr> children Succeeded InvocationEntryExit
     \<lparr>ev_accounts = True, ev_data = True, ev_lamports = True, ev_owner = True, ev_data_length = True, ev_presence = True,
       ev_executable = True, ev_cpi = True, ev_touch = False\<rparr> Fixture"

text \<open>A frame that calls the program of \<^const>\<open>sample_envelope\<close> once.\<close>

definition sample_frame :: "u64 \<Rightarrow> invocation_frame" where
  "sample_frame lamports = sample_invocation (replicate 32 8) (replicate 32 7) [2, 9, 9] []
     [sample_invocation (replicate 32 1) (replicate 32 3) [3] [0] [] lamports] lamports"

lemmas sample_frame_defs = sample_frame_def sample_invocation_def

lemma sample_commitment: "contract_commitment sample_effects = Inr sample_hash"
  using sample_validates by (simp add: contract_commitment_def canonical_bytes_def sample_hash_def contract_bytes_def)

lemma sample_shape: "\<exists>u. validate_frame_shape (sample_frame l) None None \<lparr>us_nodes = 0, us_pre_state_data_bytes = 0, us_post_state_data_bytes = 0\<rparr> = Inr u"
  by (simp add: sample_frame_defs validate_node_def check_frame_limit_def usize_saturating_add_def max_invocation_nodes_def
      max_invocation_path_depth_def max_instruction_data_bytes_def max_provenance_text_bytes_def max_accounts_per_frame_def
      max_account_data_bytes_def max_loaded_account_data_bytes_def err_if_def tx_index_loop_def charge_state_data_def missing_loop_def
      rollback_check_def validate_child_context_def visible_loop_def Let_def)

definition sample_bound :: "u64 \<Rightarrow> bound_invocation" where
  "sample_bound l = (let roles = [\<lparr>rr_name = [97], rr_position = 0, rr_pubkey = replicate 32 5,
       rr_contract = hd (ei_accounts (sample_instruction 2 (CpiDeclared True [sample_envelope])))\<rparr>];
       i = sample_instruction 2 (CpiDeclared True [sample_envelope]); h = frame_commitment (sample_frame l) in
     \<lparr>bi_contract_commitment = sample_hash, bi_frame_commitment = h, bi_commitment = sha256 (bound_bytes sample_hash h i roles),
       bi_instruction = i, bi_frame = sample_frame l, bi_roles = roles\<rparr>)"

lemma sample_binds: "bind_invocation sample_effects (sample_frame l) = Inr (sample_bound l)"
proof -
  obtain u where shape: "validate_frame_shape (sample_frame l) None None \<lparr>us_nodes = 0, us_pre_state_data_bytes = 0, us_post_state_data_bytes = 0\<rparr> = Inr u"
    using sample_shape by blast
  have fields: "fr_deployment (sample_frame l) = \<lparr>di_program_id = replicate 32 8, di_loader_id = replicate 32 2, di_executable_digest = replicate 32 7,
      di_programdata_address = None, di_deployment_slot = Some 50, di_manifest_commitment = sample_hash\<rparr>"
    "fr_instruction_data (sample_frame l) = [2, 9, 9]"
    "fr_accounts (sample_frame l) = [\<lparr>af_position = 0, af_transaction_index = 4, af_pubkey = replicate 32 5, af_signer = False, af_writable = True\<rparr>]"
    by (simp_all add: sample_frame_defs)
  let ?i = "sample_instruction 2 (CpiDeclared True [sample_envelope])"
  have cpi: "validate_cpi_policy ?i (sample_frame l) = Inr ()"
    by (simp add: validate_cpi_policy_def sample_instruction_def sample_envelope_def sample_frame_defs is_prefix_def err_if_def
        validate_cpi_child_def validate_privilege_def Let_def)
  have inst: "instruction_for_data sample_effects [2, 9, 9] = Some ?i"
    by (simp add: instruction_for_data_def sample_effects_def sample_instruction_def is_prefix_def)
  have deploy: "ef_deployment sample_effects = ExactArtifact (replicate 32 7)" by (simp add: sample_effects_def)
  let ?r = "hd (ei_accounts ?i)"
  have roles: "expanded_roles ?i = [([97], ?r)]" "er_signer ?r = PrivForbidden" "er_writable ?r = PrivRequired" "er_address ?r = AnyAddress"
    by (simp_all add: expanded_roles_def sample_instruction_def)
  show ?thesis
    by (simp add: bind_invocation_def sample_validates shape sample_commitment fields inst deploy cpi sample_bound_def Let_def err_if_def
        validate_aliases_def roles validate_privilege_def sok_or_def)
qed

theorem bound_tree_is_sound_witness:
  "frame_sound (hd (fr_children (sample_frame 9))) \<and> same_transaction (sample_frame 9) (hd (fr_children (sample_frame 9)))"
proof -
  have "at_path (sample_frame 9) [0] = Some (hd (fr_children (sample_frame 9)))" by (simp add: sample_frame_defs)
  then show ?thesis using bound_tree_is_sound [OF sample_binds] by blast
qed

text \<open>
  C5: Every direct nested call of a bound frame is declared. An instruction that forbids calls has no
  child; otherwise exactly one envelope fits each child of the root: it has the child's program and
  discriminator, and its rules on loader, digest, accounts, privileges and rollback hold of the child.
  The number of children with the program and discriminator of an envelope is at most its maximum,
  and at least its minimum when the evidence of calls is complete. Calls below the children are not
  held against the contract: they are the business of the contract of the program that made them.
\<close>

theorem bound_calls_are_declared:
  assumes "bind_invocation c f = Inr b"
  shows "case ei_cpi (bi_instruction b) of
      CpiForbidden \<Rightarrow> fr_children f = []
    | CpiDeclared complete calls \<Rightarrow>
        list_all (\<lambda>child. \<exists>!j. child_match calls j child \<and> child_declared f child (calls ! j)) (fr_children f) \<and>
        list_all (\<lambda>j. let actual = length (filter (child_match calls j) (fr_children f)) in
          actual \<le> unat (ce_max_calls (calls ! j)) \<and>
          (ev_cpi (fr_evidence f) \<longrightarrow> unat (ce_min_calls (calls ! j)) \<le> actual)) [0..<length calls]"
proof (cases "ei_cpi (bi_instruction b)")
  case CpiForbidden
  have "validate_cpi_policy (bi_instruction b) f = Inr ()" using assms by (rule bind_invocationE)
  then show ?thesis using CpiForbidden by (simp add: validate_cpi_policy_def)
next
  case (CpiDeclared complete calls)
  note declared = bound_calls [OF assms CpiDeclared]
  show ?thesis unfolding CpiDeclared cpi_policy.case list_all_iff Let_def
    using declared by simp
qed

theorem bound_calls_are_declared_witness:
  "child_declared (sample_frame 9) (hd (fr_children (sample_frame 9))) sample_envelope"
proof -
  have "ei_cpi (bi_instruction (sample_bound 9)) = CpiDeclared True [sample_envelope]"
    by (simp add: sample_bound_def sample_instruction_def Let_def)
  then have "list_all (\<lambda>child. \<exists>!j. child_match [sample_envelope] j child \<and> child_declared (sample_frame 9) child ([sample_envelope] ! j))
      (fr_children (sample_frame 9))"
    using bound_calls_are_declared [OF sample_binds [of 9]] by simp
  moreover have "hd (fr_children (sample_frame 9)) \<in> set (fr_children (sample_frame 9))" by (simp add: sample_frame_defs)
  ultimately obtain j where "child_match [sample_envelope] j (hd (fr_children (sample_frame 9)))"
    "child_declared (sample_frame 9) (hd (fr_children (sample_frame 9))) ([sample_envelope] ! j)"
    unfolding list_all_iff by blast
  then show ?thesis by (simp add: child_match_def)
qed

text \<open>
  C6: The commitment of a bound invocation is that of one contract and one frame. Two bindings of
  different contracts or different frames, the nested calls included, have different commitments
  unless SHA-256 collides on bytes the theorem names: those of the bound invocations, of the
  contracts or of the frames.
\<close>

theorem bound_commitment_binds:
  assumes "bind_invocation c f = Inr b" and "bind_invocation c' f' = Inr b'" and "(c, f) \<noteq> (c', f')"
    and "contract_ok c" and "contract_ok c'" and "invocation_ok f" and "invocation_ok f'"
  shows "commitments_differ b b' \<or> collision (committed_bytes b) (committed_bytes b') \<or>
    collision (contract_bytes c) (contract_bytes c') \<or> collision (frame_bytes f) (frame_bytes f')"
proof (rule ccontr)
  assume no: "\<not> ?thesis"
  note h = bound_hashes [OF assms(1)] and h' = bound_hashes [OF assms(2)]
  have "committed_bytes b = committed_bytes b'" using no h(3) h'(3) by (simp add: collision_def commitments_differ_def)
  then have "bi_contract_commitment b = bi_contract_commitment b' \<and> bi_frame_commitment b = bi_frame_commitment b'"
    unfolding committed_bytes_def by (rule bound_bytes_hashes) (simp_all add: h h' length_sha256)
  then have "contract_bytes c = contract_bytes c'" "frame_bytes f = frame_bytes f'"
    using no h(1,2) h'(1,2) by (simp_all add: collision_def)
  then have "c = c' \<and> f = f'"
    using contract_code.injective [OF assms(4,5)] frame_code.injective [OF assms(6,7)]
    by (simp add: contract_bytes_def frame_bytes_def)
  then show False using assms(3) by simp
qed

theorem bound_commitment_binds_witness:
  "commitments_differ (sample_bound 9) (sample_bound 10) \<or> collision (committed_bytes (sample_bound 9)) (committed_bytes (sample_bound 10)) \<or>
    collision (contract_bytes sample_effects) (contract_bytes sample_effects) \<or> collision (frame_bytes (sample_frame 9)) (frame_bytes (sample_frame 10))"
proof (rule bound_commitment_binds [OF sample_binds sample_binds])
  show "(sample_effects, sample_frame 9) \<noteq> (sample_effects, sample_frame 10)" by (simp add: sample_frame_defs)
  show "contract_ok sample_effects" "contract_ok sample_effects" by (rule sample_contract_ok)+
  show "invocation_ok (sample_frame 9)" "invocation_ok (sample_frame 10)"
    by (simp_all add: sample_frame_defs array_def short_def transaction_ok_def seq_ok_def deployment_ok_def account_ref_ok_def
        touch_ok_def change_ok_def sample_hash_def length_sha256)
qed

end
