(* ===== verification/EffectVerdict.thy ===== *)
theory EffectVerdict imports EffectFrame "HOL-Library.List_Lexorder" begin

text \<open>
  grillo-verifier/src/verify_v2.rs: the verdict on a bound invocation. The verdict function takes a bound
  invocation, which only \<^const>\<open>bind_invocation\<close> makes; what binding has checked is what keeps the one
  \<^verbatim>\<open>expect\<close> of the code from panicking and its clamps and saturating sums from losing anything.
  Shown: the verdict is exact, in both directions, for the policies of the contract read as
  conditions on the accounts before and after.
\<close>

section \<open>Verdicts\<close>

datatype violation_v2 =
    DataWriteOutsidePolicy bytes u16 u32
  | LamportTransition bytes u16 u64 u64
  | OwnerTransition bytes u16
  | DataLengthTransition bytes u16 u32 u32
  | PresenceTransition bytes u16
  | ExecutableTransition bytes u16

datatype inconclusive_reason_v2 =
    ContractDimensionIncomplete string
  | EvidenceDimensionIncomplete string
  | InvocationDidNotSucceed
  | InvocationBoundaryRequired

datatype unverified_authenticity = Unauthenticated

record pass_evidence_v2 =
  pv_contract_commitment :: bytes
  pv_frame_commitment :: bytes
  pv_bound_commitment :: bytes
  pv_verdict_commitment :: bytes
  pv_provenance :: evidence_provenance
  pv_authenticity :: unverified_authenticity
  pv_observed_accounts :: "bytes list"
  pv_changed_data_bytes :: u64

datatype effect_verdict = EffectPass pass_evidence_v2 | EffectViolation "violation_v2 list" | EffectInconclusive inconclusive_reason_v2

fun effect_is_pass :: "effect_verdict \<Rightarrow> bool" where
  "effect_is_pass (EffectPass e) = True"
| "effect_is_pass v = False"

section \<open>Completeness\<close>

fun first_incomplete :: "(string \<times> bool) list \<Rightarrow> string option" where
  "first_incomplete [] = None"
| "first_incomplete ((name, complete) # rest) = (if \<not> complete then Some name else first_incomplete rest)"

definition first_incomplete_contract :: "contract_completeness \<Rightarrow> string option" where
  "first_incomplete_contract c = first_incomplete
     [(''accounts'', cc_accounts c), (''data'', cc_data c), (''lamports'', cc_lamports c), (''owner'', cc_owner c),
      (''dataLength'', cc_data_length c), (''presence'', cc_presence c), (''executable'', cc_executable c), (''cpi'', cc_cpi c)]"

definition first_incomplete_evidence :: "evidence_completeness \<Rightarrow> string option" where
  "first_incomplete_evidence e = first_incomplete
     [(''accounts'', ev_accounts e), (''data'', ev_data e), (''lamports'', ev_lamports e), (''owner'', ev_owner e),
      (''dataLength'', ev_data_length e), (''presence'', ev_presence e), (''executable'', ev_executable e), (''cpi'', ev_cpi e)]"

section \<open>The transition of one account\<close>

fun state_owner :: "account_state \<Rightarrow> bytes option" where
  "state_owner Absent = None"
| "state_owner (Present l ow e d) = Some ow"

fun state_executable :: "account_state \<Rightarrow> bool option" where
  "state_executable Absent = None"
| "state_executable (Present l ow e d) = Some e"

fun data_or_empty :: "account_state \<Rightarrow> bytes" where
  "data_or_empty Absent = []"
| "data_or_empty (Present l ow e d) = d"

definition get_byte :: "bytes \<Rightarrow> nat \<Rightarrow> u8 option" where
  "get_byte d k = (if k < length d then Some (d ! k) else None)"

definition changed_bytes :: "account_transition \<Rightarrow> u64" where
  "changed_bytes st =
     (let pre_data = data_or_empty (at_pre st); post_data = data_or_empty (at_post st) in
      fold (\<lambda>_ count. word_saturating_add count 1)
        (filter (\<lambda>k. get_byte pre_data k \<noteq> get_byte post_data k) [0..<max (length pre_data) (length post_data)]) 0)"

fun owner_transition_ok :: "owner_policy \<Rightarrow> account_state \<Rightarrow> account_state \<Rightarrow> bytes \<Rightarrow> bool" where
  "owner_transition_ok OwnMayChange pre post program_id = True"
| "owner_transition_ok OwnPreserve pre post program_id = (state_owner pre = state_owner post)"
| "owner_transition_ok (OwnSetTo target) pre post program_id =
     (case state_owner post of
        None \<Rightarrow> False
      | Some post_owner \<Rightarrow>
          (case target of
             TargetExact address \<Rightarrow> post_owner = address
           | TargetProgramId \<Rightarrow> post_owner = program_id
           | TargetSystemProgram \<Rightarrow> post_owner = replicate 32 0))"

fun executable_transition_ok :: "executable_policy \<Rightarrow> account_state \<Rightarrow> account_state \<Rightarrow> bool" where
  "executable_transition_ok ExecMayChange pre post = True"
| "executable_transition_ok ExecPreserve pre post = (state_executable pre = state_executable post)"
| "executable_transition_ok (ExecSet v) pre post = (state_executable post = Some v)"

text \<open>The three matches \<^verbatim>\<open>verify_role\<close> has in its body.\<close>

fun presence_ok :: "presence_policy \<Rightarrow> bool \<Rightarrow> bool \<Rightarrow> bool" where
  "presence_ok PresPreserve pre post = (pre = post)"
| "presence_ok MustRemainPresent pre post = (pre \<and> post)"
| "presence_ok MustCreate pre post = (\<not> pre \<and> post)"
| "presence_ok MayCreate pre post = post"
| "presence_ok MustClose pre post = (pre \<and> \<not> post)"
| "presence_ok MayClose pre post = pre"

fun lamports_ok :: "lamport_policy_v2 \<Rightarrow> u64 \<Rightarrow> u64 \<Rightarrow> bool" where
  "lamports_ok LamPreserve pre post = (pre = post)"
| "lamports_ok LamMayChange pre post = True"
| "lamports_ok LamDebitOnly pre post = (post \<le> pre)"
| "lamports_ok LamCreditOnly pre post = (post \<ge> pre)"

fun length_ok :: "length_policy \<Rightarrow> u32 \<Rightarrow> u32 \<Rightarrow> bool" where
  "length_ok LenPreserve pre post = (pre = post)"
| "length_ok (LenExact n) pre post = (post = n)"
| "length_ok (LenRange lo hi) pre post = (lo \<le> post \<and> post \<le> hi)"
| "length_ok LenMayChange pre post = True"

definition clamped_len :: "account_state \<Rightarrow> u32" where
  "clamped_len st = word_of_nat (min (state_data_len st) (2 ^ 32 - 1))"

fun data_loop :: "bytes \<Rightarrow> u16 \<Rightarrow> data_range list \<Rightarrow> bytes \<Rightarrow> bytes \<Rightarrow> nat list \<Rightarrow> violation_v2 list \<Rightarrow> violation_v2 list" where
  "data_loop name position ranges pre_data post_data [] violations = violations"
| "data_loop name position ranges pre_data post_data (k # ks) violations =
     (if get_byte pre_data k = get_byte post_data k then data_loop name position ranges pre_data post_data ks violations
      else
        let authorized = list_ex (\<lambda>r. data_range_contains r k) ranges in
        data_loop name position ranges pre_data post_data ks
          (if \<not> authorized then violations @ [DataWriteOutsidePolicy name position (word_of_nat k)] else violations))"

definition verify_role :: "bytes \<Rightarrow> u16 \<Rightarrow> effect_role \<Rightarrow> account_transition \<Rightarrow> bytes \<Rightarrow> violation_v2 list \<Rightarrow> violation_v2 list" where
  "verify_role name position contract st program_id violations =
     (let policy = er_transition contract; pre = at_pre st; post = at_post st;
          violations = (if \<not> presence_ok (tp_presence policy) (is_present pre) (is_present post)
            then violations @ [PresenceTransition name position] else violations);
          violations = (if \<not> lamports_ok (tp_lamports policy) (state_lamports pre) (state_lamports post)
            then violations @ [LamportTransition name position (state_lamports pre) (state_lamports post)] else violations);
          violations = (if \<not> owner_transition_ok (tp_owner policy) pre post program_id
            then violations @ [OwnerTransition name position] else violations);
          violations = (if \<not> length_ok (tp_data_length policy) (clamped_len pre) (clamped_len post)
            then violations @ [DataLengthTransition name position (clamped_len pre) (clamped_len post)] else violations);
          violations = (if \<not> executable_transition_ok (tp_executable policy) pre post
            then violations @ [ExecutableTransition name position] else violations)
      in data_loop name position (tp_data policy) (data_or_empty pre) (data_or_empty post)
           [0..<length (data_or_empty post)] violations)"

section \<open>The verdict\<close>

text \<open>The label \<^verbatim>\<open>grillo.effect-verdict.v0.2.c2\<close>.\<close>

definition verdict_label :: bytes where
  "verdict_label = [103, 114, 105, 108, 108, 111, 46, 101, 102, 102, 101, 99, 116, 45, 118, 101, 114, 100, 105, 99, 116, 46, 118, 48, 46, 50, 46, 99, 50]"

text \<open>The loop over the roles; the \<^verbatim>\<open>expect\<close> of the state of a role is the \<^const>\<open>Trap\<close>.\<close>

fun verify_roles :: "resolved_role list \<Rightarrow> invocation_frame \<Rightarrow> violation_v2 list \<Rightarrow> violation_v2 list outcome" where
  "verify_roles [] frame violations = Ok violations"
| "verify_roles (role # roles) frame violations =
     (case find (\<lambda>st. at_pubkey st = rr_pubkey role) (fr_states frame) of
        None \<Rightarrow> Trap
      | Some st \<Rightarrow> verify_roles roles frame
          (verify_role (rr_name role) (rr_position role) (rr_contract role) st (di_program_id (fr_deployment frame)) violations))"

definition verdict_bytes :: "bytes \<Rightarrow> u64 \<Rightarrow> bytes list \<Rightarrow> bytes" where
  "verdict_bytes commitment changed observed =
     verdict_label @ commitment @ [0] @ enc_u64 changed @ encode_len (length observed) @ concat observed"

definition verify_bound_invocation :: "bound_invocation \<Rightarrow> effect_verdict outcome" where
  "verify_bound_invocation b =
     (let frame = bi_frame b in
      if fr_outcome frame \<noteq> Succeeded then Ok (EffectInconclusive InvocationDidNotSucceed)
      else case first_incomplete_contract (ei_completeness (bi_instruction b)) of
        Some dimension \<Rightarrow> Ok (EffectInconclusive (ContractDimensionIncomplete dimension))
      | None \<Rightarrow>
      (case first_incomplete_evidence (fr_evidence frame) of
        Some dimension \<Rightarrow> Ok (EffectInconclusive (EvidenceDimensionIncomplete dimension))
      | None \<Rightarrow>
      if fr_boundary frame \<noteq> InvocationEntryExit then Ok (EffectInconclusive InvocationBoundaryRequired)
      else
        let changed_data_bytes = fold (\<lambda>st total_bytes. word_saturating_add total_bytes (changed_bytes st)) (fr_states frame) 0 in
        obind (verify_roles (bi_roles b) frame []) (\<lambda>violations.
        if violations \<noteq> [] then Ok (EffectViolation violations)
        else
          let observed_accounts = sort (List.map at_pubkey (fr_states frame)) in
          Ok (EffectPass
            \<lparr>pv_contract_commitment = bi_contract_commitment b, pv_frame_commitment = bi_frame_commitment b,
             pv_bound_commitment = bi_commitment b,
             pv_verdict_commitment = sha256 (verdict_bytes (bi_commitment b) changed_data_bytes observed_accounts),
             pv_provenance = fr_provenance frame, pv_authenticity = Unauthenticated,
             pv_observed_accounts = observed_accounts, pv_changed_data_bytes = changed_data_bytes\<rparr>))))"

section \<open>What the policies of a contract ask of an account\<close>

text \<open>
  The same conditions over an account before and after, without the clamps, words and loops of the
  code: lengths are numbers, the bytes the data policy grants are a set.
\<close>

fun length_respected :: "length_policy \<Rightarrow> nat \<Rightarrow> nat \<Rightarrow> bool" where
  "length_respected LenPreserve pre post = (pre = post)"
| "length_respected (LenExact n) pre post = (post = unat n)"
| "length_respected (LenRange lo hi) pre post = (unat lo \<le> post \<and> post \<le> unat hi)"
| "length_respected LenMayChange pre post = True"

definition granted_bytes :: "data_range list \<Rightarrow> nat set" where
  "granted_bytes ranges = (\<Union>r \<in> set ranges. {unat (dr_offset r)..<unat (dr_offset r) + unat (dr_size r)})"

definition bytes_differ :: "account_transition \<Rightarrow> nat set" where
  "bytes_differ t = {k. get_byte (data_or_empty (at_pre t)) k \<noteq> get_byte (data_or_empty (at_post t)) k}"

definition written_bytes :: "account_transition \<Rightarrow> nat set" where
  "written_bytes t = bytes_differ t \<inter> {..<length (data_or_empty (at_post t))}"

definition transition_respected :: "bytes \<Rightarrow> transition_policy \<Rightarrow> account_transition \<Rightarrow> bool" where
  "transition_respected program_id policy t \<longleftrightarrow>
     presence_ok (tp_presence policy) (at_pre t \<noteq> Absent) (at_post t \<noteq> Absent) \<and>
     lamports_ok (tp_lamports policy) (state_lamports (at_pre t)) (state_lamports (at_post t)) \<and>
     owner_transition_ok (tp_owner policy) (at_pre t) (at_post t) program_id \<and>
     length_respected (tp_data_length policy) (length (data_or_empty (at_pre t))) (length (data_or_empty (at_post t))) \<and>
     executable_transition_ok (tp_executable policy) (at_pre t) (at_post t) \<and>
     written_bytes t \<subseteq> granted_bytes (tp_data policy)"

text \<open>What a reported violation says of the transition.\<close>

fun breach :: "bytes \<Rightarrow> bytes \<Rightarrow> u16 \<Rightarrow> transition_policy \<Rightarrow> account_transition \<Rightarrow> violation_v2 \<Rightarrow> bool" where
  "breach program_id name position policy t (DataWriteOutsidePolicy n p k) \<longleftrightarrow>
     n = name \<and> p = position \<and> unat k \<in> written_bytes t - granted_bytes (tp_data policy)"
| "breach program_id name position policy t (LamportTransition n p pre post) \<longleftrightarrow>
     n = name \<and> p = position \<and> pre = state_lamports (at_pre t) \<and> post = state_lamports (at_post t) \<and>
     \<not> lamports_ok (tp_lamports policy) pre post"
| "breach program_id name position policy t (OwnerTransition n p) \<longleftrightarrow>
     n = name \<and> p = position \<and> \<not> owner_transition_ok (tp_owner policy) (at_pre t) (at_post t) program_id"
| "breach program_id name position policy t (DataLengthTransition n p pre post) \<longleftrightarrow>
     n = name \<and> p = position \<and> unat pre = length (data_or_empty (at_pre t)) \<and> unat post = length (data_or_empty (at_post t)) \<and>
     \<not> length_respected (tp_data_length policy) (unat pre) (unat post)"
| "breach program_id name position policy t (PresenceTransition n p) \<longleftrightarrow>
     n = name \<and> p = position \<and> \<not> presence_ok (tp_presence policy) (at_pre t \<noteq> Absent) (at_post t \<noteq> Absent)"
| "breach program_id name position policy t (ExecutableTransition n p) \<longleftrightarrow>
     n = name \<and> p = position \<and> \<not> executable_transition_ok (tp_executable policy) (at_pre t) (at_post t)"

definition judgeable :: "effect_instruction \<Rightarrow> invocation_frame \<Rightarrow> bool" where
  "judgeable i f \<longleftrightarrow> fr_outcome f = Succeeded \<and> fr_boundary f = InvocationEntryExit \<and>
     all_state_dimensions (fr_evidence f) \<and> ev_cpi (fr_evidence f) \<and>
     ei_completeness i = \<lparr>cc_accounts = True, cc_data = True, cc_lamports = True, cc_owner = True, cc_data_length = True,
       cc_presence = True, cc_executable = True, cc_cpi = True\<rparr>"

text \<open>The transition of the account at a position of the frame.\<close>

definition observed_at :: "invocation_frame \<Rightarrow> nat \<Rightarrow> account_transition \<Rightarrow> bool" where
  "observed_at f k t \<longleftrightarrow> k < length (fr_accounts f) \<and> t \<in> set (fr_states f) \<and> at_pubkey t = af_pubkey (fr_accounts f ! k)"

definition account_policy :: "effect_instruction \<Rightarrow> nat \<Rightarrow> transition_policy" where
  "account_policy i k = er_transition (snd (expanded_roles i ! k))"

definition all_respected :: "effect_instruction \<Rightarrow> invocation_frame \<Rightarrow> bool" where
  "all_respected i f \<longleftrightarrow>
     (\<forall>k t. observed_at f k t \<longrightarrow> transition_respected (di_program_id (fr_deployment f)) (account_policy i k) t)"

definition frame_breach :: "effect_instruction \<Rightarrow> invocation_frame \<Rightarrow> violation_v2 \<Rightarrow> bool" where
  "frame_breach i f v \<longleftrightarrow>
     (\<exists>k t. observed_at f k t \<and>
        breach (di_program_id (fr_deployment f)) (fst (expanded_roles i ! k)) (word_of_nat k) (account_policy i k) t v)"

section \<open>One role\<close>

lemma is_present_iff [simp]: "is_present st \<longleftrightarrow> st \<noteq> Absent" by (cases st) simp_all

lemma state_data_len_eq [simp]: "state_data_len st = length (data_or_empty st)" by (cases st) simp_all

lemma contains_granted: "list_ex (\<lambda>r. data_range_contains r k) ranges \<longleftrightarrow> k \<in> granted_bytes ranges"
  by (simp add: list_ex_iff granted_bytes_def data_range_contains_def data_range_end_def)

lemma data_loop_eq:
  "data_loop name position ranges pre post ks vs =
     vs @ List.map (\<lambda>k. DataWriteOutsidePolicy name position (word_of_nat k))
       (filter (\<lambda>k. get_byte pre k \<noteq> get_byte post k \<and> k \<notin> granted_bytes ranges) ks)"
  by (induction ks arbitrary: vs) (simp_all add: contains_granted Let_def)

definition small_transition :: "account_transition \<Rightarrow> bool" where
  "small_transition t \<longleftrightarrow> length (data_or_empty (at_pre t)) < 2 ^ 32 - 1 \<and> length (data_or_empty (at_post t)) < 2 ^ 32 - 1"

lemma unat_clamped: "length (data_or_empty st) < 2 ^ 32 - 1 \<Longrightarrow> unat (clamped_len st) = length (data_or_empty st)"
  by (simp add: clamped_len_def unat_word_of_nat)

lemma length_ok_eq: "length_ok p pre post = length_respected p (unat pre) (unat post)"
  by (cases p) (auto simp: word_unat_eq_iff word_le_nat_alt)

lemma verify_role_append: "verify_role name position role t program_id vs = vs @ verify_role name position role t program_id []"
  by (simp add: verify_role_def Let_def data_loop_eq)

lemma append_if: "(if c then vs @ [x] else vs) = vs @ (if c then [x] else [])" by simp

lemma mem_if: "v \<in> set (if c then [x] else []) \<longleftrightarrow> c \<and> v = x" by (cases c) simp_all

lemma verify_role_set:
  assumes "small_transition t"
  shows "v \<in> set (verify_role name position role t program_id []) \<longleftrightarrow> breach program_id name position (er_transition role) t v"
proof -
  have len: "unat (clamped_len (at_pre t)) = length (data_or_empty (at_pre t))" "unat (clamped_len (at_post t)) = length (data_or_empty (at_post t))"
    using assms by (simp_all add: small_transition_def unat_clamped)
  then have clamp: "unat n = length (data_or_empty (at_pre t)) \<longleftrightarrow> n = clamped_len (at_pre t)"
    "unat n = length (data_or_empty (at_post t)) \<longleftrightarrow> n = clamped_len (at_post t)" for n by (auto simp: word_unat_eq_iff)
  have position: "k < length (data_or_empty (at_post t)) \<Longrightarrow> unat (word_of_nat k :: u32) = k" for k
    using assms by (simp add: small_transition_def unat_word_of_nat)
  let ?ps = "er_transition role"
  have loop: "v \<in> set (List.map (\<lambda>k. DataWriteOutsidePolicy name position (word_of_nat k))
        (filter (\<lambda>k. get_byte (data_or_empty (at_pre t)) k \<noteq> get_byte (data_or_empty (at_post t)) k \<and> k \<notin> granted_bytes (tp_data ?ps))
          [0..<length (data_or_empty (at_post t))])) \<longleftrightarrow>
      (\<exists>k. k \<in> written_bytes t - granted_bytes (tp_data ?ps) \<and> v = DataWriteOutsidePolicy name position (word_of_nat k))"
    by (auto simp: written_bytes_def bytes_differ_def)
  have shape: "v \<in> set (verify_role name position role t program_id []) \<longleftrightarrow>
      \<not> presence_ok (tp_presence ?ps) (at_pre t \<noteq> Absent) (at_post t \<noteq> Absent) \<and> v = PresenceTransition name position \<or>
      \<not> lamports_ok (tp_lamports ?ps) (state_lamports (at_pre t)) (state_lamports (at_post t)) \<and>
        v = LamportTransition name position (state_lamports (at_pre t)) (state_lamports (at_post t)) \<or>
      \<not> owner_transition_ok (tp_owner ?ps) (at_pre t) (at_post t) program_id \<and> v = OwnerTransition name position \<or>
      \<not> length_respected (tp_data_length ?ps) (length (data_or_empty (at_pre t))) (length (data_or_empty (at_post t))) \<and>
        v = DataLengthTransition name position (clamped_len (at_pre t)) (clamped_len (at_post t)) \<or>
      \<not> executable_transition_ok (tp_executable ?ps) (at_pre t) (at_post t) \<and> v = ExecutableTransition name position \<or>
      (\<exists>k. k \<in> written_bytes t - granted_bytes (tp_data ?ps) \<and> v = DataWriteOutsidePolicy name position (word_of_nat k))"
    unfolding verify_role_def Let_def data_loop_eq append_if set_append Un_iff mem_if length_ok_eq len is_present_iff
    by (simp only: append.simps loop disj_assoc simp_thms empty_iff list.set)
  have "(\<exists>k. k \<in> written_bytes t - granted_bytes (tp_data ?ps) \<and> v = DataWriteOutsidePolicy name position (word_of_nat k)) \<longleftrightarrow>
      (\<exists>n. v = DataWriteOutsidePolicy name position n \<and> unat n \<in> written_bytes t - granted_bytes (tp_data ?ps))"
  proof
    assume "\<exists>k. k \<in> written_bytes t - granted_bytes (tp_data ?ps) \<and> v = DataWriteOutsidePolicy name position (word_of_nat k)"
    then obtain k where k: "k \<in> written_bytes t - granted_bytes (tp_data ?ps)" "v = DataWriteOutsidePolicy name position (word_of_nat k)" by blast
    then have "unat (word_of_nat k :: u32) = k" using position by (simp add: written_bytes_def)
    then show "\<exists>n. v = DataWriteOutsidePolicy name position n \<and> unat n \<in> written_bytes t - granted_bytes (tp_data ?ps)" using k by auto
  next
    assume "\<exists>n. v = DataWriteOutsidePolicy name position n \<and> unat n \<in> written_bytes t - granted_bytes (tp_data ?ps)"
    then obtain n where "v = DataWriteOutsidePolicy name position n" "unat n \<in> written_bytes t - granted_bytes (tp_data ?ps)" by blast
    then show "\<exists>k. k \<in> written_bytes t - granted_bytes (tp_data ?ps) \<and> v = DataWriteOutsidePolicy name position (word_of_nat k)"
      by (intro exI [of _ "unat n"]) simp
  qed
  note writes = this
  show ?thesis unfolding shape writes by (cases v) (auto simp: clamp len)
qed

lemma no_breach_respected:
  assumes "small_transition t"
  shows "(\<forall>v. \<not> breach program_id name position policy t v) \<longleftrightarrow> transition_respected program_id policy t"
proof
  assume none: "\<forall>v. \<not> breach program_id name position policy t v"
  let ?pre = "clamped_len (at_pre t)" and ?post = "clamped_len (at_post t)"
  have len: "unat ?pre = length (data_or_empty (at_pre t))" "unat ?post = length (data_or_empty (at_post t))"
    using assms by (simp_all add: small_transition_def unat_clamped)
  have "k \<in> granted_bytes (tp_data policy)" if "k \<in> written_bytes t" for k
  proof -
    have "unat (word_of_nat k :: u32) = k" using that assms by (simp add: written_bytes_def small_transition_def unat_word_of_nat)
    then show ?thesis using none [rule_format, of "DataWriteOutsidePolicy name position (word_of_nat k)"] that by simp
  qed
  then show "transition_respected program_id policy t"
    using none [rule_format, of "PresenceTransition name position"] none [rule_format, of "OwnerTransition name position"]
      none [rule_format, of "LamportTransition name position (state_lamports (at_pre t)) (state_lamports (at_post t))"]
      none [rule_format, of "DataLengthTransition name position ?pre ?post"] none [rule_format, of "ExecutableTransition name position"] len
    unfolding transition_respected_def by auto
next
  assume ok: "transition_respected program_id policy t"
  show "\<forall>v. \<not> breach program_id name position policy t v"
  proof
    fix v show "\<not> breach program_id name position policy t v"
      using ok by (cases v) (auto simp: transition_respected_def)
  qed
qed

section \<open>The counted bytes\<close>

lemma unat_saturating: "unat (word_saturating_add a b) = min (unat a + unat b) (2 ^ 64 - 1)" for a b :: u64
proof (cases "unat a + unat b < 2 ^ 64")
  case True
  then have "unat (a + b) = unat a + unat b" by (simp add: unat_add_lem [THEN iffD1])
  then show ?thesis using True by (simp add: word_saturating_add_def)
next
  case False
  have "unat (- 1 :: u64) = 2 ^ 64 - 1" by (simp add: unsigned_minus_1_eq_mask mask_eq_exp_minus_1)
  then show ?thesis using False by (simp add: word_saturating_add_def)
qed

lemma count_fold: "unat (fold (\<lambda>_ count. word_saturating_add count 1) ks (a :: u64)) = min (unat a + length ks) (2 ^ 64 - 1)"
proof (induction ks arbitrary: a)
  case Nil
  have "unat a < 2 ^ 64" using unsigned_less [of a] by simp
  then show ?case by simp
next
  case (Cons k ks)
  then show ?case by (simp add: unat_saturating)
qed

lemma changed_bytes_eq:
  assumes "small_transition t"
  shows "unat (changed_bytes t) = card (bytes_differ t)" and "card (bytes_differ t) < 2 ^ 32"
proof -
  let ?n = "max (length (data_or_empty (at_pre t))) (length (data_or_empty (at_post t)))"
  let ?ks = "filter (\<lambda>k. get_byte (data_or_empty (at_pre t)) k \<noteq> get_byte (data_or_empty (at_post t)) k) [0..<?n]"
  have "set ?ks = bytes_differ t" by (auto simp: bytes_differ_def get_byte_def split: if_splits)
  then have card: "length ?ks = card (bytes_differ t)" using distinct_card [of ?ks] by simp
  have n: "?n < 2 ^ 32" using assms by (simp add: small_transition_def)
  have "length ?ks \<le> ?n" using length_filter_le [of "\<lambda>k. get_byte (data_or_empty (at_pre t)) k \<noteq> get_byte (data_or_empty (at_post t)) k" "[0..<?n]"] by simp
  then have "length ?ks < 2 ^ 32" using n by (rule le_less_trans)
  then show "card (bytes_differ t) < 2 ^ 32" "unat (changed_bytes t) = card (bytes_differ t)"
    using card by (simp_all add: changed_bytes_def Let_def count_fold)
qed

lemma changed_fold:
  assumes "\<forall>t \<in> set sts. small_transition t" and "unat (a :: u64) + length sts * 2 ^ 32 < 2 ^ 64"
  shows "unat (fold (\<lambda>st total_bytes. word_saturating_add total_bytes (changed_bytes st)) sts a) =
    unat a + sum_list (List.map (\<lambda>t. card (bytes_differ t)) sts)"
  using assms
proof (induction sts arbitrary: a)
  case (Cons st sts)
  have one: "unat (changed_bytes st) = card (bytes_differ st)" "card (bytes_differ st) < 2 ^ 32"
    using Cons(2) changed_bytes_eq by simp_all
  have "unat (word_saturating_add a (changed_bytes st)) = unat a + card (bytes_differ st)"
    using one Cons(3) by (simp add: unat_saturating)
  then show ?case using Cons one(2) by simp
qed simp

section \<open>The frame\<close>

text \<open>What the verdict uses of a bound invocation.\<close>

lemma bound_states:
  assumes "bind_invocation c f = Inr b"
  shows "\<forall>t \<in> set (fr_states f). small_transition t" and "length (fr_states f) \<le> 256" and "distinct (List.map at_pubkey (fr_states f))"
    and "ev_accounts (fr_evidence f) \<Longrightarrow> state_keys f = account_keys f"
proof -
  have sound: "frame_sound f" using bound_tree(1) [OF assms, of "[]"] by simp
  then show "\<forall>t \<in> set (fr_states f). small_transition t"
    by (force simp: frame_sound_def small_transition_def max_account_data_bytes_def)
  show "distinct (List.map at_pubkey (fr_states f))" "ev_accounts (fr_evidence f) \<Longrightarrow> state_keys f = account_keys f"
    using sound by (simp_all add: frame_sound_def)
  have "length (fr_states f) = card (state_keys f)" using sound distinct_card [of "List.map at_pubkey (fr_states f)"]
    by (simp add: frame_sound_def state_keys_def)
  also have "\<dots> \<le> card (account_keys f)" using sound by (intro card_mono) (simp_all add: frame_sound_def account_keys_def)
  also have "\<dots> \<le> length (fr_accounts f)" unfolding account_keys_def using card_image_le [of "set (fr_accounts f)" af_pubkey] card_length [of "fr_accounts f"]
    by simp
  also have "\<dots> \<le> 256" using sound by (simp add: frame_sound_def)
  finally show "length (fr_states f) \<le> 256" .
qed

definition state_of :: "invocation_frame \<Rightarrow> bytes \<Rightarrow> account_transition" where
  "state_of f key = the (find (\<lambda>st. at_pubkey st = key) (fr_states f))"

lemma state_of:
  assumes "key \<in> state_keys f" and "distinct (List.map at_pubkey (fr_states f))"
  shows "find (\<lambda>st. at_pubkey st = key) (fr_states f) = Some (state_of f key)"
    and "t \<in> set (fr_states f) \<and> at_pubkey t = key \<longleftrightarrow> t = state_of f key"
proof -
  obtain s where s: "find (\<lambda>st. at_pubkey st = key) (fr_states f) = Some s"
    using assms(1) by (cases "find (\<lambda>st. at_pubkey st = key) (fr_states f)") (auto simp: find_None_iff state_keys_def)
  then have in_set: "s \<in> set (fr_states f)" "at_pubkey s = key" by (auto simp: find_Some_iff)
  show "find (\<lambda>st. at_pubkey st = key) (fr_states f) = Some (state_of f key)" using s by (simp add: state_of_def)
  have "inj_on at_pubkey (set (fr_states f))" using assms(2) by (simp add: distinct_map)
  then show "t \<in> set (fr_states f) \<and> at_pubkey t = key \<longleftrightarrow> t = state_of f key"
    using s in_set by (auto simp: state_of_def dest: inj_onD)
qed

lemma verify_roles_eq:
  assumes "\<forall>r \<in> set roles. rr_pubkey r \<in> state_keys f" and "distinct (List.map at_pubkey (fr_states f))"
  shows "verify_roles roles f vs = Ok (vs @ concat (List.map (\<lambda>r. verify_role (rr_name r) (rr_position r) (rr_contract r)
    (state_of f (rr_pubkey r)) (di_program_id (fr_deployment f)) []) roles))"
  using assms(1)
proof (induction roles arbitrary: vs)
  case (Cons r roles)
  then have "find (\<lambda>st. at_pubkey st = rr_pubkey r) (fr_states f) = Some (state_of f (rr_pubkey r))"
    using state_of(1) [OF _ assms(2)] by simp
  moreover have "verify_role (rr_name r) (rr_position r) (rr_contract r) s p vs = vs @ verify_role (rr_name r) (rr_position r) (rr_contract r) s p []" for s p
    by (rule verify_role_append)
  ultimately show ?case using Cons by simp
qed simp

text \<open>The violations of the whole frame.\<close>

lemma frame_violations:
  assumes "bind_invocation c f = Inr b" and "ev_accounts (fr_evidence f)"
  obtains vs where "verify_roles (bi_roles b) f [] = Ok vs" and "\<forall>v. v \<in> set vs \<longleftrightarrow> frame_breach (bi_instruction b) f v"
proof -
  note roles = bound_roles [OF assms(1)] and states = bound_states [OF assms(1)]
  let ?i = "bi_instruction b" and ?p = "di_program_id (fr_deployment f)"
  let ?report = "\<lambda>r. verify_role (rr_name r) (rr_position r) (rr_contract r) (state_of f (rr_pubkey r)) ?p []"
  have role: "bi_roles b ! k = \<lparr>rr_name = fst (expanded_roles ?i ! k), rr_position = word_of_nat k,
      rr_pubkey = af_pubkey (fr_accounts f ! k), rr_contract = snd (expanded_roles ?i ! k)\<rparr>" if "k < length (fr_accounts f)" for k
    using roles(3) [OF that] by (simp add: plays_def)
  have key: "af_pubkey (fr_accounts f ! k) \<in> state_keys f" if "k < length (fr_accounts f)" for k
    using states(4) [OF assms(2)] that by (auto simp: account_keys_def)
  have "\<forall>r \<in> set (bi_roles b). rr_pubkey r \<in> state_keys f" using role key roles(1) by (auto simp: in_set_conv_nth)
  then have run: "verify_roles (bi_roles b) f [] = Ok (concat (List.map ?report (bi_roles b)))"
    using verify_roles_eq [OF _ states(3)] by simp
  have one: "v \<in> set (?report (bi_roles b ! k)) \<longleftrightarrow>
      (\<exists>t. observed_at f k t \<and> breach ?p (fst (expanded_roles ?i ! k)) (word_of_nat k) (account_policy ?i k) t v)"
    if "k < length (fr_accounts f)" for k v
  proof -
    let ?t = "state_of f (af_pubkey (fr_accounts f ! k))"
    have t: "t \<in> set (fr_states f) \<and> at_pubkey t = af_pubkey (fr_accounts f ! k) \<longleftrightarrow> t = ?t" for t
      by (rule state_of(2) [OF key [OF that] states(3)])
    then have "small_transition ?t" using states(1) by blast
    then have "v \<in> set (?report (bi_roles b ! k)) \<longleftrightarrow> breach ?p (fst (expanded_roles ?i ! k)) (word_of_nat k) (account_policy ?i k) ?t v"
      using role [OF that] by (simp add: verify_role_set account_policy_def)
    moreover have "observed_at f k t \<longleftrightarrow> t = ?t" for t using t that by (simp add: observed_at_def)
    ultimately show ?thesis by simp
  qed
  have "v \<in> set (concat (List.map ?report (bi_roles b))) \<longleftrightarrow> frame_breach ?i f v" for v
  proof -
    have "v \<in> set (concat (List.map ?report (bi_roles b))) \<longleftrightarrow> (\<exists>k < length (fr_accounts f). v \<in> set (?report (bi_roles b ! k)))"
      using roles(1) by (auto simp: in_set_conv_nth Bex_def)
    also have "\<dots> \<longleftrightarrow> frame_breach ?i f v" using one by (auto simp: frame_breach_def observed_at_def)
    finally show ?thesis .
  qed
  then show thesis using that run by blast
qed

lemma incomplete_contract: "first_incomplete_contract cc = None \<longleftrightarrow>
    cc = \<lparr>cc_accounts = True, cc_data = True, cc_lamports = True, cc_owner = True, cc_data_length = True,
       cc_presence = True, cc_executable = True, cc_cpi = True\<rparr>"
  by (cases cc) (simp add: first_incomplete_contract_def)

lemma incomplete_evidence: "first_incomplete_evidence e = None \<longleftrightarrow> all_state_dimensions e \<and> ev_cpi e"
  by (simp add: first_incomplete_evidence_def all_state_dimensions_def)

lemma all_respected_iff:
  assumes "bind_invocation c f = Inr b"
  shows "all_respected i f \<longleftrightarrow> (\<forall>v. \<not> frame_breach i f v)"
proof -
  have "(\<forall>v. \<not> breach p name position policy t v) \<longleftrightarrow> transition_respected p policy t" if "observed_at f k t" for p name position policy k t
    using no_breach_respected bound_states(1) [OF assms] that by (simp add: observed_at_def)
  then show ?thesis unfolding all_respected_def frame_breach_def by blast
qed

text \<open>A frame that cannot be judged gets no other verdict.\<close>

lemma not_judgeable:
  assumes "\<not> judgeable (bi_instruction b) (bi_frame b)"
  shows "\<exists>r. verify_bound_invocation b = Ok (EffectInconclusive r)"
proof (cases "fr_outcome (bi_frame b) = Succeeded")
  case success: True
  show ?thesis
  proof (cases "first_incomplete_contract (ei_completeness (bi_instruction b))")
    case contract: None
    show ?thesis
    proof (cases "first_incomplete_evidence (fr_evidence (bi_frame b))")
      case None
      then have "fr_boundary (bi_frame b) \<noteq> InvocationEntryExit"
        using assms success contract by (simp add: judgeable_def incomplete_contract incomplete_evidence)
      then show ?thesis using success contract None by (simp add: verify_bound_invocation_def)
    qed (simp add: verify_bound_invocation_def success contract)
  qed (simp add: verify_bound_invocation_def success)
qed (simp add: verify_bound_invocation_def)

definition changed_total :: "invocation_frame \<Rightarrow> nat" where
  "changed_total f = sum_list (List.map (\<lambda>t. card (bytes_differ t)) (fr_states f))"

section \<open>The property\<close>

text \<open>
  C1: The verdict on a bound invocation is exact. It never panics; it is inconclusive just when the frame
  cannot be judged (it did not succeed, it was not observed at entry and exit of the invocation, or
  some dimension of the contract or of the evidence is incomplete); of a frame that can, it reports
  exactly the breaches of the policies by the observed transitions, and passes just when every account
  respects the policy of its position. The evidence of a pass lists the accounts of the frame in
  order, each once, and the exact number of changed bytes.
\<close>

theorem effect_verdict_exact:
  assumes "bind_invocation c f = Inr b"
  shows "case verify_bound_invocation b of
      Ok (EffectPass e) \<Rightarrow> judgeable (bi_instruction b) f \<and> all_respected (bi_instruction b) f \<and>
        set (pv_observed_accounts e) = account_keys f \<and> sorted (pv_observed_accounts e) \<and> distinct (pv_observed_accounts e) \<and>
        unat (pv_changed_data_bytes e) = changed_total f
    | Ok (EffectViolation vs) \<Rightarrow> judgeable (bi_instruction b) f \<and> \<not> all_respected (bi_instruction b) f \<and>
        (\<forall>v. v \<in> set vs \<longleftrightarrow> frame_breach (bi_instruction b) f v)
    | Ok (EffectInconclusive r) \<Rightarrow> \<not> judgeable (bi_instruction b) f
    | _ \<Rightarrow> False"
proof (cases "judgeable (bi_instruction b) f")
  case False
  have frame: "bi_frame b = f" using bound_roles(8) [OF assms] .
  then obtain r where "verify_bound_invocation b = Ok (EffectInconclusive r)" using not_judgeable False by blast
  then show ?thesis using False by simp
next
  case True
  note states = bound_states [OF assms]
  have frame: "bi_frame b = f" using bound_roles(8) [OF assms] .
  have complete: "ev_accounts (fr_evidence f)" using True by (simp add: judgeable_def all_state_dimensions_def)
  obtain vs where vs: "verify_roles (bi_roles b) f [] = Ok vs" "\<forall>v. v \<in> set vs \<longleftrightarrow> frame_breach (bi_instruction b) f v"
    using assms complete by (rule frame_violations)
  have gates: "fr_outcome f = Succeeded" "fr_boundary f = InvocationEntryExit" "first_incomplete_evidence (fr_evidence f) = None"
    "first_incomplete_contract (ei_completeness (bi_instruction b)) = None"
    using True by (simp_all add: judgeable_def incomplete_evidence incomplete_contract)
  have "unat (fold (\<lambda>st total_bytes. word_saturating_add total_bytes (changed_bytes st)) (fr_states f) 0) = changed_total f"
    using changed_fold [OF states(1), of 0] states(2) by (simp add: changed_total_def)
  moreover have "set (sort (List.map at_pubkey (fr_states f))) = account_keys f" using states(4) [OF complete] by (simp add: state_keys_def)
  moreover have "all_respected (bi_instruction b) f \<longleftrightarrow> vs = []"
    using vs(2) all_respected_iff [OF assms] by (cases vs) auto
  ultimately show ?thesis
    using True vs gates states(3) by (cases "vs = []") (simp_all add: verify_bound_invocation_def frame Let_def)
qed

theorem effect_verdict_exact_witness:
  "\<exists>e. verify_bound_invocation (sample_bound 9) = Ok (EffectPass e) \<and>
     all_respected (bi_instruction (sample_bound 9)) (sample_frame 9) \<and> set (pv_observed_accounts e) = account_keys (sample_frame 9) \<and>
     unat (pv_changed_data_bytes e) = changed_total (sample_frame 9)"
proof -
  have "\<exists>e. verify_bound_invocation (sample_bound 9) = Ok (EffectPass e)"
    by (simp add: verify_bound_invocation_def sample_bound_def sample_instruction_def sample_frame_defs Let_def frozen_transition_def
        first_incomplete_contract_def first_incomplete_evidence_def verify_role_def)
  then obtain e where "verify_bound_invocation (sample_bound 9) = Ok (EffectPass e)" by blast
  then show ?thesis using effect_verdict_exact [OF sample_binds [of 9]] by simp
qed

end
