(* ===== verification/ContractCommitment.thy ===== *)
theory ContractCommitment imports Verdict Encoding Sha256 begin


section \<open>The encoder\<close>

text \<open>The bytes of a string: a character stands for one byte of its UTF-8 form.\<close>

definition string_bytes :: "string \<Rightarrow> bytes" where
  "string_bytes s = List.map (\<lambda>c. word_of_nat (of_char c)) s"

definition encode_string :: "string \<Rightarrow> bytes" where
  "encode_string value = encode_len (length value) @ string_bytes value"

fun encode_optional_u16 :: "u16 option \<Rightarrow> bytes" where
  "encode_optional_u16 (Some v) = 1 # enc_u16 v"
| "encode_optional_u16 None = [0]"

fun arg_encoding_tag :: "arg_encoding \<Rightarrow> u8" where
  "arg_encoding_tag EncFixed = 0"
| "arg_encoding_tag EncBoundedVec = 1"
| "arg_encoding_tag EncBoundedString = 2"

definition encode_arg :: "arg_contract \<Rightarrow> bytes" where
  "encode_arg a =
     encode_string (ac_name a) @ encode_string (ac_type a) @ enc_u16 (ac_size a) @ [arg_encoding_tag (ac_encoding a)] @
     encode_optional_u16 (ac_max_len a) @ encode_optional_u16 (ac_element_size a)"

definition encode_authorized :: "range_contract \<Rightarrow> bytes" where
  "encode_authorized r = [rc_account r] @ enc_u32 (rc_offset r) @ enc_u32 (rc_size r)"

definition encode_rule :: "parametric_contract \<Rightarrow> bytes" where
  "encode_rule r =
     [pc_account r] @ enc_u32 (pc_base r) @ enc_u32 (pc_stride r) @ enc_u32 (pc_cell r) @ enc_u32 (pc_count r) @
     [pc_argument_index r] @ encode_string (pc_argument_name r) @ encode_string (pc_segment r)"

definition encode_canonical :: "instruction_contract \<Rightarrow> bytes" where
  "encode_canonical c =
     encode_string (ic_name c) @ [ic_tag c] @ enc_bool (ic_strict_writes c) @ enc_bool (ic_mutation_complete c) @
     encode_seq encode_arg (ic_args c) @ encode_seq encode_authorized (ic_authorized c) @
     encode_seq encode_rule (ic_parametric c) @ encode_seq (\<lambda>idx. [idx]) (ic_lamport_accounts c)"

text \<open>The domain \<^verbatim>\<open>grillo.mutation-contract.v2\<close>, and \<^verbatim>\<open>.instruction\<close>.\<close>

definition commit_domain :: bytes where
  "commit_domain = [103, 114, 105, 108, 108, 111, 46, 109, 117, 116, 97, 116, 105, 111, 110, 45, 99, 111, 110, 116, 114, 97, 99, 116, 46, 118, 50]"

definition instruction_label :: bytes where
  "instruction_label = [46, 105, 110, 115, 116, 114, 117, 99, 116, 105, 111, 110]"

definition instruction_bytes :: "instruction_contract \<Rightarrow> bytes" where
  "instruction_bytes c = commit_domain @ instruction_label @ encode_canonical c"




section \<open>The bytes determine the contract\<close>

lemma byte_of_char: "(word_of_nat (of_char a) :: u8) = word_of_nat (of_char b) \<longleftrightarrow> a = b"
proof
  assume eq: "(word_of_nat (of_char a) :: u8) = word_of_nat (of_char b)"
  have "unat (word_of_nat (of_char c) :: u8) = of_char c" for c :: char
    using nat_of_char_less_256 [of c] by (simp add: unat_of_nat_u8)
  then have "(of_char a :: nat) = of_char b" using eq by metis
  then show "a = b" by simp
qed simp

interpretation string_code: prefix_code encode_string short
proof unfold_locales
  fix x y :: string and r s
  assume ok: "short x" "short y"
  have "string_bytes a @ r = string_bytes b @ s \<longleftrightarrow> a = b \<and> r = s" if "length a = length b" for a b
    using that by (induction a b rule: list_induct2) (auto simp: string_bytes_def byte_of_char)
  then show "encode_string x @ r = encode_string y @ s \<longleftrightarrow> x = y \<and> r = s"
    using ok by (auto simp: encode_string_def short_def len_code.cancel)
qed

interpretation optional_code: prefix_code encode_optional_u16 "\<lambda>_. True"
proof unfold_locales
  fix x y r s
  show "encode_optional_u16 x @ r = encode_optional_u16 y @ s \<longleftrightarrow> x = y \<and> r = s" by (cases x; cases y) (auto simp: code_cancel)
qed

lemmas [code_cancel] = string_code.cancel optional_code.cancel

lemma arg_encoding_tag_eq [simp]: "arg_encoding_tag a = arg_encoding_tag b \<longleftrightarrow> a = b"
  by (cases a; cases b) simp_all

definition arg_fits :: "arg_contract \<Rightarrow> bool" where
  "arg_fits a \<longleftrightarrow> short (ac_name a) \<and> short (ac_type a)"

definition rule_fits :: "parametric_contract \<Rightarrow> bool" where
  "rule_fits r \<longleftrightarrow> short (pc_argument_name r) \<and> short (pc_segment r)"

interpretation arg_code: prefix_code encode_arg arg_fits
  by unfold_locales (auto simp: encode_arg_def arg_fits_def code_cancel intro!: arg_contract.equality)

interpretation authorized_code: prefix_code encode_authorized "\<lambda>_. True"
  by unfold_locales (auto simp: encode_authorized_def code_cancel intro!: range_contract.equality)

interpretation rule_code: prefix_code encode_rule rule_fits
  by unfold_locales (auto simp: encode_rule_def rule_fits_def code_cancel intro!: parametric_contract.equality)

interpretation index_code: prefix_code "\<lambda>idx :: u8. [idx]" "\<lambda>_. True"
  by unfold_locales auto

lemmas [code_cancel] = prefix_code.cancel [OF arg_code.seq_code] prefix_code.cancel [OF authorized_code.seq_code]
  prefix_code.cancel [OF rule_code.seq_code] prefix_code.cancel [OF index_code.seq_code]

text \<open>A contract without its account names, the one field left out.\<close>

definition mutation_part :: "instruction_contract \<Rightarrow> instruction_contract" where
  "mutation_part c = c\<lparr>ic_accounts := []\<rparr>"

definition instruction_fits :: "instruction_contract \<Rightarrow> bool" where
  "instruction_fits c \<longleftrightarrow> short (ic_name c) \<and> seq_ok arg_fits (ic_args c) \<and> seq_ok (\<lambda>_. True) (ic_authorized c) \<and>
     seq_ok rule_fits (ic_parametric c) \<and> seq_ok (\<lambda>_. True) (ic_lamport_accounts c)"


lemma encode_canonical_cancel:
  "instruction_fits c \<Longrightarrow> instruction_fits d \<Longrightarrow>
     encode_canonical c @ r = encode_canonical d @ s \<longleftrightarrow> mutation_part c = mutation_part d \<and> r = s"
  by (cases c; cases d) (auto simp: encode_canonical_def instruction_fits_def mutation_part_def code_cancel)

lemma canonical_part [simp]: "encode_canonical (mutation_part c) = encode_canonical c"
  by (simp add: mutation_part_def encode_canonical_def)

lemma fits_part [simp]: "instruction_fits (mutation_part c) \<longleftrightarrow> instruction_fits c"
  by (simp add: mutation_part_def instruction_fits_def)


lemma part_part [simp]: "mutation_part (mutation_part c) = mutation_part c"
  by (simp add: mutation_part_def)


lemma instruction_bytes_iff:
  "instruction_fits c \<Longrightarrow> instruction_fits d \<Longrightarrow> instruction_bytes c = instruction_bytes d \<longleftrightarrow> mutation_part c = mutation_part d"
  using encode_canonical_cancel [of c d "[]" "[]"] by (simp add: instruction_bytes_def)


section \<open>What a commitment pins\<close>






end
