(* ===== verification/Spec2Isabelle.thy ===== *)
theory Spec2Isabelle imports RingBuffer Journal Finance Abi SortedVec PackedMap SlotMap BitSet Slab TouchMap SegmentBorrow
  Distribute Vesting Staking Lending Multisig ErrorCode SegRegistry AccountView TailStore WriteGate RawWalk
  Lamports LazyInput Verdict SlotHashes TokenExt EffectVerdict ContractCommitment
begin

text \<open>
  Hopper is a zero-copy state framework for Solana programs: an instruction gets its accounts
  as mutable byte buffers owned by the runtime, and the framework gives typed, bounded and
  conflict-checked access to those bytes without copying them. The bytes may come from anyone,
  so the question for nearly every part is twofold: does a call do what it promises, and can
  a buffer nobody validated make it panic or touch a byte outside its range.

  How the parts fit. \<^verbatim>\<open>hopper-native\<close> parses the loader's input into account views and holds the
  runtime's account records, their one-byte borrow tracking and the numeric error codes. \<^verbatim>\<open>hopper-runtime\<close> adds borrows of byte ranges of an
  account (segments), the log of the ranges an instruction touched, its wire form the touch map,
  and the dynamic tail behind a fixed account body. \<^verbatim>\<open>hopper-core\<close> adds wire integers, the
  segment registry inside an account, and the collections that live in a segment. The program
  crates (finance, distribution, vesting, staking, lending, multisig) are pure arithmetic and
  guards over account values. Outside the chain, \<^verbatim>\<open>grillo-manifest\<close> holds the published mutation
  contract of an instruction and resolves its parametric part, and \<^verbatim>\<open>grillo-verifier\<close> decodes touch
  maps and judges whether what an instruction changed is what it was allowed to change. Their second
  format adds nested calls, owners and presence, and commits contract and evidence by a hash.

  Shared theories.
  \<^item> \<open>Prelude\<close>: errors (\<^verbatim>\<open>ProgramError\<close>), the outcome of a call (\<open>Ok\<close>, \<open>Err\<close> or \<open>Trap\<close>, a panic or
    an out-of-bounds access), byte ranges, little-endian numbers, byte copies.
  \<^item> \<open>Contracts\<close>: runs of calls and the locales \<open>safe_calls\<close>, \<open>simulation\<close>,
    \<open>bounded_simulation\<close>, \<open>bounded_log\<close>,
    \<open>overwriting_log\<close>, \<open>total_cmp\<close>. Each is interpreted by the components that promise it.
  \<^item> \<open>Slots\<close>: the locale \<open>slot_store\<close> and the byte array of fixed-size slots that provides it.
  \<^item> \<open>MachineInts\<close>: checked, saturating and trapping machine arithmetic, and the split 64-bit
    multiplication of \<^verbatim>\<open>hopper-native/src/arith.rs\<close>.
  \<^item> \<open>Encoding\<close>: the locale \<open>prefix_code\<close> of unambiguous encoders and the field encoders the
    commitments are built from.
  \<^item> \<open>Fallible\<close>: sequencing of calls that return a \<^verbatim>\<open>Result\<close> with an error type of their own
    (\<open>sbind\<close>), used by the checked parser, the resolution of contracts and the binding of evidence.

  Components, each with its source.
  \<^item> \<open>AccountView\<close> (\<^verbatim>\<open>hopper-native/src/account_view.rs, borrow.rs, raw_account.rs\<close>): an account is
    a record whose memory is its data plus the realloc headroom; a guard is a range of it.
    \<open>account_sim\<close> shows the borrow byte refines a set of live guards.
  \<^item> \<open>TouchLog\<close>, \<open>SegmentBorrow\<close> (\<^verbatim>\<open>hopper-runtime/src/segment_borrow.rs\<close>), \<open>TouchMap\<close> (the same file,
    \<^verbatim>\<open>context.rs\<close>, \<^verbatim>\<open>grillo-verifier/src/touch_map.rs\<close>): the ledger of live segment borrows, the log
    of touched ranges with its merging, the wire format and the independent decoder. The log,
    the resolution to account slots, the encoder and the decoder are composed in
    \<open>touch_map_end_to_end\<close>.
  \<^item> \<open>RawInput\<close>, \<open>RawWalk\<close> (\<^verbatim>\<open>hopper-native/src/raw_input.rs\<close>): the entrypoint's parsers, over the loader's
    buffer as a byte list. The checked parser accepts exactly the loader's frames; on a frame the
    unchecked walks stay inside the buffer and agree with it; and the records they hand out
    satisfy \<open>mem_ok\<close>, the hypothesis of the \<open>AccountView\<close> theorems.
  \<^item> \<open>LazyInput\<close> (\<^verbatim>\<open>hopper-native/src/lazy.rs\<close>): the parser that hands out accounts one at a time. The
    frame decides every answer, for every order of calls and with the program's own writes into
    the accounts it was handed; it agrees with the eager parser of \<open>RawWalk\<close>.
  \<^item> \<open>WritePolicy\<close>, \<open>WriteGate\<close> (\<^verbatim>\<open>hopper-runtime/src/write_policy.rs\<close>): the declared write ranges of an
    instruction with the checks on acquire and the audit at exit (composed with the merging of
    \<open>TouchLog\<close> in \<open>acquired_writes_pass_the_audit\<close>), and the ambient gate that confines raw
    mutations, which \<open>gate_sim\<close> shows is a bounded stack of gates.
  \<^item> \<open>Rent\<close> (\<^verbatim>\<open>hopper-native/src/sysvar.rs, batch.rs, hopper-runtime/src/rent.rs\<close>): the rent minimum,
    with the byte image of the exemption threshold compared to the double it stands for; the
    values of the sysvar are an argument here.
  \<^item> \<open>Lamports\<close> (\<^verbatim>\<open>hopper-runtime/src/lamports.rs, account.rs, native_boundary.rs\<close>,
    \<^verbatim>\<open>hopper-native/src/batch.rs\<close>, \<^verbatim>\<open>hopper-core/src/account/lifecycle.rs\<close>): transfers, closes and
    reallocations over a list of accounts, with the gate of \<open>WriteGate\<close> in front of every write
    in the runtime's helpers (those of the native layer bypass it) and the balances of
    \<open>AccountView\<close> behind it. Two positions of the list are two accounts;
    several views of one account are one position. The build is the on-chain one, where the
    host borrow registry is empty code.
  \<^item> \<open>Contract\<close> (\<^verbatim>\<open>grillo-manifest/src/manifest.rs, resolve.rs\<close>): the declared ranges, the rules whose
    cell an argument selects, the validation of the rules and their resolution, from selector
    values or from the bytes of the arguments. A list of ranges is read as a set of bytes per
    account (\<open>granted\<close>), and every operation has its lemma over these sets.
  \<^item> \<open>ContractCommitment\<close> (\<^verbatim>\<open>grillo-manifest/src/commitment.rs\<close>): the canonical bytes of this first contract
    format and their hash, with the encoders as interpretations of \<open>prefix_code\<close>: one commitment is
    one contract up to account names, and so one verdict on every evidence.
  \<^item> \<open>Verdict\<close> (\<^verbatim>\<open>grillo-verifier/src/verify.rs\<close>): snapshots and a touch map against a contract. The
    last theorem composes the chain: writes acquired under the policy of \<open>WritePolicy\<close>, logged by
    \<open>TouchLog\<close>, encoded and decoded by \<open>TouchMap\<close>, judged under the resolved contract of \<open>Contract\<close>.
    It needs the accounts of the instruction to be distinct, and says so. \<open>policy_of\<close>, the runtime
    policy with the rules of a contract, is a specification device and models no code.
  \<^item> \<open>Sysvar\<close>, \<open>SlotHashes\<close> (\<^verbatim>\<open>hopper-native/src/sysvar.rs, slot_hashes.rs\<close>): the system call that copies a
    range of a sysvar is a parameter, with what it copies as the hypothesis \<open>serves\<close>. The readers
    decode the image they are served; the epoch arithmetic inverts itself; the windowed search of
    a slot answers as the whole list does.
  \<^item> \<open>TokenExt\<close> (\<^verbatim>\<open>hopper-runtime/src/token_2022_ext.rs\<close>): the stream of extension entries behind a mint or a
    token account. \<open>stream\<close> relates the bytes to a list of entries, and every reader, validator and
    policy is shown to answer by that list.
  \<^item> \<open>Sha256\<close> (\<^verbatim>\<open>grillo-manifest/src/sha256.rs, hopper-native/src/sha256.rs\<close>): the two implementations of
    the hash, the second evaluated at compile time and also fed as a stream. No property of the
    hash itself is assumed anywhere: theorems on commitments name the bytes a collision would be on.
  \<^item> \<open>EffectContract\<close> (\<^verbatim>\<open>grillo-manifest/src/effect_v2.rs\<close>): the second contract format, complete but for
    the parsing of JSON: validation, dispatch, the expanded account grammar, canonical bytes. The
    encoders are interpretations of the locale \<open>prefix_code\<close> of \<open>Encoding\<close>, which is closed under
    the sequences and options they are built with.
  \<^item> \<open>EffectFrame\<close> (\<^verbatim>\<open>grillo-verifier/src/frame_v2.rs\<close>): the evidence of an invocation as a tree of nested
    calls and its binding to a contract. \<open>at_path\<close> names the nodes of the tree; what the recursive
    check establishes is stated of every node.
  \<^item> \<open>EffectVerdict\<close> (\<^verbatim>\<open>grillo-verifier/src/verify_v2.rs\<close>): the verdict on a bound invocation, compared with
    the policies read as conditions on the accounts before and after (\<open>transition_respected\<close>).
  \<^item> \<open>TailCodec\<close>, \<open>TailStore\<close> (\<^verbatim>\<open>hopper-runtime/src/tail.rs\<close>): the trait \<^verbatim>\<open>TailCodec\<close> is the locale
    \<open>tail_codec\<close>, interpreted by every implementation; the tail is proved over any codec, and its
    \<open>Seq\<close> is reduced to \<open>FixedVec\<close>.
  \<^item> \<open>ErrorCode\<close> (\<^verbatim>\<open>hopper-runtime/src/error.rs\<close>): the two conversions between errors and \<^verbatim>\<open>u64\<close>.
  \<^item> \<open>Abi\<close> (\<^verbatim>\<open>hopper-core/src/abi\<close>): wire integers of any width, wire booleans, fingerprints.
  \<^item> \<open>FixedVec\<close>, \<open>RingBuffer\<close>, \<open>Journal\<close>, \<open>SortedVec\<close>, \<open>PackedMap\<close>, \<open>SlotMap\<close>, \<open>BitSet\<close>, \<open>Slab\<close>
    (\<^verbatim>\<open>hopper-core/src/collections\<close>): one theory per file. A view is the buffer with the derived
    capacity; each is a simulation of its abstract container, for every buffer the constructor
    accepts and every sequence of calls.
  \<^item> \<open>SegRegistry\<close> (\<^verbatim>\<open>hopper-core/src/account/registry.rs, segment_role.rs\<close>): the table of segments
    inside an account, its initialisation, its locks, and the collections opened on a segment. Runs of
    calls include raw flag writes; a lock survives every run that keeps the lock bit.
  \<^item> \<open>Math\<close> (\<^verbatim>\<open>hopper-core/src/math\<close>), \<open>Finance\<close> (\<^verbatim>\<open>hopper-finance\<close>), \<open>Distribute\<close>, \<open>Vesting\<close>,
    \<open>Staking\<close>, \<open>Lending\<close>, \<open>Multisig\<close> (the crates of those names). \<open>Staking\<close> bounds what all stakers
    of a pool together can claim, and shows the bound is reached.

  Conventions. \<^verbatim>\<open>usize\<close> is a natural number and an account is shorter than \<open>2 ^ 32\<close> bytes where a
  32-bit field must hold a length (Solana's limit is 10 MiB); all other integers are words of
  their width, and arithmetic that would panic is a \<open>Trap\<close>. A value of a \<^verbatim>\<open>Pod\<close> type is its bytes.
  A method on \<^verbatim>\<open>&mut self\<close> returns the new state; one that may fail after a write returns the
  state also with the error. Loops are structural recursions or functions with a measure, so
  every definition is total and no fuel is used.

  What the lemmas show. Each collection and ledger has its invariant, the effect of every
  operation on it, and one theorem over runs of calls, which says at once that answers, final
  state and memory safety are those of the abstract container, error returns included.
  Arithmetic is compared with exact integer formulas; codecs are bijections onto canonical
  encodings. Where the code does not do what it documents, the theorem states what it does.

  Not modelled: code generation and schema (the procedural macros, schema and client
  generators, the command-line tools), which transform programs and do not run on chain;
  wrappers that only marshal a call to the runtime (system calls, cross-program invocation,
  token instruction builders, logging), whose effect is outside this repository;
  examples, tests and benchmarks. The remaining parts of \<^verbatim>\<open>hopper-runtime\<close> and \<^verbatim>\<open>hopper-core\<close> that
  are still open are listed with their reason in the manifest.
\<close>

end
